(* ===== verification/Prelude.thy ===== *)
theory Prelude
  imports Complex_Main "HOL-Library.Word" "HOL-Library.AList"
begin

unbundle bit_operations_syntax

text \<open>
  Shared vocabulary of the development: the machine integers of the Rust code, its
  saturating operators, hash maps as association lists, the result type of fallible
  operations, and the generic interface of a component that keeps an invariant.
\<close>

section \<open>Collections of facts\<close>

named_theorems hm_simps \<open>rewriting of hash map operations\<close>
named_theorems sat_simps \<open>saturating machine arithmetic read as natural numbers\<close>

section \<open>Machine integers\<close>

text \<open>
  Fixed-width integers are words. \<open>usize\<close> is 64 bits wide, as on the targets the
  crate is released for. Counters that the code increments with \<open>fetch_add\<close> wrap.
  Lengths of vectors and loop indices are natural numbers: they are bounded by memory.
\<close>

type_synonym u8 = "8 word"
type_synonym u16 = "16 word"
type_synonym u32 = "32 word"
type_synonym u64 = "64 word"
type_synonym usize = "64 word"

definition sat_add :: "'w::len word \<Rightarrow> 'w word \<Rightarrow> 'w word" where
  "sat_add a b = (if unat a + unat b < 2 ^ LENGTH('w) then a + b else - 1)"

definition sat_sub :: "'w::len word \<Rightarrow> 'w word \<Rightarrow> 'w word" where
  "sat_sub a b = (if a < b then 0 else a - b)"

definition sat_mul :: "'w::len word \<Rightarrow> 'w word \<Rightarrow> 'w word" where
  "sat_mul a b = (if unat a * unat b < 2 ^ LENGTH('w) then a * b else - 1)"

lemma unat_add_small:
  "unat a + unat b < 2 ^ LENGTH('w) \<Longrightarrow> unat (a + b :: 'w::len word) = unat a + unat b"
  by (simp add: unat_word_ariths)

lemma unat_mult_small:
  "unat a * unat b < 2 ^ LENGTH('w) \<Longrightarrow> unat (a * b :: 'w::len word) = unat a * unat b"
  by (simp add: unat_word_ariths)

lemma unat_of_nat_small:
  "n < 2 ^ LENGTH('w) \<Longrightarrow> unat (of_nat n :: 'w::len word) = n"
  by (simp add: unat_of_nat)

lemma unat_max_word: "unat (- 1 :: 'w::len word) = 2 ^ LENGTH('w) - 1"
  by (simp add: unat_word_ariths(6) unat_minus_one word_neq_0_conv unsigned_minus_1_eq_mask mask_eq_exp_minus_1)

lemma unat_le_max: "unat (a :: 'w::len word) \<le> 2 ^ LENGTH('w) - 1"
  using unsigned_less [of a, where ?'a = nat] by linarith

lemma unat_sat_add [sat_simps]:
  "unat (sat_add a b :: 'w::len word) = min (unat a + unat b) (2 ^ LENGTH('w) - 1)"
  by (auto simp: sat_add_def unat_add_small unat_max_word)

lemma sat_add_0 [simp]: "sat_add 0 a = a"
  using unsigned_less [of a, where ?'a = nat] by (simp add: sat_add_def)

lemma unat_sat_sub [sat_simps]: "unat (sat_sub a b) = unat a - unat b"
  by (auto simp: sat_sub_def unat_sub word_less_nat_alt word_le_nat_alt)

lemma unat_sat_mul [sat_simps]:
  "unat (sat_mul a b :: 'w::len word) = min (unat a * unat b) (2 ^ LENGTH('w) - 1)"
  by (auto simp: sat_mul_def unat_mult_small unat_max_word)

section \<open>Hash maps\<close>

text \<open>
  A \<open>HashMap\<close> is an association list with distinct keys. The order of the list is the
  order in which the code would iterate, which Rust leaves unspecified: statements are
  made for every list, hence for every order. Lookup is \<open>map_of\<close>.
\<close>

type_synonym ('k, 'v) hashmap = "('k \<times> 'v) list"

definition hm_wf :: "('k, 'v) hashmap \<Rightarrow> bool" where
  "hm_wf m = distinct (map fst m)"

definition hm_get :: "('k, 'v) hashmap \<Rightarrow> 'k \<Rightarrow> 'v option" where
  "hm_get m k = map_of m k"

definition hm_insert :: "'k \<Rightarrow> 'v \<Rightarrow> ('k, 'v) hashmap \<Rightarrow> ('k, 'v) hashmap" where
  "hm_insert k v m = AList.update k v m"

definition hm_remove :: "'k \<Rightarrow> ('k, 'v) hashmap \<Rightarrow> ('k, 'v) hashmap" where
  "hm_remove k m = AList.delete k m"

definition hm_contains :: "('k, 'v) hashmap \<Rightarrow> 'k \<Rightarrow> bool" where
  "hm_contains m k = (hm_get m k \<noteq> None)"

definition hm_keys :: "('k, 'v) hashmap \<Rightarrow> 'k list" where
  "hm_keys m = map fst m"

definition hm_map_values :: "('v \<Rightarrow> 'w) \<Rightarrow> ('k, 'v) hashmap \<Rightarrow> ('k, 'w) hashmap" where
  "hm_map_values f m = map (\<lambda>(k, v). (k, f v)) m"

lemma hm_wf_Nil [hm_simps, simp]: "hm_wf []"
  by (simp add: hm_wf_def)

lemma hm_wf_insert [hm_simps, simp]: "hm_wf m \<Longrightarrow> hm_wf (hm_insert k v m)"
  by (simp add: hm_wf_def hm_insert_def distinct_update)

lemma hm_wf_remove [hm_simps, simp]: "hm_wf m \<Longrightarrow> hm_wf (hm_remove k m)"
  by (simp add: hm_wf_def hm_remove_def distinct_delete)

lemma hm_wf_map_values [hm_simps, simp]: "hm_wf (hm_map_values f m) = hm_wf m"
  by (simp add: hm_wf_def hm_map_values_def comp_def case_prod_unfold)

lemma hm_get_Nil [hm_simps, simp]: "hm_get [] k = None"
  by (simp add: hm_get_def)

lemma hm_get_insert [hm_simps]:
  "hm_get (hm_insert k v m) k' = (if k' = k then Some v else hm_get m k')"
  by (simp add: hm_get_def hm_insert_def update_conv')

lemma hm_get_remove [hm_simps]:
  "hm_get (hm_remove k m) k' = (if k' = k then None else hm_get m k')"
  by (simp add: hm_get_def hm_remove_def delete_conv')

lemma hm_get_map_values [hm_simps]:
  "hm_get (hm_map_values f m) k = map_option f (hm_get m k)"
  by (induction m) (auto simp: hm_get_def hm_map_values_def)

lemma hm_keys_map_values [hm_simps, simp]: "hm_keys (hm_map_values f m) = hm_keys m"
  by (simp add: hm_keys_def hm_map_values_def comp_def case_prod_unfold)

lemma hm_get_None_iff: "hm_get m k = None \<longleftrightarrow> k \<notin> set (hm_keys m)"
  by (simp add: hm_get_def hm_keys_def map_of_eq_None_iff)

lemma hm_get_SomeD: "hm_get m k = Some v \<Longrightarrow> k \<in> set (hm_keys m)"
  using hm_get_None_iff [of m k] by auto

lemma hm_get_in_set: "hm_get m k = Some v \<Longrightarrow> (k, v) \<in> set m"
  by (simp add: hm_get_def map_of_SomeD)

lemma hm_get_eq_Some_iff: "hm_wf m \<Longrightarrow> hm_get m k = Some v \<longleftrightarrow> (k, v) \<in> set m"
  by (simp add: hm_get_def hm_wf_def)

lemma hm_keys_insert [hm_simps]:
  "set (hm_keys (hm_insert k v m)) = insert k (set (hm_keys m))"
  by (auto simp: hm_keys_def hm_insert_def update_keys)

lemma hm_keys_remove [hm_simps]:
  "set (hm_keys (hm_remove k m)) = set (hm_keys m) - {k}"
  by (auto simp: hm_keys_def hm_remove_def delete_keys)

lemma hm_wf_length: "hm_wf m \<Longrightarrow> length m = card (set (hm_keys m))"
  by (metis distinct_card hm_keys_def hm_wf_def length_map)

lemma length_hm_insert:
  "hm_wf m \<Longrightarrow> length (hm_insert k v m) = (if hm_contains m k then length m else Suc (length m))"
  by (simp add: hm_wf_length hm_keys_insert hm_contains_def hm_get_None_iff card_insert_if)

lemma length_hm_remove:
  "hm_wf m \<Longrightarrow> length (hm_remove k m) = (if hm_contains m k then length m - 1 else length m)"
  by (simp add: hm_wf_length hm_keys_remove hm_contains_def hm_get_None_iff card_Diff_singleton_if)

section \<open>Components that keep an invariant\<close>

text \<open>
  The contract every stateful component of the router offers its clients: a predicate that
  every operation preserves. Whatever sequence of calls the callers make, the predicate
  still holds; facts that follow from it hold in every state the component can be in.
\<close>

locale stateful =
  fixes apply_op :: "'op \<Rightarrow> 's \<Rightarrow> 's"
    and inv :: "'s \<Rightarrow> bool"
  assumes op_inv: "inv s \<Longrightarrow> inv (apply_op x s)"
begin

lemma run_inv: "inv s \<Longrightarrow> inv (fold apply_op xs s)"
  by (induction xs arbitrary: s) (auto intro: op_inv)

lemma run_prefix_inv: "inv s \<Longrightarrow> inv (fold apply_op (take n xs) s)"
  by (rule run_inv)

lemma run_fact: "(\<And>t. inv t \<Longrightarrow> P t) \<Longrightarrow> inv s \<Longrightarrow> P (fold apply_op xs s)"
  by (blast intro: run_inv)

end

text \<open>
  An encoder and a decoder that invert each other on the values an encoder accepts.
\<close>

locale codec =
  fixes encode :: "'a \<Rightarrow> 'b"
    and decode :: "'b \<Rightarrow> 'a option"
    and valid :: "'a \<Rightarrow> bool"
  assumes roundtrip: "valid x \<Longrightarrow> decode (encode x) = Some x"
begin

lemma encode_inj: "valid x \<Longrightarrow> valid y \<Longrightarrow> encode x = encode y \<Longrightarrow> x = y"
  using roundtrip by (metis option.inject)

lemma inj_on_valid: "inj_on encode {x. valid x}"
  by (auto intro: inj_onI encode_inj)

end

section \<open>Guarded calls\<close>

text \<open>
  The contract of a breaker that guards calls to a service: the caller asks for permission,
  and reports the outcome of a call that was permitted. While the breaker is blocked it
  refuses and nothing changes.
\<close>

locale breaker =
  fixes permit :: "'t \<Rightarrow> 's \<Rightarrow> bool \<times> 's"
    and report :: "'t \<Rightarrow> bool \<Rightarrow> 's \<Rightarrow> 's"
    and blocked :: "'t \<Rightarrow> 's \<Rightarrow> bool"
  assumes blocked_refuses: "blocked t s \<Longrightarrow> permit t s = (False, s)"
begin

definition guarded :: "'t \<times> bool \<Rightarrow> 's \<Rightarrow> 's" where
  "guarded call s =
    (case permit (fst call) s of
       (True, s') \<Rightarrow> report (fst call) (snd call) s'
     | (False, s') \<Rightarrow> s')"

lemma guarded_blocked: "blocked (fst c) s \<Longrightarrow> guarded c s = s"
  by (simp add: guarded_def blocked_refuses)

lemma run_blocked: "\<forall>c \<in> set cs. blocked (fst c) s \<Longrightarrow> fold guarded cs s = s"
  by (induction cs) (simp_all add: guarded_blocked)

end

section \<open>Changing one element of a vector\<close>

text \<open>\<open>iter_mut().find(..)\<close> and an update: the first element that satisfies a test is changed.\<close>

fun update_first :: "('a \<Rightarrow> bool) \<Rightarrow> ('a \<Rightarrow> 'a) \<Rightarrow> 'a list \<Rightarrow> 'a list" where
  "update_first P f [] = []"
| "update_first P f (x # xs) = (if P x then f x # xs else x # update_first P f xs)"

lemma length_update_first [simp]: "length (update_first P f xs) = length xs"
  by (induction xs) auto

lemma update_first_none: "find P xs = None \<Longrightarrow> update_first P f xs = xs"
  by (induction xs) (auto split: if_splits)

lemma map_update_first [simp]: "(\<And>x. g (f x) = g x) \<Longrightarrow> map g (update_first P f xs) = map g xs"
  by (induction xs) auto

section \<open>Decimal printing\<close>

text \<open>The digits of \<open>{n}\<close> in a format string.\<close>

fun nat_to_string :: "nat \<Rightarrow> string" where
  "nat_to_string n =
     (if n < 10 then [char_of (48 + n)] else nat_to_string (n div 10) @ [char_of (48 + n mod 10)])"

declare nat_to_string.simps [simp del]

end
