(* ===== verification/Floats.thy ===== *)
theory Floats
  imports Prelude "HOL-Library.Log_Nat"
begin

text \<open>
  The binary floating point numbers of Rust (\<open>f32\<close>, \<open>f64\<close>): a value is NaN, an infinity
  or a rational number, and every arithmetic operator computes the exact rational result
  and rounds it to nearest, ties to even, in the target format, subnormals included. The
  sign of zero is not represented: it is visible in the source language only through
  division by a zero, formatting and bit patterns. The operators compute, so closed terms
  evaluate. The lemmas say that rounding is monotone, exact on integers the
  format holds, and that \<open>as u64\<close> truncates and saturates.
\<close>

datatype fp = FNaN | FInf bool | FFin rat

type_synonym f64 = fp
type_synonym f32 = fp

section \<open>Comparison\<close>

fun fp_lt :: "fp \<Rightarrow> fp \<Rightarrow> bool" where
  "fp_lt FNaN _ = False"
| "fp_lt _ FNaN = False"
| "fp_lt (FInf s) (FInf t) = (s \<and> \<not> t)"
| "fp_lt (FInf s) (FFin _) = s"
| "fp_lt (FFin _) (FInf t) = (\<not> t)"
| "fp_lt (FFin a) (FFin b) = (a < b)"

fun fp_le :: "fp \<Rightarrow> fp \<Rightarrow> bool" where
  "fp_le FNaN _ = False"
| "fp_le _ FNaN = False"
| "fp_le (FInf s) (FInf t) = (s \<or> \<not> t)"
| "fp_le (FInf s) (FFin _) = s"
| "fp_le (FFin _) (FInf t) = (\<not> t)"
| "fp_le (FFin a) (FFin b) = (a \<le> b)"

definition fp_is_finite :: "fp \<Rightarrow> bool" where
  "fp_is_finite x = (case x of FFin _ \<Rightarrow> True | _ \<Rightarrow> False)"

lemma fp_le_trans: "fp_le a b \<Longrightarrow> fp_le b c \<Longrightarrow> fp_le a c"
  by (cases a; cases b; cases c) auto

lemma fp_lt_le_trans: "fp_lt a b \<Longrightarrow> fp_le b c \<Longrightarrow> fp_lt a c"
  by (cases a; cases b; cases c) auto

lemma fp_lt_imp_not_le: "fp_lt a b \<Longrightarrow> \<not> fp_le b a"
  by (cases a; cases b) auto

lemma fp_le_refl: "a \<noteq> FNaN \<Longrightarrow> fp_le a a"
  by (cases a) auto

lemma fp_le_notNaN: "fp_le a b \<Longrightarrow> a \<noteq> FNaN \<and> b \<noteq> FNaN"
  by (cases a; cases b) auto

section \<open>Powers of two and the binary exponent\<close>

definition pow2 :: "int \<Rightarrow> rat" where
  "pow2 e = (if 0 \<le> e then 2 ^ nat e else 1 / 2 ^ nat (- e))"

lemma pow2_powi: "pow2 e = 2 powi e"
  by (simp add: pow2_def power_int_def field_simps)

lemma pow2_pos [simp]: "0 < pow2 e"
  by (simp add: pow2_def)

lemma pow2_neq0 [simp]: "pow2 e \<noteq> 0"
  using pow2_pos [of e] by linarith

lemma pow2_add: "pow2 (a + b) = pow2 a * pow2 b"
  by (simp add: pow2_powi power_int_add)

lemma pow2_diff: "pow2 (a - b) = pow2 a / pow2 b"
  by (simp add: pow2_powi power_int_diff)

lemma pow2_strict_mono: "a < b \<Longrightarrow> pow2 a < pow2 b"
  by (simp add: pow2_powi power_int_strict_increasing)

lemma pow2_less_iff: "pow2 a < pow2 b \<longleftrightarrow> a < b"
  using pow2_strict_mono [of a b] pow2_strict_mono [of b a]
  by (cases a b rule: linorder_cases) auto

lemma pow2_le_iff: "pow2 a \<le> pow2 b \<longleftrightarrow> a \<le> b"
  using pow2_less_iff [of b a] by (simp add: not_less [symmetric])

lemma pow2_int: "pow2 (int n) = of_int (2 ^ n)"
  by (simp add: pow2_def)

text \<open>\<open>flog2 q\<close> is the exponent \<open>e\<close> with \<open>2^e \<le> q < 2^(e+1)\<close>, for positive \<open>q\<close>.\<close>

definition flog2 :: "rat \<Rightarrow> int" where
  "flog2 q = (let (a, b) = quotient_of q; k = bitlen a - bitlen b
              in if pow2 k \<le> q then k else k - 1)"

lemma bitlen_pow2: "0 < a \<Longrightarrow> pow2 (bitlen a - 1) \<le> of_int a \<and> of_int a < pow2 (bitlen a)"
proof -
  assume a: "0 < a"
  have n: "bitlen a = int (nat (bitlen a))" "bitlen a - 1 = int (nat (bitlen a) - 1)"
    using bitlen_nonneg [of a] bitlen_eq_zero_iff [of a] a by auto
  have "2 ^ (nat (bitlen a) - 1) \<le> a \<and> a < 2 ^ nat (bitlen a)"
    using bitlen_bounds [of a] a n(2) by (metis nat_int)
  then have "(of_int (2 ^ (nat (bitlen a) - 1)) :: rat) \<le> of_int a
      \<and> (of_int a :: rat) < of_int (2 ^ nat (bitlen a))"
    by linarith
  then show ?thesis using n by (metis pow2_int)
qed

lemma flog2_bounds:
  assumes "0 < q"
  shows "pow2 (flog2 q) \<le> q \<and> q < pow2 (flog2 q + 1)"
proof -
  obtain a b where ab: "quotient_of q = (a, b)" by (cases "quotient_of q")
  have b: "0 < b" using ab by (rule quotient_of_denom_pos)
  have q: "q = of_int a / of_int b" using ab by (rule quotient_of_div)
  have a: "0 < a" using assms b unfolding q by (simp add: zero_less_divide_iff)
  let ?k = "bitlen a - bitlen b"
  have A: "pow2 (bitlen a - 1) \<le> of_int a" "of_int a < pow2 (bitlen a)"
    and B: "pow2 (bitlen b - 1) \<le> of_int b" "of_int b < pow2 (bitlen b)"
    using bitlen_pow2 [OF a] bitlen_pow2 [OF b] by auto
  have bp: "(0::rat) < of_int b" using b by simp
  have "q < pow2 (bitlen a) / pow2 (bitlen b - 1)"
    unfolding q by (rule frac_less) (use a b A B in auto)
  then have up: "q < pow2 (?k + 1)"
    by (simp add: pow2_diff [symmetric] algebra_simps)
  have "pow2 (bitlen a - 1) / pow2 (bitlen b) \<le> q"
    unfolding q by (rule frac_le) (use a b A B in auto)
  then have lo: "pow2 (?k - 1) \<le> q"
    by (simp add: pow2_diff [symmetric] algebra_simps)
  show ?thesis using up lo by (simp add: flog2_def ab Let_def)
qed

lemma flog2_mono: "0 < q \<Longrightarrow> q \<le> r \<Longrightarrow> flog2 q \<le> flog2 r"
  using flog2_bounds [of q] flog2_bounds [of r] pow2_less_iff [of "flog2 q" "flog2 r + 1"]
  by linarith

section \<open>Rounding to nearest, ties to even\<close>

definition rne :: "rat \<Rightarrow> int" where
  "rne x = (let f = \<lfloor>x\<rfloor>; d = x - of_int f
            in if d < 1 / 2 then f else if 1 / 2 < d then f + 1 else if even f then f else f + 1)"

lemma rne_of_int [simp]: "rne (of_int n) = n"
  by (simp add: rne_def)

lemma rne_near: "\<bar>x - of_int (rne x)\<bar> \<le> 1 / 2"
  unfolding rne_def Let_def by (simp add: abs_if) linarith

lemma rne_eqI: "\<bar>x - of_int n\<bar> < 1 / 2 \<Longrightarrow> rne x = n"
proof -
  assume "\<bar>x - of_int n\<bar> < 1 / 2"
  then have "\<bar>of_int (rne x) - of_int n :: rat\<bar> < 1" using rne_near [of x] by linarith
  then have "\<bar>rne x - n\<bar> < 1" by linarith
  then show ?thesis by linarith
qed

lemma rne_tie: "x = of_int n + 1 / 2 \<Longrightarrow> even n \<Longrightarrow> rne x = n"
proof -
  assume x: "x = of_int n + 1 / 2" and "even n"
  have "\<lfloor>x\<rfloor> = n" by (rule floor_unique) (simp_all add: x)
  then show ?thesis using \<open>even n\<close> x by (simp add: rne_def Let_def)
qed

lemma rne_floor: "\<lfloor>x\<rfloor> \<le> rne x \<and> rne x \<le> \<lfloor>x\<rfloor> + 1"
  by (simp add: rne_def Let_def)

lemma rne_mono: "x \<le> y \<Longrightarrow> rne x \<le> rne y"
proof -
  assume xy: "x \<le> y"
  then have f: "\<lfloor>x\<rfloor> \<le> \<lfloor>y\<rfloor>" by (rule floor_mono)
  show ?thesis
  proof (cases "\<lfloor>x\<rfloor> = \<lfloor>y\<rfloor>")
    case True
    then show ?thesis using xy by (auto simp: rne_def Let_def)
  next
    case False
    with f rne_floor [of x] rne_floor [of y] show ?thesis by linarith
  qed
qed

lemma rne_ge: "of_int n \<le> x \<Longrightarrow> n \<le> rne x"
  using rne_mono [of "of_int n" x] by simp

lemma rne_le: "x \<le> of_int n \<Longrightarrow> rne x \<le> n"
  using rne_mono [of x "of_int n"] by simp

text \<open>
  A format has \<open>p\<close> significand bits and exponents from \<open>emin\<close> to \<open>emax\<close>; the unit in
  the last place of \<open>q\<close> is \<open>2^(e - p + 1)\<close> for its (clamped) exponent \<open>e\<close>.
\<close>

definition fexp :: "int \<Rightarrow> rat \<Rightarrow> int" where
  "fexp emin q = max (flog2 q) emin"

definition round_pos :: "nat \<Rightarrow> int \<Rightarrow> rat \<Rightarrow> rat" where
  "round_pos p emin q = (let u = pow2 (fexp emin q - int p + 1) in of_int (rne (q / u)) * u)"

definition rnd :: "nat \<Rightarrow> int \<Rightarrow> int \<Rightarrow> rat \<Rightarrow> fp" where
  "rnd p emin emax q =
    (if q = 0 then FFin 0
     else let r = round_pos p emin \<bar>q\<bar>
          in if pow2 (emax + 1) \<le> r then FInf (q < 0) else FFin (if q < 0 then - r else r))"

definition rnd64 :: "rat \<Rightarrow> f64" where
  "rnd64 = rnd 53 (- 1022) 1023"

definition rnd32 :: "rat \<Rightarrow> f32" where
  "rnd32 = rnd 24 (- 126) 127"

lemma round_pos_nonneg: "0 < q \<Longrightarrow> 0 \<le> round_pos p emin q"
  unfolding round_pos_def Let_def
  by (intro mult_nonneg_nonneg) (auto intro!: rne_ge [where n = 0, simplified] simp: less_imp_le)

lemma round_pos_le_pow2:
  assumes "0 < q" "q \<le> pow2 k" "fexp emin q \<le> k" "k \<le> fexp emin q + 1" "0 < p"
  shows "round_pos p emin q \<le> pow2 k"
proof -
  let ?u = "pow2 (fexp emin q - int p + 1)"
  let ?n = "nat (k - (fexp emin q - int p + 1))"
  have n: "pow2 k / ?u = of_int (2 ^ ?n)"
    using assms by (simp add: pow2_diff [symmetric] pow2_int [symmetric] del: of_int_power)
  have "q / ?u \<le> of_int (2 ^ ?n)"
    unfolding n [symmetric] by (rule divide_right_mono) (use assms in \<open>auto simp: less_imp_le\<close>)
  then have "rne (q / ?u) \<le> 2 ^ ?n" by (rule rne_le)
  then have "of_int (rne (q / ?u)) \<le> pow2 k / ?u" unfolding n by (simp only: of_int_le_iff)
  then show ?thesis by (simp add: round_pos_def Let_def pos_le_divide_eq)
qed

lemma round_pos_ge_pow2:
  assumes "0 < q" "pow2 k \<le> q" "fexp emin q - int p + 1 \<le> k"
  shows "pow2 k \<le> round_pos p emin q"
proof -
  let ?u = "pow2 (fexp emin q - int p + 1)"
  let ?n = "nat (k - (fexp emin q - int p + 1))"
  have n: "pow2 k / ?u = of_int (2 ^ ?n)"
    using assms by (simp add: pow2_diff [symmetric] pow2_int [symmetric] del: of_int_power)
  have "of_int (2 ^ ?n) \<le> q / ?u"
    unfolding n [symmetric] by (rule divide_right_mono) (use assms in \<open>auto simp: less_imp_le\<close>)
  then have "2 ^ ?n \<le> rne (q / ?u)" by (rule rne_ge)
  then have "pow2 k / ?u \<le> of_int (rne (q / ?u))" unfolding n by (simp only: of_int_le_iff)
  then show ?thesis by (simp add: round_pos_def Let_def pos_divide_le_eq)
qed

lemma round_pos_mono:
  assumes q: "0 < q" and qr: "q \<le> r" and p: "0 < p"
  shows "round_pos p emin q \<le> round_pos p emin r"
proof -
  have r: "0 < r" using q qr by linarith
  have le: "fexp emin q \<le> fexp emin r" using flog2_mono [OF q qr] by (simp add: fexp_def)
  show ?thesis
  proof (cases "fexp emin q = fexp emin r")
    case True
    have "rne (q / pow2 (fexp emin q - int p + 1)) \<le> rne (r / pow2 (fexp emin q - int p + 1))"
      by (rule rne_mono) (use qr in \<open>simp add: divide_right_mono less_imp_le\<close>)
    then show ?thesis by (simp add: round_pos_def Let_def True mult_right_mono less_imp_le)
  next
    case False
    with le have lt: "fexp emin q < fexp emin r" by simp
    then have er: "fexp emin r = flog2 r" by (auto simp: fexp_def max_def split: if_splits)
    have "q < pow2 (flog2 q + 1)" using flog2_bounds [OF q] by simp
    moreover have "pow2 (flog2 q + 1) \<le> pow2 (fexp emin q + 1)"
      by (simp add: pow2_le_iff fexp_def)
    ultimately have "q \<le> pow2 (fexp emin q + 1)" by linarith
    then have "round_pos p emin q \<le> pow2 (fexp emin q + 1)"
      by (intro round_pos_le_pow2 [OF q]) (use p in auto)
    also have "\<dots> \<le> pow2 (fexp emin r)" using lt by (simp add: pow2_le_iff)
    also have "\<dots> \<le> round_pos p emin r"
      by (rule round_pos_ge_pow2 [OF r]) (use flog2_bounds [OF r] er p in auto)
    finally show ?thesis .
  qed
qed

lemma rnd_mono:
  assumes "q \<le> r" "0 < p"
  shows "fp_le (rnd p emin emax q) (rnd p emin emax r)"
proof -
  consider "0 < q" | "q = 0" | "q < 0" "0 < r" | "q < 0" "r = 0" | "q < 0" "r < 0"
    by linarith
  then show ?thesis
  proof cases
    case 1
    with assms round_pos_mono [of q r p emin] show ?thesis by (auto simp: rnd_def Let_def)
  next
    case 2
    with assms round_pos_nonneg [of r p emin] show ?thesis by (auto simp: rnd_def Let_def)
  next
    case 3
    with round_pos_nonneg [of r p emin] round_pos_nonneg [of "- q" p emin]
    show ?thesis by (auto simp: rnd_def Let_def)
  next
    case 4
    with round_pos_nonneg [of "- q" p emin] show ?thesis by (auto simp: rnd_def Let_def)
  next
    case 5
    with assms round_pos_mono [of "- r" "- q" p emin] show ?thesis
      by (auto simp: rnd_def Let_def)
  qed
qed

lemma rnd_notNaN [simp]: "rnd p emin emax q \<noteq> FNaN"
  by (simp add: rnd_def Let_def)

lemmas rnd64_mono = rnd_mono [where p = 53 and emin = "- 1022" and emax = 1023, folded rnd64_def, simplified]

section \<open>Arithmetic on \<open>f64\<close>\<close>

fun f64_neg :: "f64 \<Rightarrow> f64" where
  "f64_neg FNaN = FNaN"
| "f64_neg (FInf s) = FInf (\<not> s)"
| "f64_neg (FFin a) = FFin (- a)"

fun f64_add :: "f64 \<Rightarrow> f64 \<Rightarrow> f64" where
  "f64_add FNaN _ = FNaN"
| "f64_add _ FNaN = FNaN"
| "f64_add (FInf s) (FInf t) = (if s = t then FInf s else FNaN)"
| "f64_add (FInf s) (FFin _) = FInf s"
| "f64_add (FFin _) (FInf t) = FInf t"
| "f64_add (FFin a) (FFin b) = rnd64 (a + b)"

definition f64_sub :: "f64 \<Rightarrow> f64 \<Rightarrow> f64" where
  "f64_sub a b = f64_add a (f64_neg b)"

fun f64_mul :: "f64 \<Rightarrow> f64 \<Rightarrow> f64" where
  "f64_mul FNaN _ = FNaN"
| "f64_mul _ FNaN = FNaN"
| "f64_mul (FInf s) (FInf t) = FInf (s \<noteq> t)"
| "f64_mul (FInf s) (FFin b) = (if b = 0 then FNaN else FInf (s \<noteq> (b < 0)))"
| "f64_mul (FFin a) (FInf t) = (if a = 0 then FNaN else FInf (t \<noteq> (a < 0)))"
| "f64_mul (FFin a) (FFin b) = rnd64 (a * b)"

text \<open>A zero divisor counts as positive (see above).\<close>

fun f64_div :: "f64 \<Rightarrow> f64 \<Rightarrow> f64" where
  "f64_div FNaN _ = FNaN"
| "f64_div _ FNaN = FNaN"
| "f64_div (FInf s) (FInf t) = FNaN"
| "f64_div (FInf s) (FFin b) = FInf (s \<noteq> (b < 0))"
| "f64_div (FFin a) (FInf t) = FFin 0"
| "f64_div (FFin a) (FFin b) =
     (if b = 0 then (if a = 0 then FNaN else FInf (a < 0)) else rnd64 (a / b))"

text \<open>\<open>f64::max\<close> and \<open>f64::min\<close> ignore a NaN operand; \<open>clamp\<close> keeps one.\<close>

definition f64_max :: "f64 \<Rightarrow> f64 \<Rightarrow> f64" where
  "f64_max a b = (if a = FNaN then b else if b = FNaN then a else if fp_lt a b then b else a)"

definition f64_min :: "f64 \<Rightarrow> f64 \<Rightarrow> f64" where
  "f64_min a b = (if a = FNaN then b else if b = FNaN then a else if fp_lt b a then b else a)"

definition f64_clamp :: "f64 \<Rightarrow> f64 \<Rightarrow> f64 \<Rightarrow> f64" where
  "f64_clamp x lo hi = (if fp_lt x lo then lo else if fp_lt hi x then hi else x)"

text \<open>\<open>floor\<close> and \<open>ceil\<close> are exact: the result of either has no more significant bits.\<close>

definition f64_floor :: "f64 \<Rightarrow> f64" where
  "f64_floor x = (case x of FFin q \<Rightarrow> FFin (of_int \<lfloor>q\<rfloor>) | _ \<Rightarrow> x)"

definition f64_ceil :: "f64 \<Rightarrow> f64" where
  "f64_ceil x = (case x of FFin q \<Rightarrow> FFin (of_int \<lceil>q\<rceil>) | _ \<Rightarrow> x)"

text \<open>\<open>f64::round\<close>: to the nearest whole number, halves away from zero.\<close>

definition f64_round :: "f64 \<Rightarrow> f64" where
  "f64_round x = (case x of FFin q \<Rightarrow> FFin (of_int (if 0 \<le> q then \<lfloor>q + 1 / 2\<rfloor> else - \<lfloor>1 / 2 - q\<rfloor>)) | _ \<Rightarrow> x)"

text \<open>\<open>n as f64\<close> rounds; \<open>x as u64\<close> truncates towards zero and saturates, NaN gives 0.\<close>

definition f64_of_nat :: "nat \<Rightarrow> f64" where
  "f64_of_nat n = rnd64 (of_nat n)"

definition f64_of_u64 :: "u64 \<Rightarrow> f64" where
  "f64_of_u64 w = f64_of_nat (unat w)"

fun f64_to_u64 :: "f64 \<Rightarrow> u64" where
  "f64_to_u64 FNaN = 0"
| "f64_to_u64 (FInf s) = (if s then 0 else - 1)"
| "f64_to_u64 (FFin a) =
     (if a \<le> 0 then 0 else if 2 ^ 64 \<le> a then - 1 else of_int \<lfloor>a\<rfloor>)"

lemma f64_clamp_bounds:
  "x \<noteq> FNaN \<Longrightarrow> fp_le lo hi \<Longrightarrow> fp_le lo (f64_clamp x lo hi) \<and> fp_le (f64_clamp x lo hi) hi"
  by (cases x; cases lo; cases hi) (auto simp: f64_clamp_def)

lemma unat_f64_to_u64_fin:
  "0 \<le> a \<Longrightarrow> a < 2 ^ 64 \<Longrightarrow> unat (f64_to_u64 (FFin a)) = nat \<lfloor>a\<rfloor>"
proof -
  assume a: "0 \<le> a" "a < 2 ^ 64"
  have "\<lfloor>a\<rfloor> < 2 ^ 64" using a(2) by (simp add: floor_less_iff)
  moreover have "0 \<le> \<lfloor>a\<rfloor>" using a(1) by simp
  ultimately have "uint (of_int \<lfloor>a\<rfloor> :: u64) = \<lfloor>a\<rfloor>"
    by (simp add: unsigned_of_int take_bit_int_eq_self)
  moreover have "f64_to_u64 (FFin a) = of_int \<lfloor>a\<rfloor>"
  proof (cases "a = 0")
    case True
    then show ?thesis by simp
  next
    case False
    then have "\<not> a \<le> 0" and "\<not> 2 ^ 64 \<le> a" using a by linarith+
    then show ?thesis by (simp only: f64_to_u64.simps if_False)
  qed
  ultimately show ?thesis by (simp only: unat_eq_nat_uint)
qed

lemma f64_to_u64_mono: "fp_le x y \<Longrightarrow> f64_to_u64 x \<le> f64_to_u64 y"
proof (cases x; cases y)
  fix a b assume xy: "x = FFin a" "y = FFin b" and le: "fp_le x y"
  then have ab: "a \<le> b" by simp
  consider "a \<le> 0" | "2 ^ 64 \<le> b" | "0 < a" "b < 2 ^ 64" by linarith
  then show "f64_to_u64 x \<le> f64_to_u64 y"
  proof cases
    case 3
    then have "unat (f64_to_u64 (FFin a)) \<le> unat (f64_to_u64 (FFin b))"
      using ab unat_f64_to_u64_fin [of a] unat_f64_to_u64_fin [of b] nat_mono [OF floor_mono [OF ab]]
      by linarith
    then show ?thesis using xy by (simp only: word_le_nat_alt)
  qed (use xy ab in auto)
qed (auto split: if_splits)

lemma round_pos_exact:
  assumes "q = of_int n * pow2 (fexp emin q - int p + 1)"
  shows "round_pos p emin q = q"
proof -
  have "q / pow2 (fexp emin q - int p + 1) = of_int n" by (subst assms) simp
  then show ?thesis unfolding round_pos_def Let_def using assms by simp
qed

lemma f64_of_nat_exact:
  assumes n: "n < 2 ^ 53"
  shows "f64_of_nat n = FFin (of_nat n)"
proof (cases "n = 0")
  case True
  then show ?thesis by (simp add: f64_of_nat_def rnd64_def rnd_def)
next
  case False
  let ?q = "of_nat n :: rat"
  have q: "0 < ?q" using False by simp
  have lt: "?q < pow2 53" using n of_nat_less_iff [of n "2 ^ 53", where ?'a = rat]
    by (simp add: pow2_def)
  have ge: "1 \<le> ?q" using False by (metis One_nat_def Suc_leI gr0I of_nat_1 of_nat_le_iff)
  have "pow2 (flog2 ?q) < pow2 53" using flog2_bounds [OF q] lt by linarith
  then have f: "flog2 ?q < 53" by (simp add: pow2_less_iff)
  have "pow2 0 < pow2 (flog2 ?q + 1)" using flog2_bounds [OF q] ge by (simp add: pow2_def)
  then have f0: "0 \<le> flog2 ?q" by (simp only: pow2_less_iff)
  have e: "fexp (- 1022) ?q = flog2 ?q" using f0 by (simp add: fexp_def)
  let ?k = "52 - flog2 ?q"
  have k: "pow2 (fexp (- 1022) ?q - int 53 + 1) = 1 / of_int (2 ^ nat ?k)"
    using f by (simp add: e pow2_def)
  have "?q = of_int (int n * 2 ^ nat ?k) * pow2 (fexp (- 1022) ?q - int 53 + 1)"
    unfolding k by simp
  then have "round_pos 53 (- 1022) ?q = ?q" by (rule round_pos_exact)
  moreover have "\<not> pow2 1024 \<le> ?q"
    using lt pow2_strict_mono [of 53 1024] by simp
  ultimately show ?thesis using False
    by (simp add: f64_of_nat_def rnd64_def rnd_def Let_def)
qed

lemma f64_of_nat_mono: "m \<le> n \<Longrightarrow> fp_le (f64_of_nat m) (f64_of_nat n)"
  by (simp add: f64_of_nat_def rnd64_mono)

lemma f64_of_nat_roundtrip: "n < 2 ^ 53 \<Longrightarrow> f64_to_u64 (f64_of_nat n) = of_nat n"
proof -
  assume n: "n < 2 ^ 53"
  have "(of_nat n :: rat) < 2 ^ 64"
    using n of_nat_less_iff [of n "2 ^ 64", where ?'a = rat] by simp
  then show ?thesis by (simp add: f64_of_nat_exact [OF n])
qed

section \<open>The unit interval\<close>

text \<open>
  Rounding to nearest errs by at most half a unit in the last place, which is at most
  \<open>2^-54\<close> below 1. A convex combination of two numbers of the unit interval therefore
  stays in it, also when computed with rounding: this keeps moving averages bounded.
\<close>

definition in_unit :: "f64 \<Rightarrow> bool" where
  "in_unit x = (case x of FFin q \<Rightarrow> 0 \<le> q \<and> q \<le> 1 | _ \<Rightarrow> False)"

lemma in_unitE: "in_unit x \<Longrightarrow> (\<And>q. x = FFin q \<Longrightarrow> 0 \<le> q \<Longrightarrow> q \<le> 1 \<Longrightarrow> P) \<Longrightarrow> P"
  by (cases x) (auto simp: in_unit_def)

lemma in_unit_FFin [simp]: "in_unit (FFin q) \<longleftrightarrow> 0 \<le> q \<and> q \<le> 1"
  by (simp add: in_unit_def)

lemma in_unit_clamp: "x \<noteq> FNaN \<Longrightarrow> in_unit (f64_clamp x (FFin 0) (FFin 1))"
  by (cases x) (auto simp: f64_clamp_def)

lemma rnd64_0 [simp]: "rnd64 0 = FFin 0"
  by (simp add: rnd64_def rnd_def)

lemma rnd64_pos:
  assumes "0 < q" "round_pos 53 (- 1022) q \<le> pow2 0"
  shows "rnd64 q = FFin (round_pos 53 (- 1022) q)"
proof -
  have "pow2 0 < pow2 1024" by (rule pow2_strict_mono) simp
  then have "\<not> pow2 1024 \<le> round_pos 53 (- 1022) q" using assms(2) by linarith
  then show ?thesis using assms(1) by (simp add: rnd64_def rnd_def Let_def)
qed

lemma flog2_eqI: "pow2 e \<le> q \<Longrightarrow> q < pow2 (e + 1) \<Longrightarrow> flog2 q = e"
proof -
  assume e: "pow2 e \<le> q" "q < pow2 (e + 1)"
  then have q: "0 < q" using pow2_pos [of e] by linarith
  then have "pow2 (flog2 q) < pow2 (e + 1)" "pow2 e < pow2 (flog2 q + 1)"
    using flog2_bounds [OF q] e by linarith+
  then show ?thesis by (simp add: pow2_less_iff)
qed

lemma fexp_le_0: "0 < q \<Longrightarrow> q \<le> 1 \<Longrightarrow> fexp (- 1022) q \<le> 0"
proof -
  assume q: "0 < q" "q \<le> 1"
  have "pow2 (flog2 q) \<le> pow2 0" using flog2_bounds [OF q(1)] q(2) by (simp add: pow2_def)
  then show ?thesis by (simp add: fexp_def pow2_le_iff)
qed

lemma round_pos_unit:
  assumes "0 < q" "q \<le> 1"
  shows "round_pos 53 (- 1022) q \<le> 1"
proof -
  have "flog2 1 = 0" by (rule flog2_eqI) (simp_all add: pow2_def)
  then have one: "fexp (- 1022) 1 = 0" by (simp add: fexp_def)
  have "round_pos 53 (- 1022) q \<le> round_pos 53 (- 1022) 1"
    using assms by (intro round_pos_mono) auto
  moreover have "round_pos 53 (- 1022) 1 \<le> pow2 0"
    by (rule round_pos_le_pow2) (simp_all add: one pow2_def)
  ultimately show ?thesis by (simp add: pow2_def)
qed

lemma round_pos_unit_error:
  assumes "0 < q" "q \<le> 1"
  shows "round_pos 53 (- 1022) q \<le> q + 1 / 2 ^ 54"
proof (cases "q = 1")
  case True
  then show ?thesis using round_pos_unit [OF assms] by simp
next
  case False
  then have lt: "q < pow2 0" using assms by (simp add: pow2_def)
  have "pow2 (flog2 q) < pow2 0" using flog2_bounds [OF assms(1)] lt by linarith
  then have f: "fexp (- 1022) q \<le> - 1" by (simp add: fexp_def pow2_less_iff)
  define u where "u = pow2 (fexp (- 1022) q - int 53 + 1)"
  have u: "0 < u" "u \<le> 1 / 2 ^ 53"
  proof -
    have "u \<le> pow2 (- 53)" unfolding u_def using f by (simp add: pow2_le_iff)
    then show "u \<le> 1 / 2 ^ 53" by (simp add: pow2_def)
  qed (simp add: u_def)
  have "of_int (rne (q / u)) \<le> q / u + 1 / 2" using rne_near [of "q / u"] by linarith
  then have "of_int (rne (q / u)) * u \<le> (q / u + 1 / 2) * u" using u(1) by (simp add: mult_right_mono)
  also have "\<dots> = q + u / 2" using u(1) by (simp add: distrib_right)
  finally have "round_pos 53 (- 1022) q \<le> q + u / 2" by (simp add: round_pos_def Let_def u_def)
  then show ?thesis using u(2) by simp
qed

lemma round_pos_idem:
  assumes "0 < q" "0 < round_pos 53 (- 1022) q"
  shows "round_pos 53 (- 1022) (round_pos 53 (- 1022) q) = round_pos 53 (- 1022) q"
proof -
  let ?r = "round_pos 53 (- 1022) q" and ?e = "fexp (- 1022) q"
  define n where "n = rne (q / pow2 (?e - int 53 + 1))"
  have r: "?r = of_int n * pow2 (?e - int 53 + 1)" by (simp add: round_pos_def Let_def n_def)
  have q: "q < pow2 (?e + 1)"
  proof -
    have "pow2 (flog2 q + 1) \<le> pow2 (?e + 1)" by (simp add: pow2_le_iff fexp_def)
    then show ?thesis using flog2_bounds [OF assms(1)] by linarith
  qed
  have le: "?r \<le> pow2 (?e + 1)"
    by (rule round_pos_le_pow2) (use assms q in auto)
  show ?thesis
  proof (cases "?r = pow2 (?e + 1)")
    case True
    have "pow2 (?e + 1) < pow2 (flog2 ?r + 1)" "pow2 (flog2 ?r) \<le> pow2 (?e + 1)"
      using flog2_bounds [OF assms(2)] True by simp_all
    then have "flog2 ?r = ?e + 1" by (simp add: pow2_less_iff pow2_le_iff)
    moreover have "- 1022 \<le> ?e" by (simp add: fexp_def)
    ultimately have e': "fexp (- 1022) ?r = ?e + 1" by (simp add: fexp_def)
    have "pow2 (?e + 1) = of_int (2 ^ 52) * pow2 (fexp (- 1022) ?r - int 53 + 1)"
      unfolding e' using pow2_add [of 52 "?e + 1 - int 53 + 1"] pow2_int [of 52] by (simp add: add.commute)
    from trans [OF True this] show ?thesis by (rule round_pos_exact)
  next
    case False
    then have lt: "?r < pow2 (?e + 1)" using le by linarith
    then have "pow2 (flog2 ?r) < pow2 (?e + 1)" using flog2_bounds [OF assms(2)] by linarith
    then have f: "flog2 ?r \<le> ?e" by (simp add: pow2_less_iff)
    have "fexp (- 1022) ?r = ?e"
    proof (cases "flog2 q < - 1022")
      case True
      then show ?thesis using f by (simp add: fexp_def)
    next
      case sub: False
      then have "?e = flog2 q" by (simp add: fexp_def)
      moreover have "pow2 ?e \<le> ?r"
        by (rule round_pos_ge_pow2) (use assms flog2_bounds [OF assms(1)] calculation in auto)
      then have "pow2 ?e < pow2 (flog2 ?r + 1)" using flog2_bounds [OF assms(2)] by linarith
      ultimately show ?thesis using f sub by (simp add: fexp_def pow2_less_iff)
    qed
    then show ?thesis using r by (intro round_pos_exact) simp
  qed
qed

lemma rnd64_unit:
  assumes "0 \<le> q" "q \<le> 1"
  obtains r where "rnd64 q = FFin r" "0 \<le> r" "r \<le> 1" "r \<le> q + 1 / 2 ^ 54" "rnd64 r = FFin r"
proof (cases "q = 0")
  case True
  then show ?thesis using that [of 0] by simp
next
  case False
  then have q: "0 < q" using assms by simp
  let ?r = "round_pos 53 (- 1022) q"
  have le: "?r \<le> 1" by (rule round_pos_unit [OF q assms(2)])
  have r: "rnd64 q = FFin ?r" by (rule rnd64_pos [OF q]) (simp add: le pow2_def)
  have "rnd64 ?r = FFin ?r"
  proof (cases "?r = 0")
    case True
    then show ?thesis by simp
  next
    case False
    then have "0 < ?r" using round_pos_nonneg [OF q, of 53 "- 1022"] by linarith
    then show ?thesis using rnd64_pos [of ?r] round_pos_idem [OF q] le by (simp add: pow2_def)
  qed
  then show ?thesis
    using that [OF r] round_pos_nonneg [OF q, of 53 "- 1022"] le round_pos_unit_error [OF q assms(2)]
    by blast
qed

lemma rnd64_le: "rnd64 q = FFin r \<Longrightarrow> rnd64 q' = FFin r' \<Longrightarrow> q \<le> q' \<Longrightarrow> r \<le> r'"
  using rnd64_mono [of q q'] by simp

text \<open>Evaluation of a rounding without computing the logarithm: its exponent is given.\<close>

lemma rnd64_eval:
  assumes "pow2 e \<le> q" "q < pow2 (e + 1)" "- 1022 \<le> e" "e < 1023"
  shows "rnd64 q = FFin (of_int (rne (q / pow2 (e - 52))) * pow2 (e - 52))"
proof -
  have q: "0 < q" using assms(1) pow2_pos [of e] by linarith
  have f: "fexp (- 1022) q = e" using flog2_eqI [OF assms(1,2)] assms(3) by (simp add: fexp_def)
  have r: "round_pos 53 (- 1022) q = of_int (rne (q / pow2 (e - 52))) * pow2 (e - 52)"
    by (simp add: round_pos_def Let_def f)
  have "round_pos 53 (- 1022) q \<le> pow2 (e + 1)"
    by (rule round_pos_le_pow2 [OF q]) (use assms f in auto)
  moreover have "pow2 (e + 1) < pow2 1024" using assms(4) by (simp add: pow2_less_iff)
  ultimately have "\<not> pow2 1024 \<le> round_pos 53 (- 1022) q" by linarith
  then show ?thesis using q by (simp add: rnd64_def rnd_def Let_def r)
qed

lemma rnd64_1 [simp]: "rnd64 1 = FFin 1"
  using rnd64_eval [of 0 1] rne_of_int [of "2 ^ 52"] by (simp add: pow2_def)

lemma rnd64_neg: "rnd64 (- q) = f64_neg (rnd64 q)"
  by (cases "q = 0"; cases "q < 0") (auto simp: rnd64_def rnd_def Let_def)

text \<open>Values of the format: infinities and the rationals that rounding leaves alone.\<close>

definition rep_cell :: "f64 \<Rightarrow> bool" where
  "rep_cell x = (case x of FNaN \<Rightarrow> False | FInf _ \<Rightarrow> True | FFin w \<Rightarrow> rnd64 w = FFin w)"

lemma rnd64_idem: "rnd64 q = FFin r \<Longrightarrow> rnd64 r = FFin r"
proof -
  assume q: "rnd64 q = FFin r"
  let ?p = "round_pos 53 (- 1022) \<bar>q\<bar>"
  show "rnd64 r = FFin r"
  proof (cases "q = 0 \<or> ?p = 0")
    case True
    then have "r = 0" using q by (auto simp: rnd64_def rnd_def Let_def split: if_splits)
    then show ?thesis by simp
  next
    case False
    then have p: "0 < ?p" "0 < \<bar>q\<bar>" using round_pos_nonneg [of "\<bar>q\<bar>" 53 "- 1022"] by auto
    have r: "r = (if q < 0 then - ?p else ?p)" "\<not> pow2 1024 \<le> ?p"
      using q False by (auto simp: rnd64_def rnd_def Let_def split: if_splits)
    have "\<bar>r\<bar> = ?p" "r \<noteq> 0" "r < 0 \<longleftrightarrow> q < 0" using p r(1) by auto
    moreover have "round_pos 53 (- 1022) ?p = ?p" by (rule round_pos_idem [OF p(2,1)])
    ultimately show ?thesis using r by (simp add: rnd64_def rnd_def Let_def)
  qed
qed

lemma rep_cell_rnd64 [simp]: "rep_cell (rnd64 q)"
proof (cases "rnd64 q")
  case FNaN
  then show ?thesis by (simp add: rnd64_def)
next
  case (FFin r)
  then show ?thesis using rnd64_idem by (simp add: rep_cell_def)
qed (simp add: rep_cell_def)

lemma rep_cell_not_NaN: "rep_cell w \<Longrightarrow> w \<noteq> FNaN"
  by (auto simp: rep_cell_def)

lemma rep_cell_0 [simp]: "rep_cell (FFin 0)" and rep_cell_1 [simp]: "rep_cell (FFin 1)"
  by (simp_all add: rep_cell_def)

lemma rnd64_tie_one: "rnd64 (1 + 1 / 2 ^ 53) = FFin 1"
  using rnd64_eval [of 0 "1 + 1 / 2 ^ 53"] rne_tie [of "9007199254740993 / 2" 4503599627370496]
  by (simp add: pow2_def)

lemma convex_in_unit:
  assumes a: "a = FFin p" "0 < p" "p \<le> 1" and x: "in_unit x" and e: "in_unit e"
  shows "in_unit (f64_add (f64_mul a x) (f64_mul (f64_sub (FFin 1) a) e))"
proof -
  obtain xq where xq: "x = FFin xq" "0 \<le> xq" "xq \<le> 1" using x by (rule in_unitE)
  obtain eq where eq: "e = FFin eq" "0 \<le> eq" "eq \<le> 1" using e by (rule in_unitE)
  obtain ra where ra: "rnd64 p = FFin ra" "ra \<le> p + 1 / 2 ^ 54" using rnd64_unit [of p] a by auto
  have "p * xq \<le> p" using a xq mult_left_mono [of xq 1 p] by simp
  then obtain t where t: "rnd64 (p * xq) = FFin t" "0 \<le> t" "t \<le> 1"
    using rnd64_unit [of "p * xq"] a xq by (metis less_imp_le mult_nonneg_nonneg order_trans)
  have t_le: "t \<le> p + 1 / 2 ^ 54" using rnd64_le [OF t(1) ra(1) \<open>p * xq \<le> p\<close>] ra(2) by linarith
  obtain b where b: "rnd64 (1 - p) = FFin b" "0 \<le> b" "b \<le> 1" "b \<le> 1 - p + 1 / 2 ^ 54" "rnd64 b = FFin b"
    using rnd64_unit [of "1 - p"] a by auto
  have "b * eq \<le> b" using b eq mult_left_mono [of eq 1 b] by simp
  then obtain s where s: "rnd64 (b * eq) = FFin s" "0 \<le> s" "s \<le> 1"
    using rnd64_unit [of "b * eq"] b eq by (metis mult_nonneg_nonneg order_trans)
  have "s \<le> b" using rnd64_le [OF s(1) b(5) \<open>b * eq \<le> b\<close>] .
  then have "t + s \<le> 1 + 1 / 2 ^ 53" using t_le b(4) by simp
  then have up: "fp_le (rnd64 (t + s)) (FFin 1)" using rnd64_mono rnd64_tie_one by metis
  have lo: "fp_le (FFin 0) (rnd64 (t + s))" using rnd64_mono [of 0 "t + s"] t s by simp
  have "f64_add (f64_mul a x) (f64_mul (f64_sub (FFin 1) a) e) = rnd64 (t + s)"
    by (simp add: a xq eq f64_sub_def t b s)
  then show ?thesis using up lo by (cases "rnd64 (t + s)") auto
qed

section \<open>Square roots\<close>

text \<open>
  The integer square root, four at a time, and the correctly rounded \<open>f64::sqrt\<close>: the root of
  a positive number is scaled to at least sixty binary digits; a remainder is marked by a half
  unit, which cannot move it to the other side of any rounding boundary.
\<close>

fun isqrt :: "nat \<Rightarrow> nat" where
  "isqrt n =
    (if n = 0 then 0
     else let r = 2 * isqrt (n div 4) in if (r + 1) * (r + 1) \<le> n then r + 1 else r)"

declare isqrt.simps [simp del]

lemma isqrt_bounds: "isqrt n * isqrt n \<le> n \<and> n < (isqrt n + 1) * (isqrt n + 1)"
proof (induction n rule: isqrt.induct)
  case (1 n)
  show ?case
  proof (cases "n = 0")
    case True
    then show ?thesis by (simp add: isqrt.simps)
  next
    case False
    define q where "q = isqrt (n div 4)"
    have IH: "q * q \<le> n div 4" "n div 4 < (q + 1) * (q + 1)" using "1.IH" [OF False] by (auto simp: q_def)
    have "4 * (n div 4) \<le> n" "n < 4 * (n div 4) + 4" by presburger+
    then have b: "4 * (q * q) \<le> n" "n < 4 * ((q + 1) * (q + 1))" using IH by linarith+
    have i: "isqrt n = (if (2 * q + 1) * (2 * q + 1) \<le> n then 2 * q + 1 else 2 * q)"
      using False by (subst isqrt.simps) (simp add: Let_def q_def)
    show ?thesis using b by (auto simp: i algebra_simps)
  qed
qed

fun f64_sqrt :: "f64 \<Rightarrow> f64" where
  "f64_sqrt FNaN = FNaN"
| "f64_sqrt (FInf s) = (if s then FNaN else FInf False)"
| "f64_sqrt (FFin q) =
    (if q < 0 then FNaN else if q = 0 then FFin 0
     else let e = 60 - flog2 q div 2; x = q * pow2 (2 * e); s = isqrt (nat \<lfloor>x\<rfloor>)
          in rnd64 ((if of_nat s * of_nat s = x then of_nat s else of_nat s + 1 / 2) * pow2 (- e)))"

text \<open>The marked root lies on the same side of every integer as the root itself.\<close>

lemma sqrt_same_side:
  assumes "0 \<le> x" and "s = isqrt (nat \<lfloor>x\<rfloor>)"
  shows "(of_nat m :: rat) \<le> (if of_nat s * of_nat s = x then of_nat s else of_nat s + 1 / 2)
    \<longleftrightarrow> (of_nat m * of_nat m :: rat) \<le> x"
proof -
  have b: "s * s \<le> nat \<lfloor>x\<rfloor>" "nat \<lfloor>x\<rfloor> < (s + 1) * (s + 1)" using isqrt_bounds [of "nat \<lfloor>x\<rfloor>"] assms(2) by auto
  have fl: "of_nat (nat \<lfloor>x\<rfloor>) \<le> x" "x < of_nat (nat \<lfloor>x\<rfloor>) + 1" using assms(1) by (simp_all, linarith)
  have lo: "of_nat s * of_nat s \<le> x" using fl(1) b(1) of_nat_mono [OF b(1), where ?'a = rat] by (simp add: order_trans)
  have hi: "x < of_nat (s + 1) * of_nat (s + 1)"
  proof -
    have "nat \<lfloor>x\<rfloor> + 1 \<le> (s + 1) * (s + 1)" using b(2) by simp
    from of_nat_mono [OF this, where ?'a = rat] show ?thesis using fl(2) by (simp add: algebra_simps)
  qed
  have m: "(of_nat m * of_nat m :: rat) \<le> x \<longleftrightarrow> m \<le> s"
  proof
    assume "m \<le> s"
    then show "(of_nat m * of_nat m :: rat) \<le> x"
      using lo mult_mono [of "of_nat m" "of_nat s :: rat" "of_nat m" "of_nat s"] by simp
  next
    assume "(of_nat m * of_nat m :: rat) \<le> x"
    then have "(of_nat (m * m) :: rat) < of_nat ((s + 1) * (s + 1))" using hi unfolding of_nat_mult by linarith
    then have "m * m < (s + 1) * (s + 1)" by (simp only: of_nat_less_iff)
    then show "m \<le> s" by (metis Suc_eq_plus1 le_neq_implies_less linorder_not_less mult_le_mono not_less_eq_eq)
  qed
  have "of_nat m \<le> (of_nat s + 1 / 2 :: rat) \<longleftrightarrow> m \<le> s"
  proof
    assume "of_nat m \<le> (of_nat s + 1 / 2 :: rat)"
    then have "(of_nat m :: rat) < of_nat (s + 1)" by simp
    then show "m \<le> s" by (simp only: of_nat_less_iff)
  next
    assume "m \<le> s"
    then have "(of_nat m :: rat) \<le> of_nat s" by simp
    then show "of_nat m \<le> (of_nat s + 1 / 2 :: rat)" by linarith
  qed
  then show ?thesis by (simp add: m)
qed

lemma f64_sqrt_nonneg: "f64_sqrt x = FNaN \<or> fp_le (FFin 0) (f64_sqrt x)"
proof (cases x)
  case (FFin q)
  have r: "fp_le (FFin 0) (rnd64 ((if b then of_nat n else of_nat n + 1 / 2) * pow2 k))" for b n k
    using rnd64_mono [of 0 "(if b then of_nat n else of_nat n + 1 / 2) * pow2 k"] by (simp add: less_imp_le)
  show ?thesis unfolding FFin f64_sqrt.simps Let_def using r by simp
qed auto

section \<open>Dyadic fractions\<close>

lemma rnd64_dyadic:
  assumes "n < 2 ^ 53" and "j \<le> 900"
  shows "rnd64 (of_nat n / 2 ^ j) = FFin (of_nat n / 2 ^ j)"
proof (cases "n = 0")
  case False
  let ?q = "of_nat n / 2 ^ j :: rat"
  have q: "0 < ?q" using False by simp
  have p: "pow2 (- int j) = 1 / 2 ^ j" by (simp add: pow2_def)
  have "(of_nat n :: rat) < 2 ^ 53" using assms(1) of_nat_less_iff [of n "2 ^ 53", where ?'a = rat] by simp
  then have "?q < 2 ^ 53 * (1 / 2 ^ j)" by (simp add: divide_strict_right_mono)
  moreover have "pow2 (53 - int j) = 2 ^ 53 * (1 / 2 ^ j)" using pow2_add [of 53 "- int j"] p by (simp add: pow2_def)
  ultimately have lt: "?q < pow2 (53 - int j)" by simp
  have "(1 :: rat) \<le> of_nat n" using False by (metis One_nat_def Suc_leI gr0I of_nat_1 of_nat_le_iff)
  then have ge: "pow2 (- int j) \<le> ?q" unfolding p by (simp add: divide_right_mono)
  let ?f = "flog2 ?q"
  have "pow2 ?f < pow2 (53 - int j)" "pow2 (- int j) < pow2 (?f + 1)" using flog2_bounds [OF q] lt ge by linarith+
  then have f: "?f < 53 - int j" "- int j \<le> ?f" by (simp_all add: pow2_less_iff)
  then have e: "fexp (- 1022) ?q = ?f" using assms(2) by (simp add: fexp_def)
  define k where "k = nat (52 - ?f - int j)"
  have k: "int k = 52 - ?f - int j" using f by (simp add: k_def)
  have "pow2 (int k) * pow2 (?f - 52) = pow2 (- int j)" unfolding pow2_add [symmetric] k by simp
  then have "?q = of_int (int n * 2 ^ k) * pow2 (?f - 52)" by (simp add: pow2_int p field_simps)
  then have "round_pos 53 (- 1022) ?q = ?q" by (intro round_pos_exact [of _ "int n * 2 ^ k"]) (simp add: e)
  moreover have "\<not> pow2 1024 \<le> ?q"
    using lt pow2_strict_mono [of "53 - int j" 1024] by simp
  ultimately show ?thesis using q by (simp add: rnd64_def rnd_def Let_def)
qed simp

lemma rnd64_fifth: "rnd64 (20 / 100) = FFin (3602879701896397 / 2 ^ 54)"
proof -
  have "rne (36028797018963968 / 5 :: rat) = 7205759403792794" by (rule rne_eqI) simp
  then show ?thesis using rnd64_eval [of "- 3" "1 / 5"] by (simp add: pow2_def)
qed

section \<open>Signs\<close>

lemma rnd64_nonneg: "0 \<le> q \<Longrightarrow> fp_le (FFin 0) (rnd64 q)"
  using rnd64_mono [of 0 q] by simp

lemma f64_add_nonneg: "fp_le (FFin 0) a \<Longrightarrow> fp_le (FFin 0) b \<Longrightarrow> fp_le (FFin 0) (f64_add a b)"
  by (cases a; cases b) (auto intro: rnd64_nonneg)

lemma f64_div_nonneg: "fp_le (FFin 0) a \<Longrightarrow> 0 < q \<Longrightarrow> fp_le (FFin 0) (f64_div a (FFin q))"
  by (cases a) (auto intro: rnd64_nonneg)

lemma f64_of_nat_nonneg: "fp_le (FFin 0) (f64_of_nat n)"
  unfolding f64_of_nat_def by (rule rnd64_nonneg) simp

lemma rnd64_2_64: "rnd64 (2 ^ 64) = FFin (2 ^ 64)"
  using rnd64_eval [of 64 "2 ^ 64"] rne_of_int [of "2 ^ 52"] by (simp add: pow2_def)

lemma f64_of_u64_bounds: "\<exists>q. f64_of_u64 w = FFin q \<and> 0 \<le> q \<and> q \<le> 2 ^ 64"
proof -
  have "unat w < 2 ^ 64" using unsigned_less [of w, where ?'a = nat] by simp
  then have "unat w \<le> 2 ^ 64" by linarith
  from of_nat_mono [OF this, where ?'a = rat] have "(of_nat (unat w) :: rat) \<le> 2 ^ 64" by simp
  then have "fp_le (f64_of_u64 w) (FFin (2 ^ 64))"
    unfolding f64_of_u64_def f64_of_nat_def rnd64_2_64 [symmetric] by (rule rnd64_mono)
  moreover have "fp_le (FFin 0) (f64_of_u64 w)"
    unfolding f64_of_u64_def f64_of_nat_def using rnd64_mono [of 0 "of_nat (unat w)"] of_nat_0_le_iff by (simp only: rnd64_0)
  ultimately show ?thesis by (cases "f64_of_u64 w") auto
qed

lemma f64_of_u64_rep: "\<exists>q. f64_of_u64 w = FFin q \<and> 0 \<le> q \<and> rnd64 q = FFin q"
  using f64_of_u64_bounds [of w] rnd64_idem [of "of_nat (unat w)"] by (auto simp: f64_of_u64_def f64_of_nat_def)

end
