(* ===== verification/Compression.thy ===== *)
theory Compression
  imports Floats "HOL-Library.Product_Lexorder"
begin

text \<open>
  Payload compression (\<open>src/compression.rs\<close>): run-length, dictionary and LZ77 coding and
  the engine that dispatches on the algorithm. A panic of the decoder (a read before the
  start of its output) is \<open>None\<close>. The lemmas are the round trips of the three codecs, for
  every input, and the parameter bounds under which LZ77 is lossless.
\<close>

section \<open>Run-length encoding\<close>

text \<open>\<open>rle_run b c rest\<close> extends a run of \<open>c\<close> bytes \<open>b\<close> while the input continues it, up to 255.\<close>

fun rle_run :: "u8 \<Rightarrow> nat \<Rightarrow> u8 list \<Rightarrow> nat \<times> u8 list" where
  "rle_run b count (x # rest) =
     (if x = b \<and> count < 255 then rle_run b (count + 1) rest else (count, x # rest))"
| "rle_run b count [] = (count, [])"

lemma length_rle_run: "length (snd (rle_run b c xs)) \<le> length xs"
  by (induction b c xs rule: rle_run.induct) auto

function run_length_encode :: "u8 list \<Rightarrow> u8 list" where
  "run_length_encode [] = []"
| "run_length_encode (b # rest) =
     of_nat (fst (rle_run b 1 rest)) # b # run_length_encode (snd (rle_run b 1 rest))"
  by pat_completeness auto
termination
  by (relation "measure length") (auto simp: less_Suc_eq_le length_rle_run)

fun run_length_decode :: "u8 list \<Rightarrow> u8 list" where
  "run_length_decode (count # b # rest) = replicate (unat count) b @ run_length_decode rest"
| "run_length_decode _ = []"

lemma rle_run_spec:
  assumes "c \<le> 255"
  shows "c \<le> fst (rle_run b c xs) \<and> fst (rle_run b c xs) \<le> 255
    \<and> xs = replicate (fst (rle_run b c xs) - c) b @ snd (rle_run b c xs)"
  using assms
proof (induction b c xs rule: rle_run.induct)
  case (1 b c x rest)
  show ?case
  proof (cases "x = b \<and> c < 255")
    case True
    then have "c + 1 \<le> fst (rle_run b (c + 1) rest)"
      and "rest = replicate (fst (rle_run b (c + 1) rest) - (c + 1)) b @ snd (rle_run b (c + 1) rest)"
      and "fst (rle_run b (c + 1) rest) \<le> 255"
      using "1.IH" by auto
    moreover then have "fst (rle_run b (c + 1) rest) - c = Suc (fst (rle_run b (c + 1) rest) - (c + 1))"
      by simp
    ultimately show ?thesis using True by simp
  next
    case False
    then have "rle_run b c (x # rest) = (c, x # rest)" by (simp only: rle_run.simps if_False)
    then show ?thesis using "1.prems" by simp
  qed
qed simp

lemma run_length_roundtrip: "run_length_decode (run_length_encode data) = data"
proof (induction data rule: run_length_encode.induct)
  case (2 b rest)
  let ?n = "fst (rle_run b 1 rest)"
  have n: "1 \<le> ?n" "?n \<le> 255" "rest = replicate (?n - 1) b @ snd (rle_run b 1 rest)"
    using rle_run_spec [of 1 b rest] by auto
  have "unat (of_nat ?n :: u8) = ?n" using n(2) by (simp add: unat_of_nat_small)
  then have "run_length_decode (run_length_encode (b # rest))
      = replicate ?n b @ snd (rle_run b 1 rest)"
    using 2 by simp
  also have "replicate ?n b = b # replicate (?n - 1) b"
    using n(1) by (cases ?n) auto
  finally show ?case using n(3) by simp
qed simp

lemma run_length_encode_length: "length (run_length_encode data) \<le> 2 * length data"
proof (induction data rule: run_length_encode.induct)
  case (2 b rest)
  then show ?case using length_rle_run [of b 1 rest] by simp
qed simp

section \<open>Dictionary coding\<close>

definition ngrams :: "nat \<Rightarrow> u8 list \<Rightarrow> u8 list list" where
  "ngrams len data = map (\<lambda>start. take len (drop start data)) [0..<length data - (len - 1)]"

definition count_ngram :: "u8 list \<Rightarrow> (u8 list, nat) hashmap \<Rightarrow> (u8 list, nat) hashmap" where
  "count_ngram g freq = hm_insert g (case hm_get freq g of None \<Rightarrow> 1 | Some c \<Rightarrow> c + 1) freq"

definition ngram_freq :: "u8 list \<Rightarrow> (u8 list, nat) hashmap" where
  "ngram_freq data = fold count_ngram (concat (map (\<lambda>len. ngrams len data) [2, 3, 4])) []"

text \<open>
  \<open>iter\<close> is the order in which the hash map of frequencies yields its entries, which Rust
  leaves unspecified and which decides how ties are broken in the stable sort.
\<close>

definition build_dict ::
  "((u8 list, nat) hashmap \<Rightarrow> (u8 list \<times> nat) list) \<Rightarrow> u8 list \<Rightarrow> nat \<Rightarrow> u8 list list" where
  "build_dict iter data dict_size =
    (let cap = min dict_size 253;
         entries = filter (\<lambda>(_, c). c > 1) (iter (ngram_freq data));
         entries = sort_key (\<lambda>(k, c). (- int c, - int (length k))) entries
     in map fst (take cap entries))"

definition build_lookup :: "u8 list list \<Rightarrow> (u8 list, u8) hashmap" where
  "build_lookup dict = fold (\<lambda>(i, s). hm_insert s (of_nat i)) (enumerate 0 dict) []"

text \<open>The first of the lengths 4, 3, 2 whose slice at the current position is in the table.\<close>

fun dict_match :: "(u8 list, u8) hashmap \<Rightarrow> u8 list \<Rightarrow> nat list \<Rightarrow> (nat \<times> u8) option" where
  "dict_match lookup suffix [] = None"
| "dict_match lookup suffix (len # lens) =
     (if len > length suffix then dict_match lookup suffix lens
      else case hm_get lookup (take len suffix) of
             Some idx \<Rightarrow> Some (len, idx)
           | None \<Rightarrow> dict_match lookup suffix lens)"

lemma dict_match_SomeD:
  "dict_match lookup s lens = Some (len, idx) \<Longrightarrow>
     len \<in> set lens \<and> len \<le> length s \<and> hm_get lookup (take len s) = Some idx"
  by (induction lookup s lens rule: dict_match.induct) (auto split: if_splits option.splits)

declare dict_match.simps [simp del]

function dict_encode :: "(u8 list, u8) hashmap \<Rightarrow> u8 list \<Rightarrow> u8 list" where
  "dict_encode lookup [] = []"
| "dict_encode lookup (b # rest) =
     (case dict_match lookup (b # rest) [4, 3, 2] of
        Some (len, idx) \<Rightarrow> 0xFE # idx # dict_encode lookup (drop len (b # rest))
      | None \<Rightarrow> (if b = 0xFE \<or> b = 0xFF then [0xFF, b] else [b]) @ dict_encode lookup rest)"
  by pat_completeness auto
termination
  by (relation "measure (length \<circ> snd)") (auto dest!: dict_match_SomeD)

definition dictionary_compress ::
  "((u8 list, nat) hashmap \<Rightarrow> (u8 list \<times> nat) list) \<Rightarrow> u8 list \<Rightarrow> nat
     \<Rightarrow> u8 list \<times> u8 list list" where
  "dictionary_compress iter data dict_size =
    (let dict = build_dict iter data dict_size
     in (dict_encode (build_lookup dict) data, dict))"

fun dictionary_decompress :: "u8 list list \<Rightarrow> u8 list \<Rightarrow> u8 list" where
  "dictionary_decompress dict [] = []"
| "dictionary_decompress dict [b] = [b]"
| "dictionary_decompress dict (a # b # rest) =
     (if a = 0xFE then (if unat b < length dict then dict ! unat b else [])
                       @ dictionary_decompress dict rest
      else if a = 0xFF then b # dictionary_decompress dict rest
      else a # dictionary_decompress dict (b # rest))"

lemma build_lookup_sound:
  assumes "length dict \<le> 256" and "hm_get (build_lookup dict) s = Some idx"
  shows "unat idx < length dict \<and> dict ! unat idx = s"
proof -
  have "hm_get (fold (\<lambda>(i, s). hm_insert s (of_nat i :: u8)) xs m) s = Some idx \<Longrightarrow>
      hm_get m s = Some idx \<or> (\<exists>i. (i, s) \<in> set xs \<and> idx = of_nat i)" for xs m
  proof (induction xs arbitrary: m)
    case (Cons x xs)
    obtain i t where x: "x = (i, t)" by (cases x)
    from Cons.IH [of "hm_insert t (of_nat i) m"] Cons.prems x
    show ?case by (cases "s = t") (auto simp: hm_simps)
  qed simp
  from this [of "enumerate 0 dict" "[]"] assms(2)
  obtain i where i: "(i, s) \<in> set (enumerate 0 dict)" "idx = of_nat i"
    by (auto simp: build_lookup_def)
  then have "i < length dict" "dict ! i = s" by (auto simp: in_set_enumerate_eq)
  moreover have "unat idx = i" using i(2) assms(1) \<open>i < length dict\<close>
    by (simp add: unat_of_nat_small)
  ultimately show ?thesis by simp
qed

lemma dictionary_decode_literal:
  "b \<noteq> 0xFE \<Longrightarrow> b \<noteq> 0xFF \<Longrightarrow>
     dictionary_decompress dict (b # rest) = b # dictionary_decompress dict rest"
  by (cases rest) auto

lemma dict_encode_roundtrip:
  assumes sound: "\<And>s idx. hm_get lookup s = Some idx \<Longrightarrow> unat idx < length dict \<and> dict ! unat idx = s"
  shows "dictionary_decompress dict (dict_encode lookup data) = data"
proof (induction data rule: length_induct)
  case (1 data)
  show ?case
  proof (cases data)
    case (Cons b rest)
    show ?thesis
    proof (cases "dict_match lookup (b # rest) [4, 3, 2]")
      case None
      then show ?thesis using 1 Cons by (simp add: dictionary_decode_literal)
    next
      case (Some m)
      obtain len idx where m: "m = (len, idx)" by (cases m)
      from dict_match_SomeD [OF Some [unfolded m]] sound
      have "0 < len" "unat idx < length dict" "dict ! unat idx = take len (b # rest)" by auto
      then show ?thesis using Some m 1 Cons by simp
    qed
  qed simp
qed

lemma build_dict_length: "length (build_dict iter data n) \<le> 253"
  by (simp add: build_dict_def Let_def)

lemma dictionary_roundtrip:
  "dictionary_decompress (snd (dictionary_compress iter data n))
     (fst (dictionary_compress iter data n)) = data"
  using build_lookup_sound [of "build_dict iter data n"] build_dict_length [of iter data n]
  by (simp add: dictionary_compress_def Let_def dict_encode_roundtrip)

section \<open>LZ77\<close>

text \<open>A token is five bytes: the offset in two, the length, the next byte and the flag.\<close>

definition lz_emit :: "u16 \<Rightarrow> u8 \<Rightarrow> u8 \<Rightarrow> bool \<Rightarrow> u8 list" where
  "lz_emit offset len next_char is_ref =
     [ucast (drop_bit 8 offset), ucast (offset AND 0xFF), len, next_char, if is_ref then 1 else 0]"

text \<open>
  The match at window position \<open>start\<close>: it grows while the bytes agree below \<open>la_end\<close>, and
  stops when it would run past \<open>pos\<close>.
\<close>

function lz_match :: "u8 list \<Rightarrow> nat \<Rightarrow> nat \<Rightarrow> nat \<Rightarrow> nat \<Rightarrow> nat" where
  "lz_match data start pos la_end len =
     (if pos + len < la_end \<and> data ! (start + len) = data ! (pos + len)
      then if start + (len + 1) \<ge> pos then len + 1 else lz_match data start pos la_end (len + 1)
      else len)"
  by pat_completeness auto
termination
  by (relation "measure (\<lambda>(data, start, pos, la_end, len). la_end - len)") auto

declare lz_match.simps [simp del]

text \<open>The search keeps the first longest match: its length and its 16-bit offset.\<close>

definition lz_try :: "u8 list \<Rightarrow> nat \<Rightarrow> nat \<Rightarrow> nat \<Rightarrow> nat \<times> u16 \<Rightarrow> nat \<times> u16" where
  "lz_try data pos la_end start best =
    (let len = lz_match data start pos la_end 0
     in if len > fst best then (len, of_nat (pos - start)) else best)"

definition lz_search :: "u8 list \<Rightarrow> nat \<Rightarrow> nat \<Rightarrow> nat \<Rightarrow> nat \<times> u16" where
  "lz_search data window lookahead pos =
    (let win_start = pos - window; la_end = min (pos + lookahead) (length data);
         (best_len, best_offset) = fold (lz_try data pos la_end) [win_start..<pos] (0, 0)
     in (if pos + best_len \<ge> length data then best_len - 1 else best_len, best_offset))"

function lz77_loop :: "u8 list \<Rightarrow> nat \<Rightarrow> nat \<Rightarrow> nat \<Rightarrow> u8 list" where
  "lz77_loop data window lookahead pos =
     (if pos < length data then
        let (best_len, best_offset) = lz_search data window lookahead pos
        in if best_len \<ge> 2
           then lz_emit best_offset (of_nat best_len) (data ! (pos + best_len)) True
                @ lz77_loop data window lookahead (pos + best_len + 1)
           else lz_emit 0 0 (data ! pos) False @ lz77_loop data window lookahead (pos + 1)
      else [])"
  by pat_completeness auto
termination
  by (relation "measure (\<lambda>(data, window, lookahead, pos). length data - pos)") auto

declare lz77_loop.simps [simp del]

definition lz77_compress :: "u8 list \<Rightarrow> nat \<Rightarrow> nat \<Rightarrow> u8 list" where
  "lz77_compress data window lookahead = lz77_loop data window lookahead 0"

text \<open>Copying \<open>n\<close> bytes from \<open>start + j\<close> on; reading past the end of the output panics.\<close>

fun lz_copy :: "nat \<Rightarrow> nat \<Rightarrow> u8 list \<Rightarrow> u8 list option" where
  "lz_copy 0 i out = Some out"
| "lz_copy (Suc n) i out = (if i < length out then lz_copy n (i + 1) (out @ [out ! i]) else None)"

fun lz77_decode :: "u8 list \<Rightarrow> u8 list \<Rightarrow> u8 list option" where
  "lz77_decode out (hi # lo # len # next_char # flag # rest) =
     (let offset = push_bit 8 (ucast hi :: u16) OR ucast lo
      in if flag = 1 \<and> 0 < offset \<and> 0 < len
         then case lz_copy (unat len) (length out - unat offset) out of
                None \<Rightarrow> None
              | Some out \<Rightarrow> lz77_decode (out @ [next_char]) rest
         else lz77_decode (out @ [next_char]) rest)"
| "lz77_decode out _ = Some out"

definition lz77_decompress :: "u8 list \<Rightarrow> u8 list option" where
  "lz77_decompress data = lz77_decode [] data"

subsection \<open>Round trip\<close>

definition agree :: "u8 list \<Rightarrow> nat \<Rightarrow> nat \<Rightarrow> nat \<Rightarrow> bool" where
  "agree data start pos len = (\<forall>j < len. data ! (start + j) = data ! (pos + j))"

lemma agree_Suc:
  "agree data start pos len \<Longrightarrow> data ! (start + len) = data ! (pos + len) \<Longrightarrow>
     agree data start pos (Suc len)"
  by (auto simp: agree_def less_Suc_eq)

lemma lz_match_agree:
  assumes "agree data start pos len" and "pos + len \<le> la_end"
  shows "agree data start pos (lz_match data start pos la_end len)
    \<and> pos + lz_match data start pos la_end len \<le> la_end"
  using assms
proof (induction data start pos la_end len rule: lz_match.induct)
  case (1 data start pos la_end len)
  then show ?case
    by (subst (1 2) lz_match.simps) (auto dest: agree_Suc)
qed

text \<open>What the search guarantees of the length and offset it returns.\<close>

definition good_match :: "u8 list \<Rightarrow> nat \<Rightarrow> nat \<Rightarrow> nat \<Rightarrow> nat \<times> u16 \<Rightarrow> bool" where
  "good_match data window la_end pos best =
     (fst best = 0 \<or> (\<exists>start < pos. pos - window \<le> start \<and> snd best = of_nat (pos - start)
        \<and> agree data start pos (fst best) \<and> pos + fst best \<le> la_end))"

lemma lz_try_good:
  assumes "good_match data window la_end pos best" "pos - window \<le> start" "start < pos" "pos \<le> la_end"
  shows "good_match data window la_end pos (lz_try data pos la_end start best)"
  using assms lz_match_agree [of data start pos 0 la_end]
  by (auto simp: lz_try_def Let_def good_match_def agree_def)

lemma lz_fold_good:
  assumes "good_match data window la_end pos best" "pos \<le> la_end"
    and "\<forall>s \<in> set starts. pos - window \<le> s \<and> s < pos"
  shows "good_match data window la_end pos (fold (lz_try data pos la_end) starts best)"
  using assms by (induction starts arbitrary: best) (simp_all add: lz_try_good)

lemma lz_search_good:
  assumes "pos < length data" and "lz_search data window lookahead pos = (len, offset)"
    and "2 \<le> len"
  obtains start where "start < pos" "pos - window \<le> start" "offset = of_nat (pos - start)"
    "agree data start pos len" "pos + len < length data" "len \<le> lookahead"
proof -
  let ?la = "min (pos + lookahead) (length data)"
  define best where "best = fold (lz_try data pos ?la) [pos - window..<pos] (0, 0)"
  have g: "good_match data window ?la pos best"
    unfolding best_def by (rule lz_fold_good) (use assms(1) in \<open>auto simp: good_match_def\<close>)
  have len: "len = (if pos + fst best \<ge> length data then fst best - 1 else fst best)"
    and off: "offset = snd best"
    using assms(2) by (auto simp: lz_search_def Let_def best_def case_prod_unfold)
  have nz: "fst best \<noteq> 0" and le: "len \<le> fst best" using assms(3) len by (auto split: if_splits)
  from g nz obtain start where s: "start < pos" "pos - window \<le> start" "snd best = of_nat (pos - start)"
    "agree data start pos (fst best)" "pos + fst best \<le> ?la"
    by (auto simp: good_match_def)
  moreover have "agree data start pos len" using s(4) le by (auto simp: agree_def)
  moreover have "pos + len < length data" using s(5) len nz by (auto split: if_splits)
  moreover have "len \<le> lookahead" using s(5) le by simp
  ultimately show ?thesis using that off by simp
qed

lemma lz_copy_agree:
  assumes "start < pos" "agree data start pos len" "pos + len \<le> length data"
    and "k \<le> len"
  shows "lz_copy (len - k) (start + k) (take (pos + k) data) = Some (take (pos + len) data)"
  using assms(4)
proof (induction "len - k" arbitrary: k)
  case 0
  then show ?case by simp
next
  case (Suc n)
  then have k: "k < len" by simp
  have "start + k < pos + k" using assms(1) by simp
  moreover have "pos + k < length data" using assms(3) k by simp
  moreover then have "take (pos + k) data ! (start + k) = data ! (pos + k)"
    using assms(1,2) k by (simp add: agree_def)
  ultimately have "lz_copy (len - k) (start + k) (take (pos + k) data)
      = lz_copy (len - Suc k) (start + Suc k) (take (pos + Suc k) data)"
    using k by (simp add: Suc_diff_Suc [symmetric] take_Suc_conv_app_nth)
  moreover have "\<dots> = Some (take (pos + len) data)"
    using Suc.hyps(1) [of "Suc k"] Suc.hyps(2) k by simp
  ultimately show ?case by simp
qed

lemma lz_offset_bytes:
  "push_bit 8 (ucast (ucast (drop_bit 8 x :: u16) :: u8) :: u16) OR ucast (ucast (x AND 0xFF) :: u8) = x"
proof (rule bit_word_eqI)
  fix n assume n: "n < LENGTH(16)"
  have m: "(0xFF :: u16) = mask 8" by (simp add: mask_eq_exp_minus_1)
  show "bit (push_bit 8 (ucast (ucast (drop_bit 8 x :: u16) :: u8) :: u16) OR
      ucast (ucast (x AND 0xFF) :: u8)) n \<longleftrightarrow> bit x n"
    unfolding m using n
    by (simp only: bit_or_iff bit_push_bit_iff bit_ucast_iff bit_drop_bit_eq bit_and_iff bit_mask_iff
        comp_def) auto
qed

lemma lz77_decode_literal:
  "lz77_decode out (lz_emit 0 0 b False @ rest) = lz77_decode (out @ [b]) rest"
  by (simp add: lz_emit_def)

lemma lz77_decode_ref:
  assumes "0 < off" "0 < len" "lz_copy (unat len) (length out - unat off) out = Some out'"
  shows "lz77_decode out (lz_emit off len b True @ rest) = lz77_decode (out' @ [b]) rest"
proof -
  have "push_bit 8 (ucast (ucast (drop_bit 8 off) :: u8) :: u16) OR ucast (ucast (off AND 0xFF) :: u8) = off"
    by (rule lz_offset_bytes)
  then show ?thesis using assms by (simp add: lz_emit_def Let_def)
qed

lemma lz77_loop_decode:
  assumes "window < 2 ^ 16" "lookahead < 2 ^ 8" "pos \<le> length data"
  shows "lz77_decode (take pos data) (lz77_loop data window lookahead pos) = Some data"
  using assms
proof (induction data window lookahead pos rule: lz77_loop.induct)
  case (1 data window lookahead pos)
  show ?case
  proof (cases "pos < length data")
    case False
    then show ?thesis using "1.prems" by (simp add: lz77_loop.simps)
  next
    case True
    obtain len off where s: "lz_search data window lookahead pos = (len, off)" by fastforce
    show ?thesis
    proof (cases "2 \<le> len")
      case False
      then have "lz77_decode (take (pos + 1) data) (lz77_loop data window lookahead (pos + 1)) = Some data"
        using "1.IH"(2) [OF True s [symmetric]] "1.prems" True by simp
      then show ?thesis using True False s
        by (subst lz77_loop.simps) (simp add: lz77_decode_literal take_Suc_conv_app_nth)
    next
      case len: True
      obtain start where st: "start < pos" "pos - window \<le> start" "off = of_nat (pos - start)"
        "agree data start pos len" "pos + len < length data" "len \<le> lookahead"
        using lz_search_good [OF True s len] by blast
      have "pos - start < 2 ^ LENGTH(16)" using st(2) "1.prems"(1) by simp
      then have o: "unat off = pos - start" unfolding st(3) by (rule unat_of_nat_small)
      have l: "unat (of_nat len :: u8) = len" using st(6) "1.prems"(2) by (simp add: unat_of_nat_small)
      have "0 < off" using o st(1) by (simp add: word_less_nat_alt)
      moreover have "0 < (of_nat len :: u8)" using l len by (simp add: word_less_nat_alt)
      moreover have "lz_copy len start (take pos data) = Some (take (pos + len) data)"
        using lz_copy_agree [OF st(1,4), of 0] st(5) by simp
      then have "lz_copy (unat (of_nat len :: u8)) (length (take pos data) - unat off) (take pos data)
          = Some (take (pos + len) data)"
        using o l st(1) True by simp
      moreover have "lz77_decode (take (pos + len + 1) data)
          (lz77_loop data window lookahead (pos + len + 1)) = Some data"
        using "1.IH"(1) [OF True s [symmetric]] "1.prems" st(5) len by simp
      ultimately show ?thesis using True len s st(5)
        by (subst lz77_loop.simps) (simp add: lz77_decode_ref take_Suc_conv_app_nth)
    qed
  qed
qed

lemma lz77_roundtrip:
  "window < 2 ^ 16 \<Longrightarrow> lookahead < 2 ^ 8 \<Longrightarrow>
     lz77_decompress (lz77_compress data window lookahead) = Some data"
  using lz77_loop_decode [of window lookahead 0 data]
  by (simp add: lz77_decompress_def lz77_compress_def)

section \<open>The engine\<close>

datatype CompressionAlgorithm = NoCompression | RunLength | Dictionary | Lz77

fun compression_level :: "CompressionAlgorithm \<Rightarrow> u8" where
  "compression_level NoCompression = 0"
| "compression_level RunLength = 1"
| "compression_level Dictionary = 2"
| "compression_level Lz77 = 3"

record CompressedData =
  algorithm :: CompressionAlgorithm
  original_size :: nat
  compressed :: "u8 list"
  dict :: "u8 list list option"

definition compress ::
  "((u8 list, nat) hashmap \<Rightarrow> (u8 list \<times> nat) list) \<Rightarrow> CompressionAlgorithm \<Rightarrow> u8 list
     \<Rightarrow> CompressedData" where
  "compress iter algo data =
    (case algo of
       NoCompression \<Rightarrow> \<lparr>algorithm = NoCompression, original_size = length data,
         compressed = data, dict = None\<rparr>
     | RunLength \<Rightarrow> \<lparr>algorithm = RunLength, original_size = length data,
         compressed = run_length_encode data, dict = None\<rparr>
     | Dictionary \<Rightarrow>
         let (bytes, d) = dictionary_compress iter data 128
         in \<lparr>algorithm = Dictionary, original_size = length data, compressed = bytes, dict = Some d\<rparr>
     | Lz77 \<Rightarrow> \<lparr>algorithm = Lz77, original_size = length data,
         compressed = lz77_compress data 255 16, dict = None\<rparr>)"

definition decompress :: "CompressedData \<Rightarrow> u8 list option" where
  "decompress c =
    (case algorithm c of
       NoCompression \<Rightarrow> Some (compressed c)
     | RunLength \<Rightarrow> Some (run_length_decode (compressed c))
     | Dictionary \<Rightarrow>
         Some (dictionary_decompress (case dict c of Some d \<Rightarrow> d | None \<Rightarrow> []) (compressed c))
     | Lz77 \<Rightarrow> lz77_decompress (compressed c))"

text \<open>
  Entropy estimate. \<open>log2\<close> stands for \<open>f64::log2\<close>, whose precision Rust leaves to the
  platform's mathematical library.
\<close>

definition byte_counts :: "u8 list \<Rightarrow> nat list" where
  "byte_counts data =
     fold (\<lambda>b counts. counts[unat b := counts ! unat b + 1]) data (replicate 256 0)"

definition entropy :: "(f64 \<Rightarrow> f64) \<Rightarrow> u8 list \<Rightarrow> f64" where
  "entropy log2 data =
    (if data = [] then FFin 0
     else let len = f64_of_nat (length data);
              terms = map (\<lambda>c. let p = f64_div (f64_of_nat c) len in f64_mul (f64_neg p) (log2 p))
                (filter (\<lambda>c. c > 0) (byte_counts data))
          in foldl f64_add (FFin 0) terms)"

definition auto_select :: "(f64 \<Rightarrow> f64) \<Rightarrow> u8 list \<Rightarrow> CompressionAlgorithm" where
  "auto_select log2 data =
    (if length data < 8 then NoCompression
     else let e = entropy log2 data
          in if fp_lt e (FFin 1) then RunLength
             else if fp_lt e (FFin 4) then Dictionary
             else if fp_lt e (FFin (13 / 2)) then Lz77
             else NoCompression)"

definition compression_ratio :: "nat \<Rightarrow> nat \<Rightarrow> f64" where
  "compression_ratio original compressed_size =
    (if compressed_size = 0 then FInf False
     else f64_div (f64_of_nat original) (f64_of_nat compressed_size))"

lemma engine_roundtrip: "decompress (compress iter algo data) = Some data"
  by (cases algo)
    (auto simp: compress_def decompress_def run_length_roundtrip lz77_roundtrip
      dictionary_roundtrip case_prod_unfold Let_def)

interpretation rle: codec run_length_encode "\<lambda>d. Some (run_length_decode d)" "\<lambda>_. True"
  by unfold_locales (simp add: run_length_roundtrip)

interpretation engine: codec "compress iter algo" decompress "\<lambda>_. True" for iter algo
  by unfold_locales (rule engine_roundtrip)

subsection \<open>When the LZ77 decoder panics\<close>

lemma lz_copy_in_range: "i < length out \<Longrightarrow> \<exists>out'. lz_copy n i out = Some out' \<and> out' \<noteq> []"
  by (induction n i out rule: lz_copy.induct) auto

lemma lz77_decode_nonempty: "out \<noteq> [] \<Longrightarrow> lz77_decode out data \<noteq> None"
proof (induction out data rule: lz77_decode.induct)
  case (1 out hi lo len next_char flag rest)
  show ?case
  proof (cases "flag = 1 \<and> 0 < push_bit 8 (ucast hi :: u16) OR ucast lo \<and> 0 < len")
    case True
    then have "length out - unat (push_bit 8 (ucast hi :: u16) OR ucast lo) < length out"
      using "1.prems" by (auto simp: word_less_nat_alt)
    from lz_copy_in_range [OF this] obtain out' where
      "lz_copy (unat len) (length out - unat (push_bit 8 (ucast hi :: u16) OR ucast lo)) out = Some out'"
      by blast
    then show ?thesis using True "1.IH"(1) [OF refl True] by simp
  next
    case False
    then show ?thesis using "1.IH"(2) [OF refl False] by (simp only: lz77_decode.simps Let_def if_False) simp
  qed
qed simp_all

lemma lz_offset_zero: "push_bit 8 (ucast (hi :: u8) :: u16) OR ucast (lo :: u8) = 0 \<longleftrightarrow> hi = 0 \<and> lo = 0"
proof
  let ?o = "push_bit 8 (ucast hi :: u16) OR ucast lo"
  assume z: "?o = 0"
  have "\<not> bit hi n" if "n < 8" for n
  proof -
    have "\<not> bit ?o (n + 8)" unfolding z by simp
    then show ?thesis using that
      by (simp only: bit_or_iff bit_push_bit_iff bit_ucast_iff) auto
  qed
  moreover have "\<not> bit lo n" if "n < 8" for n
  proof -
    have "\<not> bit ?o n" unfolding z by simp
    then show ?thesis using that
      by (simp only: bit_or_iff bit_push_bit_iff bit_ucast_iff) auto
  qed
  ultimately show "hi = 0 \<and> lo = 0" by (auto intro!: bit_word_eqI)
qed simp

section \<open>Properties\<close>

text \<open>
  C4. Whatever the algorithm, the input and the iteration order of the frequency map, the
  engine decompresses what it compressed to the original bytes without panicking, and it
  records the original size.
\<close>

theorem compression_engine_roundtrip:
  "decompress (compress iter algo data) = Some data
   \<and> original_size (compress iter algo data) = length data"
  using engine_roundtrip [of iter algo data]
  by (auto simp: compress_def case_prod_unfold Let_def split: CompressionAlgorithm.splits)

text \<open>
  LZ77 is lossless for every window that fits the 16-bit offset and every lookahead
  that fits the 8-bit length field, on any input.
\<close>

theorem lz77_lossless:
  assumes "window < 65536" and "lookahead < 256"
  shows "lz77_decompress (lz77_compress data window lookahead) = Some data"
  using lz77_roundtrip [of window lookahead data] assms by simp

theorem lz77_lossless_witness:
  "lz77_decompress (lz77_compress [7, 7, 1, 7, 7, 1, 2] 4 8) = Some [7, 7, 1, 7, 7, 1, 2]"
  by (rule lz77_lossless) simp_all

text \<open>
  The LZ77 decoder panics exactly on inputs whose very first token is a back-reference
  (flag 1, non-zero offset and length); on every other byte string, well formed or not, it
  returns.
\<close>

theorem lz77_decompress_panics_iff:
  "lz77_decompress data = None \<longleftrightarrow>
     (\<exists>hi lo len c rest. data = hi # lo # len # c # 1 # rest \<and> \<not> (hi = 0 \<and> lo = 0) \<and> len \<noteq> 0)"
proof (cases "([] :: u8 list, data)" rule: lz77_decode.cases)
  case (1 out hi lo len c flag rest)
  have pos: "0 < x \<longleftrightarrow> x \<noteq> 0" for x :: "'w::len word" by (simp add: word_gt_0)
  show ?thesis
  proof (cases "flag = 1 \<and> (hi \<noteq> 0 \<or> lo \<noteq> 0) \<and> len \<noteq> 0")
    case True
    then obtain n where "unat len = Suc n" by (cases "unat len") (auto simp: unat_eq_0)
    then show ?thesis using True 1 lz_offset_zero [of hi lo]
      by (simp add: lz77_decompress_def pos)
  next
    case False
    then have "lz77_decompress data = lz77_decode [c] rest"
      using 1 lz_offset_zero [of hi lo] by (auto simp: lz77_decompress_def pos)
    then show ?thesis using False 1 lz77_decode_nonempty [of "[c]" rest] by auto
  qed
qed (auto simp: lz77_decompress_def)

text \<open>
  Run-length coding never more than doubles its input, and decoding inverts it; two
  inputs with the same encoding are equal.
\<close>

theorem run_length_lossless_and_bounded:
  "run_length_decode (run_length_encode data) = data
   \<and> length (run_length_encode data) \<le> 2 * length data
   \<and> (run_length_encode data = run_length_encode data' \<longleftrightarrow> data = data')"
  using run_length_roundtrip run_length_encode_length rle.encode_inj by blast

end
