(* ===== verification/CircuitBreaker.thy ===== *)
theory CircuitBreaker
  imports Prelude
begin

text \<open>
  The circuit breaker and its registry (\<open>src/circuit_breaker_registry.rs\<close>). A breaker is
  Closed, Open or HalfOpen; times are Unix milliseconds supplied by the caller. The lemmas
  cover tripping, blocking while open, recovery through probes and the configurations for
  which recovery is impossible, and the bulk operations of the registry.
\<close>

section \<open>One breaker\<close>

datatype CircuitState = Closed u32 | Open u64 | HalfOpen u32

record CircuitConfig =
  failure_threshold :: u32
  success_threshold :: u32
  timeout_ms :: u64
  half_open_max_calls :: u32

definition CircuitConfig_default :: CircuitConfig where
  "CircuitConfig_default = \<lparr>failure_threshold = 5, success_threshold = 2, timeout_ms = 30000,
     half_open_max_calls = 3\<rparr>"

record CircuitBreaker =
  config :: CircuitConfig
  state :: CircuitState
  half_open_successes :: u32

definition cb_new :: "CircuitConfig \<Rightarrow> CircuitBreaker" where
  "cb_new c = \<lparr>config = c, state = Closed 0, half_open_successes = 0\<rparr>"

definition record_success :: "u64 \<Rightarrow> CircuitBreaker \<Rightarrow> CircuitBreaker" where
  "record_success now cb =
    (case state cb of
       Closed _ \<Rightarrow> cb\<lparr>state := Closed 0\<rparr>
     | HalfOpen tc \<Rightarrow>
         let cb = cb\<lparr>half_open_successes := half_open_successes cb + 1\<rparr>
         in if half_open_successes cb \<ge> success_threshold (config cb)
            then cb\<lparr>half_open_successes := 0, state := Closed 0\<rparr>
            else cb\<lparr>state := HalfOpen tc\<rparr>
     | Open _ \<Rightarrow> cb)"

definition record_failure :: "u64 \<Rightarrow> CircuitBreaker \<Rightarrow> CircuitBreaker" where
  "record_failure now cb =
    (case state cb of
       Closed failure_count \<Rightarrow>
         let fc = failure_count + 1
         in if fc \<ge> failure_threshold (config cb) then cb\<lparr>state := Open now\<rparr>
            else cb\<lparr>state := Closed fc\<rparr>
     | HalfOpen _ \<Rightarrow> cb\<lparr>half_open_successes := 0, state := Open now\<rparr>
     | Open opened_at \<Rightarrow> cb\<lparr>state := Open opened_at\<rparr>)"

definition can_pass :: "u64 \<Rightarrow> CircuitBreaker \<Rightarrow> bool \<times> CircuitBreaker" where
  "can_pass now cb =
    (case state cb of
       Closed _ \<Rightarrow> (True, cb)
     | Open opened_at \<Rightarrow>
         if now \<ge> sat_add opened_at (timeout_ms (config cb))
         then (True, cb\<lparr>half_open_successes := 0, state := HalfOpen 1\<rparr>)
         else (False, cb)
     | HalfOpen test_count \<Rightarrow>
         if test_count < half_open_max_calls (config cb)
         then (True, cb\<lparr>state := HalfOpen (test_count + 1)\<rparr>)
         else (False, cb))"

definition force_open :: "u64 \<Rightarrow> CircuitBreaker \<Rightarrow> CircuitBreaker" where
  "force_open now cb = cb\<lparr>half_open_successes := 0, state := Open now\<rparr>"

definition force_close :: "CircuitBreaker \<Rightarrow> CircuitBreaker" where
  "force_close cb = cb\<lparr>half_open_successes := 0, state := Closed 0\<rparr>"

section \<open>The registry\<close>

type_synonym CircuitBreakerRegistry = "(string, CircuitBreaker) hashmap"

definition get_or_create ::
  "string \<Rightarrow> CircuitConfig \<Rightarrow> CircuitBreakerRegistry \<Rightarrow> CircuitBreaker \<times> CircuitBreakerRegistry" where
  "get_or_create service_id c reg =
    (case hm_get reg service_id of
       Some cb \<Rightarrow> (cb, reg)
     | None \<Rightarrow> (cb_new c, hm_insert service_id (cb_new c) reg))"

definition record_call :: "string \<Rightarrow> bool \<Rightarrow> u64 \<Rightarrow> CircuitBreakerRegistry \<Rightarrow> CircuitBreakerRegistry" where
  "record_call service_id success now reg =
    (let (cb, reg) = get_or_create service_id CircuitConfig_default reg
     in hm_insert service_id (if success then record_success now cb else record_failure now cb) reg)"

definition open_circuits :: "CircuitBreakerRegistry \<Rightarrow> (string \<times> u64) list" where
  "open_circuits reg =
     List.map_filter (\<lambda>(id, cb). case state cb of Open t \<Rightarrow> Some (id, t) | _ \<Rightarrow> None) reg"

definition closed_circuits :: "CircuitBreakerRegistry \<Rightarrow> string list" where
  "closed_circuits reg =
     List.map_filter (\<lambda>(id, cb). case state cb of Closed _ \<Rightarrow> Some id | _ \<Rightarrow> None) reg"

definition trip_all :: "CircuitBreakerRegistry \<Rightarrow> CircuitBreakerRegistry" where
  "trip_all reg = hm_map_values (force_open 0) reg"

definition reset_all :: "CircuitBreakerRegistry \<Rightarrow> CircuitBreakerRegistry" where
  "reset_all reg = hm_map_values force_close reg"

definition describe_state :: "CircuitState \<Rightarrow> string" where
  "describe_state s =
    (case s of
       Closed n \<Rightarrow> ''closed (failures: '' @ nat_to_string (unat n) @ '')''
     | Open t \<Rightarrow> ''open (opened_at: '' @ nat_to_string (unat t) @ ''ms)''
     | HalfOpen n \<Rightarrow> ''half-open (probes: '' @ nat_to_string (unat n) @ '')'')"

definition health_summary :: "CircuitBreakerRegistry \<Rightarrow> (string, string) hashmap" where
  "health_summary reg = hm_map_values (\<lambda>cb. describe_state (state cb)) reg"

section \<open>Invariant and runs\<close>

text \<open>Every counter stays below its threshold, so none of them can overflow.\<close>

definition cb_inv :: "CircuitBreaker \<Rightarrow> bool" where
  "cb_inv cb \<longleftrightarrow>
    (case state cb of
       Closed n \<Rightarrow> n = 0 \<or> n < failure_threshold (config cb)
     | Open _ \<Rightarrow> True
     | HalfOpen n \<Rightarrow> 1 \<le> n \<and> (n = 1 \<or> n \<le> half_open_max_calls (config cb)))
   \<and> (half_open_successes cb = 0 \<or> half_open_successes cb < success_threshold (config cb))"

datatype cb_op = Success u64 | Failure u64 | CanPass u64 | ForceOpen u64 | ForceClose

fun cb_step :: "cb_op \<Rightarrow> CircuitBreaker \<Rightarrow> CircuitBreaker" where
  "cb_step (Success t) cb = record_success t cb"
| "cb_step (Failure t) cb = record_failure t cb"
| "cb_step (CanPass t) cb = snd (can_pass t cb)"
| "cb_step (ForceOpen t) cb = force_open t cb"
| "cb_step ForceClose cb = force_close cb"

lemma config_step_same: "config (cb_step x cb) = config cb"
  by (cases x) (auto simp: record_success_def record_failure_def can_pass_def force_open_def
      force_close_def Let_def split: CircuitState.splits)

lemma less_imp_plus1_le: "(n :: 'w::len word) < m \<Longrightarrow> n + 1 \<le> m \<and> 1 \<le> n + 1"
  by uint_arith

lemma cb_step_inv: "cb_inv cb \<Longrightarrow> cb_inv (cb_step x cb)"
  by (cases x) (auto simp: cb_inv_def record_success_def record_failure_def can_pass_def
      force_open_def force_close_def Let_def not_le less_imp_plus1_le
      split: CircuitState.splits)

interpretation cb: stateful cb_step cb_inv
  by unfold_locales (rule cb_step_inv)

definition report_outcome :: "u64 \<Rightarrow> bool \<Rightarrow> CircuitBreaker \<Rightarrow> CircuitBreaker" where
  "report_outcome now ok cb = (if ok then record_success now cb else record_failure now cb)"

definition open_at :: "u64 \<Rightarrow> CircuitBreaker \<Rightarrow> bool" where
  "open_at now cb =
    (case state cb of Open t \<Rightarrow> now < sat_add t (timeout_ms (config cb)) | _ \<Rightarrow> False)"

interpretation cbg: breaker can_pass report_outcome open_at
  by unfold_locales (auto simp: open_at_def can_pass_def not_le split: CircuitState.splits)

text \<open>A caller that asks before every call and reports the outcome of every permitted one.\<close>

fun gated_calls :: "(u64 \<times> bool) list \<Rightarrow> CircuitBreaker \<Rightarrow> bool list \<times> CircuitBreaker" where
  "gated_calls [] cb = ([], cb)"
| "gated_calls ((now, ok) # rest) cb =
     (let (passed, cb) = can_pass now cb;
          cb = (if passed then report_outcome now ok cb else cb);
          (ps, cb) = gated_calls rest cb
      in (passed # ps, cb))"

section \<open>Lemmas\<close>

lemmas cb_ops = record_success_def record_failure_def can_pass_def report_outcome_def Let_def

lemma config_run: "config (fold cb_step ops cb) = config cb"
  by (induction ops arbitrary: cb) (simp_all add: config_step_same)

lemma failures_count_up:
  assumes "state cb = Closed 0" and "n < unat (failure_threshold (config cb))" and "n \<le> length ts"
  shows "fold record_failure (take n ts) cb = cb\<lparr>state := Closed (of_nat n)\<rparr>"
  using assms(2,3)
proof (induction n)
  case 0
  then show ?case using assms(1) by simp
next
  case (Suc n)
  then have n: "n < length ts" by simp
  have IH: "fold record_failure (take n ts) cb = cb\<lparr>state := Closed (of_nat n)\<rparr>"
    using Suc by simp
  have "Suc n < 2 ^ LENGTH(32)"
    using Suc.prems(1) unsigned_less [of "failure_threshold (config cb)", where ?'a = nat] by linarith
  then have "unat (of_nat (Suc n) :: u32) = Suc n" by (rule unat_of_nat_small)
  then have "\<not> failure_threshold (config cb) \<le> (of_nat (Suc n) :: u32)"
    using Suc.prems(1) by (simp only: word_le_nat_alt not_le)
  then have "record_failure (ts ! n) (cb\<lparr>state := Closed (of_nat n)\<rparr>)
      = cb\<lparr>state := Closed (of_nat (Suc n))\<rparr>"
    by (simp add: cb_ops add.commute)
  then show ?case using IH n by (simp add: take_Suc_conv_app_nth)
qed

lemma gated_blocked:
  "\<forall>c \<in> set calls. open_at (fst c) cb \<Longrightarrow> gated_calls calls cb = (replicate (length calls) False, cb)"
  by (induction calls) (auto simp: cbg.blocked_refuses)

lemma gated_probe:
  assumes "state cb = HalfOpen tc" "tc < half_open_max_calls (config cb)"
    "half_open_successes cb + 1 < success_threshold (config cb)"
  defines "cb' \<equiv> cb\<lparr>half_open_successes := half_open_successes cb + 1, state := HalfOpen (tc + 1)\<rparr>"
  shows "gated_calls ((now, True) # rest) cb
    = (True # fst (gated_calls rest cb'), snd (gated_calls rest cb'))"
proof -
  have "\<not> success_threshold (config cb) \<le> half_open_successes cb + 1"
    using assms(3) by simp
  then have "report_outcome now True (snd (can_pass now cb)) = cb'"
    and "fst (can_pass now cb)"
    using assms(1,2) by (simp_all add: cb_ops cb'_def)
  then show ?thesis by (simp add: case_prod_unfold Let_def)
qed

lemma gated_first_probe:
  assumes "state cb = Open t" "sat_add t (timeout_ms (config cb)) \<le> now"
    "1 < success_threshold (config cb)"
  defines "cb' \<equiv> cb\<lparr>half_open_successes := 1, state := HalfOpen 1\<rparr>"
  shows "gated_calls ((now, True) # rest) cb
    = (True # fst (gated_calls rest cb'), snd (gated_calls rest cb'))"
proof -
  have "\<not> success_threshold (config cb) \<le> 1" using assms(3) by simp
  then have "report_outcome now True (snd (can_pass now cb)) = cb'"
    and "fst (can_pass now cb)"
    using assms(1,2) by (simp_all add: cb_ops cb'_def)
  then show ?thesis by (simp add: case_prod_unfold Let_def)
qed

text \<open>Probes after the first: \<open>k\<close> of them have passed and succeeded, \<open>st - k\<close> are needed.\<close>

lemma probes_close:
  assumes "state cb = HalfOpen (of_nat k)" "half_open_successes cb = of_nat k" "1 \<le> k"
    and "k < unat (success_threshold (config cb))"
    and "unat (success_threshold (config cb)) \<le> unat (half_open_max_calls (config cb))"
    and "length ts = unat (success_threshold (config cb)) - k"
  shows "fst (gated_calls (map (\<lambda>t. (t, True)) ts) cb) = replicate (length ts) True
    \<and> state (snd (gated_calls (map (\<lambda>t. (t, True)) ts) cb)) = Closed 0"
  using assms
proof (induction ts arbitrary: cb k)
  case Nil
  then show ?case by simp
next
  case (Cons t ts)
  let ?st = "success_threshold (config cb)"
  have "k + 1 < 2 ^ LENGTH(32) \<or> k + 1 = unat ?st" and kb: "k < 2 ^ LENGTH(32)" "k + 1 \<le> unat ?st"
    using Cons.prems unsigned_less [of ?st, where ?'a = nat] by auto
  then have k1: "k + 1 < 2 ^ LENGTH(32)"
    using unsigned_less [of ?st, where ?'a = nat] by auto
  have uk: "unat (of_nat k :: u32) = k" "unat (of_nat k + 1 :: u32) = k + 1"
    using unat_of_nat_small [OF kb(1)] unat_of_nat_small [OF k1] by (simp_all add: add.commute)
  have tc: "of_nat k < half_open_max_calls (config cb)"
    using Cons.prems(4,5) uk by (simp add: word_less_nat_alt)
  show ?case
  proof (cases "k + 1 = unat ?st")
    case True
    then have st: "?st \<le> of_nat k + 1" using uk by (simp only: word_le_nat_alt)
    have "length ts = 0" using Cons.prems(6) True by (simp only: length_Cons)
    then have "ts = []" by simp
    with st show ?thesis using Cons.prems(1,2) tc by (simp add: cb_ops)
  next
    case False
    then have lt: "half_open_successes cb + 1 < ?st"
      using Cons.prems(2) uk kb by (simp only: word_less_nat_alt)
    let ?cb = "cb\<lparr>half_open_successes := of_nat (k + 1), state := HalfOpen (of_nat (k + 1))\<rparr>"
    have "fst (gated_calls (map (\<lambda>t. (t, True)) ts) ?cb) = replicate (length ts) True
      \<and> state (snd (gated_calls (map (\<lambda>t. (t, True)) ts) ?cb)) = Closed 0"
      by (rule Cons.IH [where k = "k + 1"]) (use Cons.prems False in auto)
    then show ?thesis
      using gated_probe [OF Cons.prems(1) tc lt, of t "map (\<lambda>t. (t, True)) ts"] Cons.prems(2)
      by (simp del: gated_calls.simps add: add.commute)
  qed
qed

text \<open>What no gated caller can leave when there are fewer probes than successes needed.\<close>

definition starved :: "CircuitBreaker \<Rightarrow> bool" where
  "starved cb \<longleftrightarrow>
    (case state cb of
       Closed _ \<Rightarrow> False
     | Open _ \<Rightarrow> True
     | HalfOpen tc \<Rightarrow> half_open_successes cb \<le> tc \<and> 1 \<le> tc
         \<and> tc \<le> max 1 (half_open_max_calls (config cb)))"

lemma starved_call:
  assumes "starved cb" and "max 1 (half_open_max_calls (config cb)) < success_threshold (config cb)"
  shows "starved (let (p, cb) = can_pass now cb in if p then report_outcome now ok cb else cb)
    \<and> config (let (p, cb) = can_pass now cb in if p then report_outcome now ok cb else cb) = config cb"
proof -
  have mono: "x \<le> y \<Longrightarrow> y < m \<Longrightarrow> x + 1 \<le> y + 1 \<and> y + 1 \<le> m \<and> 1 \<le> y + 1" for x y m :: u32
    by uint_arith
  show ?thesis
  proof (cases "state cb")
    case (HalfOpen tc)
    then show ?thesis
    proof (cases "tc < half_open_max_calls (config cb)")
      case True
      from HalfOpen assms(1) have "half_open_successes cb \<le> tc" by (simp add: starved_def)
      from mono [OF this True] have m: "half_open_successes cb + 1 \<le> tc + 1" "1 \<le> tc + 1"
        "tc + 1 \<le> half_open_max_calls (config cb)" by auto
      then have "half_open_successes cb + 1 < success_threshold (config cb)"
        using assms(2) by (auto simp: max_def split: if_splits)
      then show ?thesis using HalfOpen True m
        by (auto simp: cb_ops starved_def not_le [symmetric] max_def)
    qed (use assms in \<open>auto simp: cb_ops starved_def\<close>)
  qed (use assms in \<open>auto simp: cb_ops starved_def max_def split: if_splits\<close>)
qed

lemma starved_run:
  assumes "starved cb" and "max 1 (half_open_max_calls (config cb)) < success_threshold (config cb)"
  shows "starved (snd (gated_calls calls cb))"
  using assms
proof (induction calls arbitrary: cb)
  case (Cons c calls)
  obtain now ok where c: "c = (now, ok)" by (cases c)
  from Cons.IH [of "let (p, cb) = can_pass now cb in if p then report_outcome now ok cb else cb"]
    starved_call [OF Cons.prems, of now ok] Cons.prems(2)
  show ?case by (simp add: c case_prod_unfold Let_def)
qed simp

section \<open>Properties\<close>

text \<open>
  In every state a new breaker can reach by any sequence of operations, its
  configuration is the original one and all its counters are below their thresholds, so no
  counter ever overflows.
\<close>

theorem circuit_counters_bounded:
  "let cb = fold cb_step ops (cb_new c) in
     config cb = c
   \<and> (case state cb of
        Closed n \<Rightarrow> n = 0 \<or> n < failure_threshold c
      | Open _ \<Rightarrow> True
      | HalfOpen n \<Rightarrow> n = 1 \<or> (1 \<le> n \<and> n \<le> half_open_max_calls c))
   \<and> (half_open_successes cb = 0 \<or> half_open_successes cb < success_threshold c)"
proof -
  have "cb_inv (cb_new c)" by (simp add: cb_inv_def cb_new_def)
  then have "cb_inv (fold cb_step ops (cb_new c))" by (rule cb.run_inv)
  moreover have "config (fold cb_step ops (cb_new c)) = c" by (simp add: config_run cb_new_def)
  ultimately show ?thesis
    by (auto simp: cb_inv_def Let_def split: CircuitState.splits)
qed

text \<open>
  From a clean closed state, the breaker counts consecutive failures and opens exactly
  at the failure that reaches the threshold, stamped with that failure's time.
\<close>

theorem consecutive_failures_trip:
  assumes "state cb = Closed 0" and "0 < failure_threshold (config cb)"
    and "length ts = unat (failure_threshold (config cb))"
  shows "list_all (\<lambda>n. state (fold record_failure (take n ts) cb) = Closed (of_nat n)) [0..<length ts]
    \<and> state (fold record_failure ts cb) = Open (last ts)"
proof
  show "list_all (\<lambda>n. state (fold record_failure (take n ts) cb) = Closed (of_nat n)) [0..<length ts]"
    using failures_count_up [OF assms(1), of _ ts] assms(3) by (simp add: list_all_iff)
  have "0 < length ts" using assms(2,3) by (simp add: word_less_nat_alt)
  then obtain n where n: "length ts = Suc n" by (cases "length ts") auto
  then have "ts = butlast ts @ [last ts]" by (cases ts rule: rev_cases) auto
  moreover have "butlast ts = take n ts" using n by (simp add: butlast_conv_take)
  ultimately have ts: "ts = take n ts @ [last ts]" by simp
  have s: "fold record_failure (take n ts) cb = cb\<lparr>state := Closed (of_nat n)\<rparr>"
    by (rule failures_count_up) (use assms n in auto)
  have "Suc n < 2 ^ LENGTH(32)"
    using n assms(3) unsigned_less [of "failure_threshold (config cb)", where ?'a = nat] by simp
  then have "unat (of_nat (Suc n) :: u32) = Suc n" by (rule unat_of_nat_small)
  then have "failure_threshold (config cb) \<le> of_nat n + 1"
    using n assms(3) by (simp add: word_le_nat_alt add.commute)
  then have "state (record_failure (last ts) (fold record_failure (take n ts) cb)) = Open (last ts)"
    unfolding s by (simp add: cb_ops)
  then show "state (fold record_failure ts cb) = Open (last ts)"
    by (subst ts) simp
qed

theorem consecutive_failures_trip_witness:
  "state (fold record_failure [10, 20, 30, 40, 50] (cb_new CircuitConfig_default)) = Open 50"
  using consecutive_failures_trip [of "cb_new CircuitConfig_default" "[10, 20, 30, 40, 50]"]
  by (simp add: cb_new_def CircuitConfig_default_def)

text \<open>
  While a breaker is open and its timeout has not elapsed, a caller that asks first is
  refused every time and the breaker does not change.
\<close>

theorem open_refuses_until_timeout:
  assumes "state cb = Open t"
    and "\<forall>c \<in> set calls. fst c < sat_add t (timeout_ms (config cb))"
  shows "gated_calls calls cb = (replicate (length calls) False, cb)"
  by (rule gated_blocked) (use assms in \<open>simp add: open_at_def\<close>)

theorem open_refuses_until_timeout_witness:
  "gated_calls [(5, True), (30004, False)] (force_open 5 (cb_new CircuitConfig_default))
    = ([False, False], force_open 5 (cb_new CircuitConfig_default))"
  using open_refuses_until_timeout [of "force_open 5 (cb_new CircuitConfig_default)" 5
      "[(5, True), (30004, False)]"]
  by (simp add: force_open_def cb_new_def CircuitConfig_default_def sat_add_def)

text \<open>
  C29. After the timeout, if at least as many probes are allowed as successes are needed,
  that many successful calls in a row all pass and close the circuit again.
\<close>

theorem recovery_closes_circuit:
  assumes "state cb = Open t" and "sat_add t (timeout_ms (config cb)) \<le> t0"
    and "0 < success_threshold (config cb)"
    and "success_threshold (config cb) \<le> half_open_max_calls (config cb)"
    and "Suc (length ts) = unat (success_threshold (config cb))"
  shows "fst (gated_calls (map (\<lambda>t. (t, True)) (t0 # ts)) cb) = replicate (Suc (length ts)) True
    \<and> state (snd (gated_calls (map (\<lambda>t. (t, True)) (t0 # ts)) cb)) = Closed 0"
proof (cases "success_threshold (config cb) \<le> 1")
  case True
  then have "ts = []" using assms(5) by (cases ts) (auto simp: word_le_nat_alt)
  then show ?thesis using True assms(1,2,4) assms(3) by (simp add: cb_ops)
next
  case False
  let ?cb = "cb\<lparr>half_open_successes := 1, state := HalfOpen 1\<rparr>"
  have "fst (gated_calls (map (\<lambda>t. (t, True)) ts) ?cb) = replicate (length ts) True
    \<and> state (snd (gated_calls (map (\<lambda>t. (t, True)) ts) ?cb)) = Closed 0"
    by (rule probes_close [where k = 1]) (use assms False in \<open>auto simp: word_le_nat_alt\<close>)
  then show ?thesis
    using gated_first_probe [OF assms(1,2), of "map (\<lambda>t. (t, True)) ts"] False
    by (simp del: gated_calls.simps)
qed

theorem recovery_closes_circuit_witness:
  "gated_calls [(30005, True), (30009, True)] (force_open 5 (cb_new CircuitConfig_default))
    = ([True, True], cb_new CircuitConfig_default)"
  using recovery_closes_circuit [of "force_open 5 (cb_new CircuitConfig_default)" 5 30005 "[30009]"]
  by (simp add: force_open_def cb_new_def CircuitConfig_default_def sat_add_def cb_ops)

text \<open>
  With fewer probe slots than required successes, an opened breaker never closes again
  for a caller that asks before each call, however the calls turn out and however long it
  waits; once the probe slots are used up, every later call is refused.
\<close>

theorem too_few_probes_never_closes:
  assumes "state cb = Open t"
    and "max 1 (half_open_max_calls (config cb)) < success_threshold (config cb)"
  shows "(\<forall>n. state (snd (gated_calls calls cb)) \<noteq> Closed n)
    \<and> gated_calls later (cb\<lparr>state := HalfOpen (max 1 (half_open_max_calls (config cb)))\<rparr>)
      = (replicate (length later) False, cb\<lparr>state := HalfOpen (max 1 (half_open_max_calls (config cb)))\<rparr>)"
proof
  have "starved (snd (gated_calls calls cb))"
    by (rule starved_run) (use assms in \<open>simp_all add: starved_def\<close>)
  then show "\<forall>n. state (snd (gated_calls calls cb)) \<noteq> Closed n"
    by (auto simp: starved_def)
  show "gated_calls later (cb\<lparr>state := HalfOpen (max 1 (half_open_max_calls (config cb)))\<rparr>)
      = (replicate (length later) False, cb\<lparr>state := HalfOpen (max 1 (half_open_max_calls (config cb)))\<rparr>)"
    by (induction later) (auto simp: can_pass_def)
qed

theorem too_few_probes_never_closes_witness:
  "\<forall>n. state (snd (gated_calls [(9000, True), (9001, True), (9002, True), (99999, True)]
      (force_open 5 (cb_new \<lparr>failure_threshold = 1, success_threshold = 4, timeout_ms = 100,
         half_open_max_calls = 3\<rparr>)))) \<noteq> Closed n"
  by (rule too_few_probes_never_closes [THEN conjunct1])
    (simp_all add: force_open_def cb_new_def)

text \<open>
  The emergency trip stamps every breaker with time 0, so at any real time at or after
  its timeout the next call to each of them is let through again.
\<close>

theorem trip_all_lets_calls_through:
  assumes "hm_get reg s = Some cb" and "timeout_ms (config cb) \<le> now"
  shows "\<exists>cb'. hm_get (trip_all reg) s = Some cb' \<and> state cb' = Open 0 \<and> fst (can_pass now cb')"
  using assms by (simp add: trip_all_def hm_simps force_open_def can_pass_def)

theorem trip_all_lets_calls_through_witness:
  "\<exists>cb'. hm_get (trip_all [(''db'', cb_new CircuitConfig_default)]) ''db'' = Some cb'
     \<and> state cb' = Open 0 \<and> fst (can_pass 1700000000000 cb')"
  by (rule trip_all_lets_calls_through [where cb = "cb_new CircuitConfig_default"])
    (simp_all add: hm_get_def cb_new_def CircuitConfig_default_def)

text \<open>
  Recording an outcome for one service touches that service only: its breaker (created
  with the default configuration when missing) takes the step of the outcome, every other
  breaker is unchanged, and the registry keeps one breaker per service.
\<close>

theorem record_call_only_touches_service:
  assumes "hm_wf reg"
  shows "hm_wf (record_call s ok now reg)
    \<and> hm_get (record_call s ok now reg) s =
        Some (report_outcome now ok
          (case hm_get reg s of Some cb \<Rightarrow> cb | None \<Rightarrow> cb_new CircuitConfig_default))
    \<and> (s' = s \<or> hm_get (record_call s ok now reg) s' = hm_get reg s')"
  using assms
  by (auto simp: record_call_def get_or_create_def hm_simps report_outcome_def split: option.splits)

theorem record_call_only_touches_service_witness:
  "hm_get (record_call ''a'' False 3 [(''b'', cb_new CircuitConfig_default)]) ''b''
    = Some (cb_new CircuitConfig_default)"
  using record_call_only_touches_service
    [of "[(''b'', cb_new CircuitConfig_default)]" "''a''" False 3 "''b''"]
  by (simp add: hm_wf_def hm_get_def)

end
