(* ===== verification/Types.thy ===== *)
theory Types
  imports Floats
begin

text \<open>
  The data every module of the crate shares (\<open>src/types.rs\<close>): job kinds, execution
  strategies with their derived order, jobs, kernel outputs, and the display strings that
  other modules use as keys.
\<close>

datatype JobKind = HashMix | PrimeCount | MonteCarloRisk

datatype Strategy = Inline | Spawn | CpuPool | Batch | Drop

record Job =
  job_id :: u64
  kind :: JobKind
  inputs :: "u64 list"
  compute_cost :: u64
  scaling_potential :: f32
  latency_budget_ms :: u64
  deadline_ms :: u64

datatype Output = U64 u64 | F64 f64

fun JobKind_to_string :: "JobKind \<Rightarrow> string" where
  "JobKind_to_string HashMix = ''hash_mix''"
| "JobKind_to_string PrimeCount = ''prime_count''"
| "JobKind_to_string MonteCarloRisk = ''monte_carlo_risk''"

fun Strategy_to_string :: "Strategy \<Rightarrow> string" where
  "Strategy_to_string Inline = ''inline''"
| "Strategy_to_string Spawn = ''spawn''"
| "Strategy_to_string CpuPool = ''cpu_pool''"
| "Strategy_to_string Batch = ''batch''"
| "Strategy_to_string Drop = ''drop''"

text \<open>The derived \<open>Ord\<close> of \<open>Strategy\<close> compares positions in the declaration.\<close>

fun Strategy_rank :: "Strategy \<Rightarrow> nat" where
  "Strategy_rank Inline = 0"
| "Strategy_rank Spawn = 1"
| "Strategy_rank CpuPool = 2"
| "Strategy_rank Batch = 3"
| "Strategy_rank Drop = 4"

lemma Strategy_rank_inj: "Strategy_rank s = Strategy_rank t \<longleftrightarrow> s = t"
  by (cases s; cases t) auto

instantiation Strategy :: linorder
begin

definition less_eq_Strategy :: "Strategy \<Rightarrow> Strategy \<Rightarrow> bool" where
  "less_eq_Strategy s t = (Strategy_rank s \<le> Strategy_rank t)"

definition less_Strategy :: "Strategy \<Rightarrow> Strategy \<Rightarrow> bool" where
  "less_Strategy s t = (Strategy_rank s < Strategy_rank t)"

instance
  by standard (auto simp: less_eq_Strategy_def less_Strategy_def Strategy_rank_inj)

end

lemma JobKind_to_string_inj: "JobKind_to_string k = JobKind_to_string k' \<longleftrightarrow> k = k'"
  by (cases k; cases k') auto

text \<open>\<open>Job::default()\<close>: every field is its type's default.\<close>

definition Job_default :: Job where
  "Job_default = \<lparr>job_id = 0, kind = HashMix, inputs = [], compute_cost = 0,
     scaling_potential = FFin 0, latency_budget_ms = 0, deadline_ms = 0\<rparr>"

end
