(* ===== verification/Config.thy ===== *)
theory Config
  imports Types
begin

text \<open>
  The routing configuration (\<open>src/config.rs\<close>): the SLA map, the configuration record with
  its defaults, validation, the sparse patch of \<open>Router::patch_config\<close>
  (\<open>src/router.rs\<close>), the validated reloader and the polling file watchers. The lemmas
  characterise validation and show that no path through a patch, a reload or a
  watched file replaces a valid configuration by an invalid one.
\<close>

section \<open>Data\<close>

datatype SLAPriority = High | Normal | Low

record SLAConfig =
  max_latency_ms :: u64
  priority :: SLAPriority

definition SLAConfig_default :: SLAConfig where
  "SLAConfig_default = \<lparr>max_latency_ms = 500, priority = Normal\<rparr>"

type_synonym SLAMap = "(string, SLAConfig) hashmap"

definition SLAMap_get :: "SLAMap \<Rightarrow> string \<Rightarrow> SLAConfig option" where
  "SLAMap_get m k = hm_get m k"

definition SLAMap_defaults :: SLAMap where
  "SLAMap_defaults =
    (let m = [];
         m = hm_insert ''hash_mix'' \<lparr>max_latency_ms = 100, priority = High\<rparr> m;
         m = hm_insert ''prime_count'' \<lparr>max_latency_ms = 300, priority = Normal\<rparr> m
     in hm_insert ''monte_carlo_risk'' \<lparr>max_latency_ms = 500, priority = Normal\<rparr> m)"

record RouterConfig =
  version :: u32
  inline_threshold :: u64
  spawn_threshold :: u64
  cpu_queue_cap :: usize
  cpu_parallelism :: usize
  backpressure_busy_threshold :: usize
  batch_max_size :: usize
  batch_max_delay_ms :: u64
  ema_alpha :: f64
  adaptive_step :: f64
  cpu_p95_budget_ms :: u64
  adaptive_p95_threshold_factor :: f64
  enable_adaptive_threshold :: bool
  sla :: SLAMap
  warmup_steps :: usize

definition RouterConfig_default :: RouterConfig where
  "RouterConfig_default =
    \<lparr>version = 1, inline_threshold = 8000, spawn_threshold = 60000, cpu_queue_cap = 512,
     cpu_parallelism = 8, backpressure_busy_threshold = 7, batch_max_size = 8,
     batch_max_delay_ms = 10, ema_alpha = rnd64 (15 / 100), adaptive_step = rnd64 (10 / 100),
     cpu_p95_budget_ms = 200, adaptive_p95_threshold_factor = FFin (3 / 2),
     enable_adaptive_threshold = True, sla = SLAMap_defaults, warmup_steps = 10\<rparr>"

record RouterConfigPatch =
  p_inline_threshold :: "u64 option"
  p_spawn_threshold :: "u64 option"
  p_cpu_queue_cap :: "usize option"
  p_cpu_parallelism :: "usize option"
  p_backpressure_busy_threshold :: "usize option"
  p_batch_max_size :: "usize option"
  p_batch_max_delay_ms :: "u64 option"
  p_ema_alpha :: "f64 option"
  p_adaptive_step :: "f64 option"
  p_cpu_p95_budget_ms :: "u64 option"
  p_adaptive_p95_threshold_factor :: "f64 option"
  p_version :: "u32 option"
  p_enable_adaptive_threshold :: "bool option"
  p_sla :: "SLAMap option"
  p_warmup_steps :: "usize option"

definition RouterConfigPatch_default :: RouterConfigPatch where
  "RouterConfigPatch_default =
    \<lparr>p_inline_threshold = None, p_spawn_threshold = None, p_cpu_queue_cap = None,
     p_cpu_parallelism = None, p_backpressure_busy_threshold = None, p_batch_max_size = None,
     p_batch_max_delay_ms = None, p_ema_alpha = None, p_adaptive_step = None,
     p_cpu_p95_budget_ms = None, p_adaptive_p95_threshold_factor = None, p_version = None,
     p_enable_adaptive_threshold = None, p_sla = None, p_warmup_steps = None\<rparr>"

section \<open>Validation\<close>

text \<open>One constructor per message of \<open>ConfigError\<close>, with the values the message prints.\<close>

datatype ConfigError =
    InlineThresholdZero u64
  | SpawnThresholdZero u64
  | InlineNotBelowSpawn u64 u64
  | ParallelismZero
  | QueueCapZero
  | BatchSizeBelowTwo
  | EmaAlphaRange f64
  | AdaptiveStepRange f64
  | QueueCapBelowParallelism usize usize

definition validate :: "RouterConfig \<Rightarrow> ConfigError + unit" where
  "validate c =
    (if inline_threshold c = 0 then Inl (InlineThresholdZero (inline_threshold c))
     else if spawn_threshold c = 0 then Inl (SpawnThresholdZero (spawn_threshold c))
     else if inline_threshold c \<ge> spawn_threshold c
       then Inl (InlineNotBelowSpawn (inline_threshold c) (spawn_threshold c))
     else if cpu_parallelism c = 0 then Inl ParallelismZero
     else if cpu_queue_cap c = 0 then Inl QueueCapZero
     else if batch_max_size c < 2 then Inl BatchSizeBelowTwo
     else if \<not> (fp_lt (FFin 0) (ema_alpha c) \<and> fp_le (ema_alpha c) (FFin 1))
       then Inl (EmaAlphaRange (ema_alpha c))
     else if \<not> (fp_lt (FFin 0) (adaptive_step c) \<and> fp_le (adaptive_step c) (FFin 1))
       then Inl (AdaptiveStepRange (adaptive_step c))
     else if cpu_queue_cap c < cpu_parallelism c
       then Inl (QueueCapBelowParallelism (cpu_queue_cap c) (cpu_parallelism c))
     else Inr ())"

definition valid_config :: "RouterConfig \<Rightarrow> bool" where
  "valid_config c = (validate c = Inr ())"

definition in_unit_interval :: "f64 \<Rightarrow> bool" where
  "in_unit_interval x = (\<exists>q. x = FFin q \<and> 0 < q \<and> q \<le> 1)"

lemma unit_interval_test: "fp_lt (FFin 0) x \<and> fp_le x (FFin 1) \<longleftrightarrow> in_unit_interval x"
  by (cases x) (auto simp: in_unit_interval_def)

lemma valid_config_iff:
  "valid_config c \<longleftrightarrow>
     0 < inline_threshold c \<and> inline_threshold c < spawn_threshold c
   \<and> 0 < cpu_parallelism c \<and> cpu_parallelism c \<le> cpu_queue_cap c
   \<and> 2 \<le> batch_max_size c
   \<and> in_unit_interval (ema_alpha c) \<and> in_unit_interval (adaptive_step c)"
  unfolding valid_config_def validate_def unit_interval_test
  by (auto simp: not_less not_le word_gt_0 split: if_splits)

section \<open>Patching\<close>

definition or_keep :: "'a option \<Rightarrow> 'a \<Rightarrow> 'a" where
  "or_keep v old = (case v of Some x \<Rightarrow> x | None \<Rightarrow> old)"

text \<open>The candidate of \<open>Router::patch_config\<close>: every field but \<open>version\<close> is taken from the patch.\<close>

definition patch_candidate :: "RouterConfigPatch \<Rightarrow> RouterConfig \<Rightarrow> RouterConfig" where
  "patch_candidate p c = c\<lparr>
     inline_threshold := or_keep (p_inline_threshold p) (inline_threshold c),
     spawn_threshold := or_keep (p_spawn_threshold p) (spawn_threshold c),
     cpu_queue_cap := or_keep (p_cpu_queue_cap p) (cpu_queue_cap c),
     cpu_parallelism := or_keep (p_cpu_parallelism p) (cpu_parallelism c),
     backpressure_busy_threshold :=
       or_keep (p_backpressure_busy_threshold p) (backpressure_busy_threshold c),
     batch_max_size := or_keep (p_batch_max_size p) (batch_max_size c),
     batch_max_delay_ms := or_keep (p_batch_max_delay_ms p) (batch_max_delay_ms c),
     ema_alpha := or_keep (p_ema_alpha p) (ema_alpha c),
     adaptive_step := or_keep (p_adaptive_step p) (adaptive_step c),
     cpu_p95_budget_ms := or_keep (p_cpu_p95_budget_ms p) (cpu_p95_budget_ms c),
     adaptive_p95_threshold_factor :=
       or_keep (p_adaptive_p95_threshold_factor p) (adaptive_p95_threshold_factor c),
     enable_adaptive_threshold :=
       or_keep (p_enable_adaptive_threshold p) (enable_adaptive_threshold c),
     sla := or_keep (p_sla p) (sla c),
     warmup_steps := or_keep (p_warmup_steps p) (warmup_steps c)\<rparr>"

text \<open>
  The live configuration is a pair behind two locks: the source of truth and the snapshot
  that \<open>submit\<close> reads. \<open>patch_config\<close> holds the first lock until it has written both: no other
  write of the first falls between, so it is one step unless its caller goes away while it
  waits for the second lock (\<open>patch_config_cancelled\<close>). \<open>set_config\<close> releases the first lock
  before it waits for the second: \<open>arc_pending\<close> holds the configurations of the calls
  between the two.
\<close>

record live_config =
  cfg :: RouterConfig
  cfg_arc :: RouterConfig
  arc_pending :: "RouterConfig list"

definition patch_config ::
  "RouterConfigPatch \<Rightarrow> live_config \<Rightarrow> (ConfigError + RouterConfig) \<times> live_config" where
  "patch_config p l =
    (let candidate = patch_candidate p (cfg l)
     in case validate candidate of
          Inl e \<Rightarrow> (Inl e, l)
        | Inr _ \<Rightarrow> (Inr candidate, l\<lparr>cfg := candidate, cfg_arc := candidate\<rparr>))"

definition patch_config_cancelled :: "RouterConfigPatch \<Rightarrow> live_config \<Rightarrow> live_config" where
  "patch_config_cancelled p l =
    (let candidate = patch_candidate p (cfg l)
     in case validate candidate of Inl e \<Rightarrow> l | Inr _ \<Rightarrow> l\<lparr>cfg := candidate\<rparr>)"

definition set_config_write :: "RouterConfig \<Rightarrow> live_config \<Rightarrow> live_config" where
  "set_config_write c l = l\<lparr>cfg := c, arc_pending := arc_pending l @ [c]\<rparr>"

definition set_config_install :: "RouterConfig \<Rightarrow> live_config \<Rightarrow> live_config" where
  "set_config_install c l = l\<lparr>cfg_arc := c, arc_pending := remove1 c (arc_pending l)\<rparr>"

text \<open>A caller that goes away while it waits for the second lock writes no snapshot.\<close>

definition set_config_cancel :: "RouterConfig \<Rightarrow> live_config \<Rightarrow> live_config" where
  "set_config_cancel c l = l\<lparr>arc_pending := remove1 c (arc_pending l)\<rparr>"

text \<open>
  The handler of \<open>POST /api/config\<close> (\<open>src/web.rs\<close>) up to there: it answers an invalid
  configuration with the error and does not call the router.
\<close>

definition post_config :: "RouterConfig \<Rightarrow> live_config \<Rightarrow> (ConfigError + unit) \<times> live_config" where
  "post_config c l =
    (case validate c of Inl e \<Rightarrow> (Inl e, l) | Inr _ \<Rightarrow> (Inr (), set_config_write c l))"

text \<open>
  \<open>update_config_field\<close> writes one field by name, without validating (the
  \<open>debug_assert!\<close> is compiled out of release builds). It too releases the first lock
  before it installs its snapshot.
\<close>

definition update_config_field :: "string \<Rightarrow> u64 \<Rightarrow> live_config \<Rightarrow> bool \<times> live_config" where
  "update_config_field field value l =
    (let c = cfg l;
         (updated, c') =
           (if field = ''inline_threshold'' then (True, c\<lparr>inline_threshold := value\<rparr>)
            else if field = ''spawn_threshold'' then (True, c\<lparr>spawn_threshold := value\<rparr>)
            else if field = ''backpressure_busy_threshold''
              then (True, c\<lparr>backpressure_busy_threshold := value\<rparr>)
            else if field = ''batch_max_size'' then (True, c\<lparr>batch_max_size := value\<rparr>)
            else if field = ''batch_max_delay_ms'' then (True, c\<lparr>batch_max_delay_ms := value\<rparr>)
            else if field = ''cpu_queue_cap'' then (True, c\<lparr>cpu_queue_cap := value\<rparr>)
            else if field = ''cpu_parallelism'' then (True, c\<lparr>cpu_parallelism := value\<rparr>)
            else (False, c))
     in (updated, if updated then set_config_write c' l else l\<lparr>cfg := c'\<rparr>))"

section \<open>Reloading\<close>

text \<open>\<open>ConfigReloader::update\<close>: the watch channel holds the last value sent.\<close>

definition reloader_update :: "RouterConfig \<Rightarrow> RouterConfig \<Rightarrow> (ConfigError + unit) \<times> RouterConfig" where
  "reloader_update c current =
    (case validate c of Inl e \<Rightarrow> (Inl e, current) | Inr _ \<Rightarrow> (Inr (), c))"

text \<open>
  One iteration of the loop of \<open>watch_config\<close>, and of \<open>watch_config_with_callback\<close>. The
  environment supplies what the file system answers: the modification time, if any, and the
  content, \<open>None\<close> for a read error. \<open>parse\<close> stands for \<open>serde_json::from_str\<close>.
  The iteration returns the accepted configuration, if it accepted one.
\<close>

record watcher =
  last_mtime :: "nat option"
  last_content :: string

definition watcher_start :: watcher where
  "watcher_start = \<lparr>last_mtime = None, last_content = ''''\<rparr>"

definition watch_poll ::
  "(string \<Rightarrow> RouterConfig option) \<Rightarrow> nat option \<times> string option \<Rightarrow> watcher
     \<Rightarrow> RouterConfig option \<times> watcher" where
  "watch_poll parse obs w =
    (let (mtime, content) = obs in
     if mtime \<noteq> None \<and> mtime = last_mtime w then (None, w)
     else case content of
         None \<Rightarrow> (None, w)
       | Some s \<Rightarrow>
           if s = last_content w then (None, w\<lparr>last_mtime := mtime\<rparr>)
           else let w' = w\<lparr>last_content := s, last_mtime := mtime\<rparr>
                in case parse s of
                     None \<Rightarrow> (None, w')
                   | Some c \<Rightarrow> (case validate c of Inl _ \<Rightarrow> (None, w') | Inr _ \<Rightarrow> (Some c, w')))"

fun watch_config ::
  "(string \<Rightarrow> RouterConfig option) \<Rightarrow> (nat option \<times> string option) list \<Rightarrow> watcher
     \<Rightarrow> RouterConfig \<Rightarrow> RouterConfig" where
  "watch_config parse [] w lock = lock"
| "watch_config parse (obs # rest) w lock =
     (let (accepted, w') = watch_poll parse obs w
      in watch_config parse rest w' (or_keep accepted lock))"

fun watch_config_with_callback ::
  "(string \<Rightarrow> RouterConfig option) \<Rightarrow> (nat option \<times> string option) list \<Rightarrow> watcher
     \<Rightarrow> RouterConfig list" where
  "watch_config_with_callback parse [] w = []"
| "watch_config_with_callback parse (obs # rest) w =
     (let (accepted, w') = watch_poll parse obs w
      in (case accepted of None \<Rightarrow> [] | Some c \<Rightarrow> [c]) @ watch_config_with_callback parse rest w')"

section \<open>Lemmas\<close>

lemma watch_poll_Some:
  "watch_poll parse obs w = (Some c, w') \<Longrightarrow>
     valid_config c \<and> (\<exists>s. snd obs = Some s \<and> parse s = Some c \<and> s \<noteq> last_content w
                         \<and> last_content w' = s)"
  by (auto simp: watch_poll_def Let_def valid_config_def split: prod.splits option.splits
      sum.splits if_splits)

lemma watch_poll_None_keeps_or_moves:
  "watch_poll parse obs w = (None, w') \<Longrightarrow>
     last_content w' = last_content w \<or> Some (last_content w') = snd obs"
  by (auto simp: watch_poll_def Let_def split: prod.splits option.splits sum.splits if_splits)

lemma watch_config_last_callback:
  "watch_config parse obs w lock =
     (case watch_config_with_callback parse obs w of [] \<Rightarrow> lock | cs \<Rightarrow> last cs)"
  by (induction obs arbitrary: w lock)
    (auto simp: or_keep_def Let_def split: prod.splits option.splits list.splits)

lemma watch_callbacks_valid:
  "c \<in> set (watch_config_with_callback parse obs w) \<Longrightarrow>
     valid_config c \<and> (\<exists>m s. (m, Some s) \<in> set obs \<and> parse s = Some c)"
proof (induction obs arbitrary: w)
  case Nil
  then show ?case by simp
next
  case (Cons ob obs)
  obtain a w' where p: "watch_poll parse ob w = (a, w')" by (cases "watch_poll parse ob w")
  from Cons.prems p consider "a = Some c" | "c \<in> set (watch_config_with_callback parse obs w')"
    by (auto split: option.splits)
  then show ?case
  proof cases
    case 1
    with p watch_poll_Some [of parse ob w c w'] show ?thesis by (cases ob) auto
  next
    case 2
    with Cons.IH [of w'] show ?thesis by auto
  qed
qed

text \<open>
  What the web handlers do to the live pair, in any order: a patch, one that is cancelled
  between its two writes, the two parts of a replacement, and a replacement cancelled there.
\<close>

datatype config_op =
    Patch RouterConfigPatch
  | Cancel_patch RouterConfigPatch
  | Post RouterConfig
  | Install RouterConfig
  | Cancel RouterConfig

fun config_step :: "config_op \<Rightarrow> live_config \<Rightarrow> live_config" where
  "config_step (Patch p) l = snd (patch_config p l)"
| "config_step (Cancel_patch p) l = patch_config_cancelled p l"
| "config_step (Post c) l = snd (post_config c l)"
| "config_step (Install c) l = (if c \<in> set (arc_pending l) then set_config_install c l else l)"
| "config_step (Cancel c) l = (if c \<in> set (arc_pending l) then set_config_cancel c l else l)"

text \<open>No accepted write falls between the two parts of a replacement, and no write is cancelled
  before it has reached both copies.\<close>

fun undisturbed :: "config_op list \<Rightarrow> live_config \<Rightarrow> bool" where
  "undisturbed [] l = True"
| "undisturbed (x # ops) l =
     ((case x of
         Patch p \<Rightarrow> arc_pending l = [] \<or> config_step x l = l
       | Post c \<Rightarrow> arc_pending l = [] \<or> config_step x l = l
       | Install c \<Rightarrow> True
       | Cancel_patch p \<Rightarrow> config_step x l = l
       | Cancel c \<Rightarrow> config_step x l = l)
      \<and> undisturbed ops (config_step x l))"

definition live_ok :: "live_config \<Rightarrow> bool" where
  "live_ok l = (valid_config (cfg l) \<and> valid_config (cfg_arc l) \<and> list_all valid_config (arc_pending l))"

lemma config_step_ok: "live_ok l \<Longrightarrow> live_ok (config_step x l)"
  by (cases x) (auto simp: live_ok_def patch_config_def patch_config_cancelled_def post_config_def set_config_write_def
      set_config_install_def set_config_cancel_def valid_config_def Let_def list_all_iff
      dest: notin_set_remove1 split: sum.splits)

interpretation live: stateful config_step live_ok
  by unfold_locales (rule config_step_ok)

definition in_step :: "live_config \<Rightarrow> bool" where
  "in_step l = (arc_pending l = [] \<and> cfg_arc l = cfg l \<or> arc_pending l = [cfg l])"

lemma undisturbed_in_step: "undisturbed ops l \<Longrightarrow> in_step l \<Longrightarrow> in_step (fold config_step ops l)"
proof (induction ops arbitrary: l)
  case (Cons x ops)
  have "in_step (config_step x l)"
    using Cons.prems
    by (cases x) (auto simp: in_step_def patch_config_def post_config_def set_config_write_def
        set_config_install_def set_config_cancel_def Let_def split: sum.splits if_splits
        dest: arg_cong [of _ _ cfg] arg_cong [of _ _ arc_pending])
  then show ?case using Cons by simp
qed simp

section \<open>Properties\<close>

text \<open>
  Validation accepts exactly the configurations whose thresholds are ordered and
  positive, whose pool is non-empty and fits its queue, that batch at least two jobs, and
  whose smoothing factor and step are real numbers in (0, 1] (NaN is rejected).
\<close>

theorem validate_accepts_iff:
  "validate c = Inr () \<longleftrightarrow>
     0 < inline_threshold c \<and> inline_threshold c < spawn_threshold c
   \<and> 0 < cpu_parallelism c \<and> cpu_parallelism c \<le> cpu_queue_cap c
   \<and> 2 \<le> batch_max_size c
   \<and> in_unit_interval (ema_alpha c) \<and> in_unit_interval (adaptive_step c)"
  using valid_config_iff [of c] by (simp add: valid_config_def)

text \<open>
  C13. From a valid live configuration whose snapshot agrees with it, any interleaving of
  patches, posted replacements and their installations, accepted, rejected or cancelled, keeps
  both copies valid. The copies agree again whenever no replacement is half done, provided no other
  accepted write fell between its two parts and no accepted write was cancelled half done.
\<close>

theorem config_ops_keep_valid_and_synced:
  assumes "validate (cfg l) = Inr ()" and "cfg_arc l = cfg l" and "arc_pending l = []"
  shows "validate (cfg (fold config_step ops l)) = Inr ()
    \<and> validate (cfg_arc (fold config_step ops l)) = Inr ()
    \<and> (undisturbed ops l \<and> arc_pending (fold config_step ops l) = [] \<longrightarrow>
         cfg_arc (fold config_step ops l) = cfg (fold config_step ops l))"
proof -
  have "live_ok (fold config_step ops l)"
    by (rule live.run_inv) (use assms in \<open>simp add: live_ok_def valid_config_def\<close>)
  moreover have "undisturbed ops l \<Longrightarrow> in_step (fold config_step ops l)"
    by (rule undisturbed_in_step) (use assms in \<open>simp_all add: in_step_def\<close>)
  ultimately show ?thesis by (auto simp: live_ok_def valid_config_def in_step_def)
qed

definition demo_config :: RouterConfig where
  "demo_config = RouterConfig_default\<lparr>ema_alpha := FFin 1, adaptive_step := FFin 1\<rparr>"

definition demo_live :: live_config where
  "demo_live = \<lparr>cfg = demo_config, cfg_arc = demo_config, arc_pending = []\<rparr>"

lemma demo_config_valid: "validate demo_config = Inr ()" "validate (demo_config\<lparr>warmup_steps := n\<rparr>) = Inr ()"
  by (simp_all add: validate_def RouterConfig_default_def demo_config_def)

theorem config_ops_keep_valid_and_synced_witness:
  "let ops = [Patch (RouterConfigPatch_default\<lparr>p_spawn_threshold := Some 5\<rparr>),
       Post (demo_config\<lparr>warmup_steps := 3\<rparr>), Install (demo_config\<lparr>warmup_steps := 3\<rparr>)]
   in validate (cfg (fold config_step ops demo_live)) = Inr ()
    \<and> cfg_arc (fold config_step ops demo_live) = cfg (fold config_step ops demo_live)"
proof -
  let ?c = "demo_config\<lparr>warmup_steps := 3\<rparr>"
  let ?p = "RouterConfigPatch_default\<lparr>p_spawn_threshold := Some 5\<rparr>"
  have p: "snd (patch_config ?p demo_live) = demo_live"
    by (simp add: patch_config_def demo_live_def demo_config_def patch_candidate_def RouterConfigPatch_default_def
        or_keep_def RouterConfig_default_def validate_def)
  have "undisturbed [Patch ?p, Post ?c, Install ?c] demo_live"
    "arc_pending (fold config_step [Patch ?p, Post ?c, Install ?c] demo_live) = []"
    by (simp_all add: p post_config_def demo_config_valid set_config_write_def set_config_install_def)
      (simp_all add: demo_live_def)
  then show ?thesis
    using config_ops_keep_valid_and_synced [of demo_live "[Patch ?p, Post ?c, Install ?c]"]
    by (simp add: demo_live_def demo_config_valid)
qed

text \<open>
  A patch between the two parts of a replacement: both calls succeed, nothing is pending, and the
  snapshot that submissions read lacks the patch. It stays so until the next accepted write.
\<close>

lemma patch_between_parts:
  assumes "validate c = Inr ()" and "validate (patch_candidate p c) = Inr ()" and "arc_pending l = []"
  shows "let l' = fold config_step [Post c, Patch p, Install c] l
     in cfg l' = patch_candidate p c \<and> cfg_arc l' = c \<and> arc_pending l' = []"
  using assms by (simp add: post_config_def patch_config_def set_config_write_def set_config_install_def Let_def)

theorem patch_between_parts_desyncs:
  "let l' = fold config_step [Post demo_config, Patch (RouterConfigPatch_default\<lparr>p_warmup_steps := Some 3\<rparr>), Install demo_config] demo_live
   in cfg l' = demo_config\<lparr>warmup_steps := 3\<rparr> \<and> cfg_arc l' = demo_config \<and> cfg l' \<noteq> cfg_arc l' \<and> arc_pending l' = []"
proof -
  have p: "patch_candidate (RouterConfigPatch_default\<lparr>p_warmup_steps := Some 3\<rparr>) demo_config = demo_config\<lparr>warmup_steps := 3\<rparr>"
    by (simp add: patch_candidate_def RouterConfigPatch_default_def or_keep_def)
  have "warmup_steps demo_config \<noteq> 3" by (simp add: demo_config_def RouterConfig_default_def)
  then have "demo_config\<lparr>warmup_steps := 3\<rparr> \<noteq> demo_config"
    by (metis RouterConfig.select_convs(15) RouterConfig.surjective RouterConfig.update_convs(15))
  moreover have "arc_pending demo_live = []" by (simp add: demo_live_def)
  ultimately show ?thesis
    using patch_between_parts [OF demo_config_valid(1), of "RouterConfigPatch_default\<lparr>p_warmup_steps := Some 3\<rparr>" demo_live]
    unfolding p Let_def by (metis demo_config_valid(2))
qed

text \<open>
  A patch is all or nothing: it either returns the candidate, which is valid and is
  what both copies now hold, or returns the validation error and changes neither copy. The
  schema version survives every patch, also one that sets a version.
\<close>

theorem patch_config_atomic:
  "(case patch_config p l of
      (Inr c, l') \<Rightarrow> c = patch_candidate p (cfg l) \<and> validate c = Inr () \<and> cfg l' = c \<and> cfg_arc l' = c
    | (Inl e, l') \<Rightarrow> validate (patch_candidate p (cfg l)) = Inl e \<and> l' = l)
   \<and> version (cfg (snd (patch_config p l))) = version (cfg l)"
  by (auto simp: patch_config_def Let_def patch_candidate_def split: sum.splits)

text \<open>
  A watched file only ever installs validated configurations that were parsed from a
  content the file really had; the lock ends with the last one the callback variant would
  report, or untouched when there was none.
\<close>

theorem watch_config_installs_valid:
  "(case watch_config_with_callback parse obs w of
      [] \<Rightarrow> watch_config parse obs w lock = lock
    | c # cs \<Rightarrow> watch_config parse obs w lock = last (c # cs))
   \<and> list_all (\<lambda>c. validate c = Inr () \<and> (\<exists>s \<in> set obs. Option.bind (snd s) parse = Some c))
       (watch_config_with_callback parse obs w)"
proof -
  have "list_all (\<lambda>c. validate c = Inr () \<and> (\<exists>s \<in> set obs. Option.bind (snd s) parse = Some c))
       (watch_config_with_callback parse obs w)"
    unfolding list_all_iff
    by (auto dest!: watch_callbacks_valid simp: valid_config_def) force
  then show ?thesis
    using watch_config_last_callback [of parse obs w lock] by (auto split: list.splits)
qed

end
