(* ===== verification/ResultCache.thy ===== *)
theory ResultCache
  imports Types
begin

text \<open>
  The content-addressed LRU cache of job results (\<open>src/result_cache.rs\<close>): keys are FNV-1a
  hashes of kind, inputs and cost, a hash map holds the entries and a queue their recency
  order. Instants are natural numbers (nanoseconds of a monotonic clock) passed in by the
  caller. The lemmas show that map and queue agree, that the capacity is respected, what a
  lookup returns after an insertion, and which entry is evicted.
\<close>

section \<open>Keys\<close>

definition fnv1a_64 :: "u8 list \<Rightarrow> u64" where
  "fnv1a_64 data = fold (\<lambda>byte hash. (hash XOR ucast byte) * 1099511628211) data 14695981039346656037"

definition u64_to_le_bytes :: "u64 \<Rightarrow> u8 list" where
  "u64_to_le_bytes w = map (\<lambda>i. ucast (drop_bit (8 * i) w)) [0..<8]"

definition string_bytes :: "string \<Rightarrow> u8 list" where
  "string_bytes s = map of_char s"

definition job_key_bytes :: "Job \<Rightarrow> u8 list" where
  "job_key_bytes job =
     string_bytes (JobKind_to_string (kind job))
     @ concat (map u64_to_le_bytes (inputs job))
     @ u64_to_le_bytes (compute_cost job)"

definition job_key :: "Job \<Rightarrow> u64" where
  "job_key job = fnv1a_64 (job_key_bytes job)"

section \<open>State\<close>

record CacheConfig =
  max_entries :: nat
  ttl :: nat

definition CacheConfig_default :: CacheConfig where
  "CacheConfig_default = \<lparr>max_entries = 1024, ttl = 300 * 1000000000\<rparr>"

record CacheEntry =
  result :: string
  computed_at :: nat
  entry_hits :: u64

record CachedResult =
  cached_result :: string
  age :: nat

record ResultCache =
  cache_config :: CacheConfig
  entries :: "(u64, CacheEntry) hashmap"
  lru_order :: "u64 list"
  hits :: u64
  misses :: u64
  evictions :: u64

definition cache_new :: "CacheConfig \<Rightarrow> ResultCache" where
  "cache_new c = \<lparr>cache_config = c, entries = [], lru_order = [], hits = 0, misses = 0, evictions = 0\<rparr>"

section \<open>Operations\<close>

text \<open>Moving the first occurrence of a key to the back of the queue, if it is there.\<close>

definition promote :: "u64 \<Rightarrow> u64 list \<Rightarrow> u64 list" where
  "promote key q = (if key \<in> set q then remove1 key q @ [key] else q)"

definition elapsed :: "nat \<Rightarrow> CacheEntry \<Rightarrow> nat" where
  "elapsed now e = now - computed_at e"

definition cache_get :: "nat \<Rightarrow> Job \<Rightarrow> ResultCache \<Rightarrow> CachedResult option \<times> ResultCache" where
  "cache_get now job c =
    (let key = job_key job
     in case hm_get (entries c) key of
          Some e \<Rightarrow>
            if elapsed now e > ttl (cache_config c) then (None, c\<lparr>misses := misses c + 1\<rparr>)
            else (Some \<lparr>cached_result = result e, age = elapsed now e\<rparr>,
                  c\<lparr>entries := hm_insert key (e\<lparr>entry_hits := entry_hits e + 1\<rparr>) (entries c),
                    hits := hits c + 1,
                    lru_order := promote key (lru_order c)\<rparr>)
        | None \<Rightarrow> (None, c\<lparr>misses := misses c + 1\<rparr>))"

text \<open>The eviction loop ends when there is room or when the queue is empty.\<close>

function evict_lru :: "ResultCache \<Rightarrow> ResultCache" where
  "evict_lru c =
    (if length (entries c) \<ge> max_entries (cache_config c)
     then case lru_order c of
            oldest # rest \<Rightarrow>
              evict_lru (c\<lparr>lru_order := rest, entries := hm_remove oldest (entries c),
                           evictions := evictions c + 1\<rparr>)
          | [] \<Rightarrow> c
     else c)"
  by pat_completeness auto
termination
  by (relation "measure (\<lambda>c. length (lru_order c))") auto

declare evict_lru.simps [simp del]

definition cache_insert :: "nat \<Rightarrow> Job \<Rightarrow> string \<Rightarrow> ResultCache \<Rightarrow> ResultCache" where
  "cache_insert now job res c =
    (let key = job_key job
     in case hm_get (entries c) key of
          Some e \<Rightarrow>
            c\<lparr>entries := hm_insert key (e\<lparr>result := res, computed_at := now\<rparr>) (entries c),
              lru_order := promote key (lru_order c)\<rparr>
        | None \<Rightarrow>
            let c = evict_lru c
            in c\<lparr>entries := hm_insert key \<lparr>result = res, computed_at = now, entry_hits = 0\<rparr> (entries c),
                 lru_order := lru_order c @ [key]\<rparr>)"

definition evict_key :: "u64 \<Rightarrow> ResultCache \<Rightarrow> ResultCache" where
  "evict_key key c = c\<lparr>entries := hm_remove key (entries c),
     lru_order := remove1 key (lru_order c), evictions := evictions c + 1\<rparr>"

definition expired_keys :: "nat \<Rightarrow> ResultCache \<Rightarrow> u64 list" where
  "expired_keys now c = map fst (filter (\<lambda>(_, e). elapsed now e > ttl (cache_config c)) (entries c))"

definition evict_expired :: "nat \<Rightarrow> ResultCache \<Rightarrow> nat \<times> ResultCache" where
  "evict_expired now c =
    (let keys = expired_keys now c in (length keys, fold evict_key keys c))"

definition cache_len :: "ResultCache \<Rightarrow> nat" where
  "cache_len c = length (entries c)"

section \<open>Invariant\<close>

text \<open>The queue holds exactly the keys of the map, once each, and the map fits its capacity.\<close>

definition cache_inv :: "ResultCache \<Rightarrow> bool" where
  "cache_inv c \<longleftrightarrow> hm_wf (entries c) \<and> distinct (lru_order c)
     \<and> set (lru_order c) = set (hm_keys (entries c))
     \<and> length (entries c) \<le> max 1 (max_entries (cache_config c))"

lemma cache_inv_lengths: "cache_inv c \<Longrightarrow> length (lru_order c) = length (entries c)"
  by (simp add: cache_inv_def hm_wf_length distinct_card [symmetric])

lemma promote_same [simp]: "distinct q \<Longrightarrow> distinct (promote k q)" "set (promote k q) = set q"
  by (auto simp: promote_def set_remove1_eq split: if_splits) (metis in_set_remove1)+

lemma cache_get_inv: "cache_inv c \<Longrightarrow> cache_inv (snd (cache_get now job c))"
  by (auto simp: cache_get_def cache_inv_def Let_def hm_simps insert_absorb length_hm_insert
      hm_contains_def dest: hm_get_SomeD split: option.splits)

lemma evict_lru_spec:
  assumes "cache_inv c"
  defines "n \<equiv> length (entries c) + 1 - max_entries (cache_config c)"
  shows "cache_inv (evict_lru c)
    \<and> cache_config (evict_lru c) = cache_config c
    \<and> lru_order (evict_lru c) = drop n (lru_order c)
    \<and> (\<forall>k. hm_get (entries (evict_lru c)) k =
         (if k \<in> set (take n (lru_order c)) then None else hm_get (entries c) k))"
  using assms(1) unfolding n_def
proof (induction c rule: evict_lru.induct)
  case (1 c)
  show ?case
  proof (cases "length (entries c) \<ge> max_entries (cache_config c)")
    case False
    then have "length (entries c) + 1 - max_entries (cache_config c) = 0" by simp
    moreover have "evict_lru c = c" using False by (simp add: evict_lru.simps [of c])
    ultimately show ?thesis using "1.prems" by simp
  next
    case True
    show ?thesis
    proof (cases "lru_order c")
      case Nil
      then have "evict_lru c = c" by (simp add: evict_lru.simps [of c])
      then show ?thesis using Nil "1.prems" by simp
    next
      case (Cons k rest)
      let ?d = "c\<lparr>lru_order := rest, entries := hm_remove k (entries c), evictions := evictions c + 1\<rparr>"
      have step: "evict_lru c = evict_lru ?d" using True Cons by (simp add: evict_lru.simps [of c])
      have k: "hm_contains (entries c) k" "k \<notin> set rest"
        using "1.prems" Cons by (auto simp: cache_inv_def hm_contains_def hm_get_None_iff)
      have len: "length (entries ?d) = length (entries c) - 1" "0 < length (entries c)"
        using k "1.prems" Cons cache_inv_lengths [of c]
        by (auto simp: cache_inv_def length_hm_remove)
      have inv: "cache_inv ?d"
        using "1.prems" Cons k len by (auto simp: cache_inv_def hm_simps)
      have n: "length (entries c) + 1 - max_entries (cache_config c)
          = Suc (length (entries ?d) + 1 - max_entries (cache_config c))"
        using True len by simp
      show ?thesis
        using "1.IH" [OF True Cons inv] unfolding step n Cons
        by (auto simp: hm_simps)
    qed
  qed
qed

lemma evict_lru_room:
  assumes "cache_inv c"
  shows "length (entries (evict_lru c)) < max 1 (max_entries (cache_config c))"
proof -
  note e = evict_lru_spec [OF assms]
  have "length (entries (evict_lru c)) = length (lru_order (evict_lru c))"
    using cache_inv_lengths [of "evict_lru c"] e by simp
  also have "\<dots> = length (lru_order c) - (length (entries c) + 1 - max_entries (cache_config c))"
    using e by simp
  finally show ?thesis using cache_inv_lengths [OF assms] by simp
qed

lemma evict_lru_get_None: "cache_inv c \<Longrightarrow> hm_get (entries c) k = None \<Longrightarrow>
    hm_get (entries (evict_lru c)) k = None"
  using evict_lru_spec by simp

lemma cache_insert_inv: "cache_inv c \<Longrightarrow> cache_inv (cache_insert now job res c)"
proof (cases "hm_get (entries c) (job_key job)")
  case (Some e)
  assume "cache_inv c"
  with Some show ?thesis
    by (auto simp: cache_insert_def cache_inv_def Let_def hm_simps insert_absorb length_hm_insert
        hm_contains_def dest: hm_get_SomeD)
next
  case None
  assume c: "cache_inv c"
  let ?d = "evict_lru c"
  have d: "cache_inv ?d" "cache_config ?d = cache_config c"
    "length (entries ?d) < max 1 (max_entries (cache_config c))"
    "hm_get (entries ?d) (job_key job) = None"
    using evict_lru_spec [OF c] evict_lru_room [OF c] None by auto
  then have "job_key job \<notin> set (lru_order ?d)" by (auto simp: cache_inv_def hm_get_None_iff)
  with d None show ?thesis
    by (auto simp: cache_insert_def cache_inv_def Let_def hm_simps length_hm_insert hm_contains_def)
qed

lemma evict_key_inv: "cache_inv c \<Longrightarrow> cache_inv (evict_key k c)"
  by (auto simp: evict_key_def cache_inv_def hm_simps length_hm_remove)

lemma evict_expired_inv: "cache_inv c \<Longrightarrow> cache_inv (snd (evict_expired now c))"
proof -
  have "cache_inv d \<Longrightarrow> cache_inv (fold evict_key ks d)" for ks d
    by (induction ks arbitrary: d) (auto intro: evict_key_inv)
  then show "cache_inv c \<Longrightarrow> ?thesis" by (simp add: evict_expired_def Let_def)
qed

datatype cache_op = CacheGet nat Job | CacheInsert nat Job string | EvictExpired nat

fun cache_step :: "cache_op \<Rightarrow> ResultCache \<Rightarrow> ResultCache" where
  "cache_step (CacheGet now job) c = snd (cache_get now job c)"
| "cache_step (CacheInsert now job res) c = cache_insert now job res c"
| "cache_step (EvictExpired now) c = snd (evict_expired now c)"

interpretation cache: stateful cache_step cache_inv
proof
  fix s x assume "cache_inv s"
  then show "cache_inv (cache_step x s)"
    by (cases x) (simp_all add: cache_get_inv cache_insert_inv evict_expired_inv)
qed

section \<open>Lookup and eviction lemmas\<close>

definition cache_reachable :: "CacheConfig \<Rightarrow> ResultCache \<Rightarrow> bool" where
  "cache_reachable cfg c = (\<exists>ops. c = fold cache_step ops (cache_new cfg))"

lemma cache_new_inv: "cache_inv (cache_new cfg)"
  by (simp add: cache_inv_def cache_new_def hm_keys_def)

lemma cache_step_config: "cache_inv c \<Longrightarrow> cache_config (cache_step x c) = cache_config c"
proof (cases x)
  case (CacheInsert now job res)
  assume "cache_inv c"
  then show ?thesis using CacheInsert evict_lru_spec [of c]
    by (auto simp: cache_insert_def Let_def split: option.splits)
next
  case (EvictExpired now)
  have "cache_config (fold evict_key ks d) = cache_config d" for ks d
    by (induction ks arbitrary: d) (auto simp: evict_key_def)
  then show ?thesis using EvictExpired by (simp add: evict_expired_def Let_def)
qed (auto simp: cache_get_def Let_def split: option.splits)

lemma reachable_inv: "cache_reachable cfg c \<Longrightarrow> cache_inv c \<and> cache_config c = cfg"
proof -
  assume "cache_reachable cfg c"
  then obtain ops where "c = fold cache_step ops (cache_new cfg)" by (auto simp: cache_reachable_def)
  moreover have "cache_inv (fold cache_step ops (cache_new cfg))
      \<and> cache_config (fold cache_step ops (cache_new cfg)) = cfg"
  proof (induction ops rule: rev_induct)
    case Nil
    show ?case by (simp add: cache_new_inv) (simp add: cache_new_def)
  next
    case (snoc x xs)
    then show ?case by (simp add: cache.op_inv cache_step_config)
  qed
  ultimately show ?thesis by simp
qed

lemma hm_get_insert_other:
  assumes "cache_inv c" "k \<noteq> job_key job"
  shows "hm_get (entries (cache_insert now job res c)) k =
    (if hm_get (entries c) (job_key job) = None
        \<and> k \<in> set (take (length (entries c) + 1 - max_entries (cache_config c)) (lru_order c))
     then None else hm_get (entries c) k)"
  using assms evict_lru_spec [of c]
  by (auto simp: cache_insert_def Let_def hm_simps split: option.splits)

lemma hm_get_insert_same:
  "\<exists>e. hm_get (entries (cache_insert now job res c)) (job_key job) = Some e
     \<and> result e = res \<and> computed_at e = now"
  by (auto simp: cache_insert_def Let_def hm_simps split: option.splits)

lemma evict_keys_get:
  "hm_get (entries (fold evict_key ks c)) k = (if k \<in> set ks then None else hm_get (entries c) k)"
  by (induction ks arbitrary: c) (auto simp: evict_key_def hm_simps)

lemma expired_keys_iff:
  "cache_inv c \<Longrightarrow> k \<in> set (expired_keys now c) \<longleftrightarrow>
     (\<exists>e. hm_get (entries c) k = Some e \<and> ttl (cache_config c) < elapsed now e)"
  by (force simp: expired_keys_def cache_inv_def hm_get_eq_Some_iff)

section \<open>Properties\<close>

text \<open>
  C28. In every state the cache can reach, the recency queue lists exactly the cached keys,
  each once, and the number of entries never exceeds the configured maximum (one entry when
  the maximum is zero).
\<close>

theorem cache_queue_matches_map:
  "let c = fold cache_step ops (cache_new cfg) in
     distinct (lru_order c) \<and> set (lru_order c) = set (hm_keys (entries c))
   \<and> cache_len c = length (lru_order c) \<and> cache_len c \<le> max 1 (max_entries cfg)"
proof -
  have "cache_reachable cfg (fold cache_step ops (cache_new cfg))" by (auto simp: cache_reachable_def)
  from reachable_inv [OF this] obtain c where c: "c = fold cache_step ops (cache_new cfg)"
    "cache_inv c" "cache_config c = cfg" by blast
  then show ?thesis using cache_inv_lengths [OF c(2)] unfolding c(1) [symmetric]
    by (auto simp: cache_inv_def Let_def cache_len_def)
qed

text \<open>
  In every reachable state, a lookup after storing a result for the same job returns that
  result with its age while its time to live has not elapsed, and counts one hit; after the
  time to live it misses.
\<close>

theorem cache_get_after_insert:
  assumes "cache_reachable cfg c"
  shows "fst (cache_get later job (cache_insert now job res c)) =
      (if later - now \<le> ttl cfg then Some \<lparr>cached_result = res, age = later - now\<rparr> else None)
    \<and> hits (snd (cache_get later job (cache_insert now job res c))) =
      hits (cache_insert now job res c) + (if later - now \<le> ttl cfg then 1 else 0)"
proof -
  from hm_get_insert_same obtain e where e:
    "hm_get (entries (cache_insert now job res c)) (job_key job) = Some e"
    "result e = res" "computed_at e = now" by blast
  have "cache_config (cache_insert now job res c) = cfg"
    using reachable_inv [OF assms] cache_step_config [of c "CacheInsert now job res"] by simp
  then show ?thesis using e by (auto simp: cache_get_def elapsed_def Let_def)
qed

theorem cache_get_after_insert_witness:
  "fst (cache_get 40 Job_default (cache_insert 10 Job_default ''u64:7'' (cache_new CacheConfig_default)))
    = Some \<lparr>cached_result = ''u64:7'', age = 30\<rparr>"
proof -
  have "cache_reachable CacheConfig_default (cache_new CacheConfig_default)"
    unfolding cache_reachable_def by (rule exI [of _ "[]"]) simp
  from cache_get_after_insert [OF this, of 40 Job_default 10 "''u64:7''"]
  show ?thesis by (simp add: CacheConfig_default_def)
qed

text \<open>
  Storing a new job in a full cache evicts exactly the least recently used entry, the
  front of the queue; all other entries keep their result and age.
\<close>

theorem full_cache_evicts_least_recent:
  assumes "cache_reachable cfg c" and "1 \<le> max_entries cfg" and "cache_len c = max_entries cfg"
    and "hm_get (entries c) (job_key job) = None"
  shows "lru_order (cache_insert now job res c) = tl (lru_order c) @ [job_key job]
    \<and> (k = job_key job \<or> hm_get (entries (cache_insert now job res c)) k =
        (if k = hd (lru_order c) then None else hm_get (entries c) k))"
proof -
  have inv: "cache_inv c" and cfg: "cache_config c = cfg" using reachable_inv [OF assms(1)] by auto
  have n: "length (entries c) + 1 - max_entries (cache_config c) = 1"
    using assms(3) cfg by (simp add: cache_len_def)
  have "length (lru_order c) = max_entries cfg"
    using cache_inv_lengths [OF inv] assms(3) by (simp add: cache_len_def)
  then obtain h q where q: "lru_order c = h # q" using assms(2) by (cases "lru_order c") auto
  have "lru_order (evict_lru c) = q" using evict_lru_spec [OF inv] n q by simp
  then have "lru_order (cache_insert now job res c) = tl (lru_order c) @ [job_key job]"
    using assms(4) q by (simp add: cache_insert_def Let_def)
  moreover have "hm_get (entries (cache_insert now job res c)) k =
      (if k = h then None else hm_get (entries c) k)" if "k \<noteq> job_key job"
    using hm_get_insert_other [OF inv that, of now res] n q assms(4) by simp
  ultimately show ?thesis by (cases "k = job_key job") (simp_all add: q)
qed

theorem full_cache_evicts_least_recent_witness:
  "lru_order (cache_insert 5 (Job_default\<lparr>inputs := [2]\<rparr>) ''b''
     (fold cache_step [CacheInsert 1 Job_default ''a''] (cache_new \<lparr>max_entries = 1, ttl = 9\<rparr>)))
   = [job_key (Job_default\<lparr>inputs := [2]\<rparr>)]"
proof -
  let ?c = "fold cache_step [CacheInsert 1 Job_default ''a''] (cache_new \<lparr>max_entries = 1, ttl = 9\<rparr>)"
  have k: "job_key (Job_default\<lparr>inputs := [2]\<rparr>) \<noteq> job_key Job_default" by code_simp
  have c: "entries ?c = [(job_key Job_default, \<lparr>result = ''a'', computed_at = 1, entry_hits = 0\<rparr>)]"
    "lru_order ?c = [job_key Job_default]"
    by (simp_all add: cache_insert_def cache_new_def evict_lru.simps hm_insert_def Let_def)
  have "cache_reachable \<lparr>max_entries = 1, ttl = 9\<rparr> ?c" unfolding cache_reachable_def by blast
  from full_cache_evicts_least_recent [OF this, of "Job_default\<lparr>inputs := [2]\<rparr>" 5 "''b''"]
  show ?thesis using c k by (simp add: cache_len_def hm_get_def)
qed

text \<open>
  Expiry removes exactly the entries older than the time to live, reports how many,
  and leaves every other entry as it was.
\<close>

theorem evict_expired_exact:
  assumes "cache_reachable cfg c"
  shows "hm_get (entries (snd (evict_expired now c))) k =
      (case hm_get (entries c) k of
         Some e \<Rightarrow> if ttl cfg < elapsed now e then None else Some e
       | None \<Rightarrow> None)
    \<and> fst (evict_expired now c) + cache_len (snd (evict_expired now c)) = cache_len c"
proof
  have inv: "cache_inv c" and cfg: "cache_config c = cfg" using reachable_inv [OF assms] by auto
  show "hm_get (entries (snd (evict_expired now c))) k =
      (case hm_get (entries c) k of
         Some e \<Rightarrow> if ttl cfg < elapsed now e then None else Some e
       | None \<Rightarrow> None)"
    using expired_keys_iff [OF inv, of k now] cfg
    by (auto simp: evict_expired_def Let_def evict_keys_get split: option.splits)
  let ?d = "snd (evict_expired now c)" and ?ks = "expired_keys now c"
  have d: "hm_wf (entries ?d)" using evict_expired_inv [OF inv] by (simp add: cache_inv_def)
  have "distinct ?ks" using inv by (auto simp: expired_keys_def cache_inv_def hm_wf_def distinct_map_filter)
  moreover have sub: "set ?ks \<subseteq> set (hm_keys (entries c))" by (auto simp: expired_keys_def hm_keys_def)
  moreover have "k \<in> set (hm_keys (entries ?d)) \<longleftrightarrow> k \<in> set (hm_keys (entries c)) - set ?ks" for k
  proof -
    have "hm_get (entries ?d) k = None \<longleftrightarrow> k \<in> set ?ks \<or> hm_get (entries c) k = None"
      by (simp add: evict_expired_def Let_def evict_keys_get)
    then show ?thesis by (auto simp: hm_get_None_iff)
  qed
  then have "set (hm_keys (entries ?d)) = set (hm_keys (entries c)) - set ?ks" by blast
  ultimately show "fst (evict_expired now c) + cache_len ?d = cache_len c"
    using d inv card_mono [OF _ sub]
    by (simp add: cache_len_def hm_wf_length cache_inv_def card_Diff_subset evict_expired_def Let_def
        distinct_card)
qed

theorem evict_expired_exact_witness:
  "fst (evict_expired 100 (fold cache_step [CacheInsert 1 Job_default ''a'']
      (cache_new \<lparr>max_entries = 4, ttl = 9\<rparr>)))
   + cache_len (snd (evict_expired 100 (fold cache_step [CacheInsert 1 Job_default ''a'']
      (cache_new \<lparr>max_entries = 4, ttl = 9\<rparr>)))) = 1"
proof -
  let ?c = "fold cache_step [CacheInsert 1 Job_default ''a''] (cache_new \<lparr>max_entries = 4, ttl = 9\<rparr>)"
  have "cache_reachable \<lparr>max_entries = 4, ttl = 9\<rparr> ?c" unfolding cache_reachable_def by blast
  from evict_expired_exact [OF this, of 100]
  have "fst (evict_expired 100 ?c) + cache_len (snd (evict_expired 100 ?c)) = cache_len ?c" by blast
  also have "\<dots> = 1"
    by (simp add: cache_len_def cache_insert_def cache_new_def evict_lru.simps hm_insert_def Let_def)
  finally show ?thesis .
qed

text \<open>
  The cache does not distinguish jobs by identifier, scaling hint, budget or deadline:
  a lookup for a job that differs only there is answered with the other job's entry, also
  for the Monte-Carlo kernel, whose random seed is the identifier.
\<close>

theorem cache_ignores_job_identity:
  "cache_get now (job\<lparr>job_id := i, scaling_potential := s, latency_budget_ms := b, deadline_ms := d\<rparr>) c
     = cache_get now job c
   \<and> cache_insert now (job\<lparr>job_id := i, scaling_potential := s, latency_budget_ms := b, deadline_ms := d\<rparr>) res c
     = cache_insert now job res c"
  by (simp add: cache_get_def cache_insert_def job_key_def job_key_bytes_def)

end
