(* ===== verification/OutputCodec.thy ===== *)
theory OutputCodec
  imports Types
begin

text \<open>
  The text form in which results live in the cache: \<open>ResultCache::outputs_to_string\<close>
  (\<open>src/result_cache.rs\<close>) writes it, \<open>Router::submit\<close> (\<open>src/router.rs\<close>) reads it back.
  Formatting and parsing of \<open>f64\<close> are parameters (the shortest-digits algorithms of the
  standard library); decimal integers are modelled. The main lemma is the round trip.
\<close>

section \<open>Writing\<close>

fun join :: "string \<Rightarrow> string list \<Rightarrow> string" where
  "join sep [] = []"
| "join sep [x] = x"
| "join sep (x # y # xs) = x @ sep @ join sep (y # xs)"

definition output_to_string :: "(f64 \<Rightarrow> string) \<Rightarrow> Output \<Rightarrow> string" where
  "output_to_string fmt_f64 out =
    (case out of
       U64 v \<Rightarrow> ''u64:'' @ nat_to_string (unat v)
     | F64 v \<Rightarrow> ''f64:'' @ fmt_f64 v)"

definition outputs_to_string :: "(f64 \<Rightarrow> string) \<Rightarrow> Output list \<Rightarrow> string" where
  "outputs_to_string fmt_f64 outs = join '','' (map (output_to_string fmt_f64) outs)"

section \<open>Reading\<close>

text \<open>\<open>str::split\<close>: one more piece than there are separators.\<close>

fun split_on :: "char \<Rightarrow> string \<Rightarrow> string list" where
  "split_on sep [] = [[]]"
| "split_on sep (c # cs) =
     (if c = sep then [] # split_on sep cs
      else case split_on sep cs of
             p # ps \<Rightarrow> (c # p) # ps
           | [] \<Rightarrow> [[c]])"

definition strip_prefix :: "string \<Rightarrow> string \<Rightarrow> string option" where
  "strip_prefix p s = (if take (length p) s = p then Some (drop (length p) s) else None)"

definition is_digit :: "char \<Rightarrow> bool" where
  "is_digit c = (48 \<le> (of_char c :: nat) \<and> (of_char c :: nat) \<le> 57)"

definition digits_value :: "string \<Rightarrow> nat" where
  "digits_value s = foldl (\<lambda>acc c. acc * 10 + (of_char c - 48)) 0 s"

text \<open>\<open>str::parse::<u64>\<close>: an optional plus sign, then digits whose value fits.\<close>

definition parse_u64 :: "string \<Rightarrow> u64 option" where
  "parse_u64 s =
    (let ds = (case s of CHR ''+'' # t \<Rightarrow> t | _ \<Rightarrow> s)
     in if ds \<noteq> [] \<and> list_all is_digit ds \<and> digits_value ds < 2 ^ 64
        then Some (of_nat (digits_value ds)) else None)"

definition parse_output :: "(string \<Rightarrow> f64 option) \<Rightarrow> string \<Rightarrow> Output option" where
  "parse_output parse_f64 s =
    (case strip_prefix ''u64:'' s of
       Some v \<Rightarrow> map_option U64 (parse_u64 v)
     | None \<Rightarrow> (case strip_prefix ''f64:'' s of
                 Some v \<Rightarrow> map_option F64 (parse_f64 v)
               | None \<Rightarrow> None))"

definition parse_outputs :: "(string \<Rightarrow> f64 option) \<Rightarrow> string \<Rightarrow> Output list" where
  "parse_outputs parse_f64 s =
     List.map_filter (parse_output parse_f64) (filter (\<lambda>p. p \<noteq> []) (split_on (CHR '','') s))"

section \<open>Round trip\<close>

lemma is_digit_char_of: "d < 10 \<Longrightarrow> is_digit (char_of (48 + d :: nat))"
  by (simp add: is_digit_def)

lemma nat_to_string_digits: "list_all is_digit (nat_to_string n) \<and> nat_to_string n \<noteq> []"
proof (induction n rule: nat_to_string.induct)
  case (1 n)
  then show ?case by (subst (1 2) nat_to_string.simps) (auto simp: is_digit_char_of)
qed

lemma digits_value_snoc: "digits_value (s @ [c]) = digits_value s * 10 + (of_char c - 48)"
  by (simp add: digits_value_def)

lemma digits_value_nat_to_string: "digits_value (nat_to_string n) = n"
proof (induction n rule: nat_to_string.induct)
  case (1 n)
  show ?case
  proof (cases "n < 10")
    case True
    then show ?thesis by (subst nat_to_string.simps) (simp add: digits_value_def)
  next
    case False
    then have "digits_value (nat_to_string n) = n div 10 * 10 + n mod 10"
      using 1 by (subst nat_to_string.simps) (simp add: digits_value_snoc)
    then show ?thesis by simp
  qed
qed

lemma parse_u64_nat_to_string: "parse_u64 (nat_to_string (unat v)) = Some v"
proof -
  have d: "list_all is_digit (nat_to_string (unat v))" "nat_to_string (unat v) \<noteq> []"
    using nat_to_string_digits by auto
  then obtain c t where s: "nat_to_string (unat v) = c # t" by (cases "nat_to_string (unat v)") auto
  have "c \<noteq> CHR ''+''" using d(1) by (auto simp: s is_digit_def)
  then have "(case nat_to_string (unat v) of CHR ''+'' # t \<Rightarrow> t | _ \<Rightarrow> nat_to_string (unat v))
      = nat_to_string (unat v)"
    by (auto simp: s split: char.splits bool.splits)
  then show ?thesis
    using d unsigned_less [of v, where ?'a = nat]
    by (simp add: parse_u64_def digits_value_nat_to_string)
qed

lemma split_on_no_sep: "sep \<notin> set p \<Longrightarrow> split_on sep p = [p]"
  by (induction p) auto

lemma split_on_append: "sep \<notin> set p \<Longrightarrow> split_on sep (p @ sep # s) = p # split_on sep s"
  by (induction p) auto

lemma split_on_join:
  "ps \<noteq> [] \<Longrightarrow> \<forall>p \<in> set ps. sep \<notin> set p \<Longrightarrow> split_on sep (join [sep] ps) = ps"
  by (induction "[sep]" ps rule: join.induct) (auto simp: split_on_no_sep split_on_append)

lemma digits_no_comma: "list_all is_digit s \<Longrightarrow> CHR '','' \<notin> set s"
  by (auto simp: list_all_iff is_digit_def)

lemma output_string_shape:
  assumes "\<And>x. CHR '','' \<notin> set (fmt x)" and "\<And>x. parse (fmt x) = Some x"
  shows "output_to_string fmt out \<noteq> [] \<and> CHR '','' \<notin> set (output_to_string fmt out)
    \<and> parse_output parse (output_to_string fmt out) = Some out"
  using assms digits_no_comma nat_to_string_digits
  by (cases out) (auto simp: output_to_string_def parse_output_def strip_prefix_def parse_u64_nat_to_string)

lemma map_filter_Some: "\<forall>x \<in> set xs. f (g x) = Some x \<Longrightarrow> List.map_filter f (map g xs) = xs"
  by (induction xs) (auto simp: List.map_filter_simps)

lemma parse_written_outputs:
  assumes "\<And>x. CHR '','' \<notin> set (fmt_f64 x)" and "\<And>x. parse_f64 (fmt_f64 x) = Some x"
  shows "parse_outputs parse_f64 (outputs_to_string fmt_f64 outs) = outs"
proof (cases "outs = []")
  case True
  then show ?thesis by (simp add: outputs_to_string_def parse_outputs_def List.map_filter_simps)
next
  case False
  note shape = output_string_shape [of fmt_f64 parse_f64, OF assms]
  have "split_on (CHR '','') (outputs_to_string fmt_f64 outs) = map (output_to_string fmt_f64) outs"
    unfolding outputs_to_string_def by (rule split_on_join) (use False shape in auto)
  moreover have "filter (\<lambda>p. p \<noteq> []) (map (output_to_string fmt_f64) outs) = map (output_to_string fmt_f64) outs"
    by (rule filter_True) (use shape in auto)
  ultimately show ?thesis using shape by (simp add: parse_outputs_def map_filter_Some)
qed

section \<open>Properties\<close>

text \<open>
  Whatever a job returned, reading back its cached text gives the same outputs,
  provided float formatting prints no comma and parsing inverts it.
\<close>

theorem outputs_roundtrip:
  assumes "\<And>x. CHR '','' \<notin> set (fmt_f64 x)" and "\<And>x. parse_f64 (fmt_f64 x) = Some x"
  shows "parse_outputs parse_f64 (outputs_to_string fmt_f64 outs) = outs"
  by (rule parse_written_outputs) (rule assms)+

text \<open>A concrete formatting of floats for which the hypotheses hold: numerator and denominator.\<close>

definition show_int :: "int \<Rightarrow> string" where
  "show_int i = (if i < 0 then CHR ''-'' # nat_to_string (nat (- i)) else nat_to_string (nat i))"

definition read_int :: "string \<Rightarrow> int" where
  "read_int s = (case s of CHR ''-'' # t \<Rightarrow> - int (digits_value t) | _ \<Rightarrow> int (digits_value s))"

definition demo_fmt :: "f64 \<Rightarrow> string" where
  "demo_fmt x =
    (case x of FNaN \<Rightarrow> ''NaN'' | FInf s \<Rightarrow> if s then ''-inf'' else ''inf''
     | FFin q \<Rightarrow> let (a, b) = quotient_of q in show_int a @ ''/'' @ show_int b)"

definition demo_parse :: "string \<Rightarrow> f64 option" where
  "demo_parse s =
    (if s = ''NaN'' then Some FNaN else if s = ''inf'' then Some (FInf False)
     else if s = ''-inf'' then Some (FInf True)
     else case split_on (CHR ''/'') s of
            [a, b] \<Rightarrow> Some (FFin (of_int (read_int a) / of_int (read_int b)))
          | _ \<Rightarrow> None)"

lemma show_int_chars: "c \<in> set (show_int i) \<Longrightarrow> is_digit c \<or> c = CHR ''-''"
  using nat_to_string_digits by (auto simp: show_int_def list_all_iff split: if_splits)

lemma read_show_int: "read_int (show_int i) = i"
proof -
  have d: "list_all is_digit (nat_to_string n)" "nat_to_string n \<noteq> []" for n
    using nat_to_string_digits by auto
  have "read_int (nat_to_string n) = int n" for n
  proof -
    obtain c t where s: "nat_to_string n = c # t" using d(2) [of n] by (cases "nat_to_string n") auto
    have "c \<noteq> CHR ''-''" using d(1) [of n] by (auto simp: s is_digit_def)
    then have "read_int (nat_to_string n) = int (digits_value (nat_to_string n))"
      unfolding read_int_def s by (auto split: char.splits bool.splits)
    then show ?thesis by (simp add: digits_value_nat_to_string)
  qed
  then show ?thesis by (auto simp: show_int_def) (simp add: read_int_def digits_value_nat_to_string)
qed

lemma demo_fmt_ok: "CHR '','' \<notin> set (demo_fmt x) \<and> demo_parse (demo_fmt x) = Some x"
proof (cases x)
  case (FFin q)
  obtain a b where ab: "quotient_of q = (a, b)" by (cases "quotient_of q")
  have ch: "CHR ''/'' \<notin> set (show_int i)" "CHR '','' \<notin> set (show_int i)" "CHR ''n'' \<notin> set (show_int i)"
      "CHR ''N'' \<notin> set (show_int i)" for i
    using show_int_chars [of "CHR ''/''" i] show_int_chars [of "CHR '',''" i]
      show_int_chars [of "CHR ''n''" i] show_int_chars [of "CHR ''N''" i]
    by (auto simp: is_digit_def)
  have s: "demo_fmt (FFin q) = show_int a @ CHR ''/'' # show_int b" by (simp add: demo_fmt_def ab)
  have "split_on (CHR ''/'') (show_int a @ CHR ''/'' # show_int b) = [show_int a, show_int b]"
    using ch by (simp add: split_on_append split_on_no_sep)
  moreover have "CHR ''/'' \<in> set (demo_fmt (FFin q))" by (simp add: s)
  then have "demo_fmt (FFin q) \<noteq> ''NaN''" "demo_fmt (FFin q) \<noteq> ''inf''" "demo_fmt (FFin q) \<noteq> ''-inf''"
    by auto
  ultimately have "demo_parse (demo_fmt (FFin q)) = Some (FFin (of_int a / of_int b))"
    unfolding demo_parse_def by (simp add: s read_show_int)
  then have "demo_parse (demo_fmt (FFin q)) = Some (FFin q)" by (simp only: quotient_of_div [OF ab])
  moreover have "CHR '','' \<notin> set (demo_fmt (FFin q))" using ch by (simp add: s)
  ultimately show ?thesis by (simp only: FFin) simp
qed (auto simp: demo_fmt_def demo_parse_def)

theorem outputs_roundtrip_witness:
  "parse_outputs demo_parse (outputs_to_string demo_fmt [U64 1229, F64 (FFin (- 1 / 20))])
     = [U64 1229, F64 (FFin (- 1 / 20))]"
  by (rule outputs_roundtrip) (use demo_fmt_ok in auto)

end
