(* ===== verification/Strategies.thy ===== *)
theory Strategies
  imports Types "HOL-Library.While_Combinator" "HOL-Library.Multiset"
begin

text \<open>
  The compute kernels (\<open>src/strategies.rs\<close>): the FNV-style hash mix, the sieve of
  Eratosthenes and the Monte-Carlo risk simulation, and their dispatcher. The lemmas show
  that each mixing step is a bijection of 64-bit words, that the sieve counts exactly the
  primes up to its bound, and that the risk kernel returns the fifth percentile of its samples.
\<close>

section \<open>Hash mix\<close>

definition hashmix_absorb :: "u64 \<Rightarrow> u64 \<Rightarrow> u64" where
  "hashmix_absorb v x =
    (let x = x XOR v;
         x = x * 0x100000001b3;
         x = x XOR drop_bit 33 x;
         x = x * 0xff51afd7ed558ccd;
         x = x XOR drop_bit 33 x;
         x = x * 0xc4ceb9fe1a85ec53
     in x XOR drop_bit 33 x)"

definition hashmix_round :: "u64 \<Rightarrow> u64" where
  "hashmix_round t = (let t = word_rotl 7 t XOR 0x9e3779b97f4a7c15 in t * 0xbf58476d1ce4e5b9)"

definition hashmix :: "Job \<Rightarrow> Output" where
  "hashmix job =
    (let x = fold hashmix_absorb (inputs job) 0xcbf29ce484222325;
         rounds = max (unat (compute_cost job) div 64) 1
     in U64 ((hashmix_round ^^ rounds) x))"

lemma xorshift33_inj: "(x :: u64) XOR drop_bit 33 x = y XOR drop_bit 33 y \<Longrightarrow> x = y"
proof -
  have undo: "(z XOR drop_bit 33 z) XOR drop_bit 33 (z XOR drop_bit 33 z) = z" for z :: u64
  proof -
    have "drop_bit 66 z = 0"
      by (rule bit_word_eqI) (auto simp: bit_drop_bit_eq dest: bit_imp_le_length)
    then have "drop_bit 33 (drop_bit 33 z) = 0" by simp
    then show ?thesis by (simp add: drop_bit_xor xor.assoc)
  qed
  assume "x XOR drop_bit 33 x = y XOR drop_bit 33 y"
  then show ?thesis using undo [of x] undo [of y] by metis
qed

lemma mult_unit_inj:
  fixes c d :: u64
  assumes "c * d = 1" and "x * c = y * c"
  shows "x = y"
proof -
  have "x * c * d = y * c * d" using assms(2) by simp
  then show ?thesis using assms(1) by (simp add: mult.assoc)
qed

lemma xor_right_inj: "(x :: u64) XOR v = y XOR v \<Longrightarrow> x = y"
proof -
  assume "x XOR v = y XOR v"
  then have "(x XOR v) XOR v = (y XOR v) XOR v" by simp
  then show ?thesis by (simp add: xor.assoc)
qed

lemma absorb_units:
  "(0x100000001b3 :: u64) * 0xce965057aff6957b = 1"
  "(0xff51afd7ed558ccd :: u64) * 0x4f74430c22a54005 = 1"
  "(0xc4ceb9fe1a85ec53 :: u64) * 0x9cb4b2f8129337db = 1"
  "(0xbf58476d1ce4e5b9 :: u64) * 0x96de1b173f119089 = 1"
  by simp_all

lemma hashmix_absorb_inj: "hashmix_absorb v x = hashmix_absorb v y \<Longrightarrow> x = y"
  unfolding hashmix_absorb_def Let_def
  by (blast dest: xorshift33_inj mult_unit_inj [OF absorb_units(1)]
      mult_unit_inj [OF absorb_units(2)] mult_unit_inj [OF absorb_units(3)] xor_right_inj)

lemma hashmix_absorb_inj_input: "hashmix_absorb v x = hashmix_absorb w x \<Longrightarrow> v = w"
proof -
  assume "hashmix_absorb v x = hashmix_absorb w x"
  then have "x XOR v = x XOR w"
    unfolding hashmix_absorb_def Let_def
    by (blast dest: xorshift33_inj mult_unit_inj [OF absorb_units(1)]
        mult_unit_inj [OF absorb_units(2)] mult_unit_inj [OF absorb_units(3)])
  then show ?thesis using xor_right_inj [of v x w] by (simp add: xor.commute)
qed

lemma hashmix_round_inj: "hashmix_round s = hashmix_round t \<Longrightarrow> s = t"
proof -
  assume "hashmix_round s = hashmix_round t"
  then have "word_rotl 7 s = word_rotl 7 t"
    unfolding hashmix_round_def Let_def
    by (blast dest: mult_unit_inj [OF absorb_units(4)] xor_right_inj)
  then have "word_rotr 7 (word_rotl 7 s) = word_rotr 7 (word_rotl 7 t)" by simp
  then show ?thesis by simp
qed

lemma hashmix_rounds_inj: "(hashmix_round ^^ n) s = (hashmix_round ^^ n) t \<Longrightarrow> s = t"
  by (induction n) (auto dest: hashmix_round_inj)

lemma fold_absorb_inj: "fold hashmix_absorb vs x = fold hashmix_absorb vs y \<Longrightarrow> x = y"
  by (induction vs arbitrary: x y) (auto dest: hashmix_absorb_inj)

section \<open>Prime count\<close>

text \<open>The inner loop strikes out \<open>k, k + p, ...\<close> up to \<open>n\<close>; the outer one runs \<open>p\<close> while \<open>p * p \<le> n\<close>.\<close>

definition sieve_strike :: "nat \<Rightarrow> nat \<Rightarrow> bool list \<Rightarrow> bool list" where
  "sieve_strike n p bs = snd (while (\<lambda>(k, bs). k \<le> n) (\<lambda>(k, bs). (k + p, bs[k := False])) (p * p, bs))"

definition sieve_loop :: "nat \<Rightarrow> nat \<times> bool list \<Rightarrow> nat \<times> bool list" where
  "sieve_loop n = while (\<lambda>(p, bs). p * p \<le> n)
     (\<lambda>(p, bs). (p + 1, if bs ! p then sieve_strike n p bs else bs))"

definition primecount_bound :: "Job \<Rightarrow> nat" where
  "primecount_bound job = max 10000 (min 250000 (unat (compute_cost job)))"

definition sieve_count :: "nat \<Rightarrow> nat" where
  "sieve_count n =
    (let bs = replicate (n + 1) True;
         bs = bs[0 := False];
         bs = bs[1 := False];
         bs = snd (sieve_loop n (2, bs))
     in length (filter (\<lambda>b. b) bs))"

definition primecount :: "Job \<Rightarrow> Output" where
  "primecount job = U64 (of_nat (sieve_count (primecount_bound job)))"

text \<open>The specification: trial division.\<close>

definition is_prime :: "nat \<Rightarrow> bool" where
  "is_prime n = (2 \<le> n \<and> (\<forall>d \<in> {2..<n}. \<not> d dvd n))"

lemma sieve_strike_spec:
  assumes p: "0 < p"
  shows "length (sieve_strike n p bs) = length bs
    \<and> (n < length bs \<longrightarrow> (\<forall>i < length bs. sieve_strike n p bs ! i \<longleftrightarrow>
         bs ! i \<and> \<not> (p dvd i \<and> p * p \<le> i \<and> i \<le> n)))"
proof -
  let ?P = "\<lambda>(k, cs). p dvd k \<and> p * p \<le> k \<and> length cs = length bs
    \<and> (\<forall>i < length bs. cs ! i \<longleftrightarrow> bs ! i \<and> \<not> (p dvd i \<and> p * p \<le> i \<and> i < k \<and> i \<le> n))"
  have step: "?P (k + p, cs[k := False])" if k: "k \<le> n" and P: "?P (k, cs)" for k cs
  proof -
    have near: "i = k \<or> i < k" if "p dvd i" "i < k + p" for i
    proof (rule ccontr)
      assume "\<not> ?thesis"
      then have "k < i" by simp
      moreover have "p dvd i - k" using P that(1) by (auto intro: dvd_diff_nat)
      ultimately have "p \<le> i - k" by (auto dest: dvd_imp_le)
      then show False using that(2) \<open>k < i\<close> by simp
    qed
    have P1: "p dvd k" "p * p \<le> k" "length cs = length bs"
      and P2: "\<And>i. i < length bs \<Longrightarrow> cs ! i \<longleftrightarrow> bs ! i \<and> \<not> (p dvd i \<and> p * p \<le> i \<and> i < k \<and> i \<le> n)"
      using P by auto
    have "cs[k := False] ! i \<longleftrightarrow> bs ! i \<and> \<not> (p dvd i \<and> p * p \<le> i \<and> i < k + p \<and> i \<le> n)"
      if i: "i < length bs" for i
    proof (cases "i = k")
      case True
      then show ?thesis using P1 i k p by simp
    next
      case False
      then have "cs[k := False] ! i = cs ! i" by simp
      moreover have "p dvd i \<and> i < k + p \<longleftrightarrow> p dvd i \<and> i < k" using near [of i] False by auto
      ultimately show ?thesis using P2 [OF i] by blast
    qed
    then show ?thesis using P1 by simp
  qed
  have "?P (while (\<lambda>(k, bs). k \<le> n) (\<lambda>(k, bs). (k + p, bs[k := False])) (p * p, bs))
    \<and> n < fst (while (\<lambda>(k, bs). k \<le> n) (\<lambda>(k, bs). (k + p, bs[k := False])) (p * p, bs))"
    by (rule while_rule [where P = ?P and r = "measure (\<lambda>(k, cs). Suc n - k)"])
      (use step p in \<open>auto simp: case_prod_unfold\<close>)
  then show ?thesis by (auto simp: sieve_strike_def case_prod_unfold)
qed

lemma prime_by_small_divisors:
  assumes "2 \<le> i" and "i < p * p" and "\<forall>q. 2 \<le> q \<and> q < p \<and> q * q \<le> i \<longrightarrow> \<not> q dvd i"
  shows "is_prime i"
proof (rule ccontr)
  assume "\<not> is_prime i"
  then obtain d where d: "2 \<le> d" "d < i" "d dvd i" using assms(1) by (auto simp: is_prime_def)
  then obtain e where e: "i = d * e" by (auto elim: dvdE)
  have e2: "2 \<le> e" using d e assms(1) by (cases e rule: nat.exhaust) (auto simp: Suc_le_eq intro: gr0I)
  have "\<exists>q. 2 \<le> q \<and> q dvd i \<and> q * q \<le> i"
  proof (cases "d \<le> e")
    case True
    then show ?thesis using d e by (intro exI [of _ d]) auto
  next
    case False
    then show ?thesis using e e2 by (intro exI [of _ e]) auto
  qed
  then obtain q where q: "2 \<le> q" "q dvd i" "q * q \<le> i" by blast
  have "q < p" using q(3) assms(2) by (meson le_less_trans mult_le_mono not_le)
  then show False using q assms(3) by blast
qed

definition sieved :: "nat \<Rightarrow> nat \<Rightarrow> nat \<Rightarrow> bool" where
  "sieved p n i = (2 \<le> i \<and> (\<forall>q. 2 \<le> q \<and> q < p \<and> q * q \<le> i \<longrightarrow> \<not> q dvd i))"

lemma sieved_done: "n < p * p \<Longrightarrow> i \<le> n \<Longrightarrow> sieved p n i \<longleftrightarrow> is_prime i"
proof -
  assume n: "n < p * p" "i \<le> n"
  have nd: "\<not> q dvd i" if "is_prime i" "2 \<le> q" "q * q \<le> i" for q
  proof -
    have "2 * q \<le> q * q" using that(2) by (rule mult_le_mono1)
    then have "q < i" using that(2,3) by linarith
    then show ?thesis using that by (simp add: is_prime_def)
  qed
  show ?thesis
  proof
    assume "sieved p n i"
    then show "is_prime i" using prime_by_small_divisors [of i p] n by (simp add: sieved_def)
  next
    assume "is_prime i"
    then show "sieved p n i" using nd by (simp add: sieved_def is_prime_def)
  qed
qed

lemma sieved_Suc_struck:
  "sieved p n p \<Longrightarrow> sieved (Suc p) n i \<longleftrightarrow> sieved p n i \<and> \<not> (p dvd i \<and> p * p \<le> i)"
  by (auto simp: sieved_def less_Suc_eq)

lemma sieved_Suc_skipped:
  assumes "2 \<le> p" and "\<not> sieved p n p"
  shows "sieved (Suc p) n i \<longleftrightarrow> sieved p n i"
proof -
  obtain q where q: "2 \<le> q" "q < p" "q * q \<le> p" "q dvd p" using assms by (auto simp: sieved_def)
  have "\<not> sieved p n i" if "p dvd i" "p * p \<le> i"
  proof -
    have "q * q \<le> i" using q that(2) by (meson le_trans le_square)
    then show ?thesis using q that(1) by (auto simp: sieved_def intro: dvd_trans)
  qed
  then show ?thesis by (auto simp: sieved_def less_Suc_eq)
qed

lemma sieve_loop_spec:
  assumes len: "length bs = Suc n" and start: "\<And>i. i \<le> n \<Longrightarrow> bs ! i \<longleftrightarrow> 2 \<le> i"
  shows "length (snd (sieve_loop n (2, bs))) = Suc n
    \<and> (\<forall>i \<le> n. snd (sieve_loop n (2, bs)) ! i \<longleftrightarrow> is_prime i)"
proof -
  let ?P = "\<lambda>(p, cs). 2 \<le> p \<and> length cs = Suc n \<and> (\<forall>i \<le> n. cs ! i \<longleftrightarrow> sieved p n i)"
  let ?c = "\<lambda>(p, cs :: bool list). p * p \<le> n"
  let ?b = "\<lambda>(p, cs). (p + 1, if cs ! p then sieve_strike n p cs else cs)"
  have step: "?P (?b (p, cs))" if P: "?P (p, cs)" and c: "p * p \<le> n" for p cs
  proof -
    have p: "2 \<le> p" "p \<le> n" using P c le_square [of p] le_trans [of p "p * p" n] by auto
    have l: "length cs = Suc n" and cs: "\<And>i. i \<le> n \<Longrightarrow> cs ! i \<longleftrightarrow> sieved p n i" using P by auto
    have sp: "length (sieve_strike n p cs) = Suc n"
      "\<And>i. i \<le> n \<Longrightarrow> sieve_strike n p cs ! i \<longleftrightarrow> cs ! i \<and> \<not> (p dvd i \<and> p * p \<le> i)"
      using sieve_strike_spec [of p n cs] p l by auto
    show ?thesis
    proof (cases "cs ! p")
      case True
      then show ?thesis using p sp cs sieved_Suc_struck [of p n] by auto
    next
      case False
      then show ?thesis using p l cs sieved_Suc_skipped [of p n] by auto
    qed
  qed
  have "?P (while ?c ?b (2, bs)) \<and> n < fst (while ?c ?b (2, bs)) * fst (while ?c ?b (2, bs))"
  proof (rule while_rule [where P = ?P and r = "measure (\<lambda>(p, cs). Suc n - p)"])
    show "?P (2, bs)" using len start by (auto simp: sieved_def)
    show "?P (?b s)" if "?P s" "?c s" for s
      using that step by (cases s) auto
    show "?P s \<and> n < fst s * fst s" if "?P s" "\<not> ?c s" for s
      using that by (cases s) auto
    show "wf (measure (\<lambda>(p, cs :: bool list). Suc n - p))" by simp
    show "(?b s, s) \<in> measure (\<lambda>(p, cs). Suc n - p)" if "?P s" "?c s" for s
    proof -
      obtain p cs where s: "s = (p, cs)" by (cases s)
      have "p * p \<le> n" using that(2) by (simp add: s)
      then have "p \<le> n" using le_square [of p] le_trans by blast
      then show ?thesis by (simp add: s)
    qed
  qed
  then obtain p where w: "2 \<le> p" "length (snd (sieve_loop n (2, bs))) = Suc n" "n < p * p"
      "\<forall>i \<le> n. snd (sieve_loop n (2, bs)) ! i \<longleftrightarrow> sieved p n i"
    unfolding sieve_loop_def by (auto simp: case_prod_unfold)
  then show ?thesis using sieved_done [of n p] by auto
qed

lemma sieve_count_primes: "1 \<le> n \<Longrightarrow> sieve_count n = card {i. i \<le> n \<and> is_prime i}"
proof -
  assume n: "1 \<le> n"
  let ?bs = "(replicate (n + 1) True)[0 := False, 1 := False]"
  let ?r = "snd (sieve_loop n (2, ?bs))"
  have "?bs ! i \<longleftrightarrow> 2 \<le> i" if "i \<le> n" for i
    using that n by (cases "i = 0"; cases "i = 1") (auto simp del: replicate.simps)
  then have r: "length ?r = Suc n" "\<forall>i \<le> n. ?r ! i \<longleftrightarrow> is_prime i"
    using sieve_loop_spec [of ?bs n] by auto
  have "sieve_count n = card {i. i < length ?r \<and> ?r ! i}"
    by (simp only: sieve_count_def Let_def length_filter_conv_card)
  also have "{i. i < length ?r \<and> ?r ! i} = {i. i \<le> n \<and> is_prime i}"
    using r by auto
  finally show ?thesis .
qed

section \<open>Monte-Carlo risk\<close>

definition mc_sims :: "Job \<Rightarrow> nat" where
  "mc_sims job = max 5000 (min 50000 (unat (compute_cost job) div 200))"

text \<open>One xorshift64 step of the generator.\<close>

definition mc_next_seed :: "u64 \<Rightarrow> u64" where
  "mc_next_seed seed =
    (let seed = seed XOR drop_bit 12 seed;
         seed = seed XOR push_bit 25 seed
     in seed XOR drop_bit 27 seed)"

definition u64_frac :: "u64 \<Rightarrow> f64" where
  "u64_frac v = f64_div (f64_of_u64 v) (f64_of_u64 (- 1))"

text \<open>The shift of mean and volatility by the job's inputs, and one sample.\<close>

definition mc_shift :: "u64 \<Rightarrow> f64 \<times> f64 \<Rightarrow> f64 \<times> f64" where
  "mc_shift v = (\<lambda>(mean, vol).
     (f64_add mean (f64_mul (u64_frac v) (rnd64 (1 / 10000))),
      f64_add vol (f64_mul (f64_sub (u64_frac (word_rotl 13 v)) (rnd64 (1 / 2))) (rnd64 (1 / 100)))))"

definition mc_sample :: "u64 list \<Rightarrow> u64 \<Rightarrow> f64" where
  "mc_sample vs seed =
    (let r = seed * 0x2545F4914F6CDD1D;
         u = f64_sub (f64_mul (u64_frac r) (FFin 2)) (FFin 1);
         base = f64_mul u (rnd64 (5 / 100));
         (mean, vol) = fold mc_shift vs (FFin 0, FFin 1)
     in f64_add mean (f64_mul base (f64_max vol (rnd64 (1 / 10)))))"

fun mc_samples :: "nat \<Rightarrow> u64 list \<Rightarrow> u64 \<Rightarrow> f64 list" where
  "mc_samples 0 vs seed = []"
| "mc_samples (Suc n) vs seed =
     (let seed = mc_next_seed seed in mc_sample vs seed # mc_samples n vs seed)"

text \<open>The stable sort by \<open>partial_cmp\<close> (no sample is NaN, so the order is total).\<close>

fun f64_insort :: "f64 \<Rightarrow> f64 list \<Rightarrow> f64 list" where
  "f64_insort x [] = [x]"
| "f64_insort x (y # ys) = (if fp_lt y x then y # f64_insort x ys else x # y # ys)"

definition f64_sort :: "f64 list \<Rightarrow> f64 list" where
  "f64_sort xs = foldr f64_insort xs []"

definition montecarlo_risk :: "Job \<Rightarrow> Output" where
  "montecarlo_risk job =
    (let sims = mc_sims job;
         seed = 0x123456789abcdef0 XOR job_id job;
         samples = f64_sort (mc_samples sims (inputs job) seed);
         idx = unat (f64_to_u64 (f64_mul (f64_of_nat (length samples)) (rnd64 (5 / 100))))
     in F64 (samples ! min idx (length samples - 1)))"

definition execute_job :: "Job \<Rightarrow> Output list" where
  "execute_job job =
    (case kind job of
       HashMix \<Rightarrow> [hashmix job]
     | PrimeCount \<Rightarrow> [primecount job]
     | MonteCarloRisk \<Rightarrow> [montecarlo_risk job])"

lemma set_f64_insort: "set (f64_insort x ys) = insert x (set ys)"
  by (induction ys) auto

lemma length_f64_insort: "length (f64_insort x ys) = Suc (length ys)"
  by (induction ys) auto

lemma set_f64_sort: "set (f64_sort xs) = set xs"
  by (induction xs) (simp_all add: f64_sort_def set_f64_insort)

lemma length_f64_sort [simp]: "length (f64_sort xs) = length xs"
  by (induction xs) (simp_all add: f64_sort_def length_f64_insort)

lemma length_mc_samples [simp]: "length (mc_samples n vs seed) = n"
  by (induction n arbitrary: seed) (simp_all add: Let_def)

subsection \<open>No sample is infinite or NaN\<close>

definition f64_within :: "rat \<Rightarrow> f64 \<Rightarrow> bool" where
  "f64_within b x = (case x of FFin q \<Rightarrow> \<bar>q\<bar> \<le> b | _ \<Rightarrow> False)"

lemma f64_withinE: "f64_within b x \<Longrightarrow> (\<And>q. x = FFin q \<Longrightarrow> \<bar>q\<bar> \<le> b \<Longrightarrow> P) \<Longrightarrow> P"
  by (cases x) (auto simp: f64_within_def)

lemma f64_within_FFin [simp]: "f64_within b (FFin q) \<longleftrightarrow> \<bar>q\<bar> \<le> b"
  by (simp add: f64_within_def)

lemma f64_within_unit: "in_unit x \<Longrightarrow> f64_within 1 x"
  by (auto elim: in_unitE)

lemma rnd64_within:
  assumes "\<bar>q\<bar> \<le> b" "rnd64 b = FFin b'"
  shows "f64_within b' (rnd64 q)"
proof -
  have "fp_le (rnd64 q) (FFin b')" using rnd64_mono [of q b] assms by simp
  moreover have "fp_le (FFin (- b')) (rnd64 q)" using rnd64_mono [of "- b" q] rnd64_neg [of b] assms by simp
  ultimately show ?thesis by (cases "rnd64 q") auto
qed

lemma rnd64_bounds:
  "rnd64 2 = FFin 2" "rnd64 (2 ^ 53) = FFin (2 ^ 53)" "rnd64 (2 ^ 53 + 1) = FFin (2 ^ 53)"
  "rnd64 (2 ^ 54) = FFin (2 ^ 54)" "rnd64 (2 ^ 64) = FFin (2 ^ 64)" "rnd64 (1 / 2) = FFin (1 / 2)"
  using rnd64_eval [of 1 2] rnd64_eval [of 53 "2 ^ 53"] rnd64_eval [of 53 "2 ^ 53 + 1"] rnd64_eval [of 54 "2 ^ 54"]
    rnd64_eval [of 64 "2 ^ 64"] rnd64_eval [of "- 1" "1 / 2"]
    rne_of_int [of "2 ^ 52"] rne_tie [of "9007199254740993 / 2" 4503599627370496]
  by (simp_all add: pow2_def)

lemma u64_frac_unit: "in_unit (u64_frac v)"
proof -
  have f: "f64_within (2 ^ 64) (f64_of_u64 w)" "fp_le (FFin 0) (f64_of_u64 w)" for w
  proof -
    have "unat w < 2 ^ LENGTH(64)" by (rule unsigned_less)
    then have "unat w \<le> 2 ^ 64" by simp
    then have "(of_nat (unat w) :: rat) \<le> of_nat (2 ^ 64)" by (rule of_nat_mono)
    then show "f64_within (2 ^ 64) (f64_of_u64 w)"
      unfolding f64_of_u64_def f64_of_nat_def by (intro rnd64_within [OF _ rnd64_bounds(5)]) (simp del: of_nat_unat)
    show "fp_le (FFin 0) (f64_of_u64 w)" using f64_of_nat_mono [of 0 "unat w"] by (simp add: f64_of_u64_def f64_of_nat_def)
  qed
  obtain a where a: "f64_of_u64 v = FFin a" "0 \<le> a" using f [of v] by (auto elim: f64_withinE)
  obtain b where b: "f64_of_u64 (- 1) = FFin b" "0 \<le> b" using f [of "- 1"] by (auto elim: f64_withinE)
  have "unat v \<le> unat (- 1 :: u64)" using word_le_nat_alt [of v "- 1"] by simp
  then have "fp_le (f64_of_u64 v) (f64_of_u64 (- 1))" unfolding f64_of_u64_def by (rule f64_of_nat_mono)
  then have ab: "a \<le> b" by (simp add: a b)
  have "fp_le (f64_of_nat 1) (f64_of_u64 (- 1))" unfolding f64_of_u64_def
    by (rule f64_of_nat_mono) (use word_le_nat_alt [of "1 :: u64" "- 1"] in simp)
  then have "1 \<le> b" by (simp add: b f64_of_nat_def)
  then obtain x where "rnd64 (a / b) = FFin x" "0 \<le> x" "x \<le> 1"
    using rnd64_unit [of "a / b"] a(2) ab by (auto simp: divide_le_eq_1)
  then show ?thesis using \<open>1 \<le> b\<close> by (simp add: u64_frac_def a(1) b(1))
qed

lemma within_mul_one: "f64_within 1 x \<Longrightarrow> f64_within 1 y \<Longrightarrow> f64_within 1 (f64_mul x y)"
proof -
  assume "f64_within 1 x" "f64_within 1 y"
  then obtain p q where "x = FFin p" "\<bar>p\<bar> \<le> 1" "y = FFin q" "\<bar>q\<bar> \<le> 1" by (auto elim!: f64_withinE)
  then show ?thesis using rnd64_within [of "p * q" 1 1] mult_le_one [of "\<bar>p\<bar>" "\<bar>q\<bar>"] by (simp add: abs_mult)
qed

lemma within_accumulate: "f64_within (2 ^ 53) x \<Longrightarrow> f64_within 1 y \<Longrightarrow> f64_within (2 ^ 53) (f64_add x y)"
proof (elim f64_withinE)
  fix p q assume "x = FFin p" "\<bar>p\<bar> \<le> 2 ^ 53" "y = FFin q" "\<bar>q\<bar> \<le> 1"
  then show "f64_within (2 ^ 53) (f64_add x y)" using rnd64_within [OF _ rnd64_bounds(3), of "p + q"] by simp
qed

lemma small_rationals: "0 \<le> q \<Longrightarrow> q \<le> 1 \<Longrightarrow> f64_within 1 (rnd64 q)"
  by (rule rnd64_within [where b = 1]) simp_all

lemma mc_shift_within:
  "f64_within (2 ^ 53) m \<Longrightarrow> f64_within (2 ^ 53) w \<Longrightarrow>
     f64_within (2 ^ 53) (fst (mc_shift v (m, w))) \<and> f64_within (2 ^ 53) (snd (mc_shift v (m, w)))"
proof -
  assume mw: "f64_within (2 ^ 53) m" "f64_within (2 ^ 53) w"
  have u: "f64_within 1 (u64_frac x)" for x by (rule f64_within_unit [OF u64_frac_unit])
  have "f64_within 1 (f64_sub (u64_frac x) (rnd64 (1 / 2)))" for x
  proof -
    obtain p where "u64_frac x = FFin p" "0 \<le> p" "p \<le> 1" using u64_frac_unit by (rule in_unitE)
    then show ?thesis using rnd64_within [of "p - 1 / 2" 1 1] by (simp add: f64_sub_def rnd64_bounds)
  qed
  then show ?thesis using mw u unfolding mc_shift_def prod.case fst_conv snd_conv
    by (intro conjI within_accumulate within_mul_one small_rationals) simp_all
qed

lemma mc_shifts_within:
  "f64_within (2 ^ 53) m \<Longrightarrow> f64_within (2 ^ 53) w \<Longrightarrow>
     f64_within (2 ^ 53) (fst (fold mc_shift vs (m, w))) \<and> f64_within (2 ^ 53) (snd (fold mc_shift vs (m, w)))"
proof (induction vs arbitrary: m w)
  case (Cons v vs)
  obtain m' w' where "mc_shift v (m, w) = (m', w')" by (cases "mc_shift v (m, w)")
  then show ?case using mc_shift_within [OF Cons.prems, of v] Cons.IH [of m' w'] by simp
qed simp

lemma mc_sample_finite: "\<exists>q. mc_sample vs seed = FFin q"
proof -
  obtain mean vol where mv: "fold mc_shift vs (FFin 0, FFin 1) = (mean, vol)" by (cases "fold mc_shift vs (FFin 0, FFin 1)")
  have "f64_within (2 ^ 53) mean" "f64_within (2 ^ 53) vol"
    using mc_shifts_within [of "FFin 0" "FFin 1" vs] mv by simp_all
  then obtain m w where m: "mean = FFin m" "\<bar>m\<bar> \<le> 2 ^ 53" and w: "vol = FFin w" "\<bar>w\<bar> \<le> 2 ^ 53"
    by (auto elim!: f64_withinE)
  obtain t where t: "rnd64 (1 / 10) = FFin t" "\<bar>t\<bar> \<le> 1"
    using small_rationals [of "1 / 10"] by (auto elim!: f64_withinE)
  obtain h where h: "f64_max vol (rnd64 (1 / 10)) = FFin h" "\<bar>h\<bar> \<le> 2 ^ 53"
    using w t by (cases "w < t") (auto simp: f64_max_def)
  define r where "r = seed * 0x2545F4914F6CDD1D"
  obtain p where p: "u64_frac r = FFin p" "0 \<le> p" "p \<le> 1" using u64_frac_unit by (rule in_unitE)
  obtain d where d: "rnd64 (p * 2) = FFin d" "0 \<le> d" "d \<le> 2"
    using rnd64_mono [of 0 "p * 2"] rnd64_mono [of "p * 2" 2] p rnd64_bounds(1) by (cases "rnd64 (p * 2)") auto
  have "f64_within 1 (f64_sub (f64_mul (u64_frac r) (FFin 2)) (FFin 1))"
    using rnd64_within [of "d - 1" 1 1] d by (simp add: p f64_sub_def)
  then have "f64_within 1 (f64_mul (f64_sub (f64_mul (u64_frac r) (FFin 2)) (FFin 1)) (rnd64 (5 / 100)))"
    by (rule within_mul_one) (rule small_rationals, simp_all)
  then obtain b where b: "f64_mul (f64_sub (f64_mul (u64_frac r) (FFin 2)) (FFin 1)) (rnd64 (5 / 100)) = FFin b" "\<bar>b\<bar> \<le> 1"
    by (rule f64_withinE)
  have "\<bar>b * h\<bar> \<le> 2 ^ 53" using b(2) h(2) mult_mono [of "\<bar>b\<bar>" 1 "\<bar>h\<bar>" "2 ^ 53"] by (simp add: abs_mult)
  then obtain x where x: "rnd64 (b * h) = FFin x" "\<bar>x\<bar> \<le> 2 ^ 53"
    using rnd64_within [OF _ rnd64_bounds(2), of "b * h"] by (auto elim!: f64_withinE)
  have "\<bar>m + x\<bar> \<le> 2 ^ 54" using m(2) x(2) by (simp add: abs_le_iff)
  then obtain y where "rnd64 (m + x) = FFin y"
    using rnd64_within [OF _ rnd64_bounds(4), of "m + x"] by (auto elim!: f64_withinE)
  moreover have "mc_sample vs seed = f64_add mean (f64_mul (FFin b) (FFin h))"
    unfolding mc_sample_def Let_def mv r_def [symmetric] prod.case b(1) h(1) ..
  ultimately show ?thesis by (simp add: m(1) x(1))
qed

lemma mc_samples_finite: "x \<in> set (mc_samples n vs seed) \<Longrightarrow> \<exists>q. x = FFin q"
  using mc_sample_finite by (induction n arbitrary: seed) (auto simp: Let_def)

subsection \<open>Ranks\<close>

lemma mset_f64_sort: "mset (f64_sort xs) = mset xs"
proof -
  have "mset (f64_insort x ys) = add_mset x (mset ys)" for x ys by (induction ys) auto
  then show ?thesis by (induction xs) (simp_all add: f64_sort_def)
qed

lemma sorted_f64_sort:
  "(\<And>x. x \<in> set xs \<Longrightarrow> \<exists>q. x = FFin q) \<Longrightarrow> sorted_wrt fp_le (f64_sort xs)"
proof (induction xs)
  case (Cons x xs)
  have ins: "sorted_wrt fp_le (f64_insort (FFin q) ys)" if "sorted_wrt fp_le ys" "\<forall>y \<in> set ys. \<exists>p. y = FFin p" for q ys
    using that
  proof (induction ys)
    case (Cons y ys)
    obtain p where p: "y = FFin p" using Cons.prems(2) by auto
    show ?case
    proof (cases "p < q")
      case True
      then show ?thesis using Cons p by (auto simp: set_f64_insort)
    next
      case False
      then have "fp_le (FFin q) z" if "fp_le y z" for z using that p fp_le_trans [of "FFin q" y z] by simp
      then show ?thesis using Cons.prems p False by auto
    qed
  qed simp
  obtain q where "x = FFin q" using Cons.prems by auto
  then show ?case using ins [of "f64_sort xs" q] Cons by (simp add: f64_sort_def set_f64_sort [unfolded f64_sort_def])
qed (simp add: f64_sort_def)

lemma sorted_rank:
  assumes "sorted_wrt fp_le ys" "k < length ys" "\<And>y. y \<in> set ys \<Longrightarrow> \<exists>q. y = FFin q"
  shows "length (filter (\<lambda>y. fp_lt y (ys ! k)) ys) \<le> k" "k < length (filter (\<lambda>y. fp_le y (ys ! k)) ys)"
proof -
  have le: "fp_le (ys ! i) (ys ! j)" if "i \<le> j" "j < length ys" for i j
  proof (cases "i = j")
    case True
    then show ?thesis using assms(3) [of "ys ! j"] that by (auto simp: fp_le_refl)
  qed (use that sorted_wrt_nth_less [OF assms(1)] in auto)
  have "{i. i < length ys \<and> fp_lt (ys ! i) (ys ! k)} \<subseteq> {..<k}"
    using le fp_lt_imp_not_le by (metis (mono_tags, lifting) lessThan_iff mem_Collect_eq not_less subsetI)
  from card_mono [OF _ this] show "length (filter (\<lambda>y. fp_lt y (ys ! k)) ys) \<le> k"
    by (simp add: length_filter_conv_card)
  have "{..k} \<subseteq> {i. i < length ys \<and> fp_le (ys ! i) (ys ! k)}" using le assms(2) by auto
  from card_mono [OF _ this] show "k < length (filter (\<lambda>y. fp_le y (ys ! k)) ys)"
    by (simp add: length_filter_conv_card)
qed

lemma length_filter_mset: "mset xs = mset ys \<Longrightarrow> length (filter P xs) = length (filter P ys)"
  by (metis mset_filter size_mset)

text \<open>The double 0.05 lies above a twentieth, by so little that the index is exact.\<close>

lemma rnd64_twentieth: "rnd64 (5 / 100) = FFin (7205759403792794 / 2 ^ 57)"
  using rnd64_eval [of "- 5" "5 / 100"] rne_eqI [of "36028797018963968 / 5" 7205759403792794]
  by (simp add: pow2_def)

lemma round_pos_small_error:
  assumes "0 < q" "q < pow2 12"
  shows "round_pos 53 (- 1022) q \<le> q + 1 / 2 ^ 42"
proof -
  define u where "u = pow2 (fexp (- 1022) q - int 53 + 1)"
  have "pow2 (flog2 q) < pow2 12" using flog2_bounds [OF assms(1)] assms(2) by linarith
  then have "fexp (- 1022) q \<le> 11" by (simp add: fexp_def pow2_less_iff)
  then have "u \<le> pow2 (- 41)" unfolding u_def by (simp add: pow2_le_iff)
  then have u: "u \<le> 1 / 2 ^ 41" "0 < u" by (simp_all add: pow2_def u_def)
  have "of_int (rne (q / u)) \<le> q / u + 1 / 2" using rne_near [of "q / u"] by linarith
  then have "of_int (rne (q / u)) * u \<le> (q / u + 1 / 2) * u" using u(2) by (simp add: mult_right_mono)
  also have "\<dots> = q + u / 2" using u(2) by (simp add: distrib_right)
  finally show ?thesis using u(1) by (simp add: round_pos_def Let_def u_def)
qed

lemma risk_index:
  assumes "5000 \<le> n" "n \<le> 50000"
  shows "unat (f64_to_u64 (f64_mul (f64_of_nat n) (rnd64 (5 / 100)))) = n div 20"
proof -
  let ?c = "7205759403792794 / 2 ^ 57 :: rat" and ?k = "n div 20"
  define q where "q = (of_nat n :: rat) * ?c"
  have k: "20 * ?k \<le> n" "n \<le> 20 * ?k + 19" "?k \<le> 2500" using assms by linarith+
  have nk: "20 * of_nat ?k \<le> (of_nat n :: rat)" "(of_nat n :: rat) \<le> 20 * of_nat ?k + 19" "(of_nat ?k :: rat) \<le> 2500"
    using of_nat_mono [OF k(1), where 'a = rat] of_nat_mono [OF k(2), where 'a = rat] of_nat_mono [OF k(3), where 'a = rat]
    by simp_all
  have n: "(of_nat n :: rat) \<le> 50000" using of_nat_mono [OF assms(2), where 'a = rat] by simp
  have lo: "of_nat ?k \<le> q" using nk(1) by (simp add: q_def)
  have hi: "q \<le> of_nat ?k + 31 / 32" using nk n by (simp add: q_def)
  have q0: "0 < q" using assms by (simp add: q_def)
  have "q < pow2 12" using hi nk(3) by (simp add: pow2_def)
  then have r: "round_pos 53 (- 1022) q \<le> q + 1 / 2 ^ 42" by (rule round_pos_small_error [OF q0])
  then have "\<not> pow2 1024 \<le> round_pos 53 (- 1022) q"
    using hi nk(3) pow2_strict_mono [of 12 1024] by (simp add: pow2_def)
  then have e: "rnd64 q = FFin (round_pos 53 (- 1022) q)" using q0 by (simp add: rnd64_def rnd_def Let_def)
  have "fp_le (FFin (of_nat ?k)) (rnd64 q)"
    using rnd64_mono [OF lo] f64_of_nat_exact [of ?k] k(3) by (simp add: f64_of_nat_def)
  then have ge: "of_nat ?k \<le> round_pos 53 (- 1022) q" by (simp add: e)
  have lt: "round_pos 53 (- 1022) q < of_nat ?k + 1" using r hi by simp
  have "unat (f64_to_u64 (rnd64 q)) = nat \<lfloor>round_pos 53 (- 1022) q\<rfloor>"
    unfolding e by (rule unat_f64_to_u64_fin) (use ge lt nk(3) in auto)
  moreover have "\<lfloor>round_pos 53 (- 1022) q\<rfloor> = int ?k" by (rule floor_unique) (use ge lt in simp_all)
  moreover have "f64_of_nat n = FFin (of_nat n)" by (rule f64_of_nat_exact) (use assms(2) in simp)
  then have "f64_mul (f64_of_nat n) (rnd64 (5 / 100)) = rnd64 q"
    unfolding rnd64_twentieth by (simp only: f64_mul.simps q_def)
  ultimately show ?thesis by (simp only: nat_int)
qed

section \<open>Properties of the kernels\<close>

text \<open>
  Two hash-mix jobs that differ in exactly one input value (at any position) and
  nothing else always produce different digests.
\<close>

theorem hashmix_injective_in_each_input:
  assumes "inputs j = us @ a # ws" and "inputs j' = us @ b # ws"
    and "compute_cost j = compute_cost j'"
  shows "hashmix j = hashmix j' \<longleftrightarrow> a = b"
proof
  let ?x = "fold hashmix_absorb us 0xcbf29ce484222325"
  assume "hashmix j = hashmix j'"
  then have "fold hashmix_absorb ws (hashmix_absorb a ?x) = fold hashmix_absorb ws (hashmix_absorb b ?x)"
    using assms unfolding hashmix_def Let_def by (auto dest: hashmix_rounds_inj)
  then show "a = b" by (blast dest: fold_absorb_inj hashmix_absorb_inj_input)
next
  assume "a = b"
  then show "hashmix j = hashmix j'" using assms by (simp add: hashmix_def)
qed

theorem hashmix_injective_in_each_input_witness:
  "hashmix (Job_default\<lparr>inputs := [7, 1, 9]\<rparr>) \<noteq> hashmix (Job_default\<lparr>inputs := [7, 2, 9]\<rparr>)"
  using hashmix_injective_in_each_input
    [of "Job_default\<lparr>inputs := [7, 1, 9]\<rparr>" "[7]" 1 "[9]" "Job_default\<lparr>inputs := [7, 2, 9]\<rparr>" 2]
  by (simp add: Job_default_def)

text \<open>
  C24. The sieve kernel returns the number of primes (by trial division) up to the job's
  cost clamped to the range from 10,000 to 250,000.
\<close>

theorem primecount_counts_primes:
  "primecount job =
     U64 (of_nat (card {p. p \<le> max 10000 (min 250000 (unat (compute_cost job))) \<and> is_prime p}))"
  by (simp add: primecount_def primecount_bound_def sieve_count_primes)

text \<open>
  C40. The risk kernel returns the fifth percentile of its simulated returns, a finite number
  whatever the inputs: one of the samples, below which at most a twentieth of them (rounded
  down) lies, while more than that many are not above it.
\<close>

theorem risk_is_fifth_percentile:
  "\<exists>q. execute_job (job\<lparr>kind := MonteCarloRisk\<rparr>) = [F64 (FFin q)]
    \<and> (let xs = mc_samples (mc_sims job) (inputs job) (0x123456789abcdef0 XOR job_id job)
       in FFin q \<in> set xs
        \<and> length (filter (\<lambda>x. fp_lt x (FFin q)) xs) \<le> length xs div 20
        \<and> length xs div 20 < length (filter (\<lambda>x. fp_le x (FFin q)) xs))"
proof -
  let ?xs = "mc_samples (mc_sims job) (inputs job) (0x123456789abcdef0 XOR job_id job)"
  let ?ys = "f64_sort ?xs" and ?k = "mc_sims job div 20"
  have n: "5000 \<le> mc_sims job" "mc_sims job \<le> 50000" by (simp_all add: mc_sims_def)
  have k: "?k < length ?ys" "min ?k (mc_sims job - 1) = ?k" using n by simp_all
  have fin: "\<exists>q. x = FFin q" if "x \<in> set ?ys" for x using that mc_samples_finite by (simp add: set_f64_sort)
  obtain q where q: "?ys ! ?k = FFin q" using fin nth_mem [OF k(1)] by blast
  have s: "sorted_wrt fp_le ?ys" by (rule sorted_f64_sort) (rule mc_samples_finite)
  note rank = sorted_rank [OF s k(1) fin, unfolded q]
  have j: "kind (job\<lparr>kind := MonteCarloRisk\<rparr>) = MonteCarloRisk" "inputs (job\<lparr>kind := MonteCarloRisk\<rparr>) = inputs job"
    "job_id (job\<lparr>kind := MonteCarloRisk\<rparr>) = job_id job" "mc_sims (job\<lparr>kind := MonteCarloRisk\<rparr>) = mc_sims job"
    by (simp_all add: mc_sims_def)
  have "execute_job (job\<lparr>kind := MonteCarloRisk\<rparr>) = [F64 (FFin q)]"
    unfolding execute_job_def montecarlo_risk_def Let_def j JobKind.case length_f64_sort length_mc_samples
      risk_index [OF n] k(2) q ..
  moreover have "FFin q \<in> set ?xs" using nth_mem [OF k(1)] by (simp add: q set_f64_sort)
  ultimately show ?thesis
    using rank length_filter_mset [OF mset_f64_sort [of ?xs]] unfolding Let_def by auto
qed


end
