(* ===== verification/NeuralRouter.thy ===== *)
theory NeuralRouter
  imports Strategies
begin

text \<open>
  The learning router (\<open>src/neural_router.rs\<close>): a 5 by 7 weight matrix scored against the
  features of a job, an epsilon-greedy choice driven by a linear congruential generator, and
  the update of the chosen strategy's row by the reward of the outcome. Log messages are not
  modelled. The lemmas show when the Drop strategy can be chosen, that the greedy branch is
  an argmax, and that learning keeps the matrix well formed and moves it with the reward.
\<close>

section \<open>Configuration and state\<close>

definition N_FEATURES :: nat where "N_FEATURES = 7"
definition N_STRATEGIES :: nat where "N_STRATEGIES = 5"
definition IDX_DROP :: nat where "IDX_DROP = 4"
definition MAX_COMPUTE_COST :: f64 where "MAX_COMPUTE_COST = FFin 1000000"
definition MAX_LATENCY_BUDGET_MS :: f64 where "MAX_LATENCY_BUDGET_MS = FFin 5000"
definition REWARD_WITHIN_BUDGET :: f64 where "REWARD_WITHIN_BUDGET = FFin 1"
definition REWARD_OVER_BUDGET :: f64 where "REWARD_OVER_BUDGET = FFin (- 1 / 2)"
definition REWARD_DROPPED :: f64 where "REWARD_DROPPED = FFin (- 1)"
definition VERY_NEGATIVE_THRESHOLD :: f64 where "VERY_NEGATIVE_THRESHOLD = FFin (- 10)"

record NeuralRouterConfig =
  learning_rate :: f64
  nc_epsilon :: f64
  drop_pressure_threshold :: f64
  min_samples_before_learning :: usize
  epsilon_decay :: f64
  max_compute_cost :: f64
  max_latency_budget_ms :: f64

definition NeuralRouterConfig_default :: NeuralRouterConfig where
  "NeuralRouterConfig_default =
    \<lparr>learning_rate = rnd64 (1 / 100), nc_epsilon = rnd64 (1 / 10),
     drop_pressure_threshold = rnd64 (8 / 10), min_samples_before_learning = 10,
     epsilon_decay = rnd64 (5 / 100), max_compute_cost = MAX_COMPUTE_COST,
     max_latency_budget_ms = MAX_LATENCY_BUDGET_MS\<rparr>"

record StrategyOutcome =
  so_strategy :: Strategy
  so_latency_ms :: u64
  so_budget_ms :: u64
  so_dropped :: bool

record NeuralRouter =
  nconfig :: NeuralRouterConfig
  weights :: "f64 list list"
  sample_count :: u64
  total_reward :: f64
  reward_m2 :: f64
  per_strategy_counts :: "u64 list"

definition strategy_index :: "Strategy \<Rightarrow> nat" where
  "strategy_index s =
    (case s of Inline \<Rightarrow> 0 | Spawn \<Rightarrow> 1 | CpuPool \<Rightarrow> 2 | Batch \<Rightarrow> 3 | Drop \<Rightarrow> 4)"

definition index_to_strategy :: "nat \<Rightarrow> Strategy" where
  "index_to_strategy i =
    (if i = 0 then Inline else if i = 1 then Spawn else if i = 2 then CpuPool
     else if i = 3 then Batch else if i = 4 then Drop else Inline)"

definition dot7 :: "f64 list \<Rightarrow> f64 list \<Rightarrow> f64" where
  "dot7 a b = foldl f64_add (FFin 0) (map2 f64_mul a b)"

section \<open>Pseudo-random numbers\<close>

definition lcg_next_u64 :: "u64 \<Rightarrow> u64" where
  "lcg_next_u64 s = s * 6364136223846793005 + 1442695040888963407"

definition next_small_f64 :: "u64 \<Rightarrow> f64 \<times> u64" where
  "next_small_f64 s =
    (let raw = lcg_next_u64 s;
         unit = u64_frac raw
     in (f64_mul (f64_sub unit (FFin (1 / 2))) (rnd64 (1 / 10)), raw))"

fun lcg_cells :: "nat \<Rightarrow> u64 \<Rightarrow> f64 list \<times> u64" where
  "lcg_cells 0 s = ([], s)"
| "lcg_cells (Suc n) s =
    (let (c, s) = next_small_f64 s; (cs, s) = lcg_cells n s in (c # cs, s))"

fun lcg_rows :: "nat \<Rightarrow> u64 \<Rightarrow> f64 list list \<times> u64" where
  "lcg_rows 0 s = ([], s)"
| "lcg_rows (Suc n) s =
    (let (r, s) = lcg_cells N_FEATURES s; (rs, s) = lcg_rows n s in (r # rs, s))"

definition neural_new :: "NeuralRouterConfig \<Rightarrow> NeuralRouter" where
  "neural_new config =
    \<lparr>nconfig = config, weights = fst (lcg_rows N_STRATEGIES 0xDEADBEEFCAFE1234), sample_count = 0,
     total_reward = FFin 0, reward_m2 = FFin 0, per_strategy_counts = replicate N_STRATEGIES 0\<rparr>"

definition lcg_unit_from_u64 :: "u64 \<Rightarrow> f64" where
  "lcg_unit_from_u64 seed =
    (let mixed = seed * 6364136223846793005 + 1442695040888963407 in u64_frac mixed)"

section \<open>Scoring and choice\<close>

definition feature_vector_normalized :: "Job \<Rightarrow> f64 \<Rightarrow> f64 \<Rightarrow> f64 \<Rightarrow> f64 list" where
  "feature_vector_normalized job pressure max_cost max_budget =
    (let compute_cost_norm = f64_div (f64_of_u64 (min (compute_cost job) (f64_to_u64 max_cost))) max_cost;
         (is_hashmix, is_primecount, is_montecarlo) =
           (case kind job of
              HashMix \<Rightarrow> (FFin 1, FFin 0, FFin 0)
            | PrimeCount \<Rightarrow> (FFin 0, FFin 1, FFin 0)
            | MonteCarloRisk \<Rightarrow> (FFin 0, FFin 0, FFin 1));
         scaling = f64_clamp (scaling_potential job) (FFin 0) (FFin 1);
         budget_norm = f64_div (f64_of_u64 (min (latency_budget_ms job) (f64_to_u64 max_budget))) max_budget;
         pressure_clamped = f64_clamp pressure (FFin 0) (FFin 1)
     in [compute_cost_norm, is_hashmix, is_primecount, is_montecarlo, scaling, budget_norm,
         pressure_clamped])"

definition feature_vector :: "Job \<Rightarrow> f64 \<Rightarrow> f64 list" where
  "feature_vector job pressure =
     feature_vector_normalized job pressure MAX_COMPUTE_COST MAX_LATENCY_BUDGET_MS"

definition features_of :: "NeuralRouter \<Rightarrow> Job \<Rightarrow> f64 \<Rightarrow> f64 list" where
  "features_of nr job pressure =
     feature_vector_normalized job pressure (max_compute_cost (nconfig nr)) (max_latency_budget_ms (nconfig nr))"

definition score_all :: "NeuralRouter \<Rightarrow> Job \<Rightarrow> f64 \<Rightarrow> f64 list" where
  "score_all nr job pressure =
     map (\<lambda>row. dot7 row (features_of nr job pressure)) (weights nr)"

definition explore_unit :: "NeuralRouter \<Rightarrow> Job \<Rightarrow> f64" where
  "explore_unit nr job =
     lcg_unit_from_u64 (job_id job * 0x9E3779B97F4A7C15 + sample_count nr * 0x6C62272E07BB0142)"

definition explore_pick :: "NeuralRouter \<Rightarrow> Job \<Rightarrow> nat \<Rightarrow> nat" where
  "explore_pick nr job pool_size =
    (let pick_unit = lcg_unit_from_u64
           (job_id job * 0x517CC1B727220A95 + (sample_count nr + 1) * 0xBF58476D1CE4E5B9);
         idx = unat (f64_to_u64 (f64_mul pick_unit (f64_of_nat pool_size)))
     in min idx (pool_size - 1))"

text \<open>One iteration of the argmax loop: index, score, best index and best score so far.\<close>

definition greedy_step :: "bool \<Rightarrow> nat \<times> f64 \<Rightarrow> nat \<times> f64 \<Rightarrow> nat \<times> f64" where
  "greedy_step drop_allowed = (\<lambda>(i, sc) (best_idx, best_score).
     if i = IDX_DROP \<and> \<not> drop_allowed then (best_idx, best_score)
     else if fp_lt best_score sc then (i, sc) else (best_idx, best_score))"

definition greedy_index :: "bool \<Rightarrow> f64 list \<Rightarrow> nat" where
  "greedy_index drop_allowed scores =
     fst (fold (greedy_step drop_allowed) (enumerate 0 scores) (0, FInf True))"

definition neural_choose :: "NeuralRouter \<Rightarrow> Job \<Rightarrow> f64 \<Rightarrow> Strategy" where
  "neural_choose nr job pressure =
    (let scores = score_all nr job pressure;
         drop_allowed = fp_le (drop_pressure_threshold (nconfig nr)) pressure;
         all_non_drop_very_negative =
           list_all (\<lambda>s. fp_lt s VERY_NEGATIVE_THRESHOLD) (take IDX_DROP scores)
     in if fp_lt (explore_unit nr job) (nc_epsilon (nconfig nr))
        then let can_drop = drop_allowed \<or> all_non_drop_very_negative;
                 pool_size = (if can_drop then N_STRATEGIES else IDX_DROP)
             in index_to_strategy (explore_pick nr job pool_size)
        else index_to_strategy (greedy_index drop_allowed scores))"

section \<open>Learning\<close>

definition reward_of :: "StrategyOutcome \<Rightarrow> f64" where
  "reward_of o' =
    (if so_dropped o' then REWARD_DROPPED
     else if so_latency_ms o' \<le> so_budget_ms o' then REWARD_WITHIN_BUDGET
     else REWARD_OVER_BUDGET)"

definition update_cell :: "f64 \<Rightarrow> f64 \<Rightarrow> f64 \<Rightarrow> f64 \<Rightarrow> f64" where
  "update_cell rate reward w f =
    (let delta = f64_mul (f64_mul rate reward) f
     in if fp_is_finite delta \<and> fp_is_finite w then f64_add w delta else w)"

definition record_outcome :: "Job \<Rightarrow> f64 \<Rightarrow> StrategyOutcome \<Rightarrow> NeuralRouter \<Rightarrow> NeuralRouter" where
  "record_outcome job pressure o' nr =
    (let reward = reward_of o';
         total = f64_add (total_reward nr) reward;
         n = sample_count nr + 1;
         mean = (if n = 1 then reward else f64_div total (f64_of_u64 n));
         delta = f64_sub reward (f64_div (f64_sub total reward) (f64_of_u64 (max (n - 1) 1)));
         delta2 = f64_sub reward mean;
         m2 = f64_add (reward_m2 nr) (f64_mul delta delta2);
         s_idx = strategy_index (so_strategy o');
         counts = (per_strategy_counts nr)[s_idx := per_strategy_counts nr ! s_idx + 1];
         c = nconfig nr;
         c = (if fp_lt (FFin 0) (epsilon_decay c) \<and> n mod 100 = 0
              then c\<lparr>nc_epsilon := f64_max (f64_mul (nc_epsilon c) (f64_sub (FFin 1) (epsilon_decay c)))
                                           (rnd64 (1 / 100))\<rparr>
              else c);
         nr = nr\<lparr>nconfig := c, sample_count := n, total_reward := total, reward_m2 := m2,
                 per_strategy_counts := counts\<rparr>
     in if n < min_samples_before_learning c then nr
        else nr\<lparr>weights := (weights nr)[s_idx :=
               map2 (update_cell (learning_rate c) reward) (weights nr ! s_idx) (features_of nr job pressure)]\<rparr>)"

definition is_warmed_up :: "NeuralRouter \<Rightarrow> bool" where
  "is_warmed_up nr = (min_samples_before_learning (nconfig nr) \<le> sample_count nr)"

definition avg_reward :: "NeuralRouter \<Rightarrow> f64" where
  "avg_reward nr =
    (if sample_count nr = 0 then FFin 0 else f64_div (total_reward nr) (f64_of_u64 (sample_count nr)))"

definition reward_variance :: "NeuralRouter \<Rightarrow> f64" where
  "reward_variance nr =
    (if sample_count nr < 2 then FFin 0 else f64_div (reward_m2 nr) (f64_of_u64 (sample_count nr - 1)))"

record WeightSnapshot =
  ws_weights :: "f64 list list"
  ws_sample_count :: u64
  ws_total_reward :: f64

definition snapshot :: "NeuralRouter \<Rightarrow> WeightSnapshot" where
  "snapshot nr = \<lparr>ws_weights = weights nr, ws_sample_count = sample_count nr,
     ws_total_reward = total_reward nr\<rparr>"

definition restore :: "WeightSnapshot \<Rightarrow> NeuralRouter \<Rightarrow> NeuralRouter" where
  "restore snap nr = nr\<lparr>weights := ws_weights snap, sample_count := ws_sample_count snap,
     total_reward := ws_total_reward snap\<rparr>"

definition heuristic_weights :: "f64 list list" where
  "heuristic_weights = map (map rnd64)
    [[- 2, 1 / 2, 0, 0, 0, 1 / 2, - 1],
     [1 / 2, 3 / 10, 3 / 10, 0, 0, 3 / 10, - 1 / 2],
     [3 / 2, 0, 1 / 2, 1 / 2, - 1, 0, - 1 / 2],
     [1, 0, 0, 3 / 10, 8 / 10, 0, 0],
     [- 1, - 1, - 1, - 1, - 1, - 1, 2]]"

definition warm_start_from_heuristics :: "NeuralRouter \<Rightarrow> NeuralRouter" where
  "warm_start_from_heuristics nr =
    nr\<lparr>weights := heuristic_weights,
       sample_count := (if sample_count nr < min_samples_before_learning (nconfig nr)
                        then min_samples_before_learning (nconfig nr) else sample_count nr)\<rparr>"

section \<open>Lemmas: the choice\<close>

lemma index_to_strategy_inverse: "index_to_strategy (strategy_index s) = s"
  by (cases s) (simp_all add: index_to_strategy_def strategy_index_def)

lemma strategy_index_less: "strategy_index s < N_STRATEGIES"
  by (cases s) (simp_all add: strategy_index_def N_STRATEGIES_def)

lemma index_to_strategy_Drop: "index_to_strategy i = Drop \<longleftrightarrow> i = IDX_DROP"
  by (simp add: index_to_strategy_def IDX_DROP_def)

lemma strategy_index_of_index: "i < 5 \<Longrightarrow> strategy_index (index_to_strategy i) = i"
  by (auto simp: index_to_strategy_def strategy_index_def)

lemma explore_pick_less: "0 < n \<Longrightarrow> explore_pick nr job n < n"
  by (simp add: explore_pick_def Let_def min_def) linarith

text \<open>
  The argmax loop: the running best is an allowed index whose score no earlier allowed score
  exceeds; before any score exceeded minus infinity it is the initial index.
\<close>

definition greedy_inv :: "bool \<Rightarrow> f64 list \<Rightarrow> nat \<times> f64 \<Rightarrow> bool" where
  "greedy_inv allowed sc = (\<lambda>(b, best).
     (\<forall>i < length sc. (i = IDX_DROP \<longrightarrow> allowed) \<longrightarrow> \<not> fp_lt best (sc ! i))
   \<and> (b < length sc \<and> sc ! b = best \<and> (b = IDX_DROP \<longrightarrow> allowed) \<or> b = 0 \<and> best = FInf True))"

lemma fp_lt_trans: "fp_lt a b \<Longrightarrow> fp_lt b c \<Longrightarrow> fp_lt a c"
  by (cases a; cases b; cases c) auto

lemma greedy_inv_step:
  assumes "greedy_inv allowed sc r"
  shows "greedy_inv allowed (sc @ [x]) (greedy_step allowed (length sc, x) r)"
proof -
  obtain b best where r: "r = (b, best)" by (cases r)
  have inv: "\<And>i. i < length sc \<Longrightarrow> (i = IDX_DROP \<longrightarrow> allowed) \<Longrightarrow> \<not> fp_lt best (sc ! i)"
    "b < length sc \<and> sc ! b = best \<and> (b = IDX_DROP \<longrightarrow> allowed) \<or> b = 0 \<and> best = FInf True"
    using assms by (simp_all add: r greedy_inv_def)
  show ?thesis
  proof (cases "\<not> (length sc = IDX_DROP \<and> \<not> allowed) \<and> fp_lt best x")
    case True
    have "\<not> fp_lt x (sc ! i)" if "i < length sc" "i = IDX_DROP \<longrightarrow> allowed" for i
      using inv(1) [OF that] fp_lt_trans True by blast
    moreover have "\<not> fp_lt x x" by (cases x) auto
    ultimately show ?thesis using True
      by (auto simp: r greedy_inv_def greedy_step_def nth_append less_Suc_eq)
  next
    case False
    then show ?thesis using inv
      by (auto simp: r greedy_inv_def greedy_step_def nth_append less_Suc_eq)
  qed
qed

lemma greedy_inv_loop:
  "greedy_inv allowed sc (fold (greedy_step allowed) (enumerate 0 sc) (0, FInf True))"
proof (induction sc rule: rev_induct)
  case Nil
  show ?case by (simp add: greedy_inv_def)
next
  case (snoc x xs)
  then show ?case using greedy_inv_step [OF snoc] by (simp add: enumerate_append_eq)
qed

lemma greedy_index_spec:
  assumes "i < length sc" "i = IDX_DROP \<longrightarrow> allowed"
  shows "\<not> fp_lt (sc ! greedy_index allowed sc) (sc ! i)"
    "greedy_index allowed sc < length sc" "greedy_index allowed sc = IDX_DROP \<longrightarrow> allowed"
proof -
  obtain b best where r: "fold (greedy_step allowed) (enumerate 0 sc) (0, FInf True) = (b, best)"
    by fastforce
  have g: "greedy_index allowed sc = b" by (simp add: greedy_index_def r)
  have inv: "\<And>i. i < length sc \<Longrightarrow> (i = IDX_DROP \<longrightarrow> allowed) \<Longrightarrow> \<not> fp_lt best (sc ! i)"
    "b < length sc \<and> sc ! b = best \<and> (b = IDX_DROP \<longrightarrow> allowed) \<or> b = 0 \<and> best = FInf True"
    using greedy_inv_loop [of allowed sc] by (simp_all add: r greedy_inv_def)
  show "\<not> fp_lt (sc ! greedy_index allowed sc) (sc ! i)"
  proof (cases "b < length sc \<and> sc ! b = best")
    case True
    then show ?thesis using inv(1) [OF assms] by (simp add: g)
  next
    case False
    then have "b = 0" "best = FInf True" using inv(2) by auto
    moreover have "0 < length sc" using assms(1) by linarith
    ultimately have "\<not> fp_lt (FInf True) (sc ! 0)" "\<not> fp_lt (FInf True) (sc ! i)"
      using inv(1) [of 0] inv(1) [OF assms] by (simp_all add: IDX_DROP_def)
    then show ?thesis by (cases "sc ! 0"; cases "sc ! i") (auto simp: g \<open>b = 0\<close>)
  qed
  show "greedy_index allowed sc < length sc" "greedy_index allowed sc = IDX_DROP \<longrightarrow> allowed"
    using inv(2) assms(1) by (auto simp: g IDX_DROP_def)
qed

section \<open>Lemmas: learning\<close>

lemma update_cell_rep: "rep_cell w \<Longrightarrow> rep_cell (update_cell rate reward w f)"
proof -
  assume w: "rep_cell w"
  let ?d = "f64_mul (f64_mul rate reward) f"
  show ?thesis
  proof (cases "fp_is_finite ?d \<and> fp_is_finite w")
    case True
    then obtain a b where "?d = FFin a" "w = FFin b"
      by (cases ?d; cases w) (auto simp: fp_is_finite_def)
    then show ?thesis by (simp add: update_cell_def fp_is_finite_def)
  next
    case False
    then show ?thesis using w by (auto simp: update_cell_def)
  qed
qed

lemma update_cell_direction:
  assumes "rep_cell w"
  shows "fp_le (FFin 0) (f64_mul (f64_mul rate reward) f) \<Longrightarrow> fp_le w (update_cell rate reward w f)"
    and "fp_le (f64_mul (f64_mul rate reward) f) (FFin 0) \<Longrightarrow> fp_le (update_cell rate reward w f) w"
proof -
  let ?d = "f64_mul (f64_mul rate reward) f"
  have refl: "fp_le w w" using assms by (cases w) (auto simp: rep_cell_def)
  have "fp_le (FFin 0) ?d \<longrightarrow> fp_le w (f64_add w ?d)" "fp_le ?d (FFin 0) \<longrightarrow> fp_le (f64_add w ?d) w"
    if fin: "fp_is_finite ?d" "fp_is_finite w"
  proof -
    obtain a b where ab: "?d = FFin a" "w = FFin b"
      using fin by (cases ?d; cases w) (auto simp: fp_is_finite_def)
    then have "rnd64 b = FFin b" using assms by (simp add: rep_cell_def)
    then show "fp_le (FFin 0) ?d \<longrightarrow> fp_le w (f64_add w ?d)" "fp_le ?d (FFin 0) \<longrightarrow> fp_le (f64_add w ?d) w"
      using rnd64_mono [of b "b + a"] rnd64_mono [of "b + a" b] by (simp_all add: ab)
  qed
  then show "fp_le (FFin 0) ?d \<Longrightarrow> fp_le w (update_cell rate reward w f)"
    "fp_le ?d (FFin 0) \<Longrightarrow> fp_le (update_cell rate reward w f) w"
    using refl by (auto simp: update_cell_def Let_def)
qed

definition matrix_ok :: "f64 list list \<Rightarrow> bool" where
  "matrix_ok m = (length m = N_STRATEGIES \<and> (\<forall>row \<in> set m. length row = N_FEATURES \<and> list_all rep_cell row))"

lemma length_features: "length (features_of nr job pressure) = N_FEATURES"
  by (simp add: features_of_def feature_vector_normalized_def Let_def N_FEATURES_def split: JobKind.split)

definition updated_row :: "Job \<Rightarrow> f64 \<Rightarrow> StrategyOutcome \<Rightarrow> NeuralRouter \<Rightarrow> f64 list" where
  "updated_row job pressure o' nr =
     map2 (update_cell (learning_rate (nconfig nr)) (reward_of o'))
       (weights nr ! strategy_index (so_strategy o')) (features_of nr job pressure)"

lemma record_outcome_weights:
  "weights (record_outcome job pressure o' nr) =
    (if sample_count nr + 1 < min_samples_before_learning (nconfig nr) then weights nr
     else (weights nr)[strategy_index (so_strategy o') := updated_row job pressure o' nr])"
  by (simp add: record_outcome_def Let_def updated_row_def features_of_def)

lemma updated_row_ok:
  assumes "matrix_ok (weights nr)"
  shows "length (updated_row job pressure o' nr) = N_FEATURES \<and> list_all rep_cell (updated_row job pressure o' nr)"
proof -
  let ?row = "weights nr ! strategy_index (so_strategy o')"
  have "?row \<in> set (weights nr)"
    using assms strategy_index_less by (simp add: matrix_ok_def)
  then have row: "length ?row = N_FEATURES" "list_all rep_cell ?row" using assms by (auto simp: matrix_ok_def)
  then show ?thesis
    by (auto simp: updated_row_def length_features list_all_length update_cell_rep)
qed

lemma matrix_ok_record:
  assumes "matrix_ok (weights nr)"
  shows "matrix_ok (weights (record_outcome job pressure o' nr))"
proof -
  let ?i = "strategy_index (so_strategy o')" and ?r = "updated_row job pressure o' nr"
  have "set ((weights nr)[?i := ?r]) \<subseteq> insert ?r (set (weights nr))" by (rule set_update_subset_insert)
  then have "matrix_ok ((weights nr)[?i := ?r])"
    using assms updated_row_ok [OF assms, of job pressure o'] unfolding matrix_ok_def
    by (metis insertE length_list_update subsetD)
  then show ?thesis using assms by (simp only: record_outcome_weights) simp
qed

lemma matrix_ok_heuristic: "matrix_ok heuristic_weights"
  by (auto simp: matrix_ok_def heuristic_weights_def N_STRATEGIES_def N_FEATURES_def)

lemma learning_rate_reward_sign:
  assumes "learning_rate c = rnd64 (1 / 100)"
  shows "\<exists>r. f64_mul (learning_rate c) (reward_of o') = FFin r
    \<and> (if reward_of o' = REWARD_WITHIN_BUDGET then 0 \<le> r else r \<le> 0)"
proof -
  obtain l where l: "rnd64 (1 / 100) = FFin l" "0 \<le> l" "l \<le> 1" by (rule rnd64_unit [of "1 / 100"]) auto
  have fin: "\<exists>r. rnd64 (l * w) = FFin r \<and> (if 0 \<le> w then 0 \<le> r else r \<le> 0)" if "- 1 \<le> w" "w \<le> 1" for w
  proof -
    have "\<bar>l * w\<bar> \<le> 1" unfolding abs_mult by (rule mult_le_one) (use l that in auto)
    then have bounds: "- 1 \<le> l * w" "l * w \<le> 1" by linarith+
    have "fp_le (rnd64 (- 1)) (rnd64 (l * w))" "fp_le (rnd64 (l * w)) (rnd64 1)"
      by (intro rnd64_mono bounds)+
    moreover have "rnd64 (- 1) = FFin (- 1)" "rnd64 1 = FFin 1" using rnd64_neg [of 1] by simp_all
    ultimately obtain r where r: "rnd64 (l * w) = FFin r" by (cases "rnd64 (l * w)") auto
    have "0 \<le> w \<Longrightarrow> 0 \<le> r" using rnd64_mono [of 0 "l * w"] l r by simp
    moreover have "w < 0 \<Longrightarrow> r \<le> 0"
      using rnd64_mono [of "l * w" 0] l r by (simp add: mult_nonneg_nonpos)
    ultimately show ?thesis using r by auto
  qed
  show ?thesis
    using fin [of 1] fin [of "- 1"] fin [of "- 1 / 2"] assms l(1)
    by (auto simp: reward_of_def REWARD_WITHIN_BUDGET_def REWARD_OVER_BUDGET_def REWARD_DROPPED_def)
qed

section \<open>The invariant\<close>

lemma sum_list_increment:
  "i < length xs \<Longrightarrow> sum_list (xs[i := xs ! i + 1]) = (sum_list xs :: 'a::comm_ring_1) + 1"
proof (induction xs arbitrary: i)
  case (Cons a xs)
  then show ?case by (cases i) (simp_all add: algebra_simps)
qed simp

definition epsilon_ok :: "f64 \<Rightarrow> bool" where
  "epsilon_ok e = (fp_le (rnd64 (1 / 100)) e \<and> fp_le e (rnd64 (1 / 10)))"

definition neural_ok :: "NeuralRouter \<Rightarrow> bool" where
  "neural_ok nr = (matrix_ok (weights nr) \<and> epsilon_ok (nc_epsilon (nconfig nr))
     \<and> nconfig nr = NeuralRouterConfig_default\<lparr>nc_epsilon := nc_epsilon (nconfig nr)\<rparr>
     \<and> length (per_strategy_counts nr) = N_STRATEGIES
     \<and> sample_count nr = sum_list (per_strategy_counts nr) + 10)"

lemma neural_ok_config:
  assumes "neural_ok nr"
  shows "learning_rate (nconfig nr) = rnd64 (1 / 100)" "epsilon_decay (nconfig nr) = rnd64 (5 / 100)"
    "max_compute_cost (nconfig nr) = FFin (of_nat 1000000)"
    "max_latency_budget_ms (nconfig nr) = FFin (of_nat 5000)"
proof -
  have c: "nconfig nr = NeuralRouterConfig_default\<lparr>nc_epsilon := nc_epsilon (nconfig nr)\<rparr>"
    using assms unfolding neural_ok_def by blast
  show "learning_rate (nconfig nr) = rnd64 (1 / 100)" "epsilon_decay (nconfig nr) = rnd64 (5 / 100)"
    "max_compute_cost (nconfig nr) = FFin (of_nat 1000000)"
    "max_latency_budget_ms (nconfig nr) = FFin (of_nat 5000)"
    by (subst c, simp add: NeuralRouterConfig_default_def MAX_COMPUTE_COST_def MAX_LATENCY_BUDGET_MS_def)+
qed

lemma epsilon_ok_decay:
  assumes "epsilon_ok e"
  shows "epsilon_ok (f64_max (f64_mul e (f64_sub (FFin 1) (rnd64 (5 / 100)))) (rnd64 (1 / 100)))"
proof -
  obtain lo where lo: "rnd64 (1 / 100) = FFin lo" "0 \<le> lo" by (rule rnd64_unit [of "1 / 100"]) auto
  obtain hi where hi: "rnd64 (1 / 10) = FFin hi" "rnd64 hi = FFin hi" by (rule rnd64_unit [of "1 / 10"]) auto
  have lohi: "lo \<le> hi" by (rule rnd64_le [OF lo(1) hi(1)]) simp
  obtain q where q: "e = FFin q" "lo \<le> q" "q \<le> hi"
    using assms lo hi by (cases e) (auto simp: epsilon_ok_def)
  obtain d where d: "rnd64 (5 / 100) = FFin d" "0 \<le> d" "d \<le> 1" by (rule rnd64_unit [of "5 / 100"]) auto
  obtain k where k: "rnd64 (1 - d) = FFin k" "0 \<le> k" "k \<le> 1" by (rule rnd64_unit [of "1 - d"]) (use d in auto)
  have "q * k \<le> q * 1" using q lo k by (intro mult_left_mono) auto
  then have "fp_le (rnd64 (q * k)) (rnd64 hi)" using q by (intro rnd64_mono) linarith
  then have up: "fp_le (rnd64 (q * k)) (FFin hi)" by (simp add: hi)
  have "f64_sub (FFin 1) (rnd64 (5 / 100)) = FFin k" by (simp only: d f64_sub_def f64_neg.simps f64_add.simps) (simp add: k(1))
  moreover have "f64_mul e (FFin k) = rnd64 (q * k)" by (simp add: q)
  moreover have "fp_le (FFin lo) (f64_max (rnd64 (q * k)) (FFin lo)) \<and> fp_le (f64_max (rnd64 (q * k)) (FFin lo)) (FFin hi)"
    using up lohi by (cases "rnd64 (q * k)") (auto simp: f64_max_def)
  ultimately show ?thesis unfolding epsilon_ok_def lo(1) hi(1) by simp
qed

lemma neural_ok_record:
  assumes "neural_ok nr"
  shows "neural_ok (record_outcome job pressure o' nr)"
proof -
  let ?n = "record_outcome job pressure o' nr"
  note d = neural_ok_config(2) [OF assms]
  have conf: "nconfig ?n = (if fp_lt (FFin 0) (epsilon_decay (nconfig nr)) \<and> (sample_count nr + 1) mod 100 = 0
     then (nconfig nr)\<lparr>nc_epsilon := f64_max (f64_mul (nc_epsilon (nconfig nr))
             (f64_sub (FFin 1) (epsilon_decay (nconfig nr)))) (rnd64 (1 / 100))\<rparr> else nconfig nr)"
    by (simp add: record_outcome_def Let_def)
  have counts: "per_strategy_counts ?n =
      (per_strategy_counts nr)[strategy_index (so_strategy o') :=
         per_strategy_counts nr ! strategy_index (so_strategy o') + 1]"
    "sample_count ?n = sample_count nr + 1"
    by (simp_all add: record_outcome_def Let_def)
  have "epsilon_ok (nc_epsilon (nconfig ?n))"
    using assms epsilon_ok_decay unfolding conf d by (simp add: neural_ok_def)
  moreover have "nconfig ?n = NeuralRouterConfig_default\<lparr>nc_epsilon := nc_epsilon (nconfig ?n)\<rparr>"
  proof -
    have c: "nconfig nr = NeuralRouterConfig_default\<lparr>nc_epsilon := nc_epsilon (nconfig nr)\<rparr>"
      using assms unfolding neural_ok_def by blast
    show ?thesis unfolding conf by (subst c, subst (2) c) simp
  qed
  moreover have "strategy_index (so_strategy o') < length (per_strategy_counts nr)"
    using assms strategy_index_less by (simp add: neural_ok_def)
  note sum_list_increment [OF this]
  ultimately show ?thesis using assms matrix_ok_record [of nr job pressure o']
    by (simp add: neural_ok_def counts add.commute)
qed

definition neural_step :: "Job \<times> f64 \<times> StrategyOutcome \<Rightarrow> NeuralRouter \<Rightarrow> NeuralRouter" where
  "neural_step = (\<lambda>(job, pressure, o'). record_outcome job pressure o')"

interpretation neural: stateful neural_step neural_ok
  by unfold_locales (auto simp: neural_step_def neural_ok_record)

text \<open>The learner as \<open>Router::new\<close> builds it.\<close>

definition neural_initial :: NeuralRouter where
  "neural_initial = warm_start_from_heuristics (neural_new NeuralRouterConfig_default)"

lemma neural_ok_initial: "neural_ok neural_initial"
proof -
  have "fp_le (rnd64 (1 / 100)) (rnd64 (1 / 10))" "fp_le (rnd64 (1 / 10)) (rnd64 (1 / 10))"
    by (intro rnd64_mono; simp)+
  then show ?thesis using matrix_ok_heuristic
    by (simp add: neural_ok_def epsilon_ok_def neural_initial_def warm_start_from_heuristics_def
        neural_new_def NeuralRouterConfig_default_def sum_list_replicate)
qed

lemma neural_initial_config: "nconfig neural_initial = NeuralRouterConfig_default" "sample_count neural_initial = 10"
  by (simp_all add: neural_initial_def warm_start_from_heuristics_def neural_new_def NeuralRouterConfig_default_def)

lemma neural_initial_weights: "weights neural_initial = heuristic_weights"
  by (simp add: neural_initial_def warm_start_from_heuristics_def)

text \<open>An identifier for which a fresh learner does not explore.\<close>

lemma u64_frac_ge_half: "2 ^ 63 \<le> unat w \<Longrightarrow> fp_le (FFin (1 / 2)) (u64_frac w)"
proof -
  assume w: "2 ^ 63 \<le> unat w"
  have "rnd64 (2 ^ 63) = FFin (2 ^ 63)" "rnd64 (2 ^ 64) = FFin (2 ^ 64)"
    using rnd64_eval [of 63 "2 ^ 63"] rnd64_eval [of 64 "2 ^ 64"] rne_of_int [of "2 ^ 52"]
    by (simp_all add: pow2_def)
  note big = this
  have "(2 :: rat) ^ 63 \<le> of_nat (unat w)" using w of_nat_mono [OF w, where ?'a = rat] by simp
  then have lo: "fp_le (FFin (2 ^ 63)) (f64_of_u64 w)"
    unfolding f64_of_u64_def f64_of_nat_def big(1) [symmetric] by (rule rnd64_mono)
  have "(of_nat (unat w) :: rat) \<le> 2 ^ 64"
    using of_nat_mono [OF less_imp_le [OF unsigned_less [of w, where ?'a = nat]], where ?'a = rat] by simp
  then have hi: "fp_le (f64_of_u64 w) (FFin (2 ^ 64))"
    unfolding f64_of_u64_def f64_of_nat_def big(2) [symmetric] by (rule rnd64_mono)
  obtain a where a: "f64_of_u64 w = FFin a" "2 ^ 63 \<le> a" using lo hi by (cases "f64_of_u64 w") auto
  have m: "(of_nat (unat (- 1 :: u64)) :: rat) = 18446744073709551615" by (simp add: unat_max_word)
  have den: "f64_of_u64 (- 1) = FFin (2 ^ 64)"
    unfolding f64_of_u64_def f64_of_nat_def m
    using rnd64_eval [of 63 18446744073709551615] rne_tie [of "18446744073709551615 / 2048" 9007199254740992]
      rne_eqI [of "18446744073709551615 / 2048" 9007199254740992]
    by (simp add: pow2_def)
  have half: "rnd64 (1 / 2) = FFin (1 / 2)"
    using rnd64_eval [of "- 1" "1 / 2"] rne_of_int [of "2 ^ 52"] by (simp add: pow2_def)
  have "fp_le (rnd64 (1 / 2)) (rnd64 (a / 2 ^ 64))" by (rule rnd64_mono) (use a(2) in simp)
  then show ?thesis by (simp add: u64_frac_def a(1) den half)
qed

lemma job_5_exploits: "\<not> fp_lt (explore_unit neural_initial (job\<lparr>job_id := 5\<rparr>)) (nc_epsilon (nconfig neural_initial))"
proof -
  have "fp_le (FFin (1 / 2)) (explore_unit neural_initial (job\<lparr>job_id := 5\<rparr>))"
    unfolding explore_unit_def lcg_unit_from_u64_def Let_def
    by (rule u64_frac_ge_half) (simp add: neural_initial_config)
  moreover have "rnd64 (1 / 2) = FFin (1 / 2)"
    using rnd64_eval [of "- 1" "1 / 2"] rne_of_int [of "2 ^ 52"] by (simp add: pow2_def)
  then have "fp_le (rnd64 (1 / 10)) (FFin (1 / 2))" using rnd64_mono [of "1 / 10" "1 / 2"] by simp
  ultimately have "fp_le (rnd64 (1 / 10)) (explore_unit neural_initial (job\<lparr>job_id := 5\<rparr>))"
    using fp_le_trans by blast
  then show ?thesis using fp_lt_imp_not_le
    by (auto simp: neural_initial_config NeuralRouterConfig_default_def)
qed

lemma feature_unit_or_NaN:
  assumes "neural_ok nr" "f \<in> set (features_of nr job pressure)"
  shows "f = FNaN \<or> in_unit f"
proof -
  note c = neural_ok_config(3,4) [OF assms(1)]
  have norm: "in_unit (f64_div (f64_of_u64 (min w (f64_to_u64 (FFin (of_nat m))))) (FFin (of_nat m)))"
    if m: "0 < m" "m < 2 ^ 53" for w :: u64 and m :: nat
  proof -
    have "f64_to_u64 (FFin (of_nat m)) = of_nat m"
      using f64_of_nat_roundtrip [OF m(2)] f64_of_nat_exact [OF m(2)] by simp
    moreover have "unat (of_nat m :: u64) = m" using m(2) by (simp add: unat_of_nat_small)
    ultimately have le: "unat (min w (f64_to_u64 (FFin (of_nat m)))) \<le> m"
      by (metis min.cobounded2 word_le_nat_alt)
    define k where "k = unat (min w (f64_to_u64 (FFin (of_nat m))))"
    have k: "f64_of_u64 (min w (f64_to_u64 (FFin (of_nat m)))) = FFin (of_nat k)"
      unfolding f64_of_u64_def k_def by (rule f64_of_nat_exact) (use le m in linarith)
    have "k \<le> m" using le by (simp only: k_def)
    then have u: "(of_nat k / of_nat m :: rat) \<le> 1" using m(1) by simp
    obtain r where "rnd64 (of_nat k / of_nat m) = FFin r" "0 \<le> r" "r \<le> 1"
      by (rule rnd64_unit [OF _ u]) auto
    then show ?thesis unfolding k using m(1) by simp
  qed
  have "in_unit (FFin 0)" "in_unit (FFin 1)" by simp_all
  moreover have "f64_clamp x (FFin 0) (FFin 1) = FNaN \<or> in_unit (f64_clamp x (FFin 0) (FFin 1))" for x
    using in_unit_clamp [of x] by (cases "x = FNaN") (auto simp: f64_clamp_def)
  ultimately show ?thesis using assms(2) norm [of 1000000] norm [of 5000]
    unfolding features_of_def feature_vector_normalized_def Let_def c
    by (auto split: JobKind.splits)
qed

lemma updated_row_direction:
  assumes "neural_ok nr" "j < N_FEATURES"
  shows "if reward_of o' = REWARD_WITHIN_BUDGET
    then fp_le (weights nr ! strategy_index (so_strategy o') ! j) (updated_row job pressure o' nr ! j)
    else fp_le (updated_row job pressure o' nr ! j) (weights nr ! strategy_index (so_strategy o') ! j)"
proof -
  let ?row = "weights nr ! strategy_index (so_strategy o')" and ?f = "features_of nr job pressure ! j"
  let ?rate = "learning_rate (nconfig nr)"
  have "?row \<in> set (weights nr)" using assms strategy_index_less by (simp add: neural_ok_def matrix_ok_def)
  then have row: "length ?row = N_FEATURES" "rep_cell (?row ! j)"
    using assms by (auto simp: neural_ok_def matrix_ok_def list_all_length)
  have new: "updated_row job pressure o' nr ! j = update_cell ?rate (reward_of o') (?row ! j) ?f"
    using assms(2) row by (simp add: updated_row_def length_features)
  have "?rate = rnd64 (1 / 100)" by (rule neural_ok_config(1) [OF assms(1)])
  then obtain r where r: "f64_mul ?rate (reward_of o') = FFin r"
    "if reward_of o' = REWARD_WITHIN_BUDGET then 0 \<le> r else r \<le> 0"
    using learning_rate_reward_sign by blast
  have "?f = FNaN \<or> in_unit ?f"
    using feature_unit_or_NaN [OF assms(1)] assms(2) length_features by (metis nth_mem)
  then show ?thesis
  proof
    assume "?f = FNaN"
    then have "update_cell ?rate (reward_of o') (?row ! j) ?f = ?row ! j"
      unfolding update_cell_def r(1) by (simp add: fp_is_finite_def)
    then show ?thesis using row(2) unfolding new by (cases "?row ! j") (auto simp: rep_cell_def)
  next
    assume "in_unit ?f"
    then obtain q where q: "?f = FFin q" "0 \<le> q" by (auto elim: in_unitE)
    have "0 \<le> r \<longrightarrow> fp_le (FFin 0) (rnd64 (r * q))" "r \<le> 0 \<longrightarrow> fp_le (rnd64 (r * q)) (FFin 0)"
      using rnd64_mono [of 0 "r * q"] rnd64_mono [of "r * q" 0] q(2)
      by (auto simp: mult_nonpos_nonneg)
    then have sign: "0 \<le> r \<longrightarrow> fp_le (FFin 0) (f64_mul (f64_mul ?rate (reward_of o')) ?f)"
      "r \<le> 0 \<longrightarrow> fp_le (f64_mul (f64_mul ?rate (reward_of o')) ?f) (FFin 0)"
      by (simp_all only: r(1) q(1) f64_mul.simps)
    note dir = update_cell_direction [OF row(2), of ?rate "reward_of o'" ?f]
    show ?thesis
    proof (cases "reward_of o' = REWARD_WITHIN_BUDGET")
      case True
      then have "0 \<le> r" using r(2) by simp
      then show ?thesis unfolding new using dir(1) sign(1) by (subst if_P [OF True]) blast
    next
      case False
      then have "r \<le> 0" using r(2) by simp
      then show ?thesis unfolding new using dir(2) sign(2) by (subst if_not_P [OF False]) blast
    qed
  qed
qed

section \<open>Properties\<close>

text \<open>
  The learner picks Drop only when the pressure reaches the configured threshold, or, in
  an exploratory pick, when every other strategy's score is below minus ten.
\<close>

theorem drop_needs_pressure:
  assumes "neural_choose nr job pressure = Drop"
  shows "fp_le (drop_pressure_threshold (nconfig nr)) pressure
    \<or> fp_lt (explore_unit nr job) (nc_epsilon (nconfig nr))
      \<and> list_all (\<lambda>s. fp_lt s (FFin (- 10))) (take 4 (score_all nr job pressure))"
proof (rule ccontr)
  assume no: "\<not> ?thesis"
  let ?sc = "score_all nr job pressure"
  have na: "\<not> fp_le (drop_pressure_threshold (nconfig nr)) pressure" using no by blast
  show False
  proof (cases "fp_lt (explore_unit nr job) (nc_epsilon (nconfig nr))")
    case True
    then have "\<not> list_all (\<lambda>s. fp_lt s VERY_NEGATIVE_THRESHOLD) (take IDX_DROP ?sc)"
      using no by (simp add: IDX_DROP_def VERY_NEGATIVE_THRESHOLD_def)
    then have "neural_choose nr job pressure = index_to_strategy (explore_pick nr job IDX_DROP)"
      using na True by (simp add: neural_choose_def Let_def)
    then have "explore_pick nr job IDX_DROP = IDX_DROP" using assms index_to_strategy_Drop by metis
    then show False using explore_pick_less [of IDX_DROP nr job] by (simp add: IDX_DROP_def)
  next
    case False
    then have "greedy_index False ?sc = IDX_DROP"
      using assms na by (simp add: neural_choose_def Let_def index_to_strategy_Drop)
    moreover have "greedy_index False ?sc = IDX_DROP \<longrightarrow> False"
    proof (cases "0 < length ?sc")
      case True
      then show ?thesis using greedy_index_spec(3) [of 0 ?sc False] by (simp add: IDX_DROP_def)
    next
      case False
      then show ?thesis by (simp add: greedy_index_def IDX_DROP_def)
    qed
    ultimately show False by blast
  qed
qed

theorem drop_needs_pressure_witness:
  "neural_choose (neural_initial\<lparr>weights := [[FFin (- 1)], [FFin (- 1)], [FFin (- 1)], [FFin (- 1)], [FFin 1]]\<rparr>)
     (Job_default\<lparr>job_id := 5, compute_cost := 1000000\<rparr>) (FFin 1) = Drop
   \<and> fp_le (rnd64 (8 / 10)) (FFin 1)"
proof -
  let ?nr = "neural_initial\<lparr>weights := [[FFin (- 1)], [FFin (- 1)], [FFin (- 1)], [FFin (- 1)], [FFin 1]]\<rparr>"
  let ?job = "Job_default\<lparr>job_id := 5, compute_cost := 1000000\<rparr>"
  have eps: "explore_unit ?nr ?job = explore_unit neural_initial ?job" "nconfig ?nr = nconfig neural_initial"
    by (simp_all add: explore_unit_def)
  have e: "\<not> fp_lt (explore_unit ?nr ?job) (nc_epsilon (nconfig ?nr))"
    unfolding eps using job_5_exploits [of "Job_default\<lparr>compute_cost := 1000000\<rparr>"] by (simp add: Job_default_def)
  have f: "map2 f64_mul [w] (features_of ?nr ?job (FFin 1)) = [f64_mul w (FFin 1)]" for w
    by (simp add: features_of_def feature_vector_normalized_def Job_default_def neural_initial_config
        NeuralRouterConfig_default_def MAX_COMPUTE_COST_def f64_of_u64_def f64_of_nat_exact min_def)
  have "rnd64 (- 1) = FFin (- 1)" using rnd64_neg [of 1] by simp
  then have sc: "score_all ?nr ?job (FFin 1) = [FFin (- 1), FFin (- 1), FFin (- 1), FFin (- 1), FFin 1]"
    by (simp add: score_all_def dot7_def f)
  have "fp_le (rnd64 (8 / 10)) (rnd64 1)" by (rule rnd64_mono) simp
  then have p: "fp_le (drop_pressure_threshold (nconfig ?nr)) (FFin 1)" by (simp add: neural_initial_config NeuralRouterConfig_default_def)
  have d: "neural_choose ?nr ?job (FFin 1) = Drop"
    unfolding neural_choose_def Let_def sc using e p
    by (simp add: greedy_index_def greedy_step_def IDX_DROP_def index_to_strategy_def)
  from drop_needs_pressure [OF d] e have "fp_le (drop_pressure_threshold (nconfig ?nr)) (FFin 1)" by blast
  then show ?thesis using d by (simp add: neural_initial_config NeuralRouterConfig_default_def)
qed

text \<open>
  C27. When it does not explore, the learner chooses a strategy whose score no other
  strategy's score exceeds, Drop counting only when the pressure reaches the threshold; and it
  chooses Drop only then.
\<close>

theorem greedy_choice_maximal:
  assumes "neural_ok nr" and "\<not> fp_lt (explore_unit nr job) (nc_epsilon (nconfig nr))"
  shows "(t = Drop \<and> \<not> fp_le (drop_pressure_threshold (nconfig nr)) pressure
    \<or> \<not> fp_lt (score_all nr job pressure ! strategy_index (neural_choose nr job pressure))
              (score_all nr job pressure ! strategy_index t))
    \<and> (neural_choose nr job pressure \<noteq> Drop \<or> fp_le (drop_pressure_threshold (nconfig nr)) pressure)"
proof -
  let ?sc = "score_all nr job pressure"
  let ?allowed = "fp_le (drop_pressure_threshold (nconfig nr)) pressure"
  have len: "length ?sc = 5"
    using assms(1) by (simp add: score_all_def neural_ok_def matrix_ok_def N_STRATEGIES_def)
  have c: "neural_choose nr job pressure = index_to_strategy (greedy_index ?allowed ?sc)"
    using assms(2) by (simp add: neural_choose_def Let_def)
  have idx: "strategy_index t < length ?sc" "strategy_index t = IDX_DROP \<longleftrightarrow> t = Drop" for t
    using strategy_index_less [of t] len by (simp_all add: N_STRATEGIES_def, cases t, simp_all add: strategy_index_def IDX_DROP_def)
  have "greedy_index ?allowed ?sc = IDX_DROP \<longrightarrow> ?allowed"
    using greedy_index_spec(3) [of 0 ?sc ?allowed] len by (simp add: IDX_DROP_def)
  then have drop: "neural_choose nr job pressure \<noteq> Drop \<or> ?allowed" by (auto simp: c index_to_strategy_Drop)
  have "t = Drop \<and> \<not> ?allowed \<or> (strategy_index t = IDX_DROP \<longrightarrow> ?allowed)" using idx(2) by blast
  then show ?thesis
  proof
    assume ok: "strategy_index t = IDX_DROP \<longrightarrow> ?allowed"
    have "greedy_index ?allowed ?sc < 5" using greedy_index_spec(2) [OF idx(1) ok] len by simp
    then show ?thesis using greedy_index_spec(1) [OF idx(1) ok] drop by (simp add: c strategy_index_of_index)
  qed (use drop in blast)
qed

theorem greedy_choice_maximal_witness:
  "\<not> fp_lt (score_all neural_initial (Job_default\<lparr>job_id := 5\<rparr>) (FFin 0) !
             strategy_index (neural_choose neural_initial (Job_default\<lparr>job_id := 5\<rparr>) (FFin 0)))
           (score_all neural_initial (Job_default\<lparr>job_id := 5\<rparr>) (FFin 0) ! strategy_index Batch)"
proof -
  have "\<not> fp_lt (explore_unit neural_initial (Job_default\<lparr>job_id := 5\<rparr>)) (nc_epsilon (nconfig neural_initial))"
    using job_5_exploits [of Job_default] by simp
  from greedy_choice_maximal [OF neural_ok_initial this, of Batch "FFin 0"] show ?thesis by simp
qed

text \<open>
  C20. Whatever outcomes are reported to the learner a router starts with, its matrix stays
  5 by 7 and free of NaN, the exploration rate stays between 0.01 and 0.1, the strategies'
  counts add up to the number of outcomes reported, and the sample count is ten more: the warm
  start credits ten samples that were never recorded, against the documentation of the counter.
\<close>

lemma neural_initial_counts: "sum_list (per_strategy_counts neural_initial) = 0"
  by (simp add: neural_initial_def neural_new_def warm_start_from_heuristics_def N_STRATEGIES_def sum_list_replicate)

lemma neural_counts:
  "neural_ok nr \<Longrightarrow> sum_list (per_strategy_counts (fold neural_step outcomes nr)) =
     sum_list (per_strategy_counts nr) + of_nat (length outcomes)
   \<and> sample_count (fold neural_step outcomes nr) = sample_count nr + of_nat (length outcomes)"
proof (induction outcomes arbitrary: nr)
  case (Cons x outcomes)
  obtain job pressure o' where x: "x = (job, pressure, o')" by (cases x)
  have ok: "neural_ok (neural_step x nr)" using neural.run_inv [OF Cons.prems, of "[x]"] by simp
  have "strategy_index (so_strategy o') < length (per_strategy_counts nr)"
    using Cons.prems strategy_index_less [of "so_strategy o'"] by (simp add: neural_ok_def)
  then have "sum_list (per_strategy_counts (neural_step x nr)) = sum_list (per_strategy_counts nr) + 1"
    "sample_count (neural_step x nr) = sample_count nr + 1"
    by (simp_all add: x neural_step_def record_outcome_def Let_def sum_list_increment)
  then show ?case using Cons.IH [OF ok] by (simp add: algebra_simps)
qed simp

theorem learner_stays_well_formed:
  "let nr = fold neural_step outcomes neural_initial in
     map length (weights nr) = [7, 7, 7, 7, 7] \<and> list_all (list_all (\<lambda>w. w \<noteq> FNaN)) (weights nr)
   \<and> fp_le (rnd64 (1 / 100)) (nc_epsilon (nconfig nr)) \<and> fp_le (nc_epsilon (nconfig nr)) (rnd64 (1 / 10))
   \<and> sum_list (per_strategy_counts nr) = of_nat (length outcomes)
   \<and> sample_count nr = of_nat (length outcomes) + 10"
proof -
  let ?nr = "fold neural_step outcomes neural_initial"
  have n: "sum_list (per_strategy_counts ?nr) = of_nat (length outcomes)"
    using neural_counts [OF neural_ok_initial, of outcomes] by (simp add: neural_initial_counts)
  have ok: "neural_ok ?nr" by (rule neural.run_inv [OF neural_ok_initial])
  then have m: "matrix_ok (weights ?nr)" by (simp add: neural_ok_def)
  then have "map length (weights ?nr) = replicate 5 7"
    by (intro replicate_eqI) (auto simp: matrix_ok_def N_STRATEGIES_def N_FEATURES_def)
  moreover have "list_all (list_all (\<lambda>w. w \<noteq> FNaN)) (weights ?nr)"
    using m by (auto simp: matrix_ok_def list_all_iff dest: rep_cell_not_NaN)
  ultimately show ?thesis using ok n by (simp add: neural_ok_def epsilon_ok_def numeral_eq_Suc)
qed

text \<open>
  An outcome changes only the row of the strategy it reports, and moves every weight of
  that row with the reward: not down for a job within budget, not up for a job that was
  dropped or over budget. Jobs with features that are not numbers leave weights unchanged.
\<close>

theorem learning_follows_reward:
  assumes "neural_ok nr" and "j < 7"
  shows "let old = weights nr; new = weights (record_outcome job pressure o' nr);
             s = strategy_index (so_strategy o')
    in (i = s \<or> new ! i = old ! i)
     \<and> (if \<not> so_dropped o' \<and> so_latency_ms o' \<le> so_budget_ms o'
        then fp_le (old ! s ! j) (new ! s ! j) else fp_le (new ! s ! j) (old ! s ! j))"
proof -
  let ?s = "strategy_index (so_strategy o')"
  have w: "(\<not> so_dropped o' \<and> so_latency_ms o' \<le> so_budget_ms o') \<longleftrightarrow> reward_of o' = REWARD_WITHIN_BUDGET"
    by (simp add: reward_of_def REWARD_WITHIN_BUDGET_def REWARD_OVER_BUDGET_def REWARD_DROPPED_def)
  have s: "?s < length (weights nr)" using assms(1) strategy_index_less by (simp add: neural_ok_def matrix_ok_def)
  then have row: "weights nr ! ?s \<in> set (weights nr)" by simp
  then have "rep_cell (weights nr ! ?s ! j)"
    using assms by (auto simp: neural_ok_def matrix_ok_def list_all_length N_FEATURES_def)
  then have refl: "fp_le (weights nr ! ?s ! j) (weights nr ! ?s ! j)"
    by (cases "weights nr ! ?s ! j") (auto simp: rep_cell_def)
  show ?thesis
    using refl s updated_row_direction [OF assms(1), of j o' job pressure] assms(2)
    unfolding w Let_def record_outcome_weights
    by (cases "i = strategy_index (so_strategy o')") (auto simp: N_FEATURES_def)
qed

theorem learning_follows_reward_witness:
  "fp_le (weights neural_initial ! 0 ! 1)
     (weights (record_outcome Job_default (FFin 0)
        \<lparr>so_strategy = Inline, so_latency_ms = 1, so_budget_ms = 5, so_dropped = False\<rparr> neural_initial) ! 0 ! 1)"
  using learning_follows_reward [OF neural_ok_initial, where j = 1 and i = 0 and job = Job_default
      and pressure = "FFin 0" and o' =
      "\<lparr>so_strategy = Inline, so_latency_ms = 1, so_budget_ms = 5, so_dropped = False\<rparr>"]
  by (simp add: Let_def strategy_index_def)


end
