(* ===== verification/Metrics.thy ===== *)
theory Metrics
  imports Types "HOL-Library.Char_ord" "HOL-Library.List_Lexorder" "HOL-Library.Multiset"
begin

text \<open>
  Latency aggregation and pressure scoring (\<open>src/metrics.rs\<close>): running average, window of
  the last samples, percentiles computed on demand, the composite pressure score and the
  text exported to Prometheus. Formatting of \<open>f64\<close> with a fixed number of decimals is a
  parameter. The lemmas show that moving averages and scores stay in the unit interval and
  that the window, the extremes and the percentiles agree with the recorded history.
\<close>

section \<open>Latency aggregation\<close>

definition LATENCY_WINDOW_SIZE :: nat where
  "LATENCY_WINDOW_SIZE = 512"

record LatencyAgg =
  la_count :: u64
  sum_ms :: f64
  ema_ms :: f64
  samples_ms :: "u64 list"
  p50_ms :: u64
  p95_ms :: u64
  p99_ms :: u64
  min_ms :: u64
  max_ms :: u64
  dirty :: bool

definition LatencyAgg_default :: LatencyAgg where
  "LatencyAgg_default = \<lparr>la_count = 0, sum_ms = FFin 0, ema_ms = FFin 0, samples_ms = [],
     p50_ms = 0, p95_ms = 0, p99_ms = 0, min_ms = 0, max_ms = 0, dirty = False\<rparr>"

text \<open>A ring buffer that forgets its oldest element when full (\<open>pop_front\<close>, \<open>push_back\<close>).\<close>

definition push_window :: "nat \<Rightarrow> 'a \<Rightarrow> 'a list \<Rightarrow> 'a list" where
  "push_window cap x xs = (if cap \<le> length xs then tl xs else xs) @ [x]"

definition latency_record :: "u64 \<Rightarrow> f64 \<Rightarrow> LatencyAgg \<Rightarrow> LatencyAgg" where
  "latency_record ms alpha a =
    (let n = la_count a + 1
     in a\<lparr>la_count := n,
          sum_ms := f64_add (sum_ms a) (f64_of_u64 ms),
          ema_ms := (if n = 1 then f64_of_u64 ms
            else f64_add (f64_mul alpha (f64_of_u64 ms)) (f64_mul (f64_sub (FFin 1) alpha) (ema_ms a))),
          samples_ms := push_window LATENCY_WINDOW_SIZE ms (samples_ms a),
          min_ms := (if n = 1 then ms else if ms < min_ms a then ms else min_ms a),
          max_ms := (if n = 1 then ms else if max_ms a < ms then ms else max_ms a),
          dirty := True\<rparr>)"

text \<open>Nearest rank: index \<open>floor((n - 1) * q)\<close>, kept in range.\<close>

definition percentile_from_sorted :: "u64 list \<Rightarrow> f64 \<Rightarrow> u64" where
  "percentile_from_sorted srt q =
    (if srt = [] then 0
     else let n = length srt;
              idx = unat (f64_to_u64 (f64_floor (f64_mul (f64_of_nat (n - 1)) q)));
              idx = min idx (n - 1)
          in srt ! idx)"

definition calc_percentile :: "u64 list \<Rightarrow> f64 \<Rightarrow> u64" where
  "calc_percentile samples q =
    (if samples = [] then 0 else percentile_from_sorted (sort samples) q)"

definition calc_p95 :: "u64 list \<Rightarrow> u64" where
  "calc_p95 samples = calc_percentile samples (rnd64 (95 / 100))"

definition sync_percentiles :: "LatencyAgg \<Rightarrow> LatencyAgg" where
  "sync_percentiles a =
    (if \<not> dirty a then a
     else let srt = sort (samples_ms a)
          in a\<lparr>p50_ms := percentile_from_sorted srt (rnd64 (50 / 100)),
               p95_ms := percentile_from_sorted srt (rnd64 (95 / 100)),
               p99_ms := percentile_from_sorted srt (rnd64 (99 / 100)),
               dirty := False\<rparr>)"

definition avg_ms :: "LatencyAgg \<Rightarrow> f64" where
  "avg_ms a = (if la_count a = 0 then FFin 0 else f64_div (sum_ms a) (f64_of_u64 (la_count a)))"

section \<open>Pressure\<close>

definition PRESSURE_WEIGHT_PRIMARY_UTIL :: f64 where
  "PRESSURE_WEIGHT_PRIMARY_UTIL = rnd64 (40 / 100)"

definition PRESSURE_WEIGHT_QUEUE_FILL :: f64 where
  "PRESSURE_WEIGHT_QUEUE_FILL = rnd64 (30 / 100)"

definition PRESSURE_WEIGHT_DROP_RATE :: f64 where
  "PRESSURE_WEIGHT_DROP_RATE = rnd64 (20 / 100)"

definition PRESSURE_WEIGHT_SMOOTHED_TREND :: f64 where
  "PRESSURE_WEIGHT_SMOOTHED_TREND = rnd64 (10 / 100)"

text \<open>The weighted sum both scores share, in the order the code adds the terms.\<close>

definition weighted_pressure :: "f64 \<Rightarrow> f64 \<Rightarrow> f64 \<Rightarrow> f64 \<Rightarrow> f64" where
  "weighted_pressure a b c d =
     f64_clamp
       (f64_add (f64_add (f64_add
          (f64_mul PRESSURE_WEIGHT_PRIMARY_UTIL a)
          (f64_mul PRESSURE_WEIGHT_QUEUE_FILL b))
          (f64_mul PRESSURE_WEIGHT_DROP_RATE c))
          (f64_mul PRESSURE_WEIGHT_SMOOTHED_TREND d))
       (FFin 0) (FFin 1)"

definition pressure_score :: "usize \<Rightarrow> usize \<Rightarrow> usize \<Rightarrow> usize \<Rightarrow> f64 \<Rightarrow> f64 \<Rightarrow> f64" where
  "pressure_score cpu_busy cpu_par queue_depth queue_cap drop_rate_pct latency_trend =
    (let cpu_frac = (if cpu_par = 0 then FFin 0 else f64_div (f64_of_u64 cpu_busy) (f64_of_u64 cpu_par));
         queue_frac = (if queue_cap = 0 then FFin 0
                       else f64_div (f64_of_u64 queue_depth) (f64_of_u64 queue_cap));
         drop_frac = f64_clamp (f64_div drop_rate_pct (FFin 100)) (FFin 0) (FFin 1);
         trend_frac = f64_clamp latency_trend (FFin 0) (FFin 1)
     in weighted_pressure cpu_frac queue_frac drop_frac trend_frac)"

record PressureTracker =
  queue_frac_ema :: f64
  drop_rate_ema :: f64
  lat_frac_ema :: f64
  pt_alpha :: f64

definition pressure_new :: "f64 \<Rightarrow> PressureTracker" where
  "pressure_new alpha =
     \<lparr>queue_frac_ema = FFin 0, drop_rate_ema = FFin 0, lat_frac_ema = FFin 0, pt_alpha = alpha\<rparr>"

definition ema_step :: "f64 \<Rightarrow> f64 \<Rightarrow> f64 \<Rightarrow> f64" where
  "ema_step a x e = f64_add (f64_mul a x) (f64_mul (f64_sub (FFin 1) a) e)"

definition pressure_record :: "f64 \<Rightarrow> bool \<Rightarrow> f64 \<Rightarrow> PressureTracker \<Rightarrow> PressureTracker" where
  "pressure_record queue_frac was_dropped lat_frac t =
    (let a = (if fp_lt (FFin 0) (pt_alpha t) then pt_alpha t else rnd64 (15 / 100))
     in t\<lparr>queue_frac_ema := ema_step a (f64_clamp queue_frac (FFin 0) (FFin 1)) (queue_frac_ema t),
          drop_rate_ema := ema_step a (if was_dropped then FFin 1 else FFin 0) (drop_rate_ema t),
          lat_frac_ema := ema_step a (f64_clamp lat_frac (FFin 0) (FFin 1)) (lat_frac_ema t)\<rparr>)"

definition score :: "f64 \<Rightarrow> PressureTracker \<Rightarrow> f64" where
  "score current_queue_frac t =
    (let qf = (if fp_lt (FFin 0) current_queue_frac then current_queue_frac else queue_frac_ema t)
     in weighted_pressure qf (drop_rate_ema t) (lat_frac_ema t) (queue_frac_ema t))"

section \<open>The store\<close>

record MetricsStore =
  latency :: "(Strategy, LatencyAgg) hashmap"
  tracker :: PressureTracker
  ms_alpha :: f64

definition metrics_new :: "f64 \<Rightarrow> MetricsStore" where
  "metrics_new alpha = \<lparr>latency = [], tracker = pressure_new alpha, ms_alpha = alpha\<rparr>"

definition record_latency :: "Strategy \<Rightarrow> u64 \<Rightarrow> MetricsStore \<Rightarrow> MetricsStore" where
  "record_latency s ms m =
    (let agg = (case hm_get (latency m) s of Some a \<Rightarrow> a | None \<Rightarrow> LatencyAgg_default)
     in m\<lparr>latency := hm_insert s (latency_record ms (ms_alpha m) agg) (latency m)\<rparr>)"

record LatencySummary =
  ls_strategy :: Strategy
  ls_count :: u64
  ls_avg_ms :: f64
  ls_ema_ms :: f64
  ls_p50_ms :: u64
  ls_p95_ms :: u64
  ls_p99_ms :: u64
  ls_min_ms :: u64
  ls_max_ms :: u64

definition summary_of :: "Strategy \<Rightarrow> LatencyAgg \<Rightarrow> LatencySummary" where
  "summary_of s agg =
    (let agg = sync_percentiles agg
     in \<lparr>ls_strategy = s, ls_count = la_count agg, ls_avg_ms = avg_ms agg, ls_ema_ms = ema_ms agg,
         ls_p50_ms = p50_ms agg, ls_p95_ms = p95_ms agg, ls_p99_ms = p99_ms agg,
         ls_min_ms = min_ms agg, ls_max_ms = max_ms agg\<rparr>)"

definition latency_summaries :: "MetricsStore \<Rightarrow> LatencySummary list \<times> MetricsStore" where
  "latency_summaries m =
    (sort_key (\<lambda>r. Strategy_to_string (ls_strategy r)) (map (\<lambda>(s, agg). summary_of s agg) (latency m)),
     m\<lparr>latency := hm_map_values sync_percentiles (latency m)\<rparr>)"

section \<open>Prometheus text\<close>

record NeuralMetrics =
  nm_sample_count :: u64
  nm_avg_reward :: f64
  nm_epsilon :: f64
  nm_is_warmed_up :: bool

definition u64_to_string :: "u64 \<Rightarrow> string" where
  "u64_to_string w = nat_to_string (unat w)"

definition nl :: string where
  "nl = [char_of (10 :: nat)]"

definition quoted :: "string \<Rightarrow> string" where
  "quoted s = [char_of (34 :: nat)] @ s @ [char_of (34 :: nat)]"

definition latency_lines :: "(nat \<Rightarrow> f64 \<Rightarrow> string) \<Rightarrow> LatencySummary \<Rightarrow> string" where
  "latency_lines fmt s =
    (let label = ''{strategy='' @ quoted (Strategy_to_string (ls_strategy s)) @ ''} ''
     in ''helix_latency_p50_ms'' @ label @ u64_to_string (ls_p50_ms s) @ nl
      @ ''helix_latency_p95_ms'' @ label @ u64_to_string (ls_p95_ms s) @ nl
      @ ''helix_latency_p99_ms'' @ label @ u64_to_string (ls_p99_ms s) @ nl
      @ ''helix_latency_ema_ms'' @ label @ fmt 3 (ls_ema_ms s) @ nl
      @ ''helix_latency_min_ms'' @ label @ u64_to_string (ls_min_ms s) @ nl
      @ ''helix_latency_max_ms'' @ label @ u64_to_string (ls_max_ms s) @ nl)"

definition neural_lines :: "(nat \<Rightarrow> f64 \<Rightarrow> string) \<Rightarrow> NeuralMetrics \<Rightarrow> string" where
  "neural_lines fmt n =
     ''# TYPE helix_neural_sample_count counter'' @ nl
   @ ''helix_neural_sample_count '' @ u64_to_string (nm_sample_count n) @ nl
   @ ''# TYPE helix_neural_avg_reward gauge'' @ nl
   @ ''helix_neural_avg_reward '' @ fmt 6 (nm_avg_reward n) @ nl
   @ ''# TYPE helix_neural_epsilon gauge'' @ nl
   @ ''helix_neural_epsilon '' @ fmt 6 (nm_epsilon n) @ nl
   @ ''# TYPE helix_neural_is_warmed_up gauge'' @ nl
   @ ''helix_neural_is_warmed_up '' @ (if nm_is_warmed_up n then ''1'' else ''0'') @ nl"

definition prometheus_text_with_neural ::
  "(nat \<Rightarrow> f64 \<Rightarrow> string) \<Rightarrow> u64 \<Rightarrow> u64 \<Rightarrow> (Strategy, u64) hashmap \<Rightarrow> LatencySummary list
     \<Rightarrow> NeuralMetrics option \<Rightarrow> string" where
  "prometheus_text_with_neural fmt completed dropped routed summaries neural =
     ''# TYPE helix_completed counter'' @ nl
   @ ''helix_completed '' @ u64_to_string completed @ nl
   @ ''# TYPE helix_dropped counter'' @ nl
   @ ''helix_dropped '' @ u64_to_string dropped @ nl
   @ ''# TYPE helix_routed counter'' @ nl
   @ concat (map (\<lambda>(s, v). ''helix_routed{strategy='' @ quoted (Strategy_to_string s) @ ''} ''
                              @ u64_to_string v @ nl)
       (sort_key (\<lambda>(s, v). Strategy_to_string s) routed))
   @ ''# TYPE helix_latency_p50_ms gauge'' @ nl
   @ ''# TYPE helix_latency_p95_ms gauge'' @ nl
   @ ''# TYPE helix_latency_p99_ms gauge'' @ nl
   @ ''# TYPE helix_latency_min_ms gauge'' @ nl
   @ ''# TYPE helix_latency_max_ms gauge'' @ nl
   @ concat (map (latency_lines fmt)
       (sort_key (\<lambda>s. Strategy_to_string (ls_strategy s)) summaries))
   @ (case neural of Some n \<Rightarrow> neural_lines fmt n | None \<Rightarrow> [])"

definition prometheus_text ::
  "(nat \<Rightarrow> f64 \<Rightarrow> string) \<Rightarrow> u64 \<Rightarrow> u64 \<Rightarrow> (Strategy, u64) hashmap \<Rightarrow> LatencySummary list \<Rightarrow> string" where
  "prometheus_text fmt completed dropped routed summaries =
     prometheus_text_with_neural fmt completed dropped routed summaries None"

section \<open>Lemmas: the sample window\<close>

lemma push_window_drop:
  "0 < n \<Longrightarrow> push_window n x (drop (length xs - n) xs) = drop (length (xs @ [x]) - n) (xs @ [x])"
proof -
  assume n: "0 < n"
  show ?thesis
  proof (cases "n \<le> length xs")
    case True
    then have "length (xs @ [x]) - n = Suc (length xs - n)" by simp
    moreover have "tl (drop (length xs - n) xs) = drop (Suc (length xs - n)) xs"
      by (simp add: drop_Suc tl_drop)
    ultimately show ?thesis using True n by (simp add: push_window_def)
  qed (simp add: push_window_def)
qed

lemma length_push_window: "length xs \<le> n \<Longrightarrow> 0 < n \<Longrightarrow> length (push_window n x xs) \<le> n"
  by (auto simp: push_window_def)

definition recorded :: "f64 \<Rightarrow> u64 list \<Rightarrow> LatencyAgg" where
  "recorded alpha xs = fold (\<lambda>ms. latency_record ms alpha) xs LatencyAgg_default"

lemma recorded_snoc: "recorded alpha (xs @ [x]) = latency_record x alpha (recorded alpha xs)"
  by (simp add: recorded_def)

lemma recorded_basic:
  "la_count (recorded alpha xs) = of_nat (length xs)
   \<and> samples_ms (recorded alpha xs) = drop (length xs - LATENCY_WINDOW_SIZE) xs
   \<and> dirty (recorded alpha xs) = (xs \<noteq> [])"
proof (induction xs rule: rev_induct)
  case (snoc x xs)
  then show ?case
    using push_window_drop [of LATENCY_WINDOW_SIZE x xs]
    by (simp add: recorded_snoc latency_record_def Let_def LATENCY_WINDOW_SIZE_def)
qed (simp add: recorded_def LatencyAgg_default_def)

lemma recorded_extremes:
  "xs \<noteq> [] \<Longrightarrow> length xs < 2 ^ 64 \<Longrightarrow>
     min_ms (recorded alpha xs) = Min (set xs) \<and> max_ms (recorded alpha xs) = Max (set xs)"
proof (induction xs rule: rev_induct)
  case (snoc x xs)
  show ?case
  proof (cases "xs = []")
    case True
    then show ?thesis by (simp add: recorded_def latency_record_def LatencyAgg_default_def)
  next
    case False
    have u: "unat (of_nat (length xs + 1) :: u64) = length xs + 1"
      by (rule unat_of_nat_small) (use snoc.prems in simp)
    have "of_nat (length xs) + 1 \<noteq> (1 :: u64)"
    proof
      assume "of_nat (length xs) + 1 = (1 :: u64)"
      then have "unat (of_nat (length xs + 1) :: u64) = unat (1 :: u64)"
        by (simp only: of_nat_add of_nat_1)
      then show False using u False by (simp only: unat_1) simp
    qed
    then have step:
      "min_ms (recorded alpha (xs @ [x])) = (if x < min_ms (recorded alpha xs) then x else min_ms (recorded alpha xs))"
      "max_ms (recorded alpha (xs @ [x])) = (if max_ms (recorded alpha xs) < x then x else max_ms (recorded alpha xs))"
      using recorded_basic [of alpha xs] by (simp_all add: recorded_snoc latency_record_def Let_def)
    have "Min (set (xs @ [x])) = min x (Min (set xs))" "Max (set (xs @ [x])) = max x (Max (set xs))"
      using False by simp_all
    moreover have "length xs < 2 ^ 64" using snoc.prems by simp
    then have "min_ms (recorded alpha xs) = Min (set xs)" "max_ms (recorded alpha xs) = Max (set xs)"
      using snoc.IH False by simp_all
    ultimately show ?thesis unfolding step by (auto simp only: min_def max_def split: if_splits)
  qed
qed simp

section \<open>Lemmas: percentiles\<close>

lemma f64_mul_nonneg_mono:
  "0 \<le> k \<Longrightarrow> a \<le> b \<Longrightarrow> fp_le (f64_mul (FFin k) (FFin a)) (f64_mul (FFin k) (FFin b))"
  by (simp add: rnd64_mono mult_left_mono)

lemma f64_floor_mono: "fp_le x y \<Longrightarrow> fp_le (f64_floor x) (f64_floor y)"
  by (cases x; cases y) (auto simp: f64_floor_def floor_mono)

lemma percentile_in_set: "xs \<noteq> [] \<Longrightarrow> percentile_from_sorted xs q \<in> set xs"
proof -
  assume "xs \<noteq> []"
  then have "min i (length xs - 1) < length xs" for i by (cases xs) auto
  then show ?thesis using \<open>xs \<noteq> []\<close> by (simp add: percentile_from_sorted_def Let_def del: min_less_iff_conj)
qed

lemma percentile_mono:
  assumes "sorted xs" "length xs < 2 ^ 53" "a \<le> b"
  shows "percentile_from_sorted xs (FFin a) \<le> percentile_from_sorted xs (FFin b)"
proof (cases "xs = []")
  case False
  define n where "n = length xs - 1"
  have n: "n < 2 ^ 53" "n < length xs" using assms(2) False by (auto simp: n_def)
  let ?i = "\<lambda>q. min (unat (f64_to_u64 (f64_floor (f64_mul (FFin (of_nat n)) (FFin q))))) n"
  have "f64_to_u64 (f64_floor (f64_mul (FFin (of_nat n)) (FFin a)))
      \<le> f64_to_u64 (f64_floor (f64_mul (FFin (of_nat n)) (FFin b)))"
    by (intro f64_to_u64_mono f64_floor_mono f64_mul_nonneg_mono assms) simp
  then have "?i a \<le> ?i b" by (auto simp: word_le_nat_alt)
  moreover have "?i b < length xs" using n by simp
  ultimately have "xs ! ?i a \<le> xs ! ?i b" by (rule sorted_nth_mono [OF assms(1)])
  then show ?thesis using False f64_of_nat_exact [OF n(1)]
    by (simp add: percentile_from_sorted_def Let_def n_def)
qed (simp add: percentile_from_sorted_def)

lemma quantiles_ordered:
  obtains a b c where "rnd64 (50 / 100) = FFin a" "rnd64 (95 / 100) = FFin b" "rnd64 (99 / 100) = FFin c"
    "a \<le> b" "b \<le> c"
proof -
  obtain a where a: "rnd64 (50 / 100) = FFin a" by (rule rnd64_unit [of "50 / 100"]) auto
  obtain b where b: "rnd64 (95 / 100) = FFin b" by (rule rnd64_unit [of "95 / 100"]) auto
  obtain c where c: "rnd64 (99 / 100) = FFin c" by (rule rnd64_unit [of "99 / 100"]) auto
  show thesis
    by (rule that [OF a b c]) (rule rnd64_le [OF a b], simp, rule rnd64_le [OF b c], simp)
qed

section \<open>Lemmas: pressure stays in the unit interval\<close>

lemma ema_step_unit:
  "a = FFin p \<Longrightarrow> 0 < p \<Longrightarrow> p \<le> 1 \<Longrightarrow> in_unit x \<Longrightarrow> in_unit e \<Longrightarrow> in_unit (ema_step a x e)"
  unfolding ema_step_def by (rule convex_in_unit)

lemma in_unit_not_NaN: "in_unit x \<Longrightarrow> x \<noteq> FNaN"
  by (auto simp: in_unit_def)

lemma nonneg_add: "fp_le (FFin 0) a \<Longrightarrow> fp_le (FFin 0) b \<Longrightarrow> fp_le (FFin 0) (f64_add a b)"
  using rnd64_mono [of 0] by (cases a; cases b) auto

lemma nonneg_mul: "0 < w \<Longrightarrow> fp_le (FFin 0) a \<Longrightarrow> fp_le (FFin 0) (f64_mul (FFin w) a)"
  using rnd64_mono [of 0] by (cases a) auto

lemma pressure_weights_pos:
  "\<exists>w. PRESSURE_WEIGHT_PRIMARY_UTIL = FFin w \<and> 0 < w"
  "\<exists>w. PRESSURE_WEIGHT_QUEUE_FILL = FFin w \<and> 0 < w"
  "\<exists>w. PRESSURE_WEIGHT_DROP_RATE = FFin w \<and> 0 < w"
  "\<exists>w. PRESSURE_WEIGHT_SMOOTHED_TREND = FFin w \<and> 0 < w"
proof -
  have pos: "\<exists>w. rnd64 q = FFin w \<and> 0 < w" if q: "pow2 (- 4) \<le> q" "q \<le> 1" for q
  proof -
    have q0: "0 < q" using q(1) pow2_pos [of "- 4"] by linarith
    have "- 1022 \<le> flog2 q"
    proof -
      have "pow2 (- 4) < pow2 (flog2 q + 1)" using flog2_bounds [OF q0] q(1) by linarith
      then show ?thesis by (simp add: pow2_less_iff)
    qed
    then have "fexp (- 1022) q - int 53 + 1 \<le> - 4" using fexp_le_0 [OF q0 q(2)] by simp
    then have "pow2 (- 4) \<le> round_pos 53 (- 1022) q" by (rule round_pos_ge_pow2 [OF q0 q(1)])
    then have "0 < round_pos 53 (- 1022) q" using pow2_pos [of "- 4"] by linarith
    moreover have "rnd64 q = FFin (round_pos 53 (- 1022) q)"
      by (rule rnd64_pos [OF q0]) (use round_pos_unit [OF q0 q(2)] in \<open>simp add: pow2_def\<close>)
    ultimately show ?thesis by blast
  qed
  have "pow2 (- 4) = 1 / 16" by (simp add: pow2_def)
  then show "\<exists>w. PRESSURE_WEIGHT_PRIMARY_UTIL = FFin w \<and> 0 < w"
    "\<exists>w. PRESSURE_WEIGHT_QUEUE_FILL = FFin w \<and> 0 < w"
    "\<exists>w. PRESSURE_WEIGHT_DROP_RATE = FFin w \<and> 0 < w"
    "\<exists>w. PRESSURE_WEIGHT_SMOOTHED_TREND = FFin w \<and> 0 < w"
    unfolding PRESSURE_WEIGHT_PRIMARY_UTIL_def PRESSURE_WEIGHT_QUEUE_FILL_def
      PRESSURE_WEIGHT_DROP_RATE_def PRESSURE_WEIGHT_SMOOTHED_TREND_def
    by (auto intro!: pos)
qed

lemma weighted_pressure_unit:
  assumes "fp_le (FFin 0) a" "fp_le (FFin 0) b" "fp_le (FFin 0) c" "fp_le (FFin 0) d"
  shows "in_unit (weighted_pressure a b c d)"
proof -
  have mul: "fp_le (FFin 0) (f64_mul c y)" if "\<exists>w. c = FFin w \<and> 0 < w" "fp_le (FFin 0) y" for c y
    using that nonneg_mul by blast
  have "fp_le (FFin 0) (f64_add (f64_add (f64_add
          (f64_mul PRESSURE_WEIGHT_PRIMARY_UTIL a)
          (f64_mul PRESSURE_WEIGHT_QUEUE_FILL b))
          (f64_mul PRESSURE_WEIGHT_DROP_RATE c))
          (f64_mul PRESSURE_WEIGHT_SMOOTHED_TREND d))"
    by (intro nonneg_add mul pressure_weights_pos assms)
  then show ?thesis unfolding weighted_pressure_def by (rule in_unit_clamp [OF conjunct2 [OF fp_le_notNaN]])
qed

definition tracker_ok :: "PressureTracker \<Rightarrow> bool" where
  "tracker_ok t = (in_unit (queue_frac_ema t) \<and> in_unit (drop_rate_ema t) \<and> in_unit (lat_frac_ema t)
     \<and> in_unit (pt_alpha t))"

lemma tracker_ok_new: "in_unit alpha \<Longrightarrow> tracker_ok (pressure_new alpha)"
  by (simp add: tracker_ok_def pressure_new_def)

lemma tracker_ok_record:
  assumes t: "tracker_ok t" and "qf \<noteq> FNaN" and "lf \<noteq> FNaN"
  shows "tracker_ok (pressure_record qf d lf t)"
proof -
  obtain r where r: "rnd64 (15 / 100) = FFin r" "0 < r" "r \<le> 1"
  proof -
    have "rnd64 (15 / 100) = FFin (5404319552844595 / 36028797018963968)"
      using rnd64_eval [of "- 3" "15 / 100"] rne_eqI [of "27021597764222976 / 5" 5404319552844595]
      by (simp add: pow2_def)
    then show thesis by (rule that) simp_all
  qed
  let ?a = "if fp_lt (FFin 0) (pt_alpha t) then pt_alpha t else rnd64 (15 / 100)"
  obtain p where p: "?a = FFin p" "0 < p" "p \<le> 1"
  proof (cases "fp_lt (FFin 0) (pt_alpha t)")
    case True
    obtain q where "pt_alpha t = FFin q" "0 \<le> q" "q \<le> 1"
      using t by (auto simp: tracker_ok_def elim: in_unitE)
    with True show thesis by (intro that [of q]) auto
  qed (use r in \<open>intro that [of r], auto\<close>)
  have "in_unit (f64_clamp qf (FFin 0) (FFin 1))" "in_unit (f64_clamp lf (FFin 0) (FFin 1))"
    using assms by (simp_all add: in_unit_clamp)
  then show ?thesis using t ema_step_unit [OF p]
    by (simp add: tracker_ok_def pressure_record_def Let_def)
qed

lemma score_unit:
  assumes "tracker_ok t"
  shows "in_unit (score qf t)"
proof -
  have nn: "fp_le (FFin 0) x" if "in_unit x" for x using that by (auto elim: in_unitE)
  have "fp_le (FFin 0) qf" if "fp_lt (FFin 0) qf" using that by (cases qf) auto
  then show ?thesis using assms nn unfolding score_def Let_def
    by (intro weighted_pressure_unit) (auto simp: tracker_ok_def)
qed

section \<open>Lemmas: sorting by a key that no two elements share\<close>

lemma sort_key_perm:
  assumes "mset xs = mset ys" "distinct (map f xs)"
  shows "sort_key f xs = sort_key f ys"
proof -
  have s: "set xs = set ys" using assms(1) by (rule mset_eq_setD)
  have d: "distinct (map f ys)"
    using assms by (metis mset_eq_imp_distinct_iff mset_map)
  have "map f (sort_key f xs) = map f (sort_key f ys)"
  proof (rule sorted_distinct_set_unique)
    show "distinct (map f (sort_key f xs))" "distinct (map f (sort_key f ys))"
      using assms(2) d by (metis distinct_map distinct_sort set_sort)+
  qed (simp_all add: s)
  then show ?thesis
  proof (rule map_inj_on)
    show "inj_on f (set (sort_key f xs) \<union> set (sort_key f ys))"
      using assms(2) s by (simp add: distinct_map)
  qed
qed

lemma Strategy_to_string_inj: "Strategy_to_string s = Strategy_to_string t \<longleftrightarrow> s = t"
  by (cases s; cases t) simp_all

lemma distinct_strategy_names:
  "hm_wf m \<Longrightarrow> distinct (map (\<lambda>(s, v). Strategy_to_string s) m)"
proof -
  assume "hm_wf m"
  then have "distinct (map Strategy_to_string (map fst m))"
    by (simp only: distinct_map [of Strategy_to_string]) (auto simp: hm_wf_def inj_on_def Strategy_to_string_inj)
  then show ?thesis by (simp add: comp_def case_prod_unfold)
qed

section \<open>Properties\<close>

text \<open>
  After any nonempty history of latencies, the aggregate counts it, its window is the
  last 512 samples, minimum and maximum are those of the whole history, and the percentiles
  computed on demand are samples ordered between them.
\<close>

theorem latency_agg_describes_history:
  assumes "xs \<noteq> []" and "length xs < 2 ^ 64"
    and "a = sync_percentiles (fold (\<lambda>ms. latency_record ms alpha) xs LatencyAgg_default)"
  shows "unat (la_count a) = length xs \<and> samples_ms a = drop (length xs - 512) xs
    \<and> min_ms a = Min (set xs) \<and> max_ms a = Max (set xs)
    \<and> {p50_ms a, p95_ms a, p99_ms a} \<subseteq> set (samples_ms a)
    \<and> min_ms a \<le> p50_ms a \<and> p50_ms a \<le> p95_ms a \<and> p95_ms a \<le> p99_ms a \<and> p99_ms a \<le> max_ms a"
proof -
  let ?r = "recorded alpha xs" and ?w = "drop (length xs - 512) xs"
  have a: "a = sync_percentiles ?r" using assms(3) by (simp add: recorded_def)
  have b: "la_count ?r = of_nat (length xs)" "samples_ms ?r = ?w" "dirty ?r"
    using recorded_basic [of alpha xs] assms(1) by (simp_all add: LATENCY_WINDOW_SIZE_def)
  have e: "min_ms ?r = Min (set xs)" "max_ms ?r = Max (set xs)"
    using recorded_extremes [OF assms(1,2)] by simp_all
  have w: "sort ?w \<noteq> []" "length (sort ?w) < 2 ^ 53" 
  proof -
    show "length (sort ?w) < 2 ^ 53" by simp
    have "set (sort ?w) \<noteq> {}" using assms(1) by (cases xs) simp_all
    then show "sort ?w \<noteq> []" by (metis set_empty)
  qed
  obtain p q r where pqr: "rnd64 (50 / 100) = FFin p" "rnd64 (95 / 100) = FFin q" "rnd64 (99 / 100) = FFin r"
    "p \<le> q" "q \<le> r" by (rule quantiles_ordered)
  have fields: "samples_ms a = ?w" "min_ms a = Min (set xs)" "max_ms a = Max (set xs)"
    "la_count a = of_nat (length xs)"
    "p50_ms a = percentile_from_sorted (sort ?w) (FFin p)"
    "p95_ms a = percentile_from_sorted (sort ?w) (FFin q)"
    "p99_ms a = percentile_from_sorted (sort ?w) (FFin r)"
    using b e pqr(1-3) by (simp_all add: a sync_percentiles_def Let_def)
  have in_w: "{p50_ms a, p95_ms a, p99_ms a} \<subseteq> set ?w"
    using percentile_in_set [OF w(1)] by (simp add: fields(5-7))
  have "set ?w \<subseteq> set xs" by (rule set_drop_subset)
  then have "min_ms a \<le> p50_ms a" "p99_ms a \<le> max_ms a"
    using in_w by (auto simp: fields(2,3) intro!: Min_le Max_ge)
  moreover have "p50_ms a \<le> p95_ms a" "p95_ms a \<le> p99_ms a"
    unfolding fields(5-7) using percentile_mono w(2) pqr(4,5) sorted_sort by blast+
  ultimately show ?thesis using in_w fields(1-4) assms(2)
    by (simp add: unat_of_nat_small)
qed

theorem latency_agg_describes_history_witness:
  "max_ms (sync_percentiles (fold (\<lambda>ms. latency_record ms (FFin (1 / 4))) [30, 10, 20] LatencyAgg_default)) = 30
   \<and> p99_ms (sync_percentiles (fold (\<lambda>ms. latency_record ms (FFin (1 / 4))) [30, 10, 20] LatencyAgg_default)) \<le> 30"
proof -
  let ?xs = "[30, 10, 20] :: u64 list"
  let ?a = "sync_percentiles (fold (\<lambda>ms. latency_record ms (FFin (1 / 4))) ?xs LatencyAgg_default)"
  have "?xs \<noteq> []" "length ?xs < 2 ^ 64" by simp_all
  from latency_agg_describes_history [OF this refl, of "FFin (1 / 4)"]
  have "max_ms ?a = Max (set ?xs)" "p99_ms ?a \<le> max_ms ?a" by blast+
  moreover have "Max (set ?xs) = 30" by simp
  ultimately show ?thesis by (simp only: simp_thms)
qed

text \<open>
  With a smoothing factor in (0, 1], the pressure score stays in [0, 1] and is never
  NaN: after every sequence of observations without NaN, and whatever the current queue
  fraction is, infinite or NaN included.
\<close>

theorem pressure_score_in_unit:
  assumes "alpha = FFin p" and "0 < p" and "p \<le> 1"
    and "list_all (\<lambda>(qf, dropped, lf). qf \<noteq> FNaN \<and> lf \<noteq> FNaN) obs"
  shows "in_unit (score now (fold (\<lambda>(qf, dropped, lf). pressure_record qf dropped lf) obs (pressure_new alpha)))"
proof (rule score_unit)
  have "tracker_ok (fold (\<lambda>(qf, d, lf). pressure_record qf d lf) obs t)" if "tracker_ok t" for t
    using assms(4) that by (induction obs arbitrary: t) (auto simp: tracker_ok_record)
  then show "tracker_ok (fold (\<lambda>(qf, dropped, lf). pressure_record qf dropped lf) obs (pressure_new alpha))"
    using assms by (simp add: tracker_ok_new)
qed

theorem pressure_score_in_unit_witness:
  "in_unit (score (FInf False) (fold (\<lambda>(qf, dropped, lf). pressure_record qf dropped lf)
      [(FFin (- 3), True, FInf False), (FFin (1 / 2), False, FFin 0)] (pressure_new (FFin (1 / 8)))))"
  by (rule pressure_score_in_unit [where p = "1 / 8"]) simp_all

text \<open>
  The exported text does not depend on the iteration order of the counters' hash map:
  two maps with the same entries give the same text; neither does the list of summaries.
\<close>

theorem metrics_export_deterministic:
  assumes "hm_wf routed" and "mset routed = mset routed'"
    and "hm_wf (latency m)" and "mset (latency m) = mset (latency m')"
  shows "prometheus_text_with_neural fmt completed dropped routed ls neural =
         prometheus_text_with_neural fmt completed dropped routed' ls neural
    \<and> fst (latency_summaries m) = fst (latency_summaries m')"
proof
  have "sort_key (\<lambda>(s, v). Strategy_to_string s) routed = sort_key (\<lambda>(s, v). Strategy_to_string s) routed'"
    by (rule sort_key_perm [OF assms(2) distinct_strategy_names [OF assms(1)]])
  then show "prometheus_text_with_neural fmt completed dropped routed ls neural =
         prometheus_text_with_neural fmt completed dropped routed' ls neural"
    unfolding prometheus_text_with_neural_def by (rule arg_cong)
  let ?f = "\<lambda>(s, agg). summary_of s agg"
  have "mset (map ?f (latency m)) = mset (map ?f (latency m'))" using assms(4) by simp
  moreover have "map (\<lambda>r. Strategy_to_string (ls_strategy r)) (map ?f (latency m))
      = map (\<lambda>(s, v). Strategy_to_string s) (latency m)"
    by (auto simp: summary_of_def Let_def)
  then have "distinct (map (\<lambda>r. Strategy_to_string (ls_strategy r)) (map ?f (latency m)))"
    using distinct_strategy_names [OF assms(3)] by (simp only:)
  ultimately show "fst (latency_summaries m) = fst (latency_summaries m')"
    unfolding latency_summaries_def fst_conv by (rule sort_key_perm)
qed

theorem metrics_export_deterministic_witness:
  "prometheus_text_with_neural (\<lambda>_ _. ''0.0'') 3 0 [(Inline, 1), (Batch, 2)] [] None =
   prometheus_text_with_neural (\<lambda>_ _. ''0.0'') 3 0 [(Batch, 2), (Inline, 1)] [] None"
  using metrics_export_deterministic [of "[(Inline, 1), (Batch, 2)]" "[(Batch, 2), (Inline, 1)]"
      "metrics_new (FFin 1)" "metrics_new (FFin 1)" "\<lambda>_ _. ''0.0''" 3 0 "[]" None]
  by (simp add: hm_wf_def metrics_new_def)

end
