(* ===== verification/TimeoutMgr.thy ===== *)
theory TimeoutMgr
  imports Metrics
begin

text \<open>
  Adaptive timeouts per job kind (\<open>src/timeout_mgr.rs\<close>): a window of the last 100 latencies,
  a nearest-rank percentile, and a back-off factor that every timeout multiplies by 1.2.
  Durations are milliseconds. The lemmas bound every suggestion and show that a timeout
  never lowers the next suggestion.
\<close>

section \<open>State and operations\<close>

record LatencyObservation =
  lo_kind :: string
  lo_latency_ms :: u64
  lo_succeeded :: bool

record KindState =
  latencies :: "u64 list"
  timeout_count :: u64
  backoff_factor :: f64

definition KindState_new :: KindState where
  "KindState_new = \<lparr>latencies = [], timeout_count = 0, backoff_factor = FFin 1\<rparr>"

definition ks_push :: "u64 \<Rightarrow> KindState \<Rightarrow> KindState" where
  "ks_push ms s = s\<lparr>latencies := push_window 100 ms (latencies s)\<rparr>"

definition ks_percentile :: "f64 \<Rightarrow> KindState \<Rightarrow> u64" where
  "ks_percentile pct s =
    (if latencies s = [] then 0
     else let srt = sort (latencies s);
              n = length srt;
              rank = unat (f64_to_u64 (f64_ceil (f64_mul (f64_div pct (FFin 100)) (f64_of_nat n))))
          in srt ! (max 1 (min rank n) - 1))"

type_synonym TimeoutManager = "(string, KindState) hashmap"

definition kind_entry :: "string \<Rightarrow> TimeoutManager \<Rightarrow> KindState" where
  "kind_entry k m = (case hm_get m k of Some s \<Rightarrow> s | None \<Rightarrow> KindState_new)"

definition observe :: "LatencyObservation \<Rightarrow> TimeoutManager \<Rightarrow> TimeoutManager" where
  "observe obs m =
     hm_insert (lo_kind obs) (ks_push (lo_latency_ms obs) (kind_entry (lo_kind obs) m)) m"

definition suggest_timeout :: "string \<Rightarrow> TimeoutManager \<Rightarrow> u64" where
  "suggest_timeout k m =
    (case hm_get m k of
       None \<Rightarrow> 5000
     | Some s \<Rightarrow>
         if latencies s = [] then 5000
         else let p95_ms = ks_percentile (FFin 95) s;
                  adjusted = f64_to_u64 (f64_ceil (f64_mul (f64_of_u64 p95_ms) (backoff_factor s)))
              in max 1 (min adjusted 300000))"

definition mark_timeout :: "string \<Rightarrow> TimeoutManager \<Rightarrow> TimeoutManager" where
  "mark_timeout k m =
    (let s = kind_entry k m
     in hm_insert k (s\<lparr>timeout_count := timeout_count s + 1,
          backoff_factor := f64_mul (backoff_factor s) (rnd64 (120 / 100))\<rparr>) m)"

record TimeoutStats =
  ts_kind :: string
  ts_p50_ms :: u64
  ts_p95_ms :: u64
  ts_p99_ms :: u64
  ts_timeout_count :: u64
  ts_sample_count :: nat

definition timeout_stats :: "TimeoutManager \<Rightarrow> (string, TimeoutStats) hashmap" where
  "timeout_stats m = map (\<lambda>(k, s).
     (k, \<lparr>ts_kind = k, ts_p50_ms = ks_percentile (FFin 50) s, ts_p95_ms = ks_percentile (FFin 95) s,
          ts_p99_ms = ks_percentile (FFin 99) s, ts_timeout_count = timeout_count s,
          ts_sample_count = length (latencies s)\<rparr>)) m"

section \<open>The invariant\<close>

text \<open>The back-off factor is a value of the format, at least one; the window is bounded.\<close>

definition ks_ok :: "KindState \<Rightarrow> bool" where
  "ks_ok s = (rep_cell (backoff_factor s) \<and> fp_le (FFin 1) (backoff_factor s) \<and> length (latencies s) \<le> 100)"

definition tm_ok :: "TimeoutManager \<Rightarrow> bool" where
  "tm_ok m = (hm_wf m \<and> (\<forall>(k, s) \<in> set m. ks_ok s))"

lemma ks_ok_new: "ks_ok KindState_new"
  by (simp add: ks_ok_def KindState_new_def)

lemma tm_ok_entry: "tm_ok m \<Longrightarrow> ks_ok (kind_entry k m)"
  by (auto simp: tm_ok_def kind_entry_def ks_ok_new split: option.splits dest: hm_get_in_set)

lemma tm_ok_insert: "tm_ok m \<Longrightarrow> ks_ok s \<Longrightarrow> tm_ok (hm_insert k s m)"
proof -
  assume m: "tm_ok m" and s: "ks_ok s"
  have "ks_ok t" if "(j, t) \<in> set (hm_insert k s m)" for j t
  proof -
    have "hm_get (hm_insert k s m) j = Some t"
      using that m by (simp add: hm_get_eq_Some_iff tm_ok_def)
    then show ?thesis using m s
      by (auto simp: hm_get_insert tm_ok_def hm_get_eq_Some_iff split: if_splits)
  qed
  then show ?thesis using m by (auto simp: tm_ok_def)
qed

lemma rnd64_12: "rnd64 (120 / 100) = FFin (5404319552844595 / 4503599627370496)"
  using rnd64_eval [of 0 "120 / 100"] rne_eqI [of "27021597764222976 / 5" 5404319552844595]
  by (simp add: pow2_def)

lemma backoff_grows:
  assumes "rep_cell b" "fp_le (FFin 1) b"
  shows "rep_cell (f64_mul b (rnd64 (120 / 100))) \<and> fp_le b (f64_mul b (rnd64 (120 / 100)))"
proof (cases b)
  case (FFin q)
  then have q: "1 \<le> q" "rnd64 q = FFin q" using assms by (simp_all add: rep_cell_def)
  let ?c = "5404319552844595 / 4503599627370496 :: rat"
  have "fp_le (rnd64 q) (rnd64 (q * ?c))" by (rule rnd64_mono) (use q in simp)
  then show ?thesis unfolding rnd64_12 FFin f64_mul.simps using q by simp
next
  case (FInf s)
  then show ?thesis using assms unfolding rnd64_12 by (cases s) (simp_all add: rep_cell_def)
qed (use assms in simp)

lemma f64_of_u64_nonneg: "\<exists>a. f64_of_u64 w = FFin a \<and> 0 \<le> a"
proof -
  have "(of_nat (unat w) :: rat) \<le> 2 ^ 64"
    using of_nat_mono [OF less_imp_le [OF unsigned_less [of w, where ?'a = nat]], where ?'a = rat] by simp
  then have "fp_le (f64_of_u64 w) (rnd64 (2 ^ 64))"
    unfolding f64_of_u64_def f64_of_nat_def by (rule rnd64_mono)
  moreover have "rnd64 (2 ^ 64) = FFin (2 ^ 64)"
    using rnd64_eval [of 64 "2 ^ 64"] rne_of_int [of "2 ^ 52"] by (simp add: pow2_def)
  moreover have "fp_le (rnd64 0) (f64_of_u64 w)"
    unfolding f64_of_u64_def f64_of_nat_def
    by (rule rnd64_mono) (simp only: of_nat_0_le_iff)
  ultimately show ?thesis by (cases "f64_of_u64 w") auto
qed

lemma f64_ceil_mono: "fp_le x y \<Longrightarrow> fp_le (f64_ceil x) (f64_ceil y)"
  by (cases x; cases y) (auto simp: f64_ceil_def ceiling_mono)

lemma scaled_ceil_mono:
  assumes "fp_le b b'" "fp_le (FFin 1) b"
  shows "f64_to_u64 (f64_ceil (f64_mul (f64_of_u64 w) b)) \<le> f64_to_u64 (f64_ceil (f64_mul (f64_of_u64 w) b'))"
proof -
  obtain a where a: "f64_of_u64 w = FFin a" "0 \<le> a" using f64_of_u64_nonneg by blast
  show ?thesis
  proof (cases "a = 0")
    case True
    have "f64_to_u64 (f64_ceil (f64_mul (FFin 0) x)) = 0" for x
      by (cases x) (simp_all add: f64_ceil_def)
    then show ?thesis by (simp only: a True order_refl)
  next
    case False
    have "fp_le (f64_mul (FFin a) b) (f64_mul (FFin a) b')"
    proof (cases b; cases b')
      fix p q assume "b = FFin p" "b' = FFin q"
      then show ?thesis using assms a by (simp add: rnd64_mono mult_left_mono)
    next
      fix p s assume "b = FFin p" "b' = FInf s"
      then show ?thesis using assms a False by (cases "rnd64 (a * p)") (auto simp: rnd64_def)
    qed (use assms a False in auto)
    then show ?thesis unfolding a(1) by (intro f64_to_u64_mono f64_ceil_mono)
  qed
qed

datatype timeout_op = Observe LatencyObservation | MarkTimeout string

fun timeout_step :: "timeout_op \<Rightarrow> TimeoutManager \<Rightarrow> TimeoutManager" where
  "timeout_step (Observe obs) m = observe obs m"
| "timeout_step (MarkTimeout k) m = mark_timeout k m"

interpretation timeouts: stateful timeout_step tm_ok
proof
  fix m x assume m: "tm_ok m"
  show "tm_ok (timeout_step x m)"
  proof (cases x)
    case (Observe obs)
    have "ks_ok (ks_push w s)" if "ks_ok s" for w s
      using that length_push_window [of "latencies s" 100] by (simp add: ks_ok_def ks_push_def)
    then show ?thesis using m Observe by (simp add: observe_def tm_ok_insert tm_ok_entry)
  next
    case (MarkTimeout k)
    have "ks_ok (s\<lparr>timeout_count := n, backoff_factor := f64_mul (backoff_factor s) (rnd64 (120 / 100))\<rparr>)"
      if "ks_ok s" for s n
      using that backoff_grows [of "backoff_factor s"] fp_le_trans unfolding ks_ok_def by fastforce
    then show ?thesis using tm_ok_insert [OF m] tm_ok_entry [OF m, of k] MarkTimeout
      by (simp add: mark_timeout_def Let_def)
  qed
qed

section \<open>Properties\<close>

text \<open>
  Every suggested timeout is between 1 ms and 5 minutes, and it is 5 seconds for a kind
  without samples.
\<close>

theorem suggested_timeout_bounded:
  "1 \<le> suggest_timeout k m \<and> suggest_timeout k m \<le> 300000
   \<and> (if latencies (kind_entry k m) = [] then suggest_timeout k m = 5000 else True)"
  by (auto simp: suggest_timeout_def kind_entry_def KindState_new_def Let_def min_def max_def
      split: option.splits)

text \<open>
  In every reachable state, reporting a timeout never lowers the suggestion for a kind,
  and it leaves the suggestions for other kinds unchanged.
\<close>

theorem mark_timeout_raises_suggestion:
  assumes "m = fold timeout_step ops []"
  shows "suggest_timeout k m \<le> suggest_timeout k (mark_timeout k m)
    \<and> (k' = k \<or> suggest_timeout k' (mark_timeout k m) = suggest_timeout k' m)"
proof
  have ok: "tm_ok m" unfolding assms by (rule timeouts.run_inv) (simp add: tm_ok_def)
  show "k' = k \<or> suggest_timeout k' (mark_timeout k m) = suggest_timeout k' m"
    by (simp add: suggest_timeout_def mark_timeout_def Let_def hm_get_insert)
  show "suggest_timeout k m \<le> suggest_timeout k (mark_timeout k m)"
  proof (cases "hm_get m k")
    case None
    then show ?thesis
      by (simp add: suggest_timeout_def mark_timeout_def kind_entry_def Let_def hm_get_insert KindState_new_def)
  next
    case (Some s)
    have s: "ks_ok s" using tm_ok_entry [OF ok, of k] Some by (simp add: kind_entry_def)
    let ?b = "backoff_factor s" and ?p = "f64_of_u64 (ks_percentile (FFin 95) s)"
    let ?b' = "f64_mul ?b (rnd64 (120 / 100))"
    have b: "fp_le ?b ?b'" using s backoff_grows by (simp add: ks_ok_def)
    have pct: "ks_percentile (FFin 95) (s\<lparr>timeout_count := n, backoff_factor := x\<rparr>) = ks_percentile (FFin 95) s" for n x
      by (simp add: ks_percentile_def)
    have "f64_to_u64 (f64_ceil (f64_mul ?p ?b)) \<le> f64_to_u64 (f64_ceil (f64_mul ?p ?b'))"
      by (rule scaled_ceil_mono) (use b s in \<open>simp_all add: ks_ok_def\<close>)
    then show ?thesis
      by (simp add: suggest_timeout_def mark_timeout_def kind_entry_def Let_def hm_get_insert Some pct)
        (auto simp: min_def max_def)
  qed
qed

theorem mark_timeout_raises_suggestion_witness:
  "suggest_timeout ''a'' [] \<le> suggest_timeout ''a'' (mark_timeout ''a'' [])"
  using mark_timeout_raises_suggestion [of "[]" "[]" "''a''" "''a''"] by simp

end
