(* ===== verification/Tasks.thy ===== *)
theory Tasks
  imports Strategies
begin

text \<open>
  The work in flight inside the router (\<open>src/router.rs\<close>): the bounded channel to the CPU
  dispatcher, the item in the dispatcher's hand, the worker tasks and the semaphore they
  hold permits of, the batch buffers, the submissions that wait on a oneshot channel, and the
  replies that were sent but not received. A ticket identifies a oneshot channel: its sender
  travels with the work, its receiver is held by the waiting submission. The callers that await
  a spawned task, a permit or a closure of their own are here too, and every caller that
  awaits may go away. The step relation interleaves all of them; its invariant is proved by rule
  induction. Two fields are history, which no operation reads: \<open>panics\<close>, the tickets of the
  workers that panicked, and \<open>discarded\<close>, the number of items the dispatcher dropped when it left.
\<close>

section \<open>State\<close>

record CpuWork =
  cw_job :: Job
  cw_ticket :: nat

record BatchEntry =
  be_job :: Job
  be_ticket :: nat
  be_seq :: u64

text \<open>\<open>w_counted\<close>: the submission has passed the increment of the depth counter.\<close>

record Waiter =
  w_ticket :: nat
  w_job :: Job
  w_pressure :: f64
  w_strategy :: Strategy
  w_counted :: bool

text \<open>A submission that awaits the task it spawned.\<close>

record SpawnWait =
  sw_job :: Job
  sw_pressure :: f64
  sw_queue_frac :: f64

text \<open>A call of \<open>run\<close>. \<open>rt_caller\<close>: its caller still waits; a closure runs on without it.\<close>

record RunTask =
  rt_strategy :: Strategy
  rt_queue_frac :: f64
  rt_budget_ms :: u64
  rt_caller :: bool

text \<open>
  The calls of \<open>run\<close>: \<open>run_pending\<close> wait for a permit, \<open>run_tasks\<close> are closures that run on
  the pool with a permit, and \<open>run_waits\<close> are the callers that await a task without one: a
  spawned task, or a closure that has ended and returned its permit.
\<close>

record Tasks =
  cpu_cap :: nat
  cpu_queue :: "CpuWork list"
  cpu_open :: bool
  in_hand :: "CpuWork option"
  workers :: "CpuWork list"
  permits :: nat
  cpu_queue_depth :: u64
  batches :: "JobKind \<rightharpoonup> BatchEntry list"
  waiting :: "Waiter list"
  replies :: "(nat \<times> Output list) list"
  cancelled :: "nat list"
  spawn_waits :: "SpawnWait list"
  run_pending :: "RunTask list"
  run_tasks :: "RunTask list"
  run_waits :: "RunTask list"
  next_ticket :: nat
  panics :: "nat list"
  discarded :: nat

definition tasks_new :: "nat \<Rightarrow> nat \<Rightarrow> Tasks" where
  "tasks_new cap parallelism =
    \<lparr>cpu_cap = cap, cpu_queue = [], cpu_open = True, in_hand = None, workers = [],
     permits = parallelism, cpu_queue_depth = 0,
     batches = [HashMix \<mapsto> [], PrimeCount \<mapsto> [], MonteCarloRisk \<mapsto> []],
     waiting = [], replies = [], cancelled = [], spawn_waits = [], run_pending = [], run_tasks = [],
     run_waits = [], next_ticket = 0, panics = [], discarded = 0\<rparr>"

section \<open>Operations\<close>

text \<open>A send on a oneshot channel whose receiver is gone has no effect.\<close>

definition send_reply :: "nat \<Rightarrow> Output list \<Rightarrow> Tasks \<Rightarrow> Tasks" where
  "send_reply t out T =
    (if t \<in> w_ticket ` set (waiting T) then T\<lparr>replies := replies T @ [(t, out)]\<rparr> else T)"

definition can_send :: "Tasks \<Rightarrow> bool" where
  "can_send T = (cpu_open T \<and> length (cpu_queue T) < cpu_cap T)"

definition push_cpu :: "Job \<Rightarrow> f64 \<Rightarrow> Tasks \<Rightarrow> Tasks" where
  "push_cpu job p T =
     T\<lparr>cpu_queue := cpu_queue T @ [\<lparr>cw_job = job, cw_ticket = next_ticket T\<rparr>],
       waiting := waiting T @ [\<lparr>w_ticket = next_ticket T, w_job = job, w_pressure = p,
                                w_strategy = CpuPool, w_counted = False\<rparr>],
       next_ticket := next_ticket T + 1\<rparr>"

definition push_batch :: "Job \<Rightarrow> f64 \<Rightarrow> u64 \<Rightarrow> BatchEntry list \<Rightarrow> Tasks \<Rightarrow> Tasks" where
  "push_batch job p seq q T =
     T\<lparr>batches := (batches T)(kind job \<mapsto> q @ [\<lparr>be_job = job, be_ticket = next_ticket T, be_seq = seq\<rparr>]),
       waiting := waiting T @ [\<lparr>w_ticket = next_ticket T, w_job = job, w_pressure = p,
                                w_strategy = Batch, w_counted = True\<rparr>],
       next_ticket := next_ticket T + 1\<rparr>"

definition answer_entry :: "BatchEntry \<Rightarrow> Tasks \<Rightarrow> Tasks" where
  "answer_entry e T = send_reply (be_ticket e) (execute_job (be_job e)) T"

definition count_enqueued :: "nat \<Rightarrow> Tasks \<Rightarrow> Tasks" where
  "count_enqueued t T =
     T\<lparr>cpu_queue_depth := cpu_queue_depth T + 1,
       waiting := map (\<lambda>w. if w_ticket w = t then w\<lparr>w_counted := True\<rparr> else w) (waiting T)\<rparr>"

definition remove_waiter :: "nat \<Rightarrow> Tasks \<Rightarrow> Tasks" where
  "remove_waiter t T = T\<lparr>waiting := filter (\<lambda>w. w_ticket w \<noteq> t) (waiting T),
     replies := filter (\<lambda>r. fst r \<noteq> t) (replies T)\<rparr>"

definition set_cancelled :: "nat \<Rightarrow> Tasks \<Rightarrow> Tasks" where
  "set_cancelled t T = T\<lparr>cancelled := t # cancelled T\<rparr>"

text \<open>The dispatcher receives an item, waits for a permit, then starts a worker for it.\<close>

definition dispatcher_recv :: "Tasks \<Rightarrow> Tasks" where
  "dispatcher_recv T =
    (case cpu_queue T of
       w # q \<Rightarrow> T\<lparr>cpu_queue := q, in_hand := Some w\<rparr>
     | [] \<Rightarrow> T)"

definition dispatcher_start :: "CpuWork \<Rightarrow> Tasks \<Rightarrow> Tasks" where
  "dispatcher_start w T =
     T\<lparr>permits := permits T - 1, cpu_queue_depth := cpu_queue_depth T - 1, in_hand := None,
       workers := workers T @ [w]\<rparr>"

text \<open>On shutdown the dispatcher leaves and drops its end of the channel.\<close>

definition hand_list :: "Tasks \<Rightarrow> CpuWork list" where
  "hand_list T = (case in_hand T of Some w \<Rightarrow> [w] | None \<Rightarrow> [])"

definition dispatcher_exit :: "Tasks \<Rightarrow> Tasks" where
  "dispatcher_exit T = T\<lparr>cpu_open := False, cpu_queue := [], in_hand := None,
     discarded := discarded T + length (cpu_queue T) + length (hand_list T)\<rparr>"

text \<open>
  A worker that panicked, or that saw the cancellation flag of its job, replies with an
  empty vector; its permit is released after the reply.
\<close>

definition worker_output :: "bool \<Rightarrow> CpuWork \<Rightarrow> Tasks \<Rightarrow> Output list" where
  "worker_output panicked w T =
     (if panicked \<or> cw_ticket w \<in> set (cancelled T) then [] else execute_job (cw_job w))"

definition worker_reply :: "bool \<Rightarrow> CpuWork \<Rightarrow> Tasks \<Rightarrow> Tasks" where
  "worker_reply panicked w T =
    (let T = (if panicked then T\<lparr>panics := cw_ticket w # panics T\<rparr> else T);
         T = send_reply (cw_ticket w) (worker_output panicked w T) T
     in T\<lparr>workers := remove1 w (workers T), permits := permits T + 1\<rparr>)"

definition add_run :: "RunTask \<Rightarrow> Tasks \<Rightarrow> Tasks" where
  "add_run t T = T\<lparr>run_pending := run_pending T @ [t]\<rparr>"

definition acquire_run :: "RunTask \<Rightarrow> Tasks \<Rightarrow> Tasks" where
  "acquire_run t T = T\<lparr>permits := permits T - 1, run_pending := remove1 t (run_pending T),
     run_tasks := run_tasks T @ [t]\<rparr>"

text \<open>A closure ends, also by a panic: it drops its permit, and its caller, if any, can go on.\<close>

definition release_run :: "RunTask \<Rightarrow> Tasks \<Rightarrow> Tasks" where
  "release_run t T = T\<lparr>permits := permits T + 1, run_tasks := remove1 t (run_tasks T),
     run_waits := run_waits T @ (if rt_caller t then [t] else [])\<rparr>"

definition await_task :: "RunTask \<Rightarrow> Tasks \<Rightarrow> Tasks" where
  "await_task t T = T\<lparr>run_waits := run_waits T @ [t]\<rparr>"

definition resume_run :: "RunTask \<Rightarrow> Tasks \<Rightarrow> Tasks" where
  "resume_run t T = T\<lparr>run_waits := remove1 t (run_waits T)\<rparr>"

definition add_spawn :: "SpawnWait \<Rightarrow> Tasks \<Rightarrow> Tasks" where
  "add_spawn s T = T\<lparr>spawn_waits := spawn_waits T @ [s]\<rparr>"

definition remove_spawn :: "SpawnWait \<Rightarrow> Tasks \<Rightarrow> Tasks" where
  "remove_spawn s T = T\<lparr>spawn_waits := remove1 s (spawn_waits T)\<rparr>"

text \<open>
  A caller of \<open>run\<close> goes away: while it waits for a permit it leaves nothing behind, while
  its closure runs the closure keeps its permit to the end.
\<close>

definition abandon_pending :: "RunTask \<Rightarrow> Tasks \<Rightarrow> Tasks" where
  "abandon_pending t T = T\<lparr>run_pending := remove1 t (run_pending T)\<rparr>"

definition abandon_running :: "RunTask \<Rightarrow> Tasks \<Rightarrow> Tasks" where
  "abandon_running t T = T\<lparr>run_tasks := remove1 t (run_tasks T) @ [t\<lparr>rt_caller := False\<rparr>]\<rparr>"

section \<open>Steps\<close>

definition cpu_items :: "Tasks \<Rightarrow> CpuWork set" where
  "cpu_items T = set (cpu_queue T) \<union> set (hand_list T) \<union> set (workers T)"

definition batch_items :: "Tasks \<Rightarrow> BatchEntry set" where
  "batch_items T = {e. \<exists>k q. batches T k = Some q \<and> e \<in> set q}"

text \<open>The senders that still exist, and the replies under way.\<close>

definition live_tickets :: "Tasks \<Rightarrow> nat set" where
  "live_tickets T = cw_ticket ` cpu_items T \<union> be_ticket ` batch_items T \<union> fst ` set (replies T)"

inductive task_step :: "Tasks \<Rightarrow> Tasks \<Rightarrow> bool" where
  Push_cpu: "can_send T \<Longrightarrow> task_step T (push_cpu job p T)"
| Push_batch: "batches T (kind job) = Some q \<Longrightarrow> task_step T (push_batch job p seq q T)"
| Flush: "batches T k = Some q \<Longrightarrow> set batch \<subseteq> set q \<Longrightarrow>
    task_step T (fold answer_entry batch (T\<lparr>batches := (batches T)(k \<mapsto> drop n q)\<rparr>))"
| Count: "w \<in> set (waiting T) \<Longrightarrow> \<not> w_counted w \<Longrightarrow> task_step T (count_enqueued (w_ticket w) T)"
| Receive: "w \<in> set (waiting T) \<Longrightarrow> w_counted w \<Longrightarrow> task_step T (remove_waiter (w_ticket w) T)"
| Cancel: "w \<in> set (waiting T) \<Longrightarrow> w_counted w \<Longrightarrow> w_ticket w \<notin> live_tickets T \<Longrightarrow>
    task_step T (set_cancelled (w_ticket w) (remove_waiter (w_ticket w) T))"
| Dispatcher_recv: "cpu_open T \<Longrightarrow> in_hand T = None \<Longrightarrow> task_step T (dispatcher_recv T)"
| Dispatcher_start: "cpu_open T \<Longrightarrow> in_hand T = Some w \<Longrightarrow> 0 < permits T \<Longrightarrow>
    task_step T (dispatcher_start w T)"
| Dispatcher_exit: "cpu_open T \<Longrightarrow> task_step T (dispatcher_exit T)"
| Worker: "w \<in> set (workers T) \<Longrightarrow> task_step T (worker_reply panicked w T)"
| Add_run: "rt_caller t \<Longrightarrow> task_step T (add_run t T)"
| Acquire_run: "t \<in> set (run_pending T) \<Longrightarrow> 0 < permits T \<Longrightarrow> task_step T (acquire_run t T)"
| Release_run: "t \<in> set (run_tasks T) \<Longrightarrow> task_step T (release_run t T)"
| Await_task: "task_step T (await_task t T)"
| Resume_run: "task_step T (resume_run t T)"
| Add_spawn: "task_step T (add_spawn s T)"
| Remove_spawn: "task_step T (remove_spawn s T)"
| Abandon_pending: "task_step T (abandon_pending t T)"
| Abandon_running: "t \<in> set (run_tasks T) \<Longrightarrow> task_step T (abandon_running t T)"

inductive_cases task_stepE: "task_step T T'"

section \<open>The invariant\<close>

definition uncounted :: "Tasks \<Rightarrow> nat" where
  "uncounted T = length (filter (\<lambda>w. \<not> w_counted w) (waiting T))"

definition matches :: "Waiter \<Rightarrow> Tasks \<Rightarrow> bool" where
  "matches w T =
    ((\<forall>c \<in> cpu_items T. cw_ticket c = w_ticket w \<longrightarrow> cw_job c = w_job w \<and> w_strategy w = CpuPool)
   \<and> (\<forall>e \<in> batch_items T. be_ticket e = w_ticket w \<longrightarrow> be_job e = w_job w \<and> w_strategy w = Batch)
   \<and> (\<forall>(t, out) \<in> set (replies T). t = w_ticket w \<longrightarrow>
        out = execute_job (w_job w) \<or> w_strategy w = CpuPool \<and> out = [] \<and> t \<in> set (panics T)))"

definition pool_ok :: "nat \<Rightarrow> Tasks \<Rightarrow> bool" where
  "pool_ok P T = (permits T + length (workers T) + length (run_tasks T) = P
     \<and> length (cpu_queue T) \<le> cpu_cap T \<and> list_all rt_caller (run_pending T))"

definition depth_ok :: "Tasks \<Rightarrow> bool" where
  "depth_ok T = (cpu_queue_depth T + of_nat (uncounted T)
       = of_nat (length (cpu_queue T) + length (hand_list T) + discarded T)
     \<and> (discarded T = 0 \<or> \<not> cpu_open T))"

definition tickets_ok :: "Tasks \<Rightarrow> bool" where
  "tickets_ok T = (distinct (map w_ticket (waiting T))
     \<and> (\<forall>w \<in> set (waiting T). w_ticket w < next_ticket T \<and> matches w T)
     \<and> (\<forall>t \<in> live_tickets T \<union> set (cancelled T). t < next_ticket T)
     \<and> live_tickets T \<inter> set (cancelled T) = {})"

definition tasks_ok :: "nat \<Rightarrow> Tasks \<Rightarrow> bool" where
  "tasks_ok P T = (pool_ok P T \<and> depth_ok T \<and> tickets_ok T)"

lemma tasks_ok_new: "tasks_ok P (tasks_new cap P)"
  by (auto simp: tasks_ok_def pool_ok_def depth_ok_def tickets_ok_def tasks_new_def uncounted_def
      hand_list_def live_tickets_def cpu_items_def batch_items_def split: if_splits)

section \<open>Preservation\<close>

lemma send_reply_fields [simp]:
  "cpu_queue (send_reply t out T) = cpu_queue T" "cpu_open (send_reply t out T) = cpu_open T"
  "in_hand (send_reply t out T) = in_hand T" "workers (send_reply t out T) = workers T"
  "permits (send_reply t out T) = permits T" "cpu_cap (send_reply t out T) = cpu_cap T"
  "cpu_queue_depth (send_reply t out T) = cpu_queue_depth T"
  "batches (send_reply t out T) = batches T" "waiting (send_reply t out T) = waiting T"
  "cancelled (send_reply t out T) = cancelled T" "run_tasks (send_reply t out T) = run_tasks T"
  "run_pending (send_reply t out T) = run_pending T" "next_ticket (send_reply t out T) = next_ticket T"
  "hand_list (send_reply t out T) = hand_list T" "cpu_items (send_reply t out T) = cpu_items T"
  "panics (send_reply t out T) = panics T" "discarded (send_reply t out T) = discarded T"
  "spawn_waits (send_reply t out T) = spawn_waits T" "run_waits (send_reply t out T) = run_waits T"
  "batch_items (send_reply t out T) = batch_items T" "uncounted (send_reply t out T) = uncounted T"
  by (simp_all add: send_reply_def hand_list_def cpu_items_def batch_items_def uncounted_def)

lemma send_reply_replies: "set (replies (send_reply t out T)) \<subseteq> insert (t, out) (set (replies T))"
  by (auto simp: send_reply_def)

lemma tickets_ok_shrink:
  assumes T: "tickets_ok T"
    and "cpu_items T' \<subseteq> cpu_items T" "batch_items T' \<subseteq> batch_items T" "set (replies T') \<subseteq> set (replies T)"
    and "next_ticket T' = next_ticket T" "set (panics T) \<subseteq> set (panics T')" "distinct (map w_ticket (waiting T'))"
    and "\<And>w. w \<in> set (waiting T') \<Longrightarrow> \<exists>v \<in> set (waiting T). w_ticket v = w_ticket w \<and> w_job v = w_job w
           \<and> w_strategy v = w_strategy w"
    and "\<And>t. t \<in> set (cancelled T') \<Longrightarrow> t \<in> set (cancelled T) \<or> t < next_ticket T \<and> t \<notin> live_tickets T"
  shows "tickets_ok T'"
proof -
  have live: "live_tickets T' \<subseteq> live_tickets T" using assms(2-4) unfolding live_tickets_def by blast
  have "w_ticket w < next_ticket T' \<and> matches w T'" if w: "w \<in> set (waiting T')" for w
  proof -
    obtain v where v: "v \<in> set (waiting T)" "w_ticket v = w_ticket w" "w_job v = w_job w" "w_strategy v = w_strategy w"
      using assms(8) [OF w] by blast
    have "w_ticket v < next_ticket T" "matches v T" using T v(1) by (simp_all add: tickets_ok_def)
    moreover have "matches w T'" using \<open>matches v T\<close> assms(2-4,6) v(2-4) unfolding matches_def by fastforce
    ultimately show ?thesis using v(2) assms(5) by simp
  qed
  moreover have "t < next_ticket T'" if "t \<in> live_tickets T' \<union> set (cancelled T')" for t
    using that live assms(5,9) T unfolding tickets_ok_def by fastforce
  moreover have "live_tickets T' \<inter> set (cancelled T') = {}"
    using live assms(9) T unfolding tickets_ok_def by blast
  ultimately show ?thesis using assms(7) by (simp add: tickets_ok_def)
qed

lemma tickets_ok_send:
  assumes T: "tickets_ok T" and "t < next_ticket T" "t \<notin> set (cancelled T)"
    and "\<And>w. w \<in> set (waiting T) \<Longrightarrow> w_ticket w = t \<Longrightarrow>
           out = execute_job (w_job w) \<or> w_strategy w = CpuPool \<and> out = [] \<and> t \<in> set (panics T)"
  shows "tickets_ok (send_reply t out T)"
proof -
  have "matches w (send_reply t out T)" if w: "w \<in> set (waiting T)" for w
  proof -
    have "matches w T" using T w by (simp add: tickets_ok_def)
    then show ?thesis using assms(4) [OF w] send_reply_replies [of t out T]
      unfolding matches_def send_reply_fields by fastforce
  qed
  moreover have "live_tickets (send_reply t out T) \<subseteq> insert t (live_tickets T)"
    using send_reply_replies [of t out T] unfolding live_tickets_def by fastforce
  ultimately show ?thesis using T assms(2,3) unfolding tickets_ok_def send_reply_fields by blast
qed

definition answerable :: "BatchEntry \<Rightarrow> Tasks \<Rightarrow> bool" where
  "answerable e T = (be_ticket e < next_ticket T \<and> be_ticket e \<notin> set (cancelled T)
     \<and> (\<forall>w \<in> set (waiting T). w_ticket w = be_ticket e \<longrightarrow> be_job e = w_job w))"

lemma batch_item_answerable:
  assumes "tickets_ok T" "e \<in> batch_items T"
  shows "answerable e T"
proof -
  have "be_ticket e \<in> live_tickets T" using assms(2) by (simp add: live_tickets_def)
  then show ?thesis using assms unfolding tickets_ok_def answerable_def matches_def by fastforce
qed

lemma answer_entries_ok:
  "tickets_ok T \<Longrightarrow> \<forall>e \<in> set es. answerable e T \<Longrightarrow> tickets_ok (fold answer_entry es T)"
proof (induction es arbitrary: T)
  case (Cons e es)
  have "tickets_ok (answer_entry e T)" unfolding answer_entry_def
    by (rule tickets_ok_send) (use Cons.prems in \<open>auto simp: answerable_def\<close>)
  moreover have "\<forall>e' \<in> set es. answerable e' (answer_entry e T)"
    using Cons.prems by (simp add: answerable_def answer_entry_def)
  ultimately show ?case using Cons.IH by simp
qed simp

lemma fold_answer_fields [simp]:
  "cpu_queue (fold answer_entry es T) = cpu_queue T" "cpu_open (fold answer_entry es T) = cpu_open T"
  "workers (fold answer_entry es T) = workers T" "permits (fold answer_entry es T) = permits T"
  "cpu_cap (fold answer_entry es T) = cpu_cap T"
  "cpu_queue_depth (fold answer_entry es T) = cpu_queue_depth T" "waiting (fold answer_entry es T) = waiting T"
  "run_tasks (fold answer_entry es T) = run_tasks T" "hand_list (fold answer_entry es T) = hand_list T"
  "run_pending (fold answer_entry es T) = run_pending T" "batches (fold answer_entry es T) = batches T"
  "panics (fold answer_entry es T) = panics T" "discarded (fold answer_entry es T) = discarded T"
  "spawn_waits (fold answer_entry es T) = spawn_waits T" "run_waits (fold answer_entry es T) = run_waits T"
  "uncounted (fold answer_entry es T) = uncounted T" "in_hand (fold answer_entry es T) = in_hand T"
  by (induction es arbitrary: T) (simp_all add: answer_entry_def)

lemma tickets_ok_push:
  assumes T: "tickets_ok T" and w: "w_ticket w = next_ticket T"
    and "waiting T' = waiting T @ [w]" "next_ticket T' = next_ticket T + 1" "replies T' = replies T"
      "cancelled T' = cancelled T" "panics T' = panics T"
    and c: "\<And>c. c \<in> cpu_items T' \<Longrightarrow> c \<in> cpu_items T \<or>
        cw_ticket c = next_ticket T \<and> cw_job c = w_job w \<and> w_strategy w = CpuPool"
    and b: "\<And>e. e \<in> batch_items T' \<Longrightarrow> e \<in> batch_items T \<or>
        be_ticket e = next_ticket T \<and> be_job e = w_job w \<and> w_strategy w = Batch"
  shows "tickets_ok T'"
proof -
  have old: "t < next_ticket T" if "t \<in> live_tickets T \<union> set (cancelled T) \<union> w_ticket ` set (waiting T)" for t
    using T that unfolding tickets_ok_def by blast
  have live: "live_tickets T' \<subseteq> insert (next_ticket T) (live_tickets T)"
    using c b assms(5) unfolding live_tickets_def by fastforce
  have cpu_t: "cw_ticket c < next_ticket T" if "c \<in> cpu_items T" for c
    using old [of "cw_ticket c"] that by (simp add: live_tickets_def)
  have bat_t: "be_ticket e < next_ticket T" if "e \<in> batch_items T" for e
    using old [of "be_ticket e"] that by (simp add: live_tickets_def)
  have rep_t: "fst x < next_ticket T" if "x \<in> set (replies T)" for x
    using old [of "fst x"] that by (simp add: live_tickets_def)
  have "matches v T'" if v: "v \<in> set (waiting T)" for v
  proof -
    have lt: "w_ticket v < next_ticket T" and "matches v T" using T v by (simp_all add: tickets_ok_def)
    then show ?thesis using c b assms(5,7) unfolding matches_def by fastforce
  qed
  moreover have "matches w T'"
    using c b w cpu_t bat_t rep_t assms(5) unfolding matches_def by fastforce
  moreover have "distinct (map w_ticket (waiting T'))"
    using T old w unfolding assms(3) tickets_ok_def by auto
  moreover have "t < next_ticket T'" if t: "t \<in> live_tickets T' \<union> set (cancelled T')" for t
  proof -
    have "t = next_ticket T \<or> t \<in> live_tickets T \<union> set (cancelled T)" using t live assms(6) by auto
    then show ?thesis using old [of t] assms(4) by auto
  qed
  moreover have "w_ticket v < next_ticket T'" if "v \<in> set (waiting T')" for v
    using that old [of "w_ticket v"] w assms(3,4) by auto
  moreover have "live_tickets T' \<inter> set (cancelled T') = {}"
  proof -
    have "next_ticket T \<notin> set (cancelled T)" using old [of "next_ticket T"] by auto
    moreover have "live_tickets T \<inter> set (cancelled T) = {}" using T by (simp add: tickets_ok_def)
    ultimately show ?thesis using live unfolding assms(6) by blast
  qed
  ultimately show ?thesis unfolding tickets_ok_def assms(3) by simp
qed

lemma uncounted_after_count:
  assumes "distinct (map w_ticket ws)" "w \<in> set ws" "\<not> w_counted w"
  shows "Suc (length (filter (\<lambda>v. \<not> w_counted v) (map (\<lambda>v. if w_ticket v = w_ticket w then v\<lparr>w_counted := True\<rparr> else v) ws)))
    = length (filter (\<lambda>v. \<not> w_counted v) ws)"
  using assms
proof (induction ws)
  case (Cons v ws)
  show ?case
  proof (cases "v = w")
    case True
    then have "w_ticket w \<notin> w_ticket ` set ws" using Cons.prems(1) by simp
    then have "map (\<lambda>u. if w_ticket u = w_ticket w then u\<lparr>w_counted := True\<rparr> else u) ws = ws"
      by (intro map_idI) (metis image_eqI)
    then show ?thesis using True Cons.prems(3) by simp
  next
    case False
    then have "w_ticket v \<noteq> w_ticket w" using Cons.prems by auto
    then show ?thesis using Cons False by simp
  qed
qed simp

lemma uncounted_after_remove:
  assumes "distinct (map w_ticket ws)" "w \<in> set ws" "w_counted w"
  shows "filter (\<lambda>v. w_ticket v \<noteq> w_ticket w \<and> \<not> w_counted v) ws = filter (\<lambda>v. \<not> w_counted v) ws"
  using assms by (intro filter_cong) (auto simp: distinct_map inj_on_def)

lemma cpu_items_list: "cpu_items T = set (cpu_queue T @ hand_list T @ workers T)"
  by (auto simp: cpu_items_def)

lemmas run_step_defs = add_run_def acquire_run_def release_run_def await_task_def resume_run_def
  add_spawn_def remove_spawn_def abandon_pending_def abandon_running_def

theorem task_step_pool: "task_step T T' \<Longrightarrow> pool_ok P T \<Longrightarrow> pool_ok P T'"
  by (induction rule: task_step.induct)
    (auto simp: pool_ok_def push_cpu_def can_send_def push_batch_def count_enqueued_def remove_waiter_def
      set_cancelled_def dispatcher_recv_def dispatcher_start_def dispatcher_exit_def worker_reply_def
      Let_def run_step_defs length_remove1 list_all_iff split: list.splits
      dest: length_pos_if_in_set notin_set_remove1)

theorem task_step_depth: "task_step T T' \<Longrightarrow> tickets_ok T \<Longrightarrow> depth_ok T \<Longrightarrow> depth_ok T'"
proof (induction rule: task_step.induct)
  case (Count w T)
  have u: "Suc (uncounted (count_enqueued (w_ticket w) T)) = uncounted T"
    using uncounted_after_count [of "waiting T" w] Count
    by (simp add: uncounted_def count_enqueued_def tickets_ok_def)
  have "of_nat (uncounted T) = (of_nat (uncounted (count_enqueued (w_ticket w) T)) + 1 :: u64)"
    by (simp add: u [symmetric])
  then show ?case using Count
    by (simp add: depth_ok_def count_enqueued_def hand_list_def algebra_simps)
next
  case (Receive w T)
  then show ?case using uncounted_after_remove [of "waiting T" w]
    by (simp add: depth_ok_def remove_waiter_def uncounted_def hand_list_def tickets_ok_def)
next
  case (Cancel w T)
  then show ?case using uncounted_after_remove [of "waiting T" w]
    by (simp add: depth_ok_def remove_waiter_def set_cancelled_def uncounted_def hand_list_def tickets_ok_def)
next
  case (Dispatcher_recv T)
  then show ?case by (auto simp: depth_ok_def dispatcher_recv_def uncounted_def hand_list_def split: list.splits)
next
  case (Dispatcher_start T w)
  then show ?case by (simp add: depth_ok_def dispatcher_start_def uncounted_def hand_list_def algebra_simps)
qed (auto simp: depth_ok_def push_cpu_def push_batch_def hand_list_def uncounted_def
      dispatcher_exit_def worker_reply_def Let_def run_step_defs algebra_simps
    split: option.splits)

lemma worker_output_ok:
  assumes "tickets_ok T" "c \<in> cpu_items T" "w \<in> set (waiting T)" "w_ticket w = cw_ticket c"
  shows "worker_output panicked c T = execute_job (w_job w) \<or> w_strategy w = CpuPool \<and> worker_output panicked c T = [] \<and> panicked"
proof -
  have "matches w T" "cw_ticket c \<notin> set (cancelled T)"
    using assms by (auto simp: tickets_ok_def live_tickets_def)
  then show ?thesis using assms(2,4) by (auto simp: matches_def worker_output_def)
qed

theorem task_step_tickets: "task_step T T' \<Longrightarrow> tickets_ok T \<Longrightarrow> tickets_ok T'"
proof (induction rule: task_step.induct)
  case (Push_cpu T job p)
  show ?case
    by (rule tickets_ok_push [OF Push_cpu(2), where w = "\<lparr>w_ticket = next_ticket T, w_job = job, w_pressure = p,
          w_strategy = CpuPool, w_counted = False\<rparr>"])
      (auto simp: push_cpu_def cpu_items_def hand_list_def batch_items_def)
next
  case (Push_batch T job q p seq)
  show ?case
    by (rule tickets_ok_push [OF Push_batch(2), where w = "\<lparr>w_ticket = next_ticket T, w_job = job, w_pressure = p,
          w_strategy = Batch, w_counted = True\<rparr>"])
      (use Push_batch(1) in \<open>auto simp: push_batch_def cpu_items_def hand_list_def batch_items_def split: if_splits\<close>)
next
  case (Flush T k q batch n)
  let ?T = "T\<lparr>batches := (batches T)(k \<mapsto> drop n q)\<rparr>"
  have "tickets_ok ?T"
    by (rule tickets_ok_shrink [OF Flush(3)])
      (use Flush in \<open>auto simp: cpu_items_def hand_list_def batch_items_def tickets_ok_def dest: in_set_dropD split: if_splits\<close>)
  moreover have "answerable e ?T" if "e \<in> set batch" for e
  proof -
    have "e \<in> batch_items T" using that Flush(1,2) by (auto simp: batch_items_def)
    from batch_item_answerable [OF Flush(3) this] show ?thesis by (simp add: answerable_def)
  qed
  ultimately show ?case by (intro answer_entries_ok) auto
next
  case (Count w T)
  have "map w_ticket (waiting (count_enqueued (w_ticket w) T)) = map w_ticket (waiting T)"
    by (simp add: count_enqueued_def)
  then have d: "distinct (map w_ticket (waiting (count_enqueued (w_ticket w) T)))"
    using Count(3) by (simp only: tickets_ok_def)
  show ?case
    by (rule tickets_ok_shrink [OF Count(3) _ _ _ _ _ d])
      (use Count in \<open>auto simp: count_enqueued_def cpu_items_def hand_list_def batch_items_def\<close>)
next
  case (Receive w T)
  show ?case
    by (rule tickets_ok_shrink [OF Receive(3)])
      (use Receive in \<open>auto simp: remove_waiter_def cpu_items_def hand_list_def batch_items_def tickets_ok_def distinct_map_filter\<close>)
next
  case (Cancel w T)
  show ?case
    by (rule tickets_ok_shrink [OF Cancel(4)])
      (use Cancel in \<open>auto simp: set_cancelled_def remove_waiter_def cpu_items_def hand_list_def batch_items_def tickets_ok_def distinct_map_filter\<close>)
next
  case (Dispatcher_recv T)
  show ?case
    by (rule tickets_ok_shrink [OF Dispatcher_recv(3)])
      (use Dispatcher_recv in \<open>auto simp: dispatcher_recv_def cpu_items_def hand_list_def batch_items_def tickets_ok_def split: list.splits\<close>)
next
  case (Dispatcher_start T w)
  show ?case
    by (rule tickets_ok_shrink [OF Dispatcher_start(4)])
      (use Dispatcher_start in \<open>auto simp: dispatcher_start_def cpu_items_def hand_list_def batch_items_def tickets_ok_def\<close>)
next
  case (Dispatcher_exit T)
  show ?case
    by (rule tickets_ok_shrink [OF Dispatcher_exit(2)])
      (use Dispatcher_exit in \<open>auto simp: dispatcher_exit_def cpu_items_def hand_list_def batch_items_def tickets_ok_def\<close>)
next
  case (Worker w T panicked)
  have c: "w \<in> cpu_items T" using Worker(1) by (simp add: cpu_items_def)
  then have "cw_ticket w \<in> live_tickets T" by (simp add: live_tickets_def)
  then have t: "cw_ticket w < next_ticket T" "cw_ticket w \<notin> set (cancelled T)"
    using Worker(2) by (auto simp: tickets_ok_def)
  let ?T = "if panicked then T\<lparr>panics := cw_ticket w # panics T\<rparr> else T"
  have T: "tickets_ok ?T"
    by (rule tickets_ok_shrink [OF Worker(2)])
      (use Worker(2) in \<open>auto simp: cpu_items_def hand_list_def batch_items_def tickets_ok_def split: if_splits\<close>)
  have s: "waiting ?T = waiting T" "worker_output panicked w ?T = worker_output panicked w T"
    "next_ticket ?T = next_ticket T" "cancelled ?T = cancelled T" by (simp_all add: worker_output_def)
  have p: "panicked \<Longrightarrow> cw_ticket w \<in> set (panics ?T)" by simp
  have "tickets_ok (send_reply (cw_ticket w) (worker_output panicked w ?T) ?T)"
  proof (rule tickets_ok_send [OF T])
    show "cw_ticket w < next_ticket ?T" "cw_ticket w \<notin> set (cancelled ?T)" using t unfolding s by blast+
    fix v assume "v \<in> set (waiting ?T)" "w_ticket v = cw_ticket w"
    then show "worker_output panicked w ?T = execute_job (w_job v) \<or>
        w_strategy v = CpuPool \<and> worker_output panicked w ?T = [] \<and> cw_ticket w \<in> set (panics ?T)"
      using worker_output_ok [OF Worker(2) c, of v panicked] p unfolding s by blast
  qed
  then show ?case unfolding worker_reply_def Let_def
    by (rule tickets_ok_shrink)
      (use Worker(2) in \<open>auto simp: cpu_items_def hand_list_def batch_items_def tickets_ok_def
         split: if_splits dest: subsetD [OF set_remove1_subset]\<close>)
qed (simp_all add: run_step_defs tickets_ok_def matches_def live_tickets_def
      cpu_items_def hand_list_def batch_items_def)

text \<open>Everything at once, along any number of steps.\<close>

theorem tasks_invariant: "task_step\<^sup>*\<^sup>* T T' \<Longrightarrow> tasks_ok P T \<Longrightarrow> tasks_ok P T'"
proof (induction rule: rtranclp_induct)
  case (step T' T'')
  then show ?case
    using task_step_pool [of T' T'' P] task_step_depth [of T' T''] task_step_tickets [of T' T'']
    by (simp add: tasks_ok_def)
qed

lemma cancelled_never_seen:
  "tickets_ok T \<Longrightarrow> c \<in> cpu_items T \<Longrightarrow> cw_ticket c \<notin> set (cancelled T)"
  by (auto simp: tickets_ok_def live_tickets_def)

end
