(* ===== verification/Autoscaler.thy ===== *)
theory Autoscaler
  imports Floats
begin

text \<open>
  The predictive autoscaler (\<open>src/autoscaler.rs\<close>): a ring buffer of load observations, a moving
  average and variance of the job rate, a least-squares prediction of the rate, and the
  recommendation made from it. Formatting of \<open>f64\<close> in the reason is a parameter.
\<close>

section \<open>State\<close>

record LoadObservation =
  timestamp_secs :: u64
  lo_total_jobs :: u64
  lo_pressure :: f64
  lo_drop_rate :: f64

record AutoscalerConfig =
  ring_buffer_cap :: nat
  min_observations :: nat
  predict_horizon_secs :: u64
  high_pressure_threshold :: f64
  low_pressure_threshold :: f64
  high_load_fraction :: f64
  low_load_fraction :: f64
  max_parallelism :: usize
  min_parallelism :: usize
  max_queue_cap :: usize
  min_queue_cap :: usize

definition AutoscalerConfig_default :: AutoscalerConfig where
  "AutoscalerConfig_default = \<lparr>ring_buffer_cap = 60, min_observations = 5, predict_horizon_secs = 30,
     high_pressure_threshold = FFin (3 / 4), low_pressure_threshold = FFin (1 / 4),
     high_load_fraction = rnd64 (80 / 100), low_load_fraction = rnd64 (30 / 100),
     max_parallelism = 64, min_parallelism = 1, max_queue_cap = 4096, min_queue_cap = 16\<rparr>"

datatype ScaleDirection = Up | Down | Hold

record AutoscaleRecommendation =
  direction :: ScaleDirection
  recommended_parallelism :: usize
  recommended_queue_cap :: usize
  predicted_rate :: f64
  reason :: string

record Autoscaler =
  as_config :: AutoscalerConfig
  observations :: "LoadObservation list"
  rate_ema :: f64
  rate_variance :: f64

definition autoscaler_new :: "AutoscalerConfig \<Rightarrow> Autoscaler" where
  "autoscaler_new c = \<lparr>as_config = c, observations = [], rate_ema = FFin 0, rate_variance = FFin 0\<rparr>"

section \<open>Observing\<close>

definition RATE_EMA_ALPHA :: f64 where
  "RATE_EMA_ALPHA = rnd64 (20 / 100)"

definition instant_rate :: "LoadObservation \<Rightarrow> LoadObservation \<Rightarrow> f64" where
  "instant_rate prev obs =
     f64_div (f64_of_u64 (sat_sub (lo_total_jobs obs) (lo_total_jobs prev)))
       (f64_of_u64 (sat_sub (timestamp_secs obs) (timestamp_secs prev)))"

definition update_rate :: "f64 \<Rightarrow> Autoscaler \<Rightarrow> Autoscaler" where
  "update_rate inst a =
    (if rate_ema a = FFin 0 then a\<lparr>rate_ema := inst, rate_variance := rnd64 (1 / 100)\<rparr>
     else let diff = f64_sub inst (rate_ema a);
              keep = f64_sub (FFin 1) RATE_EMA_ALPHA
          in a\<lparr>rate_ema := f64_add (f64_mul RATE_EMA_ALPHA inst) (f64_mul keep (rate_ema a)),
               rate_variance := f64_mul keep
                 (f64_add (rate_variance a) (f64_mul (f64_mul RATE_EMA_ALPHA diff) diff))\<rparr>)"

definition push_observation :: "LoadObservation \<Rightarrow> Autoscaler \<Rightarrow> Autoscaler" where
  "push_observation obs a =
     a\<lparr>observations :=
        (if length (observations a) = ring_buffer_cap (as_config a) then tl (observations a) else observations a) @ [obs]\<rparr>"

definition as_observe :: "LoadObservation \<Rightarrow> Autoscaler \<Rightarrow> Autoscaler" where
  "as_observe obs a =
    (let a = (if observations a = [] then a
              else let prev = last (observations a)
                   in if 0 < sat_sub (timestamp_secs obs) (timestamp_secs prev)
                      then update_rate (instant_rate prev obs) a else a)
     in push_observation obs a)"

definition effective_horizon_secs :: "Autoscaler \<Rightarrow> f64" where
  "effective_horizon_secs a =
    (let base = f64_of_u64 (predict_horizon_secs (as_config a));
         cv = (if fp_lt (FFin 0) (rate_ema a) then f64_div (f64_sqrt (rate_variance a)) (rate_ema a) else FFin 0);
         factor = f64_max (f64_sub (FFin 1) (f64_mul (f64_min cv (FFin 1)) (FFin (1 / 2)))) (FFin (1 / 2))
     in f64_mul base factor)"

section \<open>Prediction\<close>

definition latest_observation :: "Autoscaler \<Rightarrow> LoadObservation option" where
  "latest_observation a = (if observations a = [] then None else Some (last (observations a)))"

text \<open>The points of the fit: the middle of each interval, and the rate over it.\<close>

fun rate_points :: "u64 \<Rightarrow> LoadObservation list \<Rightarrow> (f64 \<times> f64) list" where
  "rate_points first_ts (prev # cur # rest) =
    (let dt = sat_sub (timestamp_secs cur) (timestamp_secs prev) in
     if dt = 0 then rate_points first_ts (cur # rest)
     else (f64_of_u64 (sat_sub (sat_add (timestamp_secs prev) (dt div 2)) first_ts), instant_rate prev cur)
          # rate_points first_ts (cur # rest))"
| "rate_points first_ts _ = []"

definition f64_sum :: "f64 list \<Rightarrow> f64" where
  "f64_sum xs = fold (\<lambda>x acc. f64_add acc x) xs (FFin 0)"

definition f64_abs :: "f64 \<Rightarrow> f64" where
  "f64_abs x = (case x of FFin q \<Rightarrow> FFin \<bar>q\<bar> | FInf _ \<Rightarrow> FInf False | FNaN \<Rightarrow> FNaN)"

text \<open>Intercept and slope of the fit; \<open>None\<close> when the flat mean is not a number.\<close>

definition ols :: "(f64 \<times> f64) list \<Rightarrow> (f64 \<times> f64) option" where
  "ols points =
    (let n = f64_of_nat (length points);
         sum_x = f64_sum (map fst points);
         sum_y = f64_sum (map snd points);
         sum_xx = f64_sum (map (\<lambda>(x, y). f64_mul x x) points);
         sum_xy = f64_sum (map (\<lambda>(x, y). f64_mul x y) points);
         denom = f64_sub (f64_mul n sum_xx) (f64_mul sum_x sum_x)
     in if fp_lt (f64_abs denom) (FFin (1 / 2 ^ 52))
        then let mean = f64_div sum_y n in if fp_is_finite mean then Some (mean, FFin 0) else None
        else let slope = f64_div (f64_sub (f64_mul n sum_xy) (f64_mul sum_x sum_y)) denom;
                 intercept = f64_div (f64_sub sum_y (f64_mul slope sum_x)) n
             in Some (intercept, slope))"

definition predict_rate :: "Autoscaler \<Rightarrow> f64" where
  "predict_rate a =
    (if length (observations a) < 2 then FFin 0
     else let first_ts = timestamp_secs (hd (observations a));
              points = rate_points first_ts (observations a)
          in if points = [] then FFin 0
             else case ols points of
                    None \<Rightarrow> f64_max (rate_ema a) (FFin 0)
                  | Some (c, b) \<Rightarrow>
                      let last_elapsed = f64_of_u64 (sat_sub (timestamp_secs (last (observations a))) first_ts);
                          predict_at = f64_add last_elapsed (effective_horizon_secs a);
                          predicted = f64_add c (f64_mul b predict_at)
                      in if \<not> fp_is_finite predicted then f64_max (rate_ema a) (FFin 0)
                         else f64_max predicted (FFin 0))"

section \<open>Recommendation\<close>

definition usize_string :: "usize \<Rightarrow> string" where
  "usize_string w = nat_to_string (unat w)"

definition up_reason :: "(nat \<Rightarrow> f64 \<Rightarrow> string) \<Rightarrow> Autoscaler \<Rightarrow> bool \<Rightarrow> bool \<Rightarrow> f64 \<Rightarrow> f64 \<Rightarrow> usize \<Rightarrow> string" where
  "up_reason fmt a high_pressure high_load p rate cap =
    (if high_pressure \<and> high_load
     then ''high pressure ('' @ fmt 2 p @ '') and high predicted load ('' @ fmt 2 rate @ '' jobs/s vs cap ''
        @ usize_string cap @ '')''
     else if high_pressure
     then ''high pressure score ('' @ fmt 2 p @ '' > '' @ fmt 2 (high_pressure_threshold (as_config a)) @ '')''
     else ''high predicted load ('' @ fmt 2 rate @ '' jobs/s > ''
        @ fmt 0 (f64_mul (high_load_fraction (as_config a)) (FFin 100)) @ ''% of cap '' @ usize_string cap @ '')'')"

definition down_reason :: "(nat \<Rightarrow> f64 \<Rightarrow> string) \<Rightarrow> Autoscaler \<Rightarrow> f64 \<Rightarrow> f64 \<Rightarrow> usize \<Rightarrow> string" where
  "down_reason fmt a p rate cap =
     ''low pressure ('' @ fmt 2 p @ '' < '' @ fmt 2 (low_pressure_threshold (as_config a))
     @ '') and low predicted load ('' @ fmt 2 rate @ '' jobs/s < ''
     @ fmt 0 (f64_mul (low_load_fraction (as_config a)) (FFin 100)) @ ''% of cap '' @ usize_string cap @ '')''"

definition recommend ::
  "(nat \<Rightarrow> f64 \<Rightarrow> string) \<Rightarrow> usize \<Rightarrow> usize \<Rightarrow> Autoscaler \<Rightarrow> AutoscaleRecommendation option" where
  "recommend fmt current_parallelism current_queue_cap a =
    (if length (observations a) < min_observations (as_config a) then None
     else let c = as_config a;
              rate = predict_rate a;
              (current_pressure, current_drop_rate) =
                (case latest_observation a of Some ob \<Rightarrow> (lo_pressure ob, lo_drop_rate ob) | None \<Rightarrow> (FFin 0, FFin 0));
              p = f64_max current_pressure current_drop_rate;
              cap = f64_of_u64 current_queue_cap;
              high_load = fp_lt (f64_mul cap (high_load_fraction c)) rate;
              high_pressure = fp_lt (high_pressure_threshold c) p;
              low_load = fp_lt rate (f64_mul cap (low_load_fraction c));
              low_pressure = fp_lt p (low_pressure_threshold c)
          in if high_pressure \<or> high_load then
               Some \<lparr>direction = Up, recommended_parallelism = min (current_parallelism + 1) (max_parallelism c),
                 recommended_queue_cap = min (f64_to_u64 (f64_mul cap (FFin (5 / 4)))) (max_queue_cap c),
                 predicted_rate = rate, reason = up_reason fmt a high_pressure high_load p rate current_queue_cap\<rparr>
             else if low_pressure \<and> low_load then
               Some \<lparr>direction = Down,
                 recommended_parallelism = max (sat_sub current_parallelism 1) (min_parallelism c),
                 recommended_queue_cap = max (f64_to_u64 (f64_mul cap (rnd64 (80 / 100)))) (min_queue_cap c),
                 predicted_rate = rate, reason = down_reason fmt a p rate current_queue_cap\<rparr>
             else
               Some \<lparr>direction = Hold, recommended_parallelism = current_parallelism,
                 recommended_queue_cap = current_queue_cap, predicted_rate = rate,
                 reason = ''load and pressure within normal bounds (pressure='' @ fmt 2 p @ '', predicted=''
                   @ fmt 2 rate @ '' jobs/s)''\<rparr>)"

section \<open>The ring buffer\<close>

lemma as_config_observe [simp]: "as_config (as_observe ob a) = as_config a"
  by (simp add: as_observe_def push_observation_def update_rate_def Let_def)

lemma as_config_fold [simp]: "as_config (fold as_observe obs a) = as_config a"
  by (induction obs arbitrary: a) simp_all

lemma observations_observe:
  "observations (as_observe ob a) =
    (if length (observations a) = ring_buffer_cap (as_config a) then tl (observations a) else observations a) @ [ob]"
  by (simp add: as_observe_def push_observation_def update_rate_def Let_def)

text \<open>Observing leaves a buffer that holds the latest of all observations so far.\<close>

lemma window_step:
  assumes "xs = drop (length h - cap) h" and "0 < cap"
  shows "(if length xs = cap then tl xs else xs) @ [x] = drop (length (h @ [x]) - cap) (h @ [x])"
  using assms by (cases "cap \<le> length h") (auto simp: tl_drop Suc_diff_le simp flip: drop_Suc)

lemma observations_window:
  assumes "observations a = drop (length h - ring_buffer_cap (as_config a)) h" and "0 < ring_buffer_cap (as_config a)"
  shows "observations (fold as_observe obs a) = drop (length (h @ obs) - ring_buffer_cap (as_config a)) (h @ obs)"
  using assms
proof (induction obs arbitrary: a h)
  case (Cons ob obs)
  have "observations (as_observe ob a) = drop (length (h @ [ob]) - ring_buffer_cap (as_config a)) (h @ [ob])"
    unfolding observations_observe by (rule window_step [OF Cons.prems])
  then show ?case using Cons.IH [of "as_observe ob a" "h @ [ob]"] Cons.prems(2) by simp
qed simp

text \<open>A buffer of capacity zero is never full, so nothing is ever dropped.\<close>

lemma zero_capacity_keeps_all:
  assumes "ring_buffer_cap c = 0"
  shows "observations (fold as_observe obs (autoscaler_new c)) = obs"
proof -
  have "observations (fold as_observe obs a) = observations a @ obs" if "as_config a = c" "observations a = [] \<or> 0 < length (observations a)" for a
    using that assms by (induction obs arbitrary: a) (auto simp: observations_observe)
  then show ?thesis by (simp add: autoscaler_new_def)
qed

section \<open>The rate stays a number\<close>

definition rate_value :: "f64 \<Rightarrow> bool" where
  "rate_value x = (case x of FFin q \<Rightarrow> 0 \<le> q \<and> q \<le> 2 ^ 64 | _ \<Rightarrow> False)"

lemma rate_value_iff: "rate_value x \<longleftrightarrow> fp_le (FFin 0) x \<and> fp_le x (FFin (2 ^ 64))"
  by (cases x) (auto simp: rate_value_def)

lemma rate_value_rnd64: "0 \<le> q \<Longrightarrow> q \<le> 2 ^ 64 \<Longrightarrow> rate_value (rnd64 q)"
  unfolding rate_value_iff using rnd64_mono [of 0 q] rnd64_mono [of q "2 ^ 64"] by (simp only: rnd64_0 rnd64_2_64)

lemma rate_value_of_u64: "rate_value (f64_of_u64 w)"
  using f64_of_u64_bounds [of w] by (auto simp: rate_value_def)

lemma f64_of_u64_ge_1: "w \<noteq> 0 \<Longrightarrow> fp_le (FFin 1) (f64_of_u64 w)"
proof -
  assume "w \<noteq> 0"
  then have "1 \<le> unat w" by (simp add: Suc_leI unat_gt_0)
  from of_nat_mono [OF this, where ?'a = rat] have "(1 :: rat) \<le> of_nat (unat w)" by simp
  from rnd64_mono [OF this] show ?thesis by (simp add: f64_of_u64_def f64_of_nat_def)
qed

lemma rate_value_instant:
  assumes "0 < sat_sub (timestamp_secs ob) (timestamp_secs prev)"
  shows "rate_value (instant_rate prev ob)"
proof -
  let ?dt = "sat_sub (timestamp_secs ob) (timestamp_secs prev)"
  obtain j where j: "f64_of_u64 (sat_sub (lo_total_jobs ob) (lo_total_jobs prev)) = FFin j" "0 \<le> j" "j \<le> 2 ^ 64"
    using f64_of_u64_bounds by blast
  obtain d where d: "f64_of_u64 ?dt = FFin d" using f64_of_u64_bounds by blast
  have "?dt \<noteq> 0" using assms by auto
  from f64_of_u64_ge_1 [OF this] have "1 \<le> d" by (simp add: d)
  then have "j / d \<le> 2 ^ 64" "0 \<le> j / d" using j mult_mono [of 1 d j "2 ^ 64"] by (simp_all add: field_simps)
  then show ?thesis using rate_value_rnd64 [of "j / d"] \<open>1 \<le> d\<close> by (simp add: instant_rate_def j d)
qed

lemma alpha_value: "RATE_EMA_ALPHA = FFin (3602879701896397 / 2 ^ 54)"
  unfolding RATE_EMA_ALPHA_def by (rule rnd64_fifth)

lemma keep_value: "f64_sub (FFin 1) RATE_EMA_ALPHA = FFin (7205759403792794 / 2 ^ 53)"
proof -
  have "\<lfloor>14411518807585587 / 2 :: rat\<rfloor> = 7205759403792793" by (rule floor_unique) simp_all
  then have "rne (14411518807585587 / 2 :: rat) = 7205759403792794" by (simp add: rne_def)
  then show ?thesis using rnd64_eval [of "- 1" "14411518807585587 / 2 ^ 54"]
    by (simp add: f64_sub_def alpha_value pow2_def)
qed

text \<open>The largest value the average can reach is the largest rate: rounding adds nothing to it.\<close>

lemma rate_value_mix:
  assumes "rate_value x" and "rate_value y"
  shows "rate_value (f64_add (f64_mul RATE_EMA_ALPHA x) (f64_mul (f64_sub (FFin 1) RATE_EMA_ALPHA) y))"
proof -
  obtain p q where x: "x = FFin p" "0 \<le> p" "p \<le> 2 ^ 64" and y: "y = FFin q" "0 \<le> q" "q \<le> 2 ^ 64"
    using assms by (auto simp: rate_value_def split: fp.splits)
  have "rne (of_int (7205759403792794 :: int) :: rat) = 7205759403792794" by (rule rne_of_int)
  then have top: "rnd64 (3602879701896397 * 2 ^ 10) = FFin (3602879701896397 * 2 ^ 10)"
      "rnd64 (7205759403792794 * 2 ^ 11) = FFin (7205759403792794 * 2 ^ 11)"
    using rnd64_eval [of 61 "3602879701896397 * 2 ^ 10"] rnd64_eval [of 63 "7205759403792794 * 2 ^ 11"]
    by (simp_all add: pow2_def)
  have "fp_le (FFin 0) (rnd64 (3602879701896397 / 2 ^ 54 * p))"
      "fp_le (rnd64 (3602879701896397 / 2 ^ 54 * p)) (rnd64 (3602879701896397 * 2 ^ 10))"
    using rnd64_mono [of 0 "3602879701896397 / 2 ^ 54 * p"] x
    by (simp, intro rnd64_mono, simp)
  then obtain r where r: "rnd64 (3602879701896397 / 2 ^ 54 * p) = FFin r" "0 \<le> r" "r \<le> 3602879701896397 * 2 ^ 10"
    unfolding top by (cases "rnd64 (3602879701896397 / 2 ^ 54 * p)") auto
  have "fp_le (FFin 0) (rnd64 (7205759403792794 / 2 ^ 53 * q))"
      "fp_le (rnd64 (7205759403792794 / 2 ^ 53 * q)) (rnd64 (7205759403792794 * 2 ^ 11))"
    using rnd64_mono [of 0 "7205759403792794 / 2 ^ 53 * q"] y
    by (simp, intro rnd64_mono, simp)
  then obtain t where t: "rnd64 (7205759403792794 / 2 ^ 53 * q) = FFin t" "0 \<le> t" "t \<le> 7205759403792794 * 2 ^ 11"
    unfolding top by (cases "rnd64 (7205759403792794 / 2 ^ 53 * q)") auto
  have "rne (4503599627370496 + 1 / 4 :: rat) = 4503599627370496" by (rule rne_eqI) simp
  then have sum: "rnd64 (3602879701896397 * 2 ^ 10 + 7205759403792794 * 2 ^ 11) = FFin (2 ^ 64)"
    using rnd64_eval [of 64 "3602879701896397 * 2 ^ 10 + 7205759403792794 * 2 ^ 11"] by (simp add: pow2_def)
  have "fp_le (rnd64 (r + t)) (FFin (2 ^ 64))" unfolding sum [symmetric] by (rule rnd64_mono) (use r t in linarith)
  moreover have "fp_le (FFin 0) (rnd64 (r + t))" using rnd64_mono [of 0 "r + t"] r t by simp
  ultimately show ?thesis unfolding rate_value_iff keep_value unfolding alpha_value x y f64_mul.simps r(1) t(1) f64_add.simps
    by simp
qed

lemma rate_value_observe: "rate_value (rate_ema a) \<Longrightarrow> rate_value (rate_ema (as_observe ob a))"
  using rate_value_instant [of ob "last (observations a)"]
    rate_value_mix [of "instant_rate (last (observations a)) ob" "rate_ema a"]
  by (simp add: as_observe_def push_observation_def update_rate_def Let_def)

interpretation autoscaler: stateful as_observe "\<lambda>a. rate_value (rate_ema a)"
  by unfold_locales (rule rate_value_observe)

lemma reachable_rate: "rate_value (rate_ema (fold as_observe obs (autoscaler_new c)))"
  by (rule autoscaler.run_inv) (simp add: autoscaler_new_def rate_value_def)

section \<open>Predictions\<close>

lemma predict_rate_value:
  assumes "rate_value (rate_ema a)"
  shows "fp_is_finite (predict_rate a) \<and> fp_le (FFin 0) (predict_rate a)"
proof -
  have "fp_is_finite (f64_max x (FFin 0)) \<and> fp_le (FFin 0) (f64_max x (FFin 0))" if "fp_is_finite x" for x
    using that by (cases x) (auto simp: fp_is_finite_def f64_max_def)
  moreover have "fp_is_finite (rate_ema a)"
    using assms by (auto simp: rate_value_def fp_is_finite_def split: fp.splits)
  ultimately show ?thesis
    by (auto simp: predict_rate_def Let_def fp_is_finite_def split: option.split fp.split)
qed

lemma horizon_factor:
  assumes "cv = FNaN \<or> fp_le (FFin 0) cv"
  shows "\<exists>f. f64_max (f64_sub (FFin 1) (f64_mul (f64_min cv (FFin 1)) (FFin (1 / 2)))) (FFin (1 / 2)) = FFin f
    \<and> 1 / 2 \<le> f \<and> f \<le> 1"
proof -
  obtain c where c: "f64_min cv (FFin 1) = FFin c" "0 \<le> c" "c \<le> 1"
  proof (cases cv)
    case (FFin q)
    then show ?thesis using assms that [of "if 1 < q then 1 else q"] by (simp add: f64_min_def split: if_splits)
  qed (use assms that [of 1] in \<open>simp_all add: f64_min_def\<close>)
  obtain h where h: "rnd64 (c / 2) = FFin h" "0 \<le> h" "h \<le> 1"
    by (rule rnd64_unit [of "c / 2"]) (use c in auto)
  obtain f where f: "rnd64 (1 - h) = FFin f" "0 \<le> f" "f \<le> 1"
    by (rule rnd64_unit [of "1 - h"]) (use h in auto)
  show ?thesis using f
    by (intro exI [of _ "if f < 1 / 2 then 1 / 2 else f"]) (simp add: c(1) h(1) f64_sub_def f64_max_def)
qed

lemma horizon_bounds:
  "\<exists>f. effective_horizon_secs a = f64_mul (f64_of_u64 (predict_horizon_secs (as_config a))) (FFin f)
    \<and> 1 / 2 \<le> f \<and> f \<le> 1"
proof -
  let ?cv = "if fp_lt (FFin 0) (rate_ema a) then f64_div (f64_sqrt (rate_variance a)) (rate_ema a) else FFin 0"
  have "f64_div s e = FNaN \<or> fp_le (FFin 0) (f64_div s e)"
    if "s = FNaN \<or> fp_le (FFin 0) s" "fp_lt (FFin 0) e" for s e
    using that rnd64_mono [of 0] by (cases s; cases e) auto
  then have "?cv = FNaN \<or> fp_le (FFin 0) ?cv" using f64_sqrt_nonneg [of "rate_variance a"] by simp
  from horizon_factor [OF this] show ?thesis by (auto simp: effective_horizon_secs_def Let_def)
qed

section \<open>Limits of a recommendation\<close>

lemma scaled_capacity:
  assumes "unat w < 2 ^ 53"
  shows "1 \<le> k \<Longrightarrow> w \<le> f64_to_u64 (f64_mul (f64_of_u64 w) (FFin k))"
    and "0 \<le> k \<Longrightarrow> k \<le> 1 \<Longrightarrow> f64_to_u64 (f64_mul (f64_of_u64 w) (FFin k)) \<le> w"
proof -
  obtain q where q: "f64_of_u64 w = FFin q" "0 \<le> q" using f64_of_u64_bounds by blast
  have trip: "f64_to_u64 (FFin q) = w"
    using f64_of_nat_roundtrip [OF assms] q(1) by (simp add: f64_of_u64_def)
  have idem: "rnd64 q = FFin q" using rnd64_idem [of "of_nat (unat w)" q] q(1) by (simp add: f64_of_u64_def f64_of_nat_def)
  show "w \<le> f64_to_u64 (f64_mul (f64_of_u64 w) (FFin k))" if "1 \<le> k"
  proof -
    have "q \<le> q * k" using that q(2) mult_left_mono [of 1 k q] by simp
    from rnd64_mono [OF this] have "fp_le (FFin q) (f64_mul (f64_of_u64 w) (FFin k))" by (simp add: q(1) idem)
    from f64_to_u64_mono [OF this] show ?thesis unfolding trip .
  qed
  show "f64_to_u64 (f64_mul (f64_of_u64 w) (FFin k)) \<le> w" if "0 \<le> k" "k \<le> 1"
  proof -
    have "q * k \<le> q" using that q(2) mult_left_mono [of k 1 q] by simp
    from rnd64_mono [OF this] have "fp_le (f64_mul (f64_of_u64 w) (FFin k)) (FFin q)" by (simp add: q(1) idem)
    from f64_to_u64_mono [OF this] show ?thesis unfolding trip .
  qed
qed

lemma eighty_percent: "\<exists>k. rnd64 (80 / 100) = FFin k \<and> 0 \<le> k \<and> k \<le> 1"
  by (rule rnd64_unit [of "80 / 100"]) auto

text \<open>
  After any observations, the prediction is a finite rate that is not negative, made for a
  horizon between one half and the whole of the configured one, whatever the clocks and
  counters fed in; the ring buffer holds exactly the latest observations up to its capacity
  (a capacity of zero does not bound it).
\<close>

theorem predictions_are_rates:
  "let a = fold as_observe obs (autoscaler_new c) in
     fp_is_finite (predict_rate a) \<and> fp_le (FFin 0) (predict_rate a)
     \<and> (\<exists>f. effective_horizon_secs a = f64_mul (f64_of_u64 (predict_horizon_secs c)) (FFin f) \<and> 1 / 2 \<le> f \<and> f \<le> 1)
     \<and> observations a = (if ring_buffer_cap c = 0 then obs else drop (length obs - ring_buffer_cap c) obs)"
  using predict_rate_value [OF reachable_rate, of obs c] horizon_bounds [of "fold as_observe obs (autoscaler_new c)"]
    observations_window [of "autoscaler_new c" "[]" obs] zero_capacity_keeps_all [of c obs]
  by (auto simp: Let_def autoscaler_new_def)

text \<open>
  A recommendation moves in its direction and within the limits: scaling up never lowers the
  queue capacity below the current one or the maximum, and scaling down never raises it above
  the current one or the minimum; parallelism moves by at most one; a hold changes nothing.
  Without enough observations there is none.
\<close>

theorem recommendation_within_limits:
  assumes "unat cap < 2 ^ 53" and "unat par + 1 < 2 ^ 64"
  shows "case recommend fmt par cap a of
      None \<Rightarrow> length (observations a) < min_observations (as_config a)
    | Some r \<Rightarrow> min_observations (as_config a) \<le> length (observations a) \<and> (case direction r of
          Up \<Rightarrow> min cap (max_queue_cap (as_config a)) \<le> recommended_queue_cap r
            \<and> recommended_queue_cap r \<le> max_queue_cap (as_config a)
            \<and> unat (recommended_parallelism r) = min (unat par + 1) (unat (max_parallelism (as_config a)))
        | Down \<Rightarrow> recommended_queue_cap r \<le> max cap (min_queue_cap (as_config a))
            \<and> min_queue_cap (as_config a) \<le> recommended_queue_cap r
            \<and> unat (recommended_parallelism r) = max (unat par - 1) (unat (min_parallelism (as_config a)))
        | Hold \<Rightarrow> recommended_queue_cap r = cap \<and> recommended_parallelism r = par)"
proof -
  have up: "cap \<le> f64_to_u64 (f64_mul (f64_of_u64 cap) (FFin (5 / 4)))" by (rule scaled_capacity(1) [OF assms(1)]) simp
  have down: "f64_to_u64 (f64_mul (f64_of_u64 cap) (rnd64 (80 / 100))) \<le> cap"
    using eighty_percent scaled_capacity(2) [OF assms(1)] by metis
  have m: "unat (max x y) = max (unat x) (unat y)" "unat (min x y) = min (unat x) (unat y)" for x y :: usize
    by (simp_all add: max_def min_def word_le_nat_alt)
  have s: "unat (par + 1) = unat par + 1" using assms(2) by (simp add: unat_add_small)
  have "min cap b \<le> min (f64_to_u64 (f64_mul (f64_of_u64 cap) (FFin (5 / 4)))) b" for b
    using up by (auto simp: min_def)
  moreover have "max (f64_to_u64 (f64_mul (f64_of_u64 cap) (rnd64 (80 / 100)))) b \<le> max cap b" for b
    using down by (auto simp: max_def)
  ultimately show ?thesis
    by (simp add: recommend_def Let_def m s unat_sat_sub split: option.split prod.split)
qed

text \<open>Five quiet observations of an idle system.\<close>

definition quiet :: Autoscaler where
  "quiet = fold as_observe (map (\<lambda>t. \<lparr>timestamp_secs = t, lo_total_jobs = 0, lo_pressure = FFin 0,
     lo_drop_rate = FFin 0\<rparr>) [0, 10, 20, 30, 40]) (autoscaler_new AutoscalerConfig_default)"

theorem recommendation_within_limits_witness:
  "case recommend (\<lambda>_ _. '''') 4 512 quiet of
      None \<Rightarrow> length (observations quiet) < 5
    | Some r \<Rightarrow> (case direction r of
          Up \<Rightarrow> 512 \<le> recommended_queue_cap r
        | Down \<Rightarrow> recommended_queue_cap r \<le> 512 \<and> unat (recommended_parallelism r) = 3
        | Hold \<Rightarrow> recommended_queue_cap r = 512 \<and> recommended_parallelism r = 4)"
proof -
  have c: "as_config quiet = AutoscalerConfig_default" by (simp add: quiet_def autoscaler_new_def)
  have "min 512 4096 = (512 :: usize)" "max 512 16 = (512 :: usize)" by (simp_all add: min_def max_def)
  then show ?thesis
    using recommendation_within_limits [of 512 4 quiet "\<lambda>_ _. ''''"]
    by (auto simp: c AutoscalerConfig_default_def split: option.splits ScaleDirection.splits)
qed

end
