(* ===== verification/Router.thy ===== *)
theory Router
  imports Config ResultCache OutputCodec NeuralRouter TimeoutMgr Tasks Autoscaler
begin

text \<open>
  The router itself (\<open>src/router.rs\<close>): strategy selection, \<open>submit\<close> and \<open>run\<close>, the CPU
  dispatch loop, batch flushing, threshold adaptation and statistics. The state is the
  shared \<open>Inner\<close>; its channel, semaphore and batch buffers, with the tasks that use them,
  are the \<open>Tasks\<close> of the theory of that name. Every operation here is one atomic section
  between two awaits on something another task must do: a reply, a spawned task, a permit, a
  closure. Waiting for one of the router's own locks is part of a section. The interleavings
  are in theory \<open>RouterSteps\<close>.
\<close>

section \<open>Decisions and counters\<close>

record RoutingDecision =
  rd_job_id :: u64
  rd_strategy :: Strategy
  rd_compute_cost :: u64
  rd_cpu_busy :: usize
  rd_pressure :: f64
  rd_source :: string

record WorkHint =
  wh_id :: u64
  wh_compute_cost :: u64
  wh_scaling_potential :: f32
  wh_latency_budget_ms :: u64
  wh_deadline_ms :: u64

definition WorkHint_default :: WorkHint where
  "WorkHint_default = \<lparr>wh_id = 0, wh_compute_cost = 1, wh_scaling_potential = FFin 0,
     wh_latency_budget_ms = 100, wh_deadline_ms = 0\<rparr>"

datatype Rejected = Overloaded | DeadlineExceeded | Panicked

text \<open>The counters the code keeps three times, once per job kind.\<close>

record kind_counters =
  hash_mix :: u64
  prime_count :: u64
  monte_carlo_risk :: u64

definition kc_zero :: kind_counters where
  "kc_zero = \<lparr>hash_mix = 0, prime_count = 0, monte_carlo_risk = 0\<rparr>"

definition kc_add :: "JobKind \<Rightarrow> u64 \<Rightarrow> kind_counters \<Rightarrow> kind_counters" where
  "kc_add k n c =
    (case k of
       HashMix \<Rightarrow> c\<lparr>hash_mix := hash_mix c + n\<rparr>
     | PrimeCount \<Rightarrow> c\<lparr>prime_count := prime_count c + n\<rparr>
     | MonteCarloRisk \<Rightarrow> c\<lparr>monte_carlo_risk := monte_carlo_risk c + n\<rparr>)"

section \<open>State\<close>

record Inner =
  conf :: live_config
  tasks :: Tasks
  routed :: "(Strategy, u64) hashmap"
  dropped :: u64
  completed :: u64
  metrics :: MetricsStore
  adaptive_spawn_threshold :: u64
  decisions :: "RoutingDecision list"
  routing_log :: "RoutingDecision list"
  eot_pressure_milli :: u64
  batch_seq :: u64
  submit_counter :: u64
  pressure_cache :: f64
  learner :: NeuralRouter
  consecutive_raises :: u64
  blocking_panics :: u64
  adaptive_decay_count :: u64
  batch_miss_count :: u64
  batch_enqueued :: kind_counters
  batch_flushed :: kind_counters
  sla_violations :: kind_counters
  kind_routed :: kind_counters
  deadline_exceeded :: u64
  epsilon_history :: "f64 list"
  cache :: ResultCache
  timeout_mgr :: TimeoutManager
  autoscaler :: Autoscaler
  flusher_idx :: nat

definition router_new :: "RouterConfig \<Rightarrow> Inner" where
  "router_new c =
    \<lparr>conf = \<lparr>cfg = c, cfg_arc = c, arc_pending = []\<rparr>,
     tasks = tasks_new (unat (cpu_queue_cap c)) (unat (cpu_parallelism c)), routed = [],
     dropped = 0, completed = 0, metrics = metrics_new (ema_alpha c),
     adaptive_spawn_threshold = spawn_threshold c, decisions = [], routing_log = [],
     eot_pressure_milli = 0, batch_seq = 0, submit_counter = 0, pressure_cache = FFin 0,
     learner = neural_initial, consecutive_raises = 0, blocking_panics = 0,
     adaptive_decay_count = 0, batch_miss_count = 0, batch_enqueued = kc_zero,
     batch_flushed = kc_zero, sla_violations = kc_zero, kind_routed = kc_zero,
     deadline_exceeded = 0, epsilon_history = [], cache = cache_new CacheConfig_default,
     timeout_mgr = [], autoscaler = autoscaler_new AutoscalerConfig_default, flusher_idx = 0\<rparr>"

section \<open>Strategy selection\<close>

definition choose_strategy :: "RouterConfig \<Rightarrow> Job \<Rightarrow> usize \<Rightarrow> Strategy" where
  "choose_strategy c job cpu_busy =
    (if backpressure_busy_threshold c \<le> cpu_busy then
       if fp_le (rnd32 (65 / 100)) (scaling_potential job) then Batch else Drop
     else if compute_cost job \<le> inline_threshold c then Inline
     else if compute_cost job < spawn_threshold c then Spawn
     else if fp_le (rnd32 (70 / 100)) (scaling_potential job) then Batch else CpuPool)"

definition cpu_busy_of :: "RouterConfig \<Rightarrow> Inner \<Rightarrow> usize" where
  "cpu_busy_of c r = sat_sub (cpu_parallelism c) (of_nat (permits (tasks r)))"

definition effective_cfg :: "Inner \<Rightarrow> RouterConfig" where
  "effective_cfg r = (cfg_arc (conf r))\<lparr>spawn_threshold := adaptive_spawn_threshold r\<rparr>"

definition heuristic_strategy :: "Inner \<Rightarrow> Job \<Rightarrow> Strategy" where
  "heuristic_strategy r job = choose_strategy (effective_cfg r) job (cpu_busy_of (cfg_arc (conf r)) r)"

definition queue_frac_of :: "usize \<Rightarrow> Inner \<Rightarrow> f64" where
  "queue_frac_of par r = f64_sub (FFin 1) (f64_div (f64_of_nat (permits (tasks r))) (f64_of_u64 par))"

section \<open>Pressure\<close>

definition set_eot_pressure :: "f64 \<Rightarrow> Inner \<Rightarrow> Inner" where
  "set_eot_pressure p r =
    (if \<not> fp_is_finite p then r
     else r\<lparr>eot_pressure_milli := f64_to_u64 (f64_mul (f64_clamp p (FFin 0) (FFin 1)) (FFin 1000))\<rparr>)"

definition eot_pressure :: "Inner \<Rightarrow> f64" where
  "eot_pressure r = f64_div (f64_of_u64 (eot_pressure_milli r)) (FFin 1000)"

definition live_pressure :: "f64 \<Rightarrow> Inner \<Rightarrow> f64" where
  "live_pressure queue_frac r = f64_max (score queue_frac (tracker (metrics r))) (eot_pressure r)"

definition pressure :: "Inner \<Rightarrow> f64" where
  "pressure r =
    (let c = cfg (conf r);
         queue_frac = f64_div (f64_of_u64 (cpu_busy_of c r)) (f64_of_u64 (max (cpu_parallelism c) 1))
     in live_pressure queue_frac r)"

definition submit_pressure :: "f64 \<Rightarrow> Inner \<Rightarrow> f64" where
  "submit_pressure queue_frac r =
    (if fp_lt (FFin 0) (pressure_cache r) then pressure_cache r else live_pressure queue_frac r)"

definition refresh_pressure :: "Inner \<Rightarrow> Inner" where
  "refresh_pressure r =
    (let queue_frac = queue_frac_of (max (cpu_parallelism (cfg (conf r))) 1) r
     in r\<lparr>pressure_cache := live_pressure queue_frac r,
          epsilon_history := push_window 60 (nc_epsilon (nconfig (learner r))) (epsilon_history r)\<rparr>)"

section \<open>Helpers of the handlers\<close>

definition bump_route :: "Strategy \<Rightarrow> Inner \<Rightarrow> Inner" where
  "bump_route s r =
     r\<lparr>routed := hm_insert s ((case hm_get (routed r) s of Some n \<Rightarrow> n | None \<Rightarrow> 0) + 1) (routed r)\<rparr>"

definition bump_kind_route :: "JobKind \<Rightarrow> Inner \<Rightarrow> Inner" where
  "bump_kind_route k r = r\<lparr>kind_routed := kc_add k 1 (kind_routed r)\<rparr>"

definition check_sla_violation :: "JobKind \<Rightarrow> u64 \<Rightarrow> Inner \<Rightarrow> Inner" where
  "check_sla_violation k latency_ms r =
    (let violated = (case SLAMap_get (sla (cfg (conf r))) (JobKind_to_string k) of
                       Some s \<Rightarrow> max_latency_ms s < latency_ms | None \<Rightarrow> False)
     in if violated then r\<lparr>sla_violations := kc_add k 1 (sla_violations r)\<rparr> else r)"

definition router_record_latency :: "Strategy \<Rightarrow> u64 \<Rightarrow> Inner \<Rightarrow> Inner" where
  "router_record_latency s ms r = r\<lparr>metrics := record_latency s ms (metrics r)\<rparr>"

definition record_pressure :: "f64 \<Rightarrow> bool \<Rightarrow> f64 \<Rightarrow> Inner \<Rightarrow> Inner" where
  "record_pressure queue_frac was_dropped lat_frac r =
    (let m = metrics r
     in r\<lparr>metrics := m\<lparr>tracker := pressure_record queue_frac was_dropped lat_frac (tracker m)\<rparr>\<rparr>)"

definition record_neural_outcome :: "Job \<Rightarrow> f64 \<Rightarrow> Strategy \<Rightarrow> u64 \<Rightarrow> bool \<Rightarrow> Inner \<Rightarrow> Inner" where
  "record_neural_outcome job p s latency_ms was_dropped r =
     r\<lparr>learner := record_outcome job p
        \<lparr>so_strategy = s, so_latency_ms = latency_ms, so_budget_ms = latency_budget_ms job,
         so_dropped = was_dropped\<rparr> (learner r)\<rparr>"

definition count_dropped :: "Inner \<Rightarrow> Inner" where
  "count_dropped r = r\<lparr>dropped := dropped r + 1\<rparr>"

definition count_completed :: "Inner \<Rightarrow> Inner" where
  "count_completed r = r\<lparr>completed := completed r + 1\<rparr>"

definition broadcast :: "RoutingDecision \<Rightarrow> Inner \<Rightarrow> Inner" where
  "broadcast d r = r\<lparr>decisions := decisions r @ [d]\<rparr>"

definition log_decision :: "RoutingDecision \<Rightarrow> Inner \<Rightarrow> Inner" where
  "log_decision d r =
    (let r = broadcast d r; l = routing_log r @ [d]
     in r\<lparr>routing_log := (if 50 < length l then tl l else l)\<rparr>)"

definition lat_frac :: "u64 \<Rightarrow> u64 \<Rightarrow> f64" where
  "lat_frac ms budget_ms = f64_div (f64_of_u64 ms) (f64_of_u64 (max budget_ms 1))"

text \<open>The operations of the tasks in flight, on the router's state.\<close>

definition on_tasks :: "(Tasks \<Rightarrow> Tasks) \<Rightarrow> Inner \<Rightarrow> Inner" where
  "on_tasks f r = r\<lparr>tasks := f (tasks r)\<rparr>"

fun JobKind_debug :: "JobKind \<Rightarrow> string" where
  "JobKind_debug HashMix = ''HashMix''"
| "JobKind_debug PrimeCount = ''PrimeCount''"
| "JobKind_debug MonteCarloRisk = ''MonteCarloRisk''"

section \<open>Batch flushing\<close>

definition flush_entry :: "(nat \<Rightarrow> u64) \<Rightarrow> BatchEntry \<Rightarrow> Inner \<Rightarrow> Inner" where
  "flush_entry lat e r =
     router_record_latency Batch (lat (be_ticket e)) (on_tasks (answer_entry e) r)"

definition flush_batch_kind :: "(nat \<Rightarrow> u64) \<Rightarrow> JobKind \<Rightarrow> Inner \<Rightarrow> Inner" where
  "flush_batch_kind lat k r =
    (case batches (tasks r) k of
       None \<Rightarrow> r
     | Some q \<Rightarrow>
         if q = [] then r
         else let n = min (length q) (unat (batch_max_size (cfg (conf r))));
                  batch = sort_key be_seq (take n q);
                  r = on_tasks (\<lambda>T. T\<lparr>batches := (batches T)(k \<mapsto> drop n q)\<rparr>) r;
                  r = r\<lparr>batch_flushed := kc_add k (of_nat (length batch)) (batch_flushed r)\<rparr>
              in fold (flush_entry lat) batch r)"

definition flusher_kinds :: "JobKind list" where
  "flusher_kinds = [HashMix, PrimeCount, MonteCarloRisk]"

definition flusher_tick :: "(nat \<Rightarrow> u64) \<Rightarrow> Inner \<Rightarrow> Inner" where
  "flusher_tick lat r =
    (let r' = flush_batch_kind lat (flusher_kinds ! flusher_idx r) r
     in r'\<lparr>flusher_idx := (flusher_idx r + 1) mod length flusher_kinds\<rparr>)"

section \<open>Submit\<close>

text \<open>
  What the environment contributes to one call: the wall clock, the monotonic clock and how
  long an execution inline took; and how \<open>f64\<close> values are printed and parsed.
\<close>

record submit_env =
  now_ms :: u64
  instant :: nat
  elapsed_ms :: u64
  flush_latency :: "nat \<Rightarrow> u64"
  fmt_f64 :: "f64 \<Rightarrow> string"
  parse_f64 :: "string \<Rightarrow> f64 option"

text \<open>\<open>Awaiting\<close>: on a oneshot channel; \<open>AwaitingTask\<close>: on a task it spawned.\<close>

datatype submit_result = Returned "Output list option" | Awaiting nat | AwaitingTask SpawnWait

text \<open>The routing decision: the heuristic, overridden by the learner unless it says Drop.\<close>

definition decide :: "Inner \<Rightarrow> Job \<Rightarrow> Strategy \<times> string" where
  "decide r job =
    (let queue_frac = queue_frac_of (cpu_parallelism (cfg_arc (conf r))) r;
         h = heuristic_strategy r job;
         p = submit_pressure queue_frac r
     in if h \<noteq> Drop then
          if is_warmed_up (learner r) then
            let nc = neural_choose (learner r) job p
            in if nc \<noteq> Drop then (nc, ''neural'') else (h, ''heuristic'')
          else (h, ''heuristic'')
        else (Drop, ''drop''))"

definition drop_late_job :: "Job \<Rightarrow> Inner \<Rightarrow> Inner" where
  "drop_late_job job r =
    (let r = r\<lparr>deadline_exceeded := deadline_exceeded r + 1\<rparr>;
         r = bump_route Drop (count_dropped r)
     in broadcast \<lparr>rd_job_id = job_id job, rd_strategy = Drop, rd_compute_cost = compute_cost job,
          rd_cpu_busy = 0, rd_pressure = FFin 0, rd_source = ''deadline''\<rparr> r)"

text \<open>The result cache is asked first; an entry that parses to no output falls through.\<close>

definition cached_outputs :: "submit_env \<Rightarrow> Job \<Rightarrow> Inner \<Rightarrow> Output list \<times> Inner" where
  "cached_outputs env job r =
    (let (hit, c) = cache_get (instant env) job (cache r);
         r = r\<lparr>cache := c\<rparr>
     in case hit of
          Some h \<Rightarrow> (parse_outputs (parse_f64 env) (cached_result h), r)
        | None \<Rightarrow> ([], r))"

definition finish_job :: "Job \<Rightarrow> f64 \<Rightarrow> Strategy \<Rightarrow> u64 \<Rightarrow> Inner \<Rightarrow> Inner" where
  "finish_job job p s ms r =
     check_sla_violation (kind job) ms (record_neural_outcome job p s ms False (count_completed r))"

definition fail_job :: "Job \<Rightarrow> f64 \<Rightarrow> Strategy \<Rightarrow> f64 \<Rightarrow> Inner \<Rightarrow> Inner" where
  "fail_job job p s queue_frac r =
     record_neural_outcome job p s 0 True (record_pressure queue_frac True (FFin 1) (count_dropped r))"

definition run_inline :: "submit_env \<Rightarrow> Job \<Rightarrow> f64 \<Rightarrow> f64 \<Rightarrow> Inner \<Rightarrow> submit_result \<times> Inner" where
  "run_inline env job p queue_frac r =
    (let r = bump_kind_route (kind job) (bump_route Inline r);
         out = execute_job job;
         ms = elapsed_ms env;
         r = record_pressure queue_frac False (lat_frac ms (latency_budget_ms job))
               (router_record_latency Inline ms r);
         r = finish_job job p Inline ms r;
         r = r\<lparr>timeout_mgr := observe \<lparr>lo_kind = JobKind_debug (kind job), lo_latency_ms = ms,
               lo_succeeded = True\<rparr> (timeout_mgr r)\<rparr>;
         r = r\<lparr>cache := cache_insert (instant env) job (outputs_to_string (fmt_f64 env) out) (cache r)\<rparr>
     in (Returned (Some out), r))"

definition run_spawned :: "Job \<Rightarrow> f64 \<Rightarrow> f64 \<Rightarrow> Inner \<Rightarrow> submit_result \<times> Inner" where
  "run_spawned job p queue_frac r =
    (let r = bump_kind_route (kind job) (bump_route Spawn r);
         s = \<lparr>sw_job = job, sw_pressure = p, sw_queue_frac = queue_frac\<rparr>
     in (AwaitingTask s, on_tasks (add_spawn s) r))"

text \<open>
  \<open>try_send\<close> fails when the queue is full or the dispatcher has gone. The depth counter is
  only incremented after a successful send, in a step of its own (\<open>count_enqueued\<close>).
\<close>

definition send_to_pool :: "Job \<Rightarrow> f64 \<Rightarrow> f64 \<Rightarrow> Inner \<Rightarrow> submit_result \<times> Inner" where
  "send_to_pool job p queue_frac r =
    (let r = bump_kind_route (kind job) (bump_route CpuPool r)
     in if can_send (tasks r)
        then (Awaiting (next_ticket (tasks r)), on_tasks (push_cpu job p) r)
        else (Returned None, fail_job job p CpuPool queue_frac r))"

definition send_to_batch :: "submit_env \<Rightarrow> Job \<Rightarrow> f64 \<Rightarrow> Inner \<Rightarrow> submit_result \<times> Inner" where
  "send_to_batch env job p r =
    (let c = cfg_arc (conf r);
         r = bump_kind_route (kind job) (bump_route Batch r);
         t = next_ticket (tasks r);
         seq = batch_seq r;
         r = r\<lparr>batch_seq := seq + 1\<rparr>
     in case batches (tasks r) (kind job) of
          None \<Rightarrow> (Returned None, r\<lparr>batch_miss_count := batch_miss_count r + 1\<rparr>)
        | Some q \<Rightarrow>
            let r = on_tasks (push_batch job p seq q) r;
                r = r\<lparr>batch_enqueued := kc_add (kind job) 1 (batch_enqueued r)\<rparr>
            in (Awaiting t, if unat (batch_max_size c) \<le> length q + 1
                            then flush_batch_kind (flush_latency env) (kind job) r else r))"

definition submit_routed :: "submit_env \<Rightarrow> Job \<Rightarrow> Inner \<Rightarrow> submit_result \<times> Inner" where
  "submit_routed env job r =
    (let c = cfg_arc (conf r);
         queue_frac = queue_frac_of (cpu_parallelism c) r;
         p = submit_pressure queue_frac r;
         (s, source) = decide r job;
         r' = log_decision \<lparr>rd_job_id = job_id job, rd_strategy = s, rd_compute_cost = compute_cost job,
               rd_cpu_busy = cpu_busy_of c r, rd_pressure = p, rd_source = source\<rparr> r
     in case s of
          Drop \<Rightarrow> (Returned None, fail_job job p Drop queue_frac (bump_route Drop r'))
        | Inline \<Rightarrow> run_inline env job p queue_frac r'
        | Spawn \<Rightarrow> run_spawned job p queue_frac r'
        | CpuPool \<Rightarrow> send_to_pool job p queue_frac r'
        | Batch \<Rightarrow> send_to_batch env job p r')"

definition submit :: "submit_env \<Rightarrow> Job \<Rightarrow> Inner \<Rightarrow> submit_result \<times> Inner" where
  "submit env job r =
    (let r = r\<lparr>submit_counter := submit_counter r + 1\<rparr>
     in if 0 < deadline_ms job \<and> deadline_ms job \<le> now_ms env then (Returned None, drop_late_job job r)
        else if compute_cost job = 0 then
          (Returned (Some (execute_job job)),
           count_completed (router_record_latency Inline (elapsed_ms env) (bump_route Inline r)))
        else let (outs, r) = cached_outputs env job r
             in if outs \<noteq> [] then (Returned (Some outs), count_completed r)
                else submit_routed env job r)"

section \<open>The rest of a submission that waits\<close>

text \<open>\<open>rx.await\<close> returned the outputs.\<close>

definition resume_ok :: "u64 \<Rightarrow> Waiter \<Rightarrow> Inner \<Rightarrow> Inner" where
  "resume_ok ms w r =
     finish_job (w_job w) (w_pressure w) (w_strategy w) ms (on_tasks (remove_waiter (w_ticket w)) r)"

text \<open>
  The await on a spawned task returned: the task ran the job after \<open>ms\<close> milliseconds, or
  it panicked.
\<close>

definition resume_spawned :: "bool \<Rightarrow> u64 \<Rightarrow> SpawnWait \<Rightarrow> Inner \<Rightarrow> Output list option \<times> Inner" where
  "resume_spawned panicked ms s r =
    (let r = on_tasks (remove_spawn s) r; job = sw_job s
     in if panicked then (None, fail_job job (sw_pressure s) Spawn (sw_queue_frac s) r)
        else let r = record_pressure (sw_queue_frac s) False (lat_frac ms (latency_budget_ms job))
                       (router_record_latency Spawn ms r)
             in (Some (execute_job job), finish_job job (sw_pressure s) Spawn ms r))"

text \<open>
  \<open>rx.await\<close> failed: the sender was dropped without a reply. Only a submission to the CPU
  pool has a cancellation flag to set.
\<close>

definition resume_err :: "Waiter \<Rightarrow> Inner \<Rightarrow> Inner" where
  "resume_err w r =
    (let r = on_tasks (remove_waiter (w_ticket w)) r;
         r = (if w_strategy w = CpuPool then on_tasks (set_cancelled (w_ticket w)) r else r)
     in record_neural_outcome (w_job w) (w_pressure w) (w_strategy w) 0 True (count_dropped r))"

section \<open>The CPU pool\<close>

text \<open>The end of a worker task of the dispatch loop.\<close>

definition worker_done :: "bool \<Rightarrow> u64 \<Rightarrow> CpuWork \<Rightarrow> Inner \<Rightarrow> Inner" where
  "worker_done panicked ms w r =
    (let r = (if panicked then r\<lparr>blocking_panics := blocking_panics r + 1\<rparr> else r)
     in router_record_latency CpuPool ms (on_tasks (worker_reply panicked w) r))"

section \<open>Caller-supplied work\<close>

datatype 'a run_result = RunReturned "Rejected + 'a" | RunUnwound | RunWaiting

definition run_decide :: "WorkHint \<Rightarrow> Inner \<Rightarrow> Strategy \<times> Inner" where
  "run_decide hint r =
    (let c = cfg_arc (conf r);
         queue_frac = queue_frac_of (max (cpu_parallelism c) 1) r;
         probe = Job_default\<lparr>compute_cost := wh_compute_cost hint,
                             scaling_potential := wh_scaling_potential hint\<rparr>;
         s = heuristic_strategy r probe;
         r' = log_decision \<lparr>rd_job_id = wh_id hint, rd_strategy = s, rd_compute_cost = wh_compute_cost hint,
               rd_cpu_busy = cpu_busy_of c r, rd_pressure = queue_frac, rd_source = ''run''\<rparr> r
     in (s, bump_route s r'))"

definition run_finish :: "Strategy \<Rightarrow> f64 \<Rightarrow> u64 \<Rightarrow> u64 \<Rightarrow> 'a option \<Rightarrow> Inner \<Rightarrow> 'a run_result \<times> Inner" where
  "run_finish s queue_frac budget_ms ms out r =
    (case out of
       Some v \<Rightarrow> (RunReturned (Inr v),
         record_pressure queue_frac False (lat_frac ms budget_ms)
           (router_record_latency s ms (count_completed r)))
     | None \<Rightarrow> (RunReturned (Inl Panicked), count_dropped r))"

text \<open>
  \<open>work\<close> is what the closure gives, \<open>None\<close> when it panics. Inline, a panic unwinds through
  the caller before any outcome is counted. Spawned work is awaited; pooled work waits for
  a permit (\<open>acquire_run\<close>) before it starts.
\<close>

definition run :: "submit_env \<Rightarrow> WorkHint \<Rightarrow> 'a option \<Rightarrow> Inner \<Rightarrow> 'a run_result \<times> Inner" where
  "run env hint work r =
    (if 0 < wh_deadline_ms hint \<and> wh_deadline_ms hint \<le> now_ms env
     then (RunReturned (Inl DeadlineExceeded),
           bump_route Drop (count_dropped (r\<lparr>deadline_exceeded := deadline_exceeded r + 1\<rparr>)))
     else let queue_frac = queue_frac_of (max (cpu_parallelism (cfg_arc (conf r))) 1) r;
              (s, r) = run_decide hint r
          in case s of
               Drop \<Rightarrow> (RunReturned (Inl Overloaded), record_pressure queue_frac True (FFin 1) (count_dropped r))
             | Inline \<Rightarrow>
                 (case work of
                    Some _ \<Rightarrow> run_finish Inline queue_frac (wh_latency_budget_ms hint) (elapsed_ms env) work r
                  | None \<Rightarrow> (RunUnwound, r))
             | Spawn \<Rightarrow> (RunWaiting, on_tasks (await_task \<lparr>rt_strategy = s, rt_queue_frac = queue_frac,
                       rt_budget_ms = wh_latency_budget_ms hint, rt_caller = True\<rparr>) r)
             | _ \<Rightarrow> (RunWaiting, on_tasks (add_run \<lparr>rt_strategy = s, rt_queue_frac = queue_frac,
                       rt_budget_ms = wh_latency_budget_ms hint, rt_caller = True\<rparr>) r))"

text \<open>
  The task or closure of a waiting caller has ended, with \<open>work\<close> as above. The closure gave
  its permit back when it ended (\<open>release_run\<close>), whether its caller was still there or not.
\<close>

definition run_resumed :: "RunTask \<Rightarrow> u64 \<Rightarrow> 'a option \<Rightarrow> Inner \<Rightarrow> 'a run_result \<times> Inner" where
  "run_resumed t ms work r =
     run_finish (rt_strategy t) (rt_queue_frac t) (rt_budget_ms t) ms work
       (on_tasks (resume_run t) r)"

section \<open>Threshold adaptation\<close>

definition ADAPTIVE_DECAY_RATE :: f64 where
  "ADAPTIVE_DECAY_RATE = rnd64 (10 / 100)"

definition raise_step :: "RouterConfig \<Rightarrow> u64 \<Rightarrow> f64" where
  "raise_step c raises =
     f64_mul (f64_clamp (adaptive_step c) (FFin 0) (FFin 1)) (if raises < 5 then FFin 2 else FFin (1 / 2))"

definition raised_threshold :: "RouterConfig \<Rightarrow> u64 \<Rightarrow> u64 \<Rightarrow> u64" where
  "raised_threshold c raises t =
     min (f64_to_u64 (f64_mul (f64_of_u64 t) (f64_add (FFin 1) (raise_step c raises))))
         (sat_mul (spawn_threshold c) 10)"

definition decayed_threshold :: "RouterConfig \<Rightarrow> u64 \<Rightarrow> u64" where
  "decayed_threshold c t =
    (let decay_step = f64_mul (f64_clamp (adaptive_step c) (FFin 0) (FFin 1)) ADAPTIVE_DECAY_RATE
     in max (f64_to_u64 (f64_mul (f64_of_u64 t) (f64_sub (FFin 1) decay_step))) (spawn_threshold c))"

definition maybe_adapt_threshold :: "Inner \<Rightarrow> Inner" where
  "maybe_adapt_threshold r =
    (let c = cfg (conf r)
     in if \<not> enable_adaptive_threshold c then r
        else case hm_get (latency (metrics r)) CpuPool of
               None \<Rightarrow> r
             | Some agg \<Rightarrow>
                 if la_count agg < 10 then r
                 else let agg = sync_percentiles agg;
                          m = metrics r;
                          r = r\<lparr>metrics := m\<lparr>latency := hm_insert CpuPool agg (latency m)\<rparr>\<rparr>;
                          p95 = p95_ms agg;
                          trigger_ms = f64_to_u64 (f64_mul (f64_of_u64 (cpu_p95_budget_ms c))
                                                           (adaptive_p95_threshold_factor c))
                      in if trigger_ms < p95 then
                           let raises = consecutive_raises r
                           in r\<lparr>consecutive_raises := raises + 1,
                                adaptive_spawn_threshold :=
                                  raised_threshold c raises (adaptive_spawn_threshold r)\<rparr>
                         else if p95 < f64_to_u64 (f64_mul (f64_of_u64 (cpu_p95_budget_ms c)) (rnd64 (11 / 10))) then
                           let r = r\<lparr>consecutive_raises := 0\<rparr>;
                               t = adaptive_spawn_threshold r
                           in if spawn_threshold c < t
                              then r\<lparr>adaptive_spawn_threshold := decayed_threshold c t,
                                     adaptive_decay_count := adaptive_decay_count r + 1\<rparr>
                              else r
                         else r)"

section \<open>Autoscaling and statistics\<close>

text \<open>What \<open>autoscale_tick\<close> does with a recommendation: it writes \<open>cfg\<close> only.\<close>

definition apply_recommendation :: "ScaleDirection \<Rightarrow> usize \<Rightarrow> Inner \<Rightarrow> Inner" where
  "apply_recommendation dir rec_cap r =
    (let c = cfg (conf r)
     in case dir of
          Up \<Rightarrow> let new_cap = min rec_cap 4096
                in if cpu_queue_cap c < new_cap
                   then r\<lparr>conf := (conf r)\<lparr>cfg := c\<lparr>cpu_queue_cap := new_cap\<rparr>\<rparr>\<rparr> else r
        | Down \<Rightarrow> let new_cap = max rec_cap 16
                  in if new_cap < cpu_queue_cap c
                     then r\<lparr>conf := (conf r)\<lparr>cfg := c\<lparr>cpu_queue_cap := new_cap\<rparr>\<rparr>\<rparr> else r
        | Hold \<Rightarrow> r)"

record RouterStats =
  rs_routed :: "(Strategy, u64) hashmap"
  rs_dropped :: u64
  rs_completed :: u64
  rs_adaptive_spawn_threshold :: u64
  rs_pressure_score :: f64
  rs_batch_enqueued :: "(string, u64) hashmap"
  rs_batch_flushed :: "(string, u64) hashmap"
  rs_blocking_panics :: u64
  rs_cpu_queue_depth :: usize
  rs_adaptive_decay_count :: u64
  rs_batch_miss_count :: u64

definition kind_counters_map :: "kind_counters \<Rightarrow> (string, u64) hashmap" where
  "kind_counters_map c =
     hm_insert ''MonteCarloRisk'' (monte_carlo_risk c)
       (hm_insert ''PrimeCount'' (prime_count c) (hm_insert ''HashMix'' (hash_mix c) []))"

definition stats_snapshot :: "Inner \<Rightarrow> RouterStats" where
  "stats_snapshot r =
    \<lparr>rs_routed = routed r, rs_dropped = dropped r, rs_completed = completed r,
     rs_adaptive_spawn_threshold = adaptive_spawn_threshold r,
     rs_pressure_score = live_pressure (FFin 0) r,
     rs_batch_enqueued = kind_counters_map (batch_enqueued r),
     rs_batch_flushed = kind_counters_map (batch_flushed r),
     rs_blocking_panics = blocking_panics r, rs_cpu_queue_depth = cpu_queue_depth (tasks r),
     rs_adaptive_decay_count = adaptive_decay_count r, rs_batch_miss_count = batch_miss_count r\<rparr>"

text \<open>
  One tick of the autoscaler: the observation and the recommendation, and then, under another
  lock, its application.
\<close>

definition load_observation :: "u64 \<Rightarrow> Inner \<Rightarrow> LoadObservation" where
  "load_observation now_secs r =
    (let stats = stats_snapshot r;
         total_jobs = rs_completed stats + rs_dropped stats;
         drop_rate = (if 0 < total_jobs then f64_div (f64_of_u64 (rs_dropped stats)) (f64_of_u64 total_jobs) else FFin 0)
     in \<lparr>timestamp_secs = now_secs, lo_total_jobs = total_jobs, lo_pressure = rs_pressure_score stats,
          lo_drop_rate = drop_rate\<rparr>)"

definition autoscale_observe ::
  "(nat \<Rightarrow> f64 \<Rightarrow> string) \<Rightarrow> u64 \<Rightarrow> Inner \<Rightarrow> AutoscaleRecommendation option \<times> Inner" where
  "autoscale_observe fmt now_secs r =
    (let c = cfg (conf r); a = as_observe (load_observation now_secs r) (autoscaler r)
     in (recommend fmt (cpu_parallelism c) (cpu_queue_cap c) a, r\<lparr>autoscaler := a\<rparr>))"

definition autoscale_tick :: "(nat \<Rightarrow> f64 \<Rightarrow> string) \<Rightarrow> u64 \<Rightarrow> Inner \<Rightarrow> Inner" where
  "autoscale_tick fmt now_secs r =
    (case autoscale_observe fmt now_secs r of
       (Some rec, r) \<Rightarrow> apply_recommendation (direction rec) (recommended_queue_cap rec) r
     | (None, r) \<Rightarrow> r)"

definition ema_latency :: "Inner \<Rightarrow> (Strategy, f64) hashmap" where
  "ema_latency r =
     map (\<lambda>(s, agg). (s, ema_ms agg)) (filter (\<lambda>(_, agg). 0 < la_count agg) (latency (metrics r)))"

text \<open>A subscriber's queue as the sequence of answers \<open>try_recv\<close> gives.\<close>

datatype 'a try_recv = Received 'a | Empty | Lagged nat | Closed

fun drain_decisions_to_latest :: "'a try_recv list \<Rightarrow> 'a option \<Rightarrow> 'a option" where
  "drain_decisions_to_latest [] latest = latest"
| "drain_decisions_to_latest (Received v # rx) latest = drain_decisions_to_latest rx (Some v)"
| "drain_decisions_to_latest (Lagged _ # rx) latest = drain_decisions_to_latest rx latest"
| "drain_decisions_to_latest (Empty # rx) latest = latest"
| "drain_decisions_to_latest (Closed # rx) latest = latest"

end
