(* ===== verification/RouterSteps.thy ===== *)
theory RouterSteps
  imports Router
begin

text \<open>
  The concurrent router: its operations as a labelled step relation, in any order the tasks
  may take them. Every step is simulated by steps of the work in flight (theory \<open>Tasks\<close>),
  so the invariant proved there holds for every reachable router; the lemmas here account
  for every call and bound the pool.
\<close>

section \<open>The step relation\<close>

text \<open>
  What a step shows to the outside: a call of \<open>submit\<close> or \<open>run\<close> (with whether a panic of
  the closure unwound through it), the end of a waiting submission, a caller of either that
  goes away while it waits, the panic of a pool worker, or nothing.
\<close>

datatype event =
    Submitted
  | RunCalled bool
  | Delivered Waiter "Output list"
  | Failed Waiter
  | Abandoned
  | WorkerPanicked nat
  | Internal

inductive router_step :: "Inner \<Rightarrow> event \<Rightarrow> Inner \<Rightarrow> bool" where
  Submit: "router_step r Submitted (snd (submit env job r))"
| Count: "w \<in> set (waiting (tasks r)) \<Longrightarrow> \<not> w_counted w \<Longrightarrow>
    router_step r Internal (on_tasks (count_enqueued (w_ticket w)) r)"
| Deliver: "w \<in> set (waiting (tasks r)) \<Longrightarrow> w_counted w \<Longrightarrow> (w_ticket w, out) \<in> set (replies (tasks r)) \<Longrightarrow>
    router_step r (Delivered w out) (resume_ok ms w r)"
| Fail: "w \<in> set (waiting (tasks r)) \<Longrightarrow> w_counted w \<Longrightarrow> w_ticket w \<notin> live_tickets (tasks r) \<Longrightarrow>
    router_step r (Failed w) (resume_err w r)"
| Abandon: "w \<in> set (waiting (tasks r)) \<Longrightarrow> w_counted w \<Longrightarrow>
    router_step r Abandoned (on_tasks (remove_waiter (w_ticket w)) r)"
| Spawn_done: "s \<in> set (spawn_waits (tasks r)) \<Longrightarrow>
    router_step r Internal (snd (resume_spawned panicked ms s r))"
| Abandon_spawn: "s \<in> set (spawn_waits (tasks r)) \<Longrightarrow>
    router_step r Abandoned (on_tasks (remove_spawn s) r)"
| Recv: "cpu_open (tasks r) \<Longrightarrow> in_hand (tasks r) = None \<Longrightarrow>
    router_step r Internal (on_tasks dispatcher_recv r)"
| Start: "cpu_open (tasks r) \<Longrightarrow> in_hand (tasks r) = Some w \<Longrightarrow> 0 < permits (tasks r) \<Longrightarrow>
    router_step r Internal (on_tasks (dispatcher_start w) r)"
| Exit: "cpu_open (tasks r) \<Longrightarrow> router_step r Internal (on_tasks dispatcher_exit r)"
| Worker: "w \<in> set (workers (tasks r)) \<Longrightarrow> router_step r Internal (worker_done False ms w r)"
| Worker_panic: "w \<in> set (workers (tasks r)) \<Longrightarrow>
    router_step r (WorkerPanicked (cw_ticket w)) (worker_done True ms w r)"
| Flusher: "router_step r Internal (flusher_tick lat r)"
| Run: "router_step r (RunCalled (fst (run env hint (work :: unit option) r) = RunUnwound))
    (snd (run env hint work r))"
| Run_acquire: "t \<in> set (run_pending (tasks r)) \<Longrightarrow> 0 < permits (tasks r) \<Longrightarrow>
    router_step r Internal (on_tasks (acquire_run t) r)"
| Run_ended: "t \<in> set (run_tasks (tasks r)) \<Longrightarrow> router_step r Internal (on_tasks (release_run t) r)"
| Run_resumed: "t \<in> set (run_waits (tasks r)) \<Longrightarrow>
    router_step r Internal (snd (run_resumed t ms (work :: unit option) r))"
| Abandon_pending: "t \<in> set (run_pending (tasks r)) \<Longrightarrow>
    router_step r Abandoned (on_tasks (abandon_pending t) r)"
| Abandon_running: "t \<in> set (run_tasks (tasks r)) \<Longrightarrow> rt_caller t \<Longrightarrow>
    router_step r Abandoned (on_tasks (abandon_running t) r)"
| Abandon_awaiting: "t \<in> set (run_waits (tasks r)) \<Longrightarrow>
    router_step r Abandoned (on_tasks (resume_run t) r)"
| Adapt: "router_step r Internal (maybe_adapt_threshold r)"
| Refresh: "router_step r Internal (refresh_pressure r)"
| Eot: "router_step r Internal (set_eot_pressure p r)"
| Patch: "router_step r Internal (r\<lparr>conf := snd (patch_config patch (conf r))\<rparr>)"
| Cancel_patch: "router_step r Internal (r\<lparr>conf := patch_config_cancelled patch (conf r)\<rparr>)"
| Set_config: "router_step r Internal (r\<lparr>conf := snd (post_config c (conf r))\<rparr>)"
| Install_config: "c \<in> set (arc_pending (conf r)) \<Longrightarrow>
    router_step r Internal (r\<lparr>conf := set_config_install c (conf r)\<rparr>)"
| Cancel_config: "c \<in> set (arc_pending (conf r)) \<Longrightarrow>
    router_step r Internal (r\<lparr>conf := set_config_cancel c (conf r)\<rparr>)"
| Observe_load: "router_step r Internal (snd (autoscale_observe fmt now_secs r))"
| Scale: "router_step r Internal (apply_recommendation dir cap r)"

inductive_cases router_step_DeliveredE: "router_step r (Delivered w out) r'"

inductive router_trace :: "Inner \<Rightarrow> event list \<Rightarrow> Inner \<Rightarrow> bool" where
  Trace_Nil: "router_trace r [] r"
| Trace_Snoc: "router_trace r es r' \<Longrightarrow> router_step r' e r'' \<Longrightarrow> router_trace r (es @ [e]) r''"

section \<open>What the helpers leave alone\<close>

named_theorems frame \<open>fields a helper of the router does not touch\<close>

lemma frame_tasks [frame]:
  "tasks (bump_route s r) = tasks r" "tasks (bump_kind_route k r) = tasks r"
  "tasks (check_sla_violation k ms r) = tasks r" "tasks (router_record_latency s ms r) = tasks r"
  "tasks (record_pressure qf d lf r) = tasks r" "tasks (record_neural_outcome job p s ms d r) = tasks r"
  "tasks (count_dropped r) = tasks r" "tasks (count_completed r) = tasks r"
  "tasks (broadcast dec r) = tasks r" "tasks (log_decision dec r) = tasks r"
  "tasks (on_tasks f r) = f (tasks r)"
  by (simp_all add: bump_route_def bump_kind_route_def check_sla_violation_def router_record_latency_def
      record_pressure_def record_neural_outcome_def count_dropped_def count_completed_def broadcast_def
      log_decision_def on_tasks_def Let_def)

lemma frame_conf [frame]:
  "conf (bump_route s r) = conf r" "conf (bump_kind_route k r) = conf r"
  "conf (check_sla_violation k ms r) = conf r" "conf (router_record_latency s ms r) = conf r"
  "conf (record_pressure qf d lf r) = conf r" "conf (record_neural_outcome job p s ms d r) = conf r"
  "conf (count_dropped r) = conf r" "conf (count_completed r) = conf r"
  "conf (broadcast dec r) = conf r" "conf (log_decision dec r) = conf r"
  "conf (on_tasks f r) = conf r"
  by (simp_all add: bump_route_def bump_kind_route_def check_sla_violation_def router_record_latency_def
      record_pressure_def record_neural_outcome_def count_dropped_def count_completed_def broadcast_def
      log_decision_def on_tasks_def Let_def)

text \<open>Ended calls minus started submissions; it moves by one at each end.\<close>

definition ended :: "Inner \<Rightarrow> u64" where
  "ended r = completed r + dropped r + batch_miss_count r - submit_counter r"

lemma frame_ended [frame]:
  "ended (bump_route s r) = ended r" "ended (bump_kind_route k r) = ended r"
  "ended (check_sla_violation k ms r) = ended r" "ended (router_record_latency s ms r) = ended r"
  "ended (record_pressure qf d lf r) = ended r" "ended (record_neural_outcome job p s ms d r) = ended r"
  "ended (broadcast dec r) = ended r" "ended (log_decision dec r) = ended r"
  "ended (on_tasks f r) = ended r"
  "ended (count_dropped r) = ended r + 1" "ended (count_completed r) = ended r + 1"
  by (simp_all add: ended_def bump_route_def bump_kind_route_def check_sla_violation_def router_record_latency_def
      record_pressure_def record_neural_outcome_def count_dropped_def count_completed_def broadcast_def
      log_decision_def on_tasks_def Let_def)

lemma frame_jobs [frame]:
  "tasks (finish_job job p s ms r) = tasks r" "ended (finish_job job p s ms r) = ended r + 1"
  "tasks (fail_job job p s qf r) = tasks r" "ended (fail_job job p s qf r) = ended r + 1"
  "tasks (snd (run_inline env job p qf r)) = tasks r" "ended (snd (run_inline env job p qf r)) = ended r + 1"
  "tasks (snd (run_spawned job p qf r)) = add_spawn \<lparr>sw_job = job, sw_pressure = p, sw_queue_frac = qf\<rparr> (tasks r)"
  "ended (snd (run_spawned job p qf r)) = ended r"
  "tasks (snd (resume_spawned panicked ms sw r)) = remove_spawn sw (tasks r)"
  "ended (snd (resume_spawned panicked ms sw r)) = ended r + 1"
  "tasks (drop_late_job job r) = tasks r" "ended (drop_late_job job r) = ended r + 1"
  "tasks (snd (cached_outputs env job r)) = tasks r" "ended (snd (cached_outputs env job r)) = ended r"
  by (simp_all add: finish_job_def fail_job_def run_inline_def run_spawned_def resume_spawned_def drop_late_job_def
      cached_outputs_def Let_def frame split: prod.splits option.splits)
    (simp_all add: ended_def finish_job_def count_completed_def count_dropped_def frame bump_route_def broadcast_def
      record_neural_outcome_def check_sla_violation_def record_pressure_def router_record_latency_def
      bump_kind_route_def Let_def)

section \<open>Simulation by the work in flight\<close>

lemma tasks_flush_entries: "tasks (fold (flush_entry lat) b r) = fold answer_entry b (tasks r)"
  by (induction b arbitrary: r) (simp_all add: flush_entry_def frame)

lemma ended_flush_entries: "ended (fold (flush_entry lat) b r) = ended r"
  by (induction b arbitrary: r) (simp_all add: flush_entry_def frame)

lemma flush_refines: "task_step\<^sup>*\<^sup>* (tasks r) (tasks (flush_batch_kind lat k r))"
proof (cases "batches (tasks r) k")
  case None
  then show ?thesis by (simp add: flush_batch_kind_def)
next
  case (Some q)
  show ?thesis
  proof (cases "q = []")
    case True
    then show ?thesis using Some by (simp add: flush_batch_kind_def)
  next
    case False
    let ?n = "min (length q) (unat (batch_max_size (cfg (conf r))))"
    have "tasks (flush_batch_kind lat k r) = fold answer_entry (sort_key be_seq (take ?n q))
        ((tasks r)\<lparr>batches := (batches (tasks r))(k \<mapsto> drop ?n q)\<rparr>)"
      using Some False by (simp add: flush_batch_kind_def Let_def tasks_flush_entries on_tasks_def)
    moreover have "set (sort_key be_seq (take ?n q)) \<subseteq> set q" using set_take_subset by simp
    ultimately show ?thesis using task_step.Flush [OF Some] by (metis r_into_rtranclp)
  qed
qed

lemma ended_flush: "ended (flush_batch_kind lat k r) = ended r"
  by (simp add: flush_batch_kind_def Let_def ended_flush_entries split: option.split)
    (simp add: ended_def on_tasks_def)

lemma send_to_batch_refines: "task_step\<^sup>*\<^sup>* (tasks r) (tasks (snd (send_to_batch env job p r)))"
proof (cases "batches (tasks r) (kind job)")
  case None
  then show ?thesis by (simp add: send_to_batch_def Let_def frame)
next
  case (Some q)
  let ?r = "bump_kind_route (kind job) (bump_route Batch r)"
  define r1 where "r1 = (on_tasks (push_batch job p (batch_seq ?r) q) (?r\<lparr>batch_seq := batch_seq ?r + 1\<rparr>))
     \<lparr>batch_enqueued := kc_add (kind job) 1 (batch_enqueued ?r)\<rparr>"
  have t: "tasks r1 = push_batch job p (batch_seq ?r) q (tasks r)" by (simp add: r1_def on_tasks_def frame)
  have "snd (send_to_batch env job p r) =
      (if unat (batch_max_size (cfg_arc (conf r))) \<le> length q + 1
       then flush_batch_kind (flush_latency env) (kind job) r1 else r1)"
    using Some by (simp add: send_to_batch_def Let_def frame r1_def) (simp add: on_tasks_def)
  moreover have "task_step\<^sup>*\<^sup>* (tasks r) (tasks r1)"
    unfolding t using task_step.Push_batch [of "tasks r" job q] Some by blast
  moreover have "task_step\<^sup>*\<^sup>* (tasks r) (tasks (flush_batch_kind (flush_latency env) (kind job) r1))"
    using calculation(2) flush_refines by (rule rtranclp_trans)
  ultimately show ?thesis by simp
qed

lemma send_to_pool_refines: "task_step\<^sup>*\<^sup>* (tasks r) (tasks (snd (send_to_pool job p qf r)))"
  using task_step.Push_cpu [of "tasks r" job p]
  by (auto simp: send_to_pool_def Let_def frame)

lemma submit_refines: "task_step\<^sup>*\<^sup>* (tasks r) (tasks (snd (submit env job r)))"
proof -
  have routed: "task_step\<^sup>*\<^sup>* (tasks r) (tasks (snd (submit_routed env job r)))" for r
  proof -
    obtain s src where d: "decide r job = (s, src)" by (cases "decide r job")
    note pool = send_to_pool_refines and batch = send_to_batch_refines
    show ?thesis
      unfolding submit_routed_def Let_def d prod.case
      by (cases s) (simp_all add: frame frame_jobs task_step.Add_spawn r_into_rtranclp,
          metis pool frame_tasks(10), metis batch frame_tasks(10))
  qed
  let ?r = "r\<lparr>submit_counter := submit_counter r + 1\<rparr>"
  obtain outs r2 where c: "cached_outputs env job ?r = (outs, r2)" by (cases "cached_outputs env job ?r")
  have "tasks r2 = tasks r" using frame_jobs(13) [of env job ?r] c by simp
  then show ?thesis using routed [of r2] by (simp add: submit_def Let_def frame c)
qed

lemma run_refines: "task_step\<^sup>*\<^sup>* (tasks r) (tasks (snd (run env hint work r)))"
proof -
  have d: "tasks (snd (run_decide hint r)) = tasks r" by (simp add: run_decide_def Let_def frame)
  obtain s r1 where s: "run_decide hint r = (s, r1)" by (cases "run_decide hint r")
  have "tasks r1 = tasks r" using d s by simp
  moreover have "rt_caller t \<Longrightarrow> task_step\<^sup>*\<^sup>* (tasks r1) (add_run t (tasks r1))"
    "task_step\<^sup>*\<^sup>* (tasks r1) (await_task t (tasks r1))" for t
    using task_step.Add_run task_step.Await_task by blast+
  ultimately show ?thesis
    by (cases s) (auto simp: run_def Let_def s run_finish_def frame bump_route_def count_dropped_def split: option.splits)
qed

theorem router_step_refines: "router_step r e r' \<Longrightarrow> task_step\<^sup>*\<^sup>* (tasks r) (tasks r')"
proof (induction rule: router_step.induct)
  case (Submit r env job)
  show ?case by (rule submit_refines)
next
  case (Deliver w r out ms)
  then show ?case using task_step.Receive by (simp add: resume_ok_def frame) blast
next
  case (Fail w r)
  then show ?case using task_step.Receive task_step.Cancel by (simp add: resume_err_def Let_def frame) blast
next
  case (Spawn_done s r panicked ms)
  show ?case using task_step.Remove_spawn by (simp add: frame_jobs) blast
next
  case (Worker w r ms)
  then show ?case using task_step.Worker [of w "tasks r" False] by (auto simp: worker_done_def Let_def frame)
next
  case (Worker_panic w r ms)
  then show ?case using task_step.Worker [of w "tasks r" True] by (auto simp: worker_done_def Let_def frame)
next
  case (Flusher r lat)
  show ?case using flush_refines by (simp add: flusher_tick_def Let_def)
next
  case (Run r env hint work)
  show ?case by (rule run_refines)
next
  case (Run_resumed t r ms work)
  show ?case using task_step.Resume_run [of "tasks r" t]
    by (simp add: run_resumed_def run_finish_def frame split: option.split) blast
next
  case (Adapt r)
  show ?case by (simp add: maybe_adapt_threshold_def Let_def split: option.split)
next
  case (Scale r dir cap)
  show ?case by (simp add: apply_recommendation_def Let_def split: ScaleDirection.split)
qed (auto simp: frame autoscale_observe_def refresh_pressure_def set_eot_pressure_def Let_def intro: task_step.intros)

section \<open>Reachable routers\<close>

lemma router_trace_refines: "router_trace r es r' \<Longrightarrow> task_step\<^sup>*\<^sup>* (tasks r) (tasks r')"
  by (induction rule: router_trace.induct) (auto intro: rtranclp_trans router_step_refines)

lemma reachable_tasks_ok:
  "router_trace (router_new c) es r \<Longrightarrow> tasks_ok (unat (cpu_parallelism c)) (tasks r)"
  using tasks_invariant [OF router_trace_refines] tasks_ok_new
  by (simp add: router_new_def)

section \<open>Panics\<close>

text \<open>Every ticket the history of panics lists was announced by an event of the execution.\<close>

lemma panics_flush: "panics (tasks (flush_batch_kind lat k r)) = panics (tasks r)"
  by (simp add: flush_batch_kind_def Let_def tasks_flush_entries split: option.split)
    (simp add: on_tasks_def)

lemma panics_submit: "panics (tasks (snd (submit env job r))) = panics (tasks r)"
proof -
  have routed: "panics (tasks (snd (submit_routed env job r))) = panics (tasks r)" for r
  proof -
    obtain s src where d: "decide r job = (s, src)" by (cases "decide r job")
    show ?thesis unfolding submit_routed_def Let_def d prod.case
      by (cases s) (auto simp: frame frame_jobs add_spawn_def send_to_pool_def send_to_batch_def push_cpu_def
          push_batch_def panics_flush Let_def split: option.split)
  qed
  let ?r = "r\<lparr>submit_counter := submit_counter r + 1\<rparr>"
  obtain outs r2 where c: "cached_outputs env job ?r = (outs, r2)" by (cases "cached_outputs env job ?r")
  have "tasks r2 = tasks r" using frame_jobs(13) [of env job ?r] c by simp
  then show ?thesis using routed [of r2] by (simp add: submit_def Let_def frame frame_jobs c)
qed

lemma panics_run: "panics (tasks (snd (run env hint work r))) = panics (tasks r)"
proof -
  have d: "tasks (snd (run_decide hint r)) = tasks r" by (simp add: run_decide_def Let_def frame)
  obtain s r1 where s: "run_decide hint r = (s, r1)" by (cases "run_decide hint r")
  then show ?thesis using d
    by (cases s) (auto simp: run_def Let_def run_finish_def frame add_run_def await_task_def bump_route_def
        count_dropped_def split: option.splits)
qed

lemma panics_step:
  "router_step r e r' \<Longrightarrow> set (panics (tasks r')) \<subseteq> {t. e = WorkerPanicked t} \<union> set (panics (tasks r))"
proof (induction rule: router_step.induct)
  case (Adapt r)
  show ?case by (simp add: maybe_adapt_threshold_def Let_def split: option.split)
next
  case (Scale r dir cap)
  show ?case by (simp add: apply_recommendation_def Let_def split: ScaleDirection.split)
qed (auto simp: panics_submit panics_run panics_flush frame frame_jobs flusher_tick_def worker_done_def worker_reply_def
    resume_ok_def resume_err_def run_resumed_def run_finish_def autoscale_observe_def refresh_pressure_def
    set_eot_pressure_def count_enqueued_def remove_waiter_def set_cancelled_def dispatcher_recv_def
    dispatcher_start_def dispatcher_exit_def run_step_defs Let_def split: option.splits list.splits)

lemma panics_announced:
  "router_trace (router_new c) es r \<Longrightarrow> set (panics (tasks r)) \<subseteq> {t. WorkerPanicked t \<in> set es}"
proof (induction "router_new c" es r rule: router_trace.induct)
  case Trace_Nil
  show ?case by (simp add: router_new_def tasks_new_def)
next
  case (Trace_Snoc es r' e r'')
  then show ?case using panics_step [OF Trace_Snoc(3)] by auto
qed

section \<open>Accounting\<close>

definition inflight :: "Tasks \<Rightarrow> nat" where
  "inflight T = length (waiting T) + length (spawn_waits T) + length (run_pending T)
     + length (filter rt_caller (run_tasks T)) + length (run_waits T)"

definition balance :: "Inner \<Rightarrow> u64" where
  "balance r = ended r + of_nat (inflight (tasks r))"

lemma inflight_flush: "inflight (tasks (flush_batch_kind lat k r)) = inflight (tasks r)"
  by (simp add: flush_batch_kind_def Let_def tasks_flush_entries split: option.split)
    (simp add: inflight_def on_tasks_def)

lemma balance_pool: "balance (snd (send_to_pool job p qf r)) = balance r + 1"
  by (simp add: send_to_pool_def Let_def balance_def frame frame_jobs)
    (simp add: inflight_def push_cpu_def)

lemma balance_batch: "balance (snd (send_to_batch env job p r)) = balance r + 1"
proof (cases "batches (tasks r) (kind job)")
  case None
  then show ?thesis
    by (simp add: send_to_batch_def Let_def frame balance_def)
      (simp add: ended_def bump_route_def bump_kind_route_def)
next
  case (Some q)
  have e: "ended (x\<lparr>batch_enqueued := v\<rparr>) = ended x" "ended (x\<lparr>batch_seq := w\<rparr>) = ended x" for x v w
    by (simp_all add: ended_def)
  show ?thesis using Some
    by (simp add: send_to_batch_def Let_def frame balance_def ended_flush inflight_flush e)
      (simp add: inflight_def push_batch_def)
qed

lemma balance_submit: "balance (snd (submit env job r)) = balance r"
proof -
  have routed: "balance (snd (submit_routed env job r)) = balance r + 1" for r
  proof -
    obtain s src where d: "decide r job = (s, src)" by (cases "decide r job")
    have b: "balance (log_decision dec r) = balance r" "balance (bump_route s' r) = balance r" for dec s' r
      by (simp_all add: balance_def frame)
    show ?thesis
      unfolding submit_routed_def Let_def d prod.case
      by (cases s) (simp_all add: balance_pool balance_batch b,
          simp_all add: balance_def frame frame_jobs, simp add: inflight_def add_spawn_def)
  qed
  let ?r = "r\<lparr>submit_counter := submit_counter r + 1\<rparr>"
  have start: "balance ?r = balance r - 1" by (simp add: balance_def ended_def)
  obtain outs r2 where c: "cached_outputs env job ?r = (outs, r2)" by (cases "cached_outputs env job ?r")
  have r2: "balance r2 = balance r - 1"
    using frame_jobs(13,14) [of env job ?r] c start by (simp add: balance_def)
  have fin: "balance (count_completed x) = balance x + 1" "balance (drop_late_job job x) = balance x + 1"
    "balance (router_record_latency s ms (bump_route s' x)) = balance x" for x s ms s'
    by (simp_all add: balance_def frame)
  show ?thesis using routed [of r2] r2 start by (simp add: submit_def Let_def c fin)
qed

lemma balance_run:
  "balance (snd (run env hint work r)) =
     (if fst (run env hint work r) = RunUnwound then balance r else balance r + 1)"
proof -
  have d: "balance (snd (run_decide hint r)) = balance r"
    by (simp add: run_decide_def Let_def balance_def frame)
  obtain s r1 where s: "run_decide hint r = (s, r1)" by (cases "run_decide hint r")
  have r1: "balance r1 = balance r" using d s by simp
  have fin: "balance (snd (run_finish s qf b ms out x)) = balance x + 1"
    "fst (run_finish s qf b ms out x) \<noteq> RunUnwound" for s qf b ms x and out :: "'b option"
    by (simp_all add: run_finish_def balance_def frame split: option.split)
  have "balance (on_tasks (add_run t) x) = balance x + 1" "balance (on_tasks (await_task t) x) = balance x + 1" for t x
    by (simp_all add: balance_def frame) (simp_all add: inflight_def add_run_def await_task_def)
  moreover have "balance (record_pressure qf True (FFin 1) (count_dropped x)) = balance x + 1" for qf x
    by (simp add: balance_def frame)
  moreover have "balance (bump_route Drop (count_dropped (x\<lparr>deadline_exceeded := n\<rparr>))) = balance x + 1" for n x
    by (simp add: balance_def frame) (simp add: ended_def)
  ultimately show ?thesis using r1
    by (cases s) (auto simp: run_def Let_def s fin split: option.splits)
qed

lemma length_remove_waiter:
  "distinct (map w_ticket ws) \<Longrightarrow> w \<in> set ws \<Longrightarrow>
     Suc (length (filter (\<lambda>v. w_ticket v \<noteq> w_ticket w) ws)) = length ws"
proof (induction ws)
  case (Cons v ws)
  show ?case
  proof (cases "w_ticket v = w_ticket w")
    case True
    then have "\<forall>u \<in> set ws. w_ticket u \<noteq> w_ticket w" using Cons.prems(1) by (metis distinct.simps(2) image_eqI list.set_map list.simps(9))
    then show ?thesis using True by (simp add: filter_id_conv)
  next
    case False
    then show ?thesis using Cons by auto
  qed
qed simp

lemma balance_remove_waiter:
  assumes "tickets_ok (tasks r)" "w \<in> set (waiting (tasks r))"
  shows "balance (on_tasks (remove_waiter (w_ticket w)) r) = balance r - 1"
proof -
  let ?ws = "waiting (tasks r)"
  have "Suc (length (filter (\<lambda>v. w_ticket v \<noteq> w_ticket w) ?ws)) = length ?ws"
    by (rule length_remove_waiter) (use assms in \<open>simp_all add: tickets_ok_def\<close>)
  then have "of_nat (length ?ws) = (of_nat (length (filter (\<lambda>v. w_ticket v \<noteq> w_ticket w) ?ws)) + 1 :: u64)"
    by (metis of_nat_Suc add.commute)
  then show ?thesis by (simp add: balance_def frame) (simp add: inflight_def remove_waiter_def)
qed

text \<open>What an event contributes to the balance of ended and pending calls.\<close>

fun opened :: "event \<Rightarrow> nat" where
  "opened (RunCalled unwound) = (if unwound then 0 else 1)"
| "opened _ = 0"

fun lost :: "event \<Rightarrow> nat" where
  "lost Abandoned = 1"
| "lost _ = 0"

lemma length_remove1_Suc: "x \<in> set xs \<Longrightarrow> length xs = Suc (length (remove1 x xs))"
  by (induction xs) auto

lemma length_filter_remove1:
  assumes "t \<in> set ts" "P t"
  shows "length (filter P ts) = Suc (length (filter P (remove1 t ts)))"
  using length_remove1_Suc [of t "filter P ts"] assms by (simp add: filter_remove1)

text \<open>What the steps of the callers that await a task do to the number of pending calls.\<close>

lemma inflight_moves:
  "s \<in> set (spawn_waits T) \<Longrightarrow> inflight T = Suc (inflight (remove_spawn s T))"
  "t \<in> set (run_pending T) \<Longrightarrow> inflight T = Suc (inflight (abandon_pending t T))"
  "t \<in> set (run_waits T) \<Longrightarrow> inflight T = Suc (inflight (resume_run t T))"
  "t \<in> set (run_tasks T) \<Longrightarrow> rt_caller t \<Longrightarrow> inflight T = Suc (inflight (abandon_running t T))"
  "t \<in> set (run_pending T) \<Longrightarrow> rt_caller t \<Longrightarrow> inflight (acquire_run t T) = inflight T"
  "t \<in> set (run_tasks T) \<Longrightarrow> inflight (release_run t T) = inflight T"
  using length_remove1_Suc [of s "spawn_waits T"] length_remove1_Suc [of t "run_pending T"]
    length_remove1_Suc [of t "run_waits T"] length_filter_remove1 [of t "run_tasks T" rt_caller]
    remove1_filter_not [of rt_caller t "run_tasks T"]
  by (simp_all add: inflight_def run_step_defs filter_remove1)

lemma balance_moves:
  "inflight (tasks r) = Suc (inflight (f (tasks r))) \<Longrightarrow> balance (on_tasks f r) = balance r - 1"
  "inflight (f (tasks r)) = inflight (tasks r) \<Longrightarrow> balance (on_tasks f r) = balance r"
  by (simp_all add: balance_def frame)

lemma tasks_ok_tickets: "tasks_ok P T \<Longrightarrow> tickets_ok T"
  by (simp add: tasks_ok_def)

lemma balance_step:
  "router_step r e r' \<Longrightarrow> tasks_ok P (tasks r) \<Longrightarrow>
     balance r' + of_nat (lost e) = balance r + of_nat (opened e)"
proof (induction rule: router_step.induct)
  case (Submit r env job)
  then show ?case by (simp add: balance_submit)
next
  case (Count w r)
  then show ?case by (simp add: balance_def frame) (simp add: inflight_def count_enqueued_def)
next
  case (Deliver w r out ms)
  then show ?case using balance_remove_waiter [of r w] tasks_ok_tickets
    by (simp add: resume_ok_def balance_def frame)
next
  case (Fail w r)
  then show ?case using balance_remove_waiter [of r w] tasks_ok_tickets
    by (simp add: resume_err_def Let_def balance_def frame) (simp add: inflight_def set_cancelled_def)
next
  case (Abandon w r)
  then show ?case using balance_remove_waiter [of r w] tasks_ok_tickets by simp
next
  case (Recv r)
  then show ?case
    by (simp add: balance_def frame) (simp add: inflight_def dispatcher_recv_def split: list.split)
next
  case (Start r w)
  then show ?case by (simp add: balance_def frame) (simp add: inflight_def dispatcher_start_def)
next
  case (Exit r)
  then show ?case by (simp add: balance_def frame) (simp add: inflight_def dispatcher_exit_def)
next
  case (Spawn_done s r panicked ms)
  then show ?case using inflight_moves(1) [of s "tasks r"] by (simp add: balance_def frame_jobs)
next
  case (Abandon_spawn s r)
  then show ?case using inflight_moves(1) by (simp add: balance_moves)
next
  case (Worker w r ms)
  show ?case
    by (simp add: worker_done_def Let_def balance_def frame) (simp add: inflight_def worker_reply_def Let_def)
next
  case (Worker_panic w r ms)
  have "ended (r\<lparr>blocking_panics := n\<rparr>) = ended r" for n by (simp add: ended_def)
  then show ?case
    by (simp add: worker_done_def Let_def balance_def frame) (simp add: inflight_def worker_reply_def Let_def)
next
  case (Flusher r lat)
  have "ended (x\<lparr>flusher_idx := n\<rparr>) = ended x" for x n by (simp add: ended_def)
  then show ?case by (simp add: flusher_tick_def Let_def balance_def ended_flush inflight_flush)
next
  case (Run r env hint work)
  then show ?case by (simp add: balance_run)
next
  case (Run_acquire t r)
  then have "rt_caller t" by (auto simp: tasks_ok_def pool_ok_def list_all_iff)
  then show ?case using Run_acquire inflight_moves(5) by (simp add: balance_moves)
next
  case (Run_ended t r)
  then show ?case using inflight_moves(6) by (simp add: balance_moves)
next
  case (Run_resumed t r ms work)
  have "balance (snd (run_finish s qf b ms out x)) = balance x + 1" for s qf b ms x and out :: "unit option"
    by (simp add: run_finish_def balance_def frame split: option.split)
  then show ?case using Run_resumed inflight_moves(3) [of t "tasks r"] by (simp add: run_resumed_def balance_moves)
next
  case (Abandon_pending t r)
  then show ?case using inflight_moves(2) by (simp add: balance_moves)
next
  case (Abandon_running t r)
  then show ?case using inflight_moves(4) by (simp add: balance_moves)
next
  case (Abandon_awaiting t r)
  then show ?case using inflight_moves(3) by (simp add: balance_moves)
next
  case (Adapt r)
  show ?case
    by (simp add: maybe_adapt_threshold_def Let_def balance_def ended_def split: option.split)
next
  case (Refresh r)
  show ?case by (simp add: refresh_pressure_def Let_def balance_def ended_def)
next
  case (Eot r p)
  show ?case by (simp add: set_eot_pressure_def balance_def ended_def)
next
  case (Patch r patch)
  show ?case by (simp add: balance_def ended_def)
next
  case (Cancel_patch r patch)
  show ?case by (simp add: balance_def ended_def)
next
  case (Set_config r c)
  show ?case by (simp add: balance_def ended_def)
next
  case (Install_config c r)
  show ?case by (simp add: balance_def ended_def)
next
  case (Cancel_config c r)
  show ?case by (simp add: balance_def ended_def)
next
  case (Observe_load r fmt now_secs)
  show ?case by (simp add: autoscale_observe_def Let_def balance_def ended_def)
next
  case (Scale r dir cap)
  show ?case by (simp add: apply_recommendation_def Let_def balance_def ended_def split: ScaleDirection.split)
qed

lemma balance_trace:
  "router_trace (router_new c) es r \<Longrightarrow>
     balance r + of_nat (sum_list (map lost es)) = of_nat (sum_list (map opened es))"
proof (induction "router_new c" es r rule: router_trace.induct)
  case Trace_Nil
  show ?case by (simp add: balance_def ended_def router_new_def inflight_def tasks_new_def)
next
  case (Trace_Snoc es r' e r'')
  from balance_step [OF Trace_Snoc(3) reachable_tasks_ok [OF Trace_Snoc(1)]]
  have "balance r'' = balance r' + of_nat (opened e) - of_nat (lost e)" by (simp add: algebra_simps)
  moreover have "balance r' = of_nat (sum_list (map opened es)) - of_nat (sum_list (map lost es))"
    using Trace_Snoc(2) by (simp add: algebra_simps)
  ultimately show ?case by simp
qed

section \<open>Properties\<close>

text \<open>
  C1. No call is lost or counted twice: along every execution, the completed, dropped and
  batch-miss counters, the calls still pending (on a reply, a spawned task, a permit or a
  closure) and the callers of either function that went away while they waited there add up to
  the submissions plus the calls of \<open>run\<close> that did not unwind, modulo 2^64. A caller that goes
  away while it waits for one of the router's own locks is outside the model.
\<close>

theorem every_call_accounted:
  assumes "router_trace (router_new c) es r"
  shows "completed r + dropped r + batch_miss_count r
      + of_nat (length (waiting (tasks r)) + length (spawn_waits (tasks r)) + length (run_pending (tasks r))
          + length (filter rt_caller (run_tasks (tasks r))) + length (run_waits (tasks r)))
      + of_nat (length (filter (\<lambda>e. e = Abandoned) es))
    = submit_counter r + of_nat (length (filter (\<lambda>e. e = RunCalled False) es))"
proof -
  have l: "sum_list (map lost es) = length (filter (\<lambda>e. e = Abandoned) es)"
  proof (induction es)
    case (Cons e es)
    then show ?case by (cases e) auto
  qed simp
  have o: "sum_list (map opened es) = length (filter (\<lambda>e. e = RunCalled False) es)"
  proof (induction es)
    case (Cons e es)
    then show ?case by (cases e) auto
  qed simp
  show ?thesis using balance_trace [OF assms] unfolding l o balance_def ended_def inflight_def
    by (simp add: algebra_simps)
qed

definition still_env :: submit_env where
  "still_env = \<lparr>now_ms = 7, instant = 0, elapsed_ms = 1, flush_latency = (\<lambda>_. 0),
     fmt_f64 = (\<lambda>_. ''0''), parse_f64 = (\<lambda>_. None)\<rparr>"

text \<open>A first execution: one late job.\<close>

lemma late_job_trace:
  "router_trace (router_new c) [Submitted]
     (snd (submit still_env (Job_default\<lparr>deadline_ms := 5\<rparr>) (router_new c)))"
  using Trace_Snoc [OF Trace_Nil [of "router_new c"] router_step.Submit] by simp

theorem every_call_accounted_witness:
  "completed (snd (submit still_env (Job_default\<lparr>deadline_ms := 5\<rparr>) (router_new RouterConfig_default)))
   + dropped (snd (submit still_env (Job_default\<lparr>deadline_ms := 5\<rparr>) (router_new RouterConfig_default))) = 1"
  using every_call_accounted [OF late_job_trace [of RouterConfig_default]]
  by (simp add: submit_def still_env_def Job_default_def drop_late_job_def router_new_def tasks_new_def
      bump_route_def count_dropped_def broadcast_def)

text \<open>
  C2. Concurrency is bounded: in every reachable state the free permits, the running workers
  and the running closures of \<open>run\<close> add up to the parallelism the router was created with,
  whatever the configuration became, and the queue never exceeds its capacity.
\<close>

theorem pool_bounded:
  assumes "router_trace (router_new c) es r"
  shows "permits (tasks r) + length (workers (tasks r)) + length (run_tasks (tasks r)) = unat (cpu_parallelism c)
    \<and> length (cpu_queue (tasks r)) \<le> cpu_cap (tasks r)"
  using reachable_tasks_ok [OF assms] by (simp add: tasks_ok_def pool_ok_def)

theorem pool_bounded_witness:
  "permits (tasks (snd (submit still_env (Job_default\<lparr>deadline_ms := 5\<rparr>) (router_new RouterConfig_default)))) \<le> 8"
  using pool_bounded [OF late_job_trace [of RouterConfig_default]] by (simp add: RouterConfig_default_def)

text \<open>
  C5. A waiting submission receives the outputs of its own job: what \<open>rx.await\<close> delivers is
  the result of executing the submitted job. Only a submission to the CPU pool can get the
  empty vector instead, and only after the very worker that held its ticket panicked.
\<close>

theorem delivered_outputs_are_own:
  assumes "router_trace (router_new c) es r" and "router_step r (Delivered w out) r'"
  shows "out = execute_job (w_job w)
    \<or> w_strategy w = CpuPool \<and> out = [] \<and> WorkerPanicked (w_ticket w) \<in> set es"
  using assms(2)
proof (rule router_step_DeliveredE)
  assume w: "w \<in> set (waiting (tasks r))" and out: "(w_ticket w, out) \<in> set (replies (tasks r))"
  have "tickets_ok (tasks r)" using reachable_tasks_ok [OF assms(1)] by (simp add: tasks_ok_def)
  then have "matches w (tasks r)" using w by (simp add: tickets_ok_def)
  then show ?thesis using out panics_announced [OF assms(1)] unfolding matches_def by fastforce
qed

text \<open>An execution that uses the CPU pool: a fresh router sends this job to it.\<close>

definition pool_job :: Job where
  "pool_job = Job_default\<lparr>job_id := 5, kind := PrimeCount, compute_cost := 1000000\<rparr>"

lemma weighted_pressure_zero: "weighted_pressure (FFin 0) (FFin 0) (FFin 0) (FFin 0) = FFin 0"
proof -
  have z: "f64_mul w (FFin 0) = FFin 0" if "\<exists>q. w = FFin q \<and> 0 < q" for w using that by auto
  show ?thesis
    unfolding weighted_pressure_def pressure_weights_pos [THEN z] by (simp add: f64_clamp_def)
qed

lemma fresh_pressure:
  assumes "metrics r = metrics_new a" "eot_pressure_milli r = 0" "pressure_cache r = FFin 0"
  shows "submit_pressure (FFin 0) r = FFin 0"
  by (simp add: submit_pressure_def live_pressure_def score_def assms metrics_new_def weighted_pressure_zero
      pressure_new_def eot_pressure_def f64_max_def f64_of_u64_def f64_of_nat_def Let_def)

lemma pool_job_choice: "neural_choose neural_initial pool_job (FFin 0) = CpuPool"
proof -
  let ?sc = "score_all neural_initial pool_job (FFin 0)"
  have e: "\<not> fp_lt (explore_unit neural_initial pool_job) (nc_epsilon (nconfig neural_initial))"
    using job_5_exploits [of "Job_default\<lparr>kind := PrimeCount, compute_cost := 1000000\<rparr>"]
    by (simp add: pool_job_def Job_default_def)
  have f: "features_of neural_initial pool_job (FFin 0) = [FFin 1, FFin 0, FFin 1, FFin 0, FFin 0, FFin 0, FFin 0]"
    by (simp add: features_of_def feature_vector_normalized_def pool_job_def Job_default_def neural_initial_config
        NeuralRouterConfig_default_def MAX_COMPUTE_COST_def MAX_LATENCY_BUDGET_MS_def f64_of_u64_def
        f64_of_nat_exact min_def f64_clamp_def)
  have ex: "rnd64 2 = FFin 2" "rnd64 (1 / 2) = FFin (1 / 2)" "rnd64 (3 / 2) = FFin (3 / 2)"
    using rnd64_eval [of 1 2] rnd64_eval [of "- 1" "1 / 2"] rnd64_eval [of 0 "3 / 2"]
      rne_of_int [of "2 ^ 52"] rne_of_int [of "3 * 2 ^ 51"] by (simp_all add: pow2_def)
  obtain t where t: "rnd64 (3 / 10) = FFin t" "rnd64 t = FFin t" "0 \<le> t" by (rule rnd64_unit [of "3 / 10"]) auto
  obtain e8 where e8: "rnd64 (8 / 10) = FFin e8" by (rule rnd64_unit [of "8 / 10"]) auto
  have "t \<le> 1 / 2" by (rule rnd64_le [OF t(1) ex(2)]) simp
  then obtain u where u: "rnd64 (1 / 2 + t) = FFin u" "rnd64 u = FFin u" "u \<le> 1"
    using rnd64_unit [of "1 / 2 + t"] t(3) by auto
  have "rnd64 (4 / 5) = FFin e8" "rnd64 (- 1) = FFin (- 1)" "rnd64 (- 2) = FFin (- 2)" "rnd64 (- (1 / 2)) = FFin (- 1 / 2)"
    using e8 rnd64_neg [of 1] rnd64_neg [of 2] rnd64_neg [of "1 / 2"] ex by simp_all
  then have sc: "?sc = [FFin (- 2), FFin u, FFin 2, FFin 1, FFin (- 2)]"
    using t(1,2) u(1,2) ex by (simp add: score_all_def f neural_initial_weights heuristic_weights_def dot7_def)
  have "fp_le (rnd64 (8 / 10)) (FFin 0) = False"
  proof -
    have "fp_le (rnd64 (1 / 2)) (rnd64 (8 / 10))" by (rule rnd64_mono) simp
    then show ?thesis unfolding ex(2) e8 by simp
  qed
  then have na: "\<not> fp_le (drop_pressure_threshold (nconfig neural_initial)) (FFin 0)"
    by (simp add: neural_initial_config NeuralRouterConfig_default_def)
  show ?thesis using e na u(3)
    by (cases "- 2 < u")
      (simp_all add: neural_choose_def Let_def sc greedy_index_def greedy_step_def IDX_DROP_def index_to_strategy_def)
qed

definition pool_start :: Inner where
  "pool_start = snd (submit still_env pool_job (router_new RouterConfig_default))"

definition pool_waiter :: Waiter where
  "pool_waiter = \<lparr>w_ticket = 0, w_job = pool_job, w_pressure = FFin 0, w_strategy = CpuPool, w_counted = False\<rparr>"

lemma pool_start_tasks: "tasks pool_start = push_cpu pool_job (FFin 0) (tasks_new 512 8)"
proof -
  define r0 where "r0 = router_new RouterConfig_default\<lparr>submit_counter := 1\<rparr>"
  define r where "r = snd (cached_outputs still_env pool_job r0)"
  have c: "cached_outputs still_env pool_job r0 = ([], r)"
    by (simp add: r_def r0_def cached_outputs_def cache_get_def router_new_def cache_new_def Let_def)
  have r: "conf r = \<lparr>cfg = RouterConfig_default, cfg_arc = RouterConfig_default, arc_pending = []\<rparr>"
    "tasks r = tasks_new 512 8" "metrics r = metrics_new (ema_alpha RouterConfig_default)"
    "eot_pressure_milli r = 0" "pressure_cache r = FFin 0" "learner r = neural_initial"
    "adaptive_spawn_threshold r = 60000"
    by (simp_all add: r_def r0_def cached_outputs_def cache_get_def router_new_def cache_new_def Let_def
        RouterConfig_default_def)
  have q: "queue_frac_of (cpu_parallelism (cfg_arc (conf r))) r = FFin 0"
    by (simp add: queue_frac_of_def r RouterConfig_default_def tasks_new_def f64_of_u64_def f64_of_nat_exact f64_sub_def
        rnd64_neg)
  have p: "submit_pressure (FFin 0) r = FFin 0" by (rule fresh_pressure) (rule r)+
  have "heuristic_strategy r pool_job \<noteq> Drop"
    by (simp add: heuristic_strategy_def choose_strategy_def effective_cfg_def cpu_busy_of_def r
        RouterConfig_default_def tasks_new_def pool_job_def Job_default_def sat_sub_def)
  then have d: "decide r pool_job = (CpuPool, ''neural'')"
    by (simp add: decide_def Let_def q p r(6) pool_job_choice is_warmed_up_def neural_initial_config
        NeuralRouterConfig_default_def)
  have "submit still_env pool_job (router_new RouterConfig_default) = submit_routed still_env pool_job r"
  proof -
    have "router_new RouterConfig_default\<lparr>submit_counter := submit_counter (router_new RouterConfig_default) + 1\<rparr> = r0"
      by (simp add: r0_def router_new_def)
    moreover have "deadline_ms pool_job = 0" "compute_cost pool_job \<noteq> 0"
      by (simp_all add: pool_job_def Job_default_def)
    ultimately show ?thesis by (simp add: submit_def Let_def c)
  qed
  then have ps: "pool_start = snd (submit_routed still_env pool_job r)" by (simp add: pool_start_def)
  have can: "can_send (tasks r)" by (simp add: r(2) can_send_def tasks_new_def)
  have "tasks (snd (submit_routed still_env pool_job r)) = push_cpu pool_job (FFin 0) (tasks r)"
    by (simp add: submit_routed_def Let_def d send_to_pool_def frame q p can)
  then show ?thesis unfolding ps r(2) .
qed

lemma pool_trace: "router_trace (router_new RouterConfig_default) [Submitted] pool_start"
  unfolding pool_start_def
  using Trace_Snoc [OF Trace_Nil [of "router_new RouterConfig_default"] router_step.Submit] by simp

text \<open>From there: the counter, the dispatcher, the worker, and the reply.\<close>

definition pool_tasks :: Tasks where
  "pool_tasks = worker_reply False \<lparr>cw_job = pool_job, cw_ticket = 0\<rparr>
     (dispatcher_start \<lparr>cw_job = pool_job, cw_ticket = 0\<rparr>
       (dispatcher_recv (count_enqueued 0 (push_cpu pool_job (FFin 0) (tasks_new 512 8)))))"

lemma pool_run: "\<exists>r. router_trace (router_new RouterConfig_default) [Submitted, Internal, Internal, Internal, Internal] r
    \<and> tasks r = pool_tasks"
proof -
  let ?w = "\<lparr>cw_job = pool_job, cw_ticket = 0\<rparr>"
  note d = push_cpu_def tasks_new_def count_enqueued_def dispatcher_recv_def dispatcher_start_def pool_start_tasks frame
  let ?r1 = "on_tasks (count_enqueued 0) pool_start"
  let ?r2 = "on_tasks dispatcher_recv ?r1"
  let ?r3 = "on_tasks (dispatcher_start ?w) ?r2"
  have "router_step pool_start Internal ?r1"
    using router_step.Count [of pool_waiter pool_start] by (simp add: d pool_waiter_def)
  from Trace_Snoc [OF pool_trace this]
  have t1: "router_trace (router_new RouterConfig_default) [Submitted, Internal] ?r1" by simp
  have "router_step ?r1 Internal ?r2" by (rule router_step.Recv) (simp_all add: d)
  from Trace_Snoc [OF t1 this]
  have t2: "router_trace (router_new RouterConfig_default) [Submitted, Internal, Internal] ?r2" by simp
  have "router_step ?r2 Internal ?r3" by (rule router_step.Start) (simp_all add: d)
  from Trace_Snoc [OF t2 this]
  have t3: "router_trace (router_new RouterConfig_default) [Submitted, Internal, Internal, Internal] ?r3" by simp
  have "router_step ?r3 Internal (worker_done False 0 ?w ?r3)" by (rule router_step.Worker) (simp add: d)
  from Trace_Snoc [OF t3 this]
  have "router_trace (router_new RouterConfig_default) [Submitted, Internal, Internal, Internal, Internal]
      (worker_done False 0 ?w ?r3)" by simp
  moreover have "tasks (worker_done False 0 ?w ?r3) = pool_tasks"
    by (simp add: worker_done_def Let_def frame pool_tasks_def pool_start_tasks)
  ultimately show ?thesis by blast
qed

theorem delivered_outputs_are_own_witness:
  "\<exists>r r' w. router_trace (router_new RouterConfig_default) [Submitted, Internal, Internal, Internal, Internal] r
     \<and> router_step r (Delivered w (execute_job pool_job)) r'
     \<and> (execute_job pool_job = execute_job (w_job w)
         \<or> w_strategy w = CpuPool \<and> execute_job pool_job = []
           \<and> WorkerPanicked (w_ticket w) \<in> set [Submitted, Internal, Internal, Internal, Internal])"
proof -
  let ?w = "pool_waiter\<lparr>w_counted := True\<rparr>"
  obtain r where r: "router_trace (router_new RouterConfig_default) [Submitted, Internal, Internal, Internal, Internal] r"
    "tasks r = pool_tasks" using pool_run by blast
  have "?w \<in> set (waiting (tasks r))" "w_counted ?w" "(w_ticket ?w, execute_job pool_job) \<in> set (replies (tasks r))"
    by (simp_all add: r(2) pool_tasks_def worker_reply_def worker_output_def send_reply_def Let_def push_cpu_def
        tasks_new_def count_enqueued_def dispatcher_recv_def dispatcher_start_def pool_waiter_def)
  from router_step.Deliver [OF this, of 0]
  have d: "router_step r (Delivered ?w (execute_job pool_job)) (resume_ok 0 ?w r)" .
  show ?thesis using delivered_outputs_are_own [OF r(1) d] r(1) d by blast
qed

text \<open>
  The dispatcher may decrement the counter before the submission increments it: the
  counter then wraps around to its largest value.
\<close>

lemma depth_counter_can_wrap:
  "\<exists>r. router_trace (router_new RouterConfig_default) [Submitted, Internal, Internal] r
    \<and> cpu_queue_depth (tasks r) = - 1"
proof -
  let ?w = "\<lparr>cw_job = pool_job, cw_ticket = 0\<rparr>"
  note d = push_cpu_def tasks_new_def dispatcher_recv_def dispatcher_start_def pool_start_tasks frame
  let ?r1 = "on_tasks dispatcher_recv pool_start"
  let ?r2 = "on_tasks (dispatcher_start ?w) ?r1"
  have "router_step pool_start Internal ?r1" by (rule router_step.Recv) (simp_all add: d)
  from Trace_Snoc [OF pool_trace this]
  have t1: "router_trace (router_new RouterConfig_default) [Submitted, Internal] ?r1" by simp
  have "router_step ?r1 Internal ?r2" by (rule router_step.Start) (simp_all add: d)
  from Trace_Snoc [OF t1 this]
  have "router_trace (router_new RouterConfig_default) [Submitted, Internal, Internal] ?r2" by simp
  moreover have "cpu_queue_depth (tasks ?r2) = - 1" by (simp add: d)
  ultimately show ?thesis by blast
qed

text \<open>
  C8. The depth counter is exact: plus the submissions that have sent their work but not yet
  incremented it, it equals the items in the queue and in the dispatcher's hand plus those
  that the dispatcher discarded when it left, modulo 2^64. Nothing is discarded while it runs; what
  it discards stays counted for ever. A worker that has not panicked always executes its
  job: the cancellation flag is never set early.
\<close>

theorem depth_counts_queue:
  assumes "router_trace (router_new c) es r"
  shows "cpu_queue_depth (tasks r) + of_nat (length (filter (\<lambda>w. w_counted w = False) (waiting (tasks r)))) =
        of_nat (length (cpu_queue (tasks r)) + (if in_hand (tasks r) = None then 0 else 1) + discarded (tasks r))
    \<and> (cpu_open (tasks r) = False \<or> discarded (tasks r) = 0)
    \<and> list_all (\<lambda>w. worker_output False w (tasks r) = execute_job (cw_job w)) (workers (tasks r))"
proof -
  have ok: "depth_ok (tasks r)" "tickets_ok (tasks r)" using reachable_tasks_ok [OF assms] by (simp_all add: tasks_ok_def)
  have "list_all (\<lambda>w. worker_output False w (tasks r) = execute_job (cw_job w)) (workers (tasks r))"
    using cancelled_never_seen [OF ok(2)] by (auto simp: list_all_iff worker_output_def cpu_items_def)
  then show ?thesis using ok(1)
    by (auto simp: depth_ok_def uncounted_def hand_list_def split: option.splits)
qed

theorem depth_counts_queue_witness:
  "cpu_queue_depth (tasks (snd (submit still_env (Job_default\<lparr>deadline_ms := 5\<rparr>) (router_new RouterConfig_default)))) = 0"
  using depth_counts_queue [OF late_job_trace [of RouterConfig_default]]
  by (simp add: submit_def still_env_def Job_default_def drop_late_job_def router_new_def tasks_new_def
      bump_route_def count_dropped_def broadcast_def)

text \<open>After the dispatcher has left, the depth of the abandoned queue is reported for ever.\<close>

lemma depth_survives_shutdown:
  "\<exists>r. router_trace (router_new RouterConfig_default) [Submitted, Internal, Internal] r
    \<and> cpu_queue (tasks r) = [] \<and> in_hand (tasks r) = None \<and> cpu_queue_depth (tasks r) = 1"
proof -
  note d = push_cpu_def tasks_new_def count_enqueued_def dispatcher_exit_def pool_start_tasks frame
  let ?r1 = "on_tasks (count_enqueued 0) pool_start"
  let ?r2 = "on_tasks dispatcher_exit ?r1"
  have "router_step pool_start Internal ?r1"
    using router_step.Count [of pool_waiter pool_start] by (simp add: d pool_waiter_def)
  from Trace_Snoc [OF pool_trace this]
  have t1: "router_trace (router_new RouterConfig_default) [Submitted, Internal] ?r1" by simp
  have "router_step ?r1 Internal ?r2" by (rule router_step.Exit) (simp add: d)
  from Trace_Snoc [OF t1 this]
  have "router_trace (router_new RouterConfig_default) [Submitted, Internal, Internal] ?r2" by simp
  moreover have "cpu_queue (tasks ?r2) = []" "in_hand (tasks ?r2) = None" "cpu_queue_depth (tasks ?r2) = 1"
    by (simp_all add: d)
  ultimately show ?thesis by blast
qed

end
