(* ===== verification/RouterProps.thy ===== *)
theory RouterProps
  imports RouterSteps
begin

text \<open>
  What the router promises in every reachable state beyond the accounting of theory
  \<open>RouterSteps\<close>: its pressure signal, its log of decisions, load shedding, batch flushing,
  the adaptive threshold, and the result cache as \<open>submit\<close> uses it.
\<close>

section \<open>The invariant of metrics and signals\<close>

text \<open>
  The parts of the state that carry floating-point numbers. The configuration the submission
  path reads, and those about to replace it, stay valid, so the divisor of the queue fraction
  is positive.
\<close>

definition fracs_ok :: "Tasks \<Rightarrow> bool" where
  "fracs_ok T = (list_all (\<lambda>t. rt_queue_frac t \<noteq> FNaN) (run_pending T @ run_tasks T @ run_waits T)
     \<and> list_all (\<lambda>s. sw_queue_frac s \<noteq> FNaN) (spawn_waits T))"

definition signals_ok :: "Inner \<Rightarrow> bool" where
  "signals_ok r = (valid_config (cfg_arc (conf r)) \<and> list_all valid_config (arc_pending (conf r))
     \<and> tracker_ok (tracker (metrics r))
     \<and> eot_pressure_milli r \<le> 1000 \<and> in_unit (pressure_cache r) \<and> fracs_ok (tasks r))"

lemma fracs_moves [simp]:
  "fracs_ok (push_cpu job p T) = fracs_ok T" "fracs_ok (push_batch job p s q T) = fracs_ok T"
  "fracs_ok (send_reply t out T) = fracs_ok T" "fracs_ok (answer_entry e T) = fracs_ok T"
  "fracs_ok (count_enqueued t T) = fracs_ok T" "fracs_ok (remove_waiter t T) = fracs_ok T"
  "fracs_ok (set_cancelled t T) = fracs_ok T" "fracs_ok (dispatcher_recv T) = fracs_ok T"
  "fracs_ok (dispatcher_start w T) = fracs_ok T" "fracs_ok (dispatcher_exit T) = fracs_ok T"
  "fracs_ok (worker_reply panicked w T) = fracs_ok T" "fracs_ok (T\<lparr>batches := b\<rparr>) = fracs_ok T"
  by (simp_all add: fracs_ok_def push_cpu_def push_batch_def answer_entry_def count_enqueued_def
      remove_waiter_def set_cancelled_def dispatcher_recv_def dispatcher_start_def dispatcher_exit_def
      worker_reply_def Let_def split: list.split)

lemma fracs_run_steps:
  assumes "fracs_ok T"
  shows "fracs_ok (add_run t T) = (rt_queue_frac t \<noteq> FNaN)" "fracs_ok (await_task t T) = (rt_queue_frac t \<noteq> FNaN)"
    "fracs_ok (add_spawn s T) = (sw_queue_frac s \<noteq> FNaN)"
    "fracs_ok (remove_spawn s T)" "fracs_ok (abandon_pending t T)" "fracs_ok (resume_run t T)"
    "t \<in> set (run_pending T) \<Longrightarrow> fracs_ok (acquire_run t T)"
    "t \<in> set (run_tasks T) \<Longrightarrow> fracs_ok (release_run t T)"
    "t \<in> set (run_tasks T) \<Longrightarrow> fracs_ok (abandon_running t T)"
  using assms by (auto simp: fracs_ok_def run_step_defs list_all_iff dest: subsetD [OF set_remove1_subset])

lemma rnd64_not_NaN [simp]: "rnd64 q \<noteq> FNaN"
  by (simp add: rnd64_def)

lemma f64_of_u64_pos: "w \<noteq> 0 \<Longrightarrow> \<exists>a. f64_of_u64 w = FFin a \<and> 0 < a"
proof -
  assume "w \<noteq> 0"
  then have "1 \<le> unat w" by (simp add: Suc_leI unat_gt_0)
  then have "fp_le (f64_of_nat 1) (f64_of_u64 w)" unfolding f64_of_u64_def by (rule f64_of_nat_mono)
  moreover have "f64_of_nat 1 = FFin 1" by (simp add: f64_of_nat_def)
  moreover obtain a where "f64_of_u64 w = FFin a" using f64_of_u64_nonneg by blast
  ultimately show ?thesis by auto
qed

lemma queue_frac_not_NaN: "par \<noteq> 0 \<Longrightarrow> queue_frac_of par r \<noteq> FNaN"
proof -
  assume "par \<noteq> 0"
  then obtain a where a: "f64_of_u64 par = FFin a" "0 < a" using f64_of_u64_pos by blast
  have "f64_of_nat n \<noteq> FNaN" for n by (simp add: f64_of_nat_def)
  then have "f64_div (f64_of_nat (permits (tasks r))) (FFin a) \<noteq> FNaN"
    using a(2) by (cases "f64_of_nat (permits (tasks r))") auto
  then show ?thesis unfolding queue_frac_of_def f64_sub_def a(1)
    by (cases "f64_div (f64_of_nat (permits (tasks r))) (FFin a)") auto
qed

lemma max_one_pos: "max w 1 \<noteq> (0 :: u64)"
proof
  assume "max w 1 = (0 :: u64)"
  then have "(1 :: u64) \<le> 0" by (metis max.cobounded2)
  then show False by simp
qed

lemma lat_frac_not_NaN: "lat_frac ms budget \<noteq> FNaN"
proof -
  obtain a where "f64_of_u64 ms = FFin a" using f64_of_u64_nonneg by blast
  moreover obtain b where "f64_of_u64 (max budget 1) = FFin b" "0 < b"
    using f64_of_u64_pos [OF max_one_pos] by blast
  ultimately show ?thesis by (simp add: lat_frac_def)
qed

lemma valid_parallelism: "valid_config c \<Longrightarrow> cpu_parallelism c \<noteq> 0"
  by (auto simp: valid_config_def validate_def split: if_splits)

lemma eot_unit: "eot_pressure_milli r \<le> 1000 \<Longrightarrow> in_unit (eot_pressure r)"
proof -
  assume "eot_pressure_milli r \<le> 1000"
  then have n: "unat (eot_pressure_milli r) \<le> 1000" by (simp add: word_le_nat_alt)
  define n where "n = unat (eot_pressure_milli r)"
  have e: "f64_of_u64 (eot_pressure_milli r) = FFin (of_nat n)"
    unfolding f64_of_u64_def n_def by (rule f64_of_nat_exact) (use n in simp)
  have "(of_nat n :: rat) \<le> 1000" using n of_nat_mono [of n 1000, where ?'a = rat] by (simp add: n_def)
  then obtain x where "rnd64 (of_nat n / 1000) = FFin x" "0 \<le> x" "x \<le> 1"
    using rnd64_unit [of "of_nat n / 1000"] by auto
  then show ?thesis by (simp add: eot_pressure_def e)
qed

lemma f64_max_unit: "in_unit a \<Longrightarrow> in_unit b \<Longrightarrow> in_unit (f64_max a b)"
  by (auto simp: f64_max_def)

lemma live_pressure_unit: "tracker_ok (tracker (metrics r)) \<Longrightarrow> eot_pressure_milli r \<le> 1000 \<Longrightarrow>
    in_unit (live_pressure qf r)"
  unfolding live_pressure_def by (intro f64_max_unit score_unit eot_unit)

lemma eot_milli_bound: "eot_pressure_milli r \<le> 1000 \<Longrightarrow> eot_pressure_milli (set_eot_pressure p r) \<le> 1000"
proof -
  assume old: "eot_pressure_milli r \<le> 1000"
  show ?thesis
  proof (cases "fp_is_finite p")
    case True
    then have "p \<noteq> FNaN" by (auto simp: fp_is_finite_def)
    then obtain q where q: "f64_clamp p (FFin 0) (FFin 1) = FFin q" "0 \<le> q" "q \<le> 1"
      using in_unit_clamp [of p] by (auto elim: in_unitE)
    have "fp_le (rnd64 (q * 1000)) (rnd64 (of_nat 1000))" by (rule rnd64_mono) (use q in simp)
    then have "f64_to_u64 (rnd64 (q * 1000)) \<le> f64_to_u64 (f64_of_nat 1000)"
      unfolding f64_of_nat_def by (rule f64_to_u64_mono)
    also have "f64_to_u64 (f64_of_nat 1000) = 1000" using f64_of_nat_roundtrip [of 1000] by simp
    finally show ?thesis using True by (simp add: set_eot_pressure_def q)
  next
    case False
    then show ?thesis using old by (simp add: set_eot_pressure_def)
  qed
qed

text \<open>The signals of a state, as far as the invariant looks at them.\<close>

lemma signals_frame:
  "signals_ok (bump_route s r) = signals_ok r" "signals_ok (bump_kind_route k r) = signals_ok r"
  "signals_ok (check_sla_violation k ms r) = signals_ok r"
  "signals_ok (router_record_latency s ms r) = signals_ok r"
  "signals_ok (record_neural_outcome job p s ms d r) = signals_ok r"
  "signals_ok (count_dropped r) = signals_ok r" "signals_ok (count_completed r) = signals_ok r"
  "signals_ok (broadcast dec r) = signals_ok r" "signals_ok (log_decision dec r) = signals_ok r"
  "signals_ok (finish_job job p s ms r) = signals_ok r"
  "signals_ok (drop_late_job job r) = signals_ok r"
  "signals_ok (snd (cached_outputs env job r)) = signals_ok r"
  by (simp_all add: signals_ok_def bump_route_def bump_kind_route_def check_sla_violation_def
      router_record_latency_def record_latency_def record_neural_outcome_def count_dropped_def
      count_completed_def broadcast_def log_decision_def finish_job_def drop_late_job_def
      cached_outputs_def Let_def split: option.split prod.split)

lemma signals_on_tasks:
  "signals_ok r \<Longrightarrow> fracs_ok (f (tasks r)) \<Longrightarrow> signals_ok (on_tasks f r)"
  by (simp add: signals_ok_def on_tasks_def)

lemma signals_record_pressure:
  "signals_ok r \<Longrightarrow> qf \<noteq> FNaN \<Longrightarrow> lf \<noteq> FNaN \<Longrightarrow> signals_ok (record_pressure qf d lf r)"
  by (simp add: signals_ok_def record_pressure_def Let_def tracker_ok_record)

lemma signals_fail: "signals_ok r \<Longrightarrow> qf \<noteq> FNaN \<Longrightarrow> signals_ok (fail_job job p s qf r)"
  by (simp add: fail_job_def signals_frame signals_record_pressure)

lemma signals_conf_par: "signals_ok r \<Longrightarrow> queue_frac_of (cpu_parallelism (cfg_arc (conf r))) x \<noteq> FNaN"
  by (intro queue_frac_not_NaN valid_parallelism) (simp add: signals_ok_def)

lemma signals_flush: "signals_ok r \<Longrightarrow> signals_ok (flush_batch_kind lat k r)"
proof -
  assume r: "signals_ok r"
  have entries: "signals_ok x \<Longrightarrow> signals_ok (fold (flush_entry lat) b x)" for b x
  proof (induction b arbitrary: x)
    case (Cons e b)
    have "signals_ok (flush_entry lat e x)" unfolding flush_entry_def signals_frame
      by (rule signals_on_tasks [OF Cons.prems])
        (use Cons.prems in \<open>simp add: signals_ok_def\<close>)
    then show ?case using Cons.IH by simp
  qed simp
  have "signals_ok (on_tasks (\<lambda>T. T\<lparr>batches := b\<rparr>) r\<lparr>batch_flushed := v\<rparr>)" for b v
    using r by (simp add: signals_ok_def on_tasks_def)
  then show ?thesis using r entries
    by (simp add: flush_batch_kind_def Let_def on_tasks_def split: option.split)
qed

lemma signals_inline: "signals_ok r \<Longrightarrow> qf \<noteq> FNaN \<Longrightarrow> signals_ok (snd (run_inline env job p qf r))"
proof -
  assume "signals_ok r" "qf \<noteq> FNaN"
  then have "signals_ok (finish_job job p Inline (elapsed_ms env) (record_pressure qf False
      (lat_frac (elapsed_ms env) (latency_budget_ms job))
      (router_record_latency Inline (elapsed_ms env) (bump_kind_route (kind job) (bump_route Inline r)))))"
    by (simp add: signals_frame signals_record_pressure lat_frac_not_NaN)
  then show ?thesis by (simp add: run_inline_def Let_def signals_ok_def)
qed

lemma signals_spawned:
  assumes "signals_ok r" "qf \<noteq> FNaN"
  shows "signals_ok (snd (run_spawned job p qf r))"
proof -
  let ?r = "bump_kind_route (kind job) (bump_route Spawn r)" and ?s = "\<lparr>sw_job = job, sw_pressure = p, sw_queue_frac = qf\<rparr>"
  have "signals_ok ?r" using assms by (simp add: signals_frame)
  then have "signals_ok (on_tasks (add_spawn ?s) ?r)"
    by (rule signals_on_tasks) (use assms in \<open>simp add: frame signals_ok_def fracs_run_steps\<close>)
  then show ?thesis by (simp add: run_spawned_def Let_def)
qed

lemma signals_resumed:
  assumes "signals_ok r" "s \<in> set (spawn_waits (tasks r))"
  shows "signals_ok (snd (resume_spawned panicked ms s r))"
proof -
  have "signals_ok (on_tasks (remove_spawn s) r)"
    by (rule signals_on_tasks [OF assms(1)]) (use assms(1) in \<open>simp add: signals_ok_def fracs_run_steps\<close>)
  moreover have "sw_queue_frac s \<noteq> FNaN" using assms by (auto simp: signals_ok_def fracs_ok_def list_all_iff)
  ultimately show ?thesis
    by (simp add: resume_spawned_def Let_def signals_frame signals_record_pressure lat_frac_not_NaN signals_fail)
qed

lemma signals_pool: "signals_ok r \<Longrightarrow> qf \<noteq> FNaN \<Longrightarrow> signals_ok (snd (send_to_pool job p qf r))"
proof -
  assume r: "signals_ok r" and qf: "qf \<noteq> FNaN"
  let ?r = "bump_kind_route (kind job) (bump_route CpuPool r)"
  have r': "signals_ok ?r" using r by (simp add: signals_frame)
  have "signals_ok (on_tasks (push_cpu job p) ?r)"
    by (rule signals_on_tasks [OF r']) (use r in \<open>simp add: frame signals_ok_def\<close>)
  then show ?thesis using r qf by (simp add: send_to_pool_def Let_def signals_fail signals_frame)
qed

lemma signals_batch: "signals_ok r \<Longrightarrow> signals_ok (snd (send_to_batch env job p r))"
proof -
  assume r: "signals_ok r"
  let ?r = "bump_kind_route (kind job) (bump_route Batch r)"
  have b: "signals_ok (on_tasks (push_batch job p s q) (?r\<lparr>batch_seq := v\<rparr>)\<lparr>batch_enqueued := w\<rparr>)" for s q v w
    using r by (simp add: signals_ok_def on_tasks_def bump_route_def bump_kind_route_def)
  have "signals_ok (?r\<lparr>batch_seq := v, batch_miss_count := w\<rparr>)" for v w
    using r by (simp add: signals_ok_def bump_route_def bump_kind_route_def)
  then show ?thesis using b signals_flush [OF b] by (simp add: send_to_batch_def Let_def split: option.split)
qed

lemma signals_submit: "signals_ok r \<Longrightarrow> signals_ok (snd (submit env job r))"
proof -
  assume r: "signals_ok r"
  have routed: "signals_ok (snd (submit_routed env job x))" if x: "signals_ok x" for x
  proof -
    obtain s src where d: "decide x job = (s, src)" by (cases "decide x job")
    let ?qf = "queue_frac_of (cpu_parallelism (cfg_arc (conf x))) x"
    have qf: "?qf \<noteq> FNaN" by (rule signals_conf_par [OF x])
    show ?thesis unfolding submit_routed_def Let_def d prod.case
      by (cases s)
        (simp_all add: x signals_frame signals_fail [OF _ qf] signals_inline [OF _ qf]
          signals_spawned [OF _ qf] signals_pool [OF _ qf] signals_batch)
  qed
  let ?r = "r\<lparr>submit_counter := submit_counter r + 1\<rparr>"
  have r1: "signals_ok ?r" using r by (simp add: signals_ok_def)
  obtain outs r2 where c: "cached_outputs env job ?r = (outs, r2)" by (cases "cached_outputs env job ?r")
  have r2: "signals_ok r2" using signals_frame(12) [of env job ?r] r1 c by simp
  show ?thesis using r1 r2 routed [OF r2] by (simp add: submit_def Let_def c signals_frame)
qed

lemma signals_run: "signals_ok r \<Longrightarrow> signals_ok (snd (run env hint work r))"
proof -
  assume r: "signals_ok r"
  let ?qf = "queue_frac_of (max (cpu_parallelism (cfg_arc (conf r))) 1) r"
  have qf: "?qf \<noteq> FNaN" by (rule queue_frac_not_NaN [OF max_one_pos])
  obtain s r1 where s: "run_decide hint r = (s, r1)" by (cases "run_decide hint r")
  have "r1 = snd (run_decide hint r)" using s by simp
  then have r1: "signals_ok r1" using r by (simp add: run_decide_def Let_def signals_frame)
  have fin: "signals_ok (snd (run_finish s ?qf b ms out r1))" for s b ms and out :: "'b option"
    using r1 qf by (simp add: run_finish_def signals_frame signals_record_pressure lat_frac_not_NaN split: option.split)
  have "signals_ok (on_tasks (add_run \<lparr>rt_strategy = s, rt_queue_frac = ?qf, rt_budget_ms = b, rt_caller = True\<rparr>) r1)"
    "signals_ok (on_tasks (await_task \<lparr>rt_strategy = s, rt_queue_frac = ?qf, rt_budget_ms = b, rt_caller = True\<rparr>) r1)" for s b
    by (rule signals_on_tasks [OF r1], use r1 qf in \<open>simp add: fracs_run_steps signals_ok_def\<close>)+
  moreover have "signals_ok (r\<lparr>deadline_exceeded := n\<rparr>)" for n using r by (simp add: signals_ok_def)
  moreover have "signals_ok (record_pressure ?qf True (FFin 1) (count_dropped r1))"
    using r1 qf by (simp add: signals_record_pressure signals_frame)
  ultimately show ?thesis using r1
    by (cases s) (auto simp: run_def Let_def s fin signals_frame split: option.split)
qed

lemma signals_step: "router_step r e r' \<Longrightarrow> signals_ok r \<Longrightarrow> signals_ok r'"
proof (induction rule: router_step.induct)
  case (Submit r env job)
  then show ?case by (rule signals_submit)
next
  case (Deliver w r out ms)
  then have "signals_ok (on_tasks (remove_waiter (w_ticket w)) r)" by (simp add: signals_ok_def frame_conf on_tasks_def)
  then show ?case by (simp add: resume_ok_def signals_frame)
next
  case (Fail w r)
  have "signals_ok x \<Longrightarrow> signals_ok (on_tasks (set_cancelled t) x)" "signals_ok x \<Longrightarrow> signals_ok (on_tasks (remove_waiter t) x)" for x t
    by (simp_all add: signals_ok_def on_tasks_def)
  then show ?case using Fail by (simp add: resume_err_def Let_def signals_frame)
next
  case (Spawn_done s r panicked ms)
  then show ?case by (intro signals_resumed)
next
  case (Worker w r ms)
  then have "signals_ok (on_tasks (worker_reply False w) r)" by (simp add: signals_ok_def on_tasks_def)
  then show ?case by (simp add: worker_done_def Let_def signals_frame)
next
  case (Worker_panic w r ms)
  then have "signals_ok (on_tasks (worker_reply True w) (r\<lparr>blocking_panics := blocking_panics r + 1\<rparr>))"
    by (simp add: signals_ok_def on_tasks_def)
  then show ?case by (simp add: worker_done_def Let_def signals_frame)
next
  case (Flusher r lat)
  have "signals_ok x \<Longrightarrow> signals_ok (x\<lparr>flusher_idx := n\<rparr>)" for x n by (simp add: signals_ok_def)
  then show ?case using signals_flush [OF Flusher] by (simp add: flusher_tick_def Let_def)
next
  case (Run r env hint work)
  then show ?case by (rule signals_run)
next
  case (Run_resumed t r ms work)
  then have 1: "signals_ok (on_tasks (resume_run t) r)" by (simp add: signals_ok_def on_tasks_def fracs_run_steps)
  have "rt_queue_frac t \<noteq> FNaN" using Run_resumed by (auto simp: signals_ok_def fracs_ok_def list_all_iff)
  then show ?case using 1
    by (simp add: run_resumed_def run_finish_def signals_frame signals_record_pressure lat_frac_not_NaN split: option.split)
next
  case (Adapt r)
  then show ?case by (simp add: maybe_adapt_threshold_def Let_def signals_ok_def split: option.split)
next
  case (Refresh r)
  then show ?case by (simp add: refresh_pressure_def Let_def signals_ok_def live_pressure_unit)
next
  case (Eot r p)
  then have "eot_pressure_milli (set_eot_pressure p r) \<le> 1000" by (intro eot_milli_bound) (simp add: signals_ok_def)
  then show ?case using Eot by (auto simp: signals_ok_def set_eot_pressure_def)
next
  case (Patch r patch)
  then show ?case by (auto simp: signals_ok_def patch_config_def Let_def valid_config_def split: sum.splits)
next
  case (Cancel_patch r patch)
  then show ?case by (auto simp: signals_ok_def patch_config_cancelled_def Let_def valid_config_def split: sum.splits)
next
  case (Set_config r c)
  then show ?case by (auto simp: signals_ok_def post_config_def set_config_write_def valid_config_def split: sum.splits)
next
  case (Install_config c r)
  then show ?case by (auto simp: signals_ok_def set_config_install_def list_all_iff dest: notin_set_remove1)
next
  case (Cancel_config c r)
  then show ?case by (auto simp: signals_ok_def set_config_cancel_def list_all_iff dest: notin_set_remove1)
next
  case (Scale r dir cap)
  then show ?case by (simp add: apply_recommendation_def Let_def signals_ok_def split: ScaleDirection.split)
qed (simp_all add: signals_ok_def autoscale_observe_def Let_def on_tasks_def fracs_run_steps)

lemma valid_alpha: "valid_config c \<Longrightarrow> in_unit (ema_alpha c)"
  by (cases "ema_alpha c") (auto simp: valid_config_def validate_def in_unit_interval_def split: if_splits)

lemma signals_reachable:
  "router_trace (router_new c) es r \<Longrightarrow> validate c = Inr () \<Longrightarrow> signals_ok r"
proof (induction "router_new c" es r rule: router_trace.induct)
  case Trace_Nil
  then show ?case using valid_alpha [of c]
    by (simp add: signals_ok_def router_new_def metrics_new_def tracker_ok_new valid_config_def tasks_new_def fracs_ok_def)
next
  case (Trace_Snoc es r' e r'')
  then show ?case using signals_step by blast
qed

section \<open>The pressure in the log of decisions\<close>

definition logged :: "Inner \<Rightarrow> RoutingDecision list" where
  "logged r = routing_log r @ decisions r"

definition log_ok :: "Inner \<Rightarrow> bool" where
  "log_ok r = list_all (\<lambda>d. rd_source d = ''run'' \<or> in_unit (rd_pressure d)) (logged r)"

lemma logged_frame:
  "logged (bump_route s r) = logged r" "logged (bump_kind_route k r) = logged r"
  "logged (check_sla_violation k ms r) = logged r" "logged (router_record_latency s ms r) = logged r"
  "logged (record_pressure qf d lf r) = logged r" "logged (record_neural_outcome job p s ms d r) = logged r"
  "logged (count_dropped r) = logged r" "logged (count_completed r) = logged r"
  "logged (on_tasks f r) = logged r" "logged (finish_job job p s ms r) = logged r"
  "logged (fail_job job p s qf r) = logged r" "logged (snd (cached_outputs env job r)) = logged r"
  by (simp_all add: logged_def bump_route_def bump_kind_route_def check_sla_violation_def router_record_latency_def
      record_pressure_def record_neural_outcome_def count_dropped_def count_completed_def on_tasks_def
      finish_job_def fail_job_def cached_outputs_def Let_def split: option.split prod.split)

lemma log_ok_cong: "logged r' = logged r \<Longrightarrow> log_ok r' = log_ok r"
  by (simp add: log_ok_def)

lemma log_ok_log_decision:
  "log_ok r \<Longrightarrow> rd_source d = ''run'' \<or> in_unit (rd_pressure d) \<Longrightarrow> log_ok (log_decision d r)"
  by (cases "routing_log r") (auto simp: log_ok_def logged_def log_decision_def broadcast_def Let_def list_all_iff)

lemma logged_flush: "logged (flush_batch_kind lat k r) = logged r"
proof -
  have "logged (fold (flush_entry lat) es x) = logged x" for es x
    by (induction es arbitrary: x) (simp_all add: flush_entry_def logged_frame)
  then show ?thesis
    by (simp add: flush_batch_kind_def Let_def split: option.split) (simp add: logged_def on_tasks_def)
qed

lemma logged_handlers:
  "logged (snd (run_inline env job p qf r)) = logged r" "logged (snd (run_spawned job p qf r)) = logged r"
  "logged (snd (resume_spawned panicked ms sw r)) = logged r" "logged (snd (send_to_pool job p qf r)) = logged r"
  by (simp_all add: run_inline_def run_spawned_def resume_spawned_def send_to_pool_def Let_def logged_frame)
    (simp add: logged_def finish_job_def check_sla_violation_def record_neural_outcome_def count_completed_def
      record_pressure_def router_record_latency_def bump_kind_route_def bump_route_def Let_def)

lemma logged_batch: "logged (snd (send_to_batch env job p r)) = logged r"
proof -
  have "logged (x\<lparr>batch_seq := v\<rparr>) = logged x" "logged (x\<lparr>batch_enqueued := w\<rparr>) = logged x"
    "logged (x\<lparr>batch_seq := v, batch_miss_count := u\<rparr>) = logged x" for x v w u
    by (simp_all add: logged_def)
  then show ?thesis
    by (simp add: send_to_batch_def Let_def logged_frame logged_flush split: option.split)
qed

lemma submit_pressure_unit: "signals_ok r \<Longrightarrow> in_unit (submit_pressure qf r)"
  by (simp add: submit_pressure_def signals_ok_def live_pressure_unit)

lemma log_ok_submit:
  assumes "signals_ok r" "log_ok r"
  shows "log_ok (snd (submit env job r))"
proof -
  have routed: "log_ok (snd (submit_routed env job x))" if x: "signals_ok x" "log_ok x" for x
  proof -
    obtain s src where d: "decide x job = (s, src)" by (cases "decide x job")
    let ?qf = "queue_frac_of (cpu_parallelism (cfg_arc (conf x))) x"
    let ?x = "log_decision \<lparr>rd_job_id = job_id job, rd_strategy = s, rd_compute_cost = compute_cost job,
      rd_cpu_busy = cpu_busy_of (cfg_arc (conf x)) x, rd_pressure = submit_pressure ?qf x, rd_source = src\<rparr> x"
    have "log_ok ?x" by (rule log_ok_log_decision) (use x submit_pressure_unit in simp_all)
    moreover have "logged (snd (submit_routed env job x)) = logged ?x"
      unfolding submit_routed_def Let_def d prod.case
      by (cases s) (simp_all add: logged_frame logged_handlers logged_batch)
    ultimately show ?thesis using log_ok_cong by blast
  qed
  let ?r = "r\<lparr>submit_counter := submit_counter r + 1\<rparr>"
  have r1: "signals_ok ?r" "log_ok ?r" using assms by (simp_all add: signals_ok_def log_ok_def logged_def)
  obtain outs r2 where c: "cached_outputs env job ?r = (outs, r2)" by (cases "cached_outputs env job ?r")
  have r2: "signals_ok r2" "logged r2 = logged ?r"
    using signals_frame(12) [of env job ?r] logged_frame(12) [of env job ?r] r1 c by simp_all
  then have "log_ok r2" using r1(2) by (simp add: log_ok_def)
  have "log_ok (drop_late_job job ?r)"
    using r1(2) by (simp add: log_ok_def logged_def drop_late_job_def broadcast_def bump_route_def count_dropped_def Let_def)
  moreover have "log_ok (count_completed x) = log_ok x" "log_ok (router_record_latency s ms (bump_route s' x)) = log_ok x" for x s ms s'
    by (simp_all add: log_ok_def logged_frame)
  ultimately show ?thesis using r1 r2 \<open>log_ok r2\<close> routed [of r2] by (simp add: submit_def Let_def c)
qed

lemma log_ok_run: "log_ok r \<Longrightarrow> log_ok (snd (run env hint work r))"
proof -
  assume r: "log_ok r"
  obtain s r1 where s: "run_decide hint r = (s, r1)" by (cases "run_decide hint r")
  have "log_ok (snd (run_decide hint r))"
    using log_ok_log_decision [OF r] by (simp add: run_decide_def Let_def log_ok_def logged_frame)
  then have r1: "log_ok r1" using s by simp
  have fin: "log_ok (snd (run_finish s qf b ms out x)) = log_ok x" for s qf b ms x and out :: "'b option"
    by (simp add: run_finish_def log_ok_def logged_frame split: option.split)
  have "log_ok (bump_route Drop (count_dropped (r\<lparr>deadline_exceeded := n\<rparr>)))" for n
    using r by (simp add: log_ok_def logged_frame) (simp add: logged_def)
  moreover have "log_ok (on_tasks f x) = log_ok x" "log_ok (record_pressure qf d lf x) = log_ok x" "log_ok (count_dropped x) = log_ok x" for f x qf d lf
    by (simp_all add: log_ok_def logged_frame)
  ultimately show ?thesis using r1
    by (cases s) (auto simp: run_def Let_def s fin split: option.split)
qed

lemma logged_step_quiet:
  "router_step r e r' \<Longrightarrow> logged r' = logged r \<or> (\<exists>env job. r' = snd (submit env job r))
     \<or> (\<exists>env hint work. r' = snd (run env hint (work :: unit option) r))"
proof (induction rule: router_step.induct)
  case (Flusher r lat)
  have "logged (x\<lparr>flusher_idx := n\<rparr>) = logged x" for x n by (simp add: logged_def)
  then show ?case by (simp add: flusher_tick_def Let_def logged_flush)
next
  case (Worker_panic w r ms)
  have "logged (r\<lparr>blocking_panics := n\<rparr>) = logged r" for n by (simp add: logged_def)
  then show ?case by (simp add: worker_done_def Let_def logged_frame)
next
  case (Adapt r)
  show ?case by (simp add: maybe_adapt_threshold_def Let_def logged_def split: option.split)
next
  case (Scale r dir cap)
  show ?case by (simp add: apply_recommendation_def Let_def logged_def split: ScaleDirection.split)
next
  case (Run_resumed t r ms work)
  show ?case by (simp add: run_resumed_def run_finish_def logged_frame split: option.split)
next
  case (Refresh r)
  show ?case by (simp add: refresh_pressure_def Let_def logged_def)
next
  case (Eot r p)
  show ?case by (simp add: set_eot_pressure_def logged_def)
next
  case (Observe_load r fmt now_secs)
  show ?case by (simp add: autoscale_observe_def Let_def logged_def)
qed (blast, simp_all add: logged_frame logged_handlers resume_ok_def resume_err_def worker_done_def Let_def,
    (blast | simp add: logged_def)+)

lemma log_ok_reachable:
  "router_trace (router_new c) es r \<Longrightarrow> validate c = Inr () \<Longrightarrow> log_ok r"
proof (induction "router_new c" es r rule: router_trace.induct)
  case Trace_Nil
  show ?case by (simp add: log_ok_def logged_def router_new_def)
next
  case (Trace_Snoc es r' e r'')
  then show ?case
    using logged_step_quiet [OF Trace_Snoc(3)] log_ok_submit [OF signals_reachable [OF Trace_Snoc(1,4)]] log_ok_run
    by (metis log_ok_cong)
qed

section \<open>Properties\<close>

text \<open>
  C9. From a valid configuration, in every reachable state the pressure reported to callers,
  the one in the statistics, the one submissions read and the one in every decision of
  \<open>submit\<close> that was logged or broadcast are numbers between 0 and 1. The decisions of \<open>run\<close>
  report another number, which can leave the unit interval (below).
\<close>

theorem router_pressure_in_unit:
  assumes "validate c = Inr ()" and "router_trace (router_new c) es r"
  shows "in_unit (pressure r) \<and> in_unit (rs_pressure_score (stats_snapshot r))
    \<and> in_unit (submit_pressure qf r)
    \<and> list_all (\<lambda>d. rd_source d = ''run'' \<or> in_unit (rd_pressure d)) (routing_log r @ decisions r)"
proof -
  have ok: "signals_ok r" by (rule signals_reachable [OF assms(2,1)])
  then have "in_unit (live_pressure q r)" for q by (simp add: signals_ok_def live_pressure_unit)
  moreover have "log_ok r" by (rule log_ok_reachable [OF assms(2,1)])
  ultimately show ?thesis using ok submit_pressure_unit
    by (simp add: pressure_def Let_def stats_snapshot_def log_ok_def logged_def)
qed

lemma default_config_valid: "validate RouterConfig_default = Inr ()"
proof -
  obtain a b where "rnd64 (15 / 100) = FFin a" "rnd64 (10 / 100) = FFin b" "0 < a" "a \<le> 1" "0 < b" "b \<le> 1"
  proof -
    have "rnd64 (15 / 100) = FFin (5404319552844595 / 36028797018963968)"
      using rnd64_eval [of "- 3" "15 / 100"] rne_eqI [of "27021597764222976 / 5" 5404319552844595]
      by (simp add: pow2_def)
    moreover have "rnd64 (10 / 100) = FFin (7205759403792794 / 72057594037927936)"
      using rnd64_eval [of "- 4" "10 / 100"] rne_eqI [of "36028797018963968 / 5" 7205759403792794]
      by (simp add: pow2_def)
    ultimately show thesis by (rule that) simp_all
  qed
  then have "in_unit_interval (rnd64 (15 / 100))" "in_unit_interval (rnd64 (10 / 100))"
    by (simp_all add: in_unit_interval_def)
  then have "valid_config RouterConfig_default" unfolding valid_config_iff RouterConfig_default_def by simp
  then show ?thesis by (simp add: valid_config_def)
qed

theorem router_pressure_in_unit_witness:
  "in_unit (pressure (snd (submit still_env (Job_default\<lparr>deadline_ms := 5\<rparr>) (router_new RouterConfig_default))))"
  using router_pressure_in_unit [OF default_config_valid late_job_trace] by blast

section \<open>Load shedding\<close>

text \<open>
  C3. Routing sheds a job exactly when the pool is as busy as the backpressure threshold and
  the job scales below 0.65; the learner can redirect a job, but neither cause nor prevent
  shedding. A shed job returns nothing, counts one drop and starts no work; any other job is
  turned away at once only by a full or closed pool queue or a missing batch buffer, and one
  that awaits a spawned task gets nothing exactly when that task panicked.
\<close>

theorem shed_iff_backpressure:
  "(fst (decide r job) = Drop \<longleftrightarrow>
      backpressure_busy_threshold (cfg_arc (conf r)) \<le> cpu_busy_of (cfg_arc (conf r)) r
      \<and> \<not> fp_le (rnd32 (65 / 100)) (scaling_potential job))
   \<and> (if fst (decide r job) = Drop
      then fst (submit_routed env job r) = Returned None
        \<and> dropped (snd (submit_routed env job r)) = dropped r + 1
        \<and> tasks (snd (submit_routed env job r)) = tasks r
      else fst (submit_routed env job r) = Returned None \<longleftrightarrow>
        (case fst (decide r job) of
           CpuPool \<Rightarrow> \<not> can_send (tasks r)
         | Batch \<Rightarrow> batches (tasks r) (kind job) = None
         | _ \<Rightarrow> False))
   \<and> (fst (decide r job) = Spawn \<longleftrightarrow> (\<exists>p q. fst (submit_routed env job r) =
        AwaitingTask \<lparr>sw_job = job, sw_pressure = p, sw_queue_frac = q\<rparr>))
   \<and> fst (resume_spawned panicked ms sw r') = (if panicked then None else Some (execute_job (sw_job sw)))"
proof (intro conjI)
  have h: "heuristic_strategy r job = Drop \<longleftrightarrow>
      backpressure_busy_threshold (cfg_arc (conf r)) \<le> cpu_busy_of (cfg_arc (conf r)) r
      \<and> \<not> fp_le (rnd32 (65 / 100)) (scaling_potential job)"
    by (simp add: heuristic_strategy_def choose_strategy_def effective_cfg_def)
  have "fst (decide r job) = Drop \<longleftrightarrow> heuristic_strategy r job = Drop"
    by (auto simp: decide_def Let_def)
  with h show "fst (decide r job) = Drop \<longleftrightarrow>
      backpressure_busy_threshold (cfg_arc (conf r)) \<le> cpu_busy_of (cfg_arc (conf r)) r
      \<and> \<not> fp_le (rnd32 (65 / 100)) (scaling_potential job)" by simp
  obtain s src where d: "decide r job = (s, src)" by (cases "decide r job")
  have early: "fst (submit_routed env job r) = Returned None \<longleftrightarrow>
      (case s of Drop \<Rightarrow> True | Inline \<Rightarrow> False | Spawn \<Rightarrow> False
       | CpuPool \<Rightarrow> \<not> can_send (tasks r) | Batch \<Rightarrow> batches (tasks r) (kind job) = None)"
    by (cases s) (simp_all add: submit_routed_def Let_def d run_inline_def run_spawned_def send_to_pool_def
        send_to_batch_def frame split: option.splits)
  have counted: "s = Drop \<Longrightarrow> dropped (snd (submit_routed env job r)) = dropped r + 1
      \<and> tasks (snd (submit_routed env job r)) = tasks r"
    by (simp add: submit_routed_def Let_def d frame_jobs frame)
      (simp add: fail_job_def record_neural_outcome_def record_pressure_def count_dropped_def bump_route_def
         log_decision_def broadcast_def Let_def)
  show "if fst (decide r job) = Drop
      then fst (submit_routed env job r) = Returned None
        \<and> dropped (snd (submit_routed env job r)) = dropped r + 1
        \<and> tasks (snd (submit_routed env job r)) = tasks r
      else fst (submit_routed env job r) = Returned None \<longleftrightarrow>
        (case fst (decide r job) of
           CpuPool \<Rightarrow> \<not> can_send (tasks r)
         | Batch \<Rightarrow> batches (tasks r) (kind job) = None
         | _ \<Rightarrow> False)"
    using early counted by (cases s) (simp_all add: d)
  show "fst (decide r job) = Spawn \<longleftrightarrow> (\<exists>p q. fst (submit_routed env job r) =
        AwaitingTask \<lparr>sw_job = job, sw_pressure = p, sw_queue_frac = q\<rparr>)"
    by (cases s) (auto simp: submit_routed_def Let_def d run_inline_def run_spawned_def send_to_pool_def
        send_to_batch_def split: option.splits)
  show "fst (resume_spawned panicked ms sw r') = (if panicked then None else Some (execute_job (sw_job sw)))"
    by (simp add: resume_spawned_def Let_def)
qed

text \<open>
  Raising the parallelism by a configuration patch does not add workers, and the
  router takes the missing permits for busy workers: with nothing running, a default router
  patched from 8 to 16 workers sheds every job that scales below 0.65.
\<close>

definition patched_router :: Inner where
  "patched_router = (router_new RouterConfig_default)
     \<lparr>conf := snd (patch_config (RouterConfigPatch_default\<lparr>p_cpu_parallelism := Some 16\<rparr>)
                 (conf (router_new RouterConfig_default)))\<rparr>"

theorem raised_parallelism_sheds_all:
  "router_trace (router_new RouterConfig_default) [Internal] patched_router
   \<and> workers (tasks patched_router) = [] \<and> permits (tasks patched_router) = 8
   \<and> cpu_parallelism (cfg_arc (conf patched_router)) = 16
   \<and> (fp_le (rnd32 (65 / 100)) (scaling_potential job) \<or> decide patched_router job = (Drop, ''drop''))"
proof -
  have t: "router_trace (router_new RouterConfig_default) [Internal] patched_router"
    using Trace_Snoc [OF Trace_Nil router_step.Patch] unfolding patched_router_def by fastforce
  let ?c = "RouterConfig_default\<lparr>cpu_parallelism := 16\<rparr>"
  have "valid_config RouterConfig_default" using default_config_valid by (simp add: valid_config_def)
  then have "valid_config ?c" unfolding valid_config_iff RouterConfig_default_def by simp
  moreover have "patch_candidate (RouterConfigPatch_default\<lparr>p_cpu_parallelism := Some 16\<rparr>) RouterConfig_default = ?c"
    by (simp add: patch_candidate_def RouterConfigPatch_default_def or_keep_def RouterConfig_default_def)
  ultimately have c: "cfg_arc (conf patched_router) = ?c"
    by (simp add: patched_router_def patch_config_def router_new_def valid_config_def Let_def)
  have p: "tasks patched_router = tasks_new 512 8"
    by (simp add: patched_router_def router_new_def RouterConfig_default_def)
  have "heuristic_strategy patched_router job = (if fp_le (rnd32 (65 / 100)) (scaling_potential job) then Batch else Drop)"
    unfolding heuristic_strategy_def choose_strategy_def effective_cfg_def cpu_busy_of_def c p
    by (simp add: RouterConfig_default_def tasks_new_def sat_sub_def)
  then have "fp_le (rnd32 (65 / 100)) (scaling_potential job) \<or> decide patched_router job = (Drop, ''drop'')"
    by (simp add: decide_def Let_def)
  then show ?thesis using t c p by (simp add: tasks_new_def)
qed

text \<open>
  The pressure in the decisions of \<open>run\<close> is one minus free permits over configured
  parallelism: after a patch that halves the parallelism of an idle default router it is -1.
\<close>

definition halved_router :: Inner where
  "halved_router = (router_new RouterConfig_default)
     \<lparr>conf := snd (patch_config (RouterConfigPatch_default\<lparr>p_cpu_parallelism := Some 4\<rparr>)
                 (conf (router_new RouterConfig_default)))\<rparr>"

theorem run_pressure_leaves_unit:
  "router_trace (router_new RouterConfig_default) [Internal] halved_router
   \<and> map rd_pressure (routing_log (snd (run still_env WorkHint_default (work :: unit option) halved_router))) = [FFin (- 1)]"
proof
  show "router_trace (router_new RouterConfig_default) [Internal] halved_router"
    using Trace_Snoc [OF Trace_Nil router_step.Patch] unfolding halved_router_def by fastforce
  let ?c = "RouterConfig_default\<lparr>cpu_parallelism := 4\<rparr>"
  have "valid_config RouterConfig_default" using default_config_valid by (simp add: valid_config_def)
  then have "valid_config ?c" unfolding valid_config_iff RouterConfig_default_def by simp
  moreover have "patch_candidate (RouterConfigPatch_default\<lparr>p_cpu_parallelism := Some 4\<rparr>) RouterConfig_default = ?c"
    by (simp add: patch_candidate_def RouterConfigPatch_default_def or_keep_def RouterConfig_default_def)
  ultimately have c: "cfg_arc (conf halved_router) = ?c"
    by (simp add: halved_router_def patch_config_def router_new_def valid_config_def Let_def)
  have h: "tasks halved_router = tasks_new 512 8" "routing_log halved_router = []" "adaptive_spawn_threshold halved_router = 60000"
    by (simp_all add: halved_router_def router_new_def RouterConfig_default_def)
  have ex: "rnd64 2 = FFin 2" "rnd64 1 = FFin 1"
    using rnd64_eval [of 1 2] rne_of_int [of "2 ^ 52"] by (simp_all add: pow2_def)
  have q: "queue_frac_of 4 halved_router = FFin (- 1)"
    using ex rnd64_neg [of 1]
    by (simp add: queue_frac_of_def h tasks_new_def f64_of_u64_def f64_of_nat_exact f64_sub_def)
  have l: "routing_log (snd (run_decide WorkHint_default halved_router)) =
      [\<lparr>rd_job_id = 0, rd_strategy = Inline, rd_compute_cost = 1, rd_cpu_busy = 0, rd_pressure = FFin (- 1), rd_source = ''run''\<rparr>]"
    and s: "fst (run_decide WorkHint_default halved_router) = Inline"
    using q by (simp_all add: run_decide_def Let_def c h heuristic_strategy_def choose_strategy_def effective_cfg_def
        cpu_busy_of_def RouterConfig_default_def tasks_new_def sat_sub_def WorkHint_default_def Job_default_def
        log_decision_def broadcast_def bump_route_def)
  obtain r1 where r1: "run_decide WorkHint_default halved_router = (Inline, r1)" using s by (cases "run_decide WorkHint_default halved_router") simp
  have fin: "routing_log (snd (run_finish st qf b ms out x)) = routing_log x" for st qf b ms x and out :: "unit option"
    by (simp add: run_finish_def record_pressure_def router_record_latency_def count_completed_def count_dropped_def
        Let_def split: option.split)
  show "map rd_pressure (routing_log (snd (run still_env WorkHint_default work halved_router))) = [FFin (- 1)]"
    using l r1 by (simp add: run_def Let_def r1 fin WorkHint_default_def [THEN arg_cong [of _ _ wh_deadline_ms]] split: option.split)
qed

text \<open>
  Hot reload of the spawn threshold changes no decision: the adaptive threshold, initialised
  when the router is created, replaces it.
\<close>

lemma spawn_threshold_reload_ignored:
  "decide (r\<lparr>conf := (conf r)\<lparr>cfg_arc := (cfg_arc (conf r))\<lparr>spawn_threshold := t\<rparr>\<rparr>\<rparr>) job = decide r job"
  by (simp add: decide_def heuristic_strategy_def effective_cfg_def cpu_busy_of_def queue_frac_of_def
      submit_pressure_def live_pressure_def eot_pressure_def Let_def choose_strategy_def)

section \<open>Batches\<close>

lemma replies_fold_answer:
  "replies (fold answer_entry es T) = replies T @
     map (\<lambda>e. (be_ticket e, execute_job (be_job e))) (filter (\<lambda>e. be_ticket e \<in> w_ticket ` set (waiting T)) es)"
  by (induction es arbitrary: T) (simp_all add: answer_entry_def send_reply_def)

text \<open>
  C10. A flush removes exactly the oldest entries of one kind, at most the configured batch
  size, keeps the others in order, and answers every removed entry whose submission still
  waits with the outputs of its own job; it counts them all as flushed.
\<close>

theorem flush_answers_oldest:
  assumes "batches (tasks r) k = Some q" and "n = min (length q) (unat (batch_max_size (cfg (conf r))))"
  shows "batches (tasks (flush_batch_kind lat k r)) = (batches (tasks r))(k \<mapsto> drop n q)
    \<and> mset (replies (tasks (flush_batch_kind lat k r))) = mset (replies (tasks r)) +
        mset (map (\<lambda>e. (be_ticket e, execute_job (be_job e)))
          (filter (\<lambda>e. be_ticket e \<in> w_ticket ` set (waiting (tasks r))) (take n q)))
    \<and> batch_flushed (flush_batch_kind lat k r) = kc_add k (of_nat n) (batch_flushed r)"
proof (cases "q = []")
  case True
  have "kc_add k 0 c = c" for c by (simp add: kc_add_def split: JobKind.split)
  then show ?thesis using assms True by (simp add: flush_batch_kind_def fun_upd_idem)
next
  case False
  define r1 where "r1 = (on_tasks (\<lambda>T. T\<lparr>batches := (batches T)(k \<mapsto> drop n q)\<rparr>) r)
     \<lparr>batch_flushed := kc_add k (of_nat n) (batch_flushed r)\<rparr>"
  have b: "batch_flushed (fold (flush_entry lat) es x) = batch_flushed x" for es x
    by (induction es arbitrary: x) (simp_all add: flush_entry_def router_record_latency_def on_tasks_def)
  have f: "flush_batch_kind lat k r = fold (flush_entry lat) (sort_key be_seq (take n q)) r1"
    using assms False by (simp add: flush_batch_kind_def Let_def r1_def on_tasks_def)
  have "mset (map g (filter P (sort_key be_seq xs))) = mset (map g (filter P xs))" for g :: "BatchEntry \<Rightarrow> nat \<times> Output list" and P xs
    by simp
  then show ?thesis unfolding f tasks_flush_entries b
    by (simp add: replies_fold_answer) (simp add: r1_def on_tasks_def)
qed

theorem flush_answers_oldest_witness:
  "batches (tasks (flush_batch_kind (\<lambda>_. 0) HashMix
     (on_tasks (push_batch Job_default (FFin 0) 0 []) (router_new RouterConfig_default)))) HashMix = Some []"
proof -
  let ?r = "on_tasks (push_batch Job_default (FFin 0) 0 []) (router_new RouterConfig_default)"
  let ?q = "[\<lparr>be_job = Job_default, be_ticket = 0, be_seq = 0\<rparr>]"
  have q: "batches (tasks ?r) HashMix = Some ?q"
    by (simp add: on_tasks_def push_batch_def router_new_def tasks_new_def Job_default_def)
  have "min (length ?q) (unat (batch_max_size (cfg (conf ?r)))) = 1"
    by (simp add: on_tasks_def router_new_def RouterConfig_default_def)
  then show ?thesis using flush_answers_oldest [OF q refl, of "\<lambda>_. 0"] by simp
qed

section \<open>The adaptive threshold\<close>

lemma f64_of_u64_exact: "unat w < 2 ^ 53 \<Longrightarrow> f64_of_u64 w = FFin (of_nat (unat w)) \<and> f64_to_u64 (f64_of_u64 w) = w"
  using f64_of_nat_exact [of "unat w"] f64_of_nat_roundtrip [of "unat w"]
  by (simp add: f64_of_u64_def)

lemma scale_up:
  assumes "unat t < 2 ^ 53" "t \<noteq> 0" "fp_le (FFin 1) y"
  shows "t \<le> f64_to_u64 (f64_mul (f64_of_u64 t) y)"
proof -
  define b :: rat where "b = of_nat (unat t)"
  have t1: "f64_of_u64 t = FFin b" and t2: "f64_to_u64 (f64_of_u64 t) = t"
    unfolding b_def using f64_of_u64_exact [OF assms(1)] by blast+
  note t = t1 t2 [unfolded t1]
  have b: "0 < b" using assms(2) unfolding b_def by (simp only: of_nat_0_less_iff unat_gt_0) simp
  have rb: "rnd64 b = FFin b" using t(1) by (simp add: f64_of_u64_def f64_of_nat_def b_def)
  have "fp_le (FFin b) (f64_mul (FFin b) y)"
  proof (cases y)
    case (FFin g)
    then have "b \<le> b * g" using assms(3) b by (simp add: mult_le_cancel_left1)
    then have "fp_le (rnd64 b) (rnd64 (b * g))" by (rule rnd64_mono)
    then show ?thesis by (simp add: FFin rb)
  qed (use assms(3) b in \<open>auto split: if_splits\<close>)
  then have "f64_to_u64 (FFin b) \<le> f64_to_u64 (f64_mul (FFin b) y)" by (rule f64_to_u64_mono)
  then show ?thesis by (simp only: t)
qed

lemma scale_down:
  assumes "unat t < 2 ^ 53" "in_unit y"
  shows "f64_to_u64 (f64_mul (f64_of_u64 t) y) \<le> t"
proof -
  define b :: rat where "b = of_nat (unat t)"
  have t1: "f64_of_u64 t = FFin b" and t2: "f64_to_u64 (f64_of_u64 t) = t"
    unfolding b_def using f64_of_u64_exact [OF assms(1)] by blast+
  note t = t1 t2 [unfolded t1]
  have rb: "rnd64 b = FFin b" using t(1) by (simp add: f64_of_u64_def f64_of_nat_def b_def)
  have b0: "0 \<le> b" unfolding b_def by (simp only: of_nat_0_le_iff)
  obtain g where g: "y = FFin g" "0 \<le> g" "g \<le> 1" using assms(2) by (rule in_unitE)
  have "b * g \<le> b" using b0 g mult_left_mono [of g 1 b] by simp
  then have "fp_le (rnd64 (b * g)) (rnd64 b)" by (rule rnd64_mono)
  then have "fp_le (f64_mul (FFin b) y) (FFin b)" by (simp add: g rb)
  then have "f64_to_u64 (f64_mul (FFin b) y) \<le> f64_to_u64 (FFin b)" by (rule f64_to_u64_mono)
  then show ?thesis by (simp only: t)
qed

lemma valid_step:
  assumes "valid_config c"
  obtains a where "f64_clamp (adaptive_step c) (FFin 0) (FFin 1) = FFin a" "0 < a" "a \<le> 1"
  using assms by (auto simp: valid_config_iff in_unit_interval_def f64_clamp_def)

lemma raise_factor: "valid_config c \<Longrightarrow> fp_le (FFin 1) (f64_add (FFin 1) (raise_step c n))"
proof -
  assume "valid_config c"
  then obtain a where a: "f64_clamp (adaptive_step c) (FFin 0) (FFin 1) = FFin a" "0 < a" by (rule valid_step)
  have "fp_le (FFin 0) (raise_step c n)"
    using rnd64_mono [of 0 "a * 2"] rnd64_mono [of 0 "a * (1 / 2)"] a by (simp add: raise_step_def)
  then show ?thesis using rnd64_mono [of 1] by (cases "raise_step c n") auto
qed

lemma decay_factor:
  assumes "valid_config c"
  shows "in_unit (f64_sub (FFin 1) (f64_mul (f64_clamp (adaptive_step c) (FFin 0) (FFin 1)) ADAPTIVE_DECAY_RATE))"
proof -
  obtain a where a: "f64_clamp (adaptive_step c) (FFin 0) (FFin 1) = FFin a" "0 < a" "a \<le> 1"
    using assms by (rule valid_step)
  obtain d where d: "rnd64 (10 / 100) = FFin d" "0 \<le> d" "d \<le> 1" by (rule rnd64_unit [of "10 / 100"]) auto
  have "0 \<le> a * d" "a * d \<le> 1" using a d by (auto intro: mult_le_one)
  then obtain x where x: "rnd64 (a * d) = FFin x" "0 \<le> x" "x \<le> 1" by (rule rnd64_unit)
  obtain y where y: "rnd64 (1 - x) = FFin y" "0 \<le> y" "y \<le> 1" by (rule rnd64_unit [of "1 - x"]) (use x in auto)
  show ?thesis unfolding a ADAPTIVE_DECAY_RATE_def d f64_mul.simps x f64_sub_def f64_neg.simps f64_add.simps
    using y by simp
qed

text \<open>
  C11. Adapting the threshold keeps it between the configured spawn threshold and ten times
  it, when it was there before (as it is when a router is created), for a valid
  configuration whose tenfold threshold a double represents exactly.
\<close>

theorem adapted_threshold_bounded:
  assumes "validate (cfg (conf r)) = Inr ()" and "unat (spawn_threshold (cfg (conf r))) * 10 < 2 ^ 53"
    and "spawn_threshold (cfg (conf r)) \<le> adaptive_spawn_threshold r"
    and "adaptive_spawn_threshold r \<le> spawn_threshold (cfg (conf r)) * 10"
  shows "spawn_threshold (cfg (conf r)) \<le> adaptive_spawn_threshold (maybe_adapt_threshold r)
    \<and> adaptive_spawn_threshold (maybe_adapt_threshold r) \<le> spawn_threshold (cfg (conf r)) * 10"
proof -
  let ?c = "cfg (conf r)" and ?t = "adaptive_spawn_threshold r"
  have v: "valid_config ?c" using assms(1) by (simp add: valid_config_def)
  have ten: "unat (spawn_threshold ?c * 10) = unat (spawn_threshold ?c) * 10"
    using unat_mult_small [of "spawn_threshold ?c" 10] assms(2) by simp
  have sat: "sat_mul (spawn_threshold ?c) 10 = spawn_threshold ?c * 10"
    using assms(2) by (simp add: sat_mul_def)
  have t: "unat ?t < 2 ^ 53" using assms(2,4) ten by (simp add: word_le_nat_alt)
  have "0 < spawn_threshold ?c" using v by (auto simp: valid_config_iff intro: less_trans)
  then have t0: "?t \<noteq> 0" using assms(3) by auto
  have up: "?t \<le> raised_threshold ?c n ?t \<and> raised_threshold ?c n ?t \<le> spawn_threshold ?c * 10" for n
    using scale_up [OF t t0 raise_factor [OF v]] assms(4) by (simp add: raised_threshold_def sat)
  have "f64_to_u64 (f64_mul (f64_of_u64 ?t) (f64_sub (FFin 1)
      (f64_mul (f64_clamp (adaptive_step ?c) (FFin 0) (FFin 1)) ADAPTIVE_DECAY_RATE))) \<le> ?t"
    by (rule scale_down [OF t decay_factor [OF v]])
  then have down: "spawn_threshold ?c \<le> decayed_threshold ?c ?t \<and> decayed_threshold ?c ?t \<le> ?t"
    using assms(3) by (simp add: decayed_threshold_def Let_def)
  have cases: "adaptive_spawn_threshold (maybe_adapt_threshold r) \<in>
      {?t, raised_threshold ?c (consecutive_raises r) ?t, decayed_threshold ?c ?t}"
    by (simp add: maybe_adapt_threshold_def Let_def split: option.split)
  then consider "adaptive_spawn_threshold (maybe_adapt_threshold r) = ?t"
    | "adaptive_spawn_threshold (maybe_adapt_threshold r) = raised_threshold ?c (consecutive_raises r) ?t"
    | "adaptive_spawn_threshold (maybe_adapt_threshold r) = decayed_threshold ?c ?t" by blast
  then show ?thesis
  proof cases
    case 2
    then show ?thesis using up [of "consecutive_raises r"] assms(3) by (metis order_trans)
  next
    case 3
    then show ?thesis using down assms(4) by (metis order_trans)
  qed (use assms(3,4) in simp)
qed

theorem adapted_threshold_bounded_witness:
  "adaptive_spawn_threshold (maybe_adapt_threshold (router_new RouterConfig_default)) \<le> 600000"
proof -
  have c: "cfg (conf (router_new RouterConfig_default)) = RouterConfig_default"
    "adaptive_spawn_threshold (router_new RouterConfig_default) = spawn_threshold RouterConfig_default"
    by (simp_all add: router_new_def)
  have s: "spawn_threshold RouterConfig_default = 60000" by (simp add: RouterConfig_default_def)
  show ?thesis
    using adapted_threshold_bounded [of "router_new RouterConfig_default", unfolded c, OF default_config_valid]
    by (simp add: s)
qed

section \<open>The cache in front of the router\<close>

lemma evict_lru_config: "cache_config (evict_lru c) = cache_config c"
proof (induction c rule: evict_lru.induct)
  case (1 c)
  then show ?case by (subst evict_lru.simps) (auto split: list.split)
qed

lemma cache_get_inserted:
  assumes "job_key job' = job_key job" "later - now \<le> ttl (cache_config c)"
  shows "\<exists>a. fst (cache_get later job' (cache_insert now job res c)) = Some \<lparr>cached_result = res, age = a\<rparr>"
proof -
  obtain e where e: "hm_get (entries (cache_insert now job res c)) (job_key job) = Some e"
    "result e = res" "computed_at e = now"
    using hm_get_insert_same by blast
  have "cache_config (cache_insert now job res c) = cache_config c"
    by (simp add: cache_insert_def Let_def evict_lru_config split: option.split)
  then show ?thesis using e assms by (simp add: cache_get_def Let_def elapsed_def)
qed

text \<open>
  C12. After a job ran inline, submitting a job with the same kind, inputs and cost within the
  time to live returns the same outputs from the cache: no routing decision is made and the
  learner is not consulted, provided floats are printed without a comma and read back.
\<close>

theorem resubmission_answered_from_cache:
  assumes "\<And>x. CHR '','' \<notin> set (fmt_f64 env x)" and "\<And>x. parse_f64 env' (fmt_f64 env x) = Some x"
    and "kind job' = kind job" and "inputs job' = inputs job" and "compute_cost job' = compute_cost job"
    and "0 < compute_cost job" and "deadline_ms job' = 0"
    and "instant env' - instant env \<le> ttl (cache_config (cache r))"
  shows "fst (submit env' job' (snd (run_inline env job p qf r))) = Returned (Some (execute_job job))
    \<and> decisions (snd (submit env' job' (snd (run_inline env job p qf r)))) = decisions (snd (run_inline env job p qf r))
    \<and> learner (snd (submit env' job' (snd (run_inline env job p qf r)))) = learner (snd (run_inline env job p qf r))"
proof -
  let ?r = "snd (run_inline env job p qf r)"
  let ?r1 = "?r\<lparr>submit_counter := submit_counter ?r + 1\<rparr>"
  let ?txt = "outputs_to_string (fmt_f64 env) (execute_job job)"
  have key: "job_key job' = job_key job" using assms(3-5) by (simp add: job_key_def job_key_bytes_def)
  have cache: "cache ?r = cache_insert (instant env) job ?txt (cache r)"
    by (simp add: run_inline_def Let_def finish_job_def check_sla_violation_def record_neural_outcome_def
        count_completed_def record_pressure_def router_record_latency_def bump_kind_route_def bump_route_def)
  have k: "job_key job' = job_key job" by (rule key)
  obtain a where a: "fst (cache_get (instant env') job' (cache ?r)) = Some \<lparr>cached_result = ?txt, age = a\<rparr>"
    using cache_get_inserted [OF k assms(8)] unfolding cache by blast
  have parsed: "parse_outputs (parse_f64 env') ?txt = execute_job job"
    by (rule parse_written_outputs) (rule assms)+
  have out: "fst (cached_outputs env' job' ?r1) = execute_job job"
    using a parsed by (simp add: cached_outputs_def Let_def case_prod_unfold)
  have same: "decisions (snd (cached_outputs env' job' ?r1)) = decisions ?r"
    "learner (snd (cached_outputs env' job' ?r1)) = learner ?r"
    by (simp_all add: cached_outputs_def Let_def case_prod_unfold split: option.split)
  have cost: "compute_cost job \<noteq> 0" using assms(6) by auto
  have ne: "execute_job job \<noteq> []" by (simp add: execute_job_def split: JobKind.split)
  have "submit env' job' ?r = (Returned (Some (execute_job job)), count_completed (snd (cached_outputs env' job' ?r1)))"
    using assms(5,7) cost out ne by (simp add: submit_def Let_def case_prod_unfold)
  then show ?thesis using same by (simp add: count_completed_def)
qed

definition demo_env :: submit_env where
  "demo_env = still_env\<lparr>fmt_f64 := demo_fmt, parse_f64 := demo_parse\<rparr>"

theorem resubmission_answered_from_cache_witness:
  "fst (submit (demo_env\<lparr>instant := 9\<rparr>) (Job_default\<lparr>job_id := 8, compute_cost := 3\<rparr>)
     (snd (run_inline demo_env (Job_default\<lparr>compute_cost := 3\<rparr>) (FFin 0) (FFin 0) (router_new RouterConfig_default))))
   = Returned (Some (execute_job (Job_default\<lparr>compute_cost := 3\<rparr>)))"
proof -
  have f: "CHR '','' \<notin> set (fmt_f64 demo_env x)" "parse_f64 (demo_env\<lparr>instant := 9\<rparr>) (fmt_f64 demo_env x) = Some x" for x
    using demo_fmt_ok [of x] by (simp_all add: demo_env_def)
  show ?thesis
    by (rule conjunct1 [OF resubmission_answered_from_cache [OF f]])
      (simp_all add: Job_default_def demo_env_def still_env_def router_new_def cache_new_def CacheConfig_default_def)
qed

end
