(* ===== verification/AutoscaleProps.thy ===== *)
theory AutoscaleProps
  imports RouterProps
begin

text \<open>
  The autoscaler inside the router (\<open>autoscale_tick\<close> of \<open>src/router.rs\<close>): what a tick may change,
  and that no submission can notice it.
\<close>

section \<open>Routers that differ in what a tick writes\<close>

definition scaled :: "usize \<Rightarrow> Autoscaler \<Rightarrow> Inner \<Rightarrow> Inner" where
  "scaled x a r = r\<lparr>autoscaler := a, conf := (conf r)\<lparr>cfg := (cfg (conf r))\<lparr>cpu_queue_cap := x\<rparr>\<rparr>\<rparr>"

named_theorems scaled_simps \<open>operations that commute with scaling\<close>

lemma scaled_fields [scaled_simps]:
  "tasks (scaled x a r) = tasks r" "routed (scaled x a r) = routed r" "dropped (scaled x a r) = dropped r"
  "completed (scaled x a r) = completed r" "metrics (scaled x a r) = metrics r"
  "adaptive_spawn_threshold (scaled x a r) = adaptive_spawn_threshold r" "decisions (scaled x a r) = decisions r"
  "routing_log (scaled x a r) = routing_log r" "eot_pressure_milli (scaled x a r) = eot_pressure_milli r"
  "batch_seq (scaled x a r) = batch_seq r" "submit_counter (scaled x a r) = submit_counter r"
  "pressure_cache (scaled x a r) = pressure_cache r" "learner (scaled x a r) = learner r"
  "batch_miss_count (scaled x a r) = batch_miss_count r" "batch_enqueued (scaled x a r) = batch_enqueued r"
  "batch_flushed (scaled x a r) = batch_flushed r" "sla_violations (scaled x a r) = sla_violations r"
  "kind_routed (scaled x a r) = kind_routed r" "deadline_exceeded (scaled x a r) = deadline_exceeded r"
  "cache (scaled x a r) = cache r" "timeout_mgr (scaled x a r) = timeout_mgr r"
  "cfg_arc (conf (scaled x a r)) = cfg_arc (conf r)"
  "sla (cfg (conf (scaled x a r))) = sla (cfg (conf r))"
  "batch_max_size (cfg (conf (scaled x a r))) = batch_max_size (cfg (conf r))"
  by (simp_all add: scaled_def)

lemma scaled_updates [scaled_simps]:
  "(scaled x a r)\<lparr>tasks := v1\<rparr> = scaled x a (r\<lparr>tasks := v1\<rparr>)"
  "(scaled x a r)\<lparr>routed := v2\<rparr> = scaled x a (r\<lparr>routed := v2\<rparr>)"
  "(scaled x a r)\<lparr>dropped := v3\<rparr> = scaled x a (r\<lparr>dropped := v3\<rparr>)"
  "(scaled x a r)\<lparr>completed := v4\<rparr> = scaled x a (r\<lparr>completed := v4\<rparr>)"
  "(scaled x a r)\<lparr>metrics := v5\<rparr> = scaled x a (r\<lparr>metrics := v5\<rparr>)"
  "(scaled x a r)\<lparr>decisions := v6\<rparr> = scaled x a (r\<lparr>decisions := v6\<rparr>)"
  "(scaled x a r)\<lparr>routing_log := v7\<rparr> = scaled x a (r\<lparr>routing_log := v7\<rparr>)"
  "(scaled x a r)\<lparr>batch_seq := v8\<rparr> = scaled x a (r\<lparr>batch_seq := v8\<rparr>)"
  "(scaled x a r)\<lparr>submit_counter := v9\<rparr> = scaled x a (r\<lparr>submit_counter := v9\<rparr>)"
  "(scaled x a r)\<lparr>learner := v10\<rparr> = scaled x a (r\<lparr>learner := v10\<rparr>)"
  "(scaled x a r)\<lparr>batch_miss_count := v11\<rparr> = scaled x a (r\<lparr>batch_miss_count := v11\<rparr>)"
  "(scaled x a r)\<lparr>batch_enqueued := v12\<rparr> = scaled x a (r\<lparr>batch_enqueued := v12\<rparr>)"
  "(scaled x a r)\<lparr>batch_flushed := v13\<rparr> = scaled x a (r\<lparr>batch_flushed := v13\<rparr>)"
  "(scaled x a r)\<lparr>sla_violations := v14\<rparr> = scaled x a (r\<lparr>sla_violations := v14\<rparr>)"
  "(scaled x a r)\<lparr>kind_routed := v15\<rparr> = scaled x a (r\<lparr>kind_routed := v15\<rparr>)"
  "(scaled x a r)\<lparr>deadline_exceeded := v16\<rparr> = scaled x a (r\<lparr>deadline_exceeded := v16\<rparr>)"
  "(scaled x a r)\<lparr>cache := v17\<rparr> = scaled x a (r\<lparr>cache := v17\<rparr>)"
  "(scaled x a r)\<lparr>timeout_mgr := v18\<rparr> = scaled x a (r\<lparr>timeout_mgr := v18\<rparr>)"
  by (simp_all add: scaled_def)

lemma scaled_helpers [scaled_simps]:
  "bump_route s (scaled x a r) = scaled x a (bump_route s r)"
  "bump_kind_route k (scaled x a r) = scaled x a (bump_kind_route k r)"
  "check_sla_violation k ms (scaled x a r) = scaled x a (check_sla_violation k ms r)"
  "router_record_latency s ms (scaled x a r) = scaled x a (router_record_latency s ms r)"
  "record_pressure qf d lf (scaled x a r) = scaled x a (record_pressure qf d lf r)"
  "record_neural_outcome job p s ms d (scaled x a r) = scaled x a (record_neural_outcome job p s ms d r)"
  "count_completed (scaled x a r) = scaled x a (count_completed r)"
  "count_dropped (scaled x a r) = scaled x a (count_dropped r)"
  "on_tasks f (scaled x a r) = scaled x a (on_tasks f r)"
  "broadcast d' (scaled x a r) = scaled x a (broadcast d' r)"
  "log_decision d' (scaled x a r) = scaled x a (log_decision d' r)"
  by (simp_all add: bump_route_def bump_kind_route_def check_sla_violation_def router_record_latency_def
      record_pressure_def record_neural_outcome_def count_completed_def count_dropped_def on_tasks_def
      broadcast_def log_decision_def Let_def scaled_simps)

lemma scaled_reads [scaled_simps]:
  "queue_frac_of par (scaled x a r) = queue_frac_of par r"
  "live_pressure qf (scaled x a r) = live_pressure qf r"
  "submit_pressure qf (scaled x a r) = submit_pressure qf r"
  "decide (scaled x a r) job = decide r job"
  "cpu_busy_of c (scaled x a r) = cpu_busy_of c r"
  by (simp_all add: queue_frac_of_def live_pressure_def eot_pressure_def submit_pressure_def decide_def
      heuristic_strategy_def effective_cfg_def cpu_busy_of_def Let_def scaled_simps)

lemma scaled_endings [scaled_simps]:
  "finish_job job p s ms (scaled x a r) = scaled x a (finish_job job p s ms r)"
  "fail_job job p s qf (scaled x a r) = scaled x a (fail_job job p s qf r)"
  "drop_late_job job (scaled x a r) = scaled x a (drop_late_job job r)"
  by (simp_all add: finish_job_def fail_job_def drop_late_job_def Let_def scaled_simps)

lemma scaled_flush_entry [scaled_simps]: "flush_entry lat be (scaled x a r) = scaled x a (flush_entry lat be r)"
  by (simp add: flush_entry_def answer_entry_def Let_def scaled_simps)

lemma scaled_fold_flush [scaled_simps]:
  "fold (flush_entry lat) es (scaled x a r) = scaled x a (fold (flush_entry lat) es r)"
  by (induction es arbitrary: r) (simp_all add: scaled_simps)

lemma scaled_flush [scaled_simps]: "flush_batch_kind lat k (scaled x a r) = scaled x a (flush_batch_kind lat k r)"
  by (simp add: flush_batch_kind_def Let_def scaled_simps split: option.split)

section \<open>Submissions\<close>

lemma scaled_handlers [scaled_simps]:
  "run_inline env job p qf (scaled x a r) = map_prod id (scaled x a) (run_inline env job p qf r)"
  "run_spawned job p qf (scaled x a r) = map_prod id (scaled x a) (run_spawned job p qf r)"
  "resume_spawned panicked ms sw (scaled x a r) = map_prod id (scaled x a) (resume_spawned panicked ms sw r)"
  "send_to_pool job p qf (scaled x a r) = map_prod id (scaled x a) (send_to_pool job p qf r)"
  "send_to_batch env job p (scaled x a r) = map_prod id (scaled x a) (send_to_batch env job p r)"
  "cached_outputs env job (scaled x a r) = map_prod id (scaled x a) (cached_outputs env job r)"
  by (simp_all add: run_inline_def run_spawned_def resume_spawned_def send_to_pool_def send_to_batch_def cached_outputs_def Let_def
      scaled_simps split: option.split prod.split)

lemma scaled_routed [scaled_simps]:
  "submit_routed env job (scaled x a r) = map_prod id (scaled x a) (submit_routed env job r)"
  by (simp add: submit_routed_def Let_def scaled_simps split: prod.split Strategy.split)

lemma scaled_submit [scaled_simps]:
  "submit env job (scaled x a r) = map_prod id (scaled x a) (submit env job r)"
  by (auto simp: submit_def Let_def scaled_simps split: prod.split)

text \<open>
  Calls one after the other: a submission that spawned a task awaits it, with a panic or the
  elapsed milliseconds; one that waits for a reply is left waiting.
\<close>

definition submit_and_await :: "submit_env \<Rightarrow> bool \<Rightarrow> u64 \<Rightarrow> Job \<Rightarrow> Inner \<Rightarrow> submit_result \<times> Inner" where
  "submit_and_await env panicked ms job r =
    (case submit env job r of
       (AwaitingTask sw, r) \<Rightarrow> map_prod Returned id (resume_spawned panicked ms sw r)
     | x \<Rightarrow> x)"

lemma scaled_submit_and_await [scaled_simps]:
  "submit_and_await env panicked ms job (scaled x a r) = map_prod id (scaled x a) (submit_and_await env panicked ms job r)"
  by (auto simp: submit_and_await_def scaled_simps map_prod_def split: prod.split submit_result.split)

fun submit_all :: "(submit_env \<times> bool \<times> u64 \<times> Job) list \<Rightarrow> Inner \<Rightarrow> submit_result list \<times> Inner" where
  "submit_all [] r = ([], r)"
| "submit_all ((env, panicked, ms, job) # calls) r =
    (case submit_and_await env panicked ms job r of (x, r) \<Rightarrow> case submit_all calls r of (xs, r) \<Rightarrow> (x # xs, r))"

lemma scaled_submit_all: "submit_all calls (scaled x a r) = map_prod id (scaled x a) (submit_all calls r)"
  by (induction calls arbitrary: r) (auto simp: scaled_simps split: prod.split)

section \<open>Ticks\<close>

lemma tick_scaled:
  "\<exists>x a. autoscale_tick fmt now_secs r = scaled x a r
    \<and> min (cpu_queue_cap (cfg (conf r))) 16 \<le> x \<and> x \<le> max (cpu_queue_cap (cfg (conf r))) 4096"
proof -
  define a where "a = snd (autoscale_observe fmt now_secs r)"
  let ?c = "cpu_queue_cap (cfg (conf r))"
  have a: "a = scaled ?c (autoscaler a) r" "conf a = conf r"
    by (simp_all add: a_def autoscale_observe_def Let_def scaled_def)
  have "\<exists>x. apply_recommendation d n a = scaled x (autoscaler a) r \<and> min ?c 16 \<le> x \<and> x \<le> max ?c 4096" for d n
  proof (cases d)
    case Up
    show ?thesis
    proof (cases "?c < min n 4096")
      case True
      have "apply_recommendation d n a = scaled (min n 4096) (autoscaler a) r"
        using True by (subst a(1)) (simp add: apply_recommendation_def Let_def Up scaled_def)
      moreover have "min ?c 16 \<le> min n 4096" "min n 4096 \<le> max ?c 4096" using True by (auto simp: min_def max_def)
      ultimately show ?thesis by blast
    next
      case False
      have "apply_recommendation d n a = a" using False a(2) by (auto simp: apply_recommendation_def Let_def Up)
      then show ?thesis by (metis a(1) max.cobounded1 min.cobounded1)
    qed
  next
    case Down
    show ?thesis
    proof (cases "max n 16 < ?c")
      case True
      have "apply_recommendation d n a = scaled (max n 16) (autoscaler a) r"
        using True by (subst a(1)) (simp add: apply_recommendation_def Let_def Down scaled_def)
      moreover have "min ?c 16 \<le> max n 16" "max n 16 \<le> max ?c 4096" using True by (auto simp: min_def max_def)
      ultimately show ?thesis by blast
    next
      case False
      have "apply_recommendation d n a = a" using False a(2) by (auto simp: apply_recommendation_def Let_def Down)
      then show ?thesis by (metis a(1) max.cobounded1 min.cobounded1)
    qed
  next
    case Hold
    have "apply_recommendation d n a = a" by (simp add: apply_recommendation_def Let_def Hold)
    then show ?thesis by (metis a(1) max.cobounded1 min.cobounded1)
  qed
  moreover have "autoscale_tick fmt now_secs r = a \<or> (\<exists>d n. autoscale_tick fmt now_secs r = apply_recommendation d n a)"
    unfolding autoscale_tick_def a_def by (auto split: prod.split option.split)
  ultimately show ?thesis by (metis a(1) max.cobounded1 min.cobounded1)
qed

text \<open>
  C35. A tick of the autoscaler changes one field of the configuration, the queue capacity, to a
  value between the smaller of the old one and 16 and the larger of the old one and 4096, and no caller can notice it: any series of submissions
  after the tick gets the answers it would have got without it, and leaves the same router
  behind but for that field. The bounded channel keeps the capacity it was created with.
\<close>

theorem autoscaling_never_changes_admission:
  "let r' = autoscale_tick fmt now_secs r; c = cpu_queue_cap (cfg (conf r)); x = cpu_queue_cap (cfg (conf r')) in
     min c 16 \<le> x \<and> x \<le> max c 4096
     \<and> r' = r\<lparr>autoscaler := autoscaler r', conf := (conf r)\<lparr>cfg := (cfg (conf r))\<lparr>cpu_queue_cap := x\<rparr>\<rparr>\<rparr>
     \<and> fst (submit_all calls r') = fst (submit_all calls r)
     \<and> snd (submit_all calls r') = scaled x (autoscaler r') (snd (submit_all calls r))"
proof -
  obtain x a where t: "autoscale_tick fmt now_secs r = scaled x a r"
    "min (cpu_queue_cap (cfg (conf r))) 16 \<le> x" "x \<le> max (cpu_queue_cap (cfg (conf r))) 4096"
    using tick_scaled by blast
  have s: "cpu_queue_cap (cfg (conf (scaled x a r))) = x" "autoscaler (scaled x a r) = a" by (simp_all add: scaled_def)
  show ?thesis unfolding Let_def t(1) s scaled_submit_all using t(2,3) by (simp add: scaled_def)
qed

end
