(* ===== verification/Dag.thy ===== *)
theory Dag
  imports Types "HOL-Library.Product_Lexorder"
begin

text \<open>
  Dependency graphs of jobs and their execution (\<open>src/dag.rs\<close>): building a graph with cycle
  detection by depth-first search, Kahn's topological order, leaves, and the executor that
  submits the ready nodes wave by wave. The iteration order of the node map is the order of
  its list. The recursion of the search and Kahn's loop carry fuel; lemmas show that the fuel
  the definitions pass always suffices.
\<close>

section \<open>Graphs\<close>

type_synonym NodeId = nat

record DagNode =
  node_job :: Job
  depends_on :: "NodeId list"
  node_output :: "Output list option"

record JobDag =
  dag_nodes :: "(NodeId, DagNode) hashmap"
  next_id :: nat

datatype DagError =
    CycleDetected NodeId NodeId
  | UnknownNode NodeId
  | EmptyDag
  | JobDropped NodeId
  | TaskFailed NodeId

definition dag_new :: JobDag where
  "dag_new = \<lparr>dag_nodes = [], next_id = 0\<rparr>"

definition add_node :: "Job \<Rightarrow> JobDag \<Rightarrow> NodeId \<times> JobDag" where
  "add_node job d =
    (next_id d,
     d\<lparr>next_id := next_id d + 1,
       dag_nodes := hm_insert (next_id d) \<lparr>node_job = job, depends_on = [], node_output = None\<rparr> (dag_nodes d)\<rparr>)"

text \<open>
  The search follows out-edges by scanning every node's dependencies. \<open>None\<close> stands for
  exhausted fuel only.
\<close>

fun dfs_has_cycle :: "nat \<Rightarrow> NodeId \<Rightarrow> (NodeId, DagNode) hashmap \<Rightarrow> NodeId set \<times> NodeId set \<Rightarrow>
    (bool \<times> NodeId set \<times> NodeId set) option"
  and scan_dependants :: "nat \<Rightarrow> NodeId \<Rightarrow> (NodeId, DagNode) hashmap \<Rightarrow> (NodeId, DagNode) hashmap \<Rightarrow>
    NodeId set \<times> NodeId set \<Rightarrow> (bool \<times> NodeId set \<times> NodeId set) option" where
  "dfs_has_cycle 0 node nodes st = None"
| "dfs_has_cycle (Suc f) node nodes (visited, in_stack) =
    (case scan_dependants f node nodes nodes (insert node visited, insert node in_stack) of
       Some (False, visited, in_stack) \<Rightarrow> Some (False, visited, in_stack - {node})
     | r \<Rightarrow> r)"
| "scan_dependants f node nodes [] (visited, in_stack) = Some (False, visited, in_stack)"
| "scan_dependants f node nodes ((other_id, other_node) # rest) (visited, in_stack) =
    (if node \<in> set (depends_on other_node) then
       if other_id \<notin> visited then
         (case dfs_has_cycle f other_id nodes (visited, in_stack) of
            Some (False, st) \<Rightarrow> scan_dependants f node nodes rest st
          | r \<Rightarrow> r)
       else if other_id \<in> in_stack then Some (True, visited, in_stack)
       else scan_dependants f node nodes rest (visited, in_stack)
     else scan_dependants f node nodes rest (visited, in_stack))"

fun search_starts :: "nat \<Rightarrow> (NodeId, DagNode) hashmap \<Rightarrow> NodeId list \<Rightarrow> NodeId set \<times> NodeId set \<Rightarrow>
    (bool \<times> NodeId set \<times> NodeId set) option" where
  "search_starts f nodes [] (visited, in_stack) = Some (False, visited, in_stack)"
| "search_starts f nodes (start # starts) (visited, in_stack) =
    (if start \<notin> visited then
       (case dfs_has_cycle f start nodes (visited, in_stack) of
          Some (False, st) \<Rightarrow> search_starts f nodes starts st
        | r \<Rightarrow> r)
     else search_starts f nodes starts (visited, in_stack))"

definition has_cycle :: "(NodeId, DagNode) hashmap \<Rightarrow> bool" where
  "has_cycle nodes =
    (case search_starts (length nodes) nodes (hm_keys nodes) ({}, {}) of
       Some (b, _) \<Rightarrow> b
     | None \<Rightarrow> False)"

definition push_dependency :: "NodeId \<Rightarrow> NodeId \<Rightarrow> DagNode \<Rightarrow> (NodeId, DagNode) hashmap \<Rightarrow> (NodeId, DagNode) hashmap" where
  "push_dependency src tgt n nodes = hm_insert tgt (n\<lparr>depends_on := depends_on n @ [src]\<rparr>) nodes"

definition roll_back :: "NodeId \<Rightarrow> NodeId \<Rightarrow> DagNode \<Rightarrow> (NodeId, DagNode) hashmap \<Rightarrow> (NodeId, DagNode) hashmap" where
  "roll_back src tgt n nodes =
     hm_insert tgt (n\<lparr>depends_on := filter (\<lambda>x. x \<noteq> src) (depends_on n @ [src])\<rparr>) nodes"

definition add_edge :: "NodeId \<Rightarrow> NodeId \<Rightarrow> JobDag \<Rightarrow> (DagError + unit) \<times> JobDag" where
  "add_edge src tgt d =
    (if \<not> hm_contains (dag_nodes d) src then (Inl (UnknownNode src), d)
     else case hm_get (dag_nodes d) tgt of
            None \<Rightarrow> (Inl (UnknownNode tgt), d)
          | Some n \<Rightarrow>
              let nodes = push_dependency src tgt n (dag_nodes d)
              in if has_cycle nodes
                 then (Inl (CycleDetected src tgt), d\<lparr>dag_nodes := roll_back src tgt n nodes\<rparr>)
                 else (Inr (), d\<lparr>dag_nodes := nodes\<rparr>))"

section \<open>Topological order and leaves\<close>

text \<open>One turn of Kahn's inner loop: the dependants of \<open>node_id\<close>, in map order.\<close>

definition relax :: "NodeId \<Rightarrow> NodeId \<times> DagNode \<Rightarrow> (NodeId \<Rightarrow> nat) \<times> NodeId list \<Rightarrow> (NodeId \<Rightarrow> nat) \<times> NodeId list" where
  "relax node_id other st =
    (case other of (other_id, other_node) \<Rightarrow> case st of (in_degree, queue) \<Rightarrow>
       if node_id \<in> set (depends_on other_node) then
         let deg = in_degree other_id - 1
         in (in_degree(other_id := deg), if deg = 0 then queue @ [other_id] else queue)
       else (in_degree, queue))"

fun kahn :: "nat \<Rightarrow> (NodeId, DagNode) hashmap \<Rightarrow> (NodeId \<Rightarrow> nat) \<Rightarrow> NodeId list \<Rightarrow> NodeId list \<Rightarrow> NodeId list option" where
  "kahn f nodes in_degree [] order = Some order"
| "kahn 0 nodes in_degree (node_id # queue) order = None"
| "kahn (Suc f) nodes in_degree (node_id # queue) order =
    (case fold (relax node_id) nodes (in_degree, queue) of
       (in_degree, queue) \<Rightarrow> kahn f nodes in_degree queue (order @ [node_id]))"

definition in_degrees :: "(NodeId, DagNode) hashmap \<Rightarrow> NodeId \<Rightarrow> nat" where
  "in_degrees nodes n = (case hm_get nodes n of Some node \<Rightarrow> length (depends_on node) | None \<Rightarrow> 0)"

text \<open>
  The first queue is read off the map of in-degrees, another hash map than the nodes: \<open>rank\<close>
  stands for its iteration order, and every order is the sorting by some rank.
\<close>

definition topological_order :: "(NodeId \<Rightarrow> nat) \<Rightarrow> (NodeId, DagNode) hashmap \<Rightarrow> NodeId list option" where
  "topological_order rank nodes =
    (case kahn (length nodes) nodes (in_degrees nodes)
            (filter (\<lambda>n. in_degrees nodes n = 0) (sort_key rank (hm_keys nodes))) [] of
       Some order \<Rightarrow> if length order = length nodes then Some order else None
     | None \<Rightarrow> None)"

definition leaf_nodes :: "(NodeId, DagNode) hashmap \<Rightarrow> NodeId set" where
  "leaf_nodes nodes =
    (let non_leaves = set (concat (map (\<lambda>(_, n). depends_on n) nodes))
     in set (filter (\<lambda>n. n \<notin> non_leaves) (hm_keys nodes)))"

section \<open>Execution\<close>

text \<open>
  What comes back from the task of a node: the answer of \<open>Router::submit\<close>, or a panic of the
  task. Every node is submitted at most once, so an assignment of outcomes to nodes covers
  every behaviour of the router.
\<close>

datatype task_outcome = Answered "Output list option" | TaskPanicked

record DagResult =
  all_outputs :: "(NodeId, Output list) hashmap"
  leaf_outputs :: "(NodeId, Output list) hashmap"
  nodes_executed :: nat
  nodes_dropped :: nat

definition ready :: "(NodeId, DagNode) hashmap \<Rightarrow> (NodeId, Output list) hashmap \<Rightarrow> NodeId \<Rightarrow> bool" where
  "ready nodes_map completed n =
    (case hm_get nodes_map n of
       Some node \<Rightarrow> list_all (hm_contains completed) (depends_on node)
     | None \<Rightarrow> False)"

text \<open>Joining the tasks of a wave; a panic ends the whole execution.\<close>

fun join_wave :: "(NodeId \<Rightarrow> task_outcome) \<Rightarrow> NodeId list \<Rightarrow> (NodeId, Output list) hashmap \<Rightarrow> nat \<Rightarrow>
    ((NodeId, Output list) hashmap \<times> nat) option" where
  "join_wave outcome [] completed dropped = Some (completed, dropped)"
| "join_wave outcome (n # wave) completed dropped =
    (case outcome n of
       Answered (Some outs) \<Rightarrow> join_wave outcome wave (hm_insert n outs completed) dropped
     | Answered None \<Rightarrow> join_wave outcome wave (hm_insert n [] completed) (dropped + 1)
     | TaskPanicked \<Rightarrow> None)"

text \<open>
  The loop over waves, returning the waves it submitted next to its result. An identifier
  without a node is an error the executor returns before it submits the wave.
\<close>

function execute_waves :: "(NodeId \<Rightarrow> task_outcome) \<Rightarrow> NodeId list \<Rightarrow> (NodeId, DagNode) hashmap \<Rightarrow>
    (NodeId, Output list) hashmap \<Rightarrow> nat \<Rightarrow>
    NodeId list list \<times> (DagError + (NodeId, Output list) hashmap \<times> nat)" where
  "execute_waves outcome remaining nodes_map completed dropped =
    (if remaining = [] then ([], Inr (completed, dropped))
     else case List.find (\<lambda>n. \<not> hm_contains nodes_map n) remaining of
       Some n \<Rightarrow> ([], Inl (UnknownNode n))
     | None \<Rightarrow>
         let wave = filter (ready nodes_map completed) remaining;
             next_remaining = filter (\<lambda>n. \<not> ready nodes_map completed n) remaining
         in if wave = [] then ([], Inr (completed, dropped))
            else case join_wave outcome wave completed dropped of
                   None \<Rightarrow> ([wave], Inl (TaskFailed (2 ^ 64 - 1)))
                 | Some (completed, dropped) \<Rightarrow>
                     (case execute_waves outcome next_remaining (fold hm_remove wave nodes_map) completed dropped of
                        (waves, r) \<Rightarrow> (wave # waves, r)))"
  by pat_completeness auto

termination
  by (relation "measure (\<lambda>(_, remaining, _). length remaining)")
    (auto simp: filter_empty_conv intro!: length_filter_less)

declare execute_waves.simps [simp del]

definition execute :: "(NodeId \<Rightarrow> nat) \<Rightarrow> (NodeId \<Rightarrow> task_outcome) \<Rightarrow> JobDag \<Rightarrow> NodeId list list \<times> (DagError + DagResult)" where
  "execute rank outcome d =
    (if dag_nodes d = [] then ([], Inl EmptyDag)
     else case topological_order rank (dag_nodes d) of
       None \<Rightarrow> ([], Inl (CycleDetected 0 0))
     | Some topo \<Rightarrow>
         (case execute_waves outcome topo (dag_nodes d) [] 0 of
            (waves, Inl e) \<Rightarrow> (waves, Inl e)
          | (waves, Inr (completed, dropped)) \<Rightarrow>
              (waves, Inr \<lparr>all_outputs = completed,
                 leaf_outputs = filter (\<lambda>(n, _). n \<in> leaf_nodes (dag_nodes d)) completed,
                 nodes_executed = length completed, nodes_dropped = dropped\<rparr>)))"

section \<open>The graph as shown to a browser\<close>

record DagGraphNode =
  gn_id :: nat
  gn_job_id :: u64
  gn_kind :: string
  gn_compute_cost :: u64
  gn_dep_count :: nat
  gn_is_leaf :: bool
  gn_status :: string

record DagGraphEdge =
  ge_source :: nat
  ge_target :: nat

record DagGraphPayload =
  gp_nodes :: "DagGraphNode list"
  gp_edges :: "DagGraphEdge list"
  gp_node_count :: nat
  gp_edge_count :: nat

definition graph_node :: "(NodeId, DagNode) hashmap \<Rightarrow> NodeId \<times> DagNode \<Rightarrow> DagGraphNode" where
  "graph_node nodes entry =
    (case entry of (n, node) \<Rightarrow>
       \<lparr>gn_id = n, gn_job_id = job_id (node_job node), gn_kind = JobKind_to_string (kind (node_job node)),
        gn_compute_cost = compute_cost (node_job node), gn_dep_count = length (depends_on node),
        gn_is_leaf = n \<in> leaf_nodes nodes, gn_status = ''pending''\<rparr>)"

definition to_graph_payload :: "JobDag \<Rightarrow> DagGraphPayload" where
  "to_graph_payload d =
    (let nodes = sort_key gn_id (map (graph_node (dag_nodes d)) (dag_nodes d));
         edges = sort_key (\<lambda>e. (ge_source e, ge_target e))
           (concat (map (\<lambda>(n, node). map (\<lambda>p. \<lparr>ge_source = p, ge_target = n\<rparr>) (depends_on node)) (dag_nodes d)))
     in \<lparr>gp_nodes = nodes, gp_edges = edges, gp_node_count = length nodes, gp_edge_count = length edges\<rparr>)"

section \<open>The graph a node map stands for\<close>

definition edges :: "(NodeId, DagNode) hashmap \<Rightarrow> (NodeId \<times> NodeId) set" where
  "edges nodes = {(p, n). \<exists>node. (n, node) \<in> set nodes \<and> p \<in> set (depends_on node)}"

definition dag_wf :: "(NodeId, DagNode) hashmap \<Rightarrow> bool" where
  "dag_wf nodes = (hm_wf nodes \<and> list_all (\<lambda>(_, n). set (depends_on n) \<subseteq> set (hm_keys nodes)) nodes)"

lemma edges_keys: "dag_wf nodes \<Longrightarrow> (p, n) \<in> edges nodes \<Longrightarrow> p \<in> set (hm_keys nodes) \<and> n \<in> set (hm_keys nodes)"
  by (force simp: edges_def dag_wf_def list_all_iff hm_keys_def)

lemma edges_sub: "dag_wf nodes \<Longrightarrow> edges nodes \<subseteq> set (hm_keys nodes) \<times> set (hm_keys nodes)"
  using edges_keys by auto

section \<open>Cycle detection is exact\<close>

text \<open>
  Between calls: finished nodes (visited, no longer on the stack) have only finished
  successors, and none of them lies on a cycle.
\<close>

definition search_inv :: "(NodeId, DagNode) hashmap \<Rightarrow> NodeId set \<Rightarrow> NodeId set \<Rightarrow> bool" where
  "search_inv nodes V S \<longleftrightarrow> S \<subseteq> V \<and> V \<subseteq> set (hm_keys nodes) \<and> edges nodes `` (V - S) \<subseteq> V - S
     \<and> (\<forall>x \<in> V - S. (x, x) \<notin> (edges nodes)\<^sup>+)"

lemma closed_trancl: "(x, y) \<in> E\<^sup>+ \<Longrightarrow> E `` B \<subseteq> B \<Longrightarrow> x \<in> B \<Longrightarrow> y \<in> B"
  by (induction rule: trancl_induct) auto

lemma search_inv_finish:
  assumes "search_inv nodes V (insert x S)" and "x \<notin> S" and "x \<in> V" and "edges nodes `` {x} \<subseteq> V - insert x S"
  shows "search_inv nodes V S"
proof -
  let ?B = "V - insert x S"
  have B: "V - S = insert x ?B" using assms(2,3) by auto
  have closed: "edges nodes `` ?B \<subseteq> ?B" using assms(1) by (simp add: search_inv_def)
  have "(x, x) \<notin> (edges nodes)\<^sup>+"
  proof
    assume "(x, x) \<in> (edges nodes)\<^sup>+"
    then obtain y where "(x, y) \<in> edges nodes" "y = x \<or> (y, x) \<in> (edges nodes)\<^sup>+"
      by (meson tranclD rtranclD)
    then have "x \<in> ?B" using assms(4) closed_trancl [OF _ closed, of y x] by auto
    then show False by simp
  qed
  then show ?thesis using assms(1,4) closed unfolding search_inv_def B by auto
qed

text \<open>What a search from a node, and a scan of its dependants, give.\<close>

definition search_result :: "(NodeId, DagNode) hashmap \<Rightarrow> NodeId set \<Rightarrow> NodeId set \<Rightarrow> NodeId set \<Rightarrow>
    (bool \<times> NodeId set \<times> NodeId set) option \<Rightarrow> bool" where
  "search_result nodes V S fresh r \<longleftrightarrow>
    (\<exists>b V' S'. r = Some (b, V', S') \<and>
      (if b then \<exists>x. (x, x) \<in> (edges nodes)\<^sup>+
       else search_inv nodes V' S \<and> S' = S \<and> V \<subseteq> V' \<and> fresh \<subseteq> V' - S))"

lemma search_result_cases:
  assumes "search_result nodes V S fresh r"
  obtains V' S' where "r = Some (True, V', S')" "\<exists>x. (x, x) \<in> (edges nodes)\<^sup>+"
  | V' where "r = Some (False, V', S)" "search_inv nodes V' S" "V \<subseteq> V'" "fresh \<subseteq> V' - S"
  using assms unfolding search_result_def by (auto split: if_splits)

lemma search_result_more:
  "search_result nodes V1 S A r \<Longrightarrow> V \<subseteq> V1 \<Longrightarrow> x \<in> V1 - S \<Longrightarrow> search_result nodes V S (insert x A) r"
  unfolding search_result_def by (elim exE conjE) (simp split: if_splits, blast)

lemma search_correct:
  "dag_wf nodes \<Longrightarrow> search_inv nodes V S \<Longrightarrow> node \<in> set (hm_keys nodes) - V \<Longrightarrow>
     card (set (hm_keys nodes) - V) \<le> f \<Longrightarrow> (\<forall>s \<in> S. (s, node) \<in> (edges nodes)\<^sup>+) \<Longrightarrow>
     search_result nodes V S {node} (dfs_has_cycle f node nodes (V, S))"
  "dag_wf nodes \<Longrightarrow> search_inv nodes V S \<Longrightarrow> node \<in> S \<Longrightarrow> set rest \<subseteq> set nodes \<Longrightarrow>
     card (set (hm_keys nodes) - V) \<le> f \<Longrightarrow> (\<forall>s \<in> S. (s, node) \<in> (edges nodes)\<^sup>*) \<Longrightarrow>
     search_result nodes V S {n. \<exists>nd. (n, nd) \<in> set rest \<and> node \<in> set (depends_on nd)}
       (scan_dependants f node nodes rest (V, S))"
proof (induction f node nodes "(V, S)" and f node nodes rest "(V, S)" arbitrary: V S and V S
    rule: dfs_has_cycle_scan_dependants.induct)
  case (1 node nodes)
  then show ?case by (auto simp: card_eq_0_iff)
next
  case (2 f node nodes V S)
  have fresh: "node \<notin> V" "node \<notin> S" "node \<in> set (hm_keys nodes)" using "2.prems"(2,3) by (auto simp: search_inv_def)
  have inv: "search_inv nodes (insert node V) (insert node S)"
    using "2.prems"(2) fresh by (auto simp: search_inv_def insert_Diff_if)
  have "set (hm_keys nodes) - insert node V = (set (hm_keys nodes) - V) - {node}" by auto
  then have c: "card (set (hm_keys nodes) - insert node V) \<le> f"
    using "2.prems"(3,4) by (simp add: card_Diff_singleton)
  have reach: "\<forall>s \<in> insert node S. (s, node) \<in> (edges nodes)\<^sup>*" using "2.prems"(5) by (auto simp: trancl_into_rtrancl)
  have "search_result nodes (insert node V) (insert node S)
      {n. \<exists>nd. (n, nd) \<in> set nodes \<and> node \<in> set (depends_on nd)}
      (scan_dependants f node nodes nodes (insert node V, insert node S))"
    by (rule "2.hyps") (use "2.prems"(1) inv c reach in auto)
  then show ?case
  proof (cases rule: search_result_cases)
    case (1 V' S')
    then show ?thesis by (auto simp: search_result_def)
  next
    case (2 V')
    have "edges nodes `` {node} \<subseteq> V' - insert node S" using 2(4) by (auto simp: edges_def)
    then have "search_inv nodes V' S" using search_inv_finish [OF 2(2) fresh(2)] 2(3) by blast
    moreover have "insert node S - {node} = S" using fresh(2) by simp
    ultimately show ?thesis using 2 fresh(2) by (auto simp: search_result_def)
  qed
next
  case (3 f node nodes V S)
  then show ?case by (auto simp: search_result_def)
next
  case (4 f node nodes other_id other_node rest V S)
  have mem: "(other_id, other_node) \<in> set nodes" "set rest \<subseteq> set nodes" using "4.prems"(4) by auto
  have key: "other_id \<in> set (hm_keys nodes)" using mem(1) by (force simp: hm_keys_def)
  let ?F = "\<lambda>rest. {n. \<exists>nd. (n, nd) \<in> set rest \<and> node \<in> set (depends_on nd)}"
  show ?case
  proof (cases "node \<in> set (depends_on other_node)")
    case False
    have "search_result nodes V S (?F rest) (scan_dependants f node nodes rest (V, S))"
      by (rule "4.hyps"(4)) (use False "4.prems" mem in auto)
    moreover have "?F ((other_id, other_node) # rest) = ?F rest" using False by auto
    ultimately show ?thesis using False by (simp del: set_simps)
  next
    case edge: True
    have e: "(node, other_id) \<in> edges nodes" using mem(1) edge by (auto simp: edges_def)
    have F: "?F ((other_id, other_node) # rest) = insert other_id (?F rest)" using edge by auto
    show ?thesis
    proof (cases "other_id \<in> V")
      case v: True
      show ?thesis
      proof (cases "other_id \<in> S")
        case True
        then have "(other_id, other_id) \<in> (edges nodes)\<^sup>+" using e "4.prems"(6) by (meson rtrancl_into_trancl1)
        then show ?thesis using edge v True by (auto simp: search_result_def)
      next
        case False
        have "search_result nodes V S (?F rest) (scan_dependants f node nodes rest (V, S))"
          by (rule "4.hyps"(3)) (use edge v False "4.prems" mem in auto)
        from search_result_more [OF this order.refl, of other_id] show ?thesis
          unfolding F using edge v False by simp
      qed
    next
      case v: False
      have "\<forall>s \<in> S. (s, other_id) \<in> (edges nodes)\<^sup>+" using e "4.prems"(6) by (meson rtrancl_into_trancl1)
      then have "search_result nodes V S {other_id} (dfs_has_cycle f other_id nodes (V, S))"
        by (intro "4.hyps"(1)) (use edge v "4.prems" key in auto)
      then show ?thesis
      proof (cases rule: search_result_cases)
        case (1 V' S')
        then show ?thesis using edge v by (auto simp: search_result_def)
      next
        case (2 V1)
        have "card (set (hm_keys nodes) - V1) \<le> card (set (hm_keys nodes) - V)"
          using 2(3) by (intro card_mono) auto
        then have "search_result nodes V1 S (?F rest) (scan_dependants f node nodes rest (V1, S))"
          by (intro "4.hyps"(2) [OF edge _ 2(1)]) (use v 2 "4.prems" mem in auto)
        from search_result_more [OF this 2(3), of other_id] show ?thesis
          unfolding F using edge v 2(1,4) by simp
      qed
    qed
  qed
qed


lemma search_starts_correct:
  "dag_wf nodes \<Longrightarrow> search_inv nodes V {} \<Longrightarrow> set starts \<subseteq> set (hm_keys nodes) \<Longrightarrow>
     search_result nodes V {} (set starts) (search_starts (length nodes) nodes starts (V, {}))"
proof (induction starts arbitrary: V)
  case Nil
  then show ?case by (auto simp: search_result_def)
next
  case (Cons s starts)
  show ?case
  proof (cases "s \<in> V")
    case True
    have "search_result nodes V {} (set starts) (search_starts (length nodes) nodes starts (V, {}))"
      by (rule Cons.IH) (use Cons.prems in auto)
    then show ?thesis by (cases rule: search_result_cases) (use True in \<open>auto simp: search_result_def\<close>)
  next
    case False
    have "card (set (hm_keys nodes) - V) \<le> card (set (hm_keys nodes))" by (intro card_mono) auto
    also have "\<dots> = length nodes" using Cons.prems(1) by (simp add: dag_wf_def hm_wf_length)
    finally have c: "card (set (hm_keys nodes) - V) \<le> length nodes" .
    have "search_result nodes V {} {s} (dfs_has_cycle (length nodes) s nodes (V, {}))"
      by (rule search_correct(1)) (use Cons.prems False c in auto)
    then show ?thesis
    proof (cases rule: search_result_cases)
      case (1 V' S')
      then show ?thesis using False by (auto simp: search_result_def)
    next
      case (2 V1)
      have "search_result nodes V1 {} (set starts) (search_starts (length nodes) nodes starts (V1, {}))"
        by (rule Cons.IH) (use 2 Cons.prems in auto)
      then show ?thesis by (cases rule: search_result_cases) (use False 2 in \<open>auto simp: search_result_def\<close>)
    qed
  qed
qed

lemma trancl_in_keys: "dag_wf nodes \<Longrightarrow> (x, y) \<in> (edges nodes)\<^sup>+ \<Longrightarrow> x \<in> set (hm_keys nodes)"
  using trancl_subset_Sigma [OF edges_sub] by blast

lemma has_cycle_iff: "dag_wf nodes \<Longrightarrow> has_cycle nodes \<longleftrightarrow> \<not> acyclic (edges nodes)"
proof -
  assume wf: "dag_wf nodes"
  have "search_result nodes {} {} (set (hm_keys nodes)) (search_starts (length nodes) nodes (hm_keys nodes) ({}, {}))"
    by (rule search_starts_correct) (simp_all add: wf search_inv_def)
  then show ?thesis
  proof (cases rule: search_result_cases)
    case (1 V' S')
    then show ?thesis by (auto simp: has_cycle_def acyclic_def)
  next
    case (2 V')
    then have "acyclic (edges nodes)" using trancl_in_keys [OF wf] by (fastforce simp: acyclic_def search_inv_def)
    then show ?thesis using 2 by (simp add: has_cycle_def)
  qed
qed

section \<open>Building a graph keeps it acyclic\<close>

datatype dag_op = AddNode Job | AddEdge NodeId NodeId

fun dag_step :: "dag_op \<Rightarrow> JobDag \<Rightarrow> JobDag" where
  "dag_step (AddNode job) d = snd (add_node job d)"
| "dag_step (AddEdge src tgt) d = snd (add_edge src tgt d)"

definition dag_inv :: "JobDag \<Rightarrow> bool" where
  "dag_inv d \<longleftrightarrow> dag_wf (dag_nodes d) \<and> acyclic (edges (dag_nodes d)) \<and> (\<forall>n \<in> set (hm_keys (dag_nodes d)). n < next_id d)"

lemma set_hm_insert: "hm_wf m \<Longrightarrow> set (hm_insert k v m) = insert (k, v) {(k', v') \<in> set m. k' \<noteq> k}"
proof -
  assume wf: "hm_wf m"
  have "(a, b) \<in> set (hm_insert k v m) \<longleftrightarrow> (a, b) \<in> insert (k, v) {(k', v') \<in> set m. k' \<noteq> k}" for a b
    using hm_get_eq_Some_iff [OF hm_wf_insert [OF wf], of k v a b] hm_get_eq_Some_iff [OF wf, of a b]
    by (auto simp: hm_get_insert split: if_splits)
  then show ?thesis by auto
qed

lemma edges_insert:
  "hm_wf nodes \<Longrightarrow> edges (hm_insert k node nodes) =
     {(p, n) \<in> edges nodes. n \<noteq> k} \<union> set (depends_on node) \<times> {k}"
  by (auto simp: edges_def set_hm_insert)

lemma dag_wf_insert:
  "dag_wf nodes \<Longrightarrow> set (depends_on node) \<subseteq> insert k (set (hm_keys nodes)) \<Longrightarrow> dag_wf (hm_insert k node nodes)"
  by (force simp: dag_wf_def list_all_iff set_hm_insert hm_keys_insert)

lemma edges_into:
  "hm_wf nodes \<Longrightarrow> hm_get nodes k = Some node \<Longrightarrow>
     {(p, n) \<in> edges nodes. n = k} = set (depends_on node) \<times> {k}"
  by (auto simp: edges_def hm_get_eq_Some_iff [symmetric])

lemma edges_push:
  assumes "hm_wf nodes" and "hm_get nodes tgt = Some node"
  shows "edges (push_dependency src tgt node nodes) = insert (src, tgt) (edges nodes)"
  using edges_into [OF assms] by (auto simp: push_dependency_def edges_insert [OF assms(1)])

lemma hm_insert_same: "hm_wf m \<Longrightarrow> hm_get m k = Some v \<Longrightarrow> hm_insert k v m = m"
  unfolding hm_insert_def hm_get_def hm_wf_def
  by (induction m) (auto split: if_splits)

lemma hm_insert_twice: "hm_insert k v (hm_insert k w m) = hm_insert k v m"
  unfolding hm_insert_def by (induction m) auto

text \<open>Rolling back restores the graph: an edge already present would not have closed a cycle.\<close>

lemma roll_back_restores:
  assumes "dag_wf nodes" and "acyclic (edges nodes)" and "hm_get nodes tgt = Some node"
    and "has_cycle (push_dependency src tgt node nodes)" and "src \<in> set (hm_keys nodes)"
  shows "roll_back src tgt node (push_dependency src tgt node nodes) = nodes"
proof -
  have wf: "hm_wf nodes" using assms(1) by (simp add: dag_wf_def)
  have sub: "set (depends_on node) \<subseteq> set (hm_keys nodes)"
    using assms(1,3) hm_get_in_set [OF assms(3)] by (auto simp: dag_wf_def list_all_iff)
  then have "dag_wf (push_dependency src tgt node nodes)"
    unfolding push_dependency_def by (intro dag_wf_insert assms(1)) (use assms(5) in auto)
  then have "\<not> acyclic (insert (src, tgt) (edges nodes))"
    using assms(4) has_cycle_iff edges_push [OF wf assms(3)] by simp
  then have "(src, tgt) \<notin> edges nodes" using assms(2) by (metis insert_absorb)
  then have "src \<notin> set (depends_on node)"
    using assms(3) wf by (auto simp: edges_def hm_get_eq_Some_iff)
  then have "filter (\<lambda>x. x \<noteq> src) (depends_on node @ [src]) = depends_on node"
    by (auto simp: filter_id_conv)
  then have "node\<lparr>depends_on := filter (\<lambda>x. x \<noteq> src) (depends_on node @ [src])\<rparr> = node" by simp
  then show ?thesis
    by (simp add: roll_back_def push_dependency_def hm_insert_twice hm_insert_same [OF wf assms(3)])
qed

lemma add_edge_cases:
  assumes "dag_inv d"
  shows "add_edge src tgt d =
    (if src \<notin> set (hm_keys (dag_nodes d)) then (Inl (UnknownNode src), d)
     else if tgt \<notin> set (hm_keys (dag_nodes d)) then (Inl (UnknownNode tgt), d)
     else if (tgt, src) \<in> (edges (dag_nodes d))\<^sup>* then (Inl (CycleDetected src tgt), d)
     else (Inr (), d\<lparr>dag_nodes := push_dependency src tgt (the (hm_get (dag_nodes d) tgt)) (dag_nodes d)\<rparr>))"
proof (cases "src \<in> set (hm_keys (dag_nodes d)) \<and> tgt \<in> set (hm_keys (dag_nodes d))")
  case False
  then show ?thesis
    by (auto simp: add_edge_def hm_contains_def hm_get_None_iff dest: hm_get_SomeD split: option.splits)
next
  case True
  then obtain node where n: "hm_get (dag_nodes d) tgt = Some node" using hm_get_None_iff by fastforce
  have wf: "dag_wf (dag_nodes d)" "hm_wf (dag_nodes d)" "acyclic (edges (dag_nodes d))"
    using assms by (simp_all add: dag_inv_def dag_wf_def)
  have "set (depends_on node) \<subseteq> set (hm_keys (dag_nodes d))"
    using wf(1) hm_get_in_set [OF n] by (auto simp: dag_wf_def list_all_iff)
  then have "dag_wf (push_dependency src tgt node (dag_nodes d))"
    unfolding push_dependency_def by (intro dag_wf_insert wf(1)) (use True in auto)
  then have c: "has_cycle (push_dependency src tgt node (dag_nodes d)) \<longleftrightarrow> (tgt, src) \<in> (edges (dag_nodes d))\<^sup>*"
    using has_cycle_iff edges_push [OF wf(2) n] wf(3) by (simp add: acyclic_insert)
  show ?thesis
    using True n c roll_back_restores [OF wf(1,3) n]
    by (auto simp: add_edge_def hm_contains_def hm_get_None_iff Let_def)
qed

lemma dag_inv_add_edge: "dag_inv d \<Longrightarrow> dag_inv (snd (add_edge src tgt d))"
proof -
  assume inv: "dag_inv d"
  show ?thesis
  proof (cases "src \<in> set (hm_keys (dag_nodes d)) \<and> tgt \<in> set (hm_keys (dag_nodes d))
      \<and> (tgt, src) \<notin> (edges (dag_nodes d))\<^sup>*")
    case False
    then show ?thesis using inv by (auto simp: add_edge_cases [OF inv])
  next
    case True
    then obtain node where n: "hm_get (dag_nodes d) tgt = Some node" using hm_get_None_iff by fastforce
    have wf: "dag_wf (dag_nodes d)" "hm_wf (dag_nodes d)" "acyclic (edges (dag_nodes d))"
      using inv by (simp_all add: dag_inv_def dag_wf_def)
    have "set (depends_on node) \<subseteq> set (hm_keys (dag_nodes d))"
      using wf(1) hm_get_in_set [OF n] by (auto simp: dag_wf_def list_all_iff)
    then have "dag_wf (push_dependency src tgt node (dag_nodes d))"
      unfolding push_dependency_def by (intro dag_wf_insert wf(1)) (use True in auto)
    moreover have "acyclic (edges (push_dependency src tgt node (dag_nodes d)))"
      using True wf by (simp add: edges_push [OF wf(2) n] acyclic_insert)
    ultimately show ?thesis using True inv n
      by (auto simp: add_edge_cases [OF inv] dag_inv_def push_dependency_def hm_keys_insert)
  qed
qed

lemma dag_inv_add_node: "dag_inv d \<Longrightarrow> dag_inv (snd (add_node job d))"
proof -
  assume inv: "dag_inv d"
  then have wf: "hm_wf (dag_nodes d)" and fresh: "next_id d \<notin> set (hm_keys (dag_nodes d))"
    by (auto simp: dag_inv_def dag_wf_def)
  have "{(p, n) \<in> edges (dag_nodes d). n \<noteq> next_id d} = edges (dag_nodes d)"
    using edges_keys inv fresh by (fastforce simp: dag_inv_def)
  then show ?thesis using inv wf
    by (auto simp: dag_inv_def add_node_def edges_insert hm_keys_insert less_SucI intro!: dag_wf_insert)
qed

interpretation dag: stateful dag_step dag_inv
proof
  fix d x assume "dag_inv d"
  then show "dag_inv (dag_step x d)"
    by (cases x) (simp_all add: dag_inv_add_edge dag_inv_add_node)
qed

lemma dag_inv_new: "dag_inv dag_new"
  by (simp add: dag_inv_def dag_new_def dag_wf_def edges_def hm_keys_def acyclic_def)


section \<open>Kahn's order\<close>

text \<open>Every node comes after all it depends on.\<close>

definition topo_sorted :: "(NodeId, DagNode) hashmap \<Rightarrow> NodeId list \<Rightarrow> bool" where
  "topo_sorted nodes order \<longleftrightarrow> (\<forall>i < length order. \<forall>p. (p, order ! i) \<in> edges nodes \<longrightarrow> p \<in> set (take i order))"

lemma topo_sorted_snoc:
  "topo_sorted nodes (xs @ [x]) \<longleftrightarrow> topo_sorted nodes xs \<and> (\<forall>p. (p, x) \<in> edges nodes \<longrightarrow> p \<in> set xs)"
  by (auto simp: topo_sorted_def less_Suc_eq nth_append)

lemma edge_in_hm:
  "hm_wf nodes \<Longrightarrow> (n, node) \<in> set nodes \<Longrightarrow> (p, n) \<in> edges nodes \<longleftrightarrow> p \<in> set (depends_on node)"
  by (auto simp: edges_def hm_get_eq_Some_iff [symmetric])

lemma fold_relax:
  "hm_wf nodes \<Longrightarrow> fold (relax x) nodes (deg, q) =
    ((\<lambda>n. if (x, n) \<in> edges nodes then deg n - 1 else deg n),
     q @ map fst (filter (\<lambda>(n, node). x \<in> set (depends_on node) \<and> deg n - 1 = 0) nodes))"
proof (induction nodes arbitrary: deg q)
  case Nil
  then show ?case by (simp add: edges_def)
next
  case (Cons a nodes)
  obtain k node where a: "a = (k, node)" by (cases a)
  have wf: "hm_wf nodes" and fresh: "k \<notin> fst ` set nodes" using Cons.prems by (auto simp: hm_wf_def a)
  have e: "(x, n) \<in> edges (a # nodes) \<longleftrightarrow> (n = k \<and> x \<in> set (depends_on node)) \<or> (x, n) \<in> edges nodes" for n
    by (auto simp: edges_def a)
  have k: "(x, k) \<notin> edges nodes" using fresh by (force simp: edges_def)
  have same: "filter (\<lambda>(n, nd). x \<in> set (depends_on nd) \<and> (deg(k := v)) n - 1 = 0) nodes =
      filter (\<lambda>(n, nd). x \<in> set (depends_on nd) \<and> deg n - 1 = 0) nodes" for v
    using fresh by (intro filter_cong) force+
  show ?case
    using Cons.IH [OF wf] k same by (auto simp: a relax_def e [unfolded a] Let_def fun_eq_iff)
qed

definition kahn_inv :: "(NodeId, DagNode) hashmap \<Rightarrow> (NodeId \<Rightarrow> nat) \<Rightarrow> NodeId list \<Rightarrow> NodeId list \<Rightarrow> bool" where
  "kahn_inv nodes deg queue order \<longleftrightarrow> distinct (order @ queue) \<and> set (order @ queue) \<subseteq> set (hm_keys nodes)
     \<and> (\<forall>(n, node) \<in> set nodes. deg n = length (depends_on node) - card (set order \<inter> set (depends_on node)))
     \<and> (\<forall>n \<in> set (hm_keys nodes). n \<in> set (order @ queue) \<longleftrightarrow> deg n = 0)
     \<and> topo_sorted nodes order"

lemma zero_degree:
  assumes "length xs - card (A \<inter> set xs) = 0"
  shows "distinct xs \<and> set xs \<subseteq> A"
proof -
  have "card (A \<inter> set xs) \<le> card (set xs)" "card (set xs) \<le> length xs"
    by (simp_all add: card_mono card_length)
  with assms have "card (A \<inter> set xs) = card (set xs)" "card (set xs) = length xs" by simp_all
  then show ?thesis using card_subset_eq [of "set xs" "A \<inter> set xs"] by (auto simp: card_distinct)
qed

lemma kahn_inv_step:
  assumes wf: "dag_wf nodes" and inv: "kahn_inv nodes deg (x # queue) order"
    and r: "fold (relax x) nodes (deg, queue) = (deg', queue')"
  shows "kahn_inv nodes deg' queue' (order @ [x])"
proof -
  have hm: "hm_wf nodes" using wf by (simp add: dag_wf_def)
  have deg: "deg n = length (depends_on node) - card (set order \<inter> set (depends_on node))" if "(n, node) \<in> set nodes" for n node
    using inv that by (auto simp: kahn_inv_def)
  have zero: "n \<in> set (order @ x # queue) \<longleftrightarrow> deg n = 0" if "n \<in> set (hm_keys nodes)" for n
    using inv that by (simp add: kahn_inv_def)
  have dist: "distinct (order @ x # queue)" and sub: "set (order @ x # queue) \<subseteq> set (hm_keys nodes)"
    and topo: "topo_sorted nodes order" using inv by (simp_all add: kahn_inv_def)
  have key: "n \<in> set (hm_keys nodes)" if "(n, node) \<in> set nodes" for n node
    using that by (force simp: hm_keys_def)
  have ready: "set (depends_on node) \<subseteq> set order" if "(n, node) \<in> set nodes" "n \<in> set (order @ x # queue)" for n node
    using zero_degree [of "depends_on node" "set order"] zero [OF key [OF that(1)]] that deg [OF that(1)] by simp
  have pos: "n \<notin> set (order @ x # queue) \<and> 0 < deg n" if e: "(x, n) \<in> edges nodes" for n
  proof -
    obtain node where n: "(n, node) \<in> set nodes" "x \<in> set (depends_on node)" using e unfolding edges_def by blast
    have "n \<notin> set (order @ x # queue)" using ready [OF n(1)] n(2) dist by auto
    then show ?thesis using zero [OF key [OF n(1)]] by auto
  qed
  have d': "deg' n = (if (x, n) \<in> edges nodes then deg n - 1 else deg n)" for n
    using r unfolding fold_relax [OF hm] by (simp add: fun_eq_iff)
  have q': "queue' = queue @ map fst (filter (\<lambda>(n, node). x \<in> set (depends_on node) \<and> deg n - 1 = 0) nodes)"
    using r unfolding fold_relax [OF hm] by simp
  have new: "set (map fst (filter (\<lambda>(n, node). x \<in> set (depends_on node) \<and> deg n - 1 = 0) nodes))
      = {n. (x, n) \<in> edges nodes \<and> deg n - 1 = 0}" by (force simp: edges_def)
  have "distinct (map fst (filter (\<lambda>(n, node). x \<in> set (depends_on node) \<and> deg n - 1 = 0) nodes))"
    using hm by (simp add: hm_wf_def distinct_map_filter)
  then have "distinct ((order @ [x]) @ queue')"
    using dist pos new unfolding q' by auto
  moreover have "set ((order @ [x]) @ queue') \<subseteq> set (hm_keys nodes)"
    using sub new edges_keys [OF wf] unfolding q' by auto
  moreover have "deg' n = length (depends_on node) - card (set (order @ [x]) \<inter> set (depends_on node))"
    if n: "(n, node) \<in> set nodes" for n node
  proof -
    have "x \<notin> set order" using dist by simp
    then have "card (set (order @ [x]) \<inter> set (depends_on node)) =
        (if x \<in> set (depends_on node) then Suc (card (set order \<inter> set (depends_on node))) else card (set order \<inter> set (depends_on node)))"
      by simp
    then show ?thesis using deg [OF n] edge_in_hm [OF hm n] by (simp add: d')
  qed
  moreover have "n \<in> set ((order @ [x]) @ queue') \<longleftrightarrow> deg' n = 0" if "n \<in> set (hm_keys nodes)" for n
    using zero [OF that] new pos [of n] unfolding q' d' by auto
  moreover have "topo_sorted nodes (order @ [x])"
    using topo ready by (auto simp: topo_sorted_snoc edges_def)
  ultimately show ?thesis unfolding kahn_inv_def by auto
qed

lemma kahn_result:
  "dag_wf nodes \<Longrightarrow> kahn_inv nodes deg queue order \<Longrightarrow> length nodes \<le> f + length order \<Longrightarrow>
     \<exists>deg' order'. kahn f nodes deg queue order = Some order' \<and> kahn_inv nodes deg' [] order'"
proof (induction f nodes deg queue order rule: kahn.induct)
  case (2 nodes deg x queue order)
  have "length (order @ x # queue) = card (set (order @ x # queue))"
    using 2 by (metis distinct_card kahn_inv_def)
  also have "\<dots> \<le> card (set (hm_keys nodes))" using 2 by (intro card_mono) (simp_all add: kahn_inv_def)
  also have "\<dots> = length nodes" using 2 by (simp add: dag_wf_def hm_wf_length)
  finally show ?case using 2(3) by simp
next
  case (3 f nodes deg x queue order)
  obtain deg' queue' where r: "fold (relax x) nodes (deg, queue) = (deg', queue')" by fastforce
  show ?case using "3.IH" [OF r [symmetric]] "3.prems" kahn_inv_step [OF "3.prems"(1,2) r] by (simp add: r)
qed auto

definition no_duplicate_edges :: "(NodeId, DagNode) hashmap \<Rightarrow> bool" where
  "no_duplicate_edges nodes = list_all (\<lambda>(_, n). distinct (depends_on n)) nodes"

lemma kahn_start:
  "dag_wf nodes \<Longrightarrow> kahn_inv nodes (in_degrees nodes) (filter (\<lambda>n. in_degrees nodes n = 0) (sort_key rank (hm_keys nodes))) []"
  by (auto simp: kahn_inv_def dag_wf_def hm_wf_def hm_keys_def in_degrees_def topo_sorted_def
      hm_get_eq_Some_iff [unfolded hm_wf_def, symmetric])

lemma topo_sorted_acyclic:
  assumes "topo_sorted nodes order" and "edges nodes \<subseteq> UNIV \<times> set order" and "distinct order"
  shows "acyclic (edges nodes)"
proof (rule wf_acyclic, rule wf_subset [OF wf_measure])
  let ?pos = "\<lambda>n. length (takeWhile (\<lambda>y. y \<noteq> n) order)"
  show "edges nodes \<subseteq> measure ?pos"
  proof clarify
    fix p n assume e: "(p, n) \<in> edges nodes"
    then have "n \<in> set order" using assms(2) by auto
    then obtain i where i: "i < length order" "order ! i = n" by (auto simp: in_set_conv_nth)
    then have "p \<in> set (take i order)" using assms(1) e by (auto simp: topo_sorted_def)
    then obtain j where j: "j < i" "order ! j = p" using i(1) by (auto simp: in_set_conv_nth)
    have "?pos (order ! k) = k" if "k < length order" for k
    proof -
      have "order = take k order @ order ! k # drop (Suc k) order" using that by (rule id_take_nth_drop)
      moreover have "order ! k \<notin> set (take k order)" using that assms(3) by (auto simp: in_set_conv_nth nth_eq_iff_index_eq)
      ultimately have "takeWhile (\<lambda>y. y \<noteq> order ! k) order = take k order"
        using takeWhile_append2 [of "take k order" "\<lambda>y. y \<noteq> order ! k" "order ! k # drop (Suc k) order"] by fastforce
      then show ?thesis using that by simp
    qed
    then show "(p, n) \<in> measure ?pos" using i j by auto
  qed
qed


lemma kahn_complete_cases:
  assumes "dag_wf nodes"
  obtains deg order where "kahn_inv nodes deg [] order"
    "topological_order rank nodes = (if length order = length nodes then Some order else None)"
proof -
  from kahn_result [OF assms kahn_start [OF assms, of rank], of "length nodes"]
  obtain deg order where "kahn_inv nodes deg [] order"
    "kahn (length nodes) nodes (in_degrees nodes) (filter (\<lambda>n. in_degrees nodes n = 0) (sort_key rank (hm_keys nodes))) [] = Some order"
    by auto
  then show ?thesis using that by (simp add: topological_order_def)
qed

lemma topological_order_Some:
  assumes "dag_wf nodes" and "topological_order rank nodes = Some order"
  shows "distinct order" and "set order = set (hm_keys nodes)" and "topo_sorted nodes order"
    and "no_duplicate_edges nodes" and "acyclic (edges nodes)"
proof -
  obtain deg where inv: "kahn_inv nodes deg [] order" and len: "length order = length nodes"
    by (rule kahn_complete_cases [OF assms(1), of rank]) (use assms(2) in \<open>auto split: if_splits\<close>)
  show d: "distinct order" and t: "topo_sorted nodes order" using inv by (simp_all add: kahn_inv_def)
  have "set order \<subseteq> set (hm_keys nodes)" using inv by (simp add: kahn_inv_def)
  moreover have "card (set order) = card (set (hm_keys nodes))"
    using d len assms(1) by (simp add: distinct_card dag_wf_def hm_wf_length)
  ultimately show k: "set order = set (hm_keys nodes)" by (simp add: card_subset_eq)
  have "distinct (depends_on node)" if n: "(n, node) \<in> set nodes" for n node
  proof -
    have "n \<in> set (hm_keys nodes)" using n by (force simp: hm_keys_def)
    then have "deg n = 0" using inv k by (simp add: kahn_inv_def)
    moreover have "deg n = length (depends_on node) - card (set order \<inter> set (depends_on node))"
      using inv n by (auto simp: kahn_inv_def)
    ultimately show ?thesis using zero_degree [of "depends_on node" "set order"] by simp
  qed
  then show "no_duplicate_edges nodes" by (auto simp: no_duplicate_edges_def list_all_iff)
  have "edges nodes \<subseteq> UNIV \<times> set order" using edges_sub [OF assms(1)] k by auto
  then show "acyclic (edges nodes)" using topo_sorted_acyclic [OF t] d by simp
qed

lemma minimal_node:
  assumes "dag_wf nodes" and "acyclic (edges nodes)" and "R \<subseteq> set (hm_keys nodes)" and "R \<noteq> {}"
  obtains n node where "n \<in> R" "hm_get nodes n = Some node" "set (depends_on node) \<subseteq> set (hm_keys nodes) - R"
proof -
  have "finite (edges nodes)" using edges_sub [OF assms(1)] finite_subset by blast
  then have "wf (edges nodes)" using assms(2) by (rule finite_acyclic_wf)
  then obtain n where n: "n \<in> R" "\<And>p. (p, n) \<in> edges nodes \<Longrightarrow> p \<notin> R" using assms(4) wfE_min' by metis
  obtain node where nd: "hm_get nodes n = Some node"
    using n(1) assms(3) hm_get_None_iff by (metis not_None_eq subsetD)
  have "(n, node) \<in> set nodes" by (rule hm_get_in_set [OF nd])
  then have "(p, n) \<in> edges nodes" if "p \<in> set (depends_on node)" for p using that by (auto simp: edges_def)
  then show ?thesis using that [OF n(1) nd] n(2) edges_keys [OF assms(1)] by blast
qed

lemma topological_order_exists:
  assumes "dag_wf nodes" and "acyclic (edges nodes)" and "no_duplicate_edges nodes"
  shows "topological_order rank nodes \<noteq> None"
proof (rule kahn_complete_cases [OF assms(1), of rank])
  fix deg order
  assume inv: "kahn_inv nodes deg [] order"
    and t: "topological_order rank nodes = (if length order = length nodes then Some order else None)"
  have "set (hm_keys nodes) - set order = {}"
  proof (rule ccontr)
    assume "set (hm_keys nodes) - set order \<noteq> {}"
    then obtain n node where n: "n \<in> set (hm_keys nodes) - set order" "hm_get nodes n = Some node"
      "set (depends_on node) \<subseteq> set (hm_keys nodes) - (set (hm_keys nodes) - set order)"
      using minimal_node [OF assms(1,2), of "set (hm_keys nodes) - set order"] by blast
    have mem: "(n, node) \<in> set nodes" by (rule hm_get_in_set [OF n(2)])
    have "set order \<inter> set (depends_on node) = set (depends_on node)" using n(3) by auto
    moreover have "distinct (depends_on node)" using assms(3) mem by (auto simp: no_duplicate_edges_def list_all_iff)
    moreover have "deg n = length (depends_on node) - card (set order \<inter> set (depends_on node))"
      using inv mem by (auto simp: kahn_inv_def)
    ultimately have "deg n = 0" by (simp add: distinct_card)
    then show False using inv n(1) unfolding kahn_inv_def by auto
  qed
  then have "set order = set (hm_keys nodes)" using inv by (auto simp: kahn_inv_def)
  then have "length order = length nodes"
    using inv assms(1) by (metis append_Nil2 dag_wf_def distinct_card hm_wf_length kahn_inv_def)
  then show "topological_order rank nodes \<noteq> None" using t by simp
qed

section \<open>Waves\<close>

text \<open>Every wave runs new nodes, each once, whose dependencies ran in earlier waves.\<close>

fun waves_ok :: "(NodeId, DagNode) hashmap \<Rightarrow> NodeId set \<Rightarrow> NodeId list list \<Rightarrow> bool" where
  "waves_ok nodes finished [] = True"
| "waves_ok nodes finished (wave # waves) =
    (distinct wave \<and> set wave \<inter> finished = {} \<and> (\<forall>n \<in> set wave. \<forall>p. (p, n) \<in> edges nodes \<longrightarrow> p \<in> finished)
     \<and> waves_ok nodes (finished \<union> set wave) waves)"

definition output_of :: "(NodeId \<Rightarrow> task_outcome) \<Rightarrow> NodeId \<Rightarrow> Output list" where
  "output_of outcome n = (case outcome n of Answered (Some outs) \<Rightarrow> outs | _ \<Rightarrow> [])"

lemma join_wave_ok:
  "TaskPanicked \<notin> outcome ` set wave \<Longrightarrow> join_wave outcome wave completed dropped =
    Some (fold (\<lambda>n. hm_insert n (output_of outcome n)) wave completed,
          dropped + length (filter (\<lambda>n. outcome n = Answered None) wave))"
  by (induction wave arbitrary: completed dropped)
    (auto simp: output_of_def split: task_outcome.split option.split)

lemma join_wave_panic: "TaskPanicked \<in> outcome ` set wave \<Longrightarrow> join_wave outcome wave completed dropped = None"
  by (induction wave arbitrary: completed dropped) (auto split: task_outcome.split option.split)

lemma hm_get_fold_insert:
  "hm_get (fold (\<lambda>n. hm_insert n (f n)) ns m) k = (if k \<in> set ns then Some (f k) else hm_get m k)"
  by (induction ns arbitrary: m) (auto simp: hm_get_insert)

lemma hm_wf_fold_insert: "hm_wf m \<Longrightarrow> hm_wf (fold (\<lambda>n. hm_insert n (f n)) ns m)"
  by (induction ns arbitrary: m) auto

lemma hm_get_fold_remove: "hm_get (fold hm_remove ns m) k = (if k \<in> set ns then None else hm_get m k)"
  by (induction ns arbitrary: m) (auto simp: hm_get_remove)

text \<open>The state of the loop, seen from the whole graph.\<close>

definition wave_inv :: "(NodeId, DagNode) hashmap \<Rightarrow> (NodeId \<Rightarrow> task_outcome) \<Rightarrow> NodeId list \<Rightarrow>
    (NodeId, DagNode) hashmap \<Rightarrow> (NodeId, Output list) hashmap \<Rightarrow> nat \<Rightarrow> bool" where
  "wave_inv nodes outcome remaining nodes_map completed dropped \<longleftrightarrow>
     distinct remaining \<and> set remaining \<subseteq> set (hm_keys nodes) \<and> hm_wf completed
     \<and> (\<forall>n. hm_get nodes_map n = (if n \<in> set remaining then hm_get nodes n else None))
     \<and> (\<forall>n. hm_get completed n =
          (if n \<in> set (hm_keys nodes) - set remaining then Some (output_of outcome n) else None))
     \<and> dropped = card {n \<in> set (hm_keys nodes) - set remaining. outcome n = Answered None}"

definition execution_ok :: "(NodeId, DagNode) hashmap \<Rightarrow> (NodeId \<Rightarrow> task_outcome) \<Rightarrow> NodeId set \<Rightarrow>
    NodeId list list \<times> (DagError + (NodeId, Output list) hashmap \<times> nat) \<Rightarrow> bool" where
  "execution_ok nodes outcome rest r \<longleftrightarrow>
    (case r of (waves, res) \<Rightarrow>
       waves_ok nodes (set (hm_keys nodes) - rest) waves \<and> set (concat waves) \<subseteq> rest \<and>
       (case res of
          Inl e \<Rightarrow> e = TaskFailed (2 ^ 64 - 1) \<and> TaskPanicked \<in> outcome ` set (concat waves)
        | Inr (completed, dropped) \<Rightarrow> set (concat waves) = rest \<and> hm_wf completed
            \<and> (\<forall>n. hm_get completed n = (if n \<in> set (hm_keys nodes) then Some (output_of outcome n) else None))
            \<and> dropped = card {n \<in> set (hm_keys nodes). outcome n = Answered None}))"


lemma ready_iff:
  assumes "wave_inv nodes outcome remaining nodes_map completed dropped" and "dag_wf nodes" and "n \<in> set remaining"
  shows "ready nodes_map completed n \<longleftrightarrow> (\<forall>p. (p, n) \<in> edges nodes \<longrightarrow> p \<in> set (hm_keys nodes) - set remaining)"
proof -
  have "n \<in> set (hm_keys nodes)" using assms(1,3) by (auto simp: wave_inv_def)
  then obtain node where n: "hm_get nodes n = Some node" using hm_get_None_iff by fastforce
  have hm: "hm_wf nodes" using assms(2) by (simp add: dag_wf_def)
  have "hm_get nodes_map n = Some node" using assms(1,3) n by (simp add: wave_inv_def)
  moreover have "hm_contains completed p \<longleftrightarrow> p \<in> set (hm_keys nodes) - set remaining" for p
    using assms(1) by (simp add: wave_inv_def hm_contains_def)
  ultimately show ?thesis
    using edge_in_hm [OF hm hm_get_in_set [OF n]] by (auto simp: ready_def list_all_iff)
qed

lemma wave_inv_step:
  assumes inv: "wave_inv nodes outcome remaining nodes_map completed dropped" and wf: "dag_wf nodes"
    and ok: "TaskPanicked \<notin> outcome ` set wave"
    and wave: "wave = filter (ready nodes_map completed) remaining"
  shows "wave_inv nodes outcome (filter (\<lambda>n. \<not> ready nodes_map completed n) remaining)
    (fold hm_remove wave nodes_map) (fold (\<lambda>n. hm_insert n (output_of outcome n)) wave completed)
    (dropped + length (filter (\<lambda>n. outcome n = Answered None) wave))"
proof -
  let ?rest = "filter (\<lambda>n. \<not> ready nodes_map completed n) remaining"
  let ?K = "set (hm_keys nodes)"
  have dist: "distinct remaining" "set remaining \<subseteq> ?K" using inv by (simp_all add: wave_inv_def)
  have split: "?K - set ?rest = (?K - set remaining) \<union> set wave" using dist(2) by (auto simp: wave)
  let ?D = "\<lambda>A. {n \<in> A. outcome n = Answered None}"
  have "?D (?K - set ?rest) = ?D (?K - set remaining) \<union> ?D (set wave)" unfolding split by auto
  moreover have "?D (?K - set remaining) \<inter> ?D (set wave) = {}" by (auto simp: wave)
  ultimately have "card (?D (?K - set ?rest)) = card (?D (?K - set remaining)) + card (?D (set wave))"
    by (simp add: card_Un_disjoint)
  moreover have "card (?D (set wave)) = length (filter (\<lambda>n. outcome n = Answered None) wave)"
  proof -
    have "distinct (filter (\<lambda>n. outcome n = Answered None) wave)" using dist(1) by (simp add: wave)
    from distinct_card [OF this] show ?thesis by (simp only: set_filter)
  qed
  ultimately have card: "dropped + length (filter (\<lambda>n. outcome n = Answered None) wave) = card (?D (?K - set ?rest))"
    using inv by (simp add: wave_inv_def)
  have mem: "n \<in> set wave \<longleftrightarrow> n \<in> set remaining \<and> n \<notin> set ?rest" for n by (auto simp: wave)
  show ?thesis unfolding wave_inv_def
  proof (intro conjI allI)
    show "distinct ?rest" "set ?rest \<subseteq> ?K" using dist by auto
    show "hm_wf (fold (\<lambda>n. hm_insert n (output_of outcome n)) wave completed)"
      using inv by (simp add: wave_inv_def hm_wf_fold_insert)
  next
    fix n
    show "hm_get (fold hm_remove wave nodes_map) n = (if n \<in> set ?rest then hm_get nodes n else None)"
      using inv mem [of n] by (simp add: wave_inv_def hm_get_fold_remove)
    show "hm_get (fold (\<lambda>n. hm_insert n (output_of outcome n)) wave completed) n =
        (if n \<in> ?K - set ?rest then Some (output_of outcome n) else None)"
      using inv unfolding hm_get_fold_insert split by (simp add: wave_inv_def)
  qed (rule card)
qed

lemma execute_waves_ok:
  "dag_wf nodes \<Longrightarrow> acyclic (edges nodes) \<Longrightarrow> wave_inv nodes outcome remaining nodes_map completed dropped \<Longrightarrow>
     execution_ok nodes outcome (set remaining) (execute_waves outcome remaining nodes_map completed dropped)"
proof (induction outcome remaining nodes_map completed dropped rule: execute_waves.induct)
  case (1 outcome remaining nodes_map completed dropped)
  let ?K = "set (hm_keys nodes)"
  note inv = "1.prems"(3)
  have keys: "set remaining \<subseteq> ?K" using inv by (simp add: wave_inv_def)
  show ?case
  proof (cases "remaining = []")
    case True
    then have "execute_waves outcome remaining nodes_map completed dropped = ([], Inr (completed, dropped))"
      by (subst execute_waves.simps) (simp add: True)
    then show ?thesis using inv True by (auto simp: execution_ok_def wave_inv_def)
  next
    case False
    define wave where "wave = filter (ready nodes_map completed) remaining"
    define rest where "rest = filter (\<lambda>n. \<not> ready nodes_map completed n) remaining"
    have find: "List.find (\<lambda>n. \<not> hm_contains nodes_map n) remaining = None"
      using inv keys hm_get_None_iff [of nodes] by (auto simp: find_None_iff wave_inv_def hm_contains_def)
    obtain n node where n: "n \<in> set remaining" "hm_get nodes n = Some node" "set (depends_on node) \<subseteq> ?K - set remaining"
      using minimal_node [OF "1.prems"(1,2) keys] False by auto
    have hm: "hm_wf nodes" using "1.prems"(1) by (simp add: dag_wf_def)
    have "n \<in> set wave"
      using n ready_iff [OF inv "1.prems"(1) n(1)] edge_in_hm [OF hm hm_get_in_set [OF n(2)]] by (auto simp: wave_def)
    then have ne: "wave \<noteq> []" by auto
    have ok: "distinct wave" "set wave \<inter> (?K - set remaining) = {}"
      "\<forall>n \<in> set wave. \<forall>p. (p, n) \<in> edges nodes \<longrightarrow> p \<in> ?K - set remaining"
      using inv ready_iff [OF inv "1.prems"(1)] by (auto simp: wave_def wave_inv_def)
    have sub: "set wave \<subseteq> set remaining" by (auto simp: wave_def)
    show ?thesis
    proof (cases "TaskPanicked \<in> outcome ` set wave")
      case True
      then show ?thesis using False find ne ok sub
        by (simp add: execute_waves.simps [of outcome remaining] wave_def [symmetric] Let_def join_wave_panic
            execution_ok_def)
    next
      case no_panic: False
      let ?c = "fold (\<lambda>n. hm_insert n (output_of outcome n)) wave completed"
      let ?d = "dropped + length (filter (\<lambda>n. outcome n = Answered None) wave)"
      have inv': "wave_inv nodes outcome rest (fold hm_remove wave nodes_map) ?c ?d"
        unfolding rest_def using inv "1.prems"(1) no_panic wave_def by (rule wave_inv_step)
      have IH: "execution_ok nodes outcome (set rest) (execute_waves outcome rest (fold hm_remove wave nodes_map) ?c ?d)"
        using "1.IH" [OF False find, of wave rest] no_panic inv' "1.prems"(1,2) ne
        by (simp add: wave_def [symmetric] rest_def [symmetric] join_wave_ok)
      have r: "execute_waves outcome remaining nodes_map completed dropped =
          (case execute_waves outcome rest (fold hm_remove wave nodes_map) ?c ?d of (waves, r) \<Rightarrow> (wave # waves, r))"
        using False find ne no_panic
        by (simp add: execute_waves.simps [of outcome remaining] wave_def [symmetric] rest_def [symmetric] Let_def
            join_wave_ok)
      have K: "?K - set rest = (?K - set remaining) \<union> set wave" "set remaining = set wave \<union> set rest"
        using keys by (auto simp: wave_def rest_def)
      show ?thesis using IH ok unfolding r execution_ok_def K by (auto split: prod.splits sum.splits)
    qed
  qed
qed


section \<open>Properties\<close>

lemma reachable_dag_inv: "dag_inv (fold dag_step ops dag_new)"
  by (rule dag.run_inv [OF dag_inv_new])

text \<open>
  C14. However a graph was built, it is acyclic, and adding an edge answers exactly: an unknown
  end is reported, the source first; an edge whose target already leads to its source is
  rejected and the graph is left as it was; any other edge is added, and nothing else changes.
\<close>

theorem add_edge_rejects_exactly_cycles:
  "let d = fold dag_step ops dag_new; nodes = dag_nodes d in
     acyclic (edges nodes)
     \<and> add_edge src tgt d =
        (if src \<notin> set (hm_keys nodes) then (Inl (UnknownNode src), d)
         else if tgt \<notin> set (hm_keys nodes) then (Inl (UnknownNode tgt), d)
         else if (tgt, src) \<in> (edges nodes)\<^sup>* then (Inl (CycleDetected src tgt), d)
         else (Inr (), d\<lparr>dag_nodes := push_dependency src tgt (the (hm_get nodes tgt)) nodes\<rparr>))"
  using reachable_dag_inv [of ops] add_edge_cases [OF reachable_dag_inv, of src tgt ops]
  by (simp add: Let_def dag_inv_def)

text \<open>
  C23. Kahn's algorithm returns an order of all nodes, each after everything it depends on,
  unless an edge was added twice: then it reports a cycle, although there is none.
\<close>

theorem topological_order_exact:
  "let nodes = dag_nodes (fold dag_step ops dag_new) in
     (case topological_order rank nodes of
        Some order \<Rightarrow> distinct order \<and> set order = set (hm_keys nodes) \<and> topo_sorted nodes order \<and> no_duplicate_edges nodes
      | None \<Rightarrow> no_duplicate_edges nodes = False)"
proof -
  define nodes where "nodes = dag_nodes (fold dag_step ops dag_new)"
  have inv: "dag_wf nodes" "acyclic (edges nodes)"
    using reachable_dag_inv [of ops] by (simp_all add: nodes_def dag_inv_def)
  show ?thesis unfolding Let_def nodes_def [symmetric]
    using topological_order_Some [OF inv(1), of rank] topological_order_exists [OF inv, of rank]
    by (auto split: option.split)
qed

lemma hm_get_filter: "hm_get (filter (\<lambda>(n, _). P n) m) k = (if P k then hm_get m k else None)"
  by (induction m) (auto simp: hm_get_def)

lemma wave_inv_start:
  assumes "topological_order rank nodes = Some order" and "dag_wf nodes"
  shows "wave_inv nodes outcome order nodes [] 0"
  using topological_order_Some [OF assms(2,1)] hm_get_None_iff [of nodes] by (auto simp: wave_inv_def)

lemma waves_ok_distinct: "waves_ok nodes finished waves \<Longrightarrow> distinct (concat waves) \<and> set (concat waves) \<inter> finished = {}"
  by (induction waves arbitrary: finished) auto

text \<open>
  C7. An execution submits no node twice and each one in a wave after the waves of all it
  depends on. It fails only for an empty graph, for an edge added twice (then before any
  submission), or when the task of a submitted node panicked (then without the later waves);
  otherwise it submits every node and returns every node's outputs. A node whose job was dropped
  counts as done, with empty outputs: its dependants run all the same and the execution never
  fails with \<open>JobDropped\<close>, against the module's documentation, which promises that a node runs only
  after its dependencies succeeded and that a dropped job fails the execution. The documented
  order holds for the executions in which no job is dropped.
\<close>

theorem execution_respects_dependencies:
  "let d = fold dag_step ops dag_new; nodes = dag_nodes d; (waves, r) = execute rank outcome d in
     waves_ok nodes {} waves \<and> distinct (concat waves)
     \<and> (\<forall>n. r \<noteq> Inl (JobDropped n))
     \<and> (case r of
          Inr res \<Rightarrow> set (concat waves) = set (hm_keys nodes) \<and> nodes_executed res = length nodes
            \<and> nodes_dropped res = card {n \<in> set (hm_keys nodes). outcome n = Answered None}
            \<and> (\<forall>n. hm_get (all_outputs res) n = (if n \<in> set (hm_keys nodes) then Some (output_of outcome n) else None))
            \<and> (\<forall>n. hm_get (leaf_outputs res) n = (if n \<in> leaf_nodes nodes then hm_get (all_outputs res) n else None))
        | Inl e \<Rightarrow> e = EmptyDag \<and> nodes = [] \<and> waves = []
            \<or> e = CycleDetected 0 0 \<and> no_duplicate_edges nodes = False \<and> waves = []
            \<or> e = TaskFailed (2 ^ 64 - 1) \<and> TaskPanicked \<in> outcome ` set (concat waves))"
proof -
  define d where "d = fold dag_step ops dag_new"
  have inv: "dag_wf (dag_nodes d)" "acyclic (edges (dag_nodes d))"
    using reachable_dag_inv [of ops] by (simp_all add: d_def dag_inv_def)
  show ?thesis
  proof (cases "topological_order rank (dag_nodes d)")
    case None
    then show ?thesis using topological_order_exists [OF inv, of rank]
      by (auto simp: Let_def d_def [symmetric] execute_def)
  next
    case (Some order)
    have keys: "set order = set (hm_keys (dag_nodes d))" by (rule topological_order_Some(2) [OF inv(1) Some])
    obtain waves res where r: "execute_waves outcome order (dag_nodes d) [] 0 = (waves, res)" by fastforce
    have ok: "execution_ok (dag_nodes d) outcome (set order) (waves, res)"
      using execute_waves_ok [OF inv wave_inv_start [OF Some inv(1)], of outcome] unfolding r .
    then have "waves_ok (dag_nodes d) (set (hm_keys (dag_nodes d)) - set order) waves" by (simp add: execution_ok_def)
    from waves_ok_distinct [OF this] have dist: "distinct (concat waves)" by blast
    show ?thesis
    proof (cases res)
      case (Inl e)
      then show ?thesis using ok keys dist by (auto simp: Let_def d_def [symmetric] execute_def Some r execution_ok_def)
    next
      case (Inr cd)
      obtain completed dropped where cd: "cd = (completed, dropped)" by (cases cd)
      have wf: "hm_wf completed" and get: "\<And>n. hm_get completed n =
          (if n \<in> set (hm_keys (dag_nodes d)) then Some (output_of outcome n) else None)"
        using ok by (simp_all add: Inr cd execution_ok_def)
      have "set (hm_keys completed) = set (hm_keys (dag_nodes d))"
        using get hm_get_None_iff [of completed] by (auto split: if_splits) (metis option.distinct(1))+
      then have "length completed = length (dag_nodes d)"
        using wf inv(1) by (simp add: hm_wf_length dag_wf_def)
      then show ?thesis using ok keys dist unfolding Inr cd
        by (auto simp: Let_def d_def [symmetric] execute_def Some r Inr cd execution_ok_def hm_get_filter)
    qed
  qed
qed

text \<open>Adding an edge a second time is accepted, and makes the graph impossible to execute.\<close>

lemma duplicate_edge_stops_execution:
  assumes "dag_inv d" and "(src, tgt) \<in> edges (dag_nodes d)"
  shows "fst (add_edge src tgt d) = Inr () \<and> execute rank outcome (snd (add_edge src tgt d)) = ([], Inl (CycleDetected 0 0))"
proof -
  have wf: "dag_wf (dag_nodes d)" "hm_wf (dag_nodes d)" and ac: "acyclic (edges (dag_nodes d))"
    using assms(1) by (simp_all add: dag_inv_def dag_wf_def)
  have k: "src \<in> set (hm_keys (dag_nodes d))" "tgt \<in> set (hm_keys (dag_nodes d))" using edges_keys [OF wf(1) assms(2)] by auto
  have "(tgt, src) \<notin> (edges (dag_nodes d))\<^sup>*"
    using ac assms(2) by (meson acyclic_def rtrancl_into_trancl1)
  then have a: "add_edge src tgt d =
      (Inr (), d\<lparr>dag_nodes := push_dependency src tgt (the (hm_get (dag_nodes d) tgt)) (dag_nodes d)\<rparr>)"
    using k add_edge_cases [OF assms(1)] by simp
  obtain node where n: "hm_get (dag_nodes d) tgt = Some node" "src \<in> set (depends_on node)"
    using assms(2) wf(2) by (auto simp: edges_def hm_get_eq_Some_iff)
  let ?nodes = "dag_nodes (snd (add_edge src tgt d))"
  have inv: "dag_inv (snd (add_edge src tgt d))" by (rule dag_inv_add_edge [OF assms(1)])
  have "(tgt, node\<lparr>depends_on := depends_on node @ [src]\<rparr>) \<in> set ?nodes"
    by (simp add: a n(1) push_dependency_def set_hm_insert [OF wf(2)])
  then have "\<not> no_duplicate_edges ?nodes" using n(2) by (force simp: no_duplicate_edges_def list_all_iff)
  then have "topological_order rank ?nodes = None"
    using topological_order_Some(4) inv by (fastforce simp: dag_inv_def)
  moreover have "?nodes \<noteq> []" using \<open>_ \<in> set ?nodes\<close> by auto
  ultimately show ?thesis by (simp add: execute_def a)
qed


end
