(* ===== verification/SlaQueue.thy ===== *)
theory SlaQueue
  imports Types "HOL-Library.Multiset"
begin

text \<open>
  The SLA-aware priority queue (\<open>src/sla_queue.rs\<close>): classes with a deadline and a base
  priority, ageing, selection of the most urgent job, expiry and statistics. The binary heap
  is the list of its entries; a number stands for the heap's choice among entries of equal
  priority. Instants are nanoseconds. Priorities are integers: they leave the range of
  \<open>i64\<close> only for jobs older than a hundred thousand years.
\<close>

section \<open>Classes and jobs\<close>

datatype SlaClass = Critical | High | Normal | SlaBatch

fun sla_ms :: "SlaClass \<Rightarrow> u64" where
  "sla_ms Critical = 50"
| "sla_ms High = 200"
| "sla_ms Normal = 1000"
| "sla_ms SlaBatch = 10000"

fun base_priority :: "SlaClass \<Rightarrow> int" where
  "base_priority Critical = 4000"
| "base_priority High = 3000"
| "base_priority Normal = 2000"
| "base_priority SlaBatch = 1000"

fun class_name :: "SlaClass \<Rightarrow> string" where
  "class_name Critical = ''critical''"
| "class_name High = ''high''"
| "class_name Normal = ''normal''"
| "class_name SlaBatch = ''batch''"

record SlaJob =
  sj_job :: Job
  sla_class :: SlaClass
  enqueued_at :: nat
  effective_priority :: int

definition sla_job_new :: "nat \<Rightarrow> Job \<Rightarrow> SlaClass \<Rightarrow> SlaJob" where
  "sla_job_new now job c =
     \<lparr>sj_job = job, sla_class = c, enqueued_at = now, effective_priority = base_priority c\<rparr>"

definition sj_elapsed_ms :: "nat \<Rightarrow> SlaJob \<Rightarrow> nat" where
  "sj_elapsed_ms now sj = (now - enqueued_at sj) div 1000000"

definition age_boost :: "nat \<Rightarrow> SlaJob \<Rightarrow> int" where
  "age_boost now sj =
    (let ms = int (sj_elapsed_ms now sj); sla = uint (sla_ms (sla_class sj))
     in if 0 < sla then ms * 1000 div sla else 0)"

definition rescore :: "nat \<Rightarrow> SlaJob \<Rightarrow> SlaJob" where
  "rescore now sj = sj\<lparr>effective_priority := base_priority (sla_class sj) + age_boost now sj\<rparr>"

definition is_expired :: "nat \<Rightarrow> SlaJob \<Rightarrow> bool" where
  "is_expired now sj = (unat (sla_ms (sla_class sj)) < sj_elapsed_ms now sj)"

section \<open>The queue\<close>

record ClassStats =
  cs_enqueued :: u64
  cs_dequeued :: u64
  cs_expired :: u64

record SlaQueue =
  heap :: "SlaJob list"
  total_enqueued :: u64
  total_dequeued :: u64
  total_expired :: u64
  class_stats :: "(SlaClass, ClassStats) hashmap"

definition class_stats_zero :: ClassStats where
  "class_stats_zero = \<lparr>cs_enqueued = 0, cs_dequeued = 0, cs_expired = 0\<rparr>"

definition sla_queue_new :: SlaQueue where
  "sla_queue_new = \<lparr>heap = [], total_enqueued = 0, total_dequeued = 0, total_expired = 0,
     class_stats = map (\<lambda>c. (c, class_stats_zero)) [Critical, High, Normal, SlaBatch]\<rparr>"

text \<open>\<open>if let Some(cs) = class_stats.get_mut(..)\<close>\<close>

definition update_class :: "SlaClass \<Rightarrow> (ClassStats \<Rightarrow> ClassStats) \<Rightarrow>
    (SlaClass, ClassStats) hashmap \<Rightarrow> (SlaClass, ClassStats) hashmap" where
  "update_class c f m = (case hm_get m c of Some cs \<Rightarrow> hm_insert c (f cs) m | None \<Rightarrow> m)"

definition sla_push :: "nat \<Rightarrow> Job \<Rightarrow> SlaClass \<Rightarrow> SlaQueue \<Rightarrow> SlaQueue" where
  "sla_push now job c q =
     q\<lparr>total_enqueued := total_enqueued q + 1,
       class_stats := update_class c (\<lambda>cs. cs\<lparr>cs_enqueued := cs_enqueued cs + 1\<rparr>) (class_stats q),
       heap := sla_job_new now job c # heap q\<rparr>"

text \<open>\<open>BinaryHeap::pop\<close>: an entry of maximal priority; \<open>k\<close> picks among equals.\<close>

definition heap_top :: "nat \<Rightarrow> SlaJob list \<Rightarrow> SlaJob" where
  "heap_top k h =
    (let m = Max (effective_priority ` set h);
         tops = filter (\<lambda>sj. effective_priority sj = m) h
     in tops ! (k mod length tops))"

definition sla_pop :: "nat \<Rightarrow> nat \<Rightarrow> SlaQueue \<Rightarrow> SlaJob option \<times> SlaQueue" where
  "sla_pop k now q =
    (if heap q = [] then (None, q)
     else let h = map (rescore now) (heap q);
              sj = heap_top k h
          in (Some sj,
              q\<lparr>heap := remove1 sj h, total_dequeued := total_dequeued q + 1,
                class_stats := update_class (sla_class sj) (\<lambda>cs. cs\<lparr>cs_dequeued := cs_dequeued cs + 1\<rparr>) (class_stats q)\<rparr>))"

definition count_expired :: "SlaJob \<Rightarrow> SlaQueue \<Rightarrow> SlaQueue" where
  "count_expired sj q =
     q\<lparr>total_expired := total_expired q + 1,
       class_stats := update_class (sla_class sj) (\<lambda>cs. cs\<lparr>cs_expired := cs_expired cs + 1\<rparr>) (class_stats q)\<rparr>"

definition sla_expired :: "nat \<Rightarrow> SlaQueue \<Rightarrow> SlaJob list \<times> SlaQueue" where
  "sla_expired now q =
    (let out = filter (is_expired now) (heap q)
     in (out, fold count_expired out (q\<lparr>heap := filter (\<lambda>sj. \<not> is_expired now sj) (heap q)\<rparr>)))"

record SlaStats =
  ss_enqueued :: u64
  ss_dequeued :: u64
  ss_expired :: u64
  ss_by_class :: "(SlaClass, ClassStats) hashmap"

definition sla_stats :: "SlaQueue \<Rightarrow> SlaStats" where
  "sla_stats q = \<lparr>ss_enqueued = total_enqueued q, ss_dequeued = total_dequeued q,
     ss_expired = total_expired q, ss_by_class = class_stats q\<rparr>"

section \<open>The most urgent job\<close>

lemma heap_top_max:
  assumes "h \<noteq> []"
  shows "heap_top k h \<in> set h" and "sj \<in> set h \<Longrightarrow> effective_priority sj \<le> effective_priority (heap_top k h)"
proof -
  let ?m = "Max (effective_priority ` set h)"
  let ?tops = "filter (\<lambda>sj. effective_priority sj = ?m) h"
  have "?m \<in> effective_priority ` set h" using assms by (intro Max_in) auto
  then have "?tops \<noteq> []" by (auto simp: filter_empty_conv)
  then have "?tops ! (k mod length ?tops) \<in> set ?tops" by (intro nth_mem) simp
  then have t: "heap_top k h \<in> set ?tops" by (simp add: heap_top_def Let_def)
  then show "heap_top k h \<in> set h" by simp
  show "effective_priority sj \<le> effective_priority (heap_top k h)" if "sj \<in> set h" using t that by auto
qed

lemma sla_class_rescore [simp]: "sla_class (rescore now sj) = sla_class sj"
  by (simp add: rescore_def)

text \<open>A job whose whole deadline has passed ranks at least as high as a fresh job one class up.\<close>

lemma overdue_reaches_next_class:
  assumes "is_expired now sj"
  shows "base_priority (sla_class sj) + 1000 \<le> effective_priority (rescore now sj)"
proof -
  let ?sla = "uint (sla_ms (sla_class sj))"
  have pos: "0 < ?sla" by (cases "sla_class sj") simp_all
  have "?sla \<le> int (sj_elapsed_ms now sj)" using assms
    by (simp add: is_expired_def flip: uint_nat) (metis int_ops(1) less_imp_le of_nat_le_iff of_nat_unat)
  then have "1000 \<le> int (sj_elapsed_ms now sj) * 1000 div ?sla"
    using pos zdiv_mono1 [of "1000 * ?sla" "int (sj_elapsed_ms now sj) * 1000" ?sla] by simp
  then show ?thesis using pos by (simp add: rescore_def age_boost_def Let_def)
qed

text \<open>Within a class, an older job never ranks below a younger one.\<close>

lemma older_first:
  assumes "sla_class a = sla_class b" and "enqueued_at a \<le> enqueued_at b"
  shows "effective_priority (rescore now b) \<le> effective_priority (rescore now a)"
proof -
  let ?sla = "uint (sla_ms (sla_class b))"
  have pos: "0 < ?sla" by (cases "sla_class b") simp_all
  have "sj_elapsed_ms now b \<le> sj_elapsed_ms now a"
    using assms(2) by (simp add: sj_elapsed_ms_def div_le_mono)
  then have "int (sj_elapsed_ms now b) * 1000 div ?sla \<le> int (sj_elapsed_ms now a) * 1000 div ?sla"
    using pos by (intro zdiv_mono1) auto
  then show ?thesis using assms(1) pos by (simp add: rescore_def age_boost_def Let_def)
qed

section \<open>Conservation\<close>

definition class_balance :: "SlaClass \<Rightarrow> SlaQueue \<Rightarrow> bool" where
  "class_balance c q =
    (\<exists>cs. hm_get (class_stats q) c = Some cs \<and>
       cs_enqueued cs = cs_dequeued cs + cs_expired cs + of_nat (length (filter (\<lambda>sj. sla_class sj = c) (heap q))))"

definition sla_inv :: "SlaQueue \<Rightarrow> bool" where
  "sla_inv q \<longleftrightarrow> total_enqueued q = total_dequeued q + total_expired q + of_nat (length (heap q))
     \<and> (\<forall>c. class_balance c q)"

lemma hm_get_update_class:
  "hm_get (update_class c f m) c' = (if c' = c then map_option f (hm_get m c) else hm_get m c')"
  by (auto simp: update_class_def hm_get_insert split: option.split)

lemma class_balance_push: "class_balance c' q \<Longrightarrow> class_balance c' (sla_push now job c q)"
  by (auto simp: sla_push_def class_balance_def hm_get_update_class sla_job_new_def)

lemma sla_inv_push: "sla_inv q \<Longrightarrow> sla_inv (sla_push now job c q)"
  using class_balance_push by (simp add: sla_inv_def) (simp add: sla_push_def)

lemma length_remove1_filter:
  "sj \<in> set h \<Longrightarrow> length (filter P h) = length (filter P (remove1 sj h)) + (if P sj then 1 else 0)"
  by (induction h) auto

lemma sla_inv_pop: "sla_inv q \<Longrightarrow> sla_inv (snd (sla_pop k now q))"
proof (cases "heap q = []")
  case False
  assume inv: "sla_inv q"
  let ?h = "map (rescore now) (heap q)"
  define sj where "sj = heap_top k ?h"
  have mem: "sj \<in> set ?h" unfolding sj_def by (rule heap_top_max(1)) (use False in simp)
  have f: "length (filter (\<lambda>x. sla_class x = c) ?h) = length (filter (\<lambda>x. sla_class x = c) (heap q))" for c
    by (simp add: filter_map comp_def)
  have cb: "length (filter (\<lambda>x. sla_class x = c) (heap q)) =
      length (filter (\<lambda>x. sla_class x = c) (remove1 sj ?h)) + (if sla_class sj = c then 1 else 0)" for c
    using length_remove1_filter [OF mem, of "\<lambda>x. sla_class x = c"] f by simp
  have len: "length (heap q) = length (remove1 sj ?h) + 1"
    using mem False by (simp add: length_remove1)
  have q: "snd (sla_pop k now q) = q\<lparr>heap := remove1 sj ?h, total_dequeued := total_dequeued q + 1,
      class_stats := update_class (sla_class sj) (\<lambda>cs. cs\<lparr>cs_dequeued := cs_dequeued cs + 1\<rparr>) (class_stats q)\<rparr>"
    using False by (simp add: sla_pop_def Let_def sj_def)
  have "class_balance c (snd (sla_pop k now q))" for c
  proof -
    have "class_balance c q" using inv by (simp add: sla_inv_def)
    then show ?thesis unfolding q class_balance_def cb [of c]
      by (auto simp: hm_get_update_class split: option.splits)
  qed
  moreover have "total_enqueued q = total_dequeued q + total_expired q + of_nat (length (heap q))"
    using inv by (simp add: sla_inv_def)
  ultimately show ?thesis unfolding sla_inv_def q len by simp
qed (simp add: sla_pop_def)

lemma fold_count_expired:
  "let q' = fold count_expired out q in
     heap q' = heap q \<and> total_enqueued q' = total_enqueued q \<and> total_dequeued q' = total_dequeued q
     \<and> total_expired q' = total_expired q + of_nat (length out)
     \<and> hm_get (class_stats q') c = map_option
         (\<lambda>cs. cs\<lparr>cs_expired := cs_expired cs + of_nat (length (filter (\<lambda>sj. sla_class sj = c) out))\<rparr>)
         (hm_get (class_stats q) c)"
  by (induction out arbitrary: q)
    (auto simp: Let_def count_expired_def hm_get_update_class option.map_comp comp_def add.assoc option.map_ident)

lemma sla_inv_expired: "sla_inv q \<Longrightarrow> sla_inv (snd (sla_expired now q))"
proof -
  assume inv: "sla_inv q"
  let ?out = "filter (is_expired now) (heap q)"
  let ?q = "q\<lparr>heap := filter (\<lambda>sj. \<not> is_expired now sj) (heap q)\<rparr>"
  note f = fold_count_expired [of ?out ?q, unfolded Let_def]
  have split: "length (filter P h) = length (filter P (filter (\<lambda>sj. \<not> is_expired now sj) h))
      + length (filter P (filter (is_expired now) h))" for P h
    by (induction h) auto
  have len: "length (heap q) = length (filter (\<lambda>sj. \<not> is_expired now sj) (heap q)) + length ?out"
    using split [of "\<lambda>_. True" "heap q"] by simp
  have q: "snd (sla_expired now q) = fold count_expired ?out ?q" by (simp add: sla_expired_def Let_def)
  have "class_balance c (snd (sla_expired now q))" for c
  proof -
    have "class_balance c q" using inv by (simp add: sla_inv_def)
    then show ?thesis using split [of "\<lambda>sj. sla_class sj = c" "heap q"]
      unfolding q class_balance_def by (auto simp: f)
  qed
  then show ?thesis using inv f len unfolding sla_inv_def q by simp
qed

datatype sla_op = SlaPush nat Job SlaClass | SlaPop nat nat | SlaExpired nat

fun sla_step :: "sla_op \<Rightarrow> SlaQueue \<Rightarrow> SlaQueue" where
  "sla_step (SlaPush now job c) q = sla_push now job c q"
| "sla_step (SlaPop k now) q = snd (sla_pop k now q)"
| "sla_step (SlaExpired now) q = snd (sla_expired now q)"

interpretation sla: stateful sla_step sla_inv
proof
  fix q x assume "sla_inv q"
  then show "sla_inv (sla_step x q)"
    by (cases x) (simp_all add: sla_inv_push sla_inv_pop sla_inv_expired)
qed

lemma sla_inv_new: "sla_inv sla_queue_new"
proof -
  have "class_balance c sla_queue_new" for c
    by (cases c) (simp_all add: class_balance_def sla_queue_new_def class_stats_zero_def hm_get_def)
  then show ?thesis by (simp add: sla_inv_def) (simp add: sla_queue_new_def)
qed

section \<open>Properties\<close>

text \<open>
  No job is lost: in every reachable state, of every class as many jobs were enqueued as
  were dequeued, expired or still wait, and so over all classes (counters modulo 2^64).
\<close>

theorem sla_queue_conserves_jobs:
  "let q = fold sla_step ops sla_queue_new in
     total_enqueued q = total_dequeued q + total_expired q + of_nat (length (heap q))
     \<and> (\<exists>cs. hm_get (class_stats q) c = Some cs \<and>
          cs_enqueued cs = cs_dequeued cs + cs_expired cs + of_nat (length (filter (\<lambda>sj. sla_class sj = c) (heap q))))"
  using sla.run_inv [OF sla_inv_new, of ops] by (simp add: sla_inv_def class_balance_def Let_def)

text \<open>
  From a nonempty queue, \<open>pop\<close> returns a queued job no other queued job outranks at that
  moment, whatever the cached priorities were, and keeps all the others; a job past its
  deadline outranks every fresh job of a lower class and reaches the next class up.
\<close>

theorem pop_takes_most_urgent:
  assumes "heap q \<noteq> []"
  shows "\<exists>sj \<in> set (heap q). fst (sla_pop k now q) = Some (rescore now sj)
    \<and> mset (heap (snd (sla_pop k now q))) = image_mset (rescore now) (mset (heap q) - {#sj#})
    \<and> list_all (\<lambda>other. effective_priority (rescore now other) \<le> effective_priority (rescore now sj)) (heap q)
    \<and> list_all (\<lambda>other. if is_expired now other
        then base_priority (sla_class other) + 1000 \<le> effective_priority (rescore now sj) else True) (heap q)"
proof -
  let ?h = "map (rescore now) (heap q)"
  have ne: "?h \<noteq> []" using assms by simp
  obtain sj where sj: "sj \<in> set (heap q)" "heap_top k ?h = rescore now sj"
    using heap_top_max(1) [OF ne, of k] by auto
  have top: "effective_priority (rescore now other) \<le> effective_priority (rescore now sj)"
    if "other \<in> set (heap q)" for other
    using heap_top_max(2) [OF ne, of "rescore now other" k] that unfolding sj(2) by simp
  have "base_priority (sla_class other) + 1000 \<le> effective_priority (rescore now sj)"
    if "other \<in> set (heap q)" "is_expired now other" for other
    using overdue_reaches_next_class [OF that(2)] top [OF that(1)] by linarith
  moreover have "mset (heap (snd (sla_pop k now q))) = image_mset (rescore now) (mset (heap q) - {#sj#})"
    using sj by (simp add: sla_pop_def Let_def assms image_mset_Diff)
  moreover have "fst (sla_pop k now q) = Some (rescore now sj)"
    using sj by (simp add: sla_pop_def Let_def assms)
  ultimately show ?thesis using sj(1) top by (auto simp: list_all_iff)
qed

theorem pop_takes_most_urgent_witness:
  "\<exists>sj. fst (sla_pop 0 300000000 (sla_push 299000000 Job_default Normal (sla_push 0 Job_default High sla_queue_new)))
      = Some sj \<and> 4000 \<le> effective_priority sj"
proof -
  let ?q = "sla_push 299000000 Job_default Normal (sla_push 0 Job_default High sla_queue_new)"
  have ne: "heap ?q \<noteq> []" by (simp add: sla_push_def)
  show ?thesis using pop_takes_most_urgent [OF ne, of 0 300000000]
    by (auto simp: sla_push_def sla_queue_new_def sla_job_new_def is_expired_def sj_elapsed_ms_def)
qed

end
