(* ===== verification/Wfq.thy ===== *)
theory Wfq
  imports Types "HOL-Library.Monad_Syntax"
begin

text \<open>
  Deficit round-robin fair queuing (\<open>src/wfq.rs\<close>): classes with weights, one round over all
  classes, and the loop that runs rounds until it has a job. Additions to a deficit wrap, as in
  release builds. \<open>next_job\<close> may run for ever, so it is a partial function whose value is
  \<open>None\<close> then. Instants are nanoseconds.
\<close>

section \<open>State\<close>

record WfqClass =
  wc_name :: string
  wc_weight :: u32

record WfqConfig =
  wfq_classes :: "WfqClass list"
  wfq_quantum :: u64

definition WfqConfig_default :: WfqConfig where
  "WfqConfig_default =
     \<lparr>wfq_classes = [\<lparr>wc_name = ''hash_mix'', wc_weight = 3\<rparr>, \<lparr>wc_name = ''prime_count'', wc_weight = 2\<rparr>,
        \<lparr>wc_name = ''monte_carlo_risk'', wc_weight = 1\<rparr>],
      wfq_quantum = 1000\<rparr>"

record ClassWfqStats =
  cw_enqueued :: u64
  cw_dequeued :: u64
  cw_queue_len :: nat
  cw_avg_wait_ms :: f64
  cw_total_wait_ms :: f64

definition ClassWfqStats_default :: ClassWfqStats where
  "ClassWfqStats_default = \<lparr>cw_enqueued = 0, cw_dequeued = 0, cw_queue_len = 0, cw_avg_wait_ms = FFin 0,
     cw_total_wait_ms = FFin 0\<rparr>"

record QueueEntry =
  qe_job :: Job
  qe_enqueued_at :: nat

record WfqQueue =
  q_weight :: u32
  q_deficit :: u64
  q_entries :: "QueueEntry list"

definition wfq_queue_new :: "u32 \<Rightarrow> WfqQueue" where
  "wfq_queue_new w = \<lparr>q_weight = w, q_deficit = 0, q_entries = []\<rparr>"

record WfqScheduler =
  class_order :: "string list"
  queues :: "(string, WfqQueue) hashmap"
  quantum :: u64
  wfq_stats :: "(string, ClassWfqStats) hashmap"
  wfq_enqueued :: u64
  wfq_dequeued :: u64

definition wfq_new :: "WfqConfig \<Rightarrow> WfqScheduler" where
  "wfq_new c =
    \<lparr>class_order = map wc_name (wfq_classes c),
     queues = fold (\<lambda>cls. hm_insert (wc_name cls) (wfq_queue_new (wc_weight cls))) (wfq_classes c) [],
     quantum = wfq_quantum c,
     wfq_stats = fold (\<lambda>cls. hm_insert (wc_name cls) ClassWfqStats_default) (wfq_classes c) [],
     wfq_enqueued = 0, wfq_dequeued = 0\<rparr>"

fun class_for_job :: "Job \<Rightarrow> string" where
  "class_for_job job =
    (case kind job of
       HashMix \<Rightarrow> ''hash_mix''
     | PrimeCount \<Rightarrow> ''prime_count''
     | MonteCarloRisk \<Rightarrow> ''monte_carlo_risk'')"

definition update_stats :: "string \<Rightarrow> (ClassWfqStats \<Rightarrow> ClassWfqStats) \<Rightarrow> WfqScheduler \<Rightarrow> WfqScheduler" where
  "update_stats class f s =
    (case hm_get (wfq_stats s) class of
       Some st \<Rightarrow> s\<lparr>wfq_stats := hm_insert class (f st) (wfq_stats s)\<rparr>
     | None \<Rightarrow> s)"

definition set_queue :: "string \<Rightarrow> WfqQueue \<Rightarrow> WfqScheduler \<Rightarrow> WfqScheduler" where
  "set_queue class q s = s\<lparr>queues := hm_insert class q (queues s)\<rparr>"

section \<open>Operations\<close>

definition wfq_enqueue :: "nat \<Rightarrow> Job \<Rightarrow> WfqScheduler \<Rightarrow> bool \<times> WfqScheduler" where
  "wfq_enqueue now job s =
    (let class = class_for_job job in
     case hm_get (queues s) class of
       None \<Rightarrow> (False, s)
     | Some q \<Rightarrow>
         let q = q\<lparr>q_entries := q_entries q @ [\<lparr>qe_job = job, qe_enqueued_at = now\<rparr>]\<rparr>;
             s = set_queue class q s;
             s = update_stats class (\<lambda>st. st\<lparr>cw_enqueued := cw_enqueued st + 1,
                   cw_queue_len := length (q_entries q)\<rparr>) s
         in (True, s\<lparr>wfq_enqueued := wfq_enqueued s + 1\<rparr>))"

definition wait_ms :: "nat \<Rightarrow> QueueEntry \<Rightarrow> f64" where
  "wait_ms now e = f64_of_nat ((now - qe_enqueued_at e) div 1000000)"

text \<open>The inner loop of a round, on one class: the deficit pays for jobs from the front.\<close>

fun serve :: "u64 \<Rightarrow> QueueEntry list \<Rightarrow> u64 \<times> QueueEntry list \<times> QueueEntry list" where
  "serve d [] = (d, [], [])"
| "serve d (e # q) =
    (if compute_cost (qe_job e) \<le> d then
       case serve (d - compute_cost (qe_job e)) q of (d', served, rest) \<Rightarrow> (d', e # served, rest)
     else (d, [], e # q))"

definition count_served :: "nat \<Rightarrow> QueueEntry \<Rightarrow> ClassWfqStats \<Rightarrow> ClassWfqStats" where
  "count_served now e st =
    (let st = st\<lparr>cw_dequeued := cw_dequeued st + 1,
                 cw_total_wait_ms := f64_add (cw_total_wait_ms st) (wait_ms now e)\<rparr>
     in st\<lparr>cw_avg_wait_ms := f64_div (cw_total_wait_ms st) (f64_of_u64 (cw_dequeued st))\<rparr>)"

definition drain_class :: "nat \<Rightarrow> string \<Rightarrow> Job list \<times> WfqScheduler \<Rightarrow> Job list \<times> WfqScheduler" where
  "drain_class now class rs =
    (case rs of (result, s) \<Rightarrow>
       case hm_get (queues s) class of
         None \<Rightarrow> (result, s)
       | Some q \<Rightarrow>
           if q_entries q = [] then (result, set_queue class (q\<lparr>q_deficit := 0\<rparr>) s)
           else case serve (q_deficit q + quantum s * ucast (q_weight q)) (q_entries q) of
             (d, served, rest) \<Rightarrow>
               let s = set_queue class (q\<lparr>q_deficit := (if rest = [] then 0 else d), q_entries := rest\<rparr>) s;
                   s = (if served = [] then s
                        else update_stats class (\<lambda>st. (fold (count_served now) served st)\<lparr>cw_queue_len := length rest\<rparr>) s)
               in (result @ map qe_job served, s\<lparr>wfq_dequeued := wfq_dequeued s + of_nat (length served)\<rparr>))"

definition drain_round :: "nat \<Rightarrow> WfqScheduler \<Rightarrow> Job list \<times> WfqScheduler" where
  "drain_round now s = fold (drain_class now) (class_order s) ([], s)"

definition wfq_is_empty :: "WfqScheduler \<Rightarrow> bool" where
  "wfq_is_empty s = list_all (\<lambda>(_, q). q_entries q = []) (queues s)"

definition wfq_len :: "WfqScheduler \<Rightarrow> nat" where
  "wfq_len s = sum_list (map (\<lambda>(_, q). length (q_entries q)) (queues s))"

text \<open>A job taken out of a round too many goes back to the front of its class.\<close>

definition put_back :: "nat \<Rightarrow> Job \<Rightarrow> WfqScheduler \<Rightarrow> WfqScheduler" where
  "put_back now job s =
    (let class = class_for_job job in
     case hm_get (queues s) class of
       None \<Rightarrow> s
     | Some q \<Rightarrow>
         let q = q\<lparr>q_entries := \<lparr>qe_job = job, qe_enqueued_at = now\<rparr> # q_entries q\<rparr>;
             s = set_queue class q s;
             s = update_stats class (\<lambda>st. st\<lparr>cw_dequeued := (if 0 < cw_dequeued st then cw_dequeued st - 1 else cw_dequeued st),
                   cw_enqueued := cw_enqueued st + 1, cw_queue_len := length (q_entries q)\<rparr>) s
         in s\<lparr>wfq_dequeued := wfq_dequeued s - 1, wfq_enqueued := wfq_enqueued s + 1\<rparr>)"

partial_function (option) next_loop :: "nat \<Rightarrow> WfqScheduler \<Rightarrow> (Job option \<times> WfqScheduler) option" where
  "next_loop now s =
    (case drain_round now s of
       (first # rest, s) \<Rightarrow> Some (Some first, fold (put_back now) (rev rest) s)
     | ([], s) \<Rightarrow> if wfq_is_empty s then Some (None, s) else next_loop now s)"

definition next_job :: "nat \<Rightarrow> WfqScheduler \<Rightarrow> (Job option \<times> WfqScheduler) option" where
  "next_job now s =
    (if wfq_enqueued s = wfq_dequeued s \<and> wfq_is_empty s then Some (None, s) else next_loop now s)"

definition wfq_class_stats :: "WfqScheduler \<Rightarrow> (string, ClassWfqStats) hashmap" where
  "wfq_class_stats s =
     map (\<lambda>(name, st). (name, st\<lparr>cw_queue_len :=
       (case hm_get (queues s) name of Some q \<Rightarrow> length (q_entries q) | None \<Rightarrow> 0)\<rparr>)) (wfq_stats s)"

definition wfq_deficit :: "string \<Rightarrow> WfqScheduler \<Rightarrow> u64 option" where
  "wfq_deficit class s = map_option q_deficit (hm_get (queues s) class)"

definition wfq_weight :: "string \<Rightarrow> WfqScheduler \<Rightarrow> u32 option" where
  "wfq_weight class s = map_option q_weight (hm_get (queues s) class)"

section \<open>Serving one class\<close>

definition cost_of :: "QueueEntry list \<Rightarrow> nat" where
  "cost_of es = sum_list (map (\<lambda>e. unat (compute_cost (qe_job e))) es)"

lemma cost_of_simps [simp]: "cost_of [] = 0" "cost_of (e # es) = unat (compute_cost (qe_job e)) + cost_of es"
  by (simp_all add: cost_of_def)

text \<open>Exactly the longest prefix the deficit can pay for is served, and paid for.\<close>

lemma serve_prefix:
  "serve d q = (d', served, rest) \<Longrightarrow>
     q = served @ rest \<and> unat d = unat d' + cost_of served \<and>
     (case rest of [] \<Rightarrow> True | e # _ \<Rightarrow> unat d' < unat (compute_cost (qe_job e)))"
proof (induction d q arbitrary: d' served rest rule: serve.induct)
  case (2 d e q)
  show ?case
  proof (cases "compute_cost (qe_job e) \<le> d")
    case True
    obtain d1 s1 r1 where s: "serve (d - compute_cost (qe_job e)) q = (d1, s1, r1)" by (metis prod_cases3)
    have "unat d = unat (d - compute_cost (qe_job e)) + unat (compute_cost (qe_job e))"
      using True by (simp add: unat_sub word_le_nat_alt)
    then show ?thesis using "2.IH" [OF True s] "2.prems" True s by (auto split: list.splits)
  next
    case False
    then show ?thesis using "2.prems" by (auto simp: word_le_nat_alt)
  qed
qed simp


section \<open>A round, class by class\<close>

text \<open>What a round does to one queue: the entries it serves, and the queue it leaves.\<close>

definition round_queue :: "u64 \<Rightarrow> WfqQueue \<Rightarrow> QueueEntry list \<times> WfqQueue" where
  "round_queue qu q =
    (if q_entries q = [] then ([], q\<lparr>q_deficit := 0\<rparr>)
     else case serve (q_deficit q + qu * ucast (q_weight q)) (q_entries q) of
       (d, served, rest) \<Rightarrow> (served, q\<lparr>q_deficit := (if rest = [] then 0 else d), q_entries := rest\<rparr>))"

definition served_in :: "WfqScheduler \<Rightarrow> string \<Rightarrow> Job list" where
  "served_in s c = (case hm_get (queues s) c of Some q \<Rightarrow> map qe_job (fst (round_queue (quantum s) q)) | None \<Rightarrow> [])"

lemma update_stats_frame [simp]:
  "queues (update_stats c f s) = queues s" "quantum (update_stats c f s) = quantum s"
  "class_order (update_stats c f s) = class_order s" "wfq_enqueued (update_stats c f s) = wfq_enqueued s"
  "wfq_dequeued (update_stats c f s) = wfq_dequeued s"
  by (simp_all add: update_stats_def split: option.split)

lemma drain_class_frame:
  "fst (drain_class now c (res, s)) = res @ served_in s c"
  "quantum (snd (drain_class now c (res, s))) = quantum s"
  "class_order (snd (drain_class now c (res, s))) = class_order s"
  "wfq_enqueued (snd (drain_class now c (res, s))) = wfq_enqueued s"
  "wfq_dequeued (snd (drain_class now c (res, s))) = wfq_dequeued s + of_nat (length (served_in s c))"
  "hm_wf (queues s) \<Longrightarrow> hm_wf (queues (snd (drain_class now c (res, s))))"
  "hm_get (queues (snd (drain_class now c (res, s)))) c' =
     (if c' = c then map_option (\<lambda>q. snd (round_queue (quantum s) q)) (hm_get (queues s) c) else hm_get (queues s) c')"
  by (simp_all add: drain_class_def served_in_def round_queue_def set_queue_def hm_get_insert Let_def
      split: option.split prod.split)

lemma fold_drain_class:
  "distinct cs \<Longrightarrow>
    fst (fold (drain_class now) cs (res, s)) = res @ concat (map (served_in s) cs)
    \<and> quantum (snd (fold (drain_class now) cs (res, s))) = quantum s
    \<and> class_order (snd (fold (drain_class now) cs (res, s))) = class_order s
    \<and> wfq_enqueued (snd (fold (drain_class now) cs (res, s))) = wfq_enqueued s
    \<and> wfq_dequeued (snd (fold (drain_class now) cs (res, s)))
        = wfq_dequeued s + of_nat (length (concat (map (served_in s) cs)))
    \<and> (hm_wf (queues s) \<longrightarrow> hm_wf (queues (snd (fold (drain_class now) cs (res, s)))))
    \<and> (\<forall>c. hm_get (queues (snd (fold (drain_class now) cs (res, s)))) c =
        (if c \<in> set cs then map_option (\<lambda>q. snd (round_queue (quantum s) q)) (hm_get (queues s) c)
         else hm_get (queues s) c))"
proof (induction cs arbitrary: res s)
  case (Cons c cs)
  obtain res1 s1 where d: "drain_class now c (res, s) = (res1, s1)" by fastforce
  note f = drain_class_frame [where now = now and c = c and res = res and s = s, unfolded d fst_conv snd_conv]
  have m: "map (served_in s1) cs = map (served_in s) cs"
    using Cons.prems by (intro map_cong) (auto simp: served_in_def f split: option.split)
  have "distinct cs" "c \<notin> set cs" using Cons.prems by simp_all
  from Cons.IH [OF this(1), of res1 s1, unfolded m f(2)] this(2) show ?case
    by (simp add: d f add.assoc)
qed simp

text \<open>Every queue holds jobs of its own class, and the order lists every class once.\<close>

definition wfq_inv :: "WfqScheduler \<Rightarrow> bool" where
  "wfq_inv s \<longleftrightarrow> distinct (class_order s) \<and> hm_wf (queues s) \<and> set (class_order s) = set (hm_keys (queues s))
     \<and> (\<forall>c q. hm_get (queues s) c = Some q \<longrightarrow> (\<forall>e \<in> set (q_entries q). class_for_job (qe_job e) = c))"

lemma drain_round_frame:
  assumes "wfq_inv s"
  shows "fst (drain_round now s) = concat (map (served_in s) (class_order s))"
    and "quantum (snd (drain_round now s)) = quantum s"
    and "class_order (snd (drain_round now s)) = class_order s"
    and "wfq_enqueued (snd (drain_round now s)) = wfq_enqueued s"
    and "wfq_dequeued (snd (drain_round now s)) = wfq_dequeued s + of_nat (length (fst (drain_round now s)))"
    and "hm_wf (queues (snd (drain_round now s)))"
    and "hm_get (queues (snd (drain_round now s))) c =
      map_option (\<lambda>q. snd (round_queue (quantum s) q)) (hm_get (queues s) c)"
proof -
  have d: "distinct (class_order s)" and hm: "hm_wf (queues s)" and k: "set (class_order s) = set (hm_keys (queues s))"
    using assms by (simp_all add: wfq_inv_def)
  note f = fold_drain_class [OF d, of now "[]" s]
  show "fst (drain_round now s) = concat (map (served_in s) (class_order s))"
    "quantum (snd (drain_round now s)) = quantum s" "class_order (snd (drain_round now s)) = class_order s"
    "wfq_enqueued (snd (drain_round now s)) = wfq_enqueued s" "hm_wf (queues (snd (drain_round now s)))"
    "wfq_dequeued (snd (drain_round now s)) = wfq_dequeued s + of_nat (length (fst (drain_round now s)))"
    using f hm by (simp_all add: drain_round_def)
  show "hm_get (queues (snd (drain_round now s))) c =
      map_option (\<lambda>q. snd (round_queue (quantum s) q)) (hm_get (queues s) c)"
    using f k hm_get_None_iff [of "queues s" c] by (auto simp: drain_round_def)
qed

lemma round_queue_entries:
  "q_entries q = fst (round_queue qu q) @ q_entries (snd (round_queue qu q))"
  "q_weight (snd (round_queue qu q)) = q_weight q"
proof -
  obtain d sv rest where s: "serve (q_deficit q + qu * ucast (q_weight q)) (q_entries q) = (d, sv, rest)" by (metis prod_cases3)
  show "q_entries q = fst (round_queue qu q) @ q_entries (snd (round_queue qu q))"
    "q_weight (snd (round_queue qu q)) = q_weight q"
    by (cases "q_entries q = []"; simp add: round_queue_def s; use serve_prefix [OF s] in simp)+
qed

lemma hm_keys_get: "set (hm_keys m) = {c. hm_get m c \<noteq> None}"
  using hm_get_None_iff [of m] by auto

lemma wfq_inv_drain: "wfq_inv s \<Longrightarrow> wfq_inv (snd (drain_round now s))"
proof -
  assume inv: "wfq_inv s"
  note f = drain_round_frame [OF inv, of now]
  have "class_for_job (qe_job e) = c"
    if q: "hm_get (queues (snd (drain_round now s))) c = Some q" and e: "e \<in> set (q_entries q)" for c q e
  proof -
    obtain q0 where q0: "hm_get (queues s) c = Some q0" "q = snd (round_queue (quantum s) q0)" using q by (auto simp: f)
    have "e \<in> set (q_entries q0)" using e round_queue_entries(1) [of q0 "quantum s"] q0(2) by (metis Un_iff set_append)
    then show ?thesis using inv q0(1) by (auto simp: wfq_inv_def)
  qed
  then show ?thesis using inv unfolding wfq_inv_def by (auto simp: f hm_keys_get)
qed

lemma wfq_inv_set_queue:
  "wfq_inv s \<Longrightarrow> c \<in> set (hm_keys (queues s)) \<Longrightarrow> (\<forall>e \<in> set (q_entries q). class_for_job (qe_job e) = c) \<Longrightarrow>
     wfq_inv (set_queue c q s)"
  by (auto simp: wfq_inv_def set_queue_def hm_get_insert hm_keys_insert)

lemma wfq_inv_cong:
  "queues s = queues t \<Longrightarrow> class_order s = class_order t \<Longrightarrow> wfq_inv s = wfq_inv t"
  by (simp add: wfq_inv_def)

lemma wfq_inv_enqueue: "wfq_inv s \<Longrightarrow> wfq_inv (snd (wfq_enqueue now job s))"
proof (cases "hm_get (queues s) (class_for_job job)")
  case (Some q)
  assume inv: "wfq_inv s"
  let ?q = "q\<lparr>q_entries := q_entries q @ [\<lparr>qe_job = job, qe_enqueued_at = now\<rparr>]\<rparr>"
  have "wfq_inv (set_queue (class_for_job job) ?q s)"
    using inv Some hm_get_SomeD [OF Some] by (intro wfq_inv_set_queue) (auto simp: wfq_inv_def simp del: class_for_job.simps)
  moreover have "wfq_inv (snd (wfq_enqueue now job s)) = wfq_inv (set_queue (class_for_job job) ?q s)"
    by (rule wfq_inv_cong) (simp_all add: wfq_enqueue_def Let_def Some del: class_for_job.simps)
  ultimately show ?thesis by simp
qed (simp add: wfq_enqueue_def Let_def del: class_for_job.simps)

lemma fold_insert_keys: "set (hm_keys (fold (\<lambda>x. hm_insert (f x) (g x)) xs m)) = f ` set xs \<union> set (hm_keys m)"
  by (induction xs arbitrary: m) (auto simp: hm_keys_insert)

lemma fold_insert_wf: "hm_wf m \<Longrightarrow> hm_wf (fold (\<lambda>x. hm_insert (f x) (g x)) xs m)"
  by (induction xs arbitrary: m) auto

lemma fold_insert_get:
  "hm_get (fold (\<lambda>x. hm_insert (f x) (g x)) xs m) k = Some v \<Longrightarrow> hm_get m k = Some v \<or> (\<exists>x. v = g x)"
proof (induction xs arbitrary: m)
  case (Cons x xs)
  have "hm_get (hm_insert (f x) (g x) m) k = Some v \<or> (\<exists>x. v = g x)" by (rule Cons.IH) (use Cons.prems in simp)
  then show ?case by (auto simp: hm_get_insert split: if_splits)
qed simp

lemma wfq_inv_new: "distinct (map wc_name (wfq_classes c)) \<Longrightarrow> wfq_inv (wfq_new c)"
  by (auto simp: wfq_inv_def wfq_new_def fold_insert_keys hm_keys_def [of "[]"] wfq_queue_new_def
      intro!: fold_insert_wf dest!: fold_insert_get)


declare class_for_job.simps [simp del]

lemma wfq_inv_put_back: "wfq_inv s \<Longrightarrow> wfq_inv (put_back now job s)"
proof (cases "hm_get (queues s) (class_for_job job)")
  case (Some q)
  assume inv: "wfq_inv s"
  let ?q = "q\<lparr>q_entries := \<lparr>qe_job = job, qe_enqueued_at = now\<rparr> # q_entries q\<rparr>"
  have "wfq_inv (set_queue (class_for_job job) ?q s)"
    using inv Some hm_get_SomeD [OF Some] by (intro wfq_inv_set_queue) (auto simp: wfq_inv_def)
  moreover have "wfq_inv (put_back now job s) = wfq_inv (set_queue (class_for_job job) ?q s)"
    by (rule wfq_inv_cong) (simp_all add: put_back_def Let_def Some)
  ultimately show ?thesis by simp
qed (simp add: put_back_def Let_def)

lemma wfq_inv_put_backs: "wfq_inv s \<Longrightarrow> wfq_inv (fold (put_back now) jobs s)"
  by (induction jobs arbitrary: s) (auto intro: wfq_inv_put_back)

text \<open>Induction on the rounds of a loop that returned.\<close>

lemma next_loop_induct [consumes 1, case_names first empty again]:
  assumes "next_loop now s = Some r"
    and "\<And>now s first rest s'. drain_round now s = (first # rest, s') \<Longrightarrow>
      P now s (Some first, fold (put_back now) (rev rest) s')"
    and "\<And>now s s'. drain_round now s = ([], s') \<Longrightarrow> wfq_is_empty s' \<Longrightarrow> P now s (None, s')"
    and "\<And>now s s' r. drain_round now s = ([], s') \<Longrightarrow> \<not> wfq_is_empty s' \<Longrightarrow> P now s' r \<Longrightarrow> P now s r"
  shows "P now s r"
proof (rule next_loop.raw_induct [OF _ assms(1)])
  fix loop now s r
  assume IH: "\<And>now s r. loop now s = Some r \<Longrightarrow> P now s r"
    and r: "(case drain_round now s of
        ([], s) \<Rightarrow> if wfq_is_empty s then Some (None, s) else loop now s
      | (first # rest, s) \<Rightarrow> Some (Some first, fold (put_back now) (rev rest) s)) = Some r"
  obtain jobs s' where d: "drain_round now s = (jobs, s')" by fastforce
  show "P now s r"
    using r IH [of now s' r] assms(2) [of now s _ _ s'] assms(3) [of now s s'] assms(4) [of now s s' r]
    by (cases jobs) (auto simp: d split: if_splits)
qed

lemma wfq_inv_next_loop: "next_loop now s = Some r \<Longrightarrow> wfq_inv s \<Longrightarrow> wfq_inv (snd r)"
proof (induction rule: next_loop_induct)
  case (first now s j rest s')
  then show ?case using wfq_inv_drain [OF first(2), of now] by (simp add: wfq_inv_put_backs)
next
  case (empty now s s')
  then show ?case using wfq_inv_drain [OF empty(3), of now] by simp
next
  case (again now s s' r)
  then show ?case using wfq_inv_drain [OF again(4), of now] by simp
qed

lemma wfq_inv_next_job: "next_job now s = Some r \<Longrightarrow> wfq_inv s \<Longrightarrow> wfq_inv (snd r)"
  by (auto simp: next_job_def wfq_inv_next_loop split: if_splits)

datatype wfq_op = Enqueue nat Job | Round nat | NextJob nat

fun wfq_step :: "wfq_op \<Rightarrow> WfqScheduler \<Rightarrow> WfqScheduler" where
  "wfq_step (Enqueue now job) s = snd (wfq_enqueue now job s)"
| "wfq_step (Round now) s = snd (drain_round now s)"
| "wfq_step (NextJob now) s = (case next_job now s of Some r \<Rightarrow> snd r | None \<Rightarrow> s)"

interpretation wfq: stateful wfq_step wfq_inv
proof
  fix s x assume "wfq_inv s"
  then show "wfq_inv (wfq_step x s)"
    by (cases x) (auto simp: wfq_inv_enqueue wfq_inv_drain wfq_inv_next_job split: option.split)
qed

text \<open>The jobs of one class, among all a round serves, in order.\<close>

lemma filter_served:
  assumes "wfq_inv s" and "hm_get (queues s) c = Some q"
  shows "filter (\<lambda>j. class_for_job j = c) (fst (drain_round now s)) = map qe_job (fst (round_queue (quantum s) q))"
proof -
  have own: "list_all (\<lambda>j. class_for_job j = c') (served_in s c')" for c'
  proof (cases "hm_get (queues s) c'")
    case (Some q')
    have "set (fst (round_queue (quantum s) q')) \<subseteq> set (q_entries q')"
      using round_queue_entries(1) [of q' "quantum s"] by (metis Un_upper1 set_append)
    then show ?thesis using assms(1) Some by (auto simp: served_in_def list_all_iff wfq_inv_def)
  qed (simp add: served_in_def)
  then have f: "filter (\<lambda>j. class_for_job j = c) (served_in s c') = (if c' = c then served_in s c else [])" for c'
    using own [of c'] by (auto simp: list_all_iff filter_id_conv filter_empty_conv)
  have concat: "concat (map (\<lambda>c'. if c' = c then xs else []) cs) = (if c \<in> set cs then xs else [])"
    if "distinct cs" for xs :: "Job list" and cs
    using that by (induction cs) auto
  have "c \<in> set (class_order s)" "distinct (class_order s)"
    using assms hm_get_SomeD [OF assms(2)] by (simp_all add: wfq_inv_def)
  then show ?thesis
    by (simp add: drain_round_frame(1) [OF assms(1)] filter_concat comp_def f concat)
      (simp add: served_in_def assms(2))
qed

section \<open>Running rounds until there is a job\<close>

definition qw :: "WfqScheduler \<Rightarrow> WfqQueue \<Rightarrow> nat" where
  "qw s q = unat (quantum s) * unat (q_weight q)"

text \<open>No addition to the deficit of a waiting class wraps, now or while its first job waits.\<close>

definition no_overflow :: "WfqScheduler \<Rightarrow> bool" where
  "no_overflow s \<longleftrightarrow> (\<forall>c q e es. hm_get (queues s) c = Some q \<and> q_entries q = e # es \<longrightarrow>
     unat (q_deficit q) + qw s q < 2 ^ 64 \<and> unat (compute_cost (qe_job e)) + qw s q < 2 ^ 64)"

text \<open>Every waiting class gets nothing per round and cannot pay for its first job.\<close>

definition starved :: "WfqScheduler \<Rightarrow> bool" where
  "starved s \<longleftrightarrow> (\<forall>c q e es. hm_get (queues s) c = Some q \<and> q_entries q = e # es \<longrightarrow>
     qw s q = 0 \<and> q_deficit q < compute_cost (qe_job e))"

lemma wfq_is_empty_iff:
  "hm_wf (queues s) \<Longrightarrow> wfq_is_empty s \<longleftrightarrow> (\<forall>c q. hm_get (queues s) c = Some q \<longrightarrow> q_entries q = [])"
  by (auto simp: wfq_is_empty_def list_all_iff hm_get_eq_Some_iff)

lemma unat_credit:
  "unat d + unat qu * unat w < 2 ^ 64 \<Longrightarrow> unat (d + qu * ucast (w :: u32) :: u64) = unat d + unat qu * unat w"
proof -
  assume b: "unat d + unat qu * unat w < 2 ^ 64"
  have "unat w < 2 ^ 32" using unsigned_less [of w, where ?'a = nat] by simp
  then have u: "unat (ucast w :: u64) = unat w" by (simp add: unsigned_ucast_eq take_bit_nat_eq_self)
  then have "unat (qu * ucast w :: u64) = unat qu * unat w" using b by (subst unat_mult_small) simp_all
  then show ?thesis using b by (subst unat_add_small) simp_all
qed

lemma round_queue_none:
  assumes "q_entries q = e # es" and "fst (round_queue qu q) = []"
  shows "round_queue qu q = ([], q\<lparr>q_deficit := q_deficit q + qu * ucast (q_weight q)\<rparr>)"
    and "q_deficit q + qu * ucast (q_weight q) < compute_cost (qe_job e)"
  using assms by (auto simp: round_queue_def split: if_splits prod.splits)

text \<open>A round that serves nothing only pays deficits out.\<close>

lemma idle_round:
  assumes inv: "wfq_inv s" and idle: "fst (drain_round now s) = []"
    and q: "hm_get (queues s) c = Some q" and e: "q_entries q = e # es"
  shows "hm_get (queues (snd (drain_round now s))) c = Some (q\<lparr>q_deficit := q_deficit q + quantum s * ucast (q_weight q)\<rparr>)"
    and "q_deficit q + quantum s * ucast (q_weight q) < compute_cost (qe_job e)"
proof -
  have "served_in s c = []"
    using idle hm_get_SomeD [OF q] inv by (simp add: drain_round_frame(1) [OF inv] wfq_inv_def)
  then have "fst (round_queue (quantum s) q) = []" by (simp add: served_in_def q)
  from round_queue_none [OF e this]
  show "hm_get (queues (snd (drain_round now s))) c = Some (q\<lparr>q_deficit := q_deficit q + quantum s * ucast (q_weight q)\<rparr>)"
    "q_deficit q + quantum s * ucast (q_weight q) < compute_cost (qe_job e)"
    by (simp_all add: drain_round_frame(7) [OF inv] q)
qed

lemma idle_round_back:
  assumes inv: "wfq_inv s" and idle: "fst (drain_round now s) = []"
    and q: "hm_get (queues (snd (drain_round now s))) c = Some q'" and e: "q_entries q' = e # es"
  obtains q where "hm_get (queues s) c = Some q" "q_entries q = e # es"
    "q' = q\<lparr>q_deficit := q_deficit q + quantum s * ucast (q_weight q)\<rparr>"
proof -
  obtain q where q0: "hm_get (queues s) c = Some q" "q' = snd (round_queue (quantum s) q)"
    using q by (auto simp: drain_round_frame(7) [OF inv])
  have "q_entries q \<noteq> []" using e q0(2) by (auto simp: round_queue_def)
  then obtain e' es' where e': "q_entries q = e' # es'" by (cases "q_entries q") auto
  from idle_round(1) [OF inv idle q0(1) e'] q have "q' = q\<lparr>q_deficit := q_deficit q + quantum s * ucast (q_weight q)\<rparr>"
    by simp
  then show ?thesis using that [OF q0(1)] e e' by simp
qed


lemma busy_not_idle:
  assumes "wfq_inv s" and "no_overflow s" and "hm_get (queues s) c = Some q" and "q_entries q = e # es"
    and "fst (drain_round now s) = []"
  shows "unat (q_deficit q) + qw s q < unat (compute_cost (qe_job e))"
proof -
  have "unat (q_deficit q) + qw s q < 2 ^ 64" using assms(2-4) by (auto simp: no_overflow_def)
  then show ?thesis
    using idle_round(2) [OF assms(1,5,3,4)] by (simp add: word_less_nat_alt unat_credit qw_def)
qed

lemma idle_round_overflow:
  assumes "wfq_inv s" and "no_overflow s" and "fst (drain_round now s) = []"
  shows "no_overflow (snd (drain_round now s))"
  unfolding no_overflow_def
proof (intro allI impI, elim conjE)
  fix c q' e es
  assume q': "hm_get (queues (snd (drain_round now s))) c = Some q'" "q_entries q' = e # es"
  obtain q where q: "hm_get (queues s) c = Some q" "q_entries q = e # es"
    "q' = q\<lparr>q_deficit := q_deficit q + quantum s * ucast (q_weight q)\<rparr>"
    by (rule idle_round_back [OF assms(1,3) q'])
  have b: "unat (q_deficit q) + qw s q < 2 ^ 64" "unat (compute_cost (qe_job e)) + qw s q < 2 ^ 64"
    using assms(2) q by (auto simp: no_overflow_def)
  have "unat (q_deficit q') < unat (compute_cost (qe_job e))"
    using busy_not_idle [OF assms(1,2) q(1,2) assms(3)] b(1) by (simp add: q(3) unat_credit qw_def)
  moreover have "qw (snd (drain_round now s)) q' = qw s q" by (simp add: qw_def q(3) drain_round_frame(2) [OF assms(1)])
  ultimately show "unat (q_deficit q') + qw (snd (drain_round now s)) q' < 2 ^ 64
      \<and> unat (compute_cost (qe_job e)) + qw (snd (drain_round now s)) q' < 2 ^ 64" using b(2) by simp
qed

lemma idle_round_empty:
  assumes "wfq_inv s" and "fst (drain_round now s) = []"
  shows "wfq_is_empty (snd (drain_round now s)) \<longleftrightarrow> wfq_is_empty s"
proof -
  have "hm_wf (queues s)" using assms(1) by (simp add: wfq_inv_def)
  have "q_entries (snd (round_queue (quantum s) q)) = q_entries q" if q: "hm_get (queues s) c = Some q" for c q
  proof -
    have "served_in s c = []"
      using assms hm_get_SomeD [OF q] by (simp add: drain_round_frame(1) [OF assms(1)] wfq_inv_def)
    then show ?thesis using round_queue_entries(1) [of q "quantum s"] by (simp add: served_in_def q)
  qed
  then show ?thesis
    by (simp add: wfq_is_empty_iff [OF \<open>hm_wf (queues s)\<close>] wfq_is_empty_iff [OF drain_round_frame(6) [OF assms(1)]]
        drain_round_frame(7) [OF assms(1)]) metis
qed

lemma loop_returns:
  "wfq_inv s \<Longrightarrow> no_overflow s \<Longrightarrow> hm_get (queues s) c = Some q \<Longrightarrow> q_entries q = e # es \<Longrightarrow>
     0 < qw s q \<or> compute_cost (qe_job e) \<le> q_deficit q \<Longrightarrow> next_loop now s \<noteq> None"
proof (induction "unat (compute_cost (qe_job e)) - unat (q_deficit q)" arbitrary: s q rule: less_induct)
  case less
  obtain jobs s' where d: "drain_round now s = (jobs, s')" by fastforce
  show ?case
  proof (cases jobs)
    case (Cons j rest)
    then show ?thesis by (subst next_loop.simps) (simp add: d)
  next
    case Nil
    then have idle: "fst (drain_round now s) = []" by (simp add: d)
    note busy = busy_not_idle [OF less.prems(1-4) idle]
    then have pos: "0 < qw s q" using less.prems(5) by (auto simp: word_le_nat_alt)
    let ?q = "q\<lparr>q_deficit := q_deficit q + quantum s * ucast (q_weight q)\<rparr>"
    have q': "hm_get (queues s') c = Some ?q" using idle_round(1) [OF less.prems(1) idle less.prems(3,4)] by (simp add: d)
    have "unat (q_deficit q) + qw s q < 2 ^ 64" using less.prems(2-4) by (auto simp: no_overflow_def)
    then have dq: "unat (q_deficit ?q) = unat (q_deficit q) + qw s q" by (simp add: unat_credit qw_def)
    have "next_loop now s' \<noteq> None"
    proof (rule less.hyps)
      show "unat (compute_cost (qe_job e)) - unat (q_deficit ?q) < unat (compute_cost (qe_job e)) - unat (q_deficit q)"
        using pos busy dq by linarith
      show "wfq_inv s'" using wfq_inv_drain [OF less.prems(1), of now] by (simp add: d)
      show "no_overflow s'" using idle_round_overflow [OF less.prems(1,2) idle] by (simp add: d)
      show "hm_get (queues s') c = Some ?q" by (rule q')
      show "q_entries ?q = e # es" using less.prems(4) by simp
      have "quantum s' = quantum s" using drain_round_frame(2) [OF less.prems(1), of now] by (simp add: d)
      then show "0 < qw s' ?q \<or> compute_cost (qe_job e) \<le> q_deficit ?q" using pos by (simp add: qw_def)
    qed
    moreover have "\<not> wfq_is_empty s'"
      using q' less.prems(4) wfq_is_empty_iff [OF drain_round_frame(6) [OF less.prems(1), of now]] by (fastforce simp: d)
    ultimately show ?thesis by (subst next_loop.simps) (simp add: d Nil)
  qed
qed

lemma starved_round:
  assumes "wfq_inv s" and "starved s"
  shows "fst (drain_round now s) = []" and "starved (snd (drain_round now s))"
proof -
  have credit: "quantum s * ucast (q_weight q) = 0" if "qw s q = 0" for q
    using that by (auto simp: qw_def unat_eq_zero)
  have "served_in s c = []" for c
  proof (cases "hm_get (queues s) c")
    case (Some q)
    show ?thesis
    proof (cases "q_entries q")
      case (Cons e es)
      then have "qw s q = 0" "\<not> compute_cost (qe_job e) \<le> q_deficit q"
        using assms(2) Some by (auto simp: starved_def not_le)
      then show ?thesis using Cons credit [of q] by (simp add: served_in_def Some round_queue_def)
    qed (simp add: served_in_def Some round_queue_def)
  qed (simp add: served_in_def)
  then show idle: "fst (drain_round now s) = []" by (simp add: drain_round_frame(1) [OF assms(1)])
  show "starved (snd (drain_round now s))" unfolding starved_def
  proof (intro allI impI, elim conjE)
    fix c q' e es
    assume q': "hm_get (queues (snd (drain_round now s))) c = Some q'" "q_entries q' = e # es"
    obtain q where q: "hm_get (queues s) c = Some q" "q_entries q = e # es"
      "q' = q\<lparr>q_deficit := q_deficit q + quantum s * ucast (q_weight q)\<rparr>"
      by (rule idle_round_back [OF assms(1) idle q'])
    have "qw s q = 0" "q_deficit q < compute_cost (qe_job e)" using assms(2) q by (auto simp: starved_def)
    then show "qw (snd (drain_round now s)) q' = 0 \<and> q_deficit q' < compute_cost (qe_job e)"
      using credit by (simp add: q(3) qw_def drain_round_frame(2) [OF assms(1)])
  qed
qed

lemma starved_hangs:
  assumes "wfq_inv s" and "starved s" and "\<not> wfq_is_empty s"
  shows "next_loop now s = None"
proof (rule ccontr)
  assume "next_loop now s \<noteq> None"
  then obtain r where "next_loop now s = Some r" by blast
  then have "wfq_inv s \<Longrightarrow> starved s \<Longrightarrow> \<not> wfq_is_empty s \<Longrightarrow> False"
  proof (induction rule: next_loop_induct)
    case (first now s j rest s')
    then show ?case using starved_round(1) [OF first(2,3), of now] by simp
  next
    case (empty now s s')
    then show ?case using idle_round_empty [OF empty(3), of now] by simp
  next
    case (again now s s' r)
    then show ?case
      using idle_round_empty [OF again(4), of now] wfq_inv_drain [OF again(4), of now] starved_round(2) [OF again(4,5), of now]
      by simp
  qed
  then show False using assms by blast
qed

lemma loop_none_empty: "next_loop now s = Some r \<Longrightarrow> wfq_inv s \<Longrightarrow> fst r = None \<Longrightarrow> wfq_is_empty s"
proof (induction rule: next_loop_induct)
  case (empty now s s')
  then show ?case using idle_round_empty [OF empty(3), of now] by simp
next
  case (again now s s' r)
  then show ?case using idle_round_empty [OF again(4), of now] wfq_inv_drain [OF again(4), of now] by simp
qed simp

lemma empty_loop: "wfq_inv s \<Longrightarrow> wfq_is_empty s \<Longrightarrow> \<exists>s'. next_loop now s = Some (None, s')"
proof -
  assume inv: "wfq_inv s" and e: "wfq_is_empty s"
  have hm: "hm_wf (queues s)" using inv by (simp add: wfq_inv_def)
  have "served_in s c = []" for c
    using e by (auto simp: served_in_def wfq_is_empty_iff [OF hm] round_queue_def split: option.split)
  then have idle: "fst (drain_round now s) = []" by (simp add: drain_round_frame(1) [OF inv])
  obtain s' where d: "drain_round now s = ([], s')" using idle by (cases "drain_round now s") simp
  have "wfq_is_empty s'" using idle_round_empty [OF inv idle] e by (simp add: d)
  then show ?thesis by (subst next_loop.simps) (simp add: d)
qed

section \<open>Properties\<close>

text \<open>
  C19. A round serves, of every class, exactly the longest prefix of its queue that its deficit
  plus quantum times weight pays for, in order; what is not spent is carried over, always
  less than the cost of the next job, and a class that is emptied loses it.
\<close>

theorem round_serves_by_weight:
  assumes "distinct (map wc_name (wfq_classes cfg))" and "s = fold wfq_step ops (wfq_new cfg)"
    and "hm_get (queues s) c = Some q"
    and "unat (q_deficit q) + unat (quantum s) * unat (q_weight q) < 2 ^ 64"
  shows "\<exists>served q'. hm_get (queues (snd (drain_round now s))) c = Some q'
    \<and> filter (\<lambda>j. class_for_job j = c) (fst (drain_round now s)) = map qe_job served
    \<and> q_entries q = served @ q_entries q' \<and> q_weight q' = q_weight q
    \<and> cost_of served \<le> unat (q_deficit q) + unat (quantum s) * unat (q_weight q)
    \<and> (case q_entries q' of
         [] \<Rightarrow> q_deficit q' = 0
       | e # _ \<Rightarrow> unat (q_deficit q') = unat (q_deficit q) + unat (quantum s) * unat (q_weight q) - cost_of served
           \<and> q_deficit q' < compute_cost (qe_job e))"
proof -
  have inv: "wfq_inv s" unfolding assms(2) by (rule wfq.run_inv [OF wfq_inv_new [OF assms(1)]])
  obtain d sv rest where sv: "serve (q_deficit q + quantum s * ucast (q_weight q)) (q_entries q) = (d, sv, rest)"
    by (metis prod_cases3)
  let ?q' = "snd (round_queue (quantum s) q)"
  have q': "hm_get (queues (snd (drain_round now s))) c = Some ?q'"
    by (simp add: drain_round_frame(7) [OF inv] assms(3))
  show ?thesis
  proof (cases "q_entries q = []")
    case True
    then show ?thesis using q' filter_served [OF inv assms(3), of now]
      by (intro exI [of _ "[]"] exI [of _ ?q']) (simp add: round_queue_def)
  next
    case False
    then have r: "round_queue (quantum s) q = (sv, q\<lparr>q_deficit := (if rest = [] then 0 else d), q_entries := rest\<rparr>)"
      unfolding round_queue_def by (simp only: sv if_False prod.case)
    have D: "unat (q_deficit q) + unat (quantum s) * unat (q_weight q) = unat d + cost_of sv"
      using serve_prefix [OF sv] unat_credit [OF assms(4)] by simp
    show ?thesis
      using q' filter_served [OF inv assms(3), of now] serve_prefix [OF sv] unfolding r D
      by (intro exI [of _ sv] exI [of _ "snd (sv, q\<lparr>q_deficit := (if rest = [] then 0 else d), q_entries := rest\<rparr>)"])
        (auto simp: word_less_nat_alt split: list.splits)
  qed
qed

text \<open>
  C18. In a scheduler reached from a configuration with distinct class names, as long as no
  deficit overflows, \<open>next_job\<close> fails to return exactly when jobs wait and every waiting
  class, without exception, has a zero quantum or weight and a deficit below the cost of its first
  job; one waiting class that can be served is enough for it to return. When it returns, it has no
  job exactly for an empty scheduler.
\<close>

theorem next_job_returns_iff:
  assumes "distinct (map wc_name (wfq_classes cfg))" and "s = fold wfq_step ops (wfq_new cfg)" and "no_overflow s"
  shows "(next_job now s = None \<longleftrightarrow> \<not> wfq_is_empty s \<and> starved s)
    \<and> ((\<exists>s'. next_job now s = Some (None, s')) \<longleftrightarrow> wfq_is_empty s)"
proof -
  have inv: "wfq_inv s" unfolding assms(2) by (rule wfq.run_inv [OF wfq_inv_new [OF assms(1)]])
  have hm: "hm_wf (queues s)" using inv by (simp add: wfq_inv_def)
  show ?thesis
  proof (cases "wfq_is_empty s")
    case True
    then show ?thesis using empty_loop [OF inv True, of now] by (auto simp: next_job_def)
  next
    case False
    then have n: "next_job now s = next_loop now s" by (simp add: next_job_def)
    have "next_loop now s \<noteq> None" if ns: "\<not> starved s"
    proof -
      obtain c q e es where q: "hm_get (queues s) c = Some q" "q_entries q = e # es"
        "qw s q \<noteq> 0 \<or> \<not> q_deficit q < compute_cost (qe_job e)" using ns by (auto simp: starved_def)
      show ?thesis by (rule loop_returns [OF inv assms(3) q(1,2)]) (use q(3) in auto)
    qed
    moreover have "next_loop now s = None" if "starved s" using starved_hangs [OF inv that False] .
    moreover have "next_loop now s \<noteq> Some (None, s')" for s'
      using loop_none_empty [OF _ inv, of now "(None, s')"] False by auto
    ultimately have "next_loop now s = None \<longleftrightarrow> starved s" "\<nexists>s'. next_loop now s = Some (None, s')" by blast+
    then show ?thesis using False by (simp add: n)
  qed
qed


text \<open>One waiting job of the default configuration.\<close>

definition one_job :: WfqScheduler where
  "one_job = fold wfq_step [Enqueue 0 (Job_default\<lparr>compute_cost := 2500\<rparr>)] (wfq_new WfqConfig_default)"

lemma one_job_queues:
  "hm_get (queues one_job) c =
    (if c = ''hash_mix'' then Some \<lparr>q_weight = 3, q_deficit = 0,
        q_entries = [\<lparr>qe_job = Job_default\<lparr>compute_cost := 2500\<rparr>, qe_enqueued_at = 0\<rparr>]\<rparr>
     else if c = ''prime_count'' then Some (wfq_queue_new 2)
     else if c = ''monte_carlo_risk'' then Some (wfq_queue_new 1) else None)"
  "quantum one_job = 1000"
  by (simp_all add: one_job_def wfq_new_def WfqConfig_default_def wfq_enqueue_def Let_def class_for_job.simps
      Job_default_def hm_get_insert set_queue_def wfq_queue_new_def)

lemma default_classes_distinct: "distinct (map wc_name (wfq_classes WfqConfig_default))"
  by (simp add: WfqConfig_default_def)

theorem round_serves_by_weight_witness:
  "\<exists>q'. hm_get (queues (snd (drain_round 0 one_job))) ''hash_mix'' = Some q' \<and> q_weight q' = 3"
proof -
  let ?q = "\<lparr>q_weight = 3, q_deficit = 0,
    q_entries = [\<lparr>qe_job = Job_default\<lparr>compute_cost := 2500\<rparr>, qe_enqueued_at = 0\<rparr>]\<rparr> :: WfqQueue"
  have q: "hm_get (queues one_job) ''hash_mix'' = Some ?q" by (simp only: one_job_queues if_True refl)
  have b: "unat (q_deficit ?q) + unat (quantum one_job) * unat (q_weight ?q) < 2 ^ 64"
    by (simp add: one_job_queues(2))
  have w: "q_weight ?q = 3" by simp
  from round_serves_by_weight [OF default_classes_distinct one_job_def q b, of 0]
  show ?thesis unfolding w by blast
qed

lemma one_job_waiting:
  assumes "hm_get (queues one_job) c = Some q" and "q_entries q = e # es"
  shows "q_weight q = 3 \<and> q_deficit q = 0 \<and> compute_cost (qe_job e) = 2500"
proof -
  have "c = ''hash_mix''" using assms unfolding one_job_queues wfq_queue_new_def
    by (simp split: if_split_asm del: list.inject) (metis WfqQueue.select_convs(3) list.distinct(1))+
  then have "Some q = Some \<lparr>q_weight = 3, q_deficit = 0,
      q_entries = [\<lparr>qe_job = Job_default\<lparr>compute_cost := 2500\<rparr>, qe_enqueued_at = 0\<rparr>]\<rparr>"
    using assms(1) by (simp only: one_job_queues if_True refl)
  then show ?thesis using assms(2) by auto
qed

theorem next_job_returns_iff_witness: "next_job 0 one_job \<noteq> None"
proof -
  have ov: "no_overflow one_job" unfolding no_overflow_def
  proof (intro allI impI, elim conjE)
    fix c q e es assume "hm_get (queues one_job) c = Some q" "q_entries q = e # es"
    from one_job_waiting [OF this]
    show "unat (q_deficit q) + qw one_job q < 2 ^ 64 \<and> unat (compute_cost (qe_job e)) + qw one_job q < 2 ^ 64"
      by (simp add: qw_def one_job_queues(2))
  qed
  have q: "hm_get (queues one_job) ''hash_mix'' = Some \<lparr>q_weight = 3, q_deficit = 0,
      q_entries = [\<lparr>qe_job = Job_default\<lparr>compute_cost := 2500\<rparr>, qe_enqueued_at = 0\<rparr>]\<rparr>"
    by (simp only: one_job_queues if_True refl)
  have "\<not> starved one_job" unfolding starved_def using q by (force simp: qw_def one_job_queues(2))
  then show ?thesis using next_job_returns_iff [OF default_classes_distinct one_job_def ov, of 0] by simp
qed

text \<open>
  Putting jobs back corrects both totals where one correction is due: after taking one of
  two jobs, three are counted as enqueued and one as dequeued.
\<close>

lemma put_back_counts_twice:
  assumes "hm_get (queues s) (class_for_job job) = Some q"
  shows "wfq_enqueued (put_back now job s) - wfq_dequeued (put_back now job s) = wfq_enqueued s - wfq_dequeued s + 2"
  by (simp add: put_back_def Let_def assms set_queue_def)

end
