(* ===== verification/Dedup.thy ===== *)
theory Dedup
  imports ResultCache "HOL-Library.Multiset"
begin

text \<open>
  Deduplication of jobs in flight (\<open>src/dedup.rs\<close>). A ticket stands for the oneshot channel of
  a waiting duplicate; completing a job yields the tickets with the result sent on them. The
  \<open>Debug\<close> text of a job, which the key hashes, is a parameter. Instants are nanoseconds.
\<close>

section \<open>Keys\<close>

definition fnv1a_str :: "string \<Rightarrow> u64" where
  "fnv1a_str s = fnv1a_64 (string_bytes s)"

definition dedup_key :: "(Job \<Rightarrow> string) \<Rightarrow> Job \<Rightarrow> u64" where
  "dedup_key debug job =
    (let payload_hash = fnv1a_str (debug job)
     in fnv1a_str (JobKind_to_string (kind job) @ nat_to_string (unat payload_hash)))"

section \<open>State and operations\<close>

type_synonym JobResult = "string + Output list"

record DedupeEntry =
  original_job_id :: u64
  submitted_at :: nat
  waiters :: "nat list"

datatype DedupDecision = New Job | Duplicate u64 nat

record JobDeduplicator =
  in_flight :: "(u64, DedupeEntry) hashmap"
  id_to_key :: "(u64, u64) hashmap"
  dedup_ttl :: nat
  total_submitted :: u64
  deduped_count :: u64
  next_waiter :: nat

definition dedup_new :: "nat \<Rightarrow> JobDeduplicator" where
  "dedup_new max_age = \<lparr>in_flight = [], id_to_key = [], dedup_ttl = max_age, total_submitted = 0, deduped_count = 0,
     next_waiter = 0\<rparr>"

definition drop_entry :: "u64 \<Rightarrow> JobDeduplicator \<Rightarrow> JobDeduplicator" where
  "drop_entry key d =
    (case hm_get (in_flight d) key of
       Some entry \<Rightarrow> d\<lparr>in_flight := hm_remove key (in_flight d),
                       id_to_key := hm_remove (original_job_id entry) (id_to_key d)\<rparr>
     | None \<Rightarrow> d)"

definition expired_entry :: "nat \<Rightarrow> JobDeduplicator \<Rightarrow> u64 \<times> DedupeEntry \<Rightarrow> bool" where
  "expired_entry now d entry = (dedup_ttl d < now - submitted_at (snd entry))"

definition dedup_evict :: "nat \<Rightarrow> JobDeduplicator \<Rightarrow> JobDeduplicator" where
  "dedup_evict now d = fold drop_entry (map fst (filter (expired_entry now d) (in_flight d))) d"

definition dedup_submit :: "(Job \<Rightarrow> string) \<Rightarrow> nat \<Rightarrow> Job \<Rightarrow> JobDeduplicator \<Rightarrow> DedupDecision \<times> JobDeduplicator" where
  "dedup_submit debug now job d =
    (let d = dedup_evict now d;
         d = d\<lparr>total_submitted := total_submitted d + 1\<rparr>;
         key = dedup_key debug job
     in case hm_get (in_flight d) key of
          Some entry \<Rightarrow>
            (Duplicate (original_job_id entry) (next_waiter d),
             d\<lparr>in_flight := hm_insert key (entry\<lparr>waiters := waiters entry @ [next_waiter d]\<rparr>) (in_flight d),
               deduped_count := deduped_count d + 1, next_waiter := next_waiter d + 1\<rparr>)
        | None \<Rightarrow>
            (New job,
             d\<lparr>in_flight := hm_insert key \<lparr>original_job_id = job_id job, submitted_at = now, waiters = []\<rparr> (in_flight d),
               id_to_key := hm_insert (job_id job) key (id_to_key d)\<rparr>))"

text \<open>The deliveries of a completion, next to the count the code returns.\<close>

definition dedup_complete :: "u64 \<Rightarrow> JobResult \<Rightarrow> JobDeduplicator \<Rightarrow> nat \<times> (nat \<times> JobResult) list \<times> JobDeduplicator" where
  "dedup_complete i res d =
    (case hm_get (id_to_key d) i of
       None \<Rightarrow> (0, [], d)
     | Some key \<Rightarrow>
         let d = d\<lparr>id_to_key := hm_remove i (id_to_key d)\<rparr>
         in case hm_get (in_flight d) key of
              None \<Rightarrow> (0, [], d)
            | Some entry \<Rightarrow>
                (length (waiters entry), map (\<lambda>w. (w, res)) (waiters entry),
                 d\<lparr>in_flight := hm_remove key (in_flight d)\<rparr>))"

record DedupStats =
  ds_total_submitted :: u64
  ds_deduped_count :: u64
  ds_active_entries :: nat
  ds_dedup_rate :: f64

definition dedup_stats :: "JobDeduplicator \<Rightarrow> DedupStats" where
  "dedup_stats d =
    \<lparr>ds_total_submitted = total_submitted d, ds_deduped_count = deduped_count d,
     ds_active_entries = length (in_flight d),
     ds_dedup_rate = (if total_submitted d = 0 then FFin 0
       else f64_div (f64_of_u64 (deduped_count d)) (f64_of_u64 (total_submitted d)))\<rparr>"

definition is_in_flight :: "(Job \<Rightarrow> string) \<Rightarrow> Job \<Rightarrow> JobDeduplicator \<Rightarrow> bool" where
  "is_in_flight debug job d = hm_contains (in_flight d) (dedup_key debug job)"

section \<open>Runs\<close>

datatype dedup_op = Submit nat Job | Complete u64 JobResult

text \<open>A run keeps the deliveries made so far.\<close>

definition dedup_step :: "(Job \<Rightarrow> string) \<Rightarrow> dedup_op \<Rightarrow> JobDeduplicator \<times> (nat \<times> JobResult) list \<Rightarrow>
    JobDeduplicator \<times> (nat \<times> JobResult) list" where
  "dedup_step debug x s =
    (case s of (d, delivered) \<Rightarrow>
       (case x of
          Submit now job \<Rightarrow> (snd (dedup_submit debug now job d), delivered)
        | Complete i res \<Rightarrow> (case dedup_complete i res d of (_, out, d) \<Rightarrow> (d, delivered @ out))))"

definition waiting_tickets :: "JobDeduplicator \<Rightarrow> nat multiset" where
  "waiting_tickets d = (\<Sum>(_, e) \<in># mset (in_flight d). mset (waiters e))"

text \<open>
  Every ticket was given out once; it is delivered at most once, never both delivered and
  still waiting; the counter of duplicates counts the tickets.
\<close>

definition dedup_inv :: "JobDeduplicator \<times> (nat \<times> JobResult) list \<Rightarrow> bool" where
  "dedup_inv s \<longleftrightarrow> hm_wf (in_flight (fst s)) \<and> hm_wf (id_to_key (fst s))
     \<and> mset (map fst (snd s)) + waiting_tickets (fst s) \<subseteq># mset [0..<next_waiter (fst s)]
     \<and> deduped_count (fst s) = of_nat (next_waiter (fst s))"

lemma mset_hm_remove:
  "hm_wf m \<Longrightarrow> hm_get m k = Some v \<Longrightarrow> mset m = add_mset (k, v) (mset (hm_remove k m))"
proof (induction m)
  case (Cons a m)
  obtain k' v' where a: "a = (k', v')" by (cases a)
  show ?case
  proof (cases "k' = k")
    case True
    then have "AList.delete k m = m" using Cons.prems(1)
      by (force simp: a hm_wf_def AList.delete_eq filter_id_conv)
    then show ?thesis using Cons.prems True by (simp add: a hm_remove_def hm_get_def)
  next
    case False
    then show ?thesis using Cons by (simp add: a hm_remove_def hm_get_def hm_wf_def)
  qed
qed simp

lemma mset_hm_insert_new: "hm_get m k = None \<Longrightarrow> mset (hm_insert k v m) = add_mset (k, v) (mset m)"
  unfolding hm_get_def hm_insert_def by (induction m) (auto split: if_splits)

lemma hm_remove_insert: "hm_remove k (hm_insert k v m) = hm_remove k m"
  unfolding hm_remove_def hm_insert_def by (induction m) auto

lemma waiting_remove:
  "hm_wf (in_flight d) \<Longrightarrow> hm_get (in_flight d) k = Some e \<Longrightarrow>
     waiting_tickets d = mset (waiters e) + waiting_tickets (d\<lparr>in_flight := hm_remove k (in_flight d)\<rparr>)"
  by (simp add: waiting_tickets_def mset_hm_remove [of "in_flight d" k e])

lemma waiting_insert_new:
  "hm_get (in_flight d) k = None \<Longrightarrow>
     waiting_tickets (d\<lparr>in_flight := hm_insert k e (in_flight d)\<rparr>) = mset (waiters e) + waiting_tickets d"
  by (simp add: waiting_tickets_def mset_hm_insert_new)

lemma waiting_update:
  assumes "hm_wf (in_flight d)" and "hm_get (in_flight d) k = Some e"
  shows "waiting_tickets (d\<lparr>in_flight := hm_insert k (e\<lparr>waiters := waiters e @ ws\<rparr>) (in_flight d)\<rparr>)
    = waiting_tickets d + mset ws"
proof -
  let ?d = "d\<lparr>in_flight := hm_insert k (e\<lparr>waiters := waiters e @ ws\<rparr>) (in_flight d)\<rparr>"
  have "waiting_tickets ?d = mset (waiters e @ ws) + waiting_tickets (d\<lparr>in_flight := hm_remove k (in_flight d)\<rparr>)"
    using waiting_remove [of ?d k] assms by (simp add: hm_get_insert hm_remove_insert)
  then show ?thesis using waiting_remove [OF assms] by simp
qed

lemma waiting_cong: "in_flight d = in_flight d' \<Longrightarrow> waiting_tickets d = waiting_tickets d'"
  by (simp add: waiting_tickets_def)

lemma drop_entry_frame:
  "hm_wf (in_flight d) \<Longrightarrow> hm_wf (id_to_key d) \<Longrightarrow>
     hm_wf (in_flight (drop_entry k d)) \<and> hm_wf (id_to_key (drop_entry k d))
     \<and> waiting_tickets (drop_entry k d) \<subseteq># waiting_tickets d
     \<and> next_waiter (drop_entry k d) = next_waiter d \<and> deduped_count (drop_entry k d) = deduped_count d"
  using waiting_remove [of d k] waiting_cong [of "drop_entry k d" "d\<lparr>in_flight := hm_remove k (in_flight d)\<rparr>"]
  by (auto simp: drop_entry_def split: option.splits)

lemma fold_drop_entry:
  "hm_wf (in_flight d) \<Longrightarrow> hm_wf (id_to_key d) \<Longrightarrow>
     hm_wf (in_flight (fold drop_entry ks d)) \<and> hm_wf (id_to_key (fold drop_entry ks d))
     \<and> waiting_tickets (fold drop_entry ks d) \<subseteq># waiting_tickets d
     \<and> next_waiter (fold drop_entry ks d) = next_waiter d \<and> deduped_count (fold drop_entry ks d) = deduped_count d"
proof (induction ks arbitrary: d)
  case (Cons k ks)
  show ?case using drop_entry_frame [OF Cons.prems, of k] Cons.IH [of "drop_entry k d"]
    by (auto intro: subset_mset.order_trans)
qed simp

lemma dedup_inv_submit:
  assumes "dedup_inv (d, out)"
  shows "dedup_inv (snd (dedup_submit debug now job d), out)"
proof -
  define d1 where "d1 = dedup_evict now d"
  have wf: "hm_wf (in_flight d)" "hm_wf (id_to_key d)" using assms by (simp_all add: dedup_inv_def)
  have e: "hm_wf (in_flight d1)" "hm_wf (id_to_key d1)" "waiting_tickets d1 \<subseteq># waiting_tickets d"
    "next_waiter d1 = next_waiter d" "deduped_count d1 = deduped_count d"
    using fold_drop_entry [OF wf] by (simp_all add: d1_def dedup_evict_def)
  have "mset (map fst out) + waiting_tickets d \<subseteq># mset [0..<next_waiter d1]" "deduped_count d1 = of_nat (next_waiter d1)"
    using assms e by (simp_all add: dedup_inv_def)
  then have b: "mset (map fst out) + waiting_tickets d1 \<subseteq># mset [0..<next_waiter d1]"
    "deduped_count d1 = of_nat (next_waiter d1)"
    using subset_mset.order_trans [OF subset_mset.add_left_mono [OF e(3)]] by auto
  let ?key = "dedup_key debug job"
  show ?thesis
  proof (cases "hm_get (in_flight d1) ?key")
    case None
    let ?e = "\<lparr>original_job_id = job_id job, submitted_at = now, waiters = []\<rparr>"
    let ?d = "snd (dedup_submit debug now job d)"
    have d: "in_flight ?d = hm_insert ?key ?e (in_flight d1)" "id_to_key ?d = hm_insert (job_id job) ?key (id_to_key d1)"
      "next_waiter ?d = next_waiter d1" "deduped_count ?d = deduped_count d1"
      using None by (simp_all add: dedup_submit_def Let_def flip: d1_def)
    have "waiting_tickets ?d = waiting_tickets d1"
      using waiting_insert_new [OF None, of ?e] waiting_cong [of ?d "d1\<lparr>in_flight := hm_insert ?key ?e (in_flight d1)\<rparr>"]
      by (simp add: d)
    then show ?thesis using b e(1,2) by (simp add: dedup_inv_def d)
  next
    case (Some entry)
    let ?e = "entry\<lparr>waiters := waiters entry @ [next_waiter d1]\<rparr>"
    let ?d = "snd (dedup_submit debug now job d)"
    have d: "in_flight ?d = hm_insert ?key ?e (in_flight d1)" "id_to_key ?d = id_to_key d1"
      "next_waiter ?d = next_waiter d1 + 1" "deduped_count ?d = deduped_count d1 + 1"
      using Some by (simp_all add: dedup_submit_def Let_def flip: d1_def)
    have "waiting_tickets ?d = waiting_tickets d1 + {#next_waiter d1#}"
      using waiting_update [OF e(1) Some, of "[next_waiter d1]"]
        waiting_cong [of ?d "d1\<lparr>in_flight := hm_insert ?key ?e (in_flight d1)\<rparr>"] by (simp add: d)
    then show ?thesis using b e(1,2) by (simp add: dedup_inv_def d)
  qed
qed

lemma dedup_inv_complete:
  assumes "dedup_inv (d, out)" and "dedup_complete i res d = (n, sent, d')"
  shows "dedup_inv (d', out @ sent)"
proof (cases "hm_get (id_to_key d) i")
  case None
  then show ?thesis using assms by (simp add: dedup_complete_def)
next
  case (Some key)
  let ?d = "d\<lparr>id_to_key := hm_remove i (id_to_key d)\<rparr>"
  show ?thesis
  proof (cases "hm_get (in_flight d) key")
    case None
    then have "d' = ?d" "sent = []" using assms(2) Some by (simp_all add: dedup_complete_def Let_def)
    then show ?thesis using assms(1) waiting_cong [of ?d d] by (simp add: dedup_inv_def)
  next
    case e: (Some entry)
    have d': "d' = ?d\<lparr>in_flight := hm_remove key (in_flight d)\<rparr>" "sent = map (\<lambda>w. (w, res)) (waiters entry)"
      using assms(2) Some e by (simp_all add: dedup_complete_def Let_def)
    have "waiting_tickets d = mset (waiters entry) + waiting_tickets d'"
      using waiting_remove [OF _ e] assms(1) waiting_cong [of d' "d\<lparr>in_flight := hm_remove key (in_flight d)\<rparr>"]
      by (simp add: dedup_inv_def d')
    moreover have "map fst sent = waiters entry" by (simp add: d' comp_def)
    ultimately show ?thesis using assms(1) by (simp add: dedup_inv_def d' ac_simps)
  qed
qed

interpretation dedup: stateful "dedup_step debug" dedup_inv for debug
proof
  fix s x assume inv: "dedup_inv s"
  obtain d out where s: "s = (d, out)" by (cases s)
  show "dedup_inv (dedup_step debug x s)"
  proof (cases x)
    case (Submit now job)
    then show ?thesis using dedup_inv_submit [of d out] inv by (simp add: s dedup_step_def)
  next
    case (Complete i res)
    obtain n sent d' where c: "dedup_complete i res d = (n, sent, d')" by (metis prod_cases3)
    then show ?thesis using dedup_inv_complete [OF _ c] inv by (simp add: s dedup_step_def Complete)
  qed
qed

lemma dedup_inv_new: "dedup_inv (dedup_new max_age, [])"
  by (simp add: dedup_inv_def dedup_new_def waiting_tickets_def)


section \<open>Originals and keys\<close>

text \<open>
  When the jobs that share an identifier share their key, given by \<open>K\<close>, the secondary map is
  exactly the inverse of the entries' originals.
\<close>

definition linked :: "(u64 \<Rightarrow> u64) \<Rightarrow> JobDeduplicator \<Rightarrow> bool" where
  "linked K d \<longleftrightarrow> (\<forall>i k. hm_get (id_to_key d) i = Some k \<longleftrightarrow>
      (\<exists>e. hm_get (in_flight d) k = Some e \<and> original_job_id e = i))
    \<and> (\<forall>k e. hm_get (in_flight d) k = Some e \<longrightarrow> K (original_job_id e) = k)"

lemma linked_drop: "linked K d \<Longrightarrow> linked K (drop_entry k d)"
proof (cases "hm_get (in_flight d) k")
  case (Some e)
  assume l: "linked K d"
  have d: "in_flight (drop_entry k d) = hm_remove k (in_flight d)"
    "id_to_key (drop_entry k d) = hm_remove (original_job_id e) (id_to_key d)"
    by (simp_all add: drop_entry_def Some)
  have "hm_get (id_to_key d) (original_job_id e) = Some k" using l Some by (auto simp: linked_def)
  then have "i \<noteq> original_job_id e \<longleftrightarrow> k' \<noteq> k" if g: "hm_get (id_to_key d) i = Some k'" for i k'
  proof -
    obtain e' where e': "hm_get (in_flight d) k' = Some e'" "original_job_id e' = i" using l g unfolding linked_def by blast
    have K: "K (original_job_id e') = k'" "K (original_job_id e) = k" using l e'(1) Some unfolding linked_def by blast+
    show ?thesis
    proof (cases "k' = k")
      case True
      then show ?thesis using e' Some by simp
    next
      case False
      then show ?thesis using K e'(2) by metis
    qed
  qed
  then have "hm_get (hm_remove (original_job_id e) (id_to_key d)) i = Some k' \<longleftrightarrow>
      (\<exists>e'. hm_get (hm_remove k (in_flight d)) k' = Some e' \<and> original_job_id e' = i)" for i k'
    using l by (cases "hm_get (id_to_key d) i = Some k'") (auto simp: linked_def hm_get_remove)
  moreover have "K (original_job_id e') = k'" if "hm_get (hm_remove k (in_flight d)) k' = Some e'" for k' e'
    using l that by (auto simp: linked_def hm_get_remove split: if_splits)
  ultimately show ?thesis unfolding linked_def d by blast
qed (simp add: drop_entry_def)

lemma linked_evict: "linked K d \<Longrightarrow> linked K (dedup_evict now d)"
proof -
  have "linked K d \<Longrightarrow> linked K (fold drop_entry ks d)" for ks
    by (induction ks arbitrary: d) (auto intro: linked_drop)
  then show "linked K d \<Longrightarrow> linked K (dedup_evict now d)" by (simp add: dedup_evict_def)
qed

lemma linked_submit:
  assumes l: "linked K d" and K: "dedup_key debug job = K (job_id job)"
  shows "linked K (snd (dedup_submit debug now job d))"
proof -
  define d1 where "d1 = dedup_evict now d"
  have l1: "linked K d1" unfolding d1_def by (rule linked_evict [OF l])
  let ?d = "snd (dedup_submit debug now job d)" and ?key = "dedup_key debug job"
  show ?thesis
  proof (cases "hm_get (in_flight d1) ?key")
    case None
    then have d: "in_flight ?d = hm_insert ?key \<lparr>original_job_id = job_id job, submitted_at = now, waiters = []\<rparr> (in_flight d1)"
      "id_to_key ?d = hm_insert (job_id job) ?key (id_to_key d1)"
      by (simp_all add: dedup_submit_def Let_def flip: d1_def)
    have fresh: "hm_get (id_to_key d1) i \<noteq> Some ?key" for i using l1 None by (auto simp: linked_def)
    have other: "original_job_id e \<noteq> job_id job" if "hm_get (in_flight d1) k = Some e" "k \<noteq> ?key" for k e
    proof -
      have "K (original_job_id e) = k" using l1 that(1) unfolding linked_def by blast
      then show ?thesis using that(2) K by auto
    qed
    have "(if i = job_id job then Some ?key else hm_get (id_to_key d1) i) = Some k \<longleftrightarrow>
        (\<exists>e. (if k = ?key then Some \<lparr>original_job_id = job_id job, submitted_at = now, waiters = []\<rparr>
              else hm_get (in_flight d1) k) = Some e \<and> original_job_id e = i)" for i k
    proof (cases "k = ?key")
      case True
      then show ?thesis using fresh [of i] by simp
    next
      case False
      have "hm_get (id_to_key d1) i = Some k \<longleftrightarrow> (\<exists>e. hm_get (in_flight d1) k = Some e \<and> original_job_id e = i)"
        using l1 by (simp add: linked_def)
      then show ?thesis using False other [of k] by (cases "i = job_id job") auto
    qed
    moreover have "K (original_job_id e) = k"
      if "(if k = ?key then Some \<lparr>original_job_id = job_id job, submitted_at = now, waiters = []\<rparr>
          else hm_get (in_flight d1) k) = Some e" for k e
      using l1 that K by (cases "k = ?key") (auto simp: linked_def)
    ultimately show ?thesis unfolding linked_def d hm_get_insert by blast
  next
    case (Some e)
    then have d: "in_flight ?d = hm_insert ?key (e\<lparr>waiters := waiters e @ [next_waiter d1]\<rparr>) (in_flight d1)"
      "id_to_key ?d = id_to_key d1"
      by (simp_all add: dedup_submit_def Let_def flip: d1_def)
    show ?thesis using l1 Some unfolding linked_def d hm_get_insert by (auto split: if_splits)
  qed
qed

lemma linked_complete:
  assumes "linked K d" and "dedup_complete i res d = (n, sent, d')"
  shows "linked K d'"
proof (cases "hm_get (id_to_key d) i")
  case None
  then show ?thesis using assms by (simp add: dedup_complete_def)
next
  case (Some key)
  then obtain e where e: "hm_get (in_flight d) key = Some e" "original_job_id e = i"
    using assms(1) by (auto simp: linked_def)
  then have "d' = d\<lparr>id_to_key := hm_remove i (id_to_key d), in_flight := hm_remove key (in_flight d)\<rparr>"
    using assms(2) Some by (simp add: dedup_complete_def Let_def)
  then have "d' = drop_entry key d" using e by (simp add: drop_entry_def)
  then show ?thesis using linked_drop [OF assms(1)] by simp
qed

definition keys_by_id :: "(Job \<Rightarrow> string) \<Rightarrow> (u64 \<Rightarrow> u64) \<Rightarrow> dedup_op \<Rightarrow> bool" where
  "keys_by_id debug K x = (case x of Submit _ job \<Rightarrow> dedup_key debug job = K (job_id job) | Complete _ _ \<Rightarrow> True)"

lemma linked_run:
  "list_all (keys_by_id debug K) ops \<Longrightarrow> linked K (fst s) \<Longrightarrow> linked K (fst (fold (dedup_step debug) ops s))"
proof (induction ops arbitrary: s)
  case (Cons x ops)
  obtain d out where s: "s = (d, out)" by (cases s)
  have "linked K (fst (dedup_step debug x s))"
  proof (cases x)
    case (Submit now job)
    then show ?thesis using Cons.prems linked_submit by (simp add: s dedup_step_def keys_by_id_def)
  next
    case (Complete i res)
    obtain n sent d' where c: "dedup_complete i res d = (n, sent, d')" by (metis prod_cases3)
    then show ?thesis using Cons.prems linked_complete [OF _ c] by (simp add: s dedup_step_def Complete)
  qed
  then show ?case using Cons by simp
qed simp

section \<open>Properties\<close>

text \<open>
  Every duplicate is answered at most once: over any run, the tickets delivered and the
  tickets still waiting are distinct tickets that were given out, and the counter of
  duplicates counts exactly the tickets given out (modulo 2^64).
\<close>

theorem duplicates_answered_at_most_once:
  "let (d, delivered) = fold (dedup_step debug) ops (dedup_new max_age, []) in
     mset (map fst delivered) + waiting_tickets d \<subseteq># mset [0..<next_waiter d]
     \<and> distinct (map fst delivered) \<and> deduped_count d = of_nat (next_waiter d)"
proof -
  obtain d out where r: "fold (dedup_step debug) ops (dedup_new max_age, []) = (d, out)" by fastforce
  have inv: "dedup_inv (d, out)" using dedup.run_inv [OF dedup_inv_new [of max_age], of debug ops] by (simp add: r)
  then have "mset (map fst out) + waiting_tickets d \<subseteq># mset [0..<next_waiter d]" by (simp add: dedup_inv_def)
  then have "mset (map fst out) \<subseteq># mset [0..<next_waiter d]" by (rule subset_mset.order_trans [OF mset_subset_eq_add_left])
  then have c: "count (mset (map fst out)) x \<le> count (mset [0..<next_waiter d]) x" for x by (rule mset_subset_eq_count)
  have "count (mset [0..<next_waiter d]) x \<le> 1" for x
    using distinct_upt [of 0 "next_waiter d"] unfolding distinct_count_atmost_1 by simp
  then have "count (mset (map fst out)) x \<le> 1" for x using c [of x] le_trans by blast
  moreover have "x \<in> set (map fst out) \<longleftrightarrow> 0 < count (mset (map fst out)) x" for x by (simp only: count_greater_zero_iff set_mset_mset)
  ultimately have "distinct (map fst out)"
    unfolding distinct_count_atmost_1 by (metis One_nat_def less_Suc0 linorder_not_le nat_less_le)
  then show ?thesis using inv by (simp add: r dedup_inv_def)
qed

text \<open>
  When jobs that share an identifier share their key, a job submitted while an equal one
  is in flight is told the original's identifier, and completing that identifier delivers
  the result on the duplicate's ticket and ends the entry.
\<close>

theorem completion_answers_duplicate:
  assumes "list_all (keys_by_id debug K) (ops @ [Submit now job])"
    and "(d, out) = fold (dedup_step debug) ops (dedup_new max_age, [])"
    and "dedup_submit debug now job d = (Duplicate i w, d1)"
    and "dedup_complete i res d1 = (n, sent, d2)"
  shows "(w, res) \<in> set sent \<and> n = length sent \<and> \<not> is_in_flight debug job d2"
proof -
  have "linked K (dedup_new max_age)" by (simp add: linked_def dedup_new_def)
  then have "linked K d" using linked_run [of debug K ops "(dedup_new max_age, [])"] assms(1,2)
    by (metis fst_conv list_all_append)
  moreover have "dedup_key debug job = K (job_id job)" using assms(1) by (simp add: keys_by_id_def)
  ultimately have l: "linked K d1" using linked_submit [of K d debug job now] assms(3) by simp
  define d0 where "d0 = dedup_evict now d"
  let ?key = "dedup_key debug job"
  obtain e where e: "hm_get (in_flight d0) ?key = Some e" "i = original_job_id e" "w = next_waiter d0"
    "in_flight d1 = hm_insert ?key (e\<lparr>waiters := waiters e @ [next_waiter d0]\<rparr>) (in_flight d0)"
    using assms(3) by (auto simp: dedup_submit_def Let_def simp flip: d0_def split: option.splits)
  let ?e = "e\<lparr>waiters := waiters e @ [next_waiter d0]\<rparr>"
  have g: "hm_get (in_flight d1) ?key = Some ?e" by (simp add: e(4) hm_get_insert)
  then have "hm_get (id_to_key d1) i = Some ?key" using l e(2) by (auto simp: linked_def)
  then show ?thesis using assms(4) g e(3)
    by (auto simp: dedup_complete_def Let_def is_in_flight_def hm_contains_def hm_get_remove)
qed

theorem completion_answers_duplicate_witness:
  "let debug = (\<lambda>_. ''j''); d = fst (fold (dedup_step debug) [Submit 0 Job_default] (dedup_new 5, []));
       d1 = snd (dedup_submit debug 1 Job_default d)
   in (0, Inr []) \<in> set (fst (snd (dedup_complete 0 (Inr []) d1)))"
proof -
  let ?debug = "\<lambda>_ :: Job. ''j''"
  define k where "k = dedup_key ?debug Job_default"
  define r where "r = fold (dedup_step ?debug) [Submit 0 Job_default] (dedup_new 5, [])"
  have r: "fst r = \<lparr>in_flight = [(k, \<lparr>original_job_id = 0, submitted_at = 0, waiters = []\<rparr>)], id_to_key = [(0, k)],
      dedup_ttl = 5, total_submitted = 1, deduped_count = 0, next_waiter = 0\<rparr>"
    by (simp add: r_def dedup_step_def dedup_submit_def Let_def dedup_evict_def dedup_new_def hm_get_def hm_insert_def
        Job_default_def k_def)
  have all: "list_all (keys_by_id ?debug (\<lambda>_. k)) ([Submit 0 Job_default] @ [Submit 1 Job_default])"
    by (simp add: keys_by_id_def k_def)
  have s: "dedup_submit ?debug 1 Job_default (fst r) =
      (Duplicate 0 0, snd (dedup_submit ?debug 1 Job_default (fst r)))"
    unfolding r by (simp add: dedup_submit_def Let_def dedup_evict_def expired_entry_def hm_get_def flip: k_def)
  let ?c = "dedup_complete 0 (Inr []) (snd (dedup_submit ?debug 1 Job_default (fst r)))"
  have "(fst r, snd r) = fold (dedup_step ?debug) [Submit 0 Job_default] (dedup_new 5, [])" by (simp add: r_def)
  from completion_answers_duplicate [OF all this s, of "Inr []" "fst ?c" "fst (snd ?c)" "snd (snd ?c)"]
  have "(0, Inr []) \<in> set (fst (snd ?c))" by simp
  then show ?thesis unfolding Let_def r_def .
qed

text \<open>
  Otherwise a completion can go astray: after two different jobs with one identifier, a
  duplicate of the first is not answered when that identifier completes.
\<close>

lemma reused_id_loses_duplicate:
  assumes "dedup_key debug a \<noteq> dedup_key debug b" and "job_id a = job_id b"
    and "d = fst (fold (dedup_step debug) [Submit 0 a, Submit 0 b, Submit 0 a] (dedup_new max_age, []))"
  shows "fst (dedup_complete (job_id a) res d) = 0 \<and> waiting_tickets d = {#0#}"
  by (simp add: assms dedup_step_def dedup_submit_def Let_def dedup_evict_def dedup_new_def expired_entry_def
      hm_get_def hm_insert_def dedup_complete_def waiting_tickets_def hm_remove_def assms(1) not_sym [OF assms(1)])

end
