(* ===== verification/Rotation.thy ===== *)
theory Rotation
  imports Prelude "HOL-Library.Multiset"
begin

text \<open>
  Selecting in turns, shared by the balancers of the program: a selector with a counter that goes round a list, and
  weights walked cumulatively. Over one turn every element of the list is selected exactly as often as it occurs.
\<close>

section \<open>Selectors with a counter\<close>

fun picks :: "('s \<Rightarrow> 'b option \<times> 's) \<Rightarrow> nat \<Rightarrow> 's \<Rightarrow> 'b option list" where
  "picks pick 0 s = []"
| "picks pick (Suc n) s = (case pick s of (x, s) \<Rightarrow> x # picks pick n s)"

lemma mset_cycle:
  assumes "length xs = n" and "0 < n"
  shows "mset (map (\<lambda>m. xs ! ((t + m) mod n)) [0..<n]) = mset xs"
proof -
  have "map (\<lambda>m. xs ! ((t + m) mod n)) [0..<n] = rotate t xs"
    using assms by (intro nth_equalityI) (auto simp: nth_rotate add.commute)
  moreover have "mset (rotate t xs) = mset xs"
    by (simp add: rotate_drop_take) (metis append_take_drop_id mset_append union_commute)
  ultimately show ?thesis by simp
qed

text \<open>
  A selector whose state has a cycle: while its counter stays below \<open>limit\<close>, a selection returns the element of the
  cycle at the counter and advances the counter.
\<close>

locale rotation =
  fixes pick :: "'s \<Rightarrow> 'b option \<times> 's"
    and counter :: "'s \<Rightarrow> nat"
    and cycle :: "'s \<Rightarrow> 'b list"
    and limit :: "'s \<Rightarrow> nat"
  assumes pick_nth: "cycle s \<noteq> [] \<Longrightarrow> fst (pick s) = Some (cycle s ! (counter s mod length (cycle s)))"
    and cycle_kept: "cycle s \<noteq> [] \<Longrightarrow> cycle (snd (pick s)) = cycle s"
    and limit_kept: "cycle s \<noteq> [] \<Longrightarrow> limit (snd (pick s)) = limit s"
    and counter_next: "cycle s \<noteq> [] \<Longrightarrow> counter s + 1 < limit s \<Longrightarrow> counter (snd (pick s)) = counter s + 1"
begin

lemma picks_map:
  "cycle s \<noteq> [] \<Longrightarrow> counter s + n \<le> limit s \<Longrightarrow>
   picks pick n s = map (\<lambda>m. Some (cycle s ! ((counter s + m) mod length (cycle s)))) [0..<n]"
proof (induction n arbitrary: s)
  case (Suc n)
  obtain x s' where p: "pick s = (x, s')" by force
  have x: "x = Some (cycle s ! (counter s mod length (cycle s)))" using pick_nth [OF Suc.prems(1)] p by simp
  have c: "cycle s' = cycle s" "limit s' = limit s" using cycle_kept limit_kept Suc.prems(1) p by (metis snd_conv)+
  show ?case
  proof (cases n)
    case (Suc k)
    then have k: "counter s' = counter s + 1" using counter_next [OF Suc.prems(1)] Suc.prems(2) p by simp
    have "picks pick n s' = map (\<lambda>m. Some (cycle s ! ((counter s + 1 + m) mod length (cycle s)))) [0..<n]"
      using Suc.IH [of s'] Suc.prems c k by simp
    moreover have "map f [0..<Suc n] = f 0 # map (\<lambda>m. f (1 + m)) [0..<n]" for f :: "nat \<Rightarrow> 'b option"
      by (simp add: upt_conv_Cons map_Suc_upt [symmetric] comp_def del: upt_Suc)
    ultimately show ?thesis by (simp add: p x add.assoc del: upt_Suc)
  qed (simp add: p x)
qed simp

lemma one_turn:
  assumes "cycle s \<noteq> []" "counter s + length (cycle s) \<le> limit s"
  shows "mset (picks pick (length (cycle s)) s) = image_mset Some (mset (cycle s))"
proof -
  have "picks pick (length (cycle s)) s = map Some (map (\<lambda>m. cycle s ! ((counter s + m) mod length (cycle s))) [0..<length (cycle s)])"
    using picks_map [OF assms] by (simp add: comp_def)
  then show ?thesis using mset_cycle [OF refl, of "cycle s" "counter s"] assms(1) by (simp del: map_map)
qed

end

section \<open>Weights\<close>

text \<open>One turn: every element as often as its weight.\<close>

definition weighted_turn :: "('b \<Rightarrow> nat) \<Rightarrow> 'b list \<Rightarrow> 'b list" where
  "weighted_turn w bs = concat (map (\<lambda>b. replicate (w b) b) bs)"

lemma length_weighted_turn: "length (weighted_turn w bs) = sum_list (map w bs)"
  by (simp add: weighted_turn_def length_concat comp_def)

lemma mset_weighted_turn: "mset (weighted_turn w bs) = (\<Sum>b \<in># mset bs. replicate_mset (w b) b)"
  by (induction bs) (simp_all add: weighted_turn_def)

lemma set_weighted_turn: "set (weighted_turn w bs) = {b \<in> set bs. 0 < w b}"
  by (auto simp: weighted_turn_def)

text \<open>The first element at which the running sum of the weights exceeds a number.\<close>

fun cumulative_pick :: "('b \<Rightarrow> 'w::len word) \<Rightarrow> 'w word \<Rightarrow> 'w word \<Rightarrow> 'b list \<Rightarrow> 'b option" where
  "cumulative_pick w n acc [] = None"
| "cumulative_pick w n acc (b # bs) = (let acc = acc + w b in if n < acc then Some b else cumulative_pick w n acc bs)"

lemma cumulative_pick_turn:
  "unat acc + sum_list (map (\<lambda>b. unat (w b)) bs) < 2 ^ LENGTH('w::len) \<Longrightarrow> unat acc \<le> unat n \<Longrightarrow>
   unat n < unat acc + sum_list (map (\<lambda>b. unat (w b)) bs) \<Longrightarrow>
   cumulative_pick w n (acc :: 'w word) bs = Some (weighted_turn (\<lambda>b. unat (w b)) bs ! (unat n - unat acc))"
proof (induction bs arbitrary: acc)
  case (Cons b bs)
  have a: "unat (acc + w b) = unat acc + unat (w b)" using Cons.prems(1) by (subst unat_add_small) simp_all
  show ?case
  proof (cases "n < acc + w b")
    case True
    then have "unat n - unat acc < unat (w b)" using a Cons.prems(2) by (simp add: word_less_nat_alt)
    then show ?thesis using True by (simp add: weighted_turn_def nth_append)
  next
    case False
    then have le: "unat acc + unat (w b) \<le> unat n" using a by (simp add: word_less_nat_alt)
    then have "cumulative_pick w n (acc + w b) bs = Some (weighted_turn (\<lambda>b. unat (w b)) bs ! (unat n - unat (acc + w b)))"
      using Cons.prems a by (intro Cons.IH) simp_all
    moreover have "\<not> unat n - unat acc < unat (w b)" using le by linarith
    ultimately show ?thesis using False a by (simp add: weighted_turn_def nth_append)
  qed
qed simp

lemma unat_sum_weights:
  "sum_list (map (\<lambda>b. unat (w b)) bs) < 2 ^ LENGTH('w::len) \<Longrightarrow>
   unat (sum_list (map w bs) :: 'w word) = sum_list (map (\<lambda>b. unat (w b)) bs)"
  by (induction bs) (simp_all add: unat_add_small)

end
