(* ===== verification/LoadBalancer.thy ===== *)
theory LoadBalancer
  imports ResultCache Rotation
begin

text \<open>
  The load balancer (\<open>src/load_balancer.rs\<close>): its backends, the consistent-hash ring rebuilt
  on every change of membership, and selection by the five strategies. The ring, a sorted
  map, is a list of entries read through its least key.
\<close>

section \<open>State\<close>

datatype LbStrategy = RoundRobin | WeightedRoundRobin | LeastConnections | Random | ConsistentHash

record Backend =
  backend_id :: string
  address :: string
  weight :: u32
  active_connections :: u64
  healthy :: bool
  total_requests :: u64

definition backend_new :: "string \<Rightarrow> string \<Rightarrow> u32 \<Rightarrow> Backend" where
  "backend_new i a w = \<lparr>backend_id = i, address = a, weight = w, active_connections = 0, healthy = True,
     total_requests = 0\<rparr>"

record LoadBalancer =
  backends :: "Backend list"
  ring :: "(u64, nat) hashmap"
  lcg_state :: u64
  strategy :: LbStrategy
  rr_counter :: u64

definition lb_new :: "LbStrategy \<Rightarrow> LoadBalancer" where
  "lb_new s = \<lparr>backends = [], ring = [], lcg_state = 12345678901234567, strategy = s, rr_counter = 0\<rparr>"

definition lcg_next :: "u64 \<Rightarrow> LoadBalancer \<Rightarrow> u64 \<times> LoadBalancer" where
  "lcg_next n lb =
    (let st = lcg_state lb * 6364136223846793005 + 1442695040888963407;
         lb = lb\<lparr>lcg_state := st\<rparr>
     in if n = 0 then (0, lb) else (st mod n, lb))"

section \<open>Membership\<close>

definition vnode_hash :: "string \<Rightarrow> nat \<Rightarrow> u64" where
  "vnode_hash i v = fnv1a_64 (string_bytes (i @ '':'' @ nat_to_string v))"

definition place_vnodes :: "nat \<times> Backend \<Rightarrow> (u64, nat) hashmap \<Rightarrow> (u64, nat) hashmap" where
  "place_vnodes entry r =
    (case entry of (idx, b) \<Rightarrow>
       fold (\<lambda>v. hm_insert (vnode_hash (backend_id b) v) idx) [0..<unat (max (weight b) 1)] r)"

definition rebuild_ring :: "LoadBalancer \<Rightarrow> LoadBalancer" where
  "rebuild_ring lb = lb\<lparr>ring := fold place_vnodes (enumerate 0 (backends lb)) []\<rparr>"

definition add_backend :: "Backend \<Rightarrow> LoadBalancer \<Rightarrow> LoadBalancer" where
  "add_backend b lb = rebuild_ring (lb\<lparr>backends := backends lb @ [b]\<rparr>)"

definition remove_backend :: "string \<Rightarrow> LoadBalancer \<Rightarrow> LoadBalancer" where
  "remove_backend i lb = rebuild_ring (lb\<lparr>backends := filter (\<lambda>b. backend_id b \<noteq> i) (backends lb)\<rparr>)"

text \<open>Updates touch the first backend with the identifier.\<close>

definition mark_healthy :: "string \<Rightarrow> bool \<Rightarrow> LoadBalancer \<Rightarrow> LoadBalancer" where
  "mark_healthy i h lb = lb\<lparr>backends := update_first (\<lambda>b. backend_id b = i) (\<lambda>b. b\<lparr>healthy := h\<rparr>) (backends lb)\<rparr>"

definition acquire_connection :: "string \<Rightarrow> LoadBalancer \<Rightarrow> LoadBalancer" where
  "acquire_connection i lb = lb\<lparr>backends := update_first (\<lambda>b. backend_id b = i)
     (\<lambda>b. b\<lparr>active_connections := active_connections b + 1, total_requests := total_requests b + 1\<rparr>) (backends lb)\<rparr>"

definition release_connection :: "string \<Rightarrow> LoadBalancer \<Rightarrow> LoadBalancer" where
  "release_connection i lb = lb\<lparr>backends := update_first (\<lambda>b. backend_id b = i)
     (\<lambda>b. b\<lparr>active_connections := sat_sub (active_connections b) 1\<rparr>) (backends lb)\<rparr>"

section \<open>Selection\<close>

definition healthy_backends :: "LoadBalancer \<Rightarrow> Backend list" where
  "healthy_backends lb = filter healthy (backends lb)"

fun walk_weights :: "u64 \<Rightarrow> Backend list \<Rightarrow> Backend option" where
  "walk_weights pos [] = None"
| "walk_weights pos (b # bs) =
    (let w = ucast (weight b) in if pos < w then Some b else walk_weights (pos - w) bs)"

definition total_weight :: "Backend list \<Rightarrow> u64" where
  "total_weight bs = sum_list (map (\<lambda>b. ucast (weight b)) bs)"

text \<open>\<open>min_by_key\<close> keeps the first of equal elements.\<close>

fun least_connections :: "Backend list \<Rightarrow> Backend option" where
  "least_connections [] = None"
| "least_connections (b # bs) =
    (case least_connections bs of
       None \<Rightarrow> Some b
     | Some c \<Rightarrow> if active_connections b \<le> active_connections c then Some b else Some c)"

definition ring_successor :: "u64 \<Rightarrow> (u64, nat) hashmap \<Rightarrow> nat option" where
  "ring_successor h r =
    (let above = filter (\<lambda>k. h \<le> k) (hm_keys r)
     in if above \<noteq> [] then hm_get r (Min (set above))
        else if hm_keys r \<noteq> [] then hm_get r (Min (set (hm_keys r))) else None)"

definition lb_select :: "string option \<Rightarrow> LoadBalancer \<Rightarrow> Backend option \<times> LoadBalancer" where
  "lb_select key lb =
    (let hs = healthy_backends lb in
     case strategy lb of
       RoundRobin \<Rightarrow>
         if hs = [] then (None, lb)
         else (Some (hs ! unat (rr_counter lb mod of_nat (length hs))), lb\<lparr>rr_counter := rr_counter lb + 1\<rparr>)
     | WeightedRoundRobin \<Rightarrow>
         if hs = [] then (None, lb)
         else if total_weight hs = 0 then (None, lb)
         else ((case walk_weights (rr_counter lb mod total_weight hs) hs of
                  Some b \<Rightarrow> Some b
                | None \<Rightarrow> Some (hs ! 0)),
               lb\<lparr>rr_counter := rr_counter lb + 1\<rparr>)
     | LeastConnections \<Rightarrow> (least_connections hs, lb)
     | Random \<Rightarrow>
         if hs = [] then (None, lb)
         else (case lcg_next (of_nat (length hs)) lb of (i, lb) \<Rightarrow> (Some (hs ! unat i), lb))
     | ConsistentHash \<Rightarrow>
         (case ring_successor (fnv1a_64 (string_bytes (case key of Some k \<Rightarrow> k | None \<Rightarrow> ''''))) (ring lb) of
            None \<Rightarrow> (None, lb)
          | Some idx \<Rightarrow>
              if healthy (backends lb ! idx) then (Some (backends lb ! idx), lb)
              else (case hs of b # _ \<Rightarrow> (Some b, lb) | [] \<Rightarrow> (None, lb))))"

record BackendStats =
  bs_id :: string
  bs_address :: string
  bs_active_connections :: u64
  bs_total_requests :: u64
  bs_healthy :: bool
  bs_weight :: u32

definition backend_stats :: "Backend \<Rightarrow> BackendStats" where
  "backend_stats b = \<lparr>bs_id = backend_id b, bs_address = address b,
     bs_active_connections = active_connections b, bs_total_requests = total_requests b,
     bs_healthy = healthy b, bs_weight = weight b\<rparr>"

definition lb_stats :: "LoadBalancer \<Rightarrow> BackendStats list" where
  "lb_stats lb = map backend_stats (backends lb)"

definition all_stats_map :: "LoadBalancer \<Rightarrow> (string, BackendStats) hashmap" where
  "all_stats_map lb = fold (\<lambda>s. hm_insert (bs_id s) s) (lb_stats lb) []"

section \<open>The ring\<close>

text \<open>The ring points into the list of backends, and is empty only with it.\<close>

definition lb_inv :: "LoadBalancer \<Rightarrow> bool" where
  "lb_inv lb \<longleftrightarrow> (\<forall>k idx. hm_get (ring lb) k = Some idx \<longrightarrow> idx < length (backends lb))
     \<and> (ring lb = [] \<longleftrightarrow> backends lb = []) \<and> length (backends lb) < 2 ^ 64"

lemma place_vnodes_get:
  "hm_get (place_vnodes (i, b) r) k = Some idx \<Longrightarrow> idx = i \<or> hm_get r k = Some idx"
proof -
  have "hm_get (fold (\<lambda>v. hm_insert (h v) i) vs r) k = Some idx \<Longrightarrow> idx = i \<or> hm_get r k = Some idx" for h vs
    by (induction vs arbitrary: r) (fastforce simp: hm_get_insert split: if_splits)+
  then show "hm_get (place_vnodes (i, b) r) k = Some idx \<Longrightarrow> idx = i \<or> hm_get r k = Some idx"
    by (simp add: place_vnodes_def)
qed

lemma hm_insert_nonempty: "hm_insert k v m \<noteq> []"
  unfolding hm_insert_def by (cases m) auto

lemma place_vnodes_nonempty: "place_vnodes (i, b) r \<noteq> []"
proof -
  have "max (weight b) 1 \<noteq> 0" by (auto simp: max_def)
  then have "0 < unat (max (weight b) 1)" by (simp add: unat_gt_0)
  then have "[0..<unat (max (weight b) 1)] = [0..<unat (max (weight b) 1) - 1] @ [unat (max (weight b) 1) - 1]"
    by (metis One_nat_def Suc_pred upt_Suc_append zero_le)
  then show ?thesis unfolding place_vnodes_def by (simp add: hm_insert_nonempty)
qed

lemma rebuild_get:
  "hm_get (fold place_vnodes (enumerate n bs) r) k = Some idx \<Longrightarrow> idx < n + length bs \<or> hm_get r k = Some idx"
proof (induction bs arbitrary: n r)
  case (Cons b bs)
  have "idx < Suc n + length bs \<or> hm_get (place_vnodes (n, b) r) k = Some idx"
    by (rule Cons.IH) (use Cons.prems in simp)
  then show ?case using place_vnodes_get by fastforce
qed simp

lemma rebuild_nonempty: "bs \<noteq> [] \<or> r \<noteq> [] \<Longrightarrow> fold place_vnodes (enumerate n bs) r \<noteq> []"
  by (induction bs arbitrary: n r) (simp_all add: place_vnodes_nonempty)

lemma lb_inv_rebuild: "length (backends lb) < 2 ^ 64 \<Longrightarrow> lb_inv (rebuild_ring lb)"
  using rebuild_get [of 0 "backends lb" "[]"] rebuild_nonempty [of "backends lb" "[]" 0]
  by (fastforce simp: lb_inv_def rebuild_ring_def)

lemma ring_successor_Some:
  assumes "ring_successor h r = Some idx"
  shows "\<exists>k. hm_get r k = Some idx"
  using assms by (auto simp: ring_successor_def Let_def split: if_splits)

lemma ring_successor_exists:
  assumes "r \<noteq> []"
  shows "ring_successor h r \<noteq> None"
proof -
  have k: "hm_keys r \<noteq> []" using assms by (simp add: hm_keys_def)
  have "Min (set (hm_keys r)) \<in> set (hm_keys r)" using k by (intro Min_in) auto
  moreover have "Min (set (filter (\<lambda>k. h \<le> k) (hm_keys r))) \<in> set (filter (\<lambda>k. h \<le> k) (hm_keys r))"
    if "filter (\<lambda>k. h \<le> k) (hm_keys r) \<noteq> []" using that by (intro Min_in) (simp_all only: finite_set set_empty not_False_eq_True)
  ultimately have "hm_get r (Min (set (hm_keys r))) \<noteq> None"
    "filter (\<lambda>k. h \<le> k) (hm_keys r) \<noteq> [] \<Longrightarrow> hm_get r (Min (set (filter (\<lambda>k. h \<le> k) (hm_keys r)))) \<noteq> None"
    unfolding hm_get_None_iff by (blast, metis filter_is_subset subsetD)
  then show ?thesis using k by (simp add: ring_successor_def Let_def)
qed

section \<open>What is selected\<close>

lemma least_connections_min:
  "case least_connections bs of
     None \<Rightarrow> bs = []
   | Some b \<Rightarrow> b \<in> set bs \<and> (\<forall>c \<in> set bs. active_connections b \<le> active_connections c)"
  by (induction bs) (auto split: option.splits)

lemma walk_weights_mem: "walk_weights pos bs = Some b \<Longrightarrow> b \<in> set bs"
  by (induction bs arbitrary: pos) (auto simp: Let_def split: if_splits)

lemma unat_mod_less: "0 < n \<Longrightarrow> n < 2 ^ 64 \<Longrightarrow> unat (x mod of_nat n :: u64) < n"
  by (simp add: unat_mod unat_of_nat_small)

lemma select_member:
  assumes "lb_inv lb"
  shows "case fst (lb_select key lb) of
      Some b \<Rightarrow> b \<in> set (backends lb) \<and> healthy b
    | None \<Rightarrow> healthy_backends lb = [] \<or> strategy lb = WeightedRoundRobin \<and> total_weight (healthy_backends lb) = 0"
proof -
  let ?hs = "healthy_backends lb"
  have sub: "set ?hs \<subseteq> {b \<in> set (backends lb). healthy b}" by (auto simp: healthy_backends_def)
  have len: "length ?hs < 2 ^ 64"
    using assms le_less_trans [OF length_filter_le] by (auto simp: lb_inv_def healthy_backends_def)
  show ?thesis
  proof (cases "strategy lb")
    case RoundRobin
    have "?hs ! unat (rr_counter lb mod of_nat (length ?hs)) \<in> set ?hs" if "?hs \<noteq> []"
      using that len by (intro nth_mem unat_mod_less) auto
    then show ?thesis using sub by (auto simp: lb_select_def RoundRobin Let_def)
  next
    case WeightedRoundRobin
    then show ?thesis using sub walk_weights_mem [of "rr_counter lb mod total_weight ?hs" ?hs]
      by (force simp: lb_select_def Let_def split: option.split)
  next
    case LeastConnections
    then show ?thesis using sub least_connections_min [of ?hs]
      by (auto simp: lb_select_def Let_def split: option.splits)
  next
    case Random
    have "?hs ! unat (x mod of_nat (length ?hs)) \<in> set ?hs" if "?hs \<noteq> []" for x :: u64
      using that len by (intro nth_mem unat_mod_less) auto
    moreover have "of_nat (length ?hs) \<noteq> (0 :: u64)" if "?hs \<noteq> []"
    proof -
      have "unat (of_nat (length ?hs) :: u64) = length ?hs" using len by (simp add: unat_of_nat_small)
      then show ?thesis using that by (metis length_0_conv unat_0)
    qed
    ultimately show ?thesis using sub by (auto simp: lb_select_def Random Let_def lcg_next_def)
  next
    case ConsistentHash
    let ?h = "fnv1a_64 (string_bytes (case key of Some k \<Rightarrow> k | None \<Rightarrow> ''''))"
    show ?thesis
    proof (cases "ring_successor ?h (ring lb)")
      case None
      then have "ring lb = []" using ring_successor_exists by blast
      then have "?hs = []" using assms by (simp add: lb_inv_def healthy_backends_def)
      then show ?thesis using None by (simp add: lb_select_def ConsistentHash Let_def)
    next
      case (Some idx)
      then have "idx < length (backends lb)" using ring_successor_Some assms unfolding lb_inv_def by blast
      then show ?thesis using Some sub
        by (auto simp: lb_select_def ConsistentHash Let_def split: list.splits)
    qed
  qed
qed


section \<open>Weighted turns\<close>

fun selections :: "nat \<Rightarrow> LoadBalancer \<Rightarrow> Backend list" where
  "selections 0 lb = []"
| "selections (Suc n) lb =
    (case lb_select None lb of (Some b, lb) \<Rightarrow> b # selections n lb | (None, lb) \<Rightarrow> selections n lb)"

definition weight_sum :: "Backend list \<Rightarrow> nat" where
  "weight_sum bs = sum_list (map (\<lambda>b. unat (weight b)) bs)"

lemma unat_ucast_weight: "unat (ucast (w :: u32) :: u64) = unat w"
proof -
  have "unat w < 2 ^ 32" using unsigned_less [of w, where ?'a = nat] by simp
  then show ?thesis by (simp add: unsigned_ucast_eq take_bit_nat_eq_self)
qed

lemma unat_total_weight: "weight_sum bs < 2 ^ 64 \<Longrightarrow> unat (total_weight bs) = weight_sum bs"
  by (induction bs)
    (simp_all add: total_weight_def weight_sum_def unat_ucast_weight unat_add_small)

text \<open>One turn: every backend as often as its weight.\<close>

abbreviation turn :: "Backend list \<Rightarrow> Backend list" where
  "turn \<equiv> weighted_turn (\<lambda>b. unat (weight b))"

lemma length_turn: "length (turn bs) = weight_sum bs"
  by (simp add: length_weighted_turn weight_sum_def)

lemma walk_weights_turn: "unat pos < weight_sum bs \<Longrightarrow> walk_weights pos bs = Some (turn bs ! unat pos)"
proof (induction bs arbitrary: pos)
  case (Cons b bs)
  show ?case
  proof (cases "pos < ucast (weight b)")
    case True
    then show ?thesis by (simp add: word_less_nat_alt unat_ucast_weight weighted_turn_def nth_append Let_def)
  next
    case False
    then have le: "unat (weight b) \<le> unat pos" by (simp add: word_less_nat_alt unat_ucast_weight)
    then have u: "unat (pos - ucast (weight b)) = unat pos - unat (weight b)"
      by (simp add: unat_sub word_le_nat_alt unat_ucast_weight)
    have "walk_weights (pos - ucast (weight b)) bs = Some (turn bs ! (unat pos - unat (weight b)))"
      using Cons.IH [of "pos - ucast (weight b)"] Cons.prems le by (simp add: u weight_sum_def)
    then show ?thesis using False le by (simp add: weighted_turn_def nth_append Let_def)
  qed
qed (simp add: weight_sum_def)

section \<open>Runs\<close>

datatype lb_op =
    AddBackend string string u32
  | RemoveBackend string
  | MarkHealthy string bool
  | Acquire string
  | Release string
  | Select "string option"

fun lb_step :: "lb_op \<Rightarrow> LoadBalancer \<Rightarrow> LoadBalancer" where
  "lb_step (AddBackend i a w) lb = add_backend (backend_new i a w) lb"
| "lb_step (RemoveBackend i) lb = remove_backend i lb"
| "lb_step (MarkHealthy i h) lb = mark_healthy i h lb"
| "lb_step (Acquire i) lb = acquire_connection i lb"
| "lb_step (Release i) lb = release_connection i lb"
| "lb_step (Select key) lb = snd (lb_select key lb)"

lemma select_frame:
  "backends (snd (lb_select key lb)) = backends lb \<and> ring (snd (lb_select key lb)) = ring lb
    \<and> strategy (snd (lb_select key lb)) = strategy lb"
  by (simp add: lb_select_def Let_def lcg_next_def split: LbStrategy.split option.split list.split)

lemma ring_tracks_backends:
  "length ops < 2 ^ 64 \<Longrightarrow> lb_inv (fold lb_step ops (lb_new s)) \<and> length (backends (fold lb_step ops (lb_new s))) \<le> length ops"
proof (induction ops rule: rev_induct)
  case Nil
  then show ?case by (simp add: lb_inv_def lb_new_def)
next
  case (snoc x ops)
  let ?lb = "fold lb_step ops (lb_new s)"
  have IH: "lb_inv ?lb" "length (backends ?lb) \<le> length ops" using snoc by simp_all
  have small: "length (backends (lb_step x ?lb)) \<le> Suc (length ops)"
  proof (cases x)
    case (RemoveBackend i)
    then show ?thesis using le_SucI [OF le_trans [OF length_filter_le [of "\<lambda>b. backend_id b \<noteq> i"] IH(2)]]
      by (simp add: remove_backend_def rebuild_ring_def)
  qed (use IH(2) select_frame in \<open>simp_all add: add_backend_def rebuild_ring_def mark_healthy_def
      acquire_connection_def release_connection_def\<close>)
  have "lb_inv (lb_step x ?lb)"
  proof (cases x)
    case (AddBackend i a w)
    then show ?thesis using snoc.prems IH(2) by (auto simp: add_backend_def intro!: lb_inv_rebuild)
  next
    case (RemoveBackend i)
    then show ?thesis
      using snoc.prems le_less_trans [OF le_trans [OF length_filter_le [of "\<lambda>b. backend_id b \<noteq> i"] IH(2)], of "2 ^ 64"]
      by (auto simp: remove_backend_def intro!: lb_inv_rebuild)
  next
    case (Select key)
    then show ?thesis using IH(1) select_frame [of key ?lb] by (simp add: lb_inv_def)
  qed (use IH(1) in \<open>simp_all add: lb_inv_def mark_healthy_def acquire_connection_def release_connection_def
      flip: length_0_conv\<close>)
  then show ?case using small by simp
qed

lemma healthy_backends_counter [simp]: "healthy_backends (lb\<lparr>rr_counter := c\<rparr>) = healthy_backends lb"
  by (simp add: healthy_backends_def)

lemma weighted_select:
  assumes "strategy lb = WeightedRoundRobin" and "0 < weight_sum (healthy_backends lb)"
    and "weight_sum (healthy_backends lb) < 2 ^ 64"
  shows "lb_select None (lb\<lparr>rr_counter := c\<rparr>) =
    (Some (turn (healthy_backends lb) ! (unat c mod weight_sum (healthy_backends lb))), lb\<lparr>rr_counter := c + 1\<rparr>)"
proof -
  let ?hs = "healthy_backends lb"
  have t: "unat (total_weight ?hs) = weight_sum ?hs" using assms(3) by (rule unat_total_weight)
  then have "total_weight ?hs \<noteq> 0" using assms(2) by (metis less_numeral_extra(3) unat_0)
  moreover have "?hs \<noteq> []" using assms(2) by (auto simp: weight_sum_def)
  moreover have "walk_weights (c mod total_weight ?hs) ?hs = Some (turn ?hs ! (unat c mod weight_sum ?hs))"
    using walk_weights_turn [of "c mod total_weight ?hs" ?hs] assms(2) by (simp add: unat_mod t)
  ultimately show ?thesis by (simp add: lb_select_def assms(1) Let_def)
qed

lemma robin_select:
  assumes "strategy lb = RoundRobin" and "healthy_backends lb \<noteq> []"
    and "length (healthy_backends lb) < 2 ^ 64"
  shows "lb_select None (lb\<lparr>rr_counter := c\<rparr>) =
    (Some (healthy_backends lb ! (unat c mod length (healthy_backends lb))), lb\<lparr>rr_counter := c + 1\<rparr>)"
  using assms by (simp add: lb_select_def Let_def unat_mod unat_of_nat_small)

text \<open>The list that round robin and weighted round robin go round.\<close>

definition lb_cycle :: "LoadBalancer \<Rightarrow> Backend list" where
  "lb_cycle lb =
    (let hs = healthy_backends lb
     in case strategy lb of
          RoundRobin \<Rightarrow> if length hs < 2 ^ 64 then hs else []
        | WeightedRoundRobin \<Rightarrow> if weight_sum hs < 2 ^ 64 then turn hs else []
        | _ \<Rightarrow> [])"

lemma lb_cycle_select:
  assumes "lb_cycle lb \<noteq> []"
  shows "lb_select None lb = (Some (lb_cycle lb ! (unat (rr_counter lb) mod length (lb_cycle lb))), lb\<lparr>rr_counter := rr_counter lb + 1\<rparr>)"
proof (cases "strategy lb")
  case RoundRobin
  then show ?thesis using assms robin_select [of lb "rr_counter lb"] by (simp add: lb_cycle_def Let_def split: if_splits)
next
  case WeightedRoundRobin
  then have w: "weight_sum (healthy_backends lb) < 2 ^ 64" "turn (healthy_backends lb) \<noteq> []"
    using assms by (simp_all add: lb_cycle_def Let_def split: if_splits)
  then have "0 < weight_sum (healthy_backends lb)" using length_turn [of "healthy_backends lb"] by (metis length_greater_0_conv)
  then show ?thesis using WeightedRoundRobin w weighted_select [of lb "rr_counter lb"] by (simp add: lb_cycle_def Let_def length_turn)
qed (use assms in \<open>simp_all add: lb_cycle_def Let_def\<close>)

lemma lb_cycle_counter [simp]: "lb_cycle (lb\<lparr>rr_counter := c\<rparr>) = lb_cycle lb"
  by (simp add: lb_cycle_def Let_def)

interpretation lb_turns: rotation "lb_select None" "\<lambda>lb. unat (rr_counter lb)" lb_cycle "\<lambda>_. 2 ^ 64"
proof unfold_locales
  fix lb assume "lb_cycle lb \<noteq> []" "unat (rr_counter lb) + 1 < 2 ^ 64"
  then show "unat (rr_counter (snd (lb_select None lb))) = unat (rr_counter lb) + 1"
    by (subst lb_cycle_select) (simp_all add: unat_add_small)
qed (simp_all add: lb_cycle_select)

lemma selections_picks: "picks (lb_select None) n lb = map Some xs \<Longrightarrow> selections n lb = xs"
proof (induction n arbitrary: lb xs)
  case (Suc n)
  then show ?case by (cases xs) (auto split: prod.splits)
qed simp

lemma selections_one_turn:
  assumes "lb_cycle lb \<noteq> []" "unat (rr_counter lb) + length (lb_cycle lb) < 2 ^ 64"
  shows "mset (selections (length (lb_cycle lb)) lb) = mset (lb_cycle lb)"
proof -
  let ?xs = "map (\<lambda>m. lb_cycle lb ! ((unat (rr_counter lb) + m) mod length (lb_cycle lb))) [0..<length (lb_cycle lb)]"
  have "picks (lb_select None) (length (lb_cycle lb)) lb = map Some ?xs"
    using lb_turns.picks_map [OF assms(1), of "length (lb_cycle lb)"] assms(2) by (simp add: comp_def)
  then have "selections (length (lb_cycle lb)) lb = ?xs" by (rule selections_picks)
  then show ?thesis using mset_cycle [OF refl, of "lb_cycle lb"] assms(1) by simp
qed

section \<open>Properties\<close>

text \<open>
  After any sequence of membership changes, health changes, connections and selections, a
  selection by any strategy returns a registered backend that is healthy; it returns nothing
  only when no backend is healthy, or when the healthy ones of the weighted strategy have
  weight zero.
\<close>

theorem selection_is_healthy:
  assumes "length ops < 2 ^ 64"
  shows "let lb = fold lb_step ops (lb_new s) in
    case fst (lb_select key lb) of
      Some b \<Rightarrow> b \<in> set (backends lb) \<and> healthy b
    | None \<Rightarrow> healthy_backends lb = [] \<or> strategy lb = WeightedRoundRobin \<and> total_weight (healthy_backends lb) = 0"
  unfolding Let_def by (rule select_member) (use ring_tracks_backends [OF assms] in blast)

definition demo_ops :: "lb_op list" where
  "demo_ops = [AddBackend ''a'' ''h1'' 2, AddBackend ''b'' ''h2'' 1, MarkHealthy ''a'' False]"

theorem selection_is_healthy_witness:
  "case fst (lb_select (Some ''k'') (fold lb_step demo_ops (lb_new RoundRobin))) of
      Some b \<Rightarrow> b \<in> set (backends (fold lb_step demo_ops (lb_new RoundRobin))) \<and> healthy b
    | None \<Rightarrow> healthy_backends (fold lb_step demo_ops (lb_new RoundRobin)) = []
        \<or> strategy (fold lb_step demo_ops (lb_new RoundRobin)) = WeightedRoundRobin
          \<and> total_weight (healthy_backends (fold lb_step demo_ops (lb_new RoundRobin))) = 0"
proof -
  have "length demo_ops < 2 ^ 64" by (simp add: demo_ops_def)
  from selection_is_healthy [OF this, unfolded Let_def] show ?thesis .
qed

text \<open>
  C33. Weighted round robin serves exactly by weight: over as many selections as the weights of
  the healthy backends sum to, each healthy backend is selected exactly as often as its
  weight, from whatever counter value the turn starts, as long as the counter does not wrap.
\<close>

theorem weighted_turns_exact:
  assumes "strategy lb = WeightedRoundRobin"
    and "0 < weight_sum (healthy_backends lb)"
    and "unat (rr_counter lb) + weight_sum (healthy_backends lb) < 2 ^ 64"
  shows "mset (selections (weight_sum (healthy_backends lb)) lb)
    = (\<Sum>b \<in># mset (healthy_backends lb). replicate_mset (unat (weight b)) b)"
proof -
  have c: "lb_cycle lb = turn (healthy_backends lb)" using assms(1,3) by (simp add: lb_cycle_def Let_def)
  have "turn (healthy_backends lb) \<noteq> []" using assms(2) length_turn [of "healthy_backends lb"] by (metis length_greater_0_conv)
  then show ?thesis using selections_one_turn [of lb] assms(3) by (simp add: c length_turn mset_weighted_turn)
qed

definition demo_weighted :: LoadBalancer where
  "demo_weighted = \<lparr>backends = [backend_new ''a'' ''h1'' 3, backend_new ''b'' ''h2'' 1], ring = [],
     lcg_state = 0, strategy = WeightedRoundRobin, rr_counter = 7\<rparr>"

theorem weighted_turns_exact_witness:
  "mset (selections 4 demo_weighted)
    = {#backend_new ''a'' ''h1'' 3, backend_new ''a'' ''h1'' 3, backend_new ''a'' ''h1'' 3, backend_new ''b'' ''h2'' 1#}"
proof -
  have h: "healthy_backends demo_weighted = [backend_new ''a'' ''h1'' 3, backend_new ''b'' ''h2'' 1]"
    by (simp add: demo_weighted_def healthy_backends_def backend_new_def)
  have w: "weight_sum (healthy_backends demo_weighted) = 4"
    unfolding h by (simp add: weight_sum_def backend_new_def)
  have c: "strategy demo_weighted = WeightedRoundRobin" "rr_counter demo_weighted = 7"
    by (simp_all add: demo_weighted_def)
  have three: "replicate_mset 3 b = {#b, b, b#}" for b :: Backend
    by (simp add: numeral_3_eq_3)
  show ?thesis using weighted_turns_exact [of demo_weighted, unfolded w c] unfolding h
    by (simp add: backend_new_def three)
qed

text \<open>
  Plain round robin selects every healthy backend exactly once in as many selections as there
  are healthy backends, as long as the counter does not wrap.
\<close>

theorem round_robin_turns_exact:
  assumes "strategy lb = RoundRobin" and "healthy_backends lb \<noteq> []"
    and "unat (rr_counter lb) + length (healthy_backends lb) < 2 ^ 64"
  shows "mset (selections (length (healthy_backends lb)) lb) = mset (healthy_backends lb)"
  using selections_one_turn [of lb] assms by (simp add: lb_cycle_def Let_def)

theorem round_robin_turns_exact_witness:
  "mset (selections 2 (demo_weighted\<lparr>strategy := RoundRobin\<rparr>))
    = {#backend_new ''a'' ''h1'' 3, backend_new ''b'' ''h2'' 1#}"
proof -
  have h: "healthy_backends (demo_weighted\<lparr>strategy := RoundRobin\<rparr>)
      = [backend_new ''a'' ''h1'' 3, backend_new ''b'' ''h2'' 1]"
    by (simp add: demo_weighted_def healthy_backends_def backend_new_def)
  have c: "strategy (demo_weighted\<lparr>strategy := RoundRobin\<rparr>) = RoundRobin"
    "rr_counter (demo_weighted\<lparr>strategy := RoundRobin\<rparr>) = 7"
    by (simp_all add: demo_weighted_def)
  have l: "length [backend_new ''a'' ''h1'' 3, backend_new ''b'' ''h2'' 1] = 2" by simp
  show ?thesis using round_robin_turns_exact [of "demo_weighted\<lparr>strategy := RoundRobin\<rparr>", unfolded c h l]
    by simp
qed


end
