(* ===== verification/TokenBucket.thy ===== *)
theory TokenBucket
  imports Floats
begin

text \<open>
  What the token buckets of the program share (the flow controller, the admission gate, the hybrid
  limiter, the traffic shaper): the conversion of an elapsed time to seconds, and the range of a
  level that is refilled up to a capacity and spent.
\<close>

section \<open>Elapsed time\<close>

text \<open>\<open>Duration::as_secs_f64\<close> of a number of nanoseconds.\<close>

definition as_secs_f64 :: "nat \<Rightarrow> f64" where
  "as_secs_f64 d = f64_add (f64_of_nat (d div 10 ^ 9)) (f64_div (f64_of_nat (d mod 10 ^ 9)) (FFin (10 ^ 9)))"

lemma as_secs_nonneg: "fp_le (FFin 0) (as_secs_f64 d)"
  unfolding as_secs_f64_def by (intro f64_add_nonneg f64_div_nonneg f64_of_nat_nonneg) simp

lemma as_secs_0 [simp]: "as_secs_f64 0 = FFin 0"
  by (simp add: as_secs_f64_def f64_of_nat_def)

section \<open>The level of a bucket\<close>

definition in_bucket :: "rat \<Rightarrow> f64 \<Rightarrow> bool" where
  "in_bucket cap t = (case t of FFin q \<Rightarrow> 0 \<le> q \<and> q \<le> cap \<and> rnd64 q = FFin q | _ \<Rightarrow> False)"

lemma in_bucketE: "in_bucket cap t \<Longrightarrow> (\<And>q. t = FFin q \<Longrightarrow> 0 \<le> q \<Longrightarrow> q \<le> cap \<Longrightarrow> rnd64 q = FFin q \<Longrightarrow> P) \<Longrightarrow> P"
  by (auto simp: in_bucket_def split: fp.splits)

lemma in_bucket_full: "0 \<le> cap \<Longrightarrow> rnd64 cap = FFin cap \<Longrightarrow> in_bucket cap (FFin cap)"
  by (simp add: in_bucket_def)

text \<open>The product of an elapsed time and a rate that is not negative: nothing, or not a number.\<close>

lemma refill_amount:
  assumes "fp_le (FFin 0) d" and "\<not> fp_lt rate (FFin 0)"
  shows "f64_mul d rate = FNaN \<or> fp_le (FFin 0) (f64_mul d rate)"
  using assms rnd64_mono [of 0] by (cases d; cases rate) auto

lemma refill_in_bucket:
  assumes "in_bucket cap t" and "rnd64 cap = FFin cap" and "new = FNaN \<or> fp_le (FFin 0) new"
  shows "in_bucket cap (f64_min (f64_add t new) (FFin cap)) \<and> fp_le t (f64_min (f64_add t new) (FFin cap))"
proof -
  obtain q where q: "t = FFin q" "0 \<le> q" "q \<le> cap" "rnd64 q = FFin q" using assms(1) by (rule in_bucketE)
  have a: "f64_add (FFin q) new = FNaN \<or> fp_le (FFin q) (f64_add (FFin q) new) \<and> rep_cell (f64_add (FFin q) new)"
  proof (cases new)
    case (FFin d)
    then have "0 \<le> d" using assms(3) by simp
    then show ?thesis using rnd64_mono [of q "q + d"] q(4) by (simp add: FFin)
  qed (use assms(3) in \<open>auto simp: rep_cell_def\<close>)
  obtain r where "f64_min (f64_add (FFin q) new) (FFin cap) = FFin r" "q \<le> r" "r \<le> cap" "rnd64 r = FFin r"
  proof (cases "f64_add (FFin q) new")
    case (FFin d)
    then show ?thesis using that [of "if cap < d then cap else d"] assms(2) q(3) a
      by (simp add: f64_min_def rep_cell_def split: if_splits)
  qed (use that [of cap] assms(2) q(3) a in \<open>auto simp: f64_min_def\<close>)
  then show ?thesis using q by (simp add: in_bucket_def)
qed

lemma spend_in_bucket:
  assumes "in_bucket cap t" and "fp_le (FFin n) t" and "0 \<le> n"
  shows "in_bucket cap (f64_sub t (FFin n))"
proof -
  obtain q where q: "t = FFin q" "0 \<le> q" "q \<le> cap" "rnd64 q = FFin q" using assms(1) by (rule in_bucketE)
  have "fp_le (FFin 0) (rnd64 (q - n))" "fp_le (rnd64 (q - n)) (FFin q)"
    using rnd64_mono [of 0 "q - n"] rnd64_mono [of "q - n" q] assms(2,3) q(1,4) by simp_all
  then have "in_bucket cap (rnd64 (q - n))" using rnd64_idem [of "q - n"] q(3) by (cases "rnd64 (q - n)") (auto simp: in_bucket_def)
  then show ?thesis by (simp add: q(1) f64_sub_def)
qed

text \<open>A level that is a whole number loses whole tokens exactly.\<close>

lemma spend_whole:
  assumes "n \<le> t" and "t < 2 ^ 53"
  shows "f64_sub (FFin (of_nat t)) (FFin (of_nat n)) = FFin (of_nat (t - n))"
  using rnd64_dyadic [of "t - n" 0] assms by (simp add: f64_sub_def of_nat_diff)

end
