(* ===== verification/FlowControl.thy ===== *)
theory FlowControl
  imports TokenBucket
begin

text \<open>
  The flow controller (\<open>src/flow_control.rs\<close>): a global token bucket with a throttling zone, and
  buckets per kind of job for the kinds that have a limit. Instants are nanoseconds; the code
  reads the clock once per bucket.
\<close>

section \<open>State\<close>

record FlowConfig =
  global_rps :: f64
  burst :: u32
  per_kind_rps :: "(string, f64) hashmap"

definition FlowConfig_default :: FlowConfig where
  "FlowConfig_default = \<lparr>global_rps = FFin 100, burst = 50, per_kind_rps = []\<rparr>"

datatype AdmitResult = Admitted | Throttled u64 | Rejected

record FlowState =
  fc_config :: FlowConfig
  tokens :: f64
  last_refill :: nat
  admitted :: u64
  throttled :: u64
  rejected :: u64
  kind_tokens :: "(string, f64) hashmap"
  kind_last_refill :: "(string, nat) hashmap"

definition burst_f64 :: "FlowConfig \<Rightarrow> f64" where
  "burst_f64 c = f64_of_nat (unat (burst c))"

definition flow_new :: "nat \<Rightarrow> FlowConfig \<Rightarrow> FlowState" where
  "flow_new now c = \<lparr>fc_config = c, tokens = burst_f64 c, last_refill = now, admitted = 0, throttled = 0,
     rejected = 0, kind_tokens = [], kind_last_refill = []\<rparr>"

section \<open>Admission\<close>

definition refill_global :: "nat \<Rightarrow> FlowState \<Rightarrow> FlowState" where
  "refill_global now s =
    (let elapsed = as_secs_f64 (now - last_refill s);
         new_tokens = f64_mul elapsed (global_rps (fc_config s))
     in s\<lparr>tokens := f64_min (f64_add (tokens s) new_tokens) (burst_f64 (fc_config s)), last_refill := now\<rparr>)"

definition refill_kind :: "nat \<Rightarrow> string \<Rightarrow> f64 \<Rightarrow> FlowState \<Rightarrow> FlowState" where
  "refill_kind now k rps s =
    (let last = (case hm_get (kind_last_refill s) k of Some t \<Rightarrow> t | None \<Rightarrow> now);
         elapsed = as_secs_f64 (now - last);
         capacity = f64_mul rps (FFin 2);
         entry = (case hm_get (kind_tokens s) k of Some t \<Rightarrow> t | None \<Rightarrow> capacity)
     in s\<lparr>kind_last_refill := hm_insert k now (kind_last_refill s),
          kind_tokens := hm_insert k (f64_min (f64_add entry (f64_mul elapsed rps)) capacity) (kind_tokens s)\<rparr>)"

text \<open>The limit of a kind, if it has one: whether the request may proceed, one token being spent.\<close>

definition spend_kind :: "nat \<Rightarrow> string \<Rightarrow> FlowState \<Rightarrow> bool \<times> FlowState" where
  "spend_kind now k s =
    (case hm_get (per_kind_rps (fc_config s)) k of
       None \<Rightarrow> (True, s)
     | Some rps \<Rightarrow>
         let s = refill_kind now k rps s;
             t = (case hm_get (kind_tokens s) k of Some t \<Rightarrow> t | None \<Rightarrow> FFin 0)
         in if fp_lt t (FFin 1) then (False, s)
            else (True, s\<lparr>kind_tokens := hm_insert k (f64_sub t (FFin 1)) (kind_tokens s)\<rparr>))"

definition throttle_threshold :: "FlowConfig \<Rightarrow> f64" where
  "throttle_threshold c = f64_mul (burst_f64 c) (rnd64 (20 / 100))"

definition retry_after :: "FlowState \<Rightarrow> u64" where
  "retry_after s =
    (let tokens_needed = f64_sub (FFin 1) (tokens s);
         retry_ms = f64_to_u64 (f64_ceil (f64_mul (f64_div tokens_needed (global_rps (fc_config s))) (FFin 1000)))
     in max retry_ms 1)"

definition admit_global :: "FlowState \<Rightarrow> AdmitResult \<times> FlowState" where
  "admit_global s =
    (if fp_lt (tokens s) (FFin 1) then (Rejected, s\<lparr>rejected := rejected s + 1\<rparr>)
     else if fp_le (tokens s) (throttle_threshold (fc_config s))
          then (Throttled (retry_after s), s\<lparr>throttled := throttled s + 1\<rparr>)
     else (Admitted, s\<lparr>tokens := f64_sub (tokens s) (FFin 1), admitted := admitted s + 1\<rparr>))"

definition try_admit :: "nat \<Rightarrow> nat \<Rightarrow> string \<Rightarrow> FlowState \<Rightarrow> AdmitResult \<times> FlowState" where
  "try_admit now now_kind k s =
    (case spend_kind now_kind k (refill_global now s) of
       (False, s) \<Rightarrow> (Rejected, s\<lparr>rejected := rejected s + 1\<rparr>)
     | (True, s) \<Rightarrow> admit_global s)"

record FlowStats =
  fs_admitted :: u64
  fs_throttled :: u64
  fs_rejected :: u64
  fs_current_tokens :: f64

definition flow_stats :: "FlowState \<Rightarrow> FlowStats" where
  "flow_stats s = \<lparr>fs_admitted = admitted s, fs_throttled = throttled s, fs_rejected = rejected s,
     fs_current_tokens = tokens s\<rparr>"

definition update_flow_config :: "FlowConfig \<Rightarrow> FlowState \<Rightarrow> FlowState" where
  "update_flow_config c s = s\<lparr>fc_config := c\<rparr>"

section \<open>The level of the bucket\<close>

definition bucket_size :: "FlowConfig \<Rightarrow> rat" where
  "bucket_size c = of_nat (unat (burst c))"

lemma burst_exact: "burst_f64 c = FFin (bucket_size c)"
  using unsigned_less [of "burst c", where ?'a = nat] by (simp add: burst_f64_def bucket_size_def f64_of_nat_exact)

definition level_ok :: "FlowState \<Rightarrow> bool" where
  "level_ok s = in_bucket (bucket_size (fc_config s)) (tokens s)"

text \<open>A rate that is not negative; a rate that is not a number only fills the bucket.\<close>

definition rate_ok :: "FlowConfig \<Rightarrow> bool" where
  "rate_ok c = (\<not> fp_lt (global_rps c) (FFin 0))"

lemma burst_rep: "rnd64 (bucket_size c) = FFin (bucket_size c)"
  using burst_exact [of c] by (simp only: burst_f64_def f64_of_nat_def bucket_size_def)

lemma refill_level:
  assumes "level_ok s" and "rate_ok (fc_config s)"
  shows "level_ok (refill_global now s) \<and> fp_le (tokens s) (tokens (refill_global now s))"
  using refill_in_bucket [OF assms(1) [unfolded level_ok_def] burst_rep
      refill_amount [OF as_secs_nonneg assms(2) [unfolded rate_ok_def], of "now - last_refill s"]]
  by (simp add: refill_global_def Let_def level_ok_def burst_exact)

lemma spend_kind_frame:
  "tokens (snd (spend_kind now k s)) = tokens s" "fc_config (snd (spend_kind now k s)) = fc_config s"
  by (simp_all add: spend_kind_def refill_kind_def Let_def split: option.split)

lemma level_spend: "level_ok (snd (spend_kind now k s)) = level_ok s"
  unfolding level_ok_def spend_kind_frame ..

lemma admit_level:
  assumes "level_ok s"
  shows "level_ok (snd (admit_global s))"
proof -
  have "in_bucket (bucket_size (fc_config s)) (f64_sub (tokens s) (FFin 1))" if "\<not> fp_lt (tokens s) (FFin 1)"
    using that assms by (intro spend_in_bucket) (auto simp: level_ok_def elim!: in_bucketE)
  then show ?thesis using assms by (simp add: level_ok_def admit_global_def)
qed

lemma try_admit_config [simp]: "fc_config (snd (try_admit t1 t2 k s)) = fc_config s"
proof -
  have "fc_config (snd (admit_global s')) = fc_config s'" for s' by (simp add: admit_global_def)
  moreover have "fc_config (refill_global t1 s) = fc_config s" by (simp add: refill_global_def Let_def)
  ultimately show ?thesis using spend_kind_frame(2) [of t2 k "refill_global t1 s"]
    by (auto simp: try_admit_def split: prod.split bool.split)
qed

lemma try_admit_level:
  assumes "level_ok s" and "rate_ok (fc_config s)"
  shows "level_ok (snd (try_admit t1 t2 k s))"
proof -
  obtain b s' where sp: "spend_kind t2 k (refill_global t1 s) = (b, s')" by fastforce
  have l: "level_ok s'" using level_spend [of t2 k "refill_global t1 s"] refill_level [OF assms, of t1] by (simp add: sp)
  then have "level_ok (s'\<lparr>rejected := rejected s' + 1\<rparr>)" by (simp add: level_ok_def)
  then show ?thesis using admit_level [OF l] by (cases b) (simp_all add: try_admit_def sp)
qed

section \<open>Runs\<close>

text \<open>A series of requests: the two clock readings and the kind of each.\<close>

fun flow_run :: "(nat \<times> nat \<times> string) list \<Rightarrow> FlowState \<Rightarrow> AdmitResult list \<times> FlowState" where
  "flow_run [] s = ([], s)"
| "flow_run ((t1, t2, k) # calls) s =
    (case try_admit t1 t2 k s of (x, s) \<Rightarrow> case flow_run calls s of (xs, s) \<Rightarrow> (x # xs, s))"

definition flow_step :: "nat \<times> nat \<times> string \<Rightarrow> FlowState \<Rightarrow> FlowState" where
  "flow_step call s = (case call of (t1, t2, k) \<Rightarrow> snd (try_admit t1 t2 k s))"

lemma flow_run_state: "snd (flow_run calls s) = fold flow_step calls s"
proof (induction calls arbitrary: s)
  case (Cons c calls)
  obtain t1 t2 k where c: "c = (t1, t2, k)" by (cases c)
  obtain x s1 xs s2 where "try_admit t1 t2 k s = (x, s1)" "flow_run calls s1 = (xs, s2)" by fastforce
  then show ?case using Cons [of s1] by (simp add: c flow_step_def)
qed simp

lemma level_new: "level_ok (flow_new now c)"
proof -
  have "0 \<le> bucket_size c" unfolding bucket_size_def by (rule of_nat_0_le_iff)
  then show ?thesis by (simp add: level_ok_def flow_new_def burst_exact in_bucket_full burst_rep)
qed

interpretation flow: stateful flow_step "\<lambda>s. rate_ok (fc_config s) \<and> level_ok s"
  by unfold_locales (auto simp: flow_step_def intro: try_admit_level split: prod.split)

text \<open>Requests of kinds without a limit, on a bucket of at least ten tokens.\<close>

lemma threshold_ge_2:
  assumes "10 \<le> unat (burst c)"
  shows "fp_le (FFin 2) (throttle_threshold c)"
proof -
  have "(10 :: rat) \<le> bucket_size c" using of_nat_mono [OF assms, where ?'a = rat] by (simp add: bucket_size_def)
  then have "2 \<le> bucket_size c * (3602879701896397 / 2 ^ 54)" by (simp add: field_simps)
  from rnd64_mono [OF this] show ?thesis
    using rnd64_dyadic [of 2 0] unfolding throttle_threshold_def burst_exact rnd64_fifth by simp
qed

definition flowing :: "FlowState \<Rightarrow> bool" where
  "flowing s \<longleftrightarrow> rate_ok (fc_config s) \<and> level_ok s \<and> 10 \<le> unat (burst (fc_config s)) \<and> per_kind_rps (fc_config s) = []
    \<and> fp_le (FFin 1) (tokens s)"

lemma retry_after_one:
  assumes "rate_ok c" and "fc_config s = c" and "fp_le (FFin 1) (tokens s)" and "level_ok s"
  shows "retry_after s = 1"
proof -
  obtain q where q: "tokens s = FFin q" "1 \<le> q" using assms(3,4) by (auto simp: level_ok_def elim: in_bucketE)
  have "fp_le (rnd64 (1 - q)) (FFin 0)" using rnd64_mono [of "1 - q" 0] q(2) by simp
  then have need: "fp_le (f64_sub (FFin 1) (tokens s)) (FFin 0)" by (simp add: q(1) f64_sub_def)
  obtain n where n: "f64_sub (FFin 1) (tokens s) = FInf True \<or> f64_sub (FFin 1) (tokens s) = FFin n" "n \<le> 0"
    using need by (cases "f64_sub (FFin 1) (tokens s)") auto
  have le: "fp_le x (FFin 0) \<or> x = FNaN \<Longrightarrow> f64_to_u64 x = 0" for x by (cases x) auto
  have div: "f64_div (f64_sub (FFin 1) (tokens s)) (global_rps c) = FNaN
      \<or> fp_le (f64_div (f64_sub (FFin 1) (tokens s)) (global_rps c)) (FFin 0)"
  proof (cases "global_rps c")
    case (FFin r)
    then have "0 \<le> r" using assms(1) by (simp add: rate_ok_def)
    moreover have "fp_le (rnd64 (n / r)) (FFin 0)" using rnd64_mono [of "n / r" 0] n(2) \<open>0 \<le> r\<close> by (simp add: divide_nonpos_nonneg)
    ultimately show ?thesis using n FFin by (cases "r = 0"; cases "n = 0") auto
  qed (use n in auto)
  have "f64_mul x (FFin 1000) = FNaN \<or> fp_le (f64_mul x (FFin 1000)) (FFin 0)" if "x = FNaN \<or> fp_le x (FFin 0)" for x
    using that rnd64_mono [of _ 0] by (cases x) auto
  moreover have "f64_ceil x = FNaN \<or> fp_le (f64_ceil x) (FFin 0)" if "x = FNaN \<or> fp_le x (FFin 0)" for x
    using that by (cases x) (auto simp: f64_ceil_def)
  ultimately have "f64_to_u64 (f64_ceil (f64_mul (f64_div (f64_sub (FFin 1) (tokens s)) (global_rps c)) (FFin 1000))) = 0"
    using le div by blast
  then show ?thesis by (simp add: retry_after_def Let_def assms(2) max_def)
qed

lemma flowing_admit:
  assumes "flowing s"
  shows "flowing (snd (try_admit t1 t2 k s)) \<and> fst (try_admit t1 t2 k s) \<in> {Admitted, Throttled 1}
    \<and> rejected (snd (try_admit t1 t2 k s)) = rejected s"
proof -
  let ?s = "refill_global t1 s"
  have c: "fc_config ?s = fc_config s" "rejected ?s = rejected s" by (simp_all add: refill_global_def Let_def)
  have lv: "level_ok ?s" and up: "fp_le (tokens s) (tokens ?s)"
    using refill_level [of s t1] assms by (auto simp: flowing_def)
  then have one: "fp_le (FFin 1) (tokens ?s)" using assms fp_le_trans unfolding flowing_def by blast
  have free: "spend_kind t2 k ?s = (True, ?s)" using assms by (simp add: spend_kind_def c flowing_def hm_get_def)
  obtain q where q: "tokens ?s = FFin q" "1 \<le> q" using one lv by (auto simp: level_ok_def elim: in_bucketE)
  have retry: "retry_after ?s = 1" using assms by (intro retry_after_one [OF _ c(1) one lv]) (simp add: flowing_def)
  have keep: "fp_le (FFin 1) (rnd64 (q - 1))" if "\<not> fp_le (FFin q) (throttle_threshold (fc_config s))"
  proof -
    have "fp_le (FFin 2) (throttle_threshold (fc_config s))" using assms threshold_ge_2 by (simp add: flowing_def)
    then have "2 \<le> q" using that by (cases "throttle_threshold (fc_config s)") auto
    then show ?thesis using rnd64_mono [of 1 "q - 1"] by simp
  qed
  show ?thesis using admit_level [OF lv] assms lv one retry keep
    unfolding try_admit_def free prod.case bool.case
    by (simp add: admit_global_def q(1) flowing_def c f64_sub_def)
qed

lemma flowing_run:
  "flowing s \<Longrightarrow> flowing (snd (flow_run calls s)) \<and> set (fst (flow_run calls s)) \<subseteq> {Admitted, Throttled 1}
    \<and> rejected (snd (flow_run calls s)) = rejected s"
proof (induction calls s rule: flow_run.induct)
  case (2 t1 t2 k calls s)
  obtain x s' where t: "try_admit t1 t2 k s = (x, s')" by fastforce
  have a: "flowing s'" "x \<in> {Admitted, Throttled 1}" "rejected s' = rejected s" using flowing_admit [OF "2.prems", of t1 t2 k] by (simp_all add: t)
  show ?case using "2.IH" [OF t [symmetric] a(1)] a by (auto simp: t split: prod.split)
qed simp

text \<open>A full bucket of whole tokens, at one instant.\<close>

lemma whole_threshold:
  assumes "t \<le> unat (burst c)"
  shows "fp_le (FFin (of_nat t)) (throttle_threshold c) \<longleftrightarrow> 5 * t \<le> unat (burst c)"
proof -
  let ?B = "unat (burst c)" and ?a = "3602879701896397 / 2 ^ 54 :: rat"
  have B: "?B < 2 ^ 32" using unsigned_less [of "burst c", where ?'a = nat] by simp
  have thr: "throttle_threshold c = rnd64 (of_nat ?B * ?a)"
    unfolding throttle_threshold_def burst_exact rnd64_fifth f64_mul.simps bucket_size_def ..
  show ?thesis
  proof (cases "5 * t \<le> ?B")
    case True
    from of_nat_mono [OF True, where ?'a = rat] have "of_nat t \<le> (of_nat ?B * ?a :: rat)" by (simp add: field_simps)
    from rnd64_mono [OF this] show ?thesis using True rnd64_dyadic [of t 0] assms B by (simp add: thr)
  next
    case False
    have t: "t < 2 ^ 32" "0 < t" using False assms B by auto
    have "?B + 1 \<le> 5 * t" using False by simp
    from of_nat_mono [OF this, where ?'a = rat] have b: "of_nat ?B + 1 \<le> (5 * of_nat t :: rat)" by simp
    have "(of_nat t :: rat) < 2 ^ 32" using t(1) of_nat_less_iff [of t "2 ^ 32", where ?'a = rat] by simp
    then have "of_nat ?B * ?a \<le> of_nat (8 * t - 1) / 2 ^ 3" using b t(2) by (simp add: of_nat_diff field_simps)
    from rnd64_mono [OF this] have "fp_le (throttle_threshold c) (FFin (of_nat (8 * t - 1) / 2 ^ 3))"
      using rnd64_dyadic [of "8 * t - 1" 3] t by (simp add: thr)
    moreover have "(of_nat (8 * t - 1) / 2 ^ 3 :: rat) < of_nat t" using t(2) by (simp add: of_nat_diff field_simps)
    ultimately show ?thesis using False by (cases "throttle_threshold c") auto
  qed
qed

definition still :: "nat \<Rightarrow> FlowConfig \<Rightarrow> nat \<Rightarrow> FlowState \<Rightarrow> bool" where
  "still now c t s \<longleftrightarrow> fc_config s = c \<and> last_refill s = now \<and> tokens s = FFin (of_nat t)"

lemma still_admit:
  assumes "still now c t s" and "t \<le> unat (burst c)" and "1 \<le> t" and "rate_ok c"
    and "fp_is_finite (global_rps c)" and "per_kind_rps c = []"
  shows "if 5 * t \<le> unat (burst c)
    then fst (try_admit now t2 k s) = Throttled 1 \<and> still now c t (snd (try_admit now t2 k s))
    else fst (try_admit now t2 k s) = Admitted \<and> still now c (t - 1) (snd (try_admit now t2 k s))"
proof -
  have s: "fc_config s = c" "last_refill s = now" "tokens s = FFin (of_nat t)" using assms(1) by (simp_all add: still_def)
  have B: "unat (burst c) < 2 ^ 32" using unsigned_less [of "burst c", where ?'a = nat] by simp
  have e: "rnd64 (of_nat n) = FFin (of_nat n)" if "n \<le> t" for n using rnd64_dyadic [of n 0] that assms(2) B by simp
  obtain r where r: "global_rps c = FFin r" using assms(5) by (cases "global_rps c") (auto simp: fp_is_finite_def)
  have "tokens (refill_global now s) = f64_min (FFin (of_nat t)) (FFin (bucket_size c))"
    by (simp add: refill_global_def Let_def s r burst_exact e)
  also have "\<dots> = FFin (of_nat t)"
    using of_nat_mono [OF assms(2), where ?'a = rat] by (simp add: f64_min_def bucket_size_def)
  finally have t: "tokens (refill_global now s) = FFin (of_nat t)" .
  have c: "fc_config (refill_global now s) = c" "last_refill (refill_global now s) = now"
    by (simp_all add: refill_global_def Let_def s)
  have one: "(1 :: rat) \<le> of_nat t" using of_nat_mono [OF assms(3), where ?'a = rat] by simp
  have lv: "level_ok (refill_global now s)"
    using of_nat_mono [OF assms(2), where ?'a = rat] e [of t] by (simp add: level_ok_def t c in_bucket_def bucket_size_def)
  have retry: "retry_after (refill_global now s) = 1"
    by (rule retry_after_one [OF assms(4) c(1) _ lv]) (use assms(3) in \<open>simp add: t\<close>)
  have free: "spend_kind t2 k (refill_global now s) = (True, refill_global now s)"
    by (simp add: spend_kind_def c assms(6) hm_get_def)
  have minus: "f64_sub (FFin (of_nat t)) (FFin 1) = FFin (of_nat (t - 1))"
    using e [of "t - 1"] assms(3) by (simp add: f64_sub_def of_nat_diff)
  show ?thesis unfolding try_admit_def free prod.case bool.case
    using one by (simp add: admit_global_def t c whole_threshold [OF assms(2)] retry minus still_def)
qed

lemma still_run:
  assumes "rate_ok c" and "fp_is_finite (global_rps c)" and "per_kind_rps c = []" and "5 \<le> unat (burst c)"
  shows "still now c t s \<Longrightarrow> unat (burst c) div 5 \<le> t \<Longrightarrow> t \<le> unat (burst c) \<Longrightarrow>
    fst (flow_run (replicate n (now, t2, k)) s)
      = replicate (min n (t - unat (burst c) div 5)) Admitted @ replicate (n - (t - unat (burst c) div 5)) (Throttled 1)"
proof (induction n arbitrary: t s)
  case (Suc n)
  have t: "1 \<le> t" using Suc.prems(2) assms(4) by (cases t) auto
  obtain x s' where a: "try_admit now t2 k s = (x, s')" by fastforce
  have run: "fst (flow_run (replicate (Suc n) (now, t2, k)) s) = x # fst (flow_run (replicate n (now, t2, k)) s')"
    by (simp add: a split: prod.split)
  note ad = still_admit [OF Suc.prems(1,3) t assms(1-3), of t2 k, unfolded a fst_conv snd_conv]
  show ?case
  proof (cases "5 * t \<le> unat (burst c)")
    case True
    then have "t = unat (burst c) div 5" using Suc.prems(2) by linarith
    then show ?thesis using True ad Suc.IH [of t s'] Suc.prems(2,3) unfolding run by simp
  next
    case False
    then have le: "unat (burst c) div 5 \<le> t - 1" by linarith
    then have "t - unat (burst c) div 5 = Suc (t - 1 - unat (burst c) div 5)" using t by linarith
    then show ?thesis using False ad Suc.IH [of "t - 1" s'] Suc.prems(3) t le unfolding run by simp
  qed
qed simp

section \<open>Properties\<close>

text \<open>
  With a refill rate that is not negative, the global bucket never holds less than zero or
  more than its burst, whatever requests arrive at whatever clock readings.
\<close>

theorem bucket_stays_in_range:
  assumes "\<not> fp_lt (global_rps c) (FFin 0)"
  shows "in_bucket (of_nat (unat (burst c))) (tokens (snd (flow_run calls (flow_new now c))))"
proof -
  have "fc_config (fold flow_step calls s) = fc_config s" for s
    by (induction calls arbitrary: s) (auto simp: flow_step_def split: prod.split)
  moreover have "level_ok (fold flow_step calls (flow_new now c))"
    using flow.run_inv [of "flow_new now c" calls] level_new assms by (simp add: rate_ok_def flow_new_def)
  ultimately show ?thesis by (simp add: level_ok_def flow_run_state bucket_size_def flow_new_def)
qed

theorem bucket_stays_in_range_witness:
  "in_bucket 50 (tokens (snd (flow_run [(5, 5, ''a''), (3, 9, ''b'')] (flow_new 0 FlowConfig_default))))"
  using bucket_stays_in_range [of FlowConfig_default "[(5, 5, ''a''), (3, 9, ''b'')]" 0]
  by (simp add: FlowConfig_default_def)

text \<open>
  With a burst of at least ten, the documented third answer does not exist: a request of a
  kind without a limit is never rejected, because admission stops at a fifth of the bucket
  and nothing else takes tokens out; and every throttled request is told to retry after
  1 ms, whatever the rate.
\<close>

theorem global_bucket_never_rejects:
  assumes "\<not> fp_lt (global_rps c) (FFin 0)" and "10 \<le> unat (burst c)" and "per_kind_rps c = []"
  shows "set (fst (flow_run calls (flow_new now c))) \<subseteq> {Admitted, Throttled 1}
    \<and> rejected (snd (flow_run calls (flow_new now c))) = 0"
proof -
  have "(1 :: rat) \<le> of_nat (unat (burst c))" using of_nat_mono [OF assms(2), where ?'a = rat] by simp
  then have "flowing (flow_new now c)"
    using assms level_new [of now c] by (simp add: flowing_def rate_ok_def flow_new_def burst_exact bucket_size_def)
  from flowing_run [OF this, of calls] show ?thesis by (simp add: flow_new_def)
qed

theorem global_bucket_never_rejects_witness:
  "set (fst (flow_run (replicate 99 (0, 0, ''a'')) (flow_new 0 FlowConfig_default))) \<subseteq> {Admitted, Throttled 1}"
  using global_bucket_never_rejects [of FlowConfig_default "replicate 99 (0, 0, ''a'')" 0]
  by (simp add: FlowConfig_default_def)

text \<open>
  At one instant a full bucket admits exactly four fifths of its burst, rounded up, and
  throttles every request after that.
\<close>

theorem burst_admits_four_fifths:
  assumes "\<not> fp_lt (global_rps c) (FFin 0)" and "fp_is_finite (global_rps c)" and "per_kind_rps c = []"
    and "5 \<le> unat (burst c)"
  shows "fst (flow_run (replicate n (now, t2, k)) (flow_new now c))
    = replicate (min n (unat (burst c) - unat (burst c) div 5)) Admitted
      @ replicate (n - (unat (burst c) - unat (burst c) div 5)) (Throttled 1)"
  by (rule still_run [OF _ assms(2-4)])
    (use assms(1) in \<open>simp_all add: rate_ok_def still_def flow_new_def burst_exact bucket_size_def\<close>)

theorem burst_admits_four_fifths_witness:
  "fst (flow_run (replicate 60 (7, 7, ''a'')) (flow_new 7 FlowConfig_default))
    = replicate 40 Admitted @ replicate 20 (Throttled 1)"
proof -
  have b: "unat (burst FlowConfig_default) = 50" by (simp add: FlowConfig_default_def)
  have r: "\<not> fp_lt (global_rps FlowConfig_default) (FFin 0)" "fp_is_finite (global_rps FlowConfig_default)"
    "per_kind_rps FlowConfig_default = []" by (simp_all add: FlowConfig_default_def fp_is_finite_def)
  have "5 \<le> unat (burst FlowConfig_default)" by (simp add: b)
  from burst_admits_four_fifths [OF r this, of 60 7 7 "''a''"] show ?thesis by (simp only: b) simp
qed

end
