(* ===== verification/DependencyGraph.thy ===== *)
theory DependencyGraph
  imports Floats "HOL-Library.Char_ord" "HOL-Library.List_Lexorder" "HOL-Library.Multiset"
begin

text \<open>
  The graph of service dependencies (\<open>src/dependency_graph.rs\<close>): failure propagation along hard
  dependencies, the impact of a service, the longest chain of hard dependencies, and the order
  of recovery. Where the code iterates a hash map it has just built, \<open>rank\<close> stands for the
  iteration order of that map.
\<close>

section \<open>The graph\<close>

datatype ServiceHealth = Healthy | Degraded string | Failed string | Unknown

record ServiceNode =
  sn_id :: string
  sn_name :: string
  sn_health :: ServiceHealth
  sn_criticality :: u8

datatype EdgeType = HardDependency | SoftDependency | Fallback

record DependencyEdge =
  de_from :: string
  de_to :: string
  edge_type :: EdgeType
  de_weight :: f64

record DependencyGraph =
  dg_nodes :: "(string, ServiceNode) hashmap"
  adjacency :: "(string, DependencyEdge list) hashmap"

definition dg_new :: DependencyGraph where
  "dg_new = \<lparr>dg_nodes = [], adjacency = []\<rparr>"

definition add_service :: "ServiceNode \<Rightarrow> DependencyGraph \<Rightarrow> DependencyGraph" where
  "add_service n g = g\<lparr>dg_nodes := hm_insert (sn_id n) n (dg_nodes g)\<rparr>"

text \<open>\<open>entry(k).or_default().push(v)\<close>.\<close>

definition entry_push :: "'k \<Rightarrow> 'v \<Rightarrow> ('k, 'v list) hashmap \<Rightarrow> ('k, 'v list) hashmap" where
  "entry_push k v m = hm_insert k ((case hm_get m k of Some vs \<Rightarrow> vs | None \<Rightarrow> []) @ [v]) m"

definition add_dependency :: "string \<Rightarrow> string \<Rightarrow> EdgeType \<Rightarrow> f64 \<Rightarrow> DependencyGraph \<Rightarrow> DependencyGraph" where
  "add_dependency src tgt ty w g =
     g\<lparr>adjacency := entry_push src \<lparr>de_from = src, de_to = tgt, edge_type = ty, de_weight = w\<rparr> (adjacency g)\<rparr>"

definition mark_failed :: "string \<Rightarrow> string \<Rightarrow> DependencyGraph \<Rightarrow> DependencyGraph" where
  "mark_failed i why g =
    (case hm_get (dg_nodes g) i of
       Some n \<Rightarrow> g\<lparr>dg_nodes := hm_insert i (n\<lparr>sn_health := Failed why\<rparr>) (dg_nodes g)\<rparr>
     | None \<Rightarrow> g)"

section \<open>Searching backwards\<close>

definition is_hard :: "DependencyEdge \<Rightarrow> bool" where
  "is_hard e = (edge_type e = HardDependency)"

definition reverse_edges :: "(DependencyEdge \<Rightarrow> bool) \<Rightarrow> (string, DependencyEdge list) hashmap \<Rightarrow> (string, string list) hashmap" where
  "reverse_edges sel adj =
     fold (\<lambda>(src, es) rmap. fold (\<lambda>e rmap. if sel e then entry_push (de_to e) src rmap else rmap) es rmap) adj []"

definition dependents :: "(string, string list) hashmap \<Rightarrow> string \<Rightarrow> string list" where
  "dependents rmap i = (case hm_get rmap i of Some ds \<Rightarrow> ds | None \<Rightarrow> [])"

definition visit :: "string \<Rightarrow> string set \<times> string list \<times> string list \<Rightarrow> string set \<times> string list \<times> string list" where
  "visit d st =
    (case st of (visited, found, work) \<Rightarrow>
       if d \<in> visited then st else (insert d visited, found @ [d], work @ [d]))"

lemma fold_visit:
  "\<exists>new. fold visit ds (V, found, work) = (V \<union> set ds, found @ new, work @ new) \<and> distinct new \<and> set new = set ds - V"
proof (induction ds arbitrary: V found work)
  case (Cons d ds)
  show ?case
  proof (cases "d \<in> V")
    case True
    obtain new where "fold visit ds (V, found, work) = (V \<union> set ds, found @ new, work @ new)" "distinct new"
        "set new = set ds - V" using Cons by blast
    moreover have "V \<union> set (d # ds) = V \<union> set ds" "set (d # ds) - V = set ds - V" using True by auto
    moreover have "fold visit (d # ds) (V, found, work) = fold visit ds (V, found, work)" using True by (simp add: visit_def)
    ultimately show ?thesis by metis
  next
    case False
    obtain new where new: "fold visit ds (insert d V, found @ [d], work @ [d]) =
        (insert d V \<union> set ds, (found @ [d]) @ new, (work @ [d]) @ new)" "distinct new" "set new = set ds - insert d V"
      using Cons by blast
    have "fold visit (d # ds) (V, found, work) = (V \<union> set (d # ds), found @ (d # new), work @ (d # new))"
      using False new(1) by (simp add: visit_def)
    moreover have "distinct (d # new)" "set (d # new) = set (d # ds) - V" using new(2,3) False by auto
    ultimately show ?thesis by blast
  qed
qed simp

lemma dependents_sub: "set (dependents rmap i) \<subseteq> set (concat (map snd rmap))"
  by (cases "hm_get rmap i") (force simp: dependents_def dest: hm_get_in_set)+

lemma fold_visit_measure:
  assumes "(V', found', work') = fold visit (dependents rmap current) (V, found, rest)"
  shows "card (set (concat (map snd rmap)) - V') < card (set (concat (map snd rmap)) - V) \<or> V' = V \<and> work' = rest"
proof -
  obtain new where n: "fold visit (dependents rmap current) (V, found, rest) = (V \<union> set (dependents rmap current), found @ new, rest @ new)"
    "set new = set (dependents rmap current) - V" using fold_visit by blast
  then have v: "V' = V \<union> set (dependents rmap current)" "work' = rest @ new" using assms by auto
  show ?thesis
  proof (cases "new = []")
    case True
    then show ?thesis using n(2) v by auto
  next
    case False
    then obtain d where "d \<in> set (dependents rmap current)" "d \<notin> V" using n(2) by (metis DiffD1 DiffD2 last_in_set)
    then have "set (concat (map snd rmap)) - V' \<subset> set (concat (map snd rmap)) - V" using dependents_sub v(1) by blast
    then show ?thesis by (intro disjI1 psubset_card_mono) simp
  qed
qed

text \<open>
  The search of both analyses: a stack (\<open>lifo\<close>) for propagation, a queue for the impact. Every
  service is put on the work list once.
\<close>

function explore :: "bool \<Rightarrow> (string, string list) hashmap \<Rightarrow> string set \<Rightarrow> string list \<Rightarrow> string list \<Rightarrow> string set \<times> string list" where
  "explore lifo rmap visited found work =
    (if work = [] then (visited, found)
     else let current = (if lifo then last work else hd work);
              rest = (if lifo then butlast work else tl work)
          in case fold visit (dependents rmap current) (visited, found, rest) of
               (visited, found, work) \<Rightarrow> explore lifo rmap visited found work)"
  by pat_completeness auto

termination
  apply (relation "measures [\<lambda>(lifo, rmap, V, found, work). card (set (concat (map snd rmap)) - V),
      \<lambda>(lifo, rmap, V, found, work). length work]")
   apply simp
  subgoal premises p for lifo rmap V found work current rest V' res found' work'
  proof -
    have len: "length rest < length work" using p(1,3) by (auto split: if_splits)
    have "card (set (concat (map snd rmap)) - V') < card (set (concat (map snd rmap)) - V) \<or> V' = V \<and> work' = rest"
      by (rule fold_visit_measure [of V' found' work' rmap current V found rest]) (use p(4,5) in simp)
    then show ?thesis using len by auto
  qed
  done

declare explore.simps [simp del]

definition initially_failed :: "(string \<Rightarrow> nat) \<Rightarrow> DependencyGraph \<Rightarrow> string list" where
  "initially_failed rank g =
     sort_key rank (map fst (filter (\<lambda>(_, n). case sn_health n of Failed _ \<Rightarrow> True | _ \<Rightarrow> False) (dg_nodes g)))"

definition propagate_failures :: "(string \<Rightarrow> nat) \<Rightarrow> DependencyGraph \<Rightarrow> string list \<times> DependencyGraph" where
  "propagate_failures rank g =
    (let failed = initially_failed rank g
     in if failed = [] then ([], g)
        else let newly = snd (explore True (reverse_edges is_hard (adjacency g)) (set failed) [] failed)
             in (sort newly, fold (\<lambda>i. mark_failed i ''propagated failure'') newly g))"

definition impact_radius :: "string \<Rightarrow> DependencyGraph \<Rightarrow> nat" where
  "impact_radius i g =
     card (fst (explore False (reverse_edges (\<lambda>_. True) (adjacency g)) {i} [] [i])) - 1"

section \<open>Orders\<close>

text \<open>How many selected edges lead to each registered service.\<close>

definition count_edge :: "string \<Rightarrow> (string, nat) hashmap \<Rightarrow> (string, nat) hashmap" where
  "count_edge i m = (case hm_get m i of Some d \<Rightarrow> hm_insert i (d + 1) m | None \<Rightarrow> m)"

definition in_degree_map :: "(DependencyEdge \<Rightarrow> bool) \<Rightarrow> DependencyGraph \<Rightarrow> (string, nat) hashmap" where
  "in_degree_map sel g =
     fold (\<lambda>(src, es) m. fold (\<lambda>e m. if sel e then count_edge (de_to e) m else m) es m) (adjacency g)
       (map (\<lambda>i. (i, 0)) (hm_keys (dg_nodes g)))"

definition roots :: "(string \<Rightarrow> nat) \<Rightarrow> (string, nat) hashmap \<Rightarrow> string list" where
  "roots rank m = filter (\<lambda>i. hm_get m i = Some 0) (sort_key rank (hm_keys m))"

text \<open>
  Kahn's loop. The fuel is the number of services not yet in the order; \<open>None\<close> stands for its
  exhaustion only.
\<close>

definition release :: "string \<Rightarrow> (string, nat) hashmap \<times> string list \<Rightarrow> (string, nat) hashmap \<times> string list" where
  "release i st =
    (case st of (deg, queue) \<Rightarrow> case hm_get deg i of
       Some d \<Rightarrow> (hm_insert i (d - 1) deg, if d - 1 = 0 then queue @ [i] else queue)
     | None \<Rightarrow> (deg, queue))"

fun kahn_loop :: "(string \<Rightarrow> string list) \<Rightarrow> nat \<Rightarrow> (string, nat) hashmap \<Rightarrow> string list \<Rightarrow> string list \<Rightarrow> string list option" where
  "kahn_loop succs f deg [] order = Some order"
| "kahn_loop succs 0 deg (i # queue) order = None"
| "kahn_loop succs (Suc f) deg (i # queue) order =
    (case fold release (succs i) (deg, queue) of (deg, queue) \<Rightarrow> kahn_loop succs f deg queue (order @ [i]))"

definition out_edges :: "string \<Rightarrow> DependencyGraph \<Rightarrow> DependencyEdge list" where
  "out_edges i g = (case hm_get (adjacency g) i of Some es \<Rightarrow> es | None \<Rightarrow> [])"

definition hard_targets :: "DependencyGraph \<Rightarrow> string \<Rightarrow> string list" where
  "hard_targets g i = map de_to (filter is_hard (out_edges i g))"

definition recovery_order :: "DependencyGraph \<Rightarrow> string list" where
  "recovery_order g =
    (let deg = in_degree_map (\<lambda>_. True) g;
         queue = sort (roots (\<lambda>_. 0) deg)
     in case kahn_loop (\<lambda>i. sort (map de_to (out_edges i g))) (length (dg_nodes g)) deg queue [] of
          Some order \<Rightarrow> order @ sort (filter (\<lambda>i. i \<notin> set order) (hm_keys (dg_nodes g)))
        | None \<Rightarrow> [])"

text \<open>The longest chain ending in each service, with the service before it on such a chain.\<close>

type_synonym chain_map = "(string, nat \<times> string option) hashmap"

definition chain_len :: "chain_map \<Rightarrow> string \<Rightarrow> nat" where
  "chain_len dp i = (case hm_get dp i of Some (l, _) \<Rightarrow> l | None \<Rightarrow> 0)"

definition extend_chain :: "string \<Rightarrow> nat \<Rightarrow> string \<Rightarrow> chain_map \<Rightarrow> chain_map" where
  "extend_chain i len tgt dp =
    (case hm_get dp tgt of
       Some (l, _) \<Rightarrow> if l < len + 1 then hm_insert tgt (len + 1, Some i) dp else dp
     | None \<Rightarrow> dp)"

definition extend_from :: "DependencyGraph \<Rightarrow> string \<Rightarrow> chain_map \<Rightarrow> chain_map" where
  "extend_from g i dp = fold (extend_chain i (chain_len dp i)) (hard_targets g i) dp"

text \<open>\<open>max_by_key\<close> keeps the last of equal elements.\<close>

fun last_max :: "('a \<Rightarrow> nat) \<Rightarrow> 'a list \<Rightarrow> 'a option" where
  "last_max f [] = None"
| "last_max f (x # xs) =
    (case last_max f xs of Some y \<Rightarrow> if f x \<le> f y then Some y else Some x | None \<Rightarrow> Some x)"

partial_function (option) follow :: "chain_map \<Rightarrow> string \<Rightarrow> string list \<Rightarrow> string list option" where
  "follow dp current path =
    (case hm_get dp current of
       Some (_, Some pred) \<Rightarrow> follow dp pred (path @ [current])
     | _ \<Rightarrow> Some (path @ [current]))"

definition critical_path :: "(string \<Rightarrow> nat) \<Rightarrow> (string \<Rightarrow> nat) \<Rightarrow> DependencyGraph \<Rightarrow> string list option" where
  "critical_path rank rank' g =
    (let deg = in_degree_map is_hard g
     in case kahn_loop (hard_targets g) (length (dg_nodes g)) deg (roots rank deg) [] of
          None \<Rightarrow> None
        | Some topo \<Rightarrow>
            let dp = fold (extend_from g) topo (map (\<lambda>i. (i, (0, None))) (hm_keys (dg_nodes g)))
            in case last_max (chain_len dp) (sort_key rank' (hm_keys dp)) of
                 None \<Rightarrow> Some []
               | Some i \<Rightarrow> map_option rev (follow dp i []))"

section \<open>What the searches find\<close>

text \<open>The dependencies of the graph that a selection of edges makes: from dependent to dependency.\<close>

definition deps :: "(DependencyEdge \<Rightarrow> bool) \<Rightarrow> (string, DependencyEdge list) hashmap \<Rightarrow> (string \<times> string) set" where
  "deps sel adj = {(x, y). \<exists>es e. (x, es) \<in> set adj \<and> e \<in> set es \<and> sel e \<and> de_to e = y}"

lemma dependents_entry_push:
  "dependents (entry_push k v m) i = (if i = k then dependents m i @ [v] else dependents m i)"
  by (simp add: dependents_def entry_push_def hm_get_insert split: option.split)

lemma dependents_edges:
  "set (dependents (fold (\<lambda>e rmap. if sel e then entry_push (de_to e) src rmap else rmap) es m) i)
    = set (dependents m i) \<union> {src |e. e \<in> set es \<and> sel e \<and> de_to e = i}"
  by (induction es arbitrary: m) (auto simp: dependents_entry_push)

lemma set_dependents: "set (dependents (reverse_edges sel adj) y) = {x. (x, y) \<in> deps sel adj}"
proof -
  have "set (dependents (fold (\<lambda>(src, es) rmap. fold (\<lambda>e rmap. if sel e then entry_push (de_to e) src rmap else rmap) es rmap) adj m) y)
      = set (dependents m y) \<union> {x. (x, y) \<in> deps sel adj}" for m
  proof (induction adj arbitrary: m)
    case (Cons a adj)
    obtain src es where a: "a = (src, es)" by fastforce
    show ?case unfolding a fold.simps comp_apply prod.case Cons.IH dependents_edges
      by (auto simp: deps_def)
  qed (simp add: deps_def)
  then show ?thesis by (simp add: reverse_edges_def dependents_def)
qed

lemma explore_spec:
  assumes "set work \<subseteq> V" and "\<And>y. y \<in> V - set work \<Longrightarrow> set (dependents rmap y) \<subseteq> V" and "distinct work"
  shows "\<exists>new. explore lifo rmap V found work = (V \<union> set new, found @ new) \<and> distinct new \<and> set new \<inter> V = {}
    \<and> (\<forall>y \<in> V \<union> set new. set (dependents rmap y) \<subseteq> V \<union> set new)
    \<and> (\<forall>x \<in> set new. \<exists>w \<in> set work. (x, w) \<in> {(x, y). x \<in> set (dependents rmap y)}\<^sup>+)"
  using assms
proof (induction lifo rmap V found work rule: explore.induct)
  case (1 lifo rmap V found work)
  let ?D = "{(x, y). x \<in> set (dependents rmap y)}"
  show ?case
  proof (cases "work = []")
    case True
    then show ?thesis using "1.prems" by (intro exI [of _ "[]"]) (simp add: explore.simps)
  next
    case False
    define cur where "cur = (if lifo then last work else hd work)"
    define rest where "rest = (if lifo then butlast work else tl work)"
    have split: "set work = insert cur (set rest)" "cur \<notin> set rest" "distinct rest"
    proof -
      have "work = rest @ [cur]" if lifo using that False by (simp add: cur_def rest_def)
      moreover have "work = cur # rest" if "\<not> lifo" using that False by (simp add: cur_def rest_def)
      ultimately show "set work = insert cur (set rest)" "cur \<notin> set rest" "distinct rest"
        using "1.prems"(3) by (cases lifo; auto)+
    qed
    obtain new where n: "fold visit (dependents rmap cur) (V, found, rest)
        = (V \<union> set (dependents rmap cur), found @ new, rest @ new)" "distinct new" "set new = set (dependents rmap cur) - V"
      using fold_visit by blast
    let ?V = "V \<union> set (dependents rmap cur)"
    have V: "?V = V \<union> set new" using n(3) by auto
    have e: "explore lifo rmap V found work = explore lifo rmap ?V (found @ new) (rest @ new)"
      by (subst explore.simps) (use False n(1) in \<open>simp add: Let_def flip: cur_def rest_def\<close>)
    have "set rest \<subseteq> V" using "1.prems"(1) split(1) by auto
    then have p: "set (rest @ new) \<subseteq> ?V" "distinct (rest @ new)" using n split(3) by auto
    have c: "set (dependents rmap y) \<subseteq> ?V" if "y \<in> ?V - set (rest @ new)" for y
      using that "1.prems"(2) [of y] split(1) V by (cases "y = cur") auto
    obtain new' where n': "explore lifo rmap ?V (found @ new) (rest @ new) = (?V \<union> set new', (found @ new) @ new')"
        "distinct new'" "set new' \<inter> ?V = {}" "\<forall>y \<in> ?V \<union> set new'. set (dependents rmap y) \<subseteq> ?V \<union> set new'"
        "\<forall>x \<in> set new'. \<exists>w \<in> set (rest @ new). (x, w) \<in> ?D\<^sup>+"
      using "1.IH" [OF False cur_def rest_def n(1) [symmetric] refl p(1) c p(2)] by blast
    have "\<exists>w \<in> set work. (x, w) \<in> ?D\<^sup>+" if x: "x \<in> set (new @ new')" for x
    proof -
      have new: "(x, cur) \<in> ?D\<^sup>+" if "x \<in> set new" for x using that n(3) by (auto intro: r_into_trancl)
      show ?thesis
      proof (cases "x \<in> set new")
        case True
        then show ?thesis using new split(1) by blast
      next
        case False
        then obtain w where w: "w \<in> set (rest @ new)" "(x, w) \<in> ?D\<^sup>+" using n'(5) x by auto
        then show ?thesis using new [of w] split(1) trancl_trans [of x w ?D cur] by auto
      qed
    qed
    moreover have all: "?V \<union> set new' = V \<union> set (new @ new')" unfolding V by (simp add: Un_assoc)
    moreover have "distinct (new @ new')" using n(2) n'(2,3) V by (auto simp: disjoint_iff)
    moreover have "set (new @ new') \<inter> V = {}" using n(3) n'(3) by (auto simp: disjoint_iff)
    moreover have "explore lifo rmap V found work = (V \<union> set (new @ new'), found @ (new @ new'))"
      unfolding e n'(1) all by simp
    ultimately show ?thesis using n'(4) unfolding all by blast
  qed
qed

lemma explore_reach:
  assumes "set work = V" and "distinct work"
  shows "\<exists>new. explore lifo (reverse_edges sel adj) V found work = (V \<union> set new, found @ new) \<and> distinct new
    \<and> set new = {x. \<exists>w \<in> V. (x, w) \<in> (deps sel adj)\<^sup>+} - V"
proof -
  have D: "{(x, y). x \<in> {x. (x, y) \<in> deps sel adj}} = deps sel adj" by auto
  obtain new where n: "explore lifo (reverse_edges sel adj) V found work = (V \<union> set new, found @ new)" "distinct new"
      "set new \<inter> V = {}" "\<forall>y \<in> V \<union> set new. {x. (x, y) \<in> deps sel adj} \<subseteq> V \<union> set new"
      "\<forall>x \<in> set new. \<exists>w \<in> set work. (x, w) \<in> (deps sel adj)\<^sup>+"
    using explore_spec [OF eq_refl [OF assms(1)] _ assms(2), of "reverse_edges sel adj" lifo found]
    unfolding assms(1) set_dependents D by blast
  have "x \<in> V \<union> set new" if "(x, w) \<in> (deps sel adj)\<^sup>+" "w \<in> V" for x w
    using that(1) by (induction rule: converse_trancl_induct) (use n(4) that(2) in blast)+
  then have "set new = {x. \<exists>w \<in> V. (x, w) \<in> (deps sel adj)\<^sup>+} - V" using n(3,5) assms(1) by blast
  then show ?thesis using n(1,2) by blast
qed

section \<open>Building a graph\<close>

datatype dg_op = AddService ServiceNode | AddDependency string string EdgeType f64 | MarkFailed string string
  | Propagate "string \<Rightarrow> nat"

fun dg_step :: "dg_op \<Rightarrow> DependencyGraph \<Rightarrow> DependencyGraph" where
  "dg_step (AddService n) g = add_service n g"
| "dg_step (AddDependency src tgt ty w) g = add_dependency src tgt ty w g"
| "dg_step (MarkFailed i why) g = mark_failed i why g"
| "dg_step (Propagate rank) g = snd (propagate_failures rank g)"

definition dg_wf :: "DependencyGraph \<Rightarrow> bool" where
  "dg_wf g = (hm_wf (dg_nodes g) \<and> hm_wf (adjacency g))"

lemma mark_failed_frame:
  "dg_wf g \<Longrightarrow> dg_wf (mark_failed i why g)" "adjacency (mark_failed i why g) = adjacency g"
  "hm_get (dg_nodes (mark_failed i why g)) j =
     map_option (\<lambda>n. if j = i then n\<lparr>sn_health := Failed why\<rparr> else n) (hm_get (dg_nodes g) j)"
  by (auto simp: mark_failed_def dg_wf_def hm_get_insert option.map_ident split: option.split)
    (cases "hm_get (dg_nodes g) j"; auto)

lemma fold_mark_failed:
  "dg_wf g \<Longrightarrow> dg_wf (fold (\<lambda>i. mark_failed i why) is g)"
  "adjacency (fold (\<lambda>i. mark_failed i why) is g) = adjacency g"
  "hm_get (dg_nodes (fold (\<lambda>i. mark_failed i why) is g)) j =
     map_option (\<lambda>n. if j \<in> set is then n\<lparr>sn_health := Failed why\<rparr> else n) (hm_get (dg_nodes g) j)"
  by (induction "is" arbitrary: g)
    (auto simp: mark_failed_frame option.map_comp comp_def option.map_ident intro: option.map_cong0)

lemma dg_wf_step: "dg_wf g \<Longrightarrow> dg_wf (dg_step x g)"
proof (cases x)
  case (Propagate rank)
  then show "dg_wf g \<Longrightarrow> dg_wf (dg_step x g)" by (simp add: propagate_failures_def Let_def fold_mark_failed(1))
qed (simp_all add: add_service_def add_dependency_def entry_push_def mark_failed_frame, simp_all add: dg_wf_def)

interpretation dependencies: stateful dg_step dg_wf
  by unfold_locales (rule dg_wf_step)

lemma reachable_dg_wf: "dg_wf (fold dg_step ops dg_new)"
  by (rule dependencies.run_inv) (simp add: dg_wf_def dg_new_def)

definition is_failed :: "DependencyGraph \<Rightarrow> string \<Rightarrow> bool" where
  "is_failed g i = (case hm_get (dg_nodes g) i of Some n \<Rightarrow> (case sn_health n of Failed _ \<Rightarrow> True | _ \<Rightarrow> False) | None \<Rightarrow> False)"

lemma initially_failed_spec:
  assumes "dg_wf g"
  shows "set (initially_failed rank g) = {i. is_failed g i} \<and> distinct (initially_failed rank g)"
proof -
  let ?P = "\<lambda>(_ :: string, n). case sn_health n of Failed _ \<Rightarrow> True | _ \<Rightarrow> False"
  have "distinct (map fst (filter ?P (dg_nodes g)))"
    using assms by (simp add: dg_wf_def hm_wf_def distinct_map_filter)
  moreover have "i \<in> fst ` set (filter ?P (dg_nodes g)) \<longleftrightarrow> is_failed g i" for i
  proof -
    have wf: "hm_wf (dg_nodes g)" using assms by (simp add: dg_wf_def)
    have "i \<in> fst ` set (filter ?P (dg_nodes g)) \<longleftrightarrow> (\<exists>n. (i, n) \<in> set (dg_nodes g) \<and> ?P (i, n))" by force
    also have "\<dots> \<longleftrightarrow> is_failed g i" unfolding hm_get_eq_Some_iff [OF wf, symmetric] is_failed_def
      by (auto split: option.split)
    finally show ?thesis .
  qed
  ultimately show ?thesis by (auto simp: initially_failed_def)
qed

lemma propagation_spec:
  assumes "dg_wf g"
  defines "hit \<equiv> {x. \<exists>f. is_failed g f \<and> (x, f) \<in> (deps is_hard (adjacency g))\<^sup>+} - {i. is_failed g i}"
  shows "let (newly, g') = propagate_failures rank g in
     sorted newly \<and> distinct newly \<and> set newly = hit \<and> adjacency g' = adjacency g
     \<and> (\<forall>i. hm_get (dg_nodes g') i =
          map_option (\<lambda>n. if i \<in> hit then n\<lparr>sn_health := Failed ''propagated failure''\<rparr> else n) (hm_get (dg_nodes g) i))"
proof -
  define failed where "failed = initially_failed rank g"
  have f: "set failed = {i. is_failed g i}" "distinct failed" using initially_failed_spec [OF assms(1)] by (simp_all add: failed_def)
  show ?thesis
  proof (cases "failed = []")
    case True
    then have no: "\<not> is_failed g i" for i using f(1) by auto
    then have "hit = {}" by (simp add: hit_def)
    then show ?thesis using True by (simp add: propagate_failures_def option.map_ident flip: failed_def)
  next
    case False
    obtain new where n: "explore True (reverse_edges is_hard (adjacency g)) (set failed) [] failed = (set failed \<union> set new, [] @ new)"
        "distinct new" "set new = {x. \<exists>w \<in> set failed. (x, w) \<in> (deps is_hard (adjacency g))\<^sup>+} - set failed"
      using explore_reach [OF refl f(2)] by blast
    have hit: "set new = hit" unfolding n(3) hit_def f(1) by auto
    have p: "propagate_failures rank g = (sort new, fold (\<lambda>i. mark_failed i ''propagated failure'') new g)"
      using False by (simp add: propagate_failures_def Let_def n(1) flip: failed_def)
    show ?thesis unfolding p by (simp add: n(2) hit fold_mark_failed)
  qed
qed

lemma impact_spec: "impact_radius i g = card ({x. (x, i) \<in> (deps (\<lambda>_. True) (adjacency g))\<^sup>+} - {i})"
proof -
  obtain new where n: "explore False (reverse_edges (\<lambda>_. True) (adjacency g)) {i} [] [i] = ({i} \<union> set new, [] @ new)"
      "set new = {x. \<exists>w \<in> {i}. (x, w) \<in> (deps (\<lambda>_. True) (adjacency g))\<^sup>+} - {i}"
    using explore_reach [of "[i]" "{i}" False "\<lambda>_. True" "adjacency g" "[]"] by auto
  have "i \<notin> set new" using n(2) by simp
  then have "card ({i} \<union> set new) = Suc (card (set new))" by simp
  moreover have "impact_radius i g = card ({i} \<union> set new) - 1" unfolding impact_radius_def n(1) by simp
  ultimately show ?thesis unfolding n(2) by simp
qed


section \<open>Kahn's order\<close>

lemma fold_release:
  assumes "\<And>v. v \<in> set vs \<Longrightarrow> hm_get deg v = (if v \<in> A then Some (n v) else None)"
    and "\<And>v. v \<in> A \<Longrightarrow> count_list vs v \<le> n v"
  shows "\<exists>new deg'. fold release vs (deg, queue) = (deg', queue @ new) \<and> distinct new
    \<and> set new = {v \<in> A. v \<in> set vs \<and> n v = count_list vs v}
    \<and> (\<forall>v. hm_get deg' v = map_option (\<lambda>d. d - count_list vs v) (hm_get deg v))"
  using assms
proof (induction vs arbitrary: deg queue n)
  case (Cons w vs)
  show ?case
  proof (cases "w \<in> A")
    case False
    then have skip: "fold release (w # vs) (deg, queue) = fold release vs (deg, queue)" and none: "hm_get deg w = None"
      using Cons.prems(1) [of w] by (simp_all add: release_def)
    have "\<exists>new deg'. fold release vs (deg, queue) = (deg', queue @ new) \<and> distinct new
        \<and> set new = {v \<in> A. v \<in> set vs \<and> n v = count_list vs v}
        \<and> (\<forall>v. hm_get deg' v = map_option (\<lambda>d. d - count_list vs v) (hm_get deg v))"
    proof (rule Cons.IH)
      show "hm_get deg v = (if v \<in> A then Some (n v) else None)" if "v \<in> set vs" for v using Cons.prems(1) that by simp
      show "count_list vs v \<le> n v" if "v \<in> A" for v using Cons.prems(2) [OF that] False that by (simp split: if_splits)
    qed
    moreover have "{v \<in> A. v \<in> set (w # vs) \<and> n v = count_list (w # vs) v} = {v \<in> A. v \<in> set vs \<and> n v = count_list vs v}"
      using False by auto
    moreover have "map_option (\<lambda>d. d - count_list (w # vs) v) (hm_get deg v) = map_option (\<lambda>d. d - count_list vs v) (hm_get deg v)" for v
      using none by (cases "v = w") auto
    ultimately show ?thesis unfolding skip by simp
  next
    case True
    let ?n = "n(w := n w - 1)" and ?deg = "hm_insert w (n w - 1) deg"
    let ?q = "queue @ (if n w = 1 then [w] else [])"
    have pos: "1 \<le> n w" "count_list vs w \<le> n w - 1" using Cons.prems(2) [OF True] by auto
    have step: "fold release (w # vs) (deg, queue) = fold release vs (?deg, ?q)"
      using Cons.prems(1) [of w] True pos(1) by (auto simp: release_def)
    have "\<exists>new deg'. fold release vs (?deg, ?q) = (deg', ?q @ new) \<and> distinct new
        \<and> set new = {v \<in> A. v \<in> set vs \<and> ?n v = count_list vs v}
        \<and> (\<forall>v. hm_get deg' v = map_option (\<lambda>d. d - count_list vs v) (hm_get ?deg v))"
    proof (rule Cons.IH)
      show "hm_get ?deg v = (if v \<in> A then Some (?n v) else None)" if "v \<in> set vs" for v
        using Cons.prems(1) [of v] that True by (simp add: hm_get_insert)
      show "count_list vs v \<le> ?n v" if "v \<in> A" for v using Cons.prems(2) [OF that] pos(2) by (simp split: if_splits)
    qed
    then obtain new deg' where IH: "fold release vs (?deg, ?q) = (deg', ?q @ new)" "distinct new"
        "set new = {v \<in> A. v \<in> set vs \<and> ?n v = count_list vs v}"
        "\<And>v. hm_get deg' v = map_option (\<lambda>d. d - count_list vs v) (hm_get ?deg v)" by blast
    let ?new = "(if n w = 1 then [w] else []) @ new"
    have one: "w \<notin> set vs" if "n w = 1"
      using pos(2) that by (simp add: count_list_0_iff)
    have wnew: "w \<in> set new \<longleftrightarrow> w \<in> set vs \<and> n w = Suc (count_list vs w)" using IH(3) True pos(1) by auto
    have mem: "v \<in> set ?new \<longleftrightarrow> v \<in> A \<and> v \<in> set (w # vs) \<and> n v = count_list (w # vs) v" for v
    proof (cases "v = w")
      case True
      then show ?thesis using one wnew \<open>w \<in> A\<close> count_notin [of w vs] by auto
    qed (auto simp: IH(3))
    have "set ?new = {v \<in> A. v \<in> set (w # vs) \<and> n v = count_list (w # vs) v}" using mem by blast
    moreover have "distinct ?new" using IH(2) one wnew by auto
    moreover have "hm_get deg' v = map_option (\<lambda>d. d - count_list (w # vs) v) (hm_get deg v)" for v
      using IH(4) [of v] Cons.prems(1) [of w] True by (auto simp: hm_get_insert)
    moreover have "(deg', ?q @ new) = (deg', queue @ ?new)" by simp
    ultimately show ?thesis unfolding step IH(1) by blast
  qed
qed (auto simp: option.map_ident)

text \<open>Edges from sources not yet in the order, and the orders in which every service comes after its sources.\<close>

definition remaining :: "(string \<Rightarrow> string list) \<Rightarrow> string set \<Rightarrow> string list \<Rightarrow> string \<Rightarrow> nat" where
  "remaining succs P order v = (\<Sum>u \<in> P - set order. count_list (succs u) v)"

definition sources_first :: "(string \<Rightarrow> string list) \<Rightarrow> string set \<Rightarrow> string list \<Rightarrow> bool" where
  "sources_first succs P order \<longleftrightarrow>
     (\<forall>k < length order. \<forall>u \<in> P. order ! k \<in> set (succs u) \<longrightarrow> u \<in> set (take k order))"

lemma remaining_0_iff:
  "finite P \<Longrightarrow> remaining succs P order v = 0 \<longleftrightarrow> (\<forall>u \<in> P. v \<in> set (succs u) \<longrightarrow> u \<in> set order)"
  by (auto simp: remaining_def sum_eq_0_iff count_list_0_iff)

lemma remaining_snoc:
  assumes "finite P" and "i \<notin> set order" and "i \<notin> P \<Longrightarrow> succs i = []"
  shows "remaining succs P order v = remaining succs P (order @ [i]) v + count_list (succs i) v"
proof (cases "i \<in> P")
  case True
  have "P - set (order @ [i]) = P - set order - {i}" by auto
  then show ?thesis using assms(1,2) True by (simp add: remaining_def sum.remove [of _ i] add.commute)
next
  case False
  then have "P - set (order @ [i]) = P - set order" by auto
  then show ?thesis using assms(3) False by (simp add: remaining_def)
qed

lemma sources_first_snoc:
  "sources_first succs P order \<Longrightarrow> finite P \<Longrightarrow> remaining succs P order i = 0 \<Longrightarrow> sources_first succs P (order @ [i])"
  by (auto simp: sources_first_def remaining_0_iff nth_append less_Suc_eq)

lemma kahn_loop_spec:
  assumes fin: "finite P" "finite A" and src: "\<And>u. u \<notin> P \<Longrightarrow> succs u = []"
    and deg: "\<And>v. hm_get deg v = (if v \<in> A then Some (remaining succs P order v) else None)"
    and ord: "sources_first succs P order" and dist: "distinct (order @ queue)"
    and zero: "set (order @ queue) = {v \<in> A. remaining succs P order v = 0}" and fuel: "card A \<le> f + length order"
  shows "\<exists>topo. kahn_loop succs f deg queue order = Some topo \<and> sources_first succs P topo \<and> distinct topo
    \<and> set topo = {v \<in> A. remaining succs P topo v = 0}"
  using src deg ord dist zero fuel
proof (induction succs f deg queue order rule: kahn_loop.induct)
  case (2 succs deg i queue order)
  have "set (order @ i # queue) \<subseteq> A" using "2.prems"(5) by blast
  then have "length (order @ i # queue) \<le> card A"
    using card_mono [OF fin(2)] distinct_card [OF "2.prems"(4)] by metis
  then show ?case using "2.prems"(6) by simp
next
  case (3 succs f deg i queue order)
  let ?r = "remaining succs P order" and ?r' = "remaining succs P (order @ [i])"
  have i: "i \<in> A" "?r i = 0" "i \<notin> set order" using "3.prems"(4,5) by auto
  have r: "?r v = ?r' v + count_list (succs i) v" for v by (rule remaining_snoc) (use fin(1) i(3) "3.prems"(1) in auto)
  have "\<exists>new deg'. fold release (succs i) (deg, queue) = (deg', queue @ new) \<and> distinct new
      \<and> set new = {v \<in> A. v \<in> set (succs i) \<and> ?r v = count_list (succs i) v}
      \<and> (\<forall>v. hm_get deg' v = map_option (\<lambda>d. d - count_list (succs i) v) (hm_get deg v))"
    by (rule fold_release) (simp_all add: "3.prems"(2) r)
  then obtain new deg' where new: "fold release (succs i) (deg, queue) = (deg', queue @ new)" "distinct new"
      "set new = {v \<in> A. v \<in> set (succs i) \<and> ?r v = count_list (succs i) v}"
      "\<And>v. hm_get deg' v = map_option (\<lambda>d. d - count_list (succs i) v) (hm_get deg v)" by blast
  have pos: "?r v \<noteq> 0" if "v \<in> set new" for v using that new(3) by (auto simp: count_list_0_iff)
  have "\<exists>topo. kahn_loop succs f deg' (queue @ new) (order @ [i]) = Some topo \<and> sources_first succs P topo \<and> distinct topo
      \<and> set topo = {v \<in> A. remaining succs P topo v = 0}"
  proof (rule "3.IH" [OF new(1) [symmetric]])
    show "hm_get deg' v = (if v \<in> A then Some (?r' v) else None)" for v by (simp add: new(4) "3.prems"(2) r)
    show "sources_first succs P (order @ [i])" using sources_first_snoc "3.prems"(3) fin(1) i(2) by blast
    have "set new \<inter> set (order @ i # queue) = {}" using pos "3.prems"(5) by blast
    then show "distinct ((order @ [i]) @ (queue @ new))" using "3.prems"(4) new(2) by auto
    have "?r' v = 0 \<longleftrightarrow> ?r v = 0 \<or> v \<in> set (succs i) \<and> ?r v = count_list (succs i) v" for v
      using r [of v] by (auto simp: count_list_0_iff)
    then have "{v \<in> A. ?r' v = 0} = {v \<in> A. ?r v = 0} \<union> set new" using new(3) by blast
    then show "set ((order @ [i]) @ (queue @ new)) = {v \<in> A. ?r' v = 0}" using "3.prems"(5) by auto
    show "card A \<le> f + length (order @ [i])" using "3.prems"(6) by simp
  qed (use "3.prems" in simp_all)
  then show ?case by (simp add: new(1))
qed simp

section \<open>The order of recovery\<close>

lemma hm_get_zeroes: "hm_get (map (\<lambda>i. (i, c)) ks) v = (if v \<in> set ks then Some c else None)"
  by (induction ks) (auto simp: hm_get_def)

lemma count_edges_out:
  "hm_get (fold (\<lambda>e m. if sel e then count_edge (de_to e) m else m) es m) v
    = map_option (\<lambda>d. d + count_list (map de_to (filter sel es)) v) (hm_get m v)"
  by (induction es arbitrary: m)
    (auto simp: count_edge_def hm_get_insert option.map_comp comp_def option.map_ident split: option.split)

definition selected_targets :: "(DependencyEdge \<Rightarrow> bool) \<Rightarrow> DependencyGraph \<Rightarrow> string \<Rightarrow> string list" where
  "selected_targets sel g i = map de_to (filter sel (out_edges i g))"

lemma hm_get_in_degree_map:
  assumes "dg_wf g"
  shows "hm_get (in_degree_map sel g) v =
    (if v \<in> set (hm_keys (dg_nodes g))
     then Some (\<Sum>u \<in> set (hm_keys (adjacency g)). count_list (selected_targets sel g u) v) else None)"
proof -
  have "hm_get (fold (\<lambda>(src, es) m. fold (\<lambda>e m. if sel e then count_edge (de_to e) m else m) es m) adj m) v
      = map_option (\<lambda>d. d + (\<Sum>(u, es) \<leftarrow> adj. count_list (map de_to (filter sel es)) v)) (hm_get m v)"
    for adj :: "(string, DependencyEdge list) hashmap" and m
    by (induction adj arbitrary: m) (auto simp: count_edges_out option.map_comp comp_def option.map_ident add.assoc)
  moreover have "(\<Sum>(u, es) \<leftarrow> adjacency g. count_list (map de_to (filter sel es)) v)
      = (\<Sum>u \<leftarrow> hm_keys (adjacency g). count_list (selected_targets sel g u) v)"
  proof -
    have "es = out_edges u g" if "(u, es) \<in> set (adjacency g)" for u es
      using that assms hm_get_eq_Some_iff [of "adjacency g" u es] by (simp add: dg_wf_def out_edges_def)
    then show ?thesis unfolding hm_keys_def map_map comp_def selected_targets_def
      by (intro arg_cong [of _ _ sum_list] map_cong) auto
  qed
  moreover have "(\<Sum>u \<leftarrow> hm_keys (adjacency g). count_list (selected_targets sel g u) v)
      = (\<Sum>u \<in> set (hm_keys (adjacency g)). count_list (selected_targets sel g u) v)"
    by (rule sum_list_distinct_conv_sum_set) (use assms in \<open>simp add: dg_wf_def hm_wf_def hm_keys_def\<close>)
  ultimately show ?thesis by (simp only: in_degree_map_def hm_get_zeroes) simp
qed

lemma edge_iff_dep:
  assumes "dg_wf g"
  shows "v \<in> set (selected_targets sel g u) \<longleftrightarrow> (u, v) \<in> deps sel (adjacency g)"
proof -
  have "(u, es) \<in> set (adjacency g) \<longleftrightarrow> hm_get (adjacency g) u = Some es" for es
    using assms hm_get_eq_Some_iff [of "adjacency g"] by (simp add: dg_wf_def)
  then show ?thesis
    by (cases "hm_get (adjacency g) u") (auto simp: selected_targets_def out_edges_def deps_def)
qed

lemma set_sort_roots: "set (roots rank m) = {i \<in> set (hm_keys m). hm_get m i = Some 0}"
  by (auto simp: roots_def)

lemma hm_keys_in_degree_map:
  "dg_wf g \<Longrightarrow> i \<in> set (hm_keys (in_degree_map sel g)) \<longleftrightarrow> i \<in> set (hm_keys (dg_nodes g))"
  using hm_get_None_iff [of "in_degree_map sel g" i] by (simp add: hm_get_in_degree_map split: if_splits)

lemma hm_wf_in_degree_map: "dg_wf g \<Longrightarrow> hm_wf (in_degree_map sel g)"
proof -
  have e: "hm_wf (fold (\<lambda>e m. if sel e then count_edge (de_to e) m else m) es m)" if "hm_wf m" for es m
    using that by (induction es arbitrary: m) (auto simp: count_edge_def split: option.split)
  have "hm_wf (fold (\<lambda>(src, es) m. fold (\<lambda>e m. if sel e then count_edge (de_to e) m else m) es m) adj m)" if "hm_wf m" for adj :: "(string, DependencyEdge list) hashmap" and m
    using that by (induction adj arbitrary: m) (auto simp: e)
  moreover assume "dg_wf g"
  then have "hm_wf (map (\<lambda>i. (i, 0)) (hm_keys (dg_nodes g)))" by (simp add: hm_wf_def dg_wf_def hm_keys_def comp_def)
  ultimately show "hm_wf (in_degree_map sel g)" by (simp add: in_degree_map_def)
qed

text \<open>Both uses of the loop: the order is complete up to the services a source of which is missing from it.\<close>

lemma kahn_of_graph:
  assumes wf: "dg_wf g" and succs: "\<And>u v. count_list (succs u) v = count_list (selected_targets sel g u) v"
    and queue: "set queue = set (roots rank (in_degree_map sel g))" "distinct queue"
  defines "A \<equiv> set (hm_keys (dg_nodes g))" and "R \<equiv> deps sel (adjacency g)"
  shows "\<exists>topo. kahn_loop succs (length (dg_nodes g)) (in_degree_map sel g) queue [] = Some topo \<and> distinct topo
    \<and> (\<forall>v. v \<in> set topo \<longleftrightarrow> v \<in> A \<and> (\<forall>u. (u, v) \<in> R \<longrightarrow> u \<in> set topo))
    \<and> (\<forall>k < length topo. \<forall>u. (u, topo ! k) \<in> R \<longrightarrow> u \<in> set (take k topo))"
proof -
  let ?P = "set (hm_keys (adjacency g))"
  have mem: "v \<in> set (succs u) \<longleftrightarrow> (u, v) \<in> R" for u v
    using succs [of u v] edge_iff_dep [OF wf] by (metis R_def count_list_0_iff)
  have P: "u \<in> ?P" if "(u, v) \<in> R" for u v using that by (force simp: R_def deps_def hm_keys_def)
  have "\<exists>topo. kahn_loop succs (length (dg_nodes g)) (in_degree_map sel g) queue [] = Some topo
      \<and> sources_first succs ?P topo \<and> distinct topo \<and> set topo = {v \<in> A. remaining succs ?P topo v = 0}"
  proof (rule kahn_loop_spec)
    show "succs u = []" if "u \<notin> ?P" for u using mem P that by (metis last_in_set)
    show deg: "hm_get (in_degree_map sel g) v = (if v \<in> A then Some (remaining succs ?P [] v) else None)" for v
      by (simp add: hm_get_in_degree_map [OF wf] A_def remaining_def succs)
    show "set ([] @ queue) = {v \<in> A. remaining succs ?P [] v = 0}"
      unfolding append_Nil queue(1) set_sort_roots hm_keys_in_degree_map [OF wf] deg by (simp add: A_def cong: conj_cong)
    show "card A \<le> length (dg_nodes g) + length []"
      using wf by (simp add: A_def dg_wf_def hm_wf_length)
  qed (use queue(2) in \<open>simp_all add: A_def sources_first_def\<close>)
  then obtain topo where t: "kahn_loop succs (length (dg_nodes g)) (in_degree_map sel g) queue [] = Some topo"
      "sources_first succs ?P topo" "distinct topo" "set topo = {v \<in> A. remaining succs ?P topo v = 0}" by blast
  have "remaining succs ?P topo v = 0 \<longleftrightarrow> (\<forall>u. (u, v) \<in> R \<longrightarrow> u \<in> set topo)" for v
    unfolding remaining_0_iff [OF finite_set] mem using P by blast
  then have "\<forall>v. v \<in> set topo \<longleftrightarrow> v \<in> A \<and> (\<forall>u. (u, v) \<in> R \<longrightarrow> u \<in> set topo)" using t(4) by blast
  moreover have "\<forall>k < length topo. \<forall>u. (u, topo ! k) \<in> R \<longrightarrow> u \<in> set (take k topo)"
    using t(2) P mem unfolding sources_first_def by blast
  ultimately show ?thesis using t(1,3) by blast
qed

lemma finite_deps: "finite (deps sel adj)"
proof -
  have "deps sel adj = (\<Union>(x, es) \<in> set adj. (\<lambda>e. (x, de_to e)) ` {e \<in> set es. sel e})"
    by (auto simp: deps_def)
  then show ?thesis by (simp add: case_prod_unfold)
qed

lemma kahn_complete:
  assumes "acyclic (deps sel adj)" and "fst ` deps sel adj \<subseteq> A"
    and topo: "\<And>v. v \<in> set topo \<longleftrightarrow> v \<in> A \<and> (\<forall>u. (u, v) \<in> deps sel adj \<longrightarrow> u \<in> set topo)"
  shows "set topo = A"
proof -
  have "v \<in> A \<longrightarrow> v \<in> set topo" for v
    using finite_acyclic_wf [OF finite_deps assms(1)]
  proof (induction v rule: wf_induct_rule)
    case (less v)
    have "u \<in> A" if "(u, v) \<in> deps sel adj" for u using assms(2) that by force
    then show ?case using less.IH topo [of v] by blast
  qed
  then show ?thesis using topo by blast
qed

lemma recovery_order_spec:
  assumes wf: "dg_wf g"
  defines "A \<equiv> set (hm_keys (dg_nodes g))" and "R \<equiv> deps (\<lambda>_. True) (adjacency g)"
  shows "distinct (recovery_order g) \<and> set (recovery_order g) = A
    \<and> (acyclic R \<longrightarrow> fst ` R \<subseteq> A \<longrightarrow>
        (\<forall>k < length (recovery_order g). \<forall>u. (u, recovery_order g ! k) \<in> R \<longrightarrow> u \<in> set (take k (recovery_order g))))"
proof -
  let ?deg = "in_degree_map (\<lambda>_. True) g" and ?succs = "\<lambda>i. sort (map de_to (out_edges i g))"
  have count: "count_list (?succs u) v = count_list (selected_targets (\<lambda>_. True) g u) v" for u v
    unfolding selected_targets_def by (simp add: flip: count_mset)
  have "distinct (sort (roots (\<lambda>_. 0) ?deg))"
    using hm_wf_in_degree_map [OF wf] by (simp add: roots_def hm_wf_def hm_keys_def)
  then obtain topo where t: "kahn_loop ?succs (length (dg_nodes g)) ?deg (sort (roots (\<lambda>_. 0) ?deg)) [] = Some topo"
      "distinct topo" "\<And>v. v \<in> set topo \<longleftrightarrow> v \<in> A \<and> (\<forall>u. (u, v) \<in> R \<longrightarrow> u \<in> set topo)"
      "\<forall>k < length topo. \<forall>u. (u, topo ! k) \<in> R \<longrightarrow> u \<in> set (take k topo)"
    using kahn_of_graph [OF wf count, of "sort (roots (\<lambda>_. 0) ?deg)" "\<lambda>_. 0"] unfolding A_def R_def set_sort by blast
  let ?rest = "sort (filter (\<lambda>i. i \<notin> set topo) (hm_keys (dg_nodes g)))"
  have r: "recovery_order g = topo @ ?rest" by (simp add: recovery_order_def Let_def t(1))
  have "distinct (topo @ ?rest)"
    using t(2) wf by (auto simp: dg_wf_def hm_wf_def hm_keys_def)
  moreover have "set topo \<subseteq> A" using t(3) by blast
  then have "set (topo @ ?rest) = A" by (auto simp: A_def)
  moreover have "?rest = []" if "acyclic R" "fst ` R \<subseteq> A"
    using kahn_complete [OF that [unfolded R_def] t(3) [unfolded R_def]] by (auto simp: A_def filter_empty_conv)
  ultimately show ?thesis unfolding r using t(4) by simp
qed

section \<open>The longest chain\<close>

lemma hm_get_extend:
  "hm_get (fold (extend_chain i len) ts dp) v =
     map_option (\<lambda>(l, q). if v \<in> set ts \<and> l < len + 1 then (len + 1, Some i) else (l, q)) (hm_get dp v)"
  by (induction ts arbitrary: dp)
    (auto simp: extend_chain_def hm_get_insert option.map_comp comp_def case_prod_unfold option.map_ident
      split: option.split intro!: option.map_cong0)

text \<open>
  What the table says once the services of \<open>seen\<close> have been extended: it covers the registered
  services, every edge from a seen service is accounted for, and predecessors are one step shorter.
\<close>

definition chains_ok :: "(string \<times> string) set \<Rightarrow> string set \<Rightarrow> string set \<Rightarrow> chain_map \<Rightarrow> bool" where
  "chains_ok R A seen dp \<longleftrightarrow>
     (\<forall>v. hm_get dp v \<noteq> None \<longleftrightarrow> v \<in> A)
     \<and> (\<forall>u \<in> seen. \<forall>v \<in> A. (u, v) \<in> R \<longrightarrow> chain_len dp u < chain_len dp v)
     \<and> (\<forall>v l q. hm_get dp v = Some (l, q) \<longrightarrow>
          (case q of None \<Rightarrow> l = 0 | Some p \<Rightarrow> p \<in> seen \<and> (p, v) \<in> R \<and> l = chain_len dp p + 1))"

lemma chain_len_extend_from:
  "chain_len (extend_from g i dp) v =
    (if hm_get dp v \<noteq> None \<and> v \<in> set (hard_targets g i) then max (chain_len dp v) (chain_len dp i + 1) else chain_len dp v)"
  by (auto simp: chain_len_def [of _ v] extend_from_def hm_get_extend split: option.split)

lemma chains_ok_step:
  assumes ok: "chains_ok R A seen dp" and R: "\<And>v. v \<in> set (hard_targets g i) \<longleftrightarrow> (i, v) \<in> R"
    and new: "i \<notin> seen" "\<And>u v. v \<in> insert i seen \<Longrightarrow> (u, v) \<in> R \<Longrightarrow> u \<in> seen"
  shows "chains_ok R A (insert i seen) (extend_from g i dp)"
proof -
  let ?dp = "extend_from g i dp"
  have dom: "hm_get dp v \<noteq> None \<longleftrightarrow> v \<in> A" for v using ok by (simp add: chains_ok_def)
  have same: "chain_len ?dp u = chain_len dp u" if "u \<in> insert i seen" for u
  proof -
    have "(i, u) \<notin> R" using new that by blast
    then show ?thesis by (simp add: chain_len_extend_from R)
  qed
  have "hm_get ?dp v \<noteq> None \<longleftrightarrow> v \<in> A" for v by (simp add: extend_from_def hm_get_extend dom flip: dom)
  moreover have "chain_len ?dp u < chain_len ?dp v" if e: "u \<in> insert i seen" "v \<in> A" "(u, v) \<in> R" for u v
  proof (cases "u = i")
    case True
    then show ?thesis using e dom [of v] same [of i] by (simp add: chain_len_extend_from [of g i dp v] R)
  next
    case False
    then have "chain_len dp u < chain_len dp v" using e ok by (simp add: chains_ok_def)
    then show ?thesis using same [OF e(1)] by (auto simp: chain_len_extend_from [of g i dp v])
  qed
  moreover have "case q of None \<Rightarrow> l = 0 | Some p \<Rightarrow> p \<in> insert i seen \<and> (p, v) \<in> R \<and> l = chain_len ?dp p + 1"
    if e: "hm_get ?dp v = Some (l, q)" for v l q
  proof -
    obtain l0 q0 where o: "hm_get dp v = Some (l0, q0)"
        "(l, q) = (if (i, v) \<in> R \<and> l0 < chain_len dp i + 1 then (chain_len dp i + 1, Some i) else (l0, q0))"
      using e by (auto simp: extend_from_def hm_get_extend R split: if_splits)
    have "case q0 of None \<Rightarrow> l0 = 0 | Some p \<Rightarrow> p \<in> seen \<and> (p, v) \<in> R \<and> l0 = chain_len dp p + 1"
      using ok o(1) by (simp add: chains_ok_def)
    then show ?thesis using o(2) same by (auto split: if_splits option.splits)
  qed
  ultimately show ?thesis unfolding chains_ok_def by blast
qed

lemma chains_ok_fold:
  assumes R: "\<And>u v. v \<in> set (hard_targets g u) \<longleftrightarrow> (u, v) \<in> R"
    and "chains_ok R A (set pre) dp" and "distinct (pre @ xs)"
    and "\<And>u v. v \<in> set pre \<Longrightarrow> (u, v) \<in> R \<Longrightarrow> u \<in> set pre"
    and "\<And>k u. k < length xs \<Longrightarrow> (u, xs ! k) \<in> R \<Longrightarrow> u \<in> set (pre @ take k xs)"
  shows "chains_ok R A (set (pre @ xs)) (fold (extend_from g) xs dp)"
  using assms(2-)
proof (induction xs arbitrary: pre dp)
  case (Cons i xs)
  have i: "u \<in> set pre" if "(u, i) \<in> R" for u using Cons.prems(4) [of 0 u] that by simp
  have "chains_ok R A (insert i (set pre)) (extend_from g i dp)"
    by (rule chains_ok_step [OF Cons.prems(1) R]) (use Cons.prems(2,3) i in auto)
  then have "chains_ok R A (set ((pre @ [i]) @ xs)) (fold (extend_from g) xs (extend_from g i dp))"
  proof (intro Cons.IH)
    show "u \<in> set ((pre @ [i]) @ take k xs)" if "k < length xs" "(u, xs ! k) \<in> R" for k u
      using Cons.prems(4) [of "Suc k" u] that by simp
  qed (use Cons.prems(2,3) i in auto)
  then show ?case by simp
qed simp

lemma follow_chain:
  assumes "chains_ok R A seen dp" and "seen \<subseteq> A" and "v \<in> A"
  shows "\<exists>c. follow dp v path = Some (path @ rev c) \<and> c \<noteq> [] \<and> last c = v \<and> length c = chain_len dp v + 1
    \<and> set c \<subseteq> A \<and> successively (\<lambda>a b. (a, b) \<in> R) c"
  using assms(3)
proof (induction "chain_len dp v" arbitrary: v path rule: less_induct)
  case less
  obtain l q where get: "hm_get dp v = Some (l, q)" using assms(1) less.prems unfolding chains_ok_def by (metis not_None_eq surj_pair)
  have ok: "case q of None \<Rightarrow> l = 0 | Some p \<Rightarrow> p \<in> seen \<and> (p, v) \<in> R \<and> l = chain_len dp p + 1"
    using assms(1) get by (simp add: chains_ok_def)
  have l: "chain_len dp v = l" using get by (simp add: chain_len_def)
  show ?case
  proof (cases q)
    case None
    then show ?thesis using ok l less.prems get
      by (intro exI [of _ "[v]"]) (simp add: follow.simps [of dp v])
  next
    case (Some p)
    then have p: "p \<in> A" "(p, v) \<in> R" "chain_len dp v = Suc (chain_len dp p)" using ok l assms(2) by auto
    obtain c where c: "follow dp p (path @ [v]) = Some ((path @ [v]) @ rev c)" "c \<noteq> []" "last c = p"
        "length c = chain_len dp p + 1" "set c \<subseteq> A" "successively (\<lambda>a b. (a, b) \<in> R) c"
      using less.hyps [OF _ p(1), of "path @ [v]"] p(3) by auto
    show ?thesis
      using c p less.prems get Some
      by (intro exI [of _ "c @ [v]"]) (simp add: follow.simps [of dp v] successively_append_iff)
  qed
qed

lemma chain_bounded:
  "chains_ok R A A dp \<Longrightarrow> successively (\<lambda>a b. (a, b) \<in> R) (c @ [v]) \<Longrightarrow> set (c @ [v]) \<subseteq> A \<Longrightarrow> length c \<le> chain_len dp v"
proof (induction c arbitrary: v rule: rev_induct)
  case (snoc u c)
  then have "length c \<le> chain_len dp u" "(u, v) \<in> R" by (auto simp: successively_append_iff)
  moreover have "chain_len dp u < chain_len dp v" using snoc.prems calculation(2) by (simp add: chains_ok_def)
  ultimately show ?case by simp
qed simp

lemma last_max_cases:
  "case last_max f xs of None \<Rightarrow> xs = [] | Some y \<Rightarrow> y \<in> set xs \<and> (\<forall>x \<in> set xs. f x \<le> f y)"
  by (induction xs) (auto split: option.splits)

lemma critical_path_spec:
  assumes wf: "dg_wf g"
  defines "A \<equiv> set (hm_keys (dg_nodes g))" and "R \<equiv> deps is_hard (adjacency g)"
  shows "\<exists>p. critical_path rank rank' g = Some p \<and> set p \<subseteq> A \<and> successively (\<lambda>a b. (a, b) \<in> R) p
    \<and> (acyclic R \<longrightarrow> fst ` R \<subseteq> A \<longrightarrow>
        (\<forall>c. set c \<subseteq> A \<longrightarrow> successively (\<lambda>a b. (a, b) \<in> R) c \<longrightarrow> length c \<le> length p))"
proof -
  let ?deg = "in_degree_map is_hard g"
  have targets: "hard_targets g = selected_targets is_hard g" by (simp add: fun_eq_iff hard_targets_def selected_targets_def)
  have edge: "v \<in> set (hard_targets g u) \<longleftrightarrow> (u, v) \<in> R" for u v by (simp add: targets edge_iff_dep [OF wf] R_def)
  have "distinct (roots rank ?deg)" using hm_wf_in_degree_map [OF wf] by (simp add: roots_def hm_wf_def hm_keys_def)
  then obtain topo where t: "kahn_loop (hard_targets g) (length (dg_nodes g)) ?deg (roots rank ?deg) [] = Some topo"
      "distinct topo" "\<And>v. v \<in> set topo \<longleftrightarrow> v \<in> A \<and> (\<forall>u. (u, v) \<in> R \<longrightarrow> u \<in> set topo)"
      "\<And>k u. k < length topo \<Longrightarrow> (u, topo ! k) \<in> R \<Longrightarrow> u \<in> set (take k topo)"
    using kahn_of_graph [OF wf refl refl, of rank is_hard] unfolding A_def R_def targets by blast
  have sub: "set topo \<subseteq> A" using t(3) by blast
  let ?init = "map (\<lambda>i. (i, (0, None))) (hm_keys (dg_nodes g)) :: chain_map"
  define dp where "dp = fold (extend_from g) topo ?init"
  have "chains_ok R A (set []) ?init" by (auto simp: chains_ok_def hm_get_zeroes A_def split: if_splits)
  then have "chains_ok R A (set ([] @ topo)) dp" unfolding dp_def
    by (rule chains_ok_fold [OF edge]) (use t(2,4) in auto)
  then have ok: "chains_ok R A (set topo) dp" by simp
  then have keys: "set (sort_key rank' (hm_keys dp)) = A"
    using hm_get_None_iff [of dp] unfolding chains_ok_def set_sort by blast
  have all: "set topo = A" if "acyclic R" "fst ` R \<subseteq> A"
    using kahn_complete [OF that [unfolded R_def] t(3) [unfolded R_def]] .
  show ?thesis
  proof (cases "last_max (chain_len dp) (sort_key rank' (hm_keys dp))")
    case None
    then have "A = {}" using last_max_cases [of "sort_key rank' (hm_keys dp)" "chain_len dp"] keys by simp
    then show ?thesis using None by (simp add: critical_path_def t(1) flip: dp_def)
  next
    case (Some v)
    then have v: "v \<in> A" "\<forall>x \<in> A. chain_len dp x \<le> chain_len dp v"
      using last_max_cases [of "sort_key rank' (hm_keys dp)" "chain_len dp"] unfolding keys by simp_all
    obtain p where p: "follow dp v [] = Some ([] @ rev p)" "length p = chain_len dp v + 1" "set p \<subseteq> A"
        "successively (\<lambda>a b. (a, b) \<in> R) p"
      using follow_chain [OF ok sub v(1), of "[]"] by blast
    have "length c \<le> length p"
      if a: "acyclic R" "fst ` R \<subseteq> A" and c: "set c \<subseteq> A" "successively (\<lambda>a b. (a, b) \<in> R) c" for c
    proof (cases c rule: rev_cases)
      case (snoc c' w)
      then have "length c' \<le> chain_len dp w" using chain_bounded [OF ok [unfolded all [OF a]], of c' w] c by simp
      then show ?thesis using p(2) v(2) c(1) snoc by (simp add: order_trans)
    qed simp
    moreover have "critical_path rank rank' g = Some p" using Some p(1) by (simp add: critical_path_def t(1) flip: dp_def)
    ultimately show ?thesis using p(3,4) by (intro exI [of _ p] conjI impI allI)
  qed
qed

section \<open>Properties of every graph the operations can build\<close>

text \<open>
  Propagation fails exactly the services that depend on a failed one through a chain of hard
  dependencies and were not failed themselves: it returns their identifiers in order, sets the
  health of the registered ones among them, and changes nothing else.
\<close>

theorem propagation_exact:
  "let g = fold dg_step ops dg_new;
       hit = {x. \<exists>f. is_failed g f \<and> (x, f) \<in> (deps is_hard (adjacency g))\<^sup>+} - {i. is_failed g i};
       (newly, g') = propagate_failures rank g
   in sorted newly \<and> distinct newly \<and> set newly = hit \<and> adjacency g' = adjacency g
     \<and> (\<forall>i. hm_get (dg_nodes g') i =
          map_option (\<lambda>n. if i \<in> hit then n\<lparr>sn_health := Failed ''propagated failure''\<rparr> else n) (hm_get (dg_nodes g) i))"
  using propagation_spec [OF reachable_dg_wf [of ops], of rank] by (simp only: Let_def)

text \<open>
  The impact of a service is the number of other services from which a chain of dependencies of
  any kind leads to it.
\<close>

theorem impact_radius_exact:
  "let g = fold dg_step ops dg_new
   in impact_radius i g = card ({x. (x, i) \<in> (deps (\<lambda>_. True) (adjacency g))\<^sup>+} - {i})"
  by (simp only: Let_def impact_spec)

text \<open>
  The order of recovery lists every registered service exactly once. When the dependencies have
  no cycle and start at registered services, it lists a service only after every service that
  depends on it.
\<close>

theorem recovery_order_dependents_first:
  assumes "g = fold dg_step ops dg_new"
    and "acyclic (deps (\<lambda>_. True) (adjacency g))"
    and "fst ` deps (\<lambda>_. True) (adjacency g) \<subseteq> set (hm_keys (dg_nodes g))"
  shows "distinct (recovery_order g) \<and> set (recovery_order g) = set (hm_keys (dg_nodes g))
    \<and> (\<forall>k < length (recovery_order g). \<forall>u. (u, recovery_order g ! k) \<in> deps (\<lambda>_. True) (adjacency g)
          \<longrightarrow> u \<in> set (take k (recovery_order g)))"
  using recovery_order_spec [of g] reachable_dg_wf [of ops] assms by simp

text \<open>Two services, the first of which needs the second.\<close>

definition small_graph :: "dg_op list" where
  "small_graph = [AddService \<lparr>sn_id = ''db'', sn_name = ''database'', sn_health = Healthy, sn_criticality = 9\<rparr>,
     AddService \<lparr>sn_id = ''api'', sn_name = ''gateway'', sn_health = Healthy, sn_criticality = 5\<rparr>,
     AddDependency ''api'' ''db'' HardDependency (FFin 1)]"

lemmas small_graph_simps = small_graph_def add_service_def add_dependency_def entry_push_def dg_new_def
  hm_insert_def hm_get_def

lemma acyclic_singleton: "acyclic {(a, b)} \<longleftrightarrow> a \<noteq> b"
proof -
  have "acyclic {}" by (simp add: acyclic_def)
  then show ?thesis by auto
qed

lemma small_graph_nodes: "hm_keys (dg_nodes (fold dg_step small_graph dg_new)) = [''db'', ''api'']"
  by (simp add: small_graph_simps hm_keys_def)

lemma small_graph_deps:
  "sel \<lparr>de_from = ''api'', de_to = ''db'', edge_type = HardDependency, de_weight = FFin 1\<rparr> \<Longrightarrow>
    deps sel (adjacency (fold dg_step small_graph dg_new)) = {(''api'', ''db'')}"
  by (auto simp: small_graph_simps deps_def)

theorem recovery_order_dependents_first_witness:
  "(''db'' \<in> set (take 1 (recovery_order (fold dg_step small_graph dg_new)))) = False"
proof -
  let ?g = "fold dg_step small_graph dg_new"
  note o = recovery_order_dependents_first [of ?g small_graph, OF refl]
  have o: "distinct (recovery_order ?g)" "set (recovery_order ?g) = {''db'', ''api''}"
      "\<forall>k < length (recovery_order ?g). \<forall>u. (u, recovery_order ?g ! k) \<in> {(''api'', ''db'')}
          \<longrightarrow> u \<in> set (take k (recovery_order ?g))"
    using o by (simp_all add: small_graph_deps small_graph_nodes acyclic_singleton del: acyclic_insert)
  have "recovery_order ?g ! 0 \<noteq> ''db''" if "recovery_order ?g \<noteq> []" using o(3) that by auto
  then show ?thesis by (cases "recovery_order ?g") auto
qed

text \<open>
  C21. In a reachable graph whose hard dependencies form no cycle and all start at registered
  services, the critical path exists, is a chain of hard dependencies between registered services, and
  no such chain is longer, whatever the iteration orders of the maps. Both hypotheses are needed: a
  dependency of a service that is not registered hides the chains behind its target (below).
\<close>

theorem critical_path_longest:
  assumes "g = fold dg_step ops dg_new"
    and "acyclic (deps is_hard (adjacency g))"
    and "fst ` deps is_hard (adjacency g) \<subseteq> set (hm_keys (dg_nodes g))"
  shows "\<exists>p. critical_path rank rank' g = Some p \<and> set p \<subseteq> set (hm_keys (dg_nodes g))
    \<and> successively (\<lambda>a b. (a, b) \<in> deps is_hard (adjacency g)) p
    \<and> (\<forall>c. set c \<subseteq> set (hm_keys (dg_nodes g)) \<longrightarrow> successively (\<lambda>a b. (a, b) \<in> deps is_hard (adjacency g)) c
          \<longrightarrow> length c \<le> length p)"
  using critical_path_spec [of g rank rank'] reachable_dg_wf [of ops] assms by simp

theorem critical_path_longest_witness:
  "\<exists>p. critical_path (\<lambda>_. 0) length (fold dg_step small_graph dg_new) = Some p \<and> 2 \<le> length p"
proof -
  let ?g = "fold dg_step small_graph dg_new"
  have d: "deps is_hard (adjacency ?g) = {(''api'', ''db'')}" by (rule small_graph_deps) (simp add: is_hard_def)
  obtain p where "critical_path (\<lambda>_. 0) length ?g = Some p"
      "\<forall>c. set c \<subseteq> set (hm_keys (dg_nodes ?g)) \<longrightarrow> successively (\<lambda>a b. (a, b) \<in> deps is_hard (adjacency ?g)) c
          \<longrightarrow> length c \<le> length p"
    using critical_path_longest [of ?g small_graph "\<lambda>_. 0" length, OF refl] by (auto simp: d small_graph_nodes acyclic_singleton simp del: acyclic_insert)
  then show ?thesis by (intro exI [of _ p]) (auto simp: d small_graph_nodes dest!: spec [of _ "[''api'', ''db'']"])
qed

definition hidden_chain :: "dg_op list" where
  "hidden_chain = [AddService \<lparr>sn_id = ''a'', sn_name = ''a'', sn_health = Healthy, sn_criticality = 1\<rparr>,
     AddService \<lparr>sn_id = ''b'', sn_name = ''b'', sn_health = Healthy, sn_criticality = 1\<rparr>,
     AddService \<lparr>sn_id = ''c'', sn_name = ''c'', sn_health = Healthy, sn_criticality = 1\<rparr>,
     AddDependency ''x'' ''a'' HardDependency (FFin 1),
     AddDependency ''a'' ''b'' HardDependency (FFin 1), AddDependency ''b'' ''c'' HardDependency (FFin 1)]"

lemma unregistered_source_hides_chain:
  "map_option length (critical_path (\<lambda>_. 0) length (fold dg_step hidden_chain dg_new)) = Some 1"
  by (code_simp, subst follow.simps, simp add: hm_get_def)

end
