(* ===== verification/RequestPrioritizer.thy ===== *)
theory RequestPrioritizer
  imports Floats "HOL-Library.Multiset"
begin

text \<open>
  The request prioritizer (\<open>src/request_prioritizer.rs\<close>): a queue per priority level, expiry of overdue
  requests, and three policies choosing the level that is served. The queues are a \<open>BTreeMap\<close>, here a
  list of pairs iterated by key. An abstract queue, one list in order of arrival, says what strict
  priority promises; the code refines it.
\<close>

section \<open>Requests and policies\<close>

datatype RequestPriority = Background | Low | Normal | High | Critical

fun level :: "RequestPriority \<Rightarrow> u8" where
  "level Background = 0"
| "level Low = 1"
| "level Normal = 2"
| "level High = 3"
| "level Critical = 4"

definition from_level :: "u8 \<Rightarrow> RequestPriority option" where
  "from_level l =
    (if l = 0 then Some Background else if l = 1 then Some Low else if l = 2 then Some Normal
     else if l = 3 then Some High else if l = 4 then Some Critical else None)"

instantiation RequestPriority :: linorder
begin

definition less_eq_RequestPriority :: "RequestPriority \<Rightarrow> RequestPriority \<Rightarrow> bool" where
  "less_eq_RequestPriority p q = (level p \<le> level q)"

definition less_RequestPriority :: "RequestPriority \<Rightarrow> RequestPriority \<Rightarrow> bool" where
  "less_RequestPriority p q = (level p < level q)"

instance
proof
  fix p q r :: RequestPriority
  show "p < q \<longleftrightarrow> p \<le> q \<and> \<not> q \<le> p" by (auto simp: less_eq_RequestPriority_def less_RequestPriority_def)
  show "p \<le> p" by (simp add: less_eq_RequestPriority_def)
  show "p \<le> q \<Longrightarrow> q \<le> r \<Longrightarrow> p \<le> r" by (simp add: less_eq_RequestPriority_def)
  show "p \<le> q \<Longrightarrow> q \<le> p \<Longrightarrow> p = q" by (cases p; cases q) (simp_all add: less_eq_RequestPriority_def word_le_nat_alt)
  show "p \<le> q \<or> q \<le> p" by (auto simp: less_eq_RequestPriority_def)
qed

end

record PrioritizedRequest =
  pr_id :: u64
  priority :: RequestPriority
  payload :: string
  enqueued_at_ms :: u64
  pr_deadline_ms :: "u64 option"
  client_id :: string

definition is_overdue :: "u64 \<Rightarrow> PrioritizedRequest \<Rightarrow> bool" where
  "is_overdue now r = (case pr_deadline_ms r of Some dl \<Rightarrow> dl \<le> now | None \<Rightarrow> False)"

datatype FairnessPolicy = Strict | WeightedFair "(string, u32) hashmap" | RoundRobin

record QueueStats =
  total_queued :: nat
  by_priority :: "(u8, nat) hashmap"
  qs_expired_count :: u64

section \<open>The queue\<close>

type_synonym levels = "(u8, PrioritizedRequest list) hashmap"

record RequestPrioritizer =
  queues :: levels
  policy :: FairnessPolicy
  next_id :: u64
  client_counts :: "(string, u64) hashmap"
  expired_count :: u64
  rr_cursor :: nat

definition prioritizer_new :: "FairnessPolicy \<Rightarrow> RequestPrioritizer" where
  "prioritizer_new pol =
     \<lparr>queues = [], policy = pol, next_id = 1, client_counts = [], expired_count = 0, rr_cursor = 0\<rparr>"

text \<open>The queue of a level, empty when the map has none, and iteration by ascending level.\<close>

definition queue_at :: "levels \<Rightarrow> u8 \<Rightarrow> PrioritizedRequest list" where
  "queue_at m l = (case hm_get m l of Some q \<Rightarrow> q | None \<Rightarrow> [])"

definition by_level :: "levels \<Rightarrow> (u8 \<times> PrioritizedRequest list) list" where
  "by_level m = sort_key fst m"

definition enqueue :: "RequestPriority \<Rightarrow> string \<Rightarrow> u64 option \<Rightarrow> string \<Rightarrow> RequestPrioritizer \<Rightarrow> u64 \<times> RequestPrioritizer" where
  "enqueue pri pl dl client p =
    (let req = \<lparr>pr_id = next_id p, priority = pri, payload = pl, enqueued_at_ms = 0, pr_deadline_ms = dl,
                client_id = client\<rparr>
     in (next_id p, p\<lparr>next_id := next_id p + 1,
                      queues := hm_insert (level pri) (queue_at (queues p) (level pri) @ [req]) (queues p)\<rparr>))"

definition expire_overdue :: "u64 \<Rightarrow> RequestPrioritizer \<Rightarrow> nat \<times> RequestPrioritizer" where
  "expire_overdue now p =
    (let qs = hm_map_values (filter (\<lambda>r. \<not> is_overdue now r)) (queues p);
         count = (\<Sum>(l, q) \<leftarrow> queues p. length q - length (filter (\<lambda>r. \<not> is_overdue now r) q))
     in (count, p\<lparr>queues := qs, expired_count := expired_count p + of_nat count\<rparr>))"

text \<open>\<open>*client_counts.entry(client).or_insert(0) += 1\<close>\<close>

definition count_client :: "string \<Rightarrow> (string, u64) hashmap \<Rightarrow> (string, u64) hashmap" where
  "count_client c m = hm_insert c ((case hm_get m c of Some n \<Rightarrow> n | None \<Rightarrow> 0) + 1) m"

text \<open>Taking the front request of a level; \<open>None\<close> when the level has none.\<close>

definition pop_level :: "u8 \<Rightarrow> RequestPrioritizer \<Rightarrow> PrioritizedRequest option \<times> RequestPrioritizer" where
  "pop_level l p =
    (case queue_at (queues p) l of
       [] \<Rightarrow> (None, p)
     | req # q \<Rightarrow> (Some req, p\<lparr>queues := hm_insert l q (queues p),
                             client_counts := count_client (client_id req) (client_counts p)\<rparr>))"

definition dequeue_strict :: "RequestPrioritizer \<Rightarrow> PrioritizedRequest option \<times> RequestPrioritizer" where
  "dequeue_strict p =
    (case filter (\<lambda>(l, q). q \<noteq> []) (rev (by_level (queues p))) of
       [] \<Rightarrow> (None, p)
     | (l, _) # _ \<Rightarrow> pop_level l p)"

definition candidates :: "levels \<Rightarrow> (u8 \<times> string) list" where
  "candidates m = map (\<lambda>(l, q). (l, client_id (hd q))) (filter (\<lambda>(l, q). q \<noteq> []) (by_level m))"

definition fair_score :: "(string, u32) hashmap \<Rightarrow> (string, u64) hashmap \<Rightarrow> u8 \<times> string \<Rightarrow> f64" where
  "fair_score weights counts c =
    (case c of (l, client) \<Rightarrow>
      let w = f64_of_nat (unat (case hm_get weights client of Some w \<Rightarrow> w | None \<Rightarrow> 1));
          s = f64_of_u64 ((case hm_get counts client of Some n \<Rightarrow> n | None \<Rightarrow> 0) + 1)
      in f64_add (f64_div w s) (f64_mul (f64_of_nat (unat l)) (rnd64 (1 / 1000))))"

text \<open>\<open>max_by\<close> keeps the later of two elements unless the earlier one compares greater.\<close>

fun max_by :: "('a \<Rightarrow> f64) \<Rightarrow> 'a list \<Rightarrow> 'a option" where
  "max_by f [] = None"
| "max_by f (x # xs) = Some (fold (\<lambda>y best. if fp_lt (f y) (f best) then best else y) xs x)"

definition dequeue_weighted_fair :: "(string, u32) hashmap \<Rightarrow> RequestPrioritizer \<Rightarrow> PrioritizedRequest option \<times> RequestPrioritizer" where
  "dequeue_weighted_fair weights p =
    (case max_by (fair_score weights (client_counts p)) (candidates (queues p)) of
       None \<Rightarrow> (None, p)
     | Some (l, _) \<Rightarrow> pop_level l p)"

definition active_levels :: "levels \<Rightarrow> u8 list" where
  "active_levels m = rev (map fst (filter (\<lambda>(l, q). q \<noteq> []) (by_level m)))"

definition dequeue_round_robin :: "RequestPrioritizer \<Rightarrow> PrioritizedRequest option \<times> RequestPrioritizer" where
  "dequeue_round_robin p =
    (let ls = active_levels (queues p)
     in if ls = [] then (None, p)
        else let cursor = rr_cursor p mod length ls
             in pop_level (ls ! cursor) (p\<lparr>rr_cursor := (cursor + 1) mod length ls\<rparr>))"

definition dequeue :: "u64 \<Rightarrow> RequestPrioritizer \<Rightarrow> PrioritizedRequest option \<times> RequestPrioritizer" where
  "dequeue now p =
    (let p = snd (expire_overdue now p)
     in case policy p of
          Strict \<Rightarrow> dequeue_strict p
        | WeightedFair weights \<Rightarrow> dequeue_weighted_fair weights p
        | RoundRobin \<Rightarrow> dequeue_round_robin p)"

definition pq_len :: "RequestPrioritizer \<Rightarrow> nat" where
  "pq_len p = (\<Sum>(l, q) \<leftarrow> queues p. length q)"

definition pq_is_empty :: "RequestPrioritizer \<Rightarrow> bool" where
  "pq_is_empty p = (pq_len p = 0)"

definition peek_priority :: "RequestPrioritizer \<Rightarrow> RequestPriority option" where
  "peek_priority p =
    (case find (\<lambda>(l, q). q \<noteq> []) (rev (by_level (queues p))) of
       Some (l, _) \<Rightarrow> from_level l
     | None \<Rightarrow> None)"

definition pq_stats :: "RequestPrioritizer \<Rightarrow> QueueStats" where
  "pq_stats p =
     \<lparr>total_queued = pq_len p,
      by_priority = map (\<lambda>(l, q). (l, length q)) (filter (\<lambda>(l, q). q \<noteq> []) (queues p)),
      qs_expired_count = expired_count p\<rparr>"

section \<open>Operations and the line they stand for\<close>

datatype pq_op = Enqueue RequestPriority string "u64 option" string | Expire u64 | Dequeue u64

datatype pq_out = Assigned u64 | Expired nat | Served "PrioritizedRequest option"

fun pq_step :: "pq_op \<Rightarrow> RequestPrioritizer \<Rightarrow> pq_out \<times> RequestPrioritizer" where
  "pq_step (Enqueue pri pl dl client) p = apfst Assigned (enqueue pri pl dl client p)"
| "pq_step (Expire now) p = apfst Expired (expire_overdue now p)"
| "pq_step (Dequeue now) p = apfst Served (dequeue now p)"

fun outputs :: "('op \<Rightarrow> 's \<Rightarrow> 'out \<times> 's) \<Rightarrow> 'op list \<Rightarrow> 's \<Rightarrow> 'out list" where
  "outputs step [] s = []"
| "outputs step (x # xs) s = (case step x s of (out, s) \<Rightarrow> out # outputs step xs s)"

text \<open>
  The promise of strict priority: one line in order of arrival, from which the first of the
  requests of highest priority is taken.
\<close>

definition first_urgent :: "PrioritizedRequest list \<Rightarrow> PrioritizedRequest option" where
  "first_urgent line = find (\<lambda>r. priority r = Max (priority ` set line)) line"

fun line_step :: "pq_op \<Rightarrow> u64 \<times> PrioritizedRequest list \<Rightarrow> pq_out \<times> (u64 \<times> PrioritizedRequest list)" where
  "line_step (Enqueue pri pl dl client) (i, line) =
     (Assigned i, (i + 1, line @ [\<lparr>pr_id = i, priority = pri, payload = pl, enqueued_at_ms = 0,
        pr_deadline_ms = dl, client_id = client\<rparr>]))"
| "line_step (Expire now) (i, line) =
     (Expired (length (filter (is_overdue now) line)), (i, filter (\<lambda>r. \<not> is_overdue now r) line))"
| "line_step (Dequeue now) (i, line) =
     (let live = filter (\<lambda>r. \<not> is_overdue now r) line
      in case first_urgent live of
           None \<Rightarrow> (Served None, (i, live))
         | Some r \<Rightarrow> (Served (Some r), (i, remove1 r live)))"

section \<open>Levels of a line\<close>

abbreviation at_level :: "u8 \<Rightarrow> PrioritizedRequest \<Rightarrow> bool" where
  "at_level l r \<equiv> level (priority r) = l"

definition splits :: "levels \<Rightarrow> PrioritizedRequest list \<Rightarrow> bool" where
  "splits m line \<longleftrightarrow> hm_wf m \<and> (\<forall>l. queue_at m l = filter (at_level l) line)"

lemma queue_at_insert: "queue_at (hm_insert l q m) k = (if k = l then q else queue_at m k)"
  by (simp add: queue_at_def hm_get_insert)

lemma queue_at_map_values:
  "f [] = [] \<Longrightarrow> queue_at (hm_map_values f m) l = f (queue_at m l)"
  by (simp add: queue_at_def hm_get_map_values split: option.split)

lemma queue_at_in: "hm_wf m \<Longrightarrow> (l, q) \<in> set m \<Longrightarrow> queue_at m l = q"
  using hm_get_eq_Some_iff [of m l q] by (simp add: queue_at_def)

lemma queue_at_nonempty: "queue_at m l \<noteq> [] \<Longrightarrow> (l, queue_at m l) \<in> set m"
  by (auto simp: queue_at_def dest: hm_get_in_set split: option.splits)

lemma splits_sum:
  assumes "splits m line"
  shows "(\<Sum>(l, q) \<leftarrow> m. length (filter P q)) = length (filter P line)"
proof -
  have "(\<Sum>(l, q) \<leftarrow> n. length (filter P q)) = length (filter (\<lambda>r. P r \<and> level (priority r) \<in> fst ` set n) line)"
    if "distinct (map fst n)" "\<And>l q. (l, q) \<in> set n \<Longrightarrow> q = filter (at_level l) line" for n
    using that
  proof (induction n)
    case (Cons a n)
    obtain l q where a: "a = (l, q)" by fastforce
    have "length (filter (\<lambda>r. P r \<and> level (priority r) \<in> insert l (fst ` set n)) xs)
        = length (filter P (filter (at_level l) xs)) + length (filter (\<lambda>r. P r \<and> level (priority r) \<in> fst ` set n) xs)" for xs
      using Cons.prems(1) a by (induction xs) auto
    moreover have "(\<Sum>(l, q) \<leftarrow> n. length (filter P q))
        = length (filter (\<lambda>r. P r \<and> level (priority r) \<in> fst ` set n) line)"
      by (rule Cons.IH) (use Cons.prems in auto)
    ultimately show ?case using Cons.prems(2) [of l q] a by simp
  qed simp
  moreover have "level (priority r) \<in> fst ` set m" if "r \<in> set line" for r
  proof -
    have "queue_at m (level (priority r)) \<noteq> []"
      using assms that by (auto simp: splits_def filter_empty_conv)
    then show ?thesis using queue_at_nonempty by force
  qed
  then have "filter (\<lambda>r. P r \<and> level (priority r) \<in> fst ` set m) line = filter P line" by (auto intro: filter_cong)
  ultimately show ?thesis using assms queue_at_in [of m] unfolding splits_def hm_wf_def by simp
qed

lemma splits_expire:
  assumes "splits (queues p) line"
  shows "fst (expire_overdue now p) = length (filter (is_overdue now) line)"
    and "splits (queues (snd (expire_overdue now p))) (filter (\<lambda>r. \<not> is_overdue now r) line)"
proof -
  have "length q - length (filter (\<lambda>r. \<not> is_overdue now r) q) = length (filter (is_overdue now) q)" for q
    using sum_length_filter_compl [of "is_overdue now" q] by simp
  then show "fst (expire_overdue now p) = length (filter (is_overdue now) line)"
    using splits_sum [OF assms, of "is_overdue now"] by (simp add: expire_overdue_def Let_def)
  show "splits (queues (snd (expire_overdue now p))) (filter (\<lambda>r. \<not> is_overdue now r) line)"
    using assms by (simp add: expire_overdue_def Let_def splits_def queue_at_map_values conj_commute)
qed

lemma splits_enqueue:
  assumes "splits (queues p) line"
  shows "splits (queues (snd (enqueue pri pl dl client p)))
    (line @ [\<lparr>pr_id = next_id p, priority = pri, payload = pl, enqueued_at_ms = 0, pr_deadline_ms = dl, client_id = client\<rparr>])"
  using assms by (simp add: enqueue_def splits_def queue_at_insert)

lemma find_by_filter: "find P xs = (case filter P xs of [] \<Rightarrow> None | x # _ \<Rightarrow> Some x)"
  by (induction xs) auto

text \<open>Serving any level that has a request takes the oldest request of that level out of the line.\<close>

lemma pop_level_line:
  assumes "splits (queues p) line" and "queue_at (queues p) l \<noteq> []"
  obtains r p' where "pop_level l p = (Some r, p')" "r \<in> set line" "at_level l r" "find (at_level l) line = Some r"
    "splits (queues p') (remove1 r line)" "next_id p' = next_id p" "policy p' = policy p"
proof -
  obtain r q where q: "queue_at (queues p) l = r # q" using assms(2) by (cases "queue_at (queues p) l") auto
  have f: "filter (at_level k) line = queue_at (queues p) k" for k using assms(1) by (simp add: splits_def)
  have "r \<in> set (filter (at_level l) line)" using f [of l] q by simp
  then have r: "r \<in> set line" "at_level l r" by simp_all
  have "r \<notin> set (queue_at (queues p) k)" if "k \<noteq> l" for k
    using that r(2) by (auto simp flip: f)
  then have "filter (at_level k) (remove1 r line) = queue_at (hm_insert l q (queues p)) k" for k
    using f [of k] q by (simp add: queue_at_insert filter_remove1 remove1_idem)
  moreover have "find (at_level l) line = Some r" using f [of l] q by (simp add: find_by_filter)
  ultimately show thesis using assms(1) q r
    by (intro that [of r "p\<lparr>queues := hm_insert l q (queues p), client_counts := count_client (client_id r) (client_counts p)\<rparr>"])
      (simp_all add: pop_level_def splits_def)
qed

section \<open>Choosing a level\<close>

lemma set_by_level [simp]: "set (by_level m) = set m"
  by (simp add: by_level_def)

lemma levels_empty_iff:
  assumes "splits m line"
  shows "(\<forall>(l, q) \<in> set m. q = []) \<longleftrightarrow> line = []"
proof
  assume a: "\<forall>(l, q) \<in> set m. q = []"
  have "queue_at m l = []" for l using queue_at_nonempty [of m l] a by blast
  then have none: "filter (at_level l) line = []" for l using assms by (simp add: splits_def)
  show "line = []"
  proof (cases line)
    case (Cons r rest)
    then show ?thesis using none [of "level (priority r)"] by simp
  qed
next
  assume "line = []"
  then show "\<forall>(l, q) \<in> set m. q = []" using assms queue_at_in [of m] by (auto simp: splits_def)
qed

text \<open>Strict priority serves the level of the most urgent request.\<close>

lemma strict_level:
  assumes "splits (queues p) line" and "line \<noteq> []"
  obtains l where "dequeue_strict p = pop_level l p" "queue_at (queues p) l \<noteq> []" "\<forall>r \<in> set line. level (priority r) \<le> l"
proof -
  let ?m = "queues p" and ?P = "\<lambda>(l, q). q \<noteq> []"
  have wf: "hm_wf ?m" using assms(1) by (simp add: splits_def)
  have "filter ?P (rev (by_level ?m)) \<noteq> []"
    using levels_empty_iff [OF assms(1)] assms(2) by (auto simp: filter_empty_conv)
  then obtain l q rest where f: "filter ?P (rev (by_level ?m)) = (l, q) # rest" by (cases "filter ?P (rev (by_level ?m))") auto
  then have lq: "(l, q) \<in> set ?m" "q \<noteq> []" by (metis (mono_tags, lifting) case_prodD filter_eq_ConsD in_set_conv_decomp set_by_level set_rev)+
  have "sorted (map fst (by_level ?m))" by (simp add: by_level_def)
  then have "sorted_wrt (\<lambda>a b. fst b \<le> fst a) (rev (by_level ?m))"
    by (simp add: sorted_wrt_rev sorted_wrt_map)
  then have "sorted_wrt (\<lambda>a b. fst b \<le> fst a) (filter ?P (rev (by_level ?m)))" by (rule sorted_wrt_filter)
  then have max: "k \<le> l" if "(k, q') \<in> set ?m" "q' \<noteq> []" for k q'
  proof -
    have "(k, q') \<in> set (filter ?P (rev (by_level ?m)))" using that by simp
    moreover assume "sorted_wrt (\<lambda>a b. fst b \<le> fst a) (filter ?P (rev (by_level ?m)))"
    ultimately show ?thesis unfolding f by auto
  qed
  have "level (priority r) \<le> l" if "r \<in> set line" for r
  proof -
    have "queue_at ?m (level (priority r)) \<noteq> []" using assms(1) that by (auto simp: splits_def filter_empty_conv)
    then show ?thesis using max queue_at_nonempty by blast
  qed
  then show thesis using f lq queue_at_in [OF wf lq(1)] by (intro that [of l]) (simp_all add: dequeue_strict_def)
qed

lemma max_by_mem: "max_by f xs = Some x \<Longrightarrow> x \<in> set xs"
proof (cases xs)
  case (Cons y ys)
  have "fold (\<lambda>y best. if fp_lt (f y) (f best) then best else y) zs x \<in> insert x (set zs)" for zs x
  proof (induction zs arbitrary: x)
    case (Cons z zs)
    then show ?case using Cons [of x] Cons [of z] by auto
  qed simp
  then show "max_by f xs = Some x \<Longrightarrow> x \<in> set xs" using Cons by auto
qed simp

lemma max_by_None [simp]: "max_by f xs = None \<longleftrightarrow> xs = []"
  by (cases xs) simp_all

lemma serves_some_level:
  assumes s: "splits (queues p) line" and "line \<noteq> []"
    and pick: "pick \<in> {dequeue_strict, dequeue_weighted_fair weights, dequeue_round_robin}"
  obtains l p0 where "pick p = pop_level l p0" "queues p0 = queues p" "next_id p0 = next_id p" "policy p0 = policy p"
    "queue_at (queues p) l \<noteq> []"
proof -
  have wf: "hm_wf (queues p)" using s by (simp add: splits_def)
  obtain k q where kq: "(k, q) \<in> set (queues p)" "q \<noteq> []" using levels_empty_iff [OF s] assms(2) by blast
  have ne: "queue_at (queues p) l \<noteq> []" if "(l, q) \<in> set (queues p)" "q \<noteq> []" for l q
    using queue_at_in [OF wf] that by simp
  consider "pick = dequeue_strict" | "pick = dequeue_weighted_fair weights" | "pick = dequeue_round_robin" using pick by blast
  then show thesis
  proof cases
    case 1
    then show ?thesis using strict_level [OF s assms(2)] that by metis
  next
    case 2
    have "candidates (queues p) \<noteq> []" using kq by (force simp: candidates_def filter_empty_conv)
    then obtain l c where m: "max_by (fair_score weights (client_counts p)) (candidates (queues p)) = Some (l, c)"
      by (metis max_by_None not_None_eq surj_pair)
    then have "(l, c) \<in> set (candidates (queues p))" by (rule max_by_mem)
    then obtain q where "(l, q) \<in> set (queues p)" "q \<noteq> []" by (auto simp: candidates_def)
    then show ?thesis using 2 m ne by (intro that [of l p]) (simp_all add: dequeue_weighted_fair_def)
  next
    case 3
    have lv: "active_levels (queues p) \<noteq> []" using kq by (force simp: active_levels_def filter_empty_conv)
    let ?l = "active_levels (queues p) ! (rr_cursor p mod length (active_levels (queues p)))"
    have "?l \<in> set (active_levels (queues p))" using lv by (intro nth_mem) simp
    then obtain q where "(?l, q) \<in> set (queues p)" "q \<noteq> []" by (force simp: active_levels_def)
    then show ?thesis using 3 lv ne
      by (intro that [of ?l "p\<lparr>rr_cursor := (rr_cursor p mod length (active_levels (queues p)) + 1) mod length (active_levels (queues p))\<rparr>"])
        (simp_all add: dequeue_round_robin_def Let_def)
  qed
qed

text \<open>With nothing in the line every policy returns nothing and keeps the queues.\<close>

lemma serves_nothing:
  assumes "splits (queues p) []" and "pick \<in> {dequeue_strict, dequeue_weighted_fair weights, dequeue_round_robin}"
  shows "pick p = (None, p)"
proof -
  have "\<forall>(l, q) \<in> set (queues p). q = []" using levels_empty_iff [OF assms(1)] by simp
  then have "filter (\<lambda>(l, q). q \<noteq> []) (by_level (queues p)) = []" by (auto simp: filter_empty_conv)
  then show ?thesis using assms(2)
    by (auto simp: dequeue_strict_def dequeue_weighted_fair_def dequeue_round_robin_def candidates_def active_levels_def
      simp flip: rev_filter)
qed

section \<open>Refinement of the line\<close>

definition refines_line :: "FairnessPolicy \<Rightarrow> RequestPrioritizer \<Rightarrow> u64 \<times> PrioritizedRequest list \<Rightarrow> bool" where
  "refines_line pol p s \<longleftrightarrow> policy p = pol \<and> next_id p = fst s \<and> splits (queues p) (snd s)"

lemma expire_frame: "next_id (snd (expire_overdue now p)) = next_id p" "policy (snd (expire_overdue now p)) = policy p"
  by (simp_all add: expire_overdue_def Let_def)

lemma dequeue_pick:
  "\<exists>weights pick. pick \<in> {dequeue_strict, dequeue_weighted_fair weights, dequeue_round_robin}
    \<and> (policy p = Strict \<longrightarrow> pick = dequeue_strict) \<and> dequeue now p = pick (snd (expire_overdue now p))"
  by (cases "policy p") (auto simp: dequeue_def Let_def expire_frame)

lemma first_urgent_level:
  assumes "r \<in> set line" and "find (at_level (level (priority r))) line = Some r" and "\<And>q. q \<in> set line \<Longrightarrow> priority q \<le> priority r"
  shows "first_urgent line = Some r"
proof -
  have "Max (priority ` set line) = priority r" by (rule Max_eqI) (use assms in auto)
  moreover have "at_level (level (priority r)) = (\<lambda>q. priority q = priority r)"
    by (rule ext) (metis less_eq_RequestPriority_def order_antisym order_refl)
  ultimately show ?thesis using assms(2) by (simp add: first_urgent_def)
qed

lemma strict_step_refines:
  assumes "refines_line Strict p s"
  shows "fst (pq_step x p) = fst (line_step x s) \<and> refines_line Strict (snd (pq_step x p)) (snd (line_step x s))"
proof -
  obtain i line where s: "s = (i, line)" by fastforce
  have sp: "splits (queues p) line" "next_id p = i" "policy p = Strict" using assms s by (simp_all add: refines_line_def)
  show ?thesis
  proof (cases x)
    case (Enqueue pri pl dl client)
    then show ?thesis using splits_enqueue [OF sp(1), of pri pl dl client] sp(2,3) s
      by (simp add: refines_line_def) (simp add: enqueue_def Let_def)
  next
    case (Expire now)
    then show ?thesis using splits_expire [OF sp(1), of now] sp(2,3) s by (simp add: refines_line_def expire_frame)
  next
    case (Dequeue now)
    let ?p = "snd (expire_overdue now p)" and ?live = "filter (\<lambda>r. \<not> is_overdue now r) line"
    have e: "splits (queues ?p) ?live" "next_id ?p = i" "policy ?p = Strict"
      using splits_expire(2) [OF sp(1)] sp(2,3) by (simp_all add: expire_frame)
    have d: "dequeue now p = dequeue_strict ?p" using e(3) by (simp add: dequeue_def Let_def)
    show ?thesis
    proof (cases "?live = []")
      case True
      then have "dequeue_strict ?p = (None, ?p)" using serves_nothing [of ?p dequeue_strict "[]"] e(1) by simp
      then show ?thesis using Dequeue s e True by (simp add: d refines_line_def first_urgent_def)
    next
      case False
      then obtain l where l: "dequeue_strict ?p = pop_level l ?p" "queue_at (queues ?p) l \<noteq> []"
          "\<forall>r \<in> set ?live. level (priority r) \<le> l" using strict_level [OF e(1)] by blast
      obtain r p' where r: "pop_level l ?p = (Some r, p')" "r \<in> set ?live" "at_level l r" "find (at_level l) ?live = Some r"
          "splits (queues p') (remove1 r ?live)" "next_id p' = next_id ?p" "policy p' = policy ?p"
        using pop_level_line [OF e(1) l(2)] by blast
      have "first_urgent ?live = Some r"
        by (rule first_urgent_level) (use r(2-4) l(3) in \<open>auto simp: less_eq_RequestPriority_def\<close>)
      then show ?thesis using Dequeue s e(2,3) r by (simp add: d l(1) refines_line_def)
    qed
  qed
qed

text \<open>
  C6. Under the strict policy the prioritizer cannot be told apart from a single line in order of
  arrival: for every sequence of calls all results agree, the identifiers assigned, the numbers of
  requests expired, and the requests served, each the oldest of those of the highest priority.
\<close>

theorem strict_priority_refines_line:
  "outputs pq_step ops (prioritizer_new Strict) = outputs line_step ops (1, [])"
proof -
  have "outputs pq_step ops p = outputs line_step ops s" if "refines_line Strict p s" for p s
    using that
  proof (induction ops arbitrary: p s)
    case (Cons x ops)
    show ?case using strict_step_refines [OF Cons.prems, of x] Cons.IH
      by (simp add: case_prod_unfold)
  qed simp
  then show ?thesis by (simp add: refines_line_def prioritizer_new_def splits_def queue_at_def)
qed

section \<open>Every policy\<close>

definition pq_wf :: "RequestPrioritizer \<Rightarrow> bool" where
  "pq_wf p \<longleftrightarrow> (\<exists>line. splits (queues p) line)"

lemma dequeue_line:
  fixes now :: u64
  assumes "splits (queues p) line"
  defines "live \<equiv> filter (\<lambda>r. \<not> is_overdue now r) line"
  shows "case dequeue now p of
      (None, p') \<Rightarrow> live = [] \<and> splits (queues p') []
    | (Some r, p') \<Rightarrow> r \<in> set live \<and> find (at_level (level (priority r))) live = Some r \<and> splits (queues p') (remove1 r live)"
proof -
  let ?p = "snd (expire_overdue now p)"
  have e: "splits (queues ?p) live" using splits_expire(2) [OF assms(1)] by (simp add: live_def)
  obtain weights pick where pick: "pick \<in> {dequeue_strict, dequeue_weighted_fair weights, dequeue_round_robin}"
      "dequeue now p = pick ?p" using dequeue_pick [of p now] by blast
  show ?thesis
  proof (cases "live = []")
    case True
    then show ?thesis using e pick serves_nothing [of ?p pick weights] by simp
  next
    case False
    obtain l p0 where l: "pick ?p = pop_level l p0" "queues p0 = queues ?p" "queue_at (queues ?p) l \<noteq> []"
      using serves_some_level [OF e False pick(1)] by blast
    have "splits (queues p0) live" "queue_at (queues p0) l \<noteq> []" using e l by simp_all
    then obtain r p' where "pop_level l p0 = (Some r, p')" "r \<in> set live" "at_level l r" "find (at_level l) live = Some r"
        "splits (queues p') (remove1 r live)" by (rule pop_level_line)
    then show ?thesis using pick(2) l(1) by simp
  qed
qed

lemma pq_wf_step: "pq_wf p \<Longrightarrow> pq_wf (snd (pq_step x p))"
proof (cases x)
  case (Dequeue now)
  assume "pq_wf p"
  then obtain line where "splits (queues p) line" by (auto simp: pq_wf_def)
  from dequeue_line [OF this, of now] show "pq_wf (snd (pq_step x p))"
    using Dequeue by (auto simp: pq_wf_def split: option.splits prod.splits)
qed (auto simp: pq_wf_def intro: splits_enqueue splits_expire(2))

interpretation prioritizer: stateful "\<lambda>x p. snd (pq_step x p)" pq_wf
  by unfold_locales (rule pq_wf_step)

definition queued_requests :: "RequestPrioritizer \<Rightarrow> PrioritizedRequest multiset" where
  "queued_requests p = mset (concat (map snd (queues p)))"

lemma queued_line:
  assumes "splits (queues p) line"
  shows "queued_requests p = mset line"
proof -
  have c: "count_list xs r = length (filter ((=) r) xs)" for r :: PrioritizedRequest and xs
    by (induction xs) auto
  have d: "length (filter ((=) r) (concat (map snd m))) = (\<Sum>(l, q) \<leftarrow> m. length (filter ((=) r) q))" for r and m :: levels
    by (induction m) auto
  have "count (mset (concat (map snd (queues p)))) r = count (mset line) r" for r
    using splits_sum [OF assms, of "(=) r"] by (simp add: count_mset c d)
  then show ?thesis by (simp add: queued_requests_def multiset_eqI)
qed

text \<open>
  Whatever the policy and the calls made before, a dequeue finds nothing only when no request
  is left that is still in time; otherwise it returns such a request, the queues lose exactly this
  request and the overdue ones, and no request of the same priority that arrived earlier is left.
\<close>

theorem dequeue_conserves_requests:
  "let p = fold (\<lambda>x p. snd (pq_step x p)) ops (prioritizer_new pol);
       live = filter_mset (\<lambda>r. \<not> is_overdue now r) (queued_requests p)
   in case dequeue now p of
        (None, p') \<Rightarrow> live = {#} \<and> queued_requests p' = {#}
      | (Some r, p') \<Rightarrow> r \<in># live \<and> queued_requests p' = live - {#r#}
          \<and> find (\<lambda>q. \<not> is_overdue now q) (queue_at (queues p) (level (priority r))) = Some r"
proof -
  define p where "p = fold (\<lambda>x p. snd (pq_step x p)) ops (prioritizer_new pol)"
  have "pq_wf p" unfolding p_def
    by (rule prioritizer.run_inv) (auto simp: pq_wf_def splits_def prioritizer_new_def queue_at_def intro!: exI [of _ "[]"])
  then obtain line where line: "splits (queues p) line" by (auto simp: pq_wf_def)
  have q: "queued_requests p' = mset line'" if "splits (queues p') line'" for p' line' using queued_line [OF that] .
  have f: "find (\<lambda>q. \<not> is_overdue now q) (queue_at (queues p) l) = find (at_level l) (filter (\<lambda>r. \<not> is_overdue now r) line)" for l
    using line by (simp add: splits_def find_by_filter conj_commute)
  show ?thesis using dequeue_line [OF line, of now]
    unfolding Let_def p_def [symmetric]
    by (auto simp: f q [OF line] q filter_empty_conv split: option.splits prod.splits)
qed

text \<open>The cursor of the round robin counts levels that are gone: emptying a level skips the next.\<close>

theorem round_robin_skips_level:
  "outputs pq_step [Enqueue Critical ''a'' None ''c'', Enqueue High ''b'' None ''c'', Enqueue Normal ''d'' None ''c'',
     Dequeue 0, Dequeue 0, Dequeue 0] (prioritizer_new RoundRobin) =
   [Assigned 1, Assigned 2, Assigned 3,
    Served (Some \<lparr>pr_id = 1, priority = Critical, payload = ''a'', enqueued_at_ms = 0, pr_deadline_ms = None, client_id = ''c''\<rparr>),
    Served (Some \<lparr>pr_id = 3, priority = Normal, payload = ''d'', enqueued_at_ms = 0, pr_deadline_ms = None, client_id = ''c''\<rparr>),
    Served (Some \<lparr>pr_id = 2, priority = High, payload = ''b'', enqueued_at_ms = 0, pr_deadline_ms = None, client_id = ''c''\<rparr>)]"
  by code_simp

end
