(* ===== verification/Bulkhead.thy ===== *)
theory Bulkhead
  imports Floats "HOL-Library.Multiset"
begin

text \<open>
  Bulkheads (\<open>src/bulkhead.rs\<close>): limits on the calls that run and wait at the same time, one kind with
  counters the calls keep (\<open>Bulkhead\<close>), one that trusts its semaphore (\<open>BulkheadHandle\<close>). Calls run
  concurrently and may be cancelled while they await; between two accesses to a shared counter any
  other call may move. A state holds the multiset of the phases its calls are in, and each step
  moves one call. The semaphore is its number of free permits; nothing in the code closes it.
\<close>

section \<open>Configuration, errors and statistics\<close>

datatype BulkheadError = Rejected string | Timeout

fun error_text :: "BulkheadError \<Rightarrow> string" where
  "error_text (Rejected reason) = ''bulkhead rejected: '' @ reason"
| "error_text Timeout = ''bulkhead timeout''"

record BulkheadConfig =
  max_concurrent :: u64
  max_queue_size :: u64
  timeout_ms :: u64

definition BulkheadConfig_default :: BulkheadConfig where
  "BulkheadConfig_default = \<lparr>max_concurrent = 10, max_queue_size = 20, timeout_ms = 5000\<rparr>"

text \<open>What waiting for a permit under a timeout yields.\<close>

datatype acquired = Permit | Closed | Elapsed

text \<open>
  Where a call is: before its first load, after each of the two loads, waiting for a permit, woken,
  holding a permit before it counts itself, running, done and still counted, done with the permit
  in hand, returned, and cancelled while waiting or running. The flag says whether the call has
  counted itself as queued.
\<close>

datatype phase = Start | Loaded u64 | Checked u64 u64 | Waiting bool | Woken bool acquired | Ready | Running
  | Finished bool | Releasing "BulkheadError option" | Returned "BulkheadError option" | CancelledWaiting bool | CancelledRunning

record Bulkhead =
  bh_config :: BulkheadConfig
  permits :: nat
  in_flight :: u64
  queued :: u64
  total_rejected :: u64
  total_completed :: u64
  calls :: "phase multiset"

definition bulkhead_new :: "BulkheadConfig \<Rightarrow> Bulkhead" where
  "bulkhead_new c = \<lparr>bh_config = c, permits = unat (max_concurrent c), in_flight = 0, queued = 0, total_rejected = 0,
     total_completed = 0, calls = {#}\<rparr>"

record BulkheadStats =
  bs_in_flight :: u64
  bs_queued :: u64
  bs_total_rejected :: u64
  bs_total_completed :: u64
  rejection_rate :: f64

definition bulkhead_stats :: "Bulkhead \<Rightarrow> BulkheadStats" where
  "bulkhead_stats b =
    (let total = total_rejected b + total_completed b
     in \<lparr>bs_in_flight = in_flight b, bs_queued = queued b, bs_total_rejected = total_rejected b,
         bs_total_completed = total_completed b,
         rejection_rate = (if total = 0 then FFin 0 else f64_div (f64_of_u64 (total_rejected b)) (f64_of_u64 total))\<rparr>)"

section \<open>One call of \<open>try_execute\<close>\<close>

definition move :: "phase \<Rightarrow> phase \<Rightarrow> Bulkhead \<Rightarrow> Bulkhead" where
  "move x y b = b\<lparr>calls := add_mset y (calls b - {#x#})\<rparr>"

definition reject :: "Bulkhead \<Rightarrow> Bulkhead" where
  "reject b = b\<lparr>total_rejected := total_rejected b + 1\<rparr>"

text \<open>The test of both limits, on the values loaded before, and the decision to queue.\<close>

definition admit :: "u64 \<Rightarrow> u64 \<Rightarrow> Bulkhead \<Rightarrow> phase \<times> Bulkhead" where
  "admit seen_in_flight seen_queued b =
    (if max_concurrent (bh_config b) \<le> seen_in_flight \<and> max_queue_size (bh_config b) \<le> seen_queued
     then (Returned (Some (Rejected ''concurrency and queue limits both reached'')), reject b)
     else if max_concurrent (bh_config b) \<le> seen_in_flight
     then (Waiting True, b\<lparr>queued := queued b + 1\<rparr>)
     else (Waiting False, b))"

definition settle :: "bool \<Rightarrow> acquired \<Rightarrow> Bulkhead \<Rightarrow> phase \<times> Bulkhead" where
  "settle needs_queue outcome b =
    (let b = (if needs_queue then b\<lparr>queued := queued b - 1\<rparr> else b)
     in case outcome of
          Permit \<Rightarrow> (Ready, b)
        | Closed \<Rightarrow> (Returned (Some (Rejected ''semaphore closed'')), reject b)
        | Elapsed \<Rightarrow> (Returned (Some Timeout), reject b))"

definition finish :: "bool \<Rightarrow> Bulkhead \<Rightarrow> phase \<times> Bulkhead" where
  "finish completed b =
    (let b = b\<lparr>in_flight := in_flight b - 1\<rparr>
     in if completed then (Releasing None, b\<lparr>total_completed := total_completed b + 1\<rparr>)
        else (Releasing (Some Timeout), reject b))"

inductive bh_step :: "Bulkhead \<Rightarrow> Bulkhead \<Rightarrow> bool" where
  Call: "bh_step b (b\<lparr>calls := add_mset Start (calls b)\<rparr>)"
| Load_in_flight: "Start \<in># calls b \<Longrightarrow> bh_step b (move Start (Loaded (in_flight b)) b)"
| Load_queued: "Loaded n \<in># calls b \<Longrightarrow> bh_step b (move (Loaded n) (Checked n (queued b)) b)"
| Admit: "Checked n q \<in># calls b \<Longrightarrow> admit n q b = (x, b') \<Longrightarrow> bh_step b (move (Checked n q) x b')"
| Acquire: "Waiting w \<in># calls b \<Longrightarrow> 0 < permits b \<Longrightarrow>
    bh_step b (move (Waiting w) (Woken w Permit) (b\<lparr>permits := permits b - 1\<rparr>))"
| Elapse: "Waiting w \<in># calls b \<Longrightarrow> bh_step b (move (Waiting w) (Woken w Elapsed) b)"
| Settle: "Woken w a \<in># calls b \<Longrightarrow> settle w a b = (x, b') \<Longrightarrow> bh_step b (move (Woken w a) x b')"
| Enter: "Ready \<in># calls b \<Longrightarrow> bh_step b (move Ready Running (b\<lparr>in_flight := in_flight b + 1\<rparr>))"
| Complete: "Running \<in># calls b \<Longrightarrow> bh_step b (move Running (Finished True) b)"
| Run_out: "Running \<in># calls b \<Longrightarrow> bh_step b (move Running (Finished False) b)"
| Finish: "Finished c \<in># calls b \<Longrightarrow> finish c b = (x, b') \<Longrightarrow> bh_step b (move (Finished c) x b')"
| Release: "Releasing r \<in># calls b \<Longrightarrow> bh_step b (move (Releasing r) (Returned r) (b\<lparr>permits := permits b + 1\<rparr>))"
| Cancel_waiting: "Waiting w \<in># calls b \<Longrightarrow> bh_step b (move (Waiting w) (CancelledWaiting w) b)"
| Cancel_running: "Running \<in># calls b \<Longrightarrow> bh_step b (move Running CancelledRunning (b\<lparr>permits := permits b + 1\<rparr>))"

inductive_cases bh_stepE: "bh_step b b'"

section \<open>What the counters say\<close>

fun holds_permit :: "phase \<Rightarrow> bool" where
  "holds_permit (Woken _ a) = (a = Permit)"
| "holds_permit Ready = True"
| "holds_permit Running = True"
| "holds_permit (Finished _) = True"
| "holds_permit (Releasing _) = True"
| "holds_permit _ = False"

fun counts_in_flight :: "phase \<Rightarrow> bool" where
  "counts_in_flight Running = True"
| "counts_in_flight (Finished _) = True"
| "counts_in_flight CancelledRunning = True"
| "counts_in_flight _ = False"

fun counts_queued :: "phase \<Rightarrow> bool" where
  "counts_queued (Waiting w) = w"
| "counts_queued (Woken w _) = w"
| "counts_queued (CancelledWaiting w) = w"
| "counts_queued _ = False"

fun answered :: "phase \<Rightarrow> bool" where
  "answered (Releasing _) = True"
| "answered (Returned _) = True"
| "answered _ = False"

abbreviation number :: "(phase \<Rightarrow> bool) \<Rightarrow> Bulkhead \<Rightarrow> nat" where
  "number P b \<equiv> size (filter_mset P (calls b))"

definition bh_inv :: "BulkheadConfig \<Rightarrow> Bulkhead \<Rightarrow> bool" where
  "bh_inv c b \<longleftrightarrow> bh_config b = c
     \<and> permits b + number holds_permit b = unat (max_concurrent c)
     \<and> in_flight b = of_nat (number counts_in_flight b)
     \<and> queued b = of_nat (number counts_queued b)
     \<and> total_rejected b + total_completed b = of_nat (number answered b)"

text \<open>A move keeps the invariant when it changes each counter by what its phases count.\<close>

lemma bh_inv_move:
  assumes inv: "bh_inv c b" and x: "x \<in># calls b" and frame: "calls b' = calls b" "bh_config b' = bh_config b"
    and "permits b' + of_bool (holds_permit y) = permits b + of_bool (holds_permit x)"
    and "in_flight b' + of_bool (counts_in_flight x) = in_flight b + of_bool (counts_in_flight y)"
    and "queued b' + of_bool (counts_queued x) = queued b + of_bool (counts_queued y)"
    and "total_rejected b' + total_completed b' + of_bool (answered x) = total_rejected b + total_completed b + of_bool (answered y)"
  shows "bh_inv c (move x y b')"
proof -
  obtain N where N: "calls b = add_mset x N" using multi_member_split [OF x] by blast
  have "permits b' + of_bool (holds_permit y) + size (filter_mset holds_permit N) = unat (max_concurrent c)"
    using inv assms(5) by (cases "holds_permit x") (simp_all add: bh_inv_def N)
  moreover have "in_flight b' = of_nat (size (filter_mset counts_in_flight N)) + of_bool (counts_in_flight y)"
    using inv assms(6) by (cases "counts_in_flight x") (simp_all add: bh_inv_def N algebra_simps)
  moreover have "queued b' = of_nat (size (filter_mset counts_queued N)) + of_bool (counts_queued y)"
    using inv assms(7) by (cases "counts_queued x") (simp_all add: bh_inv_def N algebra_simps)
  moreover have "total_rejected b' + total_completed b' = of_nat (size (filter_mset answered N)) + of_bool (answered y)"
    using inv assms(8) by (cases "answered x") (simp_all add: bh_inv_def N algebra_simps)
  ultimately show ?thesis using inv
    by (simp add: bh_inv_def move_def frame N of_bool_def split: if_splits)
qed

lemma bh_step_inv: "bh_step b b' \<Longrightarrow> bh_inv c b \<Longrightarrow> bh_inv c b'"
proof (induction rule: bh_step.induct)
  case (Call b)
  then show ?case by (simp add: bh_inv_def)
next
  case (Admit n q b x b')
  then show ?case by (intro bh_inv_move [of c b]) (auto simp: admit_def reject_def split: if_splits)
next
  case (Acquire w b)
  then show ?case by (intro bh_inv_move [of c b]) auto
next
  case (Settle w a b x b')
  then show ?case by (intro bh_inv_move [of c b]) (auto simp: settle_def reject_def Let_def split: if_splits acquired.splits)
next
  case (Finish k b x b')
  then show ?case by (intro bh_inv_move [of c b]) (auto simp: finish_def reject_def Let_def split: if_splits)
qed (rule bh_inv_move, assumption, assumption, simp_all)+

lemma bh_reach_inv:
  assumes "bh_step\<^sup>*\<^sup>* (bulkhead_new c) b"
  shows "bh_inv c b"
  using assms
proof (induction rule: rtranclp_induct)
  case base
  then show ?case by (simp add: bh_inv_def bulkhead_new_def)
qed (rule bh_step_inv)

text \<open>
  C16. In every execution, cancellations included, the calls that hold a permit and the free permits
  add up to the configured concurrency, so never more calls run than configured. The counters say
  exactly what they count: in-flight and queued calls, those cancelled in these phases among them,
  and one outcome for every call that was answered.
\<close>

theorem bulkhead_limits_concurrency:
  assumes "bh_step\<^sup>*\<^sup>* (bulkhead_new c) b"
  shows "number (\<lambda>x. x = Running) b \<le> unat (max_concurrent c)
    \<and> permits b + number holds_permit b = unat (max_concurrent c)
    \<and> in_flight b = of_nat (number counts_in_flight b)
    \<and> queued b = of_nat (number counts_queued b)
    \<and> total_rejected b + total_completed b = of_nat (number answered b)"
proof -
  have inv: "bh_inv c b" by (rule bh_reach_inv [OF assms])
  have "filter_mset (\<lambda>x. x = Running) (calls b) \<subseteq># filter_mset holds_permit (calls b)"
    by (rule filter_mset_mono_strong) auto
  then show ?thesis using inv size_mset_mono by (fastforce simp: bh_inv_def)
qed

section \<open>Cancelled calls\<close>

text \<open>One call that runs alone through the given phases, next to calls that do not move.\<close>

lemma step_alone:
  assumes "calls b = add_mset x M"
  shows "x = Start \<Longrightarrow> bh_step b (b\<lparr>calls := add_mset (Loaded (in_flight b)) M\<rparr>)"
    and "x = Loaded n \<Longrightarrow> bh_step b (b\<lparr>calls := add_mset (Checked n (queued b)) M\<rparr>)"
    and "x = Checked n q \<Longrightarrow> admit n q b = (y, b') \<Longrightarrow> bh_step b (b'\<lparr>calls := add_mset y M\<rparr>)"
    and "x = Waiting w \<Longrightarrow> 0 < permits b \<Longrightarrow> bh_step b (b\<lparr>calls := add_mset (Woken w Permit) M, permits := permits b - 1\<rparr>)"
    and "x = Waiting w \<Longrightarrow> bh_step b (b\<lparr>calls := add_mset (CancelledWaiting w) M\<rparr>)"
    and "x = Woken False Permit \<Longrightarrow> bh_step b (b\<lparr>calls := add_mset Ready M\<rparr>)"
    and "x = Ready \<Longrightarrow> bh_step b (b\<lparr>calls := add_mset Running M, in_flight := in_flight b + 1\<rparr>)"
    and "x = Running \<Longrightarrow> bh_step b (b\<lparr>calls := add_mset CancelledRunning M, permits := permits b + 1\<rparr>)"
  using assms bh_step.Load_in_flight [of b] bh_step.Load_queued [of n b] bh_step.Admit [of n q b y b'] bh_step.Acquire [of w b]
    bh_step.Cancel_waiting [of w b] bh_step.Settle [of False Permit b Ready b] bh_step.Enter [of b] bh_step.Cancel_running [of b]
  by (cases b; cases b'; auto simp: move_def settle_def admit_def reject_def split: if_splits)+

lemma call_checks:
  "bh_step\<^sup>*\<^sup>* b (b\<lparr>calls := add_mset (Checked (in_flight b) (queued b)) (calls b)\<rparr>)"
proof -
  let ?b = "\<lambda>x. b\<lparr>calls := add_mset x (calls b)\<rparr>"
  have "bh_step b (?b Start)" by (rule bh_step.Call)
  moreover have "bh_step (?b Start) (?b (Loaded (in_flight b)))"
    using step_alone(1) [of "?b Start" Start "calls b"] by (cases b) simp
  moreover have "bh_step (?b (Loaded (in_flight b))) (?b (Checked (in_flight b) (queued b)))"
    using step_alone(2) [of "?b (Loaded (in_flight b))" "Loaded (in_flight b)" "calls b" "in_flight b"] by (cases b) simp
  ultimately show ?thesis by (meson converse_rtranclp_into_rtranclp rtranclp.rtrancl_refl)
qed

text \<open>A call that finds a free slot takes a permit; one that is cancelled while it runs leaves its count behind.\<close>

lemma call_takes_permit:
  assumes "in_flight b < max_concurrent (bh_config b)"
  shows "bh_step\<^sup>*\<^sup>* b (b\<lparr>calls := add_mset (Waiting False) (calls b)\<rparr>)"
    and "0 < permits b \<Longrightarrow>
      bh_step\<^sup>*\<^sup>* b (b\<lparr>calls := add_mset (Woken False Permit) (calls b), permits := permits b - 1\<rparr>)"
proof -
  let ?c = "Checked (in_flight b) (queued b)"
  have "admit (in_flight b) (queued b) (b\<lparr>calls := add_mset ?c (calls b)\<rparr>) = (Waiting False, b\<lparr>calls := add_mset ?c (calls b)\<rparr>)"
    using assms by (simp add: admit_def not_le)
  from step_alone(3) [OF _ refl this, of "calls b"]
  have "bh_step (b\<lparr>calls := add_mset ?c (calls b)\<rparr>) (b\<lparr>calls := add_mset (Waiting False) (calls b)\<rparr>)" by (cases b) simp
  with call_checks show wait: "bh_step\<^sup>*\<^sup>* b (b\<lparr>calls := add_mset (Waiting False) (calls b)\<rparr>)"
    by (rule rtranclp.rtrancl_into_rtrancl)
  assume "0 < permits b"
  then have "bh_step (b\<lparr>calls := add_mset (Waiting False) (calls b)\<rparr>)
      (b\<lparr>calls := add_mset (Woken False Permit) (calls b), permits := permits b - 1\<rparr>)"
    using step_alone(4) [of "b\<lparr>calls := add_mset (Waiting False) (calls b)\<rparr>" "Waiting False" "calls b" False] by (cases b) simp
  with wait show "bh_step\<^sup>*\<^sup>* b (b\<lparr>calls := add_mset (Woken False Permit) (calls b), permits := permits b - 1\<rparr>)"
    by (rule rtranclp.rtrancl_into_rtrancl)
qed

lemma call_runs_and_is_cancelled:
  assumes "in_flight b < max_concurrent (bh_config b)" and "0 < permits b"
  shows "bh_step\<^sup>*\<^sup>* b (b\<lparr>calls := add_mset CancelledRunning (calls b), in_flight := in_flight b + 1\<rparr>)"
proof -
  let ?b = "\<lambda>x. b\<lparr>calls := add_mset x (calls b), permits := permits b - 1\<rparr>"
  have "bh_step\<^sup>*\<^sup>* b (?b (Woken False Permit))" using call_takes_permit(2) [OF assms] .
  moreover have "bh_step (?b (Woken False Permit)) (?b Ready)"
    using step_alone(6) [of "?b (Woken False Permit)" "Woken False Permit" "calls b"] by (cases b) simp
  moreover have "bh_step (?b Ready) ((?b Running)\<lparr>in_flight := in_flight b + 1\<rparr>)"
    using step_alone(7) [of "?b Ready" Ready "calls b"] by (cases b) simp
  moreover have "bh_step ((?b Running)\<lparr>in_flight := in_flight b + 1\<rparr>)
      (b\<lparr>calls := add_mset CancelledRunning (calls b), in_flight := in_flight b + 1\<rparr>)"
    using step_alone(8) [of "(?b Running)\<lparr>in_flight := in_flight b + 1\<rparr>" Running "calls b"] assms(2) by (cases b) simp
  ultimately show ?thesis by (meson rtranclp.rtrancl_into_rtrancl)
qed

lemma call_queues_and_is_cancelled:
  assumes "max_concurrent (bh_config b) \<le> in_flight b" and "queued b < max_queue_size (bh_config b)"
  shows "bh_step\<^sup>*\<^sup>* b (b\<lparr>calls := add_mset (CancelledWaiting True) (calls b), queued := queued b + 1\<rparr>)"
proof -
  let ?c = "Checked (in_flight b) (queued b)"
  let ?w = "b\<lparr>calls := add_mset (Waiting True) (calls b), queued := queued b + 1\<rparr>"
  have "admit (in_flight b) (queued b) (b\<lparr>calls := add_mset ?c (calls b)\<rparr>) =
      (Waiting True, b\<lparr>calls := add_mset ?c (calls b), queued := queued b + 1\<rparr>)"
    using assms by (simp add: admit_def not_le)
  from step_alone(3) [OF _ refl this, of "calls b"]
  have "bh_step (b\<lparr>calls := add_mset ?c (calls b)\<rparr>) ?w" by (cases b) simp
  moreover have "bh_step ?w (b\<lparr>calls := add_mset (CancelledWaiting True) (calls b), queued := queued b + 1\<rparr>)"
    using step_alone(5) [of ?w "Waiting True" "calls b" True] by (cases b) simp
  ultimately show ?thesis using call_checks by (meson rtranclp.rtrancl_into_rtrancl)
qed

lemma of_nat_less_word:
  fixes w :: u64
  shows "n < unat w \<Longrightarrow> of_nat n < w"
  using unat_le_max [of w] by (simp add: word_less_nat_alt unat_of_nat_small)

definition after_cancellations :: "BulkheadConfig \<Rightarrow> nat \<Rightarrow> nat \<Rightarrow> Bulkhead" where
  "after_cancellations c m n = (bulkhead_new c)\<lparr>in_flight := of_nat m, queued := of_nat n,
     calls := replicate_mset m CancelledRunning + replicate_mset n (CancelledWaiting True)\<rparr>"

lemma reach_cancelled_running:
  "m \<le> unat (max_concurrent c) \<Longrightarrow> bh_step\<^sup>*\<^sup>* (bulkhead_new c) (after_cancellations c m 0)"
proof (induction m)
  case 0
  then show ?case by (simp add: after_cancellations_def bulkhead_new_def)
next
  case (Suc m)
  let ?b = "after_cancellations c m 0"
  have "in_flight ?b < max_concurrent (bh_config ?b)" "0 < permits ?b"
    using Suc.prems of_nat_less_word [of m "max_concurrent c"] by (simp_all add: after_cancellations_def bulkhead_new_def)
  from call_runs_and_is_cancelled [OF this]
  have "bh_step\<^sup>*\<^sup>* ?b (after_cancellations c (Suc m) 0)"
    by (simp add: after_cancellations_def bulkhead_new_def add.commute)
  then show ?case using Suc by simp
qed

lemma reach_cancelled_waiting:
  "n \<le> unat (max_queue_size c) \<Longrightarrow> bh_step\<^sup>*\<^sup>* (bulkhead_new c) (after_cancellations c (unat (max_concurrent c)) n)"
proof (induction n)
  case 0
  then show ?case by (simp add: reach_cancelled_running)
next
  case (Suc n)
  let ?m = "unat (max_concurrent c)"
  let ?b = "after_cancellations c ?m n"
  have "max_concurrent (bh_config ?b) \<le> in_flight ?b" "queued ?b < max_queue_size (bh_config ?b)"
    using Suc.prems of_nat_less_word [of n "max_queue_size c"] by (simp_all add: after_cancellations_def bulkhead_new_def)
  from call_queues_and_is_cancelled [OF this]
  have "bh_step\<^sup>*\<^sup>* ?b (after_cancellations c ?m (Suc n))"
    by (simp add: after_cancellations_def bulkhead_new_def add.commute)
  then show ?case using Suc by simp
qed

text \<open>With both counters at their limits and no call to lower them, every later call is rejected.\<close>

definition disabled :: "BulkheadConfig \<Rightarrow> Bulkhead \<Rightarrow> bool" where
  "disabled c b \<longleftrightarrow> bh_config b = c \<and> in_flight b = max_concurrent c \<and> queued b = max_queue_size c
     \<and> set_mset (calls b) \<subseteq> {Start, Loaded (max_concurrent c), Checked (max_concurrent c) (max_queue_size c),
          Returned (Some (Rejected ''concurrency and queue limits both reached'')), CancelledRunning, CancelledWaiting True}"

lemma disabled_step: "bh_step b b' \<Longrightarrow> disabled c b \<Longrightarrow> disabled c b'"
proof (induction rule: bh_step.induct)
  case (Admit n q b x b')
  then have "n = max_concurrent c" "q = max_queue_size c" "bh_config b = c" by (auto simp: disabled_def)
  then show ?case using Admit by (auto simp: disabled_def move_def admit_def reject_def dest!: in_diffD)
qed (auto simp: disabled_def move_def dest!: in_diffD)

text \<open>
  C36. Cancelled calls can disable a bulkhead for good. For every configuration there is an execution
  after which no call is left but cancelled ones and all permits are free, and from then on no call
  ever runs again: every call that returns is rejected.
\<close>

theorem cancelled_calls_disable_bulkhead:
  "\<exists>b. bh_step\<^sup>*\<^sup>* (bulkhead_new c) b \<and> permits b = unat (max_concurrent c)
    \<and> set_mset (calls b) \<subseteq> {CancelledRunning, CancelledWaiting True}
    \<and> Collect (bh_step\<^sup>*\<^sup>* b) \<subseteq> {b'. Running \<notin># calls b'
        \<and> {r. Returned r \<in># calls b'} \<subseteq> {Some (Rejected ''concurrency and queue limits both reached'')}}"
proof -
  let ?b = "after_cancellations c (unat (max_concurrent c)) (unat (max_queue_size c))"
  have "disabled c b'" if "bh_step\<^sup>*\<^sup>* ?b b'" for b'
    using that
  proof (induction rule: rtranclp_induct)
    case base
    then show ?case by (auto simp: disabled_def after_cancellations_def bulkhead_new_def)
  qed (rule disabled_step)
  then have "Collect (bh_step\<^sup>*\<^sup>* ?b) \<subseteq> {b'. Running \<notin># calls b'
        \<and> {r. Returned r \<in># calls b'} \<subseteq> {Some (Rejected ''concurrency and queue limits both reached'')}}"
    unfolding disabled_def by blast
  moreover have "bh_step\<^sup>*\<^sup>* (bulkhead_new c) ?b" by (rule reach_cancelled_waiting) simp
  ultimately show ?thesis
    by (intro exI [of _ ?b]) (auto simp: after_cancellations_def bulkhead_new_def)
qed

theorem bulkhead_limits_concurrency_witness:
  "permits (after_cancellations BulkheadConfig_default 10 20) = 10"
proof -
  let ?b = "after_cancellations BulkheadConfig_default 10 20"
  have "bh_step\<^sup>*\<^sup>* (bulkhead_new BulkheadConfig_default) ?b"
    using reach_cancelled_waiting [of 20 BulkheadConfig_default] by (simp add: BulkheadConfig_default_def)
  from bulkhead_limits_concurrency [OF this] have "permits ?b + number holds_permit ?b = unat (max_concurrent BulkheadConfig_default)"
    by blast
  moreover have "number holds_permit ?b = 0"
    by (auto simp: after_cancellations_def bulkhead_new_def filter_mset_eq_conv)
  ultimately have "permits ?b + 0 = unat (max_concurrent BulkheadConfig_default)" by metis
  then show ?thesis by (simp add: BulkheadConfig_default_def)
qed

definition racing :: "BulkheadConfig \<Rightarrow> nat \<Rightarrow> nat \<Rightarrow> Bulkhead" where
  "racing c m n = (bulkhead_new c)\<lparr>permits := unat (max_concurrent c) - m,
     calls := replicate_mset m (Woken False Permit) + replicate_mset n (Waiting False)\<rparr>"

lemma filter_replicate_mset: "filter_mset P (replicate_mset k x) = (if P x then replicate_mset k x else {#})"
  by (induction k) auto

text \<open>
  The queue limit is not enforced. Calls compare counters that others raise only later: for
  every number of calls there is an execution in which that many wait for a permit while all
  permits are taken, whatever queue size is configured, and both counters still read zero.
\<close>

theorem queue_limit_not_enforced:
  assumes "0 < max_concurrent c"
  shows "\<exists>b. bh_step\<^sup>*\<^sup>* (bulkhead_new c) b \<and> permits b = 0 \<and> number (\<lambda>x. x = Waiting False) b = n
    \<and> in_flight b = 0 \<and> queued b = 0"
proof -
  have take: "bh_step\<^sup>*\<^sup>* (bulkhead_new c) (racing c m 0)" if "m \<le> unat (max_concurrent c)" for m
    using that
  proof (induction m)
    case (Suc m)
    have "bh_step\<^sup>*\<^sup>* (racing c m 0) (racing c (Suc m) 0)"
      using call_takes_permit(2) [of "racing c m 0"] assms Suc.prems
      by (simp add: racing_def bulkhead_new_def)
    then show ?case using Suc by simp
  qed (simp add: racing_def bulkhead_new_def)
  have wait: "bh_step\<^sup>*\<^sup>* (racing c (unat (max_concurrent c)) 0) (racing c (unat (max_concurrent c)) n)" for n
  proof (induction n)
    case (Suc n)
    have "bh_step\<^sup>*\<^sup>* (racing c (unat (max_concurrent c)) n) (racing c (unat (max_concurrent c)) (Suc n))"
      using call_takes_permit(1) [of "racing c (unat (max_concurrent c)) n"] assms
      by (simp add: racing_def bulkhead_new_def)
    then show ?case using Suc by simp
  qed simp
  let ?b = "racing c (unat (max_concurrent c)) n"
  have "bh_step\<^sup>*\<^sup>* (bulkhead_new c) ?b" using take [OF order_refl] wait [of n] by simp
  moreover have "number (\<lambda>x. x = Waiting False) ?b = n" by (simp add: racing_def filter_replicate_mset)
  ultimately show ?thesis by (intro exI [of _ ?b]) (simp add: racing_def bulkhead_new_def)
qed

theorem queue_limit_not_enforced_witness:
  "\<exists>b. bh_step\<^sup>*\<^sup>* (bulkhead_new \<lparr>max_concurrent = 2, max_queue_size = 0, timeout_ms = 5\<rparr>) b
    \<and> permits b = 0 \<and> number (\<lambda>x. x = Waiting False) b = 100"
  using queue_limit_not_enforced [of "\<lparr>max_concurrent = 2, max_queue_size = 0, timeout_ms = 5\<rparr>" 100] by auto

section \<open>The registry\<close>

type_synonym 'b registry = "(string, 'b) hashmap"

definition register :: "string \<Rightarrow> BulkheadConfig \<Rightarrow> Bulkhead registry \<Rightarrow> Bulkhead registry" where
  "register category c r = hm_insert category (bulkhead_new c) r"

definition registered :: "string \<Rightarrow> 'b registry \<Rightarrow> 'b option" where
  "registered category r = hm_get r category"

section \<open>Bulkheads per service\<close>

record ServiceBulkheadConfig =
  sb_max_concurrent :: u64
  sb_max_queue_size :: u64
  sb_timeout :: nat

definition ServiceBulkheadConfig_default :: ServiceBulkheadConfig where
  "ServiceBulkheadConfig_default = \<lparr>sb_max_concurrent = 10, sb_max_queue_size = 20, sb_timeout = 5000000000\<rparr>"

datatype ServiceBulkheadError = ServiceNotRegistered | QueueFull | AcquireTimeout | AcquireError

fun service_error_text :: "ServiceBulkheadError \<Rightarrow> string" where
  "service_error_text ServiceNotRegistered = ''service not registered''"
| "service_error_text QueueFull = ''queue full''"
| "service_error_text AcquireTimeout = ''bulkhead timeout''"
| "service_error_text AcquireError = ''semaphore acquire error''"

text \<open>
  A call of \<open>execute\<close> on the handle it looked up: before the first attempt, after an attempt that
  found no permit, after loading the queue depth, waiting, woken, running, done with the permit in
  hand, returned, cancelled.
\<close>

datatype sphase = SStart | SNoPermit | SLoaded u64 | SWaiting | SWoken acquired | SRunning | SReleasing
  | SReturned "ServiceBulkheadError option" | SCancelledWaiting | SCancelledRunning

record BulkheadHandle =
  service_name :: string
  sb_config :: ServiceBulkheadConfig
  sb_permits :: nat
  queue_depth :: u64
  sb_total_executed :: u64
  sb_total_rejected :: u64
  sb_calls :: "sphase multiset"

definition handle_new :: "string \<Rightarrow> ServiceBulkheadConfig \<Rightarrow> BulkheadHandle" where
  "handle_new name c = \<lparr>service_name = name, sb_config = c, sb_permits = unat (sb_max_concurrent c), queue_depth = 0,
     sb_total_executed = 0, sb_total_rejected = 0, sb_calls = {#}\<rparr>"

definition register_service :: "string \<Rightarrow> ServiceBulkheadConfig \<Rightarrow> BulkheadHandle registry \<Rightarrow> BulkheadHandle registry" where
  "register_service name c r = hm_insert name (handle_new name c) r"

text \<open>A call starts on the handle registered under its name, or fails.\<close>

definition start_execute :: "string \<Rightarrow> BulkheadHandle registry \<Rightarrow> ServiceBulkheadError + BulkheadHandle registry" where
  "start_execute name r =
    (case hm_get r name of
       None \<Rightarrow> Inl ServiceNotRegistered
     | Some h \<Rightarrow> Inr (hm_insert name (h\<lparr>sb_calls := add_mset SStart (sb_calls h)\<rparr>) r))"

definition smove :: "sphase \<Rightarrow> sphase \<Rightarrow> BulkheadHandle \<Rightarrow> BulkheadHandle" where
  "smove x y h = h\<lparr>sb_calls := add_mset y (sb_calls h - {#x#})\<rparr>"

definition sreject :: "BulkheadHandle \<Rightarrow> BulkheadHandle" where
  "sreject h = h\<lparr>sb_total_rejected := sb_total_rejected h + 1\<rparr>"

text \<open>\<open>try_acquire\<close> on the open semaphore: the fast path.\<close>

definition try_acquire :: "BulkheadHandle \<Rightarrow> sphase \<times> BulkheadHandle" where
  "try_acquire h = (if 0 < sb_permits h then (SRunning, h\<lparr>sb_permits := sb_permits h - 1\<rparr>) else (SNoPermit, h))"

definition join_queue :: "u64 \<Rightarrow> BulkheadHandle \<Rightarrow> sphase \<times> BulkheadHandle" where
  "join_queue current_queue h =
    (if sb_max_queue_size (sb_config h) \<le> current_queue then (SReturned (Some QueueFull), sreject h)
     else (SWaiting, h\<lparr>queue_depth := queue_depth h + 1\<rparr>))"

definition leave_queue :: "acquired \<Rightarrow> BulkheadHandle \<Rightarrow> sphase \<times> BulkheadHandle" where
  "leave_queue outcome h =
    (let h = h\<lparr>queue_depth := queue_depth h - 1\<rparr>
     in case outcome of
          Permit \<Rightarrow> (SRunning, h)
        | Closed \<Rightarrow> (SReturned (Some AcquireError), sreject h)
        | Elapsed \<Rightarrow> (SReturned (Some AcquireTimeout), sreject h))"

inductive sb_step :: "BulkheadHandle \<Rightarrow> BulkheadHandle \<Rightarrow> bool" where
  SCall: "sb_step h (h\<lparr>sb_calls := add_mset SStart (sb_calls h)\<rparr>)"
| STry: "SStart \<in># sb_calls h \<Longrightarrow> try_acquire h = (x, h') \<Longrightarrow> sb_step h (smove SStart x h')"
| SLoad: "SNoPermit \<in># sb_calls h \<Longrightarrow> sb_step h (smove SNoPermit (SLoaded (queue_depth h)) h)"
| SJoin: "SLoaded n \<in># sb_calls h \<Longrightarrow> join_queue n h = (x, h') \<Longrightarrow> sb_step h (smove (SLoaded n) x h')"
| SAcquire: "SWaiting \<in># sb_calls h \<Longrightarrow> 0 < sb_permits h \<Longrightarrow>
    sb_step h (smove SWaiting (SWoken Permit) (h\<lparr>sb_permits := sb_permits h - 1\<rparr>))"
| SElapse: "SWaiting \<in># sb_calls h \<Longrightarrow> sb_step h (smove SWaiting (SWoken Elapsed) h)"
| SLeave: "SWoken a \<in># sb_calls h \<Longrightarrow> leave_queue a h = (x, h') \<Longrightarrow> sb_step h (smove (SWoken a) x h')"
| SDone: "SRunning \<in># sb_calls h \<Longrightarrow>
    sb_step h (smove SRunning SReleasing (h\<lparr>sb_total_executed := sb_total_executed h + 1\<rparr>))"
| SRelease: "SReleasing \<in># sb_calls h \<Longrightarrow>
    sb_step h (smove SReleasing (SReturned None) (h\<lparr>sb_permits := sb_permits h + 1\<rparr>))"
| SCancel_waiting: "SWaiting \<in># sb_calls h \<Longrightarrow> sb_step h (smove SWaiting SCancelledWaiting h)"
| SCancel_running: "SRunning \<in># sb_calls h \<Longrightarrow>
    sb_step h (smove SRunning SCancelledRunning (h\<lparr>sb_permits := sb_permits h + 1\<rparr>))"

record ServiceBulkheadStats =
  active_count :: nat
  st_queue_depth :: u64
  st_total_executed :: u64
  st_total_rejected :: u64

definition service_stats :: "string \<Rightarrow> BulkheadHandle registry \<Rightarrow> ServiceBulkheadStats option" where
  "service_stats name r =
     map_option (\<lambda>h. \<lparr>active_count = unat (sb_max_concurrent (sb_config h)) - sb_permits h, st_queue_depth = queue_depth h,
       st_total_executed = sb_total_executed h, st_total_rejected = sb_total_rejected h\<rparr>) (hm_get r name)"

fun sholds :: "sphase \<Rightarrow> bool" where
  "sholds (SWoken a) = (a = Permit)"
| "sholds SRunning = True"
| "sholds SReleasing = True"
| "sholds _ = False"

fun squeued :: "sphase \<Rightarrow> bool" where
  "squeued SWaiting = True"
| "squeued (SWoken _) = True"
| "squeued SCancelledWaiting = True"
| "squeued _ = False"

abbreviation snumber :: "(sphase \<Rightarrow> bool) \<Rightarrow> BulkheadHandle \<Rightarrow> nat" where
  "snumber P h \<equiv> size (filter_mset P (sb_calls h))"

definition sb_inv :: "ServiceBulkheadConfig \<Rightarrow> BulkheadHandle \<Rightarrow> bool" where
  "sb_inv c h \<longleftrightarrow> sb_config h = c \<and> sb_permits h + snumber sholds h = unat (sb_max_concurrent c)
     \<and> queue_depth h = of_nat (snumber squeued h)"

lemma sb_inv_move:
  assumes inv: "sb_inv c h" and x: "x \<in># sb_calls h" and frame: "sb_calls h' = sb_calls h" "sb_config h' = sb_config h"
    and "sb_permits h' + of_bool (sholds y) = sb_permits h + of_bool (sholds x)"
    and "queue_depth h' + of_bool (squeued x) = queue_depth h + of_bool (squeued y)"
  shows "sb_inv c (smove x y h')"
proof -
  obtain N where N: "sb_calls h = add_mset x N" using multi_member_split [OF x] by blast
  have "sb_permits h' + of_bool (sholds y) + size (filter_mset sholds N) = unat (sb_max_concurrent c)"
    using inv assms(5) by (cases "sholds x") (simp_all add: sb_inv_def N)
  moreover have "queue_depth h' = of_nat (size (filter_mset squeued N)) + of_bool (squeued y)"
    using inv assms(6) by (cases "squeued x") (simp_all add: sb_inv_def N algebra_simps)
  ultimately show ?thesis using inv by (simp add: sb_inv_def smove_def frame N of_bool_def split: if_splits)
qed

lemma sb_step_inv: "sb_step h h' \<Longrightarrow> sb_inv c h \<Longrightarrow> sb_inv c h'"
proof (induction rule: sb_step.induct)
  case (SCall h)
  then show ?case by (simp add: sb_inv_def)
next
  case (STry h x h')
  then show ?case by (intro sb_inv_move [of c h]) (auto simp: try_acquire_def split: if_splits)
next
  case (SJoin n h x h')
  then show ?case by (intro sb_inv_move [of c h]) (auto simp: join_queue_def sreject_def split: if_splits)
next
  case (SAcquire h)
  then show ?case by (intro sb_inv_move [of c h]) auto
next
  case (SLeave a h x h')
  then show ?case by (intro sb_inv_move [of c h]) (auto simp: leave_queue_def sreject_def Let_def split: if_splits acquired.splits)
qed (rule sb_inv_move, assumption, assumption, simp_all)+

text \<open>
  The per-service bulkhead cannot be disabled: in every execution, whatever calls were
  cancelled, the statistics report exactly the calls that hold a permit, never more than
  configured; and when no call holds one, the next call runs at once.
\<close>

theorem service_bulkhead_recovers:
  assumes "sb_step\<^sup>*\<^sup>* (handle_new name c) h"
  shows "map_option active_count (service_stats name [(name, h)]) = Some (snumber sholds h)
    \<and> snumber sholds h \<le> unat (sb_max_concurrent c)
    \<and> (fst (try_acquire h) = SRunning \<longleftrightarrow> snumber sholds h \<noteq> unat (sb_max_concurrent c))"
proof -
  have "sb_inv c h" using assms
  proof (induction rule: rtranclp_induct)
    case base
    then show ?case by (simp add: sb_inv_def handle_new_def)
  qed (rule sb_step_inv)
  then show ?thesis by (auto simp: sb_inv_def service_stats_def hm_get_def try_acquire_def)
qed

theorem service_bulkhead_recovers_witness:
  "fst (try_acquire (handle_new ''db'' ServiceBulkheadConfig_default)) = SRunning"
proof -
  have "sb_step\<^sup>*\<^sup>* (handle_new ''db'' ServiceBulkheadConfig_default) (handle_new ''db'' ServiceBulkheadConfig_default)" by simp
  from service_bulkhead_recovers [OF this] show ?thesis by (simp add: handle_new_def ServiceBulkheadConfig_default_def)
qed

end
