(* ===== verification/Bytes.thy ===== *)
theory Bytes
  imports Prelude
begin

text \<open>
  Bytes of strings, hexadecimal digits and the FNV-1a hash, shared by request signing, the response
  cache and the affinity table, which each define the hash in the same way. A string is the list of
  its bytes.
\<close>

definition as_bytes :: "string \<Rightarrow> u8 list" where
  "as_bytes s = map (\<lambda>c. of_nat (of_char c)) s"

definition hex_digit :: "nat \<Rightarrow> char" where
  "hex_digit n = ''0123456789abcdef'' ! n"

definition FNV_OFFSET :: u64 where "FNV_OFFSET = 14695981039346656037"
definition FNV_PRIME :: u64 where "FNV_PRIME = 1099511628211"

definition fnv1a :: "u8 list \<Rightarrow> u64" where
  "fnv1a bytes = fold (\<lambda>b hash. (hash XOR ucast b) * FNV_PRIME) bytes FNV_OFFSET"

lemma as_bytes_inj [simp]: "as_bytes a = as_bytes b \<longleftrightarrow> a = b"
proof -
  have "inj (\<lambda>c :: char. of_nat (of_char c) :: u8)"
  proof (rule injI)
    fix c d :: char
    assume "(of_nat (of_char c) :: u8) = of_nat (of_char d)"
    then have "unat (of_nat (of_char c) :: u8) = unat (of_nat (of_char d) :: u8)" by simp
    then show "c = d" by (simp add: unat_of_nat_small)
  qed
  then show ?thesis by (simp add: as_bytes_def inj_map_eq_map)
qed

lemma hex_digit_inj: "m < 16 \<Longrightarrow> n < 16 \<Longrightarrow> hex_digit m = hex_digit n \<longleftrightarrow> m = n"
  unfolding hex_digit_def by (subst nth_eq_iff_index_eq) simp_all

text \<open>A number below a power of sixteen is determined by its digits.\<close>

lemma digits16_eq:
  "(\<And>i. i < k \<Longrightarrow> m div 16 ^ i mod 16 = n div 16 ^ i mod (16 :: nat)) \<Longrightarrow> m mod 16 ^ k = n mod 16 ^ k"
proof (induction k)
  case (Suc k)
  have "m mod 16 ^ k = n mod 16 ^ k" using Suc by simp
  moreover have "m div 16 ^ k mod 16 = n div 16 ^ k mod 16" using Suc.prems by simp
  ultimately show ?case using mod_mult2_eq [of m "16 ^ k" 16] mod_mult2_eq [of n "16 ^ k" 16]
    by (simp add: mult.commute)
qed simp

end
