(* ===== verification/RequestSigning.thy ===== *)
theory RequestSigning
  imports OutputCodec Bytes "HOL-Library.Char_ord"
begin

text \<open>
  Signing of requests between services (\<open>src/request_signing.rs\<close>). SHA-256 and HMAC come from other
  crates: they are the arguments \<open>sha\<close> and \<open>hmac\<close>, functions on bytes. A string is the list of its
  bytes. The cache of accepted nonces is one map shared by the clones of a signer and is passed
  through its operations.
\<close>

section \<open>Keys\<close>

record SigningKey =
  key_id :: string
  secret :: "u8 list"
  created_at :: u64
  expires_at :: "u64 option"

definition signing_key_new :: "string \<Rightarrow> u8 list \<Rightarrow> u64 \<Rightarrow> SigningKey" where
  "signing_key_new i s t = \<lparr>key_id = i, secret = s, created_at = t, expires_at = None\<rparr>"

definition with_expires_at :: "u64 \<Rightarrow> SigningKey \<Rightarrow> SigningKey" where
  "with_expires_at t k = k\<lparr>expires_at := Some t\<rparr>"

definition is_valid_at :: "u64 \<Rightarrow> SigningKey \<Rightarrow> bool" where
  "is_valid_at now k =
    (if now < created_at k then False
     else case expires_at k of None \<Rightarrow> True | Some e \<Rightarrow> now < e)"

section \<open>Requests\<close>

record SignedRequest =
  rq_payload :: "u8 list"
  signature :: string
  rq_key_id :: string
  timestamp :: u64
  nonce :: string

definition to_hex :: "u8 list \<Rightarrow> string" where
  "to_hex bs = concat (map (\<lambda>b. [hex_digit (unat b div 16), hex_digit (unat b mod 16)]) bs)"

definition newline :: string where
  "newline = [CHR 0x0A]"

definition canonical_string :: "(u8 list \<Rightarrow> u8 list) \<Rightarrow> SignedRequest \<Rightarrow> string" where
  "canonical_string sha r =
     rq_key_id r @ newline @ nat_to_string (unat (timestamp r)) @ newline @ nonce r @ newline @ to_hex (sha (rq_payload r))"

section \<open>The signer\<close>

type_synonym nonces = "(string \<times> string, u64) hashmap"

record RequestSigner =
  replay_window_secs :: u64
  seen :: nonces
  max_seen :: nat

definition DEFAULT_MAX_SEEN_NONCES :: nat where
  "DEFAULT_MAX_SEEN_NONCES = 100000"

definition with_replay_window :: "u64 \<Rightarrow> RequestSigner" where
  "with_replay_window w = \<lparr>replay_window_secs = w, seen = [], max_seen = DEFAULT_MAX_SEEN_NONCES\<rparr>"

definition signer_new :: RequestSigner where
  "signer_new = with_replay_window 300"

definition with_max_seen_nonces :: "nat \<Rightarrow> RequestSigner \<Rightarrow> RequestSigner" where
  "with_max_seen_nonces m s = s\<lparr>max_seen := max m 1\<rparr>"

text \<open>Dropping the entries that the timestamp check makes redundant.\<close>

definition retain_live :: "u64 \<Rightarrow> nonces \<Rightarrow> nonces" where
  "retain_live now m = filter (\<lambda>(_, until). now \<le> until) m"

definition record_nonce :: "SignedRequest \<Rightarrow> u64 \<Rightarrow> RequestSigner \<Rightarrow> bool \<times> RequestSigner" where
  "record_nonce r now s =
    (let i = (rq_key_id r, nonce r)
     in if (case hm_get (seen s) i of Some until \<Rightarrow> now \<le> until | None \<Rightarrow> False) then (False, s)
        else let s = (if max_seen s \<le> length (seen s) then s\<lparr>seen := retain_live now (seen s)\<rparr> else s)
             in if max_seen s \<le> length (seen s) then (False, s)
                else (True, s\<lparr>seen := hm_insert i (sat_add (timestamp r) (replay_window_secs s)) (seen s)\<rparr>))"

definition sign :: "(u8 list \<Rightarrow> u8 list) \<Rightarrow> (u8 list \<Rightarrow> u8 list \<Rightarrow> u8 list) \<Rightarrow> u8 list \<Rightarrow> SigningKey \<Rightarrow> u64 \<Rightarrow> string \<Rightarrow> SignedRequest" where
  "sign sha hmac pl k now n =
    (let partial = \<lparr>rq_payload = pl, signature = [], rq_key_id = key_id k, timestamp = now, nonce = n\<rparr>;
         mac = hmac (secret k) (as_bytes (canonical_string sha partial))
     in \<lparr>rq_payload = pl, signature = to_hex mac, rq_key_id = key_id k, timestamp = now, nonce = n\<rparr>)"

definition constant_time_eq :: "u8 list \<Rightarrow> u8 list \<Rightarrow> bool" where
  "constant_time_eq a b =
    (if length a \<noteq> length b then False
     else fold (\<lambda>(x, y) diff. diff OR (x XOR y)) (zip a b) 0 = 0)"

text \<open>The sum of the clock and the window wraps in a release build.\<close>

definition verify :: "(u8 list \<Rightarrow> u8 list) \<Rightarrow> (u8 list \<Rightarrow> u8 list \<Rightarrow> u8 list) \<Rightarrow> SignedRequest \<Rightarrow> SigningKey \<Rightarrow> u64
    \<Rightarrow> RequestSigner \<Rightarrow> bool \<times> RequestSigner" where
  "verify sha hmac r k now s =
    (if \<not> is_valid_at now k \<or> rq_key_id r \<noteq> key_id k then (False, s)
     else if replay_window_secs s < sat_sub now (timestamp r) then (False, s)
     else if now + replay_window_secs s < timestamp r then (False, s)
     else let expected_sig = to_hex (hmac (secret k) (as_bytes (canonical_string sha r)))
          in if \<not> constant_time_eq (as_bytes expected_sig) (as_bytes (signature r)) then (False, s)
             else record_nonce r now s)"

section \<open>The key store\<close>

type_synonym KeyStore = "(string, SigningKey) hashmap"

definition keystore_new :: KeyStore where
  "keystore_new = []"

definition keystore_insert :: "SigningKey \<Rightarrow> KeyStore \<Rightarrow> KeyStore" where
  "keystore_insert k ks = hm_insert (key_id k) k ks"

definition keystore_remove :: "string \<Rightarrow> KeyStore \<Rightarrow> KeyStore" where
  "keystore_remove i ks = hm_remove i ks"

definition keystore_get :: "string \<Rightarrow> KeyStore \<Rightarrow> SigningKey option" where
  "keystore_get i ks = hm_get ks i"

definition keystore_len :: "KeyStore \<Rightarrow> nat" where
  "keystore_len ks = length ks"

definition keystore_is_empty :: "KeyStore \<Rightarrow> bool" where
  "keystore_is_empty ks = (ks = [])"

definition verify_any :: "(u8 list \<Rightarrow> u8 list) \<Rightarrow> (u8 list \<Rightarrow> u8 list \<Rightarrow> u8 list) \<Rightarrow> SignedRequest \<Rightarrow> KeyStore \<Rightarrow> u64
    \<Rightarrow> RequestSigner \<Rightarrow> bool \<times> RequestSigner" where
  "verify_any sha hmac r ks now s =
    (case hm_get ks (rq_key_id r) of
       None \<Rightarrow> (False, s)
     | Some k \<Rightarrow> verify sha hmac r k now s)"

section \<open>Comparison and text\<close>

lemma fold_or_zero:
  "fold (\<lambda>(x, y) diff. diff OR (x XOR y)) ps d = 0 \<longleftrightarrow> d = (0 :: u8) \<and> (\<forall>(x, y) \<in> set ps. x = y)"
proof (induction ps arbitrary: d)
  case (Cons p ps)
  obtain x y where p: "p = (x, y)" by fastforce
  have "d OR (x XOR y) = 0 \<longleftrightarrow> d = 0 \<and> x = y"
    by (auto simp: bit_eq_iff bit_or_iff bit_xor_iff)
  then show ?case using Cons by (simp add: p)
qed simp

lemma constant_time_eq_iff [simp]: "constant_time_eq a b \<longleftrightarrow> a = b"
proof -
  have "(\<forall>(x, y) \<in> set (zip a b). x = y) \<longleftrightarrow> a = b" if "length a = length b"
    using that by (induction a b rule: list_induct2) auto
  then show ?thesis by (auto simp: constant_time_eq_def fold_or_zero)
qed

section \<open>What verification accepts\<close>

definition live_nonce :: "u64 \<Rightarrow> RequestSigner \<Rightarrow> SignedRequest \<Rightarrow> bool" where
  "live_nonce now s r = (case hm_get (seen s) (rq_key_id r, nonce r) of Some until \<Rightarrow> now \<le> until | None \<Rightarrow> False)"

definition has_room :: "u64 \<Rightarrow> RequestSigner \<Rightarrow> bool" where
  "has_room now s = (length (seen s) < max_seen s \<or> length (retain_live now (seen s)) < max_seen s)"

definition genuine :: "(u8 list \<Rightarrow> u8 list) \<Rightarrow> (u8 list \<Rightarrow> u8 list \<Rightarrow> u8 list) \<Rightarrow> SigningKey \<Rightarrow> SignedRequest \<Rightarrow> bool" where
  "genuine sha hmac k r \<longleftrightarrow> rq_key_id r = key_id k
     \<and> signature r = to_hex (hmac (secret k) (as_bytes (canonical_string sha r)))"

definition in_window :: "u64 \<Rightarrow> RequestSigner \<Rightarrow> SignedRequest \<Rightarrow> bool" where
  "in_window now s r \<longleftrightarrow> sat_sub now (timestamp r) \<le> replay_window_secs s \<and> timestamp r \<le> now + replay_window_secs s"

lemma record_nonce_fst: "fst (record_nonce r now s) \<longleftrightarrow> \<not> live_nonce now s r \<and> has_room now s"
  by (auto simp: record_nonce_def live_nonce_def has_room_def Let_def not_le retain_live_def)

text \<open>
  A request is accepted exactly when its key is valid and named by it, its timestamp lies in the
  window, its signature is the code of its canonical string, its nonce is not remembered for longer
  than now, and the cache has room. A request with a wrong signature changes nothing.
\<close>

theorem verify_accepts_iff:
  "(fst (verify sha hmac r k now s) \<longleftrightarrow> is_valid_at now k \<and> genuine sha hmac k r \<and> in_window now s r
      \<and> \<not> live_nonce now s r \<and> has_room now s)
   \<and> (if genuine sha hmac k r then True else verify sha hmac r k now s = (False, s))"
  by (auto simp: verify_def genuine_def in_window_def record_nonce_fst Let_def not_less)

section \<open>Replays\<close>

text \<open>A history of calls, each with the key it uses and the reading of the clock; the requests accepted.\<close>

type_synonym calls = "(SignedRequest \<times> SigningKey \<times> u64) list"

fun accepted :: "(u8 list \<Rightarrow> u8 list) \<Rightarrow> (u8 list \<Rightarrow> u8 list \<Rightarrow> u8 list) \<Rightarrow> calls \<Rightarrow> RequestSigner \<Rightarrow> SignedRequest list" where
  "accepted sha hmac [] s = []"
| "accepted sha hmac ((r, k, now) # cs) s =
    (case verify sha hmac r k now s of (ok, s) \<Rightarrow> (if ok then [r] else []) @ accepted sha hmac cs s)"

definition call_time :: "SignedRequest \<times> SigningKey \<times> u64 \<Rightarrow> u64" where
  "call_time c = snd (snd c)"

definition expiry :: "RequestSigner \<Rightarrow> SignedRequest \<Rightarrow> u64" where
  "expiry s r = sat_add (timestamp r) (replay_window_secs s)"

text \<open>The signer remembers every accepted request that the timestamp check would still let through.\<close>

definition remembers :: "RequestSigner \<Rightarrow> u64 \<Rightarrow> SignedRequest \<Rightarrow> bool" where
  "remembers s now r \<longleftrightarrow> expiry s r < now \<or> (\<exists>u. hm_get (seen s) (rq_key_id r, nonce r) = Some u \<and> expiry s r \<le> u)"

lemma hm_get_retain:
  "hm_wf m \<Longrightarrow> hm_get (retain_live now m) i = (case hm_get m i of Some u \<Rightarrow> if now \<le> u then Some u else None | None \<Rightarrow> None)"
  unfolding retain_live_def hm_get_def hm_wf_def
  by (induction m) (force split: option.split dest: map_of_SomeD)+

lemma hm_wf_retain: "hm_wf m \<Longrightarrow> hm_wf (retain_live now m)"
  by (simp add: hm_wf_def retain_live_def distinct_map_filter)

lemma in_window_live:
  assumes "in_window now s r" and "remembers s now r'" and "rq_key_id r' = rq_key_id r" "nonce r' = nonce r" "timestamp r' = timestamp r"
  shows "live_nonce now s r"
proof -
  have "now \<le> expiry s r'"
    using assms(1,5) unat_le_max [of now]
    unfolding in_window_def expiry_def word_le_nat_alt unat_sat_add unat_sat_sub by auto
  then have "\<not> expiry s r' < now" by simp
  then obtain u where "hm_get (seen s) (rq_key_id r, nonce r) = Some u" "expiry s r' \<le> u"
    using assms(2-4) by (auto simp: remembers_def)
  then show ?thesis using \<open>now \<le> expiry s r'\<close> by (auto simp: live_nonce_def)
qed

lemma record_nonce_remembers:
  assumes wf: "hm_wf (seen s)" and rem: "\<And>q. q \<in> set old \<Longrightarrow> remembers s now q"
    and r: "record_nonce r now s = (ok, s')"
  shows "hm_wf (seen s')" "replay_window_secs s' = replay_window_secs s"
    "q \<in> set ((if ok then [r] else []) @ old) \<Longrightarrow> remembers s' now q"
proof -
  define s1 where "s1 = (if max_seen s \<le> length (seen s) then s\<lparr>seen := retain_live now (seen s)\<rparr> else s)"
  have s1: "hm_wf (seen s1)" "replay_window_secs s1 = replay_window_secs s" "max_seen s1 = max_seen s"
    using wf by (simp_all add: s1_def hm_wf_retain)
  have rem1: "remembers s1 now q" if "q \<in> set old" for q
    using rem [OF that] by (auto simp: remembers_def s1_def expiry_def hm_get_retain [OF wf] not_less intro: le_less_trans split: option.splits)
  have cases: "live_nonce now s r \<and> ok = False \<and> s' = s
      \<or> \<not> live_nonce now s r \<and> ok = False \<and> s' = s1
      \<or> \<not> live_nonce now s r \<and> ok = True \<and> s' = s1\<lparr>seen := hm_insert (rq_key_id r, nonce r) (expiry s r) (seen s1)\<rparr>"
    using r s1 by (auto simp: record_nonce_def live_nonce_def expiry_def Let_def s1_def [symmetric] split: if_splits)
  show "hm_wf (seen s')" "replay_window_secs s' = replay_window_secs s" using cases wf s1 by auto
  show "remembers s' now q" if q: "q \<in> set ((if ok then [r] else []) @ old)"
  proof (cases "ok")
    case False
    then show ?thesis using cases rem rem1 q by auto
  next
    case True
    then have nl: "\<not> live_nonce now s r" and s': "s' = s1\<lparr>seen := hm_insert (rq_key_id r, nonce r) (expiry s r) (seen s1)\<rparr>"
      using cases by auto
    show ?thesis
    proof (cases "(rq_key_id q, nonce q) = (rq_key_id r, nonce r)")
      case same: True
      show ?thesis
      proof (cases "q = r")
        case True
        then show ?thesis by (simp add: s' remembers_def expiry_def hm_get_insert s1)
      next
        case False
        then have "remembers s now q" using q True rem by simp
        then have "expiry s q < now"
          using nl same by (auto simp: remembers_def live_nonce_def not_le intro: le_less_trans split: option.splits)
        then show ?thesis by (simp add: s' remembers_def expiry_def s1)
      qed
    next
      case False
      then have "q \<in> set old" using q True by auto
      then show ?thesis using rem1 [of q] False by (auto simp: s' remembers_def expiry_def hm_get_insert)
    qed
  qed
qed

lemma remembers_later: "remembers s t r \<Longrightarrow> t \<le> t' \<Longrightarrow> remembers s t' r"
  by (auto simp: remembers_def)

definition replay_id :: "SignedRequest \<Rightarrow> string \<times> string \<times> u64" where
  "replay_id r = (rq_key_id r, nonce r, timestamp r)"

lemma accepted_fresh:
  assumes "hm_wf (seen s)" and "\<And>q. q \<in> set old \<Longrightarrow> remembers s t q"
    and "sorted (map call_time cs)" and "\<And>c. c \<in> set cs \<Longrightarrow> t \<le> call_time c"
  shows "distinct (map replay_id (accepted sha hmac cs s)) \<and> replay_id ` set (accepted sha hmac cs s) \<inter> replay_id ` set old = {}"
  using assms
proof (induction cs arbitrary: s old t)
  case (Cons c cs)
  obtain r k now where c: "c = (r, k, now)" by (cases c) auto
  obtain ok s' where v: "verify sha hmac r k now s = (ok, s')" by fastforce
  have rem: "remembers s now q" if "q \<in> set old" for q
    using Cons.prems(2) [OF that] Cons.prems(4) [of c] c by (auto simp: call_time_def intro: remembers_later)
  have "(ok = False \<and> s' = s) \<or> record_nonce r now s = (ok, s')"
    using v by (auto simp: verify_def Let_def split: if_splits)
  then have s': "hm_wf (seen s')" "\<And>q. q \<in> set ((if ok then [r] else []) @ old) \<Longrightarrow> remembers s' now q"
    using record_nonce_remembers [OF Cons.prems(1) rem] Cons.prems(1) rem by auto
  have IH: "distinct (map replay_id (accepted sha hmac cs s'))
      \<and> replay_id ` set (accepted sha hmac cs s') \<inter> replay_id ` set ((if ok then [r] else []) @ old) = {}"
    by (rule Cons.IH [OF s']) (use Cons.prems(3) c in \<open>auto simp: call_time_def\<close>)
  have "replay_id r \<notin> replay_id ` set old" if ok
  proof
    assume "replay_id r \<in> replay_id ` set old"
    then obtain q where q: "q \<in> set old" "replay_id q = replay_id r" by auto
    have "in_window now s r" "\<not> live_nonce now s r"
      using verify_accepts_iff [of sha hmac r k now s] v that by auto
    then show False using in_window_live [of now s r q] rem q by (simp add: replay_id_def)
  qed
  moreover have "accepted sha hmac (c # cs) s = (if ok then [r] else []) @ accepted sha hmac cs s'" by (simp add: c v)
  ultimately show ?case using IH by (cases ok) auto
qed simp

text \<open>
  C15. No replay: along any history of verifications with a clock that does not run backwards, no two
  accepted requests agree in key, nonce and timestamp, whatever was forgotten or refused between
  them.
\<close>

theorem no_replay_accepted:
  assumes "seen s = []" and "sorted (map call_time cs)"
  shows "distinct (map replay_id (accepted sha hmac cs s))"
  using accepted_fresh [of s "[]" 0 cs sha hmac] assms by simp

text \<open>The functions of the witnesses: constant digests, and the message itself as its code.\<close>

definition plain_sha :: "u8 list \<Rightarrow> u8 list" where
  "plain_sha bs = replicate 32 0"

definition plain_hmac :: "u8 list \<Rightarrow> u8 list \<Rightarrow> u8 list" where
  "plain_hmac k m = k @ m"

theorem no_replay_accepted_witness:
  "let k = signing_key_new ''k'' [1] 0; r = sign plain_sha plain_hmac [7] k 10 ''n''
   in distinct (map replay_id (accepted plain_sha plain_hmac [(r, k, 10), (r, k, 11), (r, k, 400)] signer_new))"
  unfolding Let_def
  by (rule no_replay_accepted) (simp_all add: signer_new_def with_replay_window_def call_time_def)

section \<open>What a signature covers\<close>

lemma length_to_hex: "length (to_hex bs) = 2 * length bs"
  by (induction bs) (simp_all add: to_hex_def)

lemma nat_to_string_inj [simp]: "nat_to_string m = nat_to_string n \<longleftrightarrow> m = n"
  by (metis digits_value_nat_to_string)

lemma split_at_newline:
  assumes "nat_to_string m @ newline @ xs = nat_to_string n @ newline @ ys"
  shows "m = n \<and> xs = ys"
proof -
  have d: "CHR 0x0A \<notin> set (nat_to_string k)" for k
    using nat_to_string_digits [of k] by (auto simp: list_all_iff is_digit_def)
  have "nat_to_string m = takeWhile (\<lambda>c. c \<noteq> CHR 0x0A) (nat_to_string m @ newline @ xs)"
    using d [of m] by (subst takeWhile_append2) (auto simp: newline_def)
  also have "\<dots> = takeWhile (\<lambda>c. c \<noteq> CHR 0x0A) (nat_to_string n @ newline @ ys)" by (simp only: assms)
  also have "\<dots> = nat_to_string n" using d [of n] by (subst takeWhile_append2) (auto simp: newline_def)
  finally have "m = n" by simp
  then show ?thesis using assms by simp
qed

lemma to_hex_inj:
  assumes "to_hex a = to_hex b" shows "a = b"
  using assms
proof (induction a arbitrary: b)
  case Nil
  then show ?case by (cases b) (simp_all add: to_hex_def)
next
  case (Cons x a)
  then obtain y b' where b: "b = y # b'" by (cases b) (auto simp: to_hex_def)
  have "hex_digit (unat x div 16) = hex_digit (unat y div 16)" "hex_digit (unat x mod 16) = hex_digit (unat y mod 16)"
      "to_hex a = to_hex b'" using Cons.prems b by (simp_all add: to_hex_def)
  moreover have "unat x div 16 < 16" "unat y div 16 < 16" using unat_le_max [of x] unat_le_max [of y] by simp_all
  ultimately have "unat x div 16 = unat y div 16" "unat x mod 16 = unat y mod 16" using hex_digit_inj by simp_all
  then have "x = y" by (metis div_mult_mod_eq word_unat_eq_iff)
  then show ?case using Cons.IH [of b'] Cons.prems b by (simp add: to_hex_def)
qed

text \<open>
  The signature of a key covers the timestamp, the nonce and the digest of the payload, wherever
  the nonce itself has line breaks: two requests of the same key with the same canonical string
  agree in all three.
\<close>

theorem canonical_string_injective:
  assumes "\<And>bs. length (sha bs) = 32"
    and "rq_key_id a = rq_key_id b" and "canonical_string sha a = canonical_string sha b"
  shows "timestamp a = timestamp b \<and> nonce a = nonce b \<and> sha (rq_payload a) = sha (rq_payload b)"
proof -
  let ?rest = "\<lambda>r. nonce r @ newline @ to_hex (sha (rq_payload r))"
  have "nat_to_string (unat (timestamp a)) @ newline @ ?rest a = nat_to_string (unat (timestamp b)) @ newline @ ?rest b"
    using assms(2,3) by (simp add: canonical_string_def)
  from split_at_newline [OF this] have "timestamp a = timestamp b" "?rest a = ?rest b" by (simp_all add: word_unat_eq_iff)
  moreover have "length (to_hex (sha (rq_payload a))) = length (to_hex (sha (rq_payload b)))"
    by (simp add: length_to_hex assms(1))
  ultimately show ?thesis using to_hex_inj by (simp add: newline_def)
qed

theorem canonical_string_injective_witness:
  "let r = \<lparr>rq_payload = [1], signature = [], rq_key_id = ''k'', timestamp = 5, nonce = ''a''\<rparr>
   in canonical_string plain_sha (r\<lparr>nonce := ''a'' @ newline\<rparr>) \<noteq> canonical_string plain_sha r"
  using canonical_string_injective [of plain_sha "\<lparr>rq_payload = [1], signature = [], rq_key_id = ''k'', timestamp = 5, nonce = ''a'' @ newline\<rparr>"
      "\<lparr>rq_payload = [1], signature = [], rq_key_id = ''k'', timestamp = 5, nonce = ''a''\<rparr>"]
  by (auto simp: plain_sha_def newline_def)

text \<open>
  What a signer signs it accepts: a request verified within the window of its signing, under a
  key that is valid then, with a nonce not remembered and room in the cache, is accepted; the same
  request is then refused at any later time.
\<close>

theorem signed_request_accepted_once:
  assumes "is_valid_at now k" and "in_window now s (sign sha hmac pl k t n)"
    and "\<not> live_nonce now s (sign sha hmac pl k t n)" and "has_room now s" and "hm_wf (seen s)" and "now \<le> later"
  shows "fst (verify sha hmac (sign sha hmac pl k t n) k now s)
    \<and> \<not> fst (verify sha hmac (sign sha hmac pl k t n) k later (snd (verify sha hmac (sign sha hmac pl k t n) k now s)))"
proof -
  let ?r = "sign sha hmac pl k t n"
  have gen: "genuine sha hmac k ?r" by (simp add: genuine_def sign_def canonical_string_def Let_def)
  obtain ok s' where v: "verify sha hmac ?r k now s = (ok, s')" by fastforce
  have ok: ok using verify_accepts_iff [of sha hmac ?r k now s] assms(1-4) gen v by simp
  then have "record_nonce ?r now s = (True, s')" using v by (auto simp: verify_def Let_def split: if_splits)
  then have "remembers s' now ?r" "replay_window_secs s' = replay_window_secs s"
    using record_nonce_remembers [OF assms(5), of "[]" now ?r True s'] by simp_all
  then have "live_nonce later s' ?r" if "in_window later s' ?r"
    using in_window_live [OF that] remembers_later assms(6) by blast
  then have "\<not> fst (verify sha hmac ?r k later s')" using verify_accepts_iff [of sha hmac ?r k later s'] by blast
  then show ?thesis using ok v by simp
qed

theorem signed_request_accepted_once_witness:
  "let k = signing_key_new ''k'' [1] 0; r = sign plain_sha plain_hmac [7] k 10 ''n''
   in fst (verify plain_sha plain_hmac r k 12 signer_new)
     \<and> \<not> fst (verify plain_sha plain_hmac r k 13 (snd (verify plain_sha plain_hmac r k 12 signer_new)))"
  unfolding Let_def
  by (rule signed_request_accepted_once)
    (simp_all add: signer_new_def with_replay_window_def signing_key_new_def is_valid_at_def in_window_def sign_def Let_def
      live_nonce_def has_room_def DEFAULT_MAX_SEEN_NONCES_def sat_sub_def)

text \<open>A window of the largest number of seconds, meant to switch the check off, refuses every request.\<close>

theorem unlimited_window_refuses:
  "if now \<le> timestamp r \<and> 0 < now then verify sha hmac r k now (with_replay_window (- 1)) = (False, with_replay_window (- 1)) else True"
proof -
  have "now - 1 < timestamp r" if "now \<le> timestamp r" "0 < now"
  proof -
    have "unat (now - 1) = unat now - 1" using that(2) by (simp add: unat_minus_one)
    moreover have "0 < unat now" using that(2) by (simp add: word_less_nat_alt)
    ultimately show ?thesis using that(1) by (simp add: word_less_nat_alt word_le_nat_alt)
  qed
  then show ?thesis by (auto simp: verify_def with_replay_window_def)
qed


end
