(* ===== verification/SlidingWindow.thy ===== *)
theory SlidingWindow
  imports Floats
begin

text \<open>
  Sliding windows. The bucketed counter of \<open>src/sliding_window_counter.rs\<close>, per key and alone: how many
  requests it really lets through in a stretch of time. And the limiter of
  \<open>src/sliding_rate_limiter.rs\<close>, which keeps every timestamp of a client. Clock readings are
  arguments, in milliseconds.
\<close>

section \<open>The bucketed counter\<close>

record WindowConfig =
  window_ms :: u64
  max_requests :: u64
  sub_windows :: u32

definition WindowConfig_default :: WindowConfig where
  "WindowConfig_default = \<lparr>window_ms = 1000, max_requests = 100, sub_windows = 10\<rparr>"

definition bucket_ms :: "WindowConfig \<Rightarrow> u64" where
  "bucket_ms c = max (window_ms c div ucast (max (sub_windows c) 1)) 1"

record SubWindow =
  start_ms :: u64
  bucket_count :: u64

record SlidingWindowCounter =
  wc_config :: WindowConfig
  buckets :: "SubWindow list"

definition counter_new :: "WindowConfig \<Rightarrow> SlidingWindowCounter" where
  "counter_new c = \<lparr>wc_config = c, buckets = []\<rparr>"

definition evict_stale :: "u64 \<Rightarrow> SlidingWindowCounter \<Rightarrow> SlidingWindowCounter" where
  "evict_stale now w =
    (let cutoff = sat_sub now (window_ms (wc_config w))
     in w\<lparr>buckets := filter (\<lambda>b. cutoff < start_ms b) (buckets w)\<rparr>)"

definition bucket_start :: "u64 \<Rightarrow> SlidingWindowCounter \<Rightarrow> u64" where
  "bucket_start now w = now div bucket_ms (wc_config w) * bucket_ms (wc_config w)"

text \<open>Adding one to the first bucket with the start, or a new bucket at the end.\<close>

fun record_in :: "u64 \<Rightarrow> SubWindow list \<Rightarrow> SubWindow list" where
  "record_in start [] = [\<lparr>start_ms = start, bucket_count = 1\<rparr>]"
| "record_in start (b # bs) =
    (if start_ms b = start then b\<lparr>bucket_count := sat_add (bucket_count b) 1\<rparr> # bs else b # record_in start bs)"

definition record_now :: "u64 \<Rightarrow> SlidingWindowCounter \<Rightarrow> SlidingWindowCounter" where
  "record_now now w = w\<lparr>buckets := record_in (bucket_start now w) (buckets w)\<rparr>"

definition sum_counts :: "SlidingWindowCounter \<Rightarrow> u64" where
  "sum_counts w = sum_list (map bucket_count (buckets w))"

definition try_increment :: "u64 \<Rightarrow> SlidingWindowCounter \<Rightarrow> bool \<times> SlidingWindowCounter" where
  "try_increment now w =
    (let w = evict_stale now w
     in if max_requests (wc_config w) \<le> sum_counts w then (False, w) else (True, record_now now w))"

definition current_count :: "u64 \<Rightarrow> SlidingWindowCounter \<Rightarrow> u64 \<times> SlidingWindowCounter" where
  "current_count now w = (let w = evict_stale now w in (sum_counts w, w))"

definition counter_reset :: "SlidingWindowCounter \<Rightarrow> SlidingWindowCounter" where
  "counter_reset w = w\<lparr>buckets := []\<rparr>"

definition fill_rate :: "u64 \<Rightarrow> SlidingWindowCounter \<Rightarrow> f64 \<times> SlidingWindowCounter" where
  "fill_rate now w =
    (case current_count now w of (n, w) \<Rightarrow>
      (f64_min (f64_div (f64_of_u64 n) (f64_of_u64 (max (max_requests (wc_config w)) 1))) (FFin 1), w))"

section \<open>Counters by key\<close>

record DistributedCounter =
  dc_config :: WindowConfig
  inner :: "(string, SlidingWindowCounter) hashmap"

definition distributed_new :: "WindowConfig \<Rightarrow> DistributedCounter" where
  "distributed_new c = \<lparr>dc_config = c, inner = []\<rparr>"

definition counter_of :: "string \<Rightarrow> DistributedCounter \<Rightarrow> SlidingWindowCounter" where
  "counter_of key d = (case hm_get (inner d) key of Some w \<Rightarrow> w | None \<Rightarrow> counter_new (dc_config d))"

definition dc_check :: "string \<Rightarrow> u64 \<Rightarrow> DistributedCounter \<Rightarrow> bool \<times> DistributedCounter" where
  "dc_check key now d =
    (case current_count now (counter_of key d) of
       (n, w) \<Rightarrow> (n < max_requests (dc_config d), d\<lparr>inner := hm_insert key w (inner d)\<rparr>))"

definition dc_increment :: "string \<Rightarrow> u64 \<Rightarrow> DistributedCounter \<Rightarrow> bool \<times> DistributedCounter" where
  "dc_increment key now d =
    (case try_increment now (counter_of key d) of (ok, w) \<Rightarrow> (ok, d\<lparr>inner := hm_insert key w (inner d)\<rparr>))"

definition top_consumers :: "nat \<Rightarrow> u64 \<Rightarrow> DistributedCounter \<Rightarrow> (string \<times> u64) list \<times> DistributedCounter" where
  "top_consumers n now d =
    (let pairs = map (\<lambda>(k, w). (k, fst (current_count now w))) (inner d)
     in (take n (sort_key (\<lambda>(k, c). - uint c) pairs),
         d\<lparr>inner := hm_map_values (\<lambda>w. snd (current_count now w)) (inner d)\<rparr>))"

section \<open>Runs of a counter\<close>

text \<open>The requests accepted, given the times at which requests arrive.\<close>

fun admitted :: "u64 list \<Rightarrow> SlidingWindowCounter \<Rightarrow> u64 list" where
  "admitted [] w = []"
| "admitted (t # ts) w = (case try_increment t w of (ok, w) \<Rightarrow> (if ok then [t] else []) @ admitted ts w)"

lemma bucket_ms_pos: "0 < unat (bucket_ms c)"
proof -
  have "1 \<le> bucket_ms c" by (simp add: bucket_ms_def)
  then show ?thesis by (simp add: word_le_nat_alt)
qed

lemma unat_bucket_start:
  "unat (bucket_start t w) = unat t div unat (bucket_ms (wc_config w)) * unat (bucket_ms (wc_config w))"
proof -
  let ?b = "bucket_ms (wc_config w)"
  have "unat t < 2 ^ 64" using unat_le_max [of t] by simp
  then have "unat t div unat ?b * unat ?b < 2 ^ 64" by (rule le_less_trans [rotated]) simp
  then have "unat (t div ?b) * unat ?b < 2 ^ 64" by (simp only: unat_div)
  then have "unat (t div ?b * ?b) = unat (t div ?b) * unat ?b" by (intro unat_mult_small) simp
  then show ?thesis by (simp add: bucket_start_def unat_div)
qed

text \<open>A request leaves its bucket at most one bucket width before its own window is over.\<close>

lemma bucket_start_bounds:
  "unat (bucket_start t w) \<le> unat t" "unat t < unat (bucket_start t w) + unat (bucket_ms (wc_config w))"
  using bucket_ms_pos [of "wc_config w"]
  by (simp_all add: unat_bucket_start) (metis add.commute div_mult_mod_eq mod_less_divisor nat_add_left_cancel_less)

abbreviation in_bucket_of :: "WindowConfig \<Rightarrow> u64 \<Rightarrow> u64" where
  "in_bucket_of c t \<equiv> bucket_start t (counter_new c)"

lemma bucket_start_config: "bucket_start t w = in_bucket_of (wc_config w) t"
  by (simp add: bucket_start_def counter_new_def)

definition counted :: "SubWindow list \<Rightarrow> nat" where
  "counted bs = sum_list (map (\<lambda>b. unat (bucket_count b)) bs)"

definition in_stretch :: "WindowConfig \<Rightarrow> nat \<Rightarrow> u64 \<Rightarrow> bool" where
  "in_stretch c x t \<longleftrightarrow> x < unat t \<and> unat t \<le> x + (unat (window_ms c) - unat (bucket_ms c))"

text \<open>
  What holds of a counter that accepted the requests \<open>acc\<close>, none later than \<open>now\<close>: every one of them is
  counted in its bucket or its bucket has left the window, and no stretch has more than the limit.
\<close>

definition counter_ok :: "WindowConfig \<Rightarrow> nat \<Rightarrow> u64 list \<Rightarrow> SlidingWindowCounter \<Rightarrow> bool" where
  "counter_ok c now acc w \<longleftrightarrow> wc_config w = c \<and> distinct (map start_ms (buckets w))
     \<and> (\<forall>b \<in> set (buckets w). length (filter (\<lambda>t. in_bucket_of c t = start_ms b) acc) \<le> unat (bucket_count b))
     \<and> (\<forall>t \<in> set acc. in_bucket_of c t \<in> start_ms ` set (buckets w) \<or> unat (in_bucket_of c t) + unat (window_ms c) \<le> now)
     \<and> (\<forall>t \<in> set acc. unat t \<le> now)
     \<and> counted (buckets w) \<le> unat (max_requests c)
     \<and> (\<forall>x. length (filter (in_stretch c x) acc) \<le> unat (max_requests c))"

lemma sum_counts_counted:
  "counted (buckets w) < 2 ^ 64 \<Longrightarrow> unat (sum_counts w) = counted (buckets w)"
proof -
  have "counted bs < 2 ^ 64 \<Longrightarrow> unat (sum_list (map bucket_count bs)) = counted bs" for bs
    by (induction bs) (simp_all add: counted_def unat_add_small)
  then show "counted (buckets w) < 2 ^ 64 \<Longrightarrow> unat (sum_counts w) = counted (buckets w)" by (simp add: sum_counts_def)
qed

lemma filter_member_sum:
  "length (filter (\<lambda>t. f t \<in> set ss) xs) \<le> (\<Sum>s \<leftarrow> ss. length (filter (\<lambda>t. f t = s) xs))"
proof (induction ss)
  case (Cons s ss)
  have "length (filter (\<lambda>t. f t \<in> set (s # ss)) ys)
      \<le> length (filter (\<lambda>t. f t = s) ys) + length (filter (\<lambda>t. f t \<in> set ss) ys)" for ys
    by (induction ys) auto
  from this [of xs] Cons show ?case by simp
qed simp

lemma evict_keeps:
  assumes "unat (window_ms c) \<le> unat now \<or> 0 < unat s"
  shows "sat_sub now (window_ms c) < s \<longleftrightarrow> unat now < unat s + unat (window_ms c)"
  using assms by (auto simp: word_less_nat_alt unat_sat_sub)

lemma counter_ok_evict:
  assumes ok: "counter_ok c t0 acc w" and "t0 \<le> unat now" and pos: "\<And>t. t \<in> set acc \<Longrightarrow> 0 < unat (in_bucket_of c t)"
  shows "counter_ok c (unat now) acc (evict_stale now w)"
proof -
  have c: "wc_config w = c" using ok by (simp add: counter_ok_def)
  have "in_bucket_of c t \<in> start_ms ` set (buckets (evict_stale now w)) \<or> unat (in_bucket_of c t) + unat (window_ms c) \<le> unat now"
    if t: "t \<in> set acc" for t
  proof (cases "in_bucket_of c t \<in> start_ms ` set (buckets w)")
    case True
    then show ?thesis using evict_keeps [of c now "in_bucket_of c t"] pos [OF t] c
      by (auto simp: evict_stale_def Let_def not_less)
  next
    case False
    then show ?thesis using ok t assms(2) by (auto simp: counter_ok_def)
  qed
  moreover have "counted (filter P bs) \<le> counted bs" for P bs by (induction bs) (auto simp: counted_def)
  then have "counted (buckets (evict_stale now w)) \<le> unat (max_requests c)"
    using ok by (auto simp: evict_stale_def Let_def counter_ok_def intro: le_trans)
  ultimately show ?thesis using ok assms(2) by (auto simp: counter_ok_def evict_stale_def Let_def distinct_map_filter)
qed

definition bump :: "u64 \<Rightarrow> SubWindow \<Rightarrow> SubWindow" where
  "bump s b = (if start_ms b = s then b\<lparr>bucket_count := sat_add (bucket_count b) 1\<rparr> else b)"

lemma start_bump [simp]: "start_ms (bump s b) = start_ms b"
  by (simp add: bump_def)

lemma record_in_distinct:
  "distinct (map start_ms bs) \<Longrightarrow>
    record_in s bs = (if s \<in> start_ms ` set bs then map (bump s) bs else bs @ [\<lparr>start_ms = s, bucket_count = 1\<rparr>])"
proof (induction bs)
  case (Cons b bs)
  have "map (bump s) bs = bs" if "s \<notin> start_ms ` set bs"
    using that by (intro map_idI) (auto simp: bump_def)
  then show ?case using Cons by (auto simp: bump_def [of _ b])
qed simp

lemma counted_bump:
  assumes "distinct (map start_ms bs)" and "counted bs < 2 ^ 64 - 1"
  shows "counted (map (bump s) bs) = counted bs + of_bool (s \<in> start_ms ` set bs)"
  using assms
proof (induction bs)
  case (Cons b bs)
  have "unat (bucket_count (bump s b)) = unat (bucket_count b) + of_bool (start_ms b = s)"
    using Cons.prems(2) by (auto simp: bump_def counted_def unat_sat_add)
  then show ?case using Cons by (auto simp: counted_def)
qed (simp add: counted_def)

lemma counter_ok_accept:
  assumes ok: "counter_ok c (unat now) acc w" and room: "counted (buckets w) < unat (max_requests c)"
    and width: "unat (bucket_ms c) \<le> unat (window_ms c)"
  shows "counter_ok c (unat now) (now # acc) (record_now now w)"
proof -
  let ?s = "in_bucket_of c now" and ?bs = "buckets w" and ?f = "\<lambda>s. length (filter (\<lambda>t. in_bucket_of c t = s) acc)"
  have c: "wc_config w = c" and dist: "distinct (map start_ms ?bs)"
    and cnt: "\<And>b. b \<in> set ?bs \<Longrightarrow> ?f (start_ms b) \<le> unat (bucket_count b)"
    and cover: "\<And>t. t \<in> set acc \<Longrightarrow> in_bucket_of c t \<in> start_ms ` set ?bs \<or> unat (in_bucket_of c t) + unat (window_ms c) \<le> unat now"
    using ok by (auto simp: counter_ok_def)
  have "unat (max_requests c) \<le> 2 ^ 64 - 1" using unat_le_max [of "max_requests c"] by simp
  with room have small: "counted ?bs < 2 ^ 64 - 1" by (rule order.strict_trans2)
  have rec: "buckets (record_now now w) = record_in ?s ?bs" by (simp add: record_now_def bucket_start_config [of now w] c)
  have here: "unat now < unat ?s + unat (window_ms c)" using bucket_start_bounds(2) [of now "counter_new c"] width
    by (simp add: counter_new_def)
  have starts: "start_ms ` set (record_in ?s ?bs) = insert ?s (start_ms ` set ?bs)"
    by (auto simp: record_in_distinct [OF dist] image_image)
  have "distinct (map start_ms (record_in ?s ?bs))"
    using dist by (auto simp: record_in_distinct [OF dist] comp_def)
  moreover have "length (filter (\<lambda>t. in_bucket_of c t = start_ms b) (now # acc)) \<le> unat (bucket_count b)"
    if b: "b \<in> set (record_in ?s ?bs)" for b
  proof (cases "?s \<in> start_ms ` set ?bs")
    case True
    then obtain b0 where b0: "b0 \<in> set ?bs" "b = bump ?s b0" using b by (auto simp: record_in_distinct [OF dist])
    have "unat (bucket_count b0) \<le> counted ?bs" unfolding counted_def using b0(1) by (intro member_le_sum_list) auto
    then show ?thesis using cnt [OF b0(1)] small by (auto simp: b0(2) bump_def unat_sat_add)
  next
    case False
    have "in_bucket_of c t \<noteq> ?s" if "t \<in> set acc" for t using cover [OF that] here False by (metis not_less)
    then have "?f ?s = 0" by (simp add: filter_empty_conv)
    then show ?thesis using b cnt False by (auto simp: record_in_distinct [OF dist])
  qed
  moreover have "counted (record_in ?s ?bs) \<le> unat (max_requests c)"
    using room counted_bump [OF dist small, of ?s] by (auto simp: record_in_distinct [OF dist]) (simp add: counted_def)
  moreover have "length (filter (in_stretch c x) (now # acc)) \<le> unat (max_requests c)" for x
  proof (cases "in_stretch c x now")
    case True
    have "in_bucket_of c t \<in> set (map start_ms ?bs)" if "t \<in> set acc" "in_stretch c x t" for t
    proof -
      have "unat t < unat (in_bucket_of c t) + unat (bucket_ms c)" using bucket_start_bounds(2) [of t "counter_new c"]
        by (simp add: counter_new_def)
      then have "unat now < unat (in_bucket_of c t) + unat (window_ms c)"
        using True that(2) width unfolding in_stretch_def by arith
      then show ?thesis using cover [OF that(1)] by auto
    qed
    then have "length (filter (in_stretch c x) acc) \<le> length (filter (\<lambda>t. in_bucket_of c t \<in> set (map start_ms ?bs)) acc)"
      by (induction acc) auto
    also have "\<dots> \<le> (\<Sum>s \<leftarrow> map start_ms ?bs. ?f s)" by (rule filter_member_sum)
    also have "\<dots> \<le> counted ?bs" unfolding counted_def map_map comp_def by (rule sum_list_mono) (rule cnt)
    finally show ?thesis using room True by simp
  next
    case False
    then show ?thesis using ok by (simp add: counter_ok_def)
  qed
  ultimately show ?thesis using ok starts cover by (auto simp: counter_ok_def rec c) (simp_all add: record_now_def c)
qed

lemma admitted_within_limit:
  assumes "counter_ok c t0 acc w" and width: "unat (bucket_ms c) \<le> unat (window_ms c)"
    and "sorted ts" and "\<And>t. t \<in> set ts \<Longrightarrow> t0 \<le> unat t \<and> bucket_ms c \<le> t" and "\<And>t. t \<in> set acc \<Longrightarrow> bucket_ms c \<le> t"
  shows "length (filter (in_stretch c x) (admitted ts w @ acc)) \<le> unat (max_requests c)"
  using assms(1,3-)
proof (induction ts arbitrary: t0 acc w)
  case Nil
  then show ?case by (simp add: counter_ok_def)
next
  case (Cons t ts)
  have "0 < unat (in_bucket_of c u)" if "bucket_ms c \<le> u" for u
  proof -
    have "unat (bucket_ms c) \<le> unat u" using that by (simp add: word_le_nat_alt)
    then show ?thesis using bucket_ms_pos [of c] by (simp add: unat_bucket_start counter_new_def div_greater_zero_iff)
  qed
  then have ev: "counter_ok c (unat t) acc (evict_stale t w)"
    using counter_ok_evict [OF Cons.prems(1)] Cons.prems(3,4) by simp
  have "wc_config (evict_stale t w) = c" and cnt: "counted (buckets (evict_stale t w)) \<le> unat (max_requests c)"
    using ev by (simp_all add: counter_ok_def)
  moreover have "unat (sum_counts (evict_stale t w)) = counted (buckets (evict_stale t w))"
    by (rule sum_counts_counted) (use cnt unat_le_max [of "max_requests c"] in simp)
  ultimately have att: "try_increment t w = (if unat (max_requests c) \<le> counted (buckets (evict_stale t w)) then (False, evict_stale t w)
      else (True, record_now t (evict_stale t w)))"
    by (simp add: try_increment_def Let_def word_le_nat_alt)
  have later: "unat t \<le> unat u \<and> bucket_ms c \<le> u" if "u \<in> set ts" for u
    using Cons.prems(2,3) that by (simp add: word_le_nat_alt)
  show ?case
  proof (cases "unat (max_requests c) \<le> counted (buckets (evict_stale t w))")
    case True
    then show ?thesis using Cons.IH [OF ev _ later Cons.prems(4)] Cons.prems(2) att by simp
  next
    case False
    have "counter_ok c (unat t) (t # acc) (record_now t (evict_stale t w))"
      by (rule counter_ok_accept [OF ev _ width]) (use False in simp)
    then have "length (filter (in_stretch c x) (admitted ts (record_now t (evict_stale t w)) @ t # acc)) \<le> unat (max_requests c)"
      by (rule Cons.IH) (use Cons.prems later in auto)
    then show ?thesis using False att by (simp split: if_splits)
  qed
qed

text \<open>
  C26. With a clock that does not run backwards and starts after its first bucket, the counter lets
  through at most the configured number of requests in every stretch that is one bucket shorter
  than its window.
\<close>

theorem counter_limits_stretches:
  assumes "sorted ts" and "\<And>t. t \<in> set ts \<Longrightarrow> bucket_ms c \<le> t"
  shows "length (filter (in_stretch c x) (admitted ts (counter_new c))) \<le> unat (max_requests c)"
proof (cases "unat (bucket_ms c) \<le> unat (window_ms c)")
  case True
  have "counter_ok c 0 [] (counter_new c)" by (simp add: counter_ok_def counter_new_def counted_def)
  then have "length (filter (in_stretch c x) (admitted ts (counter_new c) @ [])) \<le> unat (max_requests c)"
    by (rule admitted_within_limit [OF _ True assms(1)]) (use assms(2) in simp_all)
  then show ?thesis by simp
next
  case False
  then have "\<not> in_stretch c x t" for t by (simp add: in_stretch_def)
  then show ?thesis by simp
qed

theorem counter_limits_stretches_witness:
  "length (filter (in_stretch WindowConfig_default 1000) (admitted (replicate 500 1500) (counter_new WindowConfig_default))) \<le> 100"
  using counter_limits_stretches [of "replicate 500 1500" WindowConfig_default 1000]
  by (simp add: WindowConfig_default_def bucket_ms_def)

text \<open>
  In the first bucket of its clock the counter has no limit: the cut-off saturates at zero, so
  the bucket that starts at zero is forgotten at once, and every request is let through.
\<close>

theorem first_bucket_unlimited:
  assumes "\<And>t. t \<in> set ts \<Longrightarrow> t < bucket_ms c" and "0 < max_requests c"
  shows "admitted ts (counter_new c) = ts"
proof -
  have "admitted ts w = ts" if "wc_config w = c" "\<forall>b \<in> set (buckets w). start_ms b = 0" for w
    using that assms(1)
  proof (induction ts arbitrary: w)
    case (Cons t ts)
    have t: "t < bucket_ms c" using Cons.prems(3) by simp
    have "sat_sub t (window_ms c) = 0"
    proof (cases "window_ms c = 0")
      case True
      then have "bucket_ms c = 1" by (simp add: bucket_ms_def)
      then show ?thesis using t by (simp add: True sat_sub_def word_less_nat_alt unat_eq_0)
    next
      case False
      have "unat (window_ms c div ucast (max (sub_windows c) 1)) \<le> unat (window_ms c)" by (simp add: unat_div)
      moreover have "1 \<le> unat (window_ms c)" using False by (simp add: unat_eq_zero Suc_le_eq unat_gt_0)
      ultimately have "unat t < unat (window_ms c)" using t by (auto simp: bucket_ms_def word_less_nat_alt max_def split: if_splits)
      then have "unat (sat_sub t (window_ms c)) = 0" by (simp add: unat_sat_sub)
      then show ?thesis by (simp add: unat_eq_zero)
    qed
    then have "buckets (evict_stale t w) = []" using Cons.prems(1,2) by (auto simp: evict_stale_def Let_def filter_empty_conv)
    moreover have "wc_config (evict_stale t w) = c" using Cons.prems(1) by (simp add: evict_stale_def Let_def)
    moreover have "bucket_start t (evict_stale t w) = 0"
      using t calculation(2) by (simp add: bucket_start_def word_less_nat_alt div_word_less)
    ultimately have "try_increment t w = (True, (evict_stale t w)\<lparr>buckets := [\<lparr>start_ms = 0, bucket_count = 1\<rparr>]\<rparr>)"
      using assms(2) by (simp add: try_increment_def Let_def sum_counts_def record_now_def)
    then show ?case using Cons.IH [of "(evict_stale t w)\<lparr>buckets := [\<lparr>start_ms = 0, bucket_count = 1\<rparr>]\<rparr>"]
        Cons.prems \<open>wc_config (evict_stale t w) = c\<close> by simp
  qed simp
  then show ?thesis by (simp add: counter_new_def)
qed

theorem first_bucket_unlimited_witness:
  "admitted (replicate 1000 42) (counter_new WindowConfig_default) = replicate 1000 42"
  by (rule first_bucket_unlimited) (simp_all add: WindowConfig_default_def bucket_ms_def)

text \<open>Over a whole window the limit does not hold: a bucket leaves before its requests do.\<close>

theorem full_window_exceeds_limit:
  "admitted [9, 9, 15, 15] (counter_new \<lparr>window_ms = 10, max_requests = 2, sub_windows = 2\<rparr>) = [9, 9, 15, 15]"
  by (simp add: try_increment_def counter_new_def evict_stale_def sat_sub_def sum_counts_def record_now_def bucket_start_def
    bucket_ms_def Let_def word_le_nat_alt)

section \<open>The limiter with timestamps\<close>

record SlidingWindowConfig =
  sl_window_ms :: u64
  sl_max_requests :: u32
  burst_multiplier :: f64

definition SlidingWindowConfig_default :: SlidingWindowConfig where
  "SlidingWindowConfig_default = \<lparr>sl_window_ms = 1000, sl_max_requests = 60, burst_multiplier = FFin (3 / 2)\<rparr>"

definition burst_limit :: "SlidingWindowConfig \<Rightarrow> u32" where
  "burst_limit c =
    ucast (min (f64_to_u64 (f64_mul (f64_of_nat (unat (sl_max_requests c))) (burst_multiplier c))) 4294967295)"

definition burst_window_ms :: "SlidingWindowConfig \<Rightarrow> u64" where
  "burst_window_ms c = sl_window_ms c div 10"

text \<open>The timestamps of a client, oldest first.\<close>

type_synonym ClientWindow = "u64 list"

definition evict_old :: "u64 \<Rightarrow> u64 \<Rightarrow> ClientWindow \<Rightarrow> ClientWindow" where
  "evict_old now w ts = dropWhile (\<lambda>t. sat_add t w \<le> now) ts"

definition count_in_window :: "u64 \<Rightarrow> u64 \<Rightarrow> ClientWindow \<Rightarrow> u32" where
  "count_in_window now w ts = of_nat (min (length (filter (\<lambda>t. now < sat_add t w) ts)) 4294967295)"

definition oldest_ts :: "ClientWindow \<Rightarrow> u64 option" where
  "oldest_ts ts = (case ts of [] \<Rightarrow> None | t # _ \<Rightarrow> Some t)"

datatype RateLimitResult = Allowed u32 u64 | Limited u64 u32

fun is_allowed :: "RateLimitResult \<Rightarrow> bool" where
  "is_allowed (Allowed remaining reset_ms) = True"
| "is_allowed (Limited retry_after_ms limit) = False"

record ClientStats =
  requests_in_window :: u32
  window_start_ms :: u64
  cs_remaining :: u32

record SlidingWindowLimiter =
  sl_config :: SlidingWindowConfig
  clients :: "(string, ClientWindow) hashmap"

definition limiter_new :: "SlidingWindowConfig \<Rightarrow> SlidingWindowLimiter" where
  "limiter_new c = \<lparr>sl_config = c, clients = []\<rparr>"

definition client_window :: "string \<Rightarrow> u64 \<Rightarrow> SlidingWindowLimiter \<Rightarrow> ClientWindow" where
  "client_window i now l =
     evict_old now (sl_window_ms (sl_config l)) (case hm_get (clients l) i of Some ts \<Rightarrow> ts | None \<Rightarrow> [])"

definition effective_limit :: "u32 \<Rightarrow> u32 \<Rightarrow> SlidingWindowConfig \<Rightarrow> u32" where
  "effective_limit count burst_count c =
    (if burst_count < burst_limit c \<and> count < burst_limit c then burst_limit c else sl_max_requests c)"

definition check_limit :: "string \<Rightarrow> u64 \<Rightarrow> SlidingWindowLimiter \<Rightarrow> RateLimitResult \<times> SlidingWindowLimiter" where
  "check_limit i now l =
    (let c = sl_config l;
         ts = client_window i now l;
         count = count_in_window now (sl_window_ms c) ts;
         burst_count = count_in_window now (burst_window_ms c) ts;
         limit = effective_limit count burst_count c
     in (if count < limit
         then Allowed (sat_sub limit (count + 1))
                (case oldest_ts ts of Some t \<Rightarrow> t + sl_window_ms c | None \<Rightarrow> now + sl_window_ms c)
         else Limited (case oldest_ts ts of Some t \<Rightarrow> sat_sub (t + sl_window_ms c) now | None \<Rightarrow> sl_window_ms c) limit,
         l\<lparr>clients := hm_insert i ts (clients l)\<rparr>))"

definition record_request :: "string \<Rightarrow> u64 \<Rightarrow> SlidingWindowLimiter \<Rightarrow> SlidingWindowLimiter" where
  "record_request i now l = l\<lparr>clients := hm_insert i (client_window i now l @ [now]) (clients l)\<rparr>"

definition limiter_stats :: "string \<Rightarrow> u64 \<Rightarrow> SlidingWindowLimiter \<Rightarrow> ClientStats \<times> SlidingWindowLimiter" where
  "limiter_stats i now l =
    (let c = sl_config l
     in case hm_get (clients l) i of
          Some _ \<Rightarrow>
            let ts = client_window i now l; count = count_in_window now (sl_window_ms c) ts
            in (\<lparr>requests_in_window = count, window_start_ms = (case oldest_ts ts of Some t \<Rightarrow> t | None \<Rightarrow> now),
                 cs_remaining = sat_sub (sl_max_requests c) count\<rparr>, l\<lparr>clients := hm_insert i ts (clients l)\<rparr>)
        | None \<Rightarrow> (\<lparr>requests_in_window = 0, window_start_ms = now, cs_remaining = sl_max_requests c\<rparr>, l))"

definition cleanup_stale :: "u64 \<Rightarrow> SlidingWindowLimiter \<Rightarrow> SlidingWindowLimiter" where
  "cleanup_stale now l =
    (let cutoff = sat_sub now (2 * sl_window_ms (sl_config l))
     in l\<lparr>clients := map (\<lambda>(i, ts). (i, evict_old now (sl_window_ms (sl_config l)) ts))
            (filter (\<lambda>(i, ts). ts \<noteq> [] \<and> cutoff \<le> last ts) (clients l))\<rparr>)"

definition client_count :: "SlidingWindowLimiter \<Rightarrow> nat" where
  "client_count l = length (clients l)"

lemma unat_count_in_window:
  "unat (count_in_window now w ts) = min (length (filter (\<lambda>t. now < sat_add t w) ts)) 4294967295"
  unfolding count_in_window_def by (rule unat_of_nat_small) simp

lemma count_mono:
  assumes "w \<le> w'"
  shows "count_in_window now w ts \<le> count_in_window now w' ts"
proof -
  have "now < sat_add t w' " if "now < sat_add t w" for t
    using that assms by (simp add: word_less_nat_alt word_le_nat_alt unat_sat_add)
  then have "length (filter (\<lambda>t. now < sat_add t w) ts) \<le> length (filter (\<lambda>t. now < sat_add t w') ts)"
    by (induction ts) auto
  then show ?thesis unfolding word_le_nat_alt unat_count_in_window by simp
qed

text \<open>
  The burst window has no effect. In every state a request is allowed exactly when the requests
  in the whole window are fewer than the larger of the two limits: the burst limit holds all the
  time, not only in the first tenth of the window.
\<close>

theorem burst_window_has_no_effect:
  "is_allowed (fst (check_limit i now l)) \<longleftrightarrow>
     count_in_window now (sl_window_ms (sl_config l)) (client_window i now l)
       < max (burst_limit (sl_config l)) (sl_max_requests (sl_config l))"
proof -
  let ?c = "sl_config l" and ?ts = "client_window i now l"
  have "burst_window_ms ?c \<le> sl_window_ms ?c" by (simp add: burst_window_ms_def word_le_nat_alt unat_div)
  then have "count_in_window now (burst_window_ms ?c) ?ts \<le> count_in_window now (sl_window_ms ?c) ?ts" by (rule count_mono)
  then show ?thesis by (auto simp: check_limit_def Let_def effective_limit_def less_max_iff_disj)
qed

end
