(* ===== verification/ConnectionPool.thy ===== *)
theory ConnectionPool
  imports Prelude
begin

text \<open>
  The connection pool (\<open>src/connection_pool.rs\<close>): connections are handed out by number, returned, found
  unhealthy and evicted. A pool is passed through its operations, each of which runs under its
  lock.
\<close>

section \<open>Connections and pools\<close>

datatype ConnectionState = Idle | InUse | Unhealthy | Evicted

record PooledConnection =
  conn_id :: u64
  conn_backend :: string
  state :: ConnectionState
  created_at_ms :: u64
  last_used_ms :: u64
  use_count :: u64
  error_count :: u64

record PoolConfig =
  max_connections :: nat
  min_idle :: nat
  max_idle_ms :: u64
  max_lifetime_ms :: u64
  health_check_interval_ms :: u64

definition PoolConfig_default :: PoolConfig where
  "PoolConfig_default = \<lparr>max_connections = 10, min_idle = 2, max_idle_ms = 60000, max_lifetime_ms = 300000,
     health_check_interval_ms = 30000\<rparr>"

record PoolStats =
  ps_total :: nat
  ps_available :: nat
  ps_in_use :: nat
  ps_unhealthy :: nat
  ps_evicted_total :: u64
  ps_acquired_total :: u64

record ConnectionPool =
  connections :: "PooledConnection list"
  config :: PoolConfig
  backend :: string
  next_id :: u64
  total_acquired :: u64
  total_released :: u64
  evicted_total :: u64

definition pool_new :: "string \<Rightarrow> PoolConfig \<Rightarrow> ConnectionPool" where
  "pool_new b c = \<lparr>connections = [], config = c, backend = b, next_id = 1, total_acquired = 0, total_released = 0,
     evicted_total = 0\<rparr>"

definition check_out :: "u64 \<Rightarrow> PooledConnection \<Rightarrow> PooledConnection" where
  "check_out now c = c\<lparr>state := InUse, last_used_ms := now, use_count := use_count c + 1\<rparr>"

definition is_idle :: "PooledConnection \<Rightarrow> bool" where
  "is_idle c = (state c = Idle)"

definition acquire :: "u64 \<Rightarrow> ConnectionPool \<Rightarrow> u64 option \<times> ConnectionPool" where
  "acquire now p =
    (case find is_idle (connections p) of
       Some c \<Rightarrow> (Some (conn_id c),
                  p\<lparr>connections := update_first is_idle (check_out now) (connections p),
                    total_acquired := total_acquired p + 1\<rparr>)
     | None \<Rightarrow>
         if length (connections p) < max_connections (config p)
         then (Some (next_id p),
               p\<lparr>connections := connections p @ [\<lparr>conn_id = next_id p, conn_backend = backend p, state = InUse,
                   created_at_ms = now, last_used_ms = now, use_count = 1, error_count = 0\<rparr>],
                 next_id := next_id p + 1, total_acquired := total_acquired p + 1\<rparr>)
         else (None, p))"

definition give_back :: "u64 \<Rightarrow> bool \<Rightarrow> PooledConnection \<Rightarrow> PooledConnection" where
  "give_back now had_error c =
    (let c = c\<lparr>last_used_ms := now\<rparr>
     in if had_error then c\<lparr>error_count := error_count c + 1, state := Unhealthy\<rparr> else c\<lparr>state := Idle\<rparr>)"

definition release :: "u64 \<Rightarrow> u64 \<Rightarrow> bool \<Rightarrow> ConnectionPool \<Rightarrow> ConnectionPool" where
  "release i now had_error p =
     p\<lparr>connections := update_first (\<lambda>c. conn_id c = i) (give_back now had_error) (connections p),
       total_released := total_released p + 1\<rparr>"

definition retained :: "PoolConfig \<Rightarrow> u64 \<Rightarrow> PooledConnection \<Rightarrow> bool" where
  "retained cfg now c =
    (case state c of
       Unhealthy \<Rightarrow> False
     | Evicted \<Rightarrow> False
     | Idle \<Rightarrow> sat_sub now (last_used_ms c) < max_idle_ms cfg \<and> sat_sub now (created_at_ms c) < max_lifetime_ms cfg
     | InUse \<Rightarrow> sat_sub now (created_at_ms c) < max_lifetime_ms cfg)"

definition evict_stale :: "u64 \<Rightarrow> ConnectionPool \<Rightarrow> nat \<times> ConnectionPool" where
  "evict_stale now p =
    (let kept = filter (retained (config p) now) (connections p);
         evicted = length (connections p) - length kept
     in (evicted, p\<lparr>connections := kept, evicted_total := evicted_total p + of_nat evicted\<rparr>))"

definition fails_check :: "PoolConfig \<Rightarrow> u64 \<Rightarrow> PooledConnection \<Rightarrow> bool" where
  "fails_check cfg now c \<longleftrightarrow>
     state c = Idle \<and> health_check_interval_ms cfg < sat_sub now (last_used_ms c) \<and> 3 < error_count c"

definition health_check_all :: "u64 \<Rightarrow> ConnectionPool \<Rightarrow> u64 list \<times> ConnectionPool" where
  "health_check_all now p =
     (map conn_id (filter (fails_check (config p) now) (connections p)),
      p\<lparr>connections := map (\<lambda>c. if fails_check (config p) now c then c\<lparr>state := Unhealthy\<rparr> else c) (connections p)\<rparr>)"

definition count_state :: "ConnectionState \<Rightarrow> ConnectionPool \<Rightarrow> nat" where
  "count_state s p = length (filter (\<lambda>c. state c = s) (connections p))"

definition available_count :: "ConnectionPool \<Rightarrow> nat" where
  "available_count p = count_state Idle p"

definition in_use_count :: "ConnectionPool \<Rightarrow> nat" where
  "in_use_count p = count_state InUse p"

definition total_count :: "ConnectionPool \<Rightarrow> nat" where
  "total_count p = length (connections p)"

definition pool_stats :: "ConnectionPool \<Rightarrow> PoolStats" where
  "pool_stats p = \<lparr>ps_total = length (connections p), ps_available = count_state Idle p, ps_in_use = count_state InUse p,
     ps_unhealthy = count_state Unhealthy p, ps_evicted_total = evicted_total p, ps_acquired_total = total_acquired p\<rparr>"

section \<open>Pools by backend\<close>

type_synonym BackendPoolManager = "(string, ConnectionPool) hashmap"

definition register_backend :: "string \<Rightarrow> PoolConfig \<Rightarrow> BackendPoolManager \<Rightarrow> BackendPoolManager" where
  "register_backend b c m = hm_insert b (pool_new b c) m"

definition acquire_from :: "string \<Rightarrow> u64 \<Rightarrow> BackendPoolManager \<Rightarrow> (string \<times> u64) option \<times> BackendPoolManager" where
  "acquire_from b now m =
    (case hm_get m b of
       None \<Rightarrow> (None, m)
     | Some p \<Rightarrow> (case acquire now p of (i, p) \<Rightarrow> (map_option (Pair b) i, hm_insert b p m)))"

section \<open>Holders\<close>

text \<open>
  A pool with its users: the numbers they hold. Users return what they hold, each number once, and
  the pool is swept and checked at any time.
\<close>

datatype use = Acquire u64 | Release u64 u64 bool | Sweep u64 | Check u64

fun use_step :: "use \<Rightarrow> ConnectionPool \<times> u64 list \<Rightarrow> ConnectionPool \<times> u64 list" where
  "use_step (Acquire now) (p, held) =
    (case acquire now p of (Some i, p) \<Rightarrow> (p, i # held) | (None, p) \<Rightarrow> (p, held))"
| "use_step (Release i now err) (p, held) = (if i \<in> set held then (release i now err p, remove1 i held) else (p, held))"
| "use_step (Sweep now) (p, held) = (snd (evict_stale now p), held)"
| "use_step (Check now) (p, held) = (snd (health_check_all now p), held)"

fun acquires :: "use \<Rightarrow> nat" where
  "acquires (Acquire _) = 1"
| "acquires _ = 0"

text \<open>
  Held numbers are in use or gone; numbers not yet given lie above all others as long as the
  counter has not wrapped, which is what \<open>n\<close> bounds.
\<close>

definition pool_inv :: "nat \<Rightarrow> ConnectionPool \<times> u64 list \<Rightarrow> bool" where
  "pool_inv n s \<longleftrightarrow> (case s of (p, held) \<Rightarrow>
     distinct (map conn_id (connections p)) \<and> distinct held
     \<and> (\<forall>c \<in> set (connections p). unat (conn_id c) < unat (next_id p))
     \<and> (\<forall>i \<in> set held. unat i < unat (next_id p))
     \<and> (\<forall>c \<in> set (connections p). state c = InUse \<longleftrightarrow> conn_id c \<in> set held)
     \<and> length (connections p) \<le> max_connections (config p) \<and> unat (next_id p) \<le> n)"

lemma update_first_mem:
  assumes "distinct (map conn_id cs)" and "\<And>c. conn_id (f c) = conn_id c" and "find P cs = Some d"
  shows "c \<in> set (update_first P f cs) \<longleftrightarrow> c = f d \<or> c \<in> set cs \<and> c \<noteq> d"
  using assms
proof (induction cs)
  case (Cons x cs)
  show ?case
  proof (cases "P x")
    case True
    then show ?thesis using Cons.prems by auto
  next
    case False
    then have "d \<in> set cs" using Cons.prems(3) by (auto simp: find_Some_iff)
    then have "x \<noteq> d" using Cons.prems(1) by auto
    then show ?thesis using Cons False by auto
  qed
qed simp

lemma check_out_simps [simp]: "conn_id (check_out now c) = conn_id c" "state (check_out now c) = InUse"
  by (simp_all add: check_out_def)

lemma give_back_simps [simp]: "conn_id (give_back now e c) = conn_id c" "state (give_back now e c) \<noteq> InUse"
  by (simp_all add: give_back_def Let_def)

lemma acquire_inv:
  assumes inv: "pool_inv n (p, held)" and "n < 2 ^ 64 - 1"
  shows "pool_inv (Suc n) (use_step (Acquire now) (p, held))"
    and "fst (acquire now p) = Some i \<Longrightarrow> i \<notin> set held"
proof -
  have d: "distinct (map conn_id (connections p))" using inv by (simp add: pool_inv_def)
  have "pool_inv (Suc n) (use_step (Acquire now) (p, held)) \<and> (fst (acquire now p) = Some i \<longrightarrow> i \<notin> set held)"
  proof (cases "find is_idle (connections p)")
    case (Some c)
    then have c: "c \<in> set (connections p)" "state c = Idle" by (auto simp: find_Some_iff is_idle_def)
    have other: "conn_id x \<noteq> conn_id c" if "x \<in> set (connections p)" "x \<noteq> c" for x
      using d c(1) that by (metis distinct_map inj_onD)
    have "conn_id c \<notin> set held" using inv c by (auto simp: pool_inv_def)
    moreover note mem = update_first_mem [OF d, of "check_out now" is_idle c, OF _ Some, simplified]
    ultimately show ?thesis using inv c other by (auto simp: pool_inv_def acquire_def Some mem)
  next
    case None
    have "unat (next_id p + 1) = Suc (unat (next_id p))"
      using inv assms(2) by (simp add: pool_inv_def unat_add_small)
    moreover have "next_id p \<notin> set held" "next_id p \<notin> conn_id ` set (connections p)" using inv by (auto simp: pool_inv_def)
    ultimately show ?thesis using inv by (auto simp: pool_inv_def acquire_def None less_Suc_eq)
  qed
  then show "pool_inv (Suc n) (use_step (Acquire now) (p, held))" "fst (acquire now p) = Some i \<Longrightarrow> i \<notin> set held" by blast+
qed

lemma update_mem_id:
  assumes "distinct (map conn_id cs)" and "c \<in> set (update_first (\<lambda>c. conn_id c = i) f cs)" and "\<And>c. conn_id (f c) = conn_id c"
  obtains "c \<in> set cs" "conn_id c \<noteq> i" | d where "d \<in> set cs" "conn_id d = i" "c = f d"
proof (cases "find (\<lambda>c. conn_id c = i) cs")
  case None
  then show thesis using assms(2) that(1) by (auto simp: update_first_none find_None_iff)
next
  case (Some d)
  then have d: "d \<in> set cs" "conn_id d = i" by (auto simp: find_Some_iff)
  have "c = f d \<or> c \<in> set cs \<and> c \<noteq> d" using update_first_mem [OF assms(1,3) Some] assms(2) by blast
  then show thesis using that d assms(1) by (metis distinct_map inj_onD)
qed

lemma use_step_inv:
  assumes inv: "pool_inv n s" and "n + acquires x < 2 ^ 64"
  shows "pool_inv (n + acquires x) (use_step x s)"
proof -
  obtain p held where s: "s = (p, held)" by fastforce
  have d: "distinct (map conn_id (connections p))" using inv s by (simp add: pool_inv_def)
  show ?thesis
  proof (cases x)
    case (Acquire now)
    then show ?thesis using acquire_inv(1) [of n p held now] inv assms(2) s by simp
  next
    case (Release i now e)
    have "state c = InUse \<longleftrightarrow> conn_id c \<in> set (remove1 i held)"
      if "c \<in> set (update_first (\<lambda>c. conn_id c = i) (give_back now e) (connections p))" for c
      using d that give_back_simps(1)
    proof (rule update_mem_id)
      assume "c \<in> set (connections p)" "conn_id c \<noteq> i"
      then show ?thesis using inv s by (auto simp: pool_inv_def)
    next
      fix q assume "q \<in> set (connections p)" "conn_id q = i" "c = give_back now e q"
      then show ?thesis using inv s by (auto simp: pool_inv_def)
    qed
    moreover have "unat (conn_id c) < unat (next_id p)"
      if "c \<in> set (update_first (\<lambda>c. conn_id c = i) (give_back now e) (connections p))" for c
      using d that give_back_simps(1) by (rule update_mem_id) (use inv s in \<open>auto simp: pool_inv_def\<close>)
    ultimately show ?thesis using inv s Release by (auto simp: pool_inv_def release_def dest: notin_set_remove1)
  next
    case (Sweep now)
    then show ?thesis using inv s d le_trans [OF length_filter_le]
      by (auto simp: pool_inv_def evict_stale_def Let_def distinct_map_filter)
  next
    case (Check now)
    have "distinct (map (conn_id \<circ> (\<lambda>c. if fails_check (config p) now c then c\<lparr>state := Unhealthy\<rparr> else c)) (connections p))"
      using d by (simp add: comp_def if_distrib [of conn_id] cong: if_cong)
    moreover have "state c = Idle" if "fails_check (config p) now c" for c using that by (simp add: fails_check_def)
    ultimately show ?thesis using inv s Check by (auto simp: pool_inv_def health_check_all_def)
  qed
qed

text \<open>
  C25. A connection has at most one holder. While users return only what they hold, and before the
  numbers run out, an acquired number is not held by anyone, whatever was returned with errors,
  swept or checked before; and the pool never tracks more connections than configured.
\<close>

theorem acquired_connection_is_exclusive:
  assumes "sum_list (map acquires xs) < 2 ^ 64 - 2" and "(p, held) = fold use_step xs (pool_new b c, [])"
  shows "(case fst (acquire now p) of Some i \<Rightarrow> i \<notin> set held | None \<Rightarrow> True)
    \<and> distinct held \<and> length (connections p) \<le> max_connections (config p)
    \<and> conn_id ` set (filter (\<lambda>c. state c = InUse) (connections p)) \<subseteq> set held"
proof -
  have run: "pool_inv (n + sum_list (map acquires xs)) (fold use_step xs s)"
    if "pool_inv n s" "n + sum_list (map acquires xs) < 2 ^ 64" for n s
    using that
  proof (induction xs arbitrary: n s)
    case (Cons x xs)
    have "pool_inv (n + acquires x) (use_step x s)" by (rule use_step_inv [OF Cons.prems(1)]) (use Cons.prems(2) in simp)
    then show ?case using Cons.IH [of "n + acquires x" "use_step x s"] Cons.prems(2) by (simp add: add.assoc)
  qed simp
  have "pool_inv 1 (pool_new b c, [])" by (simp add: pool_inv_def pool_new_def)
  then have inv: "pool_inv (1 + sum_list (map acquires xs)) (p, held)"
    unfolding assms(2) by (rule run) (use assms(1) in simp)
  have "i \<notin> set held" if "fst (acquire now p) = Some i" for i
  proof (rule acquire_inv(2) [OF _ _ that])
    show "pool_inv (1 + sum_list (map acquires xs)) (p, held)" by (rule inv)
  qed (use assms(1) in simp)
  then show ?thesis using inv by (auto simp: pool_inv_def split: option.split)
qed

theorem acquired_connection_is_exclusive_witness:
  "let s = fold use_step [Acquire 5, Acquire 6, Release 1 7 False, Sweep 8] (pool_new ''db'' PoolConfig_default, [])
   in distinct (snd s) \<and> length (connections (fst s)) \<le> max_connections (config (fst s))"
  unfolding Let_def
  using acquired_connection_is_exclusive [of "[Acquire 5, Acquire 6, Release 1 7 False, Sweep 8]"
      "fst (fold use_step [Acquire 5, Acquire 6, Release 1 7 False, Sweep 8] (pool_new ''db'' PoolConfig_default, []))"
      "snd (fold use_step [Acquire 5, Acquire 6, Release 1 7 False, Sweep 8] (pool_new ''db'' PoolConfig_default, []))"
      "''db''" PoolConfig_default 9]
  by (auto simp del: fold_simps)

text \<open>
  The maximum does not bound the connections in users' hands: sweeping drops connections that
  are still in use once they are too old, and new ones are made in their place, any number of them.
\<close>

theorem sweeping_exceeds_maximum:
  "case fold use_step (concat (replicate n [Acquire 0, Sweep 300000])) (pool_new b PoolConfig_default, []) of
     (p, held) \<Rightarrow> length held = n \<and> in_use_count p = 0 \<and> max_connections (config p) = 10"
proof -
  have round: "\<exists>p' i. fold use_step [Acquire 0, Sweep 300000] (p, held) = (p', i # held) \<and> connections p' = []
      \<and> config p' = PoolConfig_default" if "connections p = []" "config p = PoolConfig_default" for p held
    using that by (simp add: acquire_def evict_stale_def Let_def retained_def PoolConfig_default_def sat_sub_def)
  have "\<exists>p' held'. fold use_step (concat (replicate n [Acquire 0, Sweep 300000])) (p, held) = (p', held')
      \<and> length held' = n + length held \<and> connections p' = [] \<and> config p' = PoolConfig_default"
    if "connections p = []" "config p = PoolConfig_default" for p held
    using that
  proof (induction n arbitrary: p held)
    case (Suc n)
    obtain p' i where r: "fold use_step [Acquire 0, Sweep 300000] (p, held) = (p', i # held)" "connections p' = []"
        "config p' = PoolConfig_default" using round [OF Suc.prems] by blast
    have "concat (replicate (Suc n) [Acquire 0, Sweep 300000]) = [Acquire 0, Sweep 300000] @ concat (replicate n [Acquire 0, Sweep 300000])"
      by simp
    then show ?case unfolding fold_append comp_apply using Suc.IH [OF r(2,3), of "i # held"] r(1)
      by (simp only: fold_append comp_apply) auto
  qed simp
  from this [of "pool_new b PoolConfig_default" "[]"] show ?thesis
    by (auto simp: pool_new_def in_use_count_def count_state_def PoolConfig_default_def)
qed

end
