(* ===== verification/Failover.thy ===== *)
theory Failover
  imports Prelude
begin

text \<open>
  Failover groups (\<open>src/failover.rs\<close>): endpoints with priorities, failures and recoveries, and the
  manager that keeps groups by name. Instants are natural numbers of nanoseconds. Every operation
  of the manager locks one group, so a group is passed through its operations.
\<close>

section \<open>Endpoints and groups\<close>

record Endpoint =
  ep_id :: string
  url :: string
  ep_priority :: u8
  healthy :: bool
  failure_count :: u32
  last_failure :: "nat option"

definition endpoint_new :: "string \<Rightarrow> string \<Rightarrow> u8 \<Rightarrow> Endpoint" where
  "endpoint_new i u p = \<lparr>ep_id = i, url = u, ep_priority = p, healthy = True, failure_count = 0, last_failure = None\<rparr>"

record FailoverConfig =
  failure_threshold :: u32
  recovery_timeout_secs :: u64
  max_retries :: u32

definition FailoverConfig_default :: FailoverConfig where
  "FailoverConfig_default = \<lparr>failure_threshold = 3, recovery_timeout_secs = 30, max_retries = 3\<rparr>"

record FailoverGroup =
  fg_name :: string
  endpoints :: "Endpoint list"
  fg_config :: FailoverConfig
  current_primary_idx :: nat

definition group_new :: "string \<Rightarrow> Endpoint list \<Rightarrow> FailoverConfig \<Rightarrow> FailoverGroup" where
  "group_new n es c = \<lparr>fg_name = n, endpoints = es, fg_config = c, current_primary_idx = 0\<rparr>"

text \<open>\<open>min_by_key\<close> keeps the first of equal elements.\<close>

fun first_min :: "('a \<Rightarrow> 'b::linorder) \<Rightarrow> 'a list \<Rightarrow> 'a option" where
  "first_min f [] = None"
| "first_min f (x # xs) = (case first_min f xs of Some y \<Rightarrow> if f y < f x then Some y else Some x | None \<Rightarrow> Some x)"

definition primary :: "FailoverGroup \<Rightarrow> Endpoint option" where
  "primary g = first_min ep_priority (filter healthy (endpoints g))"

text \<open>A loop that changes the first endpoint with the identifier and stops.\<close>

fun update_endpoint :: "string \<Rightarrow> (Endpoint \<Rightarrow> Endpoint) \<Rightarrow> Endpoint list \<Rightarrow> Endpoint list" where
  "update_endpoint i f [] = []"
| "update_endpoint i f (e # es) = (if ep_id e = i then f e # es else e # update_endpoint i f es)"

definition fail_once :: "FailoverConfig \<Rightarrow> nat \<Rightarrow> Endpoint \<Rightarrow> Endpoint" where
  "fail_once c now e =
    (let e = e\<lparr>failure_count := failure_count e + 1, last_failure := Some now\<rparr>
     in if failure_threshold c \<le> failure_count e then e\<lparr>healthy := False\<rparr> else e)"

definition mark_failed :: "string \<Rightarrow> nat \<Rightarrow> FailoverGroup \<Rightarrow> FailoverGroup" where
  "mark_failed i now g = g\<lparr>endpoints := update_endpoint i (fail_once (fg_config g) now) (endpoints g)\<rparr>"

definition mark_recovered :: "string \<Rightarrow> FailoverGroup \<Rightarrow> FailoverGroup" where
  "mark_recovered i g =
     g\<lparr>endpoints := update_endpoint i (\<lambda>e. e\<lparr>healthy := True, failure_count := 0, last_failure := None\<rparr>) (endpoints g)\<rparr>"

definition probe :: "FailoverConfig \<Rightarrow> nat \<Rightarrow> Endpoint \<Rightarrow> Endpoint" where
  "probe c now e =
    (if healthy e then e
     else case last_failure e of
            Some t \<Rightarrow> if unat (recovery_timeout_secs c) * 1000000000 \<le> now - t then e\<lparr>healthy := True\<rparr> else e
          | None \<Rightarrow> e)"

definition check_recovery :: "nat \<Rightarrow> FailoverGroup \<Rightarrow> FailoverGroup" where
  "check_recovery now g = g\<lparr>endpoints := map (probe (fg_config g) now) (endpoints g)\<rparr>"

definition failover :: "FailoverGroup \<Rightarrow> Endpoint option \<times> FailoverGroup" where
  "failover g =
    (let current = (if current_primary_idx g < length (endpoints g)
                    then Some (ep_priority (endpoints g ! current_primary_idx g)) else None);
         cand = first_min (\<lambda>(_, e). ep_priority e)
                  (filter (\<lambda>(_, e). healthy e \<and> Some (ep_priority e) \<noteq> current) (enumerate 0 (endpoints g)))
     in case cand of
          Some (idx, _) \<Rightarrow> (Some (endpoints g ! idx), g\<lparr>current_primary_idx := idx\<rparr>)
        | None \<Rightarrow> (None, g))"

definition all_healthy :: "FailoverGroup \<Rightarrow> Endpoint list" where
  "all_healthy g = filter healthy (endpoints g)"

section \<open>The manager\<close>

type_synonym FailoverManager = "(string, FailoverGroup) hashmap"

definition register_group :: "FailoverGroup \<Rightarrow> FailoverManager \<Rightarrow> FailoverManager" where
  "register_group g m = hm_insert (fg_name g) g m"

definition get_endpoint :: "string \<Rightarrow> FailoverManager \<Rightarrow> Endpoint option" where
  "get_endpoint n m = (case hm_get m n of Some g \<Rightarrow> primary g | None \<Rightarrow> None)"

definition report_failure :: "string \<Rightarrow> string \<Rightarrow> nat \<Rightarrow> FailoverManager \<Rightarrow> FailoverManager" where
  "report_failure n i now m = (case hm_get m n of Some g \<Rightarrow> hm_insert n (mark_failed i now g) m | None \<Rightarrow> m)"

definition report_success :: "string \<Rightarrow> string \<Rightarrow> FailoverManager \<Rightarrow> FailoverManager" where
  "report_success n i m = (case hm_get m n of Some g \<Rightarrow> hm_insert n (mark_recovered i g) m | None \<Rightarrow> m)"

text \<open>One round of the maintenance loop.\<close>

definition maintain :: "nat \<Rightarrow> FailoverManager \<Rightarrow> FailoverManager" where
  "maintain now m = hm_map_values (check_recovery now) m"

section \<open>Choosing an endpoint\<close>

lemma first_min_cases:
  "case first_min f xs of None \<Rightarrow> xs = [] | Some y \<Rightarrow> y \<in> set xs \<and> (\<forall>x \<in> set xs. f y \<le> f x)"
  by (induction xs) (auto split: option.splits)

lemma first_min_None [simp]: "first_min f xs = None \<longleftrightarrow> xs = []"
  using first_min_cases [of xs f] by (cases xs) (auto split: option.splits)

text \<open>
  \<open>failover\<close> does not change where requests go: it moves an index that no selection reads, so the
  manager hands out the same endpoint before and after, even when \<open>failover\<close> returned another.
\<close>

theorem failover_has_no_effect:
  "get_endpoint n (hm_insert n (snd (failover g)) m) = get_endpoint n (hm_insert n g m)
    \<and> all_healthy (snd (failover g)) = all_healthy g"
  by (auto simp: get_endpoint_def hm_get_insert failover_def primary_def all_healthy_def Let_def split: option.split prod.split)

section \<open>An endpoint along the reports\<close>

datatype report = Failure string nat | Success string | Round nat

fun group_step :: "report \<Rightarrow> FailoverGroup \<Rightarrow> FailoverGroup" where
  "group_step (Failure i now) g = mark_failed i now g"
| "group_step (Success i) g = mark_recovered i g"
| "group_step (Round now) g = check_recovery now g"

definition endpoint :: "string \<Rightarrow> FailoverGroup \<Rightarrow> Endpoint option" where
  "endpoint i g = find (\<lambda>e. ep_id e = i) (endpoints g)"

lemma find_update_endpoint:
  assumes "\<And>e. ep_id (f e) = ep_id e"
  shows "find (\<lambda>e. ep_id e = j) (update_endpoint i f es) =
    (if j = i then map_option f (find (\<lambda>e. ep_id e = j) es) else find (\<lambda>e. ep_id e = j) es)"
  using assms by (induction es) auto

lemma find_map_same: "(\<And>e. ep_id (f e) = ep_id e) \<Longrightarrow> find (\<lambda>e. ep_id e = j) (map f es) = map_option f (find (\<lambda>e. ep_id e = j) es)"
  by (induction es) auto

text \<open>What each report does to the endpoint it names, and to no other.\<close>

fun react :: "FailoverConfig \<Rightarrow> string \<Rightarrow> report \<Rightarrow> Endpoint \<Rightarrow> Endpoint" where
  "react c j (Failure i now) e = (if j = i then fail_once c now e else e)"
| "react c j (Success i) e = (if j = i then e\<lparr>healthy := True, failure_count := 0, last_failure := None\<rparr> else e)"
| "react c j (Round now) e = probe c now e"

lemma group_step_frame [simp]: "fg_config (group_step x g) = fg_config g"
  by (cases x) (simp_all add: mark_failed_def mark_recovered_def check_recovery_def)

lemma endpoint_step: "endpoint j (group_step x g) = map_option (react (fg_config g) j x) (endpoint j g)"
proof (cases x)
  case (Failure i now)
  have "ep_id (fail_once (fg_config g) now e) = ep_id e" for e by (simp add: fail_once_def Let_def)
  then show ?thesis using Failure
    by (cases "find (\<lambda>e. ep_id e = j) (endpoints g)") (auto simp: endpoint_def mark_failed_def find_update_endpoint)
next
  case (Success i)
  then show ?thesis
    by (cases "find (\<lambda>e. ep_id e = j) (endpoints g)") (auto simp: endpoint_def mark_recovered_def find_update_endpoint)
next
  case (Round now)
  have "ep_id (probe (fg_config g) now e) = ep_id e" for e by (simp add: probe_def split: option.split)
  then show ?thesis using Round
    by (cases "find (\<lambda>e. ep_id e = j) (endpoints g)") (simp_all add: endpoint_def check_recovery_def find_map_same)
qed

text \<open>
  An endpoint that is down has as many failures as the threshold since its last success, and the
  time of the last one; an endpoint without failures is up.
\<close>

definition ep_ok :: "FailoverConfig \<Rightarrow> nat \<Rightarrow> Endpoint \<Rightarrow> bool" where
  "ep_ok c n e \<longleftrightarrow> unat (failure_count e) \<le> n
     \<and> (if healthy e then True else failure_threshold c \<le> failure_count e \<and> last_failure e \<noteq> None)"

fun failures :: "report \<Rightarrow> nat" where
  "failures (Failure _ _) = 1"
| "failures _ = 0"

lemma react_ok:
  assumes "ep_ok c n e" and "n + failures x < 2 ^ 32"
  shows "ep_ok c (n + failures x) (react c j x e)"
proof (cases x)
  case (Failure i now)
  have "unat (failure_count e + 1) = Suc (unat (failure_count e))"
    using assms Failure by (simp add: ep_ok_def unat_add_small)
  then show ?thesis using assms Failure by (auto simp: ep_ok_def fail_once_def Let_def word_le_nat_alt split: if_splits)
qed (use assms in \<open>auto simp: ep_ok_def probe_def split: option.splits if_splits\<close>)

lemma reports_ok:
  assumes "endpoint j g = Some e" and "ep_ok (fg_config g) n e" and "n + sum_list (map failures xs) < 2 ^ 32"
  shows "\<exists>e'. endpoint j (fold group_step xs g) = Some e' \<and> ep_ok (fg_config g) (n + sum_list (map failures xs)) e'"
  using assms
proof (induction xs arbitrary: g e n)
  case (Cons x xs)
  have "ep_ok (fg_config g) (n + failures x) (react (fg_config g) j x e)"
    by (rule react_ok [OF Cons.prems(2)]) (use Cons.prems(3) in simp)
  then show ?case
    using Cons.IH [of "group_step x g" "react (fg_config g) j x e" "n + failures x"] Cons.prems(1,3) endpoint_step [of j x g]
    by (simp add: add.assoc)
qed auto

lemma group_config_run [simp]: "fg_config (fold group_step xs g) = fg_config g"
  by (induction xs arbitrary: g) simp_all

text \<open>
  An endpoint that went down has reached the threshold of failures. The maintenance round puts
  it back once its last failure is old enough and not before; it is then on trial: one more failure
  takes it down again at once, and only a success clears its record.
\<close>

theorem recovered_endpoint_is_on_trial:
  assumes "g = fold group_step xs (group_new n [endpoint_new i u p] c)" and "sum_list (map failures xs) < 2 ^ 32 - 1"
    and "endpoint i g = Some e" and "\<not> healthy e"
  shows "failure_threshold c \<le> failure_count e
    \<and> map_option healthy (endpoint i (group_step (Round now) g)) =
        Some (unat (recovery_timeout_secs c) * 1000000000 \<le> now - the (last_failure e))
    \<and> map_option healthy (endpoint i (group_step (Failure i later) (group_step (Round now) g))) = Some False
    \<and> map_option healthy (endpoint i (group_step (Failure i later) (group_step (Success i) g))) = Some (1 < failure_threshold c)"
proof -
  have c: "fg_config g = c" using assms(1) by (simp add: group_new_def)
  have start: "endpoint i (group_new n [endpoint_new i u p] c) = Some (endpoint_new i u p)" "ep_ok c 0 (endpoint_new i u p)"
    "fg_config (group_new n [endpoint_new i u p] c) = c"
    by (simp_all add: endpoint_def group_new_def endpoint_new_def ep_ok_def)
  from reports_ok [OF start(1), of 0 xs] have ok: "ep_ok c (sum_list (map failures xs)) e"
    using assms start by auto
  then have thr: "failure_threshold c \<le> failure_count e" and lf: "last_failure e \<noteq> None" using assms(4) by (auto simp: ep_ok_def)
  have more: "failure_threshold c \<le> failure_count e + 1"
    using ok thr assms(2) by (simp add: ep_ok_def word_le_nat_alt unat_add_small)
  have "failure_count (probe c now e) = failure_count e" by (simp add: probe_def split: option.split)
  then have "\<not> healthy (fail_once c later (probe c now e))" using more by (simp add: fail_once_def Let_def)
  moreover have "healthy (probe c now e) \<longleftrightarrow> unat (recovery_timeout_secs c) * 1000000000 \<le> now - the (last_failure e)"
    using assms(4) lf by (auto simp: probe_def split: if_splits)
  moreover have "endpoint i (group_step (Round now) g) = Some (probe c now e)"
    "endpoint i (group_step (Failure i later) (group_step (Round now) g)) = Some (fail_once c later (probe c now e))"
    "endpoint i (group_step (Failure i later) (group_step (Success i) g)) =
      Some (fail_once c later (e\<lparr>healthy := True, failure_count := 0, last_failure := None\<rparr>))"
    using assms(3) c by (simp_all only: endpoint_step group_step_frame option.map react.simps refl if_True)
  moreover have "healthy (fail_once c later (e\<lparr>healthy := True, failure_count := 0, last_failure := None\<rparr>)) \<longleftrightarrow> 1 < failure_threshold c"
    by (auto simp: fail_once_def Let_def not_less not_le)
  ultimately show ?thesis using thr by simp
qed

theorem recovered_endpoint_is_on_trial_witness:
  "let g = fold group_step [Failure ''a'' 1, Failure ''a'' 2, Failure ''a'' 3] (group_new ''g'' [endpoint_new ''a'' ''u'' 0] FailoverConfig_default)
   in map_option healthy (endpoint ''a'' (group_step (Round 30000000003) g)) = Some True
     \<and> map_option healthy (endpoint ''a'' (group_step (Failure ''a'' 5) (group_step (Round 30000000003) g))) = Some False"
proof -
  let ?xs = "[Failure ''a'' 1, Failure ''a'' 2, Failure ''a'' 3]"
  let ?g = "fold group_step ?xs (group_new ''g'' [endpoint_new ''a'' ''u'' 0] FailoverConfig_default)"
  have e: "endpoint ''a'' ?g = Some \<lparr>ep_id = ''a'', url = ''u'', ep_priority = 0, healthy = False, failure_count = 3, last_failure = Some 3\<rparr>"
    by (simp add: endpoint_def group_new_def endpoint_new_def mark_failed_def fail_once_def FailoverConfig_default_def Let_def word_le_nat_alt)
  from recovered_endpoint_is_on_trial [OF refl _ e, where now = 30000000003 and later = 5]
  show ?thesis by (simp add: FailoverConfig_default_def)
qed

end
