(* ===== verification/CircuitMesh.thy ===== *)
theory CircuitMesh
  imports DependencyGraph
begin

text \<open>
  The mesh of circuit breakers (\<open>src/circuit_mesh.rs\<close>): one breaker per route, and the cascade that opens
  the routes depending on an open one. Instants are nanoseconds; an operation on a route locks its
  breaker, so a breaker is passed through its operations. The search for dependants is the one of
  \<open>DependencyGraph\<close> on this module's own map.
\<close>

section \<open>The breaker of a route\<close>

datatype RouteCircuitState = Closed | Open nat u32 | HalfOpen bool

record RouteConfig =
  route_id :: string
  failure_threshold :: u32
  success_threshold :: u32
  timeout_secs :: u64
  half_open_probe_rate :: f64

definition route_config_new :: "string \<Rightarrow> RouteConfig" where
  "route_config_new i = \<lparr>route_id = i, failure_threshold = 5, success_threshold = 2, timeout_secs = 30,
     half_open_probe_rate = rnd64 (1 / 10)\<rparr>"

record RouteMetrics =
  total_requests :: u64
  failures :: u64
  successes :: u64
  consecutive_failures :: u32
  consecutive_successes :: u32
  last_failure :: "nat option"

definition route_metrics_new :: RouteMetrics where
  "route_metrics_new = \<lparr>total_requests = 0, failures = 0, successes = 0, consecutive_failures = 0, consecutive_successes = 0,
     last_failure = None\<rparr>"

definition failure_rate :: "RouteMetrics \<Rightarrow> f64" where
  "failure_rate m = (if total_requests m = 0 then FFin 0 else f64_div (f64_of_u64 (failures m)) (f64_of_u64 (total_requests m)))"

record RouteCircuit =
  rc_config :: RouteConfig
  rc_state :: RouteCircuitState
  rc_metrics :: RouteMetrics

definition circuit_new :: "RouteConfig \<Rightarrow> RouteCircuit" where
  "circuit_new c = \<lparr>rc_config = c, rc_state = Closed, rc_metrics = route_metrics_new\<rparr>"

definition is_open :: "nat \<Rightarrow> RouteCircuit \<Rightarrow> bool \<times> RouteCircuit" where
  "is_open now r =
    (case rc_state r of
       Open opened_at n \<Rightarrow>
         if unat (timeout_secs (rc_config r)) \<le> (now - opened_at) div 1000000000
         then (False, r\<lparr>rc_state := HalfOpen False\<rparr>) else (True, r)
     | _ \<Rightarrow> (False, r))"

definition allow_request :: "nat \<Rightarrow> RouteCircuit \<Rightarrow> bool \<times> RouteCircuit" where
  "allow_request now r =
    (case is_open now r of
       (True, r) \<Rightarrow> (False, r)
     | (False, r) \<Rightarrow>
         (case rc_state r of
            Closed \<Rightarrow> (True, r)
          | Open opened_at n \<Rightarrow> (False, r)
          | HalfOpen probe_sent \<Rightarrow>
              if \<not> probe_sent then (True, r\<lparr>rc_state := HalfOpen True\<rparr>)
              else (fp_le (FFin 1) (half_open_probe_rate (rc_config r)), r)))"

definition record_success :: "RouteCircuit \<Rightarrow> RouteCircuit" where
  "record_success r =
    (let m = rc_metrics r;
         consec = consecutive_successes m + 1;
         m = m\<lparr>total_requests := total_requests m + 1, successes := successes m + 1, consecutive_failures := 0,
               consecutive_successes := consec\<rparr>
     in case rc_state r of
          HalfOpen _ \<Rightarrow>
            if success_threshold (rc_config r) \<le> consec
            then r\<lparr>rc_state := Closed, rc_metrics := m\<lparr>consecutive_successes := 0\<rparr>\<rparr>
            else r\<lparr>rc_metrics := m\<rparr>
        | _ \<Rightarrow> r\<lparr>rc_metrics := m\<rparr>)"

definition record_failure :: "nat \<Rightarrow> RouteCircuit \<Rightarrow> RouteCircuit" where
  "record_failure now r =
    (let m = rc_metrics r;
         consec = consecutive_failures m + 1;
         m = m\<lparr>total_requests := total_requests m + 1, failures := failures m + 1, consecutive_successes := 0,
               consecutive_failures := consec, last_failure := Some now\<rparr>
     in case rc_state r of
          Closed \<Rightarrow>
            if failure_threshold (rc_config r) \<le> consec
            then r\<lparr>rc_state := Open now consec, rc_metrics := m\<lparr>consecutive_failures := 0\<rparr>\<rparr>
            else r\<lparr>rc_metrics := m\<rparr>
        | HalfOpen _ \<Rightarrow> r\<lparr>rc_state := Open now consec, rc_metrics := m\<lparr>consecutive_failures := 0\<rparr>\<rparr>
        | Open _ _ \<Rightarrow> r\<lparr>rc_metrics := m\<rparr>)"

definition force_open :: "nat \<Rightarrow> RouteCircuit \<Rightarrow> RouteCircuit" where
  "force_open now r = r\<lparr>rc_state := Open now 0\<rparr>"

definition force_close :: "RouteCircuit \<Rightarrow> RouteCircuit" where
  "force_close r = r\<lparr>rc_state := Closed, rc_metrics := (rc_metrics r)\<lparr>consecutive_failures := 0, consecutive_successes := 0\<rparr>\<rparr>"

definition state_label :: "RouteCircuit \<Rightarrow> string" where
  "state_label r = (case rc_state r of Closed \<Rightarrow> ''closed'' | Open _ _ \<Rightarrow> ''open'' | HalfOpen _ \<Rightarrow> ''half_open'')"

section \<open>Decisions of the mesh\<close>

definition should_cascade_open :: "nat \<Rightarrow> nat \<Rightarrow> f64 \<Rightarrow> bool" where
  "should_cascade_open open_count total_routes threshold_pct =
    (if total_routes = 0 then False
     else fp_le threshold_pct (f64_div (f64_of_nat open_count) (f64_of_nat total_routes)))"

type_synonym dependency_map = "(string, string list) hashmap"

definition reverse_dependencies :: "dependency_map \<Rightarrow> (string, string list) hashmap" where
  "reverse_dependencies ds = fold (\<lambda>(route, deps) rmap. fold (\<lambda>dep rmap. entry_push dep route rmap) deps rmap) ds []"

definition dependency_impact :: "string \<Rightarrow> dependency_map \<Rightarrow> string set" where
  "dependency_impact failed ds =
    (let reverse = reverse_dependencies ds;
         (visited, found, queue) = fold visit (dependents reverse failed) ({}, [], [])
     in fst (explore False reverse visited found queue))"

record MeshHealth =
  mh_total_routes :: nat
  open_routes :: nat
  half_open_routes :: nat
  closed_routes :: nat
  overall_health_pct :: f64

record CircuitMesh =
  circuits :: "(string, RouteCircuit) hashmap"
  dependencies :: dependency_map
  cascade_threshold :: f64

definition mesh_new :: CircuitMesh where
  "mesh_new = \<lparr>circuits = [], dependencies = [], cascade_threshold = FFin (1 / 2)\<rparr>"

definition with_cascade_threshold :: "f64 \<Rightarrow> CircuitMesh" where
  "with_cascade_threshold t = \<lparr>circuits = [], dependencies = [], cascade_threshold = f64_clamp t (FFin 0) (FFin 1)\<rparr>"

definition add_route :: "RouteConfig \<Rightarrow> CircuitMesh \<Rightarrow> CircuitMesh" where
  "add_route c m = m\<lparr>circuits := hm_insert (route_id c) (circuit_new c) (circuits m)\<rparr>"

definition remove_route :: "string \<Rightarrow> CircuitMesh \<Rightarrow> CircuitMesh" where
  "remove_route i m = m\<lparr>circuits := hm_remove i (circuits m)\<rparr>"

definition mesh_add_dependency :: "string \<Rightarrow> string \<Rightarrow> CircuitMesh \<Rightarrow> CircuitMesh" where
  "mesh_add_dependency i dep m = m\<lparr>dependencies := entry_push i dep (dependencies m)\<rparr>"

definition mesh_allow_request :: "string \<Rightarrow> nat \<Rightarrow> CircuitMesh \<Rightarrow> bool \<times> CircuitMesh" where
  "mesh_allow_request i now m =
    (case hm_get (circuits m) i of
       Some r \<Rightarrow> (case allow_request now r of (ok, r) \<Rightarrow> (ok, m\<lparr>circuits := hm_insert i r (circuits m)\<rparr>))
     | None \<Rightarrow> (True, m))"

definition mesh_record_outcome :: "string \<Rightarrow> bool \<Rightarrow> nat \<Rightarrow> CircuitMesh \<Rightarrow> CircuitMesh" where
  "mesh_record_outcome i success now m =
    (case hm_get (circuits m) i of
       Some r \<Rightarrow> m\<lparr>circuits := hm_insert i (if success then record_success r else record_failure now r) (circuits m)\<rparr>
     | None \<Rightarrow> m)"

definition labelled :: "string \<Rightarrow> CircuitMesh \<Rightarrow> string list" where
  "labelled l m = map fst (filter (\<lambda>(i, r). state_label r = l) (circuits m))"

definition mesh_health :: "CircuitMesh \<Rightarrow> MeshHealth" where
  "mesh_health m =
    (let o' = length (labelled ''open'' m); h = length (labelled ''half_open'' m);
         c = length (filter (\<lambda>(i, r). state_label r \<noteq> ''open'' \<and> state_label r \<noteq> ''half_open'') (circuits m));
         total = o' + h + c
     in \<lparr>mh_total_routes = total, open_routes = o', half_open_routes = h, closed_routes = c,
         overall_health_pct = (if total = 0 then FFin 100
           else f64_mul (f64_div (f64_of_nat c) (f64_of_nat total)) (FFin 100))\<rparr>)"

definition force_open_route :: "nat \<Rightarrow> string \<Rightarrow> (string, RouteCircuit) hashmap \<Rightarrow> (string, RouteCircuit) hashmap" where
  "force_open_route now i cs = (case hm_get cs i of Some r \<Rightarrow> hm_insert i (force_open now r) cs | None \<Rightarrow> cs)"

text \<open>The routes impacted by one open route are visited in the order \<open>rank\<close> of the set that holds them.\<close>

definition cascade_open_if_needed :: "(string set \<Rightarrow> string list) \<Rightarrow> nat \<Rightarrow> CircuitMesh \<Rightarrow> CircuitMesh" where
  "cascade_open_if_needed enum now m =
    (let health = mesh_health m
     in if \<not> should_cascade_open (open_routes health) (mh_total_routes health) (cascade_threshold m) then m
        else m\<lparr>circuits := fold (\<lambda>failed cs. fold (force_open_route now) (enum (dependency_impact failed (dependencies m))) cs)
                             (labelled ''open'' m) (circuits m)\<rparr>)"

section \<open>A half-open breaker\<close>

definition report :: "nat \<Rightarrow> bool \<Rightarrow> RouteCircuit \<Rightarrow> RouteCircuit" where
  "report now ok r = (if ok then record_success r else record_failure now r)"

definition spent :: "nat \<Rightarrow> RouteCircuit \<Rightarrow> bool" where
  "spent now r \<longleftrightarrow> rc_state r = HalfOpen True \<and> \<not> fp_le (FFin 1) (half_open_probe_rate (rc_config r))"

interpretation route_breaker: breaker allow_request report spent
  by unfold_locales (auto simp: spent_def allow_request_def is_open_def)

text \<open>
  A breaker that needs more than one success never closes again by itself. Once it has opened,
  with a probe rate below one, a single request passes after the timeout; when it succeeds, every
  later request is refused, whatever the time, and the breaker stays half open for ever.
\<close>

theorem one_probe_never_closes:
  assumes "rc_state r = Open t n" and "unat (timeout_secs (rc_config r)) \<le> (t0 - t) div 1000000000"
    and "consecutive_successes (rc_metrics r) = 0" and "1 < success_threshold (rc_config r)"
    and "\<not> fp_le (FFin 1) (half_open_probe_rate (rc_config r))"
  shows "fst (allow_request t0 r)
    \<and> (let r' = route_breaker.guarded (t0, True) r
       in rc_state (fold route_breaker.guarded cs r') = HalfOpen True
          \<and> list_all (\<lambda>t'. \<not> fst (allow_request t' (fold route_breaker.guarded cs r'))) ts)"
proof -
  have a: "allow_request t0 r = (True, r\<lparr>rc_state := HalfOpen True\<rparr>)"
    using assms(1,2) by (simp add: allow_request_def is_open_def)
  define r' where "r' = route_breaker.guarded (t0, True) r"
  have "r' = record_success (r\<lparr>rc_state := HalfOpen True\<rparr>)" by (simp add: r'_def route_breaker.guarded_def a report_def)
  then have "rc_state r' = HalfOpen True" "rc_config r' = rc_config r"
    using assms(3,4) by (simp_all add: record_success_def Let_def not_le)
  then have spent: "spent t' r'" for t' using assms(5) by (simp add: spent_def)
  then have "fold route_breaker.guarded cs r' = r'" by (intro route_breaker.run_blocked) simp
  then show ?thesis using spent route_breaker.blocked_refuses [of _ r'] a \<open>rc_state r' = HalfOpen True\<close>
    by (simp add: list_all_iff flip: r'_def)
qed

lemma tenth_below_one: "\<not> fp_le (FFin 1) (rnd64 (1 / 10))"
proof -
  obtain r where r: "rnd64 (1 / 10) = FFin r" using rnd64_unit [of "1 / 10"] by auto
  moreover have "rnd64 (1 / 2) = FFin (1 / 2)" using rnd64_dyadic [of 1 1] by simp
  ultimately have "r \<le> 1 / 2" using rnd64_le by fastforce
  then show ?thesis by (simp add: r)
qed

theorem one_probe_never_closes_witness:
  "let r = route_breaker.guarded (30000000001, True) (force_open 1 (circuit_new (route_config_new ''db'')))
   in rc_state r = HalfOpen True \<and> \<not> fst (allow_request 1000000000000000 r)"
  using one_probe_never_closes [of "force_open 1 (circuit_new (route_config_new ''db''))" 1 0 30000000001 "[]" "[1000000000000000]"]
  by (simp add: force_open_def circuit_new_def route_config_new_def route_metrics_new_def tenth_below_one Let_def)

section \<open>The cascade\<close>

definition depends :: "dependency_map \<Rightarrow> (string \<times> string) set" where
  "depends ds = {(x, y). \<exists>deps. (x, deps) \<in> set ds \<and> y \<in> set deps}"

lemma set_dependents_reverse: "set (dependents (reverse_dependencies ds) y) = {x. (x, y) \<in> depends ds}"
proof -
  have e: "set (dependents (fold (\<lambda>dep rmap. entry_push dep route rmap) deps m) y)
      = set (dependents m y) \<union> {route |dep. dep \<in> set deps \<and> dep = y}" for route deps m
    by (induction deps arbitrary: m) (auto simp: dependents_entry_push)
  have "set (dependents (fold (\<lambda>(route, deps) rmap. fold (\<lambda>dep rmap. entry_push dep route rmap) deps rmap) ds m) y)
      = set (dependents m y) \<union> {x. (x, y) \<in> depends ds}" for m
  proof (induction ds arbitrary: m)
    case (Cons a ds)
    obtain route deps where a: "a = (route, deps)" by fastforce
    show ?case unfolding a fold.simps comp_apply prod.case Cons.IH e by (auto simp: depends_def)
  qed (simp add: depends_def)
  then show ?thesis by (simp add: reverse_dependencies_def dependents_def)
qed

lemma dependency_impact_exact: "dependency_impact failed ds = {x. (x, failed) \<in> (depends ds)\<^sup>+}"
proof -
  let ?r = "reverse_dependencies ds" and ?D = "depends ds"
  have D: "{(x, y). x \<in> {x. (x, y) \<in> ?D}} = ?D" by auto
  obtain new where n: "fold visit (dependents ?r failed) ({}, [], []) = (set (dependents ?r failed), new, new)" "distinct new"
      "set new = set (dependents ?r failed)" using fold_visit [of "dependents ?r failed" "{}" "[]" "[]"] by auto
  let ?V = "set (dependents ?r failed)"
  obtain new' where e: "explore False ?r ?V new new = (?V \<union> set new', new @ new')"
      "\<forall>y \<in> ?V \<union> set new'. {x. (x, y) \<in> ?D} \<subseteq> ?V \<union> set new'" "\<forall>x \<in> set new'. \<exists>w \<in> set new. (x, w) \<in> ?D\<^sup>+"
    using explore_spec [OF eq_refl [OF n(3)] _ n(2), of ?r False new] unfolding set_dependents_reverse D n(3) by blast
  have V: "?V = {x. (x, failed) \<in> ?D}" by (rule set_dependents_reverse)
  have "x \<in> ?V \<union> set new'" if "(x, failed) \<in> ?D\<^sup>+" for x
    using that
  proof (induction rule: converse_trancl_induct)
    case (base y)
    then show ?case using V by simp
  next
    case (step y z)
    then show ?case using e(2) by blast
  qed
  moreover have "(x, failed) \<in> ?D\<^sup>+" if x: "x \<in> ?V \<union> set new'" for x
  proof (cases "x \<in> ?V")
    case True
    then show ?thesis using V by auto
  next
    case False
    then obtain w where "w \<in> ?V" "(x, w) \<in> ?D\<^sup>+" using e(3) x n(3) by auto
    then show ?thesis using V by (auto intro: trancl_into_trancl)
  qed
  ultimately have "?V \<union> set new' = {x. (x, failed) \<in> ?D\<^sup>+}" by blast
  then show ?thesis by (simp add: dependency_impact_def n(1) e(1))
qed

lemma hm_get_force_open_route:
  "hm_get (force_open_route now j cs) i = map_option (\<lambda>r. if i = j then force_open now r else r) (hm_get cs i)"
  by (cases "hm_get cs j"; cases "hm_get cs i") (auto simp: force_open_route_def hm_get_insert)

lemma force_open_routes:
  "hm_get (fold (force_open_route now) is cs) i =
    map_option (\<lambda>r. if i \<in> set is then force_open now r else r) (hm_get cs i)"
proof (induction "is" arbitrary: cs)
  case (Cons j "is")
  have "force_open now (force_open now r) = force_open now r" for r by (simp add: force_open_def)
  then show ?case by (cases "hm_get cs i") (auto simp: Cons hm_get_force_open_route)
qed (simp add: option.map_ident)

text \<open>
  C22. The cascade opens exactly the routes that depend, directly or not, on a route that is open,
  when the share of open routes reaches the threshold, and changes nothing otherwise; the order in
  which sets are visited does not matter.
\<close>

theorem cascade_opens_dependants:
  assumes "\<And>A. finite A \<Longrightarrow> set (enum A) = A" and "hm_wf (circuits m)"
  shows "hm_get (circuits (cascade_open_if_needed enum now m)) i =
    map_option (\<lambda>r. if should_cascade_open (open_routes (mesh_health m)) (mh_total_routes (mesh_health m)) (cascade_threshold m)
        \<and> (\<exists>j r'. hm_get (circuits m) j = Some r' \<and> state_label r' = ''open'' \<and> (i, j) \<in> (depends (dependencies m))\<^sup>+)
      then force_open now r else r) (hm_get (circuits m) i)"
proof -
  let ?imp = "\<lambda>failed. enum (dependency_impact failed (dependencies m))"
  have fin: "finite (depends ds)" for ds
  proof -
    have "depends ds = (\<Union>(x, deps) \<in> set ds. Pair x ` set deps)" by (auto simp: depends_def)
    then show ?thesis by (simp add: case_prod_unfold)
  qed
  have "finite {x. (x, j) \<in> (depends (dependencies m))\<^sup>+}" for j
  proof (rule finite_subset)
    show "{x. (x, j) \<in> (depends (dependencies m))\<^sup>+} \<subseteq> fst ` (depends (dependencies m))\<^sup>+" by force
  qed (simp add: fin)
  then have imp: "set (?imp j) = {x. (x, j) \<in> (depends (dependencies m))\<^sup>+}" for j
    using assms(1) by (simp add: dependency_impact_exact)
  have fold: "fold (\<lambda>failed cs. fold (force_open_route now) (?imp failed) cs) js cs = fold (force_open_route now) (concat (map ?imp js)) cs" for js cs
    by (induction js arbitrary: cs) simp_all
  have "j \<in> set (labelled ''open'' m) \<longleftrightarrow> (\<exists>r'. hm_get (circuits m) j = Some r' \<and> state_label r' = ''open'')" for j
    using hm_get_eq_Some_iff [OF assms(2), of j] by (force simp: labelled_def)
  moreover have "i \<in> set (concat (map ?imp (labelled ''open'' m))) \<longleftrightarrow>
      (\<exists>j \<in> set (labelled ''open'' m). (i, j) \<in> (depends (dependencies m))\<^sup>+)"
    by (auto simp: imp)
  ultimately have "i \<in> set (concat (map ?imp (labelled ''open'' m))) \<longleftrightarrow>
      (\<exists>j r'. hm_get (circuits m) j = Some r' \<and> state_label r' = ''open'' \<and> (i, j) \<in> (depends (dependencies m))\<^sup>+)"
    by blast
  then show ?thesis by (simp add: cascade_open_if_needed_def Let_def fold force_open_routes option.map_ident)
qed

text \<open>Routes \<open>b\<close> and \<open>c\<close> depend on \<open>a\<close>, one through the other; \<open>a\<close> is open.\<close>

definition chain_mesh :: CircuitMesh where
  "chain_mesh = \<lparr>circuits = [(''a'', force_open 7 (circuit_new (route_config_new ''a''))), (''b'', circuit_new (route_config_new ''b'')),
       (''c'', circuit_new (route_config_new ''c''))],
     dependencies = [(''b'', [''a'']), (''c'', [''b''])], cascade_threshold = FFin 0\<rparr>"

theorem cascade_opens_dependants_witness:
  "\<exists>enum. map_option rc_state (hm_get (circuits (cascade_open_if_needed enum 9 chain_mesh)) ''c'') = Some (Open 9 0)"
proof -
  define enum where "enum = (\<lambda>A :: string set. SOME xs. set xs = A)"
  have enum: "set (enum A) = A" if "finite A" for A unfolding enum_def using finite_list [OF that] by (rule someI_ex)
  have wf: "hm_wf (circuits chain_mesh)" by (simp add: chain_mesh_def hm_wf_def)
  have "(''c'', ''b'') \<in> depends (dependencies chain_mesh)" "(''b'', ''a'') \<in> depends (dependencies chain_mesh)"
    by (auto simp: chain_mesh_def depends_def)
  then have "(''c'', ''a'') \<in> (depends (dependencies chain_mesh))\<^sup>+" by auto
  moreover obtain r where "hm_get (circuits chain_mesh) ''a'' = Some r" "state_label r = ''open''"
    by (simp add: chain_mesh_def hm_get_def state_label_def force_open_def)
  ultimately have ex: "\<exists>j r'. hm_get (circuits chain_mesh) j = Some r' \<and> state_label r' = ''open''
      \<and> (''c'', j) \<in> (depends (dependencies chain_mesh))\<^sup>+" by blast
  have "fp_le (FFin 0) (f64_div (f64_of_nat 1) (f64_of_nat 3))"
    using f64_div_nonneg [OF f64_of_nat_nonneg, of 3 1] rnd64_dyadic [of 3 0] by (simp add: f64_of_nat_def)
  then have share: "should_cascade_open (open_routes (mesh_health chain_mesh)) (mh_total_routes (mesh_health chain_mesh))
      (cascade_threshold chain_mesh)"
    by (simp add: should_cascade_open_def mesh_health_def Let_def labelled_def chain_mesh_def state_label_def force_open_def
      circuit_new_def numeral_3_eq_3)
  have "hm_get (circuits (cascade_open_if_needed enum 9 chain_mesh)) ''c'' =
      map_option (\<lambda>r. force_open 9 r) (hm_get (circuits chain_mesh) ''c'')"
    using cascade_opens_dependants [of enum chain_mesh 9 "''c''", OF enum wf] by (simp only: share ex simp_thms if_True)
  then show ?thesis by (intro exI [of _ enum]) (simp add: chain_mesh_def hm_get_def force_open_def)
qed

end
