(* ===== verification/LoadShed.thy ===== *)
theory LoadShed
  imports Floats
begin

text \<open>
  The load shedder (\<open>src/load_shed.rs\<close>): four policies that decide whether a request is dropped,
  the queue depth they look at, and the moving average of latencies. All of it is atomic integers
  shared by the clones of the shedder; the operations made of one atomic access are functions of
  the state, and \<open>record_dequeue\<close>, a load followed by a subtraction, is two steps that other
  callers can interleave with.
\<close>

unbundle bit_operations_syntax

section \<open>State\<close>

datatype LoadShedPolicy =
    NeverShed
  | ShedWhenFull
  | ShedByPriority f64
  | AdaptiveShed u64

datatype ShedReason = QueueFull | LowPriority | AdaptiveLatency

record ShedInner =
  queue_depth :: usize
  total_requests :: u64
  shed_count :: u64
  p99_ema_fixed :: u64
  lcg_state :: u64
  last_reason :: u64

definition shed_inner_new :: ShedInner where
  "shed_inner_new = \<lparr>queue_depth = 0, total_requests = 0, shed_count = 0, p99_ema_fixed = 0,
     lcg_state = 0xdeadbeefcafebabe, last_reason = 0\<rparr>"

text \<open>The state of the generator advances by the multiplier; the value is mixed from the old state.\<close>

definition lcg_f64 :: "ShedInner \<Rightarrow> f64 \<times> ShedInner" where
  "lcg_f64 s =
    (let x = lcg_state s * 6364136223846793005 + 1442695040888963407
     in (f64_div (f64_of_u64 (drop_bit 11 x)) (f64_of_nat (2 ^ 53)),
         s\<lparr>lcg_state := lcg_state s + 6364136223846793005\<rparr>))"

definition p99_ema :: "ShedInner \<Rightarrow> f64" where
  "p99_ema s = f64_div (f64_of_u64 (p99_ema_fixed s)) (FFin 1000)"

record LoadShedder =
  policy :: LoadShedPolicy
  capacity :: usize
  inner :: ShedInner

definition shedder_new :: "LoadShedPolicy \<Rightarrow> usize \<Rightarrow> LoadShedder" where
  "shedder_new p c = \<lparr>policy = p, capacity = c, inner = shed_inner_new\<rparr>"

section \<open>The decision\<close>

definition shed_prob :: "f64 \<Rightarrow> f64 \<Rightarrow> f64" where
  "shed_prob p99 target = f64_max (f64_min (f64_sub (f64_div p99 target) (FFin 1)) (rnd64 (9 / 10))) (FFin 0)"

definition shed_decision :: "LoadShedPolicy \<Rightarrow> usize \<Rightarrow> u8 \<Rightarrow> ShedInner \<Rightarrow> bool \<times> ShedInner" where
  "shed_decision p cap prio s =
    (case p of
       NeverShed \<Rightarrow> (False, s)
     | ShedWhenFull \<Rightarrow>
         if cap \<le> queue_depth s then (True, s\<lparr>last_reason := 1\<rparr>) else (False, s)
     | ShedByPriority threshold_pct \<Rightarrow>
         if prio < 128 \<and> f64_to_u64 (f64_mul threshold_pct (f64_of_u64 cap)) < queue_depth s
         then (True, s\<lparr>last_reason := 2\<rparr>) else (False, s)
     | AdaptiveShed target_p99_ms \<Rightarrow>
         let p99 = p99_ema s; target = f64_of_u64 target_p99_ms
         in if fp_lt target p99 \<and> cap div 2 < queue_depth s then
              let (x, s) = lcg_f64 s
              in if fp_lt x (shed_prob p99 target) then (True, s\<lparr>last_reason := 3\<rparr>) else (False, s)
            else (False, s))"

definition should_shed :: "u8 \<Rightarrow> LoadShedder \<Rightarrow> bool \<times> LoadShedder" where
  "should_shed prio l =
    (let s = inner l;
         s = s\<lparr>total_requests := total_requests s + 1\<rparr>;
         (shed, s) = shed_decision (policy l) (capacity l) prio s;
         s = (if shed then s\<lparr>shed_count := shed_count s + 1\<rparr> else s)
     in (shed, l\<lparr>inner := s\<rparr>))"

section \<open>Depth and latency\<close>

definition record_enqueue :: "ShedInner \<Rightarrow> ShedInner" where
  "record_enqueue s = s\<lparr>queue_depth := queue_depth s + 1\<rparr>"

text \<open>The two accesses of \<open>record_dequeue\<close>.\<close>

definition dequeue_load :: "ShedInner \<Rightarrow> usize" where
  "dequeue_load s = queue_depth s"

definition dequeue_sub :: "usize \<Rightarrow> ShedInner \<Rightarrow> ShedInner" where
  "dequeue_sub prev s = (if 0 < prev then s\<lparr>queue_depth := queue_depth s - 1\<rparr> else s)"

definition record_dequeue :: "ShedInner \<Rightarrow> ShedInner" where
  "record_dequeue s = dequeue_sub (dequeue_load s) s"

definition update_p99_ema :: "u64 \<Rightarrow> ShedInner \<Rightarrow> ShedInner" where
  "update_p99_ema new_sample_ms s =
    (let sample_fixed = new_sample_ms * 1000; old_fixed = p99_ema_fixed s
     in s\<lparr>p99_ema_fixed := (100 * sample_fixed + 900 * old_fixed) div 1000\<rparr>)"

definition record_latency_ms :: "u64 \<Rightarrow> ShedInner \<Rightarrow> ShedInner" where
  "record_latency_ms ms s = update_p99_ema ms s"

record LoadShedStats =
  st_total_requests :: u64
  st_shed_count :: u64
  shed_rate :: f64
  current_depth :: usize
  p99_ema_ms :: f64

definition shed_stats :: "ShedInner \<Rightarrow> LoadShedStats" where
  "shed_stats s =
     \<lparr>st_total_requests = total_requests s, st_shed_count = shed_count s,
      shed_rate = (if total_requests s = 0 then FFin 0
                   else f64_div (f64_of_u64 (shed_count s)) (f64_of_u64 (total_requests s))),
      current_depth = queue_depth s, p99_ema_ms = p99_ema s\<rparr>"

definition shed_reason :: "ShedInner \<Rightarrow> ShedReason option" where
  "shed_reason s =
    (if last_reason s = 1 then Some QueueFull
     else if last_reason s = 2 then Some LowPriority
     else if last_reason s = 3 then Some AdaptiveLatency
     else None)"

section \<open>Calls\<close>

text \<open>The calls a service makes, one after the other.\<close>

datatype shed_call = Ask u8 | Enqueue | Dequeue | Latency u64

definition shed_step :: "shed_call \<Rightarrow> LoadShedder \<Rightarrow> LoadShedder" where
  "shed_step c l =
    (case c of
       Ask p \<Rightarrow> snd (should_shed p l)
     | Enqueue \<Rightarrow> l\<lparr>inner := record_enqueue (inner l)\<rparr>
     | Dequeue \<Rightarrow> l\<lparr>inner := record_dequeue (inner l)\<rparr>
     | Latency ms \<Rightarrow> l\<lparr>inner := record_latency_ms ms (inner l)\<rparr>)"

text \<open>
  Concurrent calls: every caller of \<open>record_dequeue\<close> holds the depth it has loaded until it
  subtracts.
\<close>

datatype shed_access = AEnqueue | ALoad nat | ASub nat

fun access_step :: "shed_access \<Rightarrow> ShedInner \<times> (nat \<rightharpoonup> usize) \<Rightarrow> ShedInner \<times> (nat \<rightharpoonup> usize)" where
  "access_step AEnqueue (s, held) = (record_enqueue s, held)"
| "access_step (ALoad t) (s, held) = (s, held(t \<mapsto> dequeue_load s))"
| "access_step (ASub t) (s, held) =
    (case held t of None \<Rightarrow> (s, held) | Some prev \<Rightarrow> (dequeue_sub prev s, held(t := None)))"

section \<open>The moving average\<close>

lemma ema_step:
  assumes "unat m \<le> 18446744073709" and "unat (p99_ema_fixed s) \<le> 18446744073709000"
  shows "unat (p99_ema_fixed (update_p99_ema m s)) = (unat m * 100000 + 900 * unat (p99_ema_fixed s)) div 1000"
proof -
  let ?x = "p99_ema_fixed s"
  have "unat (m * 1000) = unat m * 1000" using assms(1) by (subst unat_mult_small) simp_all
  moreover from this have "unat (100 * (m * 1000)) = 100 * (unat m * 1000)" using assms(1) by (subst unat_mult_small) simp_all
  moreover have "unat (900 * ?x) = 900 * unat ?x" using assms(2) by (subst unat_mult_small) simp_all
  ultimately have "unat (100 * (m * 1000) + 900 * ?x) = 100 * (unat m * 1000) + 900 * unat ?x"
    using assms by (subst unat_add_small) simp_all
  then show ?thesis by (simp add: update_p99_ema_def Let_def unat_div_distrib)
qed

definition settled_error :: "nat \<Rightarrow> nat" where
  "settled_error e = (9 * e + 9) div 10"

lemma settled_error_iterate:
  "9 \<le> e \<Longrightarrow> 9 \<le> (settled_error ^^ n) e \<and> (settled_error ^^ n) e \<le> max 9 (e - n)"
proof (induction n arbitrary: e)
  case (Suc n)
  have "9 \<le> settled_error e" "settled_error e \<le> max 9 (e - 1)" using Suc.prems by (auto simp: settled_error_def)
  moreover have "(settled_error ^^ Suc n) e = (settled_error ^^ n) (settled_error e)" by (simp add: funpow_swap1)
  moreover have "9 \<le> (settled_error ^^ n) (settled_error e)" "(settled_error ^^ n) (settled_error e) \<le> max 9 (settled_error e - n)"
    using Suc.IH [of "settled_error e"] \<open>9 \<le> settled_error e\<close> by simp_all
  ultimately show ?case by linarith
qed simp

lemma ema_constant:
  assumes "0 < unat m" and "unat m \<le> 18446744073709"
  shows "unat (p99_ema_fixed ((update_p99_ema m ^^ n) shed_inner_new)) = 1000 * unat m - (settled_error ^^ n) (1000 * unat m)
    \<and> (settled_error ^^ n) (1000 * unat m) \<le> 1000 * unat m"
proof (induction n)
  case 0
  then show ?case by (simp add: shed_inner_new_def)
next
  case (Suc n)
  let ?s = "(update_p99_ema m ^^ n) shed_inner_new" and ?e = "(settled_error ^^ n) (1000 * unat m)"
  have x: "unat (p99_ema_fixed ?s) = 1000 * unat m - ?e" "?e \<le> 1000 * unat m" using Suc by simp_all
  have "unat (p99_ema_fixed (update_p99_ema m ?s)) = (unat m * 100000 + 900 * (1000 * unat m - ?e)) div 1000"
    using ema_step [OF assms(2), of ?s] x assms(2) by simp
  also have "\<dots> = 1000 * unat m - settled_error ?e" using x(2) unfolding settled_error_def by linarith
  finally have "unat (p99_ema_fixed (update_p99_ema m ?s)) = 1000 * unat m - settled_error ?e" .
  moreover have "settled_error ?e \<le> 1000 * unat m" using x(2) assms(1) unfolding settled_error_def by linarith
  ultimately show ?case by simp
qed

section \<open>Counting\<close>

fun shed_run :: "shed_call list \<Rightarrow> LoadShedder \<Rightarrow> bool list \<times> LoadShedder" where
  "shed_run [] l = ([], l)"
| "shed_run (Ask p # cs) l = (case should_shed p l of (b, l) \<Rightarrow> case shed_run cs l of (bs, l) \<Rightarrow> (b # bs, l))"
| "shed_run (c # cs) l = shed_run cs (shed_step c l)"

lemma shed_decision_frame:
  "total_requests (snd (shed_decision p cap prio s)) = total_requests s"
  "shed_count (snd (shed_decision p cap prio s)) = shed_count s"
  by (auto simp: shed_decision_def lcg_f64_def Let_def split: LoadShedPolicy.split)

lemma should_shed_counts:
  "total_requests (inner (snd (should_shed p l))) = total_requests (inner l) + 1"
  "shed_count (inner (snd (should_shed p l))) = shed_count (inner l) + (if fst (should_shed p l) then 1 else 0)"
  using shed_decision_frame [of "policy l" "capacity l" p "inner l\<lparr>total_requests := total_requests (inner l) + 1\<rparr>"]
  by (auto simp: should_shed_def Let_def split: prod.split)

lemma shed_step_counts:
  "c \<noteq> Ask p \<Longrightarrow> (\<And>p. c \<noteq> Ask p) \<Longrightarrow> total_requests (inner (shed_step c l)) = total_requests (inner l)
    \<and> shed_count (inner (shed_step c l)) = shed_count (inner l)"
  by (cases c) (auto simp: shed_step_def record_enqueue_def record_dequeue_def dequeue_sub_def record_latency_ms_def
      update_p99_ema_def Let_def)

lemma shed_run_counts:
  "total_requests (inner (snd (shed_run cs l))) = total_requests (inner l) + of_nat (length (fst (shed_run cs l)))
   \<and> shed_count (inner (snd (shed_run cs l))) = shed_count (inner l) + of_nat (length (filter id (fst (shed_run cs l))))"
proof (induction cs l rule: shed_run.induct)
  case (2 p cs l)
  obtain b l' where s: "should_shed p l = (b, l')" by fastforce
  show ?case using "2.IH" [OF s [symmetric]] should_shed_counts [of p l] by (auto simp: s split: prod.split)
qed (use shed_step_counts in \<open>simp_all\<close>)

section \<open>Properties\<close>

text \<open>
  No sample pushes the moving average above the largest latency seen.
\<close>

theorem ema_stays_below_worst_latency:
  assumes "\<forall>m \<in> set ms. unat m \<le> hi" and "hi \<le> 18446744073709"
  shows "unat (p99_ema_fixed (fold update_p99_ema ms shed_inner_new)) \<le> 1000 * hi"
proof -
  have "unat (p99_ema_fixed (fold update_p99_ema ms s)) \<le> 1000 * hi" if "unat (p99_ema_fixed s) \<le> 1000 * hi" for s
    using that assms(1)
  proof (induction ms arbitrary: s)
    case (Cons m ms)
    have "unat (p99_ema_fixed (update_p99_ema m s)) = (unat m * 100000 + 900 * unat (p99_ema_fixed s)) div 1000"
      using Cons.prems assms(2) by (intro ema_step) auto
    also have "\<dots> \<le> 1000 * hi" using Cons.prems by (auto simp: div_le_mono2 less_eq_div_iff_mult_less_eq) 
    finally show ?case using Cons by simp
  qed simp
  then show ?thesis by (simp add: shed_inner_new_def)
qed

theorem ema_stays_below_worst_latency_witness:
  "unat (p99_ema_fixed (fold update_p99_ema [5, 70, 20] shed_inner_new)) \<le> 70000"
  using ema_stays_below_worst_latency [of "[5, 70, 20]" 70] by simp

text \<open>
  Under a constant latency the average settles, and stays, nine thousandths of a millisecond
  below it: the division truncates.
\<close>

theorem constant_latency_settles_below:
  assumes "0 < unat m" and "unat m \<le> 18446744073709" and "1000 * unat m \<le> n"
  shows "unat (p99_ema_fixed ((update_p99_ema m ^^ n) shed_inner_new)) = 1000 * unat m - 9"
proof -
  have "(settled_error ^^ n) (1000 * unat m) = 9"
    using settled_error_iterate [of "1000 * unat m" n] assms(1,3) by simp
  then show ?thesis using ema_constant [OF assms(1,2), of n] by simp
qed

theorem constant_latency_settles_below_witness:
  "unat (p99_ema_fixed ((update_p99_ema 2 ^^ 3000) shed_inner_new)) = 1991"
  using constant_latency_settles_below [of 2 3000] by simp

text \<open>
  A request is dropped only for the cause its policy names, which \<open>shed_reason\<close> then reports;
  a request that is let through leaves the reason alone.
\<close>

theorem shed_has_cause:
  "case should_shed prio l of (shed, l') \<Rightarrow>
     if shed then
       (case policy l of
          NeverShed \<Rightarrow> False
        | ShedWhenFull \<Rightarrow> capacity l \<le> queue_depth (inner l) \<and> shed_reason (inner l') = Some QueueFull
        | ShedByPriority f \<Rightarrow> prio < 128 \<and> f64_to_u64 (f64_mul f (f64_of_u64 (capacity l))) < queue_depth (inner l)
            \<and> shed_reason (inner l') = Some LowPriority
        | AdaptiveShed t \<Rightarrow> fp_lt (f64_of_u64 t) (p99_ema (inner l)) \<and> capacity l div 2 < queue_depth (inner l)
            \<and> shed_reason (inner l') = Some AdaptiveLatency)
     else shed_reason (inner l') = shed_reason (inner l)"
  by (cases "policy l") (auto simp: should_shed_def shed_decision_def shed_reason_def lcg_f64_def p99_ema_def Let_def)

text \<open>
  The counters are exact: as many requests as were asked about, as many dropped as were
  answered with a drop.
\<close>

theorem shed_counters_exact:
  "case shed_run cs (shedder_new p cap) of (answers, l) \<Rightarrow>
     st_total_requests (shed_stats (inner l)) = of_nat (length answers)
     \<and> st_shed_count (shed_stats (inner l)) = of_nat (length (filter id answers))"
proof -
  obtain answers l where r: "shed_run cs (shedder_new p cap) = (answers, l)" by fastforce
  show ?thesis using shed_run_counts [of cs "shedder_new p cap", unfolded r]
    by (simp add: r shed_stats_def) (simp add: shedder_new_def shed_inner_new_def)
qed

text \<open>
  Two callers that take the last item at the same time both load a depth of one and both
  subtract: the depth wraps around, and a shedder that drops when full drops everything, whatever
  its capacity.
\<close>

theorem concurrent_dequeues_wrap_depth:
  "queue_depth (fst (fold access_step [AEnqueue, ALoad 0, ALoad 1, ASub 0, ASub 1] (shed_inner_new, Map.empty))) = - 1
   \<and> fst (should_shed p \<lparr>policy = ShedWhenFull, capacity = cap,
       inner = fst (fold access_step [AEnqueue, ALoad 0, ALoad 1, ASub 0, ASub 1] (shed_inner_new, Map.empty))\<rparr>)"
  by (simp add: shed_inner_new_def record_enqueue_def dequeue_load_def dequeue_sub_def should_shed_def shed_decision_def
      Let_def word_order.extremum)

end
