(* ===== verification/RetryPolicy.thy ===== *)
theory RetryPolicy
  imports Floats
begin

text \<open>
  Retry policies (\<open>src/retry_policy.rs\<close>): the delay before each retry, growing in four ways and
  jittered by a linear congruential generator, and the executor that calls an operation until it
  succeeds, fails for good or the attempts are used up. The operation is a function of the attempt
  number: the executor never passes the same number twice, so every sequence of outcomes is one.
  A power of two is exact, and infinite beyond the range of the format.
\<close>

unbundle bit_operations_syntax

section \<open>Configuration and state\<close>

datatype BackoffKind = Fixed | Linear | Exponential | ExponentialWithJitter

record RetryConfig =
  max_attempts :: u32
  base_delay_ms :: u64
  max_delay_ms :: u64
  backoff :: BackoffKind
  jitter_factor :: f64

datatype RetryableError = Timeout | RateLimit | ServiceUnavailable | NetworkError | NonRetryable

definition is_retryable :: "RetryableError \<Rightarrow> bool" where
  "is_retryable e = (case e of NonRetryable \<Rightarrow> False | _ \<Rightarrow> True)"

fun RetryableError_to_string :: "RetryableError \<Rightarrow> string" where
  "RetryableError_to_string Timeout = ''timeout''"
| "RetryableError_to_string RateLimit = ''rate limit''"
| "RetryableError_to_string ServiceUnavailable = ''service unavailable''"
| "RetryableError_to_string NetworkError = ''network error''"
| "RetryableError_to_string NonRetryable = ''non-retryable error''"

record RetryState =
  attempt :: u32
  config :: RetryConfig
  lcg_state :: u64

definition retry_state_new :: "RetryConfig \<Rightarrow> RetryState" where
  "retry_state_new c = \<lparr>attempt = 0, config = c, lcg_state = 6364136223846793005\<rparr>"

definition lcg_float :: "RetryState \<Rightarrow> f64 \<times> RetryState" where
  "lcg_float s =
    (let x = lcg_state s * 6364136223846793005 + 1442695040888963407
     in (f64_div (f64_of_u64 (drop_bit 11 x)) (f64_of_nat (2 ^ 53)), s\<lparr>lcg_state := x\<rparr>))"

section \<open>Delays\<close>

definition f64_two_pow :: "nat \<Rightarrow> f64" where
  "f64_two_pow k = (if k < 1024 then FFin (2 ^ k) else FInf False)"

definition raw_delay :: "RetryConfig \<Rightarrow> u32 \<Rightarrow> f64" where
  "raw_delay c n =
    (let base = f64_of_u64 (base_delay_ms c)
     in case backoff c of
          Fixed \<Rightarrow> base
        | Linear \<Rightarrow> f64_mul base (f64_of_nat (unat n))
        | Exponential \<Rightarrow> f64_mul base (f64_two_pow (unat n - 1))
        | ExponentialWithJitter \<Rightarrow> f64_mul base (f64_two_pow (unat n - 1)))"

definition next_delay_ms :: "RetryState \<Rightarrow> u64 option \<times> RetryState" where
  "next_delay_ms s =
    (if max_attempts (config s) \<le> attempt s then (None, s)
     else let s = s\<lparr>attempt := attempt s + 1\<rparr>;
              clamped = f64_min (raw_delay (config s) (attempt s)) (f64_of_u64 (max_delay_ms (config s)))
          in if fp_lt (FFin 0) (jitter_factor (config s)) then
               let (r, s) = lcg_float s;
                   jitter = f64_mul (f64_mul (f64_sub (f64_mul r (FFin 2)) (FFin 1)) (jitter_factor (config s))) clamped
               in (Some (f64_to_u64 (f64_max (f64_add clamped jitter) (FFin 0))), s)
             else (Some (f64_to_u64 clamped), s))"

definition should_retry :: "RetryableError \<Rightarrow> RetryState \<Rightarrow> bool" where
  "should_retry e s = (is_retryable e \<and> attempt s < max_attempts (config s))"

section \<open>The executor\<close>

record RetryMetrics =
  total_attempts :: u32
  total_delay_ms :: u64
  final_success :: bool

definition retry_metrics_default :: RetryMetrics where
  "retry_metrics_default = \<lparr>total_attempts = 0, total_delay_ms = 0, final_success = False\<rparr>"

function retry_loop :: "(u32 \<Rightarrow> RetryableError + 'a) \<Rightarrow> RetryConfig \<Rightarrow> RetryState \<Rightarrow> RetryMetrics \<Rightarrow> RetryableError + 'a \<times> RetryMetrics" where
  "retry_loop f c s m =
    (let m = m\<lparr>total_attempts := total_attempts m + 1\<rparr>
     in case f (attempt s + 1) of
          Inr v \<Rightarrow> Inr (v, m\<lparr>final_success := True\<rparr>)
        | Inl e \<Rightarrow>
            if \<not> is_retryable e then Inl e
            else if max_attempts c \<le> total_attempts m then Inl e
            else case next_delay_ms s of
                   (None, s) \<Rightarrow> Inl e
                 | (Some d, s) \<Rightarrow> retry_loop f c s (m\<lparr>total_delay_ms := total_delay_ms m + d\<rparr>))"
  by pat_completeness auto

termination
proof (relation "measure (\<lambda>(f, c, s, m). unat (max_attempts c - total_attempts m - 1))", goal_cases)
  case (2 f c s m m' e p s' d)
  let ?d = "max_attempts c - total_attempts m - 1"
  have "?d \<noteq> 0" using 2(1,4) by (auto simp: diff_diff_eq)
  then have "unat (?d - 1) < unat ?d" by (rule measure_unat)
  then show ?case using 2(1) by (simp add: diff_diff_eq add.commute)
qed simp

declare retry_loop.simps [simp del]

definition execute_sync :: "RetryConfig \<Rightarrow> (u32 \<Rightarrow> RetryableError + 'a) \<Rightarrow> RetryableError + 'a \<times> RetryMetrics" where
  "execute_sync c f = retry_loop f c (retry_state_new c) retry_metrics_default"

section \<open>Delays without jitter\<close>

fun growth :: "BackoffKind \<Rightarrow> nat \<Rightarrow> nat \<Rightarrow> nat" where
  "growth Fixed base n = base"
| "growth Linear base n = base * n"
| "growth Exponential base n = base * 2 ^ (n - 1)"
| "growth ExponentialWithJitter base n = base * 2 ^ (n - 1)"

lemma clamp_exact:
  assumes "M < 2 ^ 53"
  shows "f64_min (rnd64 (of_nat g)) (FFin (of_nat M)) = FFin (of_nat (min g M))"
proof (cases "g \<le> M")
  case True
  then have "rnd64 (of_nat g) = FFin (of_nat g)" using rnd64_dyadic [of g 0] assms by simp
  then show ?thesis using True by (simp add: f64_min_def min_def)
next
  case False
  then have "fp_le (FFin (of_nat M)) (rnd64 (of_nat g))"
    using rnd64_mono [of "of_nat M" "of_nat g"] rnd64_dyadic [of M 0] assms by simp
  then show ?thesis using False by (cases "rnd64 (of_nat g)") (auto simp: f64_min_def min_def)
qed

lemma raw_delay_clamped:
  assumes "0 < b" and "b < 2 ^ 53" and "M < 2 ^ 53" and base: "unat (base_delay_ms c) = b" and k: "unat n = k"
  shows "f64_min (raw_delay c n) (FFin (of_nat M)) = FFin (of_nat (min (growth (backoff c) b k) M))"
proof -
  have b: "f64_of_u64 (base_delay_ms c) = FFin (of_nat b)" using assms(2) by (simp add: f64_of_u64_def f64_of_nat_exact base)
  have n: "f64_of_nat k = FFin (of_nat k)"
    using unsigned_less [of n, where ?'a = nat] k by (simp add: f64_of_nat_exact)
  have fixed: "f64_min (FFin (of_nat b)) (FFin (of_nat M)) = FFin (of_nat (min b M))"
    using clamp_exact [OF assms(3), of b] rnd64_dyadic [of b 0] assms(2) by simp
  have lin: "f64_mul (FFin (of_nat b)) (FFin (of_nat k)) = rnd64 (of_nat (b * k))" by simp
  have ex: "f64_min (f64_mul (FFin (of_nat b)) (f64_two_pow i)) (FFin (of_nat M)) = FFin (of_nat (min (b * 2 ^ i) M))" for i
  proof (cases "i < 1024")
    case True
    then have "f64_mul (FFin (of_nat b)) (f64_two_pow i) = rnd64 (of_nat (b * 2 ^ i))" by (simp add: f64_two_pow_def)
    then show ?thesis by (simp only: clamp_exact [OF assms(3)])
  next
    case False
    have "(2 :: nat) ^ 53 \<le> 2 ^ i" using False by (intro power_increasing) auto
    also have "\<dots> \<le> b * 2 ^ i" using assms(1) by simp
    finally have "M < b * 2 ^ i" using assms(3) by simp
    moreover have "f64_mul (FFin (of_nat b)) (f64_two_pow i) = FInf False" using False assms(1) by (simp add: f64_two_pow_def)
    ultimately show ?thesis by (simp add: f64_min_def)
  qed
  show ?thesis using fixed ex [of "k - 1"] clamp_exact [OF assms(3), of "b * k"]
    by (cases "backoff c") (simp_all only: raw_delay_def Let_def b n k lin growth.simps BackoffKind.case)
qed

text \<open>
  Without jitter the delay before a retry grows as the policy says, exactly, up to the configured
  limit, and is refused once the attempts are used up.
\<close>

theorem delays_grow_to_limit:
  assumes "\<not> fp_lt (FFin 0) (jitter_factor (config s))"
    and "0 < unat (base_delay_ms (config s))" and "unat (base_delay_ms (config s)) < 2 ^ 53"
    and "unat (max_delay_ms (config s)) < 2 ^ 53"
  shows "fst (next_delay_ms s) =
    (if attempt s < max_attempts (config s)
     then Some (of_nat (min (growth (backoff (config s)) (unat (base_delay_ms (config s))) (unat (attempt s) + 1))
            (unat (max_delay_ms (config s)))))
     else None)"
proof (cases "attempt s < max_attempts (config s)")
  case True
  obtain M b where M: "unat (max_delay_ms (config s)) = M" and b: "unat (base_delay_ms (config s)) = b" by blast
  have n: "unat (attempt s + 1) = unat (attempt s) + 1"
    using True unsigned_less [of "max_attempts (config s)", where ?'a = nat]
    by (subst unat_add_small) (simp_all add: word_less_nat_alt)
  have m: "f64_of_u64 (max_delay_ms (config s)) = FFin (of_nat M)" using assms(4) by (simp add: f64_of_u64_def f64_of_nat_exact M)
  have v: "f64_to_u64 (FFin (of_nat (min g M))) = of_nat (min g M)" for g
    using f64_of_nat_roundtrip [of "min g M"] f64_of_nat_exact [of "min g M"] assms(4) M by simp
  have c: "f64_min (raw_delay (config s) (attempt s + 1)) (FFin (of_nat M))
      = FFin (of_nat (min (growth (backoff (config s)) b (unat (attempt s) + 1)) M))"
    using assms(2-4) M b n by (intro raw_delay_clamped) simp_all
  have "\<not> max_attempts (config s) \<le> attempt s" using True by simp
  then show ?thesis using True assms(1) unfolding M b
    by (simp add: next_delay_ms_def Let_def m c v del: f64_to_u64.simps of_nat_min)
qed (simp add: next_delay_ms_def not_less)

theorem delays_grow_to_limit_witness:
  "fst (next_delay_ms (retry_state_new \<lparr>max_attempts = 4, base_delay_ms = 100, max_delay_ms = 10000,
     backoff = Exponential, jitter_factor = FFin 0\<rparr>\<lparr>attempt := 3\<rparr>)) = Some 800"
  using delays_grow_to_limit [of "retry_state_new \<lparr>max_attempts = 4, base_delay_ms = 100, max_delay_ms = 10000,
     backoff = Exponential, jitter_factor = FFin 0\<rparr>\<lparr>attempt := 3\<rparr>"]
  by (simp add: retry_state_new_def)

section \<open>Jitter\<close>

lemma next_delay_jitter:
  assumes "attempt s < max_attempts (config s)" and "fp_lt (FFin 0) (jitter_factor (config s))"
  shows "snd (next_delay_ms s) = s\<lparr>attempt := attempt s + 1, lcg_state := lcg_state s * 6364136223846793005 + 1442695040888963407\<rparr>"
  using assms by (simp add: next_delay_ms_def lcg_float_def Let_def not_le)

definition full_jitter :: RetryConfig where
  "full_jitter = \<lparr>max_attempts = 10, base_delay_ms = 1000, max_delay_ms = 1000, backoff = Fixed, jitter_factor = FFin 1\<rparr>"

text \<open>
  The limit is applied before the jitter: a policy whose delays are limited to a second waits for
  more than one and a half before the fourth retry.
\<close>

theorem jitter_exceeds_limit:
  "case fst (next_delay_ms (((snd \<circ> next_delay_ms) ^^ 3) (retry_state_new full_jitter))) of
     Some d \<Rightarrow> max_delay_ms full_jitter + 500 \<le> d
   | None \<Rightarrow> False"
proof -
  let ?r = "7323196675764078 / 2 ^ 53 :: rat"
  have s: "((snd \<circ> next_delay_ms) ^^ 3) (retry_state_new full_jitter) = \<lparr>attempt = 3, config = full_jitter, lcg_state = 10827694766421262122\<rparr>"
    by (simp add: numeral_3_eq_3 next_delay_jitter retry_state_new_def full_jitter_def)
  have x: "drop_bit 11 (10827694766421262122 * 6364136223846793005 + 1442695040888963407 :: u64) = 7323196675764078" by simp
  have two53: "rnd64 9007199254740992 = FFin 9007199254740992"
    using rnd64_eval [of 53 9007199254740992] rne_of_int [of "2 ^ 52"] by (simp add: pow2_def)
  have r: "f64_div (f64_of_u64 7323196675764078) (f64_of_nat (2 ^ 53)) = FFin ?r"
    using rnd64_dyadic [of 7323196675764078 53] rnd64_dyadic [of 7323196675764078 0] two53
    by (simp add: f64_of_u64_def f64_of_nat_def)
  have j: "f64_sub (f64_mul (FFin ?r) (FFin 2)) (FFin 1) = FFin (2819597048393582 / 2 ^ 52)"
    using rnd64_dyadic [of 7323196675764078 52] rnd64_dyadic [of 2819597048393582 52] by (simp add: f64_sub_def)
  have k: "f64_mul (FFin (2819597048393582 / 2 ^ 52)) (FFin 1) = FFin (2819597048393582 / 2 ^ 52)"
    using rnd64_dyadic [of 2819597048393582 52] by simp
  have th: "rnd64 1000 = FFin 1000" "rnd64 600 = FFin 600" "rnd64 1600 = FFin 1600" "rnd64 2000 = FFin 2000"
    using rnd64_dyadic [of 1000 0] rnd64_dyadic [of 600 0] rnd64_dyadic [of 1600 0] rnd64_dyadic [of 2000 0] by simp_all
  obtain q where "rnd64 (2819597048393582 / 2 ^ 52 * 1000) = FFin q" and q': "600 \<le> q" "q \<le> 1000"
    using rnd64_mono [of 600 "2819597048393582 / 2 ^ 52 * 1000"] rnd64_mono [of "2819597048393582 / 2 ^ 52 * 1000" 1000] th
    by (cases "rnd64 (2819597048393582 / 2 ^ 52 * 1000)") auto
  then have q: "f64_mul (FFin (2819597048393582 / 2 ^ 52)) (FFin 1000) = FFin q" by simp
  obtain t where t: "rnd64 (1000 + q) = FFin t" "1600 \<le> t"
    using rnd64_mono [of 1600 "1000 + q"] rnd64_mono [of "1000 + q" 2000] q' th by (cases "rnd64 (1000 + q)") auto
  have "f64_to_u64 (FFin 1600) \<le> f64_to_u64 (FFin t)" by (rule f64_to_u64_mono) (simp add: t)
  moreover have "f64_to_u64 (FFin 1600) = 1600" using f64_of_nat_roundtrip [of 1600] f64_of_nat_exact [of 1600] by simp
  moreover have "f64_of_u64 1000 = FFin 1000" using th by (simp add: f64_of_u64_def f64_of_nat_def)
  moreover have "fst (next_delay_ms \<lparr>attempt = 3, config = full_jitter, lcg_state = 10827694766421262122\<rparr>) = Some (f64_to_u64 (FFin t))"
    if "f64_of_u64 1000 = FFin 1000"
    using t by (simp add: next_delay_ms_def lcg_float_def full_jitter_def raw_delay_def x r j k q that f64_max_def f64_min_def
        Let_def del: f64_mul.simps f64_div.simps f64_to_u64.simps power_numeral)
  ultimately have "fst (next_delay_ms \<lparr>attempt = 3, config = full_jitter, lcg_state = 10827694766421262122\<rparr>) = Some (f64_to_u64 (FFin t))"
    and "1600 \<le> f64_to_u64 (FFin t)" by (simp_all only:)
  moreover have "max_delay_ms full_jitter + 500 = 1500" by (simp add: full_jitter_def)
  moreover have "1500 \<le> (1600 :: u64)" by simp
  ultimately show ?thesis unfolding s by (simp only: option.case)
qed

section \<open>The executor\<close>

text \<open>The attempt that settles an execution: the first that succeeds or must not be retried, or the last allowed.\<close>

definition decisive :: "RetryableError + 'a \<Rightarrow> bool" where
  "decisive x = (case x of Inr _ \<Rightarrow> True | Inl e \<Rightarrow> \<not> is_retryable e)"

definition settling :: "(u32 \<Rightarrow> RetryableError + 'a) \<Rightarrow> nat \<Rightarrow> nat \<Rightarrow> nat" where
  "settling f j n = (case find (\<lambda>k. decisive (f (of_nat k))) [Suc j..<n + 1] of Some k \<Rightarrow> k | None \<Rightarrow> n)"

definition attempts_allowed :: "RetryConfig \<Rightarrow> nat" where
  "attempts_allowed c = max 1 (unat (max_attempts c))"

lemma attempts_allowed_pos: "0 < attempts_allowed c"
  by (simp add: attempts_allowed_def)

text \<open>The sum of the delays before a number of retries.\<close>

fun delay_sum :: "nat \<Rightarrow> RetryState \<Rightarrow> u64" where
  "delay_sum 0 s = 0"
| "delay_sum (Suc n) s = (case next_delay_ms s of (Some d, s) \<Rightarrow> d + delay_sum n s | (None, s) \<Rightarrow> 0)"

lemma settling_bounds: "j < n \<Longrightarrow> j < settling f j n \<and> settling f j n \<le> n"
proof (cases "find (\<lambda>k. decisive (f (of_nat k))) [Suc j..<n + 1]")
  case (Some k)
  then have "k \<in> set [Suc j..<n + 1]" by (metis find_Some_iff nth_mem)
  then show ?thesis using Some by (simp add: settling_def del: upt_Suc)
qed (simp add: settling_def)

lemma settling_here: "j < n \<Longrightarrow> decisive (f (of_nat (Suc j))) \<Longrightarrow> settling f j n = Suc j"
  by (simp add: settling_def upt_rec [of "Suc j"])

lemma settling_later: "j < n \<Longrightarrow> \<not> decisive (f (of_nat (Suc j))) \<Longrightarrow> settling f j n = settling f (Suc j) n"
  by (simp add: settling_def upt_rec [of "Suc j"])

lemma next_delay_Some:
  assumes "attempt s < max_attempts (config s)"
  shows "\<exists>w s'. next_delay_ms s = (Some w, s') \<and> attempt s' = attempt s + 1 \<and> config s' = config s"
  using assms by (simp add: next_delay_ms_def lcg_float_def Let_def not_le)

lemma retry_loop_outcome:
  assumes "attempt s = of_nat j" and "config s = c" and "total_attempts m = of_nat j" and "j < attempts_allowed c"
  shows "retry_loop f c s m =
    (case f (of_nat (settling f j (attempts_allowed c))) of
       Inl e \<Rightarrow> Inl e
     | Inr v \<Rightarrow> Inr (v, m\<lparr>total_attempts := of_nat (settling f j (attempts_allowed c)),
         total_delay_ms := total_delay_ms m + delay_sum (settling f j (attempts_allowed c) - j - 1) s, final_success := True\<rparr>))"
  using assms
proof (induction "attempts_allowed c - j" arbitrary: j s m)
  case (Suc d)
  let ?n = "attempts_allowed c"
  have n: "?n < 2 ^ 32" using unsigned_less [of "max_attempts c", where ?'a = nat] by (auto simp: attempts_allowed_def)
  have j1: "attempt s + 1 = of_nat (Suc j)" "total_attempts m + 1 = of_nat (Suc j)" using Suc.prems by simp_all
  note [simp del] = of_nat_Suc
  show ?case
  proof (cases "decisive (f (of_nat (Suc j)))")
    case True
    then show ?thesis using settling_here [of j ?n f] Suc.prems(4) j1
      by (subst retry_loop.simps) (auto simp: Let_def decisive_def split: sum.split)
  next
    case False
    then obtain e where e: "f (of_nat (Suc j)) = Inl e" "is_retryable e" by (auto simp: decisive_def split: sum.splits)
    have le: "max_attempts c \<le> of_nat (Suc j) \<longleftrightarrow> ?n \<le> Suc j"
      using n Suc.prems(4) by (simp add: word_le_nat_alt unat_of_nat_small attempts_allowed_def)
    show ?thesis
    proof (cases "?n \<le> Suc j")
      case True
      then have "settling f j ?n = Suc j" using settling_bounds [of j ?n f] Suc.prems(4) by simp
      then show ?thesis using e le True j1 by (subst retry_loop.simps) (simp add: Let_def)
    next
      case f': False
      then have "attempt s < max_attempts c"
        using n Suc.prems(1) by (auto simp: word_less_nat_alt unat_of_nat_small attempts_allowed_def max_def split: if_splits)
      then obtain w s' where w: "next_delay_ms s = (Some w, s')" "attempt s' = of_nat (Suc j)" "config s' = c"
        using next_delay_Some [of s] Suc.prems(1,2) j1(1) by auto
      let ?m = "m\<lparr>total_attempts := of_nat (Suc j), total_delay_ms := total_delay_ms m + w\<rparr>"
      have "retry_loop f c s m = retry_loop f c s' ?m"
        using e le f' j1 w(1) by (subst retry_loop.simps) (simp add: Let_def)
      also note Suc.hyps(1) [of "Suc j" s' ?m]
      moreover have "delay_sum (settling f (Suc j) ?n - Suc j) s = w + delay_sum (settling f (Suc j) ?n - Suc (Suc j)) s'"
        using settling_bounds [of "Suc j" ?n f] f' w(1) by (cases "settling f (Suc j) ?n - Suc j") (auto simp: diff_Suc split: nat.splits)
      ultimately show ?thesis using Suc.prems Suc.hyps(2) f' w settling_later [of j ?n f] False settling_bounds [of "Suc j" ?n f]
        by (auto simp: add.assoc split: sum.split)
    qed
  qed
qed simp

text \<open>
  C31. The synchronous executor always returns: it stops at the first attempt that succeeds or fails for
  good, or at the last one allowed, and answers with that attempt's outcome. On success it reports the
  number of attempts and the sum of the delays that belong between them; it never waits for them. At
  least one call is made, also when \<open>max_attempts\<close> is zero, against \<open>up to max_attempts times\<close>.
\<close>

theorem executor_settles:
  "execute_sync c f =
    (let k = settling f 0 (attempts_allowed c)
     in case f (of_nat k) of
          Inl e \<Rightarrow> Inl e
        | Inr v \<Rightarrow> Inr (v, \<lparr>total_attempts = of_nat k, total_delay_ms = delay_sum (k - 1) (retry_state_new c), final_success = True\<rparr>))"
  using retry_loop_outcome [of "retry_state_new c" 0 c retry_metrics_default f] settling_bounds [of 0 "attempts_allowed c" f]
  by (simp add: execute_sync_def Let_def attempts_allowed_pos retry_state_new_def retry_metrics_default_def split: sum.split)

text \<open>With \<open>max_attempts\<close> zero there is still one call.\<close>

lemma zero_attempts_call_once:
  "max_attempts c = 0 \<Longrightarrow> execute_sync c f =
    (case f 1 of Inl e \<Rightarrow> Inl e
     | Inr v \<Rightarrow> Inr (v, \<lparr>total_attempts = 1, total_delay_ms = 0, final_success = True\<rparr>))"
  unfolding execute_sync_def
  by (subst retry_loop.simps) (simp add: Let_def retry_state_new_def retry_metrics_default_def split: sum.split)

end
