(* ===== verification/Deadline.thy ===== *)
theory Deadline
  imports RouterSteps "HOL-Library.Multiset"
begin

text \<open>
  The deadline scheduler (\<open>src/deadline.rs\<close>): jobs wait in a heap ordered by deadline and then by
  priority; \<open>drain_ready\<close> empties it under one lock, reporting the jobs whose deadline has passed,
  and then submits the others to the router one after the other, waiting for each. The first part
  is a function; the second is a step relation, because the router's own tasks and other callers of
  the scheduler move while a submission waits. The heap is the list of its entries, and a number
  stands for its choice among entries that compare equal. Instants are nanoseconds; the slack, an
  \<open>i64\<close> number of milliseconds, is an integer. A receiver's view of the event channel is not
  modelled: the events are the ones sent.
\<close>

section \<open>Jobs, events and state\<close>

record DeadlineJob =
  dj_job :: Job
  dj_deadline :: nat
  dj_priority :: u8

datatype DeadlineEvent =
    Completed u64 "Output list" int
  | Dropped u64 int
  | Missed u64 u64 u8

fun event_job :: "DeadlineEvent \<Rightarrow> u64" where
  "event_job (Completed i outs slack) = i"
| "event_job (Dropped i slack) = i"
| "event_job (Missed i overdue p) = i"

record Scheduler =
  sch_queue :: "DeadlineJob list"
  sch_events :: "DeadlineEvent list"
  miss_count :: u64
  completed_count :: u64
  dropped_count :: u64
  sch_router :: Inner

definition scheduler_new :: "Inner \<Rightarrow> Scheduler" where
  "scheduler_new r = \<lparr>sch_queue = [], sch_events = [], miss_count = 0, completed_count = 0, dropped_count = 0, sch_router = r\<rparr>"

text \<open>\<open>Ord for HeapEntry\<close>: the greatest entry has the nearest deadline, then the highest priority.\<close>

definition entry_ge :: "DeadlineJob \<Rightarrow> DeadlineJob \<Rightarrow> bool" where
  "entry_ge d e = (dj_deadline d < dj_deadline e \<or> dj_deadline d = dj_deadline e \<and> dj_priority e \<le> dj_priority d)"

definition heap_top :: "nat \<Rightarrow> DeadlineJob list \<Rightarrow> DeadlineJob" where
  "heap_top k h = (let tops = filter (\<lambda>d. list_all (entry_ge d) h) h in tops ! (k mod length tops))"

definition deadline_push :: "DeadlineJob \<Rightarrow> Scheduler \<Rightarrow> Scheduler" where
  "deadline_push d s = s\<lparr>sch_queue := d # sch_queue s\<rparr>"

definition deadline_metrics :: "Scheduler \<Rightarrow> u64 \<times> u64 \<times> u64" where
  "deadline_metrics s = (miss_count s, completed_count s, dropped_count s)"

definition miss_rate :: "Scheduler \<Rightarrow> f64" where
  "miss_rate s =
    (let (misses, completed, dropped) = deadline_metrics s; total = misses + completed + dropped
     in if total = 0 then FFin 0 else f64_div (f64_of_u64 misses) (f64_of_u64 total))"

section \<open>Emptying the heap\<close>

definition missed_event :: "nat \<Rightarrow> DeadlineJob \<Rightarrow> DeadlineEvent" where
  "missed_event now d =
     Missed (job_id (dj_job d)) (of_nat (min ((now - dj_deadline d) div 1000000) (2 ^ 64 - 1))) (dj_priority d)"

definition emit_missed :: "nat \<Rightarrow> DeadlineJob \<Rightarrow> Scheduler \<Rightarrow> Scheduler" where
  "emit_missed now d s = s\<lparr>miss_count := miss_count s + 1, sch_events := sch_events s @ [missed_event now d]\<rparr>"

lemma entry_ge_total: "entry_ge d e \<or> entry_ge e d"
  by (auto simp: entry_ge_def)

lemma entry_ge_trans: "entry_ge d e \<Longrightarrow> entry_ge e f \<Longrightarrow> entry_ge d f"
  by (auto simp: entry_ge_def)

lemma heap_has_top: "h \<noteq> [] \<Longrightarrow> \<exists>d \<in> set h. list_all (entry_ge d) h"
proof (induction h rule: list_nonempty_induct)
  case (single d)
  then show ?case using entry_ge_total [of d d] by simp
next
  case (cons e h)
  then obtain d where "d \<in> set h" "list_all (entry_ge d) h" by blast
  then show ?case using entry_ge_total [of d e] entry_ge_total [of e e] entry_ge_trans [of e d]
    by (auto simp: list_all_iff)
qed

lemma heap_top_mem:
  assumes "h \<noteq> []"
  shows "heap_top k h \<in> set h \<and> list_all (entry_ge (heap_top k h)) h"
proof -
  let ?tops = "filter (\<lambda>d. list_all (entry_ge d) h) h"
  have "?tops \<noteq> []" using heap_has_top [OF assms] by (auto simp: filter_empty_conv)
  then have "heap_top k h \<in> set ?tops" unfolding heap_top_def Let_def by (intro nth_mem) simp
  then show ?thesis by simp
qed

text \<open>
  The loop under the lock. Every entry is popped; \<open>k\<close> makes the heap's choices.
\<close>

function drain_queue :: "(nat \<Rightarrow> nat) \<Rightarrow> nat \<Rightarrow> Scheduler \<Rightarrow> DeadlineJob list \<times> Scheduler" where
  "drain_queue k now s =
    (if sch_queue s = [] then ([], s)
     else let d = heap_top (k (length (sch_queue s))) (sch_queue s);
              s = s\<lparr>sch_queue := remove1 d (sch_queue s)\<rparr>
          in if dj_deadline d \<le> now then drain_queue k now (emit_missed now d s)
             else case drain_queue k now s of (to_run, s) \<Rightarrow> (d # to_run, s))"
  by pat_completeness auto

termination
  by (relation "measure (\<lambda>(k, now, s). length (sch_queue s))")
    (auto simp: emit_missed_def length_remove1 heap_top_mem split: if_splits intro!: diff_less)

declare drain_queue.simps [simp del]

section \<open>Submitting\<close>

definition slack_ms :: "nat \<Rightarrow> DeadlineJob \<Rightarrow> int" where
  "slack_ms now d =
    (if now \<le> dj_deadline d then int ((dj_deadline d - now) div 1000000)
     else - int ((now - dj_deadline d) div 1000000))"

text \<open>The two arms of the match on the router's answer; \<open>slack\<close> is the slack at dispatch.\<close>

definition settle :: "nat \<Rightarrow> DeadlineJob \<Rightarrow> int \<Rightarrow> Output list option \<Rightarrow> Scheduler \<Rightarrow> Scheduler" where
  "settle after d slack outs s =
    (case outs of
       Some outputs \<Rightarrow> s\<lparr>completed_count := completed_count s + 1,
         sch_events := sch_events s @ [Completed (job_id (dj_job d)) outputs (slack_ms after d)]\<rparr>
     | None \<Rightarrow> s\<lparr>dropped_count := dropped_count s + 1,
         sch_events := sch_events s @ [Dropped (job_id (dj_job d)) slack]\<rparr>)"

text \<open>
  Where a call of \<open>drain_ready\<close> is: before the next job, waiting for the router's answer to a
  ticket or for the task it spawned, or returned. The number counts the jobs dispatched.
\<close>

datatype drain =
    Draining "DeadlineJob list" nat
  | Waiting nat DeadlineJob int "DeadlineJob list" nat
  | Waiting_task SpawnWait DeadlineJob int "DeadlineJob list" nat
  | Drained nat

definition dispatch :: "submit_env \<Rightarrow> nat \<Rightarrow> nat \<Rightarrow> DeadlineJob \<Rightarrow> DeadlineJob list \<Rightarrow> nat \<Rightarrow> Scheduler \<Rightarrow> drain \<times> Scheduler" where
  "dispatch env now_dispatch after d ds n s =
    (let slack = slack_ms now_dispatch d
     in case submit env (dj_job d) (sch_router s) of
          (Returned outs, r) \<Rightarrow> (Draining ds (n + 1), settle after d slack outs (s\<lparr>sch_router := r\<rparr>))
        | (Awaiting t, r) \<Rightarrow> (Waiting t d slack ds n, s\<lparr>sch_router := r\<rparr>)
        | (AwaitingTask sw, r) \<Rightarrow> (Waiting_task sw d slack ds n, s\<lparr>sch_router := r\<rparr>))"

inductive drain_move :: "drain \<times> Scheduler \<Rightarrow> drain \<times> Scheduler \<Rightarrow> bool" where
  Dispatch: "drain_move (Draining (d # ds) n, s) (dispatch env now_dispatch after d ds n s)"
| Answer: "router_step (sch_router s) (Delivered w outs) r \<Longrightarrow> w_ticket w = t \<Longrightarrow>
    drain_move (Waiting t d slack ds n, s) (Draining ds (n + 1), settle after d slack (Some outs) (s\<lparr>sch_router := r\<rparr>))"
| Refusal: "router_step (sch_router s) (Failed w) r \<Longrightarrow> w_ticket w = t \<Longrightarrow>
    drain_move (Waiting t d slack ds n, s) (Draining ds (n + 1), settle after d slack None (s\<lparr>sch_router := r\<rparr>))"
| Task_end: "sw \<in> set (spawn_waits (tasks (sch_router s))) \<Longrightarrow>
    resume_spawned panicked ms sw (sch_router s) = (outs, r) \<Longrightarrow>
    drain_move (Waiting_task sw d slack ds n, s) (Draining ds (n + 1), settle after d slack outs (s\<lparr>sch_router := r\<rparr>))"
| Return: "drain_move (Draining [] n, s) (Drained n, s)"
| Router: "router_step (sch_router s) e r \<Longrightarrow> drain_move (pc, s) (pc, s\<lparr>sch_router := r\<rparr>)"
| Push: "drain_move (pc, s) (pc, deadline_push d s)"

inductive_cases drain_moveE: "drain_move ps qs"

text \<open>A call of \<open>drain_ready\<close>, from the clock reading at its start.\<close>

definition drain_ready :: "(nat \<Rightarrow> nat) \<Rightarrow> nat \<Rightarrow> Scheduler \<Rightarrow> drain \<times> Scheduler" where
  "drain_ready k now s = (case drain_queue k now s of (to_run, s) \<Rightarrow> (Draining to_run 0, s))"

section \<open>Lemmas\<close>

lemma drain_queue_effect:
  assumes "drain_queue k now s = (js, s')"
  shows "sch_queue s' = [] \<and> sch_router s' = sch_router s
    \<and> completed_count s' = completed_count s \<and> dropped_count s' = dropped_count s
    \<and> miss_count s' = miss_count s + of_nat (length (filter (\<lambda>d. dj_deadline d \<le> now) (sch_queue s)))
    \<and> (\<exists>ms. sch_events s' = sch_events s @ map (missed_event now) ms
         \<and> mset ms = filter_mset (\<lambda>d. dj_deadline d \<le> now) (mset (sch_queue s)))
    \<and> mset js = filter_mset (\<lambda>d. now < dj_deadline d) (mset (sch_queue s))"
  using assms
proof (induction k now s arbitrary: js s' rule: drain_queue.induct)
  case (1 k now s)
  show ?case
  proof (cases "sch_queue s = []")
    case True
    then show ?thesis using "1.prems" by (subst (asm) drain_queue.simps) simp
  next
    case False
    let ?h = "sch_queue s"
    define d where "d = heap_top (k (length ?h)) ?h"
    define R where "R = remove1 d ?h"
    let ?s = "s\<lparr>sch_queue := R\<rparr>"
    have s_eq: "?s = s\<lparr>sch_queue := remove1 d ?h\<rparr>" by (simp add: R_def)
    have "d \<in> set ?h" using heap_top_mem [OF False] by (simp add: d_def)
    then have h: "mset ?h = add_mset d (mset R)" by (simp add: R_def)
    have len: "length (filter P ?h) = (if P d then 1 else 0) + length (filter P R)" for P
    proof -
      have "size (filter_mset P (mset ?h)) = (if P d then 1 else 0) + size (filter_mset P (mset R))"
        by (subst h) simp
      then show ?thesis unfolding mset_filter [symmetric] size_mset .
    qed
    show ?thesis
    proof (cases "dj_deadline d \<le> now")
      case True
      then have r: "drain_queue k now (emit_missed now d ?s) = (js, s')"
        using "1.prems" False by (subst (asm) drain_queue.simps) (simp add: d_def R_def Let_def)
      note ih = "1.IH"(1) [OF False d_def s_eq True r]
      obtain ms where ms: "sch_events s' = sch_events (emit_missed now d ?s) @ map (missed_event now) ms"
        "mset ms = filter_mset (\<lambda>d. dj_deadline d \<le> now) (mset (sch_queue (emit_missed now d ?s)))" using ih by blast
      then have "sch_events s' = sch_events s @ map (missed_event now) (d # ms)
        \<and> mset (d # ms) = filter_mset (\<lambda>d. dj_deadline d \<le> now) (mset ?h)" using True h by (simp add: emit_missed_def)
      moreover have "sch_queue s' = []" "sch_router s' = sch_router s" "completed_count s' = completed_count s"
        "dropped_count s' = dropped_count s"
        "miss_count s' = miss_count s + of_nat (length (filter (\<lambda>d. dj_deadline d \<le> now) ?h))"
        "mset js = filter_mset (\<lambda>d. now < dj_deadline d) (mset ?h)"
        using ih True h len [of "\<lambda>d. dj_deadline d \<le> now"] by (auto simp: emit_missed_def)
      ultimately show ?thesis by blast
    next
      case late: False
      obtain js' s2 where r: "drain_queue k now ?s = (js', s2)" by fastforce
      have eq: "js = d # js'" "s' = s2" using "1.prems" False late r by (subst (asm) drain_queue.simps, simp add: d_def R_def Let_def)+
      note ih = "1.IH"(2) [OF False d_def s_eq late r]
      show ?thesis using ih late h len [of "\<lambda>d. dj_deadline d \<le> now"] by (auto simp: eq)
    qed
  qed
qed

lemma drain_queue_ordered:
  assumes "drain_queue k now s = (js, s')"
  shows "sorted_wrt entry_ge js"
  using assms
proof (induction k now s arbitrary: js s' rule: drain_queue.induct)
  case (1 k now s)
  show ?case
  proof (cases "sch_queue s = []")
    case True
    then show ?thesis using "1.prems" by (subst (asm) drain_queue.simps) simp
  next
    case False
    let ?h = "sch_queue s"
    define d where "d = heap_top (k (length ?h)) ?h"
    define R where "R = remove1 d ?h"
    let ?s = "s\<lparr>sch_queue := R\<rparr>"
    have s_eq: "?s = s\<lparr>sch_queue := remove1 d ?h\<rparr>" by (simp add: R_def)
    show ?thesis
    proof (cases "dj_deadline d \<le> now")
      case True
      then have "drain_queue k now (emit_missed now d ?s) = (js, s')"
        using "1.prems" False by (subst (asm) drain_queue.simps) (simp add: d_def R_def Let_def)
      then show ?thesis by (rule "1.IH"(1) [OF False d_def s_eq True])
    next
      case late: False
      obtain js' s2 where r: "drain_queue k now ?s = (js', s2)" by fastforce
      have eq: "js = d # js'" using "1.prems" False late r by (subst (asm) drain_queue.simps) (simp add: d_def R_def Let_def)
      have "set js' \<subseteq> set ?h"
      proof -
        have "set_mset (mset js') \<subseteq> set_mset (mset R)" using drain_queue_effect [OF r] by simp
        then have "set js' \<subseteq> set R" by (simp only: set_mset_mset)
        also have "\<dots> \<subseteq> set ?h" unfolding R_def by (rule set_remove1_subset)
        finally show ?thesis .
      qed
      then show ?thesis using heap_top_mem [OF False] "1.IH"(2) [OF False d_def s_eq late r]
        by (auto simp: eq d_def list_all_iff)
    qed
  qed
qed

fun todo :: "drain \<Rightarrow> DeadlineJob list" where
  "todo (Draining ds n) = ds"
| "todo (Waiting t d slack ds n) = d # ds"
| "todo (Waiting_task sw d slack ds n) = d # ds"
| "todo (Drained n) = []"

fun dispatched :: "drain \<Rightarrow> nat" where
  "dispatched (Draining ds n) = n"
| "dispatched (Waiting t d slack ds n) = n"
| "dispatched (Waiting_task sw d slack ds n) = n"
| "dispatched (Drained n) = n"

text \<open>What no move of a drain changes: the jobs reported and still to report, and the counts.\<close>

definition account :: "drain \<times> Scheduler \<Rightarrow> u64 list \<times> nat \<times> u64 \<times> u64" where
  "account ps = (case ps of (pc, s) \<Rightarrow>
     (map event_job (sch_events s) @ map (job_id \<circ> dj_job) (todo pc), dispatched pc + length (todo pc),
      completed_count s + dropped_count s - of_nat (dispatched pc), miss_count s))"

lemma settle_account:
  "account (Draining ds (n + 1), settle after d slack outs (s\<lparr>sch_router := r\<rparr>)) = account (Draining (d # ds) n, s)"
  by (cases outs) (simp_all add: account_def settle_def)

lemma waiting_account:
  "account (pc, s\<lparr>sch_router := r\<rparr>) = account (pc, s)"
  "account (Waiting t d slack ds n, s) = account (Draining (d # ds) n, s)"
  "account (Waiting_task sw d slack ds n, s) = account (Draining (d # ds) n, s)"
  by (simp_all add: account_def)

lemma drain_move_account: "drain_move ps qs \<Longrightarrow> account qs = account ps"
proof (induction rule: drain_move.induct)
  case (Dispatch d ds n s env now_dispatch after)
  obtain x r where x: "submit env (dj_job d) (sch_router s) = (x, r)" by fastforce
  show ?case by (cases x) (simp_all only: dispatch_def x Let_def prod.case submit_result.case settle_account waiting_account)
next
  case (Return n s)
  then show ?case by (simp add: account_def)
next
  case (Router s e r pc)
  then show ?case by (simp add: account_def)
next
  case (Push pc s d)
  then show ?case by (simp add: account_def deadline_push_def)
qed (simp_all only: waiting_account settle_account)

lemma drain_moves_account: "drain_move\<^sup>*\<^sup>* ps qs \<Longrightarrow> account qs = account ps"
  by (induction rule: rtranclp_induct) (simp_all add: drain_move_account)

section \<open>Properties\<close>

text \<open>
  Emptying the heap splits it by the clock: exactly the jobs whose deadline has passed are reported
  missed, the router is not touched, and exactly the others are left to submit, nearest deadline
  first and by priority among equal deadlines.
\<close>

theorem drain_splits_by_deadline:
  "case drain_queue k now s of (js, s') \<Rightarrow>
     sch_queue s' = [] \<and> sch_router s' = sch_router s \<and> sorted_wrt entry_ge js
     \<and> mset js = filter_mset (\<lambda>d. now < dj_deadline d) (mset (sch_queue s))
     \<and> mset (drop (length (sch_events s)) (sch_events s'))
         = image_mset (missed_event now) (filter_mset (\<lambda>d. dj_deadline d \<le> now) (mset (sch_queue s)))"
proof -
  obtain js s' where r: "drain_queue k now s = (js, s')" by fastforce
  note e = drain_queue_effect [OF r]
  obtain ms where ms: "sch_events s' = sch_events s @ map (missed_event now) ms"
    "mset ms = filter_mset (\<lambda>d. dj_deadline d \<le> now) (mset (sch_queue s))" using e by blast
  have "mset (drop (length (sch_events s)) (sch_events s')) = image_mset (missed_event now) (mset ms)" by (simp add: ms(1))
  then show ?thesis using e drain_queue_ordered [OF r] by (simp add: r ms(2))
qed

text \<open>
  C17. However the router's tasks and other callers interleave, a drain that returns has reported every
  job it had to submit exactly once, in the order of their deadlines, as completed or dropped, and
  the counters and the returned number say so.
\<close>

theorem drain_reports_each_job_once:
  assumes "drain_move\<^sup>*\<^sup>* (drain_ready k now s) (Drained n, s')"
  shows "n = length (filter (\<lambda>d. now < dj_deadline d) (sch_queue s))
    \<and> mset (map event_job (drop (length (sch_events s)) (sch_events s'))) = mset (map (job_id \<circ> dj_job) (sch_queue s))
    \<and> completed_count s' + dropped_count s' = completed_count s + dropped_count s + of_nat n
    \<and> miss_count s' = miss_count s + of_nat (length (sch_queue s) - n)"
proof -
  let ?late = "\<lambda>d. dj_deadline d \<le> now" and ?id = "job_id \<circ> dj_job"
  obtain js s1 where r: "drain_queue k now s = (js, s1)" by fastforce
  note e = drain_queue_effect [OF r]
  obtain ms where ms: "sch_events s1 = sch_events s @ map (missed_event now) ms"
    "mset ms = filter_mset ?late (mset (sch_queue s))" using e by blast
  have a: "account (Drained n, s') = account (Draining js 0, s1)"
    using drain_moves_account [OF assms] by (simp add: drain_ready_def r)
  then have ev: "map event_job (sch_events s') = map event_job (sch_events s) @ map ?id ms @ map ?id js"
    and n: "n = length js" and c: "completed_count s' + dropped_count s' - of_nat n = completed_count s1 + dropped_count s1"
    and m: "miss_count s' = miss_count s1"
    by (auto simp: account_def ms(1) missed_event_def comp_def)
  have split: "mset (sch_queue s) = mset ms + mset js"
    using e ms(2) multiset_partition [of "mset (sch_queue s)" ?late] by (simp add: not_le)
  have "map event_job (drop (length (sch_events s)) (sch_events s')) = map ?id ms @ map ?id js"
    using ev by (simp flip: drop_map)
  then have "mset (map event_job (drop (length (sch_events s)) (sch_events s'))) = mset (map ?id (sch_queue s))"
    using split by simp
  moreover have "length (filter ?late (sch_queue s)) = length ms" using ms(2) by (metis mset_filter size_mset)
  moreover have "length (sch_queue s) = length ms + length js" using split by (metis size_mset size_union)
  moreover have "length (filter (\<lambda>d. now < dj_deadline d) (sch_queue s)) = length js" using e by (metis mset_filter size_mset)
  ultimately show ?thesis using n c m e by (simp add: algebra_simps)
qed

definition free_job :: "u64 \<Rightarrow> Job" where
  "free_job i = Job_default\<lparr>job_id := i, compute_cost := 0\<rparr>"

lemma job_id_free: "job_id (free_job i) = i"
  by (simp add: free_job_def)

definition sooner :: DeadlineJob where
  "sooner = \<lparr>dj_job = free_job 1, dj_deadline = 10000000, dj_priority = 0\<rparr>"

definition later :: DeadlineJob where
  "later = \<lparr>dj_job = free_job 2, dj_deadline = 20000000, dj_priority = 0\<rparr>"

theorem drain_reports_each_job_once_witness:
  "miss_count (snd (drain_ready id 15000000 (scheduler_new (router_new RouterConfig_default)\<lparr>sch_queue := [sooner]\<rparr>))) = 1"
proof -
  let ?s = "scheduler_new (router_new RouterConfig_default)\<lparr>sch_queue := [sooner]\<rparr>"
  obtain s1 where d: "drain_ready id 15000000 ?s = (Draining [] 0, s1)"
    by (simp add: drain_ready_def drain_queue.simps heap_top_def entry_ge_def emit_missed_def sooner_def)
  have "drain_move\<^sup>*\<^sup>* (drain_ready id 15000000 ?s) (Drained 0, s1)" unfolding d by (intro r_into_rtranclp drain_move.Return)
  from drain_reports_each_job_once [OF this] have "miss_count s1 = 1" by (simp add: scheduler_new_def sooner_def)
  then show ?thesis by (simp only: d snd_conv)
qed

text \<open>
  The clock is read once, before the first submission: a job that becomes late while the drain
  waits for the jobs before it is still submitted, and counted as completed with a negative slack.
\<close>

theorem late_job_is_submitted:
  "drain_move (Draining [later] 1, scheduler_new r)
     (Draining [] 2, scheduler_new (snd (submit env (free_job 2) r))
        \<lparr>completed_count := 1, sch_events := [Completed 2 (execute_job (free_job 2)) (- 980)]\<rparr>)"
proof -
  obtain r' where r': "submit env (free_job 2) r = (Returned (Some (execute_job (free_job 2))), r')"
    by (simp add: submit_def free_job_def Job_default_def Let_def)
  then have "dispatch env 1000000000 1000000000 later [] 1 (scheduler_new r) =
     (Draining [] 2, scheduler_new (snd (submit env (free_job 2) r))
        \<lparr>completed_count := 1, sch_events := [Completed 2 (execute_job (free_job 2)) (- 980)]\<rparr>)"
    by (simp add: dispatch_def later_def scheduler_new_def settle_def slack_ms_def job_id_free)
  then show ?thesis by (metis drain_move.Dispatch)
qed

end
