(* ===== verification/Gates.thy ===== *)
theory Gates
  imports RouterSteps TokenBucket
begin

text \<open>
  Two gates in front of the router: admission control (\<open>src/admission.rs\<close>), which sheds by
  priority above a load ceiling and throttles each caller with a token bucket, and cost-based
  routing (\<open>src/cost_router.rs\<close>), which estimates the cost of a job, charges it to two budgets
  and refuses expensive jobs when a budget is nearly spent. A gate passes the router's result on
  as it is, so a submission that waits in the router waits in the gate. Instants are nanoseconds.
\<close>

section \<open>Admission control\<close>

datatype Priority = Low | Normal | High

fun Priority_to_string :: "Priority \<Rightarrow> string" where
  "Priority_to_string Low = ''low''"
| "Priority_to_string Normal = ''normal''"
| "Priority_to_string High = ''high''"

record AdmissionConfig =
  soft_ceiling :: f64
  hard_ceiling :: f64
  bucket_capacity :: f64
  refill_rate :: f64
  bucket_ttl_secs :: u64

definition AdmissionConfig_default :: AdmissionConfig where
  "AdmissionConfig_default = \<lparr>soft_ceiling = rnd64 (80 / 100), hard_ceiling = rnd64 (95 / 100),
     bucket_capacity = FFin 20, refill_rate = FFin 10, bucket_ttl_secs = 300\<rparr>"

text \<open>
  The delay of \<open>Overloaded\<close> is the number of milliseconds passed to \<open>Duration::from_millis\<close>, that of
  \<open>CallerThrottled\<close> the number of seconds passed to \<open>Duration::from_secs_f64\<close>.
\<close>

datatype AdmissionError =
    Overloaded f64 f64 u64
  | CallerThrottled string f64

record CallerBucket =
  cb_tokens :: f64
  cb_last_refill :: nat
  cb_last_used :: nat

definition caller_bucket_new :: "nat \<Rightarrow> f64 \<Rightarrow> CallerBucket" where
  "caller_bucket_new now cap = \<lparr>cb_tokens = cap, cb_last_refill = now, cb_last_used = now\<rparr>"

definition caller_refill :: "nat \<Rightarrow> f64 \<Rightarrow> f64 \<Rightarrow> CallerBucket \<Rightarrow> CallerBucket" where
  "caller_refill now cap rate b =
     b\<lparr>cb_tokens := f64_min (f64_add (cb_tokens b) (f64_mul (as_secs_f64 (now - cb_last_refill b)) rate)) cap,
       cb_last_refill := now\<rparr>"

definition try_consume :: "nat \<Rightarrow> f64 \<Rightarrow> f64 \<Rightarrow> CallerBucket \<Rightarrow> bool \<times> CallerBucket" where
  "try_consume now cap rate b =
    (let b = caller_refill now cap rate b
     in if fp_le (FFin 1) (cb_tokens b)
        then (True, b\<lparr>cb_tokens := f64_sub (cb_tokens b) (FFin 1), cb_last_used := now\<rparr>)
        else (False, b))"

definition secs_until_token :: "f64 \<Rightarrow> CallerBucket \<Rightarrow> f64" where
  "secs_until_token rate b =
    (if fp_le (FFin 1) (cb_tokens b) then FFin 0
     else f64_div (f64_sub (FFin 1) (cb_tokens b)) (f64_max rate (rnd64 (1 / 10 ^ 9))))"

definition is_idle_for :: "nat \<Rightarrow> nat \<Rightarrow> CallerBucket \<Rightarrow> bool" where
  "is_idle_for now t b = (t < now - cb_last_used b)"

record AdmissionGate =
  ag_config :: AdmissionConfig
  ag_buckets :: "(string, CallerBucket) hashmap"
  ag_admitted :: u64
  rejected_overload :: u64
  rejected_throttle :: u64
  ag_router :: Inner

definition admission_new :: "Inner \<Rightarrow> AdmissionConfig \<Rightarrow> AdmissionGate" where
  "admission_new r c = \<lparr>ag_config = c, ag_buckets = [], ag_admitted = 0, rejected_overload = 0,
     rejected_throttle = 0, ag_router = r\<rparr>"

definition current_load :: "AdmissionGate \<Rightarrow> f64" where
  "current_load g = rs_pressure_score (stats_snapshot (ag_router g))"

definition ceiling :: "AdmissionConfig \<Rightarrow> Priority \<Rightarrow> f64 option" where
  "ceiling c p = (case p of High \<Rightarrow> None | Normal \<Rightarrow> Some (hard_ceiling c) | Low \<Rightarrow> Some (soft_ceiling c))"

definition overload_delay :: "f64 \<Rightarrow> f64 \<Rightarrow> u64" where
  "overload_delay load ceil = max (f64_to_u64 (f64_mul (f64_sub load ceil) (FFin 2000))) 50"

text \<open>The bucket check; the clock is read once for a new bucket and once to refill.\<close>

definition check_caller :: "nat \<Rightarrow> nat \<Rightarrow> string \<Rightarrow> AdmissionGate \<Rightarrow> AdmissionError option \<times> AdmissionGate" where
  "check_caller now_new now caller g =
    (let c = ag_config g;
         b = (case hm_get (ag_buckets g) caller of Some b \<Rightarrow> b | None \<Rightarrow> caller_bucket_new now_new (bucket_capacity c));
         (ok, b) = try_consume now (bucket_capacity c) (refill_rate c) b;
         g = g\<lparr>ag_buckets := hm_insert caller b (ag_buckets g)\<rparr>
     in if ok then (None, g)
        else (Some (CallerThrottled caller (f64_max (secs_until_token (refill_rate c) b) (rnd64 (5 / 100)))),
              g\<lparr>rejected_throttle := rejected_throttle g + 1\<rparr>))"

definition admit_caller ::
  "submit_env \<Rightarrow> nat \<Rightarrow> nat \<Rightarrow> string \<Rightarrow> Job \<Rightarrow> AdmissionGate \<Rightarrow> (AdmissionError + submit_result) \<times> AdmissionGate" where
  "admit_caller env now_new now caller job g =
    (case check_caller now_new now caller g of
       (Some e, g) \<Rightarrow> (Inl e, g)
     | (None, g) \<Rightarrow> case submit env job (ag_router g) of
         (x, r) \<Rightarrow> (Inr x, g\<lparr>ag_admitted := ag_admitted g + 1, ag_router := r\<rparr>))"

definition admission_submit ::
  "submit_env \<Rightarrow> nat \<Rightarrow> nat \<Rightarrow> Priority \<Rightarrow> string \<Rightarrow> Job \<Rightarrow> AdmissionGate \<Rightarrow> (AdmissionError + submit_result) \<times> AdmissionGate" where
  "admission_submit env now_new now p caller job g =
    (let load = current_load g
     in case ceiling (ag_config g) p of
          Some ceil \<Rightarrow>
            if fp_lt ceil load then
              (Inl (Overloaded load ceil (overload_delay load ceil)), g\<lparr>rejected_overload := rejected_overload g + 1\<rparr>)
            else admit_caller env now_new now caller job g
        | None \<Rightarrow> admit_caller env now_new now caller job g)"

definition evict_idle_buckets :: "nat \<Rightarrow> AdmissionGate \<Rightarrow> AdmissionGate" where
  "evict_idle_buckets now g =
     g\<lparr>ag_buckets := filter (\<lambda>(_, b). \<not> is_idle_for now (unat (bucket_ttl_secs (ag_config g)) * 10 ^ 9) b) (ag_buckets g)\<rparr>"

definition admission_stats :: "AdmissionGate \<Rightarrow> u64 \<times> u64 \<times> u64" where
  "admission_stats g = (ag_admitted g, rejected_overload g, rejected_throttle g)"

section \<open>Cost-based routing\<close>

definition kind_weight :: "JobKind \<Rightarrow> f64" where
  "kind_weight k = (case k of HashMix \<Rightarrow> rnd64 (30 / 100) | PrimeCount \<Rightarrow> rnd64 (65 / 100) | MonteCarloRisk \<Rightarrow> FFin 1)"

definition CHEAP_JOB_THRESHOLD :: f64 where "CHEAP_JOB_THRESHOLD = rnd64 (5 / 100)"
definition EXPENSIVE_JOB_THRESHOLD :: f64 where "EXPENSIVE_JOB_THRESHOLD = rnd64 (40 / 100)"
definition BUDGET_PRESSURE_SOFT :: f64 where "BUDGET_PRESSURE_SOFT = rnd64 (70 / 100)"
definition BUDGET_PRESSURE_HARD :: f64 where "BUDGET_PRESSURE_HARD = rnd64 (90 / 100)"

record CostBudget =
  per_minute_limit :: f64
  per_hour_limit :: f64
  current_minute :: f64
  current_hour :: f64

definition CostBudget_default :: CostBudget where
  "CostBudget_default = \<lparr>per_minute_limit = FFin 500, per_hour_limit = FFin 20000, current_minute = FFin 0, current_hour = FFin 0\<rparr>"

definition spent_fraction :: "f64 \<Rightarrow> f64 \<Rightarrow> f64" where
  "spent_fraction current limit =
    (if fp_le limit (FFin 0) then FFin 1 else f64_clamp (f64_div current limit) (FFin 0) (FFin 1))"

definition minute_fraction :: "CostBudget \<Rightarrow> f64" where
  "minute_fraction b = spent_fraction (current_minute b) (per_minute_limit b)"

definition hour_fraction :: "CostBudget \<Rightarrow> f64" where
  "hour_fraction b = spent_fraction (current_hour b) (per_hour_limit b)"

definition budget_pressure :: "CostBudget \<Rightarrow> f64" where
  "budget_pressure b = f64_max (minute_fraction b) (hour_fraction b)"

definition charge :: "f64 \<Rightarrow> CostBudget \<Rightarrow> CostBudget" where
  "charge cost b = b\<lparr>current_minute := f64_add (current_minute b) cost, current_hour := f64_add (current_hour b) cost\<rparr>"

definition tick_minute :: "CostBudget \<Rightarrow> CostBudget" where
  "tick_minute b = b\<lparr>current_minute := FFin 0\<rparr>"

definition tick_hour :: "CostBudget \<Rightarrow> CostBudget" where
  "tick_hour b = b\<lparr>current_hour := FFin 0\<rparr>"

record CostRouterConfig =
  alpha :: f64
  allow_cost_drop_override :: bool

definition CostRouterConfig_default :: CostRouterConfig where
  "CostRouterConfig_default = \<lparr>alpha = rnd64 (6 / 10), allow_cost_drop_override = True\<rparr>"

definition estimate :: "Job \<Rightarrow> f64" where
  "estimate job =
     f64_mul (kind_weight (kind job))
       (f64_clamp (f64_div (f64_of_u64 (compute_cost job)) (FFin 1000000)) (FFin 0) (FFin 2))"

definition cost_recommend :: "f64 \<Rightarrow> f64 \<Rightarrow> bool \<Rightarrow> Strategy" where
  "cost_recommend cost bp allow_drop =
    (if fp_le cost CHEAP_JOB_THRESHOLD then Inline
     else let is_expensive = fp_le EXPENSIVE_JOB_THRESHOLD cost
          in if fp_le BUDGET_PRESSURE_HARD bp then
               if is_expensive \<and> allow_drop then Drop else Batch
             else if fp_le BUDGET_PRESSURE_SOFT bp \<and> is_expensive then Batch
             else Spawn)"

definition cost_scores :: "f64 \<Rightarrow> f64 \<Rightarrow> f64 list" where
  "cost_scores cost bp =
    (let cheapness = f64_clamp (f64_sub (FFin 1) cost) (FFin 0) (FFin 1);
         p = f64_clamp bp (FFin 0) (FFin 1)
     in [f64_mul cheapness (f64_sub (FFin 1) p),
         f64_mul (f64_add (f64_mul cheapness (rnd64 (7 / 10))) (rnd64 (3 / 10))) (f64_sub (FFin 1) (f64_mul p (FFin (1 / 2)))),
         f64_mul (FFin (1 / 2)) (f64_sub (FFin 1) (f64_mul p (rnd64 (3 / 10)))),
         f64_add (rnd64 (3 / 10)) (f64_mul p (rnd64 (6 / 10))),
         f64_mul p cost])"

record CostRouter =
  cr_budget :: CostBudget
  cr_config :: CostRouterConfig
  cost_inline_count :: u64
  cost_batch_count :: u64
  cost_drop_count :: u64
  total_submitted :: u64
  cr_router :: Inner

definition cost_router_new :: "Inner \<Rightarrow> CostBudget \<Rightarrow> CostRouterConfig \<Rightarrow> CostRouter" where
  "cost_router_new r b c = \<lparr>cr_budget = b, cr_config = c, cost_inline_count = 0, cost_batch_count = 0,
     cost_drop_count = 0, total_submitted = 0, cr_router = r\<rparr>"

record CostBudgetError =
  be_job_id :: u64
  be_cost :: f64
  be_pressure :: f64

text \<open>Three of the four arms charge the budget and forward the job; they differ in the counter.\<close>

definition charge_and_forward :: "submit_env \<Rightarrow> Job \<Rightarrow> CostRouter \<Rightarrow> (CostBudgetError + submit_result) \<times> CostRouter" where
  "charge_and_forward env job c =
    (let c = c\<lparr>cr_budget := charge (estimate job) (cr_budget c)\<rparr>
     in case submit env job (cr_router c) of (x, r) \<Rightarrow> (Inr x, c\<lparr>cr_router := r\<rparr>))"

definition cost_submit :: "submit_env \<Rightarrow> Job \<Rightarrow> CostRouter \<Rightarrow> (CostBudgetError + submit_result) \<times> CostRouter" where
  "cost_submit env job c =
    (let c = c\<lparr>total_submitted := total_submitted c + 1\<rparr>;
         cost = estimate job;
         bp = budget_pressure (cr_budget c)
     in case cost_recommend cost bp (allow_cost_drop_override (cr_config c)) of
          Drop \<Rightarrow> (Inl \<lparr>be_job_id = job_id job, be_cost = cost, be_pressure = bp\<rparr>,
                   c\<lparr>cost_drop_count := cost_drop_count c + 1\<rparr>)
        | Inline \<Rightarrow> charge_and_forward env job (c\<lparr>cost_inline_count := cost_inline_count c + 1\<rparr>)
        | Batch \<Rightarrow> charge_and_forward env job (c\<lparr>cost_batch_count := cost_batch_count c + 1\<rparr>)
        | _ \<Rightarrow> charge_and_forward env job c)"

text \<open>One minute of the background loop; the number counts the minutes since it started.\<close>

definition decay_tick :: "u64 \<times> CostBudget \<Rightarrow> u64 \<times> CostBudget" where
  "decay_tick nb =
    (case nb of (minute_ticks, b) \<Rightarrow>
       let b = tick_minute b; minute_ticks = minute_ticks + 1
       in (minute_ticks, if minute_ticks mod 60 = 0 then tick_hour b else b))"

section \<open>The callers' buckets\<close>

text \<open>A series of calls: the environment and clock readings of each, its priority, caller and job.\<close>

type_synonym admission_call = "submit_env \<times> nat \<times> nat \<times> Priority \<times> string \<times> Job"

definition call_caller :: "admission_call \<Rightarrow> string" where
  "call_caller c = (case c of (env, now_new, now, p, caller, job) \<Rightarrow> caller)"

definition admission_call :: "admission_call \<Rightarrow> AdmissionGate \<Rightarrow> (AdmissionError + submit_result) \<times> AdmissionGate" where
  "admission_call c g = (case c of (env, now_new, now, p, caller, job) \<Rightarrow> admission_submit env now_new now p caller job g)"

fun admission_run :: "admission_call list \<Rightarrow> AdmissionGate \<Rightarrow> (AdmissionError + submit_result) list \<times> AdmissionGate" where
  "admission_run [] g = ([], g)"
| "admission_run (c # cs) g =
    (case admission_call c g of (x, g) \<Rightarrow> case admission_run cs g of (xs, g) \<Rightarrow> (x # xs, g))"

lemma admission_run_state: "snd (admission_run cs g) = fold (\<lambda>c g. snd (admission_call c g)) cs g"
proof (induction cs arbitrary: g)
  case (Cons c cs)
  obtain x g1 where "admission_call c g = (x, g1)" by fastforce
  then show ?case using Cons [of g1] by (simp add: case_prod_unfold)
qed simp

lemma check_caller_frame:
  "ag_config (snd (check_caller n1 n2 caller g)) = ag_config g" "ag_router (snd (check_caller n1 n2 caller g)) = ag_router g"
  "ag_admitted (snd (check_caller n1 n2 caller g)) = ag_admitted g"
  "rejected_overload (snd (check_caller n1 n2 caller g)) = rejected_overload g"
  by (auto simp: check_caller_def Let_def split: prod.split)

lemma check_caller_other: "k \<noteq> caller \<Longrightarrow> hm_get (ag_buckets (snd (check_caller n1 n2 caller g))) k = hm_get (ag_buckets g) k"
  by (auto simp: check_caller_def Let_def hm_get_insert split: prod.split)

lemma admit_caller_other:
  "k \<noteq> caller \<Longrightarrow> hm_get (ag_buckets (snd (admit_caller env n1 n2 caller job g))) k = hm_get (ag_buckets g) k"
  using check_caller_other [of k caller n1 n2 g] by (auto simp: admit_caller_def split: prod.split option.split)

lemma admission_call_other: "k \<noteq> call_caller c \<Longrightarrow> hm_get (ag_buckets (snd (admission_call c g))) k = hm_get (ag_buckets g) k"
  by (auto simp: admission_call_def admission_submit_def call_caller_def admit_caller_other Let_def split: prod.splits option.splits)

text \<open>Every level of a gate with a capacity the format holds is between zero and the capacity.\<close>

definition gate_ok :: "rat \<Rightarrow> AdmissionGate \<Rightarrow> bool" where
  "gate_ok cap g \<longleftrightarrow> bucket_capacity (ag_config g) = FFin cap \<and> 0 \<le> cap \<and> rnd64 cap = FFin cap
    \<and> \<not> fp_lt (refill_rate (ag_config g)) (FFin 0)
    \<and> (\<forall>k b. hm_get (ag_buckets g) k = Some b \<longrightarrow> in_bucket cap (cb_tokens b))"

lemma try_consume_level:
  assumes "in_bucket cap (cb_tokens b)" and "rnd64 cap = FFin cap" and "\<not> fp_lt rate (FFin 0)"
  shows "in_bucket cap (cb_tokens (snd (try_consume now (FFin cap) rate b)))"
proof -
  let ?t = "cb_tokens (caller_refill now (FFin cap) rate b)"
  have "in_bucket cap ?t"
    using refill_in_bucket [OF assms(1,2) refill_amount [OF as_secs_nonneg assms(3)]] by (simp add: caller_refill_def)
  then show ?thesis using spend_in_bucket [of cap ?t 1] by (auto simp: try_consume_def Let_def)
qed

lemma check_caller_ok:
  assumes "gate_ok cap g"
  shows "gate_ok cap (snd (check_caller n1 n2 caller g))"
proof -
  let ?c = "ag_config g"
  let ?b = "case hm_get (ag_buckets g) caller of Some b \<Rightarrow> b | None \<Rightarrow> caller_bucket_new n1 (bucket_capacity ?c)"
  have g: "bucket_capacity ?c = FFin cap" "0 \<le> cap" "rnd64 cap = FFin cap" "\<not> fp_lt (refill_rate ?c) (FFin 0)"
    "\<And>k b. hm_get (ag_buckets g) k = Some b \<Longrightarrow> in_bucket cap (cb_tokens b)"
    using assms by (simp_all add: gate_ok_def)
  have b: "in_bucket cap (cb_tokens ?b)"
    using g(1,5) in_bucket_full [OF g(2,3)] by (auto simp: caller_bucket_new_def split: option.split)
  obtain ok b' where t: "try_consume n2 (bucket_capacity ?c) (refill_rate ?c) ?b = (ok, b')" by fastforce
  then have "in_bucket cap (cb_tokens b')" using try_consume_level [OF b g(3,4), of n2] g(1) by simp
  then show ?thesis using g unfolding check_caller_def Let_def t prod.case by (simp add: gate_ok_def hm_get_insert)
qed

lemma gate_ok_frame [simp]: "gate_ok cap (g\<lparr>rejected_overload := n\<rparr>) = gate_ok cap g"
  "gate_ok cap (g\<lparr>ag_admitted := n, ag_router := r\<rparr>) = gate_ok cap g"
  by (simp_all add: gate_ok_def)

lemma admit_caller_ok:
  assumes "gate_ok cap g"
  shows "gate_ok cap (snd (admit_caller env n1 n2 caller job g))"
proof -
  obtain e g1 where "check_caller n1 n2 caller g = (e, g1)" by fastforce
  then show ?thesis using check_caller_ok [OF assms, of n1 n2 caller]
    by (auto simp: admit_caller_def split: option.split prod.split)
qed

lemma admission_call_ok: "gate_ok cap g \<Longrightarrow> gate_ok cap (snd (admission_call c g))"
  using admit_caller_ok by (auto simp: admission_call_def admission_submit_def Let_def split: prod.split option.split)

interpretation gate: stateful "\<lambda>c g. snd (admission_call c g)" "gate_ok cap" for cap
  by unfold_locales (rule admission_call_ok)

text \<open>A bucket of whole tokens, at one instant.\<close>

definition whole_bucket :: "nat \<Rightarrow> string \<Rightarrow> nat \<Rightarrow> AdmissionGate \<Rightarrow> bool" where
  "whole_bucket now caller t g \<longleftrightarrow>
    (case hm_get (ag_buckets g) caller of
       Some b \<Rightarrow> cb_tokens b = FFin (of_nat t) \<and> cb_last_refill b = now
     | None \<Rightarrow> bucket_capacity (ag_config g) = FFin (of_nat t))"

lemma try_consume_whole:
  assumes "cb_tokens b = FFin (of_nat t)" and "cb_last_refill b = now" and "t \<le> cap" and "cap < 2 ^ 53" and "fp_is_finite rate"
  shows "fst (try_consume now (FFin (of_nat cap)) rate b) = (0 < t)
    \<and> cb_tokens (snd (try_consume now (FFin (of_nat cap)) rate b)) = FFin (of_nat (t - 1))
    \<and> cb_last_refill (snd (try_consume now (FFin (of_nat cap)) rate b)) = now"
proof -
  have z: "f64_mul (FFin 0) rate = FFin 0" using assms(5) by (cases rate) (auto simp: fp_is_finite_def)
  have "rnd64 (of_nat t) = FFin (of_nat t)" using rnd64_dyadic [of t 0] assms(3,4) by simp
  then have r: "cb_tokens (caller_refill now (FFin (of_nat cap)) rate b) = FFin (of_nat t)"
    using assms(1,2,3) by (simp add: caller_refill_def z f64_min_def)
  have s: "f64_sub (FFin (of_nat t)) (FFin 1) = FFin (of_nat (t - 1))" if "0 < t"
    using spend_whole [of 1 t] assms(3,4) that by simp
  have "(1 \<le> (of_nat t :: rat)) = (0 < t)" by (cases t) simp_all
  then show ?thesis using r s by (simp add: try_consume_def Let_def) (simp add: caller_refill_def)
qed

lemma check_caller_whole:
  assumes "whole_bucket now caller t g" and "t \<le> cap" and "cap < 2 ^ 53"
    and "bucket_capacity (ag_config g) = FFin (of_nat cap)" and "fp_is_finite (refill_rate (ag_config g))"
  shows "(fst (check_caller now now caller g) = None) = (0 < t) \<and> whole_bucket now caller (t - 1) (snd (check_caller now now caller g))"
proof -
  let ?b = "case hm_get (ag_buckets g) caller of Some b \<Rightarrow> b | None \<Rightarrow> caller_bucket_new now (bucket_capacity (ag_config g))"
  have b: "cb_tokens ?b = FFin (of_nat t)" "cb_last_refill ?b = now"
    using assms(1) by (auto simp: whole_bucket_def caller_bucket_new_def split: option.splits)
  obtain ok b' where c: "try_consume now (FFin (of_nat cap)) (refill_rate (ag_config g)) ?b = (ok, b')" by fastforce
  then have "ok = (0 < t)" "cb_tokens b' = FFin (of_nat (t - 1))" "cb_last_refill b' = now"
    using try_consume_whole [OF b assms(2,3,5)] by simp_all
  then show ?thesis using c by (simp add: check_caller_def Let_def whole_bucket_def hm_get_insert assms(4))
qed

lemma admission_run_whole:
  assumes "cap < 2 ^ 53" and "fp_is_finite (refill_rate c)" and "bucket_capacity c = FFin (of_nat cap)"
  shows "whole_bucket now caller t g \<Longrightarrow> t \<le> cap \<Longrightarrow> ag_config g = c \<Longrightarrow>
    map isl (fst (admission_run (map (\<lambda>(env, job). (env, now, now, High, caller, job)) calls) g))
      = replicate (min (length calls) t) False @ replicate (length calls - t) True"
proof (induction calls arbitrary: t g)
  case (Cons ej calls)
  obtain env job where ej: "ej = (env, job)" by (cases ej)
  obtain e g1 where ch: "check_caller now now caller g = (e, g1)" by fastforce
  note w = check_caller_whole [OF Cons.prems(1,2) assms(1), unfolded Cons.prems(3), OF assms(3,2), unfolded ch fst_conv snd_conv]
  have cc: "ag_config g1 = c" using check_caller_frame(1) [of now now caller g] Cons.prems(3) by (simp add: ch)
  obtain x g2 where a: "admission_call (env, now, now, High, caller, job) g = (x, g2)" by fastforce
  then have "isl x = (t = 0)" "whole_bucket now caller (t - 1) g2" "ag_config g2 = c"
    using w cc by (auto simp: admission_call_def admission_submit_def ceiling_def admit_caller_def ch Let_def whole_bucket_def
        split: option.splits prod.splits)
  then show ?case using Cons.IH [of "t - 1" g2] Cons.prems(2)
    by (cases t) (auto simp: ej a split: prod.split)
qed simp

section \<open>Properties\<close>

text \<open>
  The gate is transparent: a call it refuses never reaches the router and is not counted as
  admitted, a high priority is never refused for the load, a refusal for the load takes no token
  and names a delay of at least fifty milliseconds; any other call gets the router's own answer.
\<close>

theorem admission_refuses_or_forwards:
  "case admission_submit env now_new now p caller job g of
     (Inl e, g') \<Rightarrow> ag_router g' = ag_router g \<and> ag_admitted g' = ag_admitted g
       \<and> (case e of
            Overloaded load ceil delay \<Rightarrow> p \<noteq> High \<and> ceiling (ag_config g) p = Some ceil \<and> load = current_load g
              \<and> fp_lt ceil load \<and> ag_buckets g' = ag_buckets g \<and> 50 \<le> delay
          | CallerThrottled c secs \<Rightarrow> c = caller \<and> rejected_throttle g' = rejected_throttle g + 1)
   | (Inr x, g') \<Rightarrow> (x, ag_router g') = submit env job (ag_router g) \<and> ag_admitted g' = ag_admitted g + 1"
  using check_caller_frame [of now_new now caller g]
  by (auto simp: admission_submit_def admit_caller_def ceiling_def overload_delay_def Let_def check_caller_def
      split: prod.splits option.splits Priority.splits if_splits)

text \<open>
  No caller spends another's tokens: calls of other callers, of any priority and at any time, leave
  a caller's bucket as it is.
\<close>

theorem callers_are_isolated:
  assumes "me \<notin> set (map call_caller cs)"
  shows "hm_get (ag_buckets (snd (admission_run cs g))) me = hm_get (ag_buckets g) me"
  using assms
proof (induction cs arbitrary: g)
  case (Cons c cs)
  then have "hm_get (ag_buckets (snd (admission_run (c # cs) g))) me = hm_get (ag_buckets (snd (admission_call c g))) me"
    by (simp add: case_prod_unfold)
  then show ?case using admission_call_other [of me c g] Cons.prems by simp
qed simp

theorem callers_are_isolated_witness:
  "hm_get (ag_buckets (snd (admission_run [(still_env, 0, 0, Low, ''b'', pool_job)] (admission_new (router_new RouterConfig_default) AdmissionConfig_default)))) ''a'' = None"
  using callers_are_isolated [of "''a''" "[(still_env, 0, 0, Low, ''b'', pool_job)]" "admission_new (router_new RouterConfig_default) AdmissionConfig_default"]
  by (simp add: call_caller_def admission_new_def)

text \<open>
  With a capacity of whole tokens, a caller new to the gate that sends any number of urgent calls at
  one instant gets exactly as many through as its bucket holds, the first ones.
\<close>

theorem burst_admits_capacity:
  assumes "bucket_capacity (ag_config g) = FFin (of_nat cap)" and "cap < 2 ^ 53"
    and "fp_is_finite (refill_rate (ag_config g))" and "hm_get (ag_buckets g) caller = None"
  shows "map isl (fst (admission_run (map (\<lambda>(env, job). (env, now, now, High, caller, job)) calls) g))
    = replicate (min (length calls) cap) False @ replicate (length calls - cap) True"
  by (rule admission_run_whole [OF assms(2,3,1)]) (use assms in \<open>simp_all add: whole_bucket_def\<close>)

theorem burst_admits_capacity_witness:
  "map isl (fst (admission_run (map (\<lambda>(env, job). (env, 7, 7, High, ''a'', job)) (replicate 25 (still_env, pool_job)))
     (admission_new (router_new RouterConfig_default) AdmissionConfig_default))) = replicate 20 False @ replicate 5 True"
  using burst_admits_capacity [of "admission_new (router_new RouterConfig_default) AdmissionConfig_default" 20 "''a''" 7
      "replicate 25 (still_env, pool_job)"]
  by (simp add: admission_new_def AdmissionConfig_default_def fp_is_finite_def)

text \<open>
  Whatever calls arrive, with a capacity the format holds and a rate that is not negative, no
  caller's level leaves the range from zero to the capacity.
\<close>

theorem caller_levels_stay_in_range:
  assumes "bucket_capacity c = FFin cap" and "0 \<le> cap" and "rnd64 cap = FFin cap" and "\<not> fp_lt (refill_rate c) (FFin 0)"
    and "hm_get (ag_buckets (snd (admission_run cs (admission_new r c)))) caller = Some b"
  shows "in_bucket cap (cb_tokens b)"
proof -
  have "gate_ok cap (admission_new r c)" using assms(1-4) by (simp add: gate_ok_def admission_new_def)
  then have "gate_ok cap (snd (admission_run cs (admission_new r c)))"
    using gate.run_inv by (simp add: admission_run_state)
  then show ?thesis using assms(5) by (simp add: gate_ok_def)
qed

section \<open>Properties of cost-based routing\<close>

text \<open>
  The cost model can only refuse: a job it does not refuse is charged its estimate and submitted
  as it came, whatever strategy was recommended and whatever the blending coefficient; a job it
  refuses is an expensive one under hard pressure, and is neither charged nor submitted.
\<close>

theorem cost_model_refuses_or_forwards:
  "case cost_submit env job c of
     (Inr x, c') \<Rightarrow> (x, cr_router c') = submit env job (cr_router c) \<and> cr_budget c' = charge (estimate job) (cr_budget c)
   | (Inl e, c') \<Rightarrow> cr_router c' = cr_router c \<and> cr_budget c' = cr_budget c \<and> allow_cost_drop_override (cr_config c)
       \<and> fp_le EXPENSIVE_JOB_THRESHOLD (estimate job) \<and> fp_le BUDGET_PRESSURE_HARD (budget_pressure (cr_budget c))
       \<and> be_job_id e = job_id job"
  by (auto simp: cost_submit_def charge_and_forward_def cost_recommend_def Let_def split: prod.splits if_splits)

text \<open>The estimate of a job is at most two units, whatever its declared cost.\<close>

theorem estimate_at_most_two:
  "fp_le (FFin 0) (estimate job) \<and> fp_le (estimate job) (FFin 2)"
proof -
  let ?d = "f64_div (f64_of_u64 (compute_cost job)) (FFin 1000000)"
  have "fp_le (FFin 0) ?d" unfolding f64_of_u64_def by (intro f64_div_nonneg f64_of_nat_nonneg) simp
  then obtain q where q: "f64_clamp ?d (FFin 0) (FFin 2) = FFin q" "0 \<le> q" "q \<le> 2"
    using f64_clamp_bounds [of ?d "FFin 0" "FFin 2"] fp_le_notNaN by (cases "f64_clamp ?d (FFin 0) (FFin 2)") auto
  have two: "rnd64 2 = FFin 2" using rnd64_dyadic [of 2 0] by simp
  obtain w where w: "kind_weight (kind job) = FFin w" "0 \<le> w" "w \<le> 1"
  proof (cases "kind job")
    case HashMix
    obtain w where "rnd64 (30 / 100) = FFin w" "0 \<le> w" "w \<le> 1" by (rule rnd64_unit [of "30 / 100"]) simp_all
    then show ?thesis using that [of w] HashMix by (simp add: kind_weight_def)
  next
    case PrimeCount
    obtain w where "rnd64 (65 / 100) = FFin w" "0 \<le> w" "w \<le> 1" by (rule rnd64_unit [of "65 / 100"]) simp_all
    then show ?thesis using that [of w] PrimeCount by (simp add: kind_weight_def)
  qed (use that [of 1] in \<open>simp add: kind_weight_def\<close>)
  have "w * q \<le> 1 * 2" using w q by (intro mult_mono) auto
  then show ?thesis using rnd64_mono [of 0 "w * q"] rnd64_mono [of "w * q" 2] w q two by (simp add: estimate_def)
qed

lemma f64_max_ge: "fp_le a h \<Longrightarrow> fp_le a (f64_max m h)"
  by (cases a; cases h; cases m) (auto simp: f64_max_def)

lemma not_cheap_expensive: "\<not> fp_le EXPENSIVE_JOB_THRESHOLD CHEAP_JOB_THRESHOLD"
proof -
  obtain a where a: "rnd64 (5 / 100) = FFin a" "a \<le> 5 / 100 + 1 / 2 ^ 54" by (rule rnd64_unit [of "5 / 100"]) simp_all
  obtain c where c: "rnd64 (40 / 100) = FFin c" by (rule rnd64_unit [of "40 / 100"]) simp_all
  then have "1 / 4 \<le> c" using rnd64_mono [of "1 / 4" "40 / 100"] rnd64_dyadic [of 1 2] by simp
  then show ?thesis using a c by (simp add: EXPENSIVE_JOB_THRESHOLD_def CHEAP_JOB_THRESHOLD_def)
qed

lemma decay_ticks:
  "0 < n \<Longrightarrow> n \<le> 60 \<Longrightarrow> (decay_tick ^^ n) (0, b) = (of_nat n, b\<lparr>current_minute := FFin 0, current_hour := if n = 60 then FFin 0 else current_hour b\<rparr>)"
proof (induction n)
  case (Suc n)
  have m: "((of_nat n + 1 :: u64) mod 60 = 0) = (n = 59)"
  proof -
    have "unat ((of_nat (Suc n) :: u64) mod 60) = Suc n mod 60"
      using Suc.prems by (simp add: unat_mod_distrib unat_of_nat_small del: of_nat_Suc)
    moreover have "(Suc n mod 60 = 0) = (n = 59)" using Suc.prems by (cases "n = 59") auto
    ultimately show ?thesis by (metis add.commute of_nat_Suc unat_0 unat_eq_zero)
  qed
  show ?case
  proof (cases "n = 0")
    case True
    then show ?thesis by (simp add: decay_tick_def tick_minute_def Let_def)
  next
    case False
    then show ?thesis using Suc m by (simp add: decay_tick_def tick_minute_def tick_hour_def Let_def add.commute)
  qed
qed simp

text \<open>
  A spent hour is not forgiven by the minutes: an expensive job stays refused through the first
  fifty-nine ticks of the background loop, and the sixtieth clears both accumulators.
\<close>

theorem spent_hour_outlives_minutes:
  assumes "fp_le BUDGET_PRESSURE_HARD (hour_fraction b)" and "fp_le EXPENSIVE_JOB_THRESHOLD (estimate job)"
    and "allow_cost_drop_override cc" and "0 < n" and "n \<le> 60"
  shows "if n < 60 then isl (fst (cost_submit env job (cost_router_new r (snd ((decay_tick ^^ n) (0, b))) cc)))
    else snd ((decay_tick ^^ n) (0, b)) = b\<lparr>current_minute := FFin 0, current_hour := FFin 0\<rparr>"
proof (cases "n < 60")
  case True
  let ?b = "b\<lparr>current_minute := FFin 0\<rparr>"
  have "hour_fraction ?b = hour_fraction b" by (simp add: hour_fraction_def)
  then have p: "fp_le BUDGET_PRESSURE_HARD (budget_pressure ?b)"
    unfolding budget_pressure_def using assms(1) by (intro f64_max_ge) simp
  have e: "snd ((decay_tick ^^ n) (0, b)) = ?b" using True assms(4) by (simp add: decay_ticks)
  have "\<not> fp_le (estimate job) CHEAP_JOB_THRESHOLD"
    using assms(2) fp_le_trans [of EXPENSIVE_JOB_THRESHOLD "estimate job" CHEAP_JOB_THRESHOLD] not_cheap_expensive by blast
  then show ?thesis using True p assms(2,3)
    unfolding e by (simp add: cost_submit_def cost_router_new_def cost_recommend_def Let_def)
qed (use assms(4,5) in \<open>simp add: decay_ticks\<close>)

theorem spent_hour_outlives_minutes_witness:
  "isl (fst (cost_submit still_env (Job_default\<lparr>kind := MonteCarloRisk, compute_cost := 1000000\<rparr>)
     (cost_router_new r (snd ((decay_tick ^^ 7) (0, CostBudget_default\<lparr>current_hour := FFin 20000\<rparr>))) CostRouterConfig_default)))"
proof -
  have e: "rnd64 1000000 = FFin 1000000" "rnd64 20000 = FFin 20000" using rnd64_dyadic [of 1000000 0] rnd64_dyadic [of 20000 0] by simp_all
  obtain h where h: "rnd64 (90 / 100) = FFin h" "h \<le> 1" by (rule rnd64_unit [of "90 / 100"]) simp_all
  obtain x where x: "rnd64 (40 / 100) = FFin x" "x \<le> 1" by (rule rnd64_unit [of "40 / 100"]) simp_all
  have 1: "fp_le BUDGET_PRESSURE_HARD (hour_fraction (CostBudget_default\<lparr>current_hour := FFin 20000\<rparr>))"
    using h by (simp add: BUDGET_PRESSURE_HARD_def hour_fraction_def spent_fraction_def CostBudget_default_def f64_clamp_def)
  have 2: "fp_le EXPENSIVE_JOB_THRESHOLD (estimate (Job_default\<lparr>kind := MonteCarloRisk, compute_cost := 1000000\<rparr>))"
    using x by (simp add: EXPENSIVE_JOB_THRESHOLD_def estimate_def kind_weight_def f64_of_u64_def f64_of_nat_def e f64_clamp_def)
  show ?thesis using spent_hour_outlives_minutes [OF 1 2, where cc = CostRouterConfig_default and n = 7 and env = still_env and r = r]
    by (simp add: CostRouterConfig_default_def)
qed

end
