(* ===== verification/Canary.thy ===== *)
theory Canary
  imports RouterSteps
begin

text \<open>
  The canary router (\<open>src/canary.rs\<close>): a share of the jobs goes to a second router, both cohorts are
  measured, and the canary is promoted or rolled back once both have enough samples. A submission
  chooses its cohort under the lock, waits for that cohort's router without it, and takes the lock
  again to record the outcome; the three parts are separate steps, which other submissions and the
  two routers' own tasks interleave with.
\<close>

section \<open>Cohorts\<close>

record CanaryConfig =
  canary_pct :: f64
  min_samples :: u64
  promote_threshold :: f64
  rollback_threshold :: f64

definition CanaryConfig_default :: CanaryConfig where
  "CanaryConfig_default = \<lparr>canary_pct = rnd64 (10 / 100), min_samples = 50,
     promote_threshold = rnd64 (5 / 100), rollback_threshold = rnd64 (3 / 100)\<rparr>"

record CohortMetrics =
  cm_jobs :: u64
  cm_completed :: u64
  cm_dropped :: u64
  quality_sum :: f64

definition cohort_zero :: CohortMetrics where
  "cohort_zero = \<lparr>cm_jobs = 0, cm_completed = 0, cm_dropped = 0, quality_sum = FFin 0\<rparr>"

definition mean_quality :: "CohortMetrics \<Rightarrow> f64" where
  "mean_quality m = (if cm_completed m = 0 then FFin 0 else f64_div (quality_sum m) (f64_of_u64 (cm_completed m)))"

definition drop_rate :: "CohortMetrics \<Rightarrow> f64" where
  "drop_rate m = (if cm_jobs m = 0 then FFin 0 else f64_div (f64_of_u64 (cm_dropped m)) (f64_of_u64 (cm_jobs m)))"

fun f64_abs :: "f64 \<Rightarrow> f64" where
  "f64_abs FNaN = FNaN"
| "f64_abs (FInf s) = FInf False"
| "f64_abs (FFin q) = FFin \<bar>q\<bar>"

fun output_quality :: "Output \<Rightarrow> f64" where
  "output_quality (U64 v) = f64_of_u64 v"
| "output_quality (F64 v) = f64_abs v"

definition cohort_record :: "Output list option \<Rightarrow> CohortMetrics \<Rightarrow> CohortMetrics" where
  "cohort_record outputs m =
    (let m = m\<lparr>cm_jobs := cm_jobs m + 1\<rparr>
     in case outputs of
          None \<Rightarrow> m\<lparr>cm_dropped := cm_dropped m + 1\<rparr>
        | Some outs \<Rightarrow>
            let m = m\<lparr>cm_completed := cm_completed m + 1\<rparr>
            in if outs = [] then m
               else m\<lparr>quality_sum := f64_add (quality_sum m)
                      (f64_div (fold (\<lambda>o' s. f64_add s (output_quality o')) outs (FFin 0)) (f64_of_nat (length outs)))\<rparr>)"

section \<open>State\<close>

datatype CanaryState = Running | Promoted | RolledBack

fun CanaryState_to_string :: "CanaryState \<Rightarrow> string" where
  "CanaryState_to_string Running = ''running''"
| "CanaryState_to_string Promoted = ''promoted''"
| "CanaryState_to_string RolledBack = ''rolled_back''"

datatype RoutedTo = Stable | Canary

record CanaryInner =
  cn_config :: CanaryConfig
  cn_state :: CanaryState
  effective_pct :: f64
  stable_metrics :: CohortMetrics
  canary_metrics :: CohortMetrics
  route_counter :: u64
  promote_count :: u64
  rollback_count :: u64

definition clamp_unit :: "f64 \<Rightarrow> f64" where
  "clamp_unit x = f64_clamp x (FFin 0) (FFin 1)"

definition canary_inner_new :: "CanaryConfig \<Rightarrow> CanaryInner" where
  "canary_inner_new c = \<lparr>cn_config = c, cn_state = Running, effective_pct = clamp_unit (canary_pct c),
     stable_metrics = cohort_zero, canary_metrics = cohort_zero, route_counter = 0, promote_count = 0, rollback_count = 0\<rparr>"

definition canary_period :: "f64 \<Rightarrow> u64" where
  "canary_period pct = max (f64_to_u64 (f64_round (f64_div (FFin 1) pct))) 1"

definition next_cohort :: "CanaryInner \<Rightarrow> RoutedTo \<times> CanaryInner" where
  "next_cohort s =
    (if fp_le (effective_pct s) (FFin 0) then (Stable, s)
     else if fp_le (FFin 1) (effective_pct s) then (Canary, s)
     else (if route_counter s mod canary_period (effective_pct s) = 0 then Canary else Stable,
           s\<lparr>route_counter := route_counter s + 1\<rparr>))"

definition relative_quality :: "CanaryInner \<Rightarrow> f64" where
  "relative_quality s =
     f64_div (f64_sub (mean_quality (canary_metrics s)) (mean_quality (stable_metrics s))) (mean_quality (stable_metrics s))"

definition evaluate_canary :: "CanaryInner \<Rightarrow> CanaryInner" where
  "evaluate_canary s =
    (let m = min_samples (cn_config s)
     in if cn_state s \<noteq> Running then s
        else if cm_jobs (stable_metrics s) < m \<or> cm_jobs (canary_metrics s) < m then s
        else if fp_le (mean_quality (stable_metrics s)) (FFin 0) then s
        else if fp_le (promote_threshold (cn_config s)) (relative_quality s) then
          s\<lparr>cn_state := Promoted, effective_pct := FFin 1, promote_count := promote_count s + 1, canary_metrics := cohort_zero\<rparr>
        else if fp_le (relative_quality s) (f64_neg (rollback_threshold (cn_config s))) then
          s\<lparr>cn_state := RolledBack, effective_pct := FFin 0, rollback_count := rollback_count s + 1, canary_metrics := cohort_zero\<rparr>
        else s)"

definition record_and_evaluate :: "RoutedTo \<Rightarrow> Output list option \<Rightarrow> CanaryInner \<Rightarrow> CanaryInner" where
  "record_and_evaluate cohort outputs s =
     evaluate_canary (case cohort of
         Stable \<Rightarrow> s\<lparr>stable_metrics := cohort_record outputs (stable_metrics s)\<rparr>
       | Canary \<Rightarrow> s\<lparr>canary_metrics := cohort_record outputs (canary_metrics s)\<rparr>)"

definition set_canary_pct :: "f64 \<Rightarrow> CanaryInner \<Rightarrow> CanaryInner" where
  "set_canary_pct pct s = s\<lparr>effective_pct := clamp_unit pct\<rparr>"

definition reset_canary :: "CanaryInner \<Rightarrow> CanaryInner" where
  "reset_canary s = s\<lparr>cn_state := Running, effective_pct := clamp_unit (canary_pct (cn_config s)), canary_metrics := cohort_zero\<rparr>"

section \<open>Submissions\<close>

record CanaryRouter =
  cr_inner :: CanaryInner
  stable_router :: Inner
  canary_router :: Inner
  total_jobs :: u64

definition canary_router_new :: "Inner \<Rightarrow> Inner \<Rightarrow> CanaryConfig \<Rightarrow> CanaryRouter" where
  "canary_router_new st ca c = \<lparr>cr_inner = canary_inner_new c, stable_router = st, canary_router = ca, total_jobs = 0\<rparr>"

text \<open>The three parts of \<open>submit\<close>.\<close>

definition choose_cohort :: "CanaryRouter \<Rightarrow> RoutedTo \<times> CanaryRouter" where
  "choose_cohort c =
    (case next_cohort (cr_inner c) of (cohort, s) \<Rightarrow> (cohort, c\<lparr>total_jobs := total_jobs c + 1, cr_inner := s\<rparr>))"

definition forward :: "submit_env \<Rightarrow> Job \<Rightarrow> RoutedTo \<Rightarrow> CanaryRouter \<Rightarrow> submit_result \<times> CanaryRouter" where
  "forward env job cohort c =
    (case cohort of
       Stable \<Rightarrow> (case submit env job (stable_router c) of (x, r) \<Rightarrow> (x, c\<lparr>stable_router := r\<rparr>))
     | Canary \<Rightarrow> (case submit env job (canary_router c) of (x, r) \<Rightarrow> (x, c\<lparr>canary_router := r\<rparr>)))"

definition conclude :: "RoutedTo \<Rightarrow> Output list option \<Rightarrow> CanaryRouter \<Rightarrow> CanaryRouter" where
  "conclude cohort outputs c = c\<lparr>cr_inner := record_and_evaluate cohort outputs (cr_inner c)\<rparr>"

text \<open>The steps on the state under the lock; a conclusion may come at any time after its choice.\<close>

datatype canary_step = Choose | Conclude RoutedTo "Output list option" | Reset

definition canary_apply :: "canary_step \<Rightarrow> CanaryInner \<Rightarrow> CanaryInner" where
  "canary_apply x s =
    (case x of
       Choose \<Rightarrow> snd (next_cohort s)
     | Conclude cohort outputs \<Rightarrow> record_and_evaluate cohort outputs s
     | Reset \<Rightarrow> reset_canary s)"

section \<open>Lemmas\<close>

lemma evaluate_canary_cases:
  "evaluate_canary s = s
   \<or> cn_state s = Running \<and> evaluate_canary s =
        s\<lparr>cn_state := Promoted, effective_pct := FFin 1, promote_count := promote_count s + 1, canary_metrics := cohort_zero\<rparr>
   \<or> cn_state s = Running \<and> evaluate_canary s =
        s\<lparr>cn_state := RolledBack, effective_pct := FFin 0, rollback_count := rollback_count s + 1, canary_metrics := cohort_zero\<rparr>"
  by (simp add: evaluate_canary_def Let_def)

text \<open>The share of the traffic that each state stands for.\<close>

definition share_of :: "CanaryConfig \<Rightarrow> CanaryState \<Rightarrow> f64" where
  "share_of c st = (case st of Running \<Rightarrow> clamp_unit (canary_pct c) | Promoted \<Rightarrow> FFin 1 | RolledBack \<Rightarrow> FFin 0)"

definition share_inv :: "CanaryInner \<Rightarrow> bool" where
  "share_inv s \<longleftrightarrow> effective_pct s = share_of (cn_config s) (cn_state s)"

lemma share_evaluate: "share_inv s \<Longrightarrow> share_inv (evaluate_canary s)"
  using evaluate_canary_cases [of s]
proof (elim disjE conjE)
  assume "share_inv s" "evaluate_canary s = s"
  then show ?thesis by simp
qed (simp_all add: share_inv_def share_of_def)

lemma share_frame:
  "share_inv (s\<lparr>stable_metrics := m\<rparr>) = share_inv s" "share_inv (s\<lparr>canary_metrics := m\<rparr>) = share_inv s"
  "share_inv (s\<lparr>route_counter := n\<rparr>) = share_inv s" "share_inv (reset_canary s)"
  by (simp_all add: share_inv_def reset_canary_def share_of_def)

lemma share_step: "share_inv s \<Longrightarrow> share_inv (canary_apply x s)"
  by (cases x) (auto simp: canary_apply_def next_cohort_def record_and_evaluate_def share_frame
      split: RoutedTo.split intro: share_evaluate)

interpretation canary: stateful canary_apply share_inv
  by unfold_locales (rule share_step)

lemma canary_config_step: "cn_config (canary_apply x s) = cn_config s"
proof -
  have "cn_config (evaluate_canary s) = cn_config s" for s using evaluate_canary_cases [of s] by auto
  then show ?thesis
    by (cases x) (auto simp: canary_apply_def record_and_evaluate_def next_cohort_def reset_canary_def split: RoutedTo.split)
qed

text \<open>A run of choices.\<close>

fun choices :: "nat \<Rightarrow> CanaryInner \<Rightarrow> RoutedTo list" where
  "choices 0 s = []"
| "choices (Suc n) s = (case next_cohort s of (x, s) \<Rightarrow> x # choices n s)"

lemma choices_counter:
  assumes "\<not> fp_le pct (FFin 0)" and "\<not> fp_le (FFin 1) pct"
  shows "effective_pct s = pct \<Longrightarrow> unat (route_counter s) + n < 2 ^ 64 \<Longrightarrow>
    choices n s = map (\<lambda>i. if i mod unat (canary_period pct) = 0 then Canary else Stable)
      [unat (route_counter s)..<unat (route_counter s) + n]"
proof (induction n arbitrary: s)
  case (Suc n)
  let ?c = "route_counter s"
  have u: "unat (?c + 1) = unat ?c + 1" using Suc.prems(2) by (subst unat_add_small) simp_all
  have z: "(?c mod canary_period pct = 0) = (unat ?c mod unat (canary_period pct) = 0)"
    by (simp add: unat_eq_zero [symmetric] unat_mod_distrib)
  have l: "[unat ?c..<Suc (unat ?c + n)] = unat ?c # [Suc (unat ?c)..<Suc (unat ?c + n)]" by (simp add: upt_conv_Cons del: upt_Suc)
  show ?case using Suc.IH [of "s\<lparr>route_counter := ?c + 1\<rparr>"] Suc.prems assms
    by (simp add: next_cohort_def u z l del: upt_Suc)
qed simp

lemma ceil_div:
  fixes n p :: nat
  assumes "0 < p"
  shows "(n + p - 1) div p = (if n mod p = 0 then n div p else n div p + 1)"
proof -
  have n: "p * (n div p) + n mod p = n" by (rule mult_div_mod_eq)
  have r: "n mod p < p" using assms by simp
  show ?thesis
  proof (cases "n mod p = 0")
    case True
    then show ?thesis using n assms by (auto intro!: div_nat_eqI)
  next
    case False
    have "p * (n div p + 1) \<le> n + p - 1" "n + p - 1 < p * Suc (n div p + 1)" using n r False by (simp_all only: mult_Suc_right add_mult_distrib2 mult_1_right)
    then show ?thesis using False by (simp add: div_nat_eqI)
  qed
qed

lemma multiples_below:
  fixes n p :: nat
  assumes "0 < p"
  shows "length (filter (\<lambda>i. i mod p = 0) [0..<n]) = (n + p - 1) div p"
proof (induction n)
  case (Suc n)
  have "(Suc n + p - 1) div p = n div p + 1" using assms by (simp add: div_add_self2)
  then show ?case using Suc ceil_div [OF assms, of n] by simp
qed (use assms in simp)

section \<open>Properties\<close>

text \<open>
  While a share strictly between none and all is in use, the canary gets exactly every k-th job,
  starting with the first, where k is the rounded inverse of the share: of n jobs, n/k rounded up.
\<close>

theorem canary_gets_one_in_period:
  assumes "route_counter s = 0" and "effective_pct s = pct" and "\<not> fp_le pct (FFin 0)" and "\<not> fp_le (FFin 1) pct" and "n < 2 ^ 64"
  shows "choices n s = map (\<lambda>i. if i mod unat (canary_period pct) = 0 then Canary else Stable) [0..<n]
    \<and> length (filter (\<lambda>x. x = Canary) (choices n s)) = (n + unat (canary_period pct) - 1) div unat (canary_period pct)"
proof -
  have c: "choices n s = map (\<lambda>i. if i mod unat (canary_period pct) = 0 then Canary else Stable) [0..<n]"
    using choices_counter [OF assms(3,4,2), of n] assms(1,5) by simp
  have "(1 :: u64) \<le> canary_period pct" by (simp add: canary_period_def)
  then have "0 < unat (canary_period pct)" by (simp add: word_le_nat_alt)
  from multiples_below [OF this, of n] show ?thesis unfolding c by (simp add: filter_map comp_def cong: if_cong)
qed

theorem canary_gets_one_in_period_witness:
  "choices 3 ((canary_inner_new CanaryConfig_default)\<lparr>effective_pct := FFin (1 / 2)\<rparr>) = [Canary, Stable, Canary]"
proof -
  have "\<lfloor>(5 :: rat) / 2\<rfloor> = 2" by (simp add: floor_eq_iff)
  then have "f64_round (f64_div (FFin 1) (FFin (1 / 2))) = FFin (of_nat 2)"
    using rnd64_dyadic [of 2 0] by (simp add: f64_round_def)
  then have "canary_period (FFin (1 / 2)) = 2"
    using f64_of_nat_roundtrip [of 2] f64_of_nat_exact [of 2] by (simp add: canary_period_def del: f64_to_u64.simps f64_div.simps)
  then show ?thesis
    using canary_gets_one_in_period [of "(canary_inner_new CanaryConfig_default)\<lparr>effective_pct := FFin (1 / 2)\<rparr>" "FFin (1 / 2)" 3]
    by (simp add: canary_inner_new_def upt_rec)
qed

text \<open>
  Rounding makes the share jump: any share from seven tenths up sends every job to the canary.
\<close>

theorem seven_tenths_is_everything:
  assumes "effective_pct s = FFin q" and "7 / 10 \<le> q" and "q < 1"
  shows "fst (next_cohort s) = Canary"
proof -
  have "1 \<le> 1 / q" "1 / q \<le> 23 / 2 ^ 4" using assms(2,3) by (simp_all add: field_simps)
  then obtain r where r: "rnd64 (1 / q) = FFin r" "1 \<le> r" "r \<le> 23 / 2 ^ 4"
    using rnd64_mono [of 1 "1 / q"] rnd64_mono [of "1 / q" "23 / 2 ^ 4"] rnd64_dyadic [of 23 4] by (cases "rnd64 (1 / q)") auto
  have "\<lfloor>r + 1 / 2\<rfloor> = 1" using r(2,3) by (simp add: floor_eq_iff)
  then have "f64_round (FFin r) = FFin (of_nat 1)" using r(2) by (simp add: f64_round_def)
  then have "canary_period (FFin q) = 1"
    using r(1) assms(2) f64_of_nat_roundtrip [of 1] f64_of_nat_exact [of 1] by (simp add: canary_period_def del: f64_to_u64.simps)
  then show ?thesis using assms by (simp add: next_cohort_def)
qed

theorem seven_tenths_is_everything_witness:
  "fst (next_cohort ((canary_inner_new CanaryConfig_default)\<lparr>effective_pct := FFin (3 / 4)\<rparr>)) = Canary"
  by (rule seven_tenths_is_everything [of _ "3 / 4"]) simp_all

text \<open>
  However submissions interleave and whenever the canary is reset, the share in use is the one the
  state stands for: the configured one while running, all after a promotion, nothing after a
  rollback.
\<close>

theorem share_follows_state:
  "effective_pct (fold canary_apply xs (canary_inner_new c)) = share_of c (cn_state (fold canary_apply xs (canary_inner_new c)))"
proof -
  have "share_inv (canary_inner_new c)" by (simp add: share_inv_def share_of_def canary_inner_new_def)
  then have "share_inv (fold canary_apply xs (canary_inner_new c))" by (rule canary.run_inv)
  moreover have "cn_config (fold canary_apply xs s) = cn_config s" for s
    by (induction xs arbitrary: s) (simp_all add: canary_config_step)
  ultimately show ?thesis by (simp add: share_inv_def canary_inner_new_def)
qed

text \<open>
  A conclusion decides only while the canary runs and both cohorts have enough samples, the one
  just recorded included; a promotion needs a relative quality at the threshold, a rollback one
  at the negative threshold.
\<close>

theorem decision_needs_samples:
  "let s0 = (case cohort of Stable \<Rightarrow> s\<lparr>stable_metrics := cohort_record outputs (stable_metrics s)\<rparr>
                          | Canary \<Rightarrow> s\<lparr>canary_metrics := cohort_record outputs (canary_metrics s)\<rparr>);
       s' = record_and_evaluate cohort outputs s
   in cn_state s' = cn_state s
      \<or> cn_state s = Running \<and> min_samples (cn_config s) \<le> cm_jobs (stable_metrics s0)
        \<and> min_samples (cn_config s) \<le> cm_jobs (canary_metrics s0)
        \<and> (if cn_state s' = Promoted then fp_le (promote_threshold (cn_config s)) (relative_quality s0)
            else fp_le (relative_quality s0) (f64_neg (rollback_threshold (cn_config s))))"
  by (cases cohort) (simp_all add: record_and_evaluate_def evaluate_canary_def Let_def not_less)

text \<open>
  A job the canary drops leaves its mean quality alone: a canary that drops forty-nine jobs of fifty
  and answers one with a better value than the stable cohort is promoted.
\<close>

definition lossy_canary :: CanaryInner where
  "lossy_canary = (canary_inner_new CanaryConfig_default)
     \<lparr>stable_metrics := \<lparr>cm_jobs = 50, cm_completed = 50, cm_dropped = 0, quality_sum = FFin 50\<rparr>,
      canary_metrics := \<lparr>cm_jobs = 49, cm_completed = 1, cm_dropped = 48, quality_sum = FFin 2\<rparr>\<rparr>"

theorem lossy_canary_is_promoted:
  "cn_state (record_and_evaluate Canary None lossy_canary) = Promoted"
proof -
  have e: "rnd64 50 = FFin 50" "rnd64 2 = FFin 2" using rnd64_dyadic [of 50 0] rnd64_dyadic [of 2 0] by simp_all
  obtain r where r: "rnd64 (5 / 100) = FFin r" "r \<le> 1" by (rule rnd64_unit [of "5 / 100"]) simp_all
  show ?thesis using r
    by (simp add: lossy_canary_def canary_inner_new_def CanaryConfig_default_def record_and_evaluate_def evaluate_canary_def
        cohort_record_def relative_quality_def mean_quality_def f64_of_u64_def f64_of_nat_def e f64_sub_def Let_def)
qed

end
