(* ===== verification/CanaryRelease.thy ===== *)
theory CanaryRelease
  imports Floats
begin

text \<open>
  Two more ways to release a canary: the controller that splits traffic by request number and
  decides on error rates (\<open>src/canary_controller.rs\<close>), and the deployer that raises a canary's share
  step by step (\<open>src/canary_deployer.rs\<close>). The controller's \<open>auto_advance\<close> evaluates under a read
  lock and applies under a write lock; the two are separate operations here. Instants are
  nanoseconds. A text of the deployer that formats floating point numbers is a parameter.
\<close>

section \<open>The controller\<close>

record ControllerConfig =
  canary_weight :: f64
  stable_endpoint :: string
  canary_endpoint :: string
  min_requests_before_promote :: u64
  error_rate_threshold :: f64

definition ControllerConfig_default :: ControllerConfig where
  "ControllerConfig_default = \<lparr>canary_weight = rnd64 (10 / 100), stable_endpoint = ''stable'', canary_endpoint = ''canary'',
     min_requests_before_promote = 100, error_rate_threshold = rnd64 (5 / 100)\<rparr>"

datatype CanaryRoute = Stable | Canary

datatype CanaryDecision = Promote | Rollback | Continue

text \<open>\<open>Active\<close> counts the requests sent to the canary and the errors among them.\<close>

datatype ControllerState = Inactive | Active u64 u64 | Promoted | RolledBack

definition is_active :: "ControllerState \<Rightarrow> bool" where
  "is_active s = (case s of Active n e \<Rightarrow> True | _ \<Rightarrow> False)"

record Controller =
  cc_config :: ControllerConfig
  cc_state :: ControllerState
  stable_requests :: u64
  stable_errors :: u64
  cc_total :: u64

definition controller_new :: "ControllerConfig \<Rightarrow> Controller" where
  "controller_new c = \<lparr>cc_config = c, cc_state = Inactive, stable_requests = 0, stable_errors = 0, cc_total = 0\<rparr>"

definition rate_of :: "u64 \<Rightarrow> u64 \<Rightarrow> f64" where
  "rate_of n e = (if n = 0 then FFin 0 else f64_div (f64_of_u64 e) (f64_of_u64 n))"

definition activate :: "Controller \<Rightarrow> Controller" where
  "activate c = (case cc_state c of Inactive \<Rightarrow> c\<lparr>cc_state := Active 0 0\<rparr> | _ \<Rightarrow> c)"

definition route_threshold :: "ControllerConfig \<Rightarrow> u64" where
  "route_threshold c = f64_to_u64 (f64_mul (f64_clamp (canary_weight c) (FFin 0) (FFin 1)) (FFin 1000))"

definition route :: "u64 \<Rightarrow> Controller \<Rightarrow> CanaryRoute" where
  "route request_id c =
    (if \<not> is_active (cc_state c) then Stable
     else if request_id mod 1000 < route_threshold (cc_config c) then Canary else Stable)"

definition record_result :: "CanaryRoute \<Rightarrow> bool \<Rightarrow> Controller \<Rightarrow> Controller" where
  "record_result r success c =
    (let c = c\<lparr>cc_total := cc_total c + 1\<rparr>
     in case r of
          Stable \<Rightarrow> c\<lparr>stable_requests := stable_requests c + 1,
            stable_errors := (if success then stable_errors c else stable_errors c + 1)\<rparr>
        | Canary \<Rightarrow> (case cc_state c of
            Active n e \<Rightarrow> c\<lparr>cc_state := Active (n + 1) (if success then e else e + 1)\<rparr>
          | _ \<Rightarrow> c))"

definition evaluate :: "Controller \<Rightarrow> CanaryDecision" where
  "evaluate c =
    (case cc_state c of
       Active n e \<Rightarrow>
         if n < min_requests_before_promote (cc_config c) then Continue
         else if fp_lt (error_rate_threshold (cc_config c)) (rate_of n e) then Rollback
         else Promote
     | _ \<Rightarrow> Continue)"

definition apply_decision :: "CanaryDecision \<Rightarrow> Controller \<Rightarrow> CanaryDecision option \<times> Controller" where
  "apply_decision d c =
    (case d of
       Promote \<Rightarrow> (Some Promote, c\<lparr>cc_state := Promoted\<rparr>)
     | Rollback \<Rightarrow> (Some Rollback, c\<lparr>cc_state := RolledBack\<rparr>)
     | Continue \<Rightarrow> (None, c))"

text \<open>A call that nothing interrupts.\<close>

definition auto_advance :: "Controller \<Rightarrow> CanaryDecision option \<times> Controller" where
  "auto_advance c = apply_decision (evaluate c) c"

record ControllerMetrics =
  total_requests :: u64
  canary_requests :: u64
  canary_error_rate :: f64
  stable_error_rate :: f64

definition controller_metrics :: "Controller \<Rightarrow> ControllerMetrics" where
  "controller_metrics c =
    (let (n, e) = (case cc_state c of Active n e \<Rightarrow> (n, e) | _ \<Rightarrow> (0, 0))
     in \<lparr>total_requests = cc_total c, canary_requests = n, canary_error_rate = rate_of n e,
          stable_error_rate = rate_of (stable_requests c) (stable_errors c)\<rparr>)"

section \<open>The deployer\<close>

datatype CanaryStage = StageInactive | Running f64 | Paused | RollingBack | Complete | Failed string

record StageMetrics =
  success_count :: u64
  error_count :: u64
  latency_sum_ms :: u64
  latency_count :: u64

definition stage_metrics_zero :: StageMetrics where
  "stage_metrics_zero = \<lparr>success_count = 0, error_count = 0, latency_sum_ms = 0, latency_count = 0\<rparr>"

definition metrics_total :: "StageMetrics \<Rightarrow> u64" where
  "metrics_total m = success_count m + error_count m"

definition error_rate :: "StageMetrics \<Rightarrow> f64" where
  "error_rate m = rate_of (metrics_total m) (error_count m)"

definition avg_latency_ms :: "StageMetrics \<Rightarrow> f64" where
  "avg_latency_ms m = rate_of (latency_count m) (latency_sum_ms m)"

record DeployConfig =
  canary_id :: string
  baseline_backend :: string
  canary_backend :: string
  initial_traffic_pct :: f64
  step_pct :: f64
  step_interval_secs :: u64
  max_error_rate :: f64
  max_p99_latency_ms :: f64
  auto_promote :: bool

record CanaryDeployment =
  dp_config :: DeployConfig
  stage :: CanaryStage
  baseline_metrics :: StageMetrics
  canary_metrics :: StageMetrics
  last_step_at :: nat

definition deployment_new :: "nat \<Rightarrow> DeployConfig \<Rightarrow> CanaryDeployment" where
  "deployment_new now c = \<lparr>dp_config = c, stage = Running (initial_traffic_pct c), baseline_metrics = stage_metrics_zero,
     canary_metrics = stage_metrics_zero, last_step_at = now\<rparr>"

definition route_request :: "u64 \<Rightarrow> CanaryDeployment \<Rightarrow> string" where
  "route_request seed d =
    (let pct = (case stage d of Running p \<Rightarrow> p | _ \<Rightarrow> FFin 0);
         mixed = seed * 6364136223846793005 + 1442695040888963407
     in if fp_lt (f64_of_u64 (mixed mod 100)) pct then ''canary'' else ''baseline'')"

definition metrics_record :: "bool \<Rightarrow> u64 \<Rightarrow> StageMetrics \<Rightarrow> StageMetrics" where
  "metrics_record success ms m =
    (let m = (if success then m\<lparr>success_count := success_count m + 1\<rparr> else m\<lparr>error_count := error_count m + 1\<rparr>)
     in m\<lparr>latency_sum_ms := latency_sum_ms m + ms, latency_count := latency_count m + 1\<rparr>)"

definition deployment_record :: "string \<Rightarrow> bool \<Rightarrow> u64 \<Rightarrow> CanaryDeployment \<Rightarrow> CanaryDeployment" where
  "deployment_record backend success ms d =
    (if backend = ''canary'' then d\<lparr>canary_metrics := metrics_record success ms (canary_metrics d)\<rparr>
     else d\<lparr>baseline_metrics := metrics_record success ms (baseline_metrics d)\<rparr>)"

definition should_advance :: "nat \<Rightarrow> CanaryDeployment \<Rightarrow> bool" where
  "should_advance now d = (unat (step_interval_secs (dp_config d)) \<le> (now - last_step_at d) div 10 ^ 9)"

definition advance :: "nat \<Rightarrow> CanaryDeployment \<Rightarrow> (string + f64) \<times> CanaryDeployment" where
  "advance now d =
    (case stage d of
       Running p \<Rightarrow>
         let next = f64_min (f64_add p (step_pct (dp_config d))) (FFin 100)
         in (Inr next, d\<lparr>stage := Running next, last_step_at := now\<rparr>)
     | _ \<Rightarrow> (Inl ''deployment is not in Running stage'', d))"

text \<open>\<open>fmt_errors\<close> and \<open>fmt_latency\<close> print the two reasons.\<close>

definition check_health :: "(f64 \<Rightarrow> f64 \<Rightarrow> string) \<Rightarrow> (f64 \<Rightarrow> f64 \<Rightarrow> string) \<Rightarrow> CanaryDeployment \<Rightarrow> string + unit" where
  "check_health fmt_errors fmt_latency d =
    (let e = error_rate (canary_metrics d); l = avg_latency_ms (canary_metrics d); c = dp_config d
     in if fp_lt (max_error_rate c) e then Inl (fmt_errors (f64_mul e (FFin 100)) (f64_mul (max_error_rate c) (FFin 100)))
        else if fp_lt (max_p99_latency_ms c) l then Inl (fmt_latency l (max_p99_latency_ms c))
        else Inr ())"

definition rollback :: "CanaryDeployment \<Rightarrow> CanaryDeployment" where
  "rollback d = d\<lparr>stage := RollingBack\<rparr>"

definition promote :: "CanaryDeployment \<Rightarrow> CanaryDeployment" where
  "promote d = d\<lparr>stage := Complete\<rparr>"

definition reported_traffic_pct :: "CanaryDeployment \<Rightarrow> f64" where
  "reported_traffic_pct d = (case stage d of Running p \<Rightarrow> p | Complete \<Rightarrow> FFin 100 | _ \<Rightarrow> FFin 0)"

text \<open>One deployment's turn in \<open>tick_all\<close>; the clock is read to see whether it is due and again to advance it.\<close>

definition tick :: "(f64 \<Rightarrow> f64 \<Rightarrow> string) \<Rightarrow> (f64 \<Rightarrow> f64 \<Rightarrow> string) \<Rightarrow> nat \<Rightarrow> nat \<Rightarrow> CanaryDeployment \<Rightarrow> CanaryDeployment" where
  "tick fe fl now now_step d =
    (case stage d of
       Running p \<Rightarrow>
         if \<not> should_advance now d then d
         else (case check_health fe fl d of
                 Inl reason \<Rightarrow> d\<lparr>stage := Failed reason\<rparr>
               | Inr u \<Rightarrow>
                   (case advance now_step d of
                      (Inr new_pct, d) \<Rightarrow> if fp_le (FFin 100) new_pct \<and> auto_promote (dp_config d) then promote d else d
                    | (Inl e, d) \<Rightarrow> d))
     | _ \<Rightarrow> d)"

type_synonym CanaryManager = "(string, CanaryDeployment) hashmap"

definition manager_create :: "nat \<Rightarrow> DeployConfig \<Rightarrow> CanaryManager \<Rightarrow> CanaryManager" where
  "manager_create now c m = hm_insert (canary_id c) (deployment_new now c) m"

definition tick_all :: "(f64 \<Rightarrow> f64 \<Rightarrow> string) \<Rightarrow> (f64 \<Rightarrow> f64 \<Rightarrow> string) \<Rightarrow> (string \<Rightarrow> nat \<times> nat) \<Rightarrow> CanaryManager \<Rightarrow> CanaryManager" where
  "tick_all fe fl clock m = map (\<lambda>(k, d). (k, tick fe fl (fst (clock k)) (snd (clock k)) d)) m"

section \<open>Lemmas\<close>

lemma residues_below:
  fixes m t :: nat
  assumes "t \<le> m"
  shows "length (filter (\<lambda>i. i mod m < t) [k..<k + m]) = t"
proof (induction k)
  case 0
  have "{i. i < m \<and> i mod m < t} = {..<t}" using assms by auto
  then show ?case by (simp add: length_filter_conv_card cong: conj_cong)
next
  case (Suc k)
  show ?case
  proof (cases "m = 0")
    case False
    have "[k..<k + m] = k # [Suc k..<k + m]" using False by (simp add: upt_conv_Cons)
    moreover have "[Suc k..<Suc k + m] = [Suc k..<k + m] @ [k + m]" using False by simp
    ultimately show ?thesis using Suc by (auto split: if_splits)
  qed (use assms in simp)
qed

lemma route_threshold_le: "unat (route_threshold c) \<le> 1000"
proof -
  have "fp_le x (FFin 1000) \<or> x = FNaN \<Longrightarrow> unat (f64_to_u64 x) \<le> 1000" for x
  proof (elim disjE)
    assume "fp_le x (FFin 1000)"
    then have "f64_to_u64 x \<le> f64_to_u64 (FFin 1000)" by (rule f64_to_u64_mono)
    then show ?thesis using f64_of_nat_roundtrip [of 1000] f64_of_nat_exact [of 1000] by (simp add: word_le_nat_alt del: f64_to_u64.simps)
  qed simp
  moreover have "f64_mul (f64_clamp w (FFin 0) (FFin 1)) (FFin 1000) = FNaN
      \<or> fp_le (f64_mul (f64_clamp w (FFin 0) (FFin 1)) (FFin 1000)) (FFin 1000)" for w
  proof (cases "f64_clamp w (FFin 0) (FFin 1)")
    case (FFin q)
    then have "q \<le> 1" by (cases w) (auto simp: f64_clamp_def split: if_splits)
    then show ?thesis using rnd64_mono [of "q * 1000" 1000] rnd64_dyadic [of 1000 0] by (simp add: FFin)
  qed (cases w; auto simp: f64_clamp_def split: if_splits)+
  ultimately show ?thesis unfolding route_threshold_def by blast
qed

section \<open>Properties of the controller\<close>

text \<open>
  While the canary is active, exactly its threshold of any thousand consecutive requests go to it.
\<close>

theorem active_split_is_exact:
  assumes "is_active (cc_state c)" and "k + 1000 \<le> 2 ^ 64"
  shows "length (filter (\<lambda>i. route (of_nat i) c = Canary) [k..<k + 1000]) = unat (route_threshold (cc_config c))"
proof -
  have "filter (\<lambda>i. route (of_nat i) c = Canary) [k..<k + 1000] = filter (\<lambda>i. i mod 1000 < unat (route_threshold (cc_config c))) [k..<k + 1000]"
  proof (rule filter_cong)
    fix i
    assume "i \<in> set [k..<k + 1000]"
    then have "unat (of_nat i mod 1000 :: u64) = i mod 1000" using assms(2) by (simp add: unat_mod_distrib unat_of_nat_small)
    then show "(route (of_nat i) c = Canary) = (i mod 1000 < unat (route_threshold (cc_config c)))"
      using assms(1) by (simp add: route_def word_less_nat_alt)
  qed simp
  then show ?thesis by (simp only: residues_below [OF route_threshold_le])
qed

theorem active_split_is_exact_witness:
  "length (filter (\<lambda>i. route (of_nat i) (activate (controller_new ControllerConfig_default)) = Canary) [7..<1007])
     = unat (route_threshold ControllerConfig_default)"
  using active_split_is_exact [of "activate (controller_new ControllerConfig_default)" 7]
  by (simp add: is_active_def activate_def controller_new_def)

text \<open>A promoted canary gets no traffic: every request goes to the stable endpoint.\<close>

theorem promoted_canary_gets_nothing:
  "case auto_advance c of
     (Some Promote, c') \<Rightarrow> cc_state c' = Promoted \<and> route request_id c' = Stable
   | _ \<Rightarrow> True"
  by (simp add: auto_advance_def apply_decision_def route_def is_active_def split: CanaryDecision.split)

text \<open>
  Evaluation and application are not one step: a call that saw a healthy canary applies its promotion
  after another call has rolled the canary back.
\<close>

definition eager_config :: ControllerConfig where
  "eager_config = ControllerConfig_default\<lparr>min_requests_before_promote := 1\<rparr>"

theorem promotion_overwrites_rollback:
  "let seen_healthy = record_result Canary True (activate (controller_new eager_config));
       failing = record_result Canary False seen_healthy;
       rolled_back = snd (auto_advance failing)
   in cc_state rolled_back = RolledBack \<and> cc_state (snd (apply_decision (evaluate seen_healthy) rolled_back)) = Promoted"
proof -
  have e: "rnd64 2 = FFin 2" "rnd64 (1 / 2) = FFin (1 / 2)" using rnd64_dyadic [of 2 0] rnd64_dyadic [of 1 1] by simp_all
  obtain r where r: "rnd64 (5 / 100) = FFin r" "0 \<le> r" "r \<le> 5 / 100 + 1 / 2 ^ 54" by (rule rnd64_unit [of "5 / 100"]) simp_all
  then have "r < 1 / 2" by simp
  then show ?thesis using r(1,2)
    by (simp add: record_result_def activate_def controller_new_def eager_config_def ControllerConfig_default_def
        auto_advance_def evaluate_def apply_decision_def rate_of_def f64_of_u64_def f64_of_nat_def e Let_def)
qed

section \<open>Properties of the deployer\<close>

text \<open>A deployment promoted to all traffic serves none: every request is routed to the baseline.\<close>

theorem promoted_deployment_serves_baseline:
  "reported_traffic_pct (promote d) = FFin 100 \<and> route_request seed (promote d) = ''baseline''"
proof -
  have "\<not> fp_lt (f64_of_u64 x) (FFin 0)" for x
    using f64_of_nat_nonneg [of "unat x"] fp_lt_imp_not_le by (auto simp: f64_of_u64_def)
  then show ?thesis by (simp add: promote_def route_request_def reported_traffic_pct_def Let_def)
qed

text \<open>
  A healthy deployment that is ticked once per interval moves up by its step each time and is
  promoted by the tick that reaches a hundred percent, not before.
\<close>

lemma tick_rises:
  assumes "stage d = Running (FFin (of_nat p))" and "step_pct (dp_config d) = FFin (of_nat s)" and "p < 100" and "0 < s" and "s \<le> 100"
    and "auto_promote (dp_config d)" and "check_health fe fl d = Inr ()" and "should_advance now d"
  shows "tick fe fl now now d = d\<lparr>stage := if p + s < 100 then Running (FFin (of_nat (p + s))) else Complete, last_step_at := now\<rparr>"
proof -
  have r: "rnd64 (of_nat p + of_nat s) = FFin (of_nat p + of_nat s)" using rnd64_dyadic [of "p + s" 0] assms(3,5) by simp
  have "((100 :: rat) < of_nat p + of_nat s) = (100 < p + s)" "((100 :: rat) \<le> of_nat p + of_nat s) = (100 \<le> p + s)"
    using of_nat_less_iff [of 100 "p + s", where ?'a = rat] of_nat_le_iff [of 100 "p + s", where ?'a = rat] by simp_all
  then show ?thesis using assms(1,2,6,7,8) r
    by (auto simp: tick_def advance_def promote_def f64_min_def Let_def)
qed

lemma tick_complete: "stage d = Complete \<Longrightarrow> tick fe fl now now d = d"
  by (simp add: tick_def)

definition on_schedule :: "nat \<Rightarrow> DeployConfig \<Rightarrow> nat \<Rightarrow> nat" where
  "on_schedule t0 c j = t0 + Suc j * (unat (step_interval_secs c) * 10 ^ 9)"

theorem healthy_rollout_completes:
  assumes "initial_traffic_pct c = FFin (of_nat i)" and "step_pct c = FFin (of_nat s)" and "i < 100" and "0 < s" and "s \<le> 100"
    and "auto_promote c" and "check_health fe fl (deployment_new t0 c\<lparr>canary_metrics := m\<rparr>) = Inr ()"
  shows "stage (fold (\<lambda>t. tick fe fl t t) (map (on_schedule t0 c) [0..<n]) (deployment_new t0 c\<lparr>canary_metrics := m\<rparr>))
    = (if i + n * s < 100 then Running (FFin (of_nat (i + n * s))) else Complete)"
proof -
  let ?d = "deployment_new t0 c\<lparr>canary_metrics := m\<rparr>"
  let ?run = "\<lambda>n. fold (\<lambda>t. tick fe fl t t) (map (on_schedule t0 c) [0..<n]) ?d"
  have "stage (?run n) = (if i + n * s < 100 then Running (FFin (of_nat (i + n * s))) else Complete)
    \<and> dp_config (?run n) = c \<and> canary_metrics (?run n) = m
    \<and> (i + n * s < 100 \<longrightarrow> last_step_at (?run n) = t0 + n * (unat (step_interval_secs c) * 10 ^ 9))"
  proof (induction n)
    case 0
    then show ?case using assms(1,3) by (simp add: deployment_new_def)
  next
    case (Suc n)
    let ?t = "on_schedule t0 c n"
    obtain d where d: "?run n = d" by blast
    have step: "?run (Suc n) = tick fe fl ?t ?t d" by (simp add: d)
    show ?case
    proof (cases "i + n * s < 100")
      case False
      then have "tick fe fl ?t ?t d = d" using Suc by (intro tick_complete) (simp add: d)
      then show ?thesis unfolding step using Suc False by (simp add: d)
    next
      case True
      then have st: "stage d = Running (FFin (of_nat (i + n * s)))" "dp_config d = c" "canary_metrics d = m"
        "last_step_at d = t0 + n * (unat (step_interval_secs c) * 10 ^ 9)" using Suc by (simp_all add: d)
      have "check_health fe fl d = Inr ()"
        using assms(7) by (simp add: st check_health_def deployment_new_def del: of_nat_add of_nat_mult)
      moreover have "should_advance ?t d" by (simp add: st should_advance_def on_schedule_def)
      ultimately have "tick fe fl ?t ?t d =
          d\<lparr>stage := if i + n * s + s < 100 then Running (FFin (of_nat (i + n * s + s))) else Complete, last_step_at := ?t\<rparr>"
        using st(1,2) assms(2,4-6) True by (intro tick_rises) simp_all
      moreover have "i + Suc n * s = i + n * s + s" by simp
      ultimately show ?thesis unfolding step using st(2,3) by (simp add: on_schedule_def del: of_nat_add of_nat_mult mult_Suc)
    qed
  qed
  then show ?thesis by blast
qed

definition three_steps :: DeployConfig where
  "three_steps = \<lparr>canary_id = ''x'', baseline_backend = ''b'', canary_backend = ''c'', initial_traffic_pct = FFin 10, step_pct = FFin 30,
    step_interval_secs = 60, max_error_rate = FFin 1, max_p99_latency_ms = FFin 100, auto_promote = True\<rparr>"

theorem healthy_rollout_completes_witness:
  "stage (fold (\<lambda>t. tick fe fl t t) (map (on_schedule 0 three_steps) [0..<3]) (deployment_new 0 three_steps\<lparr>canary_metrics := stage_metrics_zero\<rparr>)) = Complete"
  using healthy_rollout_completes [where c = three_steps and i = 10 and s = 30 and fe = fe and fl = fl and ?t0.0 = 0 and m = stage_metrics_zero and n = 3]
  by (simp add: check_health_def deployment_new_def error_rate_def avg_latency_ms_def rate_of_def metrics_total_def stage_metrics_zero_def
      three_steps_def Let_def)

end
