(* ===== verification/RateLimits.thy ===== *)
theory RateLimits
  imports TokenBucket
begin

text \<open>
  The two per-client rate limiters: sliding windows selected by route prefix
  (\<open>src/rate_limiter.rs\<close>), and token buckets combined with windows of weighted entries
  (\<open>src/rate_limiter_v2.rs\<close>). An \<open>Instant\<close> is the number of nanoseconds since the earliest
  instant the platform can represent, so that \<open>checked_sub\<close> fails below zero.
\<close>

section \<open>Windows by route\<close>

record RateLimitRule =
  route_prefix :: string
  client_key_header :: "string option"
  requests_per_window :: u32
  window_secs :: u64
  burst_allowance :: u32

record ClientWindow =
  timestamps :: "nat list"
  burst_used :: u32

definition client_window_new :: ClientWindow where
  "client_window_new = \<lparr>timestamps = [], burst_used = 0\<rparr>"

definition checked_sub :: "nat \<Rightarrow> nat \<Rightarrow> nat option" where
  "checked_sub now d = (if d \<le> now then Some (now - d) else None)"

definition window_ns :: "u64 \<Rightarrow> nat" where
  "window_ns s = unat s * 10 ^ 9"

definition slide :: "nat \<Rightarrow> ClientWindow \<Rightarrow> ClientWindow" where
  "slide cutoff w =
    (let ts = dropWhile (\<lambda>t. t < cutoff) (timestamps w)
     in \<lparr>timestamps = ts, burst_used = (if ts = [] then 0 else burst_used w)\<rparr>)"

definition record_and_check :: "nat \<Rightarrow> u32 \<Rightarrow> u64 \<Rightarrow> u32 \<Rightarrow> ClientWindow \<Rightarrow> bool \<times> ClientWindow" where
  "record_and_check now limit wsecs burst w =
    (let cutoff = (case checked_sub now (window_ns wsecs) of Some c \<Rightarrow> c | None \<Rightarrow> now);
         w = slide cutoff w
     in if of_nat (length (timestamps w)) < limit then (True, w\<lparr>timestamps := timestamps w @ [now]\<rparr>)
        else if burst_used w < burst
             then (True, w\<lparr>burst_used := burst_used w + 1, timestamps := timestamps w @ [now]\<rparr>)
        else (False, w))"

datatype RateLimitDecision = Allow u32 | Deny u64

record RateLimiter =
  rl_rules :: "RateLimitRule list"
  rl_windows :: "(string, ClientWindow) hashmap"
  total_limited :: u64
  total_allowed :: u64

definition rate_limiter_new :: RateLimiter where
  "rate_limiter_new = \<lparr>rl_rules = [], rl_windows = [], total_limited = 0, total_allowed = 0\<rparr>"

definition add_rule :: "RateLimitRule \<Rightarrow> RateLimiter \<Rightarrow> RateLimiter" where
  "add_rule r l = l\<lparr>rl_rules := rl_rules l @ [r]\<rparr>"

text \<open>\<open>max_by_key\<close> returns the last of several maxima.\<close>

definition longer_prefix :: "RateLimitRule \<Rightarrow> RateLimitRule option \<Rightarrow> RateLimitRule option" where
  "longer_prefix r best =
    (case best of None \<Rightarrow> Some r
     | Some b \<Rightarrow> Some (if length (route_prefix b) \<le> length (route_prefix r) then r else b))"

definition matches_route :: "string \<Rightarrow> RateLimitRule \<Rightarrow> bool" where
  "matches_route route r = (take (length (route_prefix r)) route = route_prefix r)"

definition rule_for :: "string \<Rightarrow> RateLimitRule list \<Rightarrow> RateLimitRule option" where
  "rule_for route rs = fold longer_prefix (filter (matches_route route) rs) None"

definition window_key :: "string \<Rightarrow> string \<Rightarrow> string" where
  "window_key prefix client = prefix @ '':'' @ client"

definition window_of :: "string \<Rightarrow> RateLimiter \<Rightarrow> ClientWindow" where
  "window_of k l = (case hm_get (rl_windows l) k of Some w \<Rightarrow> w | None \<Rightarrow> client_window_new)"

definition check_request :: "nat \<Rightarrow> string \<Rightarrow> string \<Rightarrow> RateLimiter \<Rightarrow> RateLimitDecision \<times> RateLimiter" where
  "check_request now route client l =
    (case rule_for route (rl_rules l) of
       None \<Rightarrow> (Allow (- 1), l\<lparr>total_allowed := total_allowed l + 1\<rparr>)
     | Some r \<Rightarrow>
         let key = window_key (route_prefix r) client;
             (allowed, w) = record_and_check now (requests_per_window r) (window_secs r) (burst_allowance r) (window_of key l);
             l = l\<lparr>rl_windows := hm_insert key w (rl_windows l)\<rparr>
         in if allowed then
              (Allow (sat_sub (requests_per_window r + burst_allowance r) (of_nat (length (timestamps w)))),
               l\<lparr>total_allowed := total_allowed l + 1\<rparr>)
            else (Deny (window_secs r), l\<lparr>total_limited := total_limited l + 1\<rparr>))"

definition rate_stats :: "RateLimiter \<Rightarrow> u64 \<times> u64" where
  "rate_stats l = (total_allowed l, total_limited l)"

definition cleanup_expired_windows :: "RateLimiter \<Rightarrow> RateLimiter" where
  "cleanup_expired_windows l = l\<lparr>rl_windows := filter (\<lambda>(_, w). timestamps w \<noteq> []) (rl_windows l)\<rparr>"

section \<open>Buckets with windows\<close>

datatype RateLimitAlgorithm = TokenBucket | SlidingWindow | FixedWindow | Hybrid

record WindowEntry =
  we_timestamp_ms :: u64
  we_count :: u64

record SlidingWindowLimiter =
  entries :: "WindowEntry list"
  sw_window_ms :: u64
  sw_max_count :: u64

definition sliding_new :: "u64 \<Rightarrow> u64 \<Rightarrow> SlidingWindowLimiter" where
  "sliding_new w m = \<lparr>entries = [], sw_window_ms = w, sw_max_count = m\<rparr>"

definition evict_entries :: "u64 \<Rightarrow> SlidingWindowLimiter \<Rightarrow> SlidingWindowLimiter" where
  "evict_entries now s =
     s\<lparr>entries := dropWhile (\<lambda>e. sat_add (we_timestamp_ms e) (sw_window_ms s) \<le> now) (entries s)\<rparr>"

definition entry_total :: "SlidingWindowLimiter \<Rightarrow> u64" where
  "entry_total s = sum_list (map we_count (entries s))"

definition push_entry :: "u64 \<Rightarrow> u64 \<Rightarrow> SlidingWindowLimiter \<Rightarrow> SlidingWindowLimiter" where
  "push_entry now n s = s\<lparr>entries := entries s @ [\<lparr>we_timestamp_ms = now, we_count = n\<rparr>]\<rparr>"

definition window_try_allow :: "u64 \<Rightarrow> u64 \<Rightarrow> SlidingWindowLimiter \<Rightarrow> bool \<times> SlidingWindowLimiter" where
  "window_try_allow now n s =
    (let s = evict_entries now s
     in if sat_add (entry_total s) n \<le> sw_max_count s then (True, push_entry now n s) else (False, s))"

definition window_current_count :: "u64 \<Rightarrow> SlidingWindowLimiter \<Rightarrow> u64 \<times> SlidingWindowLimiter" where
  "window_current_count now s = (let s = evict_entries now s in (entry_total s, s))"

record TokenBucketV2 =
  tb_capacity :: f64
  tb_tokens :: f64
  tb_refill_rate :: f64
  tb_last_ms :: u64

definition bucket_v2_new :: "f64 \<Rightarrow> f64 \<Rightarrow> TokenBucketV2" where
  "bucket_v2_new cap rate = \<lparr>tb_capacity = cap, tb_tokens = cap, tb_refill_rate = rate, tb_last_ms = 0\<rparr>"

definition refill_v2 :: "u64 \<Rightarrow> TokenBucketV2 \<Rightarrow> TokenBucketV2" where
  "refill_v2 now b =
    (if tb_last_ms b < now then
       let elapsed_sec = f64_div (f64_of_u64 (now - tb_last_ms b)) (FFin 1000)
       in b\<lparr>tb_tokens := f64_min (f64_add (tb_tokens b) (f64_mul (tb_refill_rate b) elapsed_sec)) (tb_capacity b),
            tb_last_ms := now\<rparr>
     else b)"

definition try_consume_v2 :: "u64 \<Rightarrow> f64 \<Rightarrow> TokenBucketV2 \<Rightarrow> bool \<times> TokenBucketV2" where
  "try_consume_v2 now n b =
    (let b = refill_v2 now b
     in if fp_le n (tb_tokens b) then (True, b\<lparr>tb_tokens := f64_sub (tb_tokens b) n\<rparr>) else (False, b))"

record HybridLimiter =
  hy_bucket :: TokenBucketV2
  hy_window :: SlidingWindowLimiter

definition hybrid_new :: "f64 \<Rightarrow> f64 \<Rightarrow> u64 \<Rightarrow> u64 \<Rightarrow> HybridLimiter" where
  "hybrid_new cap rate w m = \<lparr>hy_bucket = bucket_v2_new cap rate, hy_window = sliding_new w m\<rparr>"

definition hybrid_try_allow :: "u64 \<Rightarrow> f64 \<Rightarrow> HybridLimiter \<Rightarrow> bool \<times> HybridLimiter" where
  "hybrid_try_allow now n h =
    (let h = h\<lparr>hy_window := evict_entries now (hy_window h)\<rparr>;
         needed = f64_to_u64 (f64_ceil n)
     in if sat_add (entry_total (hy_window h)) needed \<le> sw_max_count (hy_window h) then
          case try_consume_v2 now n (hy_bucket h) of
            (bucket_ok, b) \<Rightarrow>
              (bucket_ok, h\<lparr>hy_bucket := b,
                hy_window := (if bucket_ok then push_entry now needed (hy_window h) else hy_window h)\<rparr>)
        else (False, h))"

record RateLimiterV2 =
  v2_limiters :: "(string, HybridLimiter \<times> u64 \<times> u64) hashmap"
  v2_algorithm :: RateLimitAlgorithm

definition limiter_v2_new :: "RateLimitAlgorithm \<Rightarrow> RateLimiterV2" where
  "limiter_v2_new a = \<lparr>v2_limiters = [], v2_algorithm = a\<rparr>"

definition register_client :: "string \<Rightarrow> f64 \<Rightarrow> f64 \<Rightarrow> u64 \<Rightarrow> u64 \<Rightarrow> RateLimiterV2 \<Rightarrow> RateLimiterV2" where
  "register_client c cap rate w m l =
     l\<lparr>v2_limiters := hm_insert c (hybrid_new cap rate w m, 0, 0) (v2_limiters l)\<rparr>"

definition check_v2 :: "string \<Rightarrow> u64 \<Rightarrow> f64 \<Rightarrow> RateLimiterV2 \<Rightarrow> bool \<times> RateLimiterV2" where
  "check_v2 c now n l =
    (case hm_get (v2_limiters l) c of
       None \<Rightarrow> (False, l)
     | Some (h, allowed, rejected) \<Rightarrow>
         case hybrid_try_allow now n h of
           (ok, h) \<Rightarrow>
             (ok, l\<lparr>v2_limiters := hm_insert c
                (if ok then (h, allowed + 1, rejected) else (h, allowed, rejected + 1)) (v2_limiters l)\<rparr>))"

record RateLimiterStats =
  st_client_id :: string
  st_current_tokens :: f64
  st_window_count :: u64
  st_allowed :: u64
  st_rejected :: u64

definition client_stats :: "string \<Rightarrow> RateLimiterV2 \<Rightarrow> RateLimiterStats option" where
  "client_stats c l =
     map_option (\<lambda>(h, allowed, rejected).
       \<lparr>st_client_id = c, st_current_tokens = tb_tokens (hy_bucket h), st_window_count = entry_total (hy_window h),
        st_allowed = allowed, st_rejected = rejected\<rparr>) (hm_get (v2_limiters l) c)"

section \<open>What a window remembers\<close>

text \<open>The requests of one client to one rule, and the instants at which they were allowed.\<close>

definition window_call :: "u32 \<Rightarrow> u64 \<Rightarrow> u32 \<Rightarrow> nat \<Rightarrow> nat list \<times> ClientWindow \<Rightarrow> nat list \<times> ClientWindow" where
  "window_call limit s burst t aw =
    (case record_and_check t limit s burst (snd aw) of (ok, w) \<Rightarrow> (if ok then fst aw @ [t] else fst aw, w))"

definition window_run :: "u32 \<Rightarrow> u64 \<Rightarrow> u32 \<Rightarrow> nat list \<Rightarrow> nat list \<times> ClientWindow" where
  "window_run limit s burst ts = fold (window_call limit s burst) ts ([], client_window_new)"

lemma window_run_snoc: "window_run limit s burst (ts @ [t]) = window_call limit s burst t (window_run limit s burst ts)"
  by (simp add: window_run_def)

lemma dropWhile_sorted: "sorted xs \<Longrightarrow> dropWhile (\<lambda>x. x < c) xs = filter (\<lambda>x. c \<le> x) (xs :: nat list)"
  by (induction xs) (auto simp: not_less intro!: filter_True [symmetric] elim: order_trans)

lemma length_filter_mono: "(\<And>x. x \<in> set xs \<Longrightarrow> P x \<Longrightarrow> Q x) \<Longrightarrow> length (filter P xs) \<le> length (filter Q xs)"
  by (induction xs) auto

definition remembered :: "nat \<Rightarrow> nat \<Rightarrow> u32 \<Rightarrow> u32 \<Rightarrow> nat list \<times> ClientWindow \<Rightarrow> bool" where
  "remembered W now limit burst aw \<longleftrightarrow>
     sorted (fst aw) \<and> (\<forall>t \<in> set (fst aw). t \<le> now)
     \<and> timestamps (snd aw) = filter (\<lambda>t. now - W \<le> t) (fst aw)
     \<and> length (timestamps (snd aw)) \<le> unat limit + unat (burst_used (snd aw)) \<and> burst_used (snd aw) \<le> burst"

lemma slide_remembered:
  assumes "remembered W u limit burst aw" and "u \<le> t"
  shows "timestamps (slide (t - W) (snd aw)) = filter (\<lambda>x. t - W \<le> x) (fst aw)"
    and "length (timestamps (slide (t - W) (snd aw))) \<le> unat limit + unat (burst_used (slide (t - W) (snd aw)))"
    and "burst_used (slide (t - W) (snd aw)) \<le> burst"
proof -
  have s: "sorted (timestamps (snd aw))" using assms(1) by (simp add: remembered_def sorted_filter [where f = "\<lambda>x. x", simplified])
  have "filter (\<lambda>x. t - W \<le> x) (timestamps (snd aw)) = filter (\<lambda>x. t - W \<le> x) (fst aw)"
    using assms by (auto simp: remembered_def intro!: filter_cong)
  then show 1: "timestamps (slide (t - W) (snd aw)) = filter (\<lambda>x. t - W \<le> x) (fst aw)"
    using dropWhile_sorted [OF s] by (simp add: slide_def Let_def)
  have "length (dropWhile (\<lambda>x. x < t - W) (timestamps (snd aw))) \<le> unat limit + unat (burst_used (snd aw))"
    using assms(1) order_trans [OF length_dropWhile_le] by (auto simp: remembered_def)
  then show "length (timestamps (slide (t - W) (snd aw))) \<le> unat limit + unat (burst_used (slide (t - W) (snd aw)))"
    by (simp add: slide_def Let_def del: dropWhile_eq_Nil_conv)
  show "burst_used (slide (t - W) (snd aw)) \<le> burst"
    using assms(1) by (simp add: remembered_def slide_def Let_def)
qed

lemma remembered_call:
  assumes "remembered (window_ns s) u limit burst aw" and "u \<le> t" and "window_ns s \<le> t"
    and "unat limit + unat burst < 2 ^ 32"
  shows "remembered (window_ns s) t limit burst (window_call limit s burst t aw)"
proof -
  define W where "W = window_ns s"
  define w where "w = slide (t - W) (snd aw)"
  note m = slide_remembered [OF assms(1,2), folded W_def, folded w_def]
  have b: "unat (burst_used w) \<le> unat burst" using m(3) by (simp add: word_le_nat_alt)
  have n: "unat (of_nat (length (timestamps w)) :: u32) = length (timestamps w)"
    using m(2) b assms(4) by (intro unat_of_nat_small) simp
  have old: "sorted (fst aw)" "\<forall>x \<in> set (fst aw). x \<le> t" using assms(1,2) by (auto simp: remembered_def)
  have c: "record_and_check t limit s burst (snd aw) =
      (if of_nat (length (timestamps w)) < limit then (True, w\<lparr>timestamps := timestamps w @ [t]\<rparr>)
       else if burst_used w < burst then (True, w\<lparr>burst_used := burst_used w + 1, timestamps := timestamps w @ [t]\<rparr>)
       else (False, w))"
    using assms(3) by (simp add: record_and_check_def checked_sub_def w_def W_def Let_def)
  have "unat (burst_used w + 1) = unat (burst_used w) + 1 \<and> burst_used w + 1 \<le> burst" if "burst_used w < burst"
    using that assms(4) unat_add_small [of "burst_used w" 1] by (simp add: word_less_nat_alt word_le_nat_alt)
  moreover have "length (timestamps w) < unat limit" if "of_nat (length (timestamps w)) < limit"
    using that n by (simp add: word_less_nat_alt)
  ultimately show ?thesis unfolding W_def [symmetric] window_call_def c remembered_def
    using m old by (auto simp: sorted_append)
qed

text \<open>At most so many instants of any stretch as long as the window.\<close>

definition stretch :: "nat \<Rightarrow> nat \<Rightarrow> nat list \<Rightarrow> nat list" where
  "stretch a W acc = filter (\<lambda>t. a \<le> t \<and> t \<le> a + W) acc"

lemma stretch_call:
  assumes "remembered W t limit burst (window_call limit s burst t aw)"
    and "\<And>a. length (stretch a W (fst aw)) \<le> unat limit + unat burst"
  shows "length (stretch a W (fst (window_call limit s burst t aw))) \<le> unat limit + unat burst"
proof (cases "fst (window_call limit s burst t aw) = fst aw @ [t] \<and> a \<le> t \<and> t \<le> a + W")
  case True
  have "length (stretch a W (fst aw @ [t])) \<le> length (filter (\<lambda>x. t - W \<le> x) (fst aw @ [t]))"
    unfolding stretch_def using True by (intro length_filter_mono) auto
  then show ?thesis using assms(1) True unfolding remembered_def by (auto simp: word_le_nat_alt)
next
  case False
  then show ?thesis using assms(2) [of a]
    by (auto simp: window_call_def stretch_def split: prod.splits if_splits)
qed

lemma window_run_stretch:
  assumes "unat limit + unat burst < 2 ^ 32" and "sorted ts" and "\<forall>t \<in> set ts. window_ns s \<le> t"
  shows "\<exists>u. remembered (window_ns s) u limit burst (window_run limit s burst ts) \<and> (\<forall>x. (\<forall>t \<in> set ts. t \<le> x) \<longrightarrow> u \<le> x)
    \<and> (\<forall>a. length (stretch a (window_ns s) (fst (window_run limit s burst ts))) \<le> unat limit + unat burst)"
  using assms(2,3)
proof (induction ts rule: rev_induct)
  case Nil
  show ?case by (intro exI [of _ 0]) (simp add: window_run_def remembered_def client_window_new_def stretch_def)
next
  case (snoc t ts)
  then obtain u where u: "remembered (window_ns s) u limit burst (window_run limit s burst ts)" "u \<le> t"
    and w: "\<And>a. length (stretch a (window_ns s) (fst (window_run limit s burst ts))) \<le> unat limit + unat burst"
    by (auto simp: sorted_append)
  have r: "remembered (window_ns s) t limit burst (window_call limit s burst t (window_run limit s burst ts))"
    using u snoc.prems(2) assms(1) by (intro remembered_call) simp_all
  show ?case unfolding window_run_snoc using r stretch_call [OF r w] by (intro exI [of _ t]) simp
qed

section \<open>The longest prefix\<close>

lemma fold_longer_prefix:
  "fold longer_prefix rs best = Some r \<Longrightarrow>
     (r \<in> set rs \<or> best = Some r) \<and> (\<forall>r' \<in> set rs \<union> set_option best. length (route_prefix r') \<le> length (route_prefix r))"
proof (induction rs arbitrary: best)
  case (Cons x rs)
  show ?case
    using Cons.IH [of "longer_prefix x best"] Cons.prems
    by (cases best) (auto simp: longer_prefix_def split: if_splits dest: order_trans)
qed simp

lemma fold_longer_prefix_None: "fold longer_prefix rs best = None \<longleftrightarrow> rs = [] \<and> best = None"
proof (induction rs arbitrary: best)
  case (Cons x rs)
  then show ?case by (auto simp: longer_prefix_def split: option.splits)
qed simp

section \<open>Windows that are never removed\<close>

datatype rate_op = AddRule RateLimitRule | Check nat string string | Cleanup

fun rate_apply :: "rate_op \<Rightarrow> RateLimiter \<Rightarrow> RateLimiter" where
  "rate_apply (AddRule r) l = add_rule r l"
| "rate_apply (Check now route c) l = snd (check_request now route c l)"
| "rate_apply Cleanup l = cleanup_expired_windows l"

definition windows_occupied :: "RateLimiter \<Rightarrow> bool" where
  "windows_occupied l \<longleftrightarrow>
     (\<forall>r \<in> set (rl_rules l). requests_per_window r \<noteq> 0) \<longrightarrow> (\<forall>w \<in> snd ` set (rl_windows l). timestamps w \<noteq> [])"

lemma record_and_check_occupied:
  "limit \<noteq> 0 \<Longrightarrow> timestamps (snd (record_and_check now limit s burst w)) \<noteq> []"
  by (auto simp: record_and_check_def Let_def word_gt_0)

lemma rule_for_mem: "rule_for route rs = Some r \<Longrightarrow> r \<in> set rs"
  unfolding rule_for_def using fold_longer_prefix [of "filter (matches_route route) rs" None r] by auto

lemma hm_insert_values: "w \<in> snd ` set (hm_insert k v m) \<Longrightarrow> w = v \<or> w \<in> snd ` set m"
  by (induction m) (auto simp: hm_insert_def split: if_splits)

lemma check_request_rules: "rl_rules (snd (check_request now route c l)) = rl_rules l"
  by (simp add: check_request_def case_prod_unfold Let_def split: option.split)

lemma check_request_windows:
  assumes "rule_for route (rl_rules l) = Some r"
  shows "rl_windows (snd (check_request now route c l)) =
    hm_insert (window_key (route_prefix r) c)
      (snd (record_and_check now (requests_per_window r) (window_secs r) (burst_allowance r)
        (window_of (window_key (route_prefix r) c) l))) (rl_windows l)"
  by (simp add: check_request_def assms case_prod_unfold Let_def)

lemma occupied_check:
  assumes "windows_occupied l"
  shows "windows_occupied (snd (check_request now route c l))"
proof (cases "rule_for route (rl_rules l)")
  case (Some r)
  show ?thesis unfolding windows_occupied_def check_request_rules check_request_windows [OF Some]
  proof (intro impI ballI)
    fix w
    assume r: "\<forall>r \<in> set (rl_rules l). requests_per_window r \<noteq> 0"
      and w: "w \<in> snd ` set (hm_insert (window_key (route_prefix r) c)
        (snd (record_and_check now (requests_per_window r) (window_secs r) (burst_allowance r)
          (window_of (window_key (route_prefix r) c) l))) (rl_windows l))"
    have "requests_per_window r \<noteq> 0" using r rule_for_mem [OF Some] by blast
    then show "timestamps w \<noteq> []"
      using hm_insert_values [OF w] record_and_check_occupied assms r unfolding windows_occupied_def by blast
  qed
qed (use assms in \<open>simp add: check_request_def windows_occupied_def\<close>)

interpretation rates: stateful rate_apply windows_occupied
proof
  fix l x
  assume l: "windows_occupied l"
  show "windows_occupied (rate_apply x l)"
    by (cases x) (use l in \<open>auto simp: occupied_check, auto simp: windows_occupied_def add_rule_def cleanup_expired_windows_def\<close>)
qed

section \<open>Levels of a hybrid limiter\<close>

definition hybrid_ok :: "rat \<Rightarrow> u64 \<Rightarrow> HybridLimiter \<Rightarrow> bool" where
  "hybrid_ok cap m h \<longleftrightarrow>
     in_bucket cap (tb_tokens (hy_bucket h)) \<and> tb_capacity (hy_bucket h) = FFin cap \<and> rnd64 cap = FFin cap
     \<and> \<not> fp_lt (tb_refill_rate (hy_bucket h)) (FFin 0) \<and> sw_max_count (hy_window h) = m \<and> unat m < 2 ^ 64 - 1
     \<and> sum_list (map (unat \<circ> we_count) (entries (hy_window h))) \<le> unat m"

lemma f64_mul_commute: "f64_mul a b = f64_mul b a"
  by (cases a; cases b) (auto simp: mult.commute)

lemma refill_v2_ok:
  assumes "in_bucket cap (tb_tokens b)" and "tb_capacity b = FFin cap" and "rnd64 cap = FFin cap" and "\<not> fp_lt (tb_refill_rate b) (FFin 0)"
  shows "in_bucket cap (tb_tokens (refill_v2 now b))"
proof -
  have "fp_le (FFin 0) (f64_div (f64_of_u64 (now - tb_last_ms b)) (FFin 1000))"
    by (intro f64_div_nonneg) (simp_all add: f64_of_u64_def f64_of_nat_nonneg)
  from refill_in_bucket [OF assms(1,3) refill_amount [OF this assms(4)]] assms show ?thesis
    by (simp add: refill_v2_def Let_def f64_mul_commute)
qed

lemma refill_v2_frame: "tb_capacity (refill_v2 now b) = tb_capacity b" "tb_refill_rate (refill_v2 now b) = tb_refill_rate b"
  by (simp_all add: refill_v2_def Let_def)

lemma try_consume_v2_ok:
  assumes "in_bucket cap (tb_tokens b)" and "tb_capacity b = FFin cap" and "rnd64 cap = FFin cap"
    and "\<not> fp_lt (tb_refill_rate b) (FFin 0)" and "fp_le (FFin 0) n"
  shows "in_bucket cap (tb_tokens (snd (try_consume_v2 now n b)))"
proof (cases "fp_le n (tb_tokens (refill_v2 now b))")
  case True
  obtain q where "tb_tokens (refill_v2 now b) = FFin q" using refill_v2_ok [OF assms(1-4)] by (rule in_bucketE)
  then obtain k where k: "n = FFin k" "0 \<le> k" using True assms(5) by (cases n) auto
  show ?thesis using spend_in_bucket [OF refill_v2_ok [OF assms(1-4)], of k] True k by (simp add: try_consume_v2_def Let_def)
next
  case False
  then show ?thesis using refill_v2_ok [OF assms(1-4)] by (simp add: try_consume_v2_def Let_def)
qed

lemma try_consume_v2_frame:
  "tb_capacity (snd (try_consume_v2 now n b)) = tb_capacity b" "tb_refill_rate (snd (try_consume_v2 now n b)) = tb_refill_rate b"
  by (simp_all add: try_consume_v2_def Let_def refill_v2_frame)

lemma sum_dropWhile_le: "sum_list (map f (dropWhile P xs)) \<le> (sum_list (map f xs) :: nat)"
  by (induction xs) auto

lemma unat_sum_list: "sum_list (map unat ws) < 2 ^ LENGTH('w) \<Longrightarrow> unat (sum_list ws :: 'w::len word) = sum_list (map unat ws)"
  by (induction ws) (simp_all add: unat_add_small)

lemma entry_total_exact:
  assumes "sum_list (map (unat \<circ> we_count) (entries s)) \<le> unat (m :: u64)"
  shows "unat (entry_total s) = sum_list (map (unat \<circ> we_count) (entries s))"
proof -
  have "sum_list (map unat (map we_count (entries s))) < 2 ^ 64"
    using assms unsigned_less [of m, where ?'a = nat] by simp
  then show ?thesis using unat_sum_list [of "map we_count (entries s)"] by (simp add: entry_total_def)
qed

lemma hybrid_ok_step:
  assumes "hybrid_ok cap m h" and "fp_le (FFin 0) n"
  shows "hybrid_ok cap m (snd (hybrid_try_allow now n h))"
proof -
  define s where "s = evict_entries now (hy_window h)"
  have s: "sum_list (map (unat \<circ> we_count) (entries s)) \<le> unat m" "sw_max_count s = m" "unat m < 2 ^ 64 - 1"
    using assms(1) order_trans [OF sum_dropWhile_le] by (auto simp: hybrid_ok_def s_def evict_entries_def)
  note b = try_consume_v2_ok [of cap "hy_bucket h" n now]
  have "sum_list (map (unat \<circ> we_count) (entries (push_entry now k s))) \<le> unat m" if "sat_add (entry_total s) k \<le> m" for k
    using that unat_sat_add [of "entry_total s" k] entry_total_exact [OF s(1)] s(3)
      unat_sum_list [of "map we_count (entries (push_entry now k s))"]
    by (auto simp: word_le_nat_alt push_entry_def)
  moreover have "sw_max_count (push_entry now k s) = m" for k using s(2) by (simp add: push_entry_def)
  ultimately show ?thesis
    using assms s b
    by (auto simp: hybrid_ok_def hybrid_try_allow_def s_def [symmetric] Let_def try_consume_v2_frame split: prod.splits)
      (metis snd_conv try_consume_v2_frame)+
qed

section \<open>Properties\<close>

text \<open>Of the requests of a client, with a clock that does not go back and instants from which the
  window can be subtracted, at most the limit and the burst allowance are allowed in any stretch as
  long as the window, its two ends included.\<close>
theorem client_window_limits_stretches:
  assumes "unat limit + unat burst < 2 ^ 32" and "sorted ts" and "\<forall>t \<in> set ts. window_ns s \<le> t"
  shows "length (filter (\<lambda>t. a \<le> t \<and> t \<le> a + window_ns s) (fst (window_run limit s burst ts))) \<le> unat limit + unat burst"
  using window_run_stretch [OF assms] by (auto simp: stretch_def)

theorem client_window_limits_stretches_witness:
  "fst (window_run 2 1 1 [10 ^ 9, 10 ^ 9, 10 ^ 9 + 5, 10 ^ 9 + 6]) = [10 ^ 9, 10 ^ 9, 10 ^ 9 + 5] \<and>
   length (filter (\<lambda>t. 10 ^ 9 \<le> t \<and> t \<le> 10 ^ 9 + window_ns 1) (fst (window_run 2 1 1 [10 ^ 9, 10 ^ 9, 10 ^ 9 + 5, 10 ^ 9 + 6]))) \<le> unat (2 :: u32) + unat (1 :: u32)"
  using client_window_limits_stretches [of 2 1 "[10 ^ 9, 10 ^ 9, 10 ^ 9 + 5, 10 ^ 9 + 6]" 1 "10 ^ 9"]
  by (simp add: window_ns_def window_run_def window_call_def record_and_check_def checked_sub_def slide_def
      client_window_new_def Let_def)

text \<open>A window longer than the clock has been running limits nothing: the cut-off falls back to the
  present, every earlier request is forgotten, and all requests at different instants are allowed.\<close>
theorem long_window_never_limits:
  assumes "0 < limit" and "sorted_wrt (<) ts" and "\<forall>t \<in> set ts. t < window_ns s"
  shows "fst (window_run limit s burst ts) = ts"
proof -
  have "fst (window_run limit s burst ts) = ts \<and> set (timestamps (snd (window_run limit s burst ts))) \<subseteq> set ts"
    using assms(2,3)
  proof (induction ts rule: rev_induct)
    case (snoc t ts)
    let ?w = "snd (window_run limit s burst ts)"
    have "\<forall>x \<in> set (timestamps ?w). x < t" using snoc by (auto simp: sorted_wrt_append)
    then have "timestamps (slide t ?w) = []" by (simp add: slide_def Let_def)
    then have "record_and_check t limit s burst ?w = (True, (slide t ?w)\<lparr>timestamps := [t]\<rparr>)"
      using snoc.prems(2) assms(1) by (simp add: record_and_check_def checked_sub_def Let_def)
    then show ?case using snoc by (simp add: window_run_snoc window_call_def sorted_wrt_append)
  qed (simp add: window_run_def client_window_new_def)
  then show ?thesis by simp
qed

theorem long_window_never_limits_witness: "fst (window_run 1 3600 0 [1, 2, 3, 4, 5]) = [1, 2, 3, 4, 5]"
  by (rule long_window_never_limits) (simp_all add: window_ns_def)

text \<open>The rule applied to a route is one whose prefix the route starts with, and no rule with a
  longer prefix matches; when none matches the request is allowed and no window changes.\<close>
theorem longest_prefix_decides:
  "case rule_for route (rl_rules l) of
     Some r \<Rightarrow> r \<in> set (rl_rules l) \<and> matches_route route r
       \<and> (\<forall>r' \<in> set (rl_rules l). matches_route route r' \<longrightarrow> length (route_prefix r') \<le> length (route_prefix r))
       \<and> (\<forall>k. k \<noteq> window_key (route_prefix r) c \<longrightarrow>
            hm_get (rl_windows (snd (check_request now route c l))) k = hm_get (rl_windows l) k)
   | None \<Rightarrow> (\<forall>r \<in> set (rl_rules l). \<not> matches_route route r)
       \<and> fst (check_request now route c l) = Allow (- 1) \<and> rl_windows (snd (check_request now route c l)) = rl_windows l"
proof (cases "rule_for route (rl_rules l)")
  case None
  then show ?thesis
    using fold_longer_prefix_None [of "filter (matches_route route) (rl_rules l)" None]
    by (auto simp: check_request_def rule_for_def filter_empty_conv)
next
  case (Some r)
  then have "fold longer_prefix (filter (matches_route route) (rl_rules l)) None = Some r" by (simp add: rule_for_def)
  from fold_longer_prefix [OF this] Some show ?thesis
    by (simp add: check_request_windows hm_get_insert)
qed

theorem longest_prefix_decides_witness:
  "rule_for ''/a/b'' [\<lparr>route_prefix = ''/a'', client_key_header = None, requests_per_window = 1, window_secs = 1, burst_allowance = 0\<rparr>,
     \<lparr>route_prefix = ''/a/b'', client_key_header = None, requests_per_window = 2, window_secs = 1, burst_allowance = 0\<rparr>]
   = Some \<lparr>route_prefix = ''/a/b'', client_key_header = None, requests_per_window = 2, window_secs = 1, burst_allowance = 0\<rparr>
   \<and> hm_get (rl_windows (snd (check_request 0 ''/a/b'' ''c''
       (rate_limiter_new\<lparr>rl_rules := [\<lparr>route_prefix = ''/a/b'', client_key_header = None, requests_per_window = 2, window_secs = 1, burst_allowance = 0\<rparr>]\<rparr>)))) ''x'' = None"
  using longest_prefix_decides [where route = "''/a/b''" and l = "rate_limiter_new\<lparr>rl_rules := [\<lparr>route_prefix = ''/a/b'', client_key_header = None, requests_per_window = 2, window_secs = 1, burst_allowance = 0\<rparr>]\<rparr>" and c = "''c''" and now = 0]
  by (simp add: rule_for_def longer_prefix_def matches_route_def window_key_def rate_limiter_new_def)

text \<open>Two clients of two rules can share a window, since the key joins prefix and client by a colon:
  a request of one uses up the limit of the other.\<close>
theorem clients_can_share_window:
  fixes rule l defines "rule p \<equiv> \<lparr>route_prefix = p, client_key_header = None, requests_per_window = 1,
      window_secs = 1, burst_allowance = 0\<rparr>"
    and "l \<equiv> add_rule (rule ''/a:b'') (add_rule (rule ''/a'') rate_limiter_new)"
  shows "fst (check_request (10 ^ 9) ''/a:b'' ''c'' l) = Allow 0
    \<and> fst (check_request (10 ^ 9) ''/a:b'' ''c'' (snd (check_request (10 ^ 9) ''/a'' ''b:c'' l))) = Deny 1"
  by (simp add: assms check_request_def rule_for_def longer_prefix_def matches_route_def window_key_def window_of_def
      add_rule_def rate_limiter_new_def record_and_check_def checked_sub_def slide_def window_ns_def
      client_window_new_def Let_def hm_get_def hm_insert_def sat_sub_def)

text \<open>Cleaning up removes nothing when every rule allows at least one request: a window is emptied
  only by a request that is then recorded in it, so no window ever becomes empty and the map only grows.\<close>
theorem cleanup_removes_nothing:
  assumes "\<forall>r \<in> set (rl_rules (fold rate_apply ops rate_limiter_new)). requests_per_window r \<noteq> 0"
  shows "cleanup_expired_windows (fold rate_apply ops rate_limiter_new) = fold rate_apply ops rate_limiter_new"
proof -
  have "windows_occupied (fold rate_apply ops rate_limiter_new)"
    by (rule rates.run_inv) (simp add: windows_occupied_def rate_limiter_new_def)
  then have "filter (\<lambda>(_, w). timestamps w \<noteq> []) (rl_windows (fold rate_apply ops rate_limiter_new))
      = rl_windows (fold rate_apply ops rate_limiter_new)"
    using assms by (auto simp: windows_occupied_def intro!: filter_True)
  then show ?thesis by (simp add: cleanup_expired_windows_def)
qed

theorem cleanup_removes_nothing_witness:
  "cleanup_expired_windows (fold rate_apply [AddRule \<lparr>route_prefix = ''/a'', client_key_header = None,
      requests_per_window = 1, window_secs = 1, burst_allowance = 0\<rparr>, Check 0 ''/a'' ''c'', Check (10 ^ 18) ''/b'' ''c''] rate_limiter_new)
   = fold rate_apply [AddRule \<lparr>route_prefix = ''/a'', client_key_header = None,
      requests_per_window = 1, window_secs = 1, burst_allowance = 0\<rparr>, Check 0 ''/a'' ''c'', Check (10 ^ 18) ''/b'' ''c''] rate_limiter_new"
  by (rule cleanup_removes_nothing) (simp add: check_request_rules add_rule_def rate_limiter_new_def)

text \<open>A hybrid limiter allows a request exactly when its window and its bucket would each allow it,
  and a request refused by the window takes nothing from the bucket.\<close>
theorem hybrid_needs_both:
  "(fst (hybrid_try_allow now n h) \<longleftrightarrow>
     fst (window_try_allow now (f64_to_u64 (f64_ceil n)) (hy_window h)) \<and> fst (try_consume_v2 now n (hy_bucket h)))
   \<and> (fst (window_try_allow now (f64_to_u64 (f64_ceil n)) (hy_window h)) \<or> hy_bucket (snd (hybrid_try_allow now n h)) = hy_bucket h)"
  by (auto simp: hybrid_try_allow_def window_try_allow_def Let_def evict_entries_def split: prod.splits)

text \<open>For requests that are not negative, the level of a client's bucket stays between zero and the
  capacity, and the entries of its window never add up to more than the maximum.\<close>
theorem hybrid_stays_in_limits:
  assumes "0 \<le> cap" and "rnd64 cap = FFin cap" and "\<not> fp_lt rate (FFin 0)" and "unat m < 2 ^ 64 - 1"
    and "\<forall>c \<in> set calls. fp_le (FFin 0) (snd c)"
  shows "hybrid_ok cap m (fold (\<lambda>c h. snd (hybrid_try_allow (fst c) (snd c) h)) calls (hybrid_new (FFin cap) rate w m))"
  using assms(5)
proof (induction calls rule: rev_induct)
  case Nil
  show ?case using assms(1-4) in_bucket_full
    by (simp add: hybrid_ok_def hybrid_new_def bucket_v2_new_def sliding_new_def)
qed (simp add: hybrid_ok_step)

theorem hybrid_stays_in_limits_witness:
  "hybrid_ok 1 5 (fold (\<lambda>c h. snd (hybrid_try_allow (fst c) (snd c) h)) [(0, FFin 1), (1500, FFin 1)] (hybrid_new (FFin 1) (FFin 1) 1000 5))"
  by (rule hybrid_stays_in_limits) simp_all

text \<open>A request for a negative number of tokens is allowed and fills the bucket above its capacity.\<close>
theorem negative_request_overfills:
  "case hybrid_try_allow 0 (FFin (- 5)) (hybrid_new (FFin 1) (FFin 1) 1000 10) of
     (ok, h) \<Rightarrow> ok \<and> tb_tokens (hy_bucket h) = FFin 6 \<and> tb_capacity (hy_bucket h) = FFin 1"
proof -
  have "rnd64 (of_nat 6) = FFin (of_nat 6)" using rnd64_dyadic [of 6 0] by simp
  then show ?thesis
    by (simp add: hybrid_try_allow_def hybrid_new_def bucket_v2_new_def sliding_new_def evict_entries_def
        entry_total_def try_consume_v2_def refill_v2_def f64_ceil_def f64_sub_def Let_def)
qed

text \<open>The algorithm a registry is created with changes no decision: every client gets a hybrid limiter.\<close>
theorem algorithm_is_ignored:
  "check_v2 c now n (l\<lparr>v2_algorithm := a\<rparr>) = (case check_v2 c now n l of (ok, l') \<Rightarrow> (ok, l'\<lparr>v2_algorithm := a\<rparr>))"
  by (simp add: check_v2_def split: option.split prod.split)

end
