(* ===== verification/Traces.thy ===== *)
theory Traces
  imports Prelude
begin

text \<open>
  Runs of a labelled step relation, shared by the models of concurrent components: a run collects
  the labels of its steps, and an invariant may speak of the labels seen so far.
\<close>

inductive trace :: "('s \<Rightarrow> 'e \<Rightarrow> 's \<Rightarrow> bool) \<Rightarrow> 's \<Rightarrow> 'e list \<Rightarrow> 's \<Rightarrow> bool" for step where
  Trace_Nil: "trace step s [] s"
| Trace_Snoc: "trace step s es s' \<Longrightarrow> step s' e s'' \<Longrightarrow> trace step s (es @ [e]) s''"

inductive_simps trace_Nil [simp]: "trace step s [] s'"

lemma trace_invariant:
  assumes "trace step s es s'" and "I [] s"
    and "\<And>es s e s'. I es s \<Longrightarrow> step s e s' \<Longrightarrow> I (es @ [e]) s'"
  shows "I es s'"
  using assms(1,2)
proof (induction rule: trace.induct)
  case (Trace_Snoc s es s' e s'')
  then show ?case by (blast intro: assms(3))
qed

lemma trace_Cons: "step s e s' \<Longrightarrow> trace step s' es s'' \<Longrightarrow> trace step s (e # es) s''"
proof (rotate_tac, induction rule: trace.induct)
  case (Trace_Nil s)
  then show ?case using Trace_Snoc [of step _ "[]" _ e s] by (simp add: trace.Trace_Nil)
next
  case (Trace_Snoc s1 es s2 e' s3)
  then show ?case using trace.Trace_Snoc [of step s "e # es" s2 e' s3] by simp
qed

lemma trace_append: "trace step s es s' \<Longrightarrow> trace step s' es' s'' \<Longrightarrow> trace step s (es @ es') s''"
  by (rotate_tac, induction rule: trace.induct) (simp, metis append_assoc trace.Trace_Snoc)


end
