(* ===== verification/Coalescer.thy ===== *)
theory Coalescer
  imports Traces
begin

text \<open>
  The request coalescer (\<open>src/request_coalescer.rs\<close>) under concurrent callers: a call that finds a
  fetch of its key in flight joins it, any other call becomes its leader, fetches, removes the entry
  and broadcasts the result. A call goes through the program counters of \<open>call_pc\<close>; a step is what
  it does under one access to the map, or one wait. A receiver of the broadcast channel gets only
  what is sent after it subscribed, and an error once every sender is gone; the senders are the
  entry of the map and the leader. The result of a fetch is arbitrary. A future can
  be dropped at its waits: a leader's while it fetches, a joiner's while it receives.
\<close>

section \<open>State\<close>

text \<open>\<open>Result<String, String>\<close>, with the error on the left.\<close>

type_synonym fetch_result = "string + string"

datatype CoalesceError = FetchFailed string | RecvError

text \<open>\<open>Joined ch late\<close>: subscribed to \<open>ch\<close>, \<open>late\<close> when the result had been sent before.\<close>

datatype call_pc =
    Missed
  | Joined nat bool
  | Leading nat
  | Fetched nat fetch_result
  | Removed nat fetch_result
  | Returned "CoalesceError + string"

record Coalescer =
  cl_in_flight :: "string \<rightharpoonup> nat"
  cl_sent :: "nat \<rightharpoonup> fetch_result"
  cl_next :: nat
  cl_calls :: "nat \<rightharpoonup> string \<times> call_pc"
  cl_total_requests :: u64
  cl_coalesced_requests :: u64
  cl_cache_misses :: u64

definition coalescer_new :: Coalescer where
  "coalescer_new = \<lparr>cl_in_flight = Map.empty, cl_sent = Map.empty, cl_next = 0, cl_calls = Map.empty,
     cl_total_requests = 0, cl_coalesced_requests = 0, cl_cache_misses = 0\<rparr>"

text \<open>\<open>map_err(CoalesceError::FetchFailed)\<close>, and the joiner's match, which does the same.\<close>

definition to_caller :: "fetch_result \<Rightarrow> CoalesceError + string" where
  "to_caller r = (case r of Inl e \<Rightarrow> Inl (FetchFailed e) | Inr v \<Rightarrow> Inr v)"

section \<open>Operations\<close>

definition set_call :: "nat \<Rightarrow> string \<Rightarrow> call_pc \<Rightarrow> Coalescer \<Rightarrow> Coalescer" where
  "set_call c k pc s = s\<lparr>cl_calls := (cl_calls s)(c \<mapsto> (k, pc))\<rparr>"

text \<open>The start of \<open>get_or_fetch\<close>: counting, and the lookup with the subscription.\<close>

definition call_start :: "nat \<Rightarrow> string \<Rightarrow> Coalescer \<Rightarrow> Coalescer" where
  "call_start c k s =
    (let s = s\<lparr>cl_total_requests := cl_total_requests s + 1\<rparr>
     in case cl_in_flight s k of
          Some ch \<Rightarrow> set_call c k (Joined ch (cl_sent s ch \<noteq> None)) (s\<lparr>cl_coalesced_requests := cl_coalesced_requests s + 1\<rparr>)
        | None \<Rightarrow> set_call c k Missed s)"

text \<open>The entry of the map, occupied by the winner of a race or vacant.\<close>

definition call_insert :: "nat \<Rightarrow> string \<Rightarrow> Coalescer \<Rightarrow> Coalescer" where
  "call_insert c k s =
    (case cl_in_flight s k of
       Some ch \<Rightarrow> set_call c k (Joined ch (cl_sent s ch \<noteq> None)) (s\<lparr>cl_coalesced_requests := cl_coalesced_requests s + 1\<rparr>)
     | None \<Rightarrow> set_call c k (Leading (cl_next s))
         (s\<lparr>cl_in_flight := (cl_in_flight s)(k \<mapsto> cl_next s), cl_next := cl_next s + 1,
            cl_cache_misses := cl_cache_misses s + 1\<rparr>))"

definition call_remove :: "nat \<Rightarrow> string \<Rightarrow> nat \<Rightarrow> fetch_result \<Rightarrow> Coalescer \<Rightarrow> Coalescer" where
  "call_remove c k ch r s = set_call c k (Removed ch r) (s\<lparr>cl_in_flight := (cl_in_flight s)(k := None)\<rparr>)"

definition call_send :: "nat \<Rightarrow> string \<Rightarrow> nat \<Rightarrow> fetch_result \<Rightarrow> Coalescer \<Rightarrow> Coalescer" where
  "call_send c k ch r s = set_call c k (Returned (to_caller r)) (s\<lparr>cl_sent := (cl_sent s)(ch \<mapsto> r)\<rparr>)"

text \<open>What a step shows: the end of a fetch, the loss of a leader, or nothing.\<close>

datatype coal_event = FetchEnds string fetch_result | LeaderLost string | Quiet

text \<open>The channel a call owns as its leader, until it has sent on it; the entry holds a sender too.\<close>

fun channel_of :: "call_pc \<Rightarrow> nat option" where
  "channel_of (Leading ch) = Some ch"
| "channel_of (Fetched ch r) = Some ch"
| "channel_of (Removed ch r) = Some ch"
| "channel_of _ = None"

definition owns :: "Coalescer \<Rightarrow> nat \<Rightarrow> string \<Rightarrow> nat \<Rightarrow> bool" where
  "owns s c k ch \<longleftrightarrow> (\<exists>pc. cl_calls s c = Some (k, pc) \<and> channel_of pc = Some ch)"

definition channel_closed :: "Coalescer \<Rightarrow> nat \<Rightarrow> bool" where
  "channel_closed s ch \<longleftrightarrow> ch \<notin> ran (cl_in_flight s) \<and> \<not> (\<exists>c k. owns s c k ch)"

inductive coal_step :: "Coalescer \<Rightarrow> coal_event \<Rightarrow> Coalescer \<Rightarrow> bool" where
  Start: "cl_calls s c = None \<Longrightarrow> coal_step s Quiet (call_start c k s)"
| Insert: "cl_calls s c = Some (k, Missed) \<Longrightarrow> coal_step s Quiet (call_insert c k s)"
| Fetch: "cl_calls s c = Some (k, Leading ch) \<Longrightarrow> coal_step s (FetchEnds k r) (set_call c k (Fetched ch r) s)"
| Remove: "cl_calls s c = Some (k, Fetched ch r) \<Longrightarrow> coal_step s Quiet (call_remove c k ch r s)"
| Send: "cl_calls s c = Some (k, Removed ch r) \<Longrightarrow> coal_step s Quiet (call_send c k ch r s)"
| Receive: "cl_calls s c = Some (k, Joined ch False) \<Longrightarrow> cl_sent s ch = Some r \<Longrightarrow>
    coal_step s Quiet (set_call c k (Returned (to_caller r)) s)"
| Receive_closed: "cl_calls s c = Some (k, Joined ch late) \<Longrightarrow> late \<or> cl_sent s ch = None \<Longrightarrow> channel_closed s ch \<Longrightarrow>
    coal_step s Quiet (set_call c k (Returned (Inl RecvError)) s)"
| Drop_leader: "cl_calls s c = Some (k, Leading ch) \<Longrightarrow>
    coal_step s (LeaderLost k) (s\<lparr>cl_calls := (cl_calls s)(c := None)\<rparr>)"
| Drop_joiner: "cl_calls s c = Some (k, Joined ch late) \<Longrightarrow>
    coal_step s Quiet (s\<lparr>cl_calls := (cl_calls s)(c := None)\<rparr>)"

inductive_cases coal_stepE: "coal_step s e s'"

section \<open>The invariant\<close>

text \<open>Whether the entry of a leader is still in the map.\<close>

fun in_map :: "call_pc \<Rightarrow> bool" where
  "in_map (Removed ch r) = False"
| "in_map _ = True"

definition channels_ok :: "Coalescer \<Rightarrow> bool" where
  "channels_ok s \<longleftrightarrow>
     (\<forall>k ch. cl_in_flight s k = Some ch \<longrightarrow> ch < cl_next s \<and> cl_sent s ch = None \<and> (\<forall>k'. cl_in_flight s k' = Some ch \<longrightarrow> k' = k))
     \<and> (\<forall>ch r. cl_sent s ch = Some r \<longrightarrow> ch < cl_next s)"

definition leaders_ok :: "Coalescer \<Rightarrow> bool" where
  "leaders_ok s \<longleftrightarrow>
     (\<forall>c k pc ch. cl_calls s c = Some (k, pc) \<longrightarrow> channel_of pc = Some ch \<longrightarrow>
        ch < cl_next s \<and> cl_sent s ch = None
        \<and> (if in_map pc then cl_in_flight s k = Some ch else \<forall>k'. cl_in_flight s k' \<noteq> Some ch)
        \<and> (\<forall>c' k' pc'. cl_calls s c' = Some (k', pc') \<longrightarrow> channel_of pc' = Some ch \<longrightarrow> c' = c))"

definition joiners_ok :: "Coalescer \<Rightarrow> bool" where
  "joiners_ok s \<longleftrightarrow>
     (\<forall>c k ch late. cl_calls s c = Some (k, Joined ch late) \<longrightarrow> \<not> late \<and> ch < cl_next s \<and>
        (cl_sent s ch = None \<longrightarrow> cl_in_flight s k = Some ch \<or> (\<exists>c' r. cl_calls s c' = Some (k, Removed ch r))))"

text \<open>The result a call holds, or would receive, is the end of a fetch of its own key.\<close>

fun own_result :: "coal_event list \<Rightarrow> Coalescer \<Rightarrow> string \<Rightarrow> call_pc \<Rightarrow> bool" where
  "own_result es s k (Fetched ch r) \<longleftrightarrow> FetchEnds k r \<in> set es"
| "own_result es s k (Removed ch r) \<longleftrightarrow> FetchEnds k r \<in> set es"
| "own_result es s k (Joined ch late) \<longleftrightarrow> (\<forall>r. cl_sent s ch = Some r \<longrightarrow> FetchEnds k r \<in> set es)"
| "own_result es s k (Returned x) \<longleftrightarrow> (\<exists>r. x = to_caller r \<and> FetchEnds k r \<in> set es)"
| "own_result es s k _ \<longleftrightarrow> True"

definition results_ok :: "coal_event list \<Rightarrow> Coalescer \<Rightarrow> bool" where
  "results_ok es s \<longleftrightarrow> (\<forall>c k pc. cl_calls s c = Some (k, pc) \<longrightarrow> own_result es s k pc)"

definition led :: "coal_event list \<Rightarrow> Coalescer \<Rightarrow> bool" where
  "led es s \<longleftrightarrow> (\<forall>k ch. cl_in_flight s k = Some ch \<longrightarrow> LeaderLost k \<in> set es \<or> (\<exists>c. owns s c k ch))"

lemmas call_defs = call_start_def call_insert_def call_remove_def call_send_def set_call_def Let_def

lemma leadersD:
  assumes "leaders_ok s" and "cl_calls s c = Some (k, pc)" and "channel_of pc = Some ch"
  shows "ch < cl_next s" "cl_sent s ch = None" "in_map pc \<Longrightarrow> cl_in_flight s k = Some ch"
    "\<not> in_map pc \<Longrightarrow> cl_in_flight s k' \<noteq> Some ch"
    "cl_calls s c' = Some (k', pc') \<Longrightarrow> channel_of pc' = Some ch \<Longrightarrow> c' = c"
  using assms unfolding leaders_ok_def by (blast, blast, (metis (full_types))+)

lemma channelsD:
  assumes "channels_ok s" and "cl_in_flight s k = Some ch"
  shows "ch < cl_next s" "cl_sent s ch = None" "cl_in_flight s k' = Some ch \<Longrightarrow> k' = k"
  using assms unfolding channels_ok_def by blast+

lemma channels_sent: "channels_ok s \<Longrightarrow> cl_sent s ch = Some r \<Longrightarrow> ch < cl_next s"
  unfolding channels_ok_def by blast

lemma step_channels:
  assumes "coal_step s e s'" and "channels_ok s" and "leaders_ok s"
  shows "channels_ok s'"
  using assms(1)
proof cases
  case (Insert c k)
  then show ?thesis
  proof (cases "cl_in_flight s k")
    case None
    have "cl_in_flight s k' \<noteq> Some (cl_next s)" for k' using channelsD(1) [OF assms(2)] by blast
    moreover have "cl_sent s (cl_next s) = None" using channels_sent [OF assms(2)] by (cases "cl_sent s (cl_next s)") auto
    ultimately show ?thesis using assms(2) Insert None
      by (auto simp: channels_ok_def call_defs less_Suc_eq)
  qed (use assms(2) in \<open>simp add: channels_ok_def call_defs\<close>)
next
  case (Remove c k ch r)
  then show ?thesis using assms(2) by (auto simp: channels_ok_def call_defs)
next
  case (Send c k ch r)
  have "ch < cl_next s" "cl_in_flight s k' \<noteq> Some ch" for k' using leadersD(1,4) [OF assms(3) Send(3)] by simp_all
  then show ?thesis using assms(2) Send by (auto simp: channels_ok_def call_defs)
qed (use assms(2) in \<open>auto simp: channels_ok_def call_defs split: option.split\<close>)

lemma leaders_frame:
  assumes "leaders_ok s" and "cl_in_flight s' = cl_in_flight s" and "cl_sent s' = cl_sent s" and "cl_next s' = cl_next s"
    and old: "\<And>c k pc. cl_calls s' c = Some (k, pc) \<Longrightarrow> channel_of pc \<noteq> None \<Longrightarrow> cl_calls s c = Some (k, pc)"
  shows "leaders_ok s'"
  unfolding leaders_ok_def
proof (intro allI impI)
  fix c k pc ch
  assume c: "cl_calls s' c = Some (k, pc)" "channel_of pc = Some ch"
  note l = leadersD [OF assms(1) old [OF c(1)] c(2)]
  have "c' = c" if "cl_calls s' c' = Some (k', pc')" "channel_of pc' = Some ch" for c' k' pc'
    using l(5) [OF _ old [OF that(1)]] that(2) c(2) by simp
  then show "ch < cl_next s' \<and> cl_sent s' ch = None
      \<and> (if in_map pc then cl_in_flight s' k = Some ch else \<forall>k'. cl_in_flight s' k' \<noteq> Some ch)
      \<and> (\<forall>c' k' pc'. cl_calls s' c' = Some (k', pc') \<longrightarrow> channel_of pc' = Some ch \<longrightarrow> c' = c)"
    using l(1-4) c(2) by (simp add: assms(2-4))
qed

text \<open>The owner of a channel moves on, and touches only that channel and its own key.\<close>

lemma leaders_move:
  assumes ok: "leaders_ok s" and c: "cl_calls s c = Some (k, pc0)" "channel_of pc0 = Some ch"
    and s': "cl_calls s' = (cl_calls s)(c \<mapsto> (k, pc))" "cl_next s' = cl_next s"
    and sent: "\<And>ch'. ch' \<noteq> ch \<Longrightarrow> cl_sent s' ch' = cl_sent s ch'"
    and flight: "\<And>k'. k' \<noteq> k \<Longrightarrow> cl_in_flight s' k' = cl_in_flight s k'"
      "cl_in_flight s' k = cl_in_flight s k \<or> cl_in_flight s k = Some ch \<and> cl_in_flight s' k = None"
    and pc: "channel_of pc = None \<or> channel_of pc = Some ch \<and> cl_sent s' ch = None
      \<and> (if in_map pc then cl_in_flight s' k = Some ch else \<forall>k'. cl_in_flight s' k' \<noteq> Some ch)"
  shows "leaders_ok s'"
  unfolding leaders_ok_def
proof (intro allI impI)
  fix c1 k1 pc1 ch1
  assume c1: "cl_calls s' c1 = Some (k1, pc1)" "channel_of pc1 = Some ch1"
  note l = leadersD [OF ok c]
  have only: "c' = c1" if "cl_calls s' c' = Some (k', pc')" "channel_of pc' = Some ch1" for c' k' pc'
  proof (cases "c1 = c"; cases "c' = c")
    assume "c1 = c" "c' \<noteq> c"
    then show ?thesis using c1 that l(5) [of c' k' pc'] pc s' by auto
  next
    assume "c1 \<noteq> c" "c' = c"
    then show ?thesis using c1 that l(5) [of c1 k1 pc1] pc s' by auto
  next
    assume "c1 \<noteq> c" "c' \<noteq> c"
    then show ?thesis using c1 that leadersD(5) [OF ok, of c1 k1 pc1 ch1 c' k' pc'] s' by auto
  qed simp
  show "ch1 < cl_next s' \<and> cl_sent s' ch1 = None
      \<and> (if in_map pc1 then cl_in_flight s' k1 = Some ch1 else \<forall>k'. cl_in_flight s' k' \<noteq> Some ch1)
      \<and> (\<forall>c' k' pc'. cl_calls s' c' = Some (k', pc') \<longrightarrow> channel_of pc' = Some ch1 \<longrightarrow> c' = c1)"
  proof (cases "c1 = c")
    case True
    then have e: "pc1 = pc" "k1 = k" using c1(1) s'(1) by simp_all
    then have "ch1 = ch" "channel_of pc \<noteq> None" using c1(2) pc by auto
    then have "ch1 < cl_next s' \<and> cl_sent s' ch1 = None
        \<and> (if in_map pc1 then cl_in_flight s' k1 = Some ch1 else \<forall>k'. cl_in_flight s' k' \<noteq> Some ch1)"
      using pc l(1) s'(2) e by auto
    then show ?thesis using only by blast
  next
    case False
    then have o: "cl_calls s c1 = Some (k1, pc1)" using c1(1) s'(1) by simp
    have d: "ch1 \<noteq> ch" using l(5) [OF o] c1(2) False by auto
    note m = leadersD [OF ok o c1(2)]
    have "cl_in_flight s' k1 = Some ch1" if "in_map pc1"
      using m(3) [OF that] flight d by (cases "k1 = k") auto
    moreover have "cl_in_flight s' k' \<noteq> Some ch1" if "\<not> in_map pc1" for k'
      using m(4) [OF that, of k'] flight by (cases "k' = k") auto
    ultimately have "ch1 < cl_next s' \<and> cl_sent s' ch1 = None
        \<and> (if in_map pc1 then cl_in_flight s' k1 = Some ch1 else \<forall>k'. cl_in_flight s' k' \<noteq> Some ch1)"
      using m(1,2) sent [OF d] s'(2) by simp
    then show ?thesis using only by blast
  qed
qed

lemma joiner_not_closed:
  assumes "joiners_ok s" and "cl_calls s c = Some (k, Joined ch late)" and "late \<or> cl_sent s ch = None"
  shows "\<not> channel_closed s ch"
proof -
  have "cl_in_flight s k = Some ch \<or> (\<exists>c' r. cl_calls s c' = Some (k, Removed ch r))"
    using assms unfolding joiners_ok_def by blast
  then show ?thesis
  proof
    assume "cl_in_flight s k = Some ch"
    then show ?thesis by (auto simp: channel_closed_def ran_def)
  next
    assume "\<exists>c' r. cl_calls s c' = Some (k, Removed ch r)"
    then have "\<exists>c'. owns s c' k ch" by (force simp: owns_def)
    then show ?thesis by (auto simp: channel_closed_def)
  qed
qed

lemma step_leaders:
  assumes "coal_step s e s'" and "channels_ok s" and "leaders_ok s"
  shows "leaders_ok s'"
  using assms(1)
proof cases
  case (Start c k)
  then show ?thesis
    by (intro leaders_frame [OF assms(3)]) (auto simp: call_defs split: option.splits if_splits)
next
  case (Insert c k)
  show ?thesis
  proof (cases "cl_in_flight s k")
    case None
    have 1: "channel_of pc \<noteq> Some (cl_next s)" if "cl_calls s c' = Some (k', pc)" for c' k' pc
      using leadersD(1) [OF assms(3) that] by (metis less_irrefl)
    have 2: "cl_sent s (cl_next s) = None" using channels_sent [OF assms(2)] by (cases "cl_sent s (cl_next s)") auto
    have 3: "cl_in_flight s k' \<noteq> Some (cl_next s)" for k' using channelsD(1) [OF assms(2)] by blast
    let ?n = "cl_next s"
    have s': "cl_calls s' = (cl_calls s)(c \<mapsto> (k, Leading ?n))" "cl_in_flight s' = (cl_in_flight s)(k \<mapsto> ?n)"
      "cl_sent s' = cl_sent s" "cl_next s' = ?n + 1" using Insert None by (simp_all add: call_defs)
    show ?thesis unfolding leaders_ok_def
    proof (intro allI impI)
      fix c1 k1 pc ch
      assume c1: "cl_calls s' c1 = Some (k1, pc)" "channel_of pc = Some ch"
      show "ch < cl_next s' \<and> cl_sent s' ch = None
        \<and> (if in_map pc then cl_in_flight s' k1 = Some ch else \<forall>k'. cl_in_flight s' k' \<noteq> Some ch)
        \<and> (\<forall>c' k' pc'. cl_calls s' c' = Some (k', pc') \<longrightarrow> channel_of pc' = Some ch \<longrightarrow> c' = c1)"
      proof (cases "c1 = c")
        case True
        then show ?thesis using c1 1 2 by (auto simp: s')
      next
        case False
        then have o: "cl_calls s c1 = Some (k1, pc)" using c1(1) by (simp add: s')
        note l = leadersD [OF assms(3) o c1(2)]
        have "k1 \<noteq> k" if "in_map pc" using l(3) that None by auto
        then show ?thesis using l 1 [OF o] c1(2) by (auto simp: s' split: if_splits)
      qed
    qed
  next
    case (Some ch)
    then show ?thesis using Insert by (intro leaders_frame [OF assms(3)]) (auto simp: call_defs split: if_splits)
  qed
next
  case (Receive c k ch r)
  then show ?thesis by (intro leaders_frame [OF assms(3)]) (auto simp: call_defs split: if_splits)
next
  case (Receive_closed c k ch late)
  then show ?thesis by (intro leaders_frame [OF assms(3)]) (auto simp: call_defs split: if_splits)
next
  case (Drop_leader c k ch)
  then show ?thesis by (intro leaders_frame [OF assms(3)]) (auto split: if_splits)
next
  case (Drop_joiner c k ch)
  then show ?thesis by (intro leaders_frame [OF assms(3)]) (auto split: if_splits)
next
  case (Fetch c k ch r)
  then show ?thesis using leadersD(2,3) [OF assms(3) Fetch(3), of ch]
    by (intro leaders_move [OF assms(3) Fetch(3), of ch s' "Fetched ch r"]) (simp_all add: set_call_def)
next
  case (Remove c k ch r)
  have "cl_in_flight s k' \<noteq> Some ch" if "k' \<noteq> k" for k'
    using that channelsD(3) [OF assms(2), of k ch k'] leadersD(3) [OF assms(3) Remove(3), of ch] by auto
  then show ?thesis using leadersD(1-3) [OF assms(3) Remove(3), of ch] Remove
    by (intro leaders_move [OF assms(3) Remove(3), of ch s' "Removed ch r"]) (auto simp: call_defs)
next
  case (Send c k ch r)
  then show ?thesis
    by (intro leaders_move [OF assms(3) Send(3), of ch s' "Returned (to_caller r)"]) (auto simp: call_defs)
qed

lemma joinersD:
  "joiners_ok s \<Longrightarrow> cl_calls s c = Some (k, Joined ch late) \<Longrightarrow> \<not> late \<and> ch < cl_next s \<and>
     (cl_sent s ch = None \<longrightarrow> cl_in_flight s k = Some ch \<or> (\<exists>c' r. cl_calls s c' = Some (k, Removed ch r)))"
  unfolding joiners_ok_def by blast

lemma joiners_frame:
  assumes ok: "joiners_ok s" and nx: "cl_next s \<le> cl_next s'"
    and joined: "\<And>c k ch late. cl_calls s' c = Some (k, Joined ch late) \<Longrightarrow>
      cl_calls s c = Some (k, Joined ch late) \<or> cl_in_flight s' k = Some ch \<and> ch < cl_next s' \<and> \<not> late"
    and sent: "\<And>ch. cl_sent s' ch = None \<Longrightarrow> cl_sent s ch = None"
    and flight: "\<And>k ch. cl_in_flight s k = Some ch \<Longrightarrow>
      cl_in_flight s' k = Some ch \<or> (\<exists>c r. cl_calls s' c = Some (k, Removed ch r))"
    and removed: "\<And>c k ch r. cl_calls s c = Some (k, Removed ch r) \<Longrightarrow> cl_sent s' ch = None \<Longrightarrow>
      cl_calls s' c = Some (k, Removed ch r)"
  shows "joiners_ok s'"
  unfolding joiners_ok_def
proof (intro allI impI)
  fix c k ch late
  assume c: "cl_calls s' c = Some (k, Joined ch late)"
  show "\<not> late \<and> ch < cl_next s' \<and>
      (cl_sent s' ch = None \<longrightarrow> cl_in_flight s' k = Some ch \<or> (\<exists>c' r. cl_calls s' c' = Some (k, Removed ch r)))"
    using joined [OF c]
  proof
    assume "cl_calls s c = Some (k, Joined ch late)"
    from joinersD [OF ok this] show ?thesis using nx sent flight [of k ch] removed by (meson order_less_le_trans)
  qed simp
qed

lemma step_joiners:
  assumes "coal_step s e s'" and "channels_ok s" and "leaders_ok s" and "joiners_ok s"
  shows "joiners_ok s'"
  using assms(1)
proof cases
  case (Start c k)
  then show ?thesis using channelsD(1,2) [OF assms(2), of k]
    by (intro joiners_frame [OF assms(4)]) (auto simp: call_defs split: option.splits if_splits)
next
  case (Insert c k)
  then show ?thesis using channelsD(1,2) [OF assms(2), of k]
    by (intro joiners_frame [OF assms(4)]) (auto simp: call_defs split: option.splits if_splits)
next
  case (Fetch c k ch r)
  then show ?thesis by (intro joiners_frame [OF assms(4)]) (auto simp: call_defs split: if_splits)
next
  case (Remove c k ch r)
  then show ?thesis using leadersD(3) [OF assms(3) Remove(3), of ch]
    by (intro joiners_frame [OF assms(4)]) (auto simp: call_defs split: if_splits)
next
  case (Send c k ch r)
  then show ?thesis by (intro joiners_frame [OF assms(4)]) (auto simp: call_defs split: if_splits)
next
  case (Receive c k ch r)
  then show ?thesis by (intro joiners_frame [OF assms(4)]) (auto simp: call_defs split: if_splits)
next
  case (Receive_closed c k ch late)
  then show ?thesis by (intro joiners_frame [OF assms(4)]) (auto simp: call_defs split: if_splits)
next
  case (Drop_leader c k ch)
  then show ?thesis by (intro joiners_frame [OF assms(4)]) (auto split: if_splits)
next
  case (Drop_joiner c k ch)
  then show ?thesis by (intro joiners_frame [OF assms(4)]) (auto split: if_splits)
qed

lemma own_result_mono:
  assumes "own_result es s k pc" and "set es \<subseteq> set es'"
    and "\<And>ch late r. pc = Joined ch late \<Longrightarrow> cl_sent s' ch = Some r \<Longrightarrow> cl_sent s ch = Some r \<or> FetchEnds k r \<in> set es'"
  shows "own_result es' s' k pc"
  using assms by (cases pc) auto

lemma results_frame:
  assumes ok: "results_ok es s"
    and new: "\<And>c k pc. cl_calls s' c = Some (k, pc) \<Longrightarrow> cl_calls s c = Some (k, pc) \<or> own_result (es @ [e]) s' k pc"
    and sent: "\<And>c k ch late r. cl_calls s c = Some (k, Joined ch late) \<Longrightarrow> cl_sent s' ch = Some r \<Longrightarrow>
      cl_sent s ch = Some r \<or> FetchEnds k r \<in> set es"
  shows "results_ok (es @ [e]) s'"
  unfolding results_ok_def
proof (intro allI impI)
  fix c k pc
  assume "cl_calls s' c = Some (k, pc)"
  from new [OF this] show "own_result (es @ [e]) s' k pc"
  proof
    assume c: "cl_calls s c = Some (k, pc)"
    then have "own_result es s k pc" using ok by (simp add: results_ok_def)
    then show ?thesis by (rule own_result_mono) (use c in \<open>auto dest: sent\<close>)
  qed
qed

lemma step_results:
  assumes "coal_step s e s'" and "channels_ok s" and "leaders_ok s" and "joiners_ok s" and "results_ok es s"
  shows "results_ok (es @ [e]) s'"
  using assms(1)
proof cases
  case (Start c k)
  then show ?thesis using channelsD(2) [OF assms(2), of k]
    by (intro results_frame [OF assms(5)]) (auto simp: call_defs split: option.splits if_splits)
next
  case (Insert c k)
  then show ?thesis using channelsD(2) [OF assms(2), of k]
    by (intro results_frame [OF assms(5)]) (auto simp: call_defs split: option.splits if_splits)
next
  case (Fetch c k ch r)
  then show ?thesis by (intro results_frame [OF assms(5)]) (auto simp: call_defs split: if_splits)
next
  case (Remove c k ch r)
  then have "FetchEnds k r \<in> set es" using assms(5) by (force simp: results_ok_def)
  then show ?thesis using Remove by (intro results_frame [OF assms(5)]) (auto simp: call_defs split: if_splits)
next
  case (Send c k ch r)
  then have r: "FetchEnds k r \<in> set es" using assms(5) by (force simp: results_ok_def)
  have "k' = k" if j: "cl_calls s c' = Some (k', Joined ch late)" for c' k' late
  proof -
    have "cl_sent s ch = None" "cl_in_flight s k' \<noteq> Some ch" using leadersD(2,4) [OF assms(3) Send(3), of ch] by simp_all
    then obtain c1 r1 where "cl_calls s c1 = Some (k', Removed ch r1)" using joinersD [OF assms(4) j] by blast
    then show ?thesis using leadersD(5) [OF assms(3) Send(3), of ch c1 k'] Send(3) by auto
  qed
  then show ?thesis using Send r
    by (intro results_frame [OF assms(5)]) (auto simp: call_defs split: if_splits)
next
  case (Receive c k ch r)
  then have "FetchEnds k r \<in> set es" using assms(5) by (force simp: results_ok_def)
  then show ?thesis using Receive by (intro results_frame [OF assms(5)]) (auto simp: call_defs split: if_splits)
next
  case (Receive_closed c k ch late)
  then show ?thesis using joiner_not_closed [OF assms(4)] by blast
next
  case (Drop_leader c k ch)
  then show ?thesis by (intro results_frame [OF assms(5)]) (auto split: if_splits)
next
  case (Drop_joiner c k ch)
  then show ?thesis by (intro results_frame [OF assms(5)]) (auto split: if_splits)
qed

lemma led_frame:
  assumes "led es s"
    and "\<And>k ch. cl_in_flight s' k = Some ch \<Longrightarrow> cl_in_flight s k = Some ch \<or> (\<exists>c. owns s' c k ch)"
    and "\<And>c k ch. owns s c k ch \<Longrightarrow> cl_in_flight s' k = Some ch \<Longrightarrow> owns s' c k ch \<or> e = LeaderLost k"
  shows "led (es @ [e]) s'"
  unfolding led_def
proof (intro allI impI)
  fix k ch
  assume f: "cl_in_flight s' k = Some ch"
  from assms(2) [OF f] show "LeaderLost k \<in> set (es @ [e]) \<or> (\<exists>c. owns s' c k ch)"
  proof
    assume "cl_in_flight s k = Some ch"
    then consider "LeaderLost k \<in> set es" | c where "owns s c k ch" using assms(1) unfolding led_def by blast
    then show ?thesis by cases (use assms(3) [OF _ f] in auto)
  qed simp
qed

lemma step_led:
  assumes "coal_step s e s'" and "leaders_ok s" and "led es s"
  shows "led (es @ [e]) s'"
  using assms(1)
proof cases
  case (Remove c k ch r)
  then show ?thesis by (intro led_frame [OF assms(3)]) (auto simp: call_defs owns_def split: if_splits)
next
  case (Send c k ch r)
  then show ?thesis using leadersD(4) [OF assms(2) Send(3), of ch]
    by (intro led_frame [OF assms(3)]) (auto simp: call_defs owns_def split: if_splits)
next
  case (Start c k)
  then show ?thesis by (intro led_frame [OF assms(3)]) (auto simp: call_defs owns_def split: if_splits option.splits)
next
  case (Insert c k)
  then show ?thesis by (intro led_frame [OF assms(3)]) (auto simp: call_defs owns_def split: if_splits option.splits)
next
  case (Fetch c k ch r)
  then show ?thesis by (intro led_frame [OF assms(3)]) (auto simp: call_defs owns_def split: if_splits)
next
  case (Receive c k ch r)
  then show ?thesis by (intro led_frame [OF assms(3)]) (auto simp: call_defs owns_def split: if_splits)
next
  case (Receive_closed c k ch late)
  then show ?thesis by (intro led_frame [OF assms(3)]) (auto simp: call_defs owns_def split: if_splits)
next
  case (Drop_leader c k ch)
  then show ?thesis using leadersD(3) [OF assms(2) Drop_leader(3), of ch]
    by (intro led_frame [OF assms(3)]) (auto simp: owns_def split: if_splits)
next
  case (Drop_joiner c k ch)
  then show ?thesis by (intro led_frame [OF assms(3)]) (auto simp: owns_def split: if_splits)
qed

definition coal_inv :: "coal_event list \<Rightarrow> Coalescer \<Rightarrow> bool" where
  "coal_inv es s \<longleftrightarrow> channels_ok s \<and> leaders_ok s \<and> joiners_ok s \<and> results_ok es s \<and> led es s"

lemma coal_reach_inv: "trace coal_step coalescer_new es s \<Longrightarrow> coal_inv es s"
proof (rule trace_invariant [where I = coal_inv])
  show "coal_inv [] coalescer_new"
    by (simp add: coal_inv_def channels_ok_def leaders_ok_def joiners_ok_def results_ok_def led_def coalescer_new_def)
next
  fix es s e s'
  assume "coal_inv es s" "coal_step s e s'"
  then show "coal_inv (es @ [e]) s'"
    using step_channels step_leaders step_joiners step_results step_led unfolding coal_inv_def by blast
qed

section \<open>Properties\<close>

text \<open>C32. Whatever the callers do, a call returns the result of a fetch of its own key.\<close>
theorem coalesced_result_is_own_fetch:
  assumes "trace coal_step coalescer_new es s" and "cl_calls s c = Some (k, Returned x)"
  shows "\<exists>r. FetchEnds k r \<in> set es \<and> x = to_caller r"
  using coal_reach_inv [OF assms(1)] assms(2) by (force simp: coal_inv_def results_ok_def)

text \<open>Two calls, the second of which joins the first.\<close>

lemma joined_trace:
  "\<exists>s. trace coal_step coalescer_new [Quiet, Quiet, Quiet, FetchEnds ''k'' (Inr ''v''), Quiet, Quiet, Quiet] s
    \<and> cl_calls s 1 = Some (''k'', Returned (Inr ''v''))"
proof -
  define s1 where "s1 = call_start 0 ''k'' coalescer_new"
  define s2 where "s2 = call_insert 0 ''k'' s1"
  define s3 where "s3 = call_start 1 ''k'' s2"
  define s4 where "s4 = set_call 0 ''k'' (Fetched 0 (Inr ''v'')) s3"
  define s5 where "s5 = call_remove 0 ''k'' 0 (Inr ''v'') s4"
  define s6 where "s6 = call_send 0 ''k'' 0 (Inr ''v'') s5"
  define s7 where "s7 = set_call 1 ''k'' (Returned (to_caller (Inr ''v''))) s6"
  note d = s1_def s2_def s3_def s4_def s5_def s6_def s7_def call_defs coalescer_new_def
  have "coal_step coalescer_new Quiet s1" unfolding s1_def by (rule Start) (simp add: coalescer_new_def)
  moreover have "coal_step s1 Quiet s2" unfolding s2_def by (rule Insert) (simp add: d)
  moreover have "coal_step s2 Quiet s3" unfolding s3_def by (rule Start) (simp add: d)
  moreover have "coal_step s3 (FetchEnds ''k'' (Inr ''v'')) s4" unfolding s4_def by (rule Fetch) (simp add: d)
  moreover have "coal_step s4 Quiet s5" unfolding s5_def by (rule Remove) (simp add: d)
  moreover have "coal_step s5 Quiet s6" unfolding s6_def by (rule Send) (simp add: d)
  moreover have "coal_step s6 Quiet s7" unfolding s7_def by (rule Receive [of _ _ _ 0]) (simp_all add: d)
  moreover have "trace coal_step s7 [] s7" by simp
  ultimately have "trace coal_step coalescer_new [Quiet, Quiet, Quiet, FetchEnds ''k'' (Inr ''v''), Quiet, Quiet, Quiet] s7"
    by (meson trace_Cons)
  moreover have "cl_calls s7 1 = Some (''k'', Returned (Inr ''v''))" by (simp add: d to_caller_def)
  ultimately show ?thesis by blast
qed

theorem coalesced_result_is_own_fetch_witness:
  "\<exists>r. FetchEnds ''k'' r \<in> set [Quiet, Quiet, Quiet, FetchEnds ''k'' (Inr ''v''), Quiet, Quiet, Quiet] \<and> Inr ''v'' = to_caller r"
  using joined_trace coalesced_result_is_own_fetch by blast

text \<open>In every reachable state at most one call is the leader of a key, and while its fetch runs every
  other call of the key that has looked it up has joined it.\<close>
theorem one_fetch_per_key:
  assumes "trace coal_step coalescer_new es s" and "cl_calls s c = Some (k, Leading ch)" and "cl_calls s c' = Some (k, Leading ch')"
  shows "c = c' \<and> cl_in_flight s k = Some ch"
proof -
  have l: "leaders_ok s" using coal_reach_inv [OF assms(1)] by (simp add: coal_inv_def)
  have "cl_in_flight s k = Some ch" "cl_in_flight s k = Some ch'"
    using leadersD(3) [OF l assms(2)] leadersD(3) [OF l assms(3)] by simp_all
  then show ?thesis using leadersD(5) [OF l assms(2) _ assms(3)] by simp
qed

theorem one_fetch_per_key_witness:
  "\<exists>s. trace coal_step coalescer_new [Quiet, Quiet] s \<and> cl_calls s 0 = Some (''k'', Leading 0) \<and> cl_in_flight s ''k'' = Some 0"
proof -
  define s where "s = call_insert 0 ''k'' (call_start 0 ''k'' coalescer_new)"
  have "coal_step coalescer_new Quiet (call_start 0 ''k'' coalescer_new)" by (rule Start) (simp add: coalescer_new_def)
  moreover have "coal_step (call_start 0 ''k'' coalescer_new) Quiet s"
    unfolding s_def by (rule Insert) (simp add: call_defs coalescer_new_def)
  ultimately have t: "trace coal_step coalescer_new [Quiet, Quiet] s" by (meson trace_Cons trace_Nil)
  moreover have "cl_calls s 0 = Some (''k'', Leading 0)" by (simp add: s_def call_defs coalescer_new_def)
  ultimately show ?thesis using one_fetch_per_key [OF t, of 0 "''k''" 0 0 0] by blast
qed

text \<open>How a joined call gets its result, from each state its leader may be in.\<close>

lemma serve_sent:
  assumes "cl_calls s c = Some (k, Joined ch False)" and "cl_sent s ch = Some r"
  shows "\<exists>es s'. trace coal_step s es s' \<and> cl_calls s' c = Some (k, Returned (to_caller r))"
proof -
  have "coal_step s Quiet (set_call c k (Returned (to_caller r)) s)" by (rule Receive [OF assms])
  then have "trace coal_step s [Quiet] (set_call c k (Returned (to_caller r)) s)" by (rule trace_Cons) simp
  then show ?thesis by (force simp: set_call_def)
qed

lemma serve_removed:
  assumes "cl_calls s c = Some (k, Joined ch False)" and "cl_calls s c' = Some (k, Removed ch r)"
  shows "\<exists>es s'. trace coal_step s es s' \<and> cl_calls s' c = Some (k, Returned (to_caller r))"
proof -
  let ?s = "call_send c' k ch r s"
  have "c \<noteq> c'" using assms by auto
  then have "cl_calls ?s c = Some (k, Joined ch False)" "cl_sent ?s ch = Some r" using assms(1) by (simp_all add: call_defs)
  from serve_sent [OF this] show ?thesis using trace_Cons [of coal_step, OF Send [OF assms(2)]] by meson
qed

lemma serve_fetched:
  assumes "cl_calls s c = Some (k, Joined ch False)" and "cl_calls s c' = Some (k, Fetched ch r)"
  shows "\<exists>es s'. trace coal_step s es s' \<and> cl_calls s' c = Some (k, Returned (to_caller r))"
proof -
  let ?s = "call_remove c' k ch r s"
  have "c \<noteq> c'" using assms by auto
  then have "cl_calls ?s c = Some (k, Joined ch False)" "cl_calls ?s c' = Some (k, Removed ch r)" using assms(1) by (simp_all add: call_defs)
  from serve_removed [OF this] show ?thesis using trace_Cons [of coal_step, OF Remove [OF assms(2)]] by meson
qed

lemma serve_leading:
  assumes "cl_calls s c = Some (k, Joined ch False)" and "cl_calls s c' = Some (k, Leading ch)"
  shows "\<exists>es s'. trace coal_step s es s' \<and> cl_calls s' c = Some (k, Returned (to_caller r))"
proof -
  let ?s = "set_call c' k (Fetched ch r) s"
  have "c \<noteq> c'" using assms by auto
  then have "cl_calls ?s c = Some (k, Joined ch False)" "cl_calls ?s c' = Some (k, Fetched ch r)" using assms(1) by (simp_all add: set_call_def)
  from serve_fetched [OF this] show ?thesis using trace_Cons [of coal_step, OF Fetch [OF assms(2)]] by meson
qed

text \<open>C38. No wake-up is lost. A joined call always subscribed before the result was sent, so it never finds
  its channel closed; and unless a leader of its key was cancelled, the result has been sent or some
  call of the same key owns the channel, and the call can still be served: some continuation of the
  execution ends with it returning the result of a fetch of its key.\<close>
theorem joiner_is_served:
  assumes "trace coal_step coalescer_new es s" and "cl_calls s c = Some (k, Joined ch late)"
  shows "\<not> late
    \<and> (cl_sent s ch = None \<longrightarrow> \<not> channel_closed s ch)
    \<and> (LeaderLost k \<notin> set es \<longrightarrow> (cl_sent s ch \<noteq> None \<or> (\<exists>c'. owns s c' k ch))
        \<and> (\<exists>es' s' r. trace coal_step s es' s' \<and> FetchEnds k r \<in> set (es @ es')
              \<and> cl_calls s' c = Some (k, Returned (to_caller r))))"
proof -
  note i = coal_reach_inv [OF assms(1)]
  have j: "joiners_ok s" using i by (simp add: coal_inv_def)
  have late: "\<not> late" using joinersD [OF j assms(2)] by blast
  have open_: "cl_sent s ch = None \<Longrightarrow> \<not> channel_closed s ch" using joiner_not_closed [OF j assms(2)] by blast
  have c: "cl_calls s c = Some (k, Joined ch False)" using assms(2) late by simp
  have own: "cl_sent s ch \<noteq> None \<or> (\<exists>c'. owns s c' k ch)" if "LeaderLost k \<notin> set es"
  proof -
    have "\<exists>c'. owns s c' k ch" if "cl_in_flight s k = Some ch"
      using i that \<open>LeaderLost k \<notin> set es\<close> unfolding coal_inv_def led_def by blast
    then show ?thesis using joinersD [OF j assms(2)] by (force simp: owns_def)
  qed
  have "\<exists>es' s' r. trace coal_step s es' s' \<and> cl_calls s' c = Some (k, Returned (to_caller r))"
    if "cl_sent s ch \<noteq> None \<or> (\<exists>c'. owns s c' k ch)"
    using that
  proof
    assume "cl_sent s ch \<noteq> None"
    then show ?thesis using serve_sent [OF c] by blast
  next
    assume "\<exists>c'. owns s c' k ch"
    then obtain c' pc where p: "cl_calls s c' = Some (k, pc)" "channel_of pc = Some ch" by (auto simp: owns_def)
    show ?thesis
    proof (cases pc)
      case (Leading x)
      then show ?thesis using serve_leading [OF c] p by fastforce
    next
      case (Fetched x r)
      then show ?thesis using serve_fetched [OF c] p by fastforce
    next
      case (Removed x r)
      then show ?thesis using serve_removed [OF c] p by fastforce
    qed (use p in simp_all)
  qed
  moreover have "\<exists>r'. FetchEnds k r' \<in> set (es @ es') \<and> to_caller r = to_caller r'"
    if "trace coal_step s es' s'" "cl_calls s' c = Some (k, Returned (to_caller r))" for es' s' r
  proof -
    have "results_ok (es @ es') s'" using coal_reach_inv [OF trace_append [OF assms(1) that(1)]] by (simp add: coal_inv_def)
    then show ?thesis using that(2) by (force simp: results_ok_def)
  qed
  ultimately show ?thesis using late open_ own by metis
qed

theorem joiner_is_served_witness:
  "\<exists>s. trace coal_step coalescer_new [Quiet, Quiet, Quiet] s \<and> cl_calls s 1 = Some (''k'', Joined 0 False)
    \<and> (\<exists>es' s' r. trace coal_step s es' s' \<and> FetchEnds ''k'' r \<in> set es' \<and> cl_calls s' 1 = Some (''k'', Returned (to_caller r)))"
proof -
  define s2 where "s2 = call_insert 0 ''k'' (call_start 0 ''k'' coalescer_new)"
  define s where "s = call_start 1 ''k'' s2"
  have "coal_step coalescer_new Quiet (call_start 0 ''k'' coalescer_new)" by (rule Start) (simp add: coalescer_new_def)
  moreover have "coal_step (call_start 0 ''k'' coalescer_new) Quiet s2"
    unfolding s2_def by (rule Insert) (simp add: call_defs coalescer_new_def)
  moreover have "coal_step s2 Quiet s" unfolding s_def by (rule Start) (simp add: s2_def call_defs coalescer_new_def)
  ultimately have t: "trace coal_step coalescer_new [Quiet, Quiet, Quiet] s" by (meson trace_Cons trace_Nil)
  have c: "cl_calls s 1 = Some (''k'', Joined 0 False)" by (simp add: s_def s2_def call_defs coalescer_new_def)
  show ?thesis using joiner_is_served [OF t c] t c by auto
qed

text \<open>C37. When the future of a leader is dropped while it fetches, its entry stays in the map: no call of
  the key that starts afterwards returns, in any execution.\<close>

definition stranded :: "nat set \<Rightarrow> string \<Rightarrow> nat \<Rightarrow> Coalescer \<Rightarrow> bool" where
  "stranded old k ch s \<longleftrightarrow> cl_in_flight s k = Some ch \<and> ch < cl_next s \<and> cl_sent s ch = None
     \<and> (\<forall>c pc. cl_calls s c = Some (k, pc) \<longrightarrow>
          (channel_of pc = None \<or> \<not> in_map pc) \<and> (c \<notin> old \<longrightarrow> pc = Missed \<or> pc = Joined ch False))
     \<and> (\<forall>c k' pc. cl_calls s c = Some (k', pc) \<longrightarrow> channel_of pc \<noteq> Some ch)"

lemma strandedD:
  assumes "stranded old k ch s"
  shows "cl_in_flight s k = Some ch" "ch < cl_next s" "cl_sent s ch = None"
    and "cl_calls s c = Some (k, pc) \<Longrightarrow> channel_of pc = None \<or> \<not> in_map pc"
    and "cl_calls s c = Some (k, pc) \<Longrightarrow> c \<notin> old \<Longrightarrow> pc = Missed \<or> pc = Joined ch False"
    and "cl_calls s c = Some (k', pc) \<Longrightarrow> channel_of pc \<noteq> Some ch"
  using assms unfolding stranded_def by blast+

lemma strandedI:
  assumes st: "stranded old k ch s" and "cl_in_flight s' k = cl_in_flight s k" and "cl_next s \<le> cl_next s'"
    and "cl_sent s' ch = cl_sent s ch"
    and new: "\<And>c k' pc. cl_calls s' c = Some (k', pc) \<Longrightarrow> cl_calls s c = Some (k', pc)
      \<or> channel_of pc \<noteq> Some ch \<and> (k' = k \<longrightarrow> (channel_of pc = None \<or> \<not> in_map pc) \<and> (c \<notin> old \<longrightarrow> pc = Missed \<or> pc = Joined ch False))"
  shows "stranded old k ch s'"
proof -
  have "channel_of pc \<noteq> Some ch \<and> (k' = k \<longrightarrow> (channel_of pc = None \<or> \<not> in_map pc) \<and> (c \<notin> old \<longrightarrow> pc = Missed \<or> pc = Joined ch False))"
    if "cl_calls s' c = Some (k', pc)" for c k' pc
    using new [OF that] strandedD(4-6) [OF st] by blast
  then show ?thesis using assms(2-4) strandedD(1-3) [OF st] unfolding stranded_def by (metis order_less_le_trans)
qed

lemma stranded_step:
  assumes "coal_step s e s'" and st: "stranded old k ch s"
  shows "stranded old k ch s'"
  using assms(1)
proof cases
  case (Start c k')
  then show ?thesis using strandedD(1,3) [OF st]
    by (intro strandedI [OF st]) (auto simp: call_defs split: option.splits if_splits)
next
  case (Insert c k')
  then show ?thesis using strandedD(1-3) [OF st]
    by (intro strandedI [OF st]) (auto simp: call_defs split: option.splits if_splits)
next
  case (Fetch c k' ch' r)
  then show ?thesis using strandedD(6) [OF st Fetch(3)] strandedD(4) [OF st, of c "Leading ch'"]
    by (intro strandedI [OF st]) (auto simp: call_defs split: if_splits)
next
  case (Remove c k' ch' r)
  then show ?thesis using strandedD(6) [OF st Remove(3)] strandedD(4) [OF st, of c "Fetched ch' r"]
    by (intro strandedI [OF st]) (auto simp: call_defs split: if_splits)
next
  case (Send c k' ch' r)
  then show ?thesis using strandedD(6) [OF st Send(3)] strandedD(5) [OF st, of c "Removed ch' r"]
    by (intro strandedI [OF st]) (auto simp: call_defs split: if_splits)
next
  case (Receive c k' ch' r)
  then have "c \<in> old" if "k' = k" using strandedD(3) [OF st] strandedD(5) [OF st, of c "Joined ch' False"] that by (cases "c \<in> old") auto
  then show ?thesis using Receive by (intro strandedI [OF st]) (auto simp: call_defs split: if_splits)
next
  case (Receive_closed c k' ch' late)
  have "c \<in> old" if "k' = k"
  proof (rule ccontr)
    assume "c \<notin> old"
    then have "ch' = ch" using strandedD(5) [OF st, of c "Joined ch' late"] Receive_closed(3) that by auto
    then show False using Receive_closed(5) strandedD(1) [OF st] by (auto simp: channel_closed_def ran_def)
  qed
  then show ?thesis using Receive_closed by (intro strandedI [OF st]) (auto simp: call_defs split: if_splits)
next
  case (Drop_leader c k' ch')
  then show ?thesis by (intro strandedI [OF st]) (auto split: if_splits)
next
  case (Drop_joiner c k' ch')
  then show ?thesis by (intro strandedI [OF st]) (auto split: if_splits)
qed

lemma cancelled_leader_stranded:
  assumes "trace coal_step coalescer_new es s" and "cl_calls s c = Some (k, Leading ch)"
  shows "stranded (dom (cl_calls s)) k ch (s\<lparr>cl_calls := (cl_calls s)(c := None)\<rparr>)"
proof -
  have i: "channels_ok s" "leaders_ok s" using coal_reach_inv [OF assms(1)] by (simp_all add: coal_inv_def)
  note l = leadersD [OF i(2) assms(2), of ch, simplified]
  have only: "channel_of pc \<noteq> Some ch" if "cl_calls s c' = Some (k', pc)" "c' \<noteq> c" for c' k' pc
    using l(5) [OF that(1)] that(2) by blast
  have "channel_of pc = None \<or> \<not> in_map pc" if "cl_calls s c' = Some (k, pc)" "c' \<noteq> c" for c' pc
    using leadersD(3) [OF i(2) that(1)] l(3) only [OF that] by (cases "channel_of pc") auto
  then show ?thesis unfolding stranded_def using l(1-3) only by (auto split: if_splits)
qed

theorem cancelled_leader_strands_key:
  assumes "trace coal_step coalescer_new es s" and "cl_calls s c = Some (k, Leading ch)"
    and "trace coal_step (s\<lparr>cl_calls := (cl_calls s)(c := None)\<rparr>) es' s'" and "cl_calls s c' = None"
  shows "cl_calls s' c' \<noteq> Some (k, Returned x)"
proof -
  have "stranded (dom (cl_calls s)) k ch s'"
    by (rule trace_invariant [OF assms(3), where I = "\<lambda>_. stranded (dom (cl_calls s)) k ch"])
      (auto intro: stranded_step cancelled_leader_stranded [OF assms(1,2)])
  from strandedD(5) [OF this, of c' "Returned x"] show ?thesis using assms(4) by auto
qed

theorem cancelled_leader_strands_key_witness:
  "\<exists>s. trace coal_step coalescer_new [Quiet, Quiet] s \<and> cl_calls s 0 = Some (''k'', Leading 0)
    \<and> (\<forall>es s' x. trace coal_step (s\<lparr>cl_calls := (cl_calls s)(0 := None)\<rparr>) es s' \<longrightarrow> cl_calls s' 1 \<noteq> Some (''k'', Returned x))"
proof -
  define s where "s = call_insert 0 ''k'' (call_start 0 ''k'' coalescer_new)"
  have "coal_step coalescer_new Quiet (call_start 0 ''k'' coalescer_new)" by (rule Start) (simp add: coalescer_new_def)
  moreover have "coal_step (call_start 0 ''k'' coalescer_new) Quiet s"
    unfolding s_def by (rule Insert) (simp add: call_defs coalescer_new_def)
  ultimately have t: "trace coal_step coalescer_new [Quiet, Quiet] s" by (meson trace_Cons trace_Nil)
  moreover have c: "cl_calls s 0 = Some (''k'', Leading 0)" "cl_calls s 1 = None" by (simp_all add: s_def call_defs coalescer_new_def)
  ultimately show ?thesis using cancelled_leader_strands_key [OF t c(1) _ c(2)] by blast
qed


end
