(* ===== verification/ResponseCache.thy ===== *)
theory ResponseCache
  imports OutputCodec Bytes
begin

text \<open>
  The HTTP response cache (\<open>src/response_cache.rs\<close>): entries keyed by a hash of method, path and
  query, a time to live, a bound on their number, and invalidation by headers. A clock reading is a
  number of nanoseconds; a string is the list of its bytes.
\<close>

section \<open>Keys\<close>

text \<open>\<open>format!("{:016x}", h)\<close>: sixteen digits, the most significant first.\<close>

definition hex16 :: "u64 \<Rightarrow> string" where
  "hex16 h = map (\<lambda>i. hex_digit (unat h div 16 ^ (15 - i) mod 16)) [0..<16]"

definition generate_etag :: "u8 list \<Rightarrow> string" where
  "generate_etag body = hex16 (fnv1a body)"

record CacheKey =
  ck_method :: string
  ck_path :: string
  ck_query :: string

definition key_new :: "string \<Rightarrow> string \<Rightarrow> string \<Rightarrow> CacheKey" where
  "key_new m p q = \<lparr>ck_method = m, ck_path = p, ck_query = q\<rparr>"

definition joined :: "CacheKey \<Rightarrow> string" where
  "joined k = ck_method k @ ''|'' @ ck_path k @ ''|'' @ ck_query k"

definition key_hash :: "CacheKey \<Rightarrow> u64" where
  "key_hash k = fnv1a (as_bytes (joined k))"

section \<open>Entries\<close>

record CacheControl =
  max_age_secs :: u64
  no_cache :: bool
  no_store :: bool
  must_revalidate :: bool

definition CacheControl_default :: CacheControl where
  "CacheControl_default = \<lparr>max_age_secs = 60, no_cache = False, no_store = False, must_revalidate = False\<rparr>"

record CacheEntry =
  body :: "u8 list"
  status_code :: u16
  headers :: "(string, string) hashmap"
  etag :: string
  cached_at :: nat
  ttl_secs :: u64
  hit_count :: u64

definition is_expired :: "nat \<Rightarrow> CacheEntry \<Rightarrow> bool" where
  "is_expired now e = (unat (ttl_secs e) \<le> (now - cached_at e) div 10 ^ 9)"

definition size_bytes :: "CacheEntry \<Rightarrow> nat" where
  "size_bytes e = length (body e) + sum_list (map (\<lambda>(k, v). length k + length v) (headers e))"

section \<open>The cache\<close>

record ResponseCache =
  rc_map :: "(u64, CacheEntry) hashmap"
  max_size :: usize
  total_hits :: u64
  total_misses :: u64

definition cache_new :: "usize \<Rightarrow> ResponseCache" where
  "cache_new m = \<lparr>rc_map = [], max_size = m, total_hits = 0, total_misses = 0\<rparr>"

definition miss :: "ResponseCache \<Rightarrow> ResponseCache" where
  "miss c = c\<lparr>total_misses := total_misses c + 1\<rparr>"

definition response_get :: "nat \<Rightarrow> CacheKey \<Rightarrow> ResponseCache \<Rightarrow> CacheEntry option \<times> ResponseCache" where
  "response_get now k c =
    (let hash = key_hash k
     in case hm_get (rc_map c) hash of
          None \<Rightarrow> (None, miss c)
        | Some e \<Rightarrow>
            if is_expired now e then (None, miss (c\<lparr>rc_map := hm_remove hash (rc_map c)\<rparr>))
            else let e = e\<lparr>hit_count := hit_count e + 1\<rparr>
                 in (Some e, c\<lparr>rc_map := hm_insert hash e (rc_map c), total_hits := total_hits c + 1\<rparr>))"

text \<open>The three removals collect the hashes of the entries to drop, and drop them.\<close>

definition remove_where :: "(CacheEntry \<Rightarrow> bool) \<Rightarrow> ResponseCache \<Rightarrow> ResponseCache" where
  "remove_where P c =
    (let to_remove = map fst (filter (\<lambda>(_, e). P e) (rc_map c))
     in c\<lparr>rc_map := fold hm_remove to_remove (rc_map c)\<rparr>)"

definition evict_expired :: "nat \<Rightarrow> ResponseCache \<Rightarrow> ResponseCache" where
  "evict_expired now = remove_where (is_expired now)"

definition response_put :: "nat \<Rightarrow> nat \<Rightarrow> CacheKey \<Rightarrow> u8 list \<Rightarrow> u16 \<Rightarrow> (string, string) hashmap \<Rightarrow> u64 \<Rightarrow> ResponseCache \<Rightarrow> ResponseCache" where
  "response_put now_evict now k b st hs ttl c =
    (let full = (\<lambda>c. unat (max_size c) \<le> length (rc_map c));
         c' = (if full c then evict_expired now_evict c else c)
     in if full c \<and> full c' then c'
        else c'\<lparr>rc_map := hm_insert (key_hash k)
          \<lparr>body = b, status_code = st, headers = hs, etag = generate_etag b, cached_at = now, ttl_secs = ttl, hit_count = 0\<rparr>
          (rc_map c')\<rparr>)"

definition path_tagged :: "string \<Rightarrow> CacheEntry \<Rightarrow> bool" where
  "path_tagged prefix e =
    (case hm_get (headers e) ''X-Cache-Path'' of Some p \<Rightarrow> take (length prefix) p = prefix | None \<Rightarrow> False)"

definition invalidate :: "string \<Rightarrow> ResponseCache \<Rightarrow> ResponseCache" where
  "invalidate prefix = remove_where (path_tagged prefix)"

text \<open>\<open>split(',')\<close> and \<open>trim\<close>; only ASCII white space is trimmed in the model.\<close>

definition is_space :: "char \<Rightarrow> bool" where
  "is_space c = (c = CHR '' '' \<or> 9 \<le> (of_char c :: nat) \<and> (of_char c :: nat) \<le> 13)"

definition trim :: "string \<Rightarrow> string" where
  "trim s = rev (dropWhile is_space (rev (dropWhile is_space s)))"

definition has_tag :: "string \<Rightarrow> CacheEntry \<Rightarrow> bool" where
  "has_tag tag e =
    (case hm_get (headers e) ''Cache-Tag'' of
       Some tags \<Rightarrow> list_ex (\<lambda>t. trim t = tag) (split_on (CHR '','') tags) | None \<Rightarrow> False)"

definition invalidate_by_tag :: "string \<Rightarrow> ResponseCache \<Rightarrow> ResponseCache" where
  "invalidate_by_tag tag = remove_where (has_tag tag)"

record CacheStats =
  cs_total_entries :: nat
  cs_hit_rate :: f64
  cs_total_hits :: u64
  cs_total_misses :: u64
  cs_total_bytes :: nat

definition cache_stats :: "nat \<Rightarrow> ResponseCache \<Rightarrow> CacheStats" where
  "cache_stats now c =
    (let total = total_hits c + total_misses c;
         live = filter (\<lambda>(_, e). \<not> is_expired now e) (rc_map c)
     in \<lparr>cs_total_entries = length live,
         cs_hit_rate = (if total = 0 then FFin 0 else f64_div (f64_of_u64 (total_hits c)) (f64_of_u64 total)),
         cs_total_hits = total_hits c, cs_total_misses = total_misses c,
         cs_total_bytes = sum_list (map (size_bytes \<circ> snd) live)\<rparr>)"

section \<open>Lemmas\<close>

lemma fold_hm_remove:
  "hm_get (fold hm_remove ks m) h = (if h \<in> set ks then None else hm_get m h)"
  by (induction ks arbitrary: m) (auto simp: hm_get_remove)

lemma hm_wf_fold_remove: "hm_wf m \<Longrightarrow> hm_wf (fold hm_remove ks m)"
  by (induction ks arbitrary: m) simp_all

lemma length_fold_remove: "hm_wf m \<Longrightarrow> length (fold hm_remove ks m) \<le> length m"
proof (induction ks arbitrary: m)
  case (Cons k ks)
  then have "length (fold hm_remove ks (hm_remove k m)) \<le> length (hm_remove k m)" by simp
  then show ?case using length_hm_remove [OF Cons.prems, of k] by (simp split: if_splits)
qed simp

lemma removed_get:
  assumes "hm_wf (rc_map c)"
  shows "hm_get (rc_map (remove_where P c)) h =
    (case hm_get (rc_map c) h of Some e \<Rightarrow> if P e then None else Some e | None \<Rightarrow> None)"
proof (cases "hm_get (rc_map c) h")
  case (Some e)
  then have "h \<in> fst ` {x \<in> set (rc_map c). case x of (_, e) \<Rightarrow> P e} \<longleftrightarrow> P e"
    using assms by (force simp: hm_get_eq_Some_iff hm_wf_def dest: eq_key_imp_eq_value)
  then show ?thesis by (simp add: remove_where_def Some fold_hm_remove)
qed (auto simp: remove_where_def fold_hm_remove)

definition cache_ok :: "ResponseCache \<Rightarrow> bool" where
  "cache_ok c \<longleftrightarrow> hm_wf (rc_map c) \<and> length (rc_map c) \<le> unat (max_size c)"

lemma cache_ok_remove: "cache_ok c \<Longrightarrow> cache_ok (remove_where P c)"
  using length_fold_remove by (auto simp: cache_ok_def remove_where_def hm_wf_fold_remove intro: order_trans)

datatype response_op =
    Get nat CacheKey
  | Put nat nat CacheKey "u8 list" u16 "(string, string) hashmap" u64
  | Invalidate string
  | InvalidateTag string
  | Evict nat

fun response_apply :: "response_op \<Rightarrow> ResponseCache \<Rightarrow> ResponseCache" where
  "response_apply (Get now k) c = snd (response_get now k c)"
| "response_apply (Put n1 n2 k b st hs ttl) c = response_put n1 n2 k b st hs ttl c"
| "response_apply (Invalidate p) c = invalidate p c"
| "response_apply (InvalidateTag t) c = invalidate_by_tag t c"
| "response_apply (Evict now) c = evict_expired now c"

lemma cache_ok_get: "cache_ok c \<Longrightarrow> cache_ok (snd (response_get now k c))"
  by (auto simp: cache_ok_def response_get_def miss_def Let_def length_hm_insert length_hm_remove hm_contains_def
      split: option.split)

lemma max_size_remove [simp]: "max_size (remove_where P c) = max_size c"
  by (simp add: remove_where_def)

lemma cache_ok_insert:
  "cache_ok c \<Longrightarrow> length (rc_map c) < unat (max_size c) \<Longrightarrow> cache_ok (c\<lparr>rc_map := hm_insert h e (rc_map c)\<rparr>)"
  by (simp add: cache_ok_def length_hm_insert)

lemma cache_ok_put: "cache_ok c \<Longrightarrow> cache_ok (response_put n1 n2 k b st hs ttl c)"
  using cache_ok_remove [of c "is_expired n1"]
  by (auto simp: response_put_def evict_expired_def Let_def not_le intro!: cache_ok_insert)

interpretation responses: stateful response_apply cache_ok
proof
  fix c x
  assume "cache_ok c"
  then show "cache_ok (response_apply x c)"
    by (cases x) (simp_all add: cache_ok_get cache_ok_put cache_ok_remove invalidate_def invalidate_by_tag_def evict_expired_def)
qed

lemma hex16_inj: "hex16 a = hex16 b \<longleftrightarrow> a = b"
proof
  assume h: "hex16 a = hex16 b"
  have "unat a div 16 ^ i mod 16 = unat b div 16 ^ i mod 16" if "i < 16" for i
  proof -
    have "hex_digit (unat a div 16 ^ i mod 16) = hex_digit (unat b div 16 ^ i mod 16)"
      using arg_cong [OF h, of "\<lambda>s. s ! (15 - i)"] that nth_upt [of 0 "15 - i" 16] by (simp add: hex16_def)
    then show ?thesis by (simp add: hex_digit_inj)
  qed
  then have "unat a mod 16 ^ 16 = unat b mod 16 ^ 16" by (rule digits16_eq)
  moreover have "unat x < 16 ^ 16" for x :: u64 using unsigned_less [of x, where ?'a = nat] by simp
  ultimately show "a = b" by (metis mod_less word_unat_eq_iff)
qed simp

definition is_get :: "response_op \<Rightarrow> bool" where
  "is_get x = (case x of Get _ _ \<Rightarrow> True | _ \<Rightarrow> False)"

section \<open>Properties\<close>

text \<open>In every reachable state the cache holds at most its maximum of entries, one for each hash.\<close>
theorem response_cache_bounded:
  "length (rc_map (fold response_apply ops (cache_new m))) \<le> unat m \<and> hm_wf (rc_map (fold response_apply ops (cache_new m)))"
proof -
  have "max_size (response_apply x c) = max_size c" for x c
    by (cases x) (auto simp: response_get_def miss_def response_put_def invalidate_def invalidate_by_tag_def evict_expired_def
        Let_def split: option.split)
  then have "max_size (fold response_apply ops c) = max_size c" for c by (induction ops arbitrary: c) simp_all
  moreover have "cache_ok (fold response_apply ops (cache_new m))"
    by (rule responses.run_inv) (simp add: cache_ok_def cache_new_def)
  ultimately show ?thesis by (simp add: cache_ok_def cache_new_def)
qed

text \<open>A response stored while there is room is served, with its tag and one hit counted, until its time
  to live has elapsed, and no longer.\<close>
theorem stored_response_is_served:
  assumes "cache_ok c" and "length (rc_map c) < unat (max_size c)" and "now \<le> t"
  shows "fst (response_get t k (response_put n1 now k b st hs ttl c)) =
    (if (t - now) div 10 ^ 9 < unat ttl
     then Some \<lparr>body = b, status_code = st, headers = hs, etag = generate_etag b, cached_at = now, ttl_secs = ttl, hit_count = 1\<rparr>
     else None)"
  using assms by (simp add: response_put_def response_get_def Let_def hm_get_insert is_expired_def not_le)

theorem stored_response_is_served_witness:
  "fst (response_get (10 ^ 9) (key_new ''GET'' ''/a'' '''') (response_put 0 0 (key_new ''GET'' ''/a'' '''') [104, 105] 200 [] 60 (cache_new 8))) =
     Some \<lparr>body = [104, 105], status_code = 200, headers = [], etag = generate_etag [104, 105], cached_at = 0, ttl_secs = 60, hit_count = 1\<rparr>"
  using stored_response_is_served [of "cache_new 8" 0 "10 ^ 9" "key_new ''GET'' ''/a'' ''''" 0 "[104, 105]" 200 "[]" 60]
  by (simp add: cache_ok_def cache_new_def)

text \<open>A cache full of entries that have not expired refuses every new response, also one for a key that
  it holds: the old response stays.\<close>
theorem full_cache_refuses_updates:
  assumes "max_size c = of_nat (length (rc_map c))" and "length (rc_map c) < 2 ^ 64"
    and "\<forall>e \<in> snd ` set (rc_map c). \<not> is_expired n1 e"
  shows "response_put n1 now k b st hs ttl c = c"
proof -
  have "filter (\<lambda>(_, e). is_expired n1 e) (rc_map c) = []" using assms(3) by (auto simp: filter_empty_conv)
  then have "evict_expired n1 c = c" by (simp add: evict_expired_def remove_where_def)
  then show ?thesis using assms(1,2) by (simp add: response_put_def unat_of_nat_small)
qed

theorem full_cache_refuses_updates_witness:
  "response_put 5 5 (key_new ''GET'' ''/a'' '''') [2] 200 [] 60 (response_put 0 0 (key_new ''GET'' ''/a'' '''') [1] 200 [] 60 (cache_new 1))
   = response_put 0 0 (key_new ''GET'' ''/a'' '''') [1] 200 [] 60 (cache_new 1)"
  by (rule full_cache_refuses_updates) (simp_all add: response_put_def cache_new_def hm_insert_def is_expired_def)

text \<open>Method, path and query are joined by a bar that each may contain: a request is answered with the
  response stored for another path and query.\<close>
theorem joined_keys_collide:
  "response_get now (key_new m (p @ ''|'' @ q) r) c = response_get now (key_new m p (q @ ''|'' @ r)) c"
  by (simp add: response_get_def key_hash_def joined_def key_new_def)

text \<open>Invalidation by prefix removes exactly the entries whose header \<open>X-Cache-Path\<close> starts with it, and so
  never an entry stored without that header, whatever its path.\<close>
theorem invalidation_needs_header:
  assumes "cache_ok c" and "hm_get (rc_map c) (key_hash k) = Some e"
  shows "hm_get (rc_map (invalidate prefix c)) (key_hash k) = (if path_tagged prefix e then None else Some e)
    \<and> (hm_get (headers e) ''X-Cache-Path'' = None \<longrightarrow> hm_get (rc_map (invalidate prefix c)) (key_hash k) = Some e)"
  using assms by (simp add: invalidate_def cache_ok_def removed_get path_tagged_def)

theorem invalidation_needs_header_witness:
  "hm_get (rc_map (invalidate ''/a'' (response_put 0 0 (key_new ''GET'' ''/a/b'' '''') [1] 200 [] 60 (cache_new 8)))) (key_hash (key_new ''GET'' ''/a/b'' ''''))
   = Some \<lparr>body = [1], status_code = 200, headers = [], etag = generate_etag [1], cached_at = 0, ttl_secs = 60, hit_count = 0\<rparr>"
  using invalidation_needs_header [of "response_put 0 0 (key_new ''GET'' ''/a/b'' '''') [1] 200 [] 60 (cache_new 8)" "key_new ''GET'' ''/a/b'' ''''"
      "\<lparr>body = [1], status_code = 200, headers = [], etag = generate_etag [1], cached_at = 0, ttl_secs = 60, hit_count = 0\<rparr>" "''/a''"]
  by (simp add: response_put_def cache_new_def cache_ok_def hm_insert_def hm_get_def hm_wf_def path_tagged_def)

text \<open>The hits and misses counted are the lookups made, modulo the width of the counters.\<close>
theorem lookups_are_counted:
  "total_hits (fold response_apply ops (cache_new m)) + total_misses (fold response_apply ops (cache_new m))
   = of_nat (length (filter is_get ops))"
proof (induction ops rule: rev_induct)
  case (snoc x ops)
  have "total_hits (response_apply x c) + total_misses (response_apply x c)
      = total_hits c + total_misses c + (if is_get x then 1 else 0)" for c
    by (cases x) (auto simp: is_get_def response_get_def miss_def response_put_def invalidate_def invalidate_by_tag_def
        evict_expired_def remove_where_def Let_def split: option.split)
  then show ?case using snoc by simp
qed (simp add: cache_new_def)

text \<open>Two bodies have the same tag exactly when they have the same hash: the sixteen digits lose nothing.\<close>
theorem etag_is_the_hash: "generate_etag a = generate_etag b \<longleftrightarrow> fnv1a a = fnv1a b"
  by (simp add: generate_etag_def hex16_inj)

end
