(* ===== verification/Affinity.thy ===== *)
theory Affinity
  imports Types Floats Bytes
begin

text \<open>
  Affinity routing (\<open>src/affinity.rs\<close>): a bounded table that remembers, for each group of jobs, the
  strategy it was last routed to. A clock reading is a number of nanoseconds. The lock is never
  poisoned: no code panics while it holds it.
\<close>

section \<open>Groups\<close>

text \<open>The bytes that \<open>group_id\<close> hashes: the kind, a zero byte, the key.\<close>

definition group_buffer :: "JobKind \<Rightarrow> string \<Rightarrow> u8 list" where
  "group_buffer jk key = as_bytes (JobKind_to_string jk) @ [0] @ as_bytes key"

definition group_id :: "JobKind \<Rightarrow> string \<Rightarrow> u64" where
  "group_id jk key = fnv1a (group_buffer jk key)"

record AffinityGroup =
  ag_id :: u64
  ag_kind :: JobKind
  preferred_strategy :: Strategy
  last_seen :: nat

record AffinityConfig =
  af_enabled :: bool
  af_ttl_secs :: u64
  af_max_groups :: usize

definition AffinityConfig_default :: AffinityConfig where
  "AffinityConfig_default = \<lparr>af_enabled = True, af_ttl_secs = 120, af_max_groups = 1024\<rparr>"

text \<open>The router with its statistics.\<close>

record AffinityRouter =
  af_config :: AffinityConfig
  af_table :: "(u64, AffinityGroup) hashmap"
  af_hits :: u64
  af_misses :: u64
  af_evictions :: u64

definition affinity_new :: "AffinityConfig \<Rightarrow> AffinityRouter" where
  "affinity_new c = \<lparr>af_config = c, af_table = [], af_hits = 0, af_misses = 0, af_evictions = 0\<rparr>"

definition hit_rate :: "AffinityRouter \<Rightarrow> f64" where
  "hit_rate r =
    (let total = af_hits r + af_misses r
     in if total = 0 then FFin 0 else f64_div (f64_of_u64 (af_hits r)) (f64_of_u64 total))"

section \<open>Operations\<close>

definition fresh :: "nat \<Rightarrow> AffinityConfig \<Rightarrow> AffinityGroup \<Rightarrow> bool" where
  "fresh now c g = ((now - last_seen g) div 10 ^ 9 < unat (af_ttl_secs c))"

definition affinity_lookup :: "nat \<Rightarrow> u64 \<Rightarrow> AffinityRouter \<Rightarrow> Strategy option \<times> AffinityRouter" where
  "affinity_lookup now gid r =
    (if \<not> af_enabled (af_config r) then (None, r\<lparr>af_misses := af_misses r + 1\<rparr>)
     else let result = (case hm_get (af_table r) gid of
                  Some e \<Rightarrow> if fresh now (af_config r) e then Some (preferred_strategy e) else None
                | None \<Rightarrow> None)
          in (result, if result \<noteq> None then r\<lparr>af_hits := af_hits r + 1\<rparr> else r\<lparr>af_misses := af_misses r + 1\<rparr>))"

text \<open>\<open>min_by_key\<close>: the first entry, in iteration order, of least \<open>last_seen\<close>.\<close>

fun oldest :: "(u64, AffinityGroup) hashmap \<Rightarrow> (u64 \<times> AffinityGroup) option" where
  "oldest [] = None"
| "oldest (x # xs) =
    (case oldest xs of None \<Rightarrow> Some x
     | Some y \<Rightarrow> Some (if last_seen (snd x) \<le> last_seen (snd y) then x else y))"

definition make_room :: "u64 \<Rightarrow> AffinityRouter \<Rightarrow> AffinityRouter" where
  "make_room gid r =
    (if unat (af_max_groups (af_config r)) \<le> length (af_table r) \<and> \<not> hm_contains (af_table r) gid then
       case oldest (af_table r) of
         Some (oldest_id, _) \<Rightarrow> r\<lparr>af_table := hm_remove oldest_id (af_table r), af_evictions := af_evictions r + 1\<rparr>
       | None \<Rightarrow> r
     else r)"

definition affinity_record :: "nat \<Rightarrow> u64 \<Rightarrow> JobKind \<Rightarrow> Strategy \<Rightarrow> AffinityRouter \<Rightarrow> AffinityRouter" where
  "affinity_record now gid jk s r =
    (let r = make_room gid r;
         e = (case hm_get (af_table r) gid of Some e \<Rightarrow> e
              | None \<Rightarrow> \<lparr>ag_id = gid, ag_kind = jk, preferred_strategy = s, last_seen = now\<rparr>)
     in r\<lparr>af_table := hm_insert gid (e\<lparr>preferred_strategy := s, last_seen := now\<rparr>) (af_table r)\<rparr>)"

definition evict_stale :: "nat \<Rightarrow> AffinityRouter \<Rightarrow> nat \<times> AffinityRouter" where
  "evict_stale now r =
    (let table = filter (\<lambda>(_, e). fresh now (af_config r) e) (af_table r);
         evicted = length (af_table r) - length table
     in (evicted, r\<lparr>af_table := table, af_evictions := af_evictions r + of_nat evicted\<rparr>))"

definition entry_count :: "AffinityRouter \<Rightarrow> nat" where
  "entry_count r = length (af_table r)"

section \<open>Lemmas\<close>

lemma oldest_None: "oldest xs = None \<longleftrightarrow> xs = []"
  by (cases xs) (auto split: option.split)

lemma oldest_min:
  "oldest xs = Some x \<Longrightarrow> x \<in> set xs \<and> (\<forall>y \<in> set xs. last_seen (snd x) \<le> last_seen (snd y))"
  by (induction xs arbitrary: x) (force split: option.splits if_splits simp: oldest_None)+

definition table_ok :: "AffinityRouter \<Rightarrow> bool" where
  "table_ok r \<longleftrightarrow> hm_wf (af_table r) \<and> length (af_table r) \<le> max 1 (unat (af_max_groups (af_config r)))"

lemma make_room_config [simp]: "af_config (make_room gid r) = af_config r"
  by (simp add: make_room_def split: option.split)

lemma make_room_ok:
  assumes "table_ok r"
  shows "hm_wf (af_table (make_room gid r))"
    and "hm_contains (af_table (make_room gid r)) gid = hm_contains (af_table r) gid"
    and "hm_contains (af_table r) gid \<Longrightarrow> make_room gid r = r"
    and "\<not> hm_contains (af_table r) gid \<Longrightarrow> length (af_table (make_room gid r)) < max 1 (unat (af_max_groups (af_config r)))"
proof -
  have "hm_contains (af_table r) i" if "oldest (af_table r) = Some (i, g)" for i g
    using oldest_min [OF that] assms by (auto simp: hm_contains_def table_ok_def hm_get_eq_Some_iff)
  then show "hm_wf (af_table (make_room gid r))"
    "hm_contains (af_table (make_room gid r)) gid = hm_contains (af_table r) gid"
    "hm_contains (af_table r) gid \<Longrightarrow> make_room gid r = r"
    "\<not> hm_contains (af_table r) gid \<Longrightarrow> length (af_table (make_room gid r)) < max 1 (unat (af_max_groups (af_config r)))"
    using assms
    by (auto simp: make_room_def table_ok_def hm_contains_def hm_get_remove length_hm_remove oldest_None split: option.split)
qed

lemma table_ok_record: "table_ok r \<Longrightarrow> table_ok (affinity_record now gid jk s r)"
  using make_room_ok [of r gid]
  by (auto simp: affinity_record_def table_ok_def Let_def length_hm_insert)

datatype affinity_op = Lookup nat u64 | Record nat u64 JobKind Strategy | EvictStale nat

fun affinity_apply :: "affinity_op \<Rightarrow> AffinityRouter \<Rightarrow> AffinityRouter" where
  "affinity_apply (Lookup now gid) r = snd (affinity_lookup now gid r)"
| "affinity_apply (Record now gid jk s) r = affinity_record now gid jk s r"
| "affinity_apply (EvictStale now) r = snd (evict_stale now r)"

lemma hm_wf_filter: "hm_wf m \<Longrightarrow> hm_wf (filter P m)"
  by (auto simp: hm_wf_def distinct_map intro: inj_on_subset)

interpretation affinity: stateful affinity_apply table_ok
proof
  fix r x
  assume r: "table_ok r"
  show "table_ok (affinity_apply x r)"
  proof (cases x)
    case (EvictStale now)
    have "length (filter P (af_table r)) \<le> max 1 (unat (af_max_groups (af_config r)))" for P
      using r order_trans [OF length_filter_le] unfolding table_ok_def by blast
    then show ?thesis using r by (simp add: EvictStale evict_stale_def table_ok_def Let_def hm_wf_filter)
  next
    case (Record now gid jk s)
    then show ?thesis using table_ok_record [OF r] by simp
  qed (use r in \<open>simp add: affinity_lookup_def table_ok_def Let_def\<close>)
qed

lemma affinity_config_run: "af_config (fold affinity_apply ops r) = af_config r"
proof (induction ops arbitrary: r)
  case (Cons x ops)
  have "af_config (affinity_apply x r) = af_config r"
    by (cases x) (simp_all add: affinity_lookup_def affinity_record_def evict_stale_def Let_def)
  then show ?case using Cons by simp
qed simp

section \<open>Properties\<close>

text \<open>In every reachable state the table holds at most the configured number of groups, one entry each,
  or a single one when the configured number is zero.\<close>
theorem affinity_table_bounded:
  "length (af_table (fold affinity_apply ops (affinity_new c))) \<le> max 1 (unat (af_max_groups c))
   \<and> hm_wf (af_table (fold affinity_apply ops (affinity_new c)))"
proof -
  have "table_ok (fold affinity_apply ops (affinity_new c))"
    by (rule affinity.run_inv) (simp add: table_ok_def affinity_new_def)
  then show ?thesis by (simp add: table_ok_def affinity_config_run) (simp add: affinity_new_def)
qed

text \<open>A recorded strategy is returned until the time to live has elapsed since, whatever was in the
  table, and not afterwards or when affinity is disabled.\<close>
theorem recorded_strategy_is_sticky:
  "fst (affinity_lookup t gid (affinity_record now gid jk s r)) =
     (if af_enabled (af_config r) \<and> (t - now) div 10 ^ 9 < unat (af_ttl_secs (af_config r)) then Some s else None)"
  by (simp add: affinity_lookup_def affinity_record_def Let_def hm_get_insert fresh_def split: option.split)

text \<open>Recording a new group in a full table evicts one group last seen no later than any other, and
  leaves all others as they were.\<close>
theorem full_table_evicts_oldest:
  assumes "table_ok r" and "length (af_table r) = unat (af_max_groups (af_config r))" and "af_table r \<noteq> []"
    and "hm_get (af_table r) gid = None"
  shows "\<exists>i g. hm_get (af_table r) i = Some g \<and> (\<forall>j h. hm_get (af_table r) j = Some h \<longrightarrow> last_seen g \<le> last_seen h)
    \<and> (\<forall>j. j \<noteq> gid \<longrightarrow> hm_get (af_table (affinity_record now gid jk s r)) j = (if j = i then None else hm_get (af_table r) j))"
proof -
  obtain i g where o: "oldest (af_table r) = Some (i, g)" using assms(3) oldest_None by (cases "oldest (af_table r)") auto
  have wf: "hm_wf (af_table r)" using assms(1) by (simp add: table_ok_def)
  have "hm_get (af_table r) i = Some g" "\<forall>j h. hm_get (af_table r) j = Some h \<longrightarrow> last_seen g \<le> last_seen h"
    using oldest_min [OF o] wf by (auto simp: hm_get_eq_Some_iff)
  moreover have "\<forall>j. j \<noteq> gid \<longrightarrow> hm_get (af_table (affinity_record now gid jk s r)) j = (if j = i then None else hm_get (af_table r) j)"
    using assms(2,4) o by (simp add: affinity_record_def make_room_def hm_contains_def Let_def hm_get_insert hm_get_remove)
  ultimately show ?thesis by blast
qed

theorem full_table_evicts_oldest_witness:
  "\<exists>i g. hm_get (af_table (affinity_record 5 1 HashMix Inline (affinity_new (AffinityConfig_default\<lparr>af_max_groups := 1\<rparr>)))) i = Some g \<and>
    (\<forall>j. j \<noteq> 2 \<longrightarrow> hm_get (af_table (affinity_record 9 2 HashMix Inline (affinity_record 5 1 HashMix Inline
       (affinity_new (AffinityConfig_default\<lparr>af_max_groups := 1\<rparr>))))) j = (if j = i then None
      else hm_get (af_table (affinity_record 5 1 HashMix Inline (affinity_new (AffinityConfig_default\<lparr>af_max_groups := 1\<rparr>)))) j))"
proof -
  define r where "r = affinity_record 5 1 HashMix Inline (affinity_new (AffinityConfig_default\<lparr>af_max_groups := 1\<rparr>))"
  have "table_ok r" "length (af_table r) = unat (af_max_groups (af_config r))" "af_table r \<noteq> []" "hm_get (af_table r) 2 = None"
    by (simp_all add: r_def affinity_record_def affinity_new_def make_room_def table_ok_def hm_insert_def hm_get_def
        AffinityConfig_default_def Let_def hm_wf_def)
  from full_table_evicts_oldest [OF this, of 9 HashMix Inline] show ?thesis unfolding r_def by blast
qed

text \<open>Groups of different kinds or keys hash different bytes: the separator keeps kind and key apart.\<close>
theorem group_buffers_differ: "group_buffer k a = group_buffer k' b \<longleftrightarrow> k = k' \<and> a = b"
proof
  assume g: "group_buffer k a = group_buffer k' b"
  have z: "0 \<notin> set (as_bytes (JobKind_to_string j))" for j by (cases j) (simp_all add: as_bytes_def)
  have p: "takeWhile (\<lambda>x. x \<noteq> 0) (group_buffer j c) = as_bytes (JobKind_to_string j)" for j c
    unfolding group_buffer_def using z [of j] by (subst takeWhile_append2) auto
  have "k = k'" using arg_cong [OF g, of "takeWhile (\<lambda>x. x \<noteq> 0)"] by (simp add: p JobKind_to_string_inj)
  then show "k = k' \<and> a = b" using g by (simp add: group_buffer_def)
qed simp

text \<open>The hits and misses counted are the lookups made, modulo the width of the counters.\<close>
theorem affinity_lookups_counted:
  "af_hits (fold affinity_apply ops (affinity_new c)) + af_misses (fold affinity_apply ops (affinity_new c))
   = of_nat (length (filter (\<lambda>x. case x of Lookup _ _ \<Rightarrow> True | _ \<Rightarrow> False) ops))"
proof (induction ops rule: rev_induct)
  case (snoc x ops)
  have "af_hits (affinity_apply x r) + af_misses (affinity_apply x r)
      = af_hits r + af_misses r + (case x of Lookup _ _ \<Rightarrow> 1 | _ \<Rightarrow> 0)" for r
    by (cases x) (simp_all add: affinity_lookup_def affinity_record_def make_room_def evict_stale_def Let_def split: option.split)
  then show ?case using snoc by (cases x) simp_all
qed (simp add: affinity_new_def)

end
