(* ===== verification/Reservation.thy ===== *)
theory Reservation
  imports Floats
begin

text \<open>
  Reservation of worker capacity (\<open>src/reservation.rs\<close>). Fractions are binary64 values; the sum over
  the reservations follows the iteration order of the map, which is the order of the list.
\<close>

section \<open>Data\<close>

datatype ReservationPriority = BestEffort | Standard | High | Critical

fun tier :: "ReservationPriority \<Rightarrow> nat" where
  "tier BestEffort = 0"
| "tier Standard = 1"
| "tier High = 2"
| "tier Critical = 3"

fun ReservationPriority_to_string :: "ReservationPriority \<Rightarrow> string" where
  "ReservationPriority_to_string BestEffort = ''best_effort''"
| "ReservationPriority_to_string Standard = ''standard''"
| "ReservationPriority_to_string High = ''high''"
| "ReservationPriority_to_string Critical = ''critical''"

record ReservationConfig =
  max_reserved_fraction :: f64
  free_tier_threshold :: f64

definition ReservationConfig_default :: ReservationConfig where
  "ReservationConfig_default = \<lparr>max_reserved_fraction = rnd64 (80 / 100), free_tier_threshold = FFin (1 / 2)\<rparr>"

record Reservation =
  rv_id :: u64
  rv_caller :: string
  fraction :: f64
  rv_priority :: ReservationPriority

record ManagerState =
  rm_cfg :: ReservationConfig
  reservations :: "(u64, Reservation) hashmap"
  next_id :: u64
  total_added :: u64
  total_removed :: u64
  total_admits :: u64
  total_denials :: u64

definition manager_new :: "ReservationConfig \<Rightarrow> ManagerState" where
  "manager_new c = \<lparr>rm_cfg = c, reservations = [], next_id = 0, total_added = 0, total_removed = 0,
     total_admits = 0, total_denials = 0\<rparr>"

section \<open>Operations\<close>

definition reserved_fraction :: "ManagerState \<Rightarrow> f64" where
  "reserved_fraction m = fold (\<lambda>(_, r) acc. f64_add acc (fraction r)) (reservations m) (FFin 0)"

definition remaining_fraction :: "ManagerState \<Rightarrow> f64" where
  "remaining_fraction m = f64_max (f64_sub (max_reserved_fraction (rm_cfg m)) (reserved_fraction m)) (FFin 0)"

definition granted :: "f64 \<Rightarrow> ManagerState \<Rightarrow> f64" where
  "granted f m = (if fp_lt (remaining_fraction m) f then remaining_fraction m else f)"

definition add_reservation :: "string \<Rightarrow> f64 \<Rightarrow> ReservationPriority \<Rightarrow> ManagerState \<Rightarrow> u64 \<times> ManagerState" where
  "add_reservation c f p m =
    (let i = next_id m
     in (i, m\<lparr>next_id := i + 1,
              reservations := hm_insert i \<lparr>rv_id = i, rv_caller = c, fraction = granted f m, rv_priority = p\<rparr> (reservations m),
              total_added := total_added m + 1\<rparr>))"

definition remove_reservation :: "u64 \<Rightarrow> ManagerState \<Rightarrow> bool \<times> ManagerState" where
  "remove_reservation i m =
    (case hm_get (reservations m) i of
       Some _ \<Rightarrow> (True, m\<lparr>reservations := hm_remove i (reservations m), total_removed := total_removed m + 1\<rparr>)
     | None \<Rightarrow> (False, m))"

definition available_fraction :: "ManagerState \<Rightarrow> f64" where
  "available_fraction m = f64_sub (FFin 1) (reserved_fraction m)"

definition holds_reservation :: "string \<Rightarrow> ReservationPriority \<Rightarrow> ManagerState \<Rightarrow> bool" where
  "holds_reservation c p m = list_ex (\<lambda>(_, r). rv_caller r = c \<and> tier (rv_priority r) \<le> tier p) (reservations m)"

definition count_admit :: "bool \<Rightarrow> ManagerState \<Rightarrow> bool \<times> ManagerState" where
  "count_admit ok m =
    (ok, if ok then m\<lparr>total_admits := total_admits m + 1\<rparr> else m\<lparr>total_denials := total_denials m + 1\<rparr>)"

definition can_admit :: "string \<Rightarrow> ReservationPriority \<Rightarrow> ManagerState \<Rightarrow> bool \<times> ManagerState" where
  "can_admit c p m =
    (if p = BestEffort then
       if fp_le (free_tier_threshold (rm_cfg m)) (reserved_fraction m) then count_admit False m else count_admit True m
     else if holds_reservation c p m then count_admit True m
     else if fp_lt (reserved_fraction m) (free_tier_threshold (rm_cfg m)) then count_admit True m
     else count_admit False m)"

record ReservationSnapshot =
  sn_active_count :: nat
  sn_reserved :: f64
  sn_available :: f64
  sn_added :: u64
  sn_removed :: u64
  sn_admits :: u64
  sn_denials :: u64
  sn_reservations :: "Reservation list"

definition snapshot :: "ManagerState \<Rightarrow> ReservationSnapshot" where
  "snapshot m =
    (let reserved = reserved_fraction m
     in \<lparr>sn_active_count = length (reservations m), sn_reserved = reserved,
         sn_available = f64_max (f64_sub (FFin 1) reserved) (FFin 0),
         sn_added = total_added m, sn_removed = total_removed m,
         sn_admits = total_admits m, sn_denials = total_denials m,
         sn_reservations = map snd (reservations m)\<rparr>)"

section \<open>Identifiers\<close>

datatype manager_op = AddR string f64 ReservationPriority | RemoveR u64 | AdmitR string ReservationPriority

fun manager_apply :: "manager_op \<Rightarrow> ManagerState \<Rightarrow> ManagerState" where
  "manager_apply (AddR c f p) m = snd (add_reservation c f p m)"
| "manager_apply (RemoveR i) m = snd (remove_reservation i m)"
| "manager_apply (AdmitR c p) m = snd (can_admit c p m)"

text \<open>Until the identifiers wrap around, those in use are below the next one, and each is the key of its reservation.\<close>

definition ids_ok :: "ManagerState \<Rightarrow> bool" where
  "ids_ok m \<longleftrightarrow> unat (total_added m) = unat (next_id m) \<and> hm_wf (reservations m)
     \<and> (\<forall>(i, r) \<in> set (reservations m). i < next_id m \<and> rv_id r = i)"

lemma can_admit_frame:
  "reservations (snd (can_admit c p m)) = reservations m" "next_id (snd (can_admit c p m)) = next_id m"
  "total_added (snd (can_admit c p m)) = total_added m" "rm_cfg (snd (can_admit c p m)) = rm_cfg m"
  by (simp_all add: can_admit_def count_admit_def)

lemma set_hm_insert_new: "hm_get m k = None \<Longrightarrow> set (hm_insert k v m) = insert (k, v) (set m)"
  by (induction m) (auto simp: hm_insert_def hm_get_def split: if_splits)

lemma ids_ok_add:
  assumes "ids_ok m" and "next_id m \<noteq> - 1"
  shows "ids_ok (snd (add_reservation c f p m))" and "hm_get (reservations m) (next_id m) = None"
proof -
  show n: "hm_get (reservations m) (next_id m) = None"
    using assms(1) by (fastforce simp: ids_ok_def hm_get_None_iff hm_keys_def)
  have "unat (next_id m) < 2 ^ 64 - 1"
    using assms(2) unat_le_max [of "next_id m"] unat_max_word [where ?'w = 64] by (auto simp: word_unat_eq_iff le_less)
  then have u: "unat (next_id m + 1) = unat (next_id m) + 1" "unat (total_added m + 1) = unat (total_added m) + 1"
    using assms(1) by (simp_all add: ids_ok_def unat_add_small)
  then show "ids_ok (snd (add_reservation c f p m))"
    using assms(1) n by (auto simp: ids_ok_def add_reservation_def Let_def set_hm_insert_new word_less_nat_alt)
qed

lemma ids_ok_remove: "ids_ok m \<Longrightarrow> ids_ok (snd (remove_reservation i m))"
  by (auto simp: ids_ok_def remove_reservation_def hm_remove_def AList.delete_eq distinct_map_filter hm_wf_def split: option.split)

lemma next_id_apply:
  "next_id (manager_apply x m) = (case x of AddR _ _ _ \<Rightarrow> next_id m + 1 | _ \<Rightarrow> next_id m)"
  by (cases x) (simp_all add: add_reservation_def remove_reservation_def can_admit_frame Let_def split: option.split)

definition is_add :: "manager_op \<Rightarrow> bool" where
  "is_add x = (case x of AddR _ _ _ \<Rightarrow> True | _ \<Rightarrow> False)"

text \<open>An identifier that was given out and is not in use stays out of use.\<close>

lemma dead_id_step:
  assumes "unat (next_id m) + (if is_add x then 1 else 0) < 2 ^ 64" and "i < next_id m" and "hm_get (reservations m) i = None"
  shows "i < next_id (manager_apply x m) \<and> hm_get (reservations (manager_apply x m)) i = None
    \<and> unat (next_id (manager_apply x m)) = unat (next_id m) + (if is_add x then 1 else 0)"
proof (cases x)
  case (AddR c f p)
  have "unat (next_id m + 1) = unat (next_id m) + 1" using assms(1) AddR by (simp add: is_add_def unat_add_small)
  then show ?thesis using assms AddR by (auto simp: add_reservation_def Let_def hm_get_insert is_add_def word_less_nat_alt)
next
  case (RemoveR j)
  then show ?thesis using assms by (simp add: remove_reservation_def hm_get_remove is_add_def split: option.split)
next
  case (AdmitR c p)
  then show ?thesis using assms by (simp add: can_admit_frame is_add_def)
qed

lemma dead_id_run:
  "unat (next_id m) + length (filter is_add ops) < 2 ^ 64 \<Longrightarrow> i < next_id m \<Longrightarrow> hm_get (reservations m) i = None \<Longrightarrow>
     hm_get (reservations (fold manager_apply ops m)) i = None"
proof (induction ops arbitrary: m)
  case (Cons x ops)
  have "unat (next_id m) + (if is_add x then 1 else 0) < 2 ^ 64" using Cons.prems(1) by (simp split: if_splits)
  from dead_id_step [OF this Cons.prems(2,3)] Cons show ?case by (simp split: if_splits)
qed simp

lemma sum_NaN: "fold (\<lambda>(_, r) acc. f64_add acc (fraction r)) rs FNaN = FNaN"
  by (induction rs) auto

lemma reserved_NaN: "(i, r) \<in> set (reservations m) \<Longrightarrow> fraction r = FNaN \<Longrightarrow> reserved_fraction m = FNaN"
proof -
  assume "(i, r) \<in> set (reservations m)" and f: "fraction r = FNaN"
  then obtain xs ys where "reservations m = xs @ (i, r) # ys" by (meson split_list)
  moreover have "f64_add a FNaN = FNaN" for a by (cases a) auto
  ultimately show ?thesis using f by (simp add: reserved_fraction_def sum_NaN)
qed

lemma fp_NaN_right: "\<not> fp_le a FNaN" "\<not> fp_lt a FNaN"
  by (cases a; simp)+

section \<open>Properties\<close>

text \<open>A request is admitted by a reservation of its caller at its tier or below, or while less than the
  free tier is reserved; a best-effort request only by the latter. Each decision is counted once.\<close>
theorem admission_by_reservation_or_free_tier:
  "(fst (can_admit c p m) \<longleftrightarrow>
     p \<noteq> BestEffort \<and> (\<exists>i r. (i, r) \<in> set (reservations m) \<and> rv_caller r = c \<and> tier (rv_priority r) \<le> tier p)
     \<or> p \<noteq> BestEffort \<and> fp_lt (reserved_fraction m) (free_tier_threshold (rm_cfg m))
     \<or> p = BestEffort \<and> \<not> fp_le (free_tier_threshold (rm_cfg m)) (reserved_fraction m))
   \<and> total_admits (snd (can_admit c p m)) + total_denials (snd (can_admit c p m)) = total_admits m + total_denials m + 1"
  by (auto simp: can_admit_def count_admit_def holds_reservation_def list_ex_iff)

text \<open>A fraction that is a number is granted at most as asked, and at most what remains below the limit.\<close>
theorem grant_within_remaining:
  assumes "f \<noteq> FNaN"
  shows "fp_le (granted f m) f \<and> fp_le (granted f m) (remaining_fraction m)"
proof -
  have "remaining_fraction m \<noteq> FNaN"
    by (cases "f64_sub (max_reserved_fraction (rm_cfg m)) (reserved_fraction m)") (simp_all add: remaining_fraction_def f64_max_def)
  then show ?thesis using assms
    by (cases f; cases "remaining_fraction m") (auto simp: granted_def not_less)
qed

theorem grant_within_remaining_witness:
  "fp_le (granted (FFin 5) (manager_new ReservationConfig_default)) (FFin 5)"
  using grant_within_remaining [of "FFin 5" "manager_new ReservationConfig_default"] by simp

text \<open>An identifier that has been released is never found again, whatever is reserved afterwards, as
  long as fewer than \<open>2 ^ 64\<close> identifiers are given out.\<close>
theorem released_id_stays_released:
  assumes "fst (remove_reservation i m)" and "ids_ok m"
    and "unat (next_id m) + length (filter is_add ops) < 2 ^ 64"
  shows "remove_reservation i (fold manager_apply ops (snd (remove_reservation i m)))
    = (False, fold manager_apply ops (snd (remove_reservation i m)))"
proof -
  obtain r where "hm_get (reservations m) i = Some r"
    using assms(1) by (auto simp: remove_reservation_def split: option.splits)
  then have "i < next_id m" "hm_get (reservations (snd (remove_reservation i m))) i = None"
    "next_id (snd (remove_reservation i m)) = next_id m"
    using assms(2) by (auto simp: remove_reservation_def hm_get_remove ids_ok_def dest: hm_get_in_set)
  from dead_id_run [of "snd (remove_reservation i m)" ops i] this assms(3)
  show ?thesis by (simp add: remove_reservation_def)
qed

theorem released_id_stays_released_witness:
  "remove_reservation 0 (fold manager_apply [AddR ''b'' (FFin 0) High]
     (snd (remove_reservation 0 (snd (add_reservation ''a'' (FFin 0) High (manager_new ReservationConfig_default))))))
   = (False, fold manager_apply [AddR ''b'' (FFin 0) High]
     (snd (remove_reservation 0 (snd (add_reservation ''a'' (FFin 0) High (manager_new ReservationConfig_default))))))"
proof (rule released_id_stays_released)
  show "ids_ok (snd (add_reservation ''a'' (FFin 0) High (manager_new ReservationConfig_default)))"
    by (rule ids_ok_add) (simp_all add: manager_new_def ids_ok_def)
qed (simp_all add: add_reservation_def manager_new_def remove_reservation_def hm_get_insert is_add_def Let_def)

text \<open>A negative fraction is accepted and raises what others may reserve: with a limit of one half, a
  reservation of \<open>- 1\<close> lets another take one and a half, which stays reserved when the first is released.\<close>
theorem negative_reservation_lifts_limit:
  "reserved_fraction (snd (remove_reservation 0 (snd (add_reservation ''b'' (FFin (3 / 2)) High
     (snd (add_reservation ''a'' (FFin (- 1)) High
       (manager_new \<lparr>max_reserved_fraction = FFin (1 / 2), free_tier_threshold = FFin (1 / 2)\<rparr>)))))))
   = FFin (3 / 2)"
proof -
  have "rnd64 (1 / 2) = FFin (1 / 2)" "rnd64 (3 / 2) = FFin (3 / 2)"
    using rnd64_dyadic [of 1 1] rnd64_dyadic [of 3 1] by simp_all
  moreover have "rnd64 (- 1) = FFin (- 1)" using rnd64_neg [of 1] by simp
  ultimately show ?thesis
    by (simp add: add_reservation_def manager_new_def granted_def remaining_fraction_def reserved_fraction_def
        remove_reservation_def hm_insert_def hm_remove_def hm_get_def f64_sub_def f64_max_def Let_def)
qed

text \<open>A fraction that is not a number is accepted and turns the tiers around: as long as it is reserved,
  every best-effort request is admitted and every other request without a reservation refused.\<close>
theorem nan_reservation_inverts_tiers:
  assumes "(i, r) \<in> set (reservations m)" and "fraction r = FNaN"
  shows "fst (can_admit c BestEffort m) \<and> (p = BestEffort \<or> holds_reservation c p m \<or> \<not> fst (can_admit c p m))"
  using reserved_NaN [OF assms] by (simp add: can_admit_def count_admit_def fp_NaN_right)

theorem nan_reservation_inverts_tiers_witness:
  "fst (can_admit ''x'' BestEffort (snd (add_reservation ''a'' FNaN High (manager_new ReservationConfig_default))))
   \<and> (High = BestEffort \<or> holds_reservation ''x'' High (snd (add_reservation ''a'' FNaN High (manager_new ReservationConfig_default)))
      \<or> \<not> fst (can_admit ''x'' High (snd (add_reservation ''a'' FNaN High (manager_new ReservationConfig_default)))))"
  by (rule nan_reservation_inverts_tiers [of 0 "\<lparr>rv_id = 0, rv_caller = ''a'', fraction = FNaN, rv_priority = High\<rparr>"])
    (simp_all add: add_reservation_def manager_new_def granted_def hm_insert_def Let_def fp_NaN_right)

end
