(* ===== verification/TrafficShaper.thy ===== *)
theory TrafficShaper
  imports TokenBucket
begin

text \<open>
  The traffic shaper (\<open>src/traffic_shaper.rs\<close>): a token bucket and a queue of request identifiers for each
  class of traffic. Times are milliseconds given by the caller.
\<close>

section \<open>Classes and buckets\<close>

datatype TrafficClass = RealTime | Interactive | Batch | Background

fun traffic_priority :: "TrafficClass \<Rightarrow> u8" where
  "traffic_priority RealTime = 4"
| "traffic_priority Interactive = 3"
| "traffic_priority Batch = 2"
| "traffic_priority Background = 1"

record ShaperBucket =
  sb_capacity :: u64
  sb_tokens :: f64
  refill_rate_per_ms :: f64
  sb_last_refill :: u64

definition shaper_bucket_new :: "u64 \<Rightarrow> f64 \<Rightarrow> ShaperBucket" where
  "shaper_bucket_new c r = \<lparr>sb_capacity = c, sb_tokens = f64_of_u64 c, refill_rate_per_ms = r, sb_last_refill = 0\<rparr>"

definition shaper_refill :: "u64 \<Rightarrow> ShaperBucket \<Rightarrow> ShaperBucket" where
  "shaper_refill now b =
    (if sb_last_refill b < now then
       let elapsed = f64_of_u64 (now - sb_last_refill b)
       in b\<lparr>sb_tokens := f64_min (f64_add (sb_tokens b) (f64_mul elapsed (refill_rate_per_ms b))) (f64_of_u64 (sb_capacity b)),
            sb_last_refill := now\<rparr>
     else b)"

definition shaper_consume :: "u64 \<Rightarrow> u64 \<Rightarrow> ShaperBucket \<Rightarrow> bool \<times> ShaperBucket" where
  "shaper_consume n now b =
    (let b = shaper_refill now b
     in if fp_le (f64_of_u64 n) (sb_tokens b) then (True, b\<lparr>sb_tokens := f64_sub (sb_tokens b) (f64_of_u64 n)\<rparr>)
        else (False, b))"

definition wait_ms :: "u64 \<Rightarrow> ShaperBucket \<Rightarrow> u64" where
  "wait_ms n b =
    (let deficit = f64_max (f64_sub (f64_of_u64 n) (sb_tokens b)) (FFin 0)
     in if fp_le (refill_rate_per_ms b) (FFin 0) then - 1
        else f64_to_u64 (f64_ceil (f64_div deficit (refill_rate_per_ms b))))"

section \<open>The shaper\<close>

datatype AdmitDecision = Admit | Queue u64 | Drop

record TrafficShaper =
  ts_classes :: "(TrafficClass, ShaperBucket) hashmap"
  strict_priority :: bool
  ts_queues :: "(TrafficClass, string list) hashmap"

definition default_classes :: "(TrafficClass, ShaperBucket) hashmap" where
  "default_classes =
    [(RealTime, shaper_bucket_new 1000 (FFin 1)), (Interactive, shaper_bucket_new 500 (FFin (1 / 2))),
     (Batch, shaper_bucket_new 200 (rnd64 (2 / 10))), (Background, shaper_bucket_new 100 (rnd64 (1 / 10)))]"

definition shaper_new :: "(TrafficClass, ShaperBucket) hashmap \<Rightarrow> bool \<Rightarrow> TrafficShaper" where
  "shaper_new cs strict = \<lparr>ts_classes = cs, strict_priority = strict, ts_queues = hm_map_values (\<lambda>_. []) cs\<rparr>"

definition queue_of :: "TrafficClass \<Rightarrow> TrafficShaper \<Rightarrow> string list" where
  "queue_of c s = (case hm_get (ts_queues s) c of Some q \<Rightarrow> q | None \<Rightarrow> [])"

definition shaper_admit :: "string \<Rightarrow> TrafficClass \<Rightarrow> u64 \<Rightarrow> u64 \<Rightarrow> TrafficShaper \<Rightarrow> AdmitDecision \<times> TrafficShaper" where
  "shaper_admit rid c n now s =
    (case hm_get (ts_classes s) c of
       None \<Rightarrow> (Drop, s)
     | Some b \<Rightarrow>
         case shaper_consume n now b of (ok, b) \<Rightarrow>
           let s = s\<lparr>ts_classes := hm_insert c b (ts_classes s)\<rparr>
           in if ok then (Admit, s)
              else if strict_priority s then (Drop, s)
              else (Queue (wait_ms n b), s\<lparr>ts_queues := hm_insert c (queue_of c s @ [rid]) (ts_queues s)\<rparr>))"

definition queue_depth :: "TrafficClass \<Rightarrow> TrafficShaper \<Rightarrow> nat" where
  "queue_depth c s = length (queue_of c s)"

text \<open>The loop of \<open>drain_queue\<close> on the queue of the class and its bucket: the drained, the rest, the bucket.\<close>

fun drain_loop :: "u64 \<Rightarrow> string list \<Rightarrow> ShaperBucket \<Rightarrow> string list \<times> string list \<times> ShaperBucket" where
  "drain_loop now [] b = ([], [], b)"
| "drain_loop now (rid # q) b =
    (case shaper_consume 1 now b of
       (True, b) \<Rightarrow> (case drain_loop now q b of (admitted, rest, b) \<Rightarrow> (rid # admitted, rest, b))
     | (False, b) \<Rightarrow> ([], rid # q, b))"

definition drain_queue :: "TrafficClass \<Rightarrow> u64 \<Rightarrow> TrafficShaper \<Rightarrow> string list \<times> TrafficShaper" where
  "drain_queue c now s =
    (case (hm_get (ts_queues s) c, hm_get (ts_classes s) c) of
       (Some q, Some b) \<Rightarrow>
         (case drain_loop now q b of (admitted, rest, b) \<Rightarrow>
            (admitted, s\<lparr>ts_queues := hm_insert c rest (ts_queues s), ts_classes := hm_insert c b (ts_classes s)\<rparr>))
     | _ \<Rightarrow> ([], s))"

section \<open>Lemmas\<close>

definition bucket_ok :: "ShaperBucket \<Rightarrow> bool" where
  "bucket_ok b \<longleftrightarrow> (\<exists>cap. f64_of_u64 (sb_capacity b) = FFin cap \<and> in_bucket cap (sb_tokens b)) \<and> \<not> fp_lt (refill_rate_per_ms b) (FFin 0)"

lemma shaper_frame:
  "sb_capacity (shaper_refill now b) = sb_capacity b" "refill_rate_per_ms (shaper_refill now b) = refill_rate_per_ms b"
  "sb_capacity (snd (shaper_consume n now b)) = sb_capacity b"
  "refill_rate_per_ms (snd (shaper_consume n now b)) = refill_rate_per_ms b"
  by (simp_all add: shaper_refill_def shaper_consume_def Let_def)

lemma bucket_ok_refill: "bucket_ok b \<Longrightarrow> bucket_ok (shaper_refill now b)"
proof -
  assume b: "bucket_ok b"
  then obtain cap where cap: "f64_of_u64 (sb_capacity b) = FFin cap" "in_bucket cap (sb_tokens b)" by (auto simp: bucket_ok_def)
  have rep: "rnd64 cap = FFin cap" using f64_of_u64_rep [of "sb_capacity b"] cap(1) by auto
  have "fp_le (FFin 0) (f64_of_u64 (now - sb_last_refill b))" by (simp add: f64_of_u64_def f64_of_nat_nonneg)
  from refill_in_bucket [OF cap(2) rep refill_amount [OF this]] b cap show ?thesis
    by (auto simp: bucket_ok_def shaper_refill_def Let_def)
qed

lemma bucket_ok_consume: "bucket_ok b \<Longrightarrow> bucket_ok (snd (shaper_consume n now b))"
proof -
  assume "bucket_ok b"
  then have b: "bucket_ok (shaper_refill now b)" by (rule bucket_ok_refill)
  obtain q where "f64_of_u64 n = FFin q" "0 \<le> q" using f64_of_u64_rep by blast
  with b show ?thesis using spend_in_bucket
    by (auto simp: bucket_ok_def shaper_consume_def Let_def)
qed

lemma bucket_ok_new: "\<not> fp_lt r (FFin 0) \<Longrightarrow> bucket_ok (shaper_bucket_new c r)"
  using f64_of_u64_rep [of c] by (auto simp: bucket_ok_def shaper_bucket_new_def in_bucket_def)

lemma bucket_ok_drain: "bucket_ok b \<Longrightarrow> bucket_ok (snd (snd (drain_loop now q b)))"
proof (induction q arbitrary: b)
  case (Cons rid q)
  show ?case
  proof (cases "shaper_consume 1 now b")
    case (Pair ok b')
    have "bucket_ok b'" using bucket_ok_consume [OF Cons.prems, of 1 now] Pair by simp
    then show ?thesis using Cons.IH [of b'] by (cases ok) (auto simp: Pair split: prod.split)
  qed
qed simp

lemma drain_loop_split: "drain_loop now q b = (admitted, rest, b') \<Longrightarrow> admitted @ rest = q"
  by (induction q arbitrary: b admitted) (auto split: prod.splits bool.splits)

datatype shaper_op = ShAdmit string TrafficClass u64 u64 | ShDrain TrafficClass u64

fun shaper_apply :: "shaper_op \<Rightarrow> TrafficShaper \<Rightarrow> TrafficShaper" where
  "shaper_apply (ShAdmit rid c n now) s = snd (shaper_admit rid c n now s)"
| "shaper_apply (ShDrain c now) s = snd (drain_queue c now s)"

definition buckets_ok :: "TrafficShaper \<Rightarrow> bool" where
  "buckets_ok s \<longleftrightarrow> (\<forall>c b. hm_get (ts_classes s) c = Some b \<longrightarrow> bucket_ok b)"

interpretation shaper: stateful shaper_apply buckets_ok
proof
  fix s x
  assume s: "buckets_ok s"
  show "buckets_ok (shaper_apply x s)"
  proof (cases x)
    case (ShAdmit rid c n now)
    then show ?thesis using s bucket_ok_consume
      by (auto simp: buckets_ok_def shaper_admit_def hm_get_insert Let_def split: option.split prod.split) (metis snd_conv)+
  next
    case (ShDrain c now)
    then show ?thesis using s bucket_ok_drain
      by (auto simp: buckets_ok_def drain_queue_def hm_get_insert split: option.split prod.split) (metis snd_conv)+
  qed
qed

lemma admit_keeps_class:
  "hm_get (ts_classes s) c \<noteq> None \<Longrightarrow> hm_get (ts_classes (snd (shaper_admit rid c n now s))) c \<noteq> None"
  by (auto simp: shaper_admit_def hm_get_insert Let_def split: prod.split)

text \<open>The requests of a class that a call queues, and those that it takes out of the queue.\<close>

fun entered :: "TrafficClass \<Rightarrow> shaper_op \<Rightarrow> TrafficShaper \<Rightarrow> string list" where
  "entered c (ShAdmit rid c' n now) s =
    (case fst (shaper_admit rid c' n now s) of Queue _ \<Rightarrow> if c' = c then [rid] else [] | _ \<Rightarrow> [])"
| "entered c (ShDrain c' now) s = []"

fun left :: "TrafficClass \<Rightarrow> shaper_op \<Rightarrow> TrafficShaper \<Rightarrow> string list" where
  "left c (ShAdmit rid c' n now) s = []"
| "left c (ShDrain c' now) s = (if c' = c then fst (drain_queue c now s) else [])"

fun traffic :: "TrafficClass \<Rightarrow> shaper_op list \<Rightarrow> TrafficShaper \<Rightarrow> string list \<times> string list \<times> TrafficShaper" where
  "traffic c [] s = ([], [], s)"
| "traffic c (x # xs) s =
    (case traffic c xs (shaper_apply x s) of (ins, outs, s') \<Rightarrow> (entered c x s @ ins, left c x s @ outs, s'))"

lemma queue_step: "queue_of c s @ entered c x s = left c x s @ queue_of c (shaper_apply x s)"
proof (cases x)
  case (ShAdmit rid c' n now)
  then show ?thesis
    by (auto simp: shaper_admit_def queue_of_def hm_get_insert Let_def split: option.split prod.split)
next
  case (ShDrain c' now)
  then show ?thesis using drain_loop_split
    by (fastforce simp: drain_queue_def queue_of_def hm_get_insert split: option.split prod.split)
qed

section \<open>Properties\<close>

text \<open>For rates that are not negative, the level of every bucket stays between zero and its capacity,
  whatever is admitted and drained.\<close>
theorem shaper_levels_stay_in_range:
  assumes "\<forall>c b. hm_get cs c = Some b \<longrightarrow> bucket_ok b"
    and "hm_get (ts_classes (fold shaper_apply ops (shaper_new cs strict))) c = Some b"
  shows "\<exists>cap q. f64_of_u64 (sb_capacity b) = FFin cap \<and> sb_tokens b = FFin q \<and> 0 \<le> q \<and> q \<le> cap"
proof -
  have "buckets_ok (fold shaper_apply ops (shaper_new cs strict))"
    by (rule shaper.run_inv) (use assms(1) in \<open>simp add: buckets_ok_def shaper_new_def\<close>)
  then have "bucket_ok b" using assms(2) unfolding buckets_ok_def by blast
  then show ?thesis by (auto simp: bucket_ok_def elim!: in_bucketE)
qed

theorem shaper_levels_stay_in_range_witness:
  "\<exists>b. hm_get (ts_classes (fold shaper_apply [ShAdmit ''a'' RealTime 3 0] (shaper_new default_classes False))) RealTime = Some b
    \<and> (\<exists>cap q. f64_of_u64 (sb_capacity b) = FFin cap \<and> sb_tokens b = FFin q \<and> 0 \<le> q \<and> q \<le> cap)"
proof -
  have "\<not> fp_lt (rnd64 (2 / 10)) (FFin 0)" "\<not> fp_lt (rnd64 (1 / 10)) (FFin 0)"
    using rnd64_nonneg [of "2 / 10"] rnd64_nonneg [of "1 / 10"] fp_lt_imp_not_le by (fastforce, fastforce)
  then have ok: "\<forall>c b. hm_get default_classes c = Some b \<longrightarrow> bucket_ok b"
    by (auto simp: default_classes_def hm_get_def bucket_ok_new split: if_splits)
  have "hm_get (ts_classes (shaper_new default_classes False)) RealTime \<noteq> None"
    by (simp add: shaper_new_def default_classes_def hm_get_def)
  from admit_keeps_class [OF this, of "''a''" 3 0]
  obtain b where b: "hm_get (ts_classes (fold shaper_apply [ShAdmit ''a'' RealTime 3 0] (shaper_new default_classes False))) RealTime = Some b"
    by auto
  show ?thesis using b shaper_levels_stay_in_range [OF ok b] by blast
qed

text \<open>Requests of a class leave its queue in the order in which they were queued, each at most once.\<close>
theorem queued_requests_leave_in_order:
  "case traffic c ops s of (ins, outs, s') \<Rightarrow> queue_of c s @ ins = outs @ queue_of c s'"
proof (induction ops arbitrary: s)
  case (Cons x ops)
  obtain ins outs s' where t: "traffic c ops (shaper_apply x s) = (ins, outs, s')" by (cases "traffic c ops (shaper_apply x s)")
  have "queue_of c (shaper_apply x s) @ ins = outs @ queue_of c s'" using Cons.IH [of "shaper_apply x s"] t by simp
  then show ?case using queue_step [of c s x] by (simp add: t) (metis append.assoc)
qed simp

text \<open>A queue is drained at one token a request, whatever the request asked for: one that was queued
  for want of ten tokens leaves with the first.\<close>
theorem drain_charges_one_token:
  defines "s \<equiv> snd (shaper_admit ''a'' Batch 9 0 (shaper_new [(Batch, shaper_bucket_new 10 (FFin 0))] False))"
  shows "fst (shaper_admit ''b'' Batch 10 0 s) = Queue (- 1)
    \<and> fst (drain_queue Batch 0 (snd (shaper_admit ''b'' Batch 10 0 s))) = [''b'']"
proof -
  have "rnd64 1 = FFin 1" "rnd64 9 = FFin 9" "rnd64 10 = FFin 10"
    using rnd64_dyadic [of 1 0] rnd64_dyadic [of 9 0] rnd64_dyadic [of 10 0] by simp_all
  then show ?thesis
    by (simp add: s_def shaper_admit_def shaper_new_def shaper_bucket_new_def shaper_consume_def shaper_refill_def
        drain_queue_def queue_of_def wait_ms_def hm_map_values_def hm_insert_def hm_get_def f64_of_u64_def f64_of_nat_def
        f64_sub_def Let_def)
qed

text \<open>With strict priority no class ever queues a request, the highest no more than the lowest.\<close>
theorem strict_priority_drops_every_class:
  "(case fst (shaper_admit rid c n now (s\<lparr>strict_priority := True\<rparr>)) of Queue _ \<Rightarrow> False | _ \<Rightarrow> True)
   \<and> ts_queues (snd (shaper_admit rid c n now (s\<lparr>strict_priority := True\<rparr>))) = ts_queues s"
  by (simp add: shaper_admit_def Let_def split: option.split prod.split)

end
