(* ===== verification/HealthRunner.thy ===== *)
theory HealthRunner
  imports OutputCodec "HOL-Library.Multiset"
begin

text \<open>
  The health check runner (\<open>src/health_check_runner.rs\<close>). The network is a parameter: what connecting
  to an address gives, and what reading the head of an HTTP response gives. A read that times out,
  fails or succeeds is a value of \<open>reply\<close>. Texts of results are the code's, except that the error
  texts of the network are the parameter's.
\<close>

section \<open>Checks\<close>

datatype CheckType =
    Http string u16 u64
  | Tcp string u16 u64
  | Custom string

record CheckResult =
  check_name :: string
  success :: bool
  cr_latency_ms :: u64
  message :: string
  checked_at :: u64

record HealthThresholds =
  healthy_consecutive :: u32
  unhealthy_consecutive :: u32
  ht_timeout_ms :: u64

definition HealthThresholds_default :: HealthThresholds where
  "HealthThresholds_default = \<lparr>healthy_consecutive = 2, unhealthy_consecutive = 3, ht_timeout_ms = 5000\<rparr>"

record CheckState =
  cs_name :: string
  check_type :: CheckType
  thresholds :: HealthThresholds
  consecutive_success :: u32
  consecutive_failure :: u32
  last_result :: "CheckResult option"
  healthy :: bool
  history :: "CheckResult list"

definition check_state_new :: "string \<Rightarrow> CheckType \<Rightarrow> HealthThresholds \<Rightarrow> CheckState" where
  "check_state_new n ty th = \<lparr>cs_name = n, check_type = ty, thresholds = th, consecutive_success = 0,
     consecutive_failure = 0, last_result = None, healthy = True, history = []\<rparr>"

definition record_result :: "CheckResult \<Rightarrow> CheckState \<Rightarrow> CheckState" where
  "record_result r s =
    (let s = (if success r then
                let n = consecutive_success s + 1
                in s\<lparr>consecutive_success := n, consecutive_failure := 0,
                     healthy := (if healthy_consecutive (thresholds s) \<le> n then True else healthy s)\<rparr>
              else
                let n = consecutive_failure s + 1
                in s\<lparr>consecutive_failure := n, consecutive_success := 0,
                     healthy := (if unhealthy_consecutive (thresholds s) \<le> n then False else healthy s)\<rparr>)
     in s\<lparr>last_result := Some r, history := history s @ [r]\<rparr>)"

section \<open>Probes\<close>

datatype 'a reply = Reply 'a | NetError string | TimedOut

record probe_env =
  tcp_connect :: "string \<Rightarrow> u64 \<Rightarrow> unit reply"
  http_head :: "string \<Rightarrow> string \<Rightarrow> u64 \<Rightarrow> string reply"

definition show_nat :: "nat \<Rightarrow> string" where
  "show_nat n = nat_to_string n"

text \<open>Up to the first occurrence of a character, and the rest from it on.\<close>

definition split_at :: "char \<Rightarrow> string \<Rightarrow> string \<times> string" where
  "split_at d s = (takeWhile (\<lambda>c. c \<noteq> d) s, dropWhile (\<lambda>c. c \<noteq> d) s)"

text \<open>The address to connect to and the request to send, from a URL.\<close>

definition http_target :: "string \<Rightarrow> string + (string \<times> string)" where
  "http_target url =
    (case strip_prefix ''http://'' url of
       None \<Rightarrow> Inl ''only http:// URLs can be probed (no TLS client is bundled)''
     | Some rest \<Rightarrow>
         let (authority, path) = (case split_at (CHR ''/'') rest of (a, []) \<Rightarrow> (a, ''/'') | (a, p) \<Rightarrow> (a, p));
             crlf = [CHR 0x0D, CHR 0x0A]
         in if authority = [] then Inl ''URL has no host''
            else Inr (if CHR '':'' \<in> set authority then authority else authority @ '':80'',
                      ''GET '' @ path @ '' HTTP/1.1'' @ crlf @ ''Host: '' @ authority @ crlf
                      @ ''User-Agent: helixrouter-health'' @ crlf @ ''Connection: close'' @ crlf @ crlf))"

fun until_crlf :: "string \<Rightarrow> string" where
  "until_crlf (c # d # cs) = (if c = CHR 0x0D \<and> d = CHR 0x0A then [] else c # until_crlf (d # cs))"
| "until_crlf s = s"

definition is_blank :: "char \<Rightarrow> bool" where
  "is_blank c = (c = CHR '' '' \<or> 9 \<le> (of_char c :: nat) \<and> (of_char c :: nat) \<le> 13)"

fun words_of :: "string \<Rightarrow> string \<Rightarrow> string list" where
  "words_of w [] = (if w = [] then [] else [w])"
| "words_of w (c # cs) =
    (if is_blank c then (if w = [] then words_of [] cs else w # words_of [] cs) else words_of (w @ [c]) cs)"

definition parse_u16 :: "string \<Rightarrow> u16 option" where
  "parse_u16 s =
    (let ds = (case s of CHR ''+'' # t \<Rightarrow> t | _ \<Rightarrow> s)
     in if ds \<noteq> [] \<and> list_all is_digit ds \<and> digits_value ds < 2 ^ 16 then Some (of_nat (digits_value ds)) else None)"

text \<open>The status code of the head of a response; \<open>dbg\<close> is the \<open>Debug\<close> text of the status line.\<close>

definition status_of_head :: "(string \<Rightarrow> string) \<Rightarrow> string \<Rightarrow> string + u16" where
  "status_of_head dbg head =
    (let status_line = until_crlf head;
         bad = Inl (''not an HTTP response: '' @ dbg status_line)
     in case words_of [] status_line of
          version # code # _ \<Rightarrow>
            (case parse_u16 code of
               Some c \<Rightarrow> if take 5 version = ''HTTP/'' then Inr c else bad
             | None \<Rightarrow> bad)
        | _ \<Rightarrow> bad)"

definition http_get_status :: "(string \<Rightarrow> string) \<Rightarrow> probe_env \<Rightarrow> string \<Rightarrow> u64 \<Rightarrow> u16 reply" where
  "http_get_status dbg env url timeout =
    (case http_target url of
       Inl e \<Rightarrow> NetError e
     | Inr (addr, request) \<Rightarrow>
         case http_head env addr request timeout of
           Reply head \<Rightarrow> (case status_of_head dbg head of Inr c \<Rightarrow> Reply c | Inl e \<Rightarrow> NetError e)
         | NetError e \<Rightarrow> NetError e
         | TimedOut \<Rightarrow> TimedOut)"

definition probe_outcome :: "(string \<Rightarrow> string) \<Rightarrow> probe_env \<Rightarrow> CheckType \<Rightarrow> bool \<times> string" where
  "probe_outcome dbg env ty =
    (case ty of
       Tcp host port timeout \<Rightarrow>
         let addr = host @ '':'' @ show_nat (unat port)
         in (case tcp_connect env addr timeout of
               Reply _ \<Rightarrow> (True, ''TCP connected to '' @ addr)
             | NetError e \<Rightarrow> (False, ''TCP connect to '' @ addr @ '' failed: '' @ e)
             | TimedOut \<Rightarrow> (False, ''TCP connect to '' @ addr @ '' timed out after '' @ show_nat (unat timeout) @ '' ms''))
     | Http url expected timeout \<Rightarrow>
         (case http_get_status dbg env url timeout of
            Reply st \<Rightarrow>
              if st = expected then (True, ''HTTP '' @ show_nat (unat st) @ '' from '' @ url)
              else (False, ''HTTP '' @ show_nat (unat st) @ '' from '' @ url @ '', expected '' @ show_nat (unat expected))
          | NetError e \<Rightarrow> (False, ''HTTP check of '' @ url @ '' failed: '' @ e)
          | TimedOut \<Rightarrow> (False, ''HTTP check of '' @ url @ '' timed out after '' @ show_nat (unat timeout) @ '' ms''))
     | Custom n \<Rightarrow>
         (False, ''custom check '' @ [CHR 0x27] @ n @ [CHR 0x27] @ '' is reported by the application with record_custom, not probed''))"

definition probe :: "(string \<Rightarrow> string) \<Rightarrow> probe_env \<Rightarrow> u64 \<Rightarrow> u64 \<Rightarrow> CheckState \<Rightarrow> CheckResult" where
  "probe dbg env elapsed now s =
    (case probe_outcome dbg env (check_type s) of
       (ok, msg) \<Rightarrow> \<lparr>check_name = cs_name s, success = ok, cr_latency_ms = elapsed, message = msg, checked_at = now\<rparr>)"

text \<open>The deprecated check that contacts nothing.\<close>

definition run_check :: "u64 \<Rightarrow> CheckState \<Rightarrow> CheckResult" where
  "run_check now s =
    (let (ok, msg, latency) = (case check_type s of
           Http url expected _ \<Rightarrow> (True, ''HTTP '' @ show_nat (unat expected) @ '' OK from '' @ url, 10)
         | Tcp host port _ \<Rightarrow> (True, ''TCP connected to '' @ host @ '':'' @ show_nat (unat port), 5)
         | Custom n \<Rightarrow> (True, ''custom check '' @ [CHR 0x27] @ n @ [CHR 0x27] @ '' passed'', 1))
     in \<lparr>check_name = cs_name s, success = ok, cr_latency_ms = latency, message = msg, checked_at = now\<rparr>)"

section \<open>The runner\<close>

type_synonym HealthCheckRunner = "CheckState list"

definition add_check :: "string \<Rightarrow> CheckType \<Rightarrow> HealthThresholds \<Rightarrow> HealthCheckRunner \<Rightarrow> HealthCheckRunner" where
  "add_check n ty th cs = cs @ [check_state_new n ty th]"

definition run_all_once :: "u64 \<Rightarrow> HealthCheckRunner \<Rightarrow> CheckResult list \<times> HealthCheckRunner" where
  "run_all_once now cs = (map (run_check now) cs, map (\<lambda>s. record_result (run_check now s) s) cs)"

definition is_custom :: "CheckState \<Rightarrow> bool" where
  "is_custom s = (case check_type s of Custom _ \<Rightarrow> True | _ \<Rightarrow> False)"

text \<open>
  \<open>run_all\<close>: a task for each check that is not a custom one probes it and records the result. The tasks
  touch different checks, so their interleaving shows only in the readings of the clock: \<open>clock i\<close> gives
  the latency and the time of the check at position \<open>i\<close>. The results are sorted by position.
\<close>

definition run_all :: "(string \<Rightarrow> string) \<Rightarrow> (nat \<Rightarrow> probe_env) \<Rightarrow> (nat \<Rightarrow> u64 \<times> u64) \<Rightarrow> HealthCheckRunner \<Rightarrow> CheckResult list \<times> HealthCheckRunner" where
  "run_all dbg env clock cs =
    (let probe_at = (\<lambda>i. probe dbg (env i) (fst (clock i)) (snd (clock i)) (cs ! i))
     in (map probe_at (filter (\<lambda>i. \<not> is_custom (cs ! i)) [0..<length cs]),
         map (\<lambda>i. if is_custom (cs ! i) then cs ! i else record_result (probe_at i) (cs ! i)) [0..<length cs]))"

definition record_custom :: "u64 \<Rightarrow> string \<Rightarrow> bool \<Rightarrow> u64 \<Rightarrow> string \<Rightarrow> HealthCheckRunner \<Rightarrow> bool \<times> HealthCheckRunner" where
  "record_custom now n ok latency msg cs =
    (case find (\<lambda>c. cs_name c = n) cs of
       None \<Rightarrow> (False, cs)
     | Some _ \<Rightarrow> (True, update_first (\<lambda>c. cs_name c = n)
         (record_result \<lparr>check_name = n, success = ok, cr_latency_ms = latency, message = msg, checked_at = now\<rparr>) cs))"

definition overall_health :: "HealthCheckRunner \<Rightarrow> bool" where
  "overall_health cs = list_all healthy cs"

definition unhealthy_checks :: "HealthCheckRunner \<Rightarrow> string list" where
  "unhealthy_checks cs = map cs_name (filter (\<lambda>c. \<not> healthy c) cs)"

record HealthSummary =
  total_checks :: nat
  healthy_count :: nat
  unhealthy_count :: nat
  overall_healthy :: bool
  summary_checks :: "(string \<times> bool \<times> u64) list"

definition health_summary :: "HealthCheckRunner \<Rightarrow> HealthSummary" where
  "health_summary cs =
    (let n = length cs; h = length (filter healthy cs)
     in \<lparr>total_checks = n, healthy_count = h, unhealthy_count = n - h, overall_healthy = (n - h = 0),
         summary_checks = map (\<lambda>c. (cs_name c, healthy c, case last_result c of Some r \<Rightarrow> cr_latency_ms r | None \<Rightarrow> 0)) cs\<rparr>)"

definition check_history :: "string \<Rightarrow> HealthCheckRunner \<Rightarrow> CheckResult list" where
  "check_history n cs = (case find (\<lambda>s. cs_name s = n) cs of Some s \<Rightarrow> history s | None \<Rightarrow> [])"

section \<open>Streaks\<close>

text \<open>The length of the run of one outcome that ends a history.\<close>

definition streak :: "bool \<Rightarrow> bool list \<Rightarrow> nat" where
  "streak b xs = length (takeWhile (\<lambda>x. x = b) (rev xs))"

lemma streak_snoc: "streak b (xs @ [x]) = (if x = b then streak b xs + 1 else 0)"
  by (simp add: streak_def)

lemma streak_le: "streak b xs \<le> length xs"
  by (simp add: streak_def) (metis length_rev length_takeWhile_le)

text \<open>A history that ends in a streak of an outcome as long as its threshold.\<close>

definition crossing :: "HealthThresholds \<Rightarrow> bool \<Rightarrow> bool list \<Rightarrow> bool" where
  "crossing th b xs \<longleftrightarrow> xs \<noteq> [] \<and> last xs = b \<and>
     unat (if b then healthy_consecutive th else unhealthy_consecutive th) \<le> streak b xs"

lemma record_result_fields:
  "thresholds (record_result r s) = thresholds s" "history (record_result r s) = history s @ [r]"
  "check_type (record_result r s) = check_type s" "cs_name (record_result r s) = cs_name s"
  by (simp_all add: record_result_def Let_def)

definition counts_ok :: "CheckState \<Rightarrow> bool" where
  "counts_ok s \<longleftrightarrow> unat (consecutive_success s) = streak True (map success (history s))
     \<and> unat (consecutive_failure s) = streak False (map success (history s))"

lemma counts_ok_record:
  assumes "counts_ok s" and "length (history s) + 1 < 2 ^ 32"
  shows "counts_ok (record_result r s)"
proof -
  have "streak b (map success (history s)) + 1 < 2 ^ 32" for b
    using streak_le [of b "map success (history s)"] assms(2) by simp
  then show ?thesis using assms(1)
    by (auto simp: counts_ok_def record_result_def Let_def streak_snoc unat_add_small)
qed

lemma healthy_record:
  assumes "counts_ok s" and "length (history s) + 1 < 2 ^ 32"
  shows "healthy (record_result r s) =
    (if crossing (thresholds s) True (map success (history s) @ [success r]) then True
     else if crossing (thresholds s) False (map success (history s) @ [success r]) then False else healthy s)"
proof -
  have "streak b (map success (history s)) + 1 < 2 ^ 32" for b
    using streak_le [of b "map success (history s)"] assms(2) by simp
  then show ?thesis using assms(1)
    by (auto simp: counts_ok_def record_result_def Let_def streak_snoc unat_add_small crossing_def word_le_nat_alt)
qed

lemma record_run:
  assumes "length rs < 2 ^ 32" and "s0 = check_state_new n ty th"
  shows "counts_ok (fold record_result rs s0) \<and> history (fold record_result rs s0) = rs
    \<and> thresholds (fold record_result rs s0) = th
    \<and> (healthy (fold record_result rs s0) \<longleftrightarrow>
        (\<forall>k \<le> length rs. crossing th False (map success (take k rs)) \<longrightarrow>
          (\<exists>j \<le> length rs. k < j \<and> crossing th True (map success (take j rs)))))"
  using assms(1)
proof (induction rs rule: rev_induct)
  case Nil
  show ?case by (simp add: assms(2) check_state_new_def counts_ok_def streak_def crossing_def)
next
  case (snoc r rs)
  let ?s = "fold record_result rs s0"
  define P where "P b k \<longleftrightarrow> crossing th b (map success (take k (rs @ [r])))" for b k
  have P: "P b k \<longleftrightarrow> crossing th b (map success (take k rs))" if "k \<le> length rs" for b k
    using that by (simp add: P_def)
  have IH: "counts_ok ?s" "history ?s = rs" "thresholds ?s = th"
    using snoc by simp_all
  have IH4: "healthy ?s \<longleftrightarrow> (\<forall>k \<le> length rs. P False k \<longrightarrow> (\<exists>j \<le> length rs. k < j \<and> P True j))"
    using snoc by (simp add: P cong: imp_cong conj_cong)
  have l: "length (history ?s) + 1 < 2 ^ 32" using snoc.prems IH(2) by simp
  have h: "healthy (record_result r ?s) = (if P True (length rs + 1) then True else if P False (length rs + 1) then False else healthy ?s)"
    using healthy_record [OF IH(1) l, of r] IH(2,3) by (simp add: P_def)
  have "(\<forall>k \<le> length rs + 1. P False k \<longrightarrow> (\<exists>j \<le> length rs + 1. k < j \<and> P True j)) = healthy (record_result r ?s)"
  proof (cases "P True (length rs + 1)")
    case True
    then have "\<not> P False (length rs + 1)" by (simp add: crossing_def P_def)
    then show ?thesis using True h by (metis le_Suc_eq less_Suc_eq_le order_refl Suc_eq_plus1)
  next
    case False
    have e: "(\<exists>j \<le> length rs + 1. k < j \<and> P True j) = (\<exists>j \<le> length rs. k < j \<and> P True j)" for k
      using False by (metis le_Suc_eq Suc_eq_plus1 le_SucI)
    show ?thesis unfolding h e using False IH4 by (auto simp: le_Suc_eq)
  qed
  then show ?case using counts_ok_record [OF IH(1) l, of r] IH(2,3) by (simp add: record_result_fields P_def)
qed

section \<open>Properties\<close>

text \<open>C39. A check is unhealthy exactly when its history contains a streak of failures of the threshold
  length that no streak of successes of its threshold length follows.\<close>
theorem flag_follows_history:
  assumes "length rs < 2 ^ 32"
  shows "healthy (fold record_result rs (check_state_new n ty th)) \<longleftrightarrow>
    (\<forall>k \<le> length rs. crossing th False (map success (take k rs)) \<longrightarrow>
      (\<exists>j \<le> length rs. k < j \<and> crossing th True (map success (take j rs))))"
  using record_run [OF assms refl] by blast

definition outcome :: "bool \<Rightarrow> CheckResult" where
  "outcome b = \<lparr>check_name = '''', success = b, cr_latency_ms = 0, message = '''', checked_at = 0\<rparr>"

definition three_failures :: "CheckResult list" where
  "three_failures = map outcome [False, False, False, True]"

theorem flag_follows_history_witness:
  "\<exists>k \<le> length three_failures. crossing HealthThresholds_default False (map success (take k three_failures)) \<and>
     (\<forall>j \<le> length three_failures. k < j \<longrightarrow> \<not> crossing HealthThresholds_default True (map success (take j three_failures)))"
proof -
  have "\<not> healthy (fold record_result three_failures (check_state_new ''c'' (Custom ''c'') HealthThresholds_default))"
    by (simp add: record_result_def outcome_def check_state_new_def HealthThresholds_default_def three_failures_def
        Let_def word_le_nat_alt)
  moreover have "length three_failures < 2 ^ 32" by (simp add: three_failures_def)
  from flag_follows_history [OF this, of "''c''" "Custom ''c''" HealthThresholds_default]
  have "healthy (fold record_result three_failures (check_state_new ''c'' (Custom ''c'') HealthThresholds_default)) =
    (\<forall>k \<le> length three_failures. crossing HealthThresholds_default False (map success (take k three_failures)) \<longrightarrow>
      (\<exists>j \<le> length three_failures. k < j \<and> crossing HealthThresholds_default True (map success (take j three_failures))))" .
  ultimately show ?thesis by blast
qed

text \<open>A round of probes returns one result for each check that is not a custom one, in the order of
  registration, and records exactly that result with its check; custom checks do not change.\<close>
theorem round_records_each_probe:
  "map check_name (fst (run_all dbg env clock cs)) = map cs_name (filter (\<lambda>s. \<not> is_custom s) cs)
   \<and> length (snd (run_all dbg env clock cs)) = length cs
   \<and> list_all2 (\<lambda>s s'. if is_custom s then s' = s else \<exists>r \<in> set (fst (run_all dbg env clock cs)). s' = record_result r s)
       cs (snd (run_all dbg env clock cs))"
proof -
  have "map (\<lambda>i. cs_name (cs ! i)) (filter (\<lambda>i. \<not> is_custom (cs ! i)) [0..<length cs])
      = map cs_name (filter (\<lambda>s. \<not> is_custom s) (map ((!) cs) [0..<length cs]))"
    by (simp add: filter_map comp_def)
  then show ?thesis
    by (auto simp: run_all_def Let_def probe_def case_prod_unfold comp_def map_nth list_all2_conv_all_nth)
qed

text \<open>The summary agrees with the runner: it is healthy when every check is, the counts add up, and
  there are as many unhealthy names as unhealthy checks.\<close>
theorem summary_agrees:
  "overall_healthy (health_summary cs) = overall_health cs
   \<and> healthy_count (health_summary cs) + unhealthy_count (health_summary cs) = length cs
   \<and> length (unhealthy_checks cs) = unhealthy_count (health_summary cs)"
proof -
  have "length cs = length (filter healthy cs) + length (filter (\<lambda>c. \<not> healthy c) cs)"
    by (rule sum_length_filter_compl [symmetric])
  moreover have "filter (\<lambda>c. \<not> healthy c) cs = [] \<longleftrightarrow> list_all healthy cs" by (auto simp: filter_empty_conv list_all_iff)
  ultimately show ?thesis by (simp add: health_summary_def overall_health_def unhealthy_checks_def Let_def)
qed

text \<open>An \<open>http\<close> URL is split into its authority and its path, with port 80 when the authority has no
  colon; so an IPv6 address in brackets is taken to name a port, and none is added.\<close>
theorem url_target:
  assumes "a \<noteq> []" and "CHR ''/'' \<notin> set a"
  shows "(\<exists>rq. http_target (''http://'' @ a @ ''/'' @ p) = Inr (if CHR '':'' \<in> set a then a else a @ '':80'', rq))
    \<and> (\<exists>rq. http_target ''http://[::1]/health'' = Inr (''[::1]'', rq))"
proof -
  have "split_at (CHR ''/'') (a @ ''/'' @ p) = (a, ''/'' @ p)"
    unfolding split_at_def using assms(2) by (induction a) auto
  then show ?thesis using assms(1)
    by (simp add: http_target_def strip_prefix_def Let_def) (simp add: split_at_def)
qed

theorem url_target_witness:
  "\<exists>rq. http_target ''http://host/health'' = Inr (''host:80'', rq)"
  using url_target [of "''host''" "''health''"] by simp

text \<open>A response head that starts with a version, a blank and a code of three digits passes the check
  exactly when the code is the expected one.\<close>
theorem status_decides_check:
  assumes "http_target url = Inr (addr, rq)" and "http_head env addr rq timeout = Reply head"
    and "words_of [] (until_crlf head) = version # code # others" and "take 5 version = ''HTTP/''" and "parse_u16 code = Some c"
  shows "fst (probe_outcome dbg env (Http url expected timeout)) \<longleftrightarrow> c = expected"
  using assms by (simp add: probe_outcome_def http_get_status_def status_of_head_def)

theorem status_decides_check_witness:
  "fst (probe_outcome id \<lparr>tcp_connect = \<lambda>_ _. TimedOut, http_head = \<lambda>_ _ _. Reply (''HTTP/1.1 200 OK'' @ [CHR 0x0D, CHR 0x0A])\<rparr> (Http ''http://h/'' 200 5))
   \<longleftrightarrow> (200 :: u16) = 200"
proof -
  obtain rq where "http_target ''http://h/'' = Inr (''h:80'', rq)" by (simp add: http_target_def strip_prefix_def split_at_def Let_def)
  then show ?thesis
    by (rule status_decides_check [where version = "''HTTP/1.1''" and code = "''200''" and others = "[''OK'']"])
      (simp, simp, code_simp, simp, simp add: parse_u16_def is_digit_def digits_value_def)
qed

text \<open>The deprecated check passes whatever the target, without consulting the network.\<close>
theorem dry_run_always_passes: "success (run_check now s) \<and> cr_latency_ms (run_check now s) \<in> {1, 5, 10}"
  by (cases "check_type s") (simp_all add: run_check_def)

end
