(* ===== verification/AdaptiveBreaker.thy ===== *)
theory AdaptiveBreaker
  imports TokenBucket
begin

text \<open>
  The adaptive circuit breaker (\<open>src/adaptive_circuit_breaker.rs\<close>). An \<open>Instant\<close> is an integer number of
  nanoseconds, from which sixty seconds can always be subtracted, and a \<open>Duration\<close> a number of
  nanoseconds. Operations that read the clock several times take several readings.
\<close>

section \<open>Single precision\<close>

lemma rnd_eval:
  assumes "pow2 e \<le> q" "q < pow2 (e + 1)" "emin \<le> e" "e < emax" "0 < p"
  shows "rnd p emin emax q = FFin (of_int (rne (q / pow2 (e - int p + 1))) * pow2 (e - int p + 1))"
proof -
  have q: "0 < q" using assms(1) pow2_pos [of e] by linarith
  have f: "fexp emin q = e" using flog2_eqI [OF assms(1,2)] assms(3) by (simp add: fexp_def)
  have r: "round_pos p emin q = of_int (rne (q / pow2 (e - int p + 1))) * pow2 (e - int p + 1)"
    by (simp add: round_pos_def Let_def f)
  have "round_pos p emin q \<le> pow2 (e + 1)"
    by (rule round_pos_le_pow2 [OF q]) (use assms f in auto)
  moreover have "pow2 (e + 1) < pow2 (emax + 1)" using assms(4) by (simp add: pow2_less_iff)
  ultimately have "\<not> pow2 (emax + 1) \<le> round_pos p emin q" by linarith
  then show ?thesis using q by (simp add: rnd_def Let_def r)
qed

lemma rnd32_eval:
  assumes "pow2 e \<le> q" "q < pow2 (e + 1)" "- 126 \<le> e" "e < 127"
  shows "rnd32 q = FFin (of_int (rne (q / pow2 (e - 23))) * pow2 (e - 23))"
  using rnd_eval [OF assms, of 24] by (simp add: rnd32_def)

definition f32_add :: "f32 \<Rightarrow> f32 \<Rightarrow> f32" where
  "f32_add x y = (case (x, y) of (FFin a, FFin b) \<Rightarrow> rnd32 (a + b) | _ \<Rightarrow> f64_add x y)"

definition f32_div :: "f32 \<Rightarrow> f32 \<Rightarrow> f32" where
  "f32_div x y = (case (x, y) of (FFin a, FFin b) \<Rightarrow> if b = 0 then f64_div x y else rnd32 (a / b) | _ \<Rightarrow> f64_div x y)"

definition f32_of_u32 :: "u32 \<Rightarrow> f32" where
  "f32_of_u32 n = rnd32 (of_nat (unat n))"

text \<open>\<open>Duration::from_secs_f64\<close> of a number of seconds that is not negative.\<close>

definition duration_of_secs :: "f64 \<Rightarrow> nat" where
  "duration_of_secs x = (case x of FFin q \<Rightarrow> nat (rne (q * 10 ^ 9)) | _ \<Rightarrow> 0)"

section \<open>State\<close>

datatype BreakerState =
    Closed u32
  | Open int nat
  | HalfOpen u32 u32 f32

record AdaptiveCircuitBreaker =
  ab_state :: BreakerState
  failure_history :: "(int \<times> bool) list"
  recovery_times :: "nat list"
  base_threshold :: u32
  base_timeout :: nat
  rng_state :: u32

text \<open>\<open>new\<close> panics for a threshold of zero.\<close>

definition adaptive_new :: "u32 \<Rightarrow> nat \<Rightarrow> AdaptiveCircuitBreaker option" where
  "adaptive_new th to =
    (if 0 < th then Some \<lparr>ab_state = Closed 0, failure_history = [], recovery_times = [], base_threshold = th,
       base_timeout = to, rng_state = 0xDEADBEEF\<rparr> else None)"

definition minute :: int where "minute = 60 * 10 ^ 9"

definition failure_rate :: "int \<Rightarrow> AdaptiveCircuitBreaker \<Rightarrow> f32" where
  "failure_rate now b =
    (let recent = filter (\<lambda>(ts, _). now - minute \<le> ts) (failure_history b);
         total = of_nat (length recent); failures = of_nat (length (filter snd recent))
     in if total = (0 :: u32) then FFin 0 else f32_div (f32_of_u32 failures) (f32_of_u32 total))"

definition adaptive_threshold :: "int \<Rightarrow> AdaptiveCircuitBreaker \<Rightarrow> u32" where
  "adaptive_threshold now b =
    (let rate = failure_rate now b
     in if fp_lt (FFin (1 / 2)) rate then max (base_threshold b div 2) 1
        else if fp_lt rate (rnd32 (10 / 100)) then base_threshold b * 2
        else base_threshold b)"

definition adaptive_timeout :: "AdaptiveCircuitBreaker \<Rightarrow> nat" where
  "adaptive_timeout b =
    (if recovery_times b = [] then base_timeout b
     else let recent = take 10 (rev (recovery_times b));
              mean_secs = f64_div (fold (\<lambda>d acc. f64_add acc (as_secs_f64 d)) recent (FFin 0)) (f64_of_nat (length recent));
              base_secs = as_secs_f64 (base_timeout b);
              scale = f64_clamp (f64_div mean_secs (f64_max base_secs (rnd64 (1 / 10 ^ 9)))) (FFin 1) (FFin 5)
          in duration_of_secs (f64_mul base_secs scale))"

definition half_open_load_pct :: f32 where
  "half_open_load_pct = rnd32 (10 / 100)"

definition last_cooldown_or_base :: "AdaptiveCircuitBreaker \<Rightarrow> nat" where
  "last_cooldown_or_base b = adaptive_timeout b"

section \<open>Operations\<close>

definition elapsed_since :: "int \<Rightarrow> int \<Rightarrow> nat" where
  "elapsed_since opened now = nat (now - opened)"

definition maybe_half_open :: "int \<Rightarrow> int \<Rightarrow> AdaptiveCircuitBreaker \<Rightarrow> AdaptiveCircuitBreaker" where
  "maybe_half_open now now' b =
    (case ab_state b of
       Open opened cooldown \<Rightarrow>
         if cooldown \<le> elapsed_since opened now then
           let times = recovery_times b @ [elapsed_since opened now']
           in b\<lparr>recovery_times := (if 20 < length times then tl times else times),
                ab_state := HalfOpen 0 0 half_open_load_pct\<rparr>
         else b
     | _ \<Rightarrow> b)"

definition xorshift :: "u32 \<Rightarrow> u32" where
  "xorshift x =
    (let x = x XOR push_bit 13 x;
         x = x XOR drop_bit 17 x
     in x XOR push_bit 5 x)"

definition xorshift_f32 :: "AdaptiveCircuitBreaker \<Rightarrow> f32 \<times> AdaptiveCircuitBreaker" where
  "xorshift_f32 b =
    (let x = xorshift (rng_state b)
     in (rnd32 (of_nat (unat x) / 2 ^ 32), b\<lparr>rng_state := x\<rparr>))"

definition permit :: "int \<times> int \<Rightarrow> AdaptiveCircuitBreaker \<Rightarrow> bool \<times> AdaptiveCircuitBreaker" where
  "permit t b =
    (let b = maybe_half_open (fst t) (snd t) b
     in case ab_state b of
          Closed _ \<Rightarrow> (True, b)
        | Open _ _ \<Rightarrow> (False, b)
        | HalfOpen _ _ load \<Rightarrow> (case xorshift_f32 b of (r, b) \<Rightarrow> (fp_lt r load, b)))"

definition push_history :: "int \<Rightarrow> bool \<Rightarrow> AdaptiveCircuitBreaker \<Rightarrow> AdaptiveCircuitBreaker" where
  "push_history now failed b =
    b\<lparr>failure_history := dropWhile (\<lambda>(ts, _). ts < now - minute) (failure_history b @ [(now, failed)])\<rparr>"

definition success_step :: "AdaptiveCircuitBreaker \<Rightarrow> BreakerState" where
  "success_step b =
    (case ab_state b of
       Closed _ \<Rightarrow> Closed 0
     | HalfOpen probes oks load \<Rightarrow>
         let probes = probes + 1; oks = oks + 1;
             rate = f32_div (f32_of_u32 oks) (f64_max (f32_of_u32 probes) (FFin 1))
         in if fp_le (rnd32 (80 / 100)) rate \<and> fp_le (rnd32 (90 / 100)) load then Closed 0
            else if fp_le (rnd32 (80 / 100)) rate then HalfOpen probes oks (f64_min (f32_add load (rnd32 (20 / 100))) (FFin 1))
            else HalfOpen probes oks load
     | Open opened cooldown \<Rightarrow> Open opened cooldown)"

definition record_success :: "int \<Rightarrow> AdaptiveCircuitBreaker \<Rightarrow> AdaptiveCircuitBreaker" where
  "record_success now b = (let b = push_history now False b in b\<lparr>ab_state := success_step b\<rparr>)"

text \<open>The readings: of the history, of the failure rate, and of the opening.\<close>

definition record_failure :: "int \<Rightarrow> int \<Rightarrow> int \<Rightarrow> AdaptiveCircuitBreaker \<Rightarrow> AdaptiveCircuitBreaker" where
  "record_failure t1 t2 t3 b =
    (let b = push_history t1 True b
     in case ab_state b of
          Closed n \<Rightarrow>
            let n = n + 1
            in if adaptive_threshold t2 b \<le> n then b\<lparr>ab_state := Open t3 (adaptive_timeout b)\<rparr>
               else b\<lparr>ab_state := Closed n\<rparr>
        | HalfOpen _ _ _ \<Rightarrow>
            b\<lparr>ab_state := Open t3 (min (duration_of_secs (f64_mul (as_secs_f64 (last_cooldown_or_base b)) (FFin (3 / 2)))) (300 * 10 ^ 9))\<rparr>
        | Open _ _ \<Rightarrow> b)"

definition report :: "int \<times> int \<Rightarrow> bool \<Rightarrow> AdaptiveCircuitBreaker \<Rightarrow> AdaptiveCircuitBreaker" where
  "report t ok b = (if ok then record_success (fst t) b else record_failure (fst t) (fst t) (snd t) b)"

definition cooling :: "int \<times> int \<Rightarrow> AdaptiveCircuitBreaker \<Rightarrow> bool" where
  "cooling t b = (case ab_state b of Open opened cooldown \<Rightarrow> elapsed_since opened (fst t) < cooldown | _ \<Rightarrow> False)"

interpretation adaptive: breaker permit report cooling
  by unfold_locales (auto simp: cooling_def permit_def maybe_half_open_def split: BreakerState.splits)

section \<open>Facts about the rounding\<close>

lemma rnd32_1: "rnd32 1 = FFin 1"
  using rnd32_eval [of 0 1] rne_of_int [of "2 ^ 23"] by (simp add: pow2_def)

lemma rnd32_2_32: "rnd32 (2 ^ 32) = FFin (2 ^ 32)"
  using rnd32_eval [of 32 "2 ^ 32"] rne_of_int [of "2 ^ 23"] by (simp add: pow2_def)

lemma rnd32_mono: "q \<le> r \<Longrightarrow> fp_le (rnd32 q) (rnd32 r)"
  unfolding rnd32_def by (rule rnd_mono) simp_all

lemma f32_of_u32_pos:
  assumes "0 < n"
  shows "\<exists>q. f32_of_u32 n = FFin q \<and> 0 < q"
proof -
  have "1 \<le> unat n" using assms by (simp add: word_less_nat_alt)
  from of_nat_mono [OF this, where ?'a = rat] have one: "(1 :: rat) \<le> of_nat (unat n)" by simp
  have "unat n \<le> 2 ^ 32" using unsigned_less [of n, where ?'a = nat] by simp
  from of_nat_mono [OF this, where ?'a = rat] have top: "(of_nat (unat n) :: rat) \<le> 2 ^ 32" by simp
  show ?thesis
    using rnd32_mono [OF one] rnd32_mono [OF top] unfolding rnd32_1 rnd32_2_32 f32_of_u32_def
    by (cases "rnd32 (of_nat (unat n))") auto
qed

lemma f32_ratio_one: "0 < n \<Longrightarrow> f32_div (f32_of_u32 n) (f32_of_u32 n) = FFin 1"
  using f32_of_u32_pos [of n] by (auto simp: f32_div_def rnd32_1)

lemma f32_max_one: "0 < n \<Longrightarrow> f64_max (f32_of_u32 n) (FFin 1) = f32_of_u32 n"
proof -
  assume "0 < n"
  then have "1 \<le> unat n" by (simp add: word_less_nat_alt)
  from of_nat_mono [OF this, where ?'a = rat] have "(1 :: rat) \<le> of_nat (unat n)" by simp
  from rnd32_mono [OF this] have "fp_le (FFin 1) (f32_of_u32 n)" by (simp add: rnd32_1 f32_of_u32_def)
  then show ?thesis using f32_of_u32_pos [OF \<open>0 < n\<close>] by (auto simp: f64_max_def)
qed

lemma rnd32_4_5: "rnd32 (80 / 100) = FFin (13421773 / 2 ^ 24)"
proof -
  have "rne (67108864 / 5 :: rat) = 13421773" by (rule rne_eqI) simp
  then show ?thesis using rnd32_eval [of "- 1" "4 / 5"] by (simp add: pow2_def)
qed

lemma rnd32_9_10: "rnd32 (90 / 100) = FFin (15099494 / 2 ^ 24)"
proof -
  have "rne (75497472 / 5 :: rat) = 15099494" by (rule rne_eqI) simp
  then show ?thesis using rnd32_eval [of "- 1" "9 / 10"] by (simp add: pow2_def)
qed

lemma rnd32_1_5: "rnd32 (20 / 100) = FFin (13421773 / 2 ^ 26)"
proof -
  have "rne (67108864 / 5 :: rat) = 13421773" by (rule rne_eqI) simp
  then show ?thesis using rnd32_eval [of "- 3" "1 / 5"] by (simp add: pow2_def)
qed

lemma rnd32_1_10: "rnd32 (10 / 100) = FFin (13421773 / 2 ^ 27)"
proof -
  have "rne (67108864 / 5 :: rat) = 13421773" by (rule rne_eqI) simp
  then show ?thesis using rnd32_eval [of "- 4" "1 / 10"] by (simp add: pow2_def)
qed

section \<open>Opening\<close>

definition fail_all :: "int list \<Rightarrow> AdaptiveCircuitBreaker \<Rightarrow> AdaptiveCircuitBreaker" where
  "fail_all ts b = foldl (\<lambda>b t. record_failure t t t b) b ts"

definition heal_all :: "int list \<Rightarrow> AdaptiveCircuitBreaker \<Rightarrow> AdaptiveCircuitBreaker" where
  "heal_all ts b = foldl (\<lambda>b t. record_success t b) b ts"

definition half_base :: "u32 \<Rightarrow> nat" where
  "half_base th = max 1 (unat th div 2)"

lemma unat_half_base: "unat (max (th div 2) 1) = half_base th"
  by (simp add: half_base_def max_def word_le_nat_alt unat_div)

lemma half_base_bound: "half_base th < 2 ^ 32"
  unfolding unat_half_base [symmetric] using unsigned_less [of "max (th div 2) 1", where ?'a = nat] by simp

lemma dropWhile_id: "\<forall>x \<in> set xs. \<not> P x \<Longrightarrow> dropWhile P xs = xs"
  by (cases xs) auto

lemma all_failures_rate:
  assumes "\<forall>(t, f) \<in> set (failure_history b). f \<and> now - minute \<le> t"
    and "failure_history b \<noteq> []" "length (failure_history b) < 2 ^ 32"
  shows "failure_rate now b = FFin 1"
proof -
  have f: "filter (\<lambda>(ts, _). now - minute \<le> ts) (failure_history b) = failure_history b"
    "filter snd (failure_history b) = failure_history b"
    using assms(1) by (auto simp: filter_id_conv)
  have "(of_nat (length (failure_history b)) :: u32) \<noteq> 0"
    using assms(2,3) nat_dvd_not_less [of "length (failure_history b)" "2 ^ 32"] by (simp add: word_of_nat_eq_0_iff)
  then show ?thesis by (simp add: failure_rate_def Let_def f f32_ratio_one word_neq_0_conv)
qed

lemma record_failure_streak:
  assumes "ab_state b = Closed (of_nat n)" "\<forall>(s, f) \<in> set (failure_history b). f \<and> t - minute \<le> s"
    "length (failure_history b) = n" "Suc n < 2 ^ 32" "recovery_times b = []"
  shows "record_failure t t t b =
    (let b = b\<lparr>failure_history := failure_history b @ [(t, True)]\<rparr>
     in b\<lparr>ab_state := (if half_base (base_threshold b) \<le> Suc n then Open t (base_timeout b) else Closed (of_nat (Suc n)))\<rparr>)"
proof -
  let ?b = "push_history t True b"
  have d: "dropWhile (\<lambda>(ts, _). ts < t - minute) (failure_history b @ [(t, True)]) = failure_history b @ [(t, True)]"
    by (rule dropWhile_id) (use assms(2) in \<open>auto simp: minute_def\<close>)
  then have p: "?b = b\<lparr>failure_history := failure_history b @ [(t, True)]\<rparr>" by (simp add: push_history_def)
  have "failure_rate t ?b = FFin 1"
    by (rule all_failures_rate) (use assms p in \<open>auto simp: minute_def\<close>)
  then have th: "adaptive_threshold t ?b = max (base_threshold b div 2) 1"
    by (simp add: adaptive_threshold_def Let_def p)
  have "unat (word_of_nat (Suc n) :: u32) = Suc n"
    using assms(4) by (simp add: unsigned_of_nat take_bit_nat_eq_self del: of_nat_Suc)
  then have "unat (1 + word_of_nat n :: u32) = Suc n" by simp
  then have le: "adaptive_threshold t ?b \<le> 1 + word_of_nat n \<longleftrightarrow> half_base (base_threshold b) \<le> Suc n"
    by (simp add: word_le_nat_alt th unat_half_base)
  show ?thesis
    using le assms by (simp add: record_failure_def Let_def p adaptive_timeout_def add.commute)
qed

lemma fail_all_snoc: "fail_all (ts @ [t]) b = record_failure t t t (fail_all ts b)"
  by (simp add: fail_all_def)

lemma fail_all_closed:
  assumes "adaptive_new th to = Some b" "\<forall>s \<in> set ts. \<forall>t \<in> set ts. t - s \<le> minute"
  shows "length ts < half_base th \<Longrightarrow>
    fail_all ts b = b\<lparr>ab_state := Closed (of_nat (length ts)), failure_history := map (\<lambda>t. (t, True)) ts\<rparr>"
  using assms(2)
proof (induction ts rule: rev_induct)
  case Nil
  then show ?case using assms(1) by (auto simp: fail_all_def adaptive_new_def split: if_splits)
next
  case (snoc t ts)
  let ?c = "fail_all ts b"
  have c: "?c = b\<lparr>ab_state := Closed (of_nat (length ts)), failure_history := map (\<lambda>t. (t, True)) ts\<rparr>"
    using snoc by simp
  have b: "recovery_times b = []" "base_threshold b = th" using assms(1) by (auto simp: adaptive_new_def split: if_splits)
  have "\<forall>(s, f) \<in> set (failure_history ?c). f \<and> t - minute \<le> s" using snoc.prems(2) c by (fastforce simp: algebra_simps)
  then have "record_failure t t t ?c = (let b = ?c\<lparr>failure_history := failure_history ?c @ [(t, True)]\<rparr>
     in b\<lparr>ab_state := (if half_base (base_threshold b) \<le> Suc (length ts) then Open t (base_timeout b)
            else Closed (of_nat (Suc (length ts))))\<rparr>)"
    using snoc.prems(1) half_base_bound [of th] by (intro record_failure_streak) (auto simp: c b)
  then show ?case using snoc.prems(1) by (simp add: fail_all_snoc c b Let_def)
qed

text \<open>
  A burst of failures: while every outcome of the last minute is a failure the threshold is half of the base, and
  the breaker opens at exactly that failure, with the base timeout.
\<close>

theorem adaptive_trips_at_half_base:
  assumes "adaptive_new th to = Some b" "\<forall>s \<in> set ts. \<forall>t \<in> set ts. t - s \<le> minute" "length ts \<le> half_base th"
  shows "ab_state (fail_all ts b) =
    (if length ts < half_base th then Closed (of_nat (length ts)) else Open (last ts) to)"
proof (cases "length ts < half_base th")
  case True
  then show ?thesis using fail_all_closed [OF assms(1,2)] by simp
next
  case False
  then obtain us t where ts: "ts = us @ [t]" using assms(3) by (cases ts rule: rev_cases) (auto simp: half_base_def)
  with False assms(3) have len: "length us < half_base th" "half_base th = Suc (length us)" by auto
  let ?c = "fail_all us b"
  have c: "?c = b\<lparr>ab_state := Closed (of_nat (length us)), failure_history := map (\<lambda>t. (t, True)) us\<rparr>"
    by (rule fail_all_closed [OF assms(1)]) (use assms(2) len ts in auto)
  have b: "recovery_times b = []" "base_threshold b = th" "base_timeout b = to"
    using assms(1) by (auto simp: adaptive_new_def split: if_splits)
  have "\<forall>(s, f) \<in> set (failure_history ?c). f \<and> t - minute \<le> s"
    using assms(2) ts c by (fastforce simp: algebra_simps)
  then have "record_failure t t t ?c = (let b = ?c\<lparr>failure_history := failure_history ?c @ [(t, True)]\<rparr>
     in b\<lparr>ab_state := (if half_base (base_threshold b) \<le> Suc (length us) then Open t (base_timeout b)
            else Closed (of_nat (Suc (length us))))\<rparr>)"
    using len half_base_bound [of th] by (intro record_failure_streak) (auto simp: c b)
  then show ?thesis using False len by (simp add: ts fail_all_snoc c b Let_def)
qed

lemma adaptive_trips_at_half_base_witness:
  "case adaptive_new 4 30 of None \<Rightarrow> False
   | Some b \<Rightarrow> ab_state (fail_all [0] b) = Closed 1 \<and> ab_state (fail_all [0, 5] b) = Open 5 30"
proof -
  obtain b where b: "adaptive_new 4 30 = Some b" by (auto simp: adaptive_new_def)
  have h: "half_base 4 = 2" by (simp add: half_base_def)
  show ?thesis
    using adaptive_trips_at_half_base [OF b, of "[0]"] adaptive_trips_at_half_base [OF b, of "[0, 5]"]
    by (simp add: b h minute_def)
qed

section \<open>Graduated recovery\<close>

text \<open>The shares of the calls let through after 0, 1, 2, 3 and 4 successes, in single precision.\<close>

definition half_open_loads :: "rat list" where
  "half_open_loads = [13421773 / 2 ^ 27, 10066330 / 2 ^ 25, 1 / 2, 11744051 / 2 ^ 24, 15099494 / 2 ^ 24]"

lemma next_loads:
  "f32_add (FFin (13421773 / 2 ^ 27)) (rnd32 (20 / 100)) = FFin (10066330 / 2 ^ 25)"
  "f32_add (FFin (10066330 / 2 ^ 25)) (rnd32 (20 / 100)) = FFin (1 / 2)"
  "f32_add (FFin (1 / 2)) (rnd32 (20 / 100)) = FFin (11744051 / 2 ^ 24)"
  "f32_add (FFin (11744051 / 2 ^ 24)) (rnd32 (20 / 100)) = FFin (15099494 / 2 ^ 24)"
proof -
  have "rne (40265319 / 4 :: rat) = 10066330" by (rule rne_eqI) simp
  then show "f32_add (FFin (13421773 / 2 ^ 27)) (rnd32 (20 / 100)) = FFin (10066330 / 2 ^ 25)"
    using rnd32_eval [of "- 2" "40265319 / 2 ^ 27"] unfolding rnd32_1_5 by (simp add: f32_add_def pow2_def)
  have "rne (33554433 / 4 :: rat) = 8388608" by (rule rne_eqI) simp
  then show "f32_add (FFin (10066330 / 2 ^ 25)) (rnd32 (20 / 100)) = FFin (1 / 2)"
    using rnd32_eval [of "- 1" "33554433 / 2 ^ 26"] unfolding rnd32_1_5 by (simp add: f32_add_def pow2_def)
  have "rne (46976205 / 4 :: rat) = 11744051" by (rule rne_eqI) simp
  then show "f32_add (FFin (1 / 2)) (rnd32 (20 / 100)) = FFin (11744051 / 2 ^ 24)"
    using rnd32_eval [of "- 1" "46976205 / 2 ^ 26"] unfolding rnd32_1_5 by (simp add: f32_add_def pow2_def)
  have "rne (60397977 / 4 :: rat) = 15099494" by (rule rne_eqI) simp
  then show "f32_add (FFin (11744051 / 2 ^ 24)) (rnd32 (20 / 100)) = FFin (15099494 / 2 ^ 24)"
    using rnd32_eval [of "- 1" "60397977 / 2 ^ 26"] unfolding rnd32_1_5 by (simp add: f32_add_def pow2_def)
qed

lemmas rnd32_consts = rnd32_4_5 [simplified] rnd32_9_10 [simplified] rnd32_1_5 [simplified] rnd32_1_10 [simplified]

definition probing :: "nat \<Rightarrow> BreakerState" where
  "probing n = HalfOpen (of_nat n) (of_nat n) (FFin (half_open_loads ! n))"

lemma probe_rate:
  fixes k :: u32
  assumes "0 < k"
  shows "f32_div (f32_of_u32 k) (f64_max (f32_of_u32 k) (FFin 1)) = FFin 1"
  by (simp add: f32_max_one assms f32_ratio_one)

lemma less_5: "n < (5 :: nat) \<longleftrightarrow> n = 0 \<or> n = 1 \<or> n = 2 \<or> n = 3 \<or> n = 4"
  by auto

lemma success_probing:
  assumes "ab_state b = probing n" "n < 5"
  shows "success_step b = (if n = 4 then Closed 0 else probing (Suc n))"
proof -
  have "(0 :: u32) < 1 + of_nat n" using assms(2) unfolding less_5 by (elim disjE) simp_all
  note rate = probe_rate [OF this]
  have m: "f64_min (FFin a) (FFin 1) = FFin a" if "a \<le> 1" for a using that by (simp add: f64_min_def)
  note s = success_step_def assms(1) probing_def Let_def rnd32_consts
  have "success_step b =
     (if fp_le (FFin (15099494 / 2 ^ 24)) (FFin (half_open_loads ! n)) then Closed 0
      else HalfOpen (of_nat n + 1) (of_nat n + 1) (f64_min (f32_add (FFin (half_open_loads ! n)) (rnd32 (20 / 100))) (FFin 1)))"
    using rate by (simp add: s add.commute)
  also have "\<dots> = (if n = 4 then Closed 0 else probing (Suc n))"
    using assms(2) unfolding less_5
    by (elim disjE) (simp_all add: half_open_loads_def probing_def next_loads [simplified] m)
  finally show ?thesis .
qed

lemma heal_all_snoc: "heal_all (ts @ [t]) b = record_success t (heal_all ts b)"
  by (simp add: heal_all_def)

lemma record_success_state: "ab_state (record_success t b) = success_step b"
  by (simp add: record_success_def push_history_def success_step_def Let_def split: BreakerState.splits)

lemma half_open_start: "HalfOpen 0 0 half_open_load_pct = probing 0"
  by (simp add: probing_def half_open_loads_def half_open_load_pct_def rnd32_consts)

text \<open>
  A recovering breaker closes at its fifth success and not before; meanwhile the share of the calls let through grows
  from a tenth to nine tenths.
\<close>

theorem adaptive_recovers_after_five:
  assumes "ab_state b = HalfOpen 0 0 half_open_load_pct" "length ts \<le> 5"
  shows "ab_state (heal_all ts b) = (if length ts = 5 then Closed 0 else probing (length ts))"
  using assms(2)
proof (induction ts rule: rev_induct)
  case Nil
  then show ?case using assms(1) by (simp add: heal_all_def half_open_start)
next
  case (snoc t ts)
  then show ?case
    using success_probing [of "heal_all ts b" "length ts"] by (simp add: heal_all_snoc record_success_state)
qed

definition half_open_breaker :: AdaptiveCircuitBreaker where
  "half_open_breaker = \<lparr>ab_state = HalfOpen 0 0 half_open_load_pct, failure_history = [], recovery_times = [5],
     base_threshold = 4, base_timeout = 5, rng_state = 1\<rparr>"

lemma adaptive_recovers_after_five_witness:
  "ab_state (heal_all [1, 2, 3, 4] half_open_breaker) = HalfOpen 4 4 (FFin (15099494 / 2 ^ 24))
   \<and> ab_state (heal_all [1, 2, 3, 4, 5] half_open_breaker) = Closed 0"
  using adaptive_recovers_after_five [of half_open_breaker "[1, 2, 3, 4]"]
    adaptive_recovers_after_five [of half_open_breaker "[1, 2, 3, 4, 5]"]
  by (simp add: half_open_breaker_def probing_def half_open_loads_def)

section \<open>The generator\<close>

lemma word_32_zero: "(2 :: u32) ^ 32 = 0"
  by simp

lemma push_bit_fixed:
  fixes x :: u32
  assumes "x = push_bit k x" "0 < k"
  shows "x = 0"
proof -
  have "x = push_bit (n * k) x" for n
  proof (induction n)
    case (Suc n)
    have "push_bit (Suc n * k) x = push_bit (n * k) (push_bit k x)" by (simp add: push_bit_push_bit add.commute)
    then show ?case using Suc assms(1) by simp
  qed simp
  from this [of 32] have "x = push_bit (32 * k) x" .
  also have "\<dots> = x * (2 ^ 32) ^ k" by (simp only: push_bit_eq_mult power_mult)
  also have "\<dots> = 0" using assms(2) by (simp only: word_32_zero zero_power mult_zero_right)
  finally show ?thesis .
qed

lemma drop_bit_fixed:
  fixes x :: u32
  assumes "x = drop_bit k x" "0 < k"
  shows "x = 0"
proof -
  have "unat x = unat x div 2 ^ k" using arg_cong [OF assms(1), of unat] by (simp only: unat_drop_bit_eq) (simp only: drop_bit_eq_div)
  moreover have "1 < (2 :: nat) ^ k" by (rule one_less_power) (use assms(2) in simp_all)
  ultimately have "unat x = 0" by (metis div_less_dividend gr0I less_irrefl)
  then show ?thesis by (simp add: unat_eq_zero)
qed

lemma xor_zero: "(x :: u32) XOR y = 0 \<Longrightarrow> x = y"
  by (metis xor.right_neutral xor_self_eq xor.assoc)

lemma xorshift_nonzero: "x \<noteq> 0 \<Longrightarrow> xorshift x \<noteq> 0"
proof -
  have s: "y XOR push_bit k y \<noteq> 0" if "y \<noteq> 0" "0 < k" for y :: u32 and k
    using push_bit_fixed [OF xor_zero that(2)] that(1) by blast
  have d: "y XOR drop_bit k y \<noteq> 0" if "y \<noteq> 0" "0 < k" for y :: u32 and k
    using drop_bit_fixed [OF xor_zero that(2)] that(1) by blast
  assume "x \<noteq> 0"
  then show ?thesis unfolding xorshift_def Let_def by (intro s d) simp_all
qed

section \<open>Every state a breaker can be in\<close>

datatype AdaptiveCall =
    Permit int int
  | Succeeded int
  | Failed int int int

fun adaptive_call :: "AdaptiveCall \<Rightarrow> AdaptiveCircuitBreaker \<Rightarrow> AdaptiveCircuitBreaker" where
  "adaptive_call (Permit t t') b = snd (permit (t, t') b)"
| "adaptive_call (Succeeded t) b = record_success t b"
| "adaptive_call (Failed t t' t'') b = record_failure t t' t'' b"

definition state_ok :: "BreakerState \<Rightarrow> bool" where
  "state_ok s = (case s of HalfOpen _ _ _ \<Rightarrow> \<exists>n<5. s = probing n | _ \<Rightarrow> True)"

definition adaptive_ok :: "AdaptiveCircuitBreaker \<Rightarrow> bool" where
  "adaptive_ok b \<longleftrightarrow> rng_state b \<noteq> 0 \<and> length (recovery_times b) \<le> 20 \<and> state_ok (ab_state b)"

lemma state_ok_simps [simp]:
  "state_ok (Closed c)" "state_ok (Open t d)" "n < 5 \<Longrightarrow> state_ok (probing n)"
  by (auto simp: state_ok_def split: BreakerState.splits)

lemma state_ok_half_open: "state_ok (HalfOpen p s l) \<Longrightarrow> \<exists>n<5. HalfOpen p s l = probing n"
  by (simp add: state_ok_def)

lemma maybe_half_open_ok: "adaptive_ok b \<Longrightarrow> adaptive_ok (maybe_half_open t t' b)"
  by (auto simp: maybe_half_open_def adaptive_ok_def half_open_start Let_def split: BreakerState.splits)

lemma permit_ok: "adaptive_ok b \<Longrightarrow> adaptive_ok (snd (permit t b))"
  using maybe_half_open_ok [of b "fst t" "snd t"]
  by (auto simp: permit_def adaptive_ok_def xorshift_f32_def xorshift_nonzero Let_def split: BreakerState.splits)

lemma success_step_ok: "state_ok (ab_state b) \<Longrightarrow> state_ok (success_step b)"
proof (cases "ab_state b")
  case (HalfOpen p s l)
  assume "state_ok (ab_state b)"
  then obtain n where n: "n < 5" "ab_state b = probing n" using state_ok_half_open HalfOpen by metis
  then show ?thesis using success_probing [OF n(2,1)] by simp
qed (simp_all add: success_step_def)

lemma push_history_frame [simp]:
  "ab_state (push_history t f b) = ab_state b" "recovery_times (push_history t f b) = recovery_times b"
  "rng_state (push_history t f b) = rng_state b"
  by (simp_all add: push_history_def)

lemma record_success_ok: "adaptive_ok b \<Longrightarrow> adaptive_ok (record_success t b)"
  using success_step_ok [of "push_history t False b"]
  by (simp add: record_success_def Let_def adaptive_ok_def)

lemma record_failure_ok: "adaptive_ok b \<Longrightarrow> adaptive_ok (record_failure t t' t'' b)"
  by (auto simp: record_failure_def Let_def adaptive_ok_def split: BreakerState.splits)

lemma adaptive_call_ok: "adaptive_ok b \<Longrightarrow> adaptive_ok (adaptive_call c b)"
  by (cases c) (simp_all add: permit_ok record_success_ok record_failure_ok)

interpretation adaptive_calls: stateful adaptive_call adaptive_ok
  by unfold_locales (rule adaptive_call_ok)

text \<open>
  Whatever calls a breaker gets, at any readings of the clock: its generator never falls to zero, at most twenty
  recoveries are remembered, and a half-open breaker is at one of the five stages of the recovery.
\<close>

theorem adaptive_breaker_invariant:
  assumes "adaptive_new th to = Some b"
  shows "case fold adaptive_call calls b of b' \<Rightarrow>
    rng_state b' \<noteq> 0 \<and> length (recovery_times b') \<le> 20
    \<and> (\<forall>p s l. ab_state b' = HalfOpen p s l \<longrightarrow> (\<exists>n<5. ab_state b' = probing n))"
proof -
  have "adaptive_ok b" using assms by (auto simp: adaptive_new_def adaptive_ok_def split: if_splits)
  then have "adaptive_ok (fold adaptive_call calls b)" by (rule adaptive_calls.run_inv)
  then show ?thesis using state_ok_half_open unfolding adaptive_ok_def by fastforce
qed

lemma adaptive_breaker_invariant_witness:
  "case adaptive_new 4 30 of None \<Rightarrow> False | Some b \<Rightarrow> rng_state (fold adaptive_call [Permit 0 0, Succeeded 1] b) \<noteq> 0"
proof -
  obtain b where b: "adaptive_new 4 30 = Some b" by (auto simp: adaptive_new_def)
  show ?thesis using adaptive_breaker_invariant [OF b, of "[Permit 0 0, Succeeded 1]"] by (simp add: b)
qed

text \<open>
  A tripped breaker that is used during its cooldown by callers who report only the calls it let through refuses
  them all and does not change.
\<close>

theorem adaptive_refuses_while_cooling:
  assumes "ab_state b = Open opened cooldown"
    and "\<forall>((t, t'), ok) \<in> set cs. t - opened < int cooldown" "0 < cooldown"
  shows "fold (\<lambda>(t, ok) b. case permit t b of (True, b) \<Rightarrow> report t ok b | (False, b) \<Rightarrow> b) cs b = b
    \<and> (\<forall>(t, ok) \<in> set cs. permit t b = (False, b))"
proof -
  have c: "cooling (fst c) b" if "c \<in> set cs" for c
    using assms that by (cases c) (fastforce simp: cooling_def elapsed_since_def)
  have "(\<lambda>(t, ok) b. case permit t b of (True, b) \<Rightarrow> report t ok b | (False, b) \<Rightarrow> b) = adaptive.guarded"
    by (auto simp: fun_eq_iff adaptive.guarded_def split: prod.splits bool.splits)
  then show ?thesis using adaptive.run_blocked [of cs b] c adaptive.blocked_refuses by auto
qed

lemma adaptive_refuses_while_cooling_witness:
  "permit (3, 4) (half_open_breaker\<lparr>ab_state := Open 0 5\<rparr>) = (False, half_open_breaker\<lparr>ab_state := Open 0 5\<rparr>)"
  using adaptive_refuses_while_cooling [of "half_open_breaker\<lparr>ab_state := Open 0 5\<rparr>" 0 5 "[((3, 4), True)]"] by simp

section \<open>Three scenarios\<close>

text \<open>
  The waits of a breaker with a base timeout of thirty seconds: after an outage nobody called in for an hour, and
  after two failed recoveries, the second with 56.25 seconds where half as much again as the last cooldown is 67.5.
\<close>

lemma rnd64_nat: "n < 2 ^ 53 \<Longrightarrow> rnd64 (of_nat n) = FFin (of_nat n)"
  using rnd64_dyadic [of n 0] by simp

lemma whole_secs: "k < 2 ^ 53 \<Longrightarrow> as_secs_f64 (k * 10 ^ 9) = FFin (of_nat k)"
  by (simp add: as_secs_f64_def f64_of_nat_def rnd64_nat)

definition slow_breaker :: "nat list \<Rightarrow> BreakerState \<Rightarrow> AdaptiveCircuitBreaker" where
  "slow_breaker recs s = \<lparr>ab_state = s, failure_history = [], recovery_times = recs, base_threshold = 4,
     base_timeout = 30 * 10 ^ 9, rng_state = 1\<rparr>"

lemma base_max: "f64_max (FFin 30) (rnd64 (1 / 10 ^ 9)) = FFin 30"
proof -
  have "fp_le (rnd64 (1 / 10 ^ 9)) (FFin 1)" using rnd64_mono [of "1 / 10 ^ 9" 1] by simp
  then show ?thesis by (cases "rnd64 (1 / 10 ^ 9)") (auto simp: f64_max_def)
qed

lemma secs_at:
  "as_secs_f64 30000000000 = FFin 30" "as_secs_f64 45000000000 = FFin 45" "as_secs_f64 3600000000000 = FFin 3600"
  using whole_secs [of 30] whole_secs [of 45] whole_secs [of 3600] by simp_all

lemma adaptive_timeout_slow:
  "adaptive_timeout (slow_breaker [3600000000000] s) = 150000000000"
  "adaptive_timeout (slow_breaker [30000000000] s) = 30000000000"
  "adaptive_timeout (slow_breaker [30000000000, 45000000000] s) = 37500000000"
proof -
  note d = adaptive_timeout_def slow_breaker_def secs_at f64_of_nat_def duration_of_secs_def Let_def
  note r = rnd64_dyadic [of 75 0] rnd64_dyadic [of 2 0] rnd64_dyadic [of 75 1] rnd64_dyadic [of 5 2]
    rnd64_dyadic [of 3600 0] rnd64_dyadic [of 120 0] rnd64_dyadic [of 150 0] rnd64_dyadic [of 30 0] rnd64_dyadic [of 45 0]
  note z = rne_of_int [of 150000000000] rne_of_int [of 30000000000] rne_of_int [of 37500000000]
  note c = f64_clamp_def
  show "adaptive_timeout (slow_breaker [3600000000000] s) = 150000000000"
    using base_max r z by (simp add: d c)
  show "adaptive_timeout (slow_breaker [30000000000] s) = 30000000000"
    using base_max r z by (simp add: d c)
  show "adaptive_timeout (slow_breaker [30000000000, 45000000000] s) = 37500000000"
    using base_max r z by (simp add: d c)
qed

text \<open>
  The time in which nobody called counts as time to recover: the first call after an hour makes the next cooldown
  five times the base timeout.
\<close>

lemma idle_hour_prolongs_cooldown:
  "adaptive_timeout (snd (permit (3600000000000, 3600000000000) (slow_breaker [] (Open 0 30000000000)))) = 150000000000"
proof -
  have p: "maybe_half_open 3600000000000 3600000000000 (slow_breaker [] (Open 0 30000000000))
    = slow_breaker [3600000000000] (HalfOpen 0 0 half_open_load_pct)"
    by (simp add: maybe_half_open_def slow_breaker_def elapsed_since_def Let_def)
  have t: "adaptive_timeout (b\<lparr>rng_state := x\<rparr>) = adaptive_timeout b" for b x by (simp add: adaptive_timeout_def)
  have "snd (permit (3600000000000, 3600000000000) (slow_breaker [] (Open 0 30000000000)))
    = (slow_breaker [3600000000000] (HalfOpen 0 0 half_open_load_pct))\<lparr>rng_state := xorshift 1\<rparr>"
    by (simp add: permit_def p Let_def) (simp add: slow_breaker_def xorshift_f32_def Let_def)
  then show ?thesis by (simp only: t adaptive_timeout_slow(1))
qed

lemma mul_three_halves:
  "duration_of_secs (f64_mul (as_secs_f64 30000000000) (FFin (3 / 2))) = 45000000000"
  "duration_of_secs (f64_mul (as_secs_f64 37500000000) (FFin (3 / 2))) = 56250000000"
proof -
  have "as_secs_f64 37500000000 = FFin (75 / 2)"
    using rnd64_dyadic [of 37 0] rnd64_dyadic [of 500000000 0] rnd64_dyadic [of 1 1] rnd64_dyadic [of 75 1]
    by (simp add: as_secs_f64_def f64_of_nat_def)
  then show "duration_of_secs (f64_mul (as_secs_f64 37500000000) (FFin (3 / 2))) = 56250000000"
    using rnd64_dyadic [of 225 2] rne_of_int [of 56250000000] by (simp add: duration_of_secs_def)
  show "duration_of_secs (f64_mul (as_secs_f64 30000000000) (FFin (3 / 2))) = 45000000000"
    using rnd64_dyadic [of 45 0] rne_of_int [of 45000000000] by (simp add: duration_of_secs_def secs_at)
qed

text \<open>Two failed recoveries, each at the first moment possible: cooldowns of 30, 45 and 56.25 seconds.\<close>

lemma failed_recoveries_penalty:
  "ab_state (record_failure 30000000000 30000000000 30000000000
     (maybe_half_open 30000000000 30000000000 (slow_breaker [] (Open 0 30000000000))))
   = Open 30000000000 45000000000"
  "ab_state (record_failure 75000000000 75000000000 75000000000
     (maybe_half_open 75000000000 75000000000 (slow_breaker [30000000000] (Open 30000000000 45000000000))))
   = Open 75000000000 56250000000"
proof -
  have t: "adaptive_timeout (b\<lparr>failure_history := h\<rparr>) = adaptive_timeout b" for b h by (simp add: adaptive_timeout_def)
  have p: "maybe_half_open 30000000000 30000000000 (slow_breaker [] (Open 0 30000000000))
    = slow_breaker [30000000000] (HalfOpen 0 0 half_open_load_pct)"
    "maybe_half_open 75000000000 75000000000 (slow_breaker [30000000000] (Open 30000000000 45000000000))
    = slow_breaker [30000000000, 45000000000] (HalfOpen 0 0 half_open_load_pct)"
    by (simp_all add: maybe_half_open_def slow_breaker_def elapsed_since_def Let_def)
  have a: "ab_state (slow_breaker r s) = s" for r s by (simp add: slow_breaker_def)
  show "ab_state (record_failure 30000000000 30000000000 30000000000
     (maybe_half_open 30000000000 30000000000 (slow_breaker [] (Open 0 30000000000))))
   = Open 30000000000 45000000000"
    using adaptive_timeout_slow(2) mul_three_halves(1)
    by (simp add: p record_failure_def Let_def a last_cooldown_or_base_def push_history_def t)
  show "ab_state (record_failure 75000000000 75000000000 75000000000
     (maybe_half_open 75000000000 75000000000 (slow_breaker [30000000000] (Open 30000000000 45000000000))))
   = Open 75000000000 56250000000"
    using adaptive_timeout_slow(3) mul_three_halves(2)
    by (simp add: p record_failure_def Let_def a last_cooldown_or_base_def push_history_def t)
qed

text \<open>A draw can be one: the top of the range is rounded up in single precision.\<close>

lemma draw_can_be_one: "rnd32 (of_nat (unat (0xFFFFFFFF :: u32)) / 2 ^ 32) = FFin 1"
proof -
  have "rne (4294967295 / 256 :: rat) = 16777216" by (rule rne_eqI) simp
  then show ?thesis using rnd32_eval [of "- 1" "4294967295 / 4294967296"] by (simp add: pow2_def)
qed

end
