(* ===== verification/RequestDedup.thy ===== *)
theory RequestDedup
  imports Bytes Traces Floats
begin

text \<open>
  The request deduplicator (\<open>src/request_deduplicator.rs\<close>) under concurrent callers. A call looks its key's
  hash up and joins the entry it finds, or inserts an entry and computes; the lookup and the insertion are two
  accesses to the map. An entry is shared behind a lock, so the state holds entries by number and the map holds
  numbers. A step is one access to the map or one critical section of an entry's lock. The result of a
  computation is arbitrary, and a call may be dropped at each of its waits. \<open>cleanup_completed\<close> collects hashes
  and then removes them, while other calls go on.
\<close>

section \<open>State\<close>

record DedupeEntry =
  de_hash :: u64
  de_result :: "string option"
  de_waiters :: usize
  created_at_ms :: u64
  de_completed :: bool

datatype dd_pc =
    Absent u64
  | Joining nat
  | Polling nat
  | Computing nat
  | Computed nat string
  | Answered string
  | Dropped

datatype dd_cleaner = Collecting "u64 list" | Removing "u64 list"

record RequestDeduplicator =
  dd_in_flight :: "u64 \<rightharpoonup> nat"
  dd_entries :: "nat \<rightharpoonup> DedupeEntry"
  dd_next :: nat
  dd_calls :: "nat \<rightharpoonup> string \<times> dd_pc"
  dd_cleaners :: "nat \<rightharpoonup> dd_cleaner"
  stats_total :: u64
  stats_deduped :: u64

definition dd_new :: RequestDeduplicator where
  "dd_new = \<lparr>dd_in_flight = Map.empty, dd_entries = Map.empty, dd_next = 0, dd_calls = Map.empty,
     dd_cleaners = Map.empty, stats_total = 0, stats_deduped = 0\<rparr>"

definition hash_request :: "string \<Rightarrow> u64" where
  "hash_request key = fnv1a (as_bytes key)"

section \<open>Operations\<close>

definition dd_set :: "nat \<Rightarrow> string \<Rightarrow> dd_pc \<Rightarrow> RequestDeduplicator \<Rightarrow> RequestDeduplicator" where
  "dd_set c k pc s = s\<lparr>dd_calls := (dd_calls s)(c \<mapsto> (k, pc))\<rparr>"

definition dd_start :: "nat \<Rightarrow> string \<Rightarrow> u64 \<Rightarrow> RequestDeduplicator \<Rightarrow> RequestDeduplicator" where
  "dd_start c k now s =
    (let s = s\<lparr>stats_total := stats_total s + 1\<rparr>
     in case dd_in_flight s (hash_request k) of
          Some a \<Rightarrow> dd_set c k (Joining a) s
        | None \<Rightarrow> dd_set c k (Absent now) s)"

definition dd_join :: "nat \<Rightarrow> string \<Rightarrow> nat \<Rightarrow> DedupeEntry \<Rightarrow> RequestDeduplicator \<Rightarrow> RequestDeduplicator" where
  "dd_join c k a e s =
    dd_set c k (Polling a)
      (s\<lparr>dd_entries := (dd_entries s)(a \<mapsto> e\<lparr>de_waiters := de_waiters e + 1\<rparr>), stats_deduped := stats_deduped s + 1\<rparr>)"

definition dd_poll :: "nat \<Rightarrow> string \<Rightarrow> DedupeEntry \<Rightarrow> RequestDeduplicator \<Rightarrow> RequestDeduplicator" where
  "dd_poll c k e s =
    (if de_completed e then dd_set c k (Answered (case de_result e of Some r \<Rightarrow> r | None \<Rightarrow> '''')) s else s)"

definition dd_insert :: "nat \<Rightarrow> string \<Rightarrow> u64 \<Rightarrow> RequestDeduplicator \<Rightarrow> RequestDeduplicator" where
  "dd_insert c k now s =
    (let h = hash_request k;
         e = \<lparr>de_hash = h, de_result = None, de_waiters = 1, created_at_ms = now, de_completed = False\<rparr>
     in dd_set c k (Computing (dd_next s))
          (s\<lparr>dd_in_flight := (dd_in_flight s)(h \<mapsto> dd_next s), dd_entries := (dd_entries s)(dd_next s \<mapsto> e),
             dd_next := dd_next s + 1\<rparr>))"

definition dd_store :: "nat \<Rightarrow> string \<Rightarrow> nat \<Rightarrow> DedupeEntry \<Rightarrow> string \<Rightarrow> RequestDeduplicator \<Rightarrow> RequestDeduplicator" where
  "dd_store c k a e r s =
    dd_set c k (Answered r) (s\<lparr>dd_entries := (dd_entries s)(a \<mapsto> e\<lparr>de_result := Some r, de_completed := True\<rparr>)\<rparr>)"

definition set_cleaner :: "nat \<Rightarrow> dd_cleaner \<Rightarrow> RequestDeduplicator \<Rightarrow> RequestDeduplicator" where
  "set_cleaner d p s = s\<lparr>dd_cleaners := (dd_cleaners s)(d \<mapsto> p)\<rparr>"

definition dd_remove :: "nat \<Rightarrow> u64 \<Rightarrow> u64 list \<Rightarrow> RequestDeduplicator \<Rightarrow> RequestDeduplicator" where
  "dd_remove d h hs s = set_cleaner d (Removing hs) (s\<lparr>dd_in_flight := (dd_in_flight s)(h := None)\<rparr>)"

definition in_flight_count :: "RequestDeduplicator \<Rightarrow> nat" where
  "in_flight_count s = card (dom (dd_in_flight s))"

record DedupeStats =
  total_requests :: u64
  deduplicated :: u64
  dd_unique :: u64
  avg_wait_ms :: f64

definition dd_stats :: "RequestDeduplicator \<Rightarrow> DedupeStats" where
  "dd_stats s = \<lparr>total_requests = stats_total s, deduplicated = stats_deduped s,
     dd_unique = sat_sub (stats_total s) (stats_deduped s), avg_wait_ms = FFin 0\<rparr>"

datatype dd_event = Ends string string | Silent

fun at_wait :: "dd_pc \<Rightarrow> bool" where
  "at_wait (Absent _) = False"
| "at_wait (Answered _) = False"
| "at_wait Dropped = False"
| "at_wait _ = True"

inductive dd_step :: "RequestDeduplicator \<Rightarrow> dd_event \<Rightarrow> RequestDeduplicator \<Rightarrow> bool" where
  Start: "dd_calls s c = None \<Longrightarrow> dd_step s Silent (dd_start c k now s)"
| Join: "dd_calls s c = Some (k, Joining a) \<Longrightarrow> dd_entries s a = Some e \<Longrightarrow> dd_step s Silent (dd_join c k a e s)"
| Poll: "dd_calls s c = Some (k, Polling a) \<Longrightarrow> dd_entries s a = Some e \<Longrightarrow> dd_step s Silent (dd_poll c k e s)"
| Insert: "dd_calls s c = Some (k, Absent now) \<Longrightarrow> dd_step s Silent (dd_insert c k now s)"
| Compute: "dd_calls s c = Some (k, Computing a) \<Longrightarrow> dd_step s (Ends k r) (dd_set c k (Computed a r) s)"
| Store: "dd_calls s c = Some (k, Computed a r) \<Longrightarrow> dd_entries s a = Some e \<Longrightarrow> dd_step s Silent (dd_store c k a e r s)"
| Drop: "dd_calls s c = Some (k, pc) \<Longrightarrow> at_wait pc \<Longrightarrow> dd_step s Silent (dd_set c k Dropped s)"
| Clean: "dd_cleaners s d = None \<Longrightarrow> dd_step s Silent (set_cleaner d (Collecting []) s)"
| Collect: "dd_cleaners s d = Some (Collecting hs) \<Longrightarrow> dd_in_flight s h = Some a \<Longrightarrow> dd_entries s a = Some e \<Longrightarrow>
    de_completed e \<Longrightarrow> dd_step s Silent (set_cleaner d (Collecting (hs @ [h])) s)"
| Collected: "dd_cleaners s d = Some (Collecting hs) \<Longrightarrow> dd_step s Silent (set_cleaner d (Removing hs) s)"
| Remove: "dd_cleaners s d = Some (Removing (h # hs)) \<Longrightarrow> dd_step s Silent (dd_remove d h hs s)"

inductive_cases dd_stepE: "dd_step s e s'"

lemmas dd_defs = dd_start_def dd_join_def dd_poll_def dd_insert_def dd_store_def dd_set_def set_cleaner_def
  dd_remove_def Let_def

section \<open>The invariant\<close>

text \<open>The entry a call works on.\<close>

fun entry_of :: "dd_pc \<Rightarrow> nat option" where
  "entry_of (Joining a) = Some a"
| "entry_of (Polling a) = Some a"
| "entry_of (Computing a) = Some a"
| "entry_of (Computed a r) = Some a"
| "entry_of _ = None"

definition computed :: "dd_event list \<Rightarrow> u64 \<Rightarrow> string \<Rightarrow> bool" where
  "computed es h r \<longleftrightarrow> (\<exists>k. hash_request k = h \<and> Ends k r \<in> set es)"

lemma computed_mono: "computed es h r \<Longrightarrow> computed (es @ es') h r"
  by (auto simp: computed_def)

definition entry_ok :: "dd_event list \<Rightarrow> DedupeEntry \<Rightarrow> bool" where
  "entry_ok es e \<longleftrightarrow> (case de_result e of None \<Rightarrow> \<not> de_completed e | Some r \<Rightarrow> de_completed e \<and> computed es (de_hash e) r)"

lemma entry_ok_waiters [simp]: "entry_ok es (e\<lparr>de_waiters := w\<rparr>) = entry_ok es e"
  by (simp add: entry_ok_def split: option.split)

fun call_ok :: "dd_event list \<Rightarrow> string \<Rightarrow> dd_pc \<Rightarrow> bool" where
  "call_ok es k (Computed a r) \<longleftrightarrow> Ends k r \<in> set es"
| "call_ok es k (Answered r) \<longleftrightarrow> computed es (hash_request k) r"
| "call_ok es k _ \<longleftrightarrow> True"

definition has_entry :: "RequestDeduplicator \<Rightarrow> u64 \<Rightarrow> nat \<Rightarrow> bool" where
  "has_entry s h a \<longleftrightarrow> (\<exists>e. dd_entries s a = Some e \<and> de_hash e = h)"

definition dd_ok :: "dd_event list \<Rightarrow> RequestDeduplicator \<Rightarrow> bool" where
  "dd_ok es s \<longleftrightarrow>
     (\<forall>h a. dd_in_flight s h = Some a \<longrightarrow> has_entry s h a)
   \<and> (\<forall>a e. dd_entries s a = Some e \<longrightarrow> a < dd_next s \<and> entry_ok es e)
   \<and> (\<forall>c k pc. dd_calls s c = Some (k, pc) \<longrightarrow> call_ok es k pc \<and> (\<forall>a. entry_of pc = Some a \<longrightarrow> has_entry s (hash_request k) a))"

lemma dd_okD:
  assumes "dd_ok es s"
  shows "dd_in_flight s h = Some a \<Longrightarrow> has_entry s h a"
    "dd_entries s a = Some e \<Longrightarrow> a < dd_next s" "dd_entries s a = Some e \<Longrightarrow> entry_ok es e"
    "dd_calls s c = Some (k, pc) \<Longrightarrow> call_ok es k pc"
    "dd_calls s c = Some (k, pc) \<Longrightarrow> entry_of pc = Some a \<Longrightarrow> has_entry s (hash_request k) a"
  using assms unfolding dd_ok_def by blast+

lemma entry_ok_mono: "entry_ok es e \<Longrightarrow> entry_ok (es @ es') e"
  by (auto simp: entry_ok_def computed_mono split: option.splits)

lemma call_ok_mono: "call_ok es k pc \<Longrightarrow> call_ok (es @ es') k pc"
  by (cases pc) (auto simp: computed_mono)

text \<open>
  A step that changes at most one call, keeps the entries up to their results, and adds to the map only entries
  of the right hash, keeps the invariant.
\<close>

lemma dd_ok_frame:
  assumes ok: "dd_ok es s"
    and flight: "\<And>h a. dd_in_flight s' h = Some a \<Longrightarrow> dd_in_flight s h = Some a \<or> has_entry s' h a"
    and kept: "\<And>h a. has_entry s h a \<Longrightarrow> has_entry s' h a"
    and entries: "\<And>a e. dd_entries s' a = Some e \<Longrightarrow> dd_entries s a = Some e \<or> a < dd_next s' \<and> entry_ok (es @ [ev]) e"
    and nx: "dd_next s \<le> dd_next s'"
    and calls: "\<And>c k pc. dd_calls s' c = Some (k, pc) \<Longrightarrow> dd_calls s c = Some (k, pc)
      \<or> call_ok (es @ [ev]) k pc \<and> (\<forall>a. entry_of pc = Some a \<longrightarrow> has_entry s' (hash_request k) a)"
  shows "dd_ok (es @ [ev]) s'"
  unfolding dd_ok_def
proof (intro conjI allI impI)
  fix h a assume "dd_in_flight s' h = Some a"
  then show "has_entry s' h a" using flight kept dd_okD(1) [OF ok] by blast
next
  fix a e assume "dd_entries s' a = Some e"
  then show "a < dd_next s'" "entry_ok (es @ [ev]) e"
    using entries [of a e] dd_okD(2,3) [OF ok, of a e] entry_ok_mono nx by (blast intro: less_le_trans)+
next
  fix c k pc assume c: "dd_calls s' c = Some (k, pc)"
  then show "call_ok (es @ [ev]) k pc" using calls dd_okD(4) [OF ok] call_ok_mono by blast
  fix a assume "entry_of pc = Some a"
  then show "has_entry s' (hash_request k) a" using c calls kept dd_okD(5) [OF ok] by blast
qed

lemma has_entry_update:
  "dd_entries s a = Some e \<Longrightarrow> de_hash e' = de_hash e \<Longrightarrow>
   has_entry (s\<lparr>dd_entries := (dd_entries s)(a \<mapsto> e')\<rparr>) h b \<longleftrightarrow> has_entry s h b"
  by (auto simp: has_entry_def)

lemma dd_ok_step:
  assumes "dd_step s ev s'" "dd_ok es s"
  shows "dd_ok (es @ [ev]) s'"
  using assms(1)
proof cases
  case (Start c k now)
  then show ?thesis using dd_okD(1) [OF assms(2)]
    by (intro dd_ok_frame [OF assms(2)]) (auto simp: dd_defs has_entry_def split: option.splits if_splits)
next
  case (Join c k a e)
  then show ?thesis using dd_okD(2,3) [OF assms(2), of a e] dd_okD(5) [OF assms(2) Join(3)] entry_ok_mono [of es e "[Silent]"]
    by (intro dd_ok_frame [OF assms(2)]) (auto simp: dd_defs has_entry_def split: if_splits)
next
  case (Poll c k a e)
  have "computed es (hash_request k) r" if "de_completed e" "de_result e = Some r" for r
    using dd_okD(3) [OF assms(2) Poll(4)] dd_okD(5) [OF assms(2) Poll(3)] Poll(4) that by (auto simp: entry_ok_def has_entry_def)
  moreover have "de_result e \<noteq> None" if "de_completed e"
    using dd_okD(3) [OF assms(2) Poll(4)] that by (auto simp: entry_ok_def split: option.splits)
  ultimately show ?thesis using Poll
    by (intro dd_ok_frame [OF assms(2)]) (auto simp: dd_defs has_entry_def computed_mono split: if_splits option.splits)
next
  case (Insert c k now)
  have n: "dd_entries s (dd_next s) = None" using dd_okD(2) [OF assms(2), of "dd_next s"] by (cases "dd_entries s (dd_next s)") auto
  show ?thesis
  proof (rule dd_ok_frame [OF assms(2)])
    fix h a assume "has_entry s h a"
    then show "has_entry s' h a" using Insert n by (auto simp: dd_defs has_entry_def)
  qed (use Insert in \<open>auto simp: dd_defs has_entry_def entry_ok_def split: if_splits\<close>)
next
  case (Compute c k a r)
  then show ?thesis using dd_okD(5) [OF assms(2) Compute(3)]
    by (intro dd_ok_frame [OF assms(2)]) (auto simp: dd_defs has_entry_def split: if_splits)
next
  case (Store c k a r e)
  have "Ends k r \<in> set es" using dd_okD(4) [OF assms(2) Store(3)] by simp
  moreover have "de_hash e = hash_request k" using dd_okD(5) [OF assms(2) Store(3)] Store(4) by (simp add: has_entry_def)
  ultimately have "computed (es @ [ev]) (de_hash e) r" by (auto simp: computed_def)
  then show ?thesis using Store dd_okD(2) [OF assms(2), of a e] \<open>de_hash e = hash_request k\<close>
    by (intro dd_ok_frame [OF assms(2)]) (auto simp: dd_defs has_entry_def entry_ok_def split: if_splits)
next
  case (Drop c k pc)
  then show ?thesis by (intro dd_ok_frame [OF assms(2)]) (auto simp: dd_defs has_entry_def split: if_splits)
next
  case (Clean d)
  then show ?thesis by (intro dd_ok_frame [OF assms(2)]) (auto simp: dd_defs has_entry_def)
next
  case (Collect d hs h a e)
  then show ?thesis by (intro dd_ok_frame [OF assms(2)]) (auto simp: dd_defs has_entry_def)
next
  case (Collected d hs)
  then show ?thesis by (intro dd_ok_frame [OF assms(2)]) (auto simp: dd_defs has_entry_def)
next
  case (Remove d h hs)
  then show ?thesis by (intro dd_ok_frame [OF assms(2)]) (auto simp: dd_defs has_entry_def split: if_splits)
qed

lemma dd_ok_new: "dd_ok [] dd_new"
  by (simp add: dd_ok_def dd_new_def)

lemma dd_ok_trace: "trace dd_step dd_new es s \<Longrightarrow> dd_ok es s"
  by (rule trace_invariant [where I = dd_ok, OF _ dd_ok_new dd_ok_step])

section \<open>Who computes\<close>

text \<open>The entry a call computes for; no other call computes for it, and it has no result yet.\<close>

fun computes :: "dd_pc \<Rightarrow> nat option" where
  "computes (Computing a) = Some a"
| "computes (Computed a r) = Some a"
| "computes _ = None"

definition owned :: "RequestDeduplicator \<Rightarrow> bool" where
  "owned s \<longleftrightarrow> (\<forall>c k pc a. dd_calls s c = Some (k, pc) \<longrightarrow> computes pc = Some a \<longrightarrow>
     (\<forall>e. dd_entries s a = Some e \<longrightarrow> \<not> de_completed e)
     \<and> (\<forall>c' k' pc'. dd_calls s c' = Some (k', pc') \<longrightarrow> computes pc' = Some a \<longrightarrow> c' = c))"

lemma ownedD:
  assumes "owned s" "dd_calls s c = Some (k, pc)" "computes pc = Some a"
  shows "dd_entries s a = Some e \<Longrightarrow> \<not> de_completed e"
    "dd_calls s c' = Some (k', pc') \<Longrightarrow> computes pc' = Some a \<Longrightarrow> c' = c"
  using assms unfolding owned_def by blast+

lemma computes_entry: "computes pc = Some a \<Longrightarrow> entry_of pc = Some a"
  by (cases pc) auto

lemma owned_frame:
  assumes ok: "owned s"
    and calls: "\<And>c k pc a. dd_calls s' c = Some (k, pc) \<Longrightarrow> computes pc = Some a \<Longrightarrow>
      \<exists>pc0. dd_calls s c = Some (k, pc0) \<and> computes pc0 = Some a"
    and entries: "\<And>c k pc a e'. dd_calls s' c = Some (k, pc) \<Longrightarrow> computes pc = Some a \<Longrightarrow> dd_entries s' a = Some e' \<Longrightarrow>
      \<exists>e. dd_entries s a = Some e \<and> de_completed e = de_completed e'"
  shows "owned s'"
  unfolding owned_def
proof (intro allI impI conjI)
  fix c k pc a assume c: "dd_calls s' c = Some (k, pc)" "computes pc = Some a"
  obtain pc0 where c0: "dd_calls s c = Some (k, pc0)" "computes pc0 = Some a" using calls [OF c] by blast
  fix e' assume "dd_entries s' a = Some e'"
  then show "\<not> de_completed e'" using entries [OF c] ownedD(1) [OF ok c0] by metis
next
  fix c k pc a c' k' pc'
  assume c: "dd_calls s' c = Some (k, pc)" "computes pc = Some a" and c': "dd_calls s' c' = Some (k', pc')" "computes pc' = Some a"
  then show "c' = c" using calls [OF c] calls [OF c'] ownedD(2) [OF ok] by blast
qed

lemma owned_step:
  assumes "dd_step s ev s'" "dd_ok es s" "owned s"
  shows "owned s'"
  using assms(1)
proof cases
  case (Insert c k now)
  have n: "computes pc \<noteq> Some (dd_next s)" if "dd_calls s d = Some (k', pc)" for d k' pc
    using dd_okD(5) [OF assms(2) that computes_entry] dd_okD(2) [OF assms(2)] by (fastforce simp: has_entry_def)
  show ?thesis unfolding owned_def
  proof (intro allI impI)
    fix c1 k1 pc1 a assume c1: "dd_calls s' c1 = Some (k1, pc1)" "computes pc1 = Some a"
    show "(\<forall>e. dd_entries s' a = Some e \<longrightarrow> \<not> de_completed e)
      \<and> (\<forall>c' k' pc'. dd_calls s' c' = Some (k', pc') \<longrightarrow> computes pc' = Some a \<longrightarrow> c' = c1)"
    proof (cases "c1 = c")
      case True
      then show ?thesis using c1 Insert n by (auto simp: dd_defs split: if_splits)
    next
      case False
      then have o: "dd_calls s c1 = Some (k1, pc1)" using c1 Insert by (simp add: dd_defs)
      then have "a \<noteq> dd_next s" using n c1 by blast
      then show ?thesis using ownedD [OF assms(3) o c1(2)] Insert by (auto simp: dd_defs split: if_splits)
    qed
  qed
next
  case (Store c k a r e)
  show ?thesis
  proof (rule owned_frame [OF assms(3)])
    fix c1 k1 pc1 b e' assume c1: "dd_calls s' c1 = Some (k1, pc1)" "computes pc1 = Some b" "dd_entries s' b = Some e'"
    then have o: "c1 \<noteq> c" "dd_calls s c1 = Some (k1, pc1)" using Store by (auto simp: dd_defs split: if_splits)
    then have "b \<noteq> a" using ownedD(2) [OF assms(3) Store(3), of a c1 k1 pc1] c1 by auto
    then show "\<exists>e. dd_entries s b = Some e \<and> de_completed e = de_completed e'" using c1 Store by (auto simp: dd_defs)
  qed (use Store in \<open>auto simp: dd_defs split: if_splits\<close>)
next
  case (Start c k now)
  then show ?thesis by (intro owned_frame [OF assms(3)]) (auto simp: dd_defs split: if_splits option.splits)
next
  case (Join c k a e)
  then show ?thesis by (intro owned_frame [OF assms(3)]) (auto simp: dd_defs split: if_splits)
next
  case (Poll c k a e)
  then show ?thesis by (intro owned_frame [OF assms(3)]) (auto simp: dd_defs split: if_splits)
next
  case (Compute c k a r)
  then show ?thesis by (intro owned_frame [OF assms(3)]) (auto simp: dd_defs split: if_splits)
next
  case (Drop c k pc)
  then show ?thesis by (intro owned_frame [OF assms(3)]) (auto simp: dd_defs split: if_splits)
qed (intro owned_frame [OF assms(3)]; simp add: dd_defs)+

lemma owned_new: "owned dd_new"
  by (simp add: owned_def dd_new_def)

lemma owned_trace: "trace dd_step dd_new es s \<Longrightarrow> owned s"
  using trace_invariant [where I = "\<lambda>es s. dd_ok es s \<and> owned s" and step = dd_step and s = dd_new]
    dd_ok_new owned_new dd_ok_step owned_step by blast

text \<open>Every answer is the outcome of a computation for a key with the same hash.\<close>

theorem answers_were_computed:
  assumes "trace dd_step dd_new es s" and "dd_calls s c = Some (k, Answered r)"
  shows "\<exists>k'. hash_request k' = hash_request k \<and> Ends k' r \<in> set es"
  using dd_okD(4) [OF dd_ok_trace [OF assms(1)] assms(2)] by (simp add: computed_def)

section \<open>Calls whose originator is gone\<close>

definition orphaned :: "nat \<Rightarrow> RequestDeduplicator \<Rightarrow> bool" where
  "orphaned a s \<longleftrightarrow> (\<exists>e. dd_entries s a = Some e \<and> \<not> de_completed e) \<and> a < dd_next s
     \<and> (\<forall>c k pc. dd_calls s c = Some (k, pc) \<longrightarrow> computes pc \<noteq> Some a)"

definition stranded :: "nat \<Rightarrow> string \<Rightarrow> nat \<Rightarrow> RequestDeduplicator \<Rightarrow> bool" where
  "stranded a k c s \<longleftrightarrow> dd_calls s c \<in> {Some (k, Joining a), Some (k, Polling a), Some (k, Dropped)}"

lemma orphaned_computes:
  assumes "orphaned a s"
  shows "dd_calls s c \<noteq> Some (k, Computing a)" "dd_calls s c \<noteq> Some (k, Computed a r)"
  using assms by (force simp: orphaned_def)+

lemma orphaned_step:
  assumes "dd_step s ev s'" "orphaned a s"
  shows "orphaned a s'"
  using assms(1) orphaned_computes [OF assms(2)] assms(2)
  by cases (auto simp: orphaned_def dd_defs less_Suc_eq split: option.splits if_splits)

lemma dropped_stranded_step:
  assumes "dd_step s ev s'" "orphaned a s" "stranded a k c s"
  shows "stranded a k c s'"
  using assms by cases (auto simp: orphaned_def stranded_def dd_defs split: option.splits if_splits)

lemma stranded_trace:
  assumes "trace dd_step s es s'" "orphaned a s"
  shows "orphaned a s' \<and> (stranded a k c s \<longrightarrow> stranded a k c s')"
  using assms by (induction rule: trace.induct) (auto intro: orphaned_step dropped_stranded_step)

lemma drop_orphans:
  assumes "trace dd_step dd_new es s" "dd_calls s c = Some (k, Computing a)"
  shows "orphaned a (dd_set c k Dropped s)"
proof -
  have ok: "dd_ok es s" "owned s" using dd_ok_trace owned_trace assms(1) by blast+
  obtain e where "dd_entries s a = Some e" using dd_okD(5) [OF ok(1) assms(2)] by (auto simp: has_entry_def)
  then show ?thesis using ownedD [OF ok(2) assms(2)] dd_okD(2) [OF ok(1)] by (auto simp: orphaned_def dd_set_def)
qed

text \<open>
  When a call is dropped while it computes, no call that joined its entry ever returns, in any execution, and while
  the map holds the entry every new call of the key joins it as well.
\<close>

theorem dropped_originator_strands_calls:
  assumes "trace dd_step dd_new es s" "dd_calls s c = Some (k, Computing a)"
    and "trace dd_step (dd_set c k Dropped s) es' s'"
  shows "(\<forall>w k'. w \<noteq> c \<longrightarrow> dd_calls s w = Some (k', Polling a) \<longrightarrow> dd_calls s' w \<in> {Some (k', Polling a), Some (k', Joining a), Some (k', Dropped)})
    \<and> (dd_in_flight s' (hash_request k) = Some a \<longrightarrow>
         (\<forall>d now es'' s''. trace dd_step (dd_start d k now s') es'' s'' \<longrightarrow>
            dd_calls s'' d \<in> {Some (k, Polling a), Some (k, Joining a), Some (k, Dropped)}))"
proof (intro conjI allI impI)
  note o = drop_orphans [OF assms(1,2)]
  fix w k' assume w: "w \<noteq> c" "dd_calls s w = Some (k', Polling a)"
  then have "stranded a k' w (dd_set c k Dropped s)" by (simp add: stranded_def dd_set_def)
  then show "dd_calls s' w \<in> {Some (k', Polling a), Some (k', Joining a), Some (k', Dropped)}"
    using stranded_trace [OF assms(3) o] by (auto simp: stranded_def)
next
  note o = drop_orphans [OF assms(1,2)]
  fix d now es'' s''
  assume h: "dd_in_flight s' (hash_request k) = Some a" and t: "trace dd_step (dd_start d k now s') es'' s''"
  have "orphaned a s'" using stranded_trace [OF assms(3) o] by blast
  then have "orphaned a (dd_start d k now s')" "stranded a k d (dd_start d k now s')"
    using h by (auto simp: orphaned_def stranded_def dd_defs)
  then show "dd_calls s'' d \<in> {Some (k, Polling a), Some (k, Joining a), Some (k, Dropped)}"
    using stranded_trace [OF t] by (auto simp: stranded_def)
qed

definition joined_run :: RequestDeduplicator where
  "joined_run = dd_join 1 ''k'' 0
     \<lparr>de_hash = hash_request ''k'', de_result = None, de_waiters = 1, created_at_ms = 0, de_completed = False\<rparr>
     (dd_start 1 ''k'' 0 (dd_insert 0 ''k'' 0 (dd_start 0 ''k'' 0 dd_new)))"

lemma joined_run_reachable: "trace dd_step dd_new [Silent, Silent, Silent, Silent] joined_run"
proof -
  note d = dd_defs dd_new_def
  let ?s1 = "dd_start 0 ''k'' 0 dd_new" let ?s2 = "dd_insert 0 ''k'' 0 ?s1" let ?s3 = "dd_start 1 ''k'' 0 ?s2"
  have "dd_step dd_new Silent ?s1" by (rule Start) (simp add: d)
  moreover have "dd_step ?s1 Silent ?s2" by (rule Insert) (simp add: d)
  moreover have "dd_step ?s2 Silent ?s3" by (rule Start) (simp add: d)
  moreover have "dd_step ?s3 Silent joined_run" unfolding joined_run_def by (rule Join) (simp_all add: d)
  ultimately show ?thesis by (intro trace_Cons) simp_all
qed

lemma dropped_originator_strands_calls_witness:
  "dd_calls joined_run 0 = Some (''k'', Computing 0) \<and> dd_calls (dd_set 0 ''k'' Dropped joined_run) 1 \<noteq> Some (''k'', Answered ''r'')"
proof -
  have c: "dd_calls joined_run 0 = Some (''k'', Computing 0)" "dd_calls joined_run 1 = Some (''k'', Polling 0)"
    by (simp_all add: joined_run_def dd_defs dd_new_def)
  show ?thesis
    using dropped_originator_strands_calls [OF joined_run_reachable c(1), of "[]"] c by fastforce
qed

section \<open>Answers after the computation\<close>

text \<open>
  A computation that has ended keeps answering: as long as no cleanup removes the entry, a call that arrives when
  nothing is being computed gets the old result, and nothing is computed for it.
\<close>

theorem completed_entry_answers_later_calls:
  assumes "trace dd_step dd_new es s" "dd_in_flight s (hash_request k) = Some a" "dd_entries s a = Some e"
    and "de_completed e" "dd_calls s c = None"
  shows "\<exists>r s'. de_result e = Some r \<and> trace dd_step s [Silent, Silent, Silent] s' \<and> dd_calls s' c = Some (k, Answered r)"
proof -
  obtain r where r: "de_result e = Some r"
    using dd_okD(3) [OF dd_ok_trace [OF assms(1)] assms(3)] assms(4) by (auto simp: entry_ok_def split: option.splits)
  let ?s1 = "dd_start c k 0 s" and ?e = "e\<lparr>de_waiters := de_waiters e + 1\<rparr>"
  let ?s2 = "dd_join c k a e ?s1" let ?s3 = "dd_poll c k ?e ?s2"
  have s1: "dd_calls ?s1 c = Some (k, Joining a)" "dd_entries ?s1 a = Some e" using assms by (simp_all add: dd_defs)
  have s2: "dd_calls ?s2 c = Some (k, Polling a)" "dd_entries ?s2 a = Some ?e" by (simp_all add: dd_defs)
  have "dd_step s Silent ?s1" by (rule Start [OF assms(5)])
  moreover have "dd_step ?s1 Silent ?s2" by (rule Join [OF s1])
  moreover have "dd_step ?s2 Silent ?s3" by (rule Poll [OF s2])
  ultimately have "trace dd_step s [Silent, Silent, Silent] ?s3" by (intro trace_Cons) simp_all
  moreover have "dd_calls ?s3 c = Some (k, Answered r)" using assms(4) r by (simp add: dd_poll_def dd_set_def)
  ultimately show ?thesis using r by blast
qed

text \<open>
  Two calls that arrive together can both find the map empty; then both compute, and each returns its own result.
\<close>

theorem simultaneous_calls_both_compute:
  "\<exists>es s. trace dd_step dd_new es s \<and> Ends k r \<in> set es \<and> Ends k r' \<in> set es
     \<and> dd_calls s 0 = Some (k, Answered r) \<and> dd_calls s 1 = Some (k, Answered r')"
proof -
  let ?h = "hash_request k"
  let ?e = "\<lparr>de_hash = ?h, de_result = None, de_waiters = 1, created_at_ms = 0, de_completed = False\<rparr>"
  let ?s1 = "dd_start 0 k 0 dd_new" let ?s2 = "dd_start 1 k 0 ?s1"
  let ?s3 = "dd_insert 0 k 0 ?s2" let ?s4 = "dd_insert 1 k 0 ?s3"
  let ?s5 = "dd_set 0 k (Computed 0 r) ?s4" let ?s6 = "dd_set 1 k (Computed 1 r') ?s5"
  let ?s7 = "dd_store 0 k 0 ?e r ?s6" let ?s8 = "dd_store 1 k 1 ?e r' ?s7"
  note d = dd_defs dd_new_def
  have "dd_step dd_new Silent ?s1" by (rule Start) (simp add: d)
  moreover have "dd_step ?s1 Silent ?s2" by (rule Start) (simp add: d)
  moreover have "dd_step ?s2 Silent ?s3" by (rule Insert) (simp add: d)
  moreover have "dd_step ?s3 Silent ?s4" by (rule Insert) (simp add: d)
  moreover have "dd_step ?s4 (Ends k r) ?s5" by (rule Compute) (simp add: d)
  moreover have "dd_step ?s5 (Ends k r') ?s6" by (rule Compute) (simp add: d)
  moreover have "dd_step ?s6 Silent ?s7" by (rule Store) (simp_all add: d)
  moreover have "dd_step ?s7 Silent ?s8" by (rule Store) (simp_all add: d)
  ultimately have "trace dd_step dd_new [Silent, Silent, Silent, Silent, Ends k r, Ends k r', Silent, Silent] ?s8"
    by (intro trace_Cons) simp_all
  moreover have "dd_calls ?s8 0 = Some (k, Answered r)" "dd_calls ?s8 1 = Some (k, Answered r')" by (simp_all add: d)
  ultimately show ?thesis by (intro exI [of _ ?s8] exI conjI) auto
qed

definition answered_run :: RequestDeduplicator where
  "answered_run = dd_store 0 ''k'' 0
     \<lparr>de_hash = hash_request ''k'', de_result = None, de_waiters = 1, created_at_ms = 0, de_completed = False\<rparr> ''r''
     (dd_set 0 ''k'' (Computed 0 ''r'') (dd_insert 0 ''k'' 0 (dd_start 0 ''k'' 0 dd_new)))"

lemma answered_run_reachable: "trace dd_step dd_new [Silent, Silent, Ends ''k'' ''r'', Silent] answered_run"
proof -
  note d = dd_defs dd_new_def
  let ?s1 = "dd_start 0 ''k'' 0 dd_new" let ?s2 = "dd_insert 0 ''k'' 0 ?s1" let ?s3 = "dd_set 0 ''k'' (Computed 0 ''r'') ?s2"
  have "dd_step dd_new Silent ?s1" by (rule Start) (simp add: d)
  moreover have "dd_step ?s1 Silent ?s2" by (rule Insert) (simp add: d)
  moreover have "dd_step ?s2 (Ends ''k'' ''r'') ?s3" by (rule Compute) (simp add: d)
  moreover have "dd_step ?s3 Silent answered_run" unfolding answered_run_def by (rule Store) (simp_all add: d)
  ultimately show ?thesis by (intro trace_Cons) simp_all
qed

lemma answered_run_state:
  "dd_calls answered_run 0 = Some (''k'', Answered ''r'')" "dd_calls answered_run 1 = None"
  "dd_in_flight answered_run (hash_request ''k'') = Some 0"
  "dd_entries answered_run 0 = Some \<lparr>de_hash = hash_request ''k'', de_result = Some ''r'', de_waiters = 1, created_at_ms = 0, de_completed = True\<rparr>"
  by (simp_all add: answered_run_def dd_defs dd_new_def)

lemma answers_were_computed_witness:
  "\<exists>k'. hash_request k' = hash_request ''k'' \<and> Ends k' ''r'' \<in> {Silent, Ends ''k'' ''r''}"
  using answers_were_computed [OF answered_run_reachable answered_run_state(1)] by auto

lemma completed_entry_answers_later_calls_witness:
  "\<exists>s'. trace dd_step answered_run [Silent, Silent, Silent] s' \<and> dd_calls s' 1 = Some (''k'', Answered ''r'')"
  using completed_entry_answers_later_calls [OF answered_run_reachable answered_run_state(3,4) _ answered_run_state(2)] by auto

end
