(* ===== verification/Retries.thy ===== *)
theory Retries
  imports Floats
begin

text \<open>
  Two more ways to retry: the retry manager with exponential back-off and statistics (\<open>src/retry.rs\<close>), and the
  middleware that decides per route whether and when a request is retried (\<open>src/retry_middleware.rs\<close>). The job
  is a function of the number of failed attempts before it, since the manager never asks twice after the same
  number. A \<open>Duration\<close> is a number of nanoseconds; what the manager sleeps is part of its result.
\<close>

unbundle bit_operations_syntax

section \<open>The manager\<close>

record RetryPolicy =
  max_attempts :: u32
  initial_backoff :: nat
  max_backoff :: nat
  backoff_multiplier :: f64
  jitter :: bool

definition RetryPolicy_default :: RetryPolicy where
  "RetryPolicy_default = \<lparr>max_attempts = 3, initial_backoff = 100 * 10 ^ 6, max_backoff = 30 * 10 ^ 9,
     backoff_multiplier = FFin 2, jitter = True\<rparr>"

record RetryState =
  rs_attempts :: u32
  next_backoff :: nat
  last_error :: "string option"

definition retry_initial :: "RetryPolicy \<Rightarrow> RetryState" where
  "retry_initial p = \<lparr>rs_attempts = 0, next_backoff = initial_backoff p, last_error = None\<rparr>"

definition lcg_next :: "u64 \<Rightarrow> u64" where
  "lcg_next x = x * 6364136223846793005 + 1442695040888963407"

definition next_f64_range :: "f64 \<Rightarrow> f64 \<Rightarrow> u64 \<Rightarrow> f64 \<times> u64" where
  "next_f64_range lo hi x =
    (let x = lcg_next x;
         raw = f64_div (f64_of_u64 (drop_bit 11 x)) (f64_of_u64 (drop_bit 11 (- 1)))
     in (f64_add lo (f64_mul raw (f64_sub hi lo)), x))"

definition as_millis :: "nat \<Rightarrow> nat" where
  "as_millis d = d div 10 ^ 6"

definition retry_advance :: "RetryPolicy \<Rightarrow> string \<Rightarrow> u64 \<Rightarrow> RetryState \<Rightarrow> RetryState \<times> u64" where
  "retry_advance p err lcg s =
    (let raw_ms = f64_min (f64_mul (f64_of_nat (as_millis (next_backoff s))) (backoff_multiplier p))
                    (f64_of_nat (as_millis (max_backoff p)));
         (jittered_ms, lcg) =
           (if jitter p then (case next_f64_range (FFin (1 / 2)) (FFin (3 / 2)) lcg of (j, lcg) \<Rightarrow> (f64_round (f64_mul raw_ms j), lcg))
            else (f64_ceil raw_ms, lcg));
         final_ms = min (f64_to_u64 jittered_ms) (of_nat (as_millis (max_backoff p)))
     in (\<lparr>rs_attempts = rs_attempts s + 1, next_backoff = unat final_ms * 10 ^ 6, last_error = Some err\<rparr>, lcg))"

datatype RetryError = MaxAttemptsExceeded u32 string | NonRetryable

fun RetryError_to_string :: "RetryError \<Rightarrow> string" where
  "RetryError_to_string (MaxAttemptsExceeded n e) = ''all '' @ nat_to_string (unat n) @ '' retry attempts failed: '' @ e"
| "RetryError_to_string NonRetryable = ''non-retryable error''"

record RetryStats =
  total_attempts :: u64
  total_successes :: u64
  total_failures :: u64
  avg_attempts_per_job :: f64

record RetryManager =
  rm_stats :: RetryStats
  lcg_seed :: u64

definition retry_manager_new :: RetryManager where
  "retry_manager_new = \<lparr>rm_stats = \<lparr>total_attempts = 0, total_successes = 0, total_failures = 0, avg_attempts_per_job = FFin 0\<rparr>,
     lcg_seed = 0\<rparr>"

definition with_average :: "RetryStats \<Rightarrow> RetryStats" where
  "with_average st =
    (let total_jobs = total_successes st + total_failures st
     in st\<lparr>avg_attempts_per_job := f64_div (f64_of_u64 (total_attempts st)) (f64_of_u64 total_jobs)\<rparr>)"

definition count_success :: "RetryState \<Rightarrow> RetryStats \<Rightarrow> RetryStats" where
  "count_success s st =
    with_average (st\<lparr>total_attempts := total_attempts st + (ucast (rs_attempts s) + 1), total_successes := total_successes st + 1\<rparr>)"

definition count_failure :: "RetryState \<Rightarrow> RetryStats \<Rightarrow> RetryStats" where
  "count_failure s st =
    with_average (st\<lparr>total_attempts := total_attempts st + ucast (rs_attempts s), total_failures := total_failures st + 1\<rparr>)"

lemma retry_advance_attempts [simp]:
  "rs_attempts (fst (retry_advance p e g s)) = rs_attempts s + 1" "last_error (fst (retry_advance p e g s)) = Some e"
  by (simp_all add: retry_advance_def Let_def split: prod.split)

text \<open>The loop, with the delays slept in order.\<close>

function retry_loop ::
  "(nat \<Rightarrow> string + string) \<Rightarrow> RetryPolicy \<Rightarrow> RetryState \<Rightarrow> u64 \<Rightarrow> RetryStats \<Rightarrow> nat list \<Rightarrow> (RetryError + string) \<times> RetryStats \<times> nat list"
where
  "retry_loop f p s lcg st slept =
    (case f (unat (rs_attempts s)) of
       Inr v \<Rightarrow> (Inr v, count_success s st, slept)
     | Inl err \<Rightarrow>
         if max_attempts p \<le> rs_attempts s + 1 then
           (let s = fst (retry_advance p err lcg s)
            in (Inl (MaxAttemptsExceeded (rs_attempts s) (case last_error s of Some e \<Rightarrow> e | None \<Rightarrow> '''')), count_failure s st, slept))
         else (case retry_advance p err lcg s of
                 (s, lcg) \<Rightarrow> retry_loop f p s lcg st (slept @ [next_backoff s])))"
  by pat_completeness auto

termination
proof (relation "measure (\<lambda>(f, p, s, lcg, st, slept). unat (max_attempts p - rs_attempts s - 1))", goal_cases)
  case (2 f p s lcg st slept err s' lcg')
  let ?d = "max_attempts p - rs_attempts s - 1"
  have s': "rs_attempts s' = rs_attempts s + 1" using retry_advance_attempts(1) [of p err lcg s] by (simp add: 2(3) [symmetric])
  have "?d \<noteq> 0" using 2(2) by (auto simp: diff_diff_eq)
  then have "unat (?d - 1) < unat ?d" by (rule measure_unat)
  then show ?case by (simp add: s' diff_diff_eq add.commute)
qed simp

declare retry_loop.simps [simp del]

definition job_seed :: "string \<Rightarrow> u64" where
  "job_seed job = fold (\<lambda>c acc. acc * 31 + of_nat (of_char c)) job 0"

definition run_job ::
  "string \<Rightarrow> RetryPolicy \<Rightarrow> (nat \<Rightarrow> string + string) \<Rightarrow> RetryManager \<Rightarrow> (RetryError + string) \<times> RetryManager \<times> nat list" where
  "run_job job p f m =
    (case retry_loop f p (retry_initial p) (lcg_seed m + job_seed job) (rm_stats m) [] of
       (r, st, slept) \<Rightarrow> (r, \<lparr>rm_stats = st, lcg_seed = lcg_seed m + 1\<rparr>, slept))"

definition execute_job :: "string \<Rightarrow> RetryPolicy \<Rightarrow> (nat \<Rightarrow> string + string) \<Rightarrow> RetryError + string" where
  "execute_job job p f = fst (run_job job p f retry_manager_new)"

section \<open>What a run returns\<close>

text \<open>The attempts a policy allows, the first that succeeds, the outcome and the number of attempts made.\<close>

definition allowed :: "RetryPolicy \<Rightarrow> nat" where
  "allowed p = max 1 (unat (max_attempts p))"

definition first_success :: "(nat \<Rightarrow> string + string) \<Rightarrow> nat list \<Rightarrow> nat option" where
  "first_success f ns = find (\<lambda>i. \<not> isl (f i)) ns"

definition outcome_of :: "(nat \<Rightarrow> string + string) \<Rightarrow> nat \<Rightarrow> nat option \<Rightarrow> RetryError + string" where
  "outcome_of f n i = (case i of Some i \<Rightarrow> Inr (projr (f i)) | None \<Rightarrow> Inl (MaxAttemptsExceeded (of_nat n) (projl (f (n - 1)))))"

definition stats_after :: "nat \<Rightarrow> nat option \<Rightarrow> RetryStats \<Rightarrow> RetryStats" where
  "stats_after n i st =
    (case i of
       Some i \<Rightarrow> with_average (st\<lparr>total_attempts := total_attempts st + of_nat (i + 1), total_successes := total_successes st + 1\<rparr>)
     | None \<Rightarrow> with_average (st\<lparr>total_attempts := total_attempts st + of_nat n, total_failures := total_failures st + 1\<rparr>))"

lemma allowed_bounds: "0 < allowed p" "allowed p < 2 ^ 32"
  using unsigned_less [of "max_attempts p", where ?'a = nat] by (simp_all add: allowed_def)

lemma retry_loop_spec:
  assumes "unat (rs_attempts s) < allowed p"
  shows "fst (retry_loop f p s g st slept) = outcome_of f (allowed p) (first_success f [unat (rs_attempts s)..<allowed p])
    \<and> fst (snd (retry_loop f p s g st slept)) = stats_after (allowed p) (first_success f [unat (rs_attempts s)..<allowed p]) st"
  using assms
proof (induction f p s g st slept rule: retry_loop.induct)
  case (1 f p s g st slept)
  let ?k = "unat (rs_attempts s)"
  have k: "unat (rs_attempts s + 1) = ?k + 1"
    using 1(2) allowed_bounds(2) [of p] by (subst unat_add_small) simp_all
  have w: "rs_attempts s = word_of_nat ?k" by simp
  have up: "[?k..<allowed p] = ?k # [?k + 1..<allowed p]" using 1(2) by (simp add: upt_conv_Cons)
  show ?case
  proof (cases "f ?k")
    case (Inr v)
    then show ?thesis using Inr
      by (simp add: retry_loop.simps [of f p s] up first_success_def outcome_of_def stats_after_def count_success_def add.commute)
  next
    case (Inl e)
    show ?thesis
    proof (cases "max_attempts p \<le> rs_attempts s + 1")
      case True
      then have n: "allowed p = ?k + 1" using 1(2) k by (simp add: allowed_def word_le_nat_alt max_def split: if_splits)
      have "(ucast (rs_attempts s + 1) :: u64) = word_of_nat (unat (rs_attempts s + 1))" by simp
      then have "(ucast (rs_attempts s + 1) :: u64) = word_of_nat (?k + 1)" by (simp only: k)
      then show ?thesis using Inl True n
        by (simp add: add.commute retry_loop.simps [of f p s] first_success_def outcome_of_def stats_after_def count_failure_def)
    next
      case False
      then have less: "?k + 1 < allowed p" using k by (simp add: allowed_def word_le_nat_alt)
      obtain s' g' where a: "retry_advance p e g s = (s', g')" by force
      have k': "unat (rs_attempts s') = ?k + 1" using retry_advance_attempts(1) [of p e g s] k by (simp add: a)
      show ?thesis using 1(1) [OF Inl False a [symmetric]] less Inl False
        by (simp add: retry_loop.simps [of f p s] a up k' first_success_def)
    qed
  qed
qed

text \<open>
  A run returns the outcome of the first attempt that succeeds among those the policy allows, at least one, and
  otherwise the error of the last, with the number of attempts; the statistics count the attempts and the job.
\<close>

theorem run_returns_first_success:
  "case run_job job p f m of (r, m', slept) \<Rightarrow>
     r = outcome_of f (allowed p) (first_success f [0..<allowed p])
     \<and> rm_stats m' = stats_after (allowed p) (first_success f [0..<allowed p]) (rm_stats m)"
  using retry_loop_spec [of "retry_initial p" p f "lcg_seed m + job_seed job" "rm_stats m" "[]"] allowed_bounds(1) [of p]
  by (auto simp: run_job_def retry_initial_def split: prod.splits)

text \<open>No wait is longer than the maximum of the policy, with jitter or without, whatever the multiplier.\<close>

lemma advance_bounded: "next_backoff (fst (retry_advance p e g s)) \<le> max_backoff p"
proof -
  have b: "unat (min x (of_nat (as_millis d)) :: u64) * 1000000 \<le> d" for x d
  proof -
    have "unat (of_nat (as_millis d) :: u64) \<le> as_millis d" by (simp add: unsigned_of_nat take_bit_eq_mod)
    moreover have "unat (min x (of_nat (as_millis d))) \<le> unat (of_nat (as_millis d) :: u64)" by (simp add: min_def word_le_nat_alt)
    moreover have "as_millis d * 1000000 \<le> d" by (simp add: as_millis_def)
    ultimately show ?thesis by linarith
  qed
  show ?thesis by (simp add: retry_advance_def Let_def b split: prod.splits)
qed

lemma loop_sleeps_bounded:
  "\<forall>d \<in> set slept. d \<le> max_backoff p \<Longrightarrow> \<forall>d \<in> set (snd (snd (retry_loop f p s g st slept))). d \<le> max_backoff p"
proof (induction f p s g st slept rule: retry_loop.induct)
  case (1 f p s g st slept)
  obtain s' g' where a: "retry_advance p (projl (f (unat (rs_attempts s)))) g s = (s', g')" by force
  have b: "next_backoff s' \<le> max_backoff p" using advance_bounded [of p _ g s] a by (metis fst_conv)
  show ?case
  proof (cases "f (unat (rs_attempts s))")
    case (Inl e)
    show ?thesis
    proof (cases "max_attempts p \<le> rs_attempts s + 1")
      case False
      show ?thesis using 1(1) [OF Inl False a [unfolded Inl sum.sel, symmetric]] 1(2) b a Inl False
        by (simp add: retry_loop.simps [of f p s])
    qed (use 1(2) Inl in \<open>simp add: retry_loop.simps [of f p s] Let_def\<close>)
  qed (use 1(2) in \<open>simp add: retry_loop.simps [of f p s]\<close>)
qed

theorem waits_bounded: "\<forall>d \<in> set (snd (snd (run_job job p f m))). d \<le> max_backoff p"
  using loop_sleeps_bounded [of "[]" p f "retry_initial p" "lcg_seed m + job_seed job" "rm_stats m"]
  by (auto simp: run_job_def split: prod.splits)

text \<open>
  The default policy without jitter waits 200 and then 400 milliseconds: the back-off is doubled before the first
  wait already, and the initial back-off of 100 milliseconds is never slept.
\<close>

lemma default_advance:
  assumes "n < 10 ^ 4" "next_backoff s = n * 10 ^ 6"
  shows "retry_advance (RetryPolicy_default\<lparr>jitter := False\<rparr>) e g s
    = (\<lparr>rs_attempts = rs_attempts s + 1, next_backoff = (2 * n) * 10 ^ 6, last_error = Some e\<rparr>, g)"
proof -
  have m: "f64_min (rnd64 (of_nat n * 2)) (rnd64 30000) = FFin (of_nat (2 * n))"
    using assms(1) rnd64_dyadic [of "2 * n" 0] rnd64_dyadic [of 30000 0] by (simp add: f64_min_def mult.commute)
  have r: "f64_mul (f64_of_nat n) (FFin 2) = rnd64 (of_nat n * 2)"
    using rnd64_dyadic [of n 0] assms(1) by (simp add: f64_of_nat_def)
  have c: "f64_ceil (FFin (of_nat k)) = FFin (of_nat k)" for k by (simp add: f64_ceil_def)
  have u: "f64_to_u64 (FFin (of_nat (2 * n))) = of_nat (2 * n)"
    using f64_of_nat_roundtrip [of "2 * n"] f64_of_nat_exact [of "2 * n"] assms(1) by simp
  have "unat (of_nat (2 * n) :: u64) = 2 * n" using assms(1) by (intro unat_of_nat_small) simp
  then have w: "unat (min (of_nat (2 * n)) (30000 :: u64)) = 2 * n" using assms(1) by (simp add: min_def word_le_nat_alt)
  show ?thesis
    by (simp only: retry_advance_def Let_def)
       (simp add: RetryPolicy_default_def as_millis_def assms(2) r m c u w f64_of_nat_def [of 30000]
         del: f64_mul.simps f64_to_u64.simps of_nat_mult)
qed

theorem initial_backoff_never_slept:
  "snd (snd (run_job job (RetryPolicy_default\<lparr>jitter := False\<rparr>) (\<lambda>_. Inl e) m)) = [200 * 10 ^ 6, 400 * 10 ^ 6]"
proof -
  let ?p = "RetryPolicy_default\<lparr>jitter := False\<rparr>"
  have m: "max_attempts ?p = 3" "initial_backoff ?p = 100 * 10 ^ 6" by (simp_all add: RetryPolicy_default_def)
  have a1: "retry_advance ?p e g \<lparr>rs_attempts = 0, next_backoff = 100 * 10 ^ 6, last_error = None\<rparr>
    = (\<lparr>rs_attempts = 1, next_backoff = 200 * 10 ^ 6, last_error = Some e\<rparr>, g)" for g
    by (subst default_advance [of 100]) simp_all
  have a2: "retry_advance ?p e g \<lparr>rs_attempts = 1, next_backoff = 200 * 10 ^ 6, last_error = Some e\<rparr>
    = (\<lparr>rs_attempts = 2, next_backoff = 400 * 10 ^ 6, last_error = Some e\<rparr>, g)" for g
    by (subst default_advance [of 200]) simp_all
  show ?thesis
    by (simp only: run_job_def retry_initial_def m)
       (simp add: retry_loop.simps [of _ ?p] m(1) a1 [simplified] a2 [simplified] word_le_nat_alt Let_def)
qed

section \<open>The middleware\<close>

datatype RoutePolicy =
    NoRetry
  | Fixed u32 u64
  | ExponentialBackoff u32 u64 u64 bool
  | LinearBackoff u32 u64 u64

definition to_ascii_uppercase :: "string \<Rightarrow> string" where
  "to_ascii_uppercase s = map (\<lambda>c. if 97 \<le> (of_char c :: nat) \<and> (of_char c :: nat) \<le> 122 then char_of ((of_char c :: nat) - 32) else c) s"

definition is_idempotent :: "string \<Rightarrow> bool" where
  "is_idempotent m \<longleftrightarrow> to_ascii_uppercase m \<in> {''GET'', ''HEAD'', ''PUT'', ''DELETE'', ''OPTIONS'', ''TRACE''}"

definition status_retryable :: "u16 \<Rightarrow> bool" where
  "status_retryable code \<longleftrightarrow> code \<in> {429, 500, 502, 503, 504}"

text \<open>Subtraction of one from the attempt wraps in release builds when the attempt is zero.\<close>

fun compute_delay_ms :: "RoutePolicy \<Rightarrow> u32 \<Rightarrow> u64 \<Rightarrow> u64" where
  "compute_delay_ms NoRetry attempt seed = 0"
| "compute_delay_ms (Fixed _ delay) attempt seed = delay"
| "compute_delay_ms (ExponentialBackoff _ base mx jit) attempt seed =
    (let shift = sat_sub attempt 1;
         multiplier = (if 64 \<le> shift then - 1 else push_bit (unat shift) 1);
         capped = min (sat_mul base multiplier) mx
     in if jit \<and> 0 < base then
          let range = base div 2; jitter_val = (if 0 < range then seed mod range else 0)
          in min (sat_add capped jitter_val) mx
        else capped)"
| "compute_delay_ms (LinearBackoff _ ini inc) attempt seed = sat_add ini (sat_mul inc (ucast (attempt - 1)))"

record RetryAttempt =
  attempt_num :: u32
  delay_ms :: u64
  last_status :: u16

record MiddlewareStats =
  total_retried :: u64
  total_succeeded_after_retry :: u64
  total_exhausted :: u64

record RetryMiddleware =
  policies :: "(string \<times> RoutePolicy) list"
  mw_stats :: MiddlewareStats
  default_policy :: RoutePolicy

definition middleware_new :: "RoutePolicy \<Rightarrow> RetryMiddleware" where
  "middleware_new p = \<lparr>policies = [], mw_stats = \<lparr>total_retried = 0, total_succeeded_after_retry = 0, total_exhausted = 0\<rparr>,
     default_policy = p\<rparr>"

definition add_policy :: "string \<Rightarrow> RoutePolicy \<Rightarrow> RetryMiddleware \<Rightarrow> RetryMiddleware" where
  "add_policy route_prefix p m = m\<lparr>policies := sort_key (\<lambda>(r, _). - int (length r)) (policies m @ [(route_prefix, p)])\<rparr>"

definition starts_with :: "string \<Rightarrow> string \<Rightarrow> bool" where
  "starts_with route r \<longleftrightarrow> take (length r) route = r"

definition get_policy :: "string \<Rightarrow> RetryMiddleware \<Rightarrow> RoutePolicy" where
  "get_policy route m = (case find (\<lambda>(r, _). starts_with route r) (policies m) of Some (_, p) \<Rightarrow> p | None \<Rightarrow> default_policy m)"

fun policy_attempts :: "RoutePolicy \<Rightarrow> u32 option" where
  "policy_attempts NoRetry = None"
| "policy_attempts (Fixed n _) = Some n"
| "policy_attempts (ExponentialBackoff n _ _ _) = Some n"
| "policy_attempts (LinearBackoff n _ _) = Some n"

definition should_retry_request :: "string \<Rightarrow> string \<Rightarrow> u16 \<Rightarrow> u32 \<Rightarrow> RetryMiddleware \<Rightarrow> RetryAttempt option" where
  "should_retry_request route method status attempt m =
    (if \<not> is_idempotent method then None
     else if \<not> status_retryable status then None
     else let p = get_policy route m
          in case policy_attempts p of
               None \<Rightarrow> None
             | Some mx \<Rightarrow>
                 if mx \<le> attempt then None
                 else let seed = ucast attempt * 6364136223846793005
                      in Some \<lparr>attempt_num = attempt, delay_ms = compute_delay_ms p attempt seed, last_status = status\<rparr>)"

definition record_outcome :: "bool \<Rightarrow> bool \<Rightarrow> bool \<Rightarrow> RetryMiddleware \<Rightarrow> RetryMiddleware" where
  "record_outcome retried succeeded exhausted m =
    (let st = mw_stats m;
         st = (if retried then st\<lparr>total_retried := total_retried st + 1\<rparr> else st);
         st = (if succeeded then st\<lparr>total_succeeded_after_retry := total_succeeded_after_retry st + 1\<rparr> else st);
         st = (if exhausted then st\<lparr>total_exhausted := total_exhausted st + 1\<rparr> else st)
     in m\<lparr>mw_stats := st\<rparr>)"

definition stats_summary :: "RetryMiddleware \<Rightarrow> string" where
  "stats_summary m =
    ''retried='' @ nat_to_string (unat (total_retried (mw_stats m)))
    @ '' succeeded_after_retry='' @ nat_to_string (unat (total_succeeded_after_retry (mw_stats m)))
    @ '' exhausted='' @ nat_to_string (unat (total_exhausted (mw_stats m)))"

text \<open>
  A request is retried only with an idempotent method and a status worth retrying, and then exactly until the
  attempts of its route's policy are used up: a policy of \<open>n\<close> attempts allows \<open>n - 1\<close> retries.
\<close>

theorem retried_iff:
  "should_retry_request route method status attempt m \<noteq> None \<longleftrightarrow>
     is_idempotent method \<and> status_retryable status \<and> (\<exists>n. policy_attempts (get_policy route m) = Some n \<and> attempt < n)"
  by (auto simp: should_retry_request_def Let_def not_le split: option.split)

text \<open>A delay with exponential back-off never exceeds the maximum of the policy, and grows until it reaches it.\<close>

lemma mw_delay_bounded: "compute_delay_ms (ExponentialBackoff n base mx jit) attempt seed \<le> mx"
  by (simp add: Let_def)

lemma unat_min_word: "unat (min a b :: u64) = min (unat a) (unat b)"
  by (simp add: min_def word_le_nat_alt)

theorem mw_delay_exact:
  assumes "0 < attempt"
  shows "unat (compute_delay_ms (ExponentialBackoff n base mx False) attempt seed)
    = min (min (unat base * min (2 ^ (unat attempt - 1)) (2 ^ 64 - 1)) (2 ^ 64 - 1)) (unat mx)"
proof -
  have s: "unat (sat_sub attempt 1) = unat attempt - 1" by (simp add: unat_sat_sub)
  have u: "unat (if 64 \<le> sat_sub attempt 1 then - 1 else push_bit (unat (sat_sub attempt 1)) 1 :: u64)
    = min (2 ^ (unat attempt - 1)) (2 ^ 64 - 1)"
  proof (cases "64 \<le> sat_sub attempt 1")
    case True
    then have k: "64 \<le> unat attempt - 1" using s by (simp add: word_le_nat_alt)
    have "(2 :: nat) ^ 64 \<le> 2 ^ (unat attempt - 1)" by (rule power_increasing [OF k]) simp
    then show ?thesis using True unat_max_word [where 'w = 64] by (simp add: min_def)
  next
    case False
    then have k: "unat attempt - 1 < 64" using s by (simp add: word_le_nat_alt)
    then have "(2 :: nat) ^ (unat attempt - 1) \<le> 2 ^ 63" by (intro power_increasing) simp_all
    moreover have "unat (push_bit j 1 :: u64) = 2 ^ j" if "j < 64" for j
    proof -
      have "(2 :: nat) ^ j < 2 ^ 64" using that by (intro power_strict_increasing) simp_all
      then show ?thesis using unat_of_nat_small [of "2 ^ j", where 'w = 64] by (simp add: push_bit_eq_mult)
    qed
    ultimately show ?thesis using False s k by (simp add: min_def)
  qed
  show ?thesis by (simp only: compute_delay_ms.simps Let_def if_False simp_thms unat_min_word unat_sat_mul u) simp
qed

section \<open>The policy of a route\<close>

definition middleware_of :: "(string \<times> RoutePolicy) list \<Rightarrow> RoutePolicy \<Rightarrow> RetryMiddleware" where
  "middleware_of ps d = fold (\<lambda>(r, p). add_policy r p) ps (middleware_new d)"

abbreviation prefix_key :: "string \<times> RoutePolicy \<Rightarrow> int" where
  "prefix_key \<equiv> \<lambda>(r, _). - int (length r)"

lemma filter_sort_fst: "filter (\<lambda>x. fst x = r) (sort_key prefix_key xs) = filter (\<lambda>x. fst x = r) xs"
proof -
  have "filter (\<lambda>x. fst x = r) ys = filter (\<lambda>x. fst x = r) (filter (\<lambda>x. prefix_key x = - int (length r)) ys)" for ys :: "(string \<times> RoutePolicy) list"
    by (induction ys) auto
  then show ?thesis by (metis sort_key_stable)
qed

lemma map_of_filter_fst: "map_of xs r = map_of (filter (\<lambda>x. fst x = r) xs) r"
  by (induction xs) auto

lemma middleware_of_snoc: "middleware_of (ps @ [x]) d = add_policy (fst x) (snd x) (middleware_of ps d)"
  by (simp add: middleware_of_def split_beta)

lemma middleware_of_policies:
  "sorted (map prefix_key (policies (middleware_of ps d))) \<and> default_policy (middleware_of ps d) = d
   \<and> (\<forall>r. filter (\<lambda>x. fst x = r) (policies (middleware_of ps d)) = filter (\<lambda>x. fst x = r) ps)"
proof (induction ps rule: rev_induct)
  case Nil
  then show ?case by (simp add: middleware_of_def middleware_new_def)
next
  case (snoc x ps)
  then show ?case by (simp add: middleware_of_snoc add_policy_def filter_sort_fst)
qed

lemma map_of_policies: "map_of (policies (middleware_of ps d)) r = map_of ps r"
  using middleware_of_policies [of ps d] map_of_filter_fst by metis

lemma find_first_prefix:
  assumes "sorted (map prefix_key xs)" "starts_with route r" "(r, p) \<in> set xs"
    and "\<forall>(r', p') \<in> set xs. starts_with route r' \<longrightarrow> length r' \<le> length r"
  shows "\<exists>q. find (\<lambda>(r, _). starts_with route r) xs = Some (r, q) \<and> map_of xs r = Some q"
  using assms
proof (induction xs)
  case (Cons x xs)
  obtain r' p' where x: "x = (r', p')" by force
  show ?case
  proof (cases "starts_with route r'")
    case True
    have "r' = r"
    proof (rule ccontr)
      assume "r' \<noteq> r"
      then have "(r, p) \<in> set xs" using Cons.prems(3) x by auto
      then have "length r \<le> length r'" using Cons.prems(1) x by fastforce
      moreover have "length r' \<le> length r" using Cons.prems(4) True x by simp
      ultimately show False using \<open>r' \<noteq> r\<close> True Cons.prems(2) by (simp add: starts_with_def)
    qed
    then show ?thesis using True x by simp
  next
    case False
    then have "r' \<noteq> r" using Cons.prems(2) by blast
    then show ?thesis using Cons False x by auto
  qed
qed simp

lemma fst_set_policies: "fst ` set (policies (middleware_of ps d)) = fst ` set ps"
  using map_of_policies [of ps d] by (metis dom_map_of_conv_image_fst ext)

text \<open>
  A route gets the policy of the longest registered prefix that it starts with; of two registrations of the same
  prefix the first counts and the second has no effect. Without such a prefix it gets the default.
\<close>

theorem route_gets_longest_prefix:
  assumes "starts_with route r" "map_of ps r = Some p"
    and "\<forall>(r', p') \<in> set ps. starts_with route r' \<longrightarrow> length r' \<le> length r"
  shows "get_policy route (middleware_of ps d) = p"
proof -
  let ?xs = "policies (middleware_of ps d)"
  have "map_of ?xs r = Some p" using assms(2) by (simp add: map_of_policies)
  then have m: "(r, p) \<in> set ?xs" by (rule map_of_SomeD)
  have l: "\<forall>(r', p') \<in> set ?xs. starts_with route r' \<longrightarrow> length r' \<le> length r"
  proof (safe)
    fix r' p' assume r': "(r', p') \<in> set ?xs" "starts_with route r'"
    have "r' \<in> fst ` set ps" using r'(1) fst_set_policies [of ps d] by force
    then show "length r' \<le> length r" using assms(3) r'(2) by fastforce
  qed
  have "sorted (map prefix_key ?xs)" using middleware_of_policies by blast
  from find_first_prefix [OF this assms(1) m l] \<open>map_of ?xs r = Some p\<close>
  show ?thesis by (auto simp: get_policy_def)
qed

lemma route_without_prefix:
  assumes "\<forall>(r, p) \<in> set ps. \<not> starts_with route r"
  shows "get_policy route (middleware_of ps d) = d"
proof -
  have "\<not> starts_with route r" if "(r, p) \<in> set (policies (middleware_of ps d))" for r p
    using that fst_set_policies [of ps d] assms by (metis (no_types, lifting) case_prodD fst_conv imageE image_eqI prod.collapse)
  then have "find (\<lambda>(r, _). starts_with route r) (policies (middleware_of ps d)) = None" by (auto simp: find_None_iff)
  then show ?thesis using middleware_of_policies [of ps d] by (simp add: get_policy_def)
qed

lemma route_gets_longest_prefix_witness:
  "get_policy ''/api/users'' (middleware_of [(''/api'', NoRetry), (''/api/users'', Fixed 3 10), (''/api/users'', Fixed 5 20)] NoRetry) = Fixed 3 10"
  by (rule route_gets_longest_prefix [of _ "''/api/users''"]) (simp_all add: starts_with_def)

lemma mw_delay_exact_witness:
  "unat (compute_delay_ms (ExponentialBackoff 9 100 5000 False) 4 0) = 800"
  using mw_delay_exact [of 4 9 100 5000 0] by simp

text \<open>The attempt times the constant overflows from the third attempt on.\<close>

lemma seed_overflows: "2 ^ 64 \<le> unat (3 :: u64) * unat (6364136223846793005 :: u64)"
  by simp

end
