(* ===== verification/ServiceRegistry.thy ===== *)
theory ServiceRegistry
  imports Rotation Bytes
begin

text \<open>
  The service registry (\<open>src/service_registry.rs\<close>): instances of services by name, their health, and the selection
  of a healthy instance by one of five algorithms. The counter of a service is atomic and a lookup advances it once,
  so a lookup returns the registry with the counter advanced. Sums of weights wrap, as in release builds.
\<close>

unbundle bit_operations_syntax

section \<open>State\<close>

datatype LbAlgorithm = RoundRobin | WeightedRoundRobin | LeastConnections | Random | IpHash

record ServiceInstance =
  si_id :: string
  si_endpoint :: string
  si_weight :: u32
  si_healthy :: bool
  si_metadata :: "(string, string) hashmap"
  registered_at :: u64

definition service_instance_new :: "string \<Rightarrow> string \<Rightarrow> ServiceInstance" where
  "service_instance_new i e = \<lparr>si_id = i, si_endpoint = e, si_weight = 1, si_healthy = True, si_metadata = [], registered_at = 0\<rparr>"

record ServiceDefinition =
  sd_name :: string
  instances :: "ServiceInstance list"
  load_balancer :: LbAlgorithm
  health_check_interval_ms :: u64
  sd_counter :: usize

definition service_definition_new :: "string \<Rightarrow> LbAlgorithm \<Rightarrow> ServiceDefinition" where
  "service_definition_new n lb = \<lparr>sd_name = n, instances = [], load_balancer = lb, health_check_interval_ms = 5000, sd_counter = 0\<rparr>"

type_synonym ServiceRegistry = "(string, ServiceDefinition) hashmap"

section \<open>Operations\<close>

definition register_with_lb :: "string \<Rightarrow> ServiceInstance \<Rightarrow> LbAlgorithm \<Rightarrow> ServiceRegistry \<Rightarrow> ServiceRegistry" where
  "register_with_lb svc i lb r =
    (let d = (case hm_get r svc of Some d \<Rightarrow> d | None \<Rightarrow> service_definition_new svc lb)
     in hm_insert svc (d\<lparr>instances := instances d @ [i]\<rparr>) r)"

definition register :: "string \<Rightarrow> ServiceInstance \<Rightarrow> ServiceRegistry \<Rightarrow> ServiceRegistry" where
  "register svc i r = register_with_lb svc i RoundRobin r"

definition deregister :: "string \<Rightarrow> string \<Rightarrow> ServiceRegistry \<Rightarrow> bool \<times> ServiceRegistry" where
  "deregister svc i r =
    (case hm_get r svc of
       Some d \<Rightarrow>
         let kept = filter (\<lambda>x. si_id x \<noteq> i) (instances d)
         in (length kept < length (instances d), hm_insert svc (d\<lparr>instances := kept\<rparr>) r)
     | None \<Rightarrow> (False, r))"

definition mark :: "bool \<Rightarrow> string \<Rightarrow> string \<Rightarrow> ServiceRegistry \<Rightarrow> ServiceRegistry" where
  "mark h svc i r =
    (case hm_get r svc of
       Some d \<Rightarrow> hm_insert svc (d\<lparr>instances := map (\<lambda>x. if si_id x = i then x\<lparr>si_healthy := h\<rparr> else x) (instances d)\<rparr>) r
     | None \<Rightarrow> r)"

definition mark_unhealthy :: "string \<Rightarrow> string \<Rightarrow> ServiceRegistry \<Rightarrow> ServiceRegistry" where
  "mark_unhealthy = mark False"

definition mark_healthy :: "string \<Rightarrow> string \<Rightarrow> ServiceRegistry \<Rightarrow> ServiceRegistry" where
  "mark_healthy = mark True"

definition healthy_of :: "ServiceDefinition \<Rightarrow> ServiceInstance list" where
  "healthy_of d = filter si_healthy (instances d)"

definition eff_weight :: "ServiceInstance \<Rightarrow> u32" where
  "eff_weight i = max (si_weight i) 1"

text \<open>The choice among the healthy instances, and whether the counter advances.\<close>

definition pick_instance :: "string option \<Rightarrow> usize \<Rightarrow> LbAlgorithm \<Rightarrow> ServiceInstance list \<Rightarrow> ServiceInstance \<times> bool" where
  "pick_instance hint counter lb healthy =
    (let n = of_nat (length healthy) in
     case lb of
       WeightedRoundRobin \<Rightarrow>
         let total = sum_list (map eff_weight healthy)
         in if total = 0 then (healthy ! 0, False)
            else ((case cumulative_pick eff_weight (ucast counter mod total) 0 healthy of
                     Some i \<Rightarrow> i | None \<Rightarrow> healthy ! 0), True)
     | Random \<Rightarrow>
         let x = counter * 6364136223846793005 + 1; x = x XOR drop_bit 33 x
         in (healthy ! unat (x mod n), True)
     | IpHash \<Rightarrow> (healthy ! unat (fnv1a (as_bytes (case hint of Some h \<Rightarrow> h | None \<Rightarrow> '''')) mod n), False)
     | _ \<Rightarrow> (healthy ! unat (counter mod n), True))"

definition resolve :: "string \<Rightarrow> string option \<Rightarrow> ServiceRegistry \<Rightarrow> ServiceInstance option \<times> ServiceRegistry" where
  "resolve svc hint r =
    (case hm_get r svc of
       None \<Rightarrow> (None, r)
     | Some d \<Rightarrow>
         if healthy_of d = [] then (None, r)
         else case pick_instance hint (sd_counter d) (load_balancer d) (healthy_of d) of
                (i, advance) \<Rightarrow>
                  (Some i, if advance then hm_insert svc (d\<lparr>sd_counter := sd_counter d + 1\<rparr>) r else r))"

definition list_services :: "ServiceRegistry \<Rightarrow> string list" where
  "list_services r = hm_keys r"

definition healthy_instances :: "string \<Rightarrow> ServiceRegistry \<Rightarrow> ServiceInstance list" where
  "healthy_instances svc r = (case hm_get r svc of Some d \<Rightarrow> healthy_of d | None \<Rightarrow> [])"

record RegistryStats =
  total_services :: nat
  total_instances :: nat
  rs_healthy_instances :: nat
  unhealthy_instances :: nat

definition registry_stats :: "ServiceRegistry \<Rightarrow> RegistryStats" where
  "registry_stats r =
    (let total = sum_list (map (length \<circ> instances \<circ> snd) r);
         healthy = sum_list (map (length \<circ> healthy_of \<circ> snd) r)
     in \<lparr>total_services = length r, total_instances = total, rs_healthy_instances = healthy,
         unhealthy_instances = total - healthy\<rparr>)"

section \<open>What is selected\<close>

lemma cumulative_pick_mem: "cumulative_pick w n acc bs = Some b \<Longrightarrow> b \<in> set bs"
  by (induction bs arbitrary: acc) (auto simp: Let_def split: if_splits)

lemma pick_instance_mem:
  assumes "healthy \<noteq> []" "length healthy < 2 ^ 64"
  shows "fst (pick_instance hint c lb healthy) \<in> set healthy"
proof -
  have n: "unat (x mod of_nat (length healthy) :: u64) < length healthy" for x
    using assms by (simp add: unat_mod unat_of_nat_small)
  show ?thesis using assms(1) n cumulative_pick_mem
    by (cases lb) (auto simp: pick_instance_def Let_def split: option.split)
qed

text \<open>A lookup returns a healthy instance of the service, and nothing only when there is none.\<close>

theorem resolves_to_healthy:
  assumes "length (healthy_instances svc r) < 2 ^ 64"
  shows "case fst (resolve svc hint r) of
      Some i \<Rightarrow> i \<in> set (healthy_instances svc r) \<and> si_healthy i
    | None \<Rightarrow> healthy_instances svc r = []"
proof (cases "hm_get r svc")
  case (Some d)
  show ?thesis
  proof (cases "healthy_of d = []")
    case False
    then have "fst (pick_instance hint (sd_counter d) (load_balancer d) (healthy_of d)) \<in> set (healthy_of d)"
      using assms Some by (intro pick_instance_mem) (simp_all add: healthy_instances_def)
    then show ?thesis using Some False by (auto simp: resolve_def healthy_instances_def healthy_of_def split: prod.split)
  qed (use Some in \<open>simp add: resolve_def healthy_instances_def\<close>)
qed (simp add: resolve_def healthy_instances_def)

text \<open>An instance marked unhealthy is not returned until it is marked healthy again.\<close>

lemma marked_not_healthy: "i \<notin> si_id ` set (healthy_instances svc (mark_unhealthy svc i r))"
proof (cases "hm_get r svc")
  case (Some d)
  have "si_id x \<noteq> i" if "x \<in> set (map (\<lambda>x. if si_id x = i then x\<lparr>si_healthy := False\<rparr> else x) (instances d))" "si_healthy x" for x
  proof -
    note t = that
    obtain y where y: "x = (if si_id y = i then y\<lparr>si_healthy := False\<rparr> else y)"
      using t(1) by (simp only: set_map image_iff) blast
    show ?thesis using t(2) y by (cases "si_id y = i") simp_all
  qed
  then show ?thesis using Some
    by (auto simp: healthy_instances_def healthy_of_def mark_unhealthy_def mark_def hm_get_insert simp del: set_map)
qed (simp add: healthy_instances_def mark_unhealthy_def mark_def)

section \<open>Turns\<close>

definition registry_cycle :: "string \<Rightarrow> ServiceRegistry \<Rightarrow> ServiceInstance list" where
  "registry_cycle svc r =
    (case hm_get r svc of
       None \<Rightarrow> []
     | Some d \<Rightarrow>
         let hs = healthy_of d
         in if load_balancer d = WeightedRoundRobin then
              (if sum_list (map (\<lambda>i. unat (eff_weight i)) hs) < 2 ^ 32 then weighted_turn (\<lambda>i. unat (eff_weight i)) hs else [])
            else if load_balancer d \<in> {RoundRobin, LeastConnections} \<and> length hs < 2 ^ 64 then hs
            else [])"

definition registry_counter :: "string \<Rightarrow> ServiceRegistry \<Rightarrow> nat" where
  "registry_counter svc r =
    (case hm_get r svc of
       None \<Rightarrow> 0
     | Some d \<Rightarrow> if load_balancer d = WeightedRoundRobin then unat (sd_counter d) mod 2 ^ 32 else unat (sd_counter d))"

definition registry_limit :: "string \<Rightarrow> ServiceRegistry \<Rightarrow> nat" where
  "registry_limit svc r =
    (case hm_get r svc of
       None \<Rightarrow> 0 | Some d \<Rightarrow> if load_balancer d = WeightedRoundRobin then 2 ^ 32 else 2 ^ 64)"

lemma eff_weight_pos: "0 < unat (eff_weight i)"
proof -
  have "1 \<le> unat (max (si_weight i) 1)" by (simp add: max_def word_le_nat_alt)
  then show ?thesis by (simp add: eff_weight_def)
qed

lemma resolve_cycle:
  assumes "registry_cycle svc r \<noteq> []"
  shows "\<exists>d. hm_get r svc = Some d
    \<and> resolve svc hint r = (Some (registry_cycle svc r ! (registry_counter svc r mod length (registry_cycle svc r))),
        hm_insert svc (d\<lparr>sd_counter := sd_counter d + 1\<rparr>) r)"
proof -
  obtain d where d: "hm_get r svc = Some d" using assms by (auto simp: registry_cycle_def split: option.splits)
  let ?hs = "healthy_of d" and ?w = "\<lambda>i. unat (eff_weight i)"
  show ?thesis
  proof (cases "load_balancer d = WeightedRoundRobin")
    case True
    then have w: "sum_list (map ?w ?hs) < 2 ^ 32" "weighted_turn ?w ?hs \<noteq> []"
      and c: "registry_cycle svc r = weighted_turn ?w ?hs" "registry_counter svc r = unat (sd_counter d) mod 2 ^ 32"
      using assms d by (auto simp: registry_cycle_def registry_counter_def Let_def split: if_splits)
    then have ne: "?hs \<noteq> []" by (auto simp: weighted_turn_def)
    have sum: "unat (sum_list (map eff_weight ?hs)) = sum_list (map ?w ?hs)" using w(1) by (intro unat_sum_weights) simp
    have pos: "0 < sum_list (map ?w ?hs)" using w(2) length_weighted_turn [of ?w ?hs] by (metis length_greater_0_conv)
    then have nz: "sum_list (map eff_weight ?hs) \<noteq> 0" using sum by (metis less_numeral_extra(3) unat_0)
    let ?n = "ucast (sd_counter d) mod sum_list (map eff_weight ?hs)"
    have n: "unat ?n = (unat (sd_counter d) mod 2 ^ 32) mod sum_list (map ?w ?hs)"
      by (simp add: unat_mod sum unsigned_ucast_eq take_bit_eq_mod)
    have "cumulative_pick eff_weight ?n 0 ?hs = Some (weighted_turn ?w ?hs ! unat ?n)"
      using cumulative_pick_turn [of 0 eff_weight ?hs ?n] w(1) pos n by simp
    then show ?thesis using d True ne nz n
      by (simp add: resolve_def pick_instance_def Let_def c length_weighted_turn)
  next
    case False
    then have w: "?hs \<noteq> []" "length ?hs < 2 ^ 64" "load_balancer d = RoundRobin \<or> load_balancer d = LeastConnections"
      and c: "registry_cycle svc r = ?hs" "registry_counter svc r = unat (sd_counter d)"
      using assms d by (auto simp: registry_cycle_def registry_counter_def Let_def split: if_splits)
    have "unat (sd_counter d mod of_nat (length ?hs)) = unat (sd_counter d) mod length ?hs"
      using w(2) by (simp add: unat_mod unat_of_nat_small)
    then show ?thesis using d w by (auto simp: resolve_def pick_instance_def Let_def c)
  qed
qed

lemma unat_Suc_mod32: "unat (x :: u64) mod 2 ^ 32 + 1 < 2 ^ 32 \<Longrightarrow> unat (x + 1) mod 2 ^ 32 = unat x mod 2 ^ 32 + 1"
proof -
  assume l: "unat x mod 2 ^ 32 + 1 < 2 ^ 32"
  have "unat (x + 1) mod 2 ^ 32 = (unat x + 1) mod 2 ^ 64 mod 2 ^ 32" by (simp add: unat_word_ariths)
  also have "\<dots> = (unat x + 1) mod 2 ^ 32" by (rule mod_mod_cancel) simp
  also have "\<dots> = (unat x mod 2 ^ 32 + 1) mod 2 ^ 32" by (metis mod_add_left_eq)
  finally show ?thesis using l by simp
qed

interpretation turns: rotation "resolve svc hint" "registry_counter svc" "registry_cycle svc" "registry_limit svc"
proof unfold_locales
  fix r assume "registry_cycle svc r \<noteq> []"
  from resolve_cycle [OF this, of hint] obtain d where d: "hm_get r svc = Some d"
    "resolve svc hint r = (Some (registry_cycle svc r ! (registry_counter svc r mod length (registry_cycle svc r))),
        hm_insert svc (d\<lparr>sd_counter := sd_counter d + 1\<rparr>) r)" by blast
  show "fst (resolve svc hint r) = Some (registry_cycle svc r ! (registry_counter svc r mod length (registry_cycle svc r)))"
    by (simp add: d)
  show "registry_cycle svc (snd (resolve svc hint r)) = registry_cycle svc r"
    by (simp add: d) (simp add: registry_cycle_def d hm_get_insert healthy_of_def Let_def)
  show "registry_limit svc (snd (resolve svc hint r)) = registry_limit svc r"
    by (simp add: d registry_limit_def hm_get_insert)
  assume "registry_counter svc r + 1 < registry_limit svc r"
  then show "registry_counter svc (snd (resolve svc hint r)) = registry_counter svc r + 1"
    using unat_Suc_mod32 [of "sd_counter d"]
    by (auto simp: d registry_limit_def registry_counter_def hm_get_insert unat_add_small split: if_splits)
qed

text \<open>
  Weighted round robin serves exactly by weight: over as many lookups as the weights sum to, every healthy instance is
  returned as often as its weight, at least once, while the low half of the counter does not wrap.
\<close>

theorem registry_turns_follow_weights:
  assumes "hm_get r svc = Some d" "load_balancer d = WeightedRoundRobin" "healthy_of d \<noteq> []"
    and "unat (sd_counter d) mod 2 ^ 32 + sum_list (map (\<lambda>i. unat (eff_weight i)) (healthy_of d)) < 2 ^ 32"
  shows "mset (picks (resolve svc hint) (sum_list (map (\<lambda>i. unat (eff_weight i)) (healthy_of d))) r)
    = image_mset Some (\<Sum>i \<in># mset (healthy_of d). replicate_mset (unat (max (si_weight i) 1)) i)"
proof -
  let ?w = "\<lambda>i. unat (eff_weight i)" and ?hs = "healthy_of d"
  have c: "registry_cycle svc r = weighted_turn ?w ?hs" "registry_counter svc r = unat (sd_counter d) mod 2 ^ 32" "registry_limit svc r = 2 ^ 32"
    using assms by (simp_all add: registry_cycle_def registry_counter_def registry_limit_def Let_def)
  have "set (weighted_turn ?w ?hs) \<noteq> {}" using assms(3) by (auto simp: set_weighted_turn eff_weight_pos neq_Nil_conv)
  then have ne: "registry_cycle svc r \<noteq> []" by (simp add: c)
  show ?thesis
    using turns.one_turn [OF ne, of hint] assms(4)
    by (simp add: c length_weighted_turn mset_weighted_turn) (simp add: eff_weight_def)
qed

text \<open>Round robin, and least connections with it, returns every healthy instance once in as many lookups.\<close>

theorem registry_round_robin_exact:
  assumes "hm_get r svc = Some d" "load_balancer d \<in> {RoundRobin, LeastConnections}" "healthy_of d \<noteq> []"
    and "unat (sd_counter d) + length (healthy_of d) < 2 ^ 64"
  shows "mset (picks (resolve svc hint) (length (healthy_of d)) r) = image_mset Some (mset (healthy_of d))"
proof -
  have c: "registry_cycle svc r = healthy_of d" "registry_counter svc r = unat (sd_counter d)" "registry_limit svc r = 2 ^ 64"
    using assms by (auto simp: registry_cycle_def registry_counter_def registry_limit_def Let_def)
  show ?thesis using turns.one_turn [of svc r hint] assms by (simp add: c)
qed

text \<open>With the hash algorithm a client gets the same instance at every lookup, and the lookups change nothing.\<close>

theorem registry_hash_is_sticky:
  assumes "hm_get r svc = Some d" "load_balancer d = IpHash"
  shows "snd (resolve svc hint r) = r \<and> picks (resolve svc hint) n r = replicate n (fst (resolve svc hint r))"
proof -
  have s: "snd (resolve svc hint r) = r" using assms by (simp add: resolve_def pick_instance_def Let_def)
  have "picks (resolve svc hint) n r = replicate n (fst (resolve svc hint r))"
    by (induction n) (use s in \<open>auto split: prod.split\<close>)
  then show ?thesis using s by simp
qed

text \<open>The counts of the statistics add up.\<close>

lemma stats_add_up:
  "rs_healthy_instances (registry_stats r) + unhealthy_instances (registry_stats r) = total_instances (registry_stats r)"
proof -
  have "sum_list (map (length \<circ> healthy_of \<circ> snd) r) \<le> sum_list (map (length \<circ> instances \<circ> snd) r)"
    by (rule sum_list_mono) (simp add: healthy_of_def)
  then show ?thesis by (simp add: registry_stats_def Let_def)
qed

definition demo_a :: ServiceInstance where
  "demo_a = (service_instance_new ''a'' ''h1'')\<lparr>si_weight := 2\<rparr>"

definition demo_b :: ServiceInstance where
  "demo_b = service_instance_new ''b'' ''h2''"

definition demo_registry :: "LbAlgorithm \<Rightarrow> ServiceRegistry" where
  "demo_registry lb = register_with_lb ''s'' demo_b lb (register_with_lb ''s'' demo_a lb [])"

definition demo_service :: "LbAlgorithm \<Rightarrow> ServiceDefinition" where
  "demo_service lb = \<lparr>sd_name = ''s'', instances = [demo_a, demo_b], load_balancer = lb, health_check_interval_ms = 5000, sd_counter = 0\<rparr>"

lemma demo_registry_get: "hm_get (demo_registry lb) ''s'' = Some (demo_service lb)"
  by (simp add: demo_registry_def demo_service_def register_with_lb_def service_definition_new_def hm_get_insert)

lemma demo_service_simps [simp]:
  "healthy_of (demo_service lb) = [demo_a, demo_b]" "load_balancer (demo_service lb) = lb" "sd_counter (demo_service lb) = 0"
  by (simp_all add: healthy_of_def demo_service_def demo_a_def demo_b_def service_instance_new_def)

lemma demo_weights:
  "unat (max (si_weight demo_a) 1) = 2" "unat (max (si_weight demo_b) 1) = 1"
  by (simp_all add: demo_a_def demo_b_def service_instance_new_def max_def word_le_nat_alt)

lemma registry_turns_follow_weights_witness:
  "mset (picks (resolve ''s'' None) 3 (demo_registry WeightedRoundRobin)) = {#Some demo_a, Some demo_a, Some demo_b#}"
proof -
  have w: "unat (eff_weight demo_a) = 2" "unat (eff_weight demo_b) = 1" using demo_weights by (simp_all add: eff_weight_def)
  have two: "replicate_mset 2 x = {#x, x#}" for x :: "ServiceInstance option" by (simp add: numeral_2_eq_2)
  have "sum_list (map (\<lambda>i. unat (eff_weight i)) (healthy_of (demo_service WeightedRoundRobin))) = 3" by (simp add: w)
  then show ?thesis
    using registry_turns_follow_weights [OF demo_registry_get, of WeightedRoundRobin None]
    by (simp add: demo_weights two del: picks.simps)
qed

lemma registry_round_robin_exact_witness:
  "mset (picks (resolve ''s'' None) 2 (demo_registry RoundRobin)) = {#Some demo_a, Some demo_b#}"
proof -
  have "length (healthy_of (demo_service RoundRobin)) = 2" by simp
  then show ?thesis
    using registry_round_robin_exact [OF demo_registry_get, of RoundRobin None] by (simp del: picks.simps list.size)
qed

lemma registry_hash_is_sticky_witness: "snd (resolve ''s'' (Some ''c'') (demo_registry IpHash)) = demo_registry IpHash"
  using registry_hash_is_sticky [OF demo_registry_get, of IpHash "Some ''c''"] by simp

lemma resolves_to_healthy_witness:
  "case fst (resolve ''s'' None (demo_registry Random)) of
      Some i \<Rightarrow> si_healthy i | None \<Rightarrow> healthy_instances ''s'' (demo_registry Random) = []"
proof -
  have "length (healthy_instances ''s'' (demo_registry Random)) < 2 ^ 64"
    by (simp add: healthy_instances_def demo_registry_get)
  from resolves_to_healthy [OF this, of None] show ?thesis by (auto split: option.splits)
qed

end
