(* ===== verification/PriorityBalancer.thy ===== *)
theory PriorityBalancer
  imports Floats
begin

text \<open>
  The priority balancer (\<open>src/priority_balancer.rs\<close>): workers in registration order, an index from tags to workers,
  and the choice of the healthy worker with the highest score.
\<close>

section \<open>State\<close>

datatype Priority = Low | Normal | High | Critical

fun priority_number :: "Priority \<Rightarrow> nat" where
  "priority_number Low = 0"
| "priority_number Normal = 1"
| "priority_number High = 2"
| "priority_number Critical = 3"

record WorkerStats =
  worker_id :: string
  queue_depth :: usize
  max_capacity :: usize
  avg_latency_ms :: f64
  error_rate :: f32
  affinity_tags :: "string list"
  is_healthy :: bool

record PriorityLoadBalancer =
  workers :: "WorkerStats list"
  affinity_map :: "(string, string list) hashmap"

definition balancer_new :: PriorityLoadBalancer where
  "balancer_new = \<lparr>workers = [], affinity_map = []\<rparr>"

section \<open>The registry\<close>

definition index_tag :: "string \<Rightarrow> string \<Rightarrow> (string, string list) hashmap \<Rightarrow> (string, string list) hashmap" where
  "index_tag i tag m = hm_insert tag ((case hm_get m tag of Some v \<Rightarrow> v | None \<Rightarrow> []) @ [i]) m"

definition unindex_tag :: "string \<Rightarrow> string \<Rightarrow> (string, string list) hashmap \<Rightarrow> (string, string list) hashmap" where
  "unindex_tag i tag m = (case hm_get m tag of Some v \<Rightarrow> hm_insert tag (filter (\<lambda>x. x \<noteq> i) v) m | None \<Rightarrow> m)"

text \<open>\<open>position\<close>.\<close>

fun worker_position :: "string \<Rightarrow> WorkerStats list \<Rightarrow> nat option" where
  "worker_position i [] = None"
| "worker_position i (w # ws) = (if worker_id w = i then Some 0 else map_option Suc (worker_position i ws))"

definition remove_worker :: "string \<Rightarrow> PriorityLoadBalancer \<Rightarrow> PriorityLoadBalancer" where
  "remove_worker i b =
    (case worker_position i (workers b) of
       Some p \<Rightarrow>
         \<lparr>workers = take p (workers b) @ drop (Suc p) (workers b),
          affinity_map = fold (unindex_tag i) (affinity_tags (workers b ! p)) (affinity_map b)\<rparr>
     | None \<Rightarrow> b)"

definition register_worker :: "WorkerStats \<Rightarrow> PriorityLoadBalancer \<Rightarrow> PriorityLoadBalancer" where
  "register_worker w b =
    (let b = remove_worker (worker_id w) b
     in \<lparr>workers = workers b @ [w], affinity_map = fold (index_tag (worker_id w)) (affinity_tags w) (affinity_map b)\<rparr>)"

definition update_worker :: "string \<Rightarrow> WorkerStats \<Rightarrow> PriorityLoadBalancer \<Rightarrow> PriorityLoadBalancer" where
  "update_worker i w b =
    (case worker_position i (workers b) of
       Some p \<Rightarrow>
         let m = fold (unindex_tag i) (affinity_tags (workers b ! p)) (affinity_map b)
         in \<lparr>workers = (workers b)[p := w], affinity_map = fold (index_tag (worker_id w)) (affinity_tags w) m\<rparr>
     | None \<Rightarrow> register_worker w b)"

section \<open>Scores\<close>

text \<open>\<open>(x as f64)\<close> of a single-precision value is exact.\<close>

definition score_worker :: "WorkerStats \<Rightarrow> Priority \<Rightarrow> string list \<Rightarrow> f64" where
  "score_worker w priority tags =
    (let priority_bonus = f64_mul (f64_of_nat (priority_number priority)) (FFin 10);
         capacity_ratio =
           (if 0 < max_capacity w then f64_sub (FFin 1) (f64_div (f64_of_u64 (queue_depth w)) (f64_of_u64 (max_capacity w)))
            else FFin 0);
         capacity_score = f64_mul (f64_clamp capacity_ratio (FFin 0) (FFin 1)) (FFin 50);
         capacity_score = (if priority = Critical then f64_mul capacity_score (FFin 2) else capacity_score);
         affinity_count = length (filter (\<lambda>t. t \<in> set (affinity_tags w)) tags);
         affinity_score = f64_mul (f64_of_nat affinity_count) (FFin 20);
         latency_penalty = f64_mul (avg_latency_ms w) (rnd64 (1 / 10));
         error_penalty = f64_mul (error_rate w) (FFin 30)
     in f64_sub (f64_sub (f64_add (f64_add priority_bonus capacity_score) affinity_score) latency_penalty) error_penalty)"

definition better :: "Priority \<Rightarrow> string list \<Rightarrow> WorkerStats \<Rightarrow> string option \<times> f64 \<Rightarrow> string option \<times> f64" where
  "better priority tags w best =
    (if \<not> is_healthy w then best
     else let score = score_worker w priority tags
          in if fp_lt (snd best) score then (Some (worker_id w), score) else best)"

definition select_worker :: "Priority \<Rightarrow> string list \<Rightarrow> PriorityLoadBalancer \<Rightarrow> string option" where
  "select_worker priority tags b = fst (fold (better priority tags) (workers b) (None, FInf True))"

text \<open>
  \<open>partial_cmp(..).unwrap_or(Equal)\<close> with the arguments swapped: whether \<open>x\<close> may stand before \<open>y\<close> in a descending order.
\<close>

definition not_after :: "f64 \<times> string \<Rightarrow> f64 \<times> string \<Rightarrow> bool" where
  "not_after x y \<longleftrightarrow> \<not> fp_lt (fst x) (fst y)"

text \<open>The stable sort, by insertion: what it returns for scores that are comparable is determined.\<close>

fun insert_sorted :: "f64 \<times> string \<Rightarrow> (f64 \<times> string) list \<Rightarrow> (f64 \<times> string) list" where
  "insert_sorted x [] = [x]"
| "insert_sorted x (y # ys) = (if not_after x y then x # y # ys else y # insert_sorted x ys)"

definition select_top_workers :: "Priority \<Rightarrow> string list \<Rightarrow> nat \<Rightarrow> PriorityLoadBalancer \<Rightarrow> string list" where
  "select_top_workers priority tags n b =
    map snd (take n (foldr insert_sorted (map (\<lambda>w. (score_worker w priority tags, worker_id w)) (filter is_healthy (workers b))) []))"

section \<open>Queries\<close>

definition healthy_count :: "PriorityLoadBalancer \<Rightarrow> nat" where
  "healthy_count b = length (filter is_healthy (workers b))"

definition get_worker :: "string \<Rightarrow> PriorityLoadBalancer \<Rightarrow> WorkerStats option" where
  "get_worker i b = find (\<lambda>w. worker_id w = i) (workers b)"

definition workers_for_tag :: "string \<Rightarrow> PriorityLoadBalancer \<Rightarrow> string list" where
  "workers_for_tag tag b = (case hm_get (affinity_map b) tag of Some v \<Rightarrow> v | None \<Rightarrow> [])"

section \<open>The worker that is selected\<close>

definition proper :: "f64 \<Rightarrow> bool" where
  "proper x \<longleftrightarrow> fp_lt (FInf True) x"

lemma proper_notNaN: "proper x \<Longrightarrow> x \<noteq> FNaN"
  by (auto simp: proper_def)

lemma fp_lt_total:
  assumes "x \<noteq> FNaN" "y \<noteq> FNaN"
  shows "\<not> fp_lt x y \<longleftrightarrow> fp_le y x"
  using assms by (cases x; cases y) auto

lemma fp_le_lt_trans: "fp_le x y \<Longrightarrow> fp_lt y z \<Longrightarrow> fp_lt x z"
  by (cases x; cases y; cases z) auto

lemma fp_lt_le: "fp_lt x y \<Longrightarrow> fp_le x y"
  by (cases x; cases y) auto

definition scored :: "Priority \<Rightarrow> string list \<Rightarrow> WorkerStats list \<Rightarrow> (f64 \<times> string) list" where
  "scored priority tags ws = map (\<lambda>w. (score_worker w priority tags, worker_id w)) (filter is_healthy ws)"

definition take_better :: "f64 \<times> string \<Rightarrow> string option \<times> f64 \<Rightarrow> string option \<times> f64" where
  "take_better x best = (if fp_lt (snd best) (fst x) then (Some (snd x), fst x) else best)"

lemma fold_better: "fold (better p tags) ws best = fold take_better (scored p tags ws) best"
  by (induction ws arbitrary: best) (simp_all add: scored_def better_def take_better_def Let_def)

abbreviation ranking :: "(f64 \<times> string) list \<Rightarrow> (f64 \<times> string) list" where
  "ranking xs \<equiv> foldr insert_sorted xs []"

lemma set_insert_sorted [simp]: "set (insert_sorted x ys) = insert x (set ys)" "length (insert_sorted x ys) = Suc (length ys)"
  by (induction ys) auto

lemma set_ranking [simp]: "set (ranking xs) = set xs" "length (ranking xs) = length xs"
  by (induction xs) auto

lemma ranking_nonempty [simp]: "ranking xs = [] \<longleftrightarrow> xs = []"
  using set_ranking(2) [of xs] by (metis length_0_conv)

lemma hd_insert_sorted: "ys \<noteq> [] \<Longrightarrow> hd (insert_sorted x ys) = (if fp_lt (fst x) (fst (hd ys)) then hd ys else x)"
  by (cases ys) (auto simp: not_after_def)

lemma hd_ranking_Cons:
  "hd (ranking (x # xs)) = (if xs \<noteq> [] \<and> fp_lt (fst x) (fst (hd (ranking xs))) then hd (ranking xs) else x)"
  by (cases "xs = []") (simp_all add: hd_insert_sorted)

lemma hd_ranking_mem: "xs \<noteq> [] \<Longrightarrow> hd (ranking xs) \<in> set xs"
  using hd_in_set [of "ranking xs"] by simp

lemma fold_take_better:
  assumes "\<forall>x \<in> set xs. fst x \<noteq> FNaN" "s \<noteq> FNaN"
  shows "fold take_better xs (i, s) =
    (if xs \<noteq> [] \<and> fp_lt s (fst (hd (ranking xs))) then (Some (snd (hd (ranking xs))), fst (hd (ranking xs))) else (i, s))"
  using assms
proof (induction xs arbitrary: i s)
  case (Cons x xs)
  have n: "xs \<noteq> [] \<Longrightarrow> fst (hd (ranking xs)) \<noteq> FNaN" "fst x \<noteq> FNaN" using Cons.prems(1) hd_ranking_mem [of xs] by auto
  show ?case
  proof (cases "fp_lt s (fst x)")
    case True
    then have "fold take_better (x # xs) (i, s) = fold take_better xs (Some (snd x), fst x)" by (simp add: take_better_def)
    also have "\<dots> = (if xs \<noteq> [] \<and> fp_lt (fst x) (fst (hd (ranking xs))) then (Some (snd (hd (ranking xs))), fst (hd (ranking xs))) else (Some (snd x), fst x))"
      using Cons.prems n by (intro Cons.IH) simp_all
    finally show ?thesis using True fp_lt_le_trans [OF True fp_lt_le] by (simp add: hd_ranking_Cons del: foldr.simps)
  next
    case False
    then have le: "fp_le (fst x) s" using fp_lt_total n Cons.prems(2) by blast
    have "fold take_better (x # xs) (i, s) = fold take_better xs (i, s)" using False by (simp add: take_better_def)
    also have "\<dots> = (if xs \<noteq> [] \<and> fp_lt s (fst (hd (ranking xs))) then (Some (snd (hd (ranking xs))), fst (hd (ranking xs))) else (i, s))"
      using Cons.prems by (intro Cons.IH) simp_all
    finally show ?thesis using False le fp_le_lt_trans [OF le] by (auto simp: hd_ranking_Cons simp del: foldr.simps)
  qed
qed simp

lemma hd_ranking_first_max:
  assumes "\<forall>x \<in> set xs. fst x \<noteq> FNaN" "xs \<noteq> []"
  shows "\<exists>k<length xs. hd (ranking xs) = xs ! k \<and> (\<forall>j<length xs. fp_le (fst (xs ! j)) (fst (xs ! k))) \<and> (\<forall>j<k. fp_lt (fst (xs ! j)) (fst (xs ! k)))"
  using assms
proof (induction xs)
  case (Cons x xs)
  have refl: "fp_le (fst x) (fst x)" using Cons.prems(1) by (cases "fst x") auto
  show ?case
  proof (cases "xs \<noteq> [] \<and> fp_lt (fst x) (fst (hd (ranking xs)))")
    case True
    then obtain k where k: "k < length xs" "hd (ranking xs) = xs ! k" "\<forall>j<length xs. fp_le (fst (xs ! j)) (fst (xs ! k))"
      "\<forall>j<k. fp_lt (fst (xs ! j)) (fst (xs ! k))" using Cons by auto
    have "fp_lt (fst x) (fst (xs ! k))" using True k(2) by simp
    then show ?thesis using True k fp_lt_le
      by (intro exI [of _ "Suc k"]) (auto simp: hd_ranking_Cons less_Suc_eq_0_disj simp del: foldr.simps)
  next
    case False
    have "fp_le (fst (xs ! j)) (fst x)" if j: "j < length xs" for j
    proof -
      obtain k where k: "hd (ranking xs) = xs ! k" "\<forall>j<length xs. fp_le (fst (xs ! j)) (fst (xs ! k))" "k < length xs"
        using Cons j by fastforce
      have "\<not> fp_lt (fst x) (fst (xs ! k))" using False j k(1) by auto
      then have "fp_le (fst (xs ! k)) (fst x)" using Cons.prems(1) k(3) fp_lt_total by simp
      then show ?thesis using k(2) j fp_le_trans by blast
    qed
    then show ?thesis using False refl by (intro exI [of _ 0]) (auto simp: hd_ranking_Cons less_Suc_eq_0_disj simp del: foldr.simps)
  qed
qed simp

lemma fold_from_bottom:
  assumes "\<forall>x \<in> set xs. proper (fst x)"
  shows "fst (fold take_better xs (None, FInf True)) = (if xs = [] then None else Some (snd (hd (ranking xs))))"
proof -
  have n: "\<forall>x \<in> set xs. fst x \<noteq> FNaN" using assms proper_notNaN by blast
  have "xs \<noteq> [] \<Longrightarrow> fp_lt (FInf True) (fst (hd (ranking xs)))" using assms hd_ranking_mem [of xs] by (auto simp: proper_def)
  then show ?thesis using fold_take_better [OF n, of "FInf True" None] by simp
qed

text \<open>
  With scores that are numbers, the selected worker is the first, in order of registration, of the healthy workers with
  the highest score; nothing is selected only when no worker is healthy.
\<close>

theorem best_worker_selected:
  assumes "\<forall>w \<in> set (workers b). is_healthy w \<longrightarrow> proper (score_worker w p tags)"
  shows "case select_worker p tags b of
      None \<Rightarrow> healthy_count b = 0
    | Some i \<Rightarrow> \<exists>k < healthy_count b. case filter is_healthy (workers b) of hs \<Rightarrow>
        worker_id (hs ! k) = i
        \<and> (\<forall>j < length hs. fp_le (score_worker (hs ! j) p tags) (score_worker (hs ! k) p tags))
        \<and> (\<forall>j < k. fp_lt (score_worker (hs ! j) p tags) (score_worker (hs ! k) p tags))"
proof -
  let ?xs = "scored p tags (workers b)" and ?hs = "filter is_healthy (workers b)"
  have pr: "\<forall>x \<in> set ?xs. proper (fst x)" using assms by (auto simp: scored_def)
  have sel: "select_worker p tags b = (if ?xs = [] then None else Some (snd (hd (ranking ?xs))))"
    using fold_from_bottom [OF pr] by (simp add: select_worker_def fold_better)
  show ?thesis
  proof (cases "?hs = []")
    case True
    then show ?thesis using sel by (simp add: scored_def healthy_count_def)
  next
    case False
    then have ne: "?xs \<noteq> []" by (simp add: scored_def)
    have "\<forall>x \<in> set ?xs. fst x \<noteq> FNaN" using pr proper_notNaN by blast
    from hd_ranking_first_max [OF this ne] obtain k where k: "k < length ?xs" "hd (ranking ?xs) = ?xs ! k"
      "\<forall>j<length ?xs. fp_le (fst (?xs ! j)) (fst (?xs ! k))" "\<forall>j<k. fp_lt (fst (?xs ! j)) (fst (?xs ! k))" by blast
    have len: "length ?xs = length ?hs" by (simp add: scored_def)
    have nth: "?xs ! j = (score_worker (?hs ! j) p tags, worker_id (?hs ! j))" if "j < length ?hs" for j
      using that by (simp add: scored_def)
    show ?thesis using k ne sel nth len by (auto simp: healthy_count_def intro!: exI [of _ k])
  qed
qed

text \<open>The fallback chain starts with the selected worker.\<close>

theorem top_workers_start_with_selected:
  assumes "\<forall>w \<in> set (workers b). is_healthy w \<longrightarrow> proper (score_worker w p tags)" "0 < n"
  shows "(case select_top_workers p tags n b of [] \<Rightarrow> None | i # _ \<Rightarrow> Some i) = select_worker p tags b
    \<and> length (select_top_workers p tags n b) = min n (healthy_count b)"
proof -
  let ?xs = "scored p tags (workers b)"
  have pr: "\<forall>x \<in> set ?xs. proper (fst x)" using assms(1) by (auto simp: scored_def)
  have sel: "select_worker p tags b = (if ?xs = [] then None else Some (snd (hd (ranking ?xs))))"
    using fold_from_bottom [OF pr] by (simp add: select_worker_def fold_better)
  have top: "select_top_workers p tags n b = map snd (take n (ranking ?xs))" by (simp add: select_top_workers_def scored_def)
  have len: "length (ranking ?xs) = healthy_count b" by (simp add: scored_def healthy_count_def)
  show ?thesis
  proof (cases "ranking ?xs")
    case Nil
    then show ?thesis using sel top len by simp
  next
    case (Cons y ys)
    then have "?xs \<noteq> []" by auto
    then show ?thesis using Cons sel top len assms(2) by (cases n) (auto simp: take_Cons)
  qed
qed

section \<open>The index of tags\<close>

definition tagged :: "(string, string list) hashmap \<Rightarrow> string \<Rightarrow> string list" where
  "tagged m tag = (case hm_get m tag of Some v \<Rightarrow> v | None \<Rightarrow> [])"

lemma tagged_index: "set (tagged (fold (index_tag i) ts m) t) = set (tagged m t) \<union> (if t \<in> set ts then {i} else {})"
  by (induction ts arbitrary: m) (auto simp: tagged_def index_tag_def hm_get_insert)

lemma tagged_unindex: "set (tagged (fold (unindex_tag i) ts m) t) = set (tagged m t) - (if t \<in> set ts then {i} else {})"
proof (induction ts arbitrary: m)
  case (Cons a ts)
  have "set (tagged (unindex_tag i a m) t) = set (tagged m t) - (if t = a then {i} else {})"
    by (auto simp: tagged_def unindex_tag_def hm_get_insert split: option.split)
  then show ?case using Cons by auto
qed simp

definition tags_ok :: "PriorityLoadBalancer \<Rightarrow> bool" where
  "tags_ok b \<longleftrightarrow> distinct (map worker_id (workers b))
     \<and> (\<forall>t. set (tagged (affinity_map b) t) = worker_id ` {w \<in> set (workers b). t \<in> set (affinity_tags w)})"

lemma position_Some:
  "worker_position i ws = Some p \<Longrightarrow> p < length ws \<and> worker_id (ws ! p) = i"
  by (induction ws arbitrary: p) (auto split: if_splits)

lemma position_None: "worker_position i ws = None \<longleftrightarrow> i \<notin> worker_id ` set ws"
  by (induction ws) auto

lemma remove_as_filter:
  "distinct (map worker_id ws) \<Longrightarrow> worker_position i ws = Some p \<Longrightarrow> take p ws @ drop (Suc p) ws = filter (\<lambda>w. worker_id w \<noteq> i) ws"
proof (induction ws arbitrary: p)
  case (Cons w ws)
  show ?case
  proof (cases "worker_id w = i")
    case True
    moreover have "worker_id w \<notin> worker_id ` set ws" using Cons.prems(1) by simp
    ultimately have "\<forall>x \<in> set ws. worker_id x \<noteq> i" by (metis image_eqI)
    then have "filter (\<lambda>w. worker_id w \<noteq> i) ws = ws" by (intro filter_True)
    then show ?thesis using True Cons.prems(2) by auto
  qed (use Cons in auto)
qed simp

lemma remove_worker_ok:
  assumes "tags_ok b"
  shows "tags_ok (remove_worker i b) \<and> workers (remove_worker i b) = filter (\<lambda>w. worker_id w \<noteq> i) (workers b)"
proof (cases "worker_position i (workers b)")
  case None
  then have "filter (\<lambda>w. worker_id w \<noteq> i) (workers b) = workers b" by (auto simp: position_None filter_id_conv)
  then show ?thesis using None assms by (simp add: remove_worker_def)
next
  case (Some p)
  let ?w = "workers b ! p"
  have d: "distinct (map worker_id (workers b))" using assms by (simp add: tags_ok_def)
  have p: "p < length (workers b)" "worker_id ?w = i" using position_Some [OF Some] by simp_all
  have ws: "workers (remove_worker i b) = filter (\<lambda>w. worker_id w \<noteq> i) (workers b)"
    using remove_as_filter [OF d Some] Some by (simp add: remove_worker_def)
  have only: "w = ?w" if "w \<in> set (workers b)" "worker_id w = i" for w
    using d p that by (metis distinct_map inj_on_contraD nth_mem)
  have "set (tagged (affinity_map (remove_worker i b)) t) = worker_id ` {w \<in> set (workers (remove_worker i b)). t \<in> set (affinity_tags w)}" for t
  proof -
    have "set (tagged (affinity_map (remove_worker i b)) t) = set (tagged (affinity_map b) t) - (if t \<in> set (affinity_tags ?w) then {i} else {})"
      using Some by (simp add: remove_worker_def tagged_unindex)
    also have "set (tagged (affinity_map b) t) = worker_id ` {w \<in> set (workers b). t \<in> set (affinity_tags w)}"
      using assms by (simp add: tags_ok_def)
    finally show ?thesis using only by (auto simp: ws)
  qed
  moreover have "distinct (map worker_id (workers (remove_worker i b)))" using d by (simp add: ws distinct_map_filter)
  ultimately show ?thesis using ws by (simp add: tags_ok_def)
qed

lemma register_worker_ok: "tags_ok b \<Longrightarrow> tags_ok (register_worker w b)"
  using remove_worker_ok [of b "worker_id w"]
  by (auto simp: register_worker_def Let_def tags_ok_def tagged_index)

lemma update_as_map:
  "distinct (map worker_id ws) \<Longrightarrow> worker_position i ws = Some p \<Longrightarrow> ws[p := w] = map (\<lambda>x. if worker_id x = i then w else x) ws"
proof (induction ws arbitrary: p)
  case (Cons x ws)
  show ?case
  proof (cases "worker_id x = i")
    case True
    moreover have "worker_id x \<notin> worker_id ` set ws" using Cons.prems(1) by simp
    ultimately have "\<forall>x \<in> set ws. worker_id x \<noteq> i" by (metis image_eqI)
    then have "map (\<lambda>x. if worker_id x = i then w else x) ws = ws" by (intro map_idI) simp
    then show ?thesis using True Cons.prems(2) by auto
  qed (use Cons in auto)
qed simp

lemma update_worker_ok:
  assumes ok: "tags_ok b" and w: "worker_id w = i"
  shows "tags_ok (update_worker i w b)"
proof (cases "worker_position i (workers b)")
  case None
  then show ?thesis using register_worker_ok [OF ok] by (simp add: update_worker_def)
next
  case (Some p)
  let ?w = "workers b ! p"
  have d: "distinct (map worker_id (workers b))" using ok by (simp add: tags_ok_def)
  have p: "p < length (workers b)" "worker_id ?w = i" using position_Some [OF Some] by simp_all
  have only: "x = ?w" if "x \<in> set (workers b)" "worker_id x = i" for x
    using d p that by (metis distinct_map inj_on_contraD nth_mem)
  have ws: "workers (update_worker i w b) = map (\<lambda>x. if worker_id x = i then w else x) (workers b)"
    using update_as_map [OF d Some] Some by (simp add: update_worker_def Let_def)
  have ids: "map worker_id (workers (update_worker i w b)) = map worker_id (workers b)" using w by (simp add: ws)
  have mem: "?w \<in> set (workers b)" using p by simp
  have "set (tagged (affinity_map (update_worker i w b)) t) = worker_id ` {x \<in> set (workers (update_worker i w b)). t \<in> set (affinity_tags x)}" for t
  proof -
    have m: "set (tagged (affinity_map (update_worker i w b)) t)
      = (set (tagged (affinity_map b) t) - (if t \<in> set (affinity_tags ?w) then {i} else {})) \<union> (if t \<in> set (affinity_tags w) then {i} else {})"
      using Some w by (simp add: update_worker_def Let_def tagged_unindex tagged_index)
    have b: "set (tagged (affinity_map b) t) = worker_id ` {x \<in> set (workers b). t \<in> set (affinity_tags x)}"
      using ok by (simp add: tags_ok_def)
    have s: "set (workers (update_worker i w b)) = insert w {x \<in> set (workers b). worker_id x \<noteq> i}"
      using mem p(2) by (auto simp: ws)
    let ?A = "worker_id ` {x \<in> set (workers b). t \<in> set (affinity_tags x)}"
    have r: "worker_id ` {x \<in> insert w {x \<in> set (workers b). worker_id x \<noteq> i}. t \<in> set (affinity_tags x)}
      = (?A - {i}) \<union> (if t \<in> set (affinity_tags w) then {i} else {})" using w by auto
    have "i \<notin> ?A" if "t \<notin> set (affinity_tags ?w)" using that only by auto
    then have "?A - (if t \<in> set (affinity_tags ?w) then {i} else {}) = ?A - {i}" by auto
    then show ?thesis by (simp only: m b s r)
  qed
  then show ?thesis using d ids by (simp add: tags_ok_def)
qed

datatype balancer_call = RegisterWorker WorkerStats | UpdateWorker WorkerStats | RemoveWorker string

fun balancer_step :: "balancer_call \<Rightarrow> PriorityLoadBalancer \<Rightarrow> PriorityLoadBalancer" where
  "balancer_step (RegisterWorker w) b = register_worker w b"
| "balancer_step (UpdateWorker w) b = update_worker (worker_id w) w b"
| "balancer_step (RemoveWorker i) b = remove_worker i b"

interpretation balancer: stateful balancer_step tags_ok
proof
  fix b c assume "tags_ok b"
  then show "tags_ok (balancer_step c b)"
    using register_worker_ok update_worker_ok remove_worker_ok by (cases c) auto
qed

text \<open>
  As long as updates keep the identifier of their worker, identifiers are unique and the index lists, under every tag,
  exactly the workers that carry it.
\<close>

theorem tag_index_exact:
  "case fold balancer_step cs balancer_new of b \<Rightarrow>
     distinct (map worker_id (workers b))
     \<and> (\<forall>t. set (workers_for_tag t b) = worker_id ` {w \<in> set (workers b). t \<in> set (affinity_tags w)})"
proof -
  have "tags_ok balancer_new" by (simp add: tags_ok_def balancer_new_def tagged_def)
  then have "tags_ok (fold balancer_step cs balancer_new)" by (rule balancer.run_inv)
  then show ?thesis by (simp add: tags_ok_def workers_for_tag_def tagged_def)
qed

section \<open>Two cases the documentation excludes\<close>

definition worker_of :: "string \<Rightarrow> usize \<Rightarrow> string list \<Rightarrow> WorkerStats" where
  "worker_of i queued tags = \<lparr>worker_id = i, queue_depth = queued, max_capacity = 2, avg_latency_ms = FFin 0,
     error_rate = FFin 0, affinity_tags = tags, is_healthy = True\<rparr>"

text \<open>An update that changes the identifier can give two workers the same one; removing it removes the first.\<close>

lemma update_can_duplicate:
  "map worker_id (workers (update_worker ''a'' (worker_of ''b'' 0 []) (fold register_worker [worker_of ''a'' 0 [], worker_of ''b'' 0 []] balancer_new)))
    = [''b'', ''b'']"
  by (simp add: update_worker_def register_worker_def remove_worker_def worker_of_def balancer_new_def)

lemma score_values:
  "score_worker (worker_of ''a'' 0 []) Critical [''x'', ''y'', ''z''] = FFin 130"
  "score_worker (worker_of ''b'' 1 [''x'', ''y'', ''z'']) Critical [''x'', ''y'', ''z''] = FFin 140"
proof -
  note r = rnd64_dyadic [of 30 0] rnd64_dyadic [of 3 0] rnd64_dyadic [of 2 0] rnd64_dyadic [of 1 1] rnd64_dyadic [of 50 0]
    rnd64_dyadic [of 25 0] rnd64_dyadic [of 100 0] rnd64_dyadic [of 60 0] rnd64_dyadic [of 130 0] rnd64_dyadic [of 80 0]
    rnd64_dyadic [of 140 0]
  have t: "f64_mul (FFin 0) (rnd64 (1 / 10)) = FFin 0"
    using rnd64_mono [of 0 "1 / 10"] rnd64_mono [of "1 / 10" 1] by (cases "rnd64 (1 / 10)") auto
  note d = score_worker_def worker_of_def Let_def f64_sub_def f64_of_nat_def f64_of_u64_def f64_clamp_def
  show "score_worker (worker_of ''a'' 0 []) Critical [''x'', ''y'', ''z''] = FFin 130"
    using r t by (simp add: d)
  show "score_worker (worker_of ''b'' 1 [''x'', ''y'', ''z'']) Critical [''x'', ''y'', ''z''] = FFin 140"
    using r t by (simp add: d)
qed

text \<open>A critical task with three tags goes to the half-full worker that carries them, not to the empty one.\<close>

theorem affinity_beats_capacity:
  "select_worker Critical [''x'', ''y'', ''z'']
     (fold register_worker [worker_of ''a'' 0 [], worker_of ''b'' 1 [''x'', ''y'', ''z'']] balancer_new) = Some ''b''"
proof -
  have ws: "workers (fold register_worker [worker_of ''a'' 0 [], worker_of ''b'' 1 [''x'', ''y'', ''z'']] balancer_new)
    = [worker_of ''a'' 0 [], worker_of ''b'' 1 [''x'', ''y'', ''z'']]"
    by (simp add: register_worker_def remove_worker_def worker_of_def balancer_new_def)
  have h: "is_healthy (worker_of i n ts)" "worker_id (worker_of i n ts) = i" for i n ts by (simp_all add: worker_of_def)
  show ?thesis unfolding select_worker_def ws by (simp add: better_def h score_values)
qed

definition demo_balancer :: PriorityLoadBalancer where
  "demo_balancer = \<lparr>workers = [worker_of ''a'' 0 [], worker_of ''b'' 1 [''x'', ''y'', ''z'']], affinity_map = []\<rparr>"

lemma demo_proper:
  "\<forall>w \<in> set (workers demo_balancer). is_healthy w \<longrightarrow> proper (score_worker w Critical [''x'', ''y'', ''z''])"
  by (simp add: demo_balancer_def score_values proper_def)

lemma best_worker_selected_witness: "select_worker Critical [''x'', ''y'', ''z''] demo_balancer \<noteq> None"
proof -
  have "healthy_count demo_balancer \<noteq> 0" by (simp add: healthy_count_def demo_balancer_def worker_of_def)
  then show ?thesis using best_worker_selected [OF demo_proper] by (auto split: option.splits)
qed

lemma top_workers_start_with_selected_witness:
  "length (select_top_workers Critical [''x'', ''y'', ''z''] 1 demo_balancer) = 1"
proof -
  have "healthy_count demo_balancer = 2" by (simp add: healthy_count_def demo_balancer_def worker_of_def)
  then show ?thesis using top_workers_start_with_selected [OF demo_proper, of 1] by simp
qed

end
