(* ===== verification/PriorityMonitor.thy ===== *)
theory PriorityMonitor
  imports Prelude
begin

text \<open>
  The priority monitor (\<open>src/priority_monitor.rs\<close>): jobs in flight by identifier, and the scan for jobs of high
  priority that have waited while a job of lower priority has been registered longer. An \<open>Instant\<close> is a number of
  nanoseconds. The map of jobs is a list of pairs whose order stands for its iteration order.
\<close>

section \<open>State\<close>

datatype Priority = Low | Normal | High | Critical

fun level :: "Priority \<Rightarrow> nat" where
  "level Low = 0"
| "level Normal = 1"
| "level High = 2"
| "level Critical = 3"

instantiation Priority :: linorder
begin

definition less_eq_Priority :: "Priority \<Rightarrow> Priority \<Rightarrow> bool" where
  "less_eq_Priority a b \<longleftrightarrow> level a \<le> level b"

definition less_Priority :: "Priority \<Rightarrow> Priority \<Rightarrow> bool" where
  "less_Priority a b \<longleftrightarrow> level a < level b"

instance
proof
  fix a b :: Priority
  show "a \<le> b \<Longrightarrow> b \<le> a \<Longrightarrow> a = b" by (cases a; cases b) (simp_all add: less_eq_Priority_def)
qed (auto simp: less_eq_Priority_def less_Priority_def)

end

fun Priority_to_string :: "Priority \<Rightarrow> string" where
  "Priority_to_string Low = ''low''"
| "Priority_to_string Normal = ''normal''"
| "Priority_to_string High = ''high''"
| "Priority_to_string Critical = ''critical''"

datatype InversionAction = Escalate | Preempt

record PriorityMonitorConfig =
  inversion_threshold_ms :: u64
  default_action :: InversionAction
  max_inversions_per_tick :: nat

definition PriorityMonitorConfig_default :: PriorityMonitorConfig where
  "PriorityMonitorConfig_default = \<lparr>inversion_threshold_ms = 100, default_action = Escalate, max_inversions_per_tick = 10\<rparr>"

record InversionEvent =
  high_job_id :: u64
  high_priority :: Priority
  waiting_ms :: u64
  low_blocker_id :: u64
  low_priority :: Priority
  blocker_running_ms :: u64
  inv_action :: InversionAction

record InFlightJob =
  if_priority :: Priority
  registered_at :: nat
  effective_priority :: Priority

record MonitorState =
  mon_cfg :: PriorityMonitorConfig
  jobs :: "(u64, InFlightJob) hashmap"
  total_inversions_detected :: u64
  total_escalations :: u64
  total_preemptions :: u64

definition monitor_new :: "PriorityMonitorConfig \<Rightarrow> MonitorState" where
  "monitor_new c = \<lparr>mon_cfg = c, jobs = [], total_inversions_detected = 0, total_escalations = 0, total_preemptions = 0\<rparr>"

section \<open>Operations\<close>

definition register_job :: "nat \<Rightarrow> u64 \<Rightarrow> Priority \<Rightarrow> MonitorState \<Rightarrow> MonitorState" where
  "register_job now i p s =
    s\<lparr>jobs := hm_insert i \<lparr>if_priority = p, registered_at = now, effective_priority = p\<rparr> (jobs s)\<rparr>"

definition complete_job :: "u64 \<Rightarrow> MonitorState \<Rightarrow> MonitorState" where
  "complete_job i s = s\<lparr>jobs := hm_remove i (jobs s)\<rparr>"

text \<open>A \<open>Duration\<close> in whole milliseconds, as \<open>u64\<close>.\<close>

definition millis :: "nat \<Rightarrow> u64" where
  "millis d = of_nat (d div 10 ^ 6)"

definition waits_long :: "nat \<Rightarrow> PriorityMonitorConfig \<Rightarrow> InFlightJob \<Rightarrow> bool" where
  "waits_long now c hi \<longleftrightarrow> \<not> if_priority hi < High \<and> \<not> now - registered_at hi < unat (inversion_threshold_ms c) * 10 ^ 6"

definition blocks :: "nat \<Rightarrow> u64 \<times> InFlightJob \<Rightarrow> u64 \<times> InFlightJob \<Rightarrow> bool" where
  "blocks now hi lo \<longleftrightarrow> fst lo \<noteq> fst hi \<and> \<not> effective_priority (snd hi) \<le> if_priority (snd lo)
     \<and> registered_at (snd lo) \<le> registered_at (snd hi) \<and> now - registered_at (snd hi) \<le> now - registered_at (snd lo)"

definition event_for :: "nat \<Rightarrow> InversionAction \<Rightarrow> u64 \<times> InFlightJob \<Rightarrow> u64 \<times> InFlightJob \<Rightarrow> InversionEvent" where
  "event_for now a hi lo =
    \<lparr>high_job_id = fst hi, high_priority = if_priority (snd hi), waiting_ms = millis (now - registered_at (snd hi)),
     low_blocker_id = fst lo, low_priority = if_priority (snd lo), blocker_running_ms = millis (now - registered_at (snd lo)),
     inv_action = a\<rparr>"

definition note_event :: "InversionAction \<Rightarrow> u64 \<Rightarrow> MonitorState \<Rightarrow> MonitorState" where
  "note_event a i s =
    (let s = s\<lparr>total_inversions_detected := total_inversions_detected s + 1\<rparr>
     in case a of
          Escalate \<Rightarrow>
            (case hm_get (jobs s) i of
               Some j \<Rightarrow> s\<lparr>jobs := hm_insert i (j\<lparr>effective_priority := Critical\<rparr>) (jobs s), total_escalations := total_escalations s + 1\<rparr>
             | None \<Rightarrow> s\<lparr>total_escalations := total_escalations s + 1\<rparr>)
        | Preempt \<Rightarrow> s\<lparr>total_preemptions := total_preemptions s + 1\<rparr>)"

text \<open>The outer loop, over the rest of the snapshot; the inner loop searches the whole snapshot.\<close>

fun scan_jobs ::
  "nat \<Rightarrow> PriorityMonitorConfig \<Rightarrow> (u64 \<times> InFlightJob) list \<Rightarrow> (u64 \<times> InFlightJob) list \<Rightarrow> InversionEvent list \<Rightarrow> MonitorState \<Rightarrow>
   InversionEvent list \<times> MonitorState" where
  "scan_jobs now c snapshot [] events s = (events, s)"
| "scan_jobs now c snapshot (hi # rest) events s =
    (if \<not> waits_long now c (snd hi) then scan_jobs now c snapshot rest events s
     else case find (blocks now hi) snapshot of
            None \<Rightarrow> scan_jobs now c snapshot rest events s
          | Some lo \<Rightarrow>
              let events = events @ [event_for now (default_action c) hi lo];
                  s = note_event (default_action c) (fst hi) s
              in if max_inversions_per_tick c \<le> length events then (events, s)
                 else scan_jobs now c snapshot rest events s)"

definition detect_inversions :: "nat \<Rightarrow> MonitorState \<Rightarrow> InversionEvent list \<times> MonitorState" where
  "detect_inversions now s = scan_jobs now (mon_cfg s) (jobs s) (jobs s) [] s"

record PriorityMonitorSnapshot =
  in_flight_count :: nat
  ps_inversions :: u64
  ps_escalations :: u64
  ps_preemptions :: u64
  in_flight_by_priority :: "(string, nat) hashmap"

definition count_priority :: "InFlightJob \<Rightarrow> (string, nat) hashmap \<Rightarrow> (string, nat) hashmap" where
  "count_priority j m =
    (let k = Priority_to_string (if_priority j) in hm_insert k ((case hm_get m k of Some n \<Rightarrow> n | None \<Rightarrow> 0) + 1) m)"

definition monitor_snapshot :: "MonitorState \<Rightarrow> PriorityMonitorSnapshot" where
  "monitor_snapshot s =
    \<lparr>in_flight_count = length (jobs s), ps_inversions = total_inversions_detected s, ps_escalations = total_escalations s,
     ps_preemptions = total_preemptions s, in_flight_by_priority = fold count_priority (map snd (jobs s)) []\<rparr>"

section \<open>What a scan reports\<close>

text \<open>The event a job deserves: none, or that of its first blocker in the order of iteration.\<close>

definition deserved :: "nat \<Rightarrow> PriorityMonitorConfig \<Rightarrow> (u64 \<times> InFlightJob) list \<Rightarrow> u64 \<times> InFlightJob \<Rightarrow> InversionEvent option" where
  "deserved now c snapshot hi =
    (if waits_long now c (snd hi) then map_option (event_for now (default_action c) hi) (find (blocks now hi) snapshot) else None)"

lemma scan_jobs_events:
  "length events < max 1 (max_inversions_per_tick c) \<Longrightarrow>
   fst (scan_jobs now c snapshot hs events s) = take (max 1 (max_inversions_per_tick c)) (events @ List.map_filter (deserved now c snapshot) hs)"
proof (induction hs arbitrary: events s)
  case (Cons hi hs)
  show ?case
  proof (cases "deserved now c snapshot hi")
    case None
    then show ?thesis using Cons by (auto simp: deserved_def map_filter_simps split: if_splits option.splits)
  next
    case (Some ev)
    then obtain lo where lo: "waits_long now c (snd hi)" "find (blocks now hi) snapshot = Some lo" "ev = event_for now (default_action c) hi lo"
      by (auto simp: deserved_def split: if_splits)
    show ?thesis
    proof (cases "max_inversions_per_tick c \<le> length (events @ [ev])")
      case True
      then have "max 1 (max_inversions_per_tick c) = Suc (length events)" using Cons.prems by auto
      then show ?thesis using True lo Some by (simp add: Let_def)
    next
      case False
      then show ?thesis using Cons.IH [of "events @ [ev]"] lo Some by (simp add: Let_def)
    qed
  qed
qed (auto simp: map_filter_simps)

text \<open>
  A scan reports exactly the jobs that deserve an event, in the order of iteration, up to the configured number, but
  at least one.
\<close>

theorem scan_reports_inversions:
  "fst (detect_inversions now s) =
    take (max 1 (max_inversions_per_tick (mon_cfg s))) (List.map_filter (deserved now (mon_cfg s) (jobs s)) (jobs s))"
  using scan_jobs_events [of "[]" "mon_cfg s"] by (simp add: detect_inversions_def)

text \<open>An event names two jobs in flight, one of them waiting too long behind one of lower priority.\<close>

theorem events_are_inversions:
  assumes "hm_wf (jobs s)" "ev \<in> set (fst (detect_inversions now s))"
  shows "\<exists>hi lo. hm_get (jobs s) (high_job_id ev) = Some hi \<and> hm_get (jobs s) (low_blocker_id ev) = Some lo
    \<and> high_job_id ev \<noteq> low_blocker_id ev \<and> High \<le> if_priority hi \<and> if_priority lo < effective_priority hi
    \<and> unat (inversion_threshold_ms (mon_cfg s)) * 10 ^ 6 \<le> now - registered_at hi \<and> registered_at lo \<le> registered_at hi"
proof -
  have "ev \<in> set (List.map_filter (deserved now (mon_cfg s) (jobs s)) (jobs s))"
    using assms(2) unfolding scan_reports_inversions by (rule in_set_takeD)
  then obtain hi where hi: "hi \<in> set (jobs s)" "deserved now (mon_cfg s) (jobs s) hi = Some ev"
    by (auto simp: List.map_filter_def)
  then obtain lo where lo: "waits_long now (mon_cfg s) (snd hi)" "find (blocks now hi) (jobs s) = Some lo"
    "ev = event_for now (default_action (mon_cfg s)) hi lo" by (auto simp: deserved_def split: if_splits)
  have "lo \<in> set (jobs s)" "blocks now hi lo" using lo(2) by (auto simp: find_Some_iff)
  then show ?thesis using hi(1) lo(1) assms(1)
    by (intro exI [of _ "snd hi"] exI [of _ "snd lo"])
       (auto simp: lo(3) event_for_def hm_get_eq_Some_iff waits_long_def blocks_def not_less not_le)
qed

section \<open>The counters\<close>

definition monitor_ok :: "MonitorState \<Rightarrow> bool" where
  "monitor_ok s \<longleftrightarrow> hm_wf (jobs s) \<and> total_inversions_detected s = total_escalations s + total_preemptions s
     \<and> (\<forall>i j. hm_get (jobs s) i = Some j \<longrightarrow> if_priority j \<le> effective_priority j)"

lemma le_Critical [simp]: "p \<le> Critical"
  by (cases p) (simp_all add: less_eq_Priority_def)

lemma note_event_ok: "monitor_ok s \<Longrightarrow> monitor_ok (note_event a i s)"
  by (cases a) (auto simp: monitor_ok_def note_event_def Let_def hm_get_insert split: option.splits if_splits)

lemma scan_jobs_ok: "monitor_ok s \<Longrightarrow> monitor_ok (snd (scan_jobs now c snapshot hs events s))"
  by (induction hs arbitrary: events s) (auto simp: Let_def note_event_ok split: option.splits)

datatype monitor_call = Register nat u64 Priority | Complete u64 | Tick nat

fun monitor_step :: "monitor_call \<Rightarrow> MonitorState \<Rightarrow> MonitorState" where
  "monitor_step (Register now i p) s = register_job now i p s"
| "monitor_step (Complete i) s = complete_job i s"
| "monitor_step (Tick now) s = snd (detect_inversions now s)"

interpretation monitor: stateful monitor_step monitor_ok
proof
  fix s c assume ok: "monitor_ok s"
  show "monitor_ok (monitor_step c s)"
  proof (cases c)
    case (Tick now)
    then show ?thesis using scan_jobs_ok [OF ok] by (simp add: detect_inversions_def)
  qed (use ok in \<open>auto simp: monitor_ok_def register_job_def complete_job_def hm_get_insert hm_get_remove split: if_splits\<close>)
qed

text \<open>
  In every reachable state every inversion was counted as an escalation or as a preemption, and no job has an effective
  priority below its own.
\<close>

theorem inversions_accounted:
  "case fold monitor_step cs (monitor_new c) of s \<Rightarrow>
     total_inversions_detected s = total_escalations s + total_preemptions s
     \<and> (\<forall>i j. hm_get (jobs s) i = Some j \<longrightarrow> if_priority j \<le> effective_priority j)"
proof -
  have "monitor_ok (monitor_new c)" by (simp add: monitor_ok_def monitor_new_def)
  then have "monitor_ok (fold monitor_step cs (monitor_new c))" by (rule monitor.run_inv)
  then show ?thesis by (simp add: monitor_ok_def)
qed

section \<open>Two consequences\<close>

text \<open>A pair of jobs that stays in flight is reported, and counted as escalated, again at every tick.\<close>

lemmas scan_eval = detect_inversions_def waits_long_def blocks_def event_for_def note_event_def millis_def
  less_Priority_def less_eq_Priority_def hm_get_def hm_insert_def

definition pair_run :: MonitorState where
  "pair_run = register_job 1 1 High (register_job 0 0 Low (monitor_new PriorityMonitorConfig_default))"

theorem escalated_again_every_tick:
  "total_escalations (fold monitor_step [Tick 200000000, Tick 200000001, Tick 200000002] pair_run) = 3
   \<and> map high_job_id (fst (detect_inversions 200000003 (fold monitor_step [Tick 200000000, Tick 200000001, Tick 200000002] pair_run))) = [1]"
  by (simp add: pair_run_def register_job_def monitor_new_def PriorityMonitorConfig_default_def scan_eval)

text \<open>A limit of no inversions per tick still reports one.\<close>

lemma limit_zero_reports_one:
  "length (fst (detect_inversions 200000000 (pair_run\<lparr>mon_cfg := PriorityMonitorConfig_default\<lparr>max_inversions_per_tick := 0\<rparr>\<rparr>))) = 1"
  by (simp add: pair_run_def register_job_def monitor_new_def PriorityMonitorConfig_default_def scan_eval)

lemma events_are_inversions_witness:
  "\<exists>hi lo. hm_get (jobs pair_run) 1 = Some hi \<and> hm_get (jobs pair_run) 0 = Some lo \<and> if_priority lo < effective_priority hi"
proof -
  have w: "hm_wf (jobs pair_run)" by (simp add: pair_run_def register_job_def monitor_new_def)
  have e: "fst (detect_inversions 200000000 pair_run) = [\<lparr>high_job_id = 1, high_priority = High, waiting_ms = 199, low_blocker_id = 0,
    low_priority = Low, blocker_running_ms = 200, inv_action = Escalate\<rparr>]"
    by (simp add: pair_run_def register_job_def monitor_new_def PriorityMonitorConfig_default_def scan_eval)
  show ?thesis using events_are_inversions [OF w, of _ 200000000, unfolded e] by auto
qed

end
