(* ===== verification/HealthAggregator.thy ===== *)
theory HealthAggregator
  imports Floats
begin

text \<open>
  The health aggregator (\<open>src/health_aggregator.rs\<close>): the last observation of every endpoint, its class, and the
  weighted score over all endpoints, summed in the iteration order of the map, which is the order of the list. The
  lock on the weights is never poisoned: no code panics while it holds it.
\<close>

section \<open>State\<close>

datatype HealthStatus = Healthy | Degraded | Unhealthy | Unknown

record EndpointHealth =
  eh_endpoint :: string
  eh_status :: HealthStatus
  eh_latency_ms :: f64
  eh_error_rate :: f64
  last_checked_ms :: u64
  eh_weight :: f64

record HealthAggregator =
  endpoints :: "(string, EndpointHealth) hashmap"
  ha_weights :: "(string, f64) hashmap"

definition aggregator_new :: HealthAggregator where
  "aggregator_new = \<lparr>endpoints = [], ha_weights = []\<rparr>"

section \<open>Operations\<close>

definition register_endpoint :: "string \<Rightarrow> f64 \<Rightarrow> HealthAggregator \<Rightarrow> HealthAggregator" where
  "register_endpoint name w a =
    (let a = a\<lparr>ha_weights := hm_insert name w (ha_weights a)\<rparr>
     in case hm_get (endpoints a) name of
          Some _ \<Rightarrow> a
        | None \<Rightarrow> a\<lparr>endpoints := hm_insert name \<lparr>eh_endpoint = name, eh_status = Unknown, eh_latency_ms = FFin 0,
              eh_error_rate = FFin 0, last_checked_ms = 0, eh_weight = w\<rparr> (endpoints a)\<rparr>)"

definition classify_health :: "f64 \<Rightarrow> f64 \<Rightarrow> HealthStatus" where
  "classify_health latency err =
    (if fp_lt err (rnd64 (1 / 100)) \<and> fp_lt latency (FFin 200) then Healthy
     else if fp_lt err (rnd64 (5 / 100)) \<or> fp_lt latency (FFin 500) then Degraded
     else Unhealthy)"

definition update_health :: "string \<Rightarrow> f64 \<Rightarrow> f64 \<Rightarrow> u64 \<Rightarrow> HealthAggregator \<Rightarrow> HealthAggregator" where
  "update_health name latency err ts a =
    (let w = (case hm_get (ha_weights a) name of Some w \<Rightarrow> w | None \<Rightarrow> FFin 1)
     in a\<lparr>endpoints := hm_insert name \<lparr>eh_endpoint = name, eh_status = classify_health latency err, eh_latency_ms = latency,
            eh_error_rate = err, last_checked_ms = ts, eh_weight = w\<rparr> (endpoints a)\<rparr>)"

fun status_score :: "HealthStatus \<Rightarrow> rat" where
  "status_score Healthy = 1"
| "status_score Degraded = 1 / 2"
| "status_score Unhealthy = 0"
| "status_score Unknown = 1 / 4"

definition add_endpoint :: "EndpointHealth \<Rightarrow> f64 \<times> f64 \<Rightarrow> f64 \<times> f64" where
  "add_endpoint h acc =
    (f64_add (fst acc) (f64_mul (FFin (status_score (eh_status h))) (eh_weight h)), f64_add (snd acc) (eh_weight h))"

definition aggregate_score :: "HealthAggregator \<Rightarrow> f64" where
  "aggregate_score a =
    (case fold add_endpoint (map snd (endpoints a)) (FFin 0, FFin 0) of
       (weighted_sum, total_weight) \<Rightarrow> if total_weight = FFin 0 then FFin 0 else f64_div weighted_sum total_weight)"

definition overall_status :: "HealthAggregator \<Rightarrow> HealthStatus" where
  "overall_status a =
    (let score = aggregate_score a
     in if fp_lt (rnd64 (8 / 10)) score then Healthy
        else if fp_lt (rnd64 (4 / 10)) score then Degraded
        else Unhealthy)"

definition unhealthy_endpoints :: "HealthAggregator \<Rightarrow> string list" where
  "unhealthy_endpoints a = map fst (filter (\<lambda>(_, h). eh_status h = Unhealthy) (endpoints a))"

definition stale_endpoints :: "u64 \<Rightarrow> u64 \<Rightarrow> HealthAggregator \<Rightarrow> string list" where
  "stale_endpoints max_age now a = map fst (filter (\<lambda>(_, h). max_age < sat_sub now (last_checked_ms h)) (endpoints a))"

record HealthReport =
  hr_overall :: HealthStatus
  hr_score :: f64
  endpoint_count :: nat
  hr_healthy_count :: nat
  degraded_count :: nat
  unhealthy_count :: nat

definition count_status :: "HealthStatus \<Rightarrow> HealthAggregator \<Rightarrow> nat" where
  "count_status st a = length (filter (\<lambda>h. eh_status h = st) (map snd (endpoints a)))"

definition health_report :: "HealthAggregator \<Rightarrow> HealthReport" where
  "health_report a = \<lparr>hr_overall = overall_status a, hr_score = aggregate_score a, endpoint_count = length (endpoints a),
     hr_healthy_count = count_status Healthy a, degraded_count = count_status Degraded a, unhealthy_count = count_status Unhealthy a\<rparr>"

section \<open>The score\<close>

definition weights_ok :: "HealthAggregator \<Rightarrow> bool" where
  "weights_ok a \<longleftrightarrow> (\<forall>h \<in> snd ` set (endpoints a). \<exists>q. eh_weight h = FFin q \<and> rnd64 q = FFin q \<and> 0 \<le> q)"

lemma status_score_unit: "0 \<le> status_score st" "status_score st \<le> 1"
  by (cases st; simp)+

lemma add_endpoint_ordered:
  assumes "fp_le (FFin 0) ws" "fp_le ws tw" "eh_weight h = FFin q" "rnd64 q = FFin q" "0 \<le> q"
  shows "fp_le (FFin 0) (fst (add_endpoint h (ws, tw))) \<and> fp_le (fst (add_endpoint h (ws, tw))) (snd (add_endpoint h (ws, tw)))"
proof -
  let ?s = "status_score (eh_status h)"
  have sq: "0 \<le> ?s * q" "?s * q \<le> q" using status_score_unit assms(5) by (simp_all add: mult_left_le_one_le)
  have le: "fp_le (rnd64 (?s * q)) (FFin q)" using rnd64_mono [OF sq(2)] assms(4) by simp
  have ge: "fp_le (FFin 0) (rnd64 (?s * q))" by (rule rnd64_nonneg [OF sq(1)])
  obtain p where p: "rnd64 (?s * q) = FFin p" "0 \<le> p" "p \<le> q" using le ge by (cases "rnd64 (?s * q)") auto
  show ?thesis
  proof (cases ws; cases tw)
    fix u v assume w: "ws = FFin u" "tw = FFin v"
    then have uv: "0 \<le> u" "u \<le> v" using assms(1,2) by simp_all
    have "fp_le (FFin 0) (rnd64 (u + p))" by (rule rnd64_nonneg) (use uv p in simp)
    moreover have "fp_le (rnd64 (u + p)) (rnd64 (v + q))" by (rule rnd64_mono) (use uv p in simp)
    ultimately show ?thesis using w p by (simp add: add_endpoint_def assms(3))
  next
    fix u s assume w: "ws = FFin u" "tw = FInf s"
    then have "fp_le (FFin 0) (rnd64 (u + p))" using assms(1) p by (intro rnd64_nonneg) simp
    moreover have "fp_le x (FInf False)" if "x \<noteq> FNaN" for x using that by (cases x) auto
    ultimately show ?thesis using w assms(2) p by (cases "rnd64 (u + p)") (auto simp: add_endpoint_def assms(3))
  qed (use assms(1,2) p in \<open>auto simp: add_endpoint_def assms(3)\<close>)
qed

lemma fold_add_ordered:
  assumes "\<forall>h \<in> set hs. \<exists>q. eh_weight h = FFin q \<and> rnd64 q = FFin q \<and> 0 \<le> q" "fp_le (FFin 0) ws" "fp_le ws tw"
  shows "case fold add_endpoint hs (ws, tw) of (ws', tw') \<Rightarrow> fp_le (FFin 0) ws' \<and> fp_le ws' tw'"
  using assms
proof (induction hs arbitrary: ws tw)
  case (Cons h hs)
  then obtain q where q: "eh_weight h = FFin q" "rnd64 q = FFin q" "0 \<le> q" by auto
  obtain ws' tw' where s: "add_endpoint h (ws, tw) = (ws', tw')" by force
  have "fp_le (FFin 0) ws'" "fp_le ws' tw'" using add_endpoint_ordered [OF Cons.prems(2,3) q] by (simp_all add: s)
  then show ?case using Cons.IH [of ws' tw'] Cons.prems(1) by (simp add: s)
qed simp

text \<open>
  With weights that are not negative and whose sum is a number in range, the score lies in the unit interval, whatever
  the roundings of the sums.
\<close>

theorem score_in_unit:
  assumes "weights_ok a" "snd (fold add_endpoint (map snd (endpoints a)) (FFin 0, FFin 0)) = FFin t"
  shows "in_unit (aggregate_score a)"
proof -
  obtain ws where f: "fold add_endpoint (map snd (endpoints a)) (FFin 0, FFin 0) = (ws, FFin t)"
    using assms(2) by (metis prod.collapse)
  have "fp_le (FFin 0) ws \<and> fp_le ws (FFin t)"
    using fold_add_ordered [of "map snd (endpoints a)" "FFin 0" "FFin 0"] assms(1) by (simp add: weights_ok_def f)
  then obtain u where u: "ws = FFin u" "0 \<le> u" "u \<le> t" by (cases ws) auto
  show ?thesis
  proof (cases "t = 0")
    case False
    then have "0 \<le> u / t" "u / t \<le> 1" using u by simp_all
    from rnd64_nonneg [OF this(1)] rnd64_mono [OF this(2)] have "in_unit (rnd64 (u / t))"
      by (cases "rnd64 (u / t)") auto
    then show ?thesis using False by (simp add: aggregate_score_def f u)
  qed (simp add: aggregate_score_def f)
qed

definition demo_aggregator :: HealthAggregator where
  "demo_aggregator = fold (\<lambda>(n, w). register_endpoint n w) [(''a'', FFin 1), (''b'', FFin 3)] aggregator_new"

lemma demo_endpoints:
  "map snd (endpoints demo_aggregator) = map (\<lambda>(n, w). \<lparr>eh_endpoint = n, eh_status = Unknown, eh_latency_ms = FFin 0,
     eh_error_rate = FFin 0, last_checked_ms = 0, eh_weight = w\<rparr>) [(''a'', FFin 1), (''b'', FFin 3)]"
  by (simp add: demo_aggregator_def register_endpoint_def aggregator_new_def Let_def hm_get_def hm_insert_def)

lemma score_in_unit_witness: "in_unit (aggregate_score demo_aggregator)"
proof (rule score_in_unit [where t = 4])
  have r: "rnd64 1 = FFin 1" "rnd64 3 = FFin 3" "rnd64 4 = FFin 4" "rnd64 (1 / 4) = FFin (1 / 4)" "rnd64 (3 / 4) = FFin (3 / 4)"
    using rnd64_dyadic [of 1 0] rnd64_dyadic [of 3 0] rnd64_dyadic [of 4 0] rnd64_dyadic [of 1 2] rnd64_dyadic [of 3 2] by simp_all
  show "weights_ok demo_aggregator" using r
    by (simp add: weights_ok_def demo_aggregator_def register_endpoint_def aggregator_new_def Let_def hm_get_def hm_insert_def)
  show "snd (fold add_endpoint (map snd (endpoints demo_aggregator)) (FFin 0, FFin 0)) = FFin 4"
    using demo_endpoints r by (auto simp: add_endpoint_def)
qed

text \<open>The counts of a report cover the endpoints that have been observed.\<close>

theorem report_counts_observed:
  "hr_healthy_count (health_report a) + degraded_count (health_report a) + unhealthy_count (health_report a) + count_status Unknown a
    = endpoint_count (health_report a)"
proof -
  have "length (filter (\<lambda>h. eh_status h = Healthy) hs) + length (filter (\<lambda>h. eh_status h = Degraded) hs)
    + length (filter (\<lambda>h. eh_status h = Unhealthy) hs) + length (filter (\<lambda>h. eh_status h = Unknown) hs) = length hs" for hs
  proof (induction hs)
    case (Cons h hs)
    then show ?case by (cases "eh_status h") simp_all
  qed simp
  from this [of "map snd (endpoints a)"] show ?thesis by (simp add: health_report_def count_status_def)
qed

text \<open>
  After its first registration an endpoint keeps its weight until its next observation, even if it is registered again
  with another weight; the observation then takes the new weight.
\<close>

theorem weight_follows_at_next_observation:
  assumes "hm_get (endpoints a) n = Some h"
  shows "hm_get (endpoints (register_endpoint n w a)) n = Some h
    \<and> (case hm_get (endpoints (update_health n l e ts (register_endpoint n w a))) n of
         Some h' \<Rightarrow> eh_weight h' = w \<and> eh_status h' = classify_health l e | None \<Rightarrow> False)"
  using assms by (simp add: register_endpoint_def update_health_def Let_def hm_get_insert)

lemma weight_follows_at_next_observation_witness:
  "\<exists>h. hm_get (endpoints (register_endpoint ''a'' (FFin 5) demo_aggregator)) ''a'' = Some h \<and> eh_weight h = FFin 1"
proof -
  obtain h where h: "hm_get (endpoints demo_aggregator) ''a'' = Some h" "eh_weight h = FFin 1"
    by (simp add: demo_aggregator_def register_endpoint_def aggregator_new_def Let_def hm_get_insert)
  then show ?thesis using weight_follows_at_next_observation [OF h(1), of "FFin 5"] by blast
qed

text \<open>An aggregator without endpoints reports itself unhealthy.\<close>

lemma empty_is_unhealthy: "overall_status aggregator_new = Unhealthy"
proof -
  have "\<not> fp_lt (rnd64 q) (FFin 0)" if "0 \<le> q" for q using rnd64_nonneg [OF that] by (cases "rnd64 q") auto
  then show ?thesis by (simp add: overall_status_def aggregate_score_def aggregator_new_def Let_def)
qed

end
