(* ===== verification/EndpointCatalog.thy ===== *)
theory EndpointCatalog
  imports OutputCodec Rotation
begin

text \<open>
  The endpoint catalog (\<open>src/endpoint_catalog.rs\<close>): endpoints with the capabilities they advertise, filters over
  them, selection by weight from a linear congruential generator, and eviction of stale entries. The concurrent map is
  a list of pairs whose order stands for its iteration order.
\<close>

section \<open>Entries\<close>

record ServiceCapability =
  cap_name :: string
  cap_version :: string
  cap_protocol :: string
  cap_metadata :: "(string, string) hashmap"

record EndpointEntry =
  ee_id :: string
  ee_name :: string
  ee_url :: string
  capabilities :: "ServiceCapability list"
  ee_healthy :: bool
  ee_weight :: u32
  ee_registered_at_ms :: u64
  last_seen_ms :: u64

type_synonym EndpointCatalog = "(string, EndpointEntry) hashmap"

record CatalogFilter =
  capability_name :: "string option"
  cf_protocol :: "string option"
  healthy_only :: bool
  min_version :: "string option"

section \<open>Versions\<close>

definition version_segment :: "string list \<Rightarrow> nat \<Rightarrow> u64" where
  "version_segment segments i = (if i < length segments then (case parse_u64 (segments ! i) of Some n \<Rightarrow> n | None \<Rightarrow> 0) else 0)"

definition parse_parts :: "string \<Rightarrow> u64 list" where
  "parse_parts s = (let segments = take 3 (split_on (CHR ''.'') s) in map (version_segment segments) [0, 1, 2])"

fun compare_parts :: "u64 list \<Rightarrow> u64 list \<Rightarrow> int" where
  "compare_parts (a # as) (b # bs) = (if a < b then - 1 else if b < a then 1 else compare_parts as bs)"
| "compare_parts _ _ = 0"

definition compare_versions :: "string \<Rightarrow> string \<Rightarrow> int" where
  "compare_versions a b = compare_parts (parse_parts a) (parse_parts b)"

section \<open>Operations\<close>

definition register_entry :: "EndpointEntry \<Rightarrow> EndpointCatalog \<Rightarrow> EndpointCatalog" where
  "register_entry e c = hm_insert (ee_id e) e c"

definition deregister_entry :: "string \<Rightarrow> EndpointCatalog \<Rightarrow> bool \<times> EndpointCatalog" where
  "deregister_entry i c = (hm_get c i \<noteq> None, hm_remove i c)"

definition update_entry_health :: "string \<Rightarrow> bool \<Rightarrow> u64 \<Rightarrow> EndpointCatalog \<Rightarrow> bool \<times> EndpointCatalog" where
  "update_entry_health i h now c =
    (case hm_get c i of
       Some e \<Rightarrow> (True, hm_insert i (e\<lparr>ee_healthy := h, last_seen_ms := now\<rparr>) c)
     | None \<Rightarrow> (False, c))"

definition heartbeat :: "string \<Rightarrow> u64 \<Rightarrow> EndpointCatalog \<Rightarrow> bool \<times> EndpointCatalog" where
  "heartbeat i now c =
    (case hm_get c i of
       Some e \<Rightarrow> (True, hm_insert i (e\<lparr>last_seen_ms := now\<rparr>) c)
     | None \<Rightarrow> (False, c))"

definition capability_matches :: "CatalogFilter \<Rightarrow> string \<Rightarrow> ServiceCapability \<Rightarrow> bool" where
  "capability_matches f n cap \<longleftrightarrow>
     cap_name cap = n
   \<and> (case cf_protocol f of Some p \<Rightarrow> cap_protocol cap = p | None \<Rightarrow> True)
   \<and> (case min_version f of Some v \<Rightarrow> \<not> compare_versions (cap_version cap) v < 0 | None \<Rightarrow> True)"

definition entry_matches :: "CatalogFilter \<Rightarrow> EndpointEntry \<Rightarrow> bool" where
  "entry_matches f e \<longleftrightarrow>
     \<not> (healthy_only f \<and> \<not> ee_healthy e)
   \<and> (case capability_name f of
        Some n \<Rightarrow> list_ex (capability_matches f n) (capabilities e)
      | None \<Rightarrow> (case cf_protocol f of Some p \<Rightarrow> list_ex (\<lambda>c. cap_protocol c = p) (capabilities e) | None \<Rightarrow> True))"

definition find_entries :: "CatalogFilter \<Rightarrow> EndpointCatalog \<Rightarrow> EndpointEntry list" where
  "find_entries f c = filter (entry_matches f) (map snd c)"

definition weight64 :: "EndpointEntry \<Rightarrow> u64" where
  "weight64 e = ucast (ee_weight e)"

definition select_by_weight :: "EndpointEntry list \<Rightarrow> u64 \<Rightarrow> EndpointEntry option \<times> u64" where
  "select_by_weight candidates lcg =
    (if candidates = [] then (None, lcg)
     else let total = sum_list (map weight64 candidates)
          in if total = 0 then (None, lcg)
             else let lcg = lcg * 6364136223846793005 + 1442695040888963407
                  in (case cumulative_pick weight64 (lcg mod total) 0 candidates of
                        Some e \<Rightarrow> Some e | None \<Rightarrow> Some (last candidates), lcg))"

definition stale_entries :: "u64 \<Rightarrow> u64 \<Rightarrow> EndpointCatalog \<Rightarrow> string list" where
  "stale_entries now max_age c = map fst (filter (\<lambda>(_, e). last_seen_ms e < sat_sub now max_age) c)"

definition evict_stale :: "u64 \<Rightarrow> u64 \<Rightarrow> EndpointCatalog \<Rightarrow> nat \<times> EndpointCatalog" where
  "evict_stale now max_age c = (let stale = stale_entries now max_age c in (length stale, fold hm_remove stale c))"

record CatalogStats =
  cs_total :: nat
  cs_healthy :: nat
  cs_unhealthy :: nat
  capabilities_histogram :: "(string, nat) hashmap"

definition count_capability :: "ServiceCapability \<Rightarrow> (string, nat) hashmap \<Rightarrow> (string, nat) hashmap" where
  "count_capability cap m = hm_insert (cap_name cap) ((case hm_get m (cap_name cap) of Some n \<Rightarrow> n | None \<Rightarrow> 0) + 1) m"

definition catalog_stats :: "EndpointCatalog \<Rightarrow> CatalogStats" where
  "catalog_stats c =
    (let healthy = length (filter (ee_healthy \<circ> snd) c); unhealthy = length (filter (\<lambda>x. \<not> ee_healthy (snd x)) c)
     in \<lparr>cs_total = healthy + unhealthy, cs_healthy = healthy, cs_unhealthy = unhealthy,
         capabilities_histogram = fold (fold count_capability \<circ> capabilities \<circ> snd) c []\<rparr>)"

section \<open>Versions compare by number\<close>

definition version_text :: "u64 \<Rightarrow> u64 \<Rightarrow> u64 \<Rightarrow> string" where
  "version_text a b c = join ''.'' (map (\<lambda>n. nat_to_string (unat n)) [a, b, c])"

lemma nat_to_string_no_dot: "CHR ''.'' \<notin> set (nat_to_string n)"
  using nat_to_string_digits [of n] by (auto simp: list_all_iff is_digit_def)

lemma parse_parts_version: "parse_parts (version_text a b c) = [a, b, c]"
proof -
  have "split_on (CHR ''.'') (version_text a b c) = map (\<lambda>n. nat_to_string (unat n)) [a, b, c]"
    unfolding version_text_def by (rule split_on_join) (simp_all add: nat_to_string_no_dot)
  then show ?thesis by (simp add: parse_parts_def version_segment_def parse_u64_nat_to_string)
qed

text \<open>Versions written with three numbers compare by these numbers, the major one first.\<close>

theorem versions_compare_by_number:
  "compare_versions (version_text a b c) (version_text x y z) < 0 \<longleftrightarrow>
     a < x \<or> a = x \<and> (b < y \<or> b = y \<and> c < z)"
  by (auto simp: compare_versions_def parse_parts_version)

section \<open>Selection by weight\<close>

lemma unat_weight64: "unat (weight64 e) = unat (ee_weight e)"
proof -
  have "unat (ee_weight e) < 2 ^ 32" using unsigned_less [of "ee_weight e", where ?'a = nat] by simp
  then show ?thesis by (simp add: weight64_def unsigned_ucast_eq take_bit_nat_eq_self)
qed

definition pick_at :: "EndpointEntry list \<Rightarrow> u64 \<Rightarrow> EndpointEntry option" where
  "pick_at candidates n = cumulative_pick weight64 n 0 candidates"

text \<open>
  Of the numbers below the sum of the weights, each candidate is picked for exactly as many as its weight; the selection
  takes one of these numbers from the generator, and fails only for want of a positive weight.
\<close>

theorem picks_follow_weights:
  assumes "sum_list (map (\<lambda>e. unat (ee_weight e)) cs) = tw" "tw < 2 ^ 64"
  shows "mset (map (\<lambda>n. pick_at cs (of_nat n)) [0..<tw]) = image_mset Some (\<Sum>e \<in># mset cs. replicate_mset (unat (ee_weight e)) e)
    \<and> fst (select_by_weight cs g) =
      (if tw = 0 then None else pick_at cs ((g * 6364136223846793005 + 1442695040888963407) mod of_nat tw))"
proof -
  let ?w = "\<lambda>e. unat (weight64 e)"
  have s: "sum_list (map ?w cs) = tw" using assms(1) by (simp add: unat_weight64)
  have at: "pick_at cs (of_nat n) = Some (weighted_turn ?w cs ! n)" if "n < tw" for n
    using cumulative_pick_turn [of 0 weight64 cs "of_nat n"] s that assms(2) by (simp add: pick_at_def unat_of_nat_small)
  have l: "length (weighted_turn ?w cs) = tw" by (simp add: length_weighted_turn s)
  have "map (\<lambda>n. pick_at cs (of_nat n)) [0..<tw] = map Some (weighted_turn ?w cs)"
    using at l by (intro nth_equalityI) simp_all
  then have 1: "mset (map (\<lambda>n. pick_at cs (of_nat n)) [0..<tw]) = image_mset Some (\<Sum>e \<in># mset cs. replicate_mset (unat (ee_weight e)) e)"
    by (simp add: mset_weighted_turn unat_weight64)
  have u: "unat (sum_list (map weight64 cs)) = tw" using unat_sum_weights [of weight64 cs] s assms(2) by simp
  have t: "sum_list (map weight64 cs) = of_nat tw" unfolding u [symmetric] by simp
  have n: "unat (x mod of_nat tw) < tw" if "0 < tw" for x :: u64
    using that assms(2) by (simp add: unat_mod unat_of_nat_small)
  have 2: "fst (select_by_weight cs g) =
      (if tw = 0 then None else pick_at cs ((g * 6364136223846793005 + 1442695040888963407) mod of_nat tw))"
  proof (cases "tw = 0")
    case False
    then have nz: "(of_nat tw :: u64) \<noteq> 0" using assms(2) unat_of_nat_small [of tw, where 'w = 64] by auto
    have "cs \<noteq> []" using False s by auto
    moreover have "pick_at cs ((g * 6364136223846793005 + 1442695040888963407) mod of_nat tw) \<noteq> None"
      using at [OF n, of "g * 6364136223846793005 + 1442695040888963407"] False by simp
    ultimately show ?thesis using False nz by (auto simp: select_by_weight_def t Let_def pick_at_def split: option.splits)
  qed (simp add: select_by_weight_def t)
  show ?thesis using 1 2 by blast
qed

definition demo_entry :: EndpointEntry where
  "demo_entry = \<lparr>ee_id = ''a'', ee_name = ''n'', ee_url = ''u'', capabilities = [], ee_healthy = True, ee_weight = 2,
     ee_registered_at_ms = 0, last_seen_ms = 5\<rparr>"

lemma demo_entry_simps [simp]: "ee_weight demo_entry = 2" "last_seen_ms demo_entry = 5" "capabilities demo_entry = []"
  by (simp_all add: demo_entry_def)

lemma picks_follow_weights_witness:
  "pick_at [demo_entry] 1 = Some (demo_entry)"
proof -
  let ?e = demo_entry
  have two: "replicate_mset 2 x = {#x, x#}" for x :: "EndpointEntry option" by (simp add: numeral_2_eq_2)
  have "mset (map (\<lambda>n. pick_at [?e] (of_nat n)) [0..<2]) = {#Some ?e, Some ?e#}"
    using picks_follow_weights [of "[?e]" 2 0] by (simp add: two)
  moreover have "[0..<2] = [0, 1 :: nat]" by (simp add: upt_conv_Cons)
  ultimately show ?thesis by (auto simp: add_eq_conv_ex)
qed

section \<open>Eviction\<close>

lemma fold_remove_get: "hm_get (fold hm_remove ks c) k = (if k \<in> set ks then None else hm_get c k)"
  by (induction ks arbitrary: c) (auto simp: hm_get_remove)

lemma fold_remove_wf: "hm_wf c \<Longrightarrow> hm_wf (fold hm_remove ks c)"
  by (induction ks arbitrary: c) auto

lemma stale_iff: "hm_wf c \<Longrightarrow> k \<in> set (stale_entries now max_age c) \<longleftrightarrow> (\<exists>e. hm_get c k = Some e \<and> last_seen_ms e < sat_sub now max_age)"
  by (auto simp: stale_entries_def hm_get_eq_Some_iff image_iff)

text \<open>Eviction removes exactly the stale entries, reports their number, and leaves none.\<close>

theorem evict_stale_exact:
  assumes "hm_wf c"
  shows "case evict_stale now max_age c of (n, c') \<Rightarrow>
    (\<forall>k. hm_get c' k = (case hm_get c k of Some e \<Rightarrow> if last_seen_ms e < sat_sub now max_age then None else Some e | None \<Rightarrow> None))
    \<and> n = card {k. \<exists>e. hm_get c k = Some e \<and> last_seen_ms e < sat_sub now max_age}
    \<and> stale_entries now max_age c' = []"
proof -
  let ?st = "stale_entries now max_age c" and ?c' = "fold hm_remove (stale_entries now max_age c) c"
  have get: "hm_get ?c' k = (case hm_get c k of Some e \<Rightarrow> if last_seen_ms e < sat_sub now max_age then None else Some e | None \<Rightarrow> None)" for k
    using stale_iff [OF assms, of k now max_age] by (auto simp: fold_remove_get split: option.split)
  have "distinct ?st" using assms by (simp add: stale_entries_def hm_wf_def distinct_map_filter)
  moreover have "set ?st = {k. \<exists>e. hm_get c k = Some e \<and> last_seen_ms e < sat_sub now max_age}"
    using stale_iff [OF assms] by blast
  ultimately have n: "length ?st = card {k. \<exists>e. hm_get c k = Some e \<and> last_seen_ms e < sat_sub now max_age}"
    by (metis distinct_card)
  have "k \<notin> set (stale_entries now max_age ?c')" for k
    using stale_iff [OF fold_remove_wf [OF assms], of k now max_age ?st] get [of k] by (auto split: option.splits if_splits)
  then have "stale_entries now max_age ?c' = []" by (metis list.set_intros(1) neq_Nil_conv)
  then show ?thesis using get n by (simp add: evict_stale_def Let_def)
qed

lemma evict_stale_exact_witness:
  "fst (evict_stale 100 10 [(''a'', demo_entry)]) = 1"
proof -
  have w: "hm_wf [(''a'', demo_entry)]" by (simp add: hm_wf_def)
  have "{k. \<exists>x. hm_get [(''a'', demo_entry)] k = Some x \<and> last_seen_ms x < sat_sub 100 10} = {''a''}"
    by (auto simp: hm_get_def sat_sub_def word_le_nat_alt word_less_nat_alt split: if_splits)
  then show ?thesis using evict_stale_exact [OF w, of 100 10] by (simp add: case_prod_beta)
qed

section \<open>The version filter\<close>

text \<open>Without a capability name the minimum version of a filter is ignored.\<close>

theorem min_version_needs_name:
  assumes "capability_name f = None"
  shows "find_entries (f\<lparr>min_version := v\<rparr>) c = find_entries (f\<lparr>min_version := None\<rparr>) c"
proof -
  have "entry_matches (f\<lparr>min_version := v\<rparr>) = entry_matches (f\<lparr>min_version := None\<rparr>)"
    by (rule ext) (simp add: entry_matches_def assms)
  then show ?thesis by (simp add: find_entries_def)
qed

lemma min_version_needs_name_witness:
  "find_entries \<lparr>capability_name = None, cf_protocol = None, healthy_only = False, min_version = Some ''9.0.0''\<rparr> [(''a'', demo_entry)]
    = [demo_entry]"
  using min_version_needs_name [of "\<lparr>capability_name = None, cf_protocol = None, healthy_only = False, min_version = None\<rparr>" "Some ''9.0.0''"]
  by (simp add: find_entries_def entry_matches_def)

text \<open>The totals of the statistics.\<close>

lemma catalog_stats_total: "cs_total (catalog_stats c) = length c"
proof -
  have "length (filter P xs) + length (filter (\<lambda>x. \<not> P x) xs) = length xs" for P and xs :: "(string \<times> EndpointEntry) list"
    by (rule sum_length_filter_compl)
  then show ?thesis by (simp add: catalog_stats_def Let_def comp_def)
qed

end
