(* ===== verification/DownstreamPressure.thy ===== *)
theory DownstreamPressure
  imports Metrics
begin

text \<open>
  Pressure of downstream services (\<open>src/downstream_pressure.rs\<close>): moving averages of the telemetry each service
  pushes, a score per service, and the mean over the services heard from in the last thirty seconds, above which low
  priorities are shed. Instants are nanoseconds; \<open>now\<close> gives the reading of the clock when a service is visited. The
  iteration order of the map is the order of the list.
\<close>

section \<open>State\<close>

definition SHED_THRESHOLD :: f64 where "SHED_THRESHOLD = FFin (3 / 4)"
definition MAX_LATENCY_MS :: f64 where "MAX_LATENCY_MS = FFin 1000"
definition MAX_QUEUE_DEPTH :: f64 where "MAX_QUEUE_DEPTH = FFin 10000"
definition SERVICE_EMA_ALPHA :: f64 where "SERVICE_EMA_ALPHA = FFin (1 / 4)"
definition STALE_AFTER :: nat where "STALE_AFTER = 30 * 10 ^ 9"

record DownstreamTelemetry =
  service_name :: string
  latency_p99_ms :: f64
  dt_queue_depth :: u64
  dt_error_rate :: f64

record ServiceState =
  ema_latency_frac :: f64
  ema_queue_frac :: f64
  ema_error_rate :: f64
  last_updated :: nat

type_synonym DownstreamPressureMonitor = "(string, ServiceState) hashmap"

section \<open>Operations\<close>

definition latency_frac :: "DownstreamTelemetry \<Rightarrow> f64" where
  "latency_frac tel =
    (if fp_is_finite (latency_p99_ms tel) then f64_clamp (f64_div (latency_p99_ms tel) MAX_LATENCY_MS) (FFin 0) (FFin 1) else FFin 1)"

definition queue_frac :: "DownstreamTelemetry \<Rightarrow> f64" where
  "queue_frac tel = f64_clamp (f64_div (f64_of_u64 (dt_queue_depth tel)) MAX_QUEUE_DEPTH) (FFin 0) (FFin 1)"

definition error_frac :: "DownstreamTelemetry \<Rightarrow> f64" where
  "error_frac tel = f64_clamp (dt_error_rate tel) (FFin 0) (FFin 1)"

definition service_new :: "nat \<Rightarrow> DownstreamTelemetry \<Rightarrow> ServiceState" where
  "service_new now tel = \<lparr>ema_latency_frac = latency_frac tel, ema_queue_frac = queue_frac tel, ema_error_rate = error_frac tel,
     last_updated = now\<rparr>"

definition service_update :: "nat \<Rightarrow> DownstreamTelemetry \<Rightarrow> ServiceState \<Rightarrow> ServiceState" where
  "service_update now tel s =
    (let a = SERVICE_EMA_ALPHA
     in \<lparr>ema_latency_frac = ema_step a (latency_frac tel) (ema_latency_frac s),
         ema_queue_frac = ema_step a (queue_frac tel) (ema_queue_frac s),
         ema_error_rate = ema_step a (error_frac tel) (ema_error_rate s), last_updated = now\<rparr>)"

definition service_score :: "ServiceState \<Rightarrow> f64" where
  "service_score s =
    f64_add (f64_add (f64_mul (rnd64 (40 / 100)) (ema_latency_frac s)) (f64_mul (rnd64 (35 / 100)) (ema_queue_frac s)))
      (f64_mul (FFin (1 / 4)) (ema_error_rate s))"

definition is_stale :: "nat \<Rightarrow> ServiceState \<Rightarrow> bool" where
  "is_stale now s \<longleftrightarrow> STALE_AFTER < now - last_updated s"

text \<open>A new service is inserted with the telemetry, and the telemetry is then applied to it as to any other.\<close>

definition pressure_update :: "nat \<Rightarrow> nat \<Rightarrow> DownstreamTelemetry \<Rightarrow> DownstreamPressureMonitor \<Rightarrow> DownstreamPressureMonitor" where
  "pressure_update t1 t2 tel m =
    (let s = (case hm_get m (service_name tel) of Some s \<Rightarrow> s | None \<Rightarrow> service_new t1 tel)
     in hm_insert (service_name tel) (service_update t2 tel s) m)"

definition fresh :: "(string \<Rightarrow> nat) \<Rightarrow> DownstreamPressureMonitor \<Rightarrow> ServiceState list" where
  "fresh now m = map snd (filter (\<lambda>(k, s). \<not> is_stale (now k) s) m)"

definition combined_pressure :: "(string \<Rightarrow> nat) \<Rightarrow> DownstreamPressureMonitor \<Rightarrow> f64" where
  "combined_pressure now m =
    (let scores = map service_score (fresh now m)
     in if scores = [] then FFin 0
        else f64_clamp (f64_div (fold (\<lambda>x acc. f64_add acc x) scores (FFin 0)) (f64_of_nat (length scores))) (FFin 0) (FFin 1))"

definition should_shed :: "(string \<Rightarrow> nat) \<Rightarrow> DownstreamPressureMonitor \<Rightarrow> bool" where
  "should_shed now m \<longleftrightarrow> fp_lt SHED_THRESHOLD (combined_pressure now m)"

record ServicePressureSnapshot =
  sps_name :: string
  sps_latency_frac :: f64
  sps_queue_frac :: f64
  sps_error_rate :: f64
  sps_score :: f64
  stale :: bool

definition snapshot_of :: "(string \<Rightarrow> nat) \<Rightarrow> string \<times> ServiceState \<Rightarrow> ServicePressureSnapshot" where
  "snapshot_of now x =
    \<lparr>sps_name = fst x, sps_latency_frac = ema_latency_frac (snd x), sps_queue_frac = ema_queue_frac (snd x),
     sps_error_rate = ema_error_rate (snd x), sps_score = service_score (snd x), stale = is_stale (now (fst x)) (snd x)\<rparr>"

text \<open>The stable sort by falling score, by insertion.\<close>

fun insert_snapshot :: "ServicePressureSnapshot \<Rightarrow> ServicePressureSnapshot list \<Rightarrow> ServicePressureSnapshot list" where
  "insert_snapshot x [] = [x]"
| "insert_snapshot x (y # ys) =
    (if fp_lt (sps_score x) (sps_score y) then y # insert_snapshot x ys else x # y # ys)"

definition service_snapshot :: "(string \<Rightarrow> nat) \<Rightarrow> DownstreamPressureMonitor \<Rightarrow> ServicePressureSnapshot list" where
  "service_snapshot now m = foldr insert_snapshot (map (snapshot_of now) m) []"

section \<open>Pressure is in range\<close>

definition service_ok :: "ServiceState \<Rightarrow> bool" where
  "service_ok s \<longleftrightarrow> in_unit (ema_latency_frac s) \<and> in_unit (ema_queue_frac s) \<and> in_unit (ema_error_rate s)"

definition services_ok :: "DownstreamPressureMonitor \<Rightarrow> bool" where
  "services_ok m \<longleftrightarrow> hm_wf m \<and> (\<forall>k s. hm_get m k = Some s \<longrightarrow> service_ok s)"

lemma div_notNaN: "fp_is_finite x \<Longrightarrow> c \<noteq> 0 \<Longrightarrow> f64_div x (FFin c) \<noteq> FNaN"
  by (cases x) (auto simp: fp_is_finite_def rnd64_def)

lemma telemetry_unit:
  "in_unit (latency_frac tel)" "in_unit (queue_frac tel)" "dt_error_rate tel \<noteq> FNaN \<Longrightarrow> in_unit (error_frac tel)"
proof -
  show "in_unit (latency_frac tel)"
    by (simp add: latency_frac_def MAX_LATENCY_MS_def in_unit_clamp div_notNaN)
  have "fp_is_finite (f64_of_u64 (dt_queue_depth tel))"
    using f64_of_u64_bounds [of "dt_queue_depth tel"] by (auto simp: fp_is_finite_def)
  then show "in_unit (queue_frac tel)" by (simp add: queue_frac_def MAX_QUEUE_DEPTH_def in_unit_clamp div_notNaN)
  show "dt_error_rate tel \<noteq> FNaN \<Longrightarrow> in_unit (error_frac tel)" by (simp add: error_frac_def in_unit_clamp)
qed

lemma service_new_ok: "dt_error_rate tel \<noteq> FNaN \<Longrightarrow> service_ok (service_new now tel)"
  by (simp add: service_ok_def service_new_def telemetry_unit)

lemma service_update_ok: "service_ok s \<Longrightarrow> dt_error_rate tel \<noteq> FNaN \<Longrightarrow> service_ok (service_update now tel s)"
  by (simp add: service_ok_def service_update_def Let_def telemetry_unit ema_step_unit [where p = "1 / 4"] SERVICE_EMA_ALPHA_def)

definition pressure_step :: "nat \<times> nat \<times> DownstreamTelemetry \<Rightarrow> DownstreamPressureMonitor \<Rightarrow> DownstreamPressureMonitor" where
  "pressure_step x m = (case x of (t1, t2, tel) \<Rightarrow> if dt_error_rate tel = FNaN then m else pressure_update t1 t2 tel m)"

lemma pressure_update_ok: "services_ok m \<Longrightarrow> dt_error_rate tel \<noteq> FNaN \<Longrightarrow> services_ok (pressure_update t1 t2 tel m)"
  by (auto simp: services_ok_def pressure_update_def Let_def hm_get_insert service_update_ok service_new_ok split: option.split if_splits)

interpretation pressures: stateful pressure_step services_ok
  by unfold_locales (auto simp: pressure_step_def pressure_update_ok split: prod.split)


lemma fp_le_notNaN_right: "fp_le (FFin 0) x \<Longrightarrow> x \<noteq> FNaN"
  using fp_le_notNaN [of "FFin 0" x] by simp

lemma service_score_nonneg: "service_ok s \<Longrightarrow> fp_le (FFin 0) (service_score s)"
proof -
  assume s: "service_ok s"
  obtain a where a: "rnd64 (40 / 100) = FFin a" "0 < a"
    using pressure_weights_pos(1) by (auto simp: PRESSURE_WEIGHT_PRIMARY_UTIL_def)
  obtain b where b: "rnd64 (35 / 100) = FFin b" "0 < b"
  proof -
    have "fp_le (rnd64 (1 / 4)) (rnd64 (35 / 100))" "fp_le (rnd64 (35 / 100)) (rnd64 1)"
      by (rule rnd64_mono, simp)+
    then show thesis using that rnd64_dyadic [of 1 2] by (cases "rnd64 (35 / 100)") auto
  qed
  from s have "fp_le (FFin 0) (ema_latency_frac s)" "fp_le (FFin 0) (ema_queue_frac s)" "fp_le (FFin 0) (ema_error_rate s)"
    by (auto simp: service_ok_def elim!: in_unitE)
  then show ?thesis unfolding service_score_def a(1) b(1) by (intro nonneg_add nonneg_mul a(2) b(2)) simp_all
qed

lemma sum_nonneg_scores:
  "(\<And>x. x \<in> set xs \<Longrightarrow> fp_le (FFin 0) x) \<Longrightarrow> fp_le (FFin 0) a \<Longrightarrow> fp_le (FFin 0) (fold (\<lambda>x acc. f64_add acc x) xs a)"
  by (induction xs arbitrary: a) (simp_all add: nonneg_add)

lemma f64_of_nat_positive: "0 < n \<Longrightarrow> n < 2 ^ 64 \<Longrightarrow> \<exists>q. f64_of_nat n = FFin q \<and> 0 < q"
proof -
  assume n: "0 < n" "n < 2 ^ 64"
  then have u: "f64_of_nat n = f64_of_u64 (of_nat n)"
    by (simp add: f64_of_u64_def unsigned_of_nat take_bit_nat_eq_self)
  have "fp_le (f64_of_nat 1) (f64_of_nat n)" by (rule f64_of_nat_mono) (use n in simp)
  then have "fp_le (FFin 1) (f64_of_nat n)" by (simp add: f64_of_nat_def)
  then show ?thesis using f64_of_u64_bounds [of "of_nat n"] by (auto simp: u)
qed

lemma combined_pressure_unit:
  assumes "services_ok m" "length m < 2 ^ 64"
  shows "in_unit (combined_pressure now m)"
proof -
  let ?xs = "map service_score (fresh now m)"
  have "service_ok s" if "s \<in> set (fresh now m)" for s
    using that assms(1) by (auto simp: fresh_def services_ok_def hm_get_eq_Some_iff)
  then have "fp_le (FFin 0) (fold (\<lambda>x acc. f64_add acc x) ?xs (FFin 0))"
    by (intro sum_nonneg_scores) (auto simp: service_score_nonneg)
  moreover have "length ?xs \<le> length m" by (simp add: fresh_def)
  then have "\<exists>q. f64_of_nat (length ?xs) = FFin q \<and> 0 < q" if "?xs \<noteq> []"
    using assms(2) that by (intro f64_of_nat_positive) auto
  ultimately have "f64_div (fold (\<lambda>x acc. f64_add acc x) ?xs (FFin 0)) (f64_of_nat (length ?xs)) \<noteq> FNaN" if "?xs \<noteq> []"
    using that f64_div_nonneg fp_le_notNaN_right by fastforce
  then show ?thesis unfolding combined_pressure_def Let_def by (auto simp: in_unit_clamp simp del: map_is_Nil_conv)
qed


text \<open>
  Property: while no service reports an error rate that is not a number, the combined pressure stays in the unit
  interval, whatever latencies and queue depths are reported, in any order, and whatever the roundings.
\<close>

theorem pressure_in_unit:
  "length (fold pressure_step ops []) < 2 ^ 64 \<Longrightarrow> in_unit (combined_pressure now (fold pressure_step ops []))"
  by (rule combined_pressure_unit) (rule pressures.run_inv, simp add: services_ok_def)

lemma pressure_in_unit_witness:
  "in_unit (combined_pressure (\<lambda>_. 5) (fold pressure_step [(1, 1, \<lparr>service_name = ''db'', latency_p99_ms = FInf False,
     dt_queue_depth = 7, dt_error_rate = FFin 2\<rparr>)] []))"
  by (rule pressure_in_unit) (simp add: pressure_step_def pressure_update_def hm_insert_def Let_def)

section \<open>One bad error rate\<close>

lemma ema_step_NaN [simp]: "ema_step a x FNaN = FNaN"
  by (cases "f64_mul a x"; cases "f64_sub (FFin 1) a") (simp_all add: ema_step_def)

lemma f64_add_NaN [simp]: "f64_add x FNaN = FNaN"
  by (cases x) simp_all

lemma f64_mul_NaN [simp]: "f64_mul x FNaN = FNaN"
  by (cases x) simp_all

lemma ema_step_NaN_input [simp]: "ema_step a FNaN e = FNaN"
  by (simp add: ema_step_def)

definition poisoned :: "string \<Rightarrow> DownstreamPressureMonitor \<Rightarrow> bool" where
  "poisoned k m \<longleftrightarrow> hm_wf m \<and> (\<exists>s. hm_get m k = Some s \<and> ema_error_rate s = FNaN)"

definition any_update :: "nat \<times> nat \<times> DownstreamTelemetry \<Rightarrow> DownstreamPressureMonitor \<Rightarrow> DownstreamPressureMonitor" where
  "any_update x m = (case x of (t1, t2, tel) \<Rightarrow> pressure_update t1 t2 tel m)"

lemma update_poisoned: "poisoned k m \<Longrightarrow> poisoned k (pressure_update t1 t2 tel m)"
  by (auto simp: poisoned_def pressure_update_def Let_def hm_get_insert service_update_def)

interpretation poisoning: stateful any_update "poisoned k" for k
  by unfold_locales (auto simp: any_update_def update_poisoned split: prod.split)

lemma nan_update_poisons:
  "hm_wf m \<Longrightarrow> dt_error_rate tel = FNaN \<Longrightarrow> poisoned (service_name tel) (pressure_update t1 t2 tel m)"
  by (auto simp: poisoned_def pressure_update_def Let_def hm_get_insert service_update_def error_frac_def f64_clamp_def)

lemma sum_from_NaN: "fold (\<lambda>x acc. f64_add acc x) xs FNaN = FNaN"
  by (induction xs) simp_all

lemma sum_with_NaN: "FNaN \<in> set xs \<Longrightarrow> fold (\<lambda>x acc. f64_add acc x) xs a = FNaN"
  by (induction xs arbitrary: a) (auto simp: sum_from_NaN)

lemma poisoned_pressure:
  assumes p: "poisoned k m" and f: "\<And>s. hm_get m k = Some s \<Longrightarrow> \<not> is_stale (now k) s"
  shows "combined_pressure now m = FNaN"
proof -
  from p obtain s where s: "hm_get m k = Some s" "ema_error_rate s = FNaN" by (auto simp: poisoned_def)
  have "(k, s) \<in> set (filter (\<lambda>(k, s). \<not> is_stale (now k) s) m)" using hm_get_in_set [OF s(1)] f [OF s(1)] by simp
  then have "s \<in> set (fresh now m)" unfolding fresh_def by force
  moreover have "service_score s = FNaN" by (simp add: service_score_def s(2))
  ultimately have n: "FNaN \<in> set (map service_score (fresh now m))" by (metis image_eqI list.set_map)
  then have "map service_score (fresh now m) \<noteq> []" by auto
  then show ?thesis by (simp only: combined_pressure_def Let_def if_False sum_with_NaN [OF n] f64_div.simps f64_clamp_def) simp
qed

text \<open>
  Property: one telemetry whose error rate is not a number makes the combined pressure not a number, and no job is
  shed, for as long as that service keeps reporting, however high the pressure it and the others report afterwards.
\<close>

theorem nan_error_rate_stops_shedding:
  assumes "hm_wf m" "dt_error_rate tel = FNaN"
    and "\<And>s. hm_get (fold any_update ops (pressure_update t1 t2 tel m)) (service_name tel) = Some s
           \<Longrightarrow> \<not> is_stale (now (service_name tel)) s"
  shows "combined_pressure now (fold any_update ops (pressure_update t1 t2 tel m)) = FNaN
    \<and> \<not> should_shed now (fold any_update ops (pressure_update t1 t2 tel m))"
proof -
  have "combined_pressure now (fold any_update ops (pressure_update t1 t2 tel m)) = FNaN"
    by (rule poisoned_pressure [where k = "service_name tel"])
      (rule poisoning.run_inv [OF nan_update_poisons [OF assms(1,2)]], rule assms(3))
  then show ?thesis by (simp add: should_shed_def SHED_THRESHOLD_def)
qed

definition saturated :: "f64 \<Rightarrow> DownstreamTelemetry" where
  "saturated e = \<lparr>service_name = ''db'', latency_p99_ms = FInf False, dt_queue_depth = - 1, dt_error_rate = e\<rparr>"

lemma nan_error_rate_stops_shedding_witness:
  "\<not> should_shed (\<lambda>_. 9) (fold any_update [(2, 2, saturated (FFin 1)), (3, 3, saturated (FFin 1))]
     (pressure_update 1 1 (saturated FNaN) []))"
proof -
  have "combined_pressure (\<lambda>_. 9) (fold any_update [(2, 2, saturated (FFin 1)), (3, 3, saturated (FFin 1))]
      (pressure_update 1 1 (saturated FNaN) [])) = FNaN
    \<and> \<not> should_shed (\<lambda>_. 9) (fold any_update [(2, 2, saturated (FFin 1)), (3, 3, saturated (FFin 1))]
      (pressure_update 1 1 (saturated FNaN) []))"
    by (rule nan_error_rate_stops_shedding)
      (auto simp: saturated_def any_update_def pressure_update_def Let_def hm_get_insert service_update_def is_stale_def
        STALE_AFTER_def)
  then show ?thesis by simp
qed

section \<open>Silence, and the order of a snapshot\<close>

lemma update_time: "last_updated (service_update t tel s) = t"
  by (simp add: service_update_def Let_def)

text \<open>
  Property: thirty seconds after the last telemetry of every service no job is shed, whatever was reported.
\<close>

theorem silence_ends_shedding:
  assumes "\<And>k s. (k, s) \<in> set m \<Longrightarrow> last_updated s + STALE_AFTER < now k"
  shows "combined_pressure now m = FFin 0 \<and> \<not> should_shed now m"
proof -
  have "is_stale (now k) s" if "(k, s) \<in> set m" for k s using assms [OF that] by (simp add: is_stale_def)
  then have "fresh now m = []" by (auto simp: fresh_def filter_empty_conv)
  then show ?thesis by (simp add: should_shed_def combined_pressure_def Let_def SHED_THRESHOLD_def)
qed

lemma silence_ends_shedding_witness:
  "\<not> should_shed (\<lambda>_. 40 * 10 ^ 9) (pressure_update 1 1 (saturated (FFin 1)) [])"
proof -
  have "combined_pressure (\<lambda>_. 40 * 10 ^ 9) (pressure_update 1 1 (saturated (FFin 1)) []) = FFin 0
    \<and> \<not> should_shed (\<lambda>_. 40 * 10 ^ 9) (pressure_update 1 1 (saturated (FFin 1)) [])"
    by (rule silence_ends_shedding) (simp add: pressure_update_def Let_def hm_insert_def update_time STALE_AFTER_def)
  then show ?thesis by simp
qed

lemma insert_snapshot_mset [simp]: "mset (insert_snapshot x ys) = add_mset x (mset ys)"
  by (induction ys) auto

definition by_score :: "ServicePressureSnapshot \<Rightarrow> ServicePressureSnapshot \<Rightarrow> bool" where
  "by_score x y \<longleftrightarrow> fp_le (sps_score y) (sps_score x)"

lemma insert_snapshot_set [simp]: "set (insert_snapshot x ys) = insert x (set ys)"
  by (induction ys) auto

lemma not_lt_le: "a \<noteq> FNaN \<Longrightarrow> b \<noteq> FNaN \<Longrightarrow> fp_lt a b \<or> fp_le b a"
  by (cases a; cases b) auto

lemma lt_le: "fp_lt a b \<Longrightarrow> fp_le a b"
  by (cases a; cases b) auto

lemma insert_snapshot_sorted:
  "sorted_wrt by_score ys \<Longrightarrow> \<forall>y \<in> insert x (set ys). sps_score y \<noteq> FNaN \<Longrightarrow> sorted_wrt by_score (insert_snapshot x ys)"
proof (induction ys)
  case (Cons y ys)
  show ?case
  proof (cases "fp_lt (sps_score x) (sps_score y)")
    case True
    with Cons show ?thesis by (auto simp: by_score_def lt_le)
  next
    case False
    with Cons.prems not_lt_le have xy: "by_score x y" unfolding by_score_def by auto
    then have "by_score x z" if "z \<in> set ys" for z
      using Cons.prems(1) that fp_le_trans unfolding by_score_def by fastforce
    with False xy Cons.prems(1) show ?thesis by auto
  qed
qed simp

text \<open>
  Property: a snapshot lists every service once, in order of falling score, while no error rate was not a number.
\<close>

theorem snapshot_sorted:
  "mset (service_snapshot now m) = mset (map (snapshot_of now) m)
   \<and> (services_ok m \<longrightarrow> sorted_wrt by_score (service_snapshot now m))"
proof -
  have ms: "mset (foldr insert_snapshot xs []) = mset xs" for xs by (induction xs) simp_all
  have st: "sorted_wrt by_score (foldr insert_snapshot xs [])" if "\<forall>x \<in> set xs. sps_score x \<noteq> FNaN" for xs
    using that
  proof (induction xs)
    case (Cons x xs)
    then show ?case using mset_eq_setD [OF ms [of xs]] by (simp add: insert_snapshot_sorted)
  qed simp
  have "sps_score (snapshot_of now x) \<noteq> FNaN" if "services_ok m" "x \<in> set m" for x
  proof -
    from that have "service_ok (snd x)" by (cases x) (auto simp: services_ok_def hm_get_eq_Some_iff)
    then show ?thesis using fp_le_notNaN_right service_score_nonneg by (simp add: snapshot_of_def)
  qed
  then show ?thesis unfolding service_snapshot_def using ms st by auto
qed

lemma snapshot_sorted_witness:
  "sorted_wrt by_score (service_snapshot (\<lambda>_. 5) (pressure_update 1 1 (saturated (FFin 1)) []))"
proof -
  have "services_ok (pressure_update 1 1 (saturated (FFin 1)) [])"
    by (rule pressure_update_ok) (simp_all add: services_ok_def saturated_def)
  then show ?thesis using snapshot_sorted [of "\<lambda>_. 5" "pressure_update 1 1 (saturated (FFin 1)) []"] by blast
qed

end
