(* ===== verification/DynamicConfig.thy ===== *)
theory DynamicConfig
  imports Floats "HOL-Library.Sublist"
begin

text \<open>
  The reloadable configuration store (\<open>src/dynamic_config.rs\<close>): values of five kinds, a schema with types, ranges and
  patterns, and writes that are validated before the map is touched. A clone shares the store, so the model has one
  state; locks are not poisoned. The versions passed to the watch channel, which belongs to another crate, are recorded
  in order. A string is a list of characters; the positions of the code are those of characters.
\<close>

section \<open>Values and schemas\<close>

datatype ConfigValue =
    CV_String string
  | CV_Int "64 word"
  | CV_Float f64
  | CV_Bool bool
  | CV_Array "ConfigValue list"

datatype ValueType = VT_String | VT_Int | VT_Float | VT_Bool | VT_Array

fun value_type :: "ConfigValue \<Rightarrow> ValueType" where
  "value_type (CV_String _) = VT_String"
| "value_type (CV_Int _) = VT_Int"
| "value_type (CV_Float _) = VT_Float"
| "value_type (CV_Bool _) = VT_Bool"
| "value_type (CV_Array _) = VT_Array"

fun as_f64 :: "ConfigValue \<Rightarrow> f64 option" where
  "as_f64 (CV_Int i) = Some (rnd64 (of_int (sint i)))"
| "as_f64 (CV_Float f) = Some f"
| "as_f64 _ = None"

text \<open>The derived \<open>PartialEq\<close>: a float that is not a number is not equal to itself.\<close>

fun value_eq :: "ConfigValue \<Rightarrow> ConfigValue \<Rightarrow> bool" where
  "value_eq (CV_String a) (CV_String b) = (a = b)"
| "value_eq (CV_Int a) (CV_Int b) = (a = b)"
| "value_eq (CV_Float a) (CV_Float b) = (a \<noteq> FNaN \<and> a = b)"
| "value_eq (CV_Bool a) (CV_Bool b) = (a = b)"
| "value_eq (CV_Array as) (CV_Array bs) = list_all2 value_eq as bs"
| "value_eq _ _ = False"

fun type_name :: "ValueType \<Rightarrow> string" where
  "type_name VT_String = ''String''"
| "type_name VT_Int = ''Int''"
| "type_name VT_Float = ''Float''"
| "type_name VT_Bool = ''Bool''"
| "type_name VT_Array = ''Array''"

record SchemaField =
  sf_required :: bool
  sf_value_type :: ValueType
  sf_min :: "f64 option"
  sf_max :: "f64 option"
  sf_regex :: "string option"

type_synonym ConfigSchema = "(string, SchemaField) hashmap"

definition add_field :: "string \<Rightarrow> SchemaField \<Rightarrow> ConfigSchema \<Rightarrow> ConfigSchema" where
  "add_field k field s = hm_insert k field s"

datatype ConfigError =
    MissingRequired string
  | TypeMismatch string string string
  | OutOfRange string f64 f64 f64
  | ValidationFailed string

section \<open>Patterns\<close>

text \<open>The segments between the occurrences of \<open>.*\<close>, and the first occurrence of a segment.\<close>

fun split_wild :: "string \<Rightarrow> string \<Rightarrow> string list" where
  "split_wild cur [] = [rev cur]"
| "split_wild cur [c] = [rev (c # cur)]"
| "split_wild cur (c # d # xs) =
    (if c = CHR ''.'' \<and> d = CHR ''*'' then rev cur # split_wild [] xs else split_wild (c # cur) (d # xs))"

fun find_segment :: "string \<Rightarrow> string \<Rightarrow> nat option" where
  "find_segment seg [] = (if seg = [] then Some 0 else None)"
| "find_segment seg (c # t) = (if prefix seg (c # t) then Some 0 else map_option Suc (find_segment seg t))"

fun match_segments :: "bool \<Rightarrow> bool \<Rightarrow> string \<Rightarrow> string list \<Rightarrow> bool \<Rightarrow> nat \<Rightarrow> bool" where
  "match_segments astart aend t [] first pos = True"
| "match_segments astart aend t (seg # rest) first pos =
    (if seg = [] then match_segments astart aend t rest False pos
     else if first \<and> astart then prefix seg t \<and> match_segments astart aend t rest False (length seg)
     else if rest = [] \<and> aend then suffix seg t \<and> match_segments astart aend t rest False pos
     else (case find_segment seg (drop pos t) of
             Some found \<Rightarrow> match_segments astart aend t rest False (pos + found + length seg)
           | None \<Rightarrow> False))"

definition pattern_core :: "string \<Rightarrow> string" where
  "pattern_core p = rev (dropWhile (\<lambda>c. c = CHR ''$'') (rev (dropWhile (\<lambda>c. c = CHR ''^'') p)))"

definition simple_regex_match :: "string \<Rightarrow> string \<Rightarrow> bool" where
  "simple_regex_match p t =
    (let astart = prefix ''^'' p;
         aend = suffix ''$'' p;
         core = pattern_core p
     in if sublist ''.*'' core then match_segments astart aend t (split_wild [] core) True 0
        else if astart \<and> aend then t = core
        else if astart then prefix core t
        else if aend then suffix core t
        else sublist core t)"

section \<open>Validation\<close>

definition in_range :: "SchemaField \<Rightarrow> f64 \<Rightarrow> bool" where
  "in_range field n \<longleftrightarrow>
    \<not> (fp_lt n (case sf_min field of Some l \<Rightarrow> l | None \<Rightarrow> FInf True)
     \<or> fp_lt (case sf_max field of Some h \<Rightarrow> h | None \<Rightarrow> FInf False) n)"

definition quoted :: "string \<Rightarrow> string" where
  "quoted s = [CHR 0x27] @ s @ [CHR 0x27]"

definition mismatch_text :: "string \<Rightarrow> string \<Rightarrow> string \<Rightarrow> string" where
  "mismatch_text k s p = ''key '' @ quoted k @ '': value '' @ quoted s @ '' does not match pattern '' @ quoted p"

definition validate_value :: "string \<Rightarrow> ConfigValue \<Rightarrow> SchemaField \<Rightarrow> ConfigError option" where
  "validate_value k v field =
    (if value_type v \<noteq> sf_value_type field
     then Some (TypeMismatch k (type_name (sf_value_type field)) (type_name (value_type v)))
     else (case as_f64 v of
             Some n \<Rightarrow>
               if (sf_min field \<noteq> None \<or> sf_max field \<noteq> None) \<and> \<not> in_range field n
               then Some (OutOfRange k n (case sf_min field of Some l \<Rightarrow> l | None \<Rightarrow> FInf True)
                            (case sf_max field of Some h \<Rightarrow> h | None \<Rightarrow> FInf False))
               else None
           | None \<Rightarrow>
               (case (v, sf_regex field) of
                  (CV_String s, Some p) \<Rightarrow>
                    if simple_regex_match p s then None
                    else Some (ValidationFailed (mismatch_text k s p))
                | _ \<Rightarrow> None)))"

definition check_field :: "ConfigSchema \<Rightarrow> string \<Rightarrow> ConfigValue \<Rightarrow> ConfigError option" where
  "check_field schema k v = (case hm_get schema k of Some field \<Rightarrow> validate_value k v field | None \<Rightarrow> None)"

definition missing_fields :: "ConfigSchema \<Rightarrow> (string, ConfigValue) hashmap \<Rightarrow> ConfigError list" where
  "missing_fields schema m = map (\<lambda>(k, f). MissingRequired k) (filter (\<lambda>(k, f). sf_required f \<and> hm_get m k = None) schema)"

definition invalid_values :: "ConfigSchema \<Rightarrow> (string, ConfigValue) hashmap \<Rightarrow> ConfigError list" where
  "invalid_values schema m = List.map_filter (\<lambda>(k, v). check_field schema k v) m"

section \<open>The store\<close>

record DynamicConfig =
  dc_values :: "(string, ConfigValue) hashmap"
  dc_schema :: "ConfigSchema option"
  dc_version :: u64
  sent :: "u64 list"

definition config_new :: DynamicConfig where
  "config_new = \<lparr>dc_values = [], dc_schema = None, dc_version = 0, sent = []\<rparr>"

definition with_schema :: "ConfigSchema \<Rightarrow> DynamicConfig" where
  "with_schema s = \<lparr>dc_values = [], dc_schema = Some s, dc_version = 0, sent = []\<rparr>"

definition config_get :: "string \<Rightarrow> DynamicConfig \<Rightarrow> ConfigValue option" where
  "config_get k c = hm_get (dc_values c) k"

definition bump_version :: "DynamicConfig \<Rightarrow> DynamicConfig" where
  "bump_version c = c\<lparr>dc_version := dc_version c + 1, sent := sent c @ [dc_version c + 1]\<rparr>"

definition config_set :: "string \<Rightarrow> ConfigValue \<Rightarrow> DynamicConfig \<Rightarrow> (ConfigError + unit) \<times> DynamicConfig" where
  "config_set k v c =
    (case (case dc_schema c of Some schema \<Rightarrow> check_field schema k v | None \<Rightarrow> None) of
       Some e \<Rightarrow> (Inl e, c)
     | None \<Rightarrow> (Inr (), bump_version (c\<lparr>dc_values := hm_insert k v (dc_values c)\<rparr>)))"

definition changed_keys :: "(string, ConfigValue) hashmap \<Rightarrow> (string, ConfigValue) hashmap \<Rightarrow> string list" where
  "changed_keys old new =
    map fst (filter (\<lambda>(k, v). case hm_get old k of Some w \<Rightarrow> \<not> value_eq w v | None \<Rightarrow> True) new)
    @ filter (\<lambda>k. hm_get new k = None) (hm_keys old)"

definition reload_from_map :: "(string, ConfigValue) hashmap \<Rightarrow> DynamicConfig \<Rightarrow> (ConfigError + string list) \<times> DynamicConfig" where
  "reload_from_map new c =
    (case (case dc_schema c of Some schema \<Rightarrow> missing_fields schema new @ invalid_values schema new | None \<Rightarrow> []) of
       e # _ \<Rightarrow> (Inl e, c)
     | [] \<Rightarrow>
         let changed = changed_keys (dc_values c) new;
             c' = c\<lparr>dc_values := new\<rparr>
         in (Inr changed, if changed \<noteq> [] then bump_version c' else c'))"

definition validate_all :: "ConfigSchema \<Rightarrow> DynamicConfig \<Rightarrow> ConfigError list" where
  "validate_all schema c = missing_fields schema (dc_values c) @ invalid_values schema (dc_values c)"


section \<open>Writes keep the schema\<close>

definition value_valid :: "ConfigSchema option \<Rightarrow> string \<Rightarrow> ConfigValue \<Rightarrow> bool" where
  "value_valid schema k v \<longleftrightarrow> (case schema of Some s \<Rightarrow> check_field s k v = None | None \<Rightarrow> True)"

definition store_valid :: "DynamicConfig \<Rightarrow> bool" where
  "store_valid c \<longleftrightarrow> hm_wf (dc_values c) \<and> (\<forall>(k, v) \<in> set (dc_values c). value_valid (dc_schema c) k v)"

datatype config_op = Set string ConfigValue | Reload "(string, ConfigValue) hashmap"

fun config_step :: "config_op \<Rightarrow> DynamicConfig \<Rightarrow> DynamicConfig" where
  "config_step (Set k v) c = snd (config_set k v c)"
| "config_step (Reload m) c = (if hm_wf m then snd (reload_from_map m c) else c)"

lemma bump_simps [simp]:
  "dc_values (bump_version c) = dc_values c" "dc_schema (bump_version c) = dc_schema c"
  by (simp_all add: bump_version_def)

lemma invalid_values_empty: "invalid_values s m = [] \<longleftrightarrow> (\<forall>(k, v) \<in> set m. check_field s k v = None)"
  by (induction m) (auto simp: invalid_values_def List.map_filter_def)

lemma config_set_cases:
  "config_set k v c = (if value_valid (dc_schema c) k v
     then (Inr (), bump_version (c\<lparr>dc_values := hm_insert k v (dc_values c)\<rparr>))
     else (Inl (the (check_field (the (dc_schema c)) k v)), c))"
  by (auto simp: config_set_def value_valid_def split: option.splits)

definition accepted :: "DynamicConfig \<Rightarrow> (string, ConfigValue) hashmap \<Rightarrow> bool" where
  "accepted c new \<longleftrightarrow> (case dc_schema c of Some s \<Rightarrow> missing_fields s new = [] \<and> invalid_values s new = [] | None \<Rightarrow> True)"

lemma accepted_valid: "accepted c new \<Longrightarrow> (k, v) \<in> set new \<Longrightarrow> value_valid (dc_schema c) k v"
  by (auto simp: accepted_def value_valid_def invalid_values_empty split: option.splits)

lemma reload_cases:
  "reload_from_map new c =
    (if accepted c new
     then (Inr (changed_keys (dc_values c) new),
           if changed_keys (dc_values c) new \<noteq> [] then bump_version (c\<lparr>dc_values := new\<rparr>) else c\<lparr>dc_values := new\<rparr>)
     else (Inl (hd (missing_fields (the (dc_schema c)) new @ invalid_values (the (dc_schema c)) new)), c))"
  by (auto simp: reload_from_map_def accepted_def Let_def split: option.splits list.splits)

lemma insert_in_set: "(k', v') \<in> set (hm_insert k v m) \<Longrightarrow> (k', v') = (k, v) \<or> (k', v') \<in> set m"
  by (induction m) (auto simp: hm_insert_def split: if_splits)

lemma config_step_valid: "store_valid c \<Longrightarrow> store_valid (config_step x c)"
  by (cases x) (auto simp: store_valid_def config_set_cases reload_cases accepted_valid dest!: insert_in_set)

interpretation stores: stateful config_step store_valid
  by unfold_locales (rule config_step_valid)

lemma config_step_schema: "dc_schema (config_step x c) = dc_schema c"
  by (cases x) (auto simp: config_set_cases reload_cases)

lemma run_schema: "dc_schema (fold config_step ops c) = dc_schema c"
  by (induction ops arbitrary: c) (simp_all add: config_step_schema)

lemma with_schema_valid: "store_valid (with_schema s)"
  by (simp add: store_valid_def with_schema_def)

text \<open>
  Property: whatever is set or reloaded, every stored value satisfies its field of the schema the store was created
  with, so validating the store against that schema only ever reports missing keys.
\<close>

theorem store_keeps_schema:
  "invalid_values s (dc_values (fold config_step ops (with_schema s))) = []
   \<and> set (validate_all s (fold config_step ops (with_schema s))) \<subseteq> MissingRequired ` set (hm_keys s)"
proof -
  let ?c = "fold config_step ops (with_schema s)"
  have "store_valid ?c" by (rule stores.run_inv) (rule with_schema_valid)
  moreover have "dc_schema ?c = Some s" by (simp add: run_schema) (simp add: with_schema_def)
  ultimately have v: "invalid_values s (dc_values ?c) = []"
    by (fastforce simp: store_valid_def invalid_values_empty value_valid_def)
  then show ?thesis by (force simp: validate_all_def missing_fields_def hm_keys_def)
qed

definition complete_store :: "ConfigSchema \<Rightarrow> DynamicConfig \<Rightarrow> bool" where
  "complete_store s c \<longleftrightarrow> dc_schema c = Some s \<and> store_valid c \<and> missing_fields s (dc_values c) = []"

lemma missing_empty: "missing_fields s m = [] \<longleftrightarrow> (\<forall>(k, f) \<in> set s. sf_required f \<longrightarrow> hm_get m k \<noteq> None)"
  by (auto simp: missing_fields_def filter_empty_conv)

lemma config_step_complete: "complete_store s c \<Longrightarrow> complete_store s (config_step x c)"
proof -
  assume c: "complete_store s c"
  have "missing_fields s (dc_values (config_step x c)) = []"
  proof (cases x)
    case (Set k v)
    with c show ?thesis by (fastforce simp: complete_store_def config_set_cases missing_empty hm_get_insert)
  next
    case (Reload m)
    with c show ?thesis by (auto simp: complete_store_def reload_cases accepted_def)
  qed
  with c show ?thesis by (simp add: complete_store_def config_step_valid config_step_schema)
qed

interpretation complete_stores: stateful config_step "complete_store s" for s
  by unfold_locales (rule config_step_complete)

text \<open>
  Property: from the first accepted reload on, the store satisfies its whole schema, whatever is written afterwards.
\<close>

theorem reload_establishes_schema:
  assumes "store_valid c" "dc_schema c = Some s" "hm_wf m" "fst (reload_from_map m c) = Inr changed"
  shows "validate_all s (fold config_step ops (snd (reload_from_map m c))) = []"
proof -
  have "accepted c m" using assms(4) by (simp add: reload_cases split: if_splits)
  then have "complete_store s (config_step (Reload m) c)"
    using assms config_step_valid [OF assms(1), of "Reload m"]
    by (auto simp: complete_store_def accepted_def reload_cases)
  then have "complete_store s (fold config_step ops (snd (reload_from_map m c)))"
    using assms(3) by (intro complete_stores.run_inv) simp
  then show ?thesis
    by (fastforce simp: complete_store_def validate_all_def store_valid_def invalid_values_empty value_valid_def)
qed

definition port_field :: SchemaField where
  "port_field = \<lparr>sf_required = True, sf_value_type = VT_Int, sf_min = Some (FFin 1), sf_max = None, sf_regex = None\<rparr>"

lemma port_accepted: "fst (reload_from_map [(''port'', CV_Int 80)] (with_schema [(''port'', port_field)])) = Inr [''port'']"
proof -
  have "rnd64 (of_int (sint (80 :: 64 word))) = FFin 80" using f64_of_nat_exact [of 80] by (simp add: f64_of_nat_def)
  then show ?thesis
    by (simp add: reload_from_map_def with_schema_def missing_fields_def invalid_values_def port_field_def hm_get_def check_field_def
        validate_value_def in_range_def changed_keys_def hm_keys_def bump_version_def List.map_filter_def)
qed

lemma reload_establishes_schema_witness:
  "validate_all [(''port'', port_field)] (fold config_step [Set ''port'' (CV_Bool True), Reload []]
     (snd (reload_from_map [(''port'', CV_Int 80)] (with_schema [(''port'', port_field)])))) = []"
  by (rule reload_establishes_schema [OF with_schema_valid _ _ port_accepted]) (simp_all add: with_schema_def hm_wf_def)

definition same_value :: "ConfigValue option \<Rightarrow> ConfigValue option \<Rightarrow> bool" where
  "same_value a b = (case (a, b) of (Some x, Some y) \<Rightarrow> value_eq x y | (None, None) \<Rightarrow> True | _ \<Rightarrow> False)"

lemma changed_keys_set:
  assumes "hm_wf new"
  shows "k \<in> set (changed_keys old new) \<longleftrightarrow> \<not> same_value (hm_get old k) (hm_get new k)"
proof -
  have "k \<in> set (changed_keys old new) \<longleftrightarrow>
      (\<exists>v. hm_get new k = Some v \<and> (case hm_get old k of Some w \<Rightarrow> \<not> value_eq w v | None \<Rightarrow> True))
      \<or> hm_get old k \<noteq> None \<and> hm_get new k = None"
  proof -
    have "k \<in> set (map fst (filter (\<lambda>(k, v). case hm_get old k of Some w \<Rightarrow> \<not> value_eq w v | None \<Rightarrow> True) new)) \<longleftrightarrow>
        (\<exists>v. (k, v) \<in> set new \<and> (case hm_get old k of Some w \<Rightarrow> \<not> value_eq w v | None \<Rightarrow> True))"
      by (auto simp: image_iff)
    then show ?thesis unfolding changed_keys_def set_append Un_iff hm_get_eq_Some_iff [OF assms] by (simp add: hm_get_None_iff)
  qed
  then show ?thesis by (auto simp: same_value_def split: option.splits)
qed

text \<open>
  Property: a reload is all or nothing. A rejected one leaves the store as it was; an accepted one replaces the map,
  reports exactly the keys whose value differs, and sends a new version when there are any.
\<close>

theorem reload_all_or_nothing:
  assumes "hm_wf new"
  shows "case reload_from_map new c of
      (Inl e, c') \<Rightarrow> c' = c
    | (Inr changed, c') \<Rightarrow> dc_values c' = new
        \<and> (\<forall>k. k \<in> set changed \<longleftrightarrow> \<not> same_value (config_get k c) (config_get k c'))
        \<and> sent c' = sent c @ (if changed = [] then [] else [dc_version c + 1])"
  by (auto simp: reload_cases changed_keys_set [OF assms] config_get_def bump_version_def)

lemma reload_all_or_nothing_witness:
  "sent (snd (reload_from_map [(''port'', CV_Int 80)] (with_schema [(''port'', port_field)]))) = [1]"
  using reload_all_or_nothing [of "[(''port'', CV_Int 80)]" "with_schema [(''port'', port_field)]"] port_accepted
  by (auto simp: hm_wf_def with_schema_def split: prod.splits)

text \<open>
  Property: a float that is not a number passes every range of a schema, and a store that holds one never counts as
  unchanged, not even by a reload of its own values.
\<close>

theorem nan_always_changes:
  "changed_keys [(''x'', CV_Float FNaN)] [(''x'', CV_Float FNaN)] = [''x'']
   \<and> validate_value ''x'' (CV_Float FNaN)
       \<lparr>sf_required = True, sf_value_type = VT_Float, sf_min = Some (FFin 0), sf_max = Some (FFin 1), sf_regex = None\<rparr> = None"
  by (simp add: changed_keys_def hm_get_def hm_keys_def validate_value_def in_range_def)

section \<open>Patterns against their language\<close>

text \<open>
  \<open>in_order ss t\<close>: the segments occur in \<open>t\<close> one after the other, with any text before, between and after them.
\<close>

fun in_order :: "string list \<Rightarrow> string \<Rightarrow> bool" where
  "in_order [] t = True"
| "in_order (s # ss) t = (\<exists>u v. t = u @ s @ v \<and> in_order ss v)"

lemma in_order_prepend: "in_order ss v \<Longrightarrow> in_order ss (w @ v)"
  by (cases ss) (auto, metis append_assoc)

lemma in_order_Nil [simp]: "in_order ([] # ss) t = in_order ss t"
proof
  show "in_order ([] # ss) t \<Longrightarrow> in_order ss t" using in_order_prepend by auto
  show "in_order ss t \<Longrightarrow> in_order ([] # ss) t" by (auto intro: exI [of _ "[]"])
qed

lemma find_segment_sound: "find_segment seg t = Some n \<Longrightarrow> t = take n t @ seg @ drop (n + length seg) t"
proof (induction t arbitrary: n)
  case (Cons c t)
  show ?case
  proof (cases "prefix seg (c # t)")
    case True
    with Cons.prems show ?thesis by (auto simp: prefix_def)
  next
    case False
    with Cons.prems obtain k where k: "find_segment seg t = Some k" "n = Suc k" by auto
    from Cons.IH [OF k(1)] show ?thesis by (simp add: k(2))
  qed
qed (auto split: if_splits)

lemma find_segment_leftmost: "\<exists>n \<le> length u. find_segment seg (u @ seg @ v) = Some n"
proof (induction u)
  case Nil
  have "prefix seg (seg @ v)" by (rule prefixI) simp
  then show ?case by (cases "seg @ v") (simp_all del: same_prefix_nil)
next
  case (Cons c u)
  then show ?case by auto
qed

lemma in_order_find:
  "in_order (seg # rest) t \<longleftrightarrow> (\<exists>n. find_segment seg t = Some n \<and> in_order rest (drop (n + length seg) t))"
proof
  assume "in_order (seg # rest) t"
  then obtain u v where t: "t = u @ seg @ v" and r: "in_order rest v" by auto
  from find_segment_leftmost [of u seg v] t obtain n where n: "n \<le> length u" "find_segment seg t = Some n" by auto
  have "drop (n + length seg) t = take (length u - n) (drop (n + length seg) t) @ v"
  proof -
    have "drop (length u - n) (drop (n + length seg) t) = v" using n(1) by (simp add: t)
    then show ?thesis by (metis append_take_drop_id)
  qed
  then show "\<exists>n. find_segment seg t = Some n \<and> in_order rest (drop (n + length seg) t)"
    using in_order_prepend [OF r] n(2) by metis
next
  assume "\<exists>n. find_segment seg t = Some n \<and> in_order rest (drop (n + length seg) t)"
  then show "in_order (seg # rest) t" using find_segment_sound by (auto, metis)
qed

lemma match_free:
  "\<not> (first \<and> a) \<Longrightarrow> match_segments a False t segs first pos \<longleftrightarrow> in_order segs (drop pos t)"
proof (induction segs arbitrary: first pos)
  case (Cons seg rest)
  have ih: "match_segments a False t rest False k \<longleftrightarrow> in_order rest (drop k t)" for k
    by (rule Cons.IH) simp
  show ?case
  proof (cases "seg = []")
    case True
    then show ?thesis by (simp add: ih del: in_order.simps(2))
  next
    case False
    with Cons.prems show ?thesis
      by (auto simp: ih in_order_find add_ac simp del: in_order.simps(2) split: option.splits)
  qed
qed simp

lemma match_end_anchored:
  "\<not> (first \<and> a) \<Longrightarrow> segs \<noteq> [] \<Longrightarrow>
   match_segments a True t segs first pos \<longleftrightarrow> in_order (butlast segs) (drop pos t) \<and> suffix (last segs) t"
proof (induction segs arbitrary: first pos)
  case (Cons seg rest)
  show ?case
  proof (cases "rest = []")
    case True
    with Cons.prems show ?thesis by auto
  next
    case rest: False
    then have ih: "match_segments a True t rest False k \<longleftrightarrow> in_order (butlast rest) (drop k t) \<and> suffix (last rest) t" for k
      by (rule Cons.IH [rotated]) simp
    show ?thesis
    proof (cases "seg = []")
      case True
      with rest show ?thesis by (simp add: ih del: in_order.simps(2))
    next
      case False
      with Cons.prems rest show ?thesis
        by (auto simp: ih in_order_find add_ac simp del: in_order.simps(2) split: option.splits)
    qed
  qed
qed simp

lemma split_wild_nonempty: "split_wild cur xs \<noteq> []"
  by (induction cur xs rule: split_wild.induct) auto

lemma split_wild_two: "sublist ''.*'' xs \<Longrightarrow> 2 \<le> length (split_wild cur xs)"
proof (induction cur xs rule: split_wild.induct)
  case (3 cur c d xs)
  show ?case
  proof (cases "c = CHR ''.'' \<and> d = CHR ''*''")
    case True
    then show ?thesis using split_wild_nonempty [of "[]" xs] by (simp add: Suc_le_eq)
  next
    case False
    with 3 show ?thesis by (auto simp: sublist_Cons_right)
  qed
qed (auto simp: sublist_Cons_right)

lemma match_anchored:
  assumes "rest \<noteq> []"
  shows "match_segments True e t (s0 # rest) True 0 \<longleftrightarrow> prefix s0 t \<and> match_segments True e t rest False (length s0)"
  by (cases "s0 = []") simp_all

text \<open>
  The language of a pattern with \<open>.*\<close>: its segments in order, the first at the start of the text when the pattern
  begins with \<open>^\<close>.
\<close>

definition language :: "bool \<Rightarrow> string list \<Rightarrow> string \<Rightarrow> bool" where
  "language astart segs t \<longleftrightarrow>
    (if astart then segs = [] \<or> (\<exists>v. t = hd segs @ v \<and> in_order (tl segs) v) else in_order segs t)"

lemma regex_wild:
  assumes "sublist ''.*'' (pattern_core p)"
  shows "simple_regex_match p t \<longleftrightarrow>
    (if suffix ''$'' p then language (prefix ''^'' p) (butlast (split_wild [] (pattern_core p))) t
         \<and> suffix (last (split_wild [] (pattern_core p))) t
     else language (prefix ''^'' p) (split_wild [] (pattern_core p)) t)"
proof -
  obtain s0 rest where s: "split_wild [] (pattern_core p) = s0 # rest" "rest \<noteq> []"
    using split_wild_two [OF assms, of "[]"] by (cases "split_wild [] (pattern_core p)") (auto, metis list.size(3) not_less_eq_eq zero_le)
  have pre: "prefix s0 t \<and> in_order ss (drop (length s0) t) \<longleftrightarrow> (\<exists>v. t = s0 @ v \<and> in_order ss v)" for ss
    by (auto simp: prefix_def)
  show ?thesis
  proof (cases "prefix ''^'' p")
    case True
    then show ?thesis using assms s(2)
      by (simp add: simple_regex_match_def Let_def s(1) language_def match_anchored match_free match_end_anchored pre [symmetric] conj_assoc del: match_segments.simps)
  next
    case False
    then show ?thesis using assms s(2)
      by (simp add: simple_regex_match_def Let_def s(1) language_def match_free match_end_anchored del: match_segments.simps in_order.simps(2))
  qed
qed


text \<open>
  Property: a pattern with \<open>.*\<close> and no \<open>$\<close> at its end accepts exactly the texts of its language; the leftmost
  occurrence of each segment is as good as any.
\<close>

theorem pattern_accepts_language:
  assumes "sublist ''.*'' (pattern_core p)" "\<not> suffix ''$'' p"
  shows "simple_regex_match p t \<longleftrightarrow> language (prefix ''^'' p) (split_wild [] (pattern_core p)) t"
  using assms(2) by (simp add: regex_wild [OF assms(1)])

lemma pattern_accepts_language_witness: "simple_regex_match ''^a.*b'' ''axxbb'' \<longleftrightarrow> language True [''a'', ''b''] ''axxbb''"
proof -
  have c: "pattern_core ''^a.*b'' = ''a.*b''" by (simp add: pattern_core_def)
  show ?thesis using pattern_accepts_language [of "''^a.*b''" "''axxbb''"] unfolding c
    by (simp add: sublist_Cons_right suffix_def)
qed

text \<open>
  Property: with \<open>$\<close> at its end a pattern accepts every text that ends in its last segment and is in the language of
  the others, so the last segment may overlap them: \<open>^ab.*ba$\<close> accepts \<open>aba\<close>.
\<close>

theorem end_anchor_overlaps:
  assumes "sublist ''.*'' (pattern_core p)" "suffix ''$'' p"
  shows "simple_regex_match p t \<longleftrightarrow>
      language (prefix ''^'' p) (butlast (split_wild [] (pattern_core p))) t \<and> suffix (last (split_wild [] (pattern_core p))) t"
  using assms(2) by (simp add: regex_wild [OF assms(1)])

lemma end_anchor_overlaps_witness:
  "simple_regex_match ''^ab.*ba$'' ''aba'' \<and> \<not> (\<exists>v. ''aba'' = ''ab'' @ v @ ''ba'')"
proof -
  have c: "pattern_core ''^ab.*ba$'' = ''ab.*ba''" by (simp add: pattern_core_def)
  have a: "simple_regex_match ''^ab.*ba$'' ''aba'' \<longleftrightarrow> language True [''ab''] ''aba'' \<and> suffix ''ba'' ''aba''"
    using end_anchor_overlaps [of "''^ab.*ba$''" "''aba''"] unfolding c by (simp add: sublist_Cons_right suffix_def)
  have l: "language True [''ab''] ''aba''" by (simp add: language_def)
  have f: "suffix ''ba'' ''aba''" by (simp add: suffix_def)
  have n: "\<not> (\<exists>v. ''aba'' = ''ab'' @ v @ ''ba'')" by (auto dest: arg_cong [where f = length])
  from a l f n show ?thesis by blast
qed

end
