(* ===== verification/RequestCoalescing.thy ===== *)
theory RequestCoalescing
  imports ResponseCache "HOL-Library.Multiset"
begin

text \<open>
  Coalescing by content hash (\<open>src/request_coalescing.rs\<close>): every operation holds one mutex, so the model is a state
  and its operations. A receiver of a one-shot channel is the number it was created with; \<open>delivered\<close> lists, in order,
  the results the coalescer sent and the receivers they went to. Instants are nanoseconds.
\<close>

section \<open>State\<close>

definition from_content :: "string \<Rightarrow> u64" where
  "from_content content = fnv1a (as_bytes content)"

definition show_key :: "u64 \<Rightarrow> string" where
  "show_key k = ''ck:'' @ hex16 k"

record PendingRequest =
  pr_key :: u64
  waiters :: "nat list"
  submitted_at :: nat

record RequestCoalescer =
  rc_in_flight :: "(u64, PendingRequest) hashmap"
  rc_total_requests :: u64
  rc_coalesced_requests :: u64
  next_receiver :: nat
  delivered :: "(nat \<times> (string + string)) list"

definition request_coalescer_new :: RequestCoalescer where
  "request_coalescer_new = \<lparr>rc_in_flight = [], rc_total_requests = 0, rc_coalesced_requests = 0, next_receiver = 0, delivered = []\<rparr>"

section \<open>Operations\<close>

definition submit_or_join :: "nat \<Rightarrow> string \<Rightarrow> RequestCoalescer \<Rightarrow> (bool \<times> nat) \<times> RequestCoalescer" where
  "submit_or_join now content c =
    (let k = from_content content;
         rx = next_receiver c;
         c = c\<lparr>rc_total_requests := rc_total_requests c + 1, next_receiver := rx + 1\<rparr>
     in case hm_get (rc_in_flight c) k of
          Some p \<Rightarrow>
            ((False, rx), c\<lparr>rc_in_flight := hm_insert k (p\<lparr>waiters := waiters p @ [rx]\<rparr>) (rc_in_flight c),
               rc_coalesced_requests := rc_coalesced_requests c + 1\<rparr>)
        | None \<Rightarrow>
            ((True, rx), c\<lparr>rc_in_flight := hm_insert k \<lparr>pr_key = k, waiters = [rx], submitted_at = now\<rparr> (rc_in_flight c)\<rparr>))"

definition complete_request :: "u64 \<Rightarrow> string + string \<Rightarrow> RequestCoalescer \<Rightarrow> RequestCoalescer" where
  "complete_request k r c =
    (case hm_get (rc_in_flight c) k of
       Some p \<Rightarrow> c\<lparr>rc_in_flight := hm_remove k (rc_in_flight c), delivered := delivered c @ map (\<lambda>rx. (rx, r)) (waiters p)\<rparr>
     | None \<Rightarrow> c)"

definition pending_count :: "RequestCoalescer \<Rightarrow> nat" where
  "pending_count c = length (rc_in_flight c)"

definition pruned :: "string + string" where
  "pruned = Inl ''request pruned: stale entry''"

definition stale_keys :: "nat \<Rightarrow> u64 \<Rightarrow> RequestCoalescer \<Rightarrow> u64 list" where
  "stale_keys now max_age_ms c =
    map fst (filter (\<lambda>(k, p). unat max_age_ms * 10 ^ 6 \<le> now - submitted_at p) (rc_in_flight c))"

definition prune_stale :: "nat \<Rightarrow> u64 \<Rightarrow> RequestCoalescer \<Rightarrow> RequestCoalescer" where
  "prune_stale now max_age_ms c = fold (\<lambda>k. complete_request k pruned) (stale_keys now max_age_ms c) c"

record CoalescingMetrics =
  cm_total_requests :: u64
  cm_coalesced_requests :: u64
  cm_coalesce_rate :: f64

definition coalescing_metrics :: "RequestCoalescer \<Rightarrow> CoalescingMetrics" where
  "coalescing_metrics c =
    (let t = rc_total_requests c; n = rc_coalesced_requests c
     in \<lparr>cm_total_requests = t, cm_coalesced_requests = n,
         cm_coalesce_rate = (if t = 0 then FFin 0 else f64_div (f64_of_u64 n) (f64_of_u64 t))\<rparr>)"

section \<open>Every receiver is answered at most once\<close>

definition waiting :: "(u64, PendingRequest) hashmap \<Rightarrow> nat list" where
  "waiting m = concat (map (\<lambda>(k, p). waiters p) m)"

text \<open>
  Each receiver handed out is either waiting in one entry or has been sent one result.
\<close>

definition receivers_ok :: "RequestCoalescer \<Rightarrow> bool" where
  "receivers_ok c \<longleftrightarrow> hm_wf (rc_in_flight c)
    \<and> mset (map fst (delivered c)) + mset (waiting (rc_in_flight c)) = mset [0..<next_receiver c]"

datatype coalescer_op = Submit nat string | Complete u64 "string + string" | Prune nat u64

fun coalescer_step :: "coalescer_op \<Rightarrow> RequestCoalescer \<Rightarrow> RequestCoalescer" where
  "coalescer_step (Submit now content) c = snd (submit_or_join now content c)"
| "coalescer_step (Complete k r) c = complete_request k r c"
| "coalescer_step (Prune now age) c = prune_stale now age c"

lemma waiters_removed:
  "hm_wf m \<Longrightarrow> hm_get m k = Some p \<Longrightarrow> mset (waiting m) = mset (waiters p) + mset (waiting (hm_remove k m))"
proof (induction m)
  case (Cons x m)
  obtain k' q where x: "x = (k', q)" by (cases x)
  show ?case
  proof (cases "k' = k")
    case True
    with Cons.prems x have "hm_remove k (x # m) = m"
      by (auto simp: hm_remove_def hm_wf_def image_iff intro!: AList.delete_id)
    with True Cons.prems x show ?thesis by (simp add: waiting_def hm_get_def)
  next
    case False
    with Cons x show ?thesis by (simp add: waiting_def hm_get_def hm_remove_def hm_wf_def)
  qed
qed (simp add: hm_get_def)

lemma waiters_inserted:
  "hm_wf m \<Longrightarrow> mset (waiting (hm_insert k p m)) = mset (waiters p) + mset (waiting (hm_remove k m))"
proof (induction m)
  case (Cons x m)
  obtain k' q where x: "x = (k', q)" by (cases x)
  show ?case
  proof (cases "k' = k")
    case True
    with Cons.prems x have "hm_remove k (x # m) = m"
      by (auto simp: hm_remove_def hm_wf_def image_iff intro!: AList.delete_id)
    with True x show ?thesis by (simp add: waiting_def hm_insert_def)
  next
    case False
    with Cons x show ?thesis by (simp add: waiting_def hm_insert_def hm_remove_def hm_wf_def)
  qed
qed (simp add: waiting_def hm_insert_def hm_remove_def)

lemma remove_absent: "hm_get m k = None \<Longrightarrow> hm_remove k m = m"
  by (simp add: hm_get_def hm_remove_def map_of_eq_None_iff AList.delete_id)


lemma submit_ok: "receivers_ok c \<Longrightarrow> receivers_ok (snd (submit_or_join now content c))"
proof -
  assume c: "receivers_ok c"
  let ?m = "rc_in_flight c" and ?k = "from_content content"
  show ?thesis
  proof (cases "hm_get ?m ?k")
    case None
    with c show ?thesis
      by (simp add: receivers_ok_def submit_or_join_def Let_def waiters_inserted remove_absent)
  next
    case (Some p)
    with c show ?thesis
      using waiters_removed [of ?m ?k p]
      by (simp add: receivers_ok_def submit_or_join_def Let_def waiters_inserted)
  qed
qed

lemma complete_ok: "receivers_ok c \<Longrightarrow> receivers_ok (complete_request k r c)"
  using waiters_removed [of "rc_in_flight c" k]
  by (auto simp: receivers_ok_def complete_request_def multiset.map_comp comp_def ac_simps split: option.split)

lemma fold_complete_ok: "receivers_ok c \<Longrightarrow> receivers_ok (fold (\<lambda>k. complete_request k r) ks c)"
  by (induction ks arbitrary: c) (simp_all add: complete_ok)

lemma coalescer_step_ok: "receivers_ok c \<Longrightarrow> receivers_ok (coalescer_step x c)"
  by (cases x) (simp_all add: submit_ok complete_ok prune_stale_def fold_complete_ok)

interpretation coalescers: stateful coalescer_step receivers_ok
  by unfold_locales (rule coalescer_step_ok)

lemma new_ok: "receivers_ok request_coalescer_new"
  by (simp add: receivers_ok_def request_coalescer_new_def waiting_def)

text \<open>
  C30. Property: whatever is submitted, completed and pruned, every receiver handed out is waiting in exactly one entry or
  has been sent exactly one result, never both.
\<close>

theorem receivers_answered_once:
  "mset (map fst (delivered (fold coalescer_step ops request_coalescer_new)))
     + mset (waiting (rc_in_flight (fold coalescer_step ops request_coalescer_new)))
   = mset [0..<next_receiver (fold coalescer_step ops request_coalescer_new)]
   \<and> distinct (map fst (delivered (fold coalescer_step ops request_coalescer_new))
       @ waiting (rc_in_flight (fold coalescer_step ops request_coalescer_new)))"
proof -
  let ?c = "fold coalescer_step ops request_coalescer_new"
  have m: "mset (map fst (delivered ?c) @ waiting (rc_in_flight ?c)) = mset [0..<next_receiver ?c]"
    using coalescers.run_inv [OF new_ok, of ops] by (simp only: receivers_ok_def mset_append)
  then have "distinct (map fst (delivered ?c) @ waiting (rc_in_flight ?c))" using mset_eq_imp_distinct_iff [OF m] by simp
  with m show ?thesis by (simp only: mset_append)
qed

section \<open>Leaders and results\<close>

text \<open>
  Property: a submission leads exactly when no request with its hash is in flight; any other joins it, whoever waits.
\<close>

theorem leads_iff_alone:
  "(fst (fst (submit_or_join now content c)) \<longleftrightarrow> hm_get (rc_in_flight c) (from_content content) = None)
   \<and> (\<exists>p. hm_get (rc_in_flight (snd (submit_or_join now content c))) (from_content content) = Some p
        \<and> snd (fst (submit_or_join now content c)) \<in> set (waiters p))"
  by (auto simp: submit_or_join_def Let_def hm_get_insert split: option.split)

text \<open>
  Property: completing a request sends its result to everyone who waits on it, the leader included, and only to them.
\<close>

theorem completion_reaches_waiters:
  assumes "hm_get (rc_in_flight c) k = Some p"
  shows "delivered (complete_request k r c) = delivered c @ map (\<lambda>rx. (rx, r)) (waiters p)
    \<and> hm_get (rc_in_flight (complete_request k r c)) k = None"
  using assms by (simp add: complete_request_def hm_get_remove)

lemma leader_hears_itself:
  "hm_get (rc_in_flight c) (from_content content) = None \<Longrightarrow>
   delivered (complete_request (from_content content) r (snd (submit_or_join now content c))) = delivered c @ [(next_receiver c, r)]"
  by (simp add: submit_or_join_def Let_def complete_request_def hm_get_insert)

lemma completion_reaches_waiters_witness:
  "delivered (complete_request (from_content ''a'') (Inr ''x'') (snd (submit_or_join 0 ''a'' request_coalescer_new))) = [(0, Inr ''x'')]"
proof -
  have g: "hm_get (rc_in_flight (snd (submit_or_join 0 ''a'' request_coalescer_new))) (from_content ''a'')
      = Some \<lparr>pr_key = from_content ''a'', waiters = [0], submitted_at = 0\<rparr>"
    by (simp add: submit_or_join_def Let_def request_coalescer_new_def hm_get_insert)
  show ?thesis using completion_reaches_waiters [OF g, of "Inr ''x''"] by (simp add: submit_or_join_def request_coalescer_new_def Let_def)
qed

lemma fold_complete:
  "hm_wf (rc_in_flight c) \<Longrightarrow>
   hm_get (rc_in_flight (fold (\<lambda>k. complete_request k r) ks c)) k = (if k \<in> set ks then None else hm_get (rc_in_flight c) k)"
  by (induction ks arbitrary: c) (auto simp: complete_request_def hm_get_remove split: option.splits)

text \<open>
  Property: pruning removes exactly the requests at least as old as the limit, and leaves the others as they were.
\<close>

theorem prune_exact:
  assumes "hm_wf (rc_in_flight c)"
  shows "hm_get (rc_in_flight (prune_stale now age c)) k =
    (case hm_get (rc_in_flight c) k of
       Some p \<Rightarrow> if unat age * 10 ^ 6 \<le> now - submitted_at p then None else Some p | None \<Rightarrow> None)"
proof -
  have "k \<in> set (stale_keys now age c) \<longleftrightarrow>
      (\<exists>p. hm_get (rc_in_flight c) k = Some p \<and> unat age * 10 ^ 6 \<le> now - submitted_at p)"
    unfolding stale_keys_def hm_get_eq_Some_iff [OF assms] by (auto simp: image_iff)
  then show ?thesis unfolding prune_stale_def fold_complete [OF assms] by (auto split: option.split)
qed

lemma prune_exact_witness:
  "hm_get (rc_in_flight (prune_stale (5 * 10 ^ 6) 5 (snd (submit_or_join 0 ''a'' request_coalescer_new)))) (from_content ''a'') = None"
proof -
  have "hm_wf (rc_in_flight (snd (submit_or_join 0 ''a'' request_coalescer_new)))"
    using submit_ok [OF new_ok] by (simp add: receivers_ok_def)
  from prune_exact [OF this, of "5 * 10 ^ 6" 5 "from_content ''a''"]
  show ?thesis by (simp add: submit_or_join_def Let_def request_coalescer_new_def hm_get_insert)
qed

text \<open>
  Property: requests are told apart by their hash alone. A leader that was pruned and completes late answers the next
  request of its hash with its own result, and the leader of that one then completes nothing.
\<close>

theorem late_completion_answers_next:
  assumes "hm_get (rc_in_flight c) (from_content content) = None"
  shows "let c1 = snd (submit_or_join now content c);
             c2 = complete_request (from_content content) old c1
         in fst (fst (submit_or_join now content c))
            \<and> delivered c2 = delivered c @ [(next_receiver c, old)]
            \<and> complete_request (from_content content) new c2 = c2"
  using assms by (simp add: submit_or_join_def Let_def complete_request_def hm_get_insert hm_get_remove)

lemma late_completion_answers_next_witness:
  "delivered (complete_request (from_content ''a'') (Inr ''old'') (snd (submit_or_join 9 ''a'' request_coalescer_new)))
   = [(0, Inr ''old'')]"
proof -
  have "hm_get (rc_in_flight request_coalescer_new) (from_content ''a'') = None" by (simp add: request_coalescer_new_def)
  from late_completion_answers_next [OF this, of 9 "Inr ''old''"] show ?thesis by (simp add: Let_def request_coalescer_new_def)
qed

section \<open>Metrics\<close>

definition counts_ok :: "RequestCoalescer \<Rightarrow> bool" where
  "counts_ok c \<longleftrightarrow> (\<exists>n \<le> next_receiver c. rc_coalesced_requests c = of_nat n) \<and> rc_total_requests c = of_nat (next_receiver c)"

lemma fold_complete_counts:
  "counts_ok (fold (\<lambda>k. complete_request k r) ks c) = counts_ok c"
  by (induction ks arbitrary: c) (simp_all add: complete_request_def counts_ok_def split: option.split)

lemma submit_counts: "counts_ok c \<Longrightarrow> counts_ok (snd (submit_or_join now content c))"
  unfolding counts_ok_def submit_or_join_def Let_def
  by (auto split: option.split intro: le_SucI)

interpretation counted: stateful coalescer_step counts_ok
  by unfold_locales (rename_tac s x, case_tac x; simp add: submit_counts prune_stale_def fold_complete_counts fold_complete_counts [of _ "[_]", simplified])

lemma f64_ratio_unit: "a \<le> b \<Longrightarrow> b \<noteq> 0 \<Longrightarrow> in_unit (f64_div (f64_of_u64 a) (f64_of_u64 b))"
proof -
  assume "a \<le> b" "b \<noteq> 0"
  obtain x where x: "f64_of_u64 a = FFin x" "0 \<le> x" using f64_of_u64_bounds by blast
  obtain y where y: "f64_of_u64 b = FFin y" "0 \<le> y" using f64_of_u64_bounds by blast
  have "fp_le (f64_of_u64 a) (f64_of_u64 b)"
    unfolding f64_of_u64_def by (rule f64_of_nat_mono) (use \<open>a \<le> b\<close> in \<open>simp add: word_le_nat_alt\<close>)
  then have "x \<le> y" by (simp add: x y)
  have "1 \<le> unat b" using \<open>b \<noteq> 0\<close> by (simp add: Suc_leI unat_gt_0)
  then have "fp_le (f64_of_nat 1) (f64_of_u64 b)" unfolding f64_of_u64_def by (rule f64_of_nat_mono)
  then have "0 < y" by (simp add: y f64_of_nat_def)
  with \<open>x \<le> y\<close> x(2) obtain z where "rnd64 (x / y) = FFin z" "0 \<le> z" "z \<le> 1"
    using rnd64_unit [of "x / y"] by (auto simp: divide_le_eq_1)
  then show ?thesis using \<open>0 < y\<close> by (simp add: x y)
qed

text \<open>
  Property: while fewer than \<open>2^64\<close> requests are made, the metrics count them, no more are coalesced than made, and the
  rate is in the unit interval.
\<close>

theorem coalesce_rate_unit:
  assumes "next_receiver (fold coalescer_step ops request_coalescer_new) < 2 ^ 64"
  shows "cm_coalesced_requests (coalescing_metrics (fold coalescer_step ops request_coalescer_new))
      \<le> cm_total_requests (coalescing_metrics (fold coalescer_step ops request_coalescer_new))
    \<and> in_unit (cm_coalesce_rate (coalescing_metrics (fold coalescer_step ops request_coalescer_new)))"
proof -
  let ?c = "fold coalescer_step ops request_coalescer_new"
  have "counts_ok request_coalescer_new" by (simp add: counts_ok_def request_coalescer_new_def)
  then have "counts_ok ?c" by (rule counted.run_inv)
  then obtain n where n: "n \<le> next_receiver ?c" "rc_coalesced_requests ?c = of_nat n" "rc_total_requests ?c = of_nat (next_receiver ?c)"
    by (auto simp: counts_ok_def)
  then have le: "rc_coalesced_requests ?c \<le> rc_total_requests ?c" using assms by (simp add: word_le_nat_alt unat_of_nat_small)
  then show ?thesis by (simp add: coalescing_metrics_def Let_def f64_ratio_unit)
qed

lemma coalesce_rate_unit_witness:
  "in_unit (cm_coalesce_rate (coalescing_metrics (fold coalescer_step [Submit 0 ''a'', Submit 1 ''a''] request_coalescer_new)))"
  by (rule coalesce_rate_unit [THEN conjunct2])
    (simp add: submit_or_join_def Let_def request_coalescer_new_def hm_get_insert)

end
