(* ===== verification/AdaptiveTimeout.thy ===== *)
theory AdaptiveTimeout
  imports Metrics
begin

text \<open>
  Timeouts from observed latencies (\<open>src/adaptive_timeout.rs\<close>): a window of samples per key, percentiles by linear
  interpolation, a safety factor, and bounds. The results of indexing are those of lists; the lemmas show that every
  index is in range.
\<close>

section \<open>Configuration and windows\<close>

record TimeoutConfig =
  base_timeout_ms :: u64
  tc_percentile :: f64
  min_timeout_ms :: u64
  max_timeout_ms :: u64
  safety_factor :: f64
  window_capacity :: usize

definition timeout_config_new :: TimeoutConfig where
  "timeout_config_new = \<lparr>base_timeout_ms = 5000, tc_percentile = FFin 95, min_timeout_ms = 100, max_timeout_ms = 60000,
     safety_factor = FFin (5 / 4), window_capacity = 128\<rparr>"

definition with_percentile :: "f64 \<Rightarrow> TimeoutConfig \<Rightarrow> TimeoutConfig" where
  "with_percentile pct c = c\<lparr>tc_percentile := f64_clamp pct (FFin 0) (FFin 100)\<rparr>"

definition with_safety_factor :: "f64 \<Rightarrow> TimeoutConfig \<Rightarrow> TimeoutConfig" where
  "with_safety_factor factor c = c\<lparr>safety_factor := f64_max factor (FFin 1)\<rparr>"

definition with_window_capacity :: "usize \<Rightarrow> TimeoutConfig \<Rightarrow> TimeoutConfig" where
  "with_window_capacity cap c = c\<lparr>window_capacity := max cap 1\<rparr>"

record LatencyWindow =
  lw_samples :: "u64 list"
  lw_capacity :: usize

definition window_new :: "usize \<Rightarrow> LatencyWindow" where
  "window_new cap = \<lparr>lw_samples = [], lw_capacity = max cap 1\<rparr>"

definition window_push :: "u64 \<Rightarrow> LatencyWindow \<Rightarrow> LatencyWindow" where
  "window_push ms w = w\<lparr>lw_samples := push_window (unat (lw_capacity w)) ms (lw_samples w)\<rparr>"

definition rank_of :: "nat \<Rightarrow> f64 \<Rightarrow> f64" where
  "rank_of n pct = f64_mul (f64_div (f64_clamp pct (FFin 0) (FFin 100)) (FFin 100)) (f64_of_nat (n - 1))"

definition window_percentile :: "f64 \<Rightarrow> LatencyWindow \<Rightarrow> f64 option" where
  "window_percentile pct w =
    (if lw_samples w = [] then None
     else let srt = sort (lw_samples w);
              n = length srt
          in if n = 1 then Some (f64_of_u64 (srt ! 0))
             else let rank = rank_of n pct;
                      lo = unat (f64_to_u64 (f64_floor rank));
                      hi = min (lo + 1) (n - 1);
                      frac = f64_sub rank (f64_of_nat lo)
                  in Some (f64_add (f64_mul (f64_of_u64 (srt ! lo)) (f64_sub (FFin 1) frac)) (f64_mul (f64_of_u64 (srt ! hi)) frac)))"

definition p50 :: "LatencyWindow \<Rightarrow> f64 option" where "p50 w = window_percentile (FFin 50) w"
definition p75 :: "LatencyWindow \<Rightarrow> f64 option" where "p75 w = window_percentile (FFin 75) w"
definition p95 :: "LatencyWindow \<Rightarrow> f64 option" where "p95 w = window_percentile (FFin 95) w"
definition p99 :: "LatencyWindow \<Rightarrow> f64 option" where "p99 w = window_percentile (FFin 99) w"

section \<open>The manager\<close>

record TimeoutDecision =
  timeout_ms :: u64
  confidence :: f64
  samples_used :: nat

record AdaptiveTimeoutManager =
  atm_config :: TimeoutConfig
  windows :: "(string, LatencyWindow) hashmap"

definition timeout_manager_new :: "TimeoutConfig \<Rightarrow> AdaptiveTimeoutManager" where
  "timeout_manager_new c = \<lparr>atm_config = c, windows = []\<rparr>"

definition record_latency :: "string \<Rightarrow> u64 \<Rightarrow> AdaptiveTimeoutManager \<Rightarrow> AdaptiveTimeoutManager" where
  "record_latency k ms m =
    (let w = (case hm_get (windows m) k of Some w \<Rightarrow> w | None \<Rightarrow> window_new (window_capacity (atm_config m)))
     in m\<lparr>windows := hm_insert k (window_push ms w) (windows m)\<rparr>)"

definition no_data :: "TimeoutConfig \<Rightarrow> TimeoutDecision" where
  "no_data c = \<lparr>timeout_ms = base_timeout_ms c, confidence = FFin 0, samples_used = 0\<rparr>"

definition raw_timeout :: "TimeoutConfig \<Rightarrow> LatencyWindow \<Rightarrow> u64" where
  "raw_timeout c w =
    (let v = (case window_percentile (tc_percentile c) w of Some v \<Rightarrow> v | None \<Rightarrow> f64_of_u64 (base_timeout_ms c))
     in f64_to_u64 (f64_ceil (f64_mul v (safety_factor c))))"

definition decide :: "string \<Rightarrow> AdaptiveTimeoutManager \<Rightarrow> TimeoutDecision" where
  "decide k m =
    (let c = atm_config m
     in case hm_get (windows m) k of
          None \<Rightarrow> no_data c
        | Some w \<Rightarrow>
            if lw_samples w = [] then no_data c
            else let n = length (lw_samples w)
                 in \<lparr>timeout_ms = min (max (raw_timeout c w) (min_timeout_ms c)) (max_timeout_ms c),
                     confidence = f64_min (f64_div (f64_of_nat n) (f64_of_u64 (window_capacity c))) (FFin 1),
                     samples_used = n\<rparr>)"

definition reset_key :: "string \<Rightarrow> AdaptiveTimeoutManager \<Rightarrow> AdaptiveTimeoutManager" where
  "reset_key k m = m\<lparr>windows := hm_remove k (windows m)\<rparr>"

section \<open>Windows hold the last samples\<close>

text \<open>The samples recorded for a key since it was last reset, and what a manager that saw them holds.\<close>

datatype timeout_op = Record string u64 | Reset string

fun timeout_step :: "timeout_op \<Rightarrow> AdaptiveTimeoutManager \<Rightarrow> AdaptiveTimeoutManager" where
  "timeout_step (Record k ms) m = record_latency k ms m"
| "timeout_step (Reset k) m = reset_key k m"

fun since_reset :: "string \<Rightarrow> timeout_op \<Rightarrow> u64 list \<Rightarrow> u64 list" where
  "since_reset k (Record k' ms) xs = (if k' = k then xs @ [ms] else xs)"
| "since_reset k (Reset k') xs = (if k' = k then [] else xs)"

definition holds_last :: "string \<Rightarrow> u64 list \<Rightarrow> AdaptiveTimeoutManager \<Rightarrow> bool" where
  "holds_last k xs m \<longleftrightarrow>
    (let cap = max (window_capacity (atm_config m)) 1
     in hm_get (windows m) k = (if xs = [] then None
          else Some \<lparr>lw_samples = drop (length xs - unat cap) xs, lw_capacity = cap\<rparr>))"

lemma step_config [simp]: "atm_config (timeout_step x m) = atm_config m"
  by (cases x) (simp_all add: record_latency_def reset_key_def Let_def)

lemma cap_positive: "0 < unat (max cap (1 :: usize))"
  by (auto simp: max_def unat_gt_0 word_le_nat_alt)

lemma step_holds_last: "holds_last k xs m \<Longrightarrow> holds_last k (since_reset k x xs) (timeout_step x m)"
proof -
  assume h: "holds_last k xs m"
  show ?thesis
  proof (cases x)
    case (Record k' ms)
    show ?thesis
    proof (cases "k' = k")
      case True
      have "push_window (unat cap) ms (drop (length xs - unat cap) xs) = drop (length (xs @ [ms]) - unat cap) (xs @ [ms])"
        if "cap = max (window_capacity (atm_config m)) 1" for cap :: usize
        unfolding that by (rule push_window_drop) (rule cap_positive)
      then show ?thesis using h Record True
        by (cases "xs = []") (simp_all add: holds_last_def record_latency_def Let_def hm_get_insert window_push_def window_new_def)
    next
      case False
      then show ?thesis using h Record by (simp add: holds_last_def record_latency_def Let_def hm_get_insert)
    qed
  next
    case (Reset k')
    then show ?thesis using h by (simp add: holds_last_def reset_key_def Let_def hm_get_remove)
  qed
qed

text \<open>
  Property: after any records and resets the window of a key holds exactly the last samples recorded for it since it
  was last reset, up to the capacity, and there is none when there is no such sample.
\<close>

theorem window_holds_last_samples:
  "holds_last k (fold (since_reset k) ops []) (fold timeout_step ops (timeout_manager_new c))"
proof -
  have "holds_last k xs m \<Longrightarrow> holds_last k (fold (since_reset k) ops xs) (fold timeout_step ops m)" for xs m
    by (induction ops arbitrary: xs m) (simp_all add: step_holds_last)
  then show ?thesis by (simp add: holds_last_def timeout_manager_new_def)
qed

section \<open>Percentiles\<close>

lemma rnd64_range:
  assumes "0 \<le> q" "q \<le> c" "rnd64 c = FFin c"
  obtains r where "rnd64 q = FFin r" "0 \<le> r" "r \<le> c" "rnd64 r = FFin r"
proof -
  have "fp_le (FFin 0) (rnd64 q)" "fp_le (rnd64 q) (FFin c)"
    using rnd64_mono [of 0 q] rnd64_mono [of q c] assms by simp_all
  then obtain r where "rnd64 q = FFin r" "0 \<le> r" "r \<le> c" by (cases "rnd64 q") auto
  then show thesis using that rnd64_idem by blast
qed

lemma rank_in_range:
  assumes "pct \<noteq> FNaN" "0 < n" "n < 2 ^ 53"
  shows "\<exists>q. rank_of n pct = FFin q \<and> 0 \<le> q \<and> q \<le> of_nat (n - 1) \<and> rnd64 q = FFin q"
proof -
  obtain p where p: "f64_clamp pct (FFin 0) (FFin 100) = FFin p" "0 \<le> p" "p \<le> 100"
    using f64_clamp_bounds [OF assms(1), of "FFin 0" "FFin 100"] by (cases "f64_clamp pct (FFin 0) (FFin 100)") auto
  obtain r where r: "rnd64 (p / 100) = FFin r" "0 \<le> r" "r \<le> 1" by (rule rnd64_unit [of "p / 100"]) (use p in auto)
  have e: "f64_of_nat (n - 1) = FFin (of_nat (n - 1))" by (rule f64_of_nat_exact) (use assms in simp)
  then have c: "rnd64 (of_nat (n - 1)) = FFin (of_nat (n - 1))" by (simp add: f64_of_nat_def)
  have "0 \<le> r * of_nat (n - 1)" "r * of_nat (n - 1) \<le> of_nat (n - 1)" using r by (simp_all add: mult_left_le_one_le)
  then obtain q where "rnd64 (r * of_nat (n - 1)) = FFin q" "0 \<le> q" "q \<le> of_nat (n - 1)" "rnd64 q = FFin q"
    by (rule rnd64_range [OF _ _ c])
  then show ?thesis by (simp add: rank_of_def p r e [simplified])
qed

lemma rank_index:
  assumes "pct \<noteq> FNaN" "0 < n" "n < 2 ^ 53"
  shows "unat (f64_to_u64 (f64_floor (rank_of n pct))) < n"
    "in_unit (f64_sub (rank_of n pct) (f64_of_nat (unat (f64_to_u64 (f64_floor (rank_of n pct))))))"
proof -
  obtain q where q: "rank_of n pct = FFin q" "0 \<le> q" "q \<le> of_nat (n - 1)" "rnd64 q = FFin q"
    using rank_in_range [OF assms] by blast
  have lo: "unat (f64_to_u64 (f64_floor (rank_of n pct))) = nat \<lfloor>q\<rfloor>"
  proof -
    have "of_nat (n - 1) < (2 :: rat) ^ 64"
      using assms(3) of_nat_less_iff [of "n - 1" "2 ^ 64", where ?'a = rat] by simp
    then have "of_int \<lfloor>q\<rfloor> < (2 :: rat) ^ 64" "0 \<le> (of_int \<lfloor>q\<rfloor> :: rat)"
      using q(2,3) of_int_floor_le [of q] by (linarith, simp)
    from unat_f64_to_u64_fin [OF this(2,1)] show ?thesis by (simp add: q(1) f64_floor_def)
  qed
  have "\<lfloor>q\<rfloor> \<le> int (n - 1)" using q(3) by (simp add: floor_le_iff)
  then show lt: "unat (f64_to_u64 (f64_floor (rank_of n pct))) < n" using assms(2) q(2) by (simp add: lo nat_less_iff)
  have "f64_of_nat (nat \<lfloor>q\<rfloor>) = FFin (of_int \<lfloor>q\<rfloor>)"
    using f64_of_nat_exact [of "nat \<lfloor>q\<rfloor>"] lt assms(3) q(2) by (simp add: lo)
  moreover have "0 \<le> q - of_int \<lfloor>q\<rfloor>" "q - of_int \<lfloor>q\<rfloor> \<le> 1" using floor_correct [of q] by linarith+
  then obtain r where "rnd64 (q - of_int \<lfloor>q\<rfloor>) = FFin r" "0 \<le> r" "r \<le> 1" by (rule rnd64_unit) auto
  ultimately show "in_unit (f64_sub (rank_of n pct) (f64_of_nat (unat (f64_to_u64 (f64_floor (rank_of n pct))))))"
    by (simp add: lo) (simp add: q(1) f64_sub_def)
qed

lemma frac_product:
  assumes "in_unit f"
  obtains r where "f64_mul (f64_of_u64 x) f = FFin r" "0 \<le> r" "r \<le> 2 ^ 64"
proof -
  obtain a where a: "f64_of_u64 x = FFin a" "0 \<le> a" "a \<le> 2 ^ 64" using f64_of_u64_bounds by blast
  obtain b where b: "f = FFin b" "0 \<le> b" "b \<le> 1" using assms by (rule in_unitE)
  have "0 \<le> a * b" "a * b \<le> 2 ^ 64" using a b mult_mono [of a "2 ^ 64" b 1] by simp_all
  then obtain r where "rnd64 (a * b) = FFin r" "0 \<le> r" "r \<le> 2 ^ 64" by (rule rnd64_range [OF _ _ rnd64_2_64])
  then show thesis using that by (simp add: a b)
qed

lemma rnd64_2_65: "rnd64 (2 ^ 65) = FFin (2 ^ 65)"
  using rnd64_eval [of 65 "2 ^ 65"] rne_of_int [of "2 ^ 52"] by (simp add: pow2_def)

lemma one_minus_unit: "in_unit f \<Longrightarrow> in_unit (f64_sub (FFin 1) f)"
proof (erule in_unitE)
  fix q assume q: "f = FFin q" "0 \<le> q" "q \<le> 1"
  obtain r where "rnd64 (1 - q) = FFin r" "0 \<le> r" "r \<le> 1" by (rule rnd64_unit [of "1 - q"]) (use q in auto)
  then show "in_unit (f64_sub (FFin 1) f)" by (simp add: q f64_sub_def)
qed

lemma percentile_value:
  assumes "lw_samples w \<noteq> []" "length (lw_samples w) < 2 ^ 53" "pct \<noteq> FNaN"
  shows "\<exists>q. window_percentile pct w = Some (FFin q) \<and> 0 \<le> q \<and> q \<le> 2 ^ 65 \<and> rnd64 q = FFin q"
proof (cases "length (lw_samples w) = 1")
  case True
  obtain a where a: "f64_of_u64 (sort (lw_samples w) ! 0) = FFin a" "0 \<le> a" "a \<le> 2 ^ 64" using f64_of_u64_bounds by blast
  then have "rnd64 a = FFin a" using rnd64_idem by (auto simp: f64_of_u64_def f64_of_nat_def)
  with a True assms(1) show ?thesis by (auto simp: window_percentile_def Let_def)
next
  case False
  let ?n = "length (lw_samples w)" and ?s = "sort (lw_samples w)"
  let ?lo = "unat (f64_to_u64 (f64_floor (rank_of ?n pct)))"
  let ?f = "f64_sub (rank_of ?n pct) (f64_of_nat ?lo)"
  have f: "in_unit ?f" by (rule rank_index(2)) (use assms in auto)
  obtain x where x: "f64_mul (f64_of_u64 (?s ! ?lo)) (f64_sub (FFin 1) ?f) = FFin x" "0 \<le> x" "x \<le> 2 ^ 64"
    by (rule frac_product [OF one_minus_unit [OF f]])
  obtain y where y: "f64_mul (f64_of_u64 (?s ! min (?lo + 1) (?n - 1))) ?f = FFin y" "0 \<le> y" "y \<le> 2 ^ 64"
    by (rule frac_product [OF f])
  obtain q where "rnd64 (x + y) = FFin q" "0 \<le> q" "q \<le> 2 ^ 65" "rnd64 q = FFin q"
    by (rule rnd64_range [OF _ _ rnd64_2_65, of "x + y"]) (use x y in auto)
  then show ?thesis using assms(1) False by (simp add: window_percentile_def Let_def x(1) y(1) [simplified])
qed

section \<open>Decisions\<close>

text \<open>
  Property: with samples the timeout lies between the bounds, unless the lower bound exceeds the upper one, which then
  wins; without samples it is the base timeout, which no bound touches.
\<close>

theorem decision_bounds:
  "(timeout_ms (decide k m) \<le> max_timeout_ms (atm_config m)
     \<and> min (min_timeout_ms (atm_config m)) (max_timeout_ms (atm_config m)) \<le> timeout_ms (decide k m))
   \<or> (samples_used (decide k m) = 0 \<and> timeout_ms (decide k m) = base_timeout_ms (atm_config m))"
  by (auto simp: decide_def Let_def no_data_def min_def max_def split: option.split)

lemma base_timeout_unbounded:
  "timeout_ms (decide k (timeout_manager_new (timeout_config_new\<lparr>base_timeout_ms := 70000\<rparr>))) = 70000
   \<and> max_timeout_ms (timeout_config_new\<lparr>base_timeout_ms := 70000\<rparr>) = 60000"
  by (simp add: decide_def timeout_manager_new_def timeout_config_new_def no_data_def Let_def)

lemma ceil_covers:
  assumes "0 \<le> q" "q < 2 ^ 64"
  shows "q \<le> of_nat (unat (f64_to_u64 (f64_ceil (FFin q)))) \<or> f64_to_u64 (f64_ceil (FFin q)) = - 1"
proof (cases "(of_int \<lceil>q\<rceil> :: rat) < 2 ^ 64")
  case True
  have "0 \<le> (of_int \<lceil>q\<rceil> :: rat)" using assms(1) le_of_int_ceiling [of q] by linarith
  from unat_f64_to_u64_fin [OF this True] have "unat (f64_to_u64 (f64_ceil (FFin q))) = nat \<lceil>q\<rceil>" by (simp add: f64_ceil_def)
  then show ?thesis using le_of_int_ceiling [of q] assms(1) by (simp add: of_nat_nat)
next
  case False
  then show ?thesis using le_of_int_ceiling [of q] assms by (auto simp: f64_ceil_def)
qed

lemma scaled_up:
  assumes "0 \<le> q" "rnd64 q = FFin q" "fp_le (FFin 1) s"
  shows "fp_le (FFin q) (f64_mul (FFin q) s) \<or> q = 0"
proof (cases s)
  case (FFin t)
  then have "q \<le> q * t" using assms mult_left_mono [of 1 t q] by simp
  then show ?thesis using rnd64_mono [of q "q * t"] assms(2) FFin by simp
qed (use assms in auto)

text \<open>
  Property: with a safety factor of at least one the timeout covers the chosen percentile of the window, unless it is
  cut by the upper bound, whatever the roundings of the percentile and of the product.
\<close>

theorem timeout_covers_percentile:
  assumes "hm_get (windows m) k = Some w" "lw_samples w \<noteq> []" "length (lw_samples w) < 2 ^ 53"
    and "tc_percentile (atm_config m) \<noteq> FNaN" "fp_le (FFin 1) (safety_factor (atm_config m))"
  shows "timeout_ms (decide k m) = max_timeout_ms (atm_config m)
    \<or> (\<exists>q. window_percentile (tc_percentile (atm_config m)) w = Some (FFin q) \<and> q \<le> of_nat (unat (timeout_ms (decide k m))))"
proof -
  let ?c = "atm_config m"
  obtain q where q: "window_percentile (tc_percentile ?c) w = Some (FFin q)" "0 \<le> q" "rnd64 q = FFin q"
    using percentile_value [OF assms(2-4)] by blast
  have raw: "raw_timeout ?c w = - 1 \<or> q \<le> of_nat (unat (raw_timeout ?c w))"
  proof (cases "q = 0")
    case False
    with scaled_up [OF q(2,3) assms(5)] have le: "fp_le (FFin q) (f64_mul (FFin q) (safety_factor ?c))" by simp
    show ?thesis
    proof (cases "f64_mul (FFin q) (safety_factor ?c)")
      case (FFin r)
      with le have r: "q \<le> r" by simp
      show ?thesis
      proof (cases "r < 2 ^ 64")
        case True
        from ceil_covers [OF _ this] r q(2) show ?thesis by (auto simp: raw_timeout_def q(1) FFin)
      next
        case False
        then have "(2 :: rat) ^ 64 \<le> of_int \<lceil>r\<rceil>" using le_of_int_ceiling [of r] by linarith
        then show ?thesis by (simp add: raw_timeout_def q(1) FFin f64_ceil_def)
      qed
    next
      case (FInf s)
      with le show ?thesis by (simp add: raw_timeout_def q(1) FInf f64_ceil_def)
    qed (use le in auto)
  next
    case True
    show ?thesis by (intro disjI2) (simp only: True of_nat_0_le_iff)
  qed
  have t: "timeout_ms (decide k m) = min (max (raw_timeout ?c w) (min_timeout_ms ?c)) (max_timeout_ms ?c)"
    using assms(1,2) by (simp add: decide_def Let_def)
  show ?thesis
  proof (cases "timeout_ms (decide k m) = max_timeout_ms ?c")
    case False
    then have ge: "raw_timeout ?c w \<le> timeout_ms (decide k m)"
      unfolding t by (auto simp: min_def max_def split: if_splits)
    have top: "x \<le> - 1" for x :: u64 by simp
    have max: "raw_timeout ?c w \<noteq> - 1" using False top unfolding t by (metis max.absorb1 min.absorb2)
    then have "(of_nat (unat (raw_timeout ?c w)) :: rat) \<le> of_nat (unat (timeout_ms (decide k m)))"
      using ge unfolding word_le_nat_alt of_nat_le_iff by blast
    with raw max q(1) show ?thesis by auto
  qed simp
qed

lemma one_sample: "hm_get (windows (record_latency k ms (timeout_manager_new c))) k
    = Some \<lparr>lw_samples = [ms], lw_capacity = max (window_capacity c) 1\<rparr>"
  by (simp add: record_latency_def timeout_manager_new_def Let_def hm_get_insert window_push_def window_new_def push_window_def
      not_le cap_positive)

lemma record_config: "atm_config (record_latency k ms (timeout_manager_new c)) = c"
  by (simp add: record_latency_def timeout_manager_new_def Let_def)

lemma timeout_covers_percentile_witness:
  "timeout_ms (decide ''a'' (record_latency ''a'' 40 (timeout_manager_new timeout_config_new))) = 60000
   \<or> (\<exists>q. window_percentile (FFin 95) \<lparr>lw_samples = [40], lw_capacity = 128\<rparr> = Some (FFin q)
        \<and> q \<le> of_nat (unat (timeout_ms (decide ''a'' (record_latency ''a'' 40 (timeout_manager_new timeout_config_new))))))"
proof -
  have c: "max (window_capacity timeout_config_new) 1 = 128"
    by (simp add: timeout_config_new_def max_def word_le_nat_alt)
  show ?thesis
    using timeout_covers_percentile [OF one_sample [of "''a''" 40 timeout_config_new, unfolded c]]
    by (simp add: record_config) (simp add: timeout_config_new_def)
qed

text \<open>
  Property: as soon as one sample is recorded the base timeout has no influence, however low the confidence.
\<close>

theorem base_timeout_ignored:
  assumes "hm_get (windows m) k = Some w" "lw_samples w \<noteq> []"
  shows "timeout_ms (decide k (m\<lparr>atm_config := (atm_config m)\<lparr>base_timeout_ms := b\<rparr>\<rparr>)) = timeout_ms (decide k m)"
proof -
  obtain v where "window_percentile (tc_percentile (atm_config m)) w = Some v"
    using assms(2) by (cases "window_percentile (tc_percentile (atm_config m)) w") (auto simp: window_percentile_def Let_def split: if_splits)
  then show ?thesis using assms by (simp add: decide_def Let_def raw_timeout_def)
qed

lemma base_timeout_ignored_witness:
  "timeout_ms (decide ''a'' ((record_latency ''a'' 40 (timeout_manager_new timeout_config_new))
      \<lparr>atm_config := timeout_config_new\<lparr>base_timeout_ms := 1\<rparr>\<rparr>))
   = timeout_ms (decide ''a'' (record_latency ''a'' 40 (timeout_manager_new timeout_config_new)))"
  using base_timeout_ignored [OF one_sample [of "''a''" 40 timeout_config_new], of 1] by (simp add: record_config)

text \<open>
  Property: a percentile that is not a number, which the configuration does not exclude, gives the lower bound as the
  timeout of every window of two or more samples.
\<close>

theorem nan_percentile_gives_minimum:
  assumes "hm_get (windows m) k = Some w" "2 \<le> length (lw_samples w)" "tc_percentile (atm_config m) = FNaN"
    and "min_timeout_ms (atm_config m) \<le> max_timeout_ms (atm_config m)"
  shows "timeout_ms (decide k m) = min_timeout_ms (atm_config m)"
proof -
  let ?c = "atm_config m"
  have r: "rank_of n FNaN = FNaN" for n by (simp add: rank_of_def f64_clamp_def)
  have "f64_mul x FNaN = FNaN" "f64_add x FNaN = FNaN" for x by (cases x; simp)+
  then have "window_percentile FNaN w = Some FNaN"
    using assms(2) by (auto simp: window_percentile_def Let_def r f64_sub_def)
  then have "raw_timeout ?c w = 0" by (simp add: raw_timeout_def assms(3) f64_ceil_def)
  then show ?thesis using assms by (auto simp: decide_def Let_def max_def)
qed

lemma nan_percentile_gives_minimum_witness:
  "timeout_ms (decide ''a'' (\<lparr>atm_config = with_percentile FNaN timeout_config_new,
     windows = [(''a'', \<lparr>lw_samples = [9000, 9000], lw_capacity = 128\<rparr>)]\<rparr>)) = 100"
proof -
  let ?m = "\<lparr>atm_config = with_percentile FNaN timeout_config_new,
     windows = [(''a'', \<lparr>lw_samples = [9000, 9000], lw_capacity = 128\<rparr>)]\<rparr>"
  have "timeout_ms (decide ''a'' ?m) = min_timeout_ms (atm_config ?m)"
    by (rule nan_percentile_gives_minimum [where w = "\<lparr>lw_samples = [9000, 9000], lw_capacity = 128\<rparr>"])
      (simp_all add: hm_get_def with_percentile_def timeout_config_new_def f64_clamp_def word_le_nat_alt)
  then show ?thesis by (simp add: with_percentile_def timeout_config_new_def)
qed

end
