(* ===== verification/JsonText.thy ===== *)
theory JsonText
  imports OutputCodec
begin

text \<open>
  The JSON reader of the request validator (\<open>src/request_validator.rs\<close>, \<open>parse_json\<close>). A string is the list of its
  bytes, and white space is that of ASCII. The reader returns a value and the number of bytes it consumed; the reading of
  a number, \<open>str::parse::<f64>\<close>, is a parameter. The arrays and objects of the code are loops: \<open>parse_items\<close> and
  \<open>parse_fields\<close> are one round of them and the rest.
\<close>

section \<open>The reader\<close>

datatype JsonVal =
    JNull
  | JBool bool
  | JNumber f64
  | JStr string
  | JArray "JsonVal list"
  | JObject "(string \<times> JsonVal) list"

definition is_ws :: "char \<Rightarrow> bool" where
  "is_ws c \<longleftrightarrow> c \<in> {CHR 0x09, CHR 0x0A, CHR 0x0B, CHR 0x0C, CHR 0x0D, CHR '' ''}"

definition trim_start :: "string \<Rightarrow> string" where
  "trim_start s = dropWhile is_ws s"

definition number_char :: "char \<Rightarrow> bool" where
  "number_char c \<longleftrightarrow> is_digit c \<or> c \<in> {CHR ''.'', CHR ''-'', CHR ''+'', CHR ''e'', CHR ''E''}"

text \<open>The position of the closing quote; a backslash hides the character after it.\<close>

fun closing_quote :: "bool \<Rightarrow> string \<Rightarrow> nat option" where
  "closing_quote escaped [] = None"
| "closing_quote escaped (c # cs) =
    (if escaped then map_option Suc (closing_quote False cs)
     else if c = CHR 0x5C then map_option Suc (closing_quote True cs)
     else if c = CHR 0x22 then Some 0
     else map_option Suc (closing_quote False cs))"

definition parse_number :: "(string \<Rightarrow> f64 option) \<Rightarrow> string \<Rightarrow> (JsonVal \<times> nat) option" where
  "parse_number parse_f64 s =
    (let t = takeWhile number_char s
     in if t = [] then None else case parse_f64 t of Some n \<Rightarrow> Some (JNumber n, length t) | None \<Rightarrow> None)"

definition begins_with :: "string \<Rightarrow> string \<Rightarrow> bool" where
  "begins_with p s \<longleftrightarrow> take (length p) s = p"

definition keyword :: "string \<Rightarrow> (JsonVal \<times> nat) option" where
  "keyword s =
    (if begins_with ''null'' s then Some (JNull, 4)
     else if begins_with ''true'' s then Some (JBool True, 4)
     else if begins_with ''false'' s then Some (JBool False, 5)
     else None)"

lemma trim_start_length: "length (trim_start s) \<le> length s"
  by (simp add: trim_start_def length_dropWhile_le)

lemma trim_start_shorter: "trim_start s = c # r \<Longrightarrow> length r < length s"
  using trim_start_length [of s] by simp

lemma trim_drop_shorter: "trim_start (drop n s) = c # r \<Longrightarrow> length r < length s"
  using trim_start_shorter [of "drop n s" c r] by simp

lemma trim_start_rest: "c # r = trim_start s \<Longrightarrow> length r < length s"
  using trim_start_shorter [of s c r] by simp

lemma below_trim: "n < length (trim_start s) \<Longrightarrow> n < length s"
  using trim_start_length [of s] by linarith

text \<open>The text between the start of \<open>s\<close> and its rest \<open>r\<close>.\<close>

definition skipped :: "string \<Rightarrow> string \<Rightarrow> nat" where
  "skipped s r = length s - length r"

function (sequential) parse_json :: "(string \<Rightarrow> f64 option) \<Rightarrow> string \<Rightarrow> (JsonVal \<times> nat) option"
  and parse_items :: "(string \<Rightarrow> f64 option) \<Rightarrow> string \<Rightarrow> (JsonVal list \<times> nat) option"
  and parse_fields :: "(string \<Rightarrow> f64 option) \<Rightarrow> string \<Rightarrow> ((string \<times> JsonVal) list \<times> nat) option"
where
  "parse_json p input =
    (let s = trim_start input;
         off = skipped input s
     in (case keyword s of
          Some (v, n) \<Rightarrow> Some (v, off + n)
        | None \<Rightarrow> (case s of
          [] \<Rightarrow> None
        | c # rest \<Rightarrow>
            if c = CHR 0x22 then
              (case closing_quote False rest of Some i \<Rightarrow> Some (JStr (take i rest), off + 1 + i + 1) | None \<Rightarrow> None)
            else if c = CHR ''['' then
              (if begins_with '']'' (trim_start rest) then Some (JArray [], off + 1 + skipped rest (trim_start rest) + 1)
               else case parse_items p rest of Some (vs, n) \<Rightarrow> Some (JArray vs, off + 1 + n) | None \<Rightarrow> None)
            else if c = CHR ''{'' then
              (if begins_with ''}'' (trim_start rest) then Some (JObject [], off + 1 + skipped rest (trim_start rest) + 1)
               else case parse_fields p rest of Some (fs, n) \<Rightarrow> Some (JObject fs, off + 1 + n) | None \<Rightarrow> None)
            else map_option (\<lambda>(v, n). (v, off + n)) (parse_number p s))))"
| "parse_items p s =
    (case parse_json p s of
       None \<Rightarrow> None
     | Some (v, k) \<Rightarrow>
         (case trim_start (drop k s) of
            [] \<Rightarrow> None
          | c # r \<Rightarrow>
              if c = CHR '','' then
                (case parse_items p r of Some (vs, n) \<Rightarrow> Some (v # vs, skipped s r + n) | None \<Rightarrow> None)
              else if c = CHR '']'' then Some ([v], skipped s r)
              else None))"
| "parse_fields p s =
    (case parse_json p (trim_start s) of
       Some (JStr key, k) \<Rightarrow>
         (case trim_start (drop k (trim_start s)) of
            [] \<Rightarrow> None
          | c # r \<Rightarrow>
              if c \<noteq> CHR '':'' then None
              else (case parse_json p r of
                 None \<Rightarrow> None
               | Some (v, k2) \<Rightarrow>
                   (case trim_start (drop k2 r) of
                      [] \<Rightarrow> None
                    | d # r2 \<Rightarrow>
                        if d = CHR '','' then
                          (case parse_fields p r2 of
                             Some (fs, n) \<Rightarrow> Some ((key, v) # fs, skipped s r2 + n) | None \<Rightarrow> None)
                        else if d = CHR ''}'' then Some ([(key, v)], skipped s r2)
                        else None)))
     | _ \<Rightarrow> None)"
  by pat_completeness auto
termination
  by (relation "measure (\<lambda>x. case x of Inl (p, s) \<Rightarrow> 2 * length s | Inr (Inl (p, s)) \<Rightarrow> 2 * length s + 1
        | Inr (Inr (p, s)) \<Rightarrow> 2 * length s + 1)")
    (auto dest!: trim_start_shorter trim_drop_shorter trim_start_rest below_trim simp: less_Suc_eq_le trim_start_length)

declare parse_json.simps [simp del] parse_items.simps [simp del] parse_fields.simps [simp del]

lemma parse_json_rest:
  assumes "keyword (trim_start input) = None" "trim_start input = c # rest"
  shows "parse_json p input =
    (let off = skipped input (trim_start input)
     in if c = CHR 0x22 then
          (case closing_quote False rest of Some i \<Rightarrow> Some (JStr (take i rest), off + 1 + i + 1) | None \<Rightarrow> None)
        else if c = CHR ''['' then
          (if begins_with '']'' (trim_start rest) then Some (JArray [], off + 1 + skipped rest (trim_start rest) + 1)
           else case parse_items p rest of Some (vs, n) \<Rightarrow> Some (JArray vs, off + 1 + n) | None \<Rightarrow> None)
        else if c = CHR ''{'' then
          (if begins_with ''}'' (trim_start rest) then Some (JObject [], off + 1 + skipped rest (trim_start rest) + 1)
           else case parse_fields p rest of Some (fs, n) \<Rightarrow> Some (JObject fs, off + 1 + n) | None \<Rightarrow> None)
        else map_option (\<lambda>(v, n). (v, off + n)) (parse_number p (trim_start input)))"
  using assms by (simp add: parse_json.simps [of p input] Let_def)

section \<open>What is read lies inside the text\<close>

lemma closing_quote_bound: "closing_quote e s = Some i \<Longrightarrow> i < length s"
  by (induction e s arbitrary: i rule: closing_quote.induct) (auto split: if_splits)

lemma skipped_le: "skipped s r \<le> length s"
  by (simp add: skipped_def)

lemma begins_with_length: "begins_with p s \<Longrightarrow> length p \<le> length s"
  unfolding begins_with_def by (metis length_take min.absorb_iff2 min.commute)

lemma skipped_trim: "skipped s (trim_start s) + length (trim_start s) = length s"
  using trim_start_length [of s] by (simp add: skipped_def)

lemma parse_number_bound: "parse_number p s = Some (v, n) \<Longrightarrow> 0 < n \<and> n \<le> length s"
  by (auto simp: parse_number_def Let_def length_takeWhile_le split: if_splits option.splits)

lemma keyword_bound: "keyword s = Some (v, n) \<Longrightarrow> 0 < n \<and> n \<le> length s"
  by (auto simp: keyword_def dest!: begins_with_length split: if_splits)

lemma consumed_all:
  "(parse_json p s = Some (v, n) \<longrightarrow> 0 < n \<and> n \<le> length s)"
  "(parse_items p t = Some (vs, m) \<longrightarrow> m \<le> length t)"
  "(parse_fields p u = Some (fs, k) \<longrightarrow> k \<le> length u)"
proof (induction p s and p t and p u arbitrary: v n and vs m and fs k rule: parse_json_parse_items_parse_fields.induct)
  case js: (1 p input)
  let ?s = "trim_start input"
  have len: "skipped input ?s + length ?s = length input" by (rule skipped_trim)
  show ?case
  proof (cases "keyword ?s")
    case (Some x)
    then show ?thesis using len by (cases x) (auto simp: parse_json.simps [of p input] Let_def dest!: keyword_bound)
  next
    case None
    show ?thesis
    proof (cases ?s)
      case Nil
      with None show ?thesis by (auto simp: parse_json.simps [of p input] Let_def)
    next
      case (Cons c rest)
      have r: "skipped rest (trim_start rest) + 1 \<le> length rest" if "begins_with [d] (trim_start rest)" for d
        using begins_with_length [OF that] skipped_trim [of rest] by simp
      note eq = parse_json_rest [OF None Cons, of p]
      consider "c = CHR 0x22" | "c = CHR ''[''" | "c = CHR ''{''" | "c \<noteq> CHR 0x22" "c \<noteq> CHR ''[''" "c \<noteq> CHR ''{''" by blast
      then show ?thesis
      proof cases
        case 1
        then show ?thesis using len Cons by (auto simp: eq Let_def dest!: closing_quote_bound split: option.splits)
      next
        case 2
        show ?thesis
        proof (cases "begins_with '']'' (trim_start rest)")
          case True
          then show ?thesis using 2 len Cons r [OF True] by (auto simp: eq Let_def)
        next
          case False
          then have "m \<le> length rest" if "parse_items p rest = Some (x, m)" for x m
            using js(1) [OF refl refl None Cons] 2 that by auto
          with False 2 len Cons show ?thesis by (fastforce simp: eq Let_def split: option.splits)
        qed
      next
        case 3
        show ?thesis
        proof (cases "begins_with ''}'' (trim_start rest)")
          case True
          then show ?thesis using 3 len Cons r [OF True] by (auto simp: eq Let_def)
        next
          case False
          then have "m \<le> length rest" if "parse_fields p rest = Some (x, m)" for x m
            using js(2) [OF refl refl None Cons] 3 that by auto
          with False 3 len Cons show ?thesis by (fastforce simp: eq Let_def split: option.splits)
        qed
      next
        case 4
        then show ?thesis using len Cons by (auto simp: eq Let_def dest!: parse_number_bound)
      qed
    qed
  qed
next
  case (2 p s)
  show ?case
  proof (cases "parse_json p s")
    case None
    then show ?thesis by (simp add: parse_items.simps [of p s])
  next
    case (Some x)
    then obtain v k where x: "parse_json p s = Some (v, k)" by (cases x) auto
    show ?thesis
    proof (cases "trim_start (drop k s)")
      case Nil
      then show ?thesis by (simp add: parse_items.simps [of p s] x)
    next
      case (Cons c r)
      then have "length r < length s" by (rule trim_drop_shorter)
      moreover have "n \<le> length r" if "c = CHR '',''" "parse_items p r = Some (ws, n)" for ws n
        using 2(2) [OF x refl Cons] that by auto
      ultimately show ?thesis
        by (fastforce simp: parse_items.simps [of p s] x Cons skipped_def split: if_splits option.splits)
    qed
  qed
next
  case (3 p s)
  show ?case
  proof -
    {
      assume some: "parse_fields p s = Some (fs, k)"
      then obtain key j where x: "parse_json p (trim_start s) = Some (JStr key, j)"
        by (auto simp: parse_fields.simps [of p s] split: option.splits prod.splits JsonVal.splits)
      from some obtain r where r: "trim_start (drop j (trim_start s)) = CHR '':'' # r"
        by (auto simp: parse_fields.simps [of p s] x split: list.splits if_splits)
      from some obtain v j2 where v: "parse_json p r = Some (v, j2)"
        by (auto simp: parse_fields.simps [of p s] x r split: option.splits prod.splits)
      from some obtain d r2 where d: "trim_start (drop j2 r) = d # r2"
        by (auto simp: parse_fields.simps [of p s] x r v split: list.splits)
      have l: "length r < length s" "length r2 < length r"
        using trim_drop_shorter [OF r] below_trim trim_drop_shorter [OF d] by auto
      have ih: "n \<le> length r2" if "d = CHR '',''" "parse_fields p r2 = Some (gs, n)" for gs n
        using 3(3) [OF x refl refl r _ v refl d] that by auto
      have "k \<le> length s"
        using some l ih by (fastforce simp: parse_fields.simps [of p s] x r v d skipped_def split: if_splits option.splits)
    }
    then show ?thesis by blast
  qed
qed

text \<open>
  Property: a value that is read lies inside the text: the count of consumed bytes is at least one and at most the
  length of the text, so every position the reader slices at is in range.
\<close>

theorem consumed_in_text: "parse_json p s = Some (v, n) \<Longrightarrow> 0 < n \<and> n \<le> length s"
  using consumed_all(1) by blast

section \<open>Compact texts are read back\<close>

text \<open>The compact text of a value, for a formatting \<open>fmt\<close> of numbers.\<close>

definition quote_text :: "string \<Rightarrow> string" where
  "quote_text s = CHR 0x22 # s @ [CHR 0x22]"

fun show_json :: "(f64 \<Rightarrow> string) \<Rightarrow> JsonVal \<Rightarrow> string"
  and show_items :: "(f64 \<Rightarrow> string) \<Rightarrow> JsonVal list \<Rightarrow> string"
  and show_fields :: "(f64 \<Rightarrow> string) \<Rightarrow> (string \<times> JsonVal) list \<Rightarrow> string" where
  "show_json fmt JNull = ''null''"
| "show_json fmt (JBool b) = (if b then ''true'' else ''false'')"
| "show_json fmt (JNumber x) = fmt x"
| "show_json fmt (JStr s) = quote_text s"
| "show_json fmt (JArray vs) = CHR ''['' # show_items fmt vs"
| "show_json fmt (JObject fs) = CHR ''{'' # show_fields fmt fs"
| "show_items fmt [] = '']''"
| "show_items fmt [v] = show_json fmt v @ '']''"
| "show_items fmt (v # w # vs) = show_json fmt v @ '','' @ show_items fmt (w # vs)"
| "show_fields fmt [] = ''}''"
| "show_fields fmt [(k, v)] = quote_text k @ '':'' @ show_json fmt v @ ''}''"
| "show_fields fmt ((k, v) # f # fs) = quote_text k @ '':'' @ show_json fmt v @ '','' @ show_fields fmt (f # fs)"

text \<open>Strings whose quotes are escaped, and numbers whose text is read back.\<close>

definition escaped_ok :: "string \<Rightarrow> bool" where
  "escaped_ok s \<longleftrightarrow> closing_quote False (s @ [CHR 0x22]) = Some (length s)"

definition number_ok :: "(string \<Rightarrow> f64 option) \<Rightarrow> (f64 \<Rightarrow> string) \<Rightarrow> f64 \<Rightarrow> bool" where
  "number_ok p fmt x \<longleftrightarrow> fmt x \<noteq> [] \<and> list_all number_char (fmt x) \<and> p (fmt x) = Some x"

fun readable :: "(string \<Rightarrow> f64 option) \<Rightarrow> (f64 \<Rightarrow> string) \<Rightarrow> JsonVal \<Rightarrow> bool"
  and readable_fields :: "(string \<Rightarrow> f64 option) \<Rightarrow> (f64 \<Rightarrow> string) \<Rightarrow> (string \<times> JsonVal) list \<Rightarrow> bool" where
  "readable p fmt JNull = True"
| "readable p fmt (JBool b) = True"
| "readable p fmt (JNumber x) = number_ok p fmt x"
| "readable p fmt (JStr s) = escaped_ok s"
| "readable p fmt (JArray vs) = (\<forall>v \<in> set vs. readable p fmt v)"
| "readable p fmt (JObject fs) = readable_fields p fmt fs"
| "readable_fields p fmt [] = True"
| "readable_fields p fmt ((k, v) # fs) = (escaped_ok k \<and> readable p fmt v \<and> readable_fields p fmt fs)"

definition ends_number :: "string \<Rightarrow> bool" where
  "ends_number r \<longleftrightarrow> (case r of [] \<Rightarrow> True | c # _ \<Rightarrow> \<not> number_char c)"

lemma closing_quote_append: "closing_quote e s = Some i \<Longrightarrow> closing_quote e (s @ t) = Some i"
  by (induction e s arbitrary: i rule: closing_quote.induct) (auto split: if_splits)

lemma closing_quote_ok: "escaped_ok s \<Longrightarrow> closing_quote False (s @ CHR 0x22 # t) = Some (length s)"
  using closing_quote_append [of False "s @ [CHR 0x22]" "length s" t] by (simp add: escaped_ok_def)

lemma trim_nonblank [simp]: "\<not> is_ws c \<Longrightarrow> trim_start (c # s) = c # s"
  by (simp add: trim_start_def)

lemma skipped_self [simp]: "skipped s s = 0"
  by (simp add: skipped_def)

lemma marks [simp]:
  "\<not> is_ws CHR ''['' " "\<not> is_ws CHR '']'' " "\<not> is_ws CHR ''{'' " "\<not> is_ws CHR ''}'' " "\<not> is_ws CHR '','' " "\<not> is_ws CHR '':'' "
  "\<not> is_ws CHR 0x22" "\<not> is_ws CHR ''n'' " "\<not> is_ws CHR ''t'' " "\<not> is_ws CHR ''f'' "
  "\<not> number_char CHR '','' " "\<not> number_char CHR '']'' " "\<not> number_char CHR ''}'' "
  by (simp_all add: is_ws_def number_char_def is_digit_def)

lemma read_string: "escaped_ok s \<Longrightarrow> parse_json p (quote_text s @ t) = Some (JStr s, length (quote_text s))"
  by (simp add: parse_json.simps Let_def quote_text_def keyword_def begins_with_def closing_quote_ok)

lemma number_char_first:
  "number_char c \<Longrightarrow> \<not> is_ws c \<and> c \<noteq> CHR 0x22 \<and> c \<noteq> CHR ''['' \<and> c \<noteq> CHR ''{'' \<and> c \<noteq> CHR ''n'' \<and> c \<noteq> CHR ''t'' \<and> c \<noteq> CHR ''f''
    \<and> c \<noteq> CHR '']'' \<and> c \<noteq> CHR ''}''"
  by (auto simp: number_char_def is_ws_def is_digit_def)

lemma read_number:
  assumes "number_ok p fmt x" "ends_number r"
  shows "parse_json p (fmt x @ r) = Some (JNumber x, length (fmt x))"
proof -
  from assms(1) have f: "fmt x \<noteq> []" "list_all number_char (fmt x)" "p (fmt x) = Some x" by (auto simp: number_ok_def)
  have t: "takeWhile number_char (fmt x @ r) = fmt x"
    using f(2) assms(2) by (auto simp: takeWhile_append ends_number_def list_all_iff split: list.splits)
  obtain c s where c: "fmt x = c # s" using f(1) by (cases "fmt x") auto
  then have n: "number_char c" using f(2) by simp
  have "parse_number p (fmt x @ r) = Some (JNumber x, length (fmt x))"
    unfolding parse_number_def t using f by simp
  then show ?thesis using number_char_first [OF n]
    by (simp add: parse_json.simps Let_def c keyword_def begins_with_def)
qed

lemma show_first: "readable p fmt v \<Longrightarrow> \<exists>c s. show_json fmt v = c # s \<and> \<not> is_ws c \<and> c \<noteq> CHR '']''"
proof (cases v)
  case (JNumber x)
  assume "readable p fmt v"
  then have "fmt x \<noteq> []" "list_all number_char (fmt x)" using JNumber by (auto simp: number_ok_def)
  then show ?thesis using JNumber by (cases "fmt x") (auto dest: number_char_first)
qed (simp_all add: quote_text_def)


lemma items_first: "\<forall>v \<in> set vs. readable p fmt v \<Longrightarrow> vs \<noteq> []
    \<Longrightarrow> \<exists>c s. show_items fmt vs = c # s \<and> \<not> is_ws c \<and> c \<noteq> CHR '']''"
  using show_first [of p fmt "hd vs"] by (cases "(fmt, vs)" rule: show_items.cases) auto

lemma fields_first: "fs \<noteq> [] \<Longrightarrow> \<exists>s. show_fields fmt fs = CHR 0x22 # s"
  by (cases "(fmt, fs)" rule: show_fields.cases) (auto simp: quote_text_def)

lemma read_array:
  assumes "parse_items p t = Some (vs, n)" "t = c # s" "\<not> is_ws c" "c \<noteq> CHR '']''"
  shows "parse_json p (CHR ''['' # t) = Some (JArray vs, Suc n)"
  using assms(1,3,4) unfolding assms(2) by (simp add: parse_json.simps [of p "CHR ''['' # c # s"] Let_def keyword_def begins_with_def)

lemma read_object:
  assumes "parse_fields p t = Some (fs, n)" "t = CHR 0x22 # s"
  shows "parse_json p (CHR ''{'' # t) = Some (JObject fs, Suc n)"
  using assms(1) unfolding assms(2) by (simp add: parse_json.simps [of p "CHR ''{'' # CHR 0x22 # s"] Let_def keyword_def begins_with_def)

lemma read_field:
  assumes "escaped_ok k" "parse_json p t = Some (v, n)" "trim_start (drop n t) = d # r"
  shows "parse_fields p (quote_text k @ CHR '':'' # t) =
    (if d = CHR '','' then (case parse_fields p r of
         Some (fs, m) \<Rightarrow> Some ((k, v) # fs, skipped (quote_text k @ CHR '':'' # t) r + m) | None \<Rightarrow> None)
     else if d = CHR ''}'' then Some ([(k, v)], skipped (quote_text k @ CHR '':'' # t) r) else None)"
proof -
  have "trim_start (quote_text k @ CHR '':'' # t) = quote_text k @ CHR '':'' # t" by (simp add: quote_text_def)
  then show ?thesis using assms by (simp add: parse_fields.simps [of p "quote_text k @ CHR '':'' # t"] read_string)
qed

lemma read_back:
  "readable p fmt v \<Longrightarrow> ends_number r
    \<Longrightarrow> parse_json p (show_json fmt v @ r) = Some (v, length (show_json fmt v))"
  "\<forall>v \<in> set vs. readable p fmt v \<Longrightarrow> vs \<noteq> []
    \<Longrightarrow> parse_items p (show_items fmt vs @ r) = Some (vs, length (show_items fmt vs))"
  "readable_fields p fmt fs \<Longrightarrow> fs \<noteq> []
    \<Longrightarrow> parse_fields p (show_fields fmt fs @ r) = Some (fs, length (show_fields fmt fs))"
proof (induction fmt v and fmt vs and fmt fs arbitrary: r and r and r rule: show_json_show_items_show_fields.induct)
  case (1 fmt)
  then show ?case by (simp add: parse_json.simps Let_def keyword_def begins_with_def)
next
  case (2 fmt b)
  then show ?case by (simp add: parse_json.simps Let_def keyword_def begins_with_def)
next
  case (3 fmt x)
  then show ?case by (simp add: read_number)
next
  case (4 fmt s)
  then show ?case by (simp add: read_string)
next
  case (5 fmt vs)
  show ?case
  proof (cases "vs = []")
    case True
    then show ?thesis by (simp add: parse_json.simps Let_def keyword_def begins_with_def)
  next
    case False
    have ok: "\<forall>v \<in> set vs. readable p fmt v" using 5 by simp
    from items_first [OF ok False] obtain c s where c: "show_items fmt vs = c # s" "\<not> is_ws c" "c \<noteq> CHR '']''" by blast
    show ?thesis using read_array [OF 5(1) [OF ok False] _ c(2,3), of r "s @ r"] c(1) by simp
  qed
next
  case (6 fmt fs)
  show ?case
  proof (cases "fs = []")
    case True
    then show ?thesis by (simp add: parse_json.simps Let_def keyword_def begins_with_def)
  next
    case False
    from fields_first [OF this] obtain s where c: "show_fields fmt fs = CHR 0x22 # s" by blast
    show ?thesis using read_object [OF 6(1) [OF _ False], of r "s @ r"] 6(2) c by simp
  qed
next
  case (8 fmt v)
  then have "parse_json p (show_json fmt v @ CHR '']'' # r) = Some (v, length (show_json fmt v))"
    by (simp add: ends_number_def)
  then show ?case by (simp add: parse_items.simps skipped_def)
next
  case (9 fmt v w vs)
  have "parse_json p (show_json fmt v @ CHR '','' # show_items fmt (w # vs) @ r) = Some (v, length (show_json fmt v))"
    using 9 by (simp add: ends_number_def)
  moreover have "parse_items p (show_items fmt (w # vs) @ r) = Some (w # vs, length (show_items fmt (w # vs)))"
    using 9 by simp
  ultimately show ?case by (simp add: parse_items.simps [of p "show_json fmt v @ _"] skipped_def)
next
  case (11 fmt k v)
  then have "parse_json p (show_json fmt v @ CHR ''}'' # r) = Some (v, length (show_json fmt v))"
    by (simp add: ends_number_def)
  then show ?case using 11 read_field [of k p "show_json fmt v @ CHR ''}'' # r"] by (simp add: skipped_def)
next
  case (12 fmt k v f fs)
  have "parse_json p (show_json fmt v @ CHR '','' # show_fields fmt (f # fs) @ r) = Some (v, length (show_json fmt v))"
    using 12 by (simp add: ends_number_def)
  moreover have "parse_fields p (show_fields fmt (f # fs) @ r) = Some (f # fs, length (show_fields fmt (f # fs)))"
    using 12 by simp
  ultimately show ?case
    using 12 read_field [of k p "show_json fmt v @ CHR '','' # show_fields fmt (f # fs) @ r"] by (simp add: skipped_def)
qed simp_all

text \<open>
  C34. The reader inverts the compact text of a value whose strings are escaped and whose numbers are formatted
  by number characters only, in a form that the reader of numbers turns back into them: the value comes back and
  exactly its text is consumed, whatever text follows that does not begin with a number character.
\<close>

theorem compact_json_roundtrip:
  assumes "readable p fmt v" "ends_number r"
  shows "parse_json p (show_json fmt v @ r) = Some (v, length (show_json fmt v))"
  using read_back(1) [OF assms] .

definition demo_value :: JsonVal where
  "demo_value = JObject [(''a'', JArray [JNumber (FFin 1), JNull]), (''b'', JStr [CHR 0x5C, CHR 0x22])]"

lemma compact_json_roundtrip_witness:
  "parse_json (\<lambda>s. if s = ''1'' then Some (FFin 1) else None) (show_json (\<lambda>_. ''1'') demo_value @ '' ]'')
   = Some (demo_value, length (show_json (\<lambda>_. ''1'') demo_value))"
  by (rule compact_json_roundtrip)
    (simp_all add: demo_value_def number_ok_def number_char_def is_digit_def escaped_ok_def ends_number_def)

text \<open>
  Property: the reader stops at the end of the first value: \<open>true\<close>, \<open>false\<close> and \<open>null\<close> are read whatever follows them.
\<close>

theorem keywords_read_in_any_text:
  "parse_json p (''true'' @ r) = Some (JBool True, 4)
   \<and> parse_json p (''false'' @ r) = Some (JBool False, 5)
   \<and> parse_json p (''null'' @ r) = Some (JNull, 4)"
  by (simp add: parse_json.simps Let_def keyword_def begins_with_def)

end
