(* ===== verification/RequestValidator.thy ===== *)
theory RequestValidator
  imports JsonText DynamicConfig
begin

text \<open>
  The request validator (\<open>src/request_validator.rs\<close>): schemas over the values of \<open>JsonText\<close>, limits on sizes and headers,
  and the choice of the configuration for a route. Strings are their bytes; lower case is that of ASCII. Formatting and
  reading of \<open>f64\<close> are parameters, gathered in the record \<open>numerals\<close>. The map of configurations is a list in iteration
  order, and the lock around it is not poisoned.
\<close>

section \<open>Schemas\<close>

datatype SchemaType =
    ST_String "nat option" "nat option" "string option"
  | ST_Integer "64 word option" "64 word option"
  | ST_Float "f64 option" "f64 option"
  | ST_Boolean
  | ST_Array SchemaType "nat option"
  | ST_Object "SchemaField list"
  | ST_Nullable SchemaType
and SchemaField = SchemaField string SchemaType bool

record numerals =
  read_f64 :: "string \<Rightarrow> f64 option"
  fmt_f64 :: "f64 \<Rightarrow> string"

text \<open>\<open>n as i64\<close> truncates towards zero and saturates; NaN gives 0.\<close>

fun f64_to_i64 :: "f64 \<Rightarrow> 64 word" where
  "f64_to_i64 FNaN = 0"
| "f64_to_i64 (FInf s) = (if s then of_int (- (2 ^ 63)) else of_int (2 ^ 63 - 1))"
| "f64_to_i64 (FFin a) =
    (let t = (if 0 \<le> a then \<lfloor>a\<rfloor> else \<lceil>a\<rceil>) in of_int (max (- (2 ^ 63)) (min t (2 ^ 63 - 1))))"

definition i64_text :: "64 word \<Rightarrow> string" where
  "i64_text w = (if sint w < 0 then CHR ''-'' # nat_to_string (nat (- sint w)) else nat_to_string (nat (sint w)))"

section \<open>Wildcards\<close>

text \<open>The rounds of the loop after the first part; the position reached, or none when a part is not found.\<close>

fun wildcard_rest :: "string \<Rightarrow> string list \<Rightarrow> nat \<Rightarrow> nat option" where
  "wildcard_rest v [] pos = Some pos"
| "wildcard_rest v (part # parts) pos =
    (if part = [] then wildcard_rest v parts pos
     else case find_segment part (drop pos v) of
            Some idx \<Rightarrow> wildcard_rest v parts (pos + idx + length part)
          | None \<Rightarrow> None)"

definition wildcard_match :: "string \<Rightarrow> string \<Rightarrow> bool" where
  "wildcard_match pattern v =
    (if CHR ''*'' \<notin> set pattern then pattern = v
     else case split_on (CHR ''*'') pattern of
            [] \<Rightarrow> True
          | p # parts \<Rightarrow>
              prefix p v \<and>
              (case wildcard_rest v parts (length p) of
                 None \<Rightarrow> False
               | Some pos \<Rightarrow> suffix ''*'' pattern \<or> pos = length v))"

section \<open>Validation of a value\<close>

definition bound_errors :: "bool \<Rightarrow> string \<Rightarrow> string list" where
  "bound_errors bad msg = (if bad then [msg] else [])"

definition integer_errors :: "64 word option \<Rightarrow> 64 word option \<Rightarrow> string \<Rightarrow> 64 word \<Rightarrow> string list" where
  "integer_errors lo hi path n =
    (case lo of Some l \<Rightarrow> bound_errors (sint n < sint l) (path @ '': '' @ i64_text n @ '' < min '' @ i64_text l) | None \<Rightarrow> [])
    @ (case hi of Some h \<Rightarrow> bound_errors (sint h < sint n) (path @ '': '' @ i64_text n @ '' > max '' @ i64_text h) | None \<Rightarrow> [])"

definition float_errors :: "numerals \<Rightarrow> f64 option \<Rightarrow> f64 option \<Rightarrow> string \<Rightarrow> f64 \<Rightarrow> string list" where
  "float_errors nu lo hi path n =
    (case lo of Some l \<Rightarrow> bound_errors (fp_lt n l) (path @ '': '' @ fmt_f64 nu n @ '' < min '' @ fmt_f64 nu l) | None \<Rightarrow> [])
    @ (case hi of Some h \<Rightarrow> bound_errors (fp_lt h n) (path @ '': '' @ fmt_f64 nu n @ '' > max '' @ fmt_f64 nu h) | None \<Rightarrow> [])"

definition string_errors :: "nat option \<Rightarrow> nat option \<Rightarrow> string option \<Rightarrow> string \<Rightarrow> string \<Rightarrow> string list" where
  "string_errors lo hi pattern path s =
    (case lo of Some l \<Rightarrow> bound_errors (length s < l)
       (path @ '': string too short ('' @ nat_to_string (length s) @ '' < '' @ nat_to_string l @ '')'') | None \<Rightarrow> [])
    @ (case hi of Some h \<Rightarrow> bound_errors (h < length s)
       (path @ '': string too long ('' @ nat_to_string (length s) @ '' > '' @ nat_to_string h @ '')'') | None \<Rightarrow> [])
    @ (case pattern of Some p \<Rightarrow> bound_errors (\<not> wildcard_match p s)
       (path @ '': string '' @ quoted s @ '' does not match pattern '' @ quoted p) | None \<Rightarrow> [])"

definition item_path :: "string \<Rightarrow> nat \<Rightarrow> string" where
  "item_path path i = path @ ''['' @ nat_to_string i @ '']''"

text \<open>Collecting into a map keeps the last of equal names.\<close>

definition field_value :: "(string \<times> JsonVal) list \<Rightarrow> string \<Rightarrow> JsonVal option" where
  "field_value fs name = map_of (rev fs) name"

fun value_errors :: "numerals \<Rightarrow> JsonVal \<Rightarrow> SchemaType \<Rightarrow> string \<Rightarrow> string list"
  and object_errors :: "numerals \<Rightarrow> (string \<times> JsonVal) list \<Rightarrow> SchemaField list \<Rightarrow> string \<Rightarrow> string list" where
  "value_errors nu v (ST_Nullable inner) path = (if v = JNull then [] else value_errors nu v inner path)"
| "value_errors nu v ST_Boolean path = (case v of JBool _ \<Rightarrow> [] | _ \<Rightarrow> [path @ '': expected boolean''])"
| "value_errors nu v (ST_Integer lo hi) path =
    (case v of JNumber n \<Rightarrow> integer_errors lo hi path (f64_to_i64 n) | _ \<Rightarrow> [path @ '': expected integer''])"
| "value_errors nu v (ST_Float lo hi) path =
    (case v of JNumber n \<Rightarrow> float_errors nu lo hi path n | _ \<Rightarrow> [path @ '': expected float''])"
| "value_errors nu v (ST_String lo hi pat) path =
    (case v of JStr s \<Rightarrow> string_errors lo hi pat path s | _ \<Rightarrow> [path @ '': expected string''])"
| "value_errors nu v (ST_Array item max_items) path =
    (case v of
       JArray items \<Rightarrow>
         (case max_items of
            Some m \<Rightarrow> bound_errors (m < length items)
              (path @ '': array length '' @ nat_to_string (length items) @ '' > max '' @ nat_to_string m)
          | None \<Rightarrow> [])
         @ concat (map (\<lambda>(i, x). value_errors nu x item (item_path path i)) (List.enumerate 0 items))
     | _ \<Rightarrow> [path @ '': expected array''])"
| "value_errors nu v (ST_Object fds) path =
    (case v of JObject fs \<Rightarrow> object_errors nu fs fds path | _ \<Rightarrow> [path @ '': expected object''])"
| "object_errors nu fs [] path = []"
| "object_errors nu fs (SchemaField name schema req # rest) path =
    (case field_value fs name of
       Some x \<Rightarrow> value_errors nu x schema (path @ ''.'' @ name)
     | None \<Rightarrow> bound_errors req (path @ '': missing required field '' @ quoted name))
    @ object_errors nu fs rest path"

definition validate_json :: "numerals \<Rightarrow> string \<Rightarrow> SchemaType \<Rightarrow> string list + unit" where
  "validate_json nu text schema =
    (case parse_json (read_f64 nu) text of
       Some (v, _) \<Rightarrow> (let errors = value_errors nu v schema ''$'' in if errors = [] then Inr () else Inl errors)
     | None \<Rightarrow> Inl [''invalid JSON: could not parse '' @ quoted text])"

section \<open>Validation of a request\<close>

record SizeLimits =
  max_body_bytes :: nat
  max_header_count :: nat
  max_header_value_len :: nat
  max_url_len :: nat

record HeaderRequirement =
  hr_name :: string
  hr_required :: bool
  allowed_values :: "string list"

record RequestValidationConfig =
  size_limits :: SizeLimits
  required_headers :: "HeaderRequirement list"
  body_schema :: "SchemaType option"
  allowed_methods :: "string list"

record RequestValidator =
  rv_configs :: "(string, RequestValidationConfig) hashmap"
  total_validated :: u64
  rv_total_rejected :: u64

definition validator_new :: RequestValidator where
  "validator_new = \<lparr>rv_configs = [], total_validated = 0, rv_total_rejected = 0\<rparr>"

definition add_config :: "string \<Rightarrow> RequestValidationConfig \<Rightarrow> RequestValidator \<Rightarrow> RequestValidator" where
  "add_config p cfg r = r\<lparr>rv_configs := hm_insert p cfg (rv_configs r)\<rparr>"

text \<open>One round of the search for the longest prefix.\<close>

definition better_config :: "string \<Rightarrow> string \<times> RequestValidationConfig
    \<Rightarrow> (string \<times> RequestValidationConfig) option \<Rightarrow> (string \<times> RequestValidationConfig) option" where
  "better_config route x best =
    (if prefix (fst x) route
     then (case best of None \<Rightarrow> Some x | Some b \<Rightarrow> if length (fst b) < length (fst x) then Some x else best)
     else best)"

definition find_config :: "(string, RequestValidationConfig) hashmap \<Rightarrow> string \<Rightarrow> RequestValidationConfig option" where
  "find_config configs route = map_option snd (fold (better_config route) configs None)"

definition lower :: "char \<Rightarrow> char" where
  "lower c = (let n = of_char c :: nat in if 65 \<le> n \<and> n \<le> 90 then char_of (n + 32) else c)"

definition same_ignoring_case :: "string \<Rightarrow> string \<Rightarrow> bool" where
  "same_ignoring_case a b \<longleftrightarrow> map lower a = map lower b"

definition method_errors :: "RequestValidationConfig \<Rightarrow> string \<Rightarrow> string list" where
  "method_errors cfg m = bound_errors (allowed_methods cfg \<noteq> [] \<and> \<not> list_ex (\<lambda>a. same_ignoring_case a m) (allowed_methods cfg))
     (''method '' @ quoted m @ '' not allowed'')"

definition size_errors :: "SizeLimits \<Rightarrow> string \<Rightarrow> (string \<times> string) list \<Rightarrow> string \<Rightarrow> string list" where
  "size_errors l route headers body =
    bound_errors (max_body_bytes l < length body)
      (''body too large: '' @ nat_to_string (length body) @ '' > '' @ nat_to_string (max_body_bytes l))
    @ bound_errors (max_header_count l < length headers)
      (''too many headers: '' @ nat_to_string (length headers) @ '' > '' @ nat_to_string (max_header_count l))
    @ concat (map (\<lambda>(name, v). bound_errors (max_header_value_len l < length v)
        (''header '' @ quoted name @ '' value too long: '' @ nat_to_string (length v) @ '' > ''
          @ nat_to_string (max_header_value_len l))) headers)
    @ bound_errors (max_url_len l < length route)
      (''URL too long: '' @ nat_to_string (length route) @ '' > '' @ nat_to_string (max_url_len l))"

definition header_value :: "(string \<times> string) list \<Rightarrow> string \<Rightarrow> string option" where
  "header_value headers name = map_of (rev (map (\<lambda>(k, v). (map lower k, v)) headers)) (map lower name)"

definition header_errors :: "(string \<times> string) list \<Rightarrow> HeaderRequirement \<Rightarrow> string list" where
  "header_errors headers req =
    (case header_value headers (hr_name req) of
       None \<Rightarrow> bound_errors (hr_required req) (''missing required header '' @ quoted (hr_name req))
     | Some v \<Rightarrow> bound_errors (allowed_values req \<noteq> [] \<and> v \<notin> set (allowed_values req))
         (''header '' @ quoted (hr_name req) @ '' value '' @ quoted v @ '' not in allowed list''))"

definition body_errors :: "numerals \<Rightarrow> RequestValidationConfig \<Rightarrow> string \<Rightarrow> string list" where
  "body_errors nu cfg body =
    (case body_schema cfg of Some schema \<Rightarrow> (case validate_json nu body schema of Inl es \<Rightarrow> es | Inr _ \<Rightarrow> []) | None \<Rightarrow> [])"

definition request_errors ::
  "numerals \<Rightarrow> RequestValidationConfig \<Rightarrow> string \<Rightarrow> string \<Rightarrow> (string \<times> string) list \<Rightarrow> string \<Rightarrow> string list" where
  "request_errors nu cfg route m headers body =
    method_errors cfg m @ size_errors (size_limits cfg) route headers body
    @ concat (map (header_errors headers) (required_headers cfg)) @ body_errors nu cfg body"

definition validate_request ::
  "numerals \<Rightarrow> string \<Rightarrow> string \<Rightarrow> (string \<times> string) list \<Rightarrow> string \<Rightarrow> RequestValidator
   \<Rightarrow> (bool \<times> string list) \<times> RequestValidator" where
  "validate_request nu route m headers body r =
    (let r = r\<lparr>total_validated := total_validated r + 1\<rparr>
     in case find_config (rv_configs r) route of
          None \<Rightarrow> ((True, []), r)
        | Some cfg \<Rightarrow>
            let errors = request_errors nu cfg route m headers body
            in ((errors = [], errors), if errors = [] then r else r\<lparr>rv_total_rejected := rv_total_rejected r + 1\<rparr>))"

definition validator_stats :: "RequestValidator \<Rightarrow> u64 \<times> u64" where
  "validator_stats r = (total_validated r, rv_total_rejected r)"

section \<open>Wildcards against their language\<close>

text \<open>\<open>exact_parts ps w\<close>: the parts occur in order in \<open>w\<close>, with any text before each, and nothing after the last.\<close>

fun exact_parts :: "string list \<Rightarrow> string \<Rightarrow> bool" where
  "exact_parts [] w = (w = [])"
| "exact_parts (p # ps) w = (\<exists>u v. w = u @ p @ v \<and> exact_parts ps v)"

definition wildcard_language :: "string \<Rightarrow> string \<Rightarrow> bool" where
  "wildcard_language pattern v \<longleftrightarrow>
    (\<exists>p parts w. split_on (CHR ''*'') pattern = p # parts \<and> v = p @ w \<and> exact_parts parts w)"

lemma exact_skip: "exact_parts ps w \<Longrightarrow> exact_parts ([] # ps) w"
  by (simp, metis append_Nil)

lemma split_cons: "\<exists>p ps. split_on c s = p # ps"
  by (cases s) (auto split: list.splits)

lemma split_snoc: "split_on c (s @ [c]) = split_on c s @ [[]]"
proof (induction s)
  case (Cons d s)
  obtain p ps where "split_on c s = p # ps" using split_cons by blast
  with Cons show ?case by simp
qed simp

lemma wildcard_rest_defined:
  "(\<exists>pos. wildcard_rest v parts start = Some pos) \<longleftrightarrow> in_order parts (drop start v)"
proof (induction parts arbitrary: start)
  case (Cons p ps)
  show ?case
  proof (cases "p = []")
    case True
    with Cons show ?thesis by (simp del: in_order.simps(2))
  next
    case False
    with Cons show ?thesis by (auto simp: in_order_find add_ac simp del: in_order.simps(2) split: option.splits)
  qed
qed simp

lemma wildcard_rest_exact:
  "wildcard_rest v parts start = Some pos \<Longrightarrow> start \<le> length v \<Longrightarrow>
   start \<le> pos \<and> pos \<le> length v \<and> exact_parts parts (take (pos - start) (drop start v))"
proof (induction parts arbitrary: start)
  case (Cons p ps)
  show ?case
  proof (cases "p = []")
    case True
    with Cons have "start \<le> pos \<and> pos \<le> length v \<and> exact_parts ps (take (pos - start) (drop start v))" by simp
    then show ?thesis using True exact_skip by blast
  next
    case False
    with Cons.prems obtain i where i: "find_segment p (drop start v) = Some i" "wildcard_rest v ps (start + i + length p) = Some pos"
      by (auto split: option.splits)
    let ?t = "drop start v" and ?next = "start + i + length p"
    have t: "?t = take i ?t @ p @ drop (i + length p) ?t" by (rule find_segment_sound [OF i(1)])
    then have "length (take i ?t) + length p \<le> length ?t" by (metis append_assoc le_add1 length_append)
    moreover have "i \<le> length ?t"
    proof (rule ccontr)
      assume "\<not> i \<le> length ?t"
      then have "?t = ?t @ p" using t by simp
      with False show False by simp
    qed
    ultimately have le: "?next \<le> length v" using Cons.prems(2) by simp
    from Cons.IH [OF i(2) le] have ih: "?next \<le> pos" "pos \<le> length v" "exact_parts ps (take (pos - ?next) (drop ?next v))" by auto
    have "take (pos - start) ?t = take i ?t @ p @ take (pos - ?next) (drop ?next v)"
    proof -
      have "take (pos - start) ?t = take (pos - start) (take i ?t @ p @ drop (i + length p) ?t)" using t by simp
      also have "\<dots> = take i ?t @ p @ take (pos - ?next) (drop ?next v)"
        using ih(1) \<open>i \<le> length ?t\<close> by (simp add: add_ac)
      finally show ?thesis .
    qed
    with ih show ?thesis by auto
  qed
qed simp

lemma exact_open: "exact_parts (ps @ [[]]) w \<longleftrightarrow> in_order ps w"
  by (induction ps arbitrary: w) auto

lemma in_order_open: "in_order (ps @ [[]]) w \<longleftrightarrow> in_order ps w"
  by (induction ps arbitrary: w) auto

text \<open>
  Property: a wildcard pattern only accepts texts of its language, and accepts all of them when it has no wildcard or
  ends with one.
\<close>

theorem wildcard_sound_complete:
  "(wildcard_match pattern v \<longrightarrow> wildcard_language pattern v)
   \<and> (CHR ''*'' \<notin> set pattern \<or> suffix ''*'' pattern \<longrightarrow> wildcard_match pattern v = wildcard_language pattern v)"
proof (cases "CHR ''*'' \<in> set pattern")
  case False
  then show ?thesis by (auto simp: wildcard_match_def wildcard_language_def split_on_no_sep)
next
  case True
  obtain p parts where s: "split_on (CHR ''*'') pattern = p # parts" using split_cons by blast
  have sound: "wildcard_language pattern v" if m: "wildcard_match pattern v" and n: "\<not> suffix ''*'' pattern"
  proof -
    from m n True s have "prefix p v" "wildcard_rest v parts (length p) = Some (length v)"
      by (auto simp: wildcard_match_def split: option.splits)
    then show ?thesis using wildcard_rest_exact [of v parts "length p" "length v"] s
      by (auto simp: wildcard_language_def prefix_def)
  qed
  have both: "wildcard_match pattern v = wildcard_language pattern v" if "suffix ''*'' pattern"
  proof -
    from that obtain q where q: "pattern = q @ [CHR ''*'']" by (auto simp: suffix_def)
    obtain p' ps where "split_on (CHR ''*'') q = p' # ps" using split_cons by blast
    then have ps: "parts = ps @ [[]]" using s by (simp add: q split_snoc)
    have "wildcard_match pattern v \<longleftrightarrow> prefix p v \<and> (\<exists>pos. wildcard_rest v parts (length p) = Some pos)"
      using True s that by (auto simp: wildcard_match_def split: option.splits)
    also have "\<dots> \<longleftrightarrow> wildcard_language pattern v"
      unfolding wildcard_rest_defined by (auto simp: wildcard_language_def s ps exact_open in_order_open prefix_def)
    finally show ?thesis .
  qed
  show ?thesis using sound both True by blast
qed

lemma wildcard_sound_complete_witness:
  "wildcard_match ''a*'' ''abc'' = wildcard_language ''a*'' ''abc''"
  using wildcard_sound_complete [of "''a*''" "''abc''"] by (simp add: suffix_def)

text \<open>
  Property: a pattern that does not end with its wildcard may reject a text of its language, since the last part is
  taken where it occurs first: \<open>*.x\<close> rejects \<open>a.x.x\<close>.
\<close>

theorem wildcard_rejects_second_occurrence:
  "\<not> wildcard_match ''*.x'' ''a.x.x'' \<and> wildcard_language ''*.x'' ''a.x.x''"
proof
  show "\<not> wildcard_match ''*.x'' ''a.x.x''" by (simp add: wildcard_match_def suffix_def)
  have "split_on (CHR ''*'') ''*.x'' = [[], ''.x'']" by simp
  moreover have "exact_parts [''.x''] (''a.x'' @ ''.x'' @ [])" by (simp only: exact_parts.simps) blast
  ultimately show "wildcard_language ''*.x'' ''a.x.x''" unfolding wildcard_language_def by fastforce
qed

section \<open>Schemas against the values they describe\<close>

definition within_bounds :: "('a \<Rightarrow> 'a \<Rightarrow> bool) \<Rightarrow> 'a option \<Rightarrow> 'a option \<Rightarrow> 'a \<Rightarrow> bool" where
  "within_bounds lt lo hi x \<longleftrightarrow> (case lo of Some l \<Rightarrow> \<not> lt x l | None \<Rightarrow> True) \<and> (case hi of Some h \<Rightarrow> \<not> lt h x | None \<Rightarrow> True)"

fun conforms :: "JsonVal \<Rightarrow> SchemaType \<Rightarrow> bool" and conforms_fields :: "(string \<times> JsonVal) list \<Rightarrow> SchemaField list \<Rightarrow> bool" where
  "conforms v (ST_Nullable inner) = (v = JNull \<or> conforms v inner)"
| "conforms v ST_Boolean = (\<exists>b \<in> {True, False}. v = JBool b)"
| "conforms v (ST_Integer lo hi) = (case v of JNumber n \<Rightarrow> within_bounds (\<lambda>a b. sint a < sint b) lo hi (f64_to_i64 n) | _ \<Rightarrow> False)"
| "conforms v (ST_Float lo hi) = (case v of JNumber n \<Rightarrow> within_bounds fp_lt lo hi n | _ \<Rightarrow> False)"
| "conforms v (ST_String lo hi pat) =
    (case v of JStr s \<Rightarrow> within_bounds (<) lo hi (length s) \<and> (case pat of Some p \<Rightarrow> wildcard_match p s | None \<Rightarrow> True) | _ \<Rightarrow> False)"
| "conforms v (ST_Array item m) =
    (case v of JArray xs \<Rightarrow> (case m of Some k \<Rightarrow> length xs \<le> k | None \<Rightarrow> True) \<and> (\<forall>x \<in> set xs. conforms x item) | _ \<Rightarrow> False)"
| "conforms v (ST_Object fds) = (case v of JObject fs \<Rightarrow> conforms_fields fs fds | _ \<Rightarrow> False)"
| "conforms_fields fs [] = True"
| "conforms_fields fs (SchemaField name schema req # rest) =
    ((case field_value fs name of Some x \<Rightarrow> conforms x schema | None \<Rightarrow> \<not> req) \<and> conforms_fields fs rest)"

lemma bound_errors_empty [simp]: "bound_errors bad msg = [] \<longleftrightarrow> \<not> bad"
  by (simp add: bound_errors_def)

lemma ranged_empty:
  "integer_errors lo hi path n = [] \<longleftrightarrow> within_bounds (\<lambda>a b. sint a < sint b) lo hi n"
  "float_errors nu flo fhi path x = [] \<longleftrightarrow> within_bounds fp_lt flo fhi x"
  "string_errors l h pat path s = [] \<longleftrightarrow>
     within_bounds (<) l h (length s) \<and> (case pat of Some p \<Rightarrow> wildcard_match p s | None \<Rightarrow> True)"
  by (auto simp: integer_errors_def float_errors_def string_errors_def within_bounds_def split: option.split)

lemma enumerate_all: "(\<forall>(i, x) \<in> set (List.enumerate n xs). P x) \<longleftrightarrow> (\<forall>x \<in> set xs. P x)"
  by (induction xs arbitrary: n) auto

lemma errors_empty:
  "value_errors nu v s path = [] \<longleftrightarrow> conforms v s"
  "object_errors nu fs fds path = [] \<longleftrightarrow> conforms_fields fs fds"
proof (induction nu v s path and nu fs fds path rule: value_errors_object_errors.induct)
  case (6 nu v item m path)
  show ?case
  proof (cases v)
    case (JArray xs)
    have "(\<forall>(i, x) \<in> set (List.enumerate 0 xs). value_errors nu x item (item_path path i) = []) \<longleftrightarrow>
        (\<forall>(i, x) \<in> set (List.enumerate 0 xs). conforms x item)"
      using 6 [OF JArray] by (fastforce simp: in_set_enumerate_eq)
    then show ?thesis using JArray enumerate_all [of 0 xs "\<lambda>x. conforms x item"]
      by (auto simp: concat_eq_Nil_conv split: option.split)
  qed simp_all
qed (auto simp: ranged_empty split: JsonVal.split option.split)

text \<open>
  Property: a text is accepted by a schema exactly when a value is read at its start and conforms to the schema: no
  error is lost and none is invented, at any depth.
\<close>

theorem json_accepted_iff_conforms:
  "validate_json nu text schema = Inr () \<longleftrightarrow> (\<exists>v n. parse_json (read_f64 nu) text = Some (v, n) \<and> conforms v schema)"
  by (auto simp: validate_json_def Let_def errors_empty split: option.split)

text \<open>
  Property: what follows the first value is ignored: a text that begins with \<open>true\<close> passes as a boolean, whatever
  comes after it.
\<close>

theorem trailing_text_accepted: "validate_json nu (''true'' @ garbage) ST_Boolean = Inr ()"
  using keywords_read_in_any_text [of "read_f64 nu" garbage] by (auto simp: json_accepted_iff_conforms)

text \<open>
  Property: numbers are cut to integers before an integer schema sees them: a fraction above the upper bound passes
  when its whole part does not exceed the bound.
\<close>

theorem fraction_passes_as_integer:
  "value_errors nu (JNumber (FFin (7 / 2))) (ST_Integer (Some 0) (Some 3)) path = []"
proof -
  have "\<lfloor>7 / 2 :: rat\<rfloor> = 3" by (rule floor_unique) simp_all
  then have "f64_to_i64 (FFin (7 / 2)) = 3" by (simp add: Let_def)
  then show ?thesis by (simp add: ranged_empty within_bounds_def)
qed

section \<open>Requests\<close>

lemma better_keeps:
  "fold (better_config route) configs best = Some b \<Longrightarrow>
   (Some b = best \<or> b \<in> set configs \<and> prefix (fst b) route)
   \<and> (\<forall>x \<in> set configs. prefix (fst x) route \<longrightarrow> length (fst x) \<le> length (fst b))
   \<and> (\<forall>a. best = Some a \<longrightarrow> length (fst a) \<le> length (fst b))"
proof (induction configs arbitrary: best)
  case (Cons x configs)
  from Cons.IH [OF Cons.prems [simplified]] show ?case
    by (cases x) (auto simp: better_config_def split: if_splits option.splits)
qed simp

lemma better_none: "fold (better_config route) configs best = None \<longleftrightarrow> best = None \<and> (\<forall>x \<in> set configs. \<not> prefix (fst x) route)"
  by (induction configs arbitrary: best) (auto simp: better_config_def split: option.splits)

lemma find_config_some:
  "find_config configs route = Some cfg \<Longrightarrow>
   \<exists>p. (p, cfg) \<in> set configs \<and> prefix p route \<and> (\<forall>(q, c) \<in> set configs. prefix q route \<longrightarrow> length q \<le> length p)"
  using better_keeps [of route configs None] unfolding find_config_def by (fastforce split: option.splits)

lemma same_prefix_length: "prefix p r \<Longrightarrow> prefix q r \<Longrightarrow> length p = length q \<Longrightarrow> p = q"
  by (metis prefix_def append_eq_append_conv)

text \<open>
  Property: a route is validated by the configuration with the longest prefix of it, the same one in every order of
  iteration, and by none exactly when no prefix matches.
\<close>

theorem longest_prefix_chosen:
  assumes "hm_wf configs"
  shows "find_config configs route = Some cfg \<longleftrightarrow>
    (\<exists>p. hm_get configs p = Some cfg \<and> prefix p route \<and> (\<forall>q. hm_get configs q \<noteq> None \<and> prefix q route \<longrightarrow> length q \<le> length p))"
    (is "_ \<longleftrightarrow> ?best")
proof
  have key: "hm_get configs q \<noteq> None \<longleftrightarrow> (\<exists>c. (q, c) \<in> set configs)" for q using hm_get_eq_Some_iff [OF assms] by auto
  show "find_config configs route = Some cfg \<Longrightarrow> ?best"
    using find_config_some [of configs route cfg] unfolding key hm_get_eq_Some_iff [OF assms] by fast
  assume ?best
  then obtain p where p: "(p, cfg) \<in> set configs" "prefix p route"
    and longest: "\<And>q c. (q, c) \<in> set configs \<Longrightarrow> prefix q route \<Longrightarrow> length q \<le> length p"
    unfolding key hm_get_eq_Some_iff [OF assms] by blast
  have "find_config configs route \<noteq> None" using p better_none [of route configs None] by (auto simp: find_config_def)
  then obtain c where c: "find_config configs route = Some c" by auto
  then obtain q where q: "(q, c) \<in> set configs" "prefix q route" "\<forall>(x, d) \<in> set configs. prefix x route \<longrightarrow> length x \<le> length q"
    using find_config_some by blast
  have "length p = length q" using longest [OF q(1,2)] q(3) p by fastforce
  then have "p = q" using same_prefix_length [OF p(2) q(2)] by simp
  then show "find_config configs route = Some cfg"
    using p(1) q(1) c hm_get_eq_Some_iff [OF assms, of p] by (metis option.inject)
qed

definition no_limits :: "string list \<Rightarrow> RequestValidationConfig" where
  "no_limits ms = \<lparr>size_limits = \<lparr>max_body_bytes = 100, max_header_count = 9, max_header_value_len = 9, max_url_len = 99\<rparr>,
     required_headers = [], body_schema = None, allowed_methods = ms\<rparr>"

lemma longest_prefix_chosen_witness:
  "find_config [(''/'', no_limits []), (''/a'', no_limits [''GET''])] ''/a/b'' = Some (no_limits [''GET''])
   \<and> hm_get [(''/'', no_limits []), (''/a'', no_limits [''GET''])] ''/a'' = Some (no_limits [''GET''])"
proof -
  have wf: "hm_wf [(''/'', no_limits []), (''/a'', no_limits [''GET''])]" by (simp add: hm_wf_def)
  show ?thesis by (subst longest_prefix_chosen [OF wf]) (auto simp: hm_get_def split: if_splits intro!: exI [of _ "''/a''"])
qed

definition header_ok :: "(string \<times> string) list \<Rightarrow> HeaderRequirement \<Rightarrow> bool" where
  "header_ok headers req \<longleftrightarrow> (case header_value headers (hr_name req) of
     None \<Rightarrow> \<not> hr_required req | Some v \<Rightarrow> allowed_values req = [] \<or> v \<in> set (allowed_values req))"

definition request_ok :: "numerals \<Rightarrow> RequestValidationConfig \<Rightarrow> string \<Rightarrow> string \<Rightarrow> (string \<times> string) list \<Rightarrow> string \<Rightarrow> bool" where
  "request_ok nu cfg route m headers body \<longleftrightarrow>
    (allowed_methods cfg = [] \<or> (\<exists>a \<in> set (allowed_methods cfg). same_ignoring_case a m))
    \<and> length body \<le> max_body_bytes (size_limits cfg) \<and> length headers \<le> max_header_count (size_limits cfg)
    \<and> (\<forall>(name, v) \<in> set headers. length v \<le> max_header_value_len (size_limits cfg))
    \<and> length route \<le> max_url_len (size_limits cfg)
    \<and> (\<forall>req \<in> set (required_headers cfg). header_ok headers req)
    \<and> (case body_schema cfg of Some s \<Rightarrow> validate_json nu body s = Inr () | None \<Rightarrow> True)"

lemma validate_json_errors: "validate_json nu body s = Inl es \<Longrightarrow> es \<noteq> []"
  by (auto simp: validate_json_def Let_def split: option.splits if_splits)

lemma request_errors_empty: "request_errors nu cfg route m headers body = [] \<longleftrightarrow> request_ok nu cfg route m headers body"
proof -
  have "header_errors headers req = [] \<longleftrightarrow> header_ok headers req" for req
    by (auto simp: header_errors_def header_ok_def split: option.split)
  moreover have "method_errors cfg m = [] \<longleftrightarrow> allowed_methods cfg = [] \<or> (\<exists>a \<in> set (allowed_methods cfg). same_ignoring_case a m)"
    by (auto simp: method_errors_def list_ex_iff)
  moreover have "size_errors l route headers body = [] \<longleftrightarrow> length body \<le> max_body_bytes l \<and> length headers \<le> max_header_count l
      \<and> (\<forall>(name, v) \<in> set headers. length v \<le> max_header_value_len l) \<and> length route \<le> max_url_len l" for l
    by (auto simp: size_errors_def concat_eq_Nil_conv not_less)
  moreover have "body_errors nu cfg body = [] \<longleftrightarrow>
      (case body_schema cfg of Some s \<Rightarrow> validate_json nu body s = Inr () | None \<Rightarrow> True)"
    using validate_json_errors by (auto simp: body_errors_def split: option.split sum.split)
  ultimately show ?thesis by (simp add: request_errors_def request_ok_def concat_eq_Nil_conv conj_assoc)
qed

text \<open>
  Property: a request is valid exactly when no configuration matches its route or it meets every demand of the matching
  one; the errors are empty exactly then, and only the other requests count as rejected.
\<close>

theorem request_valid_iff:
  "(fst (fst (validate_request nu route m headers body r)) \<longleftrightarrow>
      (case find_config (rv_configs r) route of Some cfg \<Rightarrow> request_ok nu cfg route m headers body | None \<Rightarrow> True))
   \<and> (fst (fst (validate_request nu route m headers body r)) \<longleftrightarrow> snd (fst (validate_request nu route m headers body r)) = [])
   \<and> validator_stats (snd (validate_request nu route m headers body r)) =
       (total_validated r + 1,
        rv_total_rejected r + (if fst (fst (validate_request nu route m headers body r)) then 0 else 1))"
  by (auto simp: validate_request_def validator_stats_def Let_def request_errors_empty split: option.split)

end
