(* ===== verification/Spec2Isabelle.thy ===== *)
theory Spec2Isabelle
  imports Compression CircuitBreaker AutoscaleProps Dag SlaQueue Wfq Dedup LoadBalancer FlowControl DependencyGraph RequestPrioritizer Bulkhead RequestSigning SlidingWindow ConnectionPool Failover CircuitMesh LoadShed RetryPolicy Deadline Gates Canary CanaryRelease RateLimits Coalescer ResponseCache Affinity Reservation TrafficShaper HealthRunner AdaptiveBreaker RequestDedup Retries ServiceRegistry PriorityBalancer PriorityMonitor HealthAggregator EndpointCatalog DownstreamPressure DynamicConfig RequestCoalescing AdaptiveTimeout JsonText RequestValidator
begin

text \<open>
  HelixRouter decides, per job, how the job runs: inline, as a task of its own, on a bounded
  CPU pool, in a batch, or not at all. This development models the router and the components
  around it, and proves what makes them correct. Files are named relative to \<open>src/src\<close>.

  \<^bold>\<open>The parts and how they interact.\<close> A caller hands a \<open>Job\<close> (\<open>types.rs\<close>) to \<open>Router::submit\<close>, or a
  closure with a hint to \<open>Router::run\<close> (\<open>router.rs\<close>). The router checks the deadline, asks the
  result cache (\<open>result_cache.rs\<close>), computes the load from its queue and its permits, and chooses
  a strategy: by the thresholds of its configuration (\<open>config.rs\<close>), or, once warmed up, by the
  learner (\<open>neural_router.rs\<close>). The job's kernel (\<open>strategies.rs\<close>) then runs inline, in a task, on the
  pool behind a bounded channel and a dispatcher, or in a batch that a flusher answers. Outcomes
  go to the metrics (\<open>metrics.rs\<close>), the learner and the timeout manager (\<open>timeout_mgr.rs\<close>); the
  autoscaler (\<open>autoscaler.rs\<close>) watches the load and rewrites the queue capacity of the configuration.
  Clients of the router stand in front of it: job graphs (\<open>dag.rs\<close>), the deadline scheduler, the
  admission and cost gates, the canary router. The other modules of the crate are libraries for its
  users, each with its own state: queues, limits, breakers, balancers, caches, signing.

  \<^bold>\<open>Foundations.\<close>
  \<^item> \<open>Prelude\<close>: machine integers with saturation, hash maps as association lists, decimal printing, and
    the interfaces: \<open>stateful\<close> (operations that keep an invariant), \<open>codec\<close>, \<open>breaker\<close>. Every stateful
    component interprets \<open>stateful\<close> on its own operations, so that its invariant holds in every
    reachable state; the three circuit breakers of the crate interpret \<open>breaker\<close>, the coders of
    \<open>Compression\<close> interpret \<open>codec\<close>.
  \<^item> \<open>Floats\<close>: binary64 and binary32 values as a datatype with rounding to nearest even, and the
    conversions to integers that Rust's \<open>as\<close> makes. \<open>TokenBucket\<close>, \<open>Bytes\<close> and \<open>Traces\<close> hold what several
    components share: the range of a bucket's level, strings as bytes with the FNV hash, and runs of a
    labelled step relation. \<open>Rotation\<close> counts how often a rotation or a random number picks each of several
    weighted candidates; its interface \<open>rotation\<close> is interpreted by the round robin of \<open>LoadBalancer\<close> and
    of \<open>ServiceRegistry\<close>.

  \<^bold>\<open>The router and what it owns.\<close>
  \<^item> \<open>Types\<close>, \<open>Strategies\<close>, \<open>Config\<close>: the jobs, the three kernels and their dispatch, the
    configuration with validation, patching, replacement in the two parts the router makes of it
    (\<open>set_config\<close>, posted through \<open>web.rs\<close>), reloading by file and by name.
  \<^item> \<open>ResultCache\<close>, \<open>OutputCodec\<close>, \<open>Metrics\<close>, \<open>NeuralRouter\<close>, \<open>TimeoutMgr\<close>, \<open>Autoscaler\<close>.
  \<^item> \<open>Tasks\<close>, \<open>Router\<close>, \<open>RouterSteps\<close>, \<open>RouterProps\<close>, \<open>AutoscaleProps\<close>: the tasks in flight (channel, permits,
    workers, batches, tickets of waiting callers, callers that await a task, a permit or a closure), the
    operations of the router on its whole state, the relation of its atomic steps, and what holds of all
    its executions. \<open>task_step\<close> collects what the steps do to the tasks, so that their invariant is
    proved once; two fields of the tasks, \<open>panics\<close> and \<open>discarded\<close>, are history that no operation reads.

  \<^bold>\<open>Around the router\<close>, one theory per file unless two are named:
  \<^item> scheduling of jobs: \<open>Dag\<close>, \<open>Deadline\<close>, \<open>SlaQueue\<close>, \<open>Wfq\<close>, \<open>Dedup\<close>, \<open>RequestPrioritizer\<close>, \<open>Coalescer\<close>
    (\<open>request_coalescer.rs\<close>), \<open>RequestCoalescing\<close>, \<open>RequestDedup\<close> (\<open>request_deduplicator.rs\<close>), \<open>Affinity\<close>,
    \<open>PriorityBalancer\<close>, \<open>PriorityMonitor\<close>;
  \<^item> limits on traffic: \<open>Gates\<close> (\<open>admission.rs\<close>, \<open>cost_router.rs\<close>), \<open>LoadShed\<close>, \<open>FlowControl\<close>, \<open>RateLimits\<close>
    (\<open>rate_limiter.rs\<close>, \<open>rate_limiter_v2.rs\<close>), \<open>SlidingWindow\<close> (\<open>sliding_window_counter.rs\<close>,
    \<open>sliding_rate_limiter.rs\<close>), \<open>TrafficShaper\<close>, \<open>Bulkhead\<close>, \<open>Reservation\<close>, \<open>DownstreamPressure\<close>;
  \<^item> failures: \<open>CircuitBreaker\<close> (\<open>circuit_breaker_registry.rs\<close>), \<open>CircuitMesh\<close>, \<open>AdaptiveBreaker\<close>
    (\<open>adaptive_circuit_breaker.rs\<close>), \<open>RetryPolicy\<close>, \<open>Retries\<close> (\<open>retry.rs\<close>,
    \<open>retry_middleware.rs\<close>), \<open>AdaptiveTimeout\<close>, \<open>Failover\<close>, \<open>DependencyGraph\<close>, \<open>HealthRunner\<close>
    (\<open>health_check_runner.rs\<close>), \<open>HealthAggregator\<close>;
  \<^item> releases, balancing and payloads: \<open>Canary\<close>, \<open>CanaryRelease\<close> (\<open>canary_controller.rs\<close>,
    \<open>canary_deployer.rs\<close>), \<open>LoadBalancer\<close>, \<open>ServiceRegistry\<close>, \<open>EndpointCatalog\<close>, \<open>ConnectionPool\<close>, \<open>ResponseCache\<close>,
    \<open>RequestSigning\<close>, \<open>Compression\<close>, \<open>DynamicConfig\<close>, \<open>JsonText\<close> and \<open>RequestValidator\<close>
    (\<open>request_validator.rs\<close>).

  \<^bold>\<open>State and steps.\<close> A struct is a record with the same fields, an enum a datatype. A hash map is a
  list of pairs, whose order stands for the unspecified iteration order; where the code iterates
  two maps independently, the second order is a parameter (\<open>rank\<close> in \<open>Dag\<close> and \<open>DependencyGraph\<close>).
  Equal elements of a heap are told apart by a parameter (\<open>SlaQueue\<close>, \<open>Deadline\<close>). Clock readings are
  arguments, one for each time the code reads the clock. What runs concurrently is a step relation:
  \<open>router_step\<close>, where the sections of all callers, the dispatcher, the workers and the flushers
  interleave freely. A section ends where the code waits for a reply, a spawned task, a permit or a
  closure: a submission that spawns a task and a call of \<open>run\<close> go on in a later step
  (\<open>resume_spawned\<close>, \<open>run_resumed\<close>), and every caller may go away while it waits there. A section that takes
  several locks of the router one after the other is one step, and no caller goes away inside it, but for the
  two parts of \<open>set_config\<close>, between which patches and other replacements fall and which, like a patch,
  may be cancelled half done. The other relations: \<open>bh_step\<close> and \<open>sb_step\<close> (the two bulkheads, one step per access to a shared
  counter, calls may be cancelled); \<open>drain_move\<close> (the scheduler between two submissions); \<open>coal_step\<close>
  (leaders and joiners of coalesced calls, with the moment each subscribed and the channels that are closed);
  \<open>dd_step\<close> (originators and waiters of deduplicated calls).

  \<^bold>\<open>What the lemmas show.\<close> Of the router: no call is lost or counted twice, also when its caller
  goes away, the pool never exceeds its permits, every caller gets the outputs of its own job unless the worker
  of that job panicked, a job is shed exactly under backpressure, the pressure of submissions stays in [0,1],
  adaptation stays in its range, and flushes answer the oldest entries. Of its
  parts: the cache's queue and map agree, the learner's state stays well formed and follows its
  rewards, aggregates describe their history, timeouts are bounded, configurations stay valid, and their two
  copies agree unless two writes overlap. Of the kernels: the prime counter counts primes, the risk kernel
  returns the fifth percentile of its samples. Of the schedulers: cycle detection
  and topological sorting are exact and executions respect dependencies; a drained scheduler reports
  every job once; the queues conserve jobs and serve by weight, and the strict one cannot be told apart from a
  single line; duplicates and joiners get the result
  of the call they joined. Of the limits: how many calls each lets through in any stretch of time, and
  that levels stay in range. Of the failure handling: circuits open, cascade and recover as
  configured, retries settle, checks follow their history, timeouts cover the percentile they are set to,
  critical paths are longest. Of the rest: balancing follows weights, a reloadable configuration keeps its
  schema and its patterns match their language but for the cases shown, the reader of JSON inverts compact texts
  and a validated request meets every demand of its configuration, connections are exclusive, replays are refused, every compression
  algorithm is lossless. Where the code does not keep what it documents, a theorem shows the case; these
  theorems stand beside the others in the theory of the component.

  \<^bold>\<open>Fuel and termination.\<close> The depth-first search and Kahn's loop of \<open>Dag\<close> carry the number of nodes
  as fuel; \<open>search_correct\<close> and \<open>kahn_inv\<close> with its lemmas show that it suffices for every graph the
  operations can build. \<open>next_loop\<close> of \<open>Wfq\<close> and \<open>follow\<close> of \<open>DependencyGraph\<close> are partial functions,
  since these loops may run for ever; \<open>next_job_returns_iff\<close> says when the first returns, and the lemmas
  on critical paths that the second returns on the graphs it is applied to. All other loops are
  structural or come with a termination proof (\<open>execute_waves\<close>, \<open>explore\<close>, the two \<open>retry_loop\<close>s, \<open>parse_json\<close>, the drains of the
  scheduler and the shaper, eviction, and the coders).

  \<^bold>\<open>Parameters.\<close> Code outside the repository is an argument: parsing of configuration files by
  \<open>serde_json\<close>, printing and parsing of floating-point numbers, the \<open>Debug\<close> text of a job, SHA-256 and
  HMAC, the logarithm used by a feature of the learner, the replies of the network, clocks and
  latencies.

  \<^bold>\<open>Not modelled.\<close> The web server, the command line, logging and tracing, serialization of the
  statistics and accessors that pass a field through: input and output. The simulator, the load tester
  and chaos injection: test aids. The distributed router, which wraps the router with messages over a
  service outside the repository. The modules of the crate that no other module calls and that are
  not listed above.
\<close>

end
